(* ===== verification/Xv6_Prelude.thy ===== *)
theory Xv6_Prelude
  imports Main "HOL-Library.Word"
begin

unbundle bit_operations_syntax

text \<open>
  Shared vocabulary of the development: the outcome of running kernel code, the operations the
  C statements are built from (sequencing, reading and writing globals, loops over tables), the
  machine integer types, little-endian 64-bit access to byte-addressed memory, and the generic
  lemmas on words, memories and lists that the component theories use.
\<close>

section \<open>Machine integers\<close>

type_synonym u8 = "8 word"
type_synonym u16 = "16 word"
type_synonym u32 = "32 word"
type_synonym u64 = "64 word"

text \<open>C's signed \<open>int\<close> is kept as an integer; \<open>i32\<close> is the value after 32-bit wrap-around.\<close>

definition i32 :: "int \<Rightarrow> int" where
  "i32 n = signed_take_bit 31 n"

lemma unat64_less: "unat (x :: u64) < 2 ^ 64"
proof -
  have "unat x < 2 ^ LENGTH(64)" by (rule unsigned_less)
  then show ?thesis by simp
qed

section \<open>Outcomes of kernel code\<close>

text \<open>
  A kernel function run by one thread either returns, panics (\<open>panic()\<close> in printk.c prints its
  argument and stops the machine), spins for ever unless another CPU acts (\<open>Spin\<close>), or has put
  its process to sleep and switched to the scheduler (\<open>Sleep\<close>). The last two carry the state in
  which the thread waits.
\<close>

datatype ('a, 's) outcome =
    Ok 'a 's
  | Panic string
  | Spin 's
  | Sleep 's

type_synonym ('s, 'a) kop = "'s \<Rightarrow> ('a, 's) outcome"

named_theorems kop_simps \<open>unfolding of the sequencing operations\<close>
named_theorems state_simps \<open>results of component operations on a known state\<close>

definition ret :: "'a \<Rightarrow> ('s, 'a) kop" where
  "ret a s = Ok a s"

definition panic :: "string \<Rightarrow> ('s, 'a) kop" where
  "panic msg s = Panic msg"

definition kbind :: "('s, 'a) kop \<Rightarrow> ('a \<Rightarrow> ('s, 'b) kop) \<Rightarrow> ('s, 'b) kop" where
  "kbind m f s =
     (case m s of Ok a t \<Rightarrow> f a t | Panic msg \<Rightarrow> Panic msg | Spin t \<Rightarrow> Spin t | Sleep t \<Rightarrow> Sleep t)"

definition kthen :: "('s, 'a) kop \<Rightarrow> ('s, 'b) kop \<Rightarrow> ('s, 'b) kop" where
  "kthen m n = kbind m (\<lambda>_. n)"

definition gets :: "('s \<Rightarrow> 'a) \<Rightarrow> ('s, 'a) kop" where
  "gets f s = Ok (f s) s"

definition modify :: "('s \<Rightarrow> 's) \<Rightarrow> ('s, unit) kop" where
  "modify f s = Ok () (f s)"

definition kwhen :: "bool \<Rightarrow> ('s, unit) kop \<Rightarrow> ('s, unit) kop" where
  "kwhen b m = (if b then m else ret ())"

text \<open>
  Following a pointer that may be null: page 0 is not mapped in the kernel page table, so the
  access faults and \<open>kerneltrap\<close> panics.
\<close>

definition deref :: "'a option \<Rightarrow> ('s, 'a) kop" where
  "deref p = (case p of None \<Rightarrow> panic ''kerneltrap'' | Some x \<Rightarrow> ret x)"

text \<open>A \<open>for\<close> loop over the entries of a table, without an early exit.\<close>

fun for_each :: "('i \<Rightarrow> ('s, unit) kop) \<Rightarrow> 'i list \<Rightarrow> ('s, unit) kop" where
  "for_each body [] s = Ok () s"
| "for_each body (i # is) s = kbind (body i) (\<lambda>_. for_each body is) s"

text \<open>
  A scan of a table with an early exit: \<open>body i\<close> returns \<open>Some r\<close> to leave the loop with the
  value \<open>r\<close> and \<open>None\<close> to go on; the result is \<open>None\<close> when the table is exhausted.
\<close>

fun scan :: "('i \<Rightarrow> ('s, 'r option) kop) \<Rightarrow> 'i list \<Rightarrow> ('s, 'r option) kop" where
  "scan body [] s = Ok None s"
| "scan body (i # is) s =
     kbind (body i) (\<lambda>r. case r of Some v \<Rightarrow> ret (Some v) | None \<Rightarrow> scan body is) s"

fun repeat_op :: "nat \<Rightarrow> ('s, unit) kop \<Rightarrow> ('s, unit) kop" where
  "repeat_op 0 m = ret ()"
| "repeat_op (Suc n) m = kthen m (repeat_op n m)"

lemma ret_apply [simp, kop_simps]: "ret a s = Ok a s"
  by (simp add: ret_def)

lemma panic_apply [simp, kop_simps]: "panic msg s = Panic msg"
  by (simp add: panic_def)

lemma gets_apply [simp, kop_simps]: "gets f s = Ok (f s) s"
  by (simp add: gets_def)

lemma modify_apply [simp, kop_simps]: "modify f s = Ok () (f s)"
  by (simp add: modify_def)

lemma kbind_apply [simp, kop_simps]:
  "kbind m f s =
     (case m s of Ok a t \<Rightarrow> f a t | Panic msg \<Rightarrow> Panic msg | Spin t \<Rightarrow> Spin t | Sleep t \<Rightarrow> Sleep t)"
  by (simp add: kbind_def)

lemma kthen_apply [simp, kop_simps]:
  "kthen m n s =
     (case m s of Ok a t \<Rightarrow> n t | Panic msg \<Rightarrow> Panic msg | Spin t \<Rightarrow> Spin t | Sleep t \<Rightarrow> Sleep t)"
  by (simp add: kthen_def)

lemma deref_apply [simp, kop_simps]: "deref (Some x) s = Ok x s" "deref None s = Panic ''kerneltrap''"
  by (simp_all add: deref_def)

lemma kwhen_apply [simp, kop_simps]: "kwhen b m s = (if b then m s else Ok () s)"
  by (simp add: kwhen_def)

text \<open>The monad laws: the order of the C statements is the only thing the sequencing keeps.\<close>

lemma kbind_ret_left: "kbind (ret a) f = f a"
  by (rule ext) simp

lemma kbind_ret_right: "kbind m ret = m"
  by (rule ext) (simp split: outcome.splits)

lemma kbind_assoc: "kbind (kbind m f) g = kbind m (\<lambda>a. kbind (f a) g)"
  by (rule ext) (simp split: outcome.splits)

lemma kthen_assoc: "kthen (kthen m n) k = kthen m (kthen n k)"
  by (simp add: kthen_def kbind_assoc)

lemma repeat_op_snoc: "repeat_op (Suc n) m = kthen (repeat_op n m) m"
proof (induction n)
  case 0
  then show ?case by (rule ext) (simp split: outcome.splits)
next
  case (Suc n)
  have "repeat_op (Suc (Suc n)) m = kthen m (kthen (repeat_op n m) m)"
    by (simp only: repeat_op.simps(2) [of "Suc n"] Suc.IH)
  also have "\<dots> = kthen (kthen m (repeat_op n m)) m"
    by (simp only: kthen_assoc)
  finally show ?case by (simp only: repeat_op.simps)
qed

lemma kthen_Ok: "m s = Ok a t \<Longrightarrow> kthen m n s = n t"
  by simp

lemma kbind_Ok: "m s = Ok a t \<Longrightarrow> kbind m f s = f a t"
  by simp

lemma kbind_OkE:
  assumes "kbind m f s = Ok b t"
  obtains a u where "m s = Ok a u" and "f a u = Ok b t"
  using assms by (auto split: outcome.splits)

lemma kthen_OkE:
  assumes "kthen m n s = Ok b t"
  obtains a u where "m s = Ok a u" and "n u = Ok b t"
  using assms by (auto split: outcome.splits)

text \<open>A loop whose body keeps an invariant keeps it, whatever the loop's outcome.\<close>

lemma for_each_Ok_inv:
  assumes "for_each body is s = Ok () t" and "P s"
    and "\<And>i u v. i \<in> set is \<Longrightarrow> P u \<Longrightarrow> body i u = Ok () v \<Longrightarrow> P v"
  shows "P t"
  using assms
proof (induction "is" arbitrary: s)
  case Nil
  then show ?case by simp
next
  case (Cons i "is")
  from Cons.prems(1) obtain u where b: "body i s = Ok () u" and rest: "for_each body is u = Ok () t"
    by (auto split: outcome.splits)
  have "P u" using Cons.prems(2,3) b by (meson list.set_intros(1))
  then show ?case using Cons.IH [OF rest] Cons.prems(3) by (meson list.set_intros(2))
qed

lemma for_each_append:
  "for_each body (xs @ ys) s = kthen (for_each body xs) (for_each body ys) s"
  by (induction xs arbitrary: s) (auto split: outcome.splits)

section \<open>Frames\<close>

text \<open>
  \<open>keeps f m\<close>: whenever \<open>m\<close> returns, the part \<open>f\<close> of the state is what it was. The rules follow the
  structure of the operations, so that a frame of a C function is proved by applying them.
\<close>

definition keeps :: "('s \<Rightarrow> 'b) \<Rightarrow> ('s, 'a) kop \<Rightarrow> bool" where
  "keeps f m \<longleftrightarrow> (\<forall>s r t. m s = Ok r t \<longrightarrow> f t = f s)"

named_theorems keeps_rules \<open>frame rules of the operations\<close>

lemma keepsD: "keeps f m \<Longrightarrow> m s = Ok r t \<Longrightarrow> f t = f s"
  by (auto simp: keeps_def)

lemma keepsI: "(\<And>s r t. m s = Ok r t \<Longrightarrow> f t = f s) \<Longrightarrow> keeps f m"
  by (auto simp: keeps_def)

lemma keeps_ret [keeps_rules]: "keeps f (ret a)"
  by (simp add: keeps_def)

lemma keeps_panic [keeps_rules]: "keeps f (panic msg)"
  by (simp add: keeps_def)

lemma keeps_gets [keeps_rules]: "keeps f (gets g)"
  by (simp add: keeps_def)

lemma keeps_spin [keeps_rules]: "keeps f Spin" "keeps f Sleep"
  by (simp_all add: keeps_def)

lemma keeps_deref [keeps_rules]: "keeps f (deref p)"
  by (cases p) (simp_all add: keeps_def)

lemma keeps_modify: "(\<And>s. f (g s) = f s) \<Longrightarrow> keeps f (modify g)"
  by (simp add: keeps_def)

lemma keeps_kbind [keeps_rules]:
  "keeps f m \<Longrightarrow> (\<And>a. keeps f (n a)) \<Longrightarrow> keeps f (kbind m n)"
  unfolding keeps_def by (metis kbind_OkE)

lemma keeps_kthen [keeps_rules]: "keeps f m \<Longrightarrow> keeps f n \<Longrightarrow> keeps f (kthen m n)"
  unfolding kthen_def by (rule keeps_kbind)

lemma keeps_kwhen [keeps_rules]: "keeps f m \<Longrightarrow> keeps f (kwhen b m)"
  by (simp add: kwhen_def keeps_ret)

lemma keeps_if [keeps_rules]: "(b \<Longrightarrow> keeps f m) \<Longrightarrow> (\<not> b \<Longrightarrow> keeps f n) \<Longrightarrow> keeps f (if b then m else n)"
  by simp

lemma keeps_case_option [keeps_rules]:
  "keeps f m \<Longrightarrow> (\<And>x. keeps f (n x)) \<Longrightarrow> keeps f (case v of None \<Rightarrow> m | Some x \<Rightarrow> n x)"
  by (cases v) simp_all

lemma keeps_case_prod [keeps_rules]: "(\<And>x y. keeps f (n x y)) \<Longrightarrow> keeps f (case v of (x, y) \<Rightarrow> n x y)"
  by (cases v) simp

lemma keeps_for_each [keeps_rules]:
  assumes "\<And>i. i \<in> set is \<Longrightarrow> keeps f (body i)" shows "keeps f (for_each body is)"
proof (rule keepsI)
  fix s r t assume "for_each body is s = Ok r t"
  then have run: "for_each body is s = Ok () t" by simp
  show "f t = f s"
    by (rule for_each_Ok_inv [OF run]) (use assms keepsD in \<open>fastforce+\<close>)
qed

lemma keeps_scan [keeps_rules]:
  assumes "\<And>i. i \<in> set is \<Longrightarrow> keeps f (body i)" shows "keeps f (scan body is)"
  using assms
proof (induction "is")
  case Nil
  then show ?case by (simp add: keeps_def)
next
  case (Cons i "is")
  have eq: "scan body (i # is) =
      kbind (body i) (\<lambda>r. case r of Some v \<Rightarrow> ret (Some v) | None \<Rightarrow> scan body is)"
    by (rule ext) simp
  show ?case unfolding eq using Cons by (intro keeps_rules) simp_all
qed

end
