(* ===== verification/Xv6_Riscv.thy ===== *)
theory Xv6_Riscv
  imports Xv6_Prelude
begin

text \<open>
  The constants and macros of param.h, memlayout.h and riscv.h: page rounding, the Sv39 page-table
  index extraction, the packing of physical addresses into page-table entries, and the address
  space layout. Each macro is the C expression on 64-bit words; the lemmas give their arithmetic
  meaning and the round trips the page-table code depends on.
\<close>

section \<open>param.h\<close>

definition NPROC :: nat where "NPROC = 64"
definition NCPU :: nat where "NCPU = 8"
definition NOFILE :: nat where "NOFILE = 16"
definition NFILE :: nat where "NFILE = 100"
definition NINODE :: nat where "NINODE = 50"
definition MAXARG :: nat where "MAXARG = 32"
definition MAXOPBLOCKS :: nat where "MAXOPBLOCKS = 10"
definition LOGBLOCKS :: nat where "LOGBLOCKS = MAXOPBLOCKS * 3"
definition NBUF :: nat where "NBUF = MAXOPBLOCKS * 3"

section \<open>riscv.h: status bits, pages and page-table entries\<close>

definition SSTATUS_SPP :: u64 where "SSTATUS_SPP = push_bit 8 1"
definition SSTATUS_SPIE :: u64 where "SSTATUS_SPIE = push_bit 5 1"
definition SSTATUS_SIE :: u64 where "SSTATUS_SIE = push_bit 1 1"

definition PGSIZE :: u64 where "PGSIZE = 4096"

definition PGROUNDUP :: "u64 \<Rightarrow> u64" where
  "PGROUNDUP sz = (sz + PGSIZE - 1) AND NOT (PGSIZE - 1)"

definition PGROUNDDOWN :: "u64 \<Rightarrow> u64" where
  "PGROUNDDOWN a = a AND NOT (PGSIZE - 1)"

definition PTE_V :: u64 where "PTE_V = push_bit 0 1"
definition PTE_R :: u64 where "PTE_R = push_bit 1 1"
definition PTE_W :: u64 where "PTE_W = push_bit 2 1"
definition PTE_X :: u64 where "PTE_X = push_bit 3 1"
definition PTE_U :: u64 where "PTE_U = push_bit 4 1"

definition PA2PTE :: "u64 \<Rightarrow> u64" where
  "PA2PTE pa = push_bit 10 (drop_bit 12 pa)"

definition PTE2PA :: "u64 \<Rightarrow> u64" where
  "PTE2PA pte = push_bit 12 (drop_bit 10 pte)"

definition PTE_FLAGS :: "u64 \<Rightarrow> u64" where
  "PTE_FLAGS pte = pte AND 0x3FF"

definition PXSHIFT :: "nat \<Rightarrow> nat" where
  "PXSHIFT level = 12 + 9 * level"

definition PX :: "nat \<Rightarrow> u64 \<Rightarrow> u64" where
  "PX level va = drop_bit (PXSHIFT level) va AND 0x1FF"

definition MAXVA :: u64 where "MAXVA = push_bit 38 1"

section \<open>memlayout.h\<close>

definition KERNBASE :: u64 where "KERNBASE = 0x80000000"
definition PHYSTOP :: u64 where "PHYSTOP = KERNBASE + 128 * 1024 * 1024"
definition TRAMPOLINE :: u64 where "TRAMPOLINE = MAXVA - PGSIZE"
definition TRAPFRAME :: u64 where "TRAPFRAME = TRAMPOLINE - PGSIZE"

definition KSTACK :: "nat \<Rightarrow> u64" where
  "KSTACK p = TRAMPOLINE - (of_nat p + 1) * 2 * PGSIZE"

section \<open>Arithmetic meaning of the macros\<close>

lemmas riscv_bits =
  PTE_V_def PTE_R_def PTE_W_def PTE_X_def PTE_U_def

definition page_aligned :: "u64 \<Rightarrow> bool" where
  "page_aligned a \<longleftrightarrow> unat a mod 4096 = 0"

lemma PGSIZE_minus_1: "PGSIZE - 1 = mask 12"
  by (simp add: PGSIZE_def mask_eq_exp_minus_1)

lemma PGROUNDDOWN_shifts: "PGROUNDDOWN a = push_bit 12 (drop_bit 12 a)"
  unfolding PGROUNDDOWN_def PGSIZE_minus_1
  by (rule bit_word_eqI) (auto simp: bit_simps)

lemma PGROUNDDOWN_take_bit: "PGROUNDDOWN a = a - take_bit 12 a"
  using bits_ident [of 12 a] by (simp add: PGROUNDDOWN_shifts algebra_simps)

lemma unat_take_bit_12: "unat (take_bit 12 (a :: u64)) = unat a mod 4096"
  by (simp add: unsigned_take_bit_eq take_bit_nat_def)

lemma unat_PGROUNDDOWN: "unat (PGROUNDDOWN a) = unat a div 4096 * 4096"
proof -
  have le: "take_bit 12 a \<le> a"
    by (simp add: word_le_nat_alt unat_take_bit_12)
  have "unat (PGROUNDDOWN a) = unat a - unat a mod 4096"
    by (simp add: PGROUNDDOWN_take_bit unat_sub [OF le] unat_take_bit_12)
  then show ?thesis
    by (simp add: minus_mod_eq_div_mult)
qed

lemma unat_PGROUNDUP:
  assumes "unat sz + 4095 < 2 ^ 64"
  shows "unat (PGROUNDUP sz) = (unat sz + 4095) div 4096 * 4096"
proof -
  have "unat (sz + 4095) = unat sz + 4095"
    using assms by (subst unat_add_lem [THEN iffD1]) auto
  moreover have "PGROUNDUP sz = PGROUNDDOWN (sz + 4095)"
    by (simp add: PGROUNDUP_def PGROUNDDOWN_def PGSIZE_def add.commute)
  ultimately show ?thesis
    by (simp add: unat_PGROUNDDOWN)
qed

lemma page_aligned_PGROUNDDOWN [simp]: "page_aligned (PGROUNDDOWN a)"
  by (simp add: page_aligned_def unat_PGROUNDDOWN)

lemma PGROUNDDOWN_aligned: "page_aligned a \<Longrightarrow> PGROUNDDOWN a = a"
  by (rule unsigned_word_eqI [where 'a = nat]) (auto simp: unat_PGROUNDDOWN page_aligned_def)

lemma PGROUNDDOWN_le: "PGROUNDDOWN a \<le> a"
  by (simp add: word_le_nat_alt unat_PGROUNDDOWN)

lemma page_aligned_bits: "page_aligned a \<longleftrightarrow> take_bit 12 a = 0"
  by (simp add: page_aligned_def flip: unat_take_bit_12) (simp add: unsigned_eq_0_iff)

lemma page_aligned_bit: "page_aligned a \<Longrightarrow> n < 12 \<Longrightarrow> \<not> bit a n"
  using bit_take_bit_iff [of 12 a n] by (simp add: page_aligned_bits)

section \<open>Page-table entries pack an address and its permissions\<close>

text \<open>A physical address that a page-table entry can hold: page aligned and below \<open>2^56\<close>.\<close>

definition pte_pa :: "u64 \<Rightarrow> bool" where
  "pte_pa pa \<longleftrightarrow> page_aligned pa \<and> unat pa < 2 ^ 56"

lemma bit_high_zero:
  fixes a :: u64
  assumes "unat a < 2 ^ n" and "n \<le> m"
  shows "\<not> bit a m"
proof -
  have "unat a < 2 ^ m"
    using assms by (meson less_le_trans one_le_numeral power_increasing)
  then have "\<not> bit (unat a) m"
    by (simp add: bit_iff_odd)
  then show ?thesis
    by (auto simp: bit_unsigned_iff dest: bit_imp_le_length)
qed

lemma bit_PA2PTE: "bit (PA2PTE pa) n \<longleftrightarrow> 10 \<le> n \<and> n < 64 \<and> bit pa (n + 2)"
  by (auto simp: PA2PTE_def bit_simps)

lemma PTE2PA_PA2PTE:
  assumes "pte_pa pa" and "unat flags < 2 ^ 10"
  shows "PTE2PA (PA2PTE pa OR flags) = pa"
proof (rule bit_word_eqI)
  fix n assume n: "n < LENGTH(64)"
  have lo: "n < 12 \<Longrightarrow> \<not> bit pa n" and hi: "56 \<le> n \<Longrightarrow> \<not> bit pa n"
    using assms(1) bit_high_zero [of pa 56 n] by (auto simp: pte_pa_def page_aligned_bit)
  have fl: "10 \<le> m \<Longrightarrow> \<not> bit flags m" for m
    using assms(2) by (rule bit_high_zero)
  show "bit (PTE2PA (PA2PTE pa OR flags)) n = bit pa n"
    using n lo hi fl by (cases "n < 12") (auto simp: PTE2PA_def PA2PTE_def bit_simps)
qed

lemma PTE_FLAGS_PA2PTE:
  assumes "unat flags < 2 ^ 10"
  shows "PTE_FLAGS (PA2PTE pa OR flags) = flags"
proof -
  have m: "(0x3FF :: u64) = mask 10" by (simp add: mask_eq_exp_minus_1)
  have fl: "bit flags n \<Longrightarrow> n < 10" for n
    using bit_high_zero [OF assms, of n] by (meson not_le)
  show ?thesis
    unfolding PTE_FLAGS_def m
    by (rule bit_word_eqI) (use fl in \<open>auto simp: bit_PA2PTE bit_simps not_le\<close>)
qed


section \<open>The Sv39 index split is injective on page-aligned addresses\<close>

lemma PX_mask: "(0x1FF :: u64) = mask 9"
  by (simp add: mask_eq_exp_minus_1)

lemma bit_PX: "bit (PX level va) n \<longleftrightarrow> n < 9 \<and> bit va (PXSHIFT level + n)"
  unfolding PX_def PX_mask by (auto simp: bit_simps bit_imp_le_length)

lemma PX_less: "unat (PX level va) < 512"
proof -
  have "PX level va \<le> 0x1FF"
    unfolding PX_def by (rule word_and_le1)
  then show ?thesis
    by (simp add: word_le_nat_alt)
qed

lemma below_MAXVA: "va < MAXVA \<longleftrightarrow> unat va < 2 ^ 38"
  by (simp add: MAXVA_def word_less_nat_alt)

theorem PX_inj:
  assumes "va < MAXVA" "vb < MAXVA" "page_aligned va" "page_aligned vb"
    and "\<And>level. level \<le> 2 \<Longrightarrow> PX level va = PX level vb"
  shows "va = vb"
proof (rule bit_word_eqI)
  fix n assume "n < LENGTH(64)"
  have hi: "38 \<le> n \<Longrightarrow> \<not> bit va n \<and> \<not> bit vb n"
    using assms(1,2) bit_high_zero [of va 38 n] bit_high_zero [of vb 38 n]
    by (simp add: below_MAXVA)
  have lo: "n < 12 \<Longrightarrow> \<not> bit va n \<and> \<not> bit vb n"
    using assms(3,4) by (simp add: page_aligned_bit)
  have mid: "bit va (PXSHIFT level + k) = bit vb (PXSHIFT level + k)" if "level \<le> 2" "k < 9" for level k
    using assms(5) [OF that(1)] that(2) bit_PX by metis
  consider "n < 12" | "12 \<le> n" "n < 21" | "21 \<le> n" "n < 30" | "30 \<le> n" "n < 39" | "39 \<le> n"
    by linarith
  then show "bit va n = bit vb n"
  proof cases
    case 2
    then show ?thesis using mid [of 0 "n - 12"] by (simp add: PXSHIFT_def)
  next
    case 3
    then show ?thesis using mid [of 1 "n - 21"] by (simp add: PXSHIFT_def)
  next
    case 4
    then show ?thesis using mid [of 2 "n - 30"] by (simp add: PXSHIFT_def)
  qed (use lo hi in auto)
qed

end
