(* ===== verification/Xv6_Spinlock.thy ===== *)
theory Xv6_Spinlock
  imports Xv6_Riscv
begin

text \<open>
  Spin locks and interrupt control: spinlock.c, the interrupt helpers of riscv.h, and
  \<open>cpuid\<close>/\<open>mycpu\<close> of proc.c. The state is the per-CPU bookkeeping of \<open>struct cpu\<close>, the
  \<open>sstatus\<close> register of each hart, the hart that is running (its \<open>tp\<close>), and one
  \<open>struct spinlock\<close> per lock of the kernel. The C functions run as one thread's outcome;
  a second view splits \<open>acquire\<close> and \<open>release\<close> into their atomic accesses and lets several
  harts interleave, for mutual exclusion.
\<close>

section \<open>State\<close>

text \<open>The addresses of the kernel's spin locks; \<open>L_sleep\<close> is the one inside a sleep lock.\<close>

datatype lockid =
    L_kmem | L_pid | L_wait | L_proc nat | L_ticks | L_pipe u64 | L_ftable | L_itable
  | L_bcache | L_log | L_cons | L_uart | L_pr | L_vdisk | L_sleep_buf nat | L_sleep_inode nat

record cpu =
  cproc :: "nat option"
  noff :: int
  intena :: bool

record spinlock =
  locked :: u32
  lname :: string
  lcpu :: "nat option"

record kernel =
  tp :: nat
  sstatus :: "nat \<Rightarrow> u64"
  cpus :: "nat \<Rightarrow> cpu"
  locks :: "lockid \<Rightarrow> spinlock"

section \<open>riscv.h and proc.c: interrupts and the current CPU\<close>

definition intr_on :: "('x kernel_scheme, unit) kop" where
  "intr_on = modify (\<lambda>s. s\<lparr>sstatus := (sstatus s)(tp s := sstatus s (tp s) OR SSTATUS_SIE)\<rparr>)"

definition intr_off :: "('x kernel_scheme, unit) kop" where
  "intr_off = modify (\<lambda>s. s\<lparr>sstatus := (sstatus s)(tp s := sstatus s (tp s) AND NOT SSTATUS_SIE)\<rparr>)"

definition intr_get :: "('x kernel_scheme, bool) kop" where
  "intr_get = gets (\<lambda>s. sstatus s (tp s) AND SSTATUS_SIE \<noteq> 0)"

definition cpuid :: "('x kernel_scheme, nat) kop" where
  "cpuid = gets tp"

definition mycpu :: "('x kernel_scheme, nat) kop" where
  "mycpu = cpuid"

definition upd_cpu :: "nat \<Rightarrow> (cpu \<Rightarrow> cpu) \<Rightarrow> ('x kernel_scheme, unit) kop" where
  "upd_cpu c f = modify (\<lambda>s. s\<lparr>cpus := (cpus s)(c := f (cpus s c))\<rparr>)"

definition upd_lock :: "lockid \<Rightarrow> (spinlock \<Rightarrow> spinlock) \<Rightarrow> ('x kernel_scheme, unit) kop" where
  "upd_lock l f = modify (\<lambda>s. s\<lparr>locks := (locks s)(l := f (locks s l))\<rparr>)"

section \<open>spinlock.c\<close>

definition initlock :: "lockid \<Rightarrow> string \<Rightarrow> ('x kernel_scheme, unit) kop" where
  "initlock l name = upd_lock l (\<lambda>lk. lk\<lparr>lname := name, locked := 0, lcpu := None\<rparr>)"

definition holding :: "lockid \<Rightarrow> ('x kernel_scheme, bool) kop" where
  "holding l =
     kbind mycpu (\<lambda>c.
     gets (\<lambda>s. locked (locks s l) \<noteq> 0 \<and> lcpu (locks s l) = Some c))"

definition push_off :: "('x kernel_scheme, unit) kop" where
  "push_off =
     kbind intr_get (\<lambda>old.
     kthen intr_off (
     kbind mycpu (\<lambda>c.
     kbind (gets (\<lambda>s. noff (cpus s c))) (\<lambda>n.
     kthen (kwhen (n = 0) (upd_cpu c (\<lambda>k. k\<lparr>intena := old\<rparr>))) (
     upd_cpu c (\<lambda>k. k\<lparr>noff := noff k + 1\<rparr>))))))"

definition pop_off :: "('x kernel_scheme, unit) kop" where
  "pop_off =
     kbind mycpu (\<lambda>c.
     kbind intr_get (\<lambda>on.
     if on then panic ''pop_off - interruptible'' else
     kbind (gets (\<lambda>s. noff (cpus s c))) (\<lambda>n.
     if n < 1 then panic ''pop_off'' else
     kthen (upd_cpu c (\<lambda>k. k\<lparr>noff := noff k - 1\<rparr>)) (
     kbind (gets (\<lambda>s. noff (cpus s c) = 0 \<and> intena (cpus s c))) (\<lambda>on_again.
     kwhen on_again intr_on)))))"

text \<open>
  \<open>acquire\<close> in its three parts: disable interrupts and check for recursion; one atomic exchange
  of \<open>lk->locked\<close>; record the holder. A failed exchange is retried, so the function returns
  only if the exchange finds the lock free.
\<close>

definition acquire_begin :: "lockid \<Rightarrow> ('x kernel_scheme, unit) kop" where
  "acquire_begin l =
     kthen push_off (
     kbind (holding l) (\<lambda>h.
     if h then panic ''acquire'' else ret ()))"

definition atomic_exchange_locked :: "lockid \<Rightarrow> u32 \<Rightarrow> ('x kernel_scheme, u32) kop" where
  "atomic_exchange_locked l v =
     kbind (gets (\<lambda>s. locked (locks s l))) (\<lambda>old.
     kthen (upd_lock l (\<lambda>lk. lk\<lparr>locked := v\<rparr>)) (
     ret old))"

definition acquire_end :: "lockid \<Rightarrow> ('x kernel_scheme, unit) kop" where
  "acquire_end l = kbind mycpu (\<lambda>c. upd_lock l (\<lambda>lk. lk\<lparr>lcpu := Some c\<rparr>))"

definition acquire :: "lockid \<Rightarrow> ('x kernel_scheme, unit) kop" where
  "acquire l =
     kthen (acquire_begin l) (
     kbind (atomic_exchange_locked l 1) (\<lambda>old.
     if old \<noteq> 0 then Spin else acquire_end l))"

definition release_begin :: "lockid \<Rightarrow> ('x kernel_scheme, unit) kop" where
  "release_begin l =
     kbind (holding l) (\<lambda>h.
     if \<not> h then panic ''release'' else
     upd_lock l (\<lambda>lk. lk\<lparr>lcpu := None\<rparr>))"

definition atomic_store_locked :: "lockid \<Rightarrow> u32 \<Rightarrow> ('x kernel_scheme, unit) kop" where
  "atomic_store_locked l v = upd_lock l (\<lambda>lk. lk\<lparr>locked := v\<rparr>)"

definition release :: "lockid \<Rightarrow> ('x kernel_scheme, unit) kop" where
  "release l =
     kthen (release_begin l) (
     kthen (atomic_store_locked l 0)
     pop_off)"

section \<open>What a lock operation does to the state\<close>

text \<open>
  The effect of \<open>push_off\<close>, \<open>pop_off\<close>, \<open>acquire\<close> and \<open>release\<close> on the three fields they
  touch. The component proofs see only these functions and the laws below: a matching pair
  restores the locks and the interrupt state, whatever happens to the other fields in between.
\<close>

definition irq_disable :: "nat \<Rightarrow> (nat \<Rightarrow> u64) \<Rightarrow> nat \<Rightarrow> u64" where
  "irq_disable h ss = ss(h := ss h AND NOT SSTATUS_SIE)"

definition irq_restore :: "nat \<Rightarrow> (nat \<Rightarrow> cpu) \<Rightarrow> (nat \<Rightarrow> u64) \<Rightarrow> nat \<Rightarrow> u64" where
  "irq_restore h cs ss =
     (if noff (cs h) = 1 \<and> intena (cs h) then ss(h := ss h OR SSTATUS_SIE) else ss)"

definition irq_enabled :: "nat \<Rightarrow> (nat \<Rightarrow> u64) \<Rightarrow> bool" where
  "irq_enabled h ss \<longleftrightarrow> ss h AND SSTATUS_SIE \<noteq> 0"

definition cpu_settle :: "nat \<Rightarrow> (nat \<Rightarrow> u64) \<Rightarrow> (nat \<Rightarrow> cpu) \<Rightarrow> nat \<Rightarrow> cpu" where
  "cpu_settle h ss cs =
     (if noff (cs h) = 0 then cs(h := (cs h)\<lparr>intena := irq_enabled h ss\<rparr>) else cs)"

definition cpu_push :: "nat \<Rightarrow> (nat \<Rightarrow> u64) \<Rightarrow> (nat \<Rightarrow> cpu) \<Rightarrow> nat \<Rightarrow> cpu" where
  "cpu_push h ss cs =
     (let cs' = cpu_settle h ss cs in cs'(h := (cs' h)\<lparr>noff := noff (cs' h) + 1\<rparr>))"

definition cpu_pop :: "nat \<Rightarrow> (nat \<Rightarrow> cpu) \<Rightarrow> nat \<Rightarrow> cpu" where
  "cpu_pop h cs = cs(h := (cs h)\<lparr>noff := noff (cs h) - 1\<rparr>)"

definition lock_hold :: "lockid \<Rightarrow> nat \<Rightarrow> (lockid \<Rightarrow> spinlock) \<Rightarrow> lockid \<Rightarrow> spinlock" where
  "lock_hold l h ls = ls(l := (ls l)\<lparr>locked := 1, lcpu := Some h\<rparr>)"

definition lock_drop :: "lockid \<Rightarrow> (lockid \<Rightarrow> spinlock) \<Rightarrow> lockid \<Rightarrow> spinlock" where
  "lock_drop l ls = ls(l := (ls l)\<lparr>locked := 0, lcpu := None\<rparr>)"

definition lock_free :: "lockid \<Rightarrow> (lockid \<Rightarrow> spinlock) \<Rightarrow> bool" where
  "lock_free l ls \<longleftrightarrow> locked (ls l) = 0 \<and> lcpu (ls l) = None"

definition lock_held :: "lockid \<Rightarrow> nat \<Rightarrow> (lockid \<Rightarrow> spinlock) \<Rightarrow> bool" where
  "lock_held l h ls \<longleftrightarrow> locked (ls l) \<noteq> 0 \<and> lcpu (ls l) = Some h"

text \<open>The nesting depth is not negative, and while it is positive interrupts are off.\<close>

definition irq_ok :: "nat \<Rightarrow> (nat \<Rightarrow> u64) \<Rightarrow> (nat \<Rightarrow> cpu) \<Rightarrow> bool" where
  "irq_ok h ss cs \<longleftrightarrow> 0 \<le> noff (cs h) \<and> (0 < noff (cs h) \<longrightarrow> \<not> irq_enabled h ss)"

lemmas lock_effect_defs =
  irq_disable_def irq_restore_def irq_enabled_def cpu_settle_def cpu_push_def cpu_pop_def
  lock_hold_def lock_drop_def lock_free_def lock_held_def irq_ok_def

lemmas spinlock_defs =
  intr_on_def intr_off_def intr_get_def cpuid_def mycpu_def upd_cpu_def upd_lock_def
  initlock_def holding_def push_off_def pop_off_def acquire_begin_def
  atomic_exchange_locked_def acquire_end_def acquire_def release_begin_def
  atomic_store_locked_def release_def

subsection \<open>The interrupt-enable bit\<close>

lemma SIE_and_cases: "(x AND SSTATUS_SIE = 0) \<or> (x AND SSTATUS_SIE = SSTATUS_SIE)"
proof (cases "bit x 1")
  case True
  then have "x AND SSTATUS_SIE = SSTATUS_SIE"
    by (intro bit_word_eqI) (auto simp: SSTATUS_SIE_def bit_simps)
  then show ?thesis ..
next
  case False
  then have "x AND SSTATUS_SIE = 0"
    by (intro bit_word_eqI) (auto simp: SSTATUS_SIE_def bit_simps)
  then show ?thesis ..
qed

lemma SIE_bit: "x AND SSTATUS_SIE \<noteq> 0 \<longleftrightarrow> bit x 1"
proof
  assume "bit x 1"
  then have "bit (x AND SSTATUS_SIE) 1"
    by (simp add: SSTATUS_SIE_def bit_simps)
  then show "x AND SSTATUS_SIE \<noteq> 0" by auto
next
  assume ne: "x AND SSTATUS_SIE \<noteq> 0"
  then have "bit (x AND SSTATUS_SIE) 1"
    using SIE_and_cases [of x] by (auto simp: SSTATUS_SIE_def bit_simps)
  then show "bit x 1" by (simp add: bit_simps)
qed

lemma SIE_clear [simp]: "(x AND NOT SSTATUS_SIE) AND SSTATUS_SIE = 0"
  by (simp add: and.assoc)

lemma SIE_clear_idle: "x AND SSTATUS_SIE = 0 \<Longrightarrow> x AND NOT SSTATUS_SIE = x"
  using SIE_bit [of x] by (intro bit_word_eqI) (auto simp: SSTATUS_SIE_def bit_simps)

lemma SIE_set_again: "x AND SSTATUS_SIE \<noteq> 0 \<Longrightarrow> (x AND NOT SSTATUS_SIE) OR SSTATUS_SIE = x"
  using SIE_bit [of x] by (intro bit_word_eqI) (auto simp: SSTATUS_SIE_def bit_simps)

subsection \<open>Laws of matching pairs\<close>

lemma irq_enabled_disable [simp]: "\<not> irq_enabled h (irq_disable h ss)"
  by (simp add: irq_enabled_def irq_disable_def)

lemma irq_restore_push [simp]:
  "irq_ok h ss cs \<Longrightarrow> irq_restore h (cpu_push h ss cs) (irq_disable h ss) = ss"
  by (auto simp: lock_effect_defs Let_def SIE_clear_idle SIE_set_again fun_eq_iff)

lemma cpu_pop_push [simp]: "cpu_pop h (cpu_push h ss cs) = cpu_settle h ss cs"
  by (simp add: cpu_push_def cpu_pop_def Let_def)

lemma cpu_push_settle [simp]: "cpu_push h ss (cpu_settle h ss cs) = cpu_push h ss cs"
  by (simp add: cpu_push_def cpu_settle_def Let_def)

lemma cpu_settle_settle [simp]: "cpu_settle h ss (cpu_settle h ss cs) = cpu_settle h ss cs"
  by (simp add: cpu_settle_def)

lemma cpu_settle_push [simp]: "irq_ok h ss cs \<Longrightarrow> cpu_settle h ss' (cpu_push h ss cs) = cpu_push h ss cs"
  by (simp add: lock_effect_defs Let_def)

lemma irq_ok_settle [simp]: "irq_ok h ss (cpu_settle h ss' cs) = irq_ok h ss cs"
  by (simp add: irq_ok_def cpu_settle_def)

lemma irq_ok_push [simp]: "irq_ok h ss cs \<Longrightarrow> irq_ok h (irq_disable h ss) (cpu_push h ss cs)"
  by (simp add: lock_effect_defs Let_def)

lemma noff_settle [simp]: "noff (cpu_settle h ss cs k) = noff (cs k)"
  by (simp add: cpu_settle_def)

lemma noff_push [simp]: "noff (cpu_push h ss cs k) = (if k = h then noff (cs h) + 1 else noff (cs k))"
  by (simp add: cpu_push_def cpu_settle_def Let_def)

lemma noff_pop [simp]: "noff (cpu_pop h cs k) = (if k = h then noff (cs h) - 1 else noff (cs k))"
  by (simp add: cpu_pop_def)

lemma cproc_effects [simp]:
  "cproc (cpu_settle h ss cs k) = cproc (cs k)"
  "cproc (cpu_push h ss cs k) = cproc (cs k)"
  "cproc (cpu_pop h cs k) = cproc (cs k)"
  by (simp_all add: cpu_settle_def cpu_push_def cpu_pop_def Let_def)

lemma lock_drop_hold [simp]: "lock_free l ls \<Longrightarrow> lock_drop l (lock_hold l h ls) = ls"
  by (auto simp: lock_effect_defs fun_eq_iff)

lemma lock_drop_other [simp]: "l \<noteq> l' \<Longrightarrow> lock_drop l (lock_hold l' h ls) = lock_hold l' h (lock_drop l ls)"
  by (auto simp: lock_effect_defs fun_eq_iff)

lemma lock_free_hold [simp]: "lock_free l (lock_hold l' h ls) \<longleftrightarrow> l \<noteq> l' \<and> lock_free l ls"
  by (auto simp: lock_effect_defs)

lemma lock_held_hold [simp]: "lock_held l h (lock_hold l' h' ls) \<longleftrightarrow> (if l = l' then h = h' else lock_held l h ls)"
  by (auto simp: lock_effect_defs)

lemma lock_free_drop [simp]: "lock_free l (lock_drop l' ls) \<longleftrightarrow> l = l' \<or> lock_free l ls"
  by (auto simp: lock_effect_defs)

lemma lock_held_drop [simp]: "lock_held l h (lock_drop l' ls) \<longleftrightarrow> l \<noteq> l' \<and> lock_held l h ls"
  by (auto simp: lock_effect_defs)

lemma lock_free_not_held: "lock_free l ls \<Longrightarrow> \<not> lock_held l h ls"
  by (simp add: lock_effect_defs)

subsection \<open>The operations in terms of their effects\<close>

lemma push_off_effect [state_simps]:
  "push_off s = Ok () (s\<lparr>sstatus := irq_disable (tp s) (sstatus s),
                          cpus := cpu_push (tp s) (sstatus s) (cpus s)\<rparr>)"
  by (cases s) (simp add: spinlock_defs lock_effect_defs Let_def)

lemma pop_off_effect [state_simps]:
  "\<not> irq_enabled (tp s) (sstatus s) \<Longrightarrow> 1 \<le> noff (cpus s (tp s)) \<Longrightarrow>
   pop_off s = Ok () (s\<lparr>sstatus := irq_restore (tp s) (cpus s) (sstatus s),
                         cpus := cpu_pop (tp s) (cpus s)\<rparr>)"
  by (cases s) (auto simp: spinlock_defs lock_effect_defs)

lemma holding_effect [state_simps]: "holding l s = Ok (lock_held l (tp s) (locks s)) s"
  by (simp add: spinlock_defs lock_effect_defs)

lemma acquire_effect [state_simps]:
  "lock_free l (locks s) \<Longrightarrow>
   acquire l s = Ok () (s\<lparr>sstatus := irq_disable (tp s) (sstatus s),
                           cpus := cpu_push (tp s) (sstatus s) (cpus s),
                           locks := lock_hold l (tp s) (locks s)\<rparr>)"
  by (simp add: acquire_def acquire_begin_def state_simps)
     (simp add: spinlock_defs lock_effect_defs)

lemma release_effect [state_simps]:
  "lock_held l (tp s) (locks s) \<Longrightarrow> \<not> irq_enabled (tp s) (sstatus s) \<Longrightarrow>
   1 \<le> noff (cpus s (tp s)) \<Longrightarrow>
   release l s = Ok () (s\<lparr>sstatus := irq_restore (tp s) (cpus s) (sstatus s),
                           cpus := cpu_pop (tp s) (cpus s),
                           locks := lock_drop l (locks s)\<rparr>)"
  by (cases s) (auto simp: release_def release_begin_def atomic_store_locked_def upd_lock_def
      state_simps lock_effect_defs)

subsection \<open>Failure branches\<close>

lemma acquire_again_panics:
  "lock_held l (tp s) (locks s) \<Longrightarrow> acquire l s = Panic ''acquire''"
  by (simp add: acquire_def acquire_begin_def state_simps)

lemma acquire_contended_spins:
  "locked (locks s l) \<noteq> 0 \<Longrightarrow> lcpu (locks s l) \<noteq> Some (tp s) \<Longrightarrow> \<exists>t. acquire l s = Spin t"
  by (simp add: acquire_def acquire_begin_def state_simps lock_held_def)
     (simp add: atomic_exchange_locked_def upd_lock_def)

lemma release_unheld_panics:
  "\<not> lock_held l (tp s) (locks s) \<Longrightarrow> release l s = Panic ''release''"
  by (simp add: release_def release_begin_def state_simps)

lemma pop_off_panics:
  "irq_enabled (tp s) (sstatus s) \<Longrightarrow> pop_off s = Panic ''pop_off - interruptible''"
  "\<not> irq_enabled (tp s) (sstatus s) \<Longrightarrow> noff (cpus s (tp s)) < 1 \<Longrightarrow> pop_off s = Panic ''pop_off''"
  by (simp_all add: spinlock_defs irq_enabled_def)

section \<open>Nesting\<close>

definition irq_state_ok :: "'x kernel_scheme \<Rightarrow> bool" where
  "irq_state_ok s \<longleftrightarrow> irq_ok (tp s) (sstatus s) (cpus s)"

definition settle :: "'x kernel_scheme \<Rightarrow> 'x kernel_scheme" where
  "settle s = s\<lparr>cpus := cpu_settle (tp s) (sstatus s) (cpus s)\<rparr>"

lemma push_pop_pair:
  "irq_state_ok s \<Longrightarrow> kthen push_off pop_off s = Ok () (settle s)"
  by (cases s) (simp add: state_simps irq_state_ok_def settle_def irq_ok_def)

lemma push_off_keeps_ok: "irq_state_ok s \<Longrightarrow> push_off s = Ok () t \<Longrightarrow> irq_state_ok t"
  by (auto simp: state_simps irq_state_ok_def)

lemma settle_ok [simp]: "irq_state_ok (settle s) = irq_state_ok s"
  by (simp add: irq_state_ok_def settle_def)

lemma settle_settle [simp]: "settle (settle s) = settle s"
  by (simp add: settle_def)

lemma settle_pushed: "irq_state_ok s \<Longrightarrow> push_off s = Ok () t \<Longrightarrow> settle t = t"
  by (auto simp: settle_def state_simps irq_state_ok_def)

theorem nested_push_pop:
  "irq_state_ok s \<Longrightarrow>
   kthen (repeat_op (Suc n) push_off) (repeat_op (Suc n) pop_off) s = Ok () (settle s)"
proof (induction n arbitrary: s)
  case 0
  then show ?case using push_pop_pair [of s] by (simp add: state_simps split: outcome.splits)
next
  case (Suc n)
  obtain t where t: "push_off s = Ok () t" by (simp add: state_simps)
  have okt: "irq_state_ok t" using push_off_keeps_ok [OF Suc.prems t] .
  have "kthen (repeat_op (Suc (Suc n)) push_off) (repeat_op (Suc (Suc n)) pop_off) =
      kthen push_off (kthen (kthen (repeat_op (Suc n) push_off) (repeat_op (Suc n) pop_off)) pop_off)"
    by (subst (2) repeat_op_snoc) (simp only: repeat_op.simps kthen_assoc)
  then have "kthen (repeat_op (Suc (Suc n)) push_off) (repeat_op (Suc (Suc n)) pop_off) s =
      kthen push_off (kthen (kthen (repeat_op (Suc n) push_off) (repeat_op (Suc n) pop_off)) pop_off) s"
    by (rule fun_cong)
  also have "\<dots> = kthen (kthen (repeat_op (Suc n) push_off) (repeat_op (Suc n) pop_off)) pop_off t"
    by (rule kthen_Ok [where m = push_off and s = s, OF t])
  also have "\<dots> = pop_off (settle t)"
    by (rule kthen_Ok [where m = "kthen _ _" and s = t, OF Suc.IH [OF okt]])
  also have "\<dots> = Ok () (settle s)"
    using push_pop_pair [OF Suc.prems] settle_pushed [OF Suc.prems t] t by simp
  finally show ?case .
qed

section \<open>Critical sections\<close>

definition acquired :: "lockid \<Rightarrow> 'x kernel_scheme \<Rightarrow> 'x kernel_scheme" where
  "acquired l s = s\<lparr>sstatus := irq_disable (tp s) (sstatus s),
                    cpus := cpu_push (tp s) (sstatus s) (cpus s),
                    locks := lock_hold l (tp s) (locks s)\<rparr>"

text \<open>
  A body that leaves the lock bookkeeping as it found it, run between \<open>acquire\<close> and \<open>release\<close>
  of a free lock: the pair is invisible afterwards, except that \<open>intena\<close> may have been recorded.
\<close>

theorem critical_section:
  assumes free: "lock_free l (locks s)" and ok: "irq_state_ok s"
    and body: "m (acquired l s) = Ok r t"
    and frame: "tp t = tp s" "sstatus t = sstatus (acquired l s)"
      "cpus t = cpus (acquired l s)" "locks t = locks (acquired l s)"
  shows "kthen (acquire l) (kbind m (\<lambda>r. kthen (release l) (ret r))) s =
     Ok r (t\<lparr>sstatus := sstatus s, cpus := cpus (settle s), locks := locks s\<rparr>)"
proof -
  have noff: "0 \<le> noff (cpus s (tp s))" using ok by (simp add: irq_state_ok_def irq_ok_def)
  have a: "acquire l s = Ok () (acquired l s)"
    using free by (simp add: state_simps acquired_def)
  have r: "release l t = Ok () (t\<lparr>sstatus := sstatus s, cpus := cpus (settle s), locks := locks s\<rparr>)"
    using free ok frame noff
    by (simp add: state_simps acquired_def settle_def irq_state_ok_def)
  show ?thesis by (simp add: a r body)
qed

section \<open>Frames of the lock operations\<close>

text \<open>A part \<open>f\<close> of the state that does not see the interrupt bookkeeping, nor the lock \<open>l\<close>.\<close>

definition irq_blind :: "('x kernel_scheme \<Rightarrow> 'b) \<Rightarrow> bool" where
  "irq_blind f \<longleftrightarrow> (\<forall>s x y. f (s\<lparr>cpus := x\<rparr>) = f s \<and> f (s\<lparr>sstatus := y\<rparr>) = f s)"

definition lock_blind :: "lockid \<Rightarrow> ('x kernel_scheme \<Rightarrow> 'b) \<Rightarrow> bool" where
  "lock_blind l f \<longleftrightarrow> irq_blind f \<and> (\<forall>s x. f (s\<lparr>locks := (locks s)(l := x)\<rparr>) = f s)"

lemma keeps_irq [keeps_rules]:
  assumes "irq_blind f"
  shows "keeps f push_off" "keeps f pop_off" "keeps f intr_on" "keeps f intr_off" "keeps f (upd_cpu c g)"
    "keeps f intr_get" "keeps f mycpu" "keeps f (holding l)"
proof -
  have m: "keeps f intr_on" "keeps f intr_off" "keeps f (upd_cpu c g)" "keeps f intr_get" "keeps f mycpu" for c g
    using assms unfolding irq_blind_def intr_on_def intr_off_def upd_cpu_def intr_get_def mycpu_def cpuid_def
    by (intro keeps_modify keeps_gets; simp)+
  then show "keeps f intr_on" "keeps f intr_off" "keeps f (upd_cpu c g)" "keeps f intr_get" "keeps f mycpu"
    by simp_all
  show "keeps f push_off" "keeps f pop_off" "keeps f (holding l)"
    unfolding push_off_def pop_off_def holding_def by (intro keeps_rules m)+
qed

lemma keeps_lock [keeps_rules]:
  assumes "lock_blind l f"
  shows "keeps f (acquire l)" "keeps f (release l)" "keeps f (initlock l nm)"
proof -
  have irq: "irq_blind f" using assms by (simp add: lock_blind_def)
  have u: "keeps f (upd_lock l g)" for g
    using assms unfolding upd_lock_def lock_blind_def by (intro keeps_modify) simp
  show "keeps f (acquire l)"
    unfolding acquire_def acquire_begin_def atomic_exchange_locked_def acquire_end_def
    by (intro keeps_rules u irq)
  show "keeps f (release l)"
    unfolding release_def release_begin_def atomic_store_locked_def by (intro keeps_rules u irq)
  show "keeps f (initlock l nm)" unfolding initlock_def by (rule u)
qed

lemma lock_blind_other: "k \<noteq> l \<Longrightarrow> lock_blind l (\<lambda>s. locks s k)"
  by (simp add: lock_blind_def irq_blind_def)

section \<open>Several harts: mutual exclusion\<close>

text \<open>
  The parts of \<open>acquire\<close> and \<open>release\<close> as the atomic steps of each hart. \<open>pc\<close> says where in
  these functions a hart is; \<open>own\<close> is a ghost record of the locks whose exchange the hart has
  won and whose \<open>locked\<close> word it has not yet cleared. Between lock operations a hart runs
  other code (\<open>Running\<close>), which may also turn interrupts on or off when it holds nothing
  (\<open>noff = 0\<close>), as \<open>usertrap\<close> and \<open>scheduler\<close> do.
\<close>

datatype hart_pc = Running | Trying lockid | Entering lockid | Leaving lockid | Popping

record smp = kernel +
  pc :: "nat \<Rightarrow> hart_pc"
  own :: "nat \<Rightarrow> lockid set"

definition on_hart :: "nat \<Rightarrow> smp \<Rightarrow> smp" where
  "on_hart h s = s\<lparr>tp := h\<rparr>"

inductive smp_step :: "smp \<Rightarrow> smp \<Rightarrow> bool" where
  begin_acquire: "pc s h = Running \<Longrightarrow> acquire_begin l (on_hart h s) = Ok () t \<Longrightarrow>
     smp_step s (t\<lparr>pc := (pc t)(h := Trying l)\<rparr>)"
| exchange_lost: "pc s h = Trying l \<Longrightarrow> atomic_exchange_locked l 1 (on_hart h s) = Ok old t \<Longrightarrow>
     old \<noteq> 0 \<Longrightarrow> smp_step s t"
| exchange_won: "pc s h = Trying l \<Longrightarrow> atomic_exchange_locked l 1 (on_hart h s) = Ok old t \<Longrightarrow>
     old = 0 \<Longrightarrow>
     smp_step s (t\<lparr>pc := (pc t)(h := Entering l), own := (own t)(h := insert l (own t h))\<rparr>)"
| end_acquire: "pc s h = Entering l \<Longrightarrow> acquire_end l (on_hart h s) = Ok () t \<Longrightarrow>
     smp_step s (t\<lparr>pc := (pc t)(h := Running)\<rparr>)"
| begin_release: "pc s h = Running \<Longrightarrow> release_begin l (on_hart h s) = Ok () t \<Longrightarrow>
     smp_step s (t\<lparr>pc := (pc t)(h := Leaving l)\<rparr>)"
| store_free: "pc s h = Leaving l \<Longrightarrow> atomic_store_locked l 0 (on_hart h s) = Ok () t \<Longrightarrow>
     smp_step s (t\<lparr>pc := (pc t)(h := Popping), own := (own t)(h := own t h - {l})\<rparr>)"
| end_release: "pc s h = Popping \<Longrightarrow> pop_off (on_hart h s) = Ok () t \<Longrightarrow>
     smp_step s (t\<lparr>pc := (pc t)(h := Running)\<rparr>)"
| irq_on: "pc s h = Running \<Longrightarrow> noff (cpus s h) = 0 \<Longrightarrow> intr_on (on_hart h s) = Ok () t \<Longrightarrow>
     smp_step s t"
| irq_off: "pc s h = Running \<Longrightarrow> intr_off (on_hart h s) = Ok () t \<Longrightarrow> smp_step s t"

definition smp_init :: "smp \<Rightarrow> bool" where
  "smp_init s \<longleftrightarrow> (\<forall>l. lock_free l (locks s)) \<and> (\<forall>h. noff (cpus s h) = 0) \<and>
     (\<forall>h. pc s h = Running) \<and> (\<forall>h. own s h = {})"

inductive smp_reachable :: "smp \<Rightarrow> bool" where
  smp_start: "smp_init s \<Longrightarrow> smp_reachable s"
| smp_next: "smp_reachable s \<Longrightarrow> smp_step s t \<Longrightarrow> smp_reachable t"

text \<open>
  The invariant: each lock's word is set exactly while some hart owns it, at most one does, the
  recorded holder is the owner except inside the two windows of \<open>acquire\<close> and \<open>release\<close>, and
  each hart's \<open>noff\<close> counts its locks (plus the one it is after, or has just left), with
  interrupts off while that count is positive.
\<close>

definition pc_extra :: "hart_pc \<Rightarrow> nat" where
  "pc_extra p = (case p of Trying _ \<Rightarrow> 1 | Popping \<Rightarrow> 1 | _ \<Rightarrow> 0)"

definition in_window :: "hart_pc \<Rightarrow> lockid \<Rightarrow> bool" where
  "in_window p l \<longleftrightarrow> p = Entering l \<or> p = Leaving l"

definition smp_lock_inv :: "smp \<Rightarrow> bool" where
  "smp_lock_inv s \<longleftrightarrow>
     (\<forall>l. (locked (locks s l) \<noteq> 0) = (\<exists>h. l \<in> own s h)) \<and>
     (\<forall>l h k. l \<in> own s h \<longrightarrow> l \<in> own s k \<longrightarrow> h = k) \<and>
     (\<forall>l h. lcpu (locks s l) = Some h \<longleftrightarrow> l \<in> own s h \<and> \<not> in_window (pc s h) l) \<and>
     (\<forall>h l. in_window (pc s h) l \<longrightarrow> l \<in> own s h)"

definition smp_irq_inv :: "smp \<Rightarrow> bool" where
  "smp_irq_inv s \<longleftrightarrow>
     (\<forall>h. finite (own s h) \<and> noff (cpus s h) = int (card (own s h) + pc_extra (pc s h)) \<and>
          (0 < noff (cpus s h) \<longrightarrow> \<not> irq_enabled h (sstatus s)))"

lemma smp_init_inv: "smp_init s \<Longrightarrow> smp_lock_inv s \<and> smp_irq_inv s"
  by (auto simp: smp_init_def smp_lock_inv_def smp_irq_inv_def lock_free_def in_window_def pc_extra_def)


lemma on_hart_pieces:
  "acquire_begin l (on_hart h s) = Ok () t \<Longrightarrow>
     t = s\<lparr>tp := h, sstatus := irq_disable h (sstatus s), cpus := cpu_push h (sstatus s) (cpus s)\<rparr>
     \<and> \<not> lock_held l h (locks s)"
  "atomic_exchange_locked l v (on_hart h s) = Ok old t \<Longrightarrow>
     t = s\<lparr>tp := h, locks := (locks s)(l := (locks s l)\<lparr>locked := v\<rparr>)\<rparr> \<and> old = locked (locks s l)"
  "acquire_end l (on_hart h s) = Ok () t \<Longrightarrow>
     t = s\<lparr>tp := h, locks := (locks s)(l := (locks s l)\<lparr>lcpu := Some h\<rparr>)\<rparr>"
  "release_begin l (on_hart h s) = Ok () t \<Longrightarrow>
     t = s\<lparr>tp := h, locks := (locks s)(l := (locks s l)\<lparr>lcpu := None\<rparr>)\<rparr> \<and> lock_held l h (locks s)"
  "atomic_store_locked l v (on_hart h s) = Ok () t \<Longrightarrow>
     t = s\<lparr>tp := h, locks := (locks s)(l := (locks s l)\<lparr>locked := v\<rparr>)\<rparr>"
  "pop_off (on_hart h s) = Ok () t \<Longrightarrow>
     t = s\<lparr>tp := h, sstatus := irq_restore h (cpus s) (sstatus s), cpus := cpu_pop h (cpus s)\<rparr>
     \<and> \<not> irq_enabled h (sstatus s) \<and> 1 \<le> noff (cpus s h)"
  "intr_on (on_hart h s) = Ok () t \<Longrightarrow>
     t = s\<lparr>tp := h, sstatus := (sstatus s)(h := sstatus s h OR SSTATUS_SIE)\<rparr>"
  "intr_off (on_hart h s) = Ok () t \<Longrightarrow>
     t = s\<lparr>tp := h, sstatus := irq_disable h (sstatus s)\<rparr>"
         apply (simp add: acquire_begin_def on_hart_def state_simps split: if_splits)
        apply (simp add: on_hart_def atomic_exchange_locked_def upd_lock_def)
       apply (simp add: on_hart_def acquire_end_def mycpu_def cpuid_def upd_lock_def)
      apply (simp add: on_hart_def release_begin_def upd_lock_def state_simps split: if_splits)
     apply (simp add: on_hart_def atomic_store_locked_def upd_lock_def)
    apply (cases s, auto simp: on_hart_def pop_off_def mycpu_def cpuid_def intr_get_def upd_cpu_def
      intr_on_def lock_effect_defs split: if_splits)[1]
   apply (simp add: on_hart_def intr_on_def)
  apply (simp add: on_hart_def intr_off_def irq_disable_def)
  done

lemma irq_enabled_other [simp]:
  "h \<noteq> k \<Longrightarrow> irq_enabled h (irq_disable k ss) = irq_enabled h ss"
  "h \<noteq> k \<Longrightarrow> irq_enabled h (irq_restore k cs ss) = irq_enabled h ss"
  "h \<noteq> k \<Longrightarrow> irq_enabled h (ss(k := v)) = irq_enabled h ss"
  by (simp_all add: irq_enabled_def irq_disable_def irq_restore_def)

lemma smp_step_lock_inv: "smp_step s t \<Longrightarrow> smp_lock_inv s \<Longrightarrow> smp_lock_inv t"
proof (induction rule: smp_step.induct)
  case (begin_acquire s h l t)
  then show ?case
    by (auto dest!: on_hart_pieces simp: smp_lock_inv_def in_window_def)
next
  case (exchange_lost s h l old t)
  then show ?case
    by (auto dest!: on_hart_pieces simp: smp_lock_inv_def in_window_def split: if_splits)
next
  case (exchange_won s h l old t)
  then show ?case
    by (auto dest!: on_hart_pieces simp: smp_lock_inv_def in_window_def split: if_splits)
next
  case (end_acquire s h l t)
  then show ?case
    by (auto dest!: on_hart_pieces simp: smp_lock_inv_def in_window_def split: if_splits)
next
  case (begin_release s h l t)
  then show ?case
    by (auto dest!: on_hart_pieces simp: smp_lock_inv_def in_window_def lock_held_def split: if_splits)
next
  case (store_free s h l t)
  then show ?case
    by (auto dest!: on_hart_pieces simp: smp_lock_inv_def in_window_def split: if_splits)
next
  case (end_release s h t)
  then show ?case
    by (auto dest!: on_hart_pieces simp: smp_lock_inv_def in_window_def split: if_splits)
next
  case (irq_on s h t)
  then show ?case by (auto dest!: on_hart_pieces simp: smp_lock_inv_def)
next
  case (irq_off s h t)
  then show ?case by (auto dest!: on_hart_pieces simp: smp_lock_inv_def)
qed

lemma irq_restore_pop_ok:
  "1 \<le> noff (cs h) \<Longrightarrow> \<not> irq_enabled h ss \<Longrightarrow> 0 < noff (cs h) - 1 \<Longrightarrow>
   \<not> irq_enabled h (irq_restore h cs ss)"
  by (simp add: irq_restore_def)

lemma smp_step_irq_inv:
  "smp_step s t \<Longrightarrow> smp_lock_inv s \<Longrightarrow> smp_irq_inv s \<Longrightarrow> smp_irq_inv t"
proof (induction rule: smp_step.induct)
  case (begin_acquire s h l t)
  then show ?case
    by (auto dest!: on_hart_pieces simp: smp_irq_inv_def pc_extra_def)
next
  case (exchange_lost s h l old t)
  then show ?case by (auto dest!: on_hart_pieces simp: smp_irq_inv_def)
next
  case (exchange_won s h l old t)
  from exchange_won have "l \<notin> own s h"
    by (auto dest!: on_hart_pieces simp: smp_lock_inv_def)
  with exchange_won show ?case
    by (auto dest!: on_hart_pieces simp: smp_irq_inv_def pc_extra_def)
next
  case (end_acquire s h l t)
  then show ?case by (auto dest!: on_hart_pieces simp: smp_irq_inv_def pc_extra_def)
next
  case (begin_release s h l t)
  then show ?case by (auto dest!: on_hart_pieces simp: smp_irq_inv_def pc_extra_def)
next
  case (store_free s h l t)
  then have "l \<in> own s h" and "finite (own s h)"
    by (auto simp: smp_lock_inv_def in_window_def smp_irq_inv_def)
  then have "Suc (card (own s h - {l})) = card (own s h)"
    by (metis card_Suc_Diff1)
  with store_free show ?case
    by (auto dest!: on_hart_pieces simp: smp_irq_inv_def pc_extra_def)
next
  case (end_release s h t)
  then show ?case
    by (auto dest!: on_hart_pieces simp: smp_irq_inv_def pc_extra_def irq_restore_pop_ok)
next
  case (irq_on s h t)
  then show ?case
    by (auto dest!: on_hart_pieces simp: smp_irq_inv_def) (metis irq_enabled_other(3) less_irrefl)
next
  case (irq_off s h t)
  then show ?case
    by (auto dest!: on_hart_pieces simp: smp_irq_inv_def)
       (metis irq_enabled_disable irq_enabled_other(1))
qed

lemma smp_reachable_inv: "smp_reachable s \<Longrightarrow> smp_lock_inv s \<and> smp_irq_inv s"
proof (induction rule: smp_reachable.induct)
  case (smp_start s)
  then show ?case by (rule smp_init_inv)
next
  case (smp_next s t)
  then show ?case by (blast intro: smp_step_lock_inv smp_step_irq_inv)
qed

text \<open>An idle machine, for the witnesses.\<close>

definition idle_kernel :: kernel where
  "idle_kernel = \<lparr>tp = 0, sstatus = (\<lambda>_. 0), cpus = (\<lambda>_. \<lparr>cproc = None, noff = 0, intena = False\<rparr>),
     locks = (\<lambda>_. \<lparr>locked = 0, lname = [], lcpu = None\<rparr>)\<rparr>"

definition smp_idle :: smp where
  "smp_idle = kernel.extend idle_kernel \<lparr>pc = (\<lambda>_. Running), own = (\<lambda>_. {})\<rparr>"

lemma smp_idle_simps [simp]:
  "pc smp_idle h = Running" "own smp_idle h = {}" "noff (cpus smp_idle h) = 0"
  "lock_free l (locks smp_idle)" "tp smp_idle = 0" "sstatus smp_idle = (\<lambda>_. 0)"
  by (simp_all add: smp_idle_def idle_kernel_def kernel.defs lock_free_def)

lemma smp_idle_reachable: "smp_reachable smp_idle"
  by (rule smp_start) (simp add: smp_init_def)

text \<open>Hart 2 acquires the lock of the free-page list: three steps from the idle machine.\<close>

definition smp_trying :: smp where
  "smp_trying = smp_idle\<lparr>tp := 2, sstatus := irq_disable 2 (sstatus smp_idle),
     cpus := cpu_push 2 (sstatus smp_idle) (cpus smp_idle), pc := (pc smp_idle)(2 := Trying L_kmem)\<rparr>"

definition smp_won :: smp where
  "smp_won = smp_trying\<lparr>locks := (locks smp_trying)(L_kmem := (locks smp_trying L_kmem)\<lparr>locked := 1\<rparr>),
     pc := (pc smp_trying)(2 := Entering L_kmem), own := (own smp_trying)(2 := {L_kmem})\<rparr>"

definition smp_holding :: smp where
  "smp_holding = smp_won\<lparr>locks := (locks smp_won)(L_kmem := (locks smp_won L_kmem)\<lparr>lcpu := Some 2\<rparr>),
     pc := (pc smp_won)(2 := Running)\<rparr>"

lemma smp_trying_reachable: "smp_reachable smp_trying"
proof -
  have "acquire_begin L_kmem (on_hart 2 smp_idle) = Ok () (smp_trying\<lparr>pc := pc smp_idle\<rparr>)"
    by (simp add: acquire_begin_def on_hart_def state_simps smp_trying_def lock_held_def)
       (simp add: smp_idle_def idle_kernel_def kernel.defs)
  then have "smp_step smp_idle ((smp_trying\<lparr>pc := pc smp_idle\<rparr>)\<lparr>pc :=
      (pc (smp_trying\<lparr>pc := pc smp_idle\<rparr>))(2 := Trying L_kmem)\<rparr>)"
    by (intro begin_acquire) simp_all
  then have "smp_step smp_idle smp_trying" by (simp add: smp_trying_def)
  then show ?thesis using smp_idle_reachable smp_next by blast
qed

lemma smp_won_reachable: "smp_reachable smp_won"
proof -
  let ?t = "smp_trying\<lparr>locks := (locks smp_trying)(L_kmem := (locks smp_trying L_kmem)\<lparr>locked := 1\<rparr>)\<rparr>"
  have "locked (locks smp_trying L_kmem) = 0" and tr: "pc smp_trying 2 = Trying L_kmem"
    and own: "own smp_trying 2 = {}" and tp: "tp smp_trying = 2"
    by (simp_all add: smp_trying_def) (simp add: smp_idle_def idle_kernel_def kernel.defs)
  then have "atomic_exchange_locked L_kmem 1 (on_hart 2 smp_trying) = Ok 0 ?t"
    by (simp add: atomic_exchange_locked_def upd_lock_def on_hart_def)
  then have "smp_step smp_trying (?t\<lparr>pc := (pc ?t)(2 := Entering L_kmem),
      own := (own ?t)(2 := insert L_kmem (own ?t 2))\<rparr>)"
    using tr by (intro exchange_won) simp_all
  then have "smp_step smp_trying smp_won" using own by (simp add: smp_won_def)
  then show ?thesis using smp_trying_reachable smp_next by blast
qed

lemma smp_holding_reachable: "smp_reachable smp_holding"
proof -
  let ?t = "smp_won\<lparr>locks := (locks smp_won)(L_kmem := (locks smp_won L_kmem)\<lparr>lcpu := Some 2\<rparr>)\<rparr>"
  have "pc smp_won 2 = Entering L_kmem" and "tp smp_won = 2"
    by (simp_all add: smp_won_def smp_trying_def)
  then have "smp_step smp_won (?t\<lparr>pc := (pc ?t)(2 := Running)\<rparr>)"
    by (intro end_acquire [where l = L_kmem])
       (simp_all add: acquire_end_def upd_lock_def on_hart_def mycpu_def cpuid_def)
  then have "smp_step smp_won smp_holding" by (simp add: smp_holding_def)
  then show ?thesis using smp_won_reachable smp_next by blast
qed

lemma smp_holding_simps [simp]: "own smp_holding 2 = {L_kmem}" "pc smp_holding 2 = Running"
  by (simp_all add: smp_holding_def smp_won_def)

section \<open>Properties\<close>

text \<open>
  C3: Mutual exclusion of \<open>acquire\<close>/\<open>release\<close>: however the atomic accesses of the harts interleave,
  no two harts own the same spin lock at once.
\<close>

theorem smp_mutual_exclusion:
  assumes "smp_reachable s" and "l \<in> own s h" and "l \<in> own s k"
  shows "h = k"
  using smp_reachable_inv [OF assms(1)] assms(2,3) by (auto simp: smp_lock_inv_def)

theorem smp_mutual_exclusion_witness:
  "smp_reachable smp_holding \<and> L_kmem \<in> own smp_holding 2 \<and>
   L_kmem \<notin> own smp_holding 3"
  using smp_mutual_exclusion [OF smp_holding_reachable, of L_kmem 2 3] smp_holding_reachable by auto

text \<open>
  C20: A hart that owns a lock has interrupts disabled and a positive \<open>noff\<close>, so no interrupt handler
  on that hart can run into a lock its own hart holds.
\<close>

theorem smp_owner_uninterruptible:
  assumes "smp_reachable s" and "l \<in> own s h"
  shows "\<not> irq_enabled h (sstatus s) \<and> 0 < noff (cpus s h)"
proof -
  have fin: "finite (own s h)" and n: "noff (cpus s h) = int (card (own s h) + pc_extra (pc s h))"
    and off: "0 < noff (cpus s h) \<longrightarrow> \<not> irq_enabled h (sstatus s)"
    using smp_reachable_inv [OF assms(1)] by (auto simp: smp_irq_inv_def)
  have "0 < card (own s h)" using fin assms(2) by (auto simp: card_gt_0_iff)
  with n off show ?thesis by simp
qed

theorem smp_owner_uninterruptible_witness:
  "smp_reachable smp_holding \<and> L_kmem \<in> own smp_holding 2 \<and>
   \<not> irq_enabled 2 (sstatus smp_holding) \<and> 0 < noff (cpus smp_holding 2)"
  using smp_owner_uninterruptible [OF smp_holding_reachable, of L_kmem 2] smp_holding_reachable
  by simp

text \<open>
  C21: The panics of spinlock.c cannot fire on a hart that follows the protocol: the owner's
  \<open>release\<close> passes its \<open>holding\<close> check, acquiring a lock the hart does not own passes the check
  of \<open>acquire\<close>, and the final \<open>pop_off\<close> of a release finds interrupts off and \<open>noff\<close> at least 1.
\<close>

theorem smp_no_lock_panic:
  assumes "smp_reachable s"
  shows "(pc s h = Running \<and> l \<in> own s h \<longrightarrow> (\<exists>t. release_begin l (on_hart h s) = Ok () t)) \<and>
    (pc s h = Running \<and> l \<notin> own s h \<longrightarrow> (\<exists>t. acquire_begin l (on_hart h s) = Ok () t)) \<and>
    (pc s h = Popping \<longrightarrow> (\<exists>t. pop_off (on_hart h s) = Ok () t))"
proof -
  have inv: "smp_lock_inv s" "smp_irq_inv s" using smp_reachable_inv [OF assms] by auto
  have held: "lock_held l h (locks s) \<longleftrightarrow> l \<in> own s h" if "pc s h = Running"
    using inv(1) that by (auto simp: smp_lock_inv_def lock_held_def in_window_def)
  have pop: "\<exists>t. pop_off (on_hart h s) = Ok () t" if "pc s h = Popping"
  proof -
    have "noff (cpus s h) = int (card (own s h) + 1)"
      using inv(2) that by (simp add: smp_irq_inv_def pc_extra_def)
    moreover from this have "\<not> irq_enabled h (sstatus s)" using inv(2) by (simp add: smp_irq_inv_def)
    ultimately show ?thesis by (simp add: on_hart_def pop_off_effect)
  qed
  show ?thesis
    using held pop
    by (auto simp: release_begin_def acquire_begin_def on_hart_def upd_lock_def state_simps)
qed

theorem smp_no_lock_panic_witness:
  "smp_reachable smp_holding \<and> (\<exists>t. release_begin L_kmem (on_hart 2 smp_holding) = Ok () t) \<and>
   (\<exists>t. acquire_begin L_pid (on_hart 2 smp_holding) = Ok () t)"
  using smp_no_lock_panic [OF smp_holding_reachable, of 2 L_kmem]
    smp_no_lock_panic [OF smp_holding_reachable, of 2 L_pid] smp_holding_reachable by simp

text \<open>
  \<open>push_off\<close> and \<open>pop_off\<close> nest: after any number of matching calls the locks and the interrupt
  enable bit are exactly as before (only \<open>intena\<close> may have been recorded), so interrupts come back
  on only if they were on before the outermost \<open>push_off\<close>.
\<close>

theorem push_pop_nest:
  assumes "irq_state_ok s"
  shows "kthen (repeat_op (Suc n) push_off) (repeat_op (Suc n) pop_off) s = Ok () (settle s)"
  by (rule nested_push_pop [OF assms])

theorem push_pop_nest_witness:
  "irq_state_ok idle_kernel \<and>
   kthen (repeat_op 3 push_off) (repeat_op 3 pop_off) idle_kernel = Ok () (settle idle_kernel)"
proof -
  have ok: "irq_state_ok idle_kernel"
    by (simp add: irq_state_ok_def idle_kernel_def irq_ok_def)
  show ?thesis using push_pop_nest [OF ok, of 2] ok by (simp add: numeral_3_eq_3)
qed

end
