(* ===== verification/Xv6_String.thy ===== *)
theory Xv6_String
  imports Xv6_Riscv
begin

text \<open>
  Byte-addressed memory and string.c. A memory maps each 64-bit address to a byte; pointer
  arithmetic is 64-bit and wraps. The C loops become recursions that move the same pointers and
  counters; \<open>char\<close> is unsigned on RISC-V, and the differences returned by the comparison functions
  are C ints. The lemmas characterise each routine: \<open>memmove\<close> is correct for overlapping ranges,
  \<open>strncpy\<close> pads with zeros, \<open>safestrcpy\<close> always terminates the destination, \<open>strncmp\<close> decides
  equality of strings up to a bound. Loads and stores of 64-bit words are little-endian.
\<close>

type_synonym memory = "u64 \<Rightarrow> u8"

section \<open>string.c\<close>

function memset_loop :: "nat \<Rightarrow> nat \<Rightarrow> u64 \<Rightarrow> u8 \<Rightarrow> memory \<Rightarrow> memory" where
  "memset_loop i n dst c m =
     (if i < n then memset_loop (Suc i) n dst c (m(dst + of_nat i := c)) else m)"
  by pat_completeness auto
termination
  by (relation "measure (\<lambda>(i, n, dst, c, m). n - i)") auto

definition memset :: "u64 \<Rightarrow> int \<Rightarrow> u32 \<Rightarrow> memory \<Rightarrow> memory" where
  "memset dst c n m = memset_loop 0 (unat n) dst (word_of_int c) m"

fun memcmp_loop :: "nat \<Rightarrow> u64 \<Rightarrow> u64 \<Rightarrow> memory \<Rightarrow> int" where
  "memcmp_loop 0 s1 s2 m = 0"
| "memcmp_loop (Suc n) s1 s2 m =
     (if m s1 \<noteq> m s2 then uint (m s1) - uint (m s2) else memcmp_loop n (s1 + 1) (s2 + 1) m)"

definition memcmp :: "u64 \<Rightarrow> u64 \<Rightarrow> u32 \<Rightarrow> memory \<Rightarrow> int" where
  "memcmp v1 v2 n m = memcmp_loop (unat n) v1 v2 m"

fun memmove_up :: "nat \<Rightarrow> u64 \<Rightarrow> u64 \<Rightarrow> memory \<Rightarrow> memory" where
  "memmove_up 0 d s m = m"
| "memmove_up (Suc n) d s m = memmove_up n (d + 1) (s + 1) (m(d := m s))"

fun memmove_down :: "nat \<Rightarrow> u64 \<Rightarrow> u64 \<Rightarrow> memory \<Rightarrow> memory" where
  "memmove_down 0 d s m = m"
| "memmove_down (Suc n) d s m = memmove_down n (d - 1) (s - 1) (m(d - 1 := m (s - 1)))"

definition memmove :: "u64 \<Rightarrow> u64 \<Rightarrow> u32 \<Rightarrow> memory \<Rightarrow> memory" where
  "memmove dst src n m =
     (if n = 0 then m
      else if src < dst \<and> src + ucast n > dst
      then memmove_down (unat n) (dst + ucast n) (src + ucast n) m
      else memmove_up (unat n) dst src m)"

definition memcpy :: "u64 \<Rightarrow> u64 \<Rightarrow> u32 \<Rightarrow> memory \<Rightarrow> memory" where
  "memcpy dst src n m = memmove dst src n m"

fun strncmp_loop :: "nat \<Rightarrow> u64 \<Rightarrow> u64 \<Rightarrow> memory \<Rightarrow> int" where
  "strncmp_loop 0 p q m = 0"
| "strncmp_loop (Suc n) p q m =
     (if m p \<noteq> 0 \<and> m p = m q then strncmp_loop n (p + 1) (q + 1) m
      else uint (m p) - uint (m q))"

definition strncmp :: "u64 \<Rightarrow> u64 \<Rightarrow> u32 \<Rightarrow> memory \<Rightarrow> int" where
  "strncmp p q n m = strncmp_loop (unat n) p q m"

text \<open>The two loops of \<open>strncpy\<close>: copy up to and including a NUL, then pad.\<close>

fun strncpy_copy :: "nat \<Rightarrow> u64 \<Rightarrow> u64 \<Rightarrow> memory \<Rightarrow> nat \<times> u64 \<times> memory" where
  "strncpy_copy 0 s t m = (0, s, m)"
| "strncpy_copy (Suc n) s t m =
     (if m t \<noteq> 0 then strncpy_copy n (s + 1) (t + 1) (m(s := m t)) else (n, s + 1, m(s := m t)))"

fun strncpy_pad :: "nat \<Rightarrow> u64 \<Rightarrow> memory \<Rightarrow> memory" where
  "strncpy_pad 0 s m = m"
| "strncpy_pad (Suc n) s m = strncpy_pad n (s + 1) (m(s := 0))"

definition strncpy :: "u64 \<Rightarrow> u64 \<Rightarrow> int \<Rightarrow> memory \<Rightarrow> memory" where
  "strncpy s t n m = (case strncpy_copy (nat n) s t m of (n', s', m') \<Rightarrow> strncpy_pad n' s' m')"

text \<open>\<open>safestrcpy\<close>: the loop copies at most \<open>n - 1\<close> bytes and returns where it stopped.\<close>

fun safestrcpy_loop :: "nat \<Rightarrow> u64 \<Rightarrow> u64 \<Rightarrow> memory \<Rightarrow> u64 \<times> memory" where
  "safestrcpy_loop 0 s t m = (s, m)"
| "safestrcpy_loop (Suc n) s t m =
     (if m t \<noteq> 0 then safestrcpy_loop n (s + 1) (t + 1) (m(s := m t)) else (s + 1, m(s := m t)))"

definition safestrcpy :: "u64 \<Rightarrow> u64 \<Rightarrow> int \<Rightarrow> memory \<Rightarrow> memory" where
  "safestrcpy s t n m =
     (if n \<le> 0 then m
      else case safestrcpy_loop (nat n - 1) s t m of (s', m') \<Rightarrow> m'(s' := 0))"

partial_function (option) strlen_loop :: "u64 \<Rightarrow> nat \<Rightarrow> memory \<Rightarrow> nat option" where
  "strlen_loop s n m = (if m (s + of_nat n) \<noteq> 0 then strlen_loop s (Suc n) m else Some n)"

definition strlen :: "u64 \<Rightarrow> memory \<Rightarrow> nat option" where
  "strlen s m = strlen_loop s 0 m"

section \<open>Ranges of memory\<close>

definition in_range :: "u64 \<Rightarrow> nat \<Rightarrow> u64 \<Rightarrow> bool" where
  "in_range base n a \<longleftrightarrow> unat (a - base) < n"

definition bytes_at :: "memory \<Rightarrow> u64 \<Rightarrow> nat \<Rightarrow> u8 list" where
  "bytes_at m p n = map (\<lambda>i. m (p + of_nat i)) [0..<n]"

text \<open>The NUL-terminated string \<open>xs\<close> is stored at \<open>p\<close>.\<close>

definition cstring :: "memory \<Rightarrow> u64 \<Rightarrow> u8 list \<Rightarrow> bool" where
  "cstring m p xs \<longleftrightarrow> 0 \<notin> set xs \<and> length xs < 2 ^ 64 \<and> bytes_at m p (Suc (length xs)) = xs @ [0]"

lemma unat_minus_one: "unat (x - 1 :: u64) = (if x = 0 then 2 ^ 64 - 1 else unat x - 1)"
proof (cases "x = 0")
  case False
  then have "1 \<le> x" by (simp add: word_le_nat_alt Suc_le_eq unat_gt_0)
  then show ?thesis using False by (simp add: unat_sub)
qed (simp add: unsigned_minus_1_eq_mask mask_eq_exp_minus_1)

lemma in_range_Suc_base:
  "n < 2 ^ 64 \<Longrightarrow> in_range (base + 1) n a \<longleftrightarrow> a \<noteq> base \<and> in_range base (Suc n) a"
proof -
  assume n: "n < 2 ^ 64"
  have "a - (base + 1) = (a - base) - 1" by simp
  then have "unat (a - (base + 1)) = (if a = base then 2 ^ 64 - 1 else unat (a - base) - 1)"
    by (simp only: unat_minus_one) simp
  moreover have "a \<noteq> base \<Longrightarrow> 0 < unat (a - base)"
    by (simp add: unat_gt_0)
  ultimately show ?thesis using n by (auto simp: in_range_def)
qed

lemma in_range_iff: "n \<le> 2 ^ 64 \<Longrightarrow> in_range base n a \<longleftrightarrow> (\<exists>i < n. a = base + of_nat i)"
proof
  assume "in_range base n a"
  then show "\<exists>i < n. a = base + of_nat i"
    by (intro exI [of _ "unat (a - base)"]) (simp add: in_range_def)
next
  assume n: "n \<le> 2 ^ 64" and "\<exists>i < n. a = base + of_nat i"
  then obtain i where i: "i < n" "a = base + of_nat i" by blast
  then have "unat (of_nat i :: u64) = i"
    using n by (simp add: unat_of_nat)
  then show "in_range base n a" using i by (simp add: in_range_def)
qed

lemma in_range_0 [simp]: "\<not> in_range base 0 a"
  by (simp add: in_range_def)

lemma length_bytes_at [simp]: "length (bytes_at m p n) = n"
  by (simp add: bytes_at_def)

lemma bytes_at_nth [simp]: "i < n \<Longrightarrow> bytes_at m p n ! i = m (p + of_nat i)"
  by (simp add: bytes_at_def)

lemma bytes_at_Suc: "bytes_at m p (Suc n) = m p # bytes_at m (p + 1) n"
  by (rule nth_equalityI) (auto simp: nth_Cons algebra_simps split: nat.splits)

lemma addr_offset: "i < 2 ^ 64 \<Longrightarrow> a = base + of_nat i \<longleftrightarrow> unat (a - base) = i"
  for a base :: u64
proof
  assume "i < 2 ^ 64" and "a = base + of_nat i"
  then show "unat (a - base) = i" by (simp add: unat_of_nat)
next
  assume "unat (a - base) = i"
  then have "of_nat i = a - base" by (metis of_nat_unat ucast_id)
  then show "a = base + of_nat i" by simp
qed

section \<open>memset and memmove\<close>

declare memset_loop.simps [simp del]

lemma memset_loop_spec:
  assumes "n < 2 ^ 64" and "i \<le> n"
  shows "memset_loop i n dst c m a = (if in_range dst n a \<and> i \<le> unat (a - dst) then c else m a)"
  using assms
proof (induction i n dst c m rule: memset_loop.induct)
  case (1 i n dst c m)
  show ?case
  proof (cases "i < n")
    case True
    have "a = dst + of_nat i \<longleftrightarrow> unat (a - dst) = i"
      using True "1.prems" by (intro addr_offset) simp
    then show ?thesis
      using True "1.IH" [OF True] "1.prems"
      by (subst memset_loop.simps) (auto simp: in_range_def fun_upd_def)
  next
    case False
    then show ?thesis using "1.prems" by (subst memset_loop.simps) (auto simp: in_range_def)
  qed
qed

theorem memset_spec: "memset dst c n m a = (if in_range dst (unat n) a then word_of_int c else m a)"
proof -
  have "unat n < 2 ^ 32" using unsigned_less [of n] by simp
  then show ?thesis by (simp add: memset_def memset_loop_spec)
qed

lemma memmove_up_spec:
  assumes "n < 2 ^ 64"
    and "\<And>j k. j < k \<Longrightarrow> k < n \<Longrightarrow> d + of_nat j \<noteq> s + of_nat k"
  shows "memmove_up n d s m a = (if in_range d n a then m (s + (a - d)) else m a)"
  using assms
proof (induction n arbitrary: d s m)
  case 0
  then show ?case by simp
next
  case (Suc n)
  have n: "n < 2 ^ 64" using Suc.prems(1) by simp
  have shift: "d + 1 + of_nat j \<noteq> s + 1 + of_nat k" if "j < k" "k < n" for j k
    using Suc.prems(2) [of "Suc j" "Suc k"] that by (simp add: algebra_simps)
  have fresh: "s + (a - d) \<noteq> d" if "in_range d (Suc n) a" "a \<noteq> d"
  proof -
    define k where "k = unat (a - d)"
    have a: "a = d + of_nat k" by (simp add: k_def)
    have "0 < k" "k < Suc n" using that by (auto simp: k_def in_range_def unat_gt_0)
    then have "d \<noteq> s + of_nat k" using Suc.prems(2) [of 0 k] by simp
    then show ?thesis by (simp add: a algebra_simps)
  qed
  have "memmove_up (Suc n) d s m a =
      (if in_range (d + 1) n a then (m(d := m s)) (s + 1 + (a - (d + 1))) else (m(d := m s)) a)"
    using Suc.IH [OF n shift] by simp
  also have "s + 1 + (a - (d + 1)) = s + (a - d)" by simp
  also have "(if in_range (d + 1) n a then (m(d := m s)) (s + (a - d)) else (m(d := m s)) a) =
      (if in_range d (Suc n) a then m (s + (a - d)) else m a)"
  proof (cases "a = d")
    case True
    then show ?thesis using n by (simp add: in_range_Suc_base) (simp add: in_range_def)
  next
    case False
    then show ?thesis using fresh n by (simp add: in_range_Suc_base)
  qed
  finally show ?case .
qed

lemma memmove_down_spec:
  assumes "n < 2 ^ 64"
    and "\<And>j k. j < k \<Longrightarrow> k < n \<Longrightarrow> d + of_nat k \<noteq> s + of_nat j"
  shows "memmove_down n (d + of_nat n) (s + of_nat n) m a =
     (if in_range d n a then m (s + (a - d)) else m a)"
  using assms
proof (induction n arbitrary: m)
  case 0
  then show ?case by simp
next
  case (Suc n)
  have n: "n < 2 ^ 64" using Suc.prems(1) by simp
  let ?m = "m(d + of_nat n := m (s + of_nat n))"
  have range: "in_range d (Suc n) a \<longleftrightarrow> in_range d n a \<or> a = d + of_nat n"
    using Suc.prems(1) by (simp add: in_range_iff less_Suc_eq) blast
  have fresh: "s + (a - d) \<noteq> d + of_nat n" if "in_range d n a"
  proof -
    obtain j where "j < n" "a = d + of_nat j" using \<open>in_range d n a\<close> n by (auto simp: in_range_iff)
    then show ?thesis using Suc.prems(2) [of j n] by auto
  qed
  have "memmove_down (Suc n) (d + of_nat (Suc n)) (s + of_nat (Suc n)) m a =
      memmove_down n (d + of_nat n) (s + of_nat n) ?m a"
    by (simp add: algebra_simps)
  also have "\<dots> = (if in_range d n a then ?m (s + (a - d)) else ?m a)"
    using Suc.IH [OF n] Suc.prems(2) by simp
  also have "\<dots> = (if in_range d (Suc n) a then m (s + (a - d)) else m a)"
    using fresh range by (auto simp: in_range_def)
  finally show ?case .
qed

lemma unat_offset_bound:
  assumes "unat b + k < 2 ^ 64"
  shows "unat (b + of_nat k :: u64) = unat b + k"
  using assms by (simp add: unat_word_ariths unat_of_nat)

theorem memmove_spec:
  assumes "unat dst + unat n \<le> 2 ^ 64" and "unat src + unat n \<le> 2 ^ 64"
  shows "memmove dst src n m = (\<lambda>a. if in_range dst (unat n) a then m (src + (a - dst)) else m a)"
proof
  fix a
  have small: "unat n < 2 ^ 32" using unsigned_less [of n] by simp
  have pos: "unat (src + of_nat k) = unat src + k" "unat (dst + of_nat k) = unat dst + k" if "k < unat n" for k
    using assms that by (simp_all add: unat_offset_bound)
  consider (zero) "n = 0" | (up) "n \<noteq> 0" "dst \<le> src \<or> unat src + unat n \<le> unat dst"
    | (down) "n \<noteq> 0" "src < dst" "unat dst < unat src + unat n"
    by (meson not_le word_le_nat_alt word_less_nat_alt)
  then show "memmove dst src n m a = (if in_range dst (unat n) a then m (src + (a - dst)) else m a)"
  proof cases
    case zero
    then show ?thesis by (simp add: memmove_def)
  next
    case up
    have "\<not> (src < dst \<and> src + ucast n > dst)"
    proof
      assume c: "src < dst \<and> src + ucast n > dst"
      then have le: "unat src + unat n \<le> unat dst" using up by auto
      then have "unat (src + of_nat (unat n)) = unat src + unat n"
        using unat64_less [of dst] by (intro unat_offset_bound) simp
      then show False using c le by (simp add: word_less_nat_alt)
    qed
    moreover have "dst + of_nat j \<noteq> src + of_nat k" if "j < k" "k < unat n" for j k
    proof
      assume "dst + of_nat j = src + of_nat k"
      then have "unat dst + j = unat src + k" using pos that by (metis less_trans)
      then show False using up that by (auto simp: word_le_nat_alt)
    qed
    ultimately show ?thesis
      using up small by (auto simp: memmove_def memmove_up_spec)
  next
    case down
    have sep: "dst + of_nat k \<noteq> src + of_nat j" if "j < k" "k < unat n" for j k
    proof
      assume "dst + of_nat k = src + of_nat j"
      then have "unat dst + k = unat src + j" using pos that by (metis less_trans)
      then show False using down that by (simp add: word_less_nat_alt)
    qed
    have spec: "memmove_down (unat n) (dst + of_nat (unat n)) (src + of_nat (unat n)) m a =
        (if in_range dst (unat n) a then m (src + (a - dst)) else m a)"
      using memmove_down_spec [of "unat n" dst src m a] sep small by simp
    show ?thesis
    proof (cases "src + ucast n > dst")
      case True
      then show ?thesis using down spec by (simp add: memmove_def)
    next
      case False
      \<comment> \<open>the end of the source is \<open>2^64\<close>: the sum wraps to 0 and the code copies upwards\<close>
      have "unat src + unat n = 2 ^ 64"
      proof (rule ccontr)
        assume "unat src + unat n \<noteq> 2 ^ 64"
        then have "unat (src + of_nat (unat n)) = unat src + unat n"
          using assms(2) by (intro unat_offset_bound) simp
        then show False using False down by (simp add: word_less_nat_alt)
      qed
      moreover have "unat src < unat dst" using down by (simp add: word_less_nat_alt)
      ultimately show ?thesis using assms(1) by simp
    qed
  qed
qed

section \<open>Strings\<close>

definition disjoint_ranges :: "u64 \<Rightarrow> nat \<Rightarrow> u64 \<Rightarrow> nat \<Rightarrow> bool" where
  "disjoint_ranges p n q k \<longleftrightarrow> (\<forall>a. \<not> (in_range p n a \<and> in_range q k a))"

lemma disjoint_ranges_step:
  assumes "disjoint_ranges p (Suc n) q (Suc k)" "n < 2 ^ 64" "k < 2 ^ 64"
  shows "disjoint_ranges (p + 1) n (q + 1) k" "p \<noteq> q" "\<not> in_range q (Suc k) p"
proof -
  have self: "in_range b (Suc i) b" for b i by (simp add: in_range_def)
  show "disjoint_ranges (p + 1) n (q + 1) k"
    using assms by (auto simp: disjoint_ranges_def in_range_Suc_base)
  show "p \<noteq> q" "\<not> in_range q (Suc k) p"
    using assms(1) self unfolding disjoint_ranges_def by blast+
qed

lemma bytes_at_upd_other: "n \<le> 2 ^ 64 \<Longrightarrow> \<not> in_range p n a \<Longrightarrow> bytes_at (m(a := v)) p n = bytes_at m p n"
  by (auto simp: bytes_at_def in_range_iff)

lemma cstring_Nil: "cstring m p [] \<longleftrightarrow> m p = 0"
  by (simp add: cstring_def bytes_at_def)

lemma cstring_Cons:
  "cstring m p (x # xs) \<longleftrightarrow> m p = x \<and> x \<noteq> 0 \<and> Suc (length xs) < 2 ^ 64 \<and> cstring m (p + 1) xs"
  by (auto simp: cstring_def bytes_at_Suc [of m p])

lemma cstring_upd_other:
  "\<not> in_range p (Suc (length xs)) a \<Longrightarrow> cstring (m(a := v)) p xs \<longleftrightarrow> cstring m p xs"
proof (cases "length xs < 2 ^ 64")
  case True
  assume "\<not> in_range p (Suc (length xs)) a"
  then have "bytes_at (m(a := v)) p (Suc (length xs)) = bytes_at m p (Suc (length xs))"
    using True by (intro bytes_at_upd_other) simp_all
  then show ?thesis by (simp only: cstring_def)
qed (simp add: cstring_def)

lemma strncpy_pad_spec: "n < 2 ^ 64 \<Longrightarrow> strncpy_pad n s m a = (if in_range s n a then 0 else m a)"
proof (induction n arbitrary: s m)
  case (Suc n)
  then show ?case
    by (cases "a = s") (simp_all add: in_range_Suc_base, simp add: in_range_def)
qed simp

lemma unat_pred_offset: "a \<noteq> s \<Longrightarrow> unat (a - (s + 1)) = unat (a - s :: u64) - 1"
proof -
  assume "a \<noteq> s"
  then have "unat ((a - s) - 1) = unat (a - s) - 1" by (simp add: unat_minus_one)
  then show ?thesis by (simp add: algebra_simps)
qed

lemma unat_offset_pos: "a \<noteq> s \<Longrightarrow> 0 < unat (a - s :: u64)"
  by (simp add: unat_gt_0)

definition strncpy_both :: "nat \<Rightarrow> u64 \<Rightarrow> u64 \<Rightarrow> memory \<Rightarrow> memory" where
  "strncpy_both n s t m = (case strncpy_copy n s t m of (n', s', m') \<Rightarrow> strncpy_pad n' s' m')"

lemma strncpy_both_simps:
  "strncpy_both 0 s t m = m"
  "strncpy_both (Suc n) s t m =
     (if m t \<noteq> 0 then strncpy_both n (s + 1) (t + 1) (m(s := m t)) else strncpy_pad n (s + 1) (m(s := 0)))"
  by (simp_all add: strncpy_both_def)

lemma strncpy_both_spec:
  assumes "cstring m t xs" "n < 2 ^ 64" "disjoint_ranges s n t (Suc (length xs))"
  shows "strncpy_both n s t m a =
     (if in_range s n a then (if unat (a - s) < length xs then xs ! unat (a - s) else 0) else m a)"
  using assms
proof (induction n arbitrary: s t m xs)
  case 0
  then show ?case by (simp add: strncpy_both_simps)
next
  case (Suc n)
  have n: "n < 2 ^ 64" using Suc.prems(2) by simp
  show ?case
  proof (cases xs)
    case Nil
    then show ?thesis
      using Suc.prems(1) n
      by (cases "a = s")
         (simp_all add: strncpy_both_simps cstring_Nil strncpy_pad_spec in_range_Suc_base,
          simp add: in_range_def)
  next
    case (Cons x ys)
    have len: "Suc (length ys) < 2 ^ 64" and mt: "m t = x" "x \<noteq> 0" and ys: "cstring m (t + 1) ys"
      using Suc.prems(1) by (auto simp: Cons cstring_Cons)
    have "disjoint_ranges s (Suc n) t (Suc (Suc (length ys)))" using Suc.prems(3) Cons by simp
    note dj = disjoint_ranges_step [OF this n len]
    have "\<not> in_range (t + 1) (Suc (length ys)) s"
      using dj(2,3) len by (simp add: in_range_Suc_base Cons)
    then have ys': "cstring (m(s := x)) (t + 1) ys" using ys by (simp add: cstring_upd_other)
    have IH: "strncpy_both n (s + 1) (t + 1) (m(s := x)) a =
        (if in_range (s + 1) n a
         then (if unat (a - (s + 1)) < length ys then ys ! unat (a - (s + 1)) else 0)
         else (m(s := x)) a)"
      by (rule Suc.IH [OF ys' n]) (use dj(1) in simp)
    show ?thesis
    proof (cases "a = s")
      case True
      then show ?thesis using IH mt n Cons
        by (simp add: strncpy_both_simps in_range_Suc_base) (simp add: in_range_def)
    next
      case False
      then obtain k where "unat (a - s) = Suc k" using unat_offset_pos gr0_implies_Suc by blast
      with False show ?thesis using IH mt n Cons
        by (simp add: strncpy_both_simps in_range_Suc_base unat_pred_offset)
    qed
  qed
qed

text \<open>The string held in a field of \<open>n\<close> bytes that need not be NUL-terminated (a directory name).\<close>

definition field_name :: "memory \<Rightarrow> u64 \<Rightarrow> nat \<Rightarrow> u8 list" where
  "field_name m p n = takeWhile (\<lambda>b. b \<noteq> 0) (bytes_at m p n)"

lemma field_name_simps:
  "field_name m p 0 = []"
  "field_name m p (Suc n) = (if m p = 0 then [] else m p # field_name m (p + 1) n)"
  by (simp_all add: field_name_def bytes_at_Suc) (simp add: bytes_at_def)

lemma uint_diff_eq_0: "uint a - uint b = 0 \<longleftrightarrow> a = (b :: u8)"
  by (simp add: word_uint_eq_iff)

lemma strncmp_loop_eq_0:
  "strncmp_loop n p q m = 0 \<longleftrightarrow> field_name m p n = field_name m q n"
proof (induction n arbitrary: p q)
  case 0
  then show ?case by (simp add: field_name_simps)
next
  case (Suc n)
  show ?case
    using Suc.IH uint_diff_eq_0 [of "m p" "m q"] by (auto simp: field_name_simps simp del: right_minus_eq)
qed

lemma field_name_cstring: "cstring m p xs \<Longrightarrow> field_name m p n = take n xs"
proof (induction n arbitrary: p xs)
  case 0
  then show ?case by (simp add: field_name_simps)
next
  case (Suc n)
  then show ?case by (cases xs) (auto simp: field_name_simps cstring_Nil cstring_Cons)
qed

lemma strncpy_spec:
  assumes "cstring m t xs" "0 \<le> n" "n < 2 ^ 31" "disjoint_ranges s (nat n) t (Suc (length xs))"
  shows "strncpy s t n m a =
     (if in_range s (nat n) a then (if unat (a - s) < length xs then xs ! unat (a - s) else 0) else m a)"
proof -
  have "strncpy s t n m = strncpy_both (nat n) s t m"
    by (simp add: strncpy_def strncpy_both_def)
  then show ?thesis using assms by (simp add: strncpy_both_spec)
qed

lemma bytes_at_strncpy:
  assumes "cstring m t xs" "0 \<le> n" "n < 2 ^ 31" "disjoint_ranges s (nat n) t (Suc (length xs))"
  shows "bytes_at (strncpy s t n m) s (nat n) = take (nat n) (xs @ replicate (nat n) 0)"
proof (rule nth_equalityI)
  fix i assume "i < length (bytes_at (strncpy s t n m) s (nat n))"
  then have i: "i < nat n" by simp
  then have u: "unat (s + of_nat i - s) = i" using assms(3) by (simp add: unat_of_nat)
  have "in_range s (nat n) (s + of_nat i)" using i u by (simp add: in_range_def)
  then show "bytes_at (strncpy s t n m) s (nat n) ! i = take (nat n) (xs @ replicate (nat n) 0) ! i"
    using i strncpy_spec [OF assms, of "s + of_nat i"] u by (simp add: nth_append)
qed simp

lemma takeWhile_take_pad:
  assumes "0 \<notin> set (xs :: u8 list)"
  shows "takeWhile (\<lambda>b. b \<noteq> 0) (take n (xs @ replicate n 0)) = take n xs"
proof -
  have "take n (xs @ replicate n 0) = take n xs @ replicate (n - length xs) 0"
    by (simp add: min_def)
  moreover have "\<forall>b \<in> set (take n xs). b \<noteq> 0" using assms by (metis in_set_takeD)
  ultimately show ?thesis by (simp add: takeWhile_append2)
qed

lemma field_name_strncpy:
  assumes "cstring m t xs" "0 \<le> n" "n < 2 ^ 31" "disjoint_ranges s (nat n) t (Suc (length xs))"
  shows "field_name (strncpy s t n m) s (nat n) = take (nat n) xs"
  unfolding field_name_def bytes_at_strncpy [OF assms]
  by (rule takeWhile_take_pad) (use assms(1) in \<open>simp add: cstring_def\<close>)

lemma safestrcpy_loop_spec:
  assumes "cstring m t xs" "n < 2 ^ 64 - 1" "disjoint_ranges s (Suc n) t (Suc (length xs))"
  defines "r \<equiv> safestrcpy_loop n s t m"
  shows "cstring ((snd r)(fst r := 0)) s (take n xs) \<and>
    (\<forall>a. \<not> in_range s (Suc n) a \<longrightarrow> ((snd r)(fst r := 0)) a = m a)"
  using assms(1-3) unfolding r_def
proof (induction n arbitrary: s t m xs)
  case 0
  then show ?case by (auto simp: cstring_Nil in_range_def)
next
  case (Suc n)
  have n: "Suc n < 2 ^ 64" "n < 2 ^ 64" using Suc.prems(2) by simp_all
  show ?case
  proof (cases xs)
    case Nil
    then show ?thesis using Suc.prems(1) n
      by (auto simp: cstring_Nil in_range_def)
  next
    case (Cons x ys)
    have len: "Suc (length ys) < 2 ^ 64" and mt: "m t = x" "x \<noteq> 0" and ys: "cstring m (t + 1) ys"
      using Suc.prems(1) by (auto simp: Cons cstring_Cons)
    have "disjoint_ranges s (Suc (Suc n)) t (Suc (Suc (length ys)))" using Suc.prems(3) Cons by simp
    note dj = disjoint_ranges_step [OF this n(1) len]
    have "\<not> in_range (t + 1) (Suc (length ys)) s"
      using dj(2,3) len by (simp add: in_range_Suc_base Cons)
    then have ys': "cstring (m(s := x)) (t + 1) ys" using ys by (simp add: cstring_upd_other)
    have n': "n < 2 ^ 64 - 1" using Suc.prems(2) by simp
    note IH0 = Suc.IH [OF ys' n' dj(1)]
    let ?r = "safestrcpy_loop n (s + 1) (t + 1) (m(s := x))"
    let ?m = "(snd ?r)(fst ?r := 0)"
    have IH: "cstring ?m (s + 1) (take n ys)"
      "\<And>a. \<not> in_range (s + 1) (Suc n) a \<Longrightarrow> ?m a = (m(s := x)) a"
      using conjunct1 [OF IH0] conjunct2 [OF IH0] by blast+
    have "?m s = x" using IH(2) [of s] n by (simp add: in_range_Suc_base)
    then have "cstring ?m s (take (Suc n) xs)"
      using IH(1) mt n len by (simp add: Cons cstring_Cons)
    moreover have "?m a = m a" if "\<not> in_range s (Suc (Suc n)) a" for a
      using IH(2) [of a] that n by (auto simp: in_range_Suc_base) (auto simp: in_range_def)
    moreover have "safestrcpy_loop (Suc n) s t m = ?r" using mt by simp
    ultimately show ?thesis by metis
  qed
qed

lemma strlen_spec:
  assumes "cstring m s xs"
  shows "strlen s m = Some (length xs)"
proof -
  have "strlen_loop s n m = Some (n + length ys)" if "cstring m (s + of_nat n) ys" for n ys
    using that
  proof (induction ys arbitrary: n)
    case Nil
    then show ?case by (subst strlen_loop.simps) (simp add: cstring_Nil)
  next
    case (Cons y ys)
    have "cstring m (s + of_nat (Suc n)) ys"
      using Cons.prems by (simp add: cstring_Cons algebra_simps)
    then have "strlen_loop s (Suc n) m = Some (Suc n + length ys)" by (rule Cons.IH)
    then show ?case using Cons.prems by (subst strlen_loop.simps) (simp add: cstring_Cons)
  qed
  from this [of 0 xs] show ?thesis using assms by (simp add: strlen_def)
qed

section \<open>64-bit loads and stores\<close>

fun le_word :: "u8 list \<Rightarrow> u64" where
  "le_word [] = 0"
| "le_word (b # bs) = ucast b OR push_bit 8 (le_word bs)"

definition load64 :: "memory \<Rightarrow> u64 \<Rightarrow> u64" where
  "load64 m a = le_word (bytes_at m a 8)"

definition store64 :: "u64 \<Rightarrow> u64 \<Rightarrow> memory \<Rightarrow> memory" where
  "store64 a v m = (\<lambda>x. if in_range a 8 x then ucast (drop_bit (8 * unat (x - a)) v) else m x)"

definition aligned8 :: "u64 \<Rightarrow> bool" where
  "aligned8 a \<longleftrightarrow> unat a mod 8 = 0"

lemma bit_le_word:
  "bit (le_word bs) n \<longleftrightarrow> n < 64 \<and> n div 8 < length bs \<and> bit (bs ! (n div 8)) (n mod 8)"
proof (induction bs arbitrary: n)
  case Nil
  then show ?case by simp
next
  case (Cons b bs)
  show ?case
  proof (cases "n < 8")
    case True
    then show ?thesis by (auto simp: bit_simps)
  next
    case False
    then obtain k where k: "n = k + 8" by (metis add.commute le_Suc_ex not_less)
    have "\<not> bit b n" using False bit_imp_le_length [of b n] by auto
    moreover have "n div 8 = Suc (k div 8)" "n mod 8 = k mod 8" using k by simp_all
    ultimately show ?thesis using Cons.IH [of k] by (auto simp: k bit_simps)
  qed
qed

lemma bit_load64: "bit (load64 m a) n \<longleftrightarrow> n < 64 \<and> bit (m (a + of_nat (n div 8))) (n mod 8)"
  by (auto simp: load64_def bit_le_word)

lemma load64_store64 [simp]: "load64 (store64 a v m) a = v"
proof (rule bit_word_eqI)
  fix n assume "n < LENGTH(64)"
  then have n: "n < 64" "n div 8 < 8" by simp_all
  then have "unat (of_nat (n div 8) :: u64) = n div 8" by (simp add: unat_of_nat)
  then have "store64 a v m (a + of_nat (n div 8)) = ucast (drop_bit (8 * (n div 8)) v)"
    using n by (simp add: store64_def in_range_def)
  then show "bit (load64 (store64 a v m) a) n = bit v n"
    using n by (simp add: bit_load64 bit_simps)
qed

lemma store64_other: "\<not> in_range a 8 x \<Longrightarrow> store64 a v m x = m x"
  by (simp add: store64_def)

lemma load64_cong: "(\<And>x. in_range a 8 x \<Longrightarrow> m x = m' x) \<Longrightarrow> load64 m a = load64 m' a"
proof -
  assume eq: "\<And>x. in_range a 8 x \<Longrightarrow> m x = m' x"
  have "m (a + of_nat i) = m' (a + of_nat i)" if "i < 8" for i
    using that by (intro eq) (auto simp: in_range_iff)
  then have "bytes_at m a 8 = bytes_at m' a 8" by (simp add: bytes_at_def)
  then show ?thesis by (simp add: load64_def)
qed

lemma aligned8_disjoint:
  assumes "aligned8 a" "aligned8 b" "a \<noteq> b"
  shows "\<not> (in_range a 8 x \<and> in_range b 8 x)"
proof
  assume r: "in_range a 8 x \<and> in_range b 8 x"
  have "unat x div 8 * 8 = unat c" if "aligned8 c" "in_range c 8 x" for c
  proof -
    define i where "i = unat (x - c)"
    have i: "i < 8" "x = c + of_nat i" using that(2) by (auto simp: i_def in_range_def)
    have "unat c < 18446744073709551616" using unat64_less [of c] by simp
    then have "unat c + 8 \<le> 18446744073709551616"
      using that(1) unfolding aligned8_def by presburger
    then have "unat x = unat c + i" using i by (simp add: unat_offset_bound)
    then show ?thesis using that(1) i(1) unfolding aligned8_def by presburger
  qed
  then have "unat a = unat b" using r assms by metis
  then show False using assms(3) by (simp add: word_unat_eq_iff)
qed

lemma load64_store64_other:
  "aligned8 a \<Longrightarrow> aligned8 b \<Longrightarrow> a \<noteq> b \<Longrightarrow> load64 (store64 a v m) b = load64 m b"
  by (rule load64_cong) (metis aligned8_disjoint store64_other)

section \<open>Properties of string.c\<close>

text \<open>
  \<open>memmove\<close> copies correctly whatever the overlap of the two ranges: every byte of the
  destination receives the byte the source held before the call, and no other byte of memory
  changes, provided neither range wraps around the end of the address space.
\<close>
theorem memmove_overlap_safe:
  assumes "unat dst + unat n \<le> 2 ^ 64" and "unat src + unat n \<le> 2 ^ 64"
  shows "bytes_at (memmove dst src n m) dst (unat n) = bytes_at m src (unat n)
    \<and> (\<forall>a. \<not> in_range dst (unat n) a \<longrightarrow> memmove dst src n m a = m a)"
proof (intro conjI allI impI nth_equalityI)
  fix i assume "i < length (bytes_at (memmove dst src n m) dst (unat n))"
  then have i: "i < unat n" by simp
  moreover have "in_range dst (unat n) (dst + of_nat i)"
  proof -
    have "unat n < 2 ^ 32" using unsigned_less [of n] by simp
    then have "unat (of_nat i :: u64) = i" using i by (simp add: unat_of_nat)
    then show ?thesis using i by (simp add: in_range_def)
  qed
  ultimately show "bytes_at (memmove dst src n m) dst (unat n) ! i = bytes_at m src (unat n) ! i"
    by (simp add: memmove_spec [OF assms])
qed (simp_all add: memmove_spec [OF assms])

theorem memmove_overlap_safe_witness:
  "bytes_at (memmove 2 0 4 ucast) 2 4 = [0, 1, 2, 3] \<and> memmove 2 0 4 ucast 7 = (7 :: u8)"
  using memmove_overlap_safe [of 2 4 0 "ucast :: u64 \<Rightarrow> u8"]
  by (simp add: in_range_def) (simp add: bytes_at_def upt_rec)

text \<open>
  \<open>safestrcpy\<close> always leaves a NUL-terminated string in the destination, the first
  \<open>n - 1\<close> bytes of the source string, and writes nothing outside the \<open>n\<close> destination bytes.
\<close>
theorem safestrcpy_terminates:
  assumes "cstring m t xs" "0 < n" "n < 2 ^ 31" "disjoint_ranges s (nat n) t (Suc (length xs))"
  shows "cstring (safestrcpy s t n m) s (take (nat n - 1) xs)
    \<and> (\<forall>a. \<not> in_range s (nat n) a \<longrightarrow> safestrcpy s t n m a = m a)"
proof -
  have n: "Suc (nat n - 1) = nat n" using assms(2) by simp
  have "nat n - 1 < 2 ^ 64 - 1" using assms(3) by simp
  note spec = safestrcpy_loop_spec [OF assms(1) this, unfolded n, OF assms(4)]
  have "safestrcpy s t n m = (snd (safestrcpy_loop (nat n - 1) s t m))
      (fst (safestrcpy_loop (nat n - 1) s t m) := 0)"
    using assms(2) by (simp add: safestrcpy_def split: prod.split)
  then show ?thesis using spec by metis
qed

definition sample_memory :: memory where
  "sample_memory = (\<lambda>_. 0)(100 := 115, 101 := 104, 102 := 101, 103 := 108, 104 := 108)"

lemma sample_string: "cstring sample_memory 100 [115, 104, 101, 108, 108]"
  by (simp add: sample_memory_def cstring_Cons cstring_Nil)

lemma sample_disjoint: "k \<le> 16 \<Longrightarrow> disjoint_ranges 200 k 100 6"
proof -
  assume k: "k \<le> 16"
  have "\<not> (in_range 200 k a \<and> in_range 100 6 a)" for a
  proof
    assume "in_range 200 k a \<and> in_range 100 6 a"
    then obtain i j where "a = 200 + of_nat i" "a = 100 + of_nat j" "i < 16" "j < 6"
      using k by (fastforce simp: in_range_iff)
    then have "unat (200 + of_nat i :: u64) = unat (100 + of_nat j :: u64)" by metis
    moreover have "unat (200 + of_nat i :: u64) = 200 + i" "unat (100 + of_nat j :: u64) = 100 + j"
      using \<open>i < 16\<close> \<open>j < 6\<close> by (simp_all add: unat_offset_bound)
    ultimately show False using \<open>j < 6\<close> by simp
  qed
  then show ?thesis by (simp add: disjoint_ranges_def)
qed

theorem safestrcpy_terminates_witness:
  "cstring (safestrcpy 200 100 4 sample_memory) 200 [115, 104, 101]"
proof -
  have "disjoint_ranges 200 (nat 4) 100 (Suc (length [115, 104, 101, 108, 108 :: u8]))"
    using sample_disjoint [of 4] by (simp add: eval_nat_numeral)
  then show ?thesis
    using safestrcpy_terminates [OF sample_string, of 4 200] by simp
qed

text \<open>
  A name stored in a fixed-size field with \<open>strncpy\<close> is found again with \<open>strncmp\<close>: the
  comparison of the field with a string gives 0 exactly when the two strings agree on the first
  \<open>n\<close> bytes. This is what \<open>dirlink\<close> and \<open>dirlookup\<close> of fs.c rely on (with \<open>n = DIRSIZ\<close>).
\<close>
theorem strncpy_strncmp_lookup:
  assumes "cstring m t xs" "0 \<le> n" "n < 2 ^ 31" "disjoint_ranges s (nat n) t (Suc (length xs))"
    and "cstring (strncpy s t n m) q ys"
  shows "strncmp s q (word_of_int n) (strncpy s t n m) = 0 \<longleftrightarrow> take (nat n) xs = take (nat n) ys"
proof -
  have "unat (word_of_int n :: u32) = nat n"
    using assms(2,3) by (simp add: unat_eq_nat_uint uint_word_of_int)
  then show ?thesis
    by (simp add: strncmp_def strncmp_loop_eq_0 field_name_strncpy [OF assms(1-4)]
        field_name_cstring [OF assms(5)])
qed

theorem strncpy_strncmp_lookup_witness:
  "strncmp 200 100 14 (strncpy 200 100 14 sample_memory) = 0"
proof -
  have six: "Suc (length [115, 104, 101, 108, 108 :: u8]) = 6" by simp
  have d: "disjoint_ranges 200 (nat 14) 100 (Suc (length [115, 104, 101, 108, 108 :: u8]))"
    using sample_disjoint [of 14] unfolding six by simp
  have "strncpy 200 100 14 sample_memory a = sample_memory a" if "in_range 100 6 a" for a
  proof -
    have "\<not> in_range 200 (nat 14) a" using d that unfolding six disjoint_ranges_def by blast
    then show ?thesis using strncpy_spec [OF sample_string _ _ d, of a] by simp
  qed
  then have "bytes_at (strncpy 200 100 14 sample_memory) 100 6 = bytes_at sample_memory 100 6"
    by (intro nth_equalityI) (auto simp: in_range_iff)
  then have "cstring (strncpy 200 100 14 sample_memory) 100 [115, 104, 101, 108, 108]"
    using sample_string unfolding cstring_def six by simp
  then show ?thesis
    using strncpy_strncmp_lookup [OF sample_string _ _ d] by simp
qed

end
