(* ===== verification/Xv6_Kalloc.thy ===== *)
theory Xv6_Kalloc
  imports Xv6_Spinlock Xv6_String
begin

text \<open>
  The physical page allocator, kalloc.c. The kernel state gains the byte memory, the head of the
  free list and the link-time constant \<open>end\<close>. As in the code the free list lives in the free
  pages themselves: the first eight bytes of a free page hold the address of the next one
  (\<open>struct run\<close>). The abstract view is a set of free pages; the interface that the other
  components use is the locale \<open>page_allocator\<close>.
\<close>

section \<open>State and operations\<close>

record kmachine = kernel +
  mem :: memory
  freelist :: u64
  kend :: u64

definition upd_mem :: "(memory \<Rightarrow> memory) \<Rightarrow> ('x kmachine_scheme, unit) kop" where
  "upd_mem f = modify (\<lambda>s. s\<lparr>mem := f (mem s)\<rparr>)"

definition kfree :: "u64 \<Rightarrow> ('x kmachine_scheme, unit) kop" where
  "kfree pa =
     kbind (gets kend) (\<lambda>e.
     if pa mod PGSIZE \<noteq> 0 \<or> pa < e \<or> pa \<ge> PHYSTOP then panic ''kfree'' else
     kthen (upd_mem (memset pa 1 (ucast PGSIZE))) (
     kthen (acquire L_kmem) (
     kthen (modify (\<lambda>s. s\<lparr>mem := store64 pa (freelist s) (mem s)\<rparr>)) (
     kthen (modify (\<lambda>s. s\<lparr>freelist := pa\<rparr>)) (
     release L_kmem)))))"

definition kalloc :: "('x kmachine_scheme, u64) kop" where
  "kalloc =
     kthen (acquire L_kmem) (
     kbind (gets freelist) (\<lambda>r.
     kthen (kwhen (r \<noteq> 0) (modify (\<lambda>s. s\<lparr>freelist := load64 (mem s) r\<rparr>))) (
     kthen (release L_kmem) (
     kthen (kwhen (r \<noteq> 0) (upd_mem (memset r 5 (ucast PGSIZE)))) (
     ret r)))))"

text \<open>
  The loop of \<open>freerange\<close> ends because \<open>kfree\<close> panics outside the physical memory, so the
  pointer cannot wrap around.
\<close>

lemma kfree_Ok_range: "kfree pa s = Ok () t \<Longrightarrow> pa < PHYSTOP"
  by (auto simp: kfree_def split: if_splits)

function freerange_loop :: "u64 \<Rightarrow> u64 \<Rightarrow> ('x kmachine_scheme, unit) kop" where
  "freerange_loop p pa_end s =
     (if p + PGSIZE \<le> pa_end
      then (case kfree p s of
              Ok _ t \<Rightarrow> freerange_loop (p + PGSIZE) pa_end t
            | Panic msg \<Rightarrow> Panic msg | Spin t \<Rightarrow> Spin t | Sleep t \<Rightarrow> Sleep t)
      else Ok () s)"
  by pat_completeness auto
termination
proof (relation "measure (\<lambda>(p, e, s). unat PHYSTOP - unat p)")
  fix p e :: u64 and s t :: "'x kmachine_scheme" and u
  assume "kfree p s = Ok u t"
  then have "p < PHYSTOP" by (simp add: kfree_Ok_range)
  then have "unat p < unat PHYSTOP" "unat (p + PGSIZE) = unat p + 4096"
    using unat_offset_bound [of p 4096] by (simp_all add: word_less_nat_alt PGSIZE_def PHYSTOP_def KERNBASE_def)
  then show "((p + PGSIZE, e, t), p, e, s) \<in> measure (\<lambda>(p, e, s). unat PHYSTOP - unat p)" by simp
qed simp

definition freerange :: "u64 \<Rightarrow> u64 \<Rightarrow> ('x kmachine_scheme, unit) kop" where
  "freerange pa_start pa_end = freerange_loop (PGROUNDUP pa_start) pa_end"

definition kinit :: "('x kmachine_scheme, unit) kop" where
  "kinit =
     kthen (initlock L_kmem ''kmem'') (
     kbind (gets kend) (\<lambda>e. freerange e PHYSTOP))"

declare freerange_loop.simps [simp del]

section \<open>The free list in memory\<close>

fun chain :: "memory \<Rightarrow> u64 \<Rightarrow> u64 list \<Rightarrow> bool" where
  "chain m p [] \<longleftrightarrow> p = 0"
| "chain m p (q # qs) \<longleftrightarrow> p = q \<and> p \<noteq> 0 \<and> chain m (load64 m p) qs"

definition in_page :: "u64 \<Rightarrow> u64 \<Rightarrow> bool" where
  "in_page p a \<longleftrightarrow> in_range p 4096 a"

definition kpage :: "u64 \<Rightarrow> u64 \<Rightarrow> bool" where
  "kpage e p \<longleftrightarrow> page_aligned p \<and> e \<le> p \<and> p < PHYSTOP"

definition kmem_inv :: "'x kmachine_scheme \<Rightarrow> u64 list \<Rightarrow> bool" where
  "kmem_inv s ps \<longleftrightarrow> chain (mem s) (freelist s) ps \<and> distinct ps \<and> 0 < kend s \<and>
     (\<forall>p \<in> set ps. kpage (kend s) p)"

lemma chain_cong:
  assumes "\<And>p a. p \<in> set ps \<Longrightarrow> in_range p 8 a \<Longrightarrow> m a = m' a"
  shows "chain m p ps = chain m' p ps"
  using assms
proof (induction ps arbitrary: p)
  case (Cons q qs)
  have "load64 m q = load64 m' q" using Cons.prems [of q] by (intro load64_cong) auto
  moreover have "chain m x qs = chain m' x qs" for x
    by (rule Cons.IH) (use Cons.prems in auto)
  ultimately show ?case unfolding chain.simps by metis
qed simp

lemma chain_det: "chain m p ps \<Longrightarrow> chain m p qs \<Longrightarrow> ps = qs"
proof (induction ps arbitrary: p qs)
  case Nil
  then show ?case by (cases qs) auto
next
  case (Cons x xs)
  then show ?case by (cases qs) auto
qed

lemma in_page_offset: "page_aligned p \<Longrightarrow> in_page p a \<longleftrightarrow> PGROUNDDOWN a = p"
proof -
  assume al: "page_aligned p"
  then obtain k where k: "unat p = 4096 * k" by (auto simp: page_aligned_def)
  then have "k < 4503599627370496" using unat64_less [of p] by simp
  then have room: "unat p + 4096 \<le> 2 ^ 64" using k by simp
  show ?thesis
  proof
    assume "in_page p a"
    then obtain i where i: "i < 4096" "a = p + of_nat i" by (auto simp: in_page_def in_range_iff)
    then have "unat a = unat p + i" using room by (simp add: unat_offset_bound)
    then have "unat (PGROUNDDOWN a) = unat p"
      using i(1) k by (simp add: unat_PGROUNDDOWN)
    then show "PGROUNDDOWN a = p" by (simp add: word_unat_eq_iff)
  next
    assume r: "PGROUNDDOWN a = p"
    then have "unat p = unat a div 4096 * 4096" using unat_PGROUNDDOWN [of a] by simp
    moreover have "p \<le> a" using r PGROUNDDOWN_le [of a] by simp
    ultimately have "unat (a - p) < 4096" by (simp add: unat_sub minus_div_mult_eq_mod)
    then show "in_page p a" by (simp add: in_page_def in_range_def)
  qed
qed

lemma pages_disjoint:
  "page_aligned p \<Longrightarrow> page_aligned q \<Longrightarrow> p \<noteq> q \<Longrightarrow> \<not> (in_page p a \<and> in_page q a)"
  by (simp add: in_page_offset)

lemma in_range_8_page: "in_range p 8 a \<Longrightarrow> in_page p a"
  by (simp add: in_page_def in_range_def)

lemma PGSIZE_mod: "p mod PGSIZE = 0 \<longleftrightarrow> page_aligned p"
  by (simp add: page_aligned_def PGSIZE_def word_arith_nat_mod unat_eq_zero word_unat_eq_iff unat_of_nat)

lemma memset_page: "memset p c (ucast PGSIZE) m a = (if in_page p a then word_of_int c else m a)"
  by (simp add: memset_spec in_page_def PGSIZE_def)

lemma kpage_simps: "kpage e p \<Longrightarrow> page_aligned p" "kpage e p \<Longrightarrow> 0 < e \<Longrightarrow> p \<noteq> 0"
  by (auto simp: kpage_def)

lemma chain_other_page:
  assumes "chain m h ps" "\<And>q. q \<in> set ps \<Longrightarrow> page_aligned q" "page_aligned p" "p \<notin> set ps"
    and "\<And>a. \<not> in_page p a \<Longrightarrow> m' a = m a"
  shows "chain m' h ps"
proof -
  have "m' a = m a" if "q \<in> set ps" "in_range q 8 a" for q a
    using that assms(2-5) pages_disjoint [of p q a] in_range_8_page by metis
  then show ?thesis using assms(1) chain_cong by metis
qed

section \<open>What the operations do\<close>

definition kmem_ready :: "'x kmachine_scheme \<Rightarrow> bool" where
  "kmem_ready s \<longleftrightarrow> lock_free L_kmem (locks s) \<and> irq_state_ok s \<and> (\<exists>ps. kmem_inv s ps)"

definition free_pages :: "'x kmachine_scheme \<Rightarrow> u64 set" where
  "free_pages s = \<Union> (set ` {ps. chain (mem s) (freelist s) ps})"

lemma free_pages_chain: "chain (mem s) (freelist s) ps \<Longrightarrow> free_pages s = set ps"
  using chain_det [of "mem s" "freelist s"] by (auto simp: free_pages_def)

lemma free_pages_eq: "kmem_inv s ps \<Longrightarrow> free_pages s = set ps"
  by (simp add: kmem_inv_def free_pages_chain)

lemma kmem_ready_obtain:
  assumes "kmem_ready s"
  obtains ps where "kmem_inv s ps" "free_pages s = set ps" "lock_free L_kmem (locks s)"
    "irq_ok (tp s) (sstatus s) (cpus s)" "0 \<le> noff (cpus s (tp s))"
  using assms free_pages_eq by (auto simp: kmem_ready_def irq_state_ok_def irq_ok_def)

lemma kmem_readyI:
  "kmem_inv s ps \<Longrightarrow> lock_free L_kmem (locks s) \<Longrightarrow> irq_ok (tp s) (sstatus s) (cpus s) \<Longrightarrow> kmem_ready s"
  by (auto simp: kmem_ready_def irq_state_ok_def)

lemma kmem_inv_cong:
  "mem t = mem s \<Longrightarrow> freelist t = freelist s \<Longrightarrow> kend t = kend s \<Longrightarrow> kmem_inv t ps = kmem_inv s ps"
  by (simp add: kmem_inv_def)

lemma kalloc_effect:
  assumes "lock_free L_kmem (locks s)" "irq_ok (tp s) (sstatus s) (cpus s)"
  shows "kalloc s =
    (if freelist s = 0 then Ok 0 (settle s)
     else Ok (freelist s) ((settle s)\<lparr>freelist := load64 (mem s) (freelist s),
            mem := memset (freelist s) 5 (ucast PGSIZE) (mem s)\<rparr>))"
proof -
  have "0 \<le> noff (cpus s (tp s))" using assms by (simp add: irq_ok_def)
  then show ?thesis
    using assms by (cases s) (simp add: kalloc_def state_simps upd_mem_def settle_def)
qed

lemma kfree_effect:
  assumes "lock_free L_kmem (locks s)" "irq_ok (tp s) (sstatus s) (cpus s)" "kpage (kend s) pa"
  shows "kfree pa s = Ok () ((settle s)\<lparr>freelist := pa,
            mem := store64 pa (freelist s) (memset pa 1 (ucast PGSIZE) (mem s))\<rparr>)"
proof -
  have "0 \<le> noff (cpus s (tp s))" using assms by (simp add: irq_ok_def)
  moreover have "\<not> (pa mod PGSIZE \<noteq> 0 \<or> pa < kend s \<or> pa \<ge> PHYSTOP)"
    using assms(3) by (simp add: kpage_def PGSIZE_mod not_less not_le)
  ultimately show ?thesis
    using assms(1,2) by (cases s) (simp add: kfree_def state_simps upd_mem_def settle_def)
qed

lemma kfree_panics: "\<not> kpage (kend s) pa \<Longrightarrow> kfree pa s = Panic ''kfree''"
  by (auto simp: kfree_def kpage_def PGSIZE_mod not_less not_le)

lemma kalloc_page_inv:
  assumes "kmem_inv s (p # ps)"
  shows "kmem_inv (s\<lparr>freelist := load64 (mem s) p, mem := memset p 5 (ucast PGSIZE) (mem s)\<rparr>) ps"
proof -
  have c: "chain (mem s) (load64 (mem s) p) ps" and al: "page_aligned p" "p \<notin> set ps"
    and als: "\<And>q. q \<in> set ps \<Longrightarrow> page_aligned q"
    using assms unfolding kmem_inv_def kpage_def by auto
  have "chain (memset p 5 (ucast PGSIZE) (mem s)) (load64 (mem s) p) ps"
    by (rule chain_other_page [OF c als al]) (simp_all add: memset_page)
  then show ?thesis using assms by (simp add: kmem_inv_def)
qed

lemma kfree_other:
  "\<not> in_page p a \<Longrightarrow> store64 p v (memset p c (ucast PGSIZE) m) a = m a"
  by (auto simp: store64_def memset_page dest: in_range_8_page)

lemma kfree_page_inv:
  assumes inv: "kmem_inv s ps" and pa: "kpage (kend s) pa" "pa \<notin> set ps"
  shows "kmem_inv (s\<lparr>freelist := pa, mem := store64 pa (freelist s) (memset pa 1 (ucast PGSIZE) (mem s))\<rparr>) (pa # ps)"
proof -
  have c: "chain (mem s) (freelist s) ps" and al: "page_aligned pa"
    and als: "\<And>q. q \<in> set ps \<Longrightarrow> page_aligned q"
    using assms unfolding kmem_inv_def kpage_def by auto
  have "chain (store64 pa (freelist s) (memset pa 1 (ucast PGSIZE) (mem s))) (freelist s) ps"
    by (rule chain_other_page [OF c als al pa(2)]) (simp_all add: kfree_other)
  moreover have "pa \<noteq> 0" using assms by (auto simp: kmem_inv_def kpage_def)
  ultimately show ?thesis using assms by (simp add: kmem_inv_def)
qed

lemma settle_simps [simp]:
  "tp (settle s) = tp s" "sstatus (settle s) = sstatus s" "locks (settle s) = locks s"
  "mem (settle t) = mem t" "freelist (settle t) = freelist t" "kend (settle t) = kend t"
  by (simp_all add: settle_def)

lemma kmem_inv_settle [simp]: "kmem_inv (settle s) ps = kmem_inv s ps"
  by (simp add: kmem_inv_def)

lemma irq_ok_settled [simp]: "irq_ok h ss (cpus (settle s)) = irq_ok h ss (cpus s)"
  by (simp add: settle_def irq_ok_def)

section \<open>The interface of the allocator\<close>

text \<open>
  What the rest of the kernel may assume: \<open>avail\<close> is the set of pages that can be handed out,
  allocation takes one of them out, freeing puts a page back, and neither touches the contents of
  any other page.
\<close>

locale page_allocator =
  fixes alloc :: "('s, u64) kop"
    and free :: "u64 \<Rightarrow> ('s, unit) kop"
    and avail :: "'s \<Rightarrow> u64 set"
    and page :: "'s \<Rightarrow> u64 \<Rightarrow> bool"
    and ready :: "'s \<Rightarrow> bool"
    and content :: "'s \<Rightarrow> memory"
  assumes alloc_page: "ready s \<Longrightarrow> avail s \<noteq> {} \<Longrightarrow>
      \<exists>p t. alloc s = Ok p t \<and> p \<in> avail s \<and> avail t = avail s - {p} \<and> ready t \<and> page t = page s \<and>
        (\<forall>a. \<not> in_page p a \<longrightarrow> content t a = content s a)"
    and alloc_none: "ready s \<Longrightarrow> avail s = {} \<Longrightarrow>
      \<exists>t. alloc s = Ok 0 t \<and> avail t = {} \<and> ready t \<and> page t = page s \<and> content t = content s"
    and free_page: "ready s \<Longrightarrow> page s p \<Longrightarrow> p \<notin> avail s \<Longrightarrow>
      \<exists>t. free p s = Ok () t \<and> avail t = insert p (avail s) \<and> ready t \<and> page t = page s \<and>
        (\<forall>a. \<not> in_page p a \<longrightarrow> content t a = content s a)"
    and avail_page: "ready s \<Longrightarrow> p \<in> avail s \<Longrightarrow> page s p"
    and page_nonzero: "ready s \<Longrightarrow> page s p \<Longrightarrow> p \<noteq> 0"
    and avail_finite: "ready s \<Longrightarrow> finite (avail s)"

text \<open>Calling an operation \<open>n\<close> times and keeping the results.\<close>

fun collect :: "nat \<Rightarrow> ('s, 'a) kop \<Rightarrow> ('s, 'a list) kop" where
  "collect 0 m = ret []"
| "collect (Suc n) m = kbind m (\<lambda>x. kbind (collect n m) (\<lambda>xs. ret (x # xs)))"

context page_allocator
begin

lemma collect_distinct:
  assumes "ready s" "n \<le> card (avail s)"
  shows "\<exists>ps t. collect n alloc s = Ok ps t \<and> length ps = n \<and> distinct ps \<and> set ps \<subseteq> avail s \<and>
     avail t = avail s - set ps \<and> ready t"
  using assms
proof (induction n arbitrary: s)
  case 0
  then show ?case by auto
next
  case (Suc n)
  then have ne: "avail s \<noteq> {}" by auto
  obtain p t where p: "alloc s = Ok p t" "p \<in> avail s" "avail t = avail s - {p}" "ready t"
    using alloc_page [OF Suc.prems(1) ne] by blast
  have "n \<le> card (avail t)"
    using p Suc.prems avail_finite [OF Suc.prems(1)] by simp
  then obtain ps u where "collect n alloc t = Ok ps u" "length ps = n" "distinct ps"
    "set ps \<subseteq> avail t" "avail u = avail t - set ps" "ready u"
    using Suc.IH [OF p(4)] by blast
  then show ?case using p by (auto intro!: exI [of _ "p # ps"] exI [of _ u])
qed

lemma collect_exhausted:
  assumes "ready s" "avail s = {}"
  shows "\<exists>t. collect n alloc s = Ok (replicate n 0) t \<and> ready t \<and> avail t = {}"
  using assms
proof (induction n arbitrary: s)
  case (Suc n)
  obtain t where t: "alloc s = Ok 0 t" "avail t = {}" "ready t"
    using alloc_none [OF Suc.prems] by blast
  then show ?case using Suc.IH [OF t(3,2)] by auto
qed simp

lemma free_then_alloc:
  assumes "ready s" "page s p" "p \<notin> avail s"
  shows "\<exists>q t. kthen (free p) alloc s = Ok q t \<and> q \<in> insert p (avail s) \<and> q \<noteq> 0 \<and>
    avail t = insert p (avail s) - {q} \<and> card (avail t) = card (avail s) \<and> ready t"
proof -
  obtain u where u: "free p s = Ok () u" "avail u = insert p (avail s)" "ready u"
    using free_page [OF assms] by blast
  then obtain q t where t: "alloc u = Ok q t" "q \<in> avail u" "avail t = avail u - {q}" "ready t"
    using alloc_page [of u] by blast
  have "card (avail t) = card (avail s)"
    using t u assms(3) avail_finite [OF assms(1)] by simp
  then show ?thesis using t u avail_page page_nonzero by auto
qed

end

interpretation kmem: page_allocator kalloc kfree free_pages "\<lambda>s. kpage (kend s)" kmem_ready mem
proof unfold_locales
  fix s :: "'x kmachine_scheme"
  assume r: "kmem_ready s" and ne: "free_pages s \<noteq> {}"
  obtain p ps where inv: "kmem_inv s (p # ps)" "lock_free L_kmem (locks s)"
    "irq_ok (tp s) (sstatus s) (cpus s)"
    using r ne by (elim kmem_ready_obtain) (metis list.exhaust list.set(1))
  let ?t = "(settle s)\<lparr>freelist := load64 (mem s) p, mem := memset p 5 (ucast PGSIZE) (mem s)\<rparr>"
  have fl: "freelist s = p" "p \<noteq> 0" "p \<notin> set ps" using inv(1) by (auto simp: kmem_inv_def)
  have "kalloc s = Ok p ?t" using kalloc_effect [OF inv(2,3)] fl by simp
  moreover have t: "kmem_inv ?t ps" using kalloc_page_inv [of "settle s"] inv(1) by simp
  moreover have "kmem_ready ?t" using kmem_readyI [OF t] inv(2,3) by simp
  ultimately show "\<exists>p t. kalloc s = Ok p t \<and> p \<in> free_pages s \<and> free_pages t = free_pages s - {p} \<and>
      kmem_ready t \<and> kpage (kend t) = kpage (kend s) \<and> (\<forall>a. \<not> in_page p a \<longrightarrow> mem t a = mem s a)"
    using free_pages_eq [OF inv(1)] free_pages_eq [OF t] fl
    by (intro exI [of _ p] exI [of _ ?t]) (simp add: memset_page)
next
  fix s :: "'x kmachine_scheme"
  assume r: "kmem_ready s" and e: "free_pages s = {}"
  then have inv: "kmem_inv s []" "lock_free L_kmem (locks s)" "irq_ok (tp s) (sstatus s) (cpus s)"
    by (auto elim!: kmem_ready_obtain)
  then have "kalloc s = Ok 0 (settle s)" using kalloc_effect [OF inv(2,3)] by (simp add: kmem_inv_def)
  moreover have "kmem_ready (settle s)" using kmem_readyI [of "settle s" "[]"] inv by simp
  ultimately show "\<exists>t. kalloc s = Ok 0 t \<and> free_pages t = {} \<and> kmem_ready t \<and>
      kpage (kend t) = kpage (kend s) \<and> mem t = mem s"
    using free_pages_eq [of "settle s" "[]"] inv(1) by (intro exI [of _ "settle s"]) simp
next
  fix s :: "'x kmachine_scheme" and p
  assume r: "kmem_ready s" and p: "kpage (kend s) p" "p \<notin> free_pages s"
  obtain ps where inv: "kmem_inv s ps" "free_pages s = set ps" "lock_free L_kmem (locks s)"
    "irq_ok (tp s) (sstatus s) (cpus s)"
    using r by (elim kmem_ready_obtain)
  let ?t = "(settle s)\<lparr>freelist := p, mem := store64 p (freelist s) (memset p 1 (ucast PGSIZE) (mem s))\<rparr>"
  have "kfree p s = Ok () ?t" using kfree_effect [OF inv(3,4) p(1)] .
  moreover have t: "kmem_inv ?t (p # ps)" using kfree_page_inv [of "settle s" ps p] inv p by simp
  moreover have "kmem_ready ?t" using kmem_readyI [OF t] inv(3,4) by simp
  ultimately show "\<exists>t. kfree p s = Ok () t \<and> free_pages t = insert p (free_pages s) \<and> kmem_ready t \<and>
      kpage (kend t) = kpage (kend s) \<and> (\<forall>a. \<not> in_page p a \<longrightarrow> mem t a = mem s a)"
    using inv(2) free_pages_eq [OF t]
    by (intro exI [of _ ?t]) (simp add: kfree_other)
next
  fix s :: "'x kmachine_scheme" and p
  show "kmem_ready s \<Longrightarrow> p \<in> free_pages s \<Longrightarrow> kpage (kend s) p"
    by (auto elim!: kmem_ready_obtain simp: kmem_inv_def)
  show "kmem_ready s \<Longrightarrow> kpage (kend s) p \<Longrightarrow> p \<noteq> 0"
    by (auto elim!: kmem_ready_obtain simp: kmem_inv_def kpage_def)
  show "kmem_ready s \<Longrightarrow> finite (free_pages s)"
    by (auto elim!: kmem_ready_obtain)
qed

section \<open>Boot: every page of physical memory becomes available\<close>

lemma freerange_loop_step:
  "p + PGSIZE \<le> e \<Longrightarrow> kfree p s = Ok () t \<Longrightarrow> freerange_loop p e s = freerange_loop (p + PGSIZE) e t"
  by (subst freerange_loop.simps) simp

lemma freerange_loop_done: "\<not> p + PGSIZE \<le> e \<Longrightarrow> freerange_loop p e s = Ok () s"
  by (subst freerange_loop.simps) simp

lemma next_page:
  assumes "page_aligned p" "p < PHYSTOP"
  shows "unat (p + PGSIZE) = unat p + 4096" "p + PGSIZE \<le> PHYSTOP" "page_aligned (p + PGSIZE)"
proof -
  have ps: "unat PHYSTOP = 557056 * 4096" by (simp add: PHYSTOP_def KERNBASE_def)
  obtain k where k: "unat p = 4096 * k" using assms(1) by (auto simp: page_aligned_def)
  then have lt: "k < 557056" using assms(2) ps by (simp add: word_less_nat_alt)
  show u: "unat (p + PGSIZE) = unat p + 4096"
    using unat_offset_bound [of p 4096] k lt by (simp add: PGSIZE_def)
  show "p + PGSIZE \<le> PHYSTOP" using u ps k lt by (simp add: word_le_nat_alt)
  show "page_aligned (p + PGSIZE)" using u assms(1) by (simp add: page_aligned_def)
qed

definition pages_from :: "u64 \<Rightarrow> u64 set" where
  "pages_from p = {q. page_aligned q \<and> p \<le> q \<and> q < PHYSTOP}"

lemma pages_from_step:
  assumes "page_aligned p" "p < PHYSTOP"
  shows "pages_from p = insert p (pages_from (p + PGSIZE))"
proof -
  note n = next_page [OF assms]
  have "p + PGSIZE \<le> q" if "page_aligned q" "p \<le> q" "p \<noteq> q" for q
  proof -
    obtain i j where "unat p = 4096 * i" "unat q = 4096 * j"
      using assms(1) \<open>page_aligned q\<close> unfolding page_aligned_def by (meson dvdE mod_eq_0_iff_dvd)
    moreover have "unat p < unat q" using that(2,3) by (metis order.not_eq_order_implies_strict word_less_nat_alt)
    ultimately show ?thesis using n(1) by (simp add: word_le_nat_alt)
  qed
  moreover have "p \<le> p + PGSIZE" using n(1) by (simp add: word_le_nat_alt)
  ultimately show ?thesis using assms by (auto simp: pages_from_def)
qed

lemma freerange_loop_spec:
  assumes "kmem_ready s" "page_aligned p" "kend s \<le> p" "p \<le> PHYSTOP"
    and "free_pages s \<inter> pages_from p = {}"
  shows "\<exists>t. freerange_loop p PHYSTOP s = Ok () t \<and> kmem_ready t \<and> kend t = kend s \<and>
     free_pages t = free_pages s \<union> pages_from p"
  using assms
proof (induction "unat PHYSTOP - unat p" arbitrary: p s rule: less_induct)
  case less
  show ?case
  proof (cases "p < PHYSTOP")
    case False
    then have "p = PHYSTOP" using less.prems(4) by simp
    then have "\<not> p + PGSIZE \<le> PHYSTOP" "pages_from p = {}"
      by (auto simp: pages_from_def) (simp add: PHYSTOP_def KERNBASE_def PGSIZE_def)
    then show ?thesis using less.prems by (simp add: freerange_loop_done)
  next
    case True
    note n = next_page [OF less.prems(2) True] and step = pages_from_step [OF less.prems(2) True]
    have page: "kpage (kend s) p" using less.prems True by (simp add: kpage_def)
    have fresh: "p \<notin> free_pages s" using less.prems(5) step by auto
    obtain t where t: "kfree p s = Ok () t" "free_pages t = insert p (free_pages s)" "kmem_ready t"
      using kmem.free_page [OF less.prems(1) page fresh] by blast
    have e: "kend t = kend s"
      using t(1) kfree_effect [OF _ _ page] less.prems(1) by (auto elim!: kmem_ready_obtain)
    have "p \<notin> pages_from (p + PGSIZE)" using n(1) by (auto simp: pages_from_def word_le_nat_alt)
    then have "free_pages t \<inter> pages_from (p + PGSIZE) = {}"
      using t(2) less.prems(5) step by auto
    moreover have "kend t \<le> p + PGSIZE"
      using e less.prems(3) n(1) by (simp add: word_le_nat_alt)
    moreover have "unat PHYSTOP - unat (p + PGSIZE) < unat PHYSTOP - unat p"
      using n(1) True by (simp add: word_less_nat_alt)
    ultimately obtain u where "freerange_loop (p + PGSIZE) PHYSTOP t = Ok () u" "kmem_ready u"
      "kend u = kend t" "free_pages u = free_pages t \<union> pages_from (p + PGSIZE)"
      using less.hyps [of "p + PGSIZE" t] t(3) n by blast
    then show ?thesis using freerange_loop_step [OF n(2) t(1)] t(2) e step by auto
  qed
qed

lemma kinit_effect:
  assumes "irq_state_ok s" "0 < kend s" "kend s \<le> PHYSTOP" "freelist s = 0"
  shows "\<exists>t. kinit s = Ok () t \<and> kmem_ready t \<and> kend t = kend s \<and> free_pages t = pages_from (kend s)"
proof -
  let ?u = "s\<lparr>locks := (locks s)(L_kmem := (locks s L_kmem)\<lparr>lname := ''kmem'', locked := 0, lcpu := None\<rparr>)\<rparr>"
  have i: "initlock L_kmem ''kmem'' s = Ok () ?u" by (simp add: initlock_def upd_lock_def)
  have ready: "kmem_ready ?u"
    using assms by (intro kmem_readyI [of _ "[]"])
      (simp_all add: kmem_inv_def lock_free_def irq_state_ok_def)
  have "kmem_inv ?u []" using assms by (simp add: kmem_inv_def)
  then have free: "free_pages ?u = {}" by (simp add: free_pages_eq)
  have e: "unat (kend s) \<le> 557056 * 4096"
    using assms(3) by (simp add: word_le_nat_alt PHYSTOP_def KERNBASE_def)
  then have up: "unat (PGROUNDUP (kend s)) = (unat (kend s) + 4095) div 4096 * 4096"
    by (intro unat_PGROUNDUP) simp
  then have al: "page_aligned (PGROUNDUP (kend s))" by (simp add: page_aligned_def)
  have le: "kend s \<le> PGROUNDUP (kend s)" "PGROUNDUP (kend s) \<le> PHYSTOP"
    using e up by (simp_all add: word_le_nat_alt PHYSTOP_def KERNBASE_def)
  have "PGROUNDUP (kend s) \<le> q" if "page_aligned q" "kend s \<le> q" for q
  proof -
    obtain j where "unat q = 4096 * j" using \<open>page_aligned q\<close> by (auto simp: page_aligned_def)
    moreover have "unat (kend s) \<le> unat q" using that(2) by (simp add: word_le_nat_alt)
    ultimately have "(unat (kend s) + 4095) div 4096 \<le> j" by linarith
    then show ?thesis using up \<open>unat q = 4096 * j\<close> by (simp add: word_le_nat_alt)
  qed
  then have "pages_from (PGROUNDUP (kend s)) = pages_from (kend s)"
    using le by (auto simp: pages_from_def)
  then show ?thesis
    using freerange_loop_spec [OF ready al] le free i by (simp add: kinit_def freerange_def)
qed

lemma keeps_kinit:
  assumes l: "lock_blind L_kmem f" and m: "\<And>s x. f (s\<lparr>mem := x\<rparr>) = f s" "\<And>s x. f (s\<lparr>freelist := x\<rparr>) = f s"
  shows "keeps f (kfree pa)" "keeps f kalloc" "keeps f (freerange_loop p e)" "keeps f kinit"
proof -
  show fr: "keeps f (kfree pa)" for pa
    unfolding kfree_def upd_mem_def using l m by (intro keeps_rules keeps_modify) simp_all
  show "keeps f kalloc"
    unfolding kalloc_def upd_mem_def using l m by (intro keeps_rules keeps_modify) simp_all
  have loop: "f t = f s" if "freerange_loop p e s = Ok r t" for p e s r t
    using that
  proof (induction p e s rule: freerange_loop.induct)
    case (1 p e s)
    show ?case
    proof (cases "p + PGSIZE \<le> e")
      case True
      obtain u where u: "kfree p s = Ok () u" "freerange_loop (p + PGSIZE) e u = Ok r t"
        using 1(2) True by (subst (asm) freerange_loop.simps) (auto split: outcome.splits)
      then show ?thesis using 1(1) [OF True u] keepsD [OF fr u(1)] by simp
    next
      case False
      then show ?thesis using 1(2) by (subst (asm) freerange_loop.simps) simp
    qed
  qed
  then show lp: "keeps f (freerange_loop p e)" for p e by (rule keepsI)
  show "keeps f kinit" unfolding kinit_def freerange_def using l by (intro keeps_rules lp)
qed

section \<open>Properties\<close>

text \<open>
  Boot gives the allocator exactly the physical memory: \<open>kinit\<close> returns, and afterwards the
  free list holds every page-aligned page between \<open>end\<close> and \<open>PHYSTOP\<close>, once each, and no other.
\<close>
theorem kinit_all_pages:
  assumes "irq_state_ok s" "0 < kend s" "kend s \<le> PHYSTOP" "freelist s = 0"
  shows "\<exists>t. kinit s = Ok () t \<and> kmem_ready t \<and> kend t = kend s \<and>
    free_pages t = {q. page_aligned q \<and> kend s \<le> q \<and> q < PHYSTOP}"
  using kinit_effect [OF assms] by (simp add: pages_from_def)

definition boot_machine :: kmachine where
  "boot_machine = kernel.extend idle_kernel
     \<lparr>mem = (\<lambda>_. 0), freelist = 0, kend = 0x80024000\<rparr>"

lemma boot_machine_simps [simp]:
  "tp boot_machine = tp idle_kernel" "sstatus boot_machine = sstatus idle_kernel"
  "cpus boot_machine = cpus idle_kernel" "locks boot_machine = locks idle_kernel"
  "mem boot_machine = (\<lambda>_. 0)" "freelist boot_machine = 0" "kend boot_machine = 0x80024000"
  by (simp_all add: boot_machine_def kernel.defs)

lemma irq_state_ok_boot: "irq_state_ok boot_machine"
  by (simp add: irq_state_ok_def) (simp add: irq_ok_def idle_kernel_def)

theorem kinit_all_pages_witness:
  "\<exists>t. kinit boot_machine = Ok () t \<and> kmem_ready t \<and> 0x87fff000 \<in> free_pages t \<and>
     0x80024000 \<in> free_pages t \<and> 0x80023000 \<notin> free_pages t"
proof -
  have "kend boot_machine \<le> PHYSTOP" by (simp add: PHYSTOP_def KERNBASE_def)
  then obtain t where "kinit boot_machine = Ok () t" "kmem_ready t"
    "free_pages t = {q. page_aligned q \<and> kend boot_machine \<le> q \<and> q < PHYSTOP}"
    using kinit_all_pages [OF irq_state_ok_boot] by auto
  then show ?thesis by (simp add: page_aligned_def PHYSTOP_def KERNBASE_def)
qed

text \<open>
  C19: no page is handed out twice: as long as free pages remain, \<open>n\<close> successive calls of \<open>kalloc\<close>
  all succeed and return \<open>n\<close> different pages, each taken from the free set, which shrinks by
  exactly those pages.
\<close>
theorem kalloc_distinct:
  assumes "kmem_ready s" "n \<le> card (free_pages s)"
  shows "\<exists>ps t. collect n kalloc s = Ok ps t \<and> length ps = n \<and> distinct ps \<and>
     set ps \<subseteq> free_pages s \<and> free_pages t = free_pages s - set ps \<and> kmem_ready t"
  by (rule kmem.collect_distinct [OF assms])

definition two_page_machine :: kmachine where
  "two_page_machine = boot_machine\<lparr>mem := store64 0x80024000 0x80025000 (\<lambda>_. 0), freelist := 0x80024000\<rparr>"

lemma two_page_inv: "kmem_inv two_page_machine [0x80024000, 0x80025000]"
proof -
  have a: "aligned8 0x80025000" "aligned8 0x80024000" by (simp_all add: aligned8_def)
  have "load64 (store64 0x80024000 0x80025000 (\<lambda>_. 0)) 0x80025000 = load64 (\<lambda>_. 0) 0x80025000"
    by (rule load64_store64_other [OF a(2,1)]) simp
  also have "\<dots> = 0" by (rule bit_word_eqI) (simp add: bit_load64)
  finally show ?thesis
    by (simp add: kmem_inv_def two_page_machine_def kpage_def page_aligned_def PHYSTOP_def KERNBASE_def)
qed

lemma two_page_ready: "kmem_ready two_page_machine"
  by (rule kmem_readyI [OF two_page_inv])
     (simp_all add: two_page_machine_def, simp_all add: lock_free_def idle_kernel_def irq_ok_def)

theorem kalloc_distinct_witness:
  "\<exists>p q t. collect 2 kalloc two_page_machine = Ok [p, q] t \<and> p \<noteq> q \<and>
     {p, q} \<subseteq> {0x80024000, 0x80025000}"
proof -
  have "free_pages two_page_machine = {0x80024000, 0x80025000}"
    using free_pages_eq [OF two_page_inv] by simp
  then obtain ps t where "collect 2 kalloc two_page_machine = Ok ps t" "length ps = 2" "distinct ps"
      "set ps \<subseteq> {0x80024000, 0x80025000}"
    using kalloc_distinct [OF two_page_ready, of 2] by auto
  then show ?thesis by (auto simp: numeral_2_eq_2 length_Suc_conv)
qed

text \<open>
  \<open>kfree\<close> of a page that is not free, followed by \<open>kalloc\<close>, succeeds and gives a page back; no
  other page's contents change and the number of free pages is what it was. A double free or a
  bad address cannot pass unnoticed for addresses outside the managed range: \<open>kfree\<close> panics there.
\<close>
theorem kfree_kalloc:
  assumes "kmem_ready s"
  shows "(kpage (kend s) p \<and> p \<notin> free_pages s \<longrightarrow>
      (\<exists>t. kthen (kfree p) kalloc s = Ok p t \<and> free_pages t = free_pages s \<and> kmem_ready t \<and>
         (\<forall>a. \<not> in_page p a \<longrightarrow> mem t a = mem s a) \<and> (\<forall>a. in_page p a \<longrightarrow> mem t a = 5))) \<and>
    (\<not> kpage (kend s) p \<longrightarrow> kfree p s = Panic ''kfree'')"
proof (intro conjI impI)
  assume p: "kpage (kend s) p \<and> p \<notin> free_pages s"
  obtain ps where inv: "kmem_inv s ps" "free_pages s = set ps" "lock_free L_kmem (locks s)"
    "irq_ok (tp s) (sstatus s) (cpus s)"
    using assms by (elim kmem_ready_obtain)
  let ?u = "(settle s)\<lparr>freelist := p, mem := store64 p (freelist s) (memset p 1 (ucast PGSIZE) (mem s))\<rparr>"
  have f: "kfree p s = Ok () ?u" using kfree_effect [OF inv(3,4)] p by simp
  have u: "kmem_inv ?u (p # ps)" using kfree_page_inv [of "settle s" ps p] inv p by simp
  have "p \<noteq> 0" using u by (auto simp: kmem_inv_def)
  then have k: "kalloc ?u = Ok p ((settle ?u)\<lparr>freelist := load64 (mem ?u) p,
      mem := memset p 5 (ucast PGSIZE) (mem ?u)\<rparr>)" (is "_ = Ok p ?t")
    using kalloc_effect [of ?u] inv(3,4) by simp
  have t: "kmem_inv ?t ps" using kalloc_page_inv [of "settle ?u" p ps] u by simp
  have "kmem_ready ?t" using kmem_readyI [OF t] inv(3,4) by simp
  then show "\<exists>t. kthen (kfree p) kalloc s = Ok p t \<and> free_pages t = free_pages s \<and> kmem_ready t \<and>
      (\<forall>a. \<not> in_page p a \<longrightarrow> mem t a = mem s a) \<and> (\<forall>a. in_page p a \<longrightarrow> mem t a = 5)"
    using f k inv(2) free_pages_eq [OF t] by (intro exI [of _ ?t]) (simp add: memset_page kfree_other)
qed (simp add: kfree_panics)

theorem kfree_kalloc_witness:
  "(\<exists>t. kthen (kfree 0x80026000) kalloc two_page_machine = Ok 0x80026000 t) \<and>
   kfree 0x80026008 two_page_machine = Panic ''kfree''"
proof -
  have "free_pages two_page_machine = {0x80024000, 0x80025000}"
    using free_pages_eq [OF two_page_inv] by simp
  then have "kpage (kend two_page_machine) 0x80026000 \<and> 0x80026000 \<notin> free_pages two_page_machine"
    "\<not> kpage (kend two_page_machine) 0x80026008"
    by (simp_all add: two_page_machine_def kpage_def page_aligned_def PHYSTOP_def KERNBASE_def)
  then show ?thesis using kfree_kalloc [OF two_page_ready] by blast
qed

end
