(* ===== verification/Xv6_Sched.thy ===== *)
theory Xv6_Sched
  imports Xv6_Kalloc
begin

text \<open>
  The process table and scheduling: \<open>struct proc\<close> of proc.h and the parts of proc.c that change
  process states under \<open>p->lock\<close> (\<open>sched\<close>, \<open>sleep\<close>, \<open>wakeup\<close>, \<open>kkill\<close>, \<open>killed\<close>, the FCFS
  \<open>scheduler\<close> and the no-op \<open>yield\<close>), with the round-robin scheduler kept in
  proc_RR_backup.c for comparison. A call of \<open>swtch\<close> out of a process is the outcome
  \<open>Sleep\<close>; what runs between the scheduler's \<open>swtch\<close> to a process and the switch back is the
  parameter \<open>run\<close>.
\<close>

section \<open>proc.h\<close>

datatype procstate = UNUSED | USED | SLEEPING | RUNNABLE | RUNNING | ZOMBIE

text \<open>Wait channels: the addresses the kernel passes to \<open>sleep\<close> and \<open>wakeup\<close> (0 is \<open>Chan_none\<close>).\<close>

datatype wchan =
    Chan_none | Chan_proc nat | Chan_ticks | Chan_nread u64 | Chan_nwrite u64
  | Chan_slbuf nat | Chan_slinode nat | Chan_log | Chan_cons | Chan_tx | Chan_vdisk | Chan_buf nat

record kcontext =
  ctx_ra :: u64
  ctx_sp :: u64
  ctx_s :: "u64 list"

record proc =
  state :: procstate
  chan :: wchan
  pkilled :: int
  xstate :: int
  pid :: int
  parent :: "nat option"
  kstack :: u64
  sz :: u64
  pagetable :: u64
  trapframe :: u64
  pcontext :: kcontext
  ofile :: "nat \<Rightarrow> nat option"
  cwd :: "nat option"
  pname :: "u8 list"

record kproc = kmachine +
  procs :: "nat \<Rightarrow> proc"
  initproc :: "nat option"
  nextpid :: int
  ticks :: u32
  trampoline :: u64
  forkret_pc :: u64

definition upd_proc :: "nat \<Rightarrow> (proc \<Rightarrow> proc) \<Rightarrow> ('x kproc_scheme, unit) kop" where
  "upd_proc p f = modify (\<lambda>s. s\<lparr>procs := (procs s)(p := f (procs s p))\<rparr>)"

definition get_proc :: "nat \<Rightarrow> ('x kproc_scheme, proc) kop" where
  "get_proc p = gets (\<lambda>s. procs s p)"

section \<open>proc.c\<close>

definition procinit_one :: "nat \<Rightarrow> ('x kproc_scheme, unit) kop" where
  "procinit_one p =
     kthen (initlock (L_proc p) ''proc'') (
     kthen (upd_proc p (\<lambda>q. q\<lparr>state := UNUSED\<rparr>)) (
     upd_proc p (\<lambda>q. q\<lparr>kstack := KSTACK p\<rparr>)))"

definition procinit :: "('x kproc_scheme, unit) kop" where
  "procinit =
     kthen (initlock L_pid ''nextpid'') (
     kthen (initlock L_wait ''wait_lock'') (
     for_each procinit_one [0..<NPROC]))"

definition myproc :: "('x kernel_scheme, nat option) kop" where
  "myproc =
     kthen push_off (
     kbind mycpu (\<lambda>c.
     kbind (gets (\<lambda>s. cproc (cpus s c))) (\<lambda>p.
     kthen pop_off (
     ret p))))"

definition allocpid :: "('x kproc_scheme, int) kop" where
  "allocpid =
     kthen (acquire L_pid) (
     kbind (gets nextpid) (\<lambda>n.
     kthen (modify (\<lambda>s. s\<lparr>nextpid := i32 (nextpid s + 1)\<rparr>)) (
     kthen (release L_pid) (
     ret n))))"

definition swtch_to_scheduler :: "('x kproc_scheme, unit) kop" where
  "swtch_to_scheduler = Sleep"

definition sched :: "('x kproc_scheme, unit) kop" where
  "sched =
     kbind myproc (\<lambda>mp.
     kbind (deref mp) (\<lambda>p.
     kbind (holding (L_proc p)) (\<lambda>h.
     if \<not> h then panic ''sched p->lock'' else
     kbind mycpu (\<lambda>c.
     kbind (gets (\<lambda>s. noff (cpus s c))) (\<lambda>n.
     if n \<noteq> 1 then panic ''sched locks'' else
     kbind (get_proc p) (\<lambda>q.
     if state q = RUNNING then panic ''sched RUNNING'' else
     kbind intr_get (\<lambda>on.
     if on then panic ''sched interruptible'' else
     swtch_to_scheduler)))))))"

text \<open>What \<open>sched\<close> does when the scheduler switches back; \<open>ie\<close> is its saved local \<open>intena\<close>.\<close>

definition sched_resume :: "bool \<Rightarrow> ('x kproc_scheme, unit) kop" where
  "sched_resume ie = kbind mycpu (\<lambda>c. upd_cpu c (\<lambda>k. k\<lparr>intena := ie\<rparr>))"

definition yield :: "('x kproc_scheme, unit) kop" where
  "yield = ret ()"

definition sleep :: "wchan \<Rightarrow> lockid \<Rightarrow> ('x kproc_scheme, unit) kop" where
  "sleep ch lk =
     kbind myproc (\<lambda>mp.
     kbind (deref mp) (\<lambda>p.
     kthen (acquire (L_proc p)) (
     kthen (release lk) (
     kthen (upd_proc p (\<lambda>q. q\<lparr>chan := ch\<rparr>)) (
     kthen (upd_proc p (\<lambda>q. q\<lparr>state := SLEEPING\<rparr>))
     sched)))))"

text \<open>The rest of \<open>sleep\<close>, run when the process \<open>p\<close> is scheduled again.\<close>

definition sleep_resume :: "nat \<Rightarrow> lockid \<Rightarrow> bool \<Rightarrow> ('x kproc_scheme, unit) kop" where
  "sleep_resume p lk ie =
     kthen (sched_resume ie) (
     kthen (upd_proc p (\<lambda>q. q\<lparr>chan := Chan_none\<rparr>)) (
     kthen (release (L_proc p))
     (acquire lk)))"

definition wakeup_one :: "wchan \<Rightarrow> nat \<Rightarrow> ('x kproc_scheme, unit) kop" where
  "wakeup_one ch p =
     kbind myproc (\<lambda>mp.
     kwhen (mp \<noteq> Some p) (
     kthen (acquire (L_proc p)) (
     kbind (get_proc p) (\<lambda>q.
     kthen (kwhen (state q = SLEEPING \<and> chan q = ch) (upd_proc p (\<lambda>q. q\<lparr>state := RUNNABLE\<rparr>))) (
     release (L_proc p))))))"

definition wakeup :: "wchan \<Rightarrow> ('x kproc_scheme, unit) kop" where
  "wakeup ch = for_each (wakeup_one ch) [0..<NPROC]"

definition kkill_one :: "int \<Rightarrow> nat \<Rightarrow> ('x kproc_scheme, int option) kop" where
  "kkill_one pid' p =
     kthen (acquire (L_proc p)) (
     kbind (get_proc p) (\<lambda>q.
     if pid q = pid' then
       kthen (upd_proc p (\<lambda>q. q\<lparr>pkilled := 1\<rparr>)) (
       kthen (kwhen (state q = SLEEPING) (upd_proc p (\<lambda>q. q\<lparr>state := RUNNABLE\<rparr>))) (
       kthen (release (L_proc p)) (
       ret (Some 0))))
     else kthen (release (L_proc p)) (ret None)))"

definition kkill :: "int \<Rightarrow> ('x kproc_scheme, int) kop" where
  "kkill pid' = kbind (scan (kkill_one pid') [0..<NPROC]) (\<lambda>r. ret (case r of Some v \<Rightarrow> v | None \<Rightarrow> - 1))"

definition setkilled :: "nat \<Rightarrow> ('x kproc_scheme, unit) kop" where
  "setkilled p =
     kthen (acquire (L_proc p)) (
     kthen (upd_proc p (\<lambda>q. q\<lparr>pkilled := 1\<rparr>)) (
     release (L_proc p)))"

definition killed :: "nat \<Rightarrow> ('x kproc_scheme, int) kop" where
  "killed p =
     kthen (acquire (L_proc p)) (
     kbind (get_proc p) (\<lambda>q.
     kthen (release (L_proc p)) (
     ret (pkilled q))))"

definition reparent_one :: "nat \<Rightarrow> nat \<Rightarrow> ('x kproc_scheme, unit) kop" where
  "reparent_one p pp =
     kbind (get_proc pp) (\<lambda>q.
     kwhen (parent q = Some p) (
     kbind (gets initproc) (\<lambda>ip.
     kthen (upd_proc pp (\<lambda>q. q\<lparr>parent := ip\<rparr>)) (
     wakeup (case ip of Some i \<Rightarrow> Chan_proc i | None \<Rightarrow> Chan_none)))))"

definition reparent :: "nat \<Rightarrow> ('x kproc_scheme, unit) kop" where
  "reparent p = for_each (reparent_one p) [0..<NPROC]"

section \<open>The scheduler\<close>

text \<open>Phase 1 of \<open>scheduler\<close>: \<open>first\<close> is \<open>first_proc\<close>, whose lock is held while the scan goes on.\<close>

fun fcfs_scan :: "nat list \<Rightarrow> nat option \<Rightarrow> ('x kproc_scheme, nat option) kop" where
  "fcfs_scan [] first = ret first"
| "fcfs_scan (p # ps) first =
     kthen (acquire (L_proc p)) (
     kbind (gets procs) (\<lambda>tab.
     if state (tab p) = RUNNABLE \<and> (case first of None \<Rightarrow> True | Some f \<Rightarrow> pid (tab p) < pid (tab f))
     then kthen (case first of None \<Rightarrow> ret () | Some f \<Rightarrow> release (L_proc f)) (fcfs_scan ps (Some p))
     else kthen (release (L_proc p)) (fcfs_scan ps first)))"

text \<open>Phase 2: run the chosen process until it switches back; \<open>wfi\<close> waits for an interrupt.\<close>

definition wfi :: "('x kproc_scheme, unit) kop" where
  "wfi = ret ()"

definition switch_back :: "nat \<Rightarrow> nat \<Rightarrow> ('x kproc_scheme, unit) kop" where
  "switch_back c p =
     kthen (upd_cpu c (\<lambda>k. k\<lparr>cproc := None\<rparr>)) (
     release (L_proc p))"

definition scheduler_iter :: "(nat \<Rightarrow> ('x kproc_scheme, unit) kop) \<Rightarrow> nat \<Rightarrow> ('x kproc_scheme, unit) kop" where
  "scheduler_iter run c =
     kthen intr_on (
     kthen intr_off (
     kbind (fcfs_scan [0..<NPROC] None) (\<lambda>first.
     case first of
       Some p \<Rightarrow>
         kthen (upd_proc p (\<lambda>q. q\<lparr>state := RUNNING\<rparr>)) (
         kthen (upd_cpu c (\<lambda>k. k\<lparr>cproc := Some p\<rparr>)) (
         kthen (run p) (
         switch_back c p)))
     | None \<Rightarrow> wfi)))"

definition scheduler :: "nat \<Rightarrow> (nat \<Rightarrow> ('x kproc_scheme, unit) kop) \<Rightarrow> ('x kproc_scheme, unit) kop" where
  "scheduler n run =
     kbind mycpu (\<lambda>c.
     kthen (upd_cpu c (\<lambda>k. k\<lparr>cproc := None\<rparr>)) (
     repeat_op n (scheduler_iter run c)))"

section \<open>proc_RR_backup.c: the round-robin scheduler\<close>

definition rr_one :: "(nat \<Rightarrow> ('x kproc_scheme, unit) kop) \<Rightarrow> nat \<Rightarrow> nat \<Rightarrow> ('x kproc_scheme, unit) kop" where
  "rr_one run c p =
     kthen (acquire (L_proc p)) (
     kbind (get_proc p) (\<lambda>q.
     kthen (kwhen (state q = RUNNABLE) (
       kthen (upd_proc p (\<lambda>q. q\<lparr>state := RUNNING\<rparr>)) (
       kthen (upd_cpu c (\<lambda>k. k\<lparr>cproc := Some p\<rparr>)) (
       kthen (run p) (
       upd_cpu c (\<lambda>k. k\<lparr>cproc := None\<rparr>)))))) (
     release (L_proc p))))"

definition rr_scheduler_iter :: "(nat \<Rightarrow> ('x kproc_scheme, unit) kop) \<Rightarrow> nat \<Rightarrow> ('x kproc_scheme, unit) kop" where
  "rr_scheduler_iter run c = kthen intr_on (for_each (rr_one run c) [0..<NPROC])"

definition rr_yield :: "('x kproc_scheme, unit) kop" where
  "rr_yield =
     kbind myproc (\<lambda>mp.
     kbind (deref mp) (\<lambda>p.
     kthen (acquire (L_proc p)) (
     kthen (upd_proc p (\<lambda>q. q\<lparr>state := RUNNABLE\<rparr>))
     sched)))"

definition rr_yield_resume :: "nat \<Rightarrow> bool \<Rightarrow> ('x kproc_scheme, unit) kop" where
  "rr_yield_resume p ie = kthen (sched_resume ie) (release (L_proc p))"

section \<open>sysproc.c: the calls without arguments\<close>

definition sys_getpid :: "('x kproc_scheme, u64) kop" where
  "sys_getpid = kbind myproc (\<lambda>mp. kbind (deref mp) (\<lambda>p. gets (\<lambda>s. word_of_int (pid (procs s p)))))"

definition sys_getidade :: "('x kproc_scheme, u64) kop" where
  "sys_getidade = ret 2026"

definition sys_getppid :: "('x kproc_scheme, u64) kop" where
  "sys_getppid =
     kbind myproc (\<lambda>mp.
     kbind (deref mp) (\<lambda>p.
     kbind (get_proc p) (\<lambda>q.
     case parent q of
       Some pp \<Rightarrow> gets (\<lambda>s. word_of_int (pid (procs s pp)))
     | None \<Rightarrow> ret 1)))"

definition sys_uptime :: "('x kproc_scheme, u64) kop" where
  "sys_uptime =
     kthen (acquire L_ticks) (
     kbind (gets ticks) (\<lambda>xticks.
     kthen (release L_ticks) (
     ret (ucast xticks))))"

section \<open>Effects of the operations on the process table\<close>

lemma settle_cpus: "cpus (settle s) = cpu_settle (tp s) (sstatus s) (cpus s)"
  by (simp add: settle_def)

lemma settle_upd_procs [simp]: "settle (s\<lparr>procs := x\<rparr>) = (settle s)\<lparr>procs := x\<rparr>"
  by (cases s) (simp add: settle_def)

lemma settle_procs [simp]:
  "procs (settle s) = procs s" "initproc (settle s) = initproc s" "nextpid (settle s) = nextpid s"
  "ticks (settle s) = ticks s"
  by (simp_all add: settle_def)

lemma irq_state_ok_procs [simp]: "irq_state_ok (s\<lparr>procs := x\<rparr>) = irq_state_ok s"
  by (simp add: irq_state_ok_def)

lemma irq_okD: "irq_state_ok s \<Longrightarrow> irq_ok (tp s) (sstatus s) (cpus s)"
  "irq_state_ok s \<Longrightarrow> 0 \<le> noff (cpus s (tp s))"
  by (auto simp: irq_state_ok_def irq_ok_def)

lemma settle_nested: "0 < noff (cpus s (tp s)) \<Longrightarrow> settle s = s"
  by (cases s) (simp add: settle_def cpu_settle_def)

lemma myproc_effect [state_simps]:
  assumes "irq_ok (tp s) (sstatus s) (cpus s)"
  shows "myproc s = Ok (cproc (cpus s (tp s))) (s\<lparr>cpus := cpu_settle (tp s) (sstatus s) (cpus s)\<rparr>)"
proof -
  have "0 \<le> noff (cpus s (tp s))" using assms by (simp add: irq_ok_def)
  then show ?thesis using assms
    by (cases s) (simp add: myproc_def state_simps mycpu_def cpuid_def)
qed

text \<open>What \<open>wakeup(ch)\<close>, called by process \<open>me\<close>, does to entry \<open>p\<close>.\<close>

definition awaken :: "nat option \<Rightarrow> wchan \<Rightarrow> nat \<Rightarrow> proc \<Rightarrow> proc" where
  "awaken me ch p q =
     (if me \<noteq> Some p \<and> state q = SLEEPING \<and> chan q = ch then q\<lparr>state := RUNNABLE\<rparr> else q)"

lemma wakeup_one_effect:
  assumes ok: "irq_state_ok s" and free: "lock_free (L_proc p) (locks s)"
  shows "wakeup_one ch p s =
    Ok () ((settle s)\<lparr>procs := (procs s)(p := awaken (cproc (cpus s (tp s))) ch p (procs s p))\<rparr>)"
  using irq_okD [OF ok] free
  by (cases s) (simp add: wakeup_one_def state_simps get_proc_def upd_proc_def awaken_def settle_def)

text \<open>Applying a function to the entries of a table that a loop visits.\<close>

definition map_table :: "('i \<Rightarrow> 'a \<Rightarrow> 'a) \<Rightarrow> 'i list \<Rightarrow> ('i \<Rightarrow> 'a) \<Rightarrow> 'i \<Rightarrow> 'a" where
  "map_table f ps tab = (\<lambda>p. if p \<in> set ps then f p (tab p) else tab p)"

lemma map_table_simps:
  "map_table f [] tab = tab"
  "p \<notin> set ps \<Longrightarrow> map_table f (p # ps) tab = map_table f ps (tab(p := f p (tab p)))"
  by (auto simp: map_table_def fun_eq_iff)

lemma for_each_wakeup:
  assumes "irq_state_ok s" and "\<forall>p \<in> set ps. lock_free (L_proc p) (locks s)" and "distinct ps"
  shows "for_each (wakeup_one ch) ps (settle s) =
    Ok () ((settle s)\<lparr>procs := map_table (awaken (cproc (cpus s (tp s))) ch) ps (procs s)\<rparr>)"
  using assms
proof (induction ps arbitrary: s)
  case Nil
  then show ?case by (simp add: map_table_simps)
next
  case (Cons p ps)
  let ?me = "cproc (cpus s (tp s))"
  let ?u = "s\<lparr>procs := (procs s)(p := awaken ?me ch p (procs s p))\<rparr>"
  have "wakeup_one ch p (settle s) = Ok () (settle ?u)"
    using wakeup_one_effect [of "settle s" p ch] Cons.prems by (simp add: settle_cpus)
  moreover have "for_each (wakeup_one ch) ps (settle ?u) =
      Ok () ((settle ?u)\<lparr>procs := map_table (awaken ?me ch) ps (procs ?u)\<rparr>)"
    using Cons.IH [of ?u] Cons.prems by (simp del: fun_upd_apply)
  ultimately show ?case using Cons.prems(3) by (simp add: map_table_simps)
qed

definition proc_locks_free :: "'x kernel_scheme \<Rightarrow> bool" where
  "proc_locks_free s \<longleftrightarrow> (\<forall>p < NPROC. lock_free (L_proc p) (locks s))"

definition wakeup_table :: "nat option \<Rightarrow> wchan \<Rightarrow> (nat \<Rightarrow> proc) \<Rightarrow> nat \<Rightarrow> proc" where
  "wakeup_table me ch tab = map_table (awaken me ch) [0..<NPROC] tab"

lemma upt_NPROC: "[0..<NPROC] = 0 # [1..<NPROC]"
  by (simp add: NPROC_def upt_conv_Cons)

theorem wakeup_effect [state_simps]:
  assumes ok: "irq_state_ok s" and free: "proc_locks_free s"
  shows "wakeup ch s =
    Ok () ((settle s)\<lparr>procs := wakeup_table (cproc (cpus s (tp s))) ch (procs s)\<rparr>)"
proof -
  have "lock_free (L_proc 0) (locks s)" using free by (simp add: proc_locks_free_def NPROC_def)
  then have "wakeup_one ch 0 s = wakeup_one ch 0 (settle s)"
    using wakeup_one_effect [of s 0 ch] wakeup_one_effect [of "settle s" 0 ch] ok
    by (simp add: settle_cpus)
  then have "wakeup ch s = for_each (wakeup_one ch) [0..<NPROC] (settle s)"
    by (simp add: wakeup_def upt_NPROC)
  also have "\<dots> = Ok () ((settle s)\<lparr>procs := wakeup_table (cproc (cpus s (tp s))) ch (procs s)\<rparr>)"
    using for_each_wakeup [OF ok, of "[0..<NPROC]"] free
    by (simp add: proc_locks_free_def wakeup_table_def)
  finally show ?thesis .
qed

section \<open>The choice of the FCFS scheduler\<close>

text \<open>The candidate after looking at the entries \<open>ps\<close>, and what it means to be the right one.\<close>

fun fcfs_choice :: "(nat \<Rightarrow> proc) \<Rightarrow> nat list \<Rightarrow> nat option \<Rightarrow> nat option" where
  "fcfs_choice tab [] first = first"
| "fcfs_choice tab (p # ps) first =
     (if state (tab p) = RUNNABLE \<and> (case first of None \<Rightarrow> True | Some f \<Rightarrow> pid (tab p) < pid (tab f))
      then fcfs_choice tab ps (Some p) else fcfs_choice tab ps first)"

definition runnable_set :: "(nat \<Rightarrow> proc) \<Rightarrow> nat set" where
  "runnable_set tab = {p. p < NPROC \<and> state (tab p) = RUNNABLE}"

lemma fcfs_choice_Some:
  assumes "state (tab f) = RUNNABLE"
  shows "\<exists>g. fcfs_choice tab ps (Some f) = Some g \<and> g \<in> insert f (set ps) \<and> state (tab g) = RUNNABLE \<and>
    pid (tab g) \<le> pid (tab f) \<and> (\<forall>q \<in> set ps. state (tab q) = RUNNABLE \<longrightarrow> pid (tab g) \<le> pid (tab q))"
  using assms
proof (induction ps arbitrary: f)
  case Nil
  then show ?case by simp
next
  case (Cons p ps)
  show ?case
  proof (cases "state (tab p) = RUNNABLE \<and> pid (tab p) < pid (tab f)")
    case True
    then obtain g where "fcfs_choice tab ps (Some p) = Some g" "g \<in> insert p (set ps)"
      "state (tab g) = RUNNABLE" "pid (tab g) \<le> pid (tab p)"
      "\<forall>q \<in> set ps. state (tab q) = RUNNABLE \<longrightarrow> pid (tab g) \<le> pid (tab q)"
      using Cons.IH [of p] by blast
    then show ?thesis using True by (intro exI [of _ g]) auto
  next
    case False
    obtain g where g: "fcfs_choice tab ps (Some f) = Some g" "g \<in> insert f (set ps)"
      "state (tab g) = RUNNABLE" "pid (tab g) \<le> pid (tab f)"
      "\<forall>q \<in> set ps. state (tab q) = RUNNABLE \<longrightarrow> pid (tab g) \<le> pid (tab q)"
      using Cons.IH [OF Cons.prems] by blast
    have "fcfs_choice tab (p # ps) (Some f) = Some g" using False g(1) by auto
    then show ?thesis using False g by (intro exI [of _ g]) auto
  qed
qed

lemma fcfs_choice_None:
  "fcfs_choice tab ps None = None \<longleftrightarrow> (\<forall>q \<in> set ps. state (tab q) \<noteq> RUNNABLE)"
proof (induction ps)
  case (Cons p ps)
  then show ?case using fcfs_choice_Some [of tab p ps] by auto
qed simp

lemma fcfs_choice_min:
  assumes "fcfs_choice tab ps None = Some f"
  shows "f \<in> set ps \<and> state (tab f) = RUNNABLE \<and>
    (\<forall>q \<in> set ps. state (tab q) = RUNNABLE \<longrightarrow> pid (tab f) \<le> pid (tab q))"
  using assms
proof (induction ps)
  case (Cons p ps)
  then show ?case
  proof (cases "state (tab p) = RUNNABLE")
    case True
    then show ?thesis using Cons.prems fcfs_choice_Some [of tab p ps] by auto
  qed auto
qed simp

text \<open>The state during the scan: only the candidate's lock is held.\<close>

definition with_cand :: "nat option \<Rightarrow> 'x kernel_scheme \<Rightarrow> 'x kernel_scheme" where
  "with_cand c s = (case c of None \<Rightarrow> settle s | Some f \<Rightarrow> acquired (L_proc f) s)"

lemma with_cand_procs [simp]: "procs (with_cand c s) = procs s"
  by (simp add: with_cand_def acquired_def split: option.split)

lemma acquire_acquired: "lock_free l (locks s) \<Longrightarrow> acquire l s = Ok () (acquired l s)"
  by (simp add: acquire_effect acquired_def)

lemma acquired_settle [simp]: "acquired l (settle s) = acquired l s"
  by (cases s) (simp add: acquired_def settle_def)

lemma release_acquired:
  assumes "irq_state_ok s" "lock_free l (locks s)"
  shows "release l (acquired l s) = Ok () (settle s)"
  using irq_okD [OF assms(1)] assms(2)
  by (cases s) (simp add: acquired_def settle_def release_effect)

lemma release_second:
  assumes "irq_state_ok s" "lock_free l (locks s)" "lock_free k (locks s)" "l \<noteq> k"
  shows "release l (acquired l (acquired k s)) = Ok () (acquired k s)"
    "release k (acquired l (acquired k s)) = Ok () (acquired l s)"
proof -
  have "irq_state_ok (acquired k s)" "0 < noff (cpus (acquired k s) (tp (acquired k s)))"
    using irq_okD [OF assms(1)] by (simp_all add: acquired_def irq_state_ok_def)
  then show "release l (acquired l (acquired k s)) = Ok () (acquired k s)"
    using release_acquired [of "acquired k s" l] assms(2,4)
    by (simp add: settle_nested) (simp add: acquired_def)
  show "release k (acquired l (acquired k s)) = Ok () (acquired l s)"
    using irq_okD [OF assms(1)] assms(2-4)
    by (cases s) (simp add: acquired_def release_effect)
qed

lemma fcfs_scan_effect:
  assumes ok: "irq_state_ok s" and "distinct ps" "\<forall>p \<in> set ps. lock_free (L_proc p) (locks s)"
    and "\<forall>f. c = Some f \<longrightarrow> f \<notin> set ps \<and> lock_free (L_proc f) (locks s)"
  shows "fcfs_scan ps c (with_cand c s) =
    Ok (fcfs_choice (procs s) ps c) (with_cand (fcfs_choice (procs s) ps c) s)"
  using assms(2-)
proof (induction ps arbitrary: c)
  case Nil
  then show ?case by simp
next
  case (Cons p ps)
  note IH = Cons.IH
  have free: "lock_free (L_proc p) (locks s)" using Cons.prems by simp
  have rest: "distinct ps" "\<forall>p \<in> set ps. lock_free (L_proc p) (locks s)" "p \<notin> set ps"
    using Cons.prems by auto
  show ?case
  proof (cases c)
    case None
    have "acquire (L_proc p) (with_cand None s) = Ok () (acquired (L_proc p) s)"
      using acquire_acquired [of "L_proc p" "settle s"] free by (simp add: with_cand_def)
    moreover have "procs (acquired (L_proc p) s) = procs s" by (simp add: acquired_def)
    ultimately show ?thesis
      using IH [of None] IH [of "Some p"] rest free release_acquired [OF ok free] None
      by (simp add: with_cand_def)
  next
    case (Some f)
    have f: "lock_free (L_proc f) (locks s)" "f \<noteq> p" "f \<notin> set ps" using Cons.prems Some by auto
    let ?k = "acquired (L_proc f) s"
    have "lock_free (L_proc p) (locks ?k)" using free f by (simp add: acquired_def)
    then have "acquire (L_proc p) (with_cand (Some f) s) = Ok () (acquired (L_proc p) ?k)"
      by (simp add: with_cand_def acquire_acquired)
    moreover have "procs (acquired (L_proc p) ?k) = procs s" by (simp add: acquired_def)
    ultimately show ?thesis
      using IH [of "Some f"] IH [of "Some p"] rest free f Some
        release_second [OF ok free f(1)]
      by (simp add: with_cand_def)
  qed
qed

theorem fcfs_scan_chooses:
  assumes ok: "irq_state_ok s" and free: "proc_locks_free s"
  shows "fcfs_scan [0..<NPROC] None s =
    Ok (fcfs_choice (procs s) [0..<NPROC] None) (with_cand (fcfs_choice (procs s) [0..<NPROC] None) s)"
proof -
  have "lock_free (L_proc 0) (locks s)" using free by (simp add: proc_locks_free_def NPROC_def)
  then have "acquire (L_proc 0) s = acquire (L_proc 0) (settle s)"
    by (simp add: acquire_acquired)
  then have "fcfs_scan [0..<NPROC] None s = fcfs_scan [0..<NPROC] None (settle s)"
    by (simp add: upt_NPROC)
  then show ?thesis
    using fcfs_scan_effect [OF ok, of "[0..<NPROC]" None] free
    by (simp add: with_cand_def proc_locks_free_def)
qed

section \<open>sched and sleep\<close>

lemma sched_effect:
  assumes "irq_ok (tp s) (sstatus s) (cpus s)" "cproc (cpus s (tp s)) = Some p"
    and "lock_held (L_proc p) (tp s) (locks s)" "noff (cpus s (tp s)) = 1" "state (procs s p) \<noteq> RUNNING"
  shows "sched s = Sleep s"
proof -
  have "cpu_settle (tp s) (sstatus s) (cpus s) = cpus s" using assms(4) by (simp add: cpu_settle_def)
  moreover have "\<not> irq_enabled (tp s) (sstatus s)" using assms(1,4) by (simp add: irq_ok_def)
  ultimately show ?thesis
    using assms by (simp add: sched_def myproc_effect holding_effect mycpu_def cpuid_def get_proc_def
        intr_get_def swtch_to_scheduler_def irq_enabled_def)
qed

text \<open>
  The panics of \<open>sched\<close>: the process lock must be held, it must be the only one, the state must
  have been changed, interrupts must be off.
\<close>

lemma sched_panics:
  assumes "irq_ok (tp s) (sstatus s) (cpus s)" "cproc (cpus s (tp s)) = Some p"
  shows "\<not> lock_held (L_proc p) (tp s) (locks s) \<Longrightarrow> sched s = Panic ''sched p->lock''"
    "lock_held (L_proc p) (tp s) (locks s) \<Longrightarrow> noff (cpus s (tp s)) \<noteq> 1 \<Longrightarrow> sched s = Panic ''sched locks''"
    "lock_held (L_proc p) (tp s) (locks s) \<Longrightarrow> noff (cpus s (tp s)) = 1 \<Longrightarrow>
       state (procs s p) = RUNNING \<Longrightarrow> sched s = Panic ''sched RUNNING''"
  using assms
  by (simp_all add: sched_def myproc_effect holding_effect mycpu_def cpuid_def get_proc_def)

definition going_to_sleep :: "nat \<Rightarrow> wchan \<Rightarrow> proc \<Rightarrow> proc" where
  "going_to_sleep p ch q = q\<lparr>chan := ch, state := SLEEPING\<rparr>"

text \<open>
  A process that holds exactly the condition lock gives it up and sleeps: in the state that waits,
  its own lock is held instead, so that no \<open>wakeup\<close> can look at it before the switch is done.
\<close>

theorem sleep_effect:
  assumes ok: "irq_state_ok s" and p: "cproc (cpus s (tp s)) = Some p"
    and free: "lock_free (L_proc p) (locks s)" and lk: "lk \<noteq> L_proc p" "lock_free lk (locks s)"
    and noff: "noff (cpus s (tp s)) = 0"
  shows "sleep ch lk (acquired lk s) =
    Sleep ((acquired (L_proc p) s)\<lparr>procs := (procs s)(p := going_to_sleep p ch (procs s p))\<rparr>)"
proof -
  let ?a = "acquired lk s" and ?b = "acquired (L_proc p) s"
  have oka: "irq_ok (tp ?a) (sstatus ?a) (cpus ?a)" and pa: "cproc (cpus ?a (tp ?a)) = Some p"
    and sa: "?a\<lparr>cpus := cpu_settle (tp ?a) (sstatus ?a) (cpus ?a)\<rparr> = ?a"
    using irq_okD [OF ok] p by (cases s; simp add: acquired_def)+
  have "acquire (L_proc p) ?a = Ok () (acquired (L_proc p) ?a)"
    using free lk by (intro acquire_acquired) (simp add: acquired_def)
  moreover have "release lk (acquired (L_proc p) ?a) = Ok () ?b"
    using release_second [OF ok free lk(2)] lk(1) by simp
  moreover have "sched (?b\<lparr>procs := (procs s)(p := going_to_sleep p ch (procs s p))\<rparr>) =
      Sleep (?b\<lparr>procs := (procs s)(p := going_to_sleep p ch (procs s p))\<rparr>)"
    using irq_okD [OF ok] p noff
    by (intro sched_effect [where p = p]) (simp_all add: acquired_def going_to_sleep_def)
  moreover have "procs ?b = procs s" by (simp add: acquired_def)
  ultimately show ?thesis
    using sa by (simp add: sleep_def myproc_effect [OF oka] pa upd_proc_def going_to_sleep_def)
qed

section \<open>One round of the scheduler\<close>

definition set_cproc :: "nat \<Rightarrow> nat option \<Rightarrow> (nat \<Rightarrow> cpu) \<Rightarrow> nat \<Rightarrow> cpu" where
  "set_cproc h x cs = cs(h := (cs h)\<lparr>cproc := x\<rparr>)"

lemma set_cproc_laws [simp]:
  "cpu_pop h (set_cproc h x cs) = set_cproc h x (cpu_pop h cs)"
  "irq_restore h (set_cproc h x cs) ss = irq_restore h cs ss"
  "set_cproc h x (set_cproc h y cs) = set_cproc h x cs"
  "noff (set_cproc h x cs k) = noff (cs k)"
  "cproc (set_cproc h x cs h) = x"
  "irq_ok h ss (set_cproc h x cs) = irq_ok h ss cs"
  by (auto simp: set_cproc_def lock_effect_defs)

lemma set_cproc_same: "cproc (cs h) = x \<Longrightarrow> set_cproc h x cs = cs"
  by (auto simp: set_cproc_def)

lemma upd_cpu_cproc: "upd_cpu c (\<lambda>k. k\<lparr>cproc := x\<rparr>) s = Ok () (s\<lparr>cpus := set_cproc c x (cpus s)\<rparr>)"
  by (simp add: upd_cpu_def set_cproc_def)

text \<open>A hart that is in the scheduler loop, between two processes.\<close>

definition sched_idle :: "'x kproc_scheme \<Rightarrow> bool" where
  "sched_idle s \<longleftrightarrow> irq_state_ok s \<and> proc_locks_free s \<and> noff (cpus s (tp s)) = 0 \<and>
     cproc (cpus s (tp s)) = None"

definition irqs_off :: "'x kernel_scheme \<Rightarrow> 'x kernel_scheme" where
  "irqs_off s = s\<lparr>sstatus := irq_disable (tp s) (sstatus s)\<rparr>"

definition irqs_on :: "'x kernel_scheme \<Rightarrow> 'x kernel_scheme" where
  "irqs_on s = s\<lparr>sstatus := (sstatus s)(tp s := sstatus s (tp s) OR SSTATUS_SIE)\<rparr>"

definition dispatched :: "nat \<Rightarrow> 'x kproc_scheme \<Rightarrow> 'x kproc_scheme" where
  "dispatched p s = (acquired (L_proc p) s)\<lparr>procs := (procs s)(p := (procs s p)\<lparr>state := RUNNING\<rparr>),
     cpus := set_cproc (tp s) (Some p) (cpus (acquired (L_proc p) s))\<rparr>"

lemma intr_toggle: "kthen intr_on (kthen intr_off m) s = m (irqs_off s)"
proof -
  have "(x OR SSTATUS_SIE) AND NOT SSTATUS_SIE = x AND NOT SSTATUS_SIE" for x
    by (rule bit_word_eqI) (auto simp: SSTATUS_SIE_def bit_simps)
  then show ?thesis
    by (simp add: intr_on_def intr_off_def irqs_off_def irq_disable_def)
qed

lemma irqs_simps [simp]:
  "tp (irqs_off s) = tp s" "cpus (irqs_off s) = cpus s" "locks (irqs_off s) = locks s"
  "procs (irqs_off t) = procs t" "procs (irqs_on t) = procs t"
  "tp (irqs_on s) = tp s" "cpus (irqs_on s) = cpus s" "locks (irqs_on s) = locks s"
  by (simp_all add: irqs_off_def irqs_on_def)

lemma sched_idle_irqs [simp]:
  "sched_idle s \<Longrightarrow> sched_idle (irqs_off s)" "sched_idle s \<Longrightarrow> sched_idle (irqs_on s)"
  by (simp_all add: sched_idle_def proc_locks_free_def irq_state_ok_def irq_ok_def)

lemma scheduler_iter_unfold:
  assumes "sched_idle s"
  shows "scheduler_iter run (tp s) s =
    (case fcfs_choice (procs s) [0..<NPROC] None of
       None \<Rightarrow> Ok () (settle (irqs_off s))
     | Some p \<Rightarrow> kthen (run p) (switch_back (tp s) p) (dispatched p (irqs_off s)))"
proof -
  have "fcfs_scan [0..<NPROC] None (irqs_off s) =
      Ok (fcfs_choice (procs s) [0..<NPROC] None) (with_cand (fcfs_choice (procs s) [0..<NPROC] None) (irqs_off s))"
    using fcfs_scan_chooses [of "irqs_off s"] sched_idle_irqs(1) [OF assms]
    by (simp add: sched_idle_def)
  then show ?thesis
    unfolding scheduler_iter_def intr_toggle
    by (simp add: with_cand_def wfi_def upd_proc_def upd_cpu_cproc dispatched_def acquired_def
        split: option.split)
qed

lemma sched_idle_after:
  assumes "sched_idle s" "tp t = tp s" "sstatus t = sstatus s" "locks t = locks s"
    "cpus t = cpu_settle (tp s) (sstatus s) (cpus s)"
  shows "sched_idle t"
  using assms by (simp add: sched_idle_def proc_locks_free_def irq_state_ok_def)

section \<open>A round of the scheduler\<close>

lemma finite_runnable [simp]: "finite (runnable_set tab)"
  by (simp add: runnable_set_def)

lemma fcfs_choice_runnable:
  "fcfs_choice tab [0..<NPROC] None = None \<longleftrightarrow> runnable_set tab = {}"
  "fcfs_choice tab [0..<NPROC] None = Some p \<Longrightarrow>
     p \<in> runnable_set tab \<and> (\<forall>q \<in> runnable_set tab. pid (tab p) \<le> pid (tab q))"
  using fcfs_choice_None [of tab "[0..<NPROC]"] fcfs_choice_min [of tab "[0..<NPROC]" p]
  by (auto simp: runnable_set_def)

lemma fcfs_round_empty:
  assumes "sched_idle s" "runnable_set (procs s) = {}"
  shows "scheduler_iter run (tp s) s = Ok () (settle (irqs_off s)) \<and> sched_idle (settle (irqs_off s))"
proof -
  have "sched_idle (settle (irqs_off s))"
    by (rule sched_idle_after [of "irqs_off s"]) (use assms(1) in \<open>simp_all add: settle_cpus\<close>)
  then show ?thesis
    using scheduler_iter_unfold [OF assms(1), of run] fcfs_choice_runnable(1) [of "procs s"] assms(2) by simp
qed

section \<open>kkill, killed, setkilled, reparent\<close>

definition kill_proc :: "proc \<Rightarrow> proc" where
  "kill_proc q = (if state q = SLEEPING then q\<lparr>pkilled := 1, state := RUNNABLE\<rparr> else q\<lparr>pkilled := 1\<rparr>)"

lemma kkill_one_effect:
  assumes ok: "irq_state_ok s" and free: "lock_free (L_proc p) (locks s)"
  shows "kkill_one n p s =
    (if pid (procs s p) = n then Ok (Some 0) ((settle s)\<lparr>procs := (procs s)(p := kill_proc (procs s p))\<rparr>)
     else Ok None (settle s))"
  using irq_okD [OF ok] free
  by (cases s) (simp add: kkill_one_def state_simps get_proc_def upd_proc_def kill_proc_def settle_def)

lemma scan_kkill:
  assumes "irq_state_ok s" "\<forall>p \<in> set ps. lock_free (L_proc p) (locks s)"
  shows "scan (kkill_one n) ps (settle s) =
    (case find (\<lambda>p. pid (procs s p) = n) ps of
       None \<Rightarrow> Ok None (settle s)
     | Some p \<Rightarrow> Ok (Some 0) ((settle s)\<lparr>procs := (procs s)(p := kill_proc (procs s p))\<rparr>))"
  using assms by (induction ps) (simp_all add: kkill_one_effect)

lemma kkill_effect:
  assumes ok: "irq_state_ok s" and free: "proc_locks_free s"
  shows "kkill n s =
    (case find (\<lambda>p. pid (procs s p) = n) [0..<NPROC] of
       None \<Rightarrow> Ok (- 1) (settle s)
     | Some p \<Rightarrow> Ok 0 ((settle s)\<lparr>procs := (procs s)(p := kill_proc (procs s p))\<rparr>))"
proof -
  have "lock_free (L_proc 0) (locks s)" using free by (simp add: proc_locks_free_def NPROC_def)
  then have "kkill_one n 0 s = kkill_one n 0 (settle s)" using ok by (simp add: kkill_one_effect)
  then have "scan (kkill_one n) [0..<NPROC] s = scan (kkill_one n) [0..<NPROC] (settle s)"
    by (simp add: upt_NPROC)
  then show ?thesis
    using scan_kkill [OF ok, of "[0..<NPROC]" n] free
    by (simp add: kkill_def proc_locks_free_def split: option.split)
qed

lemma killed_effect:
  assumes "irq_state_ok s" "lock_free (L_proc p) (locks s)"
  shows "killed p s = Ok (pkilled (procs s p)) (settle s)"
  using irq_okD [OF assms(1)] assms(2)
  by (cases s) (simp add: killed_def state_simps get_proc_def settle_def)

lemma setkilled_effect:
  assumes "irq_state_ok s" "lock_free (L_proc p) (locks s)"
  shows "setkilled p s = Ok () ((settle s)\<lparr>procs := (procs s)(p := (procs s p)\<lparr>pkilled := 1\<rparr>)\<rparr>)"
  using irq_okD [OF assms(1)] assms(2)
  by (cases s) (simp add: setkilled_def state_simps upd_proc_def settle_def)

lemma allocpid_effect:
  assumes "irq_state_ok s" "lock_free L_pid (locks s)"
  shows "allocpid s = Ok (nextpid s) ((settle s)\<lparr>nextpid := i32 (nextpid s + 1)\<rparr>)"
  using irq_okD [OF assms(1)] assms(2)
  by (cases s) (simp add: allocpid_def state_simps settle_def)

text \<open>
  \<open>wakeup\<close> changes no parent, so after the loop of \<open>reparent\<close> the children of \<open>p\<close> belong to
  \<open>initproc\<close>, and all that has happened to the states is wake-ups of init's waiters.
\<close>

lemma parent_awaken [simp]:
  "parent (awaken me ch p q) = parent q" "pid (awaken me ch p q) = pid q" "chan (awaken me ch p q) = chan q"
  by (simp_all add: awaken_def)

lemma parent_wakeup_table [simp]:
  "parent (wakeup_table me ch tab q) = parent (tab q)" "pid (wakeup_table me ch tab q) = pid (tab q)"
  by (simp_all add: wakeup_table_def map_table_def)

lemma proc_locks_free_upd [simp]:
  "proc_locks_free (settle s) = proc_locks_free s" "proc_locks_free (t\<lparr>procs := x\<rparr>) = proc_locks_free t"
  by (simp_all add: proc_locks_free_def)

lemma reparent_one_effect:
  assumes "irq_state_ok s" "proc_locks_free s"
  shows "\<exists>t. reparent_one p pp s = Ok () t \<and> irq_state_ok t \<and> proc_locks_free t \<and> initproc t = initproc s \<and>
    tp t = tp s \<and> locks t = locks s \<and> (\<forall>q. parent (procs t q) =
       (if q = pp \<and> parent (procs s pp) = Some p then initproc s else parent (procs s q)))"
proof (cases "parent (procs s pp) = Some p")
  case True
  let ?u = "s\<lparr>procs := (procs s)(pp := (procs s pp)\<lparr>parent := initproc s\<rparr>)\<rparr>"
  let ?ch = "case initproc s of Some i \<Rightarrow> Chan_proc i | None \<Rightarrow> Chan_none"
  have "reparent_one p pp s = wakeup ?ch ?u"
    using True by (simp add: reparent_one_def get_proc_def upd_proc_def)
  also have "\<dots> = Ok () ((settle ?u)\<lparr>procs := wakeup_table (cproc (cpus ?u (tp ?u))) ?ch (procs ?u)\<rparr>)"
    using wakeup_effect [of ?u ?ch] assms by simp
  finally show ?thesis using assms True by simp
next
  case False
  then show ?thesis using assms by (auto simp: reparent_one_def get_proc_def)
qed

lemma for_each_reparent:
  assumes "irq_state_ok s" "proc_locks_free s" "initproc s \<noteq> Some p"
  shows "\<exists>t. for_each (reparent_one p) ps s = Ok () t \<and> irq_state_ok t \<and> proc_locks_free t \<and>
    initproc t = initproc s \<and> locks t = locks s \<and> (\<forall>q. parent (procs t q) =
       (if q \<in> set ps \<and> parent (procs s q) = Some p then initproc s else parent (procs s q)))"
  using assms
proof (induction ps arbitrary: s)
  case (Cons pp ps)
  obtain u where u: "reparent_one p pp s = Ok () u" "irq_state_ok u" "proc_locks_free u"
    "initproc u = initproc s" "locks u = locks s" "\<forall>q. parent (procs u q) =
       (if q = pp \<and> parent (procs s pp) = Some p then initproc s else parent (procs s q))"
    using reparent_one_effect [OF Cons.prems(1,2)] by metis
  obtain t where "for_each (reparent_one p) ps u = Ok () t" "irq_state_ok t" "proc_locks_free t"
    "initproc t = initproc u" "locks t = locks u" "\<forall>q. parent (procs t q) =
       (if q \<in> set ps \<and> parent (procs u q) = Some p then initproc u else parent (procs u q))"
    using Cons.IH [OF u(2,3)] u(4) Cons.prems(3) by metis
  then show ?case using u Cons.prems(3) by (intro exI [of _ t]) auto
qed auto

section \<open>A sample process table\<close>

text \<open>Slots 0 and 1 hold runnable processes with pids 3 and 2, slot 2 is init (pid 1), asleep.\<close>

definition blank_proc :: proc where
  "blank_proc = \<lparr>state = UNUSED, chan = Chan_none, pkilled = 0, xstate = 0, pid = 0, parent = None,
     kstack = 0, sz = 0, pagetable = 0, trapframe = 0,
     pcontext = \<lparr>ctx_ra = 0, ctx_sp = 0, ctx_s = replicate 12 0\<rparr>,
     ofile = (\<lambda>_. None), cwd = None, pname = replicate 16 0\<rparr>"

definition sample_table :: "nat \<Rightarrow> proc" where
  "sample_table = (\<lambda>_. blank_proc)(
     0 := blank_proc\<lparr>state := RUNNABLE, pid := 3, parent := Some 1\<rparr>,
     1 := blank_proc\<lparr>state := RUNNABLE, pid := 2, parent := Some 2\<rparr>,
     2 := blank_proc\<lparr>state := SLEEPING, chan := Chan_proc 2, pid := 1\<rparr>)"

definition sample_kproc :: kproc where
  "sample_kproc = kmachine.extend boot_machine
     \<lparr>procs = sample_table, initproc = Some 2, nextpid = 4, ticks = 0,
      trampoline = 0x80007000, forkret_pc = 0x80001a00\<rparr>"

lemma sample_kproc_simps [simp]:
  "tp sample_kproc = 0" "procs sample_kproc = sample_table" "initproc sample_kproc = Some 2"
  by (simp_all add: sample_kproc_def kmachine.defs boot_machine_def
      kernel.defs idle_kernel_def)

lemma sample_idle: "sched_idle sample_kproc"
  by (simp_all add: sched_idle_def irq_state_ok_def irq_ok_def proc_locks_free_def lock_free_def
      sample_kproc_def kmachine.defs boot_machine_def kernel.defs idle_kernel_def)

lemma sample_runnable: "runnable_set sample_table = {0, 1}"
  by (auto simp: runnable_set_def sample_table_def blank_proc_def NPROC_def)

lemma sample_pids: "pid (sample_table 0) = 3" "pid (sample_table (Suc 0)) = 2"
  by (simp_all add: sample_table_def)

section \<open>Properties\<close>

text \<open>
  C2: first come, first served: one round of \<open>scheduler\<close> dispatches the runnable process with the
  smallest pid of the whole table. At the switch that process is \<open>RUNNING\<close> and is the CPU's current
  process, its lock is held by this hart, \<open>noff\<close> is 1 with interrupts off, and the lock of every
  other process is free again. If nothing is runnable the table is left as it was.
\<close>
theorem fcfs_dispatches_oldest:
  assumes "sched_idle s"
  shows "(runnable_set (procs s) = {} \<longrightarrow>
      (\<exists>t. scheduler_iter run (tp s) s = Ok () t \<and> sched_idle t \<and> procs t = procs s)) \<and>
    (runnable_set (procs s) \<noteq> {} \<longrightarrow>
      (\<exists>p d. p \<in> runnable_set (procs s) \<and>
         (\<forall>q \<in> runnable_set (procs s). pid (procs s p) \<le> pid (procs s q)) \<and>
         scheduler_iter run (tp s) s = kthen (run p) (switch_back (tp s) p) d \<and>
         procs d = (procs s)(p := (procs s p)\<lparr>state := RUNNING\<rparr>) \<and>
         cproc (cpus d (tp s)) = Some p \<and> noff (cpus d (tp s)) = 1 \<and> \<not> irq_enabled (tp s) (sstatus d) \<and>
         lock_held (L_proc p) (tp s) (locks d) \<and>
         (\<forall>q < NPROC. q \<noteq> p \<longrightarrow> lock_free (L_proc q) (locks d))))"
proof (intro conjI impI)
  assume "runnable_set (procs s) = {}"
  then show "\<exists>t. scheduler_iter run (tp s) s = Ok () t \<and> sched_idle t \<and> procs t = procs s"
    using fcfs_round_empty [OF assms, of run] by (intro exI [of _ "settle (irqs_off s)"]) simp
next
  assume "runnable_set (procs s) \<noteq> {}"
  then obtain p where p: "fcfs_choice (procs s) [0..<NPROC] None = Some p"
    using fcfs_choice_runnable(1) [of "procs s"] by auto
  let ?d = "dispatched p (irqs_off s)"
  have idle: "irq_ok (tp s) (sstatus s) (cpus s)" "noff (cpus s (tp s)) = 0" "proc_locks_free s"
    using assms by (auto simp: sched_idle_def irq_state_ok_def)
  have "procs ?d = (procs s)(p := (procs s p)\<lparr>state := RUNNING\<rparr>)" "cproc (cpus ?d (tp s)) = Some p"
    "noff (cpus ?d (tp s)) = 1" "\<not> irq_enabled (tp s) (sstatus ?d)" "lock_held (L_proc p) (tp s) (locks ?d)"
    "\<forall>q < NPROC. q \<noteq> p \<longrightarrow> lock_free (L_proc q) (locks ?d)"
    using idle by (simp_all add: dispatched_def acquired_def proc_locks_free_def)
  moreover have "scheduler_iter run (tp s) s = kthen (run p) (switch_back (tp s) p) ?d"
    using scheduler_iter_unfold [OF assms, of run] p by simp
  ultimately show "\<exists>p d. p \<in> runnable_set (procs s) \<and>
         (\<forall>q \<in> runnable_set (procs s). pid (procs s p) \<le> pid (procs s q)) \<and>
         scheduler_iter run (tp s) s = kthen (run p) (switch_back (tp s) p) d \<and>
         procs d = (procs s)(p := (procs s p)\<lparr>state := RUNNING\<rparr>) \<and>
         cproc (cpus d (tp s)) = Some p \<and> noff (cpus d (tp s)) = 1 \<and> \<not> irq_enabled (tp s) (sstatus d) \<and>
         lock_held (L_proc p) (tp s) (locks d) \<and>
         (\<forall>q < NPROC. q \<noteq> p \<longrightarrow> lock_free (L_proc q) (locks d))"
    using fcfs_choice_runnable(2) [OF p] by blast
qed

theorem fcfs_dispatches_oldest_witness:
  "\<exists>d. scheduler_iter (\<lambda>_. yield) 0 sample_kproc = kthen yield (switch_back 0 1) d \<and> cproc (cpus d 0) = Some 1"
proof -
  obtain p d where p: "p \<in> {0, 1 :: nat}" "\<forall>q \<in> {0, 1}. pid (sample_table p) \<le> pid (sample_table q)"
    and d: "scheduler_iter (\<lambda>_. yield) 0 sample_kproc = kthen yield (switch_back 0 p) d" "cproc (cpus d 0) = Some p"
    using fcfs_dispatches_oldest [OF sample_idle, of "\<lambda>_. yield"] by (simp add: sample_runnable) blast
  have "p = 1" using p by (auto simp: sample_pids)
  then show ?thesis using d by auto
qed

text \<open>
  C4: sleep and wake-up. A process that takes the condition lock and sleeps on a channel ends up,
  once the scheduler has switched away from it, \<open>SLEEPING\<close> on that channel with the condition lock
  and its own lock free; any later \<open>wakeup\<close> of the channel by another process makes it \<open>RUNNABLE\<close>.
\<close>
theorem sleep_wakeup:
  assumes "irq_state_ok s" "cproc (cpus s (tp s)) = Some p" "p < NPROC" "proc_locks_free s"
    and "lk \<noteq> L_proc p" "lock_free lk (locks s)" "noff (cpus s (tp s)) = 0" "q \<noteq> p"
  shows "\<exists>t u v. kthen (acquire lk) (sleep ch lk) s = Sleep t \<and> switch_back (tp s) p t = Ok () u \<and>
    locks u = locks s \<and> state (procs u p) = SLEEPING \<and> chan (procs u p) = ch \<and>
    wakeup ch (u\<lparr>cpus := set_cproc (tp s) (Some q) (cpus u)\<rparr>) = Ok () v \<and> state (procs v p) = RUNNABLE"
proof -
  have free: "lock_free (L_proc p) (locks s)" using assms by (simp add: proc_locks_free_def)
  let ?t = "(acquired (L_proc p) s)\<lparr>procs := (procs s)(p := going_to_sleep p ch (procs s p))\<rparr>"
  let ?u = "(settle s)\<lparr>procs := (procs s)(p := going_to_sleep p ch (procs s p)),
     cpus := set_cproc (tp s) None (cpus (settle s))\<rparr>"
  let ?w = "?u\<lparr>cpus := set_cproc (tp s) (Some q) (cpus ?u)\<rparr>"
  have sleep: "kthen (acquire lk) (sleep ch lk) s = Sleep ?t"
    using sleep_effect [OF assms(1,2) free assms(5,6,7)] acquire_acquired [OF assms(6)] by simp
  have sw: "switch_back (tp s) p ?t = Ok () ?u"
    using irq_okD [OF assms(1)] free
    by (cases s) (simp add: switch_back_def upd_cpu_cproc acquired_def release_effect settle_def)
  have w: "irq_state_ok ?w" "proc_locks_free ?w" "cproc (cpus ?w (tp ?w)) = Some q"
    using assms(1,4) by (simp_all add: irq_state_ok_def proc_locks_free_def)
  have "state (wakeup_table (Some q) ch (procs ?u) p) = RUNNABLE"
    using assms(3,8) by (simp add: wakeup_table_def map_table_def awaken_def going_to_sleep_def)
  then obtain v where v: "wakeup ch ?w = Ok () v" "state (procs v p) = RUNNABLE"
    using wakeup_effect [OF w(1,2), of ch] w(3) by simp
  have u: "locks ?u = locks s" "state (procs ?u p) = SLEEPING" "chan (procs ?u p) = ch"
    by (simp_all add: going_to_sleep_def)
  show ?thesis using sleep sw u v by blast
qed

definition sample_running :: kproc where
  "sample_running = sample_kproc\<lparr>cpus := set_cproc 0 (Some 0) (cpus sample_kproc)\<rparr>"

theorem sleep_wakeup_witness:
  "\<exists>t u v. kthen (acquire L_ticks) (sleep Chan_ticks L_ticks) sample_running = Sleep t \<and>
     switch_back 0 0 t = Ok () u \<and> state (procs u 0) = SLEEPING \<and>
     wakeup Chan_ticks (u\<lparr>cpus := set_cproc 0 (Some 1) (cpus u)\<rparr>) = Ok () v \<and> state (procs v 0) = RUNNABLE"
proof -
  have "irq_state_ok sample_running" "cproc (cpus sample_running (tp sample_running)) = Some 0"
    "proc_locks_free sample_running" "lock_free L_ticks (locks sample_running)"
    "noff (cpus sample_running (tp sample_running)) = 0" "tp sample_running = 0"
    using sample_idle
    by (simp_all add: sample_running_def sched_idle_def irq_state_ok_def proc_locks_free_def)
       (simp add: lock_free_def sample_kproc_def kmachine.defs boot_machine_def kernel.defs idle_kernel_def)
  then show ?thesis
    using sleep_wakeup [of sample_running 0 L_ticks 1 Chan_ticks] by (auto simp: NPROC_def)
qed

text \<open>
  \<open>wakeup\<close> wakes exactly the sleepers of its channel: after the call every other process that
  was \<open>SLEEPING\<close> on \<open>ch\<close> is \<open>RUNNABLE\<close>, every other entry of the table is unchanged, all the locks it
  took are free again, and the caller itself is never touched.
\<close>
theorem wakeup_exact:
  assumes "irq_state_ok s" "proc_locks_free s"
  shows "\<exists>t. wakeup ch s = Ok () t \<and> locks t = locks s \<and> sstatus t = sstatus s \<and>
    (\<forall>p < NPROC. cproc (cpus s (tp s)) \<noteq> Some p \<and> state (procs s p) = SLEEPING \<and> chan (procs s p) = ch \<longrightarrow>
        procs t p = (procs s p)\<lparr>state := RUNNABLE\<rparr>) \<and>
    (\<forall>p. \<not> (p < NPROC \<and> cproc (cpus s (tp s)) \<noteq> Some p \<and> state (procs s p) = SLEEPING \<and> chan (procs s p) = ch) \<longrightarrow>
        procs t p = procs s p)"
  using wakeup_effect [OF assms, of ch] by (simp add: wakeup_table_def map_table_def awaken_def)

theorem wakeup_exact_witness:
  "\<exists>t. wakeup (Chan_proc 2) sample_running = Ok () t \<and> state (procs t 2) = RUNNABLE \<and>
     procs t 0 = sample_table 0"
proof -
  have "irq_state_ok sample_running" "proc_locks_free sample_running"
    using sample_idle by (simp_all add: sample_running_def sched_idle_def irq_state_ok_def proc_locks_free_def)
  then obtain t where t: "wakeup (Chan_proc 2) sample_running = Ok () t"
    "\<forall>p < NPROC. cproc (cpus sample_running 0) \<noteq> Some p \<and> state (sample_table p) = SLEEPING \<and>
        chan (sample_table p) = Chan_proc 2 \<longrightarrow> procs t p = (sample_table p)\<lparr>state := RUNNABLE\<rparr>"
    "\<forall>p. \<not> (p < NPROC \<and> cproc (cpus sample_running 0) \<noteq> Some p \<and> state (sample_table p) = SLEEPING \<and>
        chan (sample_table p) = Chan_proc 2) \<longrightarrow> procs t p = sample_table p"
    using wakeup_exact [of sample_running "Chan_proc 2"] by (auto simp: sample_running_def)
  have "cproc (cpus sample_running 0) = Some 0" by (simp add: sample_running_def)
  then have "procs t 2 = (sample_table 2)\<lparr>state := RUNNABLE\<rparr>" "procs t 0 = sample_table 0"
    using t(2) [rule_format, of 2] t(3) [rule_format, of 0] by (simp_all add: NPROC_def sample_table_def)
  then show ?thesis using t(1) by auto
qed

text \<open>
  \<open>kkill\<close> finds the process: if some entry has the pid, the call returns 0 and the first such
  entry is marked killed and, if it was sleeping, made runnable, with nothing else changed; it returns
  -1 exactly when no entry has the pid, and then changes nothing.
\<close>
theorem kkill_marks:
  assumes "irq_state_ok s" "proc_locks_free s"
  shows "((\<forall>p < NPROC. pid (procs s p) \<noteq> n) \<longrightarrow> kkill n s = Ok (- 1) (settle s)) \<and>
    (\<forall>p < NPROC. pid (procs s p) = n \<and> (\<forall>q < p. pid (procs s q) \<noteq> n) \<longrightarrow>
       kkill n s = Ok 0 ((settle s)\<lparr>procs := (procs s)(p := (procs s p)\<lparr>pkilled := 1,
          state := (if state (procs s p) = SLEEPING then RUNNABLE else state (procs s p))\<rparr>)\<rparr>))"
proof (intro conjI impI allI)
  assume "\<forall>p < NPROC. pid (procs s p) \<noteq> n"
  then have "find (\<lambda>p. pid (procs s p) = n) [0..<NPROC] = None" by (auto simp: find_None_iff)
  then show "kkill n s = Ok (- 1) (settle s)" using kkill_effect [OF assms, of n] by simp
next
  fix p assume "p < NPROC" and p: "pid (procs s p) = n \<and> (\<forall>q < p. pid (procs s q) \<noteq> n)"
  then have "find (\<lambda>p. pid (procs s p) = n) [0..<NPROC] = Some p"
    by (auto simp: find_Some_iff intro!: exI [of _ p])
  moreover have "kill_proc q = q\<lparr>pkilled := 1, state := (if state q = SLEEPING then RUNNABLE else state q)\<rparr>" for q
    by (cases q) (simp add: kill_proc_def)
  ultimately show "kkill n s = Ok 0 ((settle s)\<lparr>procs := (procs s)(p := (procs s p)\<lparr>pkilled := 1,
          state := (if state (procs s p) = SLEEPING then RUNNABLE else state (procs s p))\<rparr>)\<rparr>)"
    using kkill_effect [OF assms, of n] by simp
qed

theorem kkill_marks_witness:
  "\<exists>t. kkill 1 sample_kproc = Ok 0 t \<and> state (procs t 2) = RUNNABLE \<and> pkilled (procs t 2) = 1"
proof -
  have ok: "irq_state_ok sample_kproc" "proc_locks_free sample_kproc"
    using sample_idle by (simp_all add: sched_idle_def)
  have "q = 0 \<or> q = 1" if "q < 2" for q :: nat using that by linarith
  then have "pid (procs sample_kproc 2) = 1 \<and> (\<forall>q < 2. pid (procs sample_kproc q) \<noteq> 1)"
    by (auto simp: sample_table_def)
  moreover have "2 < NPROC" "state (procs sample_kproc 2) = SLEEPING"
    by (simp_all add: NPROC_def sample_table_def)
  ultimately show ?thesis
    using conjunct2 [OF kkill_marks [OF ok, of 1], rule_format, of 2] by simp
qed

text \<open>
  \<open>kkill(0)\<close>: the pid of an unused slot is 0, so the search stops at the first unused slot, marks
  it killed and reports success, although no such process exists.
\<close>

lemma kkill_zero_marks_unused:
  assumes "irq_state_ok s" "proc_locks_free s" "p < NPROC" "state (procs s p) = UNUSED" "pid (procs s p) = 0"
    and "\<forall>q < p. pid (procs s q) \<noteq> 0"
  shows "\<exists>t. kkill 0 s = Ok 0 t \<and> state (procs t p) = UNUSED \<and> pkilled (procs t p) = 1"
proof -
  have "find (\<lambda>p. pid (procs s p) = 0) [0..<NPROC] = Some p"
    using assms by (auto simp: find_Some_iff intro!: exI [of _ p])
  then show ?thesis using kkill_effect [OF assms(1,2), of 0] assms(4) by (simp add: kill_proc_def)
qed

text \<open>
  \<open>reparent\<close> leaves no orphans: afterwards no process has the exiting process as its parent,
  its former children have init as their parent, and no other parent changes.
\<close>
theorem reparent_no_orphans:
  assumes "irq_state_ok s" "proc_locks_free s" "initproc s \<noteq> Some p"
    and "\<forall>q. NPROC \<le> q \<longrightarrow> parent (procs s q) \<noteq> Some p"
  shows "\<exists>t. reparent p s = Ok () t \<and> locks t = locks s \<and> (\<forall>q. parent (procs t q) \<noteq> Some p) \<and>
    (\<forall>q. parent (procs t q) = (if parent (procs s q) = Some p then initproc s else parent (procs s q)))"
proof -
  obtain t where t: "for_each (reparent_one p) [0..<NPROC] s = Ok () t" "locks t = locks s"
    "\<forall>q. parent (procs t q) =
       (if q \<in> set [0..<NPROC] \<and> parent (procs s q) = Some p then initproc s else parent (procs s q))"
    using for_each_reparent [OF assms(1-3)] by metis
  have "parent (procs t q) = (if parent (procs s q) = Some p then initproc s else parent (procs s q))" for q
    using t(3) assms(4) by (cases "q < NPROC") auto
  then show ?thesis using t(1,2) assms(3) by (auto simp: reparent_def)
qed

theorem reparent_no_orphans_witness:
  "\<exists>t. reparent 1 sample_kproc = Ok () t \<and> parent (procs t 0) = Some 2 \<and> (\<forall>q. parent (procs t q) \<noteq> Some 1)"
proof -
  have ok: "irq_state_ok sample_kproc" "proc_locks_free sample_kproc"
    using sample_idle by (simp_all add: sched_idle_def)
  have "\<forall>q. NPROC \<le> q \<longrightarrow> parent (procs sample_kproc q) \<noteq> Some 1"
    by (auto simp: NPROC_def sample_table_def blank_proc_def)
  then obtain t where "reparent 1 sample_kproc = Ok () t" "\<forall>q. parent (procs t q) \<noteq> Some 1"
    "\<forall>q. parent (procs t q) = (if parent (sample_table q) = Some 1 then Some 2 else parent (sample_table q))"
    using reparent_no_orphans [OF ok, of 1] by auto
  moreover have "parent (sample_table 0) = Some 1" by (simp add: sample_table_def)
  ultimately show ?thesis by auto
qed

end
