(* ===== verification/Xv6_Vm.thy ===== *)
theory Xv6_Vm
  imports Xv6_Sched
begin

text \<open>
  Virtual memory: vm.c, with \<open>proc_mapstacks\<close> of proc.c. Page tables are the three-level Sv39
  trees stored in byte memory; a \<open>pte_t *\<close> is the address of an 8-byte entry, and a null entry
  pointer is address 0. A loop that steps through addresses ends because \<open>walk\<close> panics at
  \<open>MAXVA\<close>. The abstract view of a page table is the map from virtual pages to leaf entries; the
  lemmas show that \<open>walk\<close> computes it and how \<open>mappages\<close> and \<open>uvmunmap\<close> change it.
\<close>

section \<open>State\<close>

record kvm = kproc +
  kernel_pagetable :: u64
  etext :: u64
  satp :: "nat \<Rightarrow> u64"

definition UART0 :: u64 where "UART0 = 0x10000000"
definition VIRTIO0 :: u64 where "VIRTIO0 = 0x10001000"
definition PLIC :: u64 where "PLIC = 0x0c000000"
definition SATP_SV39 :: u64 where "SATP_SV39 = push_bit 60 8"

definition MAKE_SATP :: "u64 \<Rightarrow> u64" where
  "MAKE_SATP pt = SATP_SV39 OR drop_bit 12 pt"

definition load_pte :: "u64 \<Rightarrow> ('x kmachine_scheme, u64) kop" where
  "load_pte a = (if a = 0 then panic ''kerneltrap'' else gets (\<lambda>s. load64 (mem s) a))"

definition store_pte :: "u64 \<Rightarrow> u64 \<Rightarrow> ('x kmachine_scheme, unit) kop" where
  "store_pte a v = upd_mem (store64 a v)"

definition pte_addr :: "u64 \<Rightarrow> u64 \<Rightarrow> u64" where
  "pte_addr pt i = pt + 8 * i"

section \<open>walk, walkaddr, ismapped\<close>

fun walk_loop :: "nat \<Rightarrow> u64 \<Rightarrow> u64 \<Rightarrow> bool \<Rightarrow> ('x kmachine_scheme, u64) kop" where
  "walk_loop 0 pt va alloc = ret (pte_addr pt (PX 0 va))"
| "walk_loop (Suc l) pt va alloc =
     kbind (gets (\<lambda>s. load64 (mem s) (pte_addr pt (PX (Suc l) va)))) (\<lambda>pte.
     if pte AND PTE_V \<noteq> 0 then walk_loop l (PTE2PA pte) va alloc
     else if \<not> alloc then ret 0
     else kbind kalloc (\<lambda>pg.
       if pg = 0 then ret 0
       else
         kthen (upd_mem (memset pg 0 (ucast PGSIZE))) (
         kthen (store_pte (pte_addr pt (PX (Suc l) va)) (PA2PTE pg OR PTE_V)) (
         walk_loop l pg va alloc))))"

definition walk :: "u64 \<Rightarrow> u64 \<Rightarrow> bool \<Rightarrow> ('x kmachine_scheme, u64) kop" where
  "walk pt va alloc = (if va \<ge> MAXVA then panic ''walk'' else walk_loop 2 pt va alloc)"

definition walkaddr :: "u64 \<Rightarrow> u64 \<Rightarrow> ('x kmachine_scheme, u64) kop" where
  "walkaddr pt va =
     (if va \<ge> MAXVA then ret 0 else
      kbind (walk pt va False) (\<lambda>pte.
      if pte = 0 then ret 0 else
      kbind (load_pte pte) (\<lambda>v.
      if v AND PTE_V = 0 then ret 0
      else if v AND PTE_U = 0 then ret 0
      else ret (PTE2PA v))))"

definition ismapped :: "u64 \<Rightarrow> u64 \<Rightarrow> ('x kmachine_scheme, bool) kop" where
  "ismapped pt va =
     kbind (walk pt va False) (\<lambda>pte.
     if pte = 0 then ret False else
     kbind (load_pte pte) (\<lambda>v. ret (v AND PTE_V \<noteq> 0)))"

section \<open>Creating mappings\<close>

lemma walk_Ok_range: "walk pt va alloc s = Ok pte t \<Longrightarrow> va < MAXVA"
  by (auto simp: walk_def split: if_splits)

lemma below_MAXVA_step: "a < MAXVA \<Longrightarrow> unat (a + PGSIZE) = unat a + 4096 \<and> unat a < 2 ^ 38"
  using unat_offset_bound [of a 4096] by (simp add: below_MAXVA PGSIZE_def)

function mappages_loop :: "u64 \<Rightarrow> u64 \<Rightarrow> u64 \<Rightarrow> u64 \<Rightarrow> u64 \<Rightarrow> ('x kmachine_scheme, int) kop" where
  "mappages_loop pt a lst pa perm s =
     (case walk pt a True s of
        Ok pte t \<Rightarrow>
          if pte = 0 then Ok (- 1) t
          else if load64 (mem t) pte AND PTE_V \<noteq> 0 then Panic ''mappages: remap''
          else (let u = t\<lparr>mem := store64 pte (PA2PTE pa OR perm OR PTE_V) (mem t)\<rparr> in
            if a = lst then Ok 0 u else mappages_loop pt (a + PGSIZE) lst (pa + PGSIZE) perm u)
      | Panic msg \<Rightarrow> Panic msg | Spin t \<Rightarrow> Spin t | Sleep t \<Rightarrow> Sleep t)"
  by pat_completeness auto
termination
proof (relation "measure (\<lambda>(pt, a, lst, pa, perm, s). 2 ^ 38 + 4096 - unat a)")
  fix pt a lst pa perm :: u64 and s t x :: "'x kmachine_scheme" and pte
  assume "walk pt a True s = Ok pte t"
  then have "a < MAXVA" by (rule walk_Ok_range)
  then show "((pt, a + PGSIZE, lst, pa + PGSIZE, perm, x), pt, a, lst, pa, perm, s)
      \<in> measure (\<lambda>(pt, a, lst, pa, perm, s). 2 ^ 38 + 4096 - unat a)"
    by (auto dest!: below_MAXVA_step)
qed simp

declare mappages_loop.simps [simp del]

definition mappages :: "u64 \<Rightarrow> u64 \<Rightarrow> u64 \<Rightarrow> u64 \<Rightarrow> u64 \<Rightarrow> ('x kmachine_scheme, int) kop" where
  "mappages pt va nbytes pa perm =
     (if va mod PGSIZE \<noteq> 0 then panic ''mappages: va not aligned''
      else if nbytes mod PGSIZE \<noteq> 0 then panic ''mappages: size not aligned''
      else if nbytes = 0 then panic ''mappages: size''
      else mappages_loop pt va (va + nbytes - PGSIZE) pa perm)"

definition kvmmap :: "u64 \<Rightarrow> u64 \<Rightarrow> u64 \<Rightarrow> u64 \<Rightarrow> u64 \<Rightarrow> ('x kmachine_scheme, unit) kop" where
  "kvmmap kpgtbl va pa nbytes perm =
     kbind (mappages kpgtbl va nbytes pa perm) (\<lambda>r. if r \<noteq> 0 then panic ''kvmmap'' else ret ())"

definition proc_mapstacks_one :: "u64 \<Rightarrow> nat \<Rightarrow> ('x kmachine_scheme, unit) kop" where
  "proc_mapstacks_one kpgtbl p =
     kbind kalloc (\<lambda>pa.
     if pa = 0 then panic ''kalloc''
     else kvmmap kpgtbl (KSTACK p) pa PGSIZE (PTE_R OR PTE_W))"

definition proc_mapstacks :: "u64 \<Rightarrow> ('x kmachine_scheme, unit) kop" where
  "proc_mapstacks kpgtbl = for_each (proc_mapstacks_one kpgtbl) [0..<NPROC]"

text \<open>\<open>kvmmake\<close> does not check \<open>kalloc\<close>; the null page would fault in \<open>memset\<close>.\<close>

definition kvmmake :: "('x kvm_scheme, u64) kop" where
  "kvmmake =
     kbind kalloc (\<lambda>kpgtbl.
     if kpgtbl = 0 then panic ''kerneltrap'' else
     kthen (upd_mem (memset kpgtbl 0 (ucast PGSIZE))) (
     kthen (kvmmap kpgtbl UART0 UART0 PGSIZE (PTE_R OR PTE_W)) (
     kthen (kvmmap kpgtbl VIRTIO0 VIRTIO0 PGSIZE (PTE_R OR PTE_W)) (
     kthen (kvmmap kpgtbl PLIC PLIC 0x4000000 (PTE_R OR PTE_W)) (
     kbind (gets etext) (\<lambda>et.
     kthen (kvmmap kpgtbl KERNBASE KERNBASE (et - KERNBASE) (PTE_R OR PTE_X)) (
     kthen (kvmmap kpgtbl et et (PHYSTOP - et) (PTE_R OR PTE_W)) (
     kbind (gets trampoline) (\<lambda>tr.
     kthen (kvmmap kpgtbl TRAMPOLINE tr PGSIZE (PTE_R OR PTE_X)) (
     kthen (proc_mapstacks kpgtbl) (
     ret kpgtbl)))))))))))"

definition kvminit :: "('x kvm_scheme, unit) kop" where
  "kvminit = kbind kvmmake (\<lambda>pt. modify (\<lambda>s. s\<lparr>kernel_pagetable := pt\<rparr>))"

definition kvminithart :: "('x kvm_scheme, unit) kop" where
  "kvminithart = modify (\<lambda>s. s\<lparr>satp := (satp s)(tp s := MAKE_SATP (kernel_pagetable s))\<rparr>)"

section \<open>User address spaces\<close>

definition uvmcreate :: "('x kmachine_scheme, u64) kop" where
  "uvmcreate =
     kbind kalloc (\<lambda>pt.
     if pt = 0 then ret 0
     else kthen (upd_mem (memset pt 0 (ucast PGSIZE))) (ret pt))"

text \<open>One page of \<open>uvmunmap\<close>.\<close>

definition uvmunmap_page :: "u64 \<Rightarrow> u64 \<Rightarrow> bool \<Rightarrow> ('x kmachine_scheme, unit) kop" where
  "uvmunmap_page pt a do_free =
     kbind (walk pt a False) (\<lambda>pte.
     if pte = 0 then ret () else
     kbind (load_pte pte) (\<lambda>v.
     if v AND PTE_V = 0 then ret () else
     kthen (kwhen do_free (kfree (PTE2PA v))) (
     store_pte pte 0)))"

lemma uvmunmap_page_Ok_range: "uvmunmap_page pt a f s = Ok () t \<Longrightarrow> a < MAXVA"
  by (auto simp: uvmunmap_page_def dest: walk_Ok_range split: outcome.splits)

function uvmunmap_loop :: "u64 \<Rightarrow> u64 \<Rightarrow> u64 \<Rightarrow> bool \<Rightarrow> ('x kmachine_scheme, unit) kop" where
  "uvmunmap_loop pt a e do_free s =
     (if a < e
      then (case uvmunmap_page pt a do_free s of
              Ok _ t \<Rightarrow> uvmunmap_loop pt (a + PGSIZE) e do_free t
            | Panic msg \<Rightarrow> Panic msg | Spin t \<Rightarrow> Spin t | Sleep t \<Rightarrow> Sleep t)
      else Ok () s)"
  by pat_completeness auto
termination
proof (relation "measure (\<lambda>(pt, a, e, f, s). 2 ^ 38 + 4096 - unat a)")
  fix pt a e :: u64 and f :: bool and s t :: "'x kmachine_scheme" and u
  assume "uvmunmap_page pt a f s = Ok u t"
  then have "a < MAXVA" using uvmunmap_page_Ok_range [of pt a f s t] by simp
  then show "((pt, a + PGSIZE, e, f, t), pt, a, e, f, s)
      \<in> measure (\<lambda>(pt, a, e, f, s). 2 ^ 38 + 4096 - unat a)"
    by (auto dest!: below_MAXVA_step)
qed simp

declare uvmunmap_loop.simps [simp del]

definition uvmunmap :: "u64 \<Rightarrow> u64 \<Rightarrow> u64 \<Rightarrow> bool \<Rightarrow> ('x kmachine_scheme, unit) kop" where
  "uvmunmap pt va npages do_free =
     (if va mod PGSIZE \<noteq> 0 then panic ''uvmunmap: not aligned''
      else uvmunmap_loop pt va (va + npages * PGSIZE) do_free)"

text \<open>\<open>npages\<close> is a C \<open>int\<close>: the quotient is truncated to 32 bits and sign-extended for the call.\<close>

definition uvmdealloc :: "u64 \<Rightarrow> u64 \<Rightarrow> u64 \<Rightarrow> ('x kmachine_scheme, u64) kop" where
  "uvmdealloc pt oldsz newsz =
     (if newsz \<ge> oldsz then ret oldsz
      else
        kthen (kwhen (PGROUNDUP newsz < PGROUNDUP oldsz) (
          uvmunmap pt (PGROUNDUP newsz)
            (word_of_int (i32 (uint ((PGROUNDUP oldsz - PGROUNDUP newsz) div PGSIZE)))) True)) (
        ret newsz))"

text \<open>One page of \<open>uvmalloc\<close>: \<open>True\<close> when the page was mapped, \<open>False\<close> when the call must give up.\<close>

definition uvmalloc_page :: "u64 \<Rightarrow> u64 \<Rightarrow> u64 \<Rightarrow> u64 \<Rightarrow> ('x kmachine_scheme, bool) kop" where
  "uvmalloc_page pt a oldsz xperm =
     kbind kalloc (\<lambda>pg.
     if pg = 0 then kthen (uvmdealloc pt a oldsz) (ret False)
     else
       kthen (upd_mem (memset pg 0 (ucast PGSIZE))) (
       kbind (mappages pt a PGSIZE pg (PTE_R OR PTE_U OR xperm)) (\<lambda>r.
       if r \<noteq> 0 then kthen (kfree pg) (kthen (uvmdealloc pt a oldsz) (ret False))
       else ret True)))"

lemma mappages_Ok_range:
  assumes "mappages pt a nb pa perm s = Ok r t" shows "a < MAXVA"
proof -
  have "mappages_loop pt a (a + nb - PGSIZE) pa perm s = Ok r t"
    using assms by (auto simp: mappages_def split: if_splits)
  then obtain pte u where "walk pt a True s = Ok pte u"
    by (subst (asm) mappages_loop.simps) (auto split: outcome.splits)
  then show ?thesis by (rule walk_Ok_range)
qed

lemma uvmalloc_page_Ok_range: "uvmalloc_page pt a o' x s = Ok True t \<Longrightarrow> a < MAXVA"
  by (auto simp: uvmalloc_page_def dest: mappages_Ok_range split: outcome.splits if_splits)

function uvmalloc_loop :: "u64 \<Rightarrow> u64 \<Rightarrow> u64 \<Rightarrow> u64 \<Rightarrow> u64 \<Rightarrow> ('x kmachine_scheme, u64) kop" where
  "uvmalloc_loop pt a oldsz newsz xperm s =
     (if a < newsz
      then (case uvmalloc_page pt a oldsz xperm s of
              Ok mapped t \<Rightarrow> if mapped then uvmalloc_loop pt (a + PGSIZE) oldsz newsz xperm t else Ok 0 t
            | Panic msg \<Rightarrow> Panic msg | Spin t \<Rightarrow> Spin t | Sleep t \<Rightarrow> Sleep t)
      else Ok newsz s)"
  by pat_completeness auto
termination
proof (relation "measure (\<lambda>(pt, a, oldsz, newsz, xperm, s). 2 ^ 38 + 4096 - unat a)")
  fix pt a oldsz newsz xperm :: u64 and s t :: "'x kmachine_scheme" and u
  assume "uvmalloc_page pt a oldsz xperm s = Ok u t" "u"
  then have "a < MAXVA" using uvmalloc_page_Ok_range [of pt a oldsz xperm s t] by simp
  then show "((pt, a + PGSIZE, oldsz, newsz, xperm, t), pt, a, oldsz, newsz, xperm, s)
      \<in> measure (\<lambda>(pt, a, oldsz, newsz, xperm, s). 2 ^ 38 + 4096 - unat a)"
    by (auto dest!: below_MAXVA_step)
qed simp

declare uvmalloc_loop.simps [simp del]

definition uvmalloc :: "u64 \<Rightarrow> u64 \<Rightarrow> u64 \<Rightarrow> u64 \<Rightarrow> ('x kmachine_scheme, u64) kop" where
  "uvmalloc pt oldsz newsz xperm =
     (if newsz < oldsz then ret oldsz
      else uvmalloc_loop pt (PGROUNDUP oldsz) (PGROUNDUP oldsz) newsz xperm)"

text \<open>
  \<open>freewalk\<close> recurses into lower-level tables; \<open>depth\<close> bounds the recursion (a Sv39 table has
  three levels). Deeper recursion would run off the kernel stack into its guard page.
\<close>

fun freewalk :: "nat \<Rightarrow> u64 \<Rightarrow> ('x kmachine_scheme, unit) kop" where
  "freewalk 0 pt = panic ''kerneltrap''"
| "freewalk (Suc depth) pt =
     kthen (for_each (\<lambda>i.
       kbind (gets (\<lambda>s. load64 (mem s) (pte_addr pt (of_nat i)))) (\<lambda>pte.
       if pte AND PTE_V \<noteq> 0 \<and> pte AND (PTE_R OR PTE_W OR PTE_X) = 0
       then kthen (freewalk depth (PTE2PA pte)) (store_pte (pte_addr pt (of_nat i)) 0)
       else if pte AND PTE_V \<noteq> 0 then panic ''freewalk: leaf''
       else ret ())) [0..<512]) (
     kfree pt)"

definition uvmfree :: "u64 \<Rightarrow> u64 \<Rightarrow> ('x kmachine_scheme, unit) kop" where
  "uvmfree pt n =
     kthen (kwhen (n > 0) (uvmunmap pt 0 (PGROUNDUP n div PGSIZE) True)) (
     freewalk 3 pt)"

text \<open>One page of \<open>uvmcopy\<close>: \<open>False\<close> means \<open>goto err\<close>.\<close>

definition uvmcopy_page :: "u64 \<Rightarrow> u64 \<Rightarrow> u64 \<Rightarrow> ('x kmachine_scheme, bool) kop" where
  "uvmcopy_page old new i =
     kbind (walk old i False) (\<lambda>pte.
     if pte = 0 then ret True else
     kbind (load_pte pte) (\<lambda>v.
     if v AND PTE_V = 0 then ret True else
     kbind kalloc (\<lambda>pg.
     if pg = 0 then ret False else
     kthen (upd_mem (memmove pg (PTE2PA v) (ucast PGSIZE))) (
     kbind (mappages new i PGSIZE pg (PTE_FLAGS v)) (\<lambda>r.
     if r \<noteq> 0 then kthen (kfree pg) (ret False) else ret True)))))"

lemma uvmcopy_page_Ok_range: "uvmcopy_page old new i s = Ok b t \<Longrightarrow> i < MAXVA"
  by (auto simp: uvmcopy_page_def dest: walk_Ok_range split: outcome.splits)

function uvmcopy_loop :: "u64 \<Rightarrow> u64 \<Rightarrow> u64 \<Rightarrow> u64 \<Rightarrow> ('x kmachine_scheme, int) kop" where
  "uvmcopy_loop old new i n s =
     (if i < n
      then (case uvmcopy_page old new i s of
              Ok ok t \<Rightarrow>
                if ok then uvmcopy_loop old new (i + PGSIZE) n t
                else kthen (uvmunmap new 0 (i div PGSIZE) True) (ret (- 1)) t
            | Panic msg \<Rightarrow> Panic msg | Spin t \<Rightarrow> Spin t | Sleep t \<Rightarrow> Sleep t)
      else Ok 0 s)"
  by pat_completeness auto
termination
proof (relation "measure (\<lambda>(old, new, i, n, s). 2 ^ 38 + 4096 - unat i)")
  fix old new i n :: u64 and s t :: "'x kmachine_scheme" and u
  assume "uvmcopy_page old new i s = Ok u t"
  then have "i < MAXVA" by (rule uvmcopy_page_Ok_range)
  then show "((old, new, i + PGSIZE, n, t), old, new, i, n, s)
      \<in> measure (\<lambda>(old, new, i, n, s). 2 ^ 38 + 4096 - unat i)"
    by (auto dest!: below_MAXVA_step)
qed simp

declare uvmcopy_loop.simps [simp del]

definition uvmcopy :: "u64 \<Rightarrow> u64 \<Rightarrow> u64 \<Rightarrow> ('x kmachine_scheme, int) kop" where
  "uvmcopy old new n = uvmcopy_loop old new 0 n"

definition uvmclear :: "u64 \<Rightarrow> u64 \<Rightarrow> ('x kmachine_scheme, unit) kop" where
  "uvmclear pt va =
     kbind (walk pt va False) (\<lambda>pte.
     if pte = 0 then panic ''uvmclear'' else
     kbind (load_pte pte) (\<lambda>v.
     store_pte pte (v AND NOT PTE_U)))"

definition vmfault :: "u64 \<Rightarrow> u64 \<Rightarrow> bool \<Rightarrow> ('x kproc_scheme, u64) kop" where
  "vmfault pt va rd =
     kbind myproc (\<lambda>mp.
     kbind (deref mp) (\<lambda>p.
     kbind (get_proc p) (\<lambda>q.
     if va \<ge> sz q then ret 0 else
     kbind (ismapped pt (PGROUNDDOWN va)) (\<lambda>mapped.
     if mapped then ret 0 else
     kbind kalloc (\<lambda>pg.
     if pg = 0 then ret 0 else
     kthen (upd_mem (memset pg 0 (ucast PGSIZE))) (
     kbind (mappages (pagetable q) (PGROUNDDOWN va) PGSIZE pg (PTE_W OR PTE_U OR PTE_R)) (\<lambda>r.
     if r \<noteq> 0 then kthen (kfree pg) (ret 0) else ret pg)))))))"

section \<open>Copying between kernel and user memory\<close>

text \<open>The number of bytes of one round: up to the end of the page, at most \<open>len\<close>.\<close>

definition chunk_len :: "u64 \<Rightarrow> u64 \<Rightarrow> u64" where
  "chunk_len va len = (let n = PGSIZE - (va - PGROUNDDOWN va) in if n > len then len else n)"

lemma page_offset: "unat (va - PGROUNDDOWN va) = unat va mod 4096"
  using PGROUNDDOWN_le [of va]
  by (simp add: unat_sub unat_PGROUNDDOWN minus_div_mult_eq_mod)

lemma unat_chunk_len: "unat (chunk_len va len) = min (4096 - unat va mod 4096) (unat len)"
proof -
  have lt: "unat va mod 4096 < 4096" by simp
  then have le: "va - PGROUNDDOWN va \<le> PGSIZE"
    by (simp add: word_le_nat_alt page_offset PGSIZE_def)
  have "unat (PGSIZE - (va - PGROUNDDOWN va)) = 4096 - unat va mod 4096"
    by (subst unat_sub [OF le]) (simp add: page_offset PGSIZE_def)
  then show ?thesis
    by (simp add: chunk_len_def Let_def word_less_nat_alt min_def)
qed

lemma chunk_len_decreases: "0 < len \<Longrightarrow> unat (len - chunk_len va len) < unat len"
proof -
  assume "0 < len"
  then have pos: "0 < unat len" by (simp add: word_less_nat_alt)
  have "chunk_len va len \<le> len" by (simp add: word_le_nat_alt unat_chunk_len)
  then have "unat (len - chunk_len va len) = unat len - unat (chunk_len va len)" by (rule unat_sub)
  moreover have "0 < 4096 - unat va mod 4096" by simp
  then have "0 < unat (chunk_len va len)" using pos by (simp only: unat_chunk_len min_less_iff_conj)
  ultimately show ?thesis using pos by linarith
qed

text \<open>Finding the user page for one round; \<open>None\<close> is \<open>return -1\<close>.\<close>

definition copyout_page :: "u64 \<Rightarrow> u64 \<Rightarrow> ('x kproc_scheme, u64 option) kop" where
  "copyout_page pt va0 =
     (if va0 \<ge> MAXVA then ret None else
      kbind (walkaddr pt va0) (\<lambda>pa.
      kbind (if pa = 0 then vmfault pt va0 False else ret pa) (\<lambda>pa0.
      if pa0 = 0 then ret None else
      kbind (walk pt va0 False) (\<lambda>pte.
      kbind (load_pte pte) (\<lambda>v.
      if v AND PTE_W = 0 then ret None else ret (Some pa0))))))"

function copyout :: "u64 \<Rightarrow> u64 \<Rightarrow> u64 \<Rightarrow> u64 \<Rightarrow> ('x kproc_scheme, int) kop" where
  "copyout pt dstva src len s =
     (if len > 0
      then (case copyout_page pt (PGROUNDDOWN dstva) s of
              Ok None t \<Rightarrow> Ok (- 1) t
            | Ok (Some pa0) t \<Rightarrow>
                (let n = chunk_len dstva len in
                 copyout pt (PGROUNDDOWN dstva + PGSIZE) (src + n) (len - n)
                   (t\<lparr>mem := memmove (pa0 + (dstva - PGROUNDDOWN dstva)) src (ucast n) (mem t)\<rparr>))
            | Panic msg \<Rightarrow> Panic msg | Spin t \<Rightarrow> Spin t | Sleep t \<Rightarrow> Sleep t)
      else Ok 0 s)"
  by pat_completeness auto
termination
  by (relation "measure (\<lambda>(pt, dstva, src, len, s). unat len)") (auto simp: chunk_len_decreases)

definition copyin_page :: "u64 \<Rightarrow> u64 \<Rightarrow> ('x kproc_scheme, u64 option) kop" where
  "copyin_page pt va0 =
     kbind (walkaddr pt va0) (\<lambda>pa.
     kbind (if pa = 0 then vmfault pt va0 False else ret pa) (\<lambda>pa0.
     if pa0 = 0 then ret None else ret (Some pa0)))"

function copyin :: "u64 \<Rightarrow> u64 \<Rightarrow> u64 \<Rightarrow> u64 \<Rightarrow> ('x kproc_scheme, int) kop" where
  "copyin pt dst srcva len s =
     (if len > 0
      then (case copyin_page pt (PGROUNDDOWN srcva) s of
              Ok None t \<Rightarrow> Ok (- 1) t
            | Ok (Some pa0) t \<Rightarrow>
                (let n = chunk_len srcva len in
                 copyin pt (dst + n) (PGROUNDDOWN srcva + PGSIZE) (len - n)
                   (t\<lparr>mem := memmove dst (pa0 + (srcva - PGROUNDDOWN srcva)) (ucast n) (mem t)\<rparr>))
            | Panic msg \<Rightarrow> Panic msg | Spin t \<Rightarrow> Spin t | Sleep t \<Rightarrow> Sleep t)
      else Ok 0 s)"
  by pat_completeness auto
termination
  by (relation "measure (\<lambda>(pt, dst, srcva, len, s). unat len)") (auto simp: chunk_len_decreases)

declare copyout.simps [simp del] copyin.simps [simp del]

text \<open>The inner loop of \<open>copyinstr\<close>: whether a NUL was found, and the moved \<open>max\<close> and \<open>dst\<close>.\<close>

fun copyinstr_chunk :: "nat \<Rightarrow> u64 \<Rightarrow> u64 \<Rightarrow> u64 \<Rightarrow> memory \<Rightarrow> bool \<times> u64 \<times> u64 \<times> memory" where
  "copyinstr_chunk 0 mx p dst m = (False, mx, dst, m)"
| "copyinstr_chunk (Suc n) mx p dst m =
     (if m p = 0 then (True, mx, dst, m(dst := 0))
      else copyinstr_chunk n (mx - 1) (p + 1) (dst + 1) (m(dst := m p)))"

lemma copyinstr_chunk_max:
  "copyinstr_chunk n mx p dst m = (False, mx', dst', m') \<Longrightarrow> mx' = mx - of_nat n"
proof (induction n arbitrary: mx p dst m)
  case (Suc n)
  then have "copyinstr_chunk n (mx - 1) (p + 1) (dst + 1) (m(dst := m p)) = (False, mx', dst', m')"
    by (simp split: if_splits)
  from Suc.IH [OF this] show ?case by simp
qed simp

function copyinstr :: "u64 \<Rightarrow> u64 \<Rightarrow> u64 \<Rightarrow> u64 \<Rightarrow> ('x kmachine_scheme, int) kop" where
  "copyinstr pt dst srcva mx s =
     (if mx > 0
      then (case walkaddr pt (PGROUNDDOWN srcva) s of
              Ok pa0 t \<Rightarrow>
                if pa0 = 0 then Ok (- 1) t
                else (case copyinstr_chunk (unat (chunk_len srcva mx)) mx
                             (pa0 + (srcva - PGROUNDDOWN srcva)) dst (mem t) of
                        (got_null, mx', dst', m') \<Rightarrow>
                          if got_null then Ok 0 (t\<lparr>mem := m'\<rparr>)
                          else copyinstr pt dst' (PGROUNDDOWN srcva + PGSIZE) mx' (t\<lparr>mem := m'\<rparr>))
            | Panic msg \<Rightarrow> Panic msg | Spin t \<Rightarrow> Spin t | Sleep t \<Rightarrow> Sleep t)
      else Ok (- 1) s)"
  by pat_completeness auto
termination
  by (relation "measure (\<lambda>(pt, dst, srcva, mx, s). unat mx)")
     (auto simp: chunk_len_decreases dest: copyinstr_chunk_max copyinstr_chunk_max [OF sym])

declare copyinstr.simps [simp del]

definition either_copyout :: "bool \<Rightarrow> u64 \<Rightarrow> u64 \<Rightarrow> u64 \<Rightarrow> ('x kproc_scheme, int) kop" where
  "either_copyout user_dst dst src len =
     kbind myproc (\<lambda>mp.
     if user_dst
     then kbind (deref mp) (\<lambda>p. kbind (get_proc p) (\<lambda>q. copyout (pagetable q) dst src len))
     else kthen (upd_mem (memmove dst src (ucast len))) (ret 0))"

definition either_copyin :: "u64 \<Rightarrow> bool \<Rightarrow> u64 \<Rightarrow> u64 \<Rightarrow> ('x kproc_scheme, int) kop" where
  "either_copyin dst user_src src len =
     kbind myproc (\<lambda>mp.
     if user_src
     then kbind (deref mp) (\<lambda>p. kbind (get_proc p) (\<lambda>q. copyin (pagetable q) dst src len))
     else kthen (upd_mem (memmove dst src (ucast len))) (ret 0))"

text \<open>
  The same two loops when the kernel side is a local variable or a disk buffer, which are not part
  of \<open>mem\<close>: \<open>copyin_local\<close> returns the C result and the bytes copied so far, \<open>copyout_local\<close> takes
  the bytes to be copied.
\<close>

definition load_bytes :: "memory \<Rightarrow> u64 \<Rightarrow> nat \<Rightarrow> u8 list" where
  "load_bytes m a n = map (\<lambda>i. m (a + of_nat i)) [0..<n]"

definition store_bytes :: "u64 \<Rightarrow> u8 list \<Rightarrow> memory \<Rightarrow> memory" where
  "store_bytes a bs m = (\<lambda>x. if in_range a (length bs) x then bs ! unat (x - a) else m x)"

function copyin_local :: "u64 \<Rightarrow> u64 \<Rightarrow> u64 \<Rightarrow> u8 list \<Rightarrow> ('x kproc_scheme, int \<times> u8 list) kop" where
  "copyin_local pt srcva len bs s =
     (if len > 0
      then (case copyin_page pt (PGROUNDDOWN srcva) s of
              Ok None t \<Rightarrow> Ok (- 1, bs) t
            | Ok (Some pa0) t \<Rightarrow>
                (let n = chunk_len srcva len in
                 copyin_local pt (PGROUNDDOWN srcva + PGSIZE) (len - n)
                   (bs @ load_bytes (mem t) (pa0 + (srcva - PGROUNDDOWN srcva)) (unat n)) t)
            | Panic msg \<Rightarrow> Panic msg | Spin t \<Rightarrow> Spin t | Sleep t \<Rightarrow> Sleep t)
      else Ok (0, bs) s)"
  by pat_completeness auto
termination
  by (relation "measure (\<lambda>(pt, srcva, len, bs, s). unat len)") (auto simp: chunk_len_decreases)

function copyout_local :: "u64 \<Rightarrow> u64 \<Rightarrow> u8 list \<Rightarrow> ('x kproc_scheme, int) kop" where
  "copyout_local pt dstva bs s =
     (if bs \<noteq> []
      then (case copyout_page pt (PGROUNDDOWN dstva) s of
              Ok None t \<Rightarrow> Ok (- 1) t
            | Ok (Some pa0) t \<Rightarrow>
                (let n = 4096 - unat dstva mod 4096 in
                 copyout_local pt (PGROUNDDOWN dstva + PGSIZE) (drop n bs)
                   (t\<lparr>mem := store_bytes (pa0 + (dstva - PGROUNDDOWN dstva)) (take n bs) (mem t)\<rparr>))
            | Panic msg \<Rightarrow> Panic msg | Spin t \<Rightarrow> Spin t | Sleep t \<Rightarrow> Sleep t)
      else Ok 0 s)"
  by pat_completeness auto
termination
proof (relation "measure (\<lambda>(pt, dstva, bs, s). length bs)")
  fix pt dstva :: u64 and bs :: "u8 list" and s u :: "'x kproc_scheme" and n
  assume ne: "bs \<noteq> []" and n: "n = 4096 - unat dstva mod 4096"
  have "0 < n" unfolding n by simp
  then have "length (drop n bs) < length bs" using ne by simp
  then show "((pt, PGROUNDDOWN dstva + PGSIZE, drop n bs, u), pt, dstva, bs, s)
      \<in> measure (\<lambda>(pt, dstva, bs, s). length bs)" by (simp only: in_measure prod.case)
qed simp

declare copyin_local.simps [simp del] copyout_local.simps [simp del]

section \<open>Page tables as trees\<close>

text \<open>
  \<open>node m t p\<close> is the table page reached from the table \<open>t\<close> by following the valid entries with
  the indices \<open>p\<close>; \<open>leaf m pt va\<close> is the level-0 entry for \<open>va\<close>, 0 when a table is missing.
\<close>

definition pte_valid :: "u64 \<Rightarrow> bool" where
  "pte_valid v \<longleftrightarrow> v AND PTE_V \<noteq> 0"

fun node :: "memory \<Rightarrow> u64 \<Rightarrow> u64 list \<Rightarrow> u64 option" where
  "node m t [] = Some t"
| "node m t (i # is) =
     (if pte_valid (load64 m (pte_addr t i)) then node m (PTE2PA (load64 m (pte_addr t i))) is else None)"

definition upper :: "u64 \<Rightarrow> u64 list" where
  "upper va = [PX 2 va, PX 1 va]"

definition leaf :: "memory \<Rightarrow> u64 \<Rightarrow> u64 \<Rightarrow> u64" where
  "leaf m pt va = (case node m pt (upper va) of None \<Rightarrow> 0 | Some t \<Rightarrow> load64 m (pte_addr t (PX 0 va)))"

definition tpath :: "u64 list \<Rightarrow> bool" where
  "tpath p \<longleftrightarrow> length p \<le> 2 \<and> (\<forall>i \<in> set p. unat i < 512)"

definition tree_wf :: "memory \<Rightarrow> u64 \<Rightarrow> bool" where
  "tree_wf m pt \<longleftrightarrow>
     (\<forall>p t. tpath p \<and> node m pt p = Some t \<longrightarrow> page_aligned t) \<and>
     (\<forall>p q t. tpath p \<and> tpath q \<and> node m pt p = Some t \<and> node m pt q = Some t \<longrightarrow> p = q)"

definition tables :: "memory \<Rightarrow> u64 \<Rightarrow> u64 set" where
  "tables m pt = {t. \<exists>p. tpath p \<and> node m pt p = Some t}"

lemma node_append: "node m t (p @ q) = (case node m t p of None \<Rightarrow> None | Some u \<Rightarrow> node m u q)"
  by (induction p arbitrary: t) (simp_all split: option.split)

lemma node_snoc:
  "node m t (p @ [i]) = (case node m t p of None \<Rightarrow> None
     | Some u \<Rightarrow> if pte_valid (load64 m (pte_addr u i)) then Some (PTE2PA (load64 m (pte_addr u i))) else None)"
  by (simp add: node_append split: option.split)

lemma tpath_simps [simp]: "tpath []" "tpath [PX l va]" "tpath (upper va)"
  using PX_less by (simp_all add: tpath_def upper_def)

lemma length_upper [simp]: "length (upper va) = 2"
  by (simp add: upper_def)

lemma upper_eq: "upper va = upper vb \<longleftrightarrow> PX 2 va = PX 2 vb \<and> PX 1 va = PX 1 vb"
  by (simp add: upper_def)

lemma tpath_snocD: "tpath (p @ [i]) \<Longrightarrow> tpath p \<and> unat i < 512 \<and> length p < 2"
  by (auto simp: tpath_def)

lemma page_room: "page_aligned t \<Longrightarrow> unat t + 4096 \<le> 2 ^ 64"
proof -
  assume "page_aligned t"
  then obtain k where k: "unat t = 4096 * k" by (auto simp: page_aligned_def)
  then have "k < 4503599627370496" using unat64_less [of t] by simp
  then show ?thesis using k by simp
qed

lemma unat_pte_addr:
  assumes "page_aligned t" "unat i < 512" shows "unat (pte_addr t i) = unat t + 8 * unat i"
proof -
  have "8 * i = of_nat (8 * unat i)" by simp
  then have "pte_addr t i = t + of_nat (8 * unat i)" by (simp only: pte_addr_def)
  then show ?thesis using unat_offset_bound [of t "8 * unat i"] page_room [OF assms(1)] assms(2) by simp
qed

lemma pte_addr_aligned: "page_aligned t \<Longrightarrow> unat i < 512 \<Longrightarrow> aligned8 (pte_addr t i)"
proof -
  assume a: "page_aligned t" "unat i < 512"
  then obtain k where "unat t = 4096 * k" by (auto simp: page_aligned_def)
  then have "unat (pte_addr t i) = 8 * (512 * k + unat i)" using unat_pte_addr [OF a] by simp
  then show ?thesis by (simp add: aligned8_def)
qed

lemma pte_addr_page: "page_aligned t \<Longrightarrow> unat i < 512 \<Longrightarrow> in_range (pte_addr t i) 8 a \<Longrightarrow> in_page t a"
proof -
  assume t: "page_aligned t" and i: "unat i < 512" and "in_range (pte_addr t i) 8 a"
  then obtain k where k: "k < 8" "a = pte_addr t i + of_nat k" by (auto simp: in_range_iff)
  have "a = t + of_nat (8 * unat i + k)" using k(2) by (simp add: pte_addr_def)
  moreover have "8 * unat i + k < 4096" using i k(1) by linarith
  ultimately show "in_page t a"
    unfolding in_page_def by (subst in_range_iff) auto
qed

lemma pte_addr_inj:
  assumes "page_aligned t" "page_aligned u" "unat i < 512" "unat j < 512" "pte_addr t i = pte_addr u j"
  shows "t = u \<and> i = j"
proof -
  obtain a b where ab: "unat t = 4096 * a" "unat u = 4096 * b"
    using assms(1,2) unfolding page_aligned_def by (meson dvdE mod_eq_0_iff_dvd)
  have "4096 * a + 8 * unat i = 4096 * b + 8 * unat j"
    using unat_pte_addr [OF assms(1,3)] unat_pte_addr [OF assms(2,4)] assms(5) ab by simp
  moreover from this have "a = b" using assms(3,4) by linarith
  ultimately have "a = b" "unat i = unat j" by simp_all
  then show ?thesis using ab by (simp add: word_unat_eq_iff)
qed

lemma pte_addr_nonzero: "page_aligned t \<Longrightarrow> t \<noteq> 0 \<Longrightarrow> unat i < 512 \<Longrightarrow> pte_addr t i \<noteq> 0"
  using unat_pte_addr [of t i] by (auto simp: word_unat_eq_iff)

lemma load_other_entry:
  assumes "page_aligned t" "page_aligned u" "unat i < 512" "unat j < 512" "\<not> (t = u \<and> i = j)"
  shows "load64 (store64 (pte_addr t i) v m) (pte_addr u j) = load64 m (pte_addr u j)"
  by (rule load64_store64_other) (use assms pte_addr_aligned pte_addr_inj in blast)+

text \<open>Changing one entry of one table leaves every node alone that is not below that entry.\<close>

lemma node_store:
  assumes wf: "tree_wf m pt" and t: "tpath p" "node m pt p = Some t" "unat i < 512"
    and q: "tpath q" "\<And>r. q \<noteq> p @ i # r"
  shows "node (store64 (pte_addr t i) v m) pt q = node m pt q"
  using q
proof (induction q rule: rev_induct)
  case Nil
  then show ?case by simp
next
  case (snoc j q)
  have q: "tpath q" "unat j < 512" using tpath_snocD snoc.prems(1) by blast+
  have IH: "node (store64 (pte_addr t i) v m) pt q = node m pt q"
    using snoc.IH [OF q(1)] snoc.prems(2) by (metis append_Cons append_assoc)
  show ?case
  proof (cases "node m pt q")
    case None
    then show ?thesis using IH by (simp add: node_snoc)
  next
    case (Some u)
    have al: "page_aligned t" "page_aligned u" using wf t q Some by (auto simp: tree_wf_def)
    have "\<not> (t = u \<and> i = j)"
      using wf t q Some snoc.prems(2) [of "[]"] unfolding tree_wf_def by metis
    then have "load64 (store64 (pte_addr t i) v m) (pte_addr u j) = load64 m (pte_addr u j)"
      using load_other_entry [OF al t(3) q(2)] by simp
    then show ?thesis using IH Some by (simp add: node_snoc)
  qed
qed

lemma leaf_node: "node m pt (upper va) = Some t \<Longrightarrow> leaf m pt va = load64 m (pte_addr t (PX 0 va))"
  by (simp add: leaf_def)

lemma leaf_none: "node m pt (upper va) = None \<Longrightarrow> leaf m pt va = 0"
  by (simp add: leaf_def)

subsection \<open>Writing a leaf entry\<close>

lemma tree_wf_cong:
  "tree_wf m pt \<Longrightarrow> (\<And>q. tpath q \<Longrightarrow> node m' pt q = node m pt q) \<Longrightarrow> tree_wf m' pt"
  unfolding tree_wf_def by metis

lemma store_leaf_nodes:
  assumes "tree_wf m pt" "node m pt (upper va) = Some t" "tpath q"
  shows "node (store64 (pte_addr t (PX 0 va)) v m) pt q = node m pt q"
proof (rule node_store [OF assms(1) _ assms(2) PX_less assms(3)])
  show "q \<noteq> (upper va) @ PX 0 va # r" for r using assms(3) by (auto simp: tpath_def)
qed simp

lemma leaf_store:
  assumes wf: "tree_wf m pt" and t: "node m pt (upper va) = Some t"
  shows "leaf (store64 (pte_addr t (PX 0 va)) v m) pt vb =
     (if PX 2 vb = PX 2 va \<and> PX 1 vb = PX 1 va \<and> PX 0 vb = PX 0 va then v else leaf m pt vb)"
proof -
  let ?m = "store64 (pte_addr t (PX 0 va)) v m"
  have same: "node ?m pt (upper vb) = node m pt (upper vb)"
    by (rule store_leaf_nodes [OF wf t]) simp
  show ?thesis
  proof (cases "node m pt (upper vb)")
    case None
    then have "\<not> (PX 2 vb = PX 2 va \<and> PX 1 vb = PX 1 va)" using t by (metis option.distinct(1) upper_eq)
    then show ?thesis using None same by (auto simp: leaf_none)
  next
    case (Some u)
    have al: "page_aligned t" "page_aligned u"
      using wf t Some tpath_simps(3) unfolding tree_wf_def by blast+
    have "t = u \<longleftrightarrow> upper vb = upper va"
      using wf t Some tpath_simps(3) unfolding tree_wf_def by (metis option.inject)
    then have eq: "t = u \<longleftrightarrow> PX 2 vb = PX 2 va \<and> PX 1 vb = PX 1 va" by (simp add: upper_eq)
    show ?thesis
    proof (cases "t = u \<and> PX 0 va = PX 0 vb")
      case True
      then show ?thesis using eq Some same leaf_node [of ?m pt vb u] by simp
    next
      case False
      then have "load64 ?m (pte_addr u (PX 0 vb)) = load64 m (pte_addr u (PX 0 vb))"
        by (intro load_other_entry al PX_less)
      then have "leaf ?m pt vb = leaf m pt vb"
        using Some same by (simp add: leaf_node)
      then show ?thesis using False eq by auto
    qed
  qed
qed

lemma same_page_indices:
  assumes "va < MAXVA" "vb < MAXVA"
  shows "PX 2 vb = PX 2 va \<and> PX 1 vb = PX 1 va \<and> PX 0 vb = PX 0 va \<longleftrightarrow> PGROUNDDOWN vb = PGROUNDDOWN va"
proof
  have "bit (PGROUNDDOWN x) n \<longleftrightarrow> 12 \<le> n \<and> bit x n" for x n
    unfolding PGROUNDDOWN_def PGSIZE_minus_1 by (auto simp: bit_simps dest: bit_imp_le_length)
  then have PX_round: "PX l (PGROUNDDOWN x) = PX l x" for l x
    by (intro bit_word_eqI) (auto simp: bit_PX PXSHIFT_def)
  show "PGROUNDDOWN vb = PGROUNDDOWN va \<Longrightarrow> PX 2 vb = PX 2 va \<and> PX 1 vb = PX 1 va \<and> PX 0 vb = PX 0 va"
    by (metis PX_round)
  assume eq: "PX 2 vb = PX 2 va \<and> PX 1 vb = PX 1 va \<and> PX 0 vb = PX 0 va"
  have lt: "PGROUNDDOWN x < MAXVA" if "x < MAXVA" for x
    using that PGROUNDDOWN_le [of x] by (rule le_less_trans [rotated])
  have px: "PX l (PGROUNDDOWN vb) = PX l (PGROUNDDOWN va)" if "l \<le> 2" for l
  proof -
    have "l = 0 \<or> l = 1 \<or> l = 2" using that by linarith
    then show ?thesis using eq by (auto simp: PX_round)
  qed
  show "PGROUNDDOWN vb = PGROUNDDOWN va"
    by (rule PX_inj [OF lt [OF assms(2)] lt [OF assms(1)] page_aligned_PGROUNDDOWN page_aligned_PGROUNDDOWN px])
qed

subsection \<open>Linking a new table\<close>

definition zero_page :: "memory \<Rightarrow> u64 \<Rightarrow> bool" where
  "zero_page m t \<longleftrightarrow> (\<forall>a. in_page t a \<longrightarrow> m a = 0)"

lemma load64_zero_page:
  "zero_page m t \<Longrightarrow> page_aligned t \<Longrightarrow> unat i < 512 \<Longrightarrow> load64 m (pte_addr t i) = 0"
proof -
  assume z: "zero_page m t" "page_aligned t" "unat i < 512"
  then have "load64 m (pte_addr t i) = load64 (\<lambda>_. 0) (pte_addr t i)"
    by (intro load64_cong) (auto simp: zero_page_def dest: pte_addr_page)
  also have "\<dots> = 0" by (rule bit_word_eqI) (simp add: bit_load64)
  finally show ?thesis .
qed

lemma node_zero_page:
  assumes "zero_page m t" "page_aligned t" "tpath (i # is)"
  shows "node m t (i # is) = None"
  using load64_zero_page [OF assms(1,2), of i] assms(3) by (simp add: tpath_def pte_valid_def)

lemma valid_new_entry: "pte_pa pg \<Longrightarrow> pte_valid (PA2PTE pg OR PTE_V) \<and> PTE2PA (PA2PTE pg OR PTE_V) = pg"
proof -
  assume "pte_pa pg"
  then have "PTE2PA (PA2PTE pg OR PTE_V) = pg" by (rule PTE2PA_PA2PTE) (simp add: PTE_V_def)
  moreover have "bit ((PA2PTE pg OR PTE_V) AND PTE_V) 0" by (simp add: PTE_V_def bit_simps)
  ultimately show ?thesis by (auto simp: pte_valid_def)
qed

lemma node_link:
  assumes wf: "tree_wf m pt" and p: "tpath p" "length p < 2" "node m pt p = Some t" "unat i < 512"
    and old: "\<not> pte_valid (load64 m (pte_addr t i))"
    and pg: "pte_pa pg" "zero_page m pg" "pg \<notin> tables m pt" and q: "tpath q"
  defines "m' \<equiv> store64 (pte_addr t i) (PA2PTE pg OR PTE_V) m"
  shows "node m' pt q = (if q = p @ [i] then Some pg else node m pt q)"
proof -
  have al: "page_aligned t" "page_aligned pg" using wf p pg by (auto simp: tree_wf_def pte_pa_def)
  have "pg \<noteq> t" using p pg(3) by (auto simp: tables_def)
  have p': "node m' pt p = Some t"
    using node_store [OF wf p(1,3,4) p(1)] p(3) by (simp add: m'_def)
  have new: "node m' pt (p @ [i]) = Some pg"
    using p' valid_new_entry [OF pg(1)] by (simp add: node_snoc m'_def)
  have "m' a = m a" if "in_page pg a" for a
  proof -
    have "\<not> in_page t a" using that pages_disjoint [OF al \<open>pg \<noteq> t\<close> [symmetric]] by blast
    then show ?thesis using pte_addr_page [OF al(1) p(4)] by (auto simp: m'_def store64_def)
  qed
  then have zero: "zero_page m' pg" using pg(2) by (simp add: zero_page_def)
  show ?thesis
  proof (cases "\<exists>r. q = p @ i # r")
    case False
    then show ?thesis using node_store [OF wf p(1,3,4) q] by (auto simp: m'_def)
  next
    case True
    then obtain r where r: "q = (p @ [i]) @ r" by auto
    have none: "node m pt (p @ [i]) = None" using p(3) old by (simp add: node_snoc)
    show ?thesis
    proof (cases r)
      case Nil
      then show ?thesis using r new by simp
    next
      case (Cons j k)
      have "tpath (j # k)" using q r Cons by (auto simp: tpath_def)
      then have "node m' pg (j # k) = None" using node_zero_page [OF zero al(2)] by blast
      then have "node m' pt q = None" using r new Cons by (simp only: node_append) simp
      moreover have "node m pt q = None" using r none by (simp only: node_append) simp
      ultimately show ?thesis using r Cons by simp
    qed
  qed
qed

section \<open>Page tables in the kernel's memory\<close>

text \<open>
  \<open>only_mem s u\<close>: \<open>u\<close> differs from \<open>s\<close> in memory and free list only (up to the recording of
  \<open>intena\<close>). \<open>pt_ok\<close>: the tree is well formed and its table pages are allocated pages.
\<close>

definition only_mem :: "'x kmachine_scheme \<Rightarrow> 'x kmachine_scheme \<Rightarrow> bool" where
  "only_mem s u \<longleftrightarrow> settle u = (settle s)\<lparr>mem := mem u, freelist := freelist u\<rparr>"

definition pt_ok :: "'x kmachine_scheme \<Rightarrow> u64 \<Rightarrow> bool" where
  "pt_ok s pt \<longleftrightarrow> kmem_ready s \<and> tree_wf (mem s) pt \<and>
     (\<forall>t \<in> tables (mem s) pt. kpage (kend s) t \<and> t \<notin> free_pages s)"

lemma settle_upd_mem [simp]:
  "settle (s\<lparr>mem := m\<rparr>) = (settle s)\<lparr>mem := m\<rparr>"
  "settle (s\<lparr>freelist := f\<rparr>) = (settle s)\<lparr>freelist := f\<rparr>"
  by (cases s; simp add: settle_def)+

lemma only_memI: "settle u = (settle s)\<lparr>mem := m, freelist := f\<rparr> \<Longrightarrow> only_mem s u"
proof -
  assume eq: "settle u = (settle s)\<lparr>mem := m, freelist := f\<rparr>"
  have "mem u = m" "freelist u = f" using arg_cong [OF eq, of mem] arg_cong [OF eq, of freelist] by simp_all
  then show ?thesis using eq by (simp add: only_mem_def)
qed

lemma only_mem_refl [simp]: "only_mem s s"
  by (cases s) (simp add: only_mem_def settle_def)

lemma only_mem_trans: "only_mem s t \<Longrightarrow> only_mem t u \<Longrightarrow> only_mem s u"
  by (simp add: only_mem_def)

lemma only_mem_upd [simp]: "only_mem s (s\<lparr>mem := m\<rparr>)" "only_mem s u \<Longrightarrow> only_mem s (u\<lparr>mem := m\<rparr>)"
  by (rule only_memI [where m = m and f = "freelist s"], cases s, simp add: settle_def)
     (simp add: only_mem_def)

lemma only_mem_fields:
  assumes "only_mem s u"
  shows "tp u = tp s" "sstatus u = sstatus s" "locks u = locks s" "kend u = kend s"
    "cpus (settle u) = cpus (settle s)" "kmachine.more u = kmachine.more s"
proof -
  have e: "settle u = (settle s)\<lparr>mem := mem u, freelist := freelist u\<rparr>" using assms by (simp add: only_mem_def)
  have more: "kmachine.more (settle x) = kmachine.more x" for x :: "'a kmachine_scheme"
    by (simp add: settle_def)
  show "tp u = tp s" using arg_cong [OF e, of tp] by simp
  show "sstatus u = sstatus s" using arg_cong [OF e, of sstatus] by simp
  show "locks u = locks s" using arg_cong [OF e, of locks] by simp
  show "kend u = kend s" using arg_cong [OF e, of kend] by simp
  show "cpus (settle u) = cpus (settle s)" using arg_cong [OF e, of cpus] by simp
  show "kmachine.more u = kmachine.more s" using arg_cong [OF e, of kmachine.more] by (simp add: more)
qed

lemma kalloc_only_mem: "kmem_ready s \<Longrightarrow> kalloc s = Ok p t \<Longrightarrow> only_mem s t"
proof (elim kmem_ready_obtain)
  assume "kalloc s = Ok p t" "lock_free L_kmem (locks s)" "irq_ok (tp s) (sstatus s) (cpus s)"
  then show "only_mem s t"
    using kalloc_effect [of s] by (auto split: if_splits intro!: only_memI [where m = "mem t" and f = "freelist t"])
qed

lemma kfree_only_mem: "kmem_ready s \<Longrightarrow> kfree p s = Ok () t \<Longrightarrow> only_mem s t"
proof (elim kmem_ready_obtain)
  assume k: "kfree p s = Ok () t" "lock_free L_kmem (locks s)" "irq_ok (tp s) (sstatus s) (cpus s)"
  then have "kpage (kend s) p" using kfree_panics [of s p] by fastforce
  then show "only_mem s t"
    using kfree_effect [OF k(2,3)] k(1) by (auto intro!: only_memI [where m = "mem t" and f = "freelist t"])
qed

text \<open>Writes outside the free pages do not disturb the allocator.\<close>

lemma kmem_ready_write:
  assumes r: "kmem_ready s" and same: "\<And>a. PGROUNDDOWN a \<in> free_pages s \<Longrightarrow> m a = mem s a"
  shows "kmem_ready (s\<lparr>mem := m\<rparr>) \<and> free_pages (s\<lparr>mem := m\<rparr>) = free_pages s"
proof -
  obtain ps where inv: "kmem_inv s ps" "free_pages s = set ps" "lock_free L_kmem (locks s)"
    "irq_ok (tp s) (sstatus s) (cpus s)"
    using r by (elim kmem_ready_obtain)
  have "m a = mem s a" if "q \<in> set ps" "in_range q 8 a" for q a
  proof -
    have "page_aligned q" using inv(1) that(1) by (auto simp: kmem_inv_def kpage_def)
    then have "PGROUNDDOWN a = q" using in_range_8_page [OF that(2)] by (simp add: in_page_offset)
    then show ?thesis using same inv(2) that(1) by simp
  qed
  then have "chain m (freelist s) ps = chain (mem s) (freelist s) ps" by (rule chain_cong)
  then have i: "kmem_inv (s\<lparr>mem := m\<rparr>) ps" using inv(1) by (simp add: kmem_inv_def)
  then show ?thesis using kmem_readyI [OF i] inv free_pages_eq [OF i] by simp
qed

lemma kmem_ready_settle [simp]: "kmem_ready (settle s) = kmem_ready s"
  by (simp add: kmem_ready_def)

lemma free_pages_settle [simp]: "free_pages (settle s) = free_pages s"
  by (simp add: free_pages_def)

lemma kpage_pte_pa: "kpage e p \<Longrightarrow> pte_pa p"
proof -
  assume k: "kpage e p"
  then have "unat p < unat PHYSTOP" by (simp add: kpage_def word_less_nat_alt)
  also have "unat PHYSTOP < 2 ^ 56" by (simp add: PHYSTOP_def KERNBASE_def)
  finally show ?thesis using k by (simp add: pte_pa_def kpage_def)
qed

lemma pt_ok_node:
  assumes "pt_ok s pt" "tpath p" "node (mem s) pt p = Some t"
  shows "page_aligned t" "t \<notin> free_pages s" "kpage (kend s) t" "t \<noteq> 0" "t \<in> tables (mem s) pt"
proof -
  show t: "t \<in> tables (mem s) pt" using assms(2,3) by (auto simp: tables_def)
  show k: "kpage (kend s) t" "t \<notin> free_pages s" using t assms(1) by (auto simp: pt_ok_def)
  show "page_aligned t" using k by (simp add: kpage_def)
  show "t \<noteq> 0" using k assms(1) kmem.page_nonzero by (auto simp: pt_ok_def)
qed

text \<open>\<open>walk\<close> without allocation computes the tree.\<close>

lemma walk_lookup:
  assumes "va < MAXVA"
  shows "walk pt va False s =
    Ok (case node (mem s) pt (upper va) of None \<Rightarrow> 0 | Some t \<Rightarrow> pte_addr t (PX 0 va)) s"
proof -
  have "\<not> MAXVA \<le> va" using assms by simp
  then show ?thesis by (simp add: walk_def upper_def numeral_2_eq_2 pte_valid_def)
qed

lemma walk_lookup_ok:
  assumes "pt_ok s pt" "va < MAXVA"
  shows "walk pt va False s = Ok pte t \<Longrightarrow> t = s \<and> (pte = 0 \<longrightarrow> leaf (mem s) pt va = 0) \<and>
     (pte \<noteq> 0 \<longrightarrow> load64 (mem s) pte = leaf (mem s) pt va)"
proof (cases "node (mem s) pt (upper va)")
  case None
  then show "walk pt va False s = Ok pte t \<Longrightarrow> ?thesis"
    using walk_lookup [OF assms(2), of pt s] by (simp add: leaf_none)
next
  case (Some u)
  then have "pte_addr u (PX 0 va) \<noteq> 0"
    using pt_ok_node [OF assms(1) _ Some] PX_less by (intro pte_addr_nonzero) auto
  then show "walk pt va False s = Ok pte t \<Longrightarrow> ?thesis"
    using walk_lookup [OF assms(2), of pt s] Some by (auto simp: leaf_node)
qed

subsection \<open>walk with allocation\<close>

text \<open>
  What \<open>walk\<close> may do while it adds tables: the mapping stays the same, the new table pages come
  from the free pages, and no other page is touched.
\<close>

definition tables_grow :: "u64 \<Rightarrow> 'x kmachine_scheme \<Rightarrow> 'x kmachine_scheme \<Rightarrow> bool" where
  "tables_grow pt s v \<longleftrightarrow> only_mem s v \<and> pt_ok v pt \<and> (\<forall>va. leaf (mem v) pt va = leaf (mem s) pt va) \<and>
     free_pages v \<subseteq> free_pages s \<and> tables (mem s) pt \<subseteq> tables (mem v) pt \<and>
     tables (mem v) pt \<subseteq> tables (mem s) pt \<union> free_pages s \<and>
     (\<forall>a. PGROUNDDOWN a \<notin> free_pages s \<union> tables (mem s) pt \<longrightarrow> mem v a = mem s a)"

lemma tables_grow_refl: "pt_ok s pt \<Longrightarrow> tables_grow pt s s"
  by (simp add: tables_grow_def)

lemma tables_grow_trans:
  assumes "tables_grow pt s t" "tables_grow pt t u" shows "tables_grow pt s u"
proof -
  have "mem u a = mem s a" if "PGROUNDDOWN a \<notin> free_pages s \<union> tables (mem s) pt" for a
  proof -
    have "PGROUNDDOWN a \<notin> free_pages t \<union> tables (mem t) pt"
      using assms(1) that unfolding tables_grow_def by blast
    then show ?thesis using assms that unfolding tables_grow_def by metis
  qed
  moreover have "tables (mem u) pt \<subseteq> tables (mem s) pt \<union> free_pages s"
    using assms unfolding tables_grow_def by blast
  moreover have "only_mem s u"
    using assms only_mem_trans [of s t u] by (simp add: tables_grow_def)
  ultimately show ?thesis
    using assms unfolding tables_grow_def by (metis subset_trans)
qed

lemma node_other_page:
  assumes wf: "tree_wf m pt" and pg: "page_aligned pg" "pg \<notin> tables m pt"
    and same: "\<And>a. \<not> in_page pg a \<Longrightarrow> m' a = m a"
  shows "t \<in> tables m pt \<Longrightarrow> unat i < 512 \<Longrightarrow> load64 m' (pte_addr t i) = load64 m (pte_addr t i)"
    and "tpath q \<Longrightarrow> node m' pt q = node m pt q"
proof -
  have entry: "load64 m' (pte_addr t i) = load64 m (pte_addr t i)" if "t \<in> tables m pt" "unat i < 512" for t i
  proof (rule load64_cong)
    fix a assume "in_range (pte_addr t i) 8 a"
    moreover have al: "page_aligned t" using that(1) wf by (auto simp: tables_def tree_wf_def)
    ultimately have "in_page t a" using pte_addr_page that(2) by blast
    then have "\<not> in_page pg a" using pages_disjoint [OF al pg(1)] that(1) pg(2) by blast
    then show "m' a = m a" by (rule same)
  qed
  then show "t \<in> tables m pt \<Longrightarrow> unat i < 512 \<Longrightarrow> load64 m' (pte_addr t i) = load64 m (pte_addr t i)" .
  show "tpath q \<Longrightarrow> node m' pt q = node m pt q"
  proof (induction q rule: rev_induct)
    case (snoc j q)
    then have q: "tpath q" "unat j < 512" using tpath_snocD by blast+
    then have "load64 m' (pte_addr u j) = load64 m (pte_addr u j)" if "node m pt q = Some u" for u
      using that by (intro entry) (auto simp: tables_def)
    then show ?case using snoc.IH [OF q(1)] by (simp add: node_snoc split: option.split)
  qed simp
qed

lemma tables_cong: "(\<And>q. tpath q \<Longrightarrow> node m' pt q = node m pt q) \<Longrightarrow> tables m' pt = tables m pt"
  by (auto simp: tables_def)

lemma leaf_cong:
  assumes "\<And>q. tpath q \<Longrightarrow> node m' pt q = node m pt q"
    and "\<And>t i. t \<in> tables m pt \<Longrightarrow> unat i < 512 \<Longrightarrow> load64 m' (pte_addr t i) = load64 m (pte_addr t i)"
  shows "leaf m' pt va = leaf m pt va"
proof (cases "node m pt (upper va)")
  case (Some t)
  then have "t \<in> tables m pt" by (auto simp: tables_def intro: exI [of _ "upper va"])
  then show ?thesis using Some assms PX_less by (simp add: leaf_node)
qed (simp add: leaf_none assms(1))

lemma tree_wf_link:
  assumes wf: "tree_wf m pt" and pg: "page_aligned pg" "pg \<notin> tables m pt" and p: "tpath p"
    and node: "\<And>q. tpath q \<Longrightarrow> node m' pt q = (if q = p then Some pg else node m pt q)"
  shows "tree_wf m' pt" "tables m' pt \<subseteq> insert pg (tables m pt)"
proof -
  have in_tab: "t \<in> tables m pt" if "tpath q" "node m pt q = Some t" for q t
    using that by (auto simp: tables_def)
  show "tree_wf m' pt"
    unfolding tree_wf_def
  proof (intro conjI allI impI)
    fix q t assume "tpath q \<and> node m' pt q = Some t"
    then show "page_aligned t" using node pg(1) wf by (auto simp: tree_wf_def split: if_splits)
  next
    fix q r t assume "tpath q \<and> tpath r \<and> node m' pt q = Some t \<and> node m' pt r = Some t"
    then show "q = r"
      using node in_tab pg(2) wf unfolding tree_wf_def by (metis option.inject)
  qed
  show "tables m' pt \<subseteq> insert pg (tables m pt)"
    using node by (auto simp: tables_def split: if_splits)
qed

lemma link_table:
  assumes ok: "pt_ok s pt" and p: "tpath p" "length p < 2" "node (mem s) pt p = Some t" "unat i < 512"
    and old: "\<not> pte_valid (load64 (mem s) (pte_addr t i))"
    and pg: "pg \<in> free_pages s" and u: "kmem_ready u" "only_mem s u" "free_pages u = free_pages s - {pg}"
      "\<And>a. \<not> in_page pg a \<Longrightarrow> mem u a = mem s a"
  defines "v \<equiv> u\<lparr>mem := store64 (pte_addr t i) (PA2PTE pg OR PTE_V) (memset pg 0 (ucast PGSIZE) (mem u))\<rparr>"
  shows "tables_grow pt s v" "node (mem v) pt (p @ [i]) = Some pg" "free_pages v = free_pages s - {pg}"
proof -
  let ?m1 = "memset pg 0 (ucast PGSIZE) (mem u)"
  have ready: "kmem_ready s" and wf: "tree_wf (mem s) pt" using ok by (simp_all add: pt_ok_def)
  have kpg: "kpage (kend s) pg" using kmem.avail_page [OF ready pg] .
  have al: "page_aligned pg" and pgt: "pg \<notin> tables (mem s) pt"
    using kpg pg ok by (auto simp: kpage_def pt_ok_def)
  have m1: "?m1 a = mem s a" if "\<not> in_page pg a" for a using that u(4) by (simp add: memset_page)
  have n1: "w \<in> tables (mem s) pt \<Longrightarrow> unat j < 512 \<Longrightarrow> load64 ?m1 (pte_addr w j) = load64 (mem s) (pte_addr w j)"
    "tpath q \<Longrightarrow> node ?m1 pt q = node (mem s) pt q" for w j q
    by (rule node_other_page [where m' = ?m1, OF wf al pgt]; simp add: m1)+
  have wf1: "tree_wf ?m1 pt" using tree_wf_cong [OF wf n1(2)] .
  have tab1: "tables ?m1 pt = tables (mem s) pt" by (rule tables_cong) (rule n1(2))
  have z: "zero_page ?m1 pg" by (simp add: zero_page_def memset_page)
  have t1: "node ?m1 pt p = Some t" and t: "t \<in> tables (mem s) pt"
    using n1(2) [OF p(1)] p by (auto simp: tables_def)
  have old1: "\<not> pte_valid (load64 ?m1 (pte_addr t i))" using old n1(1) [OF t p(4)] by simp
  have pi: "tpath (p @ [i])" using p by (auto simp: tpath_def)
  have nv: "node (mem v) pt q = (if q = p @ [i] then Some pg else node ?m1 pt q)" if "tpath q" for q
    unfolding v_def
    using node_link [OF wf1 p(1,2) t1 p(4) old1 kpage_pte_pa [OF kpg] z _ that] pgt tab1 by simp
  then have nv': "node (mem v) pt q = (if q = p @ [i] then Some pg else node (mem s) pt q)" if "tpath q" for q
    using that n1(2) by simp
  note wfv = tree_wf_link [OF wf al pgt pi nv']
  show "node (mem v) pt (p @ [i]) = Some pg" using nv pi by simp
  have alt: "page_aligned t" using wf p by (auto simp: tree_wf_def)
  have mv: "mem v a = mem s a" if "PGROUNDDOWN a \<noteq> pg" "PGROUNDDOWN a \<noteq> t" for a
    using that al alt pte_addr_page [OF alt p(4), of a] m1 [of a]
    by (auto simp: v_def store64_def in_page_offset)
  have tfree: "t \<notin> free_pages s" using ok t by (auto simp: pt_ok_def)
  have "kmem_ready v \<and> free_pages v = free_pages u"
    unfolding v_def
    using u(3) tfree alt al pte_addr_page [OF alt p(4)]
    by (intro kmem_ready_write [OF u(1)])
       (auto simp: store64_def memset_page in_page_offset)
  moreover have "kend v = kend s" using only_mem_fields(4) [OF u(2)] by (simp add: v_def)
  ultimately have okv: "pt_ok v pt" and fv: "free_pages v = free_pages s - {pg}"
    using wfv ok kpg u(3) by (auto simp: pt_ok_def)
  show "free_pages v = free_pages s - {pg}" by (rule fv)
  have "leaf (mem v) pt va = leaf (mem s) pt va" for va
  proof (cases "upper va = p @ [i]")
    case True
    then have "node (mem v) pt (upper va) = Some pg" using nv' [OF pi] by simp
    moreover have "zero_page (mem v) pg"
    proof -
      have "mem v a = ?m1 a" if "in_page pg a" for a
        using that t pgt al alt pte_addr_page [OF alt p(4), of a]
        by (auto simp: v_def store64_def in_page_offset)
      then show ?thesis using z by (simp add: zero_page_def)
    qed
    ultimately have "leaf (mem v) pt va = 0" using load64_zero_page [OF _ al PX_less] by (simp add: leaf_node)
    moreover have "node (mem s) pt (upper va) = None" using True p(3) old by (simp add: node_snoc)
    ultimately show ?thesis by (simp add: leaf_none)
  next
    case False
    then have same: "node (mem v) pt (upper va) = node (mem s) pt (upper va)" using nv' by simp
    show ?thesis
    proof (cases "node (mem s) pt (upper va)")
      case (Some w)
      have w: "w \<in> tables (mem s) pt" using Some by (auto simp: tables_def intro: exI [of _ "upper va"])
      have "w \<noteq> t" using Some p wf unfolding tree_wf_def by (metis length_upper less_irrefl tpath_simps(3))
      have alw: "page_aligned w" using w wf by (auto simp: tables_def tree_wf_def)
      have "load64 (mem v) (pte_addr w (PX 0 va)) = load64 ?m1 (pte_addr w (PX 0 va))"
        unfolding v_def using load_other_entry [OF alt alw p(4) PX_less] \<open>w \<noteq> t\<close> by simp
      also have "\<dots> = load64 (mem s) (pte_addr w (PX 0 va))" using n1(1) [OF w PX_less] .
      finally show ?thesis using Some same by (simp add: leaf_node)
    qed (simp add: leaf_none same)
  qed
  moreover have "tables (mem s) pt \<subseteq> tables (mem v) pt"
  proof
    fix x assume "x \<in> tables (mem s) pt"
    then obtain q where q: "tpath q" "node (mem s) pt q = Some x" by (auto simp: tables_def)
    then have "q \<noteq> p @ [i]" using p(3) old by (auto simp: node_snoc)
    then show "x \<in> tables (mem v) pt" using q nv' by (auto simp: tables_def)
  qed
  moreover have "only_mem s v" using u(2) by (simp add: v_def)
  moreover have "mem v a = mem s a" if "PGROUNDDOWN a \<notin> free_pages s \<union> tables (mem s) pt" for a
    using that pg t by (intro mv) auto
  moreover have "free_pages v \<subseteq> free_pages s" "tables (mem v) pt \<subseteq> tables (mem s) pt \<union> free_pages s"
    using fv wfv(2) pg by auto
  ultimately show "tables_grow pt s v" unfolding tables_grow_def using okv by blast
qed

text \<open>The number of tables that are missing on the path \<open>q\<close> below the table \<open>t\<close>.\<close>

fun missing :: "memory \<Rightarrow> u64 \<Rightarrow> u64 list \<Rightarrow> nat" where
  "missing m t [] = 0"
| "missing m t (i # q) = (if pte_valid (load64 m (pte_addr t i)) then missing m (PTE2PA (load64 m (pte_addr t i))) q else Suc (length q))"

lemma missing_le: "missing m t q \<le> length q"
  by (induction q arbitrary: t) (auto simp: le_SucI)

lemma walk_loop_alloc:
  assumes "pt_ok s pt" "node (mem s) pt p = Some t" "upper va = p @ q"
    and "q = map (\<lambda>l. PX (Suc l) va) (rev [0..<n])"
  shows "\<exists>pte v. walk_loop n t va True s = Ok pte v \<and> tables_grow pt s v \<and>
    (pte \<noteq> 0 \<longrightarrow> (\<exists>u. node (mem v) pt (upper va) = Some u \<and> pte = pte_addr u (PX 0 va))) \<and>
    (pte = 0 \<longrightarrow> card (free_pages s) < missing (mem s) t q) \<and> card (free_pages s) \<le> card (free_pages v) + n"
  using assms
proof (induction n arbitrary: s t p q)
  case 0
  then have "tpath p" "node (mem s) pt p = Some t" using tpath_simps(3) [of va] by simp_all
  then have "pte_addr t (PX 0 va) \<noteq> 0"
    using pt_ok_node [OF 0(1)] by (intro pte_addr_nonzero PX_less) blast+
  with 0 show ?case by (auto simp: tables_grow_refl)
next
  case (Suc n)
  let ?i = "PX (Suc n) va"
  let ?q = "map (\<lambda>l. PX (Suc l) va) (rev [0..<n])"
  have q: "upper va = (p @ [?i]) @ ?q" using Suc.prems(3,4) by simp
  have "length (upper va) = length (p @ [?i] @ ?q)" using q by simp
  then have len: "length p < 2" by simp
  have "\<forall>i \<in> set (upper va). unat i < 512" using tpath_simps(3) [of va] by (simp add: tpath_def)
  then have p: "tpath p" using len q by (auto simp: tpath_def)
  have t: "page_aligned t" "t \<noteq> 0" "t \<notin> free_pages s"
    using pt_ok_node [OF Suc.prems(1) p Suc.prems(2)] by simp_all
  show ?case
  proof (cases "pte_valid (load64 (mem s) (pte_addr t ?i))")
    case True
    then have "node (mem s) pt (p @ [?i]) = Some (PTE2PA (load64 (mem s) (pte_addr t ?i)))"
      using Suc.prems(2) by (simp add: node_snoc)
    from Suc.IH [OF Suc.prems(1) this q refl] obtain pte v where
      "walk_loop n (PTE2PA (load64 (mem s) (pte_addr t ?i))) va True s = Ok pte v" "tables_grow pt s v"
      "pte \<noteq> 0 \<longrightarrow> (\<exists>u. node (mem v) pt (upper va) = Some u \<and> pte = pte_addr u (PX 0 va))"
      "pte = 0 \<longrightarrow> card (free_pages s) < missing (mem s) (PTE2PA (load64 (mem s) (pte_addr t ?i))) ?q" "card (free_pages s) \<le> card (free_pages v) + n"
      by blast
    then show ?thesis
      using True Suc.prems(4) by (intro exI [of _ pte] exI [of _ v]) (simp add: pte_valid_def)
  next
    case False
    then have inv: "\<not> (load64 (mem s) (pte_addr t ?i) AND PTE_V \<noteq> 0)" by (simp add: pte_valid_def)
    have ready: "kmem_ready s" using Suc.prems(1) by (simp add: pt_ok_def)
    show ?thesis
    proof (cases "free_pages s = {}")
      case True
      then have e: "kalloc s = Ok 0 (settle s)"
        using ready kalloc_effect [of s] by (auto elim!: kmem_ready_obtain simp: kmem_inv_def)
      have "tables_grow pt s (settle s)"
        using Suc.prems(1) by (simp add: tables_grow_def pt_ok_def only_mem_def)
      then show ?thesis using e inv True Suc.prems(4) by (simp add: pte_valid_def)
    next
      case False
      obtain pg u where u: "kalloc s = Ok pg u" "pg \<in> free_pages s" "free_pages u = free_pages s - {pg}"
        "kmem_ready u" "\<forall>a. \<not> in_page pg a \<longrightarrow> mem u a = mem s a"
        using kmem.alloc_page [OF ready False] by blast
      let ?v = "u\<lparr>mem := store64 (pte_addr t ?i) (PA2PTE pg OR PTE_V) (memset pg 0 (ucast PGSIZE) (mem u))\<rparr>"
      have "pg \<noteq> 0" using kmem.page_nonzero [OF ready kmem.avail_page [OF ready u(2)]] .
      note link = link_table [OF Suc.prems(1) p len Suc.prems(2) PX_less _ u(2,4) kalloc_only_mem [OF ready u(1)] u(3)]
      have v: "tables_grow pt s ?v" "node (mem ?v) pt (p @ [?i]) = Some pg" "free_pages ?v = free_pages s - {pg}"
        using link [of "Suc n" va] u(5) inv by (auto simp: pte_valid_def)
      then have card: "card (free_pages s) = Suc (card (free_pages ?v))"
        using card.remove [OF kmem.avail_finite [OF ready] u(2)] by simp
      have "pt_ok ?v pt" using v(1) by (simp add: tables_grow_def)
      from Suc.IH [OF this v(2) q refl] obtain pte w where w: "walk_loop n pg va True ?v = Ok pte w"
        "tables_grow pt ?v w"
        "pte \<noteq> 0 \<longrightarrow> (\<exists>u. node (mem w) pt (upper va) = Some u \<and> pte = pte_addr u (PX 0 va))"
        "pte = 0 \<longrightarrow> card (free_pages ?v) < missing (mem ?v) pg ?q" "card (free_pages ?v) \<le> card (free_pages w) + n"
        by blast
      have "missing (mem ?v) pg ?q \<le> n" using missing_le [of "mem ?v" pg ?q] by simp
      then have "pte = 0 \<longrightarrow> card (free_pages ?v) < n" using w(4) by linarith
      then have "pte = 0 \<longrightarrow> card (free_pages s) < missing (mem s) t q" using card inv Suc.prems(4) by (simp add: pte_valid_def)
      moreover have "walk_loop (Suc n) t va True s = Ok pte w"
        using u(1) w(1) inv \<open>pg \<noteq> 0\<close> by (simp add: upd_mem_def store_pte_def)
      ultimately show ?thesis using w(2,3,5) tables_grow_trans [OF v(1)] card by (intro exI [of _ pte] exI [of _ w]) simp
    qed
  qed
qed

lemma walk_alloc:
  assumes "pt_ok s pt" "va < MAXVA"
  shows "\<exists>pte v. walk pt va True s = Ok pte v \<and> tables_grow pt s v \<and>
    (pte \<noteq> 0 \<longrightarrow> (\<exists>u. node (mem v) pt (upper va) = Some u \<and> pte = pte_addr u (PX 0 va))) \<and>
    (pte = 0 \<longrightarrow> card (free_pages s) < missing (mem s) pt (upper va)) \<and> card (free_pages s) \<le> card (free_pages v) + 2"
proof -
  have u: "upper va = map (\<lambda>l. PX (Suc l) va) (rev [0..<2])" by (simp add: upper_def numeral_2_eq_2)
  then have "upper va = [] @ map (\<lambda>l. PX (Suc l) va) (rev [0..<2])" by simp
  from walk_loop_alloc [OF assms(1) _ this refl, of pt, folded u] show ?thesis
    using assms(2) by (simp add: walk_def not_le)
qed

subsection \<open>mappages on one page\<close>

lemma pt_ok_store_leaf:
  fixes x :: u64
  assumes ok: "pt_ok s pt" and t: "node (mem s) pt (upper va) = Some t"
  defines "v \<equiv> s\<lparr>mem := store64 (pte_addr t (PX 0 va)) x (mem s)\<rparr>"
  shows "pt_ok v pt" "free_pages v = free_pages s" "tables (mem v) pt = tables (mem s) pt"
    "\<And>a. PGROUNDDOWN a \<notin> tables (mem s) pt \<Longrightarrow> mem v a = mem s a"
proof -
  have wf: "tree_wf (mem s) pt" using ok by (simp add: pt_ok_def)
  note t' = pt_ok_node [OF ok tpath_simps(3) t]
  have n: "node (mem v) pt q = node (mem s) pt q" if "tpath q" for q
    using store_leaf_nodes [OF wf t that] by (simp add: v_def)
  show tab: "tables (mem v) pt = tables (mem s) pt" by (rule tables_cong) (rule n)
  show frame: "mem v a = mem s a" if "PGROUNDDOWN a \<notin> tables (mem s) pt" for a
    using that t' pte_addr_page [where a = a, OF t'(1) PX_less] by (auto simp: v_def store64_def in_page_offset)
  have "kmem_ready v \<and> free_pages v = free_pages s"
    unfolding v_def using ok frame by (intro kmem_ready_write) (auto simp: pt_ok_def v_def)
  then show "pt_ok v pt" "free_pages v = free_pages s"
    using ok tab tree_wf_cong [OF wf n] by (auto simp: pt_ok_def) (auto simp: v_def)
qed

text \<open>The effect of mapping one page: success changes exactly one entry, failure none.\<close>

definition mapped_page :: "u64 \<Rightarrow> u64 \<Rightarrow> u64 \<Rightarrow> 'x kmachine_scheme \<Rightarrow> 'x kmachine_scheme \<Rightarrow> bool" where
  "mapped_page pt va x s v \<longleftrightarrow> only_mem s v \<and> pt_ok v pt \<and> free_pages v \<subseteq> free_pages s \<and>
     tables (mem v) pt \<subseteq> tables (mem s) pt \<union> free_pages s \<and>
     (\<forall>vb < MAXVA. leaf (mem v) pt vb = (if PGROUNDDOWN vb = PGROUNDDOWN va then x else leaf (mem s) pt vb)) \<and>
     (\<forall>a. PGROUNDDOWN a \<notin> free_pages s \<union> tables (mem s) pt \<longrightarrow> mem v a = mem s a)"

lemma mappages_one:
  assumes ok: "pt_ok s pt" and va: "va < MAXVA" "page_aligned va"
    and fresh: "\<not> pte_valid (leaf (mem s) pt va)"
  shows "\<exists>r v. mappages pt va PGSIZE pa perm s = Ok r v \<and>
    (r = 0 \<and> mapped_page pt va (PA2PTE pa OR perm OR PTE_V) s v \<or>
     r = - 1 \<and> tables_grow pt s v \<and> card (free_pages s) < missing (mem s) pt (upper va)) \<and>
    card (free_pages s) \<le> card (free_pages v) + 2"
proof -
  have loop: "mappages pt va PGSIZE pa perm s = mappages_loop pt va va pa perm s"
    using va(2) by (simp add: mappages_def PGSIZE_mod) (simp add: PGSIZE_def)
  obtain pte u where u: "walk pt va True s = Ok pte u" "tables_grow pt s u"
    "pte \<noteq> 0 \<longrightarrow> (\<exists>t. node (mem u) pt (upper va) = Some t \<and> pte = pte_addr t (PX 0 va))"
    "pte = 0 \<longrightarrow> card (free_pages s) < missing (mem s) pt (upper va)" "card (free_pages s) \<le> card (free_pages u) + 2"
    using walk_alloc [OF ok va(1)] by blast
  show ?thesis
  proof (cases "pte = 0")
    case True
    then show ?thesis using u loop by (subst (asm) mappages_loop.simps) auto
  next
    case False
    then obtain t where t: "node (mem u) pt (upper va) = Some t" "pte = pte_addr t (PX 0 va)" using u(3) by blast
    have oku: "pt_ok u pt" and same: "leaf (mem u) pt vb = leaf (mem s) pt vb" for vb
      using u(2) by (simp_all add: tables_grow_def)
    have "load64 (mem u) pte AND PTE_V = 0"
      using fresh same [of va] leaf_node [OF t(1)] t(2) by (simp add: pte_valid_def)
    then have r: "mappages pt va PGSIZE pa perm s =
        Ok 0 (u\<lparr>mem := store64 pte (PA2PTE pa OR perm OR PTE_V) (mem u)\<rparr>)" (is "_ = Ok 0 ?v")
      using loop u(1) False by (subst (asm) mappages_loop.simps) simp
    note v = pt_ok_store_leaf [where x = "PA2PTE pa OR perm OR PTE_V", OF oku t(1), folded t(2)]
    have wf: "tree_wf (mem u) pt" using oku by (simp add: pt_ok_def)
    have "leaf (mem ?v) pt vb = (if PGROUNDDOWN vb = PGROUNDDOWN va then PA2PTE pa OR perm OR PTE_V
        else leaf (mem s) pt vb)" if "vb < MAXVA" for vb
      using leaf_store [OF wf t(1), of "PA2PTE pa OR perm OR PTE_V" vb] same_page_indices [OF va(1) that] same t(2)
      by simp
    moreover have "mem ?v a = mem s a" if "PGROUNDDOWN a \<notin> free_pages s \<union> tables (mem s) pt" for a
    proof -
      have "PGROUNDDOWN a \<notin> tables (mem u) pt" using that u(2) unfolding tables_grow_def by blast
      then show ?thesis using v(4) that u(2) unfolding tables_grow_def by metis
    qed
    moreover have "only_mem s ?v" using u(2) by (simp add: tables_grow_def)
    ultimately have "mapped_page pt va (PA2PTE pa OR perm OR PTE_V) s ?v"
      using v(1-3) u(2) by (simp add: mapped_page_def tables_grow_def)
    then show ?thesis using r u(5) v(2) by auto
  qed
qed

lemma mappages_room:
  assumes "pt_ok s pt" "va < MAXVA" "page_aligned va" "\<not> pte_valid (leaf (mem s) pt va)" "2 \<le> card (free_pages s)"
  shows "\<exists>v. mappages pt va PGSIZE pa perm s = Ok 0 v \<and> mapped_page pt va (PA2PTE pa OR perm OR PTE_V) s v \<and>
    card (free_pages s) \<le> card (free_pages v) + 2"
proof -
  have "missing (mem s) pt (upper va) \<le> 2" using missing_le [of "mem s" pt "upper va"] by simp
  then show ?thesis using mappages_one [OF assms(1-4), of pa perm] assms(5) by auto
qed

section \<open>Copying user memory\<close>

text \<open>The physical address behind a user address, and when the user may access it.\<close>

definition upa :: "memory \<Rightarrow> u64 \<Rightarrow> u64 \<Rightarrow> u64" where
  "upa m pt va = PTE2PA (leaf m pt va) + (va - PGROUNDDOWN va)"

definition user_mapped :: "memory \<Rightarrow> u64 \<Rightarrow> u64 \<Rightarrow> bool" where
  "user_mapped m pt va \<longleftrightarrow> va < MAXVA \<and> leaf m pt va AND PTE_V \<noteq> 0 \<and> leaf m pt va AND PTE_U \<noteq> 0 \<and>
     PTE2PA (leaf m pt va) \<noteq> 0 \<and> unat (PTE2PA (leaf m pt va)) + 4096 \<le> 2 ^ 64"

lemma bit_PGROUNDDOWN: "bit (PGROUNDDOWN x) n \<longleftrightarrow> 12 \<le> n \<and> bit x n"
  unfolding PGROUNDDOWN_def PGSIZE_minus_1 by (auto simp: bit_simps dest: bit_imp_le_length)

lemma PX_PGROUNDDOWN [simp]: "PX l (PGROUNDDOWN x) = PX l x"
  by (intro bit_word_eqI) (auto simp: bit_PX PXSHIFT_def bit_PGROUNDDOWN)

lemma PGROUNDDOWN_idem [simp]: "PGROUNDDOWN (PGROUNDDOWN x) = PGROUNDDOWN x"
  by (simp add: PGROUNDDOWN_aligned)

lemma leaf_round [simp]: "leaf m pt (PGROUNDDOWN va) = leaf m pt va"
  by (simp add: leaf_def upper_def)

lemma leaf_same_page: "PGROUNDDOWN va = PGROUNDDOWN vb \<Longrightarrow> leaf m pt va = leaf m pt vb"
  by (metis leaf_round)

lemma round_add:
  assumes "k < 4096 - unat va mod 4096"
  shows "unat (va + of_nat k) = unat va + k" "PGROUNDDOWN (va + of_nat k) = PGROUNDDOWN va"
proof -
  have b: "unat va = 4096 * (unat va div 4096) + unat va mod 4096" by simp
  have room: "unat (PGROUNDDOWN va) + 4096 \<le> 2 ^ 64" by (rule page_room) simp
  have lt: "unat va mod 4096 + k < 4096" using assms by linarith
  then have "unat va + k < 2 ^ 64" using room b unfolding unat_PGROUNDDOWN by linarith
  then show u: "unat (va + of_nat k) = unat va + k" by (rule unat_offset_bound)
  define q r where "q = unat va div 4096" and "r = unat va mod 4096"
  have "unat va + k = 4096 * q + (r + k)" "r + k < 4096" using b lt by (simp_all add: q_def r_def)
  then have "(unat va + k) div 4096 = unat va div 4096" by (simp add: q_def)
  then show "PGROUNDDOWN (va + of_nat k) = PGROUNDDOWN va"
    by (simp add: word_unat_eq_iff unat_PGROUNDDOWN u)
qed

lemma upa_same_page:
  assumes "k < 4096 - unat va mod 4096"
  shows "upa m pt (va + of_nat k) = upa m pt va + of_nat k"
  using round_add(2) [OF assms] leaf_same_page [OF round_add(2) [OF assms], of m pt]
  by (simp add: upa_def)

lemma walkaddr_spec:
  assumes "pt_ok s pt"
  shows "walkaddr pt va s = Ok (if va < MAXVA \<and> leaf (mem s) pt va AND PTE_V \<noteq> 0 \<and> leaf (mem s) pt va AND PTE_U \<noteq> 0
     then PTE2PA (leaf (mem s) pt va) else 0) s"
proof (cases "va < MAXVA")
  case True
  obtain pte where w: "walk pt va False s = Ok pte s" using walk_lookup [OF True] by blast
  note l = walk_lookup_ok [OF assms True w]
  show ?thesis using True w l by (cases "pte = 0") (auto simp: walkaddr_def load_pte_def)
qed (auto simp: walkaddr_def)

lemma user_mapped_round: "user_mapped m pt va \<Longrightarrow> user_mapped m pt (PGROUNDDOWN va)"
  using PGROUNDDOWN_le [of va] by (auto simp: user_mapped_def intro: le_less_trans)

lemma walkaddr_mapped:
  "pt_ok s pt \<Longrightarrow> user_mapped (mem s) pt va \<Longrightarrow>
   walkaddr pt (PGROUNDDOWN va) s = Ok (PTE2PA (leaf (mem s) pt va)) s"
  using walkaddr_spec [of s pt "PGROUNDDOWN va"] user_mapped_round [of "mem s" pt va]
  by (simp add: user_mapped_def)

text \<open>Memory writes that leave the free pages and the tables alone keep the page table.\<close>

lemma pt_ok_write:
  assumes ok: "pt_ok s pt"
    and same: "\<And>a. PGROUNDDOWN a \<in> free_pages s \<union> tables (mem s) pt \<Longrightarrow> m a = mem s a"
  shows "pt_ok (s\<lparr>mem := m\<rparr>) pt" "leaf m pt va = leaf (mem s) pt va"
    "tables m pt = tables (mem s) pt" "free_pages (s\<lparr>mem := m\<rparr>) = free_pages s"
proof -
  have wf: "tree_wf (mem s) pt" using ok by (simp add: pt_ok_def)
  have entry: "load64 m (pte_addr t i) = load64 (mem s) (pte_addr t i)" if "t \<in> tables (mem s) pt" "unat i < 512" for t i
  proof (rule load64_cong)
    fix a assume "in_range (pte_addr t i) 8 a"
    moreover have "page_aligned t" using that(1) wf by (auto simp: tables_def tree_wf_def)
    ultimately have "PGROUNDDOWN a = t" using pte_addr_page that(2) by (simp add: in_page_offset)
    then show "m a = mem s a" using same that(1) by simp
  qed
  have n: "node m pt q = node (mem s) pt q" if "tpath q" for q
    using that
  proof (induction q rule: rev_induct)
    case (snoc j q)
    then have q: "tpath q" "unat j < 512" using tpath_snocD by blast+
    then have "load64 m (pte_addr u j) = load64 (mem s) (pte_addr u j)" if "node (mem s) pt q = Some u" for u
      using that by (intro entry) (auto simp: tables_def)
    then show ?case using snoc.IH [OF q(1)] by (simp add: node_snoc split: option.split)
  qed simp
  have r: "kmem_ready (s\<lparr>mem := m\<rparr>) \<and> free_pages (s\<lparr>mem := m\<rparr>) = free_pages s"
    using ok same by (intro kmem_ready_write) (auto simp: pt_ok_def)
  show tab: "tables m pt = tables (mem s) pt" by (rule tables_cong) (rule n)
  show "leaf m pt va = leaf (mem s) pt va" by (rule leaf_cong) (use n entry in auto)
  show "free_pages (s\<lparr>mem := m\<rparr>) = free_pages s" using r by simp
  show "pt_ok (s\<lparr>mem := m\<rparr>) pt" using ok r tab tree_wf_cong [OF wf n] by (simp add: pt_ok_def)
qed

lemma in_range_split:
  assumes "n \<le> len" "len \<le> 2 ^ 64"
  shows "in_range d len a \<longleftrightarrow> in_range d n a \<or> in_range (d + of_nat n) (len - n) a"
proof -
  have "in_range d len a \<longleftrightarrow> (\<exists>i < len. a = d + of_nat i)" by (rule in_range_iff [OF assms(2)])
  also have "\<dots> \<longleftrightarrow> (\<exists>i < n. a = d + of_nat i) \<or> (\<exists>i < len - n. a = d + of_nat n + of_nat i)"
  proof
    assume "\<exists>i < len. a = d + of_nat i"
    then obtain i where i: "i < len" "a = d + of_nat i" by blast
    show "(\<exists>i < n. a = d + of_nat i) \<or> (\<exists>i < len - n. a = d + of_nat n + of_nat i)"
    proof (cases "i < n")
      case False
      then have "a = d + of_nat n + of_nat (i - n)" using i(2) by simp
      then show ?thesis using False i(1) by (intro disjI2 exI [of _ "i - n"]) auto
    qed (use i in blast)
  next
    assume "(\<exists>i < n. a = d + of_nat i) \<or> (\<exists>i < len - n. a = d + of_nat n + of_nat i)"
    then show "\<exists>i < len. a = d + of_nat i"
    proof (elim disjE exE conjE)
      fix i assume "i < len - n" "a = d + of_nat n + of_nat i"
      then show ?thesis by (intro exI [of _ "n + i"]) auto
    next
      fix i assume "i < n" "a = d + of_nat i"
      then show ?thesis using assms(1) by (intro exI [of _ i]) simp
    qed
  qed
  also have "\<dots> \<longleftrightarrow> in_range d n a \<or> in_range (d + of_nat n) (len - n) a"
    using assms by (simp add: in_range_iff)
  finally show ?thesis .
qed

lemma chunk_facts:
  assumes "0 < len"
  shows "unat (chunk_len va len) = min (4096 - unat va mod 4096) (unat len)"
    "unat (ucast (chunk_len va len) :: u32) = unat (chunk_len va len)"
    "unat (len - chunk_len va len) = unat len - unat (chunk_len va len)"
    "i < unat (len - chunk_len va len) \<Longrightarrow>
       PGROUNDDOWN va + PGSIZE + of_nat i = va + of_nat (unat (chunk_len va len) + i)"
proof -
  let ?n = "chunk_len va len"
  show n: "unat ?n = min (4096 - unat va mod 4096) (unat len)" by (rule unat_chunk_len)
  then have "unat ?n \<le> 4096" by simp
  then show "unat (ucast ?n :: u32) = unat ?n"
    by (simp add: unsigned_ucast_eq take_bit_nat_eq_self_iff)
  have "?n \<le> len" using n by (simp add: word_le_nat_alt)
  then show d: "unat (len - ?n) = unat len - unat ?n" by (rule unat_sub)
  assume "i < unat (len - ?n)"
  then have "unat ?n = 4096 - unat va mod 4096" using n d by linarith
  moreover have "of_nat (4096 - unat va mod 4096) = PGSIZE - (va - PGROUNDDOWN va)"
  proof -
    have "unat (va - PGROUNDDOWN va) \<le> 4096" unfolding page_offset by simp
    then show ?thesis by (simp only: page_offset [symmetric] of_nat_diff) (simp add: PGSIZE_def)
  qed
  ultimately show "PGROUNDDOWN va + PGSIZE + of_nat i = va + of_nat (unat ?n + i)" by simp
qed

lemma upa_room:
  assumes "user_mapped m pt va"
  shows "unat (upa m pt va) = unat (PTE2PA (leaf m pt va)) + unat va mod 4096"
proof -
  have "upa m pt va = PTE2PA (leaf m pt va) + of_nat (unat va mod 4096)"
    by (simp add: upa_def flip: page_offset)
  moreover have "unat (PTE2PA (leaf m pt va)) + unat va mod 4096 < 2 ^ 64"
  proof -
    have "unat va mod 4096 < 4096" by simp
    then show ?thesis using assms unfolding user_mapped_def by linarith
  qed
  ultimately show ?thesis by (simp only: unat_offset_bound)
qed

lemma copyin_page_mapped:
  "pt_ok s pt \<Longrightarrow> user_mapped (mem s) pt va \<Longrightarrow>
   copyin_page pt (PGROUNDDOWN va) s = Ok (Some (PTE2PA (leaf (mem s) pt va))) s"
  using walkaddr_mapped [of s pt va] by (simp add: copyin_page_def user_mapped_def)

lemma load_bytes_upa:
  assumes "N \<le> 4096 - unat va mod 4096"
  shows "load_bytes m (upa m pt va) N = map (\<lambda>i. m (upa m pt (va + of_nat i))) [0..<N]"
  using assms by (simp add: load_bytes_def upa_same_page)

lemma copyin_local_bytes:
  assumes "pt_ok s pt" "\<forall>i < unat len. user_mapped (mem s) pt (srcva + of_nat i)"
  shows "copyin_local pt srcva len bs s =
    Ok (0, bs @ map (\<lambda>i. mem s (upa (mem s) pt (srcva + of_nat i))) [0..<unat len]) s"
  using assms(2)
proof (induction "unat len" arbitrary: srcva len bs rule: less_induct)
  case less
  show ?case
  proof (cases "0 < len")
    case False
    then have "len = 0" by (simp add: word_gt_0)
    then show ?thesis by (subst copyin_local.simps) simp
  next
    case True
    define N where "N = unat (chunk_len srcva len)"
    let ?b = "\<lambda>i. mem s (upa (mem s) pt (srcva + of_nat i))" and ?L = "unat len"
    note chunk = chunk_facts [where va = srcva, OF True, folded N_def]
    have N: "N \<le> ?L" "N \<le> 4096 - unat srcva mod 4096" using chunk(1) by simp_all
    have um: "user_mapped (mem s) pt srcva"
      using less.prems True by (fastforce simp: word_less_nat_alt)
    have nxt: "PGROUNDDOWN srcva + PGSIZE + of_nat i = srcva + of_nat (N + i)" if "i < ?L - N" for i
      using chunk(4) chunk(3) that by simp
    have "\<forall>i < unat (len - chunk_len srcva len). user_mapped (mem s) pt (PGROUNDDOWN srcva + PGSIZE + of_nat i)"
      using less.prems nxt chunk(3) by (metis add.commute less_diff_conv)
    from less.hyps [OF chunk_len_decreases [OF True] this]
    have "copyin_local pt srcva len bs s = Ok (0, bs @ map ?b [0..<N] @
        map (\<lambda>i. mem s (upa (mem s) pt (PGROUNDDOWN srcva + PGSIZE + of_nat i))) [0..<?L - N]) s"
      using True copyin_page_mapped [OF assms(1) um] load_bytes_upa [OF N(2), of "mem s" pt] chunk(3)
      by (subst copyin_local.simps) (simp add: Let_def N_def upa_def)
    moreover have "map (\<lambda>i. mem s (upa (mem s) pt (PGROUNDDOWN srcva + PGSIZE + of_nat i))) [0..<?L - N] =
        map ?b [N..<?L]"
      using nxt by (intro nth_equalityI) (simp_all add: algebra_simps)
    moreover have "[0..<?L] = [0..<N] @ [N..<?L]" using N(1) by (metis le_add_diff_inverse upt_add_eq_append zero_le)
    ultimately show ?thesis by simp
  qed
qed

text \<open>Memory after \<open>n\<close> user bytes at \<open>srcva\<close> have been copied to the kernel address \<open>dst\<close>.\<close>

definition copied_in :: "memory \<Rightarrow> u64 \<Rightarrow> u64 \<Rightarrow> u64 \<Rightarrow> nat \<Rightarrow> memory" where
  "copied_in m pt dst srcva n = (\<lambda>a. if in_range dst n a then m (upa m pt (srcva + (a - dst))) else m a)"

lemma copyin_bytes:
  assumes "pt_ok s pt" "unat dst + unat len \<le> 2 ^ 64"
    and "\<forall>i < unat len. user_mapped (mem s) pt (srcva + of_nat i)"
    and "\<forall>a. in_range dst (unat len) a \<longrightarrow> PGROUNDDOWN a \<notin> free_pages s \<union> tables (mem s) pt"
    and "\<forall>i < unat len. \<not> in_range dst (unat len) (upa (mem s) pt (srcva + of_nat i))"
  shows "copyin pt dst srcva len s = Ok 0 (s\<lparr>mem := copied_in (mem s) pt dst srcva (unat len)\<rparr>)"
  using assms
proof (induction "unat len" arbitrary: dst srcva len s rule: less_induct)
  case less
  show ?case
  proof (cases "0 < len")
    case False
    then have "len = 0" by (simp add: word_gt_0)
    then show ?thesis by (subst copyin.simps) (simp add: copied_in_def)
  next
    case True
    define n where "n = chunk_len srcva len"
    define N where "N = unat n"
    let ?m = "mem s" and ?P = "upa (mem s) pt srcva" and ?L = "unat len"
    note chunk = chunk_facts [where va = srcva, OF True, folded n_def, folded N_def]
    have L: "0 < ?L" using True by (simp add: word_less_nat_alt)
    have N: "N \<le> ?L" "N \<le> 4096 - unat srcva mod 4096" "unat (len - n) = ?L - N"
      using chunk(1,3) by simp_all
    have nN: "of_nat N = n" by (simp add: N_def)
    have um: "user_mapped ?m pt srcva" using less.prems(3) L by fastforce
    define m1 where "m1 = memmove dst ?P (ucast n) ?m"
    have m1: "m1 = (\<lambda>a. if in_range dst N a then ?m (?P + (a - dst)) else ?m a)"
      unfolding m1_def
    proof (subst memmove_spec)
      show "unat dst + unat (ucast n :: u32) \<le> 2 ^ 64" using less.prems(2) N(1) chunk(2) by simp
      show "unat ?P + unat (ucast n :: u32) \<le> 2 ^ 64"
        using upa_room [OF um] um N(2) chunk(2) unfolding user_mapped_def by linarith
    qed (simp add: chunk(2))
    have Lle: "?L \<le> 2 ^ 64" using less.prems(2) by simp
    have split: "in_range dst ?L a \<longleftrightarrow> in_range dst N a \<or> in_range (dst + n) (?L - N) a" for a
      using in_range_split [OF N(1) Lle, of dst a] nN by simp
    have out: "m1 a = ?m a" if "\<not> in_range dst ?L a" for a using that split by (simp add: m1)
    have keep: "m1 a = ?m a" if "PGROUNDDOWN a \<in> free_pages s \<union> tables ?m pt" for a
      using that less.prems(4) out by blast
    have w: "pt_ok (s\<lparr>mem := m1\<rparr>) pt" "tables m1 pt = tables ?m pt" "free_pages (s\<lparr>mem := m1\<rparr>) = free_pages s"
      by (rule pt_ok_write [OF less.prems(1)], erule keep)+
    have leaf: "leaf m1 pt va = leaf ?m pt va" for va
      by (rule pt_ok_write [OF less.prems(1)], erule keep)
    have upa: "upa m1 pt va = upa ?m pt va" "user_mapped m1 pt va = user_mapped ?m pt va" for va
      by (simp_all add: upa_def user_mapped_def leaf)
    have next_va: "PGROUNDDOWN srcva + PGSIZE + of_nat i = srcva + of_nat (N + i)" if "i < ?L - N" for i
      using chunk(4) N(3) that by simp
    let ?s1 = "s\<lparr>mem := m1\<rparr>"
    have step: "copyin pt dst srcva len s = copyin pt (dst + n) (PGROUNDDOWN srcva + PGSIZE) (len - n) ?s1"
      using True copyin_page_mapped [OF less.prems(1) um]
      by (subst copyin.simps) (simp add: n_def [symmetric] m1_def upa_def Let_def)
    have "copyin pt (dst + n) (PGROUNDDOWN srcva + PGSIZE) (len - n) ?s1 =
        Ok 0 (?s1\<lparr>mem := copied_in (mem ?s1) pt (dst + n) (PGROUNDDOWN srcva + PGSIZE) (unat (len - n))\<rparr>)"
    proof (rule less.hyps)
      show "unat (len - n) < unat len" using chunk_len_decreases [OF True] by (simp add: n_def)
      show "pt_ok ?s1 pt" by (rule w(1))
      show "unat (dst + n) + unat (len - n) \<le> 2 ^ 64"
      proof (cases "?L - N = 0")
        case True
        then show ?thesis using N(3) unat64_less [of "dst + n"] by simp
      next
        case False
        then have "unat (dst + of_nat N) = unat dst + N"
          using less.prems(2) by (intro unat_offset_bound) linarith
        then show ?thesis using N nN less.prems(2) by simp
      qed
      show "\<forall>i < unat (len - n). user_mapped (mem ?s1) pt (PGROUNDDOWN srcva + PGSIZE + of_nat i)"
      proof (intro allI impI)
        fix i assume "i < unat (len - n)"
        then have i: "i < ?L - N" using N(3) by simp
        then have "user_mapped ?m pt (srcva + of_nat (N + i))" by (intro less.prems(3) [rule_format]) simp
        then show "user_mapped (mem ?s1) pt (PGROUNDDOWN srcva + PGSIZE + of_nat i)"
          unfolding next_va [OF i] by (simp add: upa(2))
      qed
      show "\<forall>a. in_range (dst + n) (unat (len - n)) a \<longrightarrow> PGROUNDDOWN a \<notin> free_pages ?s1 \<union> tables (mem ?s1) pt"
        using less.prems(4) split by (simp add: w(2,3) N(3))
      show "\<forall>i < unat (len - n). \<not> in_range (dst + n) (unat (len - n))
          (upa (mem ?s1) pt (PGROUNDDOWN srcva + PGSIZE + of_nat i))"
      proof (intro allI impI)
        fix i assume "i < unat (len - n)"
        then have i: "i < ?L - N" using N(3) by simp
        then have "\<not> in_range dst ?L (upa ?m pt (srcva + of_nat (N + i)))" by (intro less.prems(5) [rule_format]) simp
        then show "\<not> in_range (dst + n) (unat (len - n)) (upa (mem ?s1) pt (PGROUNDDOWN srcva + PGSIZE + of_nat i))"
          unfolding next_va [OF i] using split by (simp add: upa(1) N(3))
      qed
    qed
    moreover have "copied_in m1 pt (dst + n) (PGROUNDDOWN srcva + PGSIZE) (?L - N) a = copied_in ?m pt dst srcva ?L a" for a
    proof (cases "in_range (dst + n) (?L - N) a")
      case True
      then obtain i where i: "i < ?L - N" "a = dst + n + of_nat i" using Lle by (auto simp: in_range_iff)
      then have "PGROUNDDOWN srcva + PGSIZE + (a - (dst + n)) = srcva + of_nat (N + i)"
        "srcva + (a - dst) = srcva + of_nat (N + i)"
        using next_va nN by (simp_all add: algebra_simps)
      moreover have "m1 (upa ?m pt (srcva + of_nat (N + i))) = ?m (upa ?m pt (srcva + of_nat (N + i)))"
        using i(1) by (intro out less.prems(5) [rule_format]) simp
      ultimately show ?thesis using True split upa by (simp add: copied_in_def)
    next
      case False
      show ?thesis
      proof (cases "in_range dst N a")
        case True
        then obtain k where k: "k < N" "a = dst + of_nat k" using N(1) Lle by (auto simp: in_range_iff)
        then have "upa ?m pt (srcva + (a - dst)) = ?P + (a - dst)"
          using upa_same_page [of k srcva ?m pt] N(2) by simp
        then show ?thesis using False True split by (simp add: copied_in_def m1)
      qed (use False split in \<open>simp add: copied_in_def m1\<close>)
    qed
    then have "copied_in m1 pt (dst + n) (PGROUNDDOWN srcva + PGSIZE) (?L - N) = copied_in ?m pt dst srcva ?L"
      by (rule ext)
    ultimately show ?thesis using step N(3) by simp
  qed
qed

definition user_writable :: "memory \<Rightarrow> u64 \<Rightarrow> u64 \<Rightarrow> bool" where
  "user_writable m pt va \<longleftrightarrow> user_mapped m pt va \<and> leaf m pt va AND PTE_W \<noteq> 0"

lemma copyout_page_mapped:
  assumes ok: "pt_ok s pt" and um: "user_mapped (mem s) pt va"
  shows "copyout_page pt (PGROUNDDOWN va) s =
    Ok (if leaf (mem s) pt va AND PTE_W = 0 then None else Some (PTE2PA (leaf (mem s) pt va))) s"
proof -
  have lt: "PGROUNDDOWN va < MAXVA" using user_mapped_round [OF um] by (simp add: user_mapped_def)
  obtain pte where w: "walk pt (PGROUNDDOWN va) False s = Ok pte s" using walk_lookup [OF lt] by blast
  note l = walk_lookup_ok [OF ok lt w]
  have "pte \<noteq> 0" using l um by (auto simp: user_mapped_def)
  then show ?thesis
    using lt w l walkaddr_mapped [OF ok um] um
    by (simp add: copyout_page_def load_pte_def user_mapped_def not_le)
qed

text \<open>The bytes \<open>src ..\<close> of \<open>m\<close> have arrived at the user addresses \<open>dstva ..\<close> and nothing else changed.\<close>

definition copied_out :: "memory \<Rightarrow> u64 \<Rightarrow> u64 \<Rightarrow> u64 \<Rightarrow> nat \<Rightarrow> memory \<Rightarrow> bool" where
  "copied_out m pt dstva src n m' \<longleftrightarrow>
     (\<forall>i < n. m' (upa m pt (dstva + of_nat i)) = m (src + of_nat i)) \<and>
     (\<forall>a. (\<forall>i < n. a \<noteq> upa m pt (dstva + of_nat i)) \<longrightarrow> m' a = m a)"

definition copyout_pre :: "'x kproc_scheme \<Rightarrow> u64 \<Rightarrow> u64 \<Rightarrow> u64 \<Rightarrow> nat \<Rightarrow> bool" where
  "copyout_pre s pt dstva src n \<longleftrightarrow> pt_ok s pt \<and> unat src + n \<le> 2 ^ 64 \<and>
     (\<forall>i < n. user_writable (mem s) pt (dstva + of_nat i) \<and>
        PGROUNDDOWN (upa (mem s) pt (dstva + of_nat i)) \<notin> free_pages s \<union> tables (mem s) pt \<and>
        \<not> in_range src n (upa (mem s) pt (dstva + of_nat i))) \<and>
     (\<forall>i < n. \<forall>j < n. upa (mem s) pt (dstva + of_nat i) = upa (mem s) pt (dstva + of_nat j) \<longrightarrow> i = j)"

lemma copyout_step:
  assumes pre: "copyout_pre s pt dstva src L" and N: "N \<le> L" "N \<le> 4096 - unat dstva mod 4096" "0 < N"
    and m1_def: "m1 = (\<lambda>a. if in_range (upa (mem s) pt dstva) N a then mem s (src + (a - upa (mem s) pt dstva)) else mem s a)"
  shows "\<And>va. leaf m1 pt va = leaf (mem s) pt va" "\<And>va. upa m1 pt va = upa (mem s) pt va"
    "i < N \<Longrightarrow> m1 (upa (mem s) pt (dstva + of_nat i)) = mem s (src + of_nat i)"
    "(\<forall>i < N. a \<noteq> upa (mem s) pt (dstva + of_nat i)) \<Longrightarrow> m1 a = mem s a"
    "copyout_pre (s\<lparr>mem := m1\<rparr>) pt (dstva + of_nat N) (src + of_nat N) (L - N)"
proof -
  let ?m = "mem s" and ?u = "\<lambda>i. upa (mem s) pt (dstva + of_nat i)"
  have ok: "pt_ok s pt" and len: "unat src + L \<le> 2 ^ 64"
    and each: "\<And>i. i < L \<Longrightarrow> user_writable ?m pt (dstva + of_nat i) \<and>
        PGROUNDDOWN (?u i) \<notin> free_pages s \<union> tables ?m pt \<and> \<not> in_range src L (?u i)"
    and inj: "\<And>i j. i < L \<Longrightarrow> j < L \<Longrightarrow> ?u i = ?u j \<Longrightarrow> i = j"
    using pre unfolding copyout_pre_def by blast+
  have ui: "?u i = ?u 0 + of_nat i" if "i < N" for i
    using upa_same_page [of i dstva ?m pt] that N(2) by simp
  have N64: "N \<le> 2 ^ 64" using N(2) by simp
  have rng: "in_range (?u 0) N a \<longleftrightarrow> (\<exists>i < N. a = ?u i)" for a
    using ui by (auto simp: in_range_iff [OF N64])
  show m1_in: "m1 (?u i) = ?m (src + of_nat i)" if "i < N" for i
  proof -
    have "in_range (upa ?m pt dstva) N (?u i)" using rng [of "?u i"] that by auto
    moreover have "?u i - upa ?m pt dstva = of_nat i" using ui [OF that] by simp
    ultimately show ?thesis by (simp add: m1_def)
  qed
  show m1_out: "m1 a = ?m a" if "\<forall>i < N. a \<noteq> ?u i" for a
  proof -
    have "\<not> in_range (upa ?m pt dstva) N a" using rng [of a] that by auto
    then show ?thesis by (simp add: m1_def)
  qed
  have keep: "m1 a = ?m a" if "PGROUNDDOWN a \<in> free_pages s \<union> tables ?m pt" for a
    using that each N(1) by (intro m1_out) auto
  have w: "pt_ok (s\<lparr>mem := m1\<rparr>) pt" "tables m1 pt = tables ?m pt" "free_pages (s\<lparr>mem := m1\<rparr>) = free_pages s"
    by (rule pt_ok_write [OF ok], erule keep)+
  show leaf: "leaf m1 pt va = leaf ?m pt va" for va by (rule pt_ok_write [OF ok], erule keep)
  show upa: "upa m1 pt va = upa ?m pt va" for va by (simp add: upa_def leaf)
  have uw: "user_writable m1 pt va = user_writable ?m pt va" for va
    by (simp add: user_writable_def user_mapped_def leaf)
  have shift: "dstva + of_nat N + of_nat i = dstva + of_nat (N + i)" for i by simp
  have sub: "in_range src L a" if "in_range (src + of_nat N) (L - N) a" for a
    using in_range_split [OF N(1), of src a] that len by simp
  have "unat (src + of_nat N) + (L - N) \<le> 2 ^ 64"
  proof (cases "N = L")
    case True
    then show ?thesis using unat64_less [of "src + of_nat N"] by simp
  next
    case False
    then have "unat (src + of_nat N) = unat src + N" using len N(1) by (intro unat_offset_bound) linarith
    then show ?thesis using len N(1) by simp
  qed
  moreover have "user_writable m1 pt (dstva + of_nat N + of_nat i) \<and>
      PGROUNDDOWN (upa m1 pt (dstva + of_nat N + of_nat i)) \<notin> free_pages (s\<lparr>mem := m1\<rparr>) \<union> tables m1 pt \<and>
      \<not> in_range (src + of_nat N) (L - N) (upa m1 pt (dstva + of_nat N + of_nat i))" if "i < L - N" for i
  proof -
    have "N + i < L" using that by simp
    then show ?thesis unfolding shift uw upa w using each sub by blast
  qed
  moreover have "i = j" if "i < L - N" "j < L - N"
    "upa m1 pt (dstva + of_nat N + of_nat i) = upa m1 pt (dstva + of_nat N + of_nat j)" for i j
    using inj [of "N + i" "N + j"] that unfolding shift upa by simp
  ultimately show "copyout_pre (s\<lparr>mem := m1\<rparr>) pt (dstva + of_nat N) (src + of_nat N) (L - N)"
    unfolding copyout_pre_def using w(1) by simp
qed

lemma copied_out_compose:
  assumes pre: "copyout_pre s pt dstva src L" and N: "N \<le> L" "N \<le> 4096 - unat dstva mod 4096" "0 < N"
    and upa: "\<And>va. upa m1 pt va = upa (mem s) pt va"
    and m1_in: "\<And>i. i < N \<Longrightarrow> m1 (upa (mem s) pt (dstva + of_nat i)) = mem s (src + of_nat i)"
    and m1_out: "\<And>a. \<forall>i < N. a \<noteq> upa (mem s) pt (dstva + of_nat i) \<Longrightarrow> m1 a = mem s a"
    and rest: "copied_out m1 pt (dstva + of_nat N) (src + of_nat N) (L - N) m'"
  shows "copied_out (mem s) pt dstva src L m'"
proof -
  let ?m = "mem s" and ?u = "\<lambda>i. upa (mem s) pt (dstva + of_nat i)"
  have src: "\<And>i. i < L \<Longrightarrow> \<not> in_range src L (?u i)" and len: "unat src + L \<le> 2 ^ 64"
    and inj: "\<And>i j. i < L \<Longrightarrow> j < L \<Longrightarrow> ?u i = ?u j \<Longrightarrow> i = j"
    using pre unfolding copyout_pre_def by blast+
  have r_in: "m' (?u (N + i)) = m1 (src + of_nat (N + i))" if "i < L - N" for i
    using rest that unfolding copied_out_def upa by (simp add: add.assoc)
  have r_out: "m' a = m1 a" if "\<forall>i < L - N. a \<noteq> ?u (N + i)" for a
    using rest that unfolding copied_out_def upa by (simp add: add.assoc)
  have "m' (?u i) = ?m (src + of_nat i)" if i: "i < L" for i
  proof (cases "i < N")
    case True
    have "?u i \<noteq> ?u (N + j)" if "j < L - N" for j
    proof
      assume "?u i = ?u (N + j)"
      then have "i = N + j" using i that by (intro inj) simp_all
      then show False using True by simp
    qed
    then have "m' (?u i) = m1 (?u i)" by (intro r_out allI impI)
    then show ?thesis using m1_in [OF True] by simp
  next
    case False
    have "in_range src L (src + of_nat i)" using i len by (subst in_range_iff) auto
    then have "src + of_nat i \<noteq> ?u j" if "j < N" for j using src [of j] N(1) that by auto
    then have "m1 (src + of_nat i) = ?m (src + of_nat i)" by (intro m1_out allI impI)
    then show ?thesis using r_in [of "i - N"] False i by simp
  qed
  moreover have "m' a = ?m a" if "\<forall>i < L. a \<noteq> ?u i" for a
  proof -
    have "a \<noteq> ?u (N + i)" if "i < L - N" for i
      using \<open>\<forall>i < L. a \<noteq> ?u i\<close> that by (metis less_diff_conv add.commute)
    then have "m' a = m1 a" by (intro r_out allI impI)
    moreover have "m1 a = ?m a" using that N(1) by (intro m1_out) auto
    ultimately show ?thesis by simp
  qed
  ultimately show ?thesis by (simp add: copied_out_def)
qed

text \<open>One round of \<open>copyout\<close> on a writable page.\<close>

lemma copyout_round:
  assumes pre: "copyout_pre s pt dstva src L" and len: "0 < len" and N: "N = unat (chunk_len dstva len)" "N \<le> L"
    and m1: "m1 = (\<lambda>a. if in_range (upa (mem s) pt dstva) N a then mem s (src + (a - upa (mem s) pt dstva)) else mem s a)"
  shows "copyout pt dstva src len s = copyout pt (PGROUNDDOWN dstva + PGSIZE) (src + of_nat N) (len - chunk_len dstva len) (s\<lparr>mem := m1\<rparr>)"
proof -
  let ?P = "upa (mem s) pt dstva" and ?n = "chunk_len dstva len"
  note chunk = chunk_facts [where va = dstva, OF len]
  have "0 < unat len" using len by (simp add: word_less_nat_alt)
  moreover have "0 < 4096 - unat dstva mod 4096" by simp
  ultimately have pos: "0 < L" "N \<le> 4096 - unat dstva mod 4096" using chunk(1) N by linarith+
  have ok: "pt_ok s pt" and uw: "user_writable (mem s) pt dstva" and room: "unat src + L \<le> 2 ^ 64"
    using pre pos(1) unfolding copyout_pre_def by fastforce+
  then have um: "user_mapped (mem s) pt dstva" by (simp add: user_writable_def)
  have mm: "memmove ?P src (ucast ?n) (mem s) = m1"
    unfolding m1
  proof (subst memmove_spec)
    show "unat ?P + unat (ucast ?n :: u32) \<le> 2 ^ 64"
      using upa_room [OF um] um pos(2) chunk(2) N(1) unfolding user_mapped_def by linarith
    show "unat src + unat (ucast ?n :: u32) \<le> 2 ^ 64" using room N chunk(2) by simp
  qed (simp add: chunk(2) N(1))
  have "of_nat N = ?n" by (simp add: N(1))
  then show ?thesis
    using len copyout_page_mapped [OF ok um] uw mm
    by (subst copyout.simps) (simp add: upa_def Let_def user_writable_def)
qed

lemma copyout_bytes:
  assumes "copyout_pre s pt dstva src (unat len)"
  shows "\<exists>m'. copyout pt dstva src len s = Ok 0 (s\<lparr>mem := m'\<rparr>) \<and> copied_out (mem s) pt dstva src (unat len) m'"
  using assms
proof (induction "unat len" arbitrary: dstva src len s rule: less_induct)
  case less
  show ?case
  proof (cases "0 < len")
    case False
    then have "len = 0" by (simp add: word_gt_0)
    then show ?thesis by (subst copyout.simps) (auto simp: copied_out_def intro!: exI [of _ "mem s"])
  next
    case True
    define n where "n = chunk_len dstva len"
    define N where "N = unat n"
    let ?m = "mem s" and ?L = "unat len" and ?P = "upa (mem s) pt dstva"
    note chunk = chunk_facts [where va = dstva, OF True, folded n_def, folded N_def]
    have L: "0 < ?L" using True by (simp add: word_less_nat_alt)
    have "0 < 4096 - unat dstva mod 4096" by simp
    then have N: "N \<le> ?L" "N \<le> 4096 - unat dstva mod 4096" "0 < N" using chunk(1) L by linarith+
    have nN: "n = of_nat N" by (simp add: N_def)
    define m1 where m1: "m1 = (\<lambda>a. if in_range ?P N a then ?m (src + (a - ?P)) else ?m a)"
    note st = copyout_step [OF less.prems N m1]
    have step: "copyout pt dstva src len s = copyout pt (PGROUNDDOWN dstva + PGSIZE) (src + n) (len - n) (s\<lparr>mem := m1\<rparr>)"
      using copyout_round [OF less.prems True _ N(1) m1] by (simp add: N_def n_def)
    show ?thesis
    proof (cases "?L = N")
      case True
      then have z: "len - n = 0" using chunk(3) by (simp add: unat_eq_zero [symmetric])
      have "copyout pt dstva src len s = Ok 0 (s\<lparr>mem := m1\<rparr>)"
        unfolding step z by (subst copyout.simps) simp
      then show ?thesis using st(3,4) True by (auto simp: copied_out_def)
    next
      case False
      then have va: "PGROUNDDOWN dstva + PGSIZE = dstva + of_nat N" using chunk(4) [of 0] chunk(3) N(1) by simp
      have "copyout_pre (s\<lparr>mem := m1\<rparr>) pt (dstva + of_nat N) (src + of_nat N) (unat (len - n))"
        using st(5) chunk(3) by simp
      moreover have "unat (len - n) < unat len" using chunk(3) N L by simp
      ultimately obtain m' where m': "copyout pt (dstva + of_nat N) (src + of_nat N) (len - n) (s\<lparr>mem := m1\<rparr>) =
          Ok 0 (s\<lparr>mem := m'\<rparr>)" "copied_out m1 pt (dstva + of_nat N) (src + of_nat N) (?L - N) m'"
        using less.hyps [of "len - n" "s\<lparr>mem := m1\<rparr>"] chunk(3) by auto
      have "copied_out ?m pt dstva src ?L m'"
        by (rule copied_out_compose [OF less.prems N st(2-4) m'(2)])
      then show ?thesis using step m'(1) va nN by auto
    qed
  qed
qed

text \<open>
  The user may not write at \<open>va\<close>: the address is out of range, or its page is mapped without the user
  or the write permission, or it is not mapped and lies above the size of the process.
\<close>

definition user_refuses :: "nat \<Rightarrow> 'x kproc_scheme \<Rightarrow> u64 \<Rightarrow> u64 \<Rightarrow> bool" where
  "user_refuses p s pt va \<longleftrightarrow> MAXVA \<le> va \<or>
     (if pte_valid (leaf (mem s) pt va) then leaf (mem s) pt va AND PTE_U = 0 \<or> leaf (mem s) pt va AND PTE_W = 0
      else sz (procs s p) \<le> PGROUNDDOWN va)"

lemma round_below_MAXVA: "PGROUNDDOWN va < MAXVA \<longleftrightarrow> va < MAXVA"
proof -
  have "unat va div 4096 < 67108864 \<longleftrightarrow> unat va < 67108864 * 4096" by (rule div_less_iff_less_mult) simp
  then show ?thesis by (simp add: below_MAXVA unat_PGROUNDDOWN)
qed

lemma vmfault_refuses:
  fixes s :: "'x kproc_scheme"
  assumes ok: "pt_ok s pt" and p: "cproc (cpus s (tp s)) = Some p" and va: "va < MAXVA" "PGROUNDDOWN va = va"
    and r: "pte_valid (leaf (mem s) pt va) \<or> sz (procs s p) \<le> va"
  shows "\<exists>t. vmfault pt va rd s = Ok 0 t \<and> mem t = mem s \<and> procs t = procs s"
proof -
  define t where "t = s\<lparr>cpus := cpu_settle (tp s) (sstatus s) (cpus s)\<rparr>"
  have irq: "irq_ok (tp s) (sstatus s) (cpus s)" using ok by (auto simp: pt_ok_def kmem_ready_def irq_state_ok_def)
  have m: "myproc s = Ok (Some p) t" using myproc_effect [OF irq] p by (simp add: t_def)
  have okt: "pt_ok t pt" using ok by (simp add: t_def pt_ok_def) (auto simp: kmem_ready_def irq_state_ok_def kmem_inv_def free_pages_def)
  obtain pte where w: "walk pt va False t = Ok pte t" using walk_lookup [OF va(1)] by blast
  have mt: "mem t = mem s" "procs t = procs s" by (simp_all add: t_def)
  note l = walk_lookup_ok [OF okt va(1) w]
  have "vmfault pt va rd s = Ok 0 t"
  proof (cases "sz (procs s p) \<le> va")
    case True
    then show ?thesis using m by (simp add: vmfault_def get_proc_def mt)
  next
    case False
    then have v: "pte_valid (leaf (mem s) pt va)" using r by simp
    then have "pte \<noteq> 0" using l mt by (auto simp: pte_valid_def)
    then have "ismapped pt va t = Ok True t" using w l v mt by (simp add: ismapped_def load_pte_def pte_valid_def)
    then show ?thesis using m False by (simp add: vmfault_def get_proc_def mt va(2))
  qed
  then show ?thesis using mt by blast
qed

lemma copyout_page_refused:
  fixes s :: "'x kproc_scheme"
  assumes ok: "pt_ok s pt" and p: "cproc (cpus s (tp s)) = Some p" and r: "user_refuses p s pt va"
  shows "\<exists>t. copyout_page pt (PGROUNDDOWN va) s = Ok None t \<and> mem t = mem s \<and> procs t = procs s"
proof (cases "va < MAXVA")
  case False
  then have "MAXVA \<le> PGROUNDDOWN va" using round_below_MAXVA [of va] by simp
  then show ?thesis by (simp add: copyout_page_def)
next
  case True
  let ?a = "PGROUNDDOWN va"
  have lt: "?a < MAXVA" and rr: "PGROUNDDOWN ?a = ?a" using True by (simp_all add: round_below_MAXVA)
  have lf: "leaf (mem s) pt ?a = leaf (mem s) pt va" by (rule leaf_same_page [OF rr])
  obtain pte where w: "walk pt ?a False s = Ok pte s" using walk_lookup [OF lt] by blast
  note l = walk_lookup_ok [OF ok lt w] and wa = walkaddr_spec [OF ok, of ?a]
  show ?thesis
  proof (cases "pte_valid (leaf (mem s) pt va) \<and> leaf (mem s) pt va AND PTE_U \<noteq> 0 \<and> PTE2PA (leaf (mem s) pt va) \<noteq> 0")
    case True
    then have "leaf (mem s) pt va AND PTE_W = 0" using r \<open>va < MAXVA\<close> by (auto simp: user_refuses_def)
    moreover have "pte \<noteq> 0" using l True lf by (auto simp: pte_valid_def)
    ultimately have "copyout_page pt ?a s = Ok None s"
      using lt w l wa True lf by (simp add: copyout_page_def load_pte_def pte_valid_def)
    then show ?thesis by blast
  next
    case False
    then have z: "walkaddr pt ?a s = Ok 0 s" using wa lf lt by (auto simp: pte_valid_def)
    have "pte_valid (leaf (mem s) pt ?a) \<or> sz (procs s p) \<le> ?a" using r \<open>va < MAXVA\<close> lf by (auto simp: user_refuses_def split: if_splits)
    then obtain t where "vmfault pt ?a False s = Ok 0 t" "mem t = mem s" "procs t = procs s" using vmfault_refuses [OF ok p lt rr] by blast
    then have "copyout_page pt ?a s = Ok None t" "mem t = mem s" "procs t = procs s" using z lt by (simp_all add: copyout_page_def not_le)
    then show ?thesis by blast
  qed
qed

lemma copyout_refuses:
  fixes s :: "'x kproc_scheme"
  assumes "copyout_pre s pt dstva src k" "k < unat len" "user_refuses p s pt (dstva + of_nat k)" "cproc (cpus s (tp s)) = Some p"
  shows "\<exists>t. copyout pt dstva src len s = Ok (- 1) t \<and> copied_out (mem s) pt dstva src k (mem t) \<and> procs t = procs s"
  using assms
proof (induction k arbitrary: dstva src len s rule: less_induct)
  case (less k)
  have len: "0 < len" using less.prems(2) by (simp add: word_less_nat_alt)
  have ok: "pt_ok s pt" using less.prems(1) by (simp add: copyout_pre_def)
  show ?case
  proof (cases "k = 0")
    case True
    then have "user_refuses p s pt dstva" using less.prems(3) by simp
    from copyout_page_refused [OF ok less.prems(4) this] obtain t where
      "copyout_page pt (PGROUNDDOWN dstva) s = Ok None t" "mem t = mem s" "procs t = procs s" by blast
    then show ?thesis using len True by (subst copyout.simps) (simp add: copied_out_def)
  next
    case False
    define N where "N = unat (chunk_len dstva len)"
    let ?P = "upa (mem s) pt dstva"
    note chunk = chunk_facts [where va = dstva, OF len, folded N_def]
    have uw: "user_writable (mem s) pt dstva" using less.prems(1) False unfolding copyout_pre_def by fastforce
    have page: "4096 - unat dstva mod 4096 \<le> k"
    proof (rule ccontr)
      assume "\<not> 4096 - unat dstva mod 4096 \<le> k"
      then have r: "PGROUNDDOWN (dstva + of_nat k) = PGROUNDDOWN dstva" by (intro round_add(2)) simp
      have lf: "leaf (mem s) pt (dstva + of_nat k) = leaf (mem s) pt dstva" by (rule leaf_same_page [OF r])
      have "dstva + of_nat k < MAXVA" using uw r round_below_MAXVA [of "dstva + of_nat k"] round_below_MAXVA [of dstva]
        by (simp add: user_writable_def user_mapped_def)
      then show False using uw less.prems(3) by (auto simp: user_refuses_def lf user_writable_def user_mapped_def pte_valid_def)
    qed
    then have N: "N \<le> k" "N \<le> 4096 - unat dstva mod 4096" "0 < N" "N = 4096 - unat dstva mod 4096"
      using chunk(1) less.prems(2) by linarith+
    define m1 where m1: "m1 = (\<lambda>a. if in_range ?P N a then mem s (src + (a - ?P)) else mem s a)"
    let ?s = "s\<lparr>mem := m1\<rparr>"
    note st = copyout_step [OF less.prems(1) N(1-3) m1]
    have va: "PGROUNDDOWN dstva + PGSIZE = dstva + of_nat N" using chunk(4) [of 0] chunk(3) N(1) less.prems(2) by simp
    have step: "copyout pt dstva src len s = copyout pt (dstva + of_nat N) (src + of_nat N) (len - chunk_len dstva len) ?s"
      using copyout_round [OF less.prems(1) len N_def N(1) m1] va by simp
    have sh: "dstva + of_nat N + of_nat (k - N) = dstva + of_nat k"
    proof -
      have "(of_nat N :: u64) + of_nat (k - N) = of_nat (N + (k - N))" by (simp only: of_nat_add)
      then show ?thesis using N(1) by (simp only: add.assoc le_add_diff_inverse)
    qed
    have "user_refuses p ?s pt (dstva + of_nat N + of_nat (k - N))" unfolding sh using less.prems(3) by (auto simp: user_refuses_def st(1) split: if_splits)
    moreover have "k - N < k" "k - N < unat (len - chunk_len dstva len)" using N(1,3) less.prems(2) unfolding chunk(3) by linarith+
    ultimately obtain t where t: "copyout pt (dstva + of_nat N) (src + of_nat N) (len - chunk_len dstva len) ?s = Ok (- 1) t"
      "copied_out m1 pt (dstva + of_nat N) (src + of_nat N) (k - N) (mem t)" "procs t = procs s"
      using less.IH [of "k - N" ?s "dstva + of_nat N" "src + of_nat N" "len - chunk_len dstva len"] st(5) less.prems(4) by auto
    have "copied_out (mem s) pt dstva src k (mem t)" by (rule copied_out_compose [OF less.prems(1) N(1-3) st(2-4) t(2)])
    then show ?thesis using step t by auto
  qed
qed

section \<open>The interface of an address space\<close>

lemma uvmunmap_page_keep:
  assumes ok: "pt_ok s pt" and va: "va < MAXVA"
  shows "\<exists>t. uvmunmap_page pt va False s = Ok () t \<and> pt_ok t pt \<and> \<not> pte_valid (leaf (mem t) pt va) \<and>
    (\<forall>vb < MAXVA. PGROUNDDOWN vb \<noteq> PGROUNDDOWN va \<longrightarrow> leaf (mem t) pt vb = leaf (mem s) pt vb)"
proof (cases "pte_valid (leaf (mem s) pt va)")
  case False
  obtain pte where w: "walk pt va False s = Ok pte s" using walk_lookup [OF va] by blast
  have "uvmunmap_page pt va False s = Ok () s"
    using walk_lookup_ok [OF ok va w] w False by (auto simp: uvmunmap_page_def load_pte_def pte_valid_def)
  then show ?thesis using ok False by blast
next
  case True
  then obtain u where u: "node (mem s) pt (upper va) = Some u"
    by (cases "node (mem s) pt (upper va)") (auto simp: leaf_none pte_valid_def)
  let ?pte = "pte_addr u (PX 0 va)" and ?t = "s\<lparr>mem := store64 (pte_addr u (PX 0 va)) 0 (mem s)\<rparr>"
  have w: "walk pt va False s = Ok ?pte s" using walk_lookup [OF va, of pt s] u by simp
  have "?pte \<noteq> 0" using pt_ok_node [OF ok _ u] by (intro pte_addr_nonzero PX_less) simp_all
  then have r: "uvmunmap_page pt va False s = Ok () ?t"
    using w True leaf_node [OF u] by (simp add: uvmunmap_page_def load_pte_def store_pte_def upd_mem_def pte_valid_def)
  have wf: "tree_wf (mem s) pt" using ok by (simp add: pt_ok_def)
  have "leaf (mem ?t) pt vb = (if PGROUNDDOWN vb = PGROUNDDOWN va then 0 else leaf (mem s) pt vb)" if "vb < MAXVA" for vb
    using leaf_store [OF wf u, of 0 vb] same_page_indices [OF va that] by simp
  then show ?thesis using r pt_ok_store_leaf(1) [OF ok u] va by (auto simp: pte_valid_def)
qed

lemma uvmunmap_single:
  assumes "page_aligned va" "va < MAXVA"
  shows "uvmunmap pt va 1 f s = uvmunmap_page pt va f s"
proof -
  have "va < va + PGSIZE" using below_MAXVA_step [OF assms(2)] by (simp add: word_less_nat_alt)
  moreover have fin: "uvmunmap_loop pt (va + PGSIZE) (va + PGSIZE) f t = Ok () t" for t :: "'a kmachine_scheme"
    by (subst uvmunmap_loop.simps) simp
  ultimately have "uvmunmap_loop pt va (va + PGSIZE) f s = uvmunmap_page pt va f s"
    by (subst uvmunmap_loop.simps) (simp split: outcome.split)
  then show ?thesis using assms(1) by (simp add: uvmunmap_def PGSIZE_mod)
qed

text \<open>
  What the creators of address spaces rely on: entering one page and removing it change the entry
  of that page only; a failed attempt changes no entry.
\<close>

locale address_space =
  fixes good :: "'s \<Rightarrow> bool"
    and entry :: "'s \<Rightarrow> u64 \<Rightarrow> u64"
    and enter :: "u64 \<Rightarrow> u64 \<Rightarrow> u64 \<Rightarrow> ('s, int) kop"
    and remove :: "u64 \<Rightarrow> ('s, unit) kop"
  assumes enter_law: "good s \<Longrightarrow> va < MAXVA \<Longrightarrow> page_aligned va \<Longrightarrow> \<not> pte_valid (entry s va) \<Longrightarrow>
      \<exists>r t. enter va pa perm s = Ok r t \<and> good t \<and>
        (r = 0 \<and> (\<forall>vb < MAXVA. entry t vb =
             (if PGROUNDDOWN vb = PGROUNDDOWN va then PA2PTE pa OR perm OR PTE_V else entry s vb)) \<or>
         r = - 1 \<and> (\<forall>vb. entry t vb = entry s vb))"
    and remove_law: "good s \<Longrightarrow> va < MAXVA \<Longrightarrow> page_aligned va \<Longrightarrow>
      \<exists>t. remove va s = Ok () t \<and> good t \<and> \<not> pte_valid (entry t va) \<and>
        (\<forall>vb < MAXVA. PGROUNDDOWN vb \<noteq> PGROUNDDOWN va \<longrightarrow> entry t vb = entry s vb)"
begin

lemma enter_remove:
  assumes "good s" "va < MAXVA" "page_aligned va" "\<not> pte_valid (entry s va)"
  shows "\<exists>t. kthen (enter va pa perm) (remove va) s = Ok () t \<and> good t \<and> \<not> pte_valid (entry t va) \<and>
    (\<forall>vb < MAXVA. PGROUNDDOWN vb \<noteq> PGROUNDDOWN va \<longrightarrow> entry t vb = entry s vb)"
proof -
  obtain r u where u: "enter va pa perm s = Ok r u" "good u"
    "\<forall>vb < MAXVA. PGROUNDDOWN vb \<noteq> PGROUNDDOWN va \<longrightarrow> entry u vb = entry s vb"
    using enter_law [OF assms, of pa perm] by fastforce
  then show ?thesis using remove_law [OF u(2) assms(2,3)] by fastforce
qed

lemma enter_twice:
  assumes "good s" "va < MAXVA" "vb < MAXVA" "page_aligned va" "page_aligned vb" "va \<noteq> vb"
    and "\<not> pte_valid (entry s va)" "\<not> pte_valid (entry s vb)"
    and "enter va pa perm s = Ok 0 t" "enter vb pb permb t = Ok 0 u"
  shows "entry u va = PA2PTE pa OR perm OR PTE_V \<and> entry u vb = PA2PTE pb OR permb OR PTE_V"
proof -
  have ne: "PGROUNDDOWN va \<noteq> PGROUNDDOWN vb" using assms(4-6) by (simp add: PGROUNDDOWN_aligned)
  have t: "good t" "entry t va = PA2PTE pa OR perm OR PTE_V" "entry t vb = entry s vb"
    using enter_law [OF assms(1,2,4,7), of pa perm] assms(2,3,9) ne by auto
  then show ?thesis using enter_law [OF t(1) assms(3,5), of pb permb] assms(2,3,8,10) ne by auto
qed

end

interpretation vm: address_space "\<lambda>s. pt_ok s pt" "\<lambda>s. leaf (mem s) pt"
  "\<lambda>va pa perm. mappages pt va PGSIZE pa perm" "\<lambda>va. uvmunmap pt va 1 False" for pt
proof unfold_locales
  fix s :: "'x kmachine_scheme" and va pa perm
  assume "pt_ok s pt" "va < MAXVA" "page_aligned va" "\<not> pte_valid (leaf (mem s) pt va)"
  then show "\<exists>r t. mappages pt va PGSIZE pa perm s = Ok r t \<and> pt_ok t pt \<and>
        (r = 0 \<and> (\<forall>vb < MAXVA. leaf (mem t) pt vb =
             (if PGROUNDDOWN vb = PGROUNDDOWN va then PA2PTE pa OR perm OR PTE_V else leaf (mem s) pt vb)) \<or>
         r = - 1 \<and> (\<forall>vb. leaf (mem t) pt vb = leaf (mem s) pt vb))"
    using mappages_one [of s pt va pa perm] unfolding mapped_page_def tables_grow_def by blast
next
  fix s :: "'x kmachine_scheme" and va
  assume "pt_ok s pt" "va < MAXVA" "page_aligned va"
  then show "\<exists>t. uvmunmap pt va 1 False s = Ok () t \<and> pt_ok t pt \<and> \<not> pte_valid (leaf (mem t) pt va) \<and>
        (\<forall>vb < MAXVA. PGROUNDDOWN vb \<noteq> PGROUNDDOWN va \<longrightarrow> leaf (mem t) pt vb = leaf (mem s) pt vb)"
    using uvmunmap_page_keep [of s pt va] uvmunmap_single [of va pt False s] by simp
qed

section \<open>A sample page table\<close>

text \<open>
  Root table at \<open>0x80026000\<close>, with the user page \<open>0x1000\<close> mapped to \<open>0x80029000\<close> (read, write, user)
  and the page \<open>0x2000\<close> mapped to \<open>0x8002a000\<close> read-only; no page is free.
\<close>

definition sample_pt :: u64 where "sample_pt = 0x80026000"
definition RWU :: u64 where "RWU = PA2PTE 0x80029000 OR (PTE_R OR PTE_W OR PTE_U) OR PTE_V"
definition ROU :: u64 where "ROU = PA2PTE 0x8002a000 OR (PTE_R OR PTE_U) OR PTE_V"

definition sample_vm_mem :: memory where
  "sample_vm_mem = store64 (pte_addr 0x80026000 0) (PA2PTE 0x80027000 OR PTE_V) (
     store64 (pte_addr 0x80027000 0) (PA2PTE 0x80028000 OR PTE_V) (
     store64 (pte_addr 0x80028000 1) RWU (
     store64 (pte_addr 0x80028000 2) ROU (\<lambda>_. 0))))"

definition sample_vm :: kproc where
  "sample_vm = sample_kproc\<lparr>mem := sample_vm_mem, freelist := 0\<rparr>"

lemma load64_zero: "load64 (\<lambda>_. 0) a = 0"
  by (rule bit_word_eqI) (simp add: bit_load64)

lemma sample_entry:
  assumes "page_aligned t" "unat i < 512"
  shows "load64 sample_vm_mem (pte_addr t i) =
    (if t = 0x80026000 \<and> i = 0 then PA2PTE 0x80027000 OR PTE_V
     else if t = 0x80027000 \<and> i = 0 then PA2PTE 0x80028000 OR PTE_V
     else if t = 0x80028000 \<and> i = 1 then RWU
     else if t = 0x80028000 \<and> i = 2 then ROU else 0)"
proof -
  have al: "page_aligned 0x80026000" "page_aligned 0x80027000" "page_aligned 0x80028000"
    by (simp_all add: page_aligned_def)
  have other: "load64 (store64 (pte_addr u j) v m) (pte_addr t i) =
      (if t = u \<and> i = j then v else load64 m (pte_addr t i))"
    if "page_aligned u" "unat j < 512" for u j v m
    using load_other_entry [OF that(1) assms(1) that(2) assms(2), of v m] by auto
  have small: "unat (0 :: u64) < 512" "unat (1 :: u64) < 512" "unat (2 :: u64) < 512" by simp_all
  show ?thesis by (simp only: sample_vm_mem_def other [OF al(1) small(1)] other [OF al(2) small(1)]
        other [OF al(3) small(2)] other [OF al(3) small(3)] load64_zero)
qed

lemma sample_links:
  "pte_valid (PA2PTE 0x80027000 OR PTE_V)" "PTE2PA (PA2PTE 0x80027000 OR PTE_V) = 0x80027000"
  "pte_valid (PA2PTE 0x80028000 OR PTE_V)" "PTE2PA (PA2PTE 0x80028000 OR PTE_V) = 0x80028000"
  using valid_new_entry [of "0x80027000"] valid_new_entry [of "0x80028000"]
  by (simp_all add: pte_pa_def page_aligned_def)

lemma sample_node:
  assumes "tpath p"
  shows "node sample_vm_mem sample_pt p =
    (if p = [] then Some 0x80026000 else if p = [0] then Some 0x80027000
     else if p = [0, 0] then Some 0x80028000 else None)"
proof -
  have al: "page_aligned 0x80026000" "page_aligned 0x80027000" "page_aligned 0x80028000"
    by (simp_all add: page_aligned_def)
  have nv: "\<not> pte_valid 0" by (simp add: pte_valid_def)
  consider "p = []" | i where "p = [i]" "unat i < 512" | i j where "p = [i, j]" "unat i < 512" "unat j < 512"
    using assms by (cases p; cases "tl p") (auto simp: tpath_def)
  then show ?thesis
    by cases (auto simp: sample_pt_def sample_entry al sample_links nv)
qed

lemma sample_pt_ok: "pt_ok sample_vm sample_pt"
proof -
  have fields: "lock_free L_kmem (locks sample_vm)" "irq_ok (tp sample_vm) (sstatus sample_vm) (cpus sample_vm)"
    "kend sample_vm = 0x80024000" "mem sample_vm = sample_vm_mem" "freelist sample_vm = 0"
    by (simp_all add: sample_vm_def sample_kproc_def kmachine.defs boot_machine_def kernel.defs
        idle_kernel_def lock_free_def irq_ok_def)
  have inv: "kmem_inv sample_vm []" by (simp add: kmem_inv_def fields)
  have ready: "kmem_ready sample_vm" and free: "free_pages sample_vm = {}"
    using kmem_readyI [OF inv fields(1,2)] free_pages_eq [OF inv] by simp_all
  have "tables sample_vm_mem sample_pt \<subseteq> {0x80026000, 0x80027000, 0x80028000}"
    using sample_node by (auto simp: tables_def split: if_splits)
  moreover have "kpage 0x80024000 x" if "x \<in> {0x80026000, 0x80027000, 0x80028000}" for x
    using that by (auto simp: kpage_def page_aligned_def PHYSTOP_def KERNBASE_def)
  moreover have "tree_wf sample_vm_mem sample_pt"
    unfolding tree_wf_def using sample_node
    by (auto simp: page_aligned_def split: if_splits)
  ultimately show ?thesis using ready free fields by (auto simp: pt_ok_def)
qed

lemma sample_upper: "upper 0x1000 = [0, 0]" "PX 0 0x1000 = 1" "upper 0x2000 = [0, 0]" "PX 0 0x2000 = 2"
  by (simp_all add: upper_def PX_def PXSHIFT_def)

lemma sample_leaf: "leaf sample_vm_mem sample_pt 0x1000 = RWU" "leaf sample_vm_mem sample_pt 0x2000 = ROU"
proof -
  have al: "page_aligned 0x80028000" by (simp add: page_aligned_def)
  have n: "node sample_vm_mem sample_pt [0, 0] = Some 0x80028000"
    using sample_node [of "[0, 0]"] by (simp add: tpath_def)
  show "leaf sample_vm_mem sample_pt 0x1000 = RWU" "leaf sample_vm_mem sample_pt 0x2000 = ROU"
    unfolding leaf_def sample_upper n by (simp_all add: sample_entry al)
qed

lemma sample_unmapped: "\<not> pte_valid (leaf (mem sample_vm) sample_pt 0x3000)"
proof -
  have n: "node sample_vm_mem sample_pt [0, 0] = Some 0x80028000"
    using sample_node [of "[0, 0]"] by (simp add: tpath_def)
  have u: "upper 0x3000 = [0, 0]" "PX 0 0x3000 = 3" by (simp_all add: upper_def PX_def PXSHIFT_def)
  have "leaf sample_vm_mem sample_pt 0x3000 = 0"
    unfolding leaf_def u n by (simp add: sample_entry page_aligned_def)
  then show ?thesis by (simp add: sample_vm_def pte_valid_def)
qed

lemma PTE2PA_RWU: "PTE2PA RWU = 0x80029000" "PTE2PA ROU = 0x8002a000"
  by (simp_all add: RWU_def ROU_def PTE2PA_def PA2PTE_def riscv_bits)

lemma RWU_bits: "RWU AND PTE_V \<noteq> 0" "RWU AND PTE_U \<noteq> 0" "RWU AND PTE_W \<noteq> 0"
  "ROU AND PTE_V \<noteq> 0" "ROU AND PTE_U \<noteq> 0" "ROU AND PTE_W = 0"
  by (simp_all add: RWU_def ROU_def PA2PTE_def riscv_bits)

section \<open>Properties\<close>

text \<open>
  C18: \<open>mappages\<close> of one page inserts exactly one entry into the Sv39 tree. With as many free pages as
  there are tables missing on the path (at most two) it returns 0; the entry of that page then holds
  the physical address and the permissions with the valid bit, and the entry of every other page is what
  it was. It returns -1 only when fewer pages are free than tables are missing, and then no entry
  changed. In both cases the tree stays well formed and no page that is neither free nor a page
  table is written.
\<close>
theorem mappages_inserts:
  assumes "pt_ok s pt" "va < MAXVA" "page_aligned va" "\<not> pte_valid (leaf (mem s) pt va)"
  shows "\<exists>r t. mappages pt va PGSIZE pa perm s = Ok r t \<and> pt_ok t pt \<and> missing (mem s) pt (upper va) \<le> 2 \<and>
    (if r = 0 then \<forall>vb < MAXVA. leaf (mem t) pt vb =
         (if PGROUNDDOWN vb = va then PA2PTE pa OR perm OR PTE_V else leaf (mem s) pt vb)
     else r = - 1 \<and> card (free_pages s) < missing (mem s) pt (upper va) \<and> (\<forall>vb. leaf (mem t) pt vb = leaf (mem s) pt vb)) \<and>
    (\<forall>a. PGROUNDDOWN a \<notin> free_pages s \<union> tables (mem s) pt \<longrightarrow> mem t a = mem s a)"
proof -
  have va: "PGROUNDDOWN va = va" using assms(3) by (rule PGROUNDDOWN_aligned)
  have le: "missing (mem s) pt (upper va) \<le> 2" using missing_le [of "mem s" pt "upper va"] by simp
  obtain r t where t: "mappages pt va PGSIZE pa perm s = Ok r t" "r = 0 \<and> mapped_page pt va (PA2PTE pa OR perm OR PTE_V) s t \<or>
      r = - 1 \<and> tables_grow pt s t \<and> card (free_pages s) < missing (mem s) pt (upper va)"
    using mappages_one [OF assms, of pa perm] by blast
  from t(2) show ?thesis
  proof
    assume "r = 0 \<and> mapped_page pt va (PA2PTE pa OR perm OR PTE_V) s t"
    then show ?thesis using t(1) le unfolding mapped_page_def va by (intro exI [of _ r] exI [of _ t]) simp
  next
    assume "r = - 1 \<and> tables_grow pt s t \<and> card (free_pages s) < missing (mem s) pt (upper va)"
    then show ?thesis using t(1) le unfolding tables_grow_def by (intro exI [of _ r] exI [of _ t]) simp
  qed
qed

lemma sample_missing: "missing sample_vm_mem sample_pt (upper 0x3000) = 0"
proof -
  have al: "page_aligned 0x80026000" "page_aligned 0x80027000" by (simp_all add: page_aligned_def)
  have "upper 0x3000 = [0, 0]" by (simp add: upper_def PX_def PXSHIFT_def)
  then show ?thesis by (simp add: sample_pt_def sample_entry al sample_links)
qed

theorem mappages_inserts_witness:
  "\<exists>t. mappages sample_pt 0x3000 PGSIZE 0x8002b000 (PTE_R OR PTE_U) sample_vm = Ok 0 t \<and>
     leaf (mem t) sample_pt 0x3000 = PA2PTE 0x8002b000 OR (PTE_R OR PTE_U) OR PTE_V \<and> leaf (mem t) sample_pt 0x1000 = RWU"
proof -
  have m: "mem sample_vm = sample_vm_mem" by (simp add: sample_vm_def)
  have lt: "(0x1000 :: u64) < MAXVA" "(0x3000 :: u64) < MAXVA" by (simp_all add: MAXVA_def)
  have al: "page_aligned 0x3000" "PGROUNDDOWN 0x1000 = 0x1000" "PGROUNDDOWN 0x3000 = 0x3000" by (simp_all add: page_aligned_def PGROUNDDOWN_def PGSIZE_def)
  obtain r t where t: "mappages sample_pt 0x3000 PGSIZE 0x8002b000 (PTE_R OR PTE_U) sample_vm = Ok r t"
    "if r = 0 then \<forall>vb < MAXVA. leaf (mem t) sample_pt vb =
         (if PGROUNDDOWN vb = 0x3000 then PA2PTE 0x8002b000 OR (PTE_R OR PTE_U) OR PTE_V else leaf (mem sample_vm) sample_pt vb)
     else r = - 1 \<and> card (free_pages sample_vm) < missing (mem sample_vm) sample_pt (upper 0x3000) \<and>
       (\<forall>vb. leaf (mem t) sample_pt vb = leaf (mem sample_vm) sample_pt vb)"
    using mappages_inserts [OF sample_pt_ok lt(2) al(1) sample_unmapped, of "0x8002b000" "PTE_R OR PTE_U"] by blast
  then have "r = 0" using sample_missing m by (simp split: if_splits)
  then show ?thesis using t lt al sample_leaf(1) m by auto
qed

text \<open>
  \<open>copyin\<close> transfers exactly the user's bytes: if every source address is mapped for the user, it
  returns 0, the destination holds the bytes found by translating each source address, across page
  boundaries, and no other byte of memory changes.
\<close>
theorem copyin_transfers:
  assumes "pt_ok s pt" "unat dst + unat len \<le> 2 ^ 64"
    and "\<forall>i < unat len. user_mapped (mem s) pt (srcva + of_nat i)"
    and "\<forall>a. in_range dst (unat len) a \<longrightarrow> PGROUNDDOWN a \<notin> free_pages s \<union> tables (mem s) pt"
    and "\<forall>i < unat len. \<not> in_range dst (unat len) (upa (mem s) pt (srcva + of_nat i))"
  shows "\<exists>t. copyin pt dst srcva len s = Ok 0 t \<and>
    (\<forall>i < unat len. mem t (dst + of_nat i) = mem s (upa (mem s) pt (srcva + of_nat i))) \<and>
    (\<forall>a. \<not> in_range dst (unat len) a \<longrightarrow> mem t a = mem s a)"
proof -
  have "in_range dst (unat len) (dst + of_nat i)" if "i < unat len" for i
    using that assms(2) by (subst in_range_iff) auto
  then show ?thesis using copyin_bytes [OF assms] by (simp add: copied_in_def)
qed

lemma sample_mapped: "i < 4096 \<Longrightarrow> user_writable sample_vm_mem sample_pt (0x1000 + of_nat i)"
  "i < 4096 \<Longrightarrow> upa sample_vm_mem sample_pt (0x1000 + of_nat i) = 0x80029000 + of_nat i"
proof -
  assume i: "i < 4096"
  have r: "PGROUNDDOWN 0x1000 = 0x1000" by (simp add: PGROUNDDOWN_def PGSIZE_def)
  have m: "i < 4096 - unat (0x1000 :: u64) mod 4096" using i by simp
  note round = round_add [OF m]
  have l: "leaf sample_vm_mem sample_pt (0x1000 + of_nat i) = RWU"
    using leaf_same_page [OF round(2)] sample_leaf(1) by simp
  have "0x1000 + of_nat i < MAXVA" using round(1) i by (simp add: below_MAXVA)
  then show "user_writable sample_vm_mem sample_pt (0x1000 + of_nat i)"
    by (simp add: user_writable_def user_mapped_def l RWU_bits PTE2PA_RWU)
  show "upa sample_vm_mem sample_pt (0x1000 + of_nat i) = 0x80029000 + of_nat i"
    using round(2) r by (simp add: upa_def l PTE2PA_RWU)
qed

lemma sample_frame: "free_pages sample_vm \<union> tables (mem sample_vm) sample_pt \<subseteq> {0x80026000, 0x80027000, 0x80028000}"
proof -
  have "kmem_inv sample_vm []" by (simp add: kmem_inv_def sample_vm_def)
       (simp add: sample_kproc_def kmachine.defs boot_machine_def kernel.defs)
  then have "free_pages sample_vm = {}" using free_pages_eq by fastforce
  then show ?thesis using sample_node by (auto simp: tables_def sample_vm_def split: if_splits)
qed

lemma sample_kernel_buffer:
  assumes "in_range 0x8002c000 8 a"
  shows "PGROUNDDOWN a = 0x8002c000"
proof -
  have "page_aligned 0x8002c000" by (simp add: page_aligned_def)
  then show ?thesis using in_range_8_page [OF assms] by (simp add: in_page_offset)
qed

lemma sample_buffer_apart: "i < 8 \<Longrightarrow> \<not> in_range 0x8002c000 8 (0x80029000 + of_nat i)"
proof
  assume i: "i < 8" and "in_range 0x8002c000 8 (0x80029000 + of_nat i)"
  then have "PGROUNDDOWN (0x80029000 + of_nat i) = 0x8002c000" by (simp add: sample_kernel_buffer)
  moreover have "PGROUNDDOWN (0x80029000 + of_nat i) = 0x80029000"
    using round_add(2) [of i "0x80029000"] i by (simp add: PGROUNDDOWN_def PGSIZE_def)
  ultimately show False by simp
qed

theorem copyin_transfers_witness:
  "\<exists>t. copyin sample_pt 0x8002c000 0x1000 8 sample_vm = Ok 0 t \<and>
     mem t (0x8002c000 + of_nat 3) = mem sample_vm (0x80029000 + of_nat 3)"
proof -
  have m: "mem sample_vm = sample_vm_mem" by (simp add: sample_vm_def)
  have "\<exists>t. copyin sample_pt 0x8002c000 0x1000 8 sample_vm = Ok 0 t \<and>
      (\<forall>i < unat (8 :: u64). mem t (0x8002c000 + of_nat i) = mem sample_vm (upa (mem sample_vm) sample_pt (0x1000 + of_nat i))) \<and>
      (\<forall>a. \<not> in_range 0x8002c000 (unat (8 :: u64)) a \<longrightarrow> mem t a = mem sample_vm a)"
    using sample_frame sample_kernel_buffer sample_buffer_apart sample_mapped
    by (intro copyin_transfers sample_pt_ok) (auto simp: m user_writable_def)
  then obtain t where t: "copyin sample_pt 0x8002c000 0x1000 8 sample_vm = Ok 0 t"
    "\<forall>i < unat (8 :: u64). mem t (0x8002c000 + of_nat i) = mem sample_vm (upa (mem sample_vm) sample_pt (0x1000 + of_nat i))"
    by blast
  then show ?thesis using t(2) [rule_format, of 3] sample_mapped(2) [of 3] m by auto
qed

text \<open>
  C7: \<open>copyout\<close> transfers exactly the kernel's bytes: if every destination address is mapped writable
  for the user (each page to its own frame), it returns 0, each translated destination address
  holds the corresponding source byte, and no other byte of memory changes. If the user may not write
  at some address of the destination (out of range, no user permission, no write permission, or
  neither mapped nor below the size of the process), it returns -1 having written the bytes before
  the first such address and nothing else.
\<close>
theorem copyout_transfers:
  fixes s :: "'x kproc_scheme"
  assumes "cproc (cpus s (tp s)) = Some p"
  shows "(copyout_pre s pt dstva src (unat len) \<longrightarrow>
      (\<exists>t. copyout pt dstva src len s = Ok 0 t \<and>
        (\<forall>i < unat len. mem t (upa (mem s) pt (dstva + of_nat i)) = mem s (src + of_nat i)) \<and>
        (\<forall>a. (\<forall>i < unat len. a \<noteq> upa (mem s) pt (dstva + of_nat i)) \<longrightarrow> mem t a = mem s a))) \<and>
    (\<forall>k < unat len. copyout_pre s pt dstva src k \<and> user_refuses p s pt (dstva + of_nat k) \<longrightarrow>
      (\<exists>t. copyout pt dstva src len s = Ok (- 1) t \<and> procs t = procs s \<and>
        (\<forall>i < k. mem t (upa (mem s) pt (dstva + of_nat i)) = mem s (src + of_nat i)) \<and>
        (\<forall>a. (\<forall>i < k. a \<noteq> upa (mem s) pt (dstva + of_nat i)) \<longrightarrow> mem t a = mem s a)))"
proof (intro conjI allI impI)
  assume "copyout_pre s pt dstva src (unat len)"
  then show "\<exists>t. copyout pt dstva src len s = Ok 0 t \<and>
        (\<forall>i < unat len. mem t (upa (mem s) pt (dstva + of_nat i)) = mem s (src + of_nat i)) \<and>
        (\<forall>a. (\<forall>i < unat len. a \<noteq> upa (mem s) pt (dstva + of_nat i)) \<longrightarrow> mem t a = mem s a)"
    using copyout_bytes [of s pt dstva src len] by (auto simp: copied_out_def)
next
  fix k assume "k < unat len" "copyout_pre s pt dstva src k \<and> user_refuses p s pt (dstva + of_nat k)"
  then show "\<exists>t. copyout pt dstva src len s = Ok (- 1) t \<and> procs t = procs s \<and>
        (\<forall>i < k. mem t (upa (mem s) pt (dstva + of_nat i)) = mem s (src + of_nat i)) \<and>
        (\<forall>a. (\<forall>i < k. a \<noteq> upa (mem s) pt (dstva + of_nat i)) \<longrightarrow> mem t a = mem s a)"
    using copyout_refuses [of s pt dstva src k len p] assms by (auto simp: copied_out_def)
qed

text \<open>The last eight bytes of the writable page \<open>0x1000\<close> and, behind them, the read-only page \<open>0x2000\<close>.\<close>

definition sample_user :: kproc where
  "sample_user = sample_vm\<lparr>cpus := set_cproc 0 (Some 0) (cpus sample_vm)\<rparr>"

lemma sample_user_ok: "pt_ok sample_user sample_pt" "mem sample_user = sample_vm_mem" "free_pages sample_user = free_pages sample_vm"
  "cproc (cpus sample_user (tp sample_user)) = Some 0"
proof -
  have tp: "tp sample_user = 0" by (simp add: sample_user_def sample_vm_def)
  show m: "mem sample_user = sample_vm_mem" by (simp add: sample_user_def sample_vm_def)
  show f: "free_pages sample_user = free_pages sample_vm" by (simp add: sample_user_def free_pages_def)
  show "cproc (cpus sample_user (tp sample_user)) = Some 0" unfolding tp by (simp add: sample_user_def set_cproc_def)
  have "kmem_inv sample_user ps = kmem_inv sample_vm ps" for ps by (simp add: sample_user_def kmem_inv_def)
  then have "kmem_ready sample_user" using sample_pt_ok by (auto simp: pt_ok_def kmem_ready_def irq_state_ok_def irq_ok_def sample_user_def set_cproc_def)
  then show "pt_ok sample_user sample_pt" using sample_pt_ok m f by (simp add: pt_ok_def) (simp add: sample_user_def sample_vm_def)
qed

lemma sample_page_end: "i < 8 \<Longrightarrow> user_writable sample_vm_mem sample_pt (0x1ff8 + of_nat i)"
  "i < 8 \<Longrightarrow> upa sample_vm_mem sample_pt (0x1ff8 + of_nat i) = 0x80029ff8 + of_nat i"
proof -
  assume i: "i < 8"
  have "(0x1ff8 :: u64) + of_nat i = 0x1000 + of_nat (0xff8 + i)" "(0x80029ff8 :: u64) + of_nat i = 0x80029000 + of_nat (0xff8 + i)" by simp_all
  then show "user_writable sample_vm_mem sample_pt (0x1ff8 + of_nat i)" "upa sample_vm_mem sample_pt (0x1ff8 + of_nat i) = 0x80029ff8 + of_nat i"
    using sample_mapped [of "0xff8 + i"] i by simp_all
qed

theorem copyout_transfers_witness:
  "(\<exists>t. copyout sample_pt 0x1ff8 0x8002c000 8 sample_user = Ok 0 t) \<and>
   (\<exists>t. copyout sample_pt 0x1ff8 0x8002c000 16 sample_user = Ok (- 1) t \<and> mem t (0x80029ff8 + of_nat 3) = mem sample_user (0x8002c000 + of_nat 3) \<and>
      mem t 0x8002a000 = mem sample_user 0x8002a000)"
proof -
  note m = sample_user_ok(2,3)
  have pg: "PGROUNDDOWN (0x80029ff8 + of_nat i) = 0x80029000" if "i < 8" for i
    using round_add(2) [of i "0x80029ff8"] that by (simp add: PGROUNDDOWN_def PGSIZE_def)
  have ap: "\<not> in_range 0x8002c000 8 (0x80029ff8 + of_nat i)" if "i < 8" for i
    using sample_kernel_buffer [of "0x80029ff8 + of_nat i"] pg [OF that] by auto
  have pre: "copyout_pre sample_user sample_pt 0x1ff8 0x8002c000 8"
    unfolding copyout_pre_def
    using sample_user_ok(1) sample_page_end sample_frame pg ap
    by (auto simp: m unat_of_nat word_of_nat_eq_iff take_bit_nat_eq_self) (auto simp: sample_vm_def)
  have ne: "(0x8002a000 :: u64) \<noteq> 0x80029ff8 + of_nat i" if "i < 8" for i
    using pg [OF that] by (auto simp: PGROUNDDOWN_def PGSIZE_def)
  have "user_refuses 0 sample_user sample_pt (0x1ff8 + of_nat 8)"
    by (simp add: user_refuses_def m sample_leaf RWU_bits pte_valid_def)
  moreover have "\<exists>t. copyout sample_pt 0x1ff8 0x8002c000 8 sample_user = Ok 0 t"
    using copyout_transfers [OF sample_user_ok(4), of sample_pt "0x1ff8" "0x8002c000" 8] pre by auto
  moreover have "8 < unat (16 :: u64)" by simp
  ultimately obtain t where t: "copyout sample_pt 0x1ff8 0x8002c000 16 sample_user = Ok (- 1) t"
    "\<forall>i < 8. mem t (upa (mem sample_user) sample_pt (0x1ff8 + of_nat i)) = mem sample_user (0x8002c000 + of_nat i)"
    "\<forall>a. (\<forall>i < 8. a \<noteq> upa (mem sample_user) sample_pt (0x1ff8 + of_nat i)) \<longrightarrow> mem t a = mem sample_user a"
    "\<exists>t. copyout sample_pt 0x1ff8 0x8002c000 8 sample_user = Ok 0 t"
    using copyout_transfers [OF sample_user_ok(4), of sample_pt "0x1ff8" "0x8002c000" 16] pre by blast
  have "mem t (0x80029ff8 + of_nat 3) = mem sample_user (0x8002c000 + of_nat 3)"
    using t(2) [rule_format, of 3] sample_page_end(2) [of 3] unfolding m by simp
  moreover have "mem t 0x8002a000 = mem sample_user 0x8002a000"
    by (rule t(3) [rule_format]) (simp only: m sample_page_end(2) ne not_False_eq_True)
  ultimately show ?thesis using t(1,4) by blast
qed

text \<open>
  Entering a page with \<open>mappages\<close> and removing it again with \<open>uvmunmap\<close> leaves every other
  mapping as it was and the page unmapped, whether or not there was memory for the tables.
\<close>
theorem mappages_uvmunmap:
  assumes "pt_ok s pt" "va < MAXVA" "page_aligned va" "\<not> pte_valid (leaf (mem s) pt va)"
  shows "\<exists>t. kthen (mappages pt va PGSIZE pa perm) (uvmunmap pt va 1 False) s = Ok () t \<and> pt_ok t pt \<and>
    \<not> pte_valid (leaf (mem t) pt va) \<and>
    (\<forall>vb < MAXVA. PGROUNDDOWN vb \<noteq> PGROUNDDOWN va \<longrightarrow> leaf (mem t) pt vb = leaf (mem s) pt vb)"
  by (rule vm.enter_remove [OF assms])

theorem mappages_uvmunmap_witness:
  "\<exists>t. kthen (mappages sample_pt 0x3000 PGSIZE 0x8002b000 PTE_R) (uvmunmap sample_pt 0x3000 1 False) sample_vm =
     Ok () t \<and> leaf (mem t) sample_pt 0x1000 = RWU"
proof -
  have m: "mem sample_vm = sample_vm_mem" by (simp add: sample_vm_def)
  note h = sample_unmapped
  have "(0x1000 :: u64) < MAXVA" "(0x3000 :: u64) < MAXVA" "page_aligned 0x3000"
    "PGROUNDDOWN 0x1000 \<noteq> PGROUNDDOWN 0x3000"
    by (simp_all add: MAXVA_def page_aligned_def PGROUNDDOWN_def PGSIZE_def)
  then show ?thesis
    using mappages_uvmunmap [OF sample_pt_ok _ _ h, of "0x8002b000" PTE_R] sample_leaf(1) m by fastforce
qed

end
