(* ===== verification/Xv6_Proc.thy ===== *)
theory Xv6_Proc
  imports Xv6_Vm
begin

text \<open>
  Process creation and reclamation (\<open>allocproc\<close>, \<open>freeproc\<close>, \<open>proc_pagetable\<close>, \<open>growproc\<close>,
  \<open>kwait\<close> of proc.c), the system call arguments (syscall.c) and the calls of sysproc.c that need
  them. The trapframe lives in memory at the address \<open>p->trapframe\<close>, at the offsets given in
  proc.h.
\<close>

section \<open>The trapframe\<close>

definition TF_kernel_satp :: u64 where "TF_kernel_satp = 0"
definition TF_kernel_sp :: u64 where "TF_kernel_sp = 8"
definition TF_kernel_trap :: u64 where "TF_kernel_trap = 16"
definition TF_epc :: u64 where "TF_epc = 24"
definition TF_kernel_hartid :: u64 where "TF_kernel_hartid = 32"
definition TF_sp :: u64 where "TF_sp = 48"
definition TF_a :: "nat \<Rightarrow> u64" where "TF_a n = 112 + 8 * of_nat n"

definition load_tf :: "nat \<Rightarrow> u64 \<Rightarrow> ('x kproc_scheme, u64) kop" where
  "load_tf p off = gets (\<lambda>s. load64 (mem s) (trapframe (procs s p) + off))"

definition store_tf :: "nat \<Rightarrow> u64 \<Rightarrow> u64 \<Rightarrow> ('x kproc_scheme, unit) kop" where
  "store_tf p off v = modify (\<lambda>s. s\<lparr>mem := store64 (trapframe (procs s p) + off) v (mem s)\<rparr>)"

section \<open>proc.c: creating and freeing processes\<close>

definition proc_pagetable :: "nat \<Rightarrow> ('x kproc_scheme, u64) kop" where
  "proc_pagetable p =
     kbind uvmcreate (\<lambda>pt.
     if pt = 0 then ret 0 else
     kbind (gets trampoline) (\<lambda>tr.
     kbind (mappages pt TRAMPOLINE PGSIZE tr (PTE_R OR PTE_X)) (\<lambda>r.
     if r < 0 then kthen (uvmfree pt 0) (ret 0) else
     kbind (get_proc p) (\<lambda>q.
     kbind (mappages pt TRAPFRAME PGSIZE (trapframe q) (PTE_R OR PTE_W)) (\<lambda>r.
     if r < 0 then
       kthen (uvmunmap pt TRAMPOLINE 1 False) (
       kthen (uvmfree pt 0) (
       ret 0))
     else ret pt)))))"

definition proc_freepagetable :: "u64 \<Rightarrow> u64 \<Rightarrow> ('x kproc_scheme, unit) kop" where
  "proc_freepagetable pt n =
     kthen (uvmunmap pt TRAMPOLINE 1 False) (
     kthen (uvmunmap pt TRAPFRAME 1 False) (
     uvmfree pt n))"

definition freeproc :: "nat \<Rightarrow> ('x kproc_scheme, unit) kop" where
  "freeproc p =
     kbind (get_proc p) (\<lambda>q.
     kthen (kwhen (trapframe q \<noteq> 0) (kfree (trapframe q))) (
     kthen (upd_proc p (\<lambda>q. q\<lparr>trapframe := 0\<rparr>)) (
     kthen (kwhen (pagetable q \<noteq> 0) (proc_freepagetable (pagetable q) (sz q))) (
     upd_proc p (\<lambda>q. q\<lparr>pagetable := 0, sz := 0, pid := 0, parent := None, pname := (pname q)[0 := 0],
        chan := Chan_none, pkilled := 0, xstate := 0, state := UNUSED\<rparr>)))))"

definition allocproc_claim :: "nat \<Rightarrow> ('x kproc_scheme, nat option) kop" where
  "allocproc_claim p =
     kthen (acquire (L_proc p)) (
     kbind (get_proc p) (\<lambda>q.
     if state q = UNUSED then ret (Some p)
     else kthen (release (L_proc p)) (ret None)))"

definition init_context :: "u64 \<Rightarrow> u64 \<Rightarrow> kcontext" where
  "init_context ra sp = \<lparr>ctx_ra = ra, ctx_sp = sp, ctx_s = replicate 12 0\<rparr>"

text \<open>The part after the label \<open>found\<close>.\<close>

definition allocproc_found :: "nat \<Rightarrow> ('x kproc_scheme, nat option) kop" where
  "allocproc_found p =
     kbind allocpid (\<lambda>n.
     kthen (upd_proc p (\<lambda>q. q\<lparr>pid := n\<rparr>)) (
     kthen (upd_proc p (\<lambda>q. q\<lparr>state := USED\<rparr>)) (
     kbind kalloc (\<lambda>tf.
     kthen (upd_proc p (\<lambda>q. q\<lparr>trapframe := tf\<rparr>)) (
     if tf = 0 then
       kthen (freeproc p) (
       kthen (release (L_proc p)) (
       ret None))
     else
       kbind (proc_pagetable p) (\<lambda>pt.
       kthen (upd_proc p (\<lambda>q. q\<lparr>pagetable := pt\<rparr>)) (
       if pt = 0 then
         kthen (freeproc p) (
         kthen (release (L_proc p)) (
         ret None))
       else
         kbind (gets forkret_pc) (\<lambda>fr.
         kthen (upd_proc p (\<lambda>q. q\<lparr>pcontext := init_context fr (kstack q + PGSIZE)\<rparr>)) (
         ret (Some p))))))))))"

definition allocproc :: "('x kproc_scheme, nat option) kop" where
  "allocproc =
     kbind (scan allocproc_claim [0..<NPROC]) (\<lambda>r.
     case r of None \<Rightarrow> ret None | Some p \<Rightarrow> allocproc_found p)"

text \<open>
  \<open>n\<close> is an \<open>int\<close>; in \<open>sz + n\<close> it is converted to \<open>uint64\<close> and the sum wraps.
\<close>

definition growproc :: "int \<Rightarrow> ('x kproc_scheme, int) kop" where
  "growproc n =
     kbind myproc (\<lambda>mp.
     kbind (deref mp) (\<lambda>p.
     kbind (get_proc p) (\<lambda>q.
     if n > 0 then
       if sz q + word_of_int n > TRAPFRAME then ret (- 1) else
       kbind (uvmalloc (pagetable q) (sz q) (sz q + word_of_int n) PTE_W) (\<lambda>newsz.
       if newsz = 0 then ret (- 1) else
       kthen (upd_proc p (\<lambda>q. q\<lparr>sz := newsz\<rparr>)) (ret 0))
     else if n < 0 then
       kbind (uvmdealloc (pagetable q) (sz q) (sz q + word_of_int n)) (\<lambda>newsz.
       kthen (upd_proc p (\<lambda>q. q\<lparr>sz := newsz\<rparr>)) (ret 0))
     else kthen (upd_proc p (\<lambda>q. q\<lparr>sz := sz q\<rparr>)) (ret 0))))"

subsection \<open>kwait\<close>

definition int_bytes :: "int \<Rightarrow> u8 list" where
  "int_bytes n = map (\<lambda>i. ucast (drop_bit (8 * i) (word_of_int n :: u32))) [0..<4]"

text \<open>
  The scan for a zombie child: \<open>Inl r\<close> is \<open>return r\<close> (with both locks released), \<open>Inr havekids\<close>
  means that the table was exhausted.
\<close>

fun kwait_scan :: "nat \<Rightarrow> u64 \<Rightarrow> nat list \<Rightarrow> bool \<Rightarrow> ('x kproc_scheme, int + bool) kop" where
  "kwait_scan p addr [] havekids = ret (Inr havekids)"
| "kwait_scan p addr (pp # pps) havekids =
     kbind (get_proc pp) (\<lambda>c.
     if parent c = Some p then
       kthen (acquire (L_proc pp)) (
       kbind (get_proc pp) (\<lambda>c.
       if state c = ZOMBIE then
         kbind (get_proc p) (\<lambda>me.
         kbind (if addr \<noteq> 0 then copyout_local (pagetable me) addr (int_bytes (xstate c)) else ret 0) (\<lambda>r.
         if addr \<noteq> 0 \<and> r < 0 then
           kthen (release (L_proc pp)) (
           kthen (release L_wait) (
           ret (Inl (- 1))))
         else
           kthen (freeproc pp) (
           kthen (release (L_proc pp)) (
           kthen (release L_wait) (
           ret (Inl (pid c)))))))
       else kthen (release (L_proc pp)) (kwait_scan p addr pps True)))
     else kwait_scan p addr pps havekids)"

text \<open>One round of the \<open>for(;;)\<close> loop, entered with \<open>wait_lock\<close> held; after \<open>sleep\<close> it is run again.\<close>

definition kwait_round :: "nat \<Rightarrow> u64 \<Rightarrow> ('x kproc_scheme, int) kop" where
  "kwait_round p addr =
     kbind (kwait_scan p addr [0..<NPROC] False) (\<lambda>r.
     case r of
       Inl v \<Rightarrow> ret v
     | Inr havekids \<Rightarrow>
         kbind (if \<not> havekids then ret True else kbind (killed p) (\<lambda>k. ret (k \<noteq> 0))) (\<lambda>give_up.
         if give_up then kthen (release L_wait) (ret (- 1))
         else kthen (sleep (Chan_proc p) L_wait) (ret 0)))"

definition kwait :: "u64 \<Rightarrow> ('x kproc_scheme, int) kop" where
  "kwait addr =
     kbind myproc (\<lambda>mp.
     kbind (deref mp) (\<lambda>p.
     kthen (acquire L_wait) (
     kwait_round p addr)))"

section \<open>syscall.c: arguments\<close>

definition fetchaddr :: "u64 \<Rightarrow> ('x kproc_scheme, int \<times> u64) kop" where
  "fetchaddr addr =
     kbind myproc (\<lambda>mp.
     kbind (deref mp) (\<lambda>p.
     kbind (get_proc p) (\<lambda>q.
     if addr \<ge> sz q \<or> addr + 8 > sz q then ret (- 1, 0) else
     kbind (copyin_local (pagetable q) addr 8 []) (\<lambda>(r, bs).
     if r \<noteq> 0 then ret (- 1, le_word bs) else ret (0, le_word bs)))))"

definition fetchstr :: "u64 \<Rightarrow> u64 \<Rightarrow> int \<Rightarrow> ('x kproc_scheme, int) kop" where
  "fetchstr addr buf mx =
     kbind myproc (\<lambda>mp.
     kbind (deref mp) (\<lambda>p.
     kbind (get_proc p) (\<lambda>q.
     kbind (copyinstr (pagetable q) buf addr (word_of_int mx)) (\<lambda>r.
     if r < 0 then ret (- 1) else
     kbind (gets (\<lambda>s. strlen buf (mem s))) (\<lambda>n.
     case n of Some k \<Rightarrow> ret (int k) | None \<Rightarrow> Spin)))))"

definition argraw :: "nat \<Rightarrow> ('x kproc_scheme, u64) kop" where
  "argraw n =
     kbind myproc (\<lambda>mp.
     if n \<le> 5 then kbind (deref mp) (\<lambda>p. load_tf p (TF_a n))
     else panic ''argraw'')"

definition argint :: "nat \<Rightarrow> ('x kproc_scheme, int) kop" where
  "argint n = kbind (argraw n) (\<lambda>v. ret (i32 (uint v)))"

definition argaddr :: "nat \<Rightarrow> ('x kproc_scheme, u64) kop" where
  "argaddr n = argraw n"

definition argstr :: "nat \<Rightarrow> u64 \<Rightarrow> int \<Rightarrow> ('x kproc_scheme, int) kop" where
  "argstr n buf mx = kbind (argaddr n) (\<lambda>addr. fetchstr addr buf mx)"

section \<open>sysproc.c\<close>

definition SBRK_EAGER :: int where "SBRK_EAGER = 1"

definition sys_wait :: "('x kproc_scheme, u64) kop" where
  "sys_wait = kbind (argaddr 0) (\<lambda>p. kbind (kwait p) (\<lambda>r. ret (word_of_int r)))"

definition sys_kill :: "('x kproc_scheme, u64) kop" where
  "sys_kill = kbind (argint 0) (\<lambda>n. kbind (kkill n) (\<lambda>r. ret (word_of_int r)))"

definition sys_sbrk :: "('x kproc_scheme, u64) kop" where
  "sys_sbrk =
     kbind (argint 0) (\<lambda>n.
     kbind (argint 1) (\<lambda>t.
     kbind myproc (\<lambda>mp.
     kbind (deref mp) (\<lambda>p.
     kbind (get_proc p) (\<lambda>q.
     let addr = sz q in
     if t = SBRK_EAGER \<or> n < 0 then
       kbind (growproc n) (\<lambda>r. if r < 0 then ret (- 1) else ret addr)
     else if addr + word_of_int n < addr then ret (- 1)
     else if addr + word_of_int n > TRAPFRAME then ret (- 1)
     else
       kbind myproc (\<lambda>mp.
       kbind (deref mp) (\<lambda>p.
       kthen (upd_proc p (\<lambda>q. q\<lparr>sz := sz q + word_of_int n\<rparr>)) (
       ret addr))))))))"

text \<open>The loop of \<open>sys_pause\<close>, entered with \<open>tickslock\<close> held; after \<open>sleep\<close> it is run again.\<close>

definition sys_pause_round :: "u32 \<Rightarrow> int \<Rightarrow> ('x kproc_scheme, u64) kop" where
  "sys_pause_round ticks0 n =
     kbind (gets ticks) (\<lambda>tk.
     if tk - ticks0 < word_of_int n then
       kbind myproc (\<lambda>mp.
       kbind (deref mp) (\<lambda>p.
       kbind (killed p) (\<lambda>k.
       if k \<noteq> 0 then kthen (release L_ticks) (ret (- 1))
       else kthen (sleep Chan_ticks L_ticks) (ret 0))))
     else kthen (release L_ticks) (ret 0))"

definition sys_pause :: "('x kproc_scheme, u64) kop" where
  "sys_pause =
     kbind (argint 0) (\<lambda>n.
     kthen (acquire L_ticks) (
     kbind (gets ticks) (\<lambda>ticks0.
     sys_pause_round ticks0 (if n < 0 then 0 else n))))"

section \<open>Frames\<close>

lemma more_kproc:
  fixes s u :: "'x kproc_scheme"
  assumes "kmachine.more u = kmachine.more s"
  shows "procs u = procs s" "initproc u = initproc s" "nextpid u = nextpid s" "trampoline u = trampoline s"
    "forkret_pc u = forkret_pc s"
  using assms by (cases u; cases s; simp)+

lemmas only_mem_procs = more_kproc [OF only_mem_fields(6)]

lemma noff_only_mem: "only_mem s u \<Longrightarrow> noff (cpus u h) = noff (cpus s h)"
  using only_mem_fields(5) [of s u] by (metis noff_settle settle_cpus)

lemma cproc_only_mem: "only_mem s u \<Longrightarrow> cproc (cpus u h) = cproc (cpus s h)"
  using only_mem_fields(5) [of s u] by (metis cproc_effects(1) settle_cpus)

lemma irq_ok_only_mem: "only_mem s u \<Longrightarrow> irq_state_ok u = irq_state_ok s"
  by (simp add: irq_state_ok_def irq_ok_def only_mem_fields noff_only_mem)

text \<open>The allocator and the page tables do not look at the process table.\<close>

lemma kmem_ready_kproc [simp]:
  "kmem_ready (s\<lparr>procs := x\<rparr>) = kmem_ready s" "kmem_ready (s\<lparr>nextpid := n\<rparr>) = kmem_ready s"
  by (simp_all add: kmem_ready_def kmem_inv_def irq_state_ok_def)

lemma free_pages_kproc [simp]:
  "free_pages (s\<lparr>procs := x\<rparr>) = free_pages s" "free_pages (s\<lparr>nextpid := n\<rparr>) = free_pages s"
  by (simp_all add: free_pages_def)

lemma pt_ok_kproc [simp]:
  "pt_ok (s\<lparr>procs := x\<rparr>) pt = pt_ok s pt" "pt_ok (s\<lparr>nextpid := n\<rparr>) pt = pt_ok s pt"
  by (simp_all add: pt_ok_def)

section \<open>A new page table\<close>

lemma uvmcreate_fresh:
  assumes ready: "kmem_ready s" and ne: "free_pages s \<noteq> {}"
  shows "\<exists>pt u. uvmcreate s = Ok pt u \<and> pt \<in> free_pages s \<and> pt_ok u pt \<and> only_mem s u \<and>
    free_pages u = free_pages s - {pt} \<and> (\<forall>va. leaf (mem u) pt va = 0) \<and> tables (mem u) pt = {pt} \<and>
    (\<forall>a. PGROUNDDOWN a \<notin> free_pages s \<longrightarrow> mem u a = mem s a)"
proof -
  obtain pt v where v: "kalloc s = Ok pt v" "pt \<in> free_pages s" "free_pages v = free_pages s - {pt}"
    "kmem_ready v" "\<forall>a. \<not> in_page pt a \<longrightarrow> mem v a = mem s a"
    using kmem.alloc_page [OF ready ne] by blast
  note om = kalloc_only_mem [OF ready v(1)]
  have k: "kpage (kend s) pt" "pt \<noteq> 0"
    using kmem.avail_page [OF ready v(2)] kmem.page_nonzero [OF ready] by blast+
  have al: "page_aligned pt" using k(1) by (simp add: kpage_def)
  let ?m = "memset pt 0 (ucast PGSIZE) (mem v)"
  let ?u = "v\<lparr>mem := ?m\<rparr>"
  have r: "uvmcreate s = Ok pt ?u" using v(1) k(2) by (simp add: uvmcreate_def upd_mem_def)
  have ru: "kmem_ready ?u \<and> free_pages ?u = free_pages v"
    using v(3,4) al by (intro kmem_ready_write) (auto simp: memset_page in_page_offset)
  have z: "zero_page ?m pt" by (simp add: zero_page_def memset_page)
  have n: "node ?m pt q = (if q = [] then Some pt else None)" if "tpath q" for q
    using that node_zero_page [OF z al] by (cases q) auto
  have tab: "tables ?m pt = {pt}"
  proof -
    have "\<exists>q. tpath q \<and> node ?m pt q = Some pt" by (intro exI [of _ "[]"]) simp
    then show ?thesis using n by (auto simp: tables_def split: if_splits)
  qed
  have "tree_wf ?m pt" using n al by (auto simp: tree_wf_def split: if_splits)
  moreover have "kend v = kend s" using only_mem_fields(4) [OF om] .
  ultimately have ok: "pt_ok ?u pt" using ru tab k(1) v(3) by (simp add: pt_ok_def)
  have "leaf ?m pt va = 0" for va
  proof -
    have "upper va \<noteq> []" by (simp add: upper_def)
    then show ?thesis using n [OF tpath_simps(3)] by (intro leaf_none) simp
  qed
  moreover have "?m a = mem s a" if "PGROUNDDOWN a \<notin> free_pages s" for a
    using that v(2,5) al by (auto simp: memset_page in_page_offset)
  ultimately show ?thesis using r ok om ru v(2,3) tab by (intro exI [of _ pt] exI [of _ ?u]) simp
qed

lemma high_pages:
  "TRAMPOLINE < MAXVA" "page_aligned TRAMPOLINE" "TRAPFRAME < MAXVA" "page_aligned TRAPFRAME"
  "PGROUNDDOWN TRAMPOLINE = TRAMPOLINE" "PGROUNDDOWN TRAPFRAME = TRAPFRAME" "TRAMPOLINE \<noteq> TRAPFRAME"
  by (simp_all add: TRAMPOLINE_def TRAPFRAME_def MAXVA_def PGSIZE_def page_aligned_def PGROUNDDOWN_def)

lemma proc_pagetable_new:
  assumes ready: "kmem_ready s" and card: "5 \<le> card (free_pages s)"
  shows "\<exists>pt u. proc_pagetable p s = Ok pt u \<and> pt \<noteq> 0 \<and> pt_ok u pt \<and> only_mem s u \<and>
    free_pages u \<subseteq> free_pages s \<and>
    (\<forall>va < MAXVA. leaf (mem u) pt va =
       (if PGROUNDDOWN va = TRAMPOLINE then PA2PTE (trampoline s) OR (PTE_R OR PTE_X) OR PTE_V
        else if PGROUNDDOWN va = TRAPFRAME then PA2PTE (trapframe (procs s p)) OR (PTE_R OR PTE_W) OR PTE_V
        else 0)) \<and>
    (\<forall>a. PGROUNDDOWN a \<notin> free_pages s \<longrightarrow> mem u a = mem s a) \<and>
    tables (mem u) pt \<subseteq> free_pages s \<and> card (free_pages s) \<le> card (free_pages u) + 5"
proof -
  have fin: "finite (free_pages s)" using kmem.avail_finite [OF ready] .
  then have ne: "free_pages s \<noteq> {}" using card by auto
  obtain pt a where a: "uvmcreate s = Ok pt a" "pt \<in> free_pages s" "pt_ok a pt" "only_mem s a"
    "free_pages a = free_pages s - {pt}" "\<And>va. leaf (mem a) pt va = 0"
    "\<And>x. PGROUNDDOWN x \<notin> free_pages s \<Longrightarrow> mem a x = mem s x" "tables (mem a) pt = {pt}"
    using uvmcreate_fresh [OF ready ne] by blast
  have ca: "4 \<le> card (free_pages a)" using a(2,5) card fin by simp
  have pt0: "pt \<noteq> 0" using kmem.page_nonzero [OF ready kmem.avail_page [OF ready a(2)]] .
  let ?x1 = "PA2PTE (trampoline s) OR (PTE_R OR PTE_X) OR PTE_V"
  have f1: "\<not> pte_valid (leaf (mem a) pt TRAMPOLINE)" using a(6) by (simp add: pte_valid_def)
  obtain b where b: "mappages pt TRAMPOLINE PGSIZE (trampoline s) (PTE_R OR PTE_X) a = Ok 0 b"
    "mapped_page pt TRAMPOLINE ?x1 a b" "card (free_pages a) \<le> card (free_pages b) + 2"
    using mappages_room [OF a(3) high_pages(1,2) f1, of "trampoline s" "PTE_R OR PTE_X"] ca by auto
  have lb: "leaf (mem b) pt va = (if PGROUNDDOWN va = TRAMPOLINE then ?x1 else 0)" if "va < MAXVA" for va
    using b(2) that a(6) high_pages(5) by (simp add: mapped_page_def)
  have okb: "pt_ok b pt" and omb: "only_mem s b" using b(2) a(4) only_mem_trans by (auto simp: mapped_page_def)
  have f2: "\<not> pte_valid (leaf (mem b) pt TRAPFRAME)"
    using lb [OF high_pages(3)] high_pages(6,7) by (simp add: pte_valid_def)
  let ?tf = "trapframe (procs s p)"
  let ?x2 = "PA2PTE ?tf OR (PTE_R OR PTE_W) OR PTE_V"
  obtain c where c: "mappages pt TRAPFRAME PGSIZE ?tf (PTE_R OR PTE_W) b = Ok 0 c" "mapped_page pt TRAPFRAME ?x2 b c" "card (free_pages b) \<le> card (free_pages c) + 2"
    using mappages_room [OF okb high_pages(3,4) f2, of ?tf "PTE_R OR PTE_W"] ca b(3) by auto
  have r: "proc_pagetable p s = Ok pt c"
    using a(1) pt0 b(1) c(1) only_mem_procs [OF a(4)] only_mem_procs [OF omb]
    by (simp add: proc_pagetable_def get_proc_def)
  have "leaf (mem c) pt va = (if PGROUNDDOWN va = TRAMPOLINE then ?x1 else if PGROUNDDOWN va = TRAPFRAME then ?x2 else 0)"
    if "va < MAXVA" for va
    using c(2) that lb high_pages(6,7) by (auto simp: mapped_page_def)
  moreover have tb: "tables (mem b) pt \<subseteq> free_pages s" "free_pages b \<subseteq> free_pages s"
    using a(2,5,8) b(2) by (auto simp: mapped_page_def)
  moreover have "mem c x = mem s x" if "PGROUNDDOWN x \<notin> free_pages s" for x
  proof -
    have "mem c x = mem b x" using that tb c(2) unfolding mapped_page_def by blast
    also have "\<dots> = mem a x" using that a(2,5,8) b(2) by (auto simp: mapped_page_def)
    also have "\<dots> = mem s x" using a(7) [OF that] .
    finally show ?thesis .
  qed
  moreover have "tables (mem c) pt \<subseteq> free_pages s" using tb c(2) unfolding mapped_page_def by blast
  moreover have "card (free_pages s) = card (free_pages a) + 1" using a(2,5) fin card by (simp add: card_Diff_singleton)
  then have "card (free_pages s) \<le> card (free_pages c) + 5" using b(3) c(3) by linarith
  ultimately show ?thesis
    using r pt0 c(2) b(2) a(5) omb only_mem_trans [of s b c]
    by (intro exI [of _ pt] exI [of _ c]) (auto simp: mapped_page_def)
qed

section \<open>allocproc\<close>

lemma irq_state_ok_acquired: "irq_state_ok s \<Longrightarrow> irq_state_ok (acquired l s)"
  using irq_okD [of s] by (simp add: acquired_def irq_state_ok_def)

lemma settle_acquired [simp]: "irq_state_ok s \<Longrightarrow> settle (acquired l s) = acquired l s"
  by (rule settle_nested) (simp add: acquired_def irq_state_ok_def irq_ok_def)

lemma acquired_kernel [simp]:
  "tp (acquired l s) = tp s" "locks (acquired l s) = lock_hold l (tp s) (locks s)"
  by (simp_all add: acquired_def)

lemma acquired_fields [simp]:
  "mem (acquired l s) = mem s" "freelist (acquired l s) = freelist s" "kend (acquired l s) = kend s"
  by (simp_all add: acquired_def)

lemma acquired_kproc [simp]:
  "procs (acquired l s) = procs s" "nextpid (acquired l s) = nextpid s" "forkret_pc (acquired l s) = forkret_pc s"
  "trampoline (acquired l s) = trampoline s" "initproc (acquired l s) = initproc s"
  by (simp_all add: acquired_def)

lemma allocproc_claim_effect:
  assumes "irq_state_ok s" "lock_free (L_proc p) (locks s)"
  shows "allocproc_claim p s =
    (if state (procs s p) = UNUSED then Ok (Some p) (acquired (L_proc p) s) else Ok None (settle s))"
  using assms by (simp add: allocproc_claim_def acquire_acquired release_acquired get_proc_def)

lemma scan_allocproc:
  assumes "irq_state_ok s" "\<forall>p \<in> set ps. lock_free (L_proc p) (locks s)"
  shows "scan allocproc_claim ps (settle s) =
    (case find (\<lambda>p. state (procs s p) = UNUSED) ps of
       None \<Rightarrow> Ok None (settle s) | Some p \<Rightarrow> Ok (Some p) (acquired (L_proc p) s))"
  using assms by (induction ps) (simp_all add: allocproc_claim_effect)

lemma scan_allocproc_table:
  assumes ok: "irq_state_ok s" and free: "proc_locks_free s"
  shows "scan allocproc_claim [0..<NPROC] s =
    (case find (\<lambda>p. state (procs s p) = UNUSED) [0..<NPROC] of
       None \<Rightarrow> Ok None (settle s) | Some p \<Rightarrow> Ok (Some p) (acquired (L_proc p) s))"
proof -
  have "lock_free (L_proc 0) (locks s)" using free by (simp add: proc_locks_free_def NPROC_def)
  then have "allocproc_claim 0 s = allocproc_claim 0 (settle s)" using ok by (simp add: allocproc_claim_effect)
  then have "scan allocproc_claim [0..<NPROC] s = scan allocproc_claim [0..<NPROC] (settle s)"
    by (simp add: upt_NPROC)
  then show ?thesis using scan_allocproc [OF ok, of "[0..<NPROC]"] free by (simp add: proc_locks_free_def)
qed

lemma find_first:
  assumes "p < n" "P p" "\<forall>q < p. \<not> P q" shows "find P [0..<n] = Some p"
  using assms by (auto simp: find_Some_iff intro!: exI [of _ p])

text \<open>The entry of a process just created.\<close>

definition newborn :: "int \<Rightarrow> u64 \<Rightarrow> u64 \<Rightarrow> u64 \<Rightarrow> proc \<Rightarrow> proc" where
  "newborn n tf pt fr q = q\<lparr>pid := n, state := USED, trapframe := tf, pagetable := pt,
     pcontext := init_context fr (kstack q + PGSIZE)\<rparr>"

text \<open>The address space of a new process: the trampoline and the trapframe, nothing else.\<close>

definition bare_space :: "memory \<Rightarrow> u64 \<Rightarrow> u64 \<Rightarrow> u64 \<Rightarrow> bool" where
  "bare_space m pt tr tf \<longleftrightarrow> (\<forall>va < MAXVA. leaf m pt va =
     (if PGROUNDDOWN va = TRAMPOLINE then PA2PTE tr OR (PTE_R OR PTE_X) OR PTE_V
      else if PGROUNDDOWN va = TRAPFRAME then PA2PTE tf OR (PTE_R OR PTE_W) OR PTE_V
      else 0))"

lemma kernel_only_pte:
  "(PA2PTE a OR (PTE_R OR PTE_X) OR PTE_V) AND PTE_U = 0" "(PA2PTE a OR (PTE_R OR PTE_W) OR PTE_V) AND PTE_U = 0"
proof -
  have u: "PTE_U = 2 ^ 4" by (simp add: PTE_U_def)
  show "(PA2PTE a OR (PTE_R OR PTE_X) OR PTE_V) AND PTE_U = 0" "(PA2PTE a OR (PTE_R OR PTE_W) OR PTE_V) AND PTE_U = 0"
    unfolding u and_exp_eq_0_iff_not_bit
    by (simp_all add: PA2PTE_def PTE_R_def PTE_X_def PTE_W_def PTE_V_def bit_simps)
qed

text \<open>The pages of a new process come from the free pages; no other memory changes.\<close>

definition fresh_space :: "u64 \<Rightarrow> u64 \<Rightarrow> 'x kmachine_scheme \<Rightarrow> 'x kmachine_scheme \<Rightarrow> bool" where
  "fresh_space tf pt s u \<longleftrightarrow> free_pages u \<subseteq> free_pages s \<and> card (free_pages s) \<le> card (free_pages u) + 6 \<and>
     tables (mem u) pt \<subseteq> free_pages s - {tf} \<and> (\<forall>a. PGROUNDDOWN a \<notin> free_pages s \<longrightarrow> mem u a = mem s a)"

definition with_newborn :: "nat \<Rightarrow> u64 \<Rightarrow> u64 \<Rightarrow> 'x kproc_scheme \<Rightarrow> 'x kproc_scheme" where
  "with_newborn p tf pt s = s\<lparr>procs := (procs s)(p := newborn (nextpid s) tf pt (forkret_pc s) (procs s p)), nextpid := i32 (nextpid s + 1)\<rparr>"

lemma allocproc_found_new:
  fixes s :: "'x kproc_scheme"
  assumes ready: "kmem_ready s" and card: "6 \<le> card (free_pages s)" and lk: "lock_free L_pid (locks s)"
    and nest: "settle s = s"
  shows "\<exists>tf pt u. allocproc_found p s = Ok (Some p) u \<and> tf \<in> free_pages s \<and> pt_ok u pt \<and>
     bare_space (mem u) pt (trampoline s) tf \<and> locks u = locks s \<and> nextpid u = i32 (nextpid s + 1) \<and>
     procs u = (procs s)(p := newborn (nextpid s) tf pt (forkret_pc s) (procs s p)) \<and>
     tf \<notin> free_pages u \<and> fresh_space tf pt s u \<and> only_mem (with_newborn p tf pt s) u"
proof -
  have ok: "irq_state_ok s" using ready by (simp add: kmem_ready_def)
  let ?n = "nextpid s"
  let ?a = "s\<lparr>nextpid := i32 (?n + 1), procs := (procs s)(p := (procs s p)\<lparr>pid := ?n, state := USED\<rparr>)\<rparr>"
  have a: "kmem_ready ?a" "free_pages ?a = free_pages s" using ready by simp_all
  have fin: "finite (free_pages s)" using kmem.avail_finite [OF ready] .
  have "free_pages ?a \<noteq> {}" using a(2) card by auto
  then obtain tf b where b: "kalloc ?a = Ok tf b" "tf \<in> free_pages ?a" "free_pages b = free_pages ?a - {tf}" "kmem_ready b"
    "\<forall>x. \<not> in_page tf x \<longrightarrow> mem b x = mem ?a x"
    using kmem.alloc_page [OF a(1)] by blast
  note omb = kalloc_only_mem [OF a(1) b(1)]
  have tf0: "tf \<noteq> 0" using kmem.page_nonzero [OF a(1) kmem.avail_page [OF a(1) b(2)]] .
  let ?c = "b\<lparr>procs := (procs b)(p := (procs b p)\<lparr>trapframe := tf\<rparr>)\<rparr>"
  have c: "kmem_ready ?c" "free_pages ?c = free_pages b" using b(4) by simp_all
  have "5 \<le> card (free_pages ?c)" using c(2) b(2,3) a(2) card fin by simp
  then obtain pt d where d: "proc_pagetable p ?c = Ok pt d" "pt \<noteq> 0" "pt_ok d pt" "only_mem ?c d"
    "free_pages d \<subseteq> free_pages ?c"
    "\<forall>va < MAXVA. leaf (mem d) pt va =
       (if PGROUNDDOWN va = TRAMPOLINE then PA2PTE (trampoline ?c) OR (PTE_R OR PTE_X) OR PTE_V
        else if PGROUNDDOWN va = TRAPFRAME then PA2PTE (trapframe (procs ?c p)) OR (PTE_R OR PTE_W) OR PTE_V
        else 0)"
    "\<forall>a. PGROUNDDOWN a \<notin> free_pages ?c \<longrightarrow> mem d a = mem ?c a" "tables (mem d) pt \<subseteq> free_pages ?c" "card (free_pages ?c) \<le> card (free_pages d) + 5"
    using proc_pagetable_new [OF c(1), of p] by blast
  let ?u = "d\<lparr>procs := (procs s)(p := newborn ?n tf pt (forkret_pc s) (procs s p))\<rparr>"
  have pd: "procs d = (procs s)(p := (procs s p)\<lparr>pid := ?n, state := USED, trapframe := tf\<rparr>)"
    "forkret_pc d = forkret_pc s" "nextpid d = i32 (?n + 1)" "trampoline ?c = trampoline s"
    using only_mem_procs [OF d(4)] only_mem_procs [OF omb] by simp_all
  have "allocpid s = Ok ?n (s\<lparr>nextpid := i32 (?n + 1)\<rparr>)" using allocpid_effect [OF ok lk] nest by simp
  then have "allocproc_found p s = Ok (Some p) ?u"
    using b(1) d(1,2) tf0 pd(1,2)
    by (simp add: allocproc_found_def upd_proc_def newborn_def)
  moreover have "pt_ok ?u pt" "free_pages ?u = free_pages d"
    using d(3) by simp_all
  moreover have "locks d = locks s" using only_mem_fields(3) [OF d(4)] only_mem_fields(3) [OF omb] by simp
  moreover have "bare_space (mem d) pt (trampoline s) tf" using d(6) pd(4) by (simp add: bare_space_def)
  moreover have "fresh_space tf pt s ?u"
  proof -
    have "card (free_pages s) = card (free_pages b) + 1" using a(2) b(2,3) fin card by (simp add: card_Diff_singleton)
    then have "card (free_pages s) \<le> card (free_pages ?u) + 6" using d(9) c(2) by simp
    moreover have "mem ?u x = mem s x" if "PGROUNDDOWN x \<notin> free_pages s" for x
    proof -
      have "page_aligned tf" using kmem.avail_page [OF a(1) b(2)] by (simp add: kpage_def)
      then have "\<not> in_page tf x" using that a(2) b(2) by (auto simp: in_page_offset)
      then show ?thesis using d(7) b(3,5) c(2) a(2) that by simp
    qed
    ultimately show ?thesis using a(2) b(2,3) c(2) d(5,8) unfolding fresh_space_def by auto
  qed
  moreover have "only_mem (with_newborn p tf pt s) ?u"
  proof -
    have "settle ?u = (settle (with_newborn p tf pt s))\<lparr>mem := mem d, freelist := freelist d\<rparr>"
      using d(4) omb unfolding only_mem_def with_newborn_def by (cases s; cases b; cases d) (simp add: settle_def)
    then show ?thesis by (rule only_memI)
  qed
  ultimately show ?thesis using a(2) b(2,3) c(2) d(5) pd(3)
    by (intro exI [of _ tf] exI [of _ pt] exI [of _ ?u]) auto
qed

lemma kmem_ready_acquired:
  assumes "kmem_ready s" "l \<noteq> L_kmem" shows "kmem_ready (acquired l s)" "free_pages (acquired l s) = free_pages s"
  using assms irq_state_ok_acquired [of s l]
  by (auto simp: kmem_ready_def kmem_inv_def free_pages_def acquired_def)

lemma allocproc_new:
  assumes ready: "kmem_ready s" and free: "proc_locks_free s" "lock_free L_pid (locks s)"
    and card: "6 \<le> card (free_pages s)"
    and p: "p < NPROC" "state (procs s p) = UNUSED" "\<forall>q < p. state (procs s q) \<noteq> UNUSED"
  shows "\<exists>tf pt u. allocproc s = Ok (Some p) u \<and> tf \<in> free_pages s \<and> tf \<notin> free_pages u \<and> pt_ok u pt \<and>
     bare_space (mem u) pt (trampoline s) tf \<and> locks u = lock_hold (L_proc p) (tp s) (locks s) \<and>
     nextpid u = i32 (nextpid s + 1) \<and>
     procs u = (procs s)(p := newborn (nextpid s) tf pt (forkret_pc s) (procs s p)) \<and>
     fresh_space tf pt s u \<and> only_mem (with_newborn p tf pt (acquired (L_proc p) s)) u"
proof -
  have ok: "irq_state_ok s" using ready by (simp add: kmem_ready_def)
  let ?a = "acquired (L_proc p) s"
  have sc: "scan allocproc_claim [0..<NPROC] s = Ok (Some p) ?a"
    using scan_allocproc_table [OF ok free(1)] find_first [where P = "\<lambda>q. state (procs s q) = UNUSED", OF p] by simp
  have a: "kmem_ready ?a" "free_pages ?a = free_pages s" using kmem_ready_acquired [OF ready] by simp_all
  have lk: "lock_free L_pid (locks ?a)" using free(2) by (simp add: lock_free_def lock_hold_def)
  obtain tf pt u where "allocproc_found p ?a = Ok (Some p) u" "tf \<in> free_pages s" "pt_ok u pt"
    "bare_space (mem u) pt (trampoline s) tf" "locks u = locks ?a" "nextpid u = i32 (nextpid s + 1)"
    "procs u = (procs s)(p := newborn (nextpid s) tf pt (forkret_pc s) (procs s p))" "tf \<notin> free_pages u"
    "fresh_space tf pt ?a u" "only_mem (with_newborn p tf pt ?a) u"
    using allocproc_found_new [OF a(1) _ lk settle_acquired [OF ok], of p] card a(2) by auto
  moreover have "fresh_space tf pt s u" using \<open>fresh_space tf pt ?a u\<close> a(2) by (simp add: fresh_space_def)
  ultimately show ?thesis using sc by (intro exI [of _ tf] exI [of _ pt] exI [of _ u]) (simp add: allocproc_def)
qed

section \<open>The machine after kinit, with the sample process table\<close>

lemma sample_booted:
  "\<exists>s. kinit sample_kproc = Ok () s \<and> kmem_ready s \<and> 6 \<le> card (free_pages s) \<and> procs s = sample_table \<and>
     proc_locks_free s \<and> lock_free L_pid (locks s) \<and> lock_free L_wait (locks s) \<and> nextpid s = 4 \<and> tp s = 0 \<and>
     trampoline s = 0x80007000 \<and> forkret_pc s = 0x80001a00"
proof -
  have i: "irq_state_ok sample_kproc" using sample_idle by (simp add: sched_idle_def)
  have e: "kend sample_kproc = 0x80024000" "freelist sample_kproc = 0" "nextpid sample_kproc = 4"
    "trampoline sample_kproc = 0x80007000" "forkret_pc sample_kproc = 0x80001a00"
    by (simp_all add: sample_kproc_def kmachine.defs boot_machine_def kernel.defs)
  obtain s where s: "kinit sample_kproc = Ok () s" "kmem_ready s" "free_pages s = pages_from 0x80024000"
    using kinit_effect [OF i] e by (auto simp: PHYSTOP_def KERNBASE_def)
  have b: "lock_blind L_kmem (kmachine.more :: kproc \<Rightarrow> _)" "lock_blind L_kmem (tp :: kproc \<Rightarrow> _)"
    by (simp_all add: lock_blind_def irq_blind_def)
  have more: "kmachine.more s = kmachine.more sample_kproc"
    by (rule keepsD [OF keeps_kinit(4) s(1)]) (simp_all add: b)
  have hart: "tp s = tp sample_kproc" by (rule keepsD [OF keeps_kinit(4) s(1)]) (simp_all add: b)
  have lk: "locks s k = locks sample_kproc k" if "k \<noteq> L_kmem" for k
    by (rule keepsD [OF keeps_kinit(4) s(1)]) (simp_all add: lock_blind_other that)
  have f: "procs s = sample_table" "nextpid s = 4" "trampoline s = 0x80007000" "forkret_pc s = 0x80001a00"
    using more_kproc [OF more] e sample_kproc_simps(2) by simp_all
  let ?P = "{0x80024000, 0x80025000, 0x80026000, 0x80027000, 0x80028000, 0x80029000 :: u64}"
  have "?P \<subseteq> free_pages s" using s(3) by (simp add: pages_from_def page_aligned_def PHYSTOP_def KERNBASE_def)
  moreover have "card ?P = 6" by simp
  ultimately have "6 \<le> card (free_pages s)" using kmem.avail_finite [OF s(2)] card_mono by metis
  moreover have "proc_locks_free s" "lock_free L_pid (locks s)" "lock_free L_wait (locks s)"
    by (simp_all add: proc_locks_free_def lock_free_def lk)
      (simp_all add: sample_kproc_def kmachine.defs boot_machine_def kernel.defs idle_kernel_def)
  ultimately show ?thesis using s f hart by auto
qed

section \<open>kwait\<close>

lemma proc_locks_wait: "proc_locks_free s \<Longrightarrow> pp < NPROC \<Longrightarrow> lock_free (L_proc pp) (locks (acquired L_wait s))"
  by (simp add: proc_locks_free_def lock_free_def lock_hold_def)

lemma kwait_scan_no_zombie:
  assumes ok: "irq_state_ok s" and free: "proc_locks_free s" "lock_free L_wait (locks s)"
    and ps: "set ps \<subseteq> {0..<NPROC}"
    and nz: "\<forall>pp \<in> set ps. parent (procs s pp) = Some p \<longrightarrow> state (procs s pp) \<noteq> ZOMBIE"
  shows "kwait_scan p addr ps hk (acquired L_wait s) =
    Ok (Inr (hk \<or> (\<exists>pp \<in> set ps. parent (procs s pp) = Some p))) (acquired L_wait s)"
  using ps nz
proof (induction ps arbitrary: hk)
  case Nil
  then show ?case by simp
next
  case (Cons pp ps)
  have pp: "lock_free (L_proc pp) (locks s)" "lock_free (L_proc pp) (locks (acquired L_wait s))"
    using Cons.prems(1) free(1) proc_locks_wait by (auto simp: proc_locks_free_def)
  show ?case
    using Cons pp(2) acquire_acquired [OF pp(2)] release_second(1) [OF ok pp(1) free(2)]
    by (simp add: get_proc_def)
qed

lemma kwait_enter:
  assumes "irq_state_ok s" "lock_free L_wait (locks s)" "cproc (cpus s (tp s)) = Some p"
  shows "kwait addr s = kwait_round p addr (acquired L_wait s)"
  using assms myproc_effect [OF irq_okD(1) [OF assms(1)]]
  by (simp add: kwait_def settle_def [symmetric] acquire_acquired)

section \<open>Properties\<close>

text \<open>
  C8: \<open>allocproc\<close> creates a process in the first unused slot. With six pages free it returns that
  slot with its lock held and in state \<open>USED\<close>, a fresh pid, a trapframe page taken from the free
  list, the saved context that makes the first switch enter \<open>forkret\<close> on the slot's kernel stack,
  and a page table that maps the trampoline and the trapframe and nothing else, neither of them
  accessible to the user; no other slot changes.
\<close>
theorem allocproc_creates:
  assumes "kmem_ready s" "proc_locks_free s" "lock_free L_pid (locks s)" "6 \<le> card (free_pages s)"
    and "p < NPROC" "state (procs s p) = UNUSED" "\<forall>q < p. state (procs s q) \<noteq> UNUSED"
  shows "\<exists>tf pt u. allocproc s = Ok (Some p) u \<and> locks u = lock_hold (L_proc p) (tp s) (locks s) \<and>
     nextpid u = i32 (nextpid s + 1) \<and> tf \<in> free_pages s - free_pages u \<and> pt_ok u pt \<and>
     (\<forall>va < MAXVA. leaf (mem u) pt va =
       (if PGROUNDDOWN va = TRAMPOLINE then PA2PTE (trampoline s) OR (PTE_R OR PTE_X) OR PTE_V
        else if PGROUNDDOWN va = TRAPFRAME then PA2PTE tf OR (PTE_R OR PTE_W) OR PTE_V
        else 0)) \<and>
     (\<forall>va < MAXVA. leaf (mem u) pt va AND PTE_U = 0) \<and>
     procs u = (procs s)(p := (procs s p)\<lparr>pid := nextpid s, state := USED, trapframe := tf, pagetable := pt,
       pcontext := \<lparr>ctx_ra = forkret_pc s, ctx_sp = kstack (procs s p) + PGSIZE, ctx_s = replicate 12 0\<rparr>\<rparr>)"
proof -
  obtain tf pt u where u: "allocproc s = Ok (Some p) u" "tf \<in> free_pages s - free_pages u" "pt_ok u pt"
    "bare_space (mem u) pt (trampoline s) tf" "locks u = lock_hold (L_proc p) (tp s) (locks s)"
    "nextpid u = i32 (nextpid s + 1)"
    "procs u = (procs s)(p := newborn (nextpid s) tf pt (forkret_pc s) (procs s p))"
    using allocproc_new [OF assms] by blast
  show ?thesis using u
    by (intro exI [of _ tf] exI [of _ pt] exI [of _ u]) (simp add: newborn_def init_context_def bare_space_def kernel_only_pte)
qed

theorem allocproc_creates_witness:
  "\<exists>s tf pt u. kinit sample_kproc = Ok () s \<and> allocproc s = Ok (Some 3) u \<and> pid (procs u 3) = 4 \<and>
     leaf (mem u) pt TRAPFRAME = PA2PTE tf OR (PTE_R OR PTE_W) OR PTE_V \<and> leaf (mem u) pt 0 = 0"
proof -
  obtain s where s: "kinit sample_kproc = Ok () s" "kmem_ready s" "6 \<le> card (free_pages s)" "procs s = sample_table"
    "proc_locks_free s" "lock_free L_pid (locks s)" "nextpid s = 4"
    using sample_booted by blast
  have slots: "state (procs s 3) = UNUSED" "\<forall>q < 3. state (procs s q) \<noteq> UNUSED"
    using s(4) by (auto simp: sample_table_def blank_proc_def)
  obtain tf pt u where "allocproc s = Ok (Some 3) u" and lf: "\<forall>va < MAXVA. leaf (mem u) pt va =
       (if PGROUNDDOWN va = TRAMPOLINE then PA2PTE (trampoline s) OR (PTE_R OR PTE_X) OR PTE_V
        else if PGROUNDDOWN va = TRAPFRAME then PA2PTE tf OR (PTE_R OR PTE_W) OR PTE_V
        else 0)" and "pid (procs u 3) = 4"
    using allocproc_creates [OF s(2,5,6,3) _ slots] s(7) by (auto simp: NPROC_def)
  moreover have "leaf (mem u) pt TRAPFRAME = PA2PTE tf OR (PTE_R OR PTE_W) OR PTE_V"
    using lf high_pages by auto
  moreover have "(0 :: u64) < MAXVA" "PGROUNDDOWN 0 \<noteq> TRAMPOLINE" "PGROUNDDOWN 0 \<noteq> TRAPFRAME"
    by (simp_all add: TRAMPOLINE_def TRAPFRAME_def MAXVA_def PGSIZE_def PGROUNDDOWN_def)
  then have "leaf (mem u) pt 0 = 0" using lf by auto
  ultimately show ?thesis using s(1) by blast
qed

text \<open>
  C23: \<open>kkill(0)\<close> reports success although no process has pid 0, and the damage outlives the call:
  the first unused slot is left marked killed, \<open>allocproc\<close> does not clear the mark, and the next
  process created is born killed.
\<close>
theorem kkill_zero_poisons_next_process:
  assumes "kmem_ready s" "proc_locks_free s" "lock_free L_pid (locks s)" "6 \<le> card (free_pages s)"
    and "p < NPROC" "state (procs s p) = UNUSED" "pid (procs s p) = 0"
    and "\<forall>q < p. state (procs s q) \<noteq> UNUSED \<and> pid (procs s q) \<noteq> 0"
  shows "\<exists>t u. kkill 0 s = Ok 0 t \<and> allocproc t = Ok (Some p) u \<and> state (procs u p) = USED \<and> pkilled (procs u p) = 1"
proof -
  have ok: "irq_state_ok s" using assms(1) by (simp add: kmem_ready_def)
  let ?t = "(settle s)\<lparr>procs := (procs s)(p := kill_proc (procs s p))\<rparr>"
  have "find (\<lambda>p. pid (procs s p) = 0) [0..<NPROC] = Some p"
    using assms(5,7,8) by (intro find_first) auto
  then have k: "kkill 0 s = Ok 0 ?t" using kkill_effect [OF ok assms(2), of 0] by simp
  have "kmem_ready ?t" using assms(1) by (simp add: kmem_ready_settle)
  moreover have "free_pages ?t = free_pages s" by (simp add: free_pages_def)
  moreover have "state (procs ?t p) = UNUSED" "pkilled (procs ?t p) = 1" using assms(6) by (simp_all add: kill_proc_def)
  ultimately show ?thesis
    using k allocproc_new [of ?t p] assms(2-5,8) by (auto simp: newborn_def)
qed

theorem kkill_zero_poisons_next_process_witness:
  "\<exists>s t u. kinit sample_kproc = Ok () s \<and> kkill 0 s = Ok 0 t \<and> allocproc t = Ok (Some 3) u \<and> pkilled (procs u 3) = 1"
proof -
  obtain s where s: "kinit sample_kproc = Ok () s" "kmem_ready s" "6 \<le> card (free_pages s)" "procs s = sample_table"
    "proc_locks_free s" "lock_free L_pid (locks s)"
    using sample_booted by blast
  have "state (procs s 3) = UNUSED" "pid (procs s 3) = 0" "\<forall>q < 3. state (procs s q) \<noteq> UNUSED \<and> pid (procs s q) \<noteq> 0"
    using s(4) by (auto simp: sample_table_def blank_proc_def less_Suc_eq eval_nat_numeral)
  then show ?thesis
    using kkill_zero_poisons_next_process [OF s(2,5,6,3), of 3] s(1) by (auto simp: NPROC_def)
qed

text \<open>
  C22: \<open>kwait\<close> without a dead child. With no children, or with the caller killed, it returns -1 and
  every lock is as before. Otherwise it sleeps on the caller's own channel, the one its children's
  \<open>exit\<close> wakes, with \<open>wait_lock\<close> free again and only its own lock held for the scheduler.
\<close>
theorem kwait_no_zombie:
  assumes "irq_state_ok s" "proc_locks_free s" "lock_free L_wait (locks s)"
    and "cproc (cpus s (tp s)) = Some p" "p < NPROC" "noff (cpus s (tp s)) = 0"
    and "\<forall>pp < NPROC. parent (procs s pp) = Some p \<longrightarrow> state (procs s pp) \<noteq> ZOMBIE"
  shows "if (\<forall>pp < NPROC. parent (procs s pp) \<noteq> Some p) \<or> pkilled (procs s p) \<noteq> 0
    then kwait addr s = Ok (- 1) (settle s)
    else \<exists>t. kwait addr s = Sleep t \<and> locks t = lock_hold (L_proc p) (tp s) (locks s) \<and>
      procs t = (procs s)(p := (procs s p)\<lparr>chan := Chan_proc p, state := SLEEPING\<rparr>)"
proof -
  let ?a = "acquired L_wait s"
  note ok = irq_state_ok_acquired [OF assms(1), of L_wait]
  have sc: "kwait_scan p addr [0..<NPROC] False ?a = Ok (Inr (\<exists>pp < NPROC. parent (procs s pp) = Some p)) ?a"
    using kwait_scan_no_zombie [OF assms(1-3), of "[0..<NPROC]" p addr False] assms(7) by auto
  have k: "killed p ?a = Ok (pkilled (procs s p)) ?a"
    using killed_effect [OF ok proc_locks_wait [OF assms(2,5)]] settle_acquired [OF assms(1)] by simp
  have r: "release L_wait ?a = Ok () (settle s)" by (rule release_acquired [OF assms(1,3)])
  have sl: "sleep (Chan_proc p) L_wait ?a =
      Sleep ((acquired (L_proc p) s)\<lparr>procs := (procs s)(p := going_to_sleep p (Chan_proc p) (procs s p))\<rparr>)"
    using assms(2-6) by (intro sleep_effect [OF assms(1)]) (simp_all add: proc_locks_free_def)
  show ?thesis
    unfolding kwait_enter [OF assms(1,3,4)]
    using sc k r sl by (auto simp: kwait_round_def going_to_sleep_def)
qed

theorem kwait_no_zombie_witness:
  "kwait 0 (sample_running\<lparr>procs := \<lambda>_. blank_proc\<rparr>) = Ok (- 1) (settle (sample_running\<lparr>procs := \<lambda>_. blank_proc\<rparr>)) \<and>
   (\<exists>t. kwait 0 (sample_running\<lparr>cpus := set_cproc 0 (Some 2) (cpus sample_running)\<rparr>) = Sleep t \<and>
      state (procs t 2) = SLEEPING)"
proof -
  have c: "irq_state_ok sample_running" "cproc (cpus sample_running (tp sample_running)) = Some 0"
    "proc_locks_free sample_running" "lock_free L_wait (locks sample_running)"
    "noff (cpus sample_running (tp sample_running)) = 0" "tp sample_running = 0" "procs sample_running = sample_table"
    using sample_idle
    by (simp_all add: sample_running_def sched_idle_def irq_state_ok_def proc_locks_free_def)
       (simp add: lock_free_def sample_kproc_def kmachine.defs boot_machine_def kernel.defs idle_kernel_def)
  let ?s = "sample_running\<lparr>procs := \<lambda>_. blank_proc\<rparr>"
  let ?t = "sample_running\<lparr>cpus := set_cproc 0 (Some 2) (cpus sample_running)\<rparr>"
  have "kwait 0 ?s = Ok (- 1) (settle ?s)"
    using kwait_no_zombie [of ?s 0 0] c by (simp add: NPROC_def blank_proc_def)
  moreover have "parent (sample_table (Suc 0)) = Some 2" "pkilled (sample_table 2) = 0"
    "\<forall>pp < NPROC. state (sample_table pp) \<noteq> ZOMBIE"
    by (simp_all add: sample_table_def blank_proc_def)
  then have "\<exists>t. kwait 0 ?t = Sleep t \<and> state (procs t 2) = SLEEPING"
    using kwait_no_zombie [of ?t 2 0] c by (auto simp: NPROC_def irq_state_ok_def proc_locks_free_def split: if_splits)
  ultimately show ?thesis by blast
qed

end
