(* ===== verification/Xv6_Sleeplock.thy ===== *)
theory Xv6_Sleeplock
  imports Xv6_Proc
begin

text \<open>
  Sleep locks (sleeplock.c). A process that finds the lock taken sleeps on it; the loop around
  \<open>sleep\<close> then starts again, so that \<open>acquiresleep\<close> returns only with the lock free. The theory also
  fixes what every file system operation needs from its environment: a process that runs with
  no spin lock held (\<open>fs_ready\<close>), and how such an operation may change the process table (\<open>calm\<close>).
\<close>

section \<open>sleeplock.h and sleeplock.c\<close>

datatype slid = SL_buf nat | SL_inode nat

record sleeplock =
  sl_locked :: u32
  sl_name :: string
  sl_pid :: int

record ksl = kvm +
  slocks :: "slid \<Rightarrow> sleeplock"

fun sl_lk :: "slid \<Rightarrow> lockid" where
  "sl_lk (SL_buf i) = L_sleep_buf i"
| "sl_lk (SL_inode i) = L_sleep_inode i"

fun sl_chan :: "slid \<Rightarrow> wchan" where
  "sl_chan (SL_buf i) = Chan_slbuf i"
| "sl_chan (SL_inode i) = Chan_slinode i"

definition upd_slock :: "slid \<Rightarrow> (sleeplock \<Rightarrow> sleeplock) \<Rightarrow> ('x ksl_scheme, unit) kop" where
  "upd_slock l f = modify (\<lambda>s. s\<lparr>slocks := (slocks s)(l := f (slocks s l))\<rparr>)"

definition initsleeplock :: "slid \<Rightarrow> string \<Rightarrow> ('x ksl_scheme, unit) kop" where
  "initsleeplock l name =
     kthen (initlock (sl_lk l) ''sleep lock'') (
     kthen (upd_slock l (\<lambda>k. k\<lparr>sl_name := name\<rparr>)) (
     kthen (upd_slock l (\<lambda>k. k\<lparr>sl_locked := 0\<rparr>)) (
     upd_slock l (\<lambda>k. k\<lparr>sl_pid := 0\<rparr>))))"

definition my_pid :: "('x kproc_scheme, int) kop" where
  "my_pid = kbind myproc (\<lambda>mp. kbind (deref mp) (\<lambda>p. gets (\<lambda>s. pid (procs s p))))"

definition acquiresleep :: "slid \<Rightarrow> ('x ksl_scheme, unit) kop" where
  "acquiresleep l =
     kthen (acquire (sl_lk l)) (
     kbind (gets (\<lambda>s. sl_locked (slocks s l))) (\<lambda>k.
     if k \<noteq> 0 then sleep (sl_chan l) (sl_lk l) else
     kthen (upd_slock l (\<lambda>k. k\<lparr>sl_locked := 1\<rparr>)) (
     kbind my_pid (\<lambda>n.
     kthen (upd_slock l (\<lambda>k. k\<lparr>sl_pid := n\<rparr>)) (
     release (sl_lk l))))))"

definition releasesleep :: "slid \<Rightarrow> ('x ksl_scheme, unit) kop" where
  "releasesleep l =
     kthen (acquire (sl_lk l)) (
     kthen (upd_slock l (\<lambda>k. k\<lparr>sl_locked := 0\<rparr>)) (
     kthen (upd_slock l (\<lambda>k. k\<lparr>sl_pid := 0\<rparr>)) (
     kthen (wakeup (sl_chan l)) (
     release (sl_lk l)))))"

text \<open>\<open>myproc\<close> is only called when the lock is taken (the right operand of \<open>&&\<close>).\<close>

definition holdingsleep :: "slid \<Rightarrow> ('x ksl_scheme, bool) kop" where
  "holdingsleep l =
     kthen (acquire (sl_lk l)) (
     kbind (gets (\<lambda>s. slocks s l)) (\<lambda>k.
     kbind (if sl_locked k \<noteq> 0 then kbind my_pid (\<lambda>n. ret (sl_pid k = n)) else ret False) (\<lambda>r.
     kthen (release (sl_lk l)) (
     ret r))))"

section \<open>Operations of a process that holds no spin lock\<close>

definition fs_ready :: "nat \<Rightarrow> 'x kproc_scheme \<Rightarrow> bool" where
  "fs_ready p s \<longleftrightarrow> irq_state_ok s \<and> noff (cpus s (tp s)) = 0 \<and> cproc (cpus s (tp s)) = Some p \<and>
     p < NPROC \<and> (\<forall>l. lock_free l (locks s)) \<and> state (procs s p) = RUNNING"

text \<open>
  \<open>calm p s t\<close>: \<open>t\<close> has the same hart, locks, memory and processes as \<open>s\<close>, except that sleepers may
  have been woken; process \<open>p\<close> itself goes on running.
\<close>

definition proc_core :: "proc \<Rightarrow> proc" where
  "proc_core q = q\<lparr>state := UNUSED, chan := Chan_none\<rparr>"

definition calm :: "nat \<Rightarrow> 'x kproc_scheme \<Rightarrow> 'x kproc_scheme \<Rightarrow> bool" where
  "calm p s t \<longleftrightarrow> fs_ready p s \<and> fs_ready p t \<and> tp t = tp s \<and> sstatus t = sstatus s \<and> locks t = locks s \<and>
     cpus (settle t) = cpus (settle s) \<and> mem t = mem s \<and> freelist t = freelist s \<and> kend t = kend s \<and>
     (\<forall>q. proc_core (procs t q) = proc_core (procs s q))"

lemma calm_refl: "fs_ready p s \<Longrightarrow> calm p s s"
  by (simp add: calm_def)

lemma calm_trans: "calm p s t \<Longrightarrow> calm p t u \<Longrightarrow> calm p s u"
  by (simp add: calm_def)

lemma calmD: "calm p s t \<Longrightarrow> fs_ready p s" "calm p s t \<Longrightarrow> fs_ready p t"
  by (simp_all add: calm_def)

lemma proc_core_fields:
  assumes "proc_core a = proc_core b"
  shows "pid a = pid b" "pagetable a = pagetable b" "sz a = sz b" "trapframe a = trapframe b" "cwd a = cwd b"
    "ofile a = ofile b" "parent a = parent b" "pkilled a = pkilled b" "kstack a = kstack b"
  using assms by (cases a; cases b; simp add: proc_core_def)+

lemma calm_pid: "calm p s t \<Longrightarrow> pid (procs t q) = pid (procs s q)"
  by (auto simp: calm_def dest: proc_core_fields)

lemma fs_readyD:
  assumes "fs_ready p s"
  shows "irq_state_ok s" "lock_free l (locks s)" "proc_locks_free s" "cproc (cpus s (tp s)) = Some p"
    "0 \<le> noff (cpus s (tp s))" "irq_ok (tp s) (sstatus s) (cpus s)" "noff (cpus s (tp s)) = 0" "p < NPROC"
  using assms by (auto simp: fs_ready_def proc_locks_free_def irq_state_ok_def)

lemma fs_ready_settle [simp]: "fs_ready p (settle s) = fs_ready p s"
  by (simp add: fs_ready_def settle_cpus)

lemma proc_core_awaken [simp]: "proc_core (awaken me ch q x) = proc_core x"
  by (simp add: proc_core_def awaken_def)

lemma proc_core_wakeup_table [simp]: "proc_core (wakeup_table me ch tab q) = proc_core (tab q)"
  by (simp add: wakeup_table_def map_table_def)

lemma wakeup_table_self: "state (tab p) = RUNNING \<Longrightarrow> wakeup_table me ch tab p = tab p"
  by (simp add: wakeup_table_def map_table_def awaken_def)

text \<open>A state that agrees with \<open>s\<close> after \<open>settle\<close>, up to wake-ups, is calm.\<close>

lemma calmI:
  assumes "fs_ready p s" "tp t = tp s" "sstatus t = sstatus s" "locks t = locks s"
    "cpus t = cpus (settle s)" "mem t = mem s" "freelist t = freelist s" "kend t = kend s"
    "\<And>q. proc_core (procs t q) = proc_core (procs s q)" "state (procs t p) = RUNNING"
  shows "calm p s t"
proof -
  have "fs_ready p t" using assms by (simp add: fs_ready_def irq_state_ok_def settle_cpus)
  then show ?thesis using assms by (simp add: calm_def settle_cpus)
qed

section \<open>Effects\<close>

definition sl_take :: "int \<Rightarrow> sleeplock \<Rightarrow> sleeplock" where
  "sl_take n k = k\<lparr>sl_locked := 1, sl_pid := n\<rparr>"

definition sl_drop :: "sleeplock \<Rightarrow> sleeplock" where
  "sl_drop k = k\<lparr>sl_locked := 0, sl_pid := 0\<rparr>"

lemma sl_fields [simp]:
  "sl_locked (sl_take n k) = 1" "sl_pid (sl_take n k) = n" "sl_locked (sl_drop k) = 0"
  by (simp_all add: sl_take_def sl_drop_def)

lemma acquiresleep_effect:
  assumes "fs_ready p s" "sl_locked (slocks s l) = 0"
  shows "acquiresleep l s =
    Ok () ((settle s)\<lparr>slocks := (slocks s)(l := sl_take (pid (procs s p)) (slocks s l))\<rparr>)"
  using fs_readyD(2) [OF assms(1), of "sl_lk l"] fs_readyD(4-6) [OF assms(1)] assms(2)
  by (cases s) (simp add: acquiresleep_def state_simps upd_slock_def my_pid_def settle_def sl_take_def)

lemma acquiresleep_sleeps:
  assumes "fs_ready p s" "sl_locked (slocks s l) \<noteq> 0"
  shows "acquiresleep l s =
    Sleep ((acquired (L_proc p) s)\<lparr>procs := (procs s)(p := going_to_sleep p (sl_chan l) (procs s p))\<rparr>)"
proof -
  have "acquire (sl_lk l) s = Ok () (acquired (sl_lk l) s)" by (rule acquire_acquired [OF fs_readyD(2) [OF assms(1)]])
  moreover have "slocks (acquired (sl_lk l) s) = slocks s" by (simp add: acquired_def)
  moreover have "sl_lk l \<noteq> L_proc p" by (cases l) simp_all
  then have "sleep (sl_chan l) (sl_lk l) (acquired (sl_lk l) s) =
     Sleep ((acquired (L_proc p) s)\<lparr>procs := (procs s)(p := going_to_sleep p (sl_chan l) (procs s p))\<rparr>)"
    by (intro sleep_effect fs_readyD [OF assms(1)])
  ultimately show ?thesis using assms(2) by (simp add: acquiresleep_def)
qed

lemma holdingsleep_effect:
  assumes "fs_ready p s"
  shows "holdingsleep l s =
    Ok (sl_locked (slocks s l) \<noteq> 0 \<and> sl_pid (slocks s l) = pid (procs s p)) (settle s)"
  using fs_readyD(2) [OF assms(1), of "sl_lk l"] fs_readyD(4-6) [OF assms(1)]
  by (cases s) (simp add: holdingsleep_def state_simps my_pid_def settle_def)

text \<open>\<open>wakeup\<close> called with a spin lock held that is not a process lock.\<close>

lemma wakeup_nested:
  assumes "irq_state_ok b" "0 < noff (cpus b (tp b))" "cproc (cpus b (tp b)) = mp" "proc_locks_free b"
  shows "wakeup ch b = Ok () (b\<lparr>procs := wakeup_table mp ch (procs b)\<rparr>)"
  using wakeup_effect [OF assms(1,4), of ch] settle_nested [OF assms(2)] assms(3) by simp

lemma proc_locks_free_hold:
  assumes "fs_ready p s" "\<And>q. L_proc q \<noteq> l" shows "proc_locks_free (acquired l s)"
  using fs_readyD(2) [OF assms(1)] assms(2) by (simp add: proc_locks_free_def)

lemma acquired_inside:
  assumes "fs_ready p s"
  shows "irq_state_ok (acquired l s)" "0 < noff (cpus (acquired l s) (tp s))" "cproc (cpus (acquired l s) (tp s)) = Some p"
  using irq_state_ok_acquired [OF fs_readyD(1) [OF assms]] fs_readyD(4,5) [OF assms] by (simp_all add: acquired_def)

lemma releasesleep_effect:
  assumes r: "fs_ready p s"
  shows "releasesleep l s = Ok () ((settle s)\<lparr>slocks := (slocks s)(l := sl_drop (slocks s l)),
      procs := wakeup_table (Some p) (sl_chan l) (procs s)\<rparr>)"
proof -
  let ?a = "acquired (sl_lk l) s"
  let ?b = "?a\<lparr>slocks := (slocks s)(l := sl_drop (slocks s l))\<rparr>"
  note free = fs_readyD(2) [OF r]
  have a: "acquire (sl_lk l) s = Ok () ?a" by (rule acquire_acquired [OF free])
  have nl: "L_proc q \<noteq> sl_lk l" for q by (cases l) simp_all
  have w: "wakeup (sl_chan l) ?b = Ok () (?b\<lparr>procs := wakeup_table (Some p) (sl_chan l) (procs s)\<rparr>)"
    using wakeup_nested [of ?b "Some p" "sl_chan l"] acquired_inside [OF r, of "sl_lk l"] proc_locks_free_hold [OF r nl]
    by (simp add: irq_state_ok_def proc_locks_free_def)
  have rel: "release (sl_lk l) (?b\<lparr>procs := x\<rparr>) =
      Ok () ((settle s)\<lparr>slocks := (slocks s)(l := sl_drop (slocks s l)), procs := x\<rparr>)" for x
    using fs_readyD(5,6) [OF r] free [of "sl_lk l"]
    by (cases s) (simp add: acquired_def settle_def state_simps)
  have "slocks ?a = slocks s" by (simp add: acquired_def)
  then show ?thesis using a w rel by (simp add: releasesleep_def upd_slock_def sl_drop_def)
qed

lemma slock_calm:
  assumes "fs_ready p s"
  shows "calm p s ((settle s)\<lparr>slocks := x\<rparr>)" "calm p s ((settle s)\<lparr>slocks := x, procs := wakeup_table me ch (procs s)\<rparr>)"
  using assms wakeup_table_self [of "procs s" p] by (auto intro!: calmI simp: settle_def fs_ready_def)

end
