(* ===== verification/Xv6_Virtio.thy ===== *)
theory Xv6_Virtio
  imports Xv6_Sleeplock
begin

text \<open>
  The disk driver (virtio_disk.c) together with the device it drives. The descriptor table, the two
  rings and the request headers are shared between driver and device; the addresses stored in
  descriptors are kept symbolic (\<open>dma\<close>). The device side is hardware, modelled after the virtio
  specification: \<open>device_serve\<close> does nothing before it is notified; then it takes the next chain from the
  avail ring, checks its descriptors, transfers as many bytes as the data descriptor says between
  the sectors and the buffer, writes the status byte, adds an entry to the used ring and raises its
  interrupt, which stays raised until the driver acknowledges it.
\<close>

section \<open>buf.h, virtio.h and the driver's state\<close>

record buf =
  bvalid :: int
  bdisk :: int
  bdev :: u32
  blockno :: u32
  refcnt :: u32
  bprev :: nat
  bnext :: nat
  bdata :: "u8 list"

definition NUM :: nat where "NUM = 8"
definition BSIZE :: nat where "BSIZE = 1024"
definition VRING_DESC_F_NEXT :: u16 where "VRING_DESC_F_NEXT = 1"
definition VRING_DESC_F_WRITE :: u16 where "VRING_DESC_F_WRITE = 2"
definition VIRTIO_BLK_T_IN :: u32 where "VIRTIO_BLK_T_IN = 0"
definition VIRTIO_BLK_T_OUT :: u32 where "VIRTIO_BLK_T_OUT = 1"

text \<open>The places a descriptor may point to: a request header, the data of a buffer, a status byte.\<close>

datatype dma = Dma_null | Dma_op nat | Dma_data nat | Dma_status nat

record virtq_desc =
  d_addr :: dma
  d_len :: u32
  d_flags :: u16
  d_next :: u16

record virtio_blk_req =
  req_type :: u32
  req_reserved :: u32
  req_sector :: u64

record kdisk = ksl +
  bufs :: "nat \<Rightarrow> buf"
  vdesc :: "nat \<Rightarrow> virtq_desc"
  avail_idx :: u16
  avail_ring :: "nat \<Rightarrow> u16"
  used_dev_idx :: u16
  used_ring :: "nat \<Rightarrow> u32"
  dfree :: "nat \<Rightarrow> bool"
  used_idx :: u16
  info_b :: "nat \<Rightarrow> nat option"
  info_status :: "nat \<Rightarrow> u8"
  blk_ops :: "nat \<Rightarrow> virtio_blk_req"
  sectors :: "u64 \<Rightarrow> u8 list"
  dev_next :: u16
  vq_notified :: bool
  vio_isr :: u32
  written :: "(u64 \<times> u8 list) list"

definition upd_buf :: "nat \<Rightarrow> (buf \<Rightarrow> buf) \<Rightarrow> ('x kdisk_scheme, unit) kop" where
  "upd_buf b f = modify (\<lambda>s. s\<lparr>bufs := (bufs s)(b := f (bufs s b))\<rparr>)"

definition get_buf :: "nat \<Rightarrow> ('x kdisk_scheme, buf) kop" where
  "get_buf b = gets (\<lambda>s. bufs s b)"

definition upd_desc :: "nat \<Rightarrow> virtq_desc \<Rightarrow> ('x kdisk_scheme, unit) kop" where
  "upd_desc i d = modify (\<lambda>s. s\<lparr>vdesc := (vdesc s)(i := d)\<rparr>)"

section \<open>The device\<close>

text \<open>
  The request moves \<open>len\<close> bytes, \<open>len / 512\<close> sectors; the list \<open>bdata\<close> is the array of BSIZE bytes
  of a buffer, and a request that asks for more than the array has is not served. Bytes go from the disk
  to the buffer only through a descriptor the device may write, and the other way only through
  one it may not. \<open>written\<close> is the history of the writes that have reached the disk, oldest first; no code
  reads it.
\<close>

definition dma_read :: "nat \<Rightarrow> u8 list \<Rightarrow> u8 list" where
  "dma_read len bs = (if len < BSIZE then take len bs else bs)"

definition dma_write :: "nat \<Rightarrow> u8 list \<Rightarrow> u8 list \<Rightarrow> u8 list" where
  "dma_write len new bs = new @ (if len < BSIZE then drop len bs else [])"

definition sector_bytes :: "nat \<Rightarrow> u8 list \<Rightarrow> nat \<Rightarrow> u8 list" where
  "sector_bytes n bs k = (if Suc k < n then take 512 (drop (512 * k) bs) else drop (512 * k) bs)"

definition device_transfer :: "u32 \<Rightarrow> u64 \<Rightarrow> nat \<Rightarrow> u32 \<Rightarrow> bool \<Rightarrow> 'x kdisk_scheme \<Rightarrow> 'x kdisk_scheme option" where
  "device_transfer ty sec b len wr s =
     (let n = unat len div 512; bs = bdata (bufs s b) in
      if unat len mod 512 \<noteq> 0 \<or> BSIZE < unat len then None
      else if ty = VIRTIO_BLK_T_OUT \<and> \<not> wr then
        Some (s\<lparr>sectors := (\<lambda>x. if unat (x - sec) < n then sector_bytes n (dma_read (unat len) bs) (unat (x - sec)) else sectors s x),
                written := written s @ [(sec, dma_read (unat len) bs)]\<rparr>)
      else if ty = VIRTIO_BLK_T_IN \<and> wr then
        Some (s\<lparr>bufs := (bufs s)(b := (bufs s b)\<lparr>bdata := dma_write (unat len) (concat (map (\<lambda>k. sectors s (sec + of_nat k)) [0..<n])) bs\<rparr>)\<rparr>)
      else None)"

definition has_flag :: "u16 \<Rightarrow> virtq_desc \<Rightarrow> bool" where
  "has_flag f d \<longleftrightarrow> d_flags d AND f \<noteq> 0"

text \<open>A chain the device understands: a readable header of 16 bytes, the data, a writable status byte.\<close>

definition chain_ok :: "virtq_desc \<Rightarrow> virtq_desc \<Rightarrow> virtq_desc \<Rightarrow> bool" where
  "chain_ok d0 d1 d2 \<longleftrightarrow>
     has_flag VRING_DESC_F_NEXT d0 \<and> \<not> has_flag VRING_DESC_F_WRITE d0 \<and> d_len d0 = 16 \<and>
     has_flag VRING_DESC_F_NEXT d1 \<and>
     \<not> has_flag VRING_DESC_F_NEXT d2 \<and> has_flag VRING_DESC_F_WRITE d2 \<and> d_len d2 = 1"

definition device_serve :: "'x kdisk_scheme \<Rightarrow> 'x kdisk_scheme" where
  "device_serve s =
     (if \<not> vq_notified s \<or> dev_next s = avail_idx s then s
      else let i = unat (avail_ring s (unat (dev_next s) mod NUM));
               d0 = vdesc s i; d1 = vdesc s (unat (d_next d0)); d2 = vdesc s (unat (d_next d1)) in
        case (d_addr d0, d_addr d1, d_addr d2) of
          (Dma_op r, Dma_data b, Dma_status n) \<Rightarrow>
            (if \<not> chain_ok d0 d1 d2 then s
             else case device_transfer (req_type (blk_ops s r)) (req_sector (blk_ops s r)) b (d_len d1) (has_flag VRING_DESC_F_WRITE d1) s of
               None \<Rightarrow> s
             | Some t \<Rightarrow>
                 t\<lparr>info_status := (info_status s)(n := 0),
                   used_ring := (used_ring s)(unat (used_dev_idx s) mod NUM := of_nat i),
                   used_dev_idx := used_dev_idx s + 1, dev_next := dev_next s + 1,
                   vq_notified := (dev_next s + 1 \<noteq> avail_idx s), vio_isr := vio_isr s OR 1\<rparr>)
        | _ \<Rightarrow> s)"

text \<open>
  The registers of the device that the driver uses after initialisation: writing a queue number to
  QUEUE_NOTIFY tells the device to look at that queue (there is only queue 0), writing a bit to
  INTERRUPT_ACK lowers that interrupt.
\<close>

definition write_queue_notify :: "u32 \<Rightarrow> ('x kdisk_scheme, unit) kop" where
  "write_queue_notify v = modify (\<lambda>s. s\<lparr>vq_notified := (vq_notified s \<or> v = 0)\<rparr>)"

definition read_interrupt_status :: "('x kdisk_scheme, u32) kop" where
  "read_interrupt_status = gets vio_isr"

definition write_interrupt_ack :: "u32 \<Rightarrow> ('x kdisk_scheme, unit) kop" where
  "write_interrupt_ack v = modify (\<lambda>s. s\<lparr>vio_isr := vio_isr s AND NOT v\<rparr>)"

section \<open>virtio_disk.c\<close>

definition alloc_desc_one :: "nat \<Rightarrow> ('x kdisk_scheme, nat option) kop" where
  "alloc_desc_one i =
     kbind (gets (\<lambda>s. dfree s i)) (\<lambda>f.
     if f then kthen (modify (\<lambda>s. s\<lparr>dfree := (dfree s)(i := False)\<rparr>)) (ret (Some i)) else ret None)"

text \<open>\<open>None\<close> is the result -1.\<close>

definition alloc_desc :: "('x kdisk_scheme, nat option) kop" where
  "alloc_desc = scan alloc_desc_one [0..<NUM]"

definition free_desc :: "nat \<Rightarrow> ('x kdisk_scheme, unit) kop" where
  "free_desc i =
     (if i \<ge> NUM then panic ''free_desc 1'' else
      kbind (gets (\<lambda>s. dfree s i)) (\<lambda>f.
      if f then panic ''free_desc 2'' else
      kthen (upd_desc i \<lparr>d_addr = Dma_null, d_len = 0, d_flags = 0, d_next = 0\<rparr>) (
      kthen (modify (\<lambda>s. s\<lparr>dfree := (dfree s)(i := True)\<rparr>)) (
      wakeup Chan_vdisk))))"

lemma keeps_wakeup:
  assumes "\<And>p. lock_blind (L_proc p) f" "\<And>s x. f (s\<lparr>procs := x\<rparr>) = f s"
  shows "keeps f (wakeup ch)"
  unfolding wakeup_def wakeup_one_def myproc_def get_proc_def upd_proc_def
  using assms by (intro keeps_rules keeps_modify) (auto simp: lock_blind_def)

lemma free_desc_Ok:
  fixes s t :: "'x kdisk_scheme"
  assumes "free_desc i s = Ok r t" shows "i < NUM" "\<not> dfree s i" "dfree t = (dfree s)(i := True)"
proof -
  have k: "keeps dfree (wakeup Chan_vdisk :: ('x kdisk_scheme, unit) kop)"
    by (rule keeps_wakeup) (simp_all add: lock_blind_def irq_blind_def)
  show "i < NUM" "\<not> dfree s i" "dfree t = (dfree s)(i := True)"
    using assms keepsD [OF k] by (auto simp: free_desc_def upd_desc_def split: if_splits)
qed

text \<open>The loop ends: a chain that came back to a freed descriptor would panic in \<open>free_desc\<close>.\<close>

function free_chain :: "nat \<Rightarrow> ('x kdisk_scheme, unit) kop" where
  "free_chain i s =
     (case free_desc i s of
        Ok _ t \<Rightarrow>
          if d_flags (vdesc s i) AND VRING_DESC_F_NEXT \<noteq> 0 then free_chain (unat (d_next (vdesc s i))) t else Ok () t
      | Panic msg \<Rightarrow> Panic msg | Spin t \<Rightarrow> Spin t | Sleep t \<Rightarrow> Sleep t)"
  by pat_completeness auto
termination
proof (relation "measure (\<lambda>(i, s). card {k. k < NUM \<and> \<not> dfree s k})")
  fix i :: nat and s t :: "'x kdisk_scheme" and u
  assume "free_desc i s = Ok u t"
  note d = free_desc_Ok [OF this]
  have "{k. k < NUM \<and> \<not> dfree t k} \<subset> {k. k < NUM \<and> \<not> dfree s k}" using d by auto
  then have "card {k. k < NUM \<and> \<not> dfree t k} < card {k. k < NUM \<and> \<not> dfree s k}"
    by (rule psubset_card_mono [rotated]) simp
  then show "((unat (d_next (vdesc s i)), t), i, s) \<in> measure (\<lambda>(i, s). card {k. k < NUM \<and> \<not> dfree s k})" by simp
qed simp

declare free_chain.simps [simp del]

text \<open>The three descriptors, or \<open>None\<close> for the result -1 (with those already taken given back).\<close>

definition alloc3_desc :: "('x kdisk_scheme, (nat \<times> nat \<times> nat) option) kop" where
  "alloc3_desc =
     kbind alloc_desc (\<lambda>i0. case i0 of None \<Rightarrow> ret None | Some i \<Rightarrow>
     kbind alloc_desc (\<lambda>i1. case i1 of None \<Rightarrow> kthen (free_desc i) (ret None) | Some j \<Rightarrow>
     kbind alloc_desc (\<lambda>i2. case i2 of
         None \<Rightarrow> kthen (free_desc i) (kthen (free_desc j) (ret None))
       | Some k \<Rightarrow> ret (Some (i, j, k)))))"

text \<open>Formatting and publishing the request.\<close>

definition virtio_disk_submit :: "nat \<Rightarrow> bool \<Rightarrow> nat \<times> nat \<times> nat \<Rightarrow> ('x kdisk_scheme, unit) kop" where
  "virtio_disk_submit b write idx = (case idx of (i, j, k) \<Rightarrow>
     kbind (get_buf b) (\<lambda>bp.
     kthen (modify (\<lambda>s. s\<lparr>blk_ops := (blk_ops s)(i :=
       \<lparr>req_type = (if write then VIRTIO_BLK_T_OUT else VIRTIO_BLK_T_IN), req_reserved = 0,
        req_sector = ucast (blockno bp * 2)\<rparr>)\<rparr>)) (
     kthen (upd_desc i \<lparr>d_addr = Dma_op i, d_len = 16, d_flags = VRING_DESC_F_NEXT, d_next = of_nat j\<rparr>) (
     kthen (upd_desc j \<lparr>d_addr = Dma_data b, d_len = 1024,
       d_flags = (if write then 0 else VRING_DESC_F_WRITE) OR VRING_DESC_F_NEXT, d_next = of_nat k\<rparr>) (
     kthen (modify (\<lambda>s. s\<lparr>info_status := (info_status s)(i := 255)\<rparr>)) (
     kthen (upd_desc k \<lparr>d_addr = Dma_status i, d_len = 1, d_flags = VRING_DESC_F_WRITE, d_next = 0\<rparr>) (
     kthen (upd_buf b (\<lambda>bp. bp\<lparr>bdisk := 1\<rparr>)) (
     kthen (modify (\<lambda>s. s\<lparr>info_b := (info_b s)(i := Some b)\<rparr>)) (
     kthen (modify (\<lambda>s. s\<lparr>avail_ring := (avail_ring s)(unat (avail_idx s) mod NUM := of_nat i)\<rparr>)) (
     kthen (modify (\<lambda>s. s\<lparr>avail_idx := avail_idx s + 1\<rparr>)) (
     write_queue_notify 0)))))))))))"

text \<open>
  The interrupt handler: \<open>fuel\<close> bounds the number of used entries it handles; the rings hold at most
  \<open>NUM\<close> of them.
\<close>

fun virtio_disk_intr_loop :: "nat \<Rightarrow> ('x kdisk_scheme, unit) kop" where
  "virtio_disk_intr_loop 0 = Spin"
| "virtio_disk_intr_loop (Suc fuel) =
     kbind (gets (\<lambda>s. used_idx s = used_dev_idx s)) (\<lambda>done.
     if done then ret () else
     kbind (gets (\<lambda>s. unat (used_ring s (unat (used_idx s) mod NUM)))) (\<lambda>id.
     kbind (gets (\<lambda>s. info_status s id)) (\<lambda>st.
     if st \<noteq> 0 then panic ''virtio_disk_intr status'' else
     kbind (gets (\<lambda>s. info_b s id)) (\<lambda>mb.
     kbind (deref mb) (\<lambda>b.
     kthen (upd_buf b (\<lambda>bp. bp\<lparr>bdisk := 0\<rparr>)) (
     kthen (wakeup (Chan_buf b)) (
     kthen (modify (\<lambda>s. s\<lparr>used_idx := used_idx s + 1\<rparr>)) (
     virtio_disk_intr_loop fuel))))))))"

definition virtio_disk_intr :: "('x kdisk_scheme, unit) kop" where
  "virtio_disk_intr =
     kthen (acquire L_vdisk) (
     kbind read_interrupt_status (\<lambda>st.
     kthen (write_interrupt_ack (st AND 3)) (
     kthen (virtio_disk_intr_loop (Suc NUM)) (
     release L_vdisk))))"

text \<open>
  Sleeping until an event: the process goes to sleep, its hart runs the scheduler, which is where
  \<open>event\<close> happens; when the process has become runnable the scheduler switches back to it and \<open>sleep\<close>
  returns. A process that is still not runnable stays asleep.
\<close>

definition redispatch :: "nat \<Rightarrow> ('x kproc_scheme, unit) kop" where
  "redispatch p =
     kthen (acquire (L_proc p)) (
     kbind (get_proc p) (\<lambda>q.
     if state q \<noteq> RUNNABLE then Sleep else
     kthen (upd_proc p (\<lambda>q. q\<lparr>state := RUNNING\<rparr>)) (
     kbind mycpu (\<lambda>c. upd_cpu c (\<lambda>k. k\<lparr>cproc := Some p\<rparr>)))))"

definition sleep_through :: "('x kproc_scheme, unit) kop \<Rightarrow> wchan \<Rightarrow> lockid \<Rightarrow> ('x kproc_scheme, unit) kop" where
  "sleep_through event ch lk s =
     (case (sleep ch lk s, cproc (cpus s (tp s))) of
        (Sleep t, Some p) \<Rightarrow>
          kthen (switch_back (tp t) p) (
          kthen event (
          kthen (redispatch p) (
          sleep_resume p lk (intena (cpus t (tp t)))))) t
      | (r, _) \<Rightarrow> r)"

text \<open>What happens at the disk while a process waits: the device works, and the handler runs if its interrupt came up.\<close>

definition disk_event :: "('x kdisk_scheme, unit) kop" where
  "disk_event =
     kbind (gets vio_isr) (\<lambda>old.
     kthen (modify device_serve) (
     kbind (gets vio_isr) (\<lambda>new.
     kwhen (old = 0 \<and> new \<noteq> 0) virtio_disk_intr)))"

definition virtio_disk_wait :: "nat \<Rightarrow> ('x kdisk_scheme, unit) kop" where
  "virtio_disk_wait b =
     kbind (get_buf b) (\<lambda>bp.
     if bdisk bp = 1 then
       kthen (sleep_through disk_event (Chan_buf b) L_vdisk) (
       kbind (get_buf b) (\<lambda>bp.
       if bdisk bp = 1 then sleep (Chan_buf b) L_vdisk else ret ()))
     else ret ())"

definition virtio_disk_rw :: "nat \<Rightarrow> bool \<Rightarrow> ('x kdisk_scheme, unit) kop" where
  "virtio_disk_rw b write =
     kthen (acquire L_vdisk) (
     kbind alloc3_desc (\<lambda>r. case r of
         None \<Rightarrow> sleep Chan_vdisk L_vdisk
       | Some idx \<Rightarrow>
           kthen (virtio_disk_submit b write idx) (
           kthen (virtio_disk_wait b) (
           kthen (modify (\<lambda>s. s\<lparr>info_b := (info_b s)(fst idx := None)\<rparr>)) (
           kthen (free_chain (fst idx)) (
           release L_vdisk))))))"

section \<open>Sleeping through an event\<close>

lemma cpu_settle_set_cproc [simp]: "cpu_settle h ss (set_cproc h x cs) = set_cproc h x (cpu_settle h ss cs)"
  "cpu_push h ss (set_cproc h x cs) = set_cproc h x (cpu_push h ss cs)"
  "intena (set_cproc h x cs k) = intena (cs k)"
  by (auto simp: set_cproc_def lock_effect_defs Let_def)

text \<open>The state the rest of the system sees while \<open>p\<close> sleeps.\<close>

definition asleep :: "nat \<Rightarrow> wchan \<Rightarrow> 'x kproc_scheme \<Rightarrow> 'x kproc_scheme" where
  "asleep p ch s = (settle s)\<lparr>cpus := set_cproc (tp s) None (cpus (settle s)),
     procs := (procs s)(p := going_to_sleep p ch (procs s p))\<rparr>"

lemma switch_back_asleep:
  assumes "fs_ready p s"
  shows "switch_back (tp s) p ((acquired (L_proc p) s)\<lparr>procs := (procs s)(p := going_to_sleep p ch (procs s p))\<rparr>) =
    Ok () (asleep p ch s)"
  using fs_readyD(2) [OF assms, of "L_proc p"] fs_readyD(6,7) [OF assms]
  by (cases s) (simp add: switch_back_def upd_cpu_cproc acquired_def release_effect asleep_def settle_def)

lemma redispatch_effect:
  assumes "lock_free (L_proc p) (locks v)" "state (procs v p) = RUNNABLE"
  shows "redispatch p v = Ok () ((acquired (L_proc p) v)\<lparr>procs := (procs v)(p := (procs v p)\<lparr>state := RUNNING\<rparr>),
     cpus := set_cproc (tp v) (Some p) (cpus (acquired (L_proc p) v))\<rparr>)"
  using assms
  by (cases v) (simp add: redispatch_def acquire_acquired get_proc_def upd_proc_def mycpu_def cpuid_def upd_cpu_cproc acquired_def)

lemma upd_intena_same:
  "ie = intena (cpus w c) \<Longrightarrow> upd_cpu c (\<lambda>k. k\<lparr>intena := ie\<rparr>) w = Ok () w"
  by (cases w) (simp add: upd_cpu_def)

lemma intena_push: "noff (cs h) = 0 \<Longrightarrow> intena (cpu_push h ss cs h) = irq_enabled h ss"
  by (simp add: cpu_push_def cpu_settle_def Let_def)

text \<open>What \<open>sleep\<close> leaves of the sleeper's own entry, and the state it returns in.\<close>

definition awake_again :: "nat \<Rightarrow> 'x kproc_scheme \<Rightarrow> 'x kproc_scheme \<Rightarrow> 'x kproc_scheme" where
  "awake_again p s v = v\<lparr>cpus := cpus (settle s),
     procs := (procs v)(p := (procs v p)\<lparr>state := RUNNING, chan := Chan_none\<rparr>)\<rparr>"

lemma sleep_resume_effect:
  assumes r: "fs_ready p s" and lk: "\<And>q. L_proc q \<noteq> lk"
    and v: "tp v = tp s" "sstatus v = sstatus s" "locks v = locks s"
      "cpus v = set_cproc (tp s) None (cpus (settle s))"
  shows "sleep_resume p lk (irq_enabled (tp s) (sstatus s))
      ((acquired (L_proc p) v)\<lparr>procs := (procs v)(p := (procs v p)\<lparr>state := RUNNING\<rparr>),
        cpus := set_cproc (tp v) (Some p) (cpus (acquired (L_proc p) v))\<rparr>) =
    Ok () (acquired lk (awake_again p s v))"
proof -
  let ?h = "tp s" and ?ss = "sstatus s" and ?cs = "cpus s"
  let ?w = "(acquired (L_proc p) v)\<lparr>procs := (procs v)(p := (procs v p)\<lparr>state := RUNNING\<rparr>),
        cpus := set_cproc ?h (Some p) (cpus (acquired (L_proc p) v))\<rparr>"
  let ?x = "?w\<lparr>procs := (procs v)(p := (procs v p)\<lparr>state := RUNNING, chan := Chan_none\<rparr>)\<rparr>"
  note ok = fs_readyD(6,7) [OF r] and free = fs_readyD(2) [OF r]
  have cs: "cpus ?w = cpu_push ?h ?ss ?cs"
    using v fs_readyD(4) [OF r] by (simp add: acquired_def settle_cpus set_cproc_same)
  then have ie: "irq_enabled ?h ?ss = intena (cpus ?w (tp ?w))"
    using ok v by (simp add: intena_push)
  have a: "sched_resume (irq_enabled ?h ?ss) ?w = Ok () ?w"
    using upd_intena_same [OF ie] by (simp add: sched_resume_def mycpu_def cpuid_def)
  have b: "upd_proc p (\<lambda>q. q\<lparr>chan := Chan_none\<rparr>) ?w = Ok () ?x"
    by (simp add: upd_proc_def acquired_def)
  have d: "lock_held (L_proc p) (tp ?x) (locks ?x)" "\<not> irq_enabled (tp ?x) (sstatus ?x)" "1 \<le> noff (cpus ?x (tp ?x))"
    using cs v ok by (simp_all add: acquired_def)
  have e: "irq_restore ?h (cpu_push ?h ?ss ?cs) (irq_disable ?h ?ss) = ?ss" using ok by simp
  have c: "release (L_proc p) ?x = Ok () (awake_again p s v)"
    unfolding release_effect [OF d] using cs v ok free [of "L_proc p"] e
    by (cases v) (simp add: acquired_def awake_again_def settle_cpus)
  have "lock_free lk (locks (awake_again p s v))" using free v by (simp add: awake_again_def)
  then show ?thesis using a b c v(1) by (simp add: sleep_resume_def acquire_acquired)
qed

theorem sleep_through_effect:
  assumes r: "fs_ready p s" and lk: "\<And>q. L_proc q \<noteq> lk"
    and ev: "event (asleep p ch s) = Ok () v"
    and v: "tp v = tp s" "sstatus v = sstatus s" "locks v = locks s"
      "cpus v = set_cproc (tp s) None (cpus (settle s))" "state (procs v p) = RUNNABLE"
  shows "sleep_through event ch lk (acquired lk s) = Ok () (acquired lk (awake_again p s v))"
proof -
  let ?t = "(acquired (L_proc p) s)\<lparr>procs := (procs s)(p := going_to_sleep p ch (procs s p))\<rparr>"
  have ne: "lk \<noteq> L_proc p" using lk [of p] by blast
  have sl: "sleep ch lk (acquired lk s) = Sleep ?t"
    by (rule sleep_effect [OF fs_readyD(1,4,2) [OF r] ne fs_readyD(2,7) [OF r]])
  have p: "cproc (cpus (acquired lk s) (tp (acquired lk s))) = Some p"
    using fs_readyD(4) [OF r] by (simp add: acquired_def)
  have ie: "intena (cpus ?t (tp ?t)) = irq_enabled (tp s) (sstatus s)"
    using fs_readyD(7) [OF r] by (simp add: acquired_def intena_push)
  have lf: "lock_free (L_proc p) (locks v)" using fs_readyD(2) [OF r] v(3) by simp
  have tpt: "tp ?t = tp s" by simp
  show ?thesis
    unfolding sleep_through_def sl p
    using switch_back_asleep [OF r, of ch] ev redispatch_effect [OF lf v(5)]
      sleep_resume_effect [OF r lk v(1-4)] ie
    by (simp add: v(1))
qed

section \<open>One request, from submission to completion\<close>

lemma acquired_upd_procs: "(acquired l s)\<lparr>procs := x\<rparr> = acquired l (s\<lparr>procs := x\<rparr>)"
  by (cases s) (simp add: acquired_def)

definition disk_ok :: "'x kdisk_scheme \<Rightarrow> bool" where
  "disk_ok s \<longleftrightarrow> (\<forall>i < NUM. dfree s i) \<and> dev_next s = avail_idx s \<and> used_idx s = used_dev_idx s \<and> \<not> vq_notified s \<and> vio_isr s = 0"

lemma acquire_then: "lock_free l (locks s) \<Longrightarrow> kthen (acquire l) n s = n (acquired l s)"
  by (simp add: acquire_acquired)

lemma alloc_desc_first:
  assumes "dfree s i" "i < NUM" "\<forall>k < i. \<not> dfree s k"
  shows "alloc_desc s = Ok (Some i) (s\<lparr>dfree := (dfree s)(i := False)\<rparr>)"
proof -
  have skip: "scan alloc_desc_one ks s = Ok None s" if "\<forall>k \<in> set ks. \<not> dfree s k" for ks
    using that by (induction ks) (simp_all add: alloc_desc_one_def)
  have app: "scan alloc_desc_one (ks @ is) s = scan alloc_desc_one is s" if "\<forall>k \<in> set ks. \<not> dfree s k" for ks "is"
    using that by (induction ks) (simp_all add: alloc_desc_one_def)
  have "[0..<NUM] = [0..<i] @ i # [Suc i..<NUM]"
    using assms(2) upt_conv_Cons [of i NUM] upt_add_eq_append [of 0 i "NUM - i"] by simp
  then show ?thesis using assms app [of "[0..<i]"] by (simp add: alloc_desc_def alloc_desc_one_def)
qed

lemma alloc3_desc_idle:
  assumes "\<forall>i < NUM. dfree s i"
  shows "alloc3_desc s = Ok (Some (0, 1, 2)) (s\<lparr>dfree := (dfree s)(0 := False, 1 := False, 2 := False)\<rparr>)"
proof -
  let ?a = "s\<lparr>dfree := (dfree s)(0 := False)\<rparr>" and ?b = "s\<lparr>dfree := (dfree s)(0 := False, 1 := False)\<rparr>"
  have f: "dfree s 0" "dfree s 1" "dfree s 2" using assms by (simp_all add: NUM_def)
  have "alloc_desc s = Ok (Some 0) ?a" using alloc_desc_first [of s 0] f by (simp add: NUM_def)
  moreover have "alloc_desc ?a = Ok (Some 1) ?b" using alloc_desc_first [of ?a 1] f by (simp add: NUM_def)
  moreover have "alloc_desc ?b = Ok (Some 2) (s\<lparr>dfree := (dfree s)(0 := False, 1 := False, 2 := False)\<rparr>)"
    using alloc_desc_first [of ?b 2] f by (auto simp: NUM_def less_2_cases_iff)
  ultimately show ?thesis by (simp add: alloc3_desc_def)
qed

definition req_desc :: "nat \<Rightarrow> bool \<Rightarrow> (nat \<Rightarrow> virtq_desc) \<Rightarrow> nat \<Rightarrow> virtq_desc" where
  "req_desc b w ds = ds(
     0 := \<lparr>d_addr = Dma_op 0, d_len = 16, d_flags = VRING_DESC_F_NEXT, d_next = 1\<rparr>,
     1 := \<lparr>d_addr = Dma_data b, d_len = 1024,
           d_flags = (if w then 0 else VRING_DESC_F_WRITE) OR VRING_DESC_F_NEXT, d_next = 2\<rparr>,
     2 := \<lparr>d_addr = Dma_status 0, d_len = 1, d_flags = VRING_DESC_F_WRITE, d_next = 0\<rparr>)"

definition submitted :: "nat \<Rightarrow> bool \<Rightarrow> 'x kdisk_scheme \<Rightarrow> 'x kdisk_scheme" where
  "submitted b w s = s\<lparr>
     dfree := (dfree s)(0 := False, 1 := False, 2 := False),
     blk_ops := (blk_ops s)(0 := \<lparr>req_type = (if w then VIRTIO_BLK_T_OUT else VIRTIO_BLK_T_IN), req_reserved = 0,
        req_sector = ucast (blockno (bufs s b) * 2)\<rparr>),
     vdesc := req_desc b w (vdesc s),
     info_status := (info_status s)(0 := 255),
     bufs := (bufs s)(b := (bufs s b)\<lparr>bdisk := 1\<rparr>),
     info_b := (info_b s)(0 := Some b),
     avail_ring := (avail_ring s)(unat (avail_idx s) mod NUM := 0),
     avail_idx := avail_idx s + 1, vq_notified := True\<rparr>"

lemma submit_effect:
  assumes "\<forall>i < NUM. dfree s i"
  shows "kbind alloc3_desc (\<lambda>r. case r of None \<Rightarrow> m | Some idx \<Rightarrow> kthen (virtio_disk_submit b w idx) (n idx)) (acquired l s) =
    n (0, 1, 2) (acquired l (submitted b w s))"
proof -
  have "dfree (acquired l s) = dfree s" by (simp add: acquired_def)
  then have "alloc3_desc (acquired l s) =
      Ok (Some (0, 1, 2)) ((acquired l s)\<lparr>dfree := (dfree s)(0 := False, 1 := False, 2 := False)\<rparr>)"
    using alloc3_desc_idle [of "acquired l s"] assms by simp
  moreover have "virtio_disk_submit b w (0, 1, 2) ((acquired l s)\<lparr>dfree := (dfree s)(0 := False, 1 := False, 2 := False)\<rparr>) =
      Ok () (acquired l (submitted b w s))"
    by (cases s) (simp add: virtio_disk_submit_def get_buf_def upd_desc_def upd_buf_def submitted_def req_desc_def acquired_def write_queue_notify_def)
  ultimately show ?thesis by simp
qed

text \<open>The two sectors of block \<open>n\<close>.\<close>

definition sector_of :: "u32 \<Rightarrow> u64" where
  "sector_of n = ucast (n * 2)"

definition disk_block :: "(u64 \<Rightarrow> u8 list) \<Rightarrow> u32 \<Rightarrow> u8 list" where
  "disk_block d n = d (sector_of n) @ d (sector_of n + 1)"

definition disk_store :: "u32 \<Rightarrow> u8 list \<Rightarrow> (u64 \<Rightarrow> u8 list) \<Rightarrow> u64 \<Rightarrow> u8 list" where
  "disk_store n bs d = d(sector_of n := take 512 bs, sector_of n + 1 := drop 512 bs)"

definition transferred :: "nat \<Rightarrow> bool \<Rightarrow> 'x kdisk_scheme \<Rightarrow> 'x kdisk_scheme" where
  "transferred b w s =
     (if w then s\<lparr>sectors := disk_store (blockno (bufs s b)) (bdata (bufs s b)) (sectors s),
                  written := written s @ [(sector_of (blockno (bufs s b)), bdata (bufs s b))]\<rparr>
      else s\<lparr>bufs := (bufs s)(b := (bufs s b)\<lparr>bdata := disk_block (sectors s) (blockno (bufs s b))\<rparr>)\<rparr>)"

definition served :: "'x kdisk_scheme \<Rightarrow> 'x kdisk_scheme" where
  "served s = s\<lparr>info_status := (info_status s)(0 := 0),
     used_ring := (used_ring s)(unat (used_dev_idx s) mod NUM := 0),
     used_dev_idx := used_dev_idx s + 1, dev_next := dev_next s + 1, vq_notified := False, vio_isr := 1\<rparr>"

text \<open>A transfer of BSIZE bytes moves the two sectors of a block.\<close>

lemma block_sectors:
  fixes sec :: u64
  shows "(\<lambda>x. if unat (x - sec) < 2 then sector_bytes 2 bs (unat (x - sec)) else d x) = d(sec := take 512 bs, sec + 1 := drop 512 bs)"
proof
  fix x :: u64
  have "unat (x - sec) < 2 \<longleftrightarrow> x = sec \<or> x = sec + 1"
  proof
    assume "unat (x - sec) < 2"
    then have "unat (x - sec) = unat (0 :: u64) \<or> unat (x - sec) = unat (1 :: u64)" by auto
    then have "x - sec = 0 \<or> x - sec = 1" by (simp only: word_unat_eq_iff)
    then show "x = sec \<or> x = sec + 1" by (auto simp: diff_eq_eq add.commute)
  qed auto
  then show "(if unat (x - sec) < 2 then sector_bytes 2 bs (unat (x - sec)) else d x) = (d(sec := take 512 bs, sec + 1 := drop 512 bs)) x"
    by (auto simp: sector_bytes_def)
qed

lemma device_serve_effect:
  assumes "dev_next s = avail_idx s" "vio_isr s = 0"
  shows "device_serve (asleep p ch (submitted b w s)) = asleep p ch (served (transferred b w (submitted b w s)))"
proof -
  let ?u = "asleep p ch (submitted b w s)"
  have f: "dev_next ?u \<noteq> avail_idx ?u" "avail_ring ?u (unat (dev_next ?u) mod NUM) = 0" "dev_next ?u + 1 = avail_idx ?u"
    "vdesc ?u = req_desc b w (vdesc s)" "vq_notified ?u" "vio_isr ?u = 0"
    "blk_ops ?u 0 = \<lparr>req_type = (if w then VIRTIO_BLK_T_OUT else VIRTIO_BLK_T_IN), req_reserved = 0,
        req_sector = sector_of (blockno (bufs s b))\<rparr>"
    using assms by (simp_all add: asleep_def settle_def submitted_def sector_of_def)
  let ?d = "req_desc b w (vdesc s)"
  have d: "d_next (?d 0) = 1" "d_next (?d 1) = 2" "d_addr (?d 0) = Dma_op 0" "d_addr (?d 1) = Dma_data b"
    "d_addr (?d 2) = Dma_status 0" "d_len (?d 1) = 1024" "has_flag VRING_DESC_F_WRITE (?d 1) \<longleftrightarrow> \<not> w" "chain_ok (?d 0) (?d 1) (?d 2)"
    by (simp_all add: req_desc_def chain_ok_def has_flag_def VRING_DESC_F_WRITE_def VRING_DESC_F_NEXT_def)
  have t: "device_transfer (if w then VIRTIO_BLK_T_OUT else VIRTIO_BLK_T_IN) (sector_of (blockno (bufs s b))) b 1024 (\<not> w) ?u =
      Some (asleep p ch (transferred b w (submitted b w s)))"
  proof (cases w)
    case True
    then show ?thesis
      by (simp add: device_transfer_def dma_read_def BSIZE_def VIRTIO_BLK_T_OUT_def Let_def block_sectors)
        (simp add: transferred_def asleep_def settle_def submitted_def disk_store_def)
  next
    case False
    have u: "[0..<2] = [0, 1 :: nat]" by (simp add: upt_rec)
    show ?thesis using False
      by (simp add: device_transfer_def dma_write_def BSIZE_def VIRTIO_BLK_T_OUT_def VIRTIO_BLK_T_IN_def Let_def u)
        (simp add: transferred_def asleep_def settle_def submitted_def disk_block_def)
  qed
  show ?thesis
    unfolding device_serve_def f(4) using f(1-3,5-7) d t
    by (simp add: Let_def) (simp add: asleep_def settle_def served_def transferred_def submitted_def)
qed

text \<open>The interrupt handler finds exactly the one completed request.\<close>

definition noticed :: "nat \<Rightarrow> 'x kdisk_scheme \<Rightarrow> 'x kdisk_scheme" where
  "noticed b s = s\<lparr>bufs := (bufs s)(b := (bufs s b)\<lparr>bdisk := 0\<rparr>), used_idx := used_idx s + 1, vio_isr := 0\<rparr>"

lemma intr_loop_one:
  assumes "used_dev_idx x = used_idx x + 1" "used_ring x (unat (used_idx x) mod NUM) = 0" "info_status x 0 = 0"
    "info_b x 0 = Some b" "irq_state_ok x" "0 < noff (cpus x (tp x))" "proc_locks_free x" "vio_isr x = 0"
  shows "virtio_disk_intr_loop (Suc (Suc n)) x =
    Ok () ((noticed b x)\<lparr>procs := wakeup_table (cproc (cpus x (tp x))) (Chan_buf b) (procs x)\<rparr>)"
proof -
  let ?y = "x\<lparr>bufs := (bufs x)(b := (bufs x b)\<lparr>bdisk := 0\<rparr>)\<rparr>"
  have w: "wakeup (Chan_buf b) ?y = Ok () (?y\<lparr>procs := wakeup_table (cproc (cpus x (tp x))) (Chan_buf b) (procs x)\<rparr>)"
    using wakeup_nested [of ?y "cproc (cpus x (tp x))" "Chan_buf b"] assms(5-7)
    by (simp add: irq_state_ok_def proc_locks_free_def)
  show ?thesis using assms(1-4,8) w by (cases x) (simp add: upd_buf_def noticed_def)
qed

lemma wakeup_table_asleep:
  "p < NPROC \<Longrightarrow> wakeup_table None ch ((procs s)(p := going_to_sleep p ch (procs s p))) p =
     (going_to_sleep p ch (procs s p))\<lparr>state := RUNNABLE\<rparr>"
  by (simp add: wakeup_table_def map_table_def awaken_def going_to_sleep_def)

lemma disk_event_effect:
  fixes s :: "'x kdisk_scheme"
  assumes r: "fs_ready p s" and ok: "disk_ok s"
  shows "disk_event (asleep p (Chan_buf b) (submitted b w s)) =
    Ok () ((asleep p (Chan_buf b) (noticed b (served (transferred b w (submitted b w s)))))
      \<lparr>procs := wakeup_table None (Chan_buf b) ((procs s)(p := going_to_sleep p (Chan_buf b) (procs s p)))\<rparr>)"
proof -
  define u where "u = served (transferred b w (submitted b w s))"
  let ?x = "asleep p (Chan_buf b) u"
  let ?y = "(acquired L_vdisk ?x)\<lparr>vio_isr := 0\<rparr>"
  have f: "tp u = tp s" "sstatus u = sstatus s" "cpus u = cpus s" "locks u = locks s" "procs u = procs s"
    "used_dev_idx u = used_idx s + 1" "used_ring u (unat (used_idx u) mod NUM) = 0" "used_idx u = used_idx s"
    "info_status u 0 = 0" "info_b u 0 = Some b" "vio_isr u = 1"
    using ok by (auto simp: u_def served_def transferred_def submitted_def disk_ok_def)
  have ox: "irq_state_ok ?x" "settle ?x = ?x"
    using fs_readyD(6,7) [OF r] f by (cases u; simp add: asleep_def settle_def irq_state_ok_def)+
  have lf: "lock_free l (locks ?x)" for l using fs_readyD(2) [OF r] f by (simp add: asleep_def)
  have ry: "irq_state_ok ?y" "proc_locks_free ?y" using irq_state_ok_acquired [OF ox(1), of L_vdisk] lf
    by (simp_all add: proc_locks_free_def irq_state_ok_def)
  have cy: "cproc (cpus ?y (tp ?y)) = None" "0 < noff (cpus ?y (tp ?y))"
    using fs_readyD(7) [OF r] f by (simp_all add: acquired_def asleep_def settle_cpus)
  have fy: "used_dev_idx ?y = used_idx ?y + 1" "used_ring ?y (unat (used_idx ?y) mod NUM) = 0" "info_status ?y 0 = 0"
    "info_b ?y 0 = Some b" "procs ?y = procs ?x"
    using f by (simp_all add: acquired_def asleep_def settle_def)
  let ?tab = "wakeup_table None (Chan_buf b) ((procs s)(p := going_to_sleep p (Chan_buf b) (procs s p)))"
  have px: "procs ?x = (procs s)(p := going_to_sleep p (Chan_buf b) (procs s p))" using f by (simp add: asleep_def)
  have loop: "virtio_disk_intr_loop (Suc NUM) ?y = Ok () ((noticed b ?y)\<lparr>procs := ?tab\<rparr>)"
    using intr_loop_one [OF fy(1-4) ry(1) cy(2) ry(2), of 7] cy(1) fy(5) px by (simp add: NUM_def)
  have eq: "(noticed b ?y)\<lparr>procs := ?tab\<rparr> = acquired L_vdisk ((asleep p (Chan_buf b) (noticed b u))\<lparr>procs := ?tab\<rparr>)"
    by (cases u) (simp add: noticed_def acquired_def asleep_def settle_def)
  let ?z = "(asleep p (Chan_buf b) (noticed b u))\<lparr>procs := ?tab\<rparr>"
  have "irq_state_ok ?z" "settle ?z = ?z" "lock_free L_vdisk (locks ?z)"
    using ox lf by (cases u; simp add: asleep_def noticed_def settle_def irq_state_ok_def)+
  then have rel: "release L_vdisk (acquired L_vdisk ?z) = Ok () ?z"
    using release_acquired [of ?z L_vdisk] by simp
  have isr: "vio_isr (asleep p (Chan_buf b) (submitted b w s)) = 0" "vio_isr ?x = 1" "vio_isr (acquired L_vdisk ?x) = 1"
    using ok f(11) by (simp_all add: asleep_def settle_def submitted_def disk_ok_def acquired_def)
  have "disk_event (asleep p (Chan_buf b) (submitted b w s)) = virtio_disk_intr ?x"
    using ok isr by (simp add: disk_event_def device_serve_effect disk_ok_def u_def)
  also have "\<dots> = Ok () ?z"
    using acquire_acquired [OF lf, of L_vdisk] loop rel eq isr(3) by (simp add: virtio_disk_intr_def read_interrupt_status_def write_interrupt_ack_def)
  finally show ?thesis by (simp add: u_def)
qed

lemma free_desc_nested:
  assumes "irq_state_ok x" "0 < noff (cpus x (tp x))" "cproc (cpus x (tp x)) = Some p" "proc_locks_free x"
    and "i < NUM" "\<not> dfree x i"
  shows "free_desc i x = Ok () (x\<lparr>vdesc := (vdesc x)(i := \<lparr>d_addr = Dma_null, d_len = 0, d_flags = 0, d_next = 0\<rparr>),
     dfree := (dfree x)(i := True), procs := wakeup_table (Some p) Chan_vdisk (procs x)\<rparr>)"
proof -
  let ?y = "x\<lparr>vdesc := (vdesc x)(i := \<lparr>d_addr = Dma_null, d_len = 0, d_flags = 0, d_next = 0\<rparr>),
     dfree := (dfree x)(i := True)\<rparr>"
  have "wakeup Chan_vdisk ?y = Ok () (?y\<lparr>procs := wakeup_table (Some p) Chan_vdisk (procs x)\<rparr>)"
    using wakeup_nested [of ?y "Some p" Chan_vdisk] assms(1-4) by (simp add: irq_state_ok_def proc_locks_free_def)
  then show ?thesis using assms(5,6) by (simp add: free_desc_def upd_desc_def)
qed

lemma req_flags [simp]:
  "d_flags (req_desc b w ds 0) AND VRING_DESC_F_NEXT \<noteq> 0" "d_flags (req_desc b w ds (Suc 0)) AND VRING_DESC_F_NEXT \<noteq> 0"
  "d_flags (req_desc b w ds 2) AND VRING_DESC_F_NEXT = 0"
  "d_next (req_desc b w ds 0) = 1" "d_next (req_desc b w ds (Suc 0)) = 2"
  by (simp_all add: req_desc_def VRING_DESC_F_NEXT_def VRING_DESC_F_WRITE_def)

definition freed_desc :: "(nat \<Rightarrow> virtq_desc) \<Rightarrow> nat \<Rightarrow> virtq_desc" where
  "freed_desc ds = (let z = \<lparr>d_addr = Dma_null, d_len = 0, d_flags = 0, d_next = 0\<rparr> in ds(0 := z, 1 := z, 2 := z))"

lemma free_chain_effect:
  assumes x: "irq_state_ok x" "0 < noff (cpus x (tp x))" "cproc (cpus x (tp x)) = Some p" "proc_locks_free x"
    and d: "vdesc x = req_desc b w ds" "dfree x = f(0 := False, 1 := False, 2 := False)"
  shows "free_chain 0 x = Ok () (x\<lparr>vdesc := freed_desc ds, dfree := f(0 := True, 1 := True, 2 := True),
     procs := ((wakeup_table (Some p) Chan_vdisk) ^^ 3) (procs x)\<rparr>)"
proof -
  let ?z = "\<lparr>d_addr = Dma_null, d_len = 0, d_flags = 0, d_next = 0\<rparr>"
  let ?wt = "wakeup_table (Some p) Chan_vdisk"
  let ?x1 = "x\<lparr>vdesc := (vdesc x)(0 := ?z), dfree := (dfree x)(0 := True), procs := ?wt (procs x)\<rparr>"
  let ?x2 = "x\<lparr>vdesc := (vdesc x)(0 := ?z, 1 := ?z), dfree := (dfree x)(0 := True, 1 := True), procs := ?wt (?wt (procs x))\<rparr>"
  let ?x3 = "x\<lparr>vdesc := (vdesc x)(0 := ?z, 1 := ?z, 2 := ?z), dfree := (dfree x)(0 := True, 1 := True, 2 := True),
    procs := ?wt (?wt (?wt (procs x)))\<rparr>"
  have f1: "free_desc 0 x = Ok () ?x1" using free_desc_nested [OF x, of 0] d by (simp add: NUM_def)
  have f2: "free_desc 1 ?x1 = Ok () ?x2"
    using free_desc_nested [of ?x1 p 1] x d by (simp add: NUM_def irq_state_ok_def proc_locks_free_def)
  have f3: "free_desc 2 ?x2 = Ok () ?x3"
    using free_desc_nested [of ?x2 p 2] x d by (simp add: NUM_def irq_state_ok_def proc_locks_free_def)
  have fl: "d_flags (vdesc ?x2 2) AND VRING_DESC_F_NEXT = 0" "d_flags (vdesc ?x1 1) AND VRING_DESC_F_NEXT \<noteq> 0"
    "unat (d_next (vdesc ?x1 1)) = 2" "unat (d_next (vdesc x 0)) = 1" "d_flags (vdesc x 0) AND VRING_DESC_F_NEXT \<noteq> 0"
    using d by simp_all
  have c2: "free_chain 2 ?x2 = Ok () ?x3" by (subst free_chain.simps) (use f3 fl(1) in simp)
  have c1: "free_chain 1 ?x1 = Ok () ?x3" by (subst free_chain.simps) (use f2 fl(2,3) c2 in simp)
  have "free_chain 0 x = Ok () ?x3" by (subst free_chain.simps) (use f1 fl(4,5) c1 in simp)
  moreover have "(vdesc x)(0 := ?z, 1 := ?z, 2 := ?z) = freed_desc ds"
    using d(1) by (auto simp: req_desc_def freed_desc_def Let_def)
  moreover have "(dfree x)(0 := True, 1 := True, 2 := True) = f(0 := True, 1 := True, 2 := True)"
    using d(2) by auto
  ultimately show ?thesis by (simp add: eval_nat_numeral)
qed

section \<open>The effect of a disk request\<close>

text \<open>
  \<open>disk_base\<close> forgets everything a request may change: two states with the same \<open>disk_base\<close> agree on
  locks, memory and the identity of every process.
\<close>

definition null_buf :: buf where
  "null_buf = \<lparr>bvalid = 0, bdisk = 0, bdev = 0, blockno = 0, refcnt = 0, bprev = 0, bnext = 0, bdata = []\<rparr>"

definition disk_base :: "'x kdisk_scheme \<Rightarrow> 'x kdisk_scheme" where
  "disk_base s = (settle s)\<lparr>procs := (\<lambda>q. proc_core (procs s q)), bufs := (\<lambda>_. null_buf),
     vdesc := (\<lambda>_. \<lparr>d_addr = Dma_null, d_len = 0, d_flags = 0, d_next = 0\<rparr>),
     avail_idx := 0, avail_ring := (\<lambda>_. 0), used_dev_idx := 0, used_ring := (\<lambda>_. 0), dfree := (\<lambda>_. True),
     used_idx := 0, info_b := (\<lambda>_. None), info_status := (\<lambda>_. 0),
     blk_ops := (\<lambda>_. \<lparr>req_type = 0, req_reserved = 0, req_sector = 0\<rparr>),
     sectors := (\<lambda>_. []), dev_next := 0, vq_notified := False, vio_isr := 0, written := []\<rparr>"

text \<open>The buffer and the disk after a request for buffer \<open>b\<close>.\<close>

definition rw_buf :: "bool \<Rightarrow> (u64 \<Rightarrow> u8 list) \<Rightarrow> buf \<Rightarrow> buf" where
  "rw_buf w d x = (if w then x\<lparr>bdisk := 0\<rparr> else x\<lparr>bdisk := 0, bdata := disk_block d (blockno x)\<rparr>)"

definition rw_disk :: "bool \<Rightarrow> buf \<Rightarrow> (u64 \<Rightarrow> u8 list) \<Rightarrow> u64 \<Rightarrow> u8 list" where
  "rw_disk w x d = (if w then disk_store (blockno x) (bdata x) d else d)"

definition rw_log :: "bool \<Rightarrow> buf \<Rightarrow> (u64 \<times> u8 list) list" where
  "rw_log w x = (if w then [(sector_of (blockno x), bdata x)] else [])"

lemma wait_effect:
  fixes s :: "'x kdisk_scheme"
  assumes r: "fs_ready p s" and ok: "disk_ok s"
  shows "\<exists>x tab. virtio_disk_wait b (acquired L_vdisk (submitted b w s)) = Ok () (acquired L_vdisk x) \<and>
    x = (noticed b (served (transferred b w (submitted b w s))))\<lparr>cpus := cpus (settle s), procs := tab\<rparr> \<and>
    (\<forall>q. proc_core (tab q) = proc_core (procs s q)) \<and> state (tab p) = RUNNING"
proof -
  let ?s = "submitted b w s" and ?ch = "Chan_buf b"
  let ?u = "noticed b (served (transferred b w ?s))"
  let ?g = "(procs s)(p := going_to_sleep p ?ch (procs s p))"
  let ?v = "(asleep p ?ch ?u)\<lparr>procs := wakeup_table None ?ch ?g\<rparr>"
  have f: "tp ?s = tp s" "sstatus ?s = sstatus s" "cpus ?s = cpus s" "locks ?s = locks s" "procs ?s = procs s"
    by (simp_all add: submitted_def)
  have rs: "fs_ready p ?s" using r f by (simp add: fs_ready_def irq_state_ok_def)
  have fu: "tp ?u = tp s" "sstatus ?u = sstatus s" "cpus ?u = cpus s" "locks ?u = locks s" "procs ?u = procs s"
    using f by (auto simp: noticed_def served_def transferred_def)
  have wt: "wakeup_table None ?ch ?g p = (going_to_sleep p ?ch (procs s p))\<lparr>state := RUNNABLE\<rparr>"
    using wakeup_table_asleep [OF fs_readyD(8) [OF r]] .
  have v: "tp ?v = tp ?s" "sstatus ?v = sstatus ?s" "locks ?v = locks ?s"
    "cpus ?v = set_cproc (tp ?s) None (cpus (settle ?s))" "state (procs ?v p) = RUNNABLE"
    using f fu wt by (simp_all add: asleep_def settle_cpus)
  have lk: "L_proc q \<noteq> L_vdisk" for q by simp
  have th: "sleep_through disk_event ?ch L_vdisk (acquired L_vdisk ?s) = Ok () (acquired L_vdisk (awake_again p ?s ?v))"
    by (rule sleep_through_effect [where s = ?s and v = ?v and event = disk_event and ch = ?ch and lk = L_vdisk and p = p, OF rs lk disk_event_effect [OF r ok, of b w] v])
  define tab where "tab = (wakeup_table None ?ch ?g)(p := (wakeup_table None ?ch ?g p)\<lparr>state := RUNNING, chan := Chan_none\<rparr>)"
  have aw: "awake_again p ?s ?v = ?u\<lparr>cpus := cpus (settle s), procs := tab\<rparr>"
    using f by (cases s) (simp add: awake_again_def asleep_def tab_def settle_def)
  have b: "bdisk (bufs (acquired L_vdisk ?s) b) = 1" "bdisk (bufs (acquired L_vdisk (awake_again p ?s ?v)) b) = 0"
    unfolding aw by (simp add: acquired_def submitted_def) (simp add: acquired_def noticed_def)
  have "proc_core (tab q) = proc_core (procs s q)" for q
    using wt by (simp add: tab_def) (simp add: proc_core_def going_to_sleep_def)
  moreover have "state (tab p) = RUNNING" by (simp add: tab_def)
  ultimately show ?thesis using th b aw
    by (intro exI [of _ "awake_again p ?s ?v"] exI [of _ tab]) (simp add: virtio_disk_wait_def get_buf_def)
qed

lemma wakeup_pow:
  "proc_core ((((wakeup_table me ch) ^^ n) tab) q) = proc_core (tab q)"
  "state (tab p) = RUNNING \<Longrightarrow> (((wakeup_table me ch) ^^ n) tab) p = tab p"
  by (induction n) (simp_all add: wakeup_table_self)

theorem virtio_disk_rw_effect:
  fixes s :: "'x kdisk_scheme"
  assumes r: "fs_ready p s" and ok: "disk_ok s"
  shows "\<exists>t. virtio_disk_rw b w s = Ok () t \<and> fs_ready p t \<and> disk_ok t \<and> disk_base t = disk_base s \<and>
    bufs t = (bufs s)(b := rw_buf w (sectors s) (bufs s b)) \<and>
    sectors t = rw_disk w (bufs s b) (sectors s) \<and> written t = written s @ rw_log w (bufs s b)"
proof -
  let ?u = "noticed b (served (transferred b w (submitted b w s)))"
  obtain x tab where x: "virtio_disk_wait b (acquired L_vdisk (submitted b w s)) = Ok () (acquired L_vdisk x)"
    "x = ?u\<lparr>cpus := cpus (settle s), procs := tab\<rparr>" "\<And>q. proc_core (tab q) = proc_core (procs s q)" "state (tab p) = RUNNING"
    using wait_effect [OF r ok] by blast
  define f where "f = dfree s"
  have fx: "tp x = tp s" "sstatus x = sstatus s" "cpus x = cpus (settle s)" "locks x = locks s" "procs x = tab"
    "vdesc x = req_desc b w (vdesc s)" "dfree x = f(0 := False, 1 := False, 2 := False)"
    by (auto simp: x(2) noticed_def served_def transferred_def submitted_def f_def)
  have rx: "fs_ready p x" using r fx x(4) by (simp add: fs_ready_def irq_state_ok_def settle_cpus)
  let ?y = "x\<lparr>info_b := (info_b x)(0 := None)\<rparr>"
  let ?tab = "((wakeup_table (Some p) Chan_vdisk) ^^ 3) tab"
  define t where "t = ?y\<lparr>vdesc := freed_desc (vdesc s), dfree := f(0 := True, 1 := True, 2 := True), procs := ?tab\<rparr>"
  have ry: "fs_ready p ?y" using rx by (simp add: fs_ready_def irq_state_ok_def)
  have ay: "acquired L_vdisk ?y = (acquired L_vdisk x)\<lparr>info_b := (info_b x)(0 := None)\<rparr>"
    by (cases x) (simp add: acquired_def)
  have nl: "L_proc q \<noteq> L_vdisk" for q by simp
  let ?ya = "acquired L_vdisk ?y"
  have fy: "vdesc ?ya = req_desc b w (vdesc s)" "dfree ?ya = f(0 := False, 1 := False, 2 := False)"
    "0 < noff (cpus ?ya (tp ?ya))" "cproc (cpus ?ya (tp ?ya)) = Some p" "procs ?ya = tab"
    using acquired_inside(2,3) [OF ry, of L_vdisk] fx by (simp_all add: ay) (simp_all add: acquired_def)
  have ch: "free_chain 0 ?ya = Ok () (acquired L_vdisk t)"
    unfolding free_chain_effect [OF acquired_inside(1) [OF ry] fy(3,4) proc_locks_free_hold [OF ry nl] fy(1,2)] fy(5)
    by (cases x) (simp add: t_def acquired_def)
  have rt: "fs_ready p t" "settle t = t"
    using rx x(4) fx wakeup_pow(2) [of tab p] by (simp_all add: t_def fs_ready_def irq_state_ok_def settle_def)
  have rel: "release L_vdisk (acquired L_vdisk t) = Ok () t"
    using release_acquired [OF fs_readyD(1,2) [OF rt(1)]] rt(2) by simp
  have info: "info_b (acquired L_vdisk x) = info_b x" by (simp add: acquired_def)
  have dk: "\<forall>i < NUM. dfree s i" using ok by (simp add: disk_ok_def)
  have "virtio_disk_rw b w s = Ok () t"
    unfolding virtio_disk_rw_def acquire_then [OF fs_readyD(2) [OF r]] submit_effect [OF dk]
    using x(1) ch rel ay info by simp
  moreover have "disk_ok t" using ok by (auto simp: t_def x(2) noticed_def served_def transferred_def submitted_def disk_ok_def f_def)
  moreover have "disk_base t = disk_base s"
    using x(3) by (cases s) (simp add: disk_base_def t_def x(2) noticed_def served_def transferred_def submitted_def settle_def wakeup_pow)
  moreover have "bufs t = (bufs s)(b := rw_buf w (sectors s) (bufs s b))"
    by (auto simp: t_def x(2) noticed_def served_def transferred_def submitted_def rw_buf_def)
  moreover have "sectors t = rw_disk w (bufs s b) (sectors s)" "written t = written s @ rw_log w (bufs s b)"
    by (auto simp: t_def x(2) noticed_def served_def transferred_def submitted_def rw_disk_def rw_log_def)
  ultimately show ?thesis using rt(1) by blast
qed

end
