(* ===== verification/Xv6_Bio.thy ===== *)
theory Xv6_Bio
  imports Xv6_Virtio
begin

text \<open>
  The buffer cache (bio.c). \<open>bufs s i\<close> for \<open>i < NBUF\<close> are the buffers; \<open>bufs s NBUF\<close> is
  \<open>bcache.head\<close>. The list is followed through the \<open>next\<close> and \<open>prev\<close> fields as the code does; the
  fuel of the two searches is one more than the number of buffers, which is enough on every list
  that satisfies the invariant (a longer walk would be a walk that never ends).
\<close>

section \<open>bio.c\<close>

abbreviation bhead :: nat where "bhead \<equiv> NBUF"

definition binit_one :: "nat \<Rightarrow> ('x kdisk_scheme, unit) kop" where
  "binit_one b =
     kbind (get_buf bhead) (\<lambda>h.
     kthen (upd_buf b (\<lambda>x. x\<lparr>bnext := bnext h\<rparr>)) (
     kthen (upd_buf b (\<lambda>x. x\<lparr>bprev := bhead\<rparr>)) (
     kthen (initsleeplock (SL_buf b) ''buffer'') (
     kbind (get_buf bhead) (\<lambda>h.
     kthen (upd_buf (bnext h) (\<lambda>x. x\<lparr>bprev := b\<rparr>)) (
     upd_buf bhead (\<lambda>x. x\<lparr>bnext := b\<rparr>)))))))"

definition binit :: "('x kdisk_scheme, unit) kop" where
  "binit =
     kthen (initlock L_bcache ''bcache'') (
     kthen (upd_buf bhead (\<lambda>x. x\<lparr>bprev := bhead\<rparr>)) (
     kthen (upd_buf bhead (\<lambda>x. x\<lparr>bnext := bhead\<rparr>)) (
     for_each binit_one [0..<NBUF])))"

text \<open>The two searches of \<open>bget\<close>: from \<open>head.next\<close> forwards, from \<open>head.prev\<close> backwards.\<close>

fun bget_cached :: "nat \<Rightarrow> u32 \<Rightarrow> u32 \<Rightarrow> nat \<Rightarrow> ('x kdisk_scheme, nat option) kop" where
  "bget_cached 0 dev bno b = Spin"
| "bget_cached (Suc fuel) dev bno b =
     (if b = bhead then ret None else
      kbind (get_buf b) (\<lambda>x.
      if bdev x = dev \<and> blockno x = bno then ret (Some b)
      else bget_cached fuel dev bno (bnext x)))"

fun bget_unused :: "nat \<Rightarrow> nat \<Rightarrow> ('x kdisk_scheme, nat option) kop" where
  "bget_unused 0 b = Spin"
| "bget_unused (Suc fuel) b =
     (if b = bhead then ret None else
      kbind (get_buf b) (\<lambda>x.
      if refcnt x = 0 then ret (Some b)
      else bget_unused fuel (bprev x)))"

definition bget :: "u32 \<Rightarrow> u32 \<Rightarrow> ('x kdisk_scheme, nat) kop" where
  "bget dev bno =
     kthen (acquire L_bcache) (
     kbind (get_buf bhead) (\<lambda>h.
     kbind (bget_cached (Suc NBUF) dev bno (bnext h)) (\<lambda>r.
     case r of
       Some b \<Rightarrow>
         kthen (upd_buf b (\<lambda>x. x\<lparr>refcnt := refcnt x + 1\<rparr>)) (
         kthen (release L_bcache) (
         kthen (acquiresleep (SL_buf b)) (
         ret b)))
     | None \<Rightarrow>
         kbind (bget_unused (Suc NBUF) (bprev h)) (\<lambda>r.
         case r of
           Some b \<Rightarrow>
             kthen (upd_buf b (\<lambda>x. x\<lparr>bdev := dev, blockno := bno, bvalid := 0, refcnt := 1\<rparr>)) (
             kthen (release L_bcache) (
             kthen (acquiresleep (SL_buf b)) (
             ret b)))
         | None \<Rightarrow> panic ''bget: no buffers''))))"

definition bread :: "u32 \<Rightarrow> u32 \<Rightarrow> ('x kdisk_scheme, nat) kop" where
  "bread dev bno =
     kbind (bget dev bno) (\<lambda>b.
     kbind (get_buf b) (\<lambda>x.
     kthen (kwhen (bvalid x = 0) (
       kthen (virtio_disk_rw b False) (
       upd_buf b (\<lambda>x. x\<lparr>bvalid := 1\<rparr>)))) (
     ret b)))"

definition bwrite :: "nat \<Rightarrow> ('x kdisk_scheme, unit) kop" where
  "bwrite b =
     kbind (holdingsleep (SL_buf b)) (\<lambda>h.
     if \<not> h then panic ''bwrite'' else virtio_disk_rw b True)"

text \<open>Moving a buffer to the front of the list, statement by statement.\<close>

definition bmove_front :: "nat \<Rightarrow> ('x kdisk_scheme, unit) kop" where
  "bmove_front b =
     kbind (get_buf b) (\<lambda>x.
     kthen (upd_buf (bnext x) (\<lambda>y. y\<lparr>bprev := bprev x\<rparr>)) (
     kbind (get_buf b) (\<lambda>x.
     kthen (upd_buf (bprev x) (\<lambda>y. y\<lparr>bnext := bnext x\<rparr>)) (
     kbind (get_buf bhead) (\<lambda>h.
     kthen (upd_buf b (\<lambda>y. y\<lparr>bnext := bnext h\<rparr>)) (
     kthen (upd_buf b (\<lambda>y. y\<lparr>bprev := bhead\<rparr>)) (
     kbind (get_buf bhead) (\<lambda>h.
     kthen (upd_buf (bnext h) (\<lambda>y. y\<lparr>bprev := b\<rparr>)) (
     upd_buf bhead (\<lambda>y. y\<lparr>bnext := b\<rparr>))))))))))"

definition brelse :: "nat \<Rightarrow> ('x kdisk_scheme, unit) kop" where
  "brelse b =
     kbind (holdingsleep (SL_buf b)) (\<lambda>h.
     if \<not> h then panic ''brelse'' else
     kthen (releasesleep (SL_buf b)) (
     kthen (acquire L_bcache) (
     kthen (upd_buf b (\<lambda>x. x\<lparr>refcnt := refcnt x - 1\<rparr>)) (
     kbind (get_buf b) (\<lambda>x.
     kthen (kwhen (refcnt x = 0) (bmove_front b)) (
     release L_bcache))))))"

definition bpin :: "nat \<Rightarrow> ('x kdisk_scheme, unit) kop" where
  "bpin b =
     kthen (acquire L_bcache) (
     kthen (upd_buf b (\<lambda>x. x\<lparr>refcnt := refcnt x + 1\<rparr>)) (
     release L_bcache))"

definition bunpin :: "nat \<Rightarrow> ('x kdisk_scheme, unit) kop" where
  "bunpin b =
     kthen (acquire L_bcache) (
     kthen (upd_buf b (\<lambda>x. x\<lparr>refcnt := refcnt x - 1\<rparr>)) (
     release L_bcache))"

section \<open>The list of buffers\<close>

text \<open>\<open>links nx a xs z\<close>: following \<open>nx\<close> from \<open>a\<close> visits \<open>xs\<close> and then \<open>z\<close>.\<close>

fun links :: "(nat \<Rightarrow> nat) \<Rightarrow> nat \<Rightarrow> nat list \<Rightarrow> nat \<Rightarrow> bool" where
  "links nx a [] z \<longleftrightarrow> nx a = z"
| "links nx a (x # xs) z \<longleftrightarrow> nx a = x \<and> links nx x xs z"

definition lru_list :: "(nat \<Rightarrow> buf) \<Rightarrow> nat list \<Rightarrow> bool" where
  "lru_list bs xs \<longleftrightarrow> links (\<lambda>i. bnext (bs i)) bhead xs bhead \<and> links (\<lambda>i. bprev (bs i)) bhead (rev xs) bhead \<and>
     distinct xs \<and> set xs = {0..<NBUF}"

lemma links_append: "links nx a (xs @ ys) z \<longleftrightarrow> (if ys = [] then links nx a xs z else links nx a xs (hd ys) \<and> links nx (hd ys) (tl ys) z)"
  by (induction xs arbitrary: a) (cases ys, auto)+

lemma links_cong: "(\<And>x. x = a \<or> x \<in> set xs \<Longrightarrow> f x = g x) \<Longrightarrow> links f a xs z = links g a xs z"
  by (induction xs arbitrary: a) auto

lemma links_hd: "links f a xs z \<longleftrightarrow> f a = hd (xs @ [z]) \<and> (xs \<noteq> [] \<longrightarrow> links f (hd xs) (tl xs) z)"
  by (cases xs) auto

lemma links_last:
  "links f a xs c \<Longrightarrow> distinct (a # xs) \<Longrightarrow> links (f(last (a # xs) := z)) a xs z"
proof (induction xs arbitrary: a)
  case (Cons x xs)
  then have "last (x # xs) \<noteq> a" by (metis distinct.simps(2) last_in_set list.discI)
  then show ?case using Cons by auto
qed simp

lemma links_unlink:
  assumes l: "links f a (xs @ b # ys) z" and d: "distinct (a # xs @ b # ys)" and z: "z \<notin> set (xs @ b # ys)"
  shows "links (f(last (a # xs) := f b)) a (xs @ ys) z"
proof -
  have lx: "links f a xs b" and ly: "links f b ys z" using l by (simp_all add: links_append)
  have one: "links (f(last (a # xs) := f b)) a xs (f b)" using links_last [OF lx] d by simp
  show ?thesis
  proof (cases ys)
    case Nil
    then show ?thesis using one ly by simp
  next
    case (Cons y ys')
    have ne: "last (a # xs) \<notin> set ys" using d last_in_set [of "a # xs"] by auto
    have "links f y ys' z" "f b = y" using ly Cons by auto
    then have "links (f(last (a # xs) := f b)) y ys' z"
      using ne Cons by (subst links_cong [of y ys' _ f]) auto
    then show ?thesis using one Cons \<open>f b = y\<close> by (simp add: links_append)
  qed
qed

lemma links_push:
  assumes "links f h xs h" "b \<notin> set xs" "b \<noteq> h" "h \<notin> set xs"
  shows "links (f(b := f h, h := b)) h (b # xs) h"
proof -
  let ?g = "f(b := f h, h := b)"
  have "links ?g b xs h"
  proof (cases xs)
    case Nil
    then show ?thesis using assms by simp
  next
    case (Cons x xs')
    then have "links f x xs' h" "f h = x" using assms by auto
    moreover have "links ?g x xs' h = links f x xs' h" using assms Cons by (intro links_cong) auto
    ultimately show ?thesis using Cons assms(3) by simp
  qed
  then show ?thesis by simp
qed

lemma links_snoc:
  assumes l: "links f h xs h" and d: "distinct (h # xs)" and b: "b \<notin> set xs" "b \<noteq> h"
  shows "links (f(b := h, last (h # xs) := b)) h (xs @ [b]) h"
proof -
  have ne: "last (h # xs) \<noteq> b" using b last_in_set [of "h # xs"] by auto
  have "links (f(last (h # xs) := b)) h xs b" using links_last [OF l d] .
  then have "links (f(b := h, last (h # xs) := b)) h xs b"
    using b by (subst links_cong [of h xs _ "f(last (h # xs) := b)"]) auto
  then show ?thesis using ne by (simp add: links_append)
qed

text \<open>The functional form of the six assignments.\<close>

definition set_prev :: "nat \<Rightarrow> nat \<Rightarrow> (nat \<Rightarrow> buf) \<Rightarrow> nat \<Rightarrow> buf" where
  "set_prev a n bs = bs(a := (bs a)\<lparr>bprev := n\<rparr>)"

definition set_next :: "nat \<Rightarrow> nat \<Rightarrow> (nat \<Rightarrow> buf) \<Rightarrow> nat \<Rightarrow> buf" where
  "set_next a n bs = bs(a := (bs a)\<lparr>bnext := n\<rparr>)"

definition relink :: "nat \<Rightarrow> (nat \<Rightarrow> buf) \<Rightarrow> nat \<Rightarrow> buf" where
  "relink b bs =
     (let b1 = set_prev (bnext (bs b)) (bprev (bs b)) bs;
          b2 = set_next (bprev (b1 b)) (bnext (b1 b)) b1;
          b3 = set_prev b bhead (set_next b (bnext (b2 bhead)) b2)
      in set_next bhead b (set_prev (bnext (b3 bhead)) b b3))"

lemma upd_buf_links:
  "upd_buf a (\<lambda>y. y\<lparr>bprev := n\<rparr>) s = Ok () (s\<lparr>bufs := set_prev a n (bufs s)\<rparr>)"
  "upd_buf a (\<lambda>y. y\<lparr>bnext := n\<rparr>) s = Ok () (s\<lparr>bufs := set_next a n (bufs s)\<rparr>)"
  by (simp_all add: upd_buf_def set_prev_def set_next_def)

lemma bmove_front_effect: "bmove_front b s = Ok () (s\<lparr>bufs := relink b (bufs s)\<rparr>)"
  by (simp add: bmove_front_def get_buf_def upd_buf_links relink_def Let_def)

text \<open>Apart from the two pointers, \<open>relink\<close> changes nothing.\<close>

definition buf_core :: "buf \<Rightarrow> buf" where
  "buf_core x = x\<lparr>bprev := 0, bnext := 0\<rparr>"

lemma buf_core_fields:
  assumes "buf_core x = buf_core y"
  shows "bvalid x = bvalid y" "bdisk x = bdisk y" "bdev x = bdev y" "blockno x = blockno y" "refcnt x = refcnt y"
    "bdata x = bdata y"
  using assms by (cases x; cases y; simp add: buf_core_def)+

lemma buf_core_upd [simp]: "buf_core (x\<lparr>bprev := n\<rparr>) = buf_core x" "buf_core (x\<lparr>bnext := n\<rparr>) = buf_core x"
  by (simp_all add: buf_core_def)

lemma set_links [simp]:
  "buf_core (set_prev a n f i) = buf_core (f i)" "buf_core (set_next a n f i) = buf_core (f i)"
  "bnext (set_prev a n f i) = bnext (f i)" "bprev (set_next a n f i) = bprev (f i)"
  "bnext (set_next a n f i) = (if i = a then n else bnext (f i))"
  "bprev (set_prev a n f i) = (if i = a then n else bprev (f i))"
  by (simp_all add: set_prev_def set_next_def)

lemma relink_core: "buf_core (relink b bs i) = buf_core (bs i)"
  by (simp add: relink_def Let_def)

lemma relink_links:
  assumes "b \<noteq> bhead" "bnext (bs b) \<noteq> b"
  shows "bnext (relink b bs i) = ((\<lambda>i. bnext (bs i))(bprev (bs b) := bnext (bs b),
      b := ((\<lambda>i. bnext (bs i))(bprev (bs b) := bnext (bs b))) bhead, bhead := b)) i"
    "bprev (relink b bs i) = ((\<lambda>i. bprev (bs i))(bnext (bs b) := bprev (bs b), b := bhead,
      ((\<lambda>i. bnext (bs i))(bprev (bs b) := bnext (bs b))) bhead := b)) i"
  using assms by (simp_all add: relink_def Let_def)

theorem relink_front:
  assumes "lru_list bs (ys @ b # zs)"
  shows "lru_list (relink b bs) (b # ys @ zs)"
proof -
  let ?h = bhead and ?nx = "\<lambda>i. bnext (bs i)" and ?pv = "\<lambda>i. bprev (bs i)"
  have nx: "links ?nx ?h (ys @ b # zs) ?h" and pv: "links ?pv ?h (rev zs @ b # rev ys) ?h"
    and ds: "distinct (ys @ b # zs)" "set (ys @ b # zs) = {0..<NBUF}"
    using assms by (simp_all add: lru_list_def)
  have h: "?h \<notin> set (ys @ b # zs)" using ds(2) by simp
  then have b: "b \<noteq> ?h" "b \<notin> set ys" "b \<notin> set zs" and h': "?h \<notin> set ys" "?h \<notin> set zs" using ds(1) by auto
  have lst: "last (?h # ys) \<noteq> b" "last (?h # rev zs) \<noteq> b"
    using b last_in_set [of "?h # ys"] last_in_set [of "?h # rev zs"] by auto
  have pb: "?pv b = last (?h # ys)"
  proof -
    have "links ?pv b (rev ys) ?h" using pv by (simp add: links_append)
    then show ?thesis by (cases ys rule: rev_cases) auto
  qed
  have nb: "?nx b = last (?h # rev zs)"
  proof -
    have "links ?nx b zs ?h" using nx by (simp add: links_append)
    then show ?thesis by (cases zs) auto
  qed
  let ?nx1 = "?nx(last (?h # ys) := ?nx b)" and ?pv1 = "?pv(last (?h # rev zs) := ?pv b)"
  have n1: "links ?nx1 ?h (ys @ zs) ?h" using links_unlink [OF nx] ds(1) h by auto
  have "distinct (?h # rev zs @ b # rev ys)" using ds(1) h by (simp add: inf_commute)
  then have p1: "links ?pv1 ?h (rev zs @ rev ys) ?h" using links_unlink [OF pv] h by auto
  have n2: "links (?nx1(b := ?nx1 ?h, ?h := b)) ?h (b # ys @ zs) ?h"
    using links_push [OF n1] b h' by simp
  have "hd (xs @ [?h]) = last (?h # rev xs)" for xs :: "nat list" by (cases xs) auto
  then have f: "?nx1 ?h = last (?h # rev (ys @ zs))" using links_hd [of ?nx1 ?h "ys @ zs" ?h] n1 by metis
  have "distinct (?h # rev zs @ rev ys)" using ds(1) h' by (simp add: inf_commute)
  then have p2: "links (?pv1(b := ?h, ?nx1 ?h := b)) ?h (rev (ys @ zs) @ [b]) ?h"
    unfolding f using links_snoc [OF p1] b by auto
  have nr: "(\<lambda>i. bnext (relink b bs i)) = ?nx1(b := ?nx1 ?h, ?h := b)"
    using relink_links(1) [of b bs] b(1) lst pb nb by (auto simp: fun_eq_iff)
  have nf: "?nx1 ?h \<noteq> b"
    unfolding f using b last_in_set [of "?h # rev (ys @ zs)"] by auto
  have pr: "(\<lambda>i. bprev (relink b bs i)) = ?pv1(b := ?h, ?nx1 ?h := b)"
    using relink_links(2) [of b bs] b(1) lst pb nb nf by (auto simp: fun_eq_iff)
  show ?thesis
    unfolding lru_list_def nr pr using n2 p2 ds by auto
qed

section \<open>The searches\<close>

lemma find_SomeD: "find P xs = Some x \<Longrightarrow> P x \<and> x \<in> set xs"
  by (induction xs) (auto split: if_splits)

lemma bget_cached_effect:
  assumes "links (\<lambda>i. bnext (bufs s i)) a xs bhead" "bhead \<notin> set xs" "length xs < fuel"
  shows "bget_cached fuel dev bno (bnext (bufs s a)) s =
    Ok (find (\<lambda>i. bdev (bufs s i) = dev \<and> blockno (bufs s i) = bno) xs) s"
  using assms
proof (induction xs arbitrary: a fuel)
  case Nil
  then show ?case by (cases fuel) auto
next
  case (Cons x xs)
  then obtain f where "fuel = Suc f" by (cases fuel) auto
  then show ?case using Cons by (auto simp: get_buf_def)
qed

lemma bget_unused_effect:
  assumes "links (\<lambda>i. bprev (bufs s i)) a xs bhead" "bhead \<notin> set xs" "length xs < fuel"
  shows "bget_unused fuel (bprev (bufs s a)) s = Ok (find (\<lambda>i. refcnt (bufs s i) = 0) xs) s"
  using assms
proof (induction xs arbitrary: a fuel)
  case Nil
  then show ?case by (cases fuel) auto
next
  case (Cons x xs)
  then obtain f where "fuel = Suc f" by (cases fuel) auto
  then show ?case using Cons by (auto simp: get_buf_def)
qed

declare bget_cached.simps [simp del] bget_unused.simps [simp del]

section \<open>The cache invariant and the logical contents of the disk\<close>

definition ROOTDEV :: u32 where "ROOTDEV = 1"

text \<open>Buffer \<open>i\<close> stands for block \<open>n\<close> of the root disk.\<close>

definition stands_for :: "(nat \<Rightarrow> buf) \<Rightarrow> nat \<Rightarrow> u32 \<Rightarrow> bool" where
  "stands_for bs i n \<longleftrightarrow> i < NBUF \<and> bdev (bs i) = ROOTDEV \<and> blockno (bs i) = n"

text \<open>
  The list is well formed; a block has at most one buffer; a buffer nobody uses is unlocked and,
  if valid, holds what is on the disk; a buffer the disk does not own has \<open>disk = 0\<close>.
\<close>

definition cache_ok :: "'x kdisk_scheme \<Rightarrow> bool" where
  "cache_ok s \<longleftrightarrow> (\<exists>xs. lru_list (bufs s) xs) \<and>
     (\<forall>i j n. stands_for (bufs s) i n \<and> stands_for (bufs s) j n \<longrightarrow> i = j) \<and>
     (\<forall>i < NBUF. refcnt (bufs s i) = 0 \<longrightarrow> sl_locked (slocks s (SL_buf i)) = 0) \<and>
     (\<forall>i n. stands_for (bufs s) i n \<and> refcnt (bufs s i) = 0 \<and> bvalid (bufs s i) \<noteq> 0 \<longrightarrow>
        bdata (bufs s i) = disk_block (sectors s) n)"

text \<open>What a reader of block \<open>n\<close> sees: the cached copy if there is one, the disk otherwise.\<close>

definition blk :: "'x kdisk_scheme \<Rightarrow> u32 \<Rightarrow> u8 list" where
  "blk s n = (case find (\<lambda>i. stands_for (bufs s) i n \<and> bvalid (bufs s i) \<noteq> 0) [0..<NBUF] of
     Some i \<Rightarrow> bdata (bufs s i) | None \<Rightarrow> disk_block (sectors s) n)"

lemma blk_cached:
  assumes "cache_ok s" "stands_for (bufs s) i n" "bvalid (bufs s i) \<noteq> 0"
  shows "blk s n = bdata (bufs s i)"
proof -
  have "i < NBUF" using assms(2) by (simp add: stands_for_def)
  then obtain j where j: "find (\<lambda>i. stands_for (bufs s) i n \<and> bvalid (bufs s i) \<noteq> 0) [0..<NBUF] = Some j"
    using assms(2,3) by (cases "find (\<lambda>i. stands_for (bufs s) i n \<and> bvalid (bufs s i) \<noteq> 0) [0..<NBUF]") (auto simp: find_None_iff)
  then have "stands_for (bufs s) j n" by (auto simp: find_Some_iff)
  then have "j = i" using assms(1,2) unfolding cache_ok_def by blast
  then show ?thesis using j by (simp add: blk_def)
qed

lemma blk_uncached:
  assumes "\<And>i. stands_for (bufs s) i n \<Longrightarrow> bvalid (bufs s i) = 0"
  shows "blk s n = disk_block (sectors s) n"
proof -
  have "find (\<lambda>i. stands_for (bufs s) i n \<and> bvalid (bufs s i) \<noteq> 0) [0..<NBUF] = None"
    using assms by (auto simp: find_None_iff)
  then show ?thesis by (simp add: blk_def)
qed

text \<open>
  The logical contents are determined by the cached copies: two states whose valid buffers agree on
  a block, or which both miss it and agree on the disk, show the same block.
\<close>

lemma blk_eq:
  assumes "cache_ok s" "cache_ok t"
    and "\<And>i. stands_for (bufs s) i n \<Longrightarrow> bvalid (bufs s i) \<noteq> 0 \<Longrightarrow> stands_for (bufs t) i n \<and> bvalid (bufs t i) \<noteq> 0 \<and> bdata (bufs t i) = bdata (bufs s i)"
    and "\<And>i. stands_for (bufs t) i n \<Longrightarrow> bvalid (bufs t i) \<noteq> 0 \<Longrightarrow> stands_for (bufs s) i n \<and> bvalid (bufs s i) \<noteq> 0"
    and "disk_block (sectors t) n = disk_block (sectors s) n"
  shows "blk t n = blk s n"
proof (cases "\<exists>i. stands_for (bufs s) i n \<and> bvalid (bufs s i) \<noteq> 0")
  case True
  then obtain i where i: "stands_for (bufs s) i n" "bvalid (bufs s i) \<noteq> 0" by blast
  then show ?thesis using blk_cached [OF assms(1) i] blk_cached [OF assms(2), of i n] assms(3) by simp
next
  case False
  then show ?thesis using blk_uncached [of s n] blk_uncached [of t n] assms(4,5) by metis
qed

section \<open>bget and bread\<close>

definition bio_base :: "'x kdisk_scheme \<Rightarrow> 'x kdisk_scheme" where
  "bio_base s = (disk_base s)\<lparr>slocks := (\<lambda>l. case l of SL_buf _ \<Rightarrow> \<lparr>sl_locked = 0, sl_name = '''', sl_pid = 0\<rparr> | SL_inode i \<Rightarrow> slocks s (SL_inode i))\<rparr>"

lemma bio_base_disk: "disk_base t = disk_base s \<Longrightarrow> bio_base t = bio_base s"
proof -
  assume e: "disk_base t = disk_base s"
  have "slocks (disk_base x) = slocks x" for x :: "'a kdisk_scheme" by (simp add: disk_base_def settle_def)
  then have "slocks t = slocks s" using arg_cong [OF e, of slocks] by metis
  then show ?thesis using e by (simp add: bio_base_def)
qed

lemma bio_base_upd [simp]:
  "bio_base (s\<lparr>bufs := x\<rparr>) = bio_base s" "bio_base (settle s) = bio_base s"
  "(\<And>i. k (SL_inode i) = slocks s (SL_inode i)) \<Longrightarrow> bio_base (s\<lparr>slocks := k\<rparr>) = bio_base s"
  "(\<And>q. proc_core (f q) = proc_core (procs s q)) \<Longrightarrow> bio_base (s\<lparr>procs := f\<rparr>) = bio_base s"
  by (cases s; simp add: bio_base_def disk_base_def settle_def fun_eq_iff split: slid.split)+

lemma bio_base_pid: "bio_base t = bio_base s \<Longrightarrow> pid (procs t q) = pid (procs s q)"
proof -
  assume "bio_base t = bio_base s"
  from arg_cong [OF this, of procs] have "proc_core (procs t q) = proc_core (procs s q)"
    by (simp add: bio_base_def disk_base_def fun_eq_iff)
  then show ?thesis by (rule proc_core_fields(1))
qed

lemma fs_ready_upd [simp]:
  "fs_ready p (s\<lparr>bufs := x\<rparr>) = fs_ready p s" "fs_ready p (s\<lparr>slocks := y\<rparr>) = fs_ready p s"
  by (simp_all add: fs_ready_def irq_state_ok_def)

lemma disk_ok_upd [simp]:
  "disk_ok (s\<lparr>bufs := x\<rparr>) = disk_ok s" "disk_ok (s\<lparr>slocks := y\<rparr>) = disk_ok s" "disk_ok (settle s) = disk_ok s"
  "disk_ok (s\<lparr>procs := z\<rparr>) = disk_ok s"
  by (simp_all add: disk_ok_def settle_def)

lemma settle_kdisk [simp]:
  "bufs (settle s) = bufs s" "slocks (settle s) = slocks s" "sectors (settle s) = sectors s" "written (settle s) = written s"
  "settle (s\<lparr>bufs := x\<rparr>) = (settle s)\<lparr>bufs := x\<rparr>" "settle (s\<lparr>slocks := y\<rparr>) = (settle s)\<lparr>slocks := y\<rparr>"
  by (cases s; simp add: settle_def)+

lemma acquired_bufs:
  "bufs (acquired l s) = bufs s" "(acquired l s)\<lparr>bufs := x\<rparr> = acquired l (s\<lparr>bufs := x\<rparr>)"
  by (cases s; simp add: acquired_def)+

lemma release_bcache:
  "fs_ready p s \<Longrightarrow> release L_bcache (acquired L_bcache s) = Ok () (settle s)"
  by (rule release_acquired [OF fs_readyD(1,2)])

text \<open>The buffer \<open>bget\<close> picks, and what it writes into it.\<close>

definition claim_buf :: "u32 \<Rightarrow> bool \<Rightarrow> buf \<Rightarrow> buf" where
  "claim_buf n hit x = (if hit then x\<lparr>refcnt := refcnt x + 1\<rparr>
     else x\<lparr>bdev := ROOTDEV, blockno := n, bvalid := 0, refcnt := 1\<rparr>)"

lemma bget_effect:
  assumes r: "fs_ready p s" and ok: "cache_ok s"
    and unl: "\<And>i. stands_for (bufs s) i n \<Longrightarrow> sl_locked (slocks s (SL_buf i)) = 0"
    and avail: "(\<exists>i. stands_for (bufs s) i n) \<or> (\<exists>i < NBUF. refcnt (bufs s i) = 0)"
  shows "\<exists>b hit. bget ROOTDEV n s = Ok b ((settle s)\<lparr>bufs := (bufs s)(b := claim_buf n hit (bufs s b)),
      slocks := (slocks s)(SL_buf b := sl_take (pid (procs s p)) (slocks s (SL_buf b)))\<rparr>) \<and>
    b < NBUF \<and> sl_locked (slocks s (SL_buf b)) = 0 \<and>
    (if hit then stands_for (bufs s) b n else refcnt (bufs s b) = 0 \<and> \<not> (\<exists>i. stands_for (bufs s) i n))"
proof -
  obtain xs where xs: "lru_list (bufs s) xs" using ok by (auto simp: cache_ok_def)
  then have h: "bhead \<notin> set xs" "set xs = {0..<NBUF}" "length xs < Suc NBUF"
    using distinct_card [of xs] by (auto simp: lru_list_def)
  let ?a = "acquired L_bcache s"
  let ?P = "\<lambda>i. bdev (bufs s i) = ROOTDEV \<and> blockno (bufs s i) = n"
  have c: "bget_cached (Suc NBUF) ROOTDEV n (bnext (bufs ?a bhead)) ?a = Ok (find ?P xs) ?a"
    using bget_cached_effect [of ?a bhead xs "Suc NBUF" ROOTDEV n] xs h by (simp add: acquired_bufs lru_list_def)
  have u: "bget_unused (Suc NBUF) (bprev (bufs ?a bhead)) ?a = Ok (find (\<lambda>i. refcnt (bufs s i) = 0) (rev xs)) ?a"
    using bget_unused_effect [of ?a bhead "rev xs" "Suc NBUF"] xs h by (simp add: acquired_bufs lru_list_def)
  have fin: "kthen (release L_bcache) (kthen (acquiresleep (SL_buf b)) (ret b)) (acquired L_bcache (s\<lparr>bufs := bs\<rparr>)) =
      Ok b ((settle s)\<lparr>bufs := bs, slocks := (slocks s)(SL_buf b := sl_take (pid (procs s p)) (slocks s (SL_buf b)))\<rparr>)"
    if "sl_locked (slocks s (SL_buf b)) = 0" for b bs
  proof -
    have "release L_bcache (acquired L_bcache (s\<lparr>bufs := bs\<rparr>)) = Ok () ((settle s)\<lparr>bufs := bs\<rparr>)"
      using release_bcache [of p "s\<lparr>bufs := bs\<rparr>"] r by simp
    moreover have "fs_ready p ((settle s)\<lparr>bufs := bs\<rparr>)" using r by simp
    ultimately show ?thesis using acquiresleep_effect [of p "(settle s)\<lparr>bufs := bs\<rparr>" "SL_buf b"] that by simp
  qed
  have upd: "kthen (upd_buf b f) m ?a = m (acquired L_bcache (s\<lparr>bufs := (bufs s)(b := f (bufs s b))\<rparr>))" for b f m
    by (simp add: upd_buf_def acquired_bufs)
  have run: "bget ROOTDEV n s =
      (case find ?P xs of
         Some b \<Rightarrow> kthen (upd_buf b (\<lambda>x. x\<lparr>refcnt := refcnt x + 1\<rparr>))
           (kthen (release L_bcache) (kthen (acquiresleep (SL_buf b)) (ret b))) ?a
       | None \<Rightarrow> (case find (\<lambda>i. refcnt (bufs s i) = 0) (rev xs) of
           Some b \<Rightarrow> kthen (upd_buf b (\<lambda>x. x\<lparr>bdev := ROOTDEV, blockno := n, bvalid := 0, refcnt := 1\<rparr>))
             (kthen (release L_bcache) (kthen (acquiresleep (SL_buf b)) (ret b))) ?a
         | None \<Rightarrow> Panic ''bget: no buffers''))"
    unfolding bget_def acquire_then [OF fs_readyD(2) [OF r]] kbind_apply [of "get_buf bhead"]
    by (simp add: get_buf_def c u del: kthen_apply split: option.split)
  show ?thesis
  proof (cases "find ?P xs")
    case (Some b)
    then have b: "stands_for (bufs s) b n" using h(2) by (auto simp: find_Some_iff stands_for_def)
    then have "bget ROOTDEV n s = Ok b ((settle s)\<lparr>bufs := (bufs s)(b := claim_buf n True (bufs s b)),
      slocks := (slocks s)(SL_buf b := sl_take (pid (procs s p)) (slocks s (SL_buf b)))\<rparr>)"
      using b by (subst run) (simp add: Some upd claim_buf_def fin [OF unl [OF b]] del: kthen_apply)
    then show ?thesis using b unl [OF b] by (intro exI [of _ b] exI [of _ True]) (simp add: stands_for_def)
  next
    case None
    then have no: "\<not> (\<exists>i. stands_for (bufs s) i n)" using h(2) by (auto simp: find_None_iff stands_for_def)
    then obtain i where "i < NBUF" "refcnt (bufs s i) = 0" using avail by blast
    then obtain b where b: "find (\<lambda>i. refcnt (bufs s i) = 0) (rev xs) = Some b"
      using h(2) by (cases "find (\<lambda>i. refcnt (bufs s i) = 0) (rev xs)") (auto simp: find_None_iff)
    then have bb: "b \<in> set xs" "refcnt (bufs s b) = 0" using find_SomeD [OF b] by simp_all
    then have lb: "sl_locked (slocks s (SL_buf b)) = 0" using ok h(2) by (auto simp: cache_ok_def)
    have "bget ROOTDEV n s = Ok b ((settle s)\<lparr>bufs := (bufs s)(b := claim_buf n False (bufs s b)),
      slocks := (slocks s)(SL_buf b := sl_take (pid (procs s p)) (slocks s (SL_buf b)))\<rparr>)"
      by (subst run) (simp add: None b upd claim_buf_def fin [OF lb] del: kthen_apply)
    then show ?thesis using bb lb no h(2) by (intro exI [of _ b] exI [of _ False]) simp
  qed
qed

lemma lru_list_upd:
  assumes "bnext y = bnext (bs b)" "bprev y = bprev (bs b)"
  shows "lru_list (bs(b := y)) xs = lru_list bs xs"
proof -
  have "(\<lambda>i. bnext ((bs(b := y)) i)) = (\<lambda>i. bnext (bs i))" "(\<lambda>i. bprev ((bs(b := y)) i)) = (\<lambda>i. bprev (bs i))"
    using assms by auto
  then show ?thesis by (simp add: lru_list_def)
qed

text \<open>
  Claiming buffer \<open>b\<close> for block \<open>n\<close>: the buffer either stood for \<open>n\<close> already or was unused and clean,
  and in the end it holds the logical contents of \<open>n\<close>.
\<close>

lemma claim_invariant:
  fixes s t :: "'x kdisk_scheme"
  assumes ok: "cache_ok s" and b: "b < NBUF"
    and pick: "stands_for (bufs s) b n \<or> refcnt (bufs s b) = 0 \<and> \<not> (\<exists>i. stands_for (bufs s) i n)"
    and t: "bufs t = (bufs s)(b := y)" "sectors t = sectors s"
      "\<And>i. i \<noteq> b \<Longrightarrow> slocks t (SL_buf i) = slocks s (SL_buf i)"
    and y: "bnext y = bnext (bufs s b)" "bprev y = bprev (bufs s b)" "bdev y = ROOTDEV" "blockno y = n" "bvalid y \<noteq> 0"
      "refcnt y \<noteq> 0" "bdata y = blk s n"
  shows "cache_ok t" "blk t = blk s"
proof -
  have st: "stands_for (bufs t) i m = (if i = b then m = n else stands_for (bufs s) i m)" for i m
    using b y by (auto simp: stands_for_def t(1))
  have uniq: "\<And>i j m. stands_for (bufs s) i m \<Longrightarrow> stands_for (bufs s) j m \<Longrightarrow> i = j"
    and clean: "\<And>i m. stands_for (bufs s) i m \<Longrightarrow> refcnt (bufs s i) = 0 \<Longrightarrow> bvalid (bufs s i) \<noteq> 0 \<Longrightarrow>
        bdata (bufs s i) = disk_block (sectors s) m"
    and unl: "\<And>i. i < NBUF \<Longrightarrow> refcnt (bufs s i) = 0 \<Longrightarrow> sl_locked (slocks s (SL_buf i)) = 0"
    using ok unfolding cache_ok_def by blast+
  have "\<exists>xs. lru_list (bufs t) xs" using ok lru_list_upd [of y "bufs s" b] y(1,2) by (auto simp: cache_ok_def t(1))
  moreover have "i = j" if "stands_for (bufs t) i m" "stands_for (bufs t) j m" for i j m
    using that pick uniq unfolding st by (metis (full_types))
  moreover have "sl_locked (slocks t (SL_buf i)) = 0" if "i < NBUF" "refcnt (bufs t i) = 0" for i
    using that unl t y(6) by (cases "i = b") auto
  moreover have "bdata (bufs t i) = disk_block (sectors t) m"
    if "stands_for (bufs t) i m" "refcnt (bufs t i) = 0" "bvalid (bufs t i) \<noteq> 0" for i m
    using that clean y(6) st t(1,2) by (cases "i = b") auto
  ultimately show okt: "cache_ok t" unfolding cache_ok_def by blast
  show "blk t = blk s"
  proof
    fix m
    show "blk t m = blk s m"
    proof (cases "m = n")
      case True
      then show ?thesis using blk_cached [OF okt, of b n] st y t(1) by simp
    next
      case False
      show ?thesis
      proof (cases "stands_for (bufs s) b m")
        case True
        then have cl: "refcnt (bufs s b) = 0" using pick False uniq by (auto simp: stands_for_def)
        have "blk s m = disk_block (sectors s) m"
          using blk_cached [OF ok True] clean [OF True cl] blk_uncached [of s m] uniq [OF True] by metis
        moreover have "blk t m = disk_block (sectors t) m"
          using True False uniq st t(1) by (intro blk_uncached) metis
        ultimately show ?thesis using t(2) by simp
      next
        case nb: False
        show ?thesis
          by (rule blk_eq [OF ok okt]) (use nb False st t in \<open>auto split: if_splits\<close>)
      qed
    qed
  qed
qed

theorem bread_effect:
  fixes s :: "'x kdisk_scheme"
  assumes r: "fs_ready p s" and dk: "disk_ok s" and ok: "cache_ok s"
    and unl: "\<And>i. stands_for (bufs s) i n \<Longrightarrow> sl_locked (slocks s (SL_buf i)) = 0"
    and avail: "(\<exists>i. stands_for (bufs s) i n) \<or> (\<exists>i < NBUF. refcnt (bufs s i) = 0)"
    and nowrap: "\<And>i. i < NBUF \<Longrightarrow> refcnt (bufs s i) + 1 \<noteq> 0"
  shows "\<exists>b t. bread ROOTDEV n s = Ok b t \<and> fs_ready p t \<and> disk_ok t \<and> cache_ok t \<and> bio_base t = bio_base s \<and>
    b < NBUF \<and> stands_for (bufs t) b n \<and> bvalid (bufs t b) \<noteq> 0 \<and> bdata (bufs t b) = blk s n \<and>
    refcnt (bufs t b) = (if stands_for (bufs s) b n then refcnt (bufs s b) + 1 else 1) \<and>
    (stands_for (bufs s) b n \<or> refcnt (bufs s b) = 0) \<and>
    (\<forall>i. i \<noteq> b \<longrightarrow> bufs t i = bufs s i) \<and> sl_locked (slocks s (SL_buf b)) = 0 \<and>
    slocks t = (slocks s)(SL_buf b := sl_take (pid (procs s p)) (slocks s (SL_buf b))) \<and>
    blk t = blk s \<and> sectors t = sectors s \<and> written t = written s"
proof -
  obtain b hit where b: "bget ROOTDEV n s = Ok b ((settle s)\<lparr>bufs := (bufs s)(b := claim_buf n hit (bufs s b)),
      slocks := (slocks s)(SL_buf b := sl_take (pid (procs s p)) (slocks s (SL_buf b)))\<rparr>)"
    "b < NBUF" "sl_locked (slocks s (SL_buf b)) = 0"
    "if hit then stands_for (bufs s) b n else refcnt (bufs s b) = 0 \<and> \<not> (\<exists>i. stands_for (bufs s) i n)"
    using bget_effect [OF r ok unl avail] by blast
  let ?x = "claim_buf n hit (bufs s b)" and ?sl = "(slocks s)(SL_buf b := sl_take (pid (procs s p)) (slocks s (SL_buf b)))"
  let ?u = "(settle s)\<lparr>bufs := (bufs s)(b := ?x), slocks := ?sl\<rparr>"
  have pick: "stands_for (bufs s) b n \<or> refcnt (bufs s b) = 0 \<and> \<not> (\<exists>i. stands_for (bufs s) i n)"
    and hit: "hit = stands_for (bufs s) b n" using b(2,4) by (auto split: if_splits)
  have x: "bnext ?x = bnext (bufs s b)" "bprev ?x = bprev (bufs s b)" "bdev ?x = ROOTDEV" "blockno ?x = n"
    "refcnt ?x = (if stands_for (bufs s) b n then refcnt (bufs s b) + 1 else 1)"
    using b(4) hit by (auto simp: claim_buf_def stands_for_def)
  have x0: "refcnt ?x \<noteq> 0" using x(5) nowrap [OF b(2)] by simp
  have base: "bio_base ?u = bio_base s" by simp
  have final: ?thesis
    if "bread ROOTDEV n s = Ok b t" "fs_ready p t" "disk_ok t" "bio_base t = bio_base s"
      "bufs t = (bufs s)(b := y)" "sectors t = sectors s" "slocks t = ?sl" "written t = written s"
      "bnext y = bnext ?x" "bprev y = bprev ?x" "bdev y = ROOTDEV" "blockno y = n" "bvalid y \<noteq> 0" "refcnt y = refcnt ?x"
      "bdata y = blk s n" for t y
  proof -
    have "cache_ok t" "blk t = blk s"
      using claim_invariant [OF ok b(2) pick that(5,6)] that x x0 by simp_all
    then show ?thesis using that b(2,3) x pick
      by (intro exI [of _ b] exI [of _ t]) (auto simp: stands_for_def)
  qed
  show ?thesis
  proof (cases "bvalid ?x = 0")
    case False
    then have "hit" "?x = (bufs s b)\<lparr>refcnt := refcnt (bufs s b) + 1\<rparr>" by (auto simp: claim_buf_def split: if_splits)
    then have "bdata ?x = blk s n" using blk_cached [OF ok] hit False by simp
    then show ?thesis using False b(1) r dk base x
      by (intro final [of ?u ?x]) (simp_all add: bread_def get_buf_def)
  next
    case True
    have ru: "fs_ready p ?u" "disk_ok ?u" using r dk by simp_all
    obtain v where v: "virtio_disk_rw b False ?u = Ok () v" "fs_ready p v" "disk_ok v" "disk_base v = disk_base ?u"
      "bufs v = (bufs ?u)(b := rw_buf False (sectors ?u) (bufs ?u b))" "sectors v = sectors s" "written v = written s"
      using virtio_disk_rw_effect [OF ru, of b False] by (auto simp: rw_disk_def rw_log_def)
    let ?y = "(rw_buf False (sectors s) ?x)\<lparr>bvalid := 1\<rparr>"
    let ?t = "v\<lparr>bufs := (bufs s)(b := ?y)\<rparr>"
    have sl: "slocks v = ?sl"
      using arg_cong [OF v(4), of slocks] by (simp add: disk_base_def)
    have "bio_base v = bio_base s" using bio_base_disk [OF v(4)] base by simp
    moreover have "blk s n = disk_block (sectors s) n"
    proof (rule blk_uncached)
      fix i assume i: "stands_for (bufs s) i n"
      then have "hit" using b(4) by (auto split: if_splits)
      then have "i = b" "?x = (bufs s b)\<lparr>refcnt := refcnt (bufs s b) + 1\<rparr>"
        using i hit ok unfolding cache_ok_def claim_buf_def by (blast, simp)
      then show "bvalid (bufs s i) = 0" using True by simp
    qed
    moreover have "bread ROOTDEV n s = Ok b ?t" using True b(1) v(1,5) by (simp add: bread_def get_buf_def upd_buf_def)
    ultimately show ?thesis using v sl x
      by (intro final [of ?t ?y]) (simp_all add: rw_buf_def)
  qed
qed

section \<open>Changing, pinning, writing and releasing a buffer in use\<close>

definition held_buf :: "nat \<Rightarrow> 'x kdisk_scheme \<Rightarrow> nat \<Rightarrow> bool" where
  "held_buf p s b \<longleftrightarrow> b < NBUF \<and> sl_locked (slocks s (SL_buf b)) \<noteq> 0 \<and> sl_pid (slocks s (SL_buf b)) = pid (procs s p)"

lemma in_use_upd:
  fixes s t :: "'x kdisk_scheme"
  assumes ok: "cache_ok s"
    and t: "bufs t = (bufs s)(b := y)" "sectors t = sectors s" "slocks t = slocks s"
    and y: "bnext y = bnext (bufs s b)" "bprev y = bprev (bufs s b)" "bdev y = bdev (bufs s b)" "blockno y = blockno (bufs s b)"
      "bvalid y = bvalid (bufs s b)" "refcnt y \<noteq> 0"
  shows "cache_ok t"
    "stands_for (bufs s) b n \<Longrightarrow> bvalid y \<noteq> 0 \<Longrightarrow> blk t m = (if m = n then bdata y else blk s m)"
proof -
  have st: "stands_for (bufs t) i m = stands_for (bufs s) i m" for i m
    using y by (auto simp: stands_for_def t(1))
  have "\<exists>xs. lru_list (bufs t) xs" using ok lru_list_upd [of y "bufs s" b] y(1,2) by (auto simp: cache_ok_def t(1))
  then show okt: "cache_ok t"
    using ok y(6) st unfolding cache_ok_def t by (auto split: if_splits)
  assume sf: "stands_for (bufs s) b n" "bvalid y \<noteq> 0"
  show "blk t m = (if m = n then bdata y else blk s m)"
  proof (cases "m = n")
    case True
    then show ?thesis using blk_cached [OF okt, of b n] sf st t(1) by simp
  next
    case False
    then have "\<not> stands_for (bufs s) b m" using sf by (auto simp: stands_for_def)
    then have "blk t m = blk s m" by (intro blk_eq [OF ok okt]) (use st t in \<open>auto split: if_splits\<close>)
    then show ?thesis using False by simp
  qed
qed

text \<open>The refcount operations take and give back \<open>bcache.lock\<close> around one assignment.\<close>

lemma bcache_section:
  assumes "fs_ready p s"
  shows "kthen (acquire L_bcache) (kthen (upd_buf b f) (release L_bcache)) s =
    Ok () ((settle s)\<lparr>bufs := (bufs s)(b := f (bufs s b))\<rparr>)"
proof -
  have "release L_bcache (acquired L_bcache (s\<lparr>bufs := x\<rparr>)) = Ok () ((settle s)\<lparr>bufs := x\<rparr>)" for x
    using release_bcache [of p "s\<lparr>bufs := x\<rparr>"] assms by simp
  then show ?thesis unfolding acquire_then [OF fs_readyD(2) [OF assms]]
    by (simp add: upd_buf_def acquired_bufs)
qed

lemma bpin_effect:
  "fs_ready p s \<Longrightarrow> bpin b s = Ok () ((settle s)\<lparr>bufs := (bufs s)(b := (bufs s b)\<lparr>refcnt := refcnt (bufs s b) + 1\<rparr>)\<rparr>)"
  "fs_ready p s \<Longrightarrow> bunpin b s = Ok () ((settle s)\<lparr>bufs := (bufs s)(b := (bufs s b)\<lparr>refcnt := refcnt (bufs s b) - 1\<rparr>)\<rparr>)"
  unfolding bpin_def bunpin_def by (rule bcache_section, assumption)+

lemma sector_of_small:
  assumes "m < 0x80000000" "n < 0x80000000" "m \<noteq> n"
  shows "sector_of m \<noteq> sector_of n" "sector_of m + 1 \<noteq> sector_of n" "sector_of m \<noteq> sector_of n + 1" "sector_of m + 1 \<noteq> sector_of n + 1"
proof -
  have u: "unat (sector_of k) = 2 * unat k" "unat (sector_of k + 1) = 2 * unat k + 1" if "k < 0x80000000" for k :: u32
  proof -
    have k: "unat k < 2147483648" using that by (simp add: word_less_nat_alt)
    then have a: "unat (k * 2) = 2 * unat k" by (simp add: unat_word_ariths)
    then show b: "unat (sector_of k) = 2 * unat k" using k by (simp add: sector_of_def unsigned_ucast_eq take_bit_nat_eq_self)
    show "unat (sector_of k + 1) = 2 * unat k + 1" using b k by (simp add: unat_word_ariths)
  qed
  have ne: "unat m \<noteq> unat n" using assms(3) by (simp add: word_unat_eq_iff)
  then have "unat (sector_of m) \<noteq> unat (sector_of n)" "unat (sector_of m + 1) \<noteq> unat (sector_of n)"
    "unat (sector_of m) \<noteq> unat (sector_of n + 1)" "unat (sector_of m + 1) \<noteq> unat (sector_of n + 1)"
    unfolding u [OF assms(1)] u [OF assms(2)] by presburger+
  then show "sector_of m \<noteq> sector_of n" "sector_of m + 1 \<noteq> sector_of n" "sector_of m \<noteq> sector_of n + 1"
    "sector_of m + 1 \<noteq> sector_of n + 1" by metis+
qed

lemma disk_block_store:
  "disk_block (disk_store n bs d) n = bs"
  "m < 0x80000000 \<Longrightarrow> n < 0x80000000 \<Longrightarrow> m \<noteq> n \<Longrightarrow> disk_block (disk_store n bs d) m = disk_block d m"
  using sector_of_small [of m n] by (auto simp: disk_block_def disk_store_def)

definition small_blocks :: "'x kdisk_scheme \<Rightarrow> bool" where
  "small_blocks s \<longleftrightarrow> (\<forall>i n. stands_for (bufs s) i n \<longrightarrow> n < 0x80000000)"

theorem bwrite_effect:
  fixes s :: "'x kdisk_scheme"
  assumes r: "fs_ready p s" and dk: "disk_ok s" and ok: "cache_ok s" and held: "held_buf p s b"
    and b: "stands_for (bufs s) b n" "bvalid (bufs s b) \<noteq> 0" "refcnt (bufs s b) \<noteq> 0" and sm: "small_blocks s"
  shows "\<exists>t. bwrite b s = Ok () t \<and> fs_ready p t \<and> disk_ok t \<and> cache_ok t \<and> bio_base t = bio_base s \<and>
    slocks t = slocks s \<and> bufs t = (bufs s)(b := (bufs s b)\<lparr>bdisk := 0\<rparr>) \<and>
    sectors t = disk_store n (bdata (bufs s b)) (sectors s) \<and> written t = written s @ [(sector_of n, bdata (bufs s b))] \<and>
    (\<forall>m < 0x80000000. blk t m = blk s m)"
proof -
  have h: "holdingsleep (SL_buf b) s = Ok True (settle s)"
    using holdingsleep_effect [OF r, of "SL_buf b"] held by (simp add: held_buf_def)
  have rs: "fs_ready p (settle s)" "disk_ok (settle s)" using r dk by simp_all
  obtain t where t: "virtio_disk_rw b True (settle s) = Ok () t" "fs_ready p t" "disk_ok t" "disk_base t = disk_base (settle s)"
    "bufs t = (bufs s)(b := (bufs s b)\<lparr>bdisk := 0\<rparr>)" "sectors t = disk_store n (bdata (bufs s b)) (sectors s)"
    "written t = written s @ [(sector_of n, bdata (bufs s b))]"
    using virtio_disk_rw_effect [OF rs, of b True] b(1) by (auto simp: rw_disk_def rw_log_def rw_buf_def stands_for_def)
  have base: "bio_base t = bio_base s" using bio_base_disk [OF t(4)] by simp
  have sl: "slocks t = slocks s" using arg_cong [OF t(4), of slocks] by (simp add: disk_base_def)
  have st: "stands_for (bufs t) i m = stands_for (bufs s) i m" for i m by (auto simp: stands_for_def t(5))
  have smn: "n < 0x80000000" using sm b(1) by (auto simp: small_blocks_def)
  have "\<exists>xs. lru_list (bufs t) xs" using ok lru_list_upd [of "(bufs s b)\<lparr>bdisk := 0\<rparr>" "bufs s" b] by (auto simp: cache_ok_def t(5))
  moreover have "bdata (bufs t i) = disk_block (sectors t) m"
    if i: "stands_for (bufs t) i m" "refcnt (bufs t i) = 0" "bvalid (bufs t i) \<noteq> 0" for i m
  proof -
    have "i \<noteq> b" using i b(3) t(5) by auto
    then have "m \<noteq> n" using i(1) b(1) ok st unfolding cache_ok_def by metis
    moreover have "m < 0x80000000" using sm i(1) st by (auto simp: small_blocks_def)
    ultimately show ?thesis using i \<open>i \<noteq> b\<close> ok smn st disk_block_store(2) [of m n] by (auto simp: cache_ok_def t(5,6))
  qed
  ultimately have okt: "cache_ok t"
    using ok st sl b(3) unfolding cache_ok_def by (auto simp: t(5) split: if_splits)
  have "blk t m = blk s m" if "m < 0x80000000" for m
  proof (cases "m = n")
    case True
    then show ?thesis using blk_cached [OF okt, of b n] blk_cached [OF ok b(1,2)] b st t(5) by simp
  next
    case False
    then show ?thesis using disk_block_store(2) [OF that smn] st t(5,6)
      by (intro blk_eq [OF ok okt]) (auto split: if_splits)
  qed
  then show ?thesis using h t base sl okt by (intro exI [of _ t]) (simp add: bwrite_def)
qed

theorem brelse_effect:
  fixes s :: "'x kdisk_scheme"
  assumes r: "fs_ready p s" and dk: "disk_ok s" and ok: "cache_ok s" and held: "held_buf p s b" and rc: "refcnt (bufs s b) \<noteq> 0"
    and clean: "\<And>n. refcnt (bufs s b) = 1 \<Longrightarrow> stands_for (bufs s) b n \<Longrightarrow> bvalid (bufs s b) \<noteq> 0 \<Longrightarrow>
      bdata (bufs s b) = disk_block (sectors s) n"
  shows "\<exists>t. brelse b s = Ok () t \<and> fs_ready p t \<and> disk_ok t \<and> cache_ok t \<and> bio_base t = bio_base s \<and>
    slocks t = (slocks s)(SL_buf b := sl_drop (slocks s (SL_buf b))) \<and>
    buf_core (bufs t b) = buf_core ((bufs s b)\<lparr>refcnt := refcnt (bufs s b) - 1\<rparr>) \<and>
    (\<forall>i. i \<noteq> b \<longrightarrow> buf_core (bufs t i) = buf_core (bufs s i)) \<and>
    sectors t = sectors s \<and> written t = written s \<and> blk t = blk s \<and>
    (\<forall>xs. lru_list (bufs s) xs \<longrightarrow> lru_list (bufs t) (if refcnt (bufs s b) = 1 then b # remove1 b xs else xs))"
proof -
  have b: "b < NBUF" using held by (simp add: held_buf_def)
  let ?sl = "(slocks s)(SL_buf b := sl_drop (slocks s (SL_buf b)))" and ?pr = "wakeup_table (Some p) (sl_chan (SL_buf b)) (procs s)"
  let ?u = "(settle s)\<lparr>slocks := ?sl, procs := ?pr\<rparr>"
  have ru: "fs_ready p ?u" using slock_calm(2) [OF r] calmD(2) by blast
  let ?bs = "(bufs s)(b := (bufs s b)\<lparr>refcnt := refcnt (bufs s b) - 1\<rparr>)"
  define bt where "bt = (if refcnt (bufs s b) - 1 = 0 then relink b ?bs else ?bs)"
  let ?t = "(settle s)\<lparr>slocks := ?sl, procs := ?pr, bufs := bt\<rparr>"
  have h: "holdingsleep (SL_buf b) s = Ok True (settle s)"
    using holdingsleep_effect [OF r, of "SL_buf b"] held by (simp add: held_buf_def)
  have rl: "releasesleep (SL_buf b) (settle s) = Ok () ?u"
    using releasesleep_effect [of p "settle s" "SL_buf b"] r by simp
  have fin: "release L_bcache (acquired L_bcache (?u\<lparr>bufs := x\<rparr>)) = Ok () (?u\<lparr>bufs := x\<rparr>)" for x
    using release_bcache [of p "?u\<lparr>bufs := x\<rparr>"] ru by simp
  have run: "brelse b s = Ok () ?t"
    using h rl fin acquire_acquired [OF fs_readyD(2) [OF ru], of L_bcache]
    by (simp add: brelse_def upd_buf_def get_buf_def acquired_bufs bmove_front_effect bt_def)
  have core: "buf_core (bt i) = buf_core (?bs i)" for i by (simp add: bt_def relink_core)
  have sf: "stands_for bt i n = stands_for (bufs s) i n" "bvalid (bt i) = bvalid (bufs s i)" "bdata (bt i) = bdata (bufs s i)"
    "refcnt (bt i) = (if i = b then refcnt (bufs s b) - 1 else refcnt (bufs s i))" for i n
    using buf_core_fields [OF core, of i] by (auto simp: stands_for_def)
  have one: "refcnt (bufs s b) - 1 = 0 \<longleftrightarrow> refcnt (bufs s b) = 1" by simp
  have lrus: "lru_list bt (if refcnt (bufs s b) = 1 then b # remove1 b xs else xs)" if xs: "lru_list (bufs s) xs" for xs
  proof -
    have l: "lru_list ?bs xs" using xs lru_list_upd [of "(bufs s b)\<lparr>refcnt := refcnt (bufs s b) - 1\<rparr>" "bufs s" b] by simp
    obtain ys zs where yz: "xs = ys @ b # zs" using xs b split_list [of b xs] by (auto simp: lru_list_def)
    then have "b \<notin> set ys" using xs by (simp add: lru_list_def)
    then have "remove1 b xs = ys @ zs" using yz by (simp add: remove1_append)
    then show ?thesis using l relink_front [of ?bs ys b zs] yz by (cases "refcnt (bufs s b) = 1") (auto simp: bt_def)
  qed
  then have lru: "\<exists>xs. lru_list bt xs" using ok unfolding cache_ok_def by blast
  have "refcnt (bufs s b) - 1 = 0 \<Longrightarrow> refcnt (bufs s b) = 1" by simp
  then have okt: "cache_ok ?t" using ok clean lru unfolding cache_ok_def by (auto simp: sf split: if_splits)
  have "blk ?t m = blk s m" for m by (intro blk_eq [OF ok okt]) (simp_all add: sf)
  then have "blk ?t = blk s" by (rule ext)
  moreover have "fs_ready p ?t" using ru by simp
  moreover have "bio_base ?t = bio_base s" by simp
  ultimately show ?thesis using run okt core dk lrus by (intro exI [of _ ?t]) simp
qed

section \<open>binit\<close>

lemma hd_rev_last: "hd (rev xs @ [h]) = last (h # xs)"
  by (cases xs rule: rev_cases) auto

lemma binit_one_links:
  assumes nx: "links (\<lambda>i. bnext (bufs s i)) bhead (rev [0..<b]) bhead" and pv: "links (\<lambda>i. bprev (bufs s i)) bhead [0..<b] bhead"
    and b: "b < NBUF"
  shows "\<exists>t. binit_one b s = Ok () t \<and> links (\<lambda>i. bnext (bufs t i)) bhead (rev [0..<Suc b]) bhead \<and>
    links (\<lambda>i. bprev (bufs t i)) bhead [0..<Suc b] bhead \<and> (\<forall>i. buf_core (bufs t i) = buf_core (bufs s i)) \<and>
    sectors t = sectors s \<and> sl_locked (slocks t (SL_buf b)) = 0 \<and> (\<forall>l. l \<noteq> SL_buf b \<longrightarrow> slocks t l = slocks s l)"
proof -
  let ?h = bhead and ?nx = "\<lambda>i. bnext (bufs s i)" and ?pv = "\<lambda>i. bprev (bufs s i)"
  have f: "?nx ?h = last (?h # [0..<b])" using links_hd [of ?nx ?h "rev [0..<b]" ?h] nx hd_rev_last by metis
  have ne: "?nx ?h \<noteq> b" unfolding f using b by (cases b) auto
  have n2: "links (?nx(b := ?nx ?h, ?h := b)) ?h (rev [0..<Suc b]) ?h" using links_push [OF nx, of b] b by simp
  have p2: "links (?pv(b := ?h, ?nx ?h := b)) ?h [0..<Suc b] ?h" unfolding f using links_snoc [OF pv, of b] b by simp
  define bs where "bs = set_next ?h b (set_prev (?nx ?h) b (set_prev b ?h (set_next b (?nx ?h) (bufs s))))"
  have core: "buf_core (bs i) = buf_core (bufs s i)" for i by (simp add: bs_def)
  have "(\<lambda>i. bnext (bs i)) = ?nx(b := ?nx ?h, ?h := b)" "(\<lambda>i. bprev (bs i)) = ?pv(b := ?h, ?nx ?h := b)"
    using b ne by (auto simp: bs_def fun_eq_iff)
  then have l: "links (\<lambda>i. bnext (bs i)) ?h (rev [0..<Suc b]) ?h" "links (\<lambda>i. bprev (bs i)) ?h [0..<Suc b] ?h"
    using n2 p2 by simp_all
  obtain u where u: "binit_one b s = Ok () u" "bufs u = bs" "sectors u = sectors s" "sl_locked (slocks u (SL_buf b)) = 0"
    "\<forall>l. l \<noteq> SL_buf b \<longrightarrow> slocks u l = slocks s l"
    using b by (auto simp: binit_one_def get_buf_def upd_buf_links initsleeplock_def initlock_def upd_lock_def upd_slock_def bs_def)
  then show ?thesis using l core by (intro exI [of _ u]) simp
qed

lemma binit_loop:
  assumes "links (\<lambda>i. bnext (bufs s i)) bhead [] bhead" "links (\<lambda>i. bprev (bufs s i)) bhead [] bhead" "b \<le> NBUF"
  shows "\<exists>t. for_each binit_one [0..<b] s = Ok () t \<and> links (\<lambda>i. bnext (bufs t i)) bhead (rev [0..<b]) bhead \<and>
    links (\<lambda>i. bprev (bufs t i)) bhead [0..<b] bhead \<and> (\<forall>i. buf_core (bufs t i) = buf_core (bufs s i)) \<and>
    sectors t = sectors s \<and> (\<forall>i < b. sl_locked (slocks t (SL_buf i)) = 0)"
  using assms(3)
proof (induction b)
  case 0
  then show ?case using assms by (intro exI [of _ s]) simp
next
  case (Suc b)
  then obtain t where t: "for_each binit_one [0..<b] s = Ok () t" "links (\<lambda>i. bnext (bufs t i)) bhead (rev [0..<b]) bhead"
    "links (\<lambda>i. bprev (bufs t i)) bhead [0..<b] bhead" "\<And>i. buf_core (bufs t i) = buf_core (bufs s i)"
    "sectors t = sectors s" "\<And>i. i < b \<Longrightarrow> sl_locked (slocks t (SL_buf i)) = 0"
    by (auto simp: Suc_le_eq)
  obtain u where u: "binit_one b t = Ok () u" "links (\<lambda>i. bnext (bufs u i)) bhead (rev [0..<Suc b]) bhead"
    "links (\<lambda>i. bprev (bufs u i)) bhead [0..<Suc b] bhead" "\<And>i. buf_core (bufs u i) = buf_core (bufs t i)"
    "sectors u = sectors t" "sl_locked (slocks u (SL_buf b)) = 0" "\<And>l. l \<noteq> SL_buf b \<Longrightarrow> slocks u l = slocks t l"
    using binit_one_links [OF t(2,3)] Suc.prems by auto
  have "for_each binit_one [0..<Suc b] s = Ok () u" using t(1) u(1) for_each_append [of binit_one "[0..<b]" "[b]" s] by simp
  moreover have "sl_locked (slocks u (SL_buf i)) = 0" if "i < Suc b" for i
    using that t(6) u(6,7) by (cases "i = b") auto
  ultimately show ?case using t u by (intro exI [of _ u]) simp
qed

lemma binit_one_locks: "keeps (\<lambda>s. locks s L_bcache) (for_each binit_one bs :: ('x kdisk_scheme, unit) kop)"
  unfolding binit_one_def get_buf_def upd_buf_def initsleeplock_def initlock_def upd_lock_def upd_slock_def
  by (intro keeps_rules keeps_modify) auto

section \<open>A sample machine with a disk\<close>

text \<open>
  Process 0 runs on hart 0; the cache is as after \<open>binit\<close> and the disk is full of zeros except for
  one byte of block 5.
\<close>

definition sample_bufs :: "nat \<Rightarrow> buf" where
  "sample_bufs i = null_buf\<lparr>bnext := (if i = 0 then bhead else i - 1), bprev := (if i = bhead then 0 else i + 1)\<rparr>"

definition sample_disk :: kdisk where
  "sample_disk = kproc.extend (sample_running\<lparr>procs := sample_table(0 := (sample_table 0)\<lparr>state := RUNNING\<rparr>)\<rparr>)
     \<lparr>kernel_pagetable = 0, etext = 0, satp = (\<lambda>_. 0),
      slocks = (\<lambda>_. \<lparr>sl_locked = 0, sl_name = [], sl_pid = 0\<rparr>),
      bufs = sample_bufs,
      vdesc = (\<lambda>_. \<lparr>d_addr = Dma_null, d_len = 0, d_flags = 0, d_next = 0\<rparr>),
      avail_idx = 0, avail_ring = (\<lambda>_. 0), used_dev_idx = 0, used_ring = (\<lambda>_. 0), dfree = (\<lambda>_. True),
      used_idx = 0, info_b = (\<lambda>_. None), info_status = (\<lambda>_. 0),
      blk_ops = (\<lambda>_. \<lparr>req_type = 0, req_reserved = 0, req_sector = 0\<rparr>),
      sectors = (\<lambda>_. replicate 512 0)(10 := 7 # replicate 511 0), dev_next = 0, vq_notified = False, vio_isr = 0, written = []\<rparr>"

lemma sample_disk_simps [simp]:
  "tp sample_disk = 0" "procs sample_disk = sample_table(0 := (sample_table 0)\<lparr>state := RUNNING\<rparr>)"
  "bufs sample_disk = sample_bufs" "slocks sample_disk l = \<lparr>sl_locked = 0, sl_name = [], sl_pid = 0\<rparr>"
  "sectors sample_disk = (\<lambda>_. replicate 512 0)(10 := 7 # replicate 511 0)" "disk_ok sample_disk"
  using sample_kproc_simps(1)
  by (simp_all add: sample_disk_def sample_running_def kproc.defs disk_ok_def)

lemma sample_disk_ready: "fs_ready 0 sample_disk"
  using sample_idle
  by (simp add: fs_ready_def sched_idle_def irq_state_ok_def sample_disk_def sample_running_def kproc.defs NPROC_def
      lock_free_def) (simp add: sample_kproc_def kmachine.defs boot_machine_def kernel.defs idle_kernel_def)

lemma sample_lru_links:
  "n \<le> bhead \<Longrightarrow> links (\<lambda>i. bnext (sample_bufs i)) n (rev [0..<n]) bhead"
  "n \<le> bhead \<Longrightarrow> links (\<lambda>i. bprev (sample_bufs i)) a xs n \<Longrightarrow> links (\<lambda>i. bprev (sample_bufs i)) a (xs @ [n..<bhead]) bhead"
proof -
  show "links (\<lambda>i. bnext (sample_bufs i)) n (rev [0..<n]) bhead" if "n \<le> bhead" for n
    using that by (induction n) (simp_all add: sample_bufs_def)
  show "links (\<lambda>i. bprev (sample_bufs i)) a (xs @ [n..<bhead]) bhead"
    if "n \<le> bhead" "links (\<lambda>i. bprev (sample_bufs i)) a xs n" for n a xs
    using that
  proof (induction "bhead - n" arbitrary: n xs)
    case (Suc k)
    then have "n < bhead" by simp
    moreover have "links (\<lambda>i. bprev (sample_bufs i)) a (xs @ [n]) (Suc n)"
      using Suc(4) \<open>n < bhead\<close> by (simp add: links_append sample_bufs_def)
    ultimately show ?case using Suc(1) [of "Suc n" "xs @ [n]"] Suc(2) by (simp add: upt_conv_Cons)
  qed simp
qed

lemma sample_cache: "cache_ok sample_disk"
proof -
  have "links (\<lambda>i. bprev (sample_bufs i)) bhead [0..<bhead] bhead"
    using sample_lru_links(2) [of 0 bhead "[]"] by (simp add: sample_bufs_def)
  then have "lru_list sample_bufs (rev [0..<bhead])" using sample_lru_links(1) [of bhead] by (simp add: lru_list_def)
  moreover have "\<not> stands_for sample_bufs i n" for i n by (simp add: stands_for_def sample_bufs_def null_buf_def ROOTDEV_def)
  ultimately show ?thesis unfolding cache_ok_def by auto
qed

section \<open>Properties\<close>

text \<open>
  C29: \<open>binit\<close> establishes the cache: from the zero-initialised buffers of the kernel image it builds
  the circular list of all NBUF buffers, each exactly once in both directions, with no buffer in use:
  every reference count is 0, every buffer is invalid and unlocked, and the lock of the cache is free.
  The cache invariant holds.
\<close>
theorem binit_establishes_cache:
  assumes "\<forall>i < NBUF. bdev (bufs s i) = 0 \<and> refcnt (bufs s i) = 0 \<and> bvalid (bufs s i) = 0"
  shows "\<exists>t. binit s = Ok () t \<and> cache_ok t \<and> lru_list (bufs t) (rev [0..<NBUF]) \<and> lock_free L_bcache (locks t) \<and>
    (\<forall>i < NBUF. refcnt (bufs t i) = 0 \<and> bvalid (bufs t i) = 0 \<and> sl_locked (slocks t (SL_buf i)) = 0)"
proof -
  define s0 where "s0 = s\<lparr>locks := (locks s)(L_bcache := (locks s L_bcache)\<lparr>lname := ''bcache'', locked := 0, lcpu := None\<rparr>),
    bufs := set_next bhead bhead (set_prev bhead bhead (bufs s))\<rparr>"
  obtain t where t: "for_each binit_one [0..<NBUF] s0 = Ok () t" "links (\<lambda>i. bnext (bufs t i)) bhead (rev [0..<NBUF]) bhead"
    "links (\<lambda>i. bprev (bufs t i)) bhead [0..<NBUF] bhead" "\<And>i. buf_core (bufs t i) = buf_core (bufs s0 i)"
    "\<And>i. i < NBUF \<Longrightarrow> sl_locked (slocks t (SL_buf i)) = 0"
    using binit_loop [of s0 NBUF] by (auto simp: s0_def)
  have "binit s = Ok () t" using t(1) by (simp add: binit_def initlock_def upd_lock_def upd_buf_links s0_def)
  moreover have lru: "lru_list (bufs t) (rev [0..<NBUF])" using t(2,3) by (auto simp: lru_list_def)
  moreover have core: "buf_core (bufs t i) = buf_core (bufs s i)" for i using t(4) by (simp add: s0_def)
  have fields: "bdev (bufs t i) = 0" "refcnt (bufs t i) = 0" "bvalid (bufs t i) = 0" if "i < NBUF" for i
    using assms that buf_core_fields [OF core, of i] by simp_all
  then have "\<not> stands_for (bufs t) i n" for i n by (auto simp: stands_for_def ROOTDEV_def)
  then have "cache_ok t" using lru t(5) unfolding cache_ok_def by blast
  moreover have "lock_free L_bcache (locks t)" using keepsD [OF binit_one_locks t(1)] by (simp add: s0_def lock_free_def)
  ultimately show ?thesis using fields t(5) by blast
qed

theorem binit_establishes_cache_witness:
  "\<exists>t. binit (sample_disk\<lparr>bufs := \<lambda>_. null_buf, slocks := \<lambda>_. \<lparr>sl_locked = 1, sl_name = [], sl_pid = 9\<rparr>\<rparr>) = Ok () t \<and> cache_ok t \<and>
     lru_list (bufs t) (rev [0..<NBUF]) \<and> refcnt (bufs t 0) = 0 \<and> sl_locked (slocks t (SL_buf 0)) = 0"
proof -
  have "0 < NBUF" by (simp add: NBUF_def MAXOPBLOCKS_def)
  then show ?thesis
    using binit_establishes_cache [of "sample_disk\<lparr>bufs := \<lambda>_. null_buf, slocks := \<lambda>_. \<lparr>sl_locked = 1, sl_name = [], sl_pid = 9\<rparr>\<rparr>"]
    by (auto simp: null_buf_def)
qed

text \<open>
  C25: the buffer cache is coherent: \<open>bread\<close> of a block that nobody holds returns a buffer locked by
  the caller, marked valid, counted as in use, with exactly the block's logical contents, whether they come from the cache or from the
  disk; it changes the logical contents of no block and writes nothing to the disk, and the cache
  invariant (one buffer per block, no unsaved data in an unused buffer) is kept.
\<close>
theorem bread_coherent:
  assumes "fs_ready p s" "disk_ok s" "cache_ok s"
    and "\<forall>i. stands_for (bufs s) i n \<longrightarrow> sl_locked (slocks s (SL_buf i)) = 0"
    and "(\<exists>i. stands_for (bufs s) i n) \<or> (\<exists>i < NBUF. refcnt (bufs s i) = 0)"
    and "\<forall>i < NBUF. refcnt (bufs s i) + 1 \<noteq> 0"
  shows "\<exists>b t. bread ROOTDEV n s = Ok b t \<and> cache_ok t \<and> held_buf p t b \<and> stands_for (bufs t) b n \<and>
    bvalid (bufs t b) \<noteq> 0 \<and> refcnt (bufs t b) = (if stands_for (bufs s) b n then refcnt (bufs s b) + 1 else 1) \<and>
    bdata (bufs t b) = blk s n \<and> blk t = blk s \<and> sectors t = sectors s \<and> written t = written s \<and>
    (\<forall>i. i \<noteq> b \<longrightarrow> bufs t i = bufs s i)"
proof -
  obtain b t where t: "bread ROOTDEV n s = Ok b t" "cache_ok t" "bio_base t = bio_base s" "stands_for (bufs t) b n"
    "bdata (bufs t b) = blk s n" "\<forall>i. i \<noteq> b \<longrightarrow> bufs t i = bufs s i" "b < NBUF"
    "slocks t = (slocks s)(SL_buf b := sl_take (pid (procs s p)) (slocks s (SL_buf b)))"
    "blk t = blk s" "sectors t = sectors s" "written t = written s" "bvalid (bufs t b) \<noteq> 0"
    "refcnt (bufs t b) = (if stands_for (bufs s) b n then refcnt (bufs s b) + 1 else 1)"
    using bread_effect [OF assms(1-3)] assms(4-6) by blast
  have "pid (procs t p) = pid (procs s p)" by (rule bio_base_pid [OF t(3)])
  then show ?thesis using t by (intro exI [of _ b] exI [of _ t]) (simp add: held_buf_def)
qed

theorem bread_coherent_witness:
  "\<exists>b t. bread ROOTDEV 5 sample_disk = Ok b t \<and> bvalid (bufs t b) \<noteq> 0 \<and> bdata (bufs t b) = 7 # replicate 1023 0"
proof -
  have "\<not> stands_for sample_bufs i n" for i n by (simp add: stands_for_def sample_bufs_def null_buf_def ROOTDEV_def)
  moreover have "refcnt (sample_bufs i) = 0" for i by (simp add: sample_bufs_def null_buf_def)
  moreover have "blk sample_disk 5 = 7 # replicate 1023 0"
    using calculation(1) blk_uncached [of sample_disk 5]
    by (simp add: disk_block_def sector_of_def replicate_add [symmetric])
  moreover have "0 < NBUF" by (simp add: NBUF_def MAXOPBLOCKS_def)
  ultimately show ?thesis
    using bread_coherent [OF sample_disk_ready sample_disk_simps(6) sample_cache, of 5] by fastforce
qed

text \<open>
  \<open>bwrite\<close> makes a held buffer persistent: afterwards the disk holds its contents at its block
  and is unchanged everywhere else, exactly one write has reached the device, and no block has
  changed for readers.
\<close>
theorem bwrite_persists:
  assumes "fs_ready p s" "disk_ok s" "cache_ok s" "held_buf p s b" "stands_for (bufs s) b n" "bvalid (bufs s b) \<noteq> 0"
    and "refcnt (bufs s b) \<noteq> 0" "small_blocks s"
  shows "\<exists>t. bwrite b s = Ok () t \<and> cache_ok t \<and> disk_block (sectors t) n = bdata (bufs s b) \<and>
    (\<forall>m < 0x80000000. (m \<noteq> n \<longrightarrow> disk_block (sectors t) m = disk_block (sectors s) m) \<and> blk t m = blk s m) \<and>
    written t = written s @ [(sector_of n, bdata (bufs s b))]"
proof -
  have "n < 0x80000000" using assms(5,8) by (auto simp: small_blocks_def)
  then show ?thesis using bwrite_effect [OF assms] disk_block_store by metis
qed

theorem bwrite_persists_witness:
  "\<exists>b s t. bread ROOTDEV 5 sample_disk = Ok b s \<and> bwrite b (s\<lparr>bufs := (bufs s)(b := (bufs s b)\<lparr>bdata := replicate BSIZE 9\<rparr>)\<rparr>) = Ok () t \<and>
     disk_block (sectors t) 5 = replicate BSIZE 9"
proof -
  have ns: "\<not> stands_for sample_bufs i n" for i n by (simp add: stands_for_def sample_bufs_def null_buf_def ROOTDEV_def)
  have rc: "refcnt (sample_bufs i) = 0" for i by (simp add: sample_bufs_def null_buf_def)
  have nb: "0 < NBUF" by (simp add: NBUF_def MAXOPBLOCKS_def)
  obtain b s where s: "bread ROOTDEV 5 sample_disk = Ok b s" "fs_ready 0 s" "disk_ok s" "cache_ok s" "bio_base s = bio_base sample_disk"
    "b < NBUF" "stands_for (bufs s) b 5" "bvalid (bufs s b) \<noteq> 0" "refcnt (bufs s b) = 1" "\<forall>i. i \<noteq> b \<longrightarrow> bufs s i = sample_bufs i"
    "slocks s = (slocks sample_disk)(SL_buf b := sl_take (pid (procs sample_disk 0)) (slocks sample_disk (SL_buf b)))"
    using bread_effect [OF sample_disk_ready sample_disk_simps(6) sample_cache, of 5] ns rc nb by fastforce
  let ?y = "(bufs s b)\<lparr>bdata := replicate BSIZE 9\<rparr>"
  let ?s = "s\<lparr>bufs := (bufs s)(b := ?y)\<rparr>"
  have ok: "cache_ok ?s" by (rule in_use_upd(1) [OF s(4), where b = b and y = ?y]) (use s in simp_all)
  have h: "held_buf 0 ?s b" using s(6,11) bio_base_pid [OF s(5), of 0] by (simp add: held_buf_def)
  have st: "stands_for (bufs ?s) i n \<Longrightarrow> i = b \<and> n = 5" for i n
    using s(7,10) ns by (cases "i = b") (auto simp: stands_for_def)
  have sm: "small_blocks ?s" using st unfolding small_blocks_def by fastforce
  have f: "fs_ready 0 ?s" "disk_ok ?s" "stands_for (bufs ?s) b 5" "bvalid (bufs ?s b) \<noteq> 0" "refcnt (bufs ?s b) \<noteq> 0"
    using s(2,3,7-9) by (simp_all add: stands_for_def)
  obtain t where "bwrite b ?s = Ok () t" "disk_block (sectors t) 5 = bdata (bufs ?s b)"
    using bwrite_persists [OF f(1,2) ok h f(3-5) sm] by blast
  then have "bwrite b ?s = Ok () t \<and> disk_block (sectors t) 5 = replicate BSIZE 9" by simp
  then show ?thesis using s(1) by blast
qed

text \<open>
  The cache is a least-recently-used list: releasing the last reference to a buffer moves it to
  the front and leaves the order of the others alone, and a release while others still use the
  buffer does not move it; a search for an unused buffer takes the one released longest ago.
\<close>
theorem brelse_lru:
  assumes "fs_ready p s" "disk_ok s" "cache_ok s" "held_buf p s b" "refcnt (bufs s b) \<noteq> 0" "lru_list (bufs s) xs"
    and "\<forall>n. refcnt (bufs s b) = 1 \<and> stands_for (bufs s) b n \<and> bvalid (bufs s b) \<noteq> 0 \<longrightarrow> bdata (bufs s b) = disk_block (sectors s) n"
  shows "\<exists>t. brelse b s = Ok () t \<and> cache_ok t \<and> blk t = blk s \<and>
    lru_list (bufs t) (if refcnt (bufs s b) = 1 then b # remove1 b xs else xs) \<and>
    bget_unused (Suc NBUF) (bprev (bufs t bhead)) t =
      Ok (find (\<lambda>i. refcnt (bufs t i) = 0) (rev (if refcnt (bufs s b) = 1 then b # remove1 b xs else xs))) t"
proof -
  obtain t where t: "brelse b s = Ok () t" "cache_ok t" "blk t = blk s"
    "lru_list (bufs t) (if refcnt (bufs s b) = 1 then b # remove1 b xs else xs)"
    using brelse_effect [OF assms(1-5)] assms(6,7) by blast
  define ys where "ys = (if refcnt (bufs s b) = 1 then b # remove1 b xs else xs)"
  have "lru_list (bufs t) ys" using t(4) by (simp add: ys_def)
  then have "links (\<lambda>i. bprev (bufs t i)) bhead (rev ys) bhead" "bhead \<notin> set ys" "length ys = NBUF"
    using distinct_card [of ys] by (simp_all add: lru_list_def)
  then have "bget_unused (Suc NBUF) (bprev (bufs t bhead)) t = Ok (find (\<lambda>i. refcnt (bufs t i) = 0) (rev ys)) t"
    by (intro bget_unused_effect) simp_all
  then show ?thesis using t by (auto simp: ys_def)
qed

theorem brelse_lru_witness:
  "\<exists>b s t xs. bread ROOTDEV 5 sample_disk = Ok b s \<and> brelse b s = Ok () t \<and> lru_list (bufs t) (b # xs)"
proof -
  have ns: "\<not> stands_for sample_bufs i n" for i n by (simp add: stands_for_def sample_bufs_def null_buf_def ROOTDEV_def)
  have rc: "refcnt (sample_bufs i) = 0" for i by (simp add: sample_bufs_def null_buf_def)
  have nb: "0 < NBUF" by (simp add: NBUF_def MAXOPBLOCKS_def)
  obtain b s where s: "bread ROOTDEV 5 sample_disk = Ok b s" "fs_ready 0 s" "disk_ok s" "cache_ok s" "bio_base s = bio_base sample_disk"
    "b < NBUF" "stands_for (bufs s) b 5" "bdata (bufs s b) = blk sample_disk 5" "refcnt (bufs s b) = 1" "sectors s = sectors sample_disk"
    "slocks s = (slocks sample_disk)(SL_buf b := sl_take (pid (procs sample_disk 0)) (slocks sample_disk (SL_buf b)))"
    using bread_effect [OF sample_disk_ready sample_disk_simps(6) sample_cache, of 5] ns rc nb by fastforce
  have "blk sample_disk 5 = disk_block (sectors sample_disk) 5" using ns by (intro blk_uncached) simp
  then have cl: "\<forall>n. refcnt (bufs s b) = 1 \<and> stands_for (bufs s) b n \<and> bvalid (bufs s b) \<noteq> 0 \<longrightarrow> bdata (bufs s b) = disk_block (sectors s) n"
    using s(7,8,10) by (auto simp: stands_for_def)
  have h: "held_buf 0 s b" using s(6,11) bio_base_pid [OF s(5), of 0] by (simp add: held_buf_def)
  obtain xs where "lru_list (bufs s) xs" using s(4) by (auto simp: cache_ok_def)
  then have "\<exists>t. brelse b s = Ok () t \<and> lru_list (bufs t) (b # remove1 b xs)"
    using brelse_lru [OF s(2-4) h _ _ cl, of xs] s(9) by auto
  then show ?thesis using s(1) by blast
qed

text \<open>
  C30: a disk request completes: \<open>virtio_disk_rw\<close> publishes a chain the device accepts and notifies
  it, sleeps, is woken by the interrupt handler and returns with the block transferred in the
  requested direction, the buffer owned by the kernel again, all descriptors free, both rings drained
  and the interrupt acknowledged, so that the next request finds driver and device as this one did;
  nothing else on the disk or in the cache has changed.
\<close>
theorem virtio_disk_rw_transfers:
  assumes "fs_ready p s" "disk_ok s"
  shows "\<exists>t. virtio_disk_rw b write s = Ok () t \<and> fs_ready p t \<and> disk_ok t \<and> locks t = locks s \<and>
    bufs t = (bufs s)(b := (if write then (bufs s b)\<lparr>bdisk := 0\<rparr>
      else (bufs s b)\<lparr>bdisk := 0, bdata := disk_block (sectors s) (blockno (bufs s b))\<rparr>)) \<and>
    sectors t = (if write then disk_store (blockno (bufs s b)) (bdata (bufs s b)) (sectors s) else sectors s)"
proof -
  obtain t where t: "virtio_disk_rw b write s = Ok () t" "fs_ready p t" "disk_ok t" "disk_base t = disk_base s"
    "bufs t = (bufs s)(b := rw_buf write (sectors s) (bufs s b))" "sectors t = rw_disk write (bufs s b) (sectors s)"
    using virtio_disk_rw_effect [OF assms] by blast
  have "locks t = locks s" using arg_cong [OF t(4), of locks] by (simp add: disk_base_def)
  then show ?thesis using t by (intro exI [of _ t]) (simp add: rw_buf_def rw_disk_def)
qed

theorem virtio_disk_rw_transfers_witness:
  "\<exists>t. virtio_disk_rw 3 False (sample_disk\<lparr>bufs := sample_bufs(3 := null_buf\<lparr>blockno := 5\<rparr>)\<rparr>) = Ok () t \<and> disk_ok t \<and>
     bdata (bufs t 3) = 7 # replicate 1023 0"
proof -
  let ?s = "sample_disk\<lparr>bufs := sample_bufs(3 := null_buf\<lparr>blockno := 5\<rparr>)\<rparr>"
  have "fs_ready 0 ?s" "disk_ok ?s" using sample_disk_ready sample_disk_simps(6) by (simp_all add: fs_ready_def irq_state_ok_def)
  moreover have "disk_block (sectors sample_disk) 5 = 7 # replicate 1023 0"
    by (simp add: disk_block_def sector_of_def replicate_add [symmetric])
  ultimately show ?thesis using virtio_disk_rw_transfers [of 0 ?s 3 False] by auto
qed

end
