(* ===== verification/Xv6_Bytes.thy ===== *)
theory Xv6_Bytes
  imports Xv6_String
begin

text \<open>
  Little-endian fields of disk blocks. A block is a list of bytes; the structures that the C code
  overlays on it (\<open>struct logheader\<close>, \<open>struct dinode\<close>, \<open>struct dirent\<close>, arrays of \<open>uint\<close>) are read and
  written field by field at their offsets.
\<close>

definition rd16 :: "nat \<Rightarrow> u8 list \<Rightarrow> u16" where
  "rd16 off bs = ucast (bs ! off) OR push_bit 8 (ucast (bs ! (off + 1)))"

definition wr16 :: "nat \<Rightarrow> u16 \<Rightarrow> u8 list \<Rightarrow> u8 list" where
  "wr16 off w bs = bs[off := ucast w, off + 1 := ucast (drop_bit 8 w)]"

definition rd32 :: "nat \<Rightarrow> u8 list \<Rightarrow> u32" where
  "rd32 off bs = ucast (rd16 off bs) OR push_bit 16 (ucast (rd16 (off + 2) bs))"

definition wr32 :: "nat \<Rightarrow> u32 \<Rightarrow> u8 list \<Rightarrow> u8 list" where
  "wr32 off w bs = wr16 (off + 2) (ucast (drop_bit 16 w)) (wr16 off (ucast w) bs)"

text \<open>Replacing the bytes from \<open>off\<close> on, as \<open>memmove\<close> into a field does.\<close>

definition splice :: "nat \<Rightarrow> u8 list \<Rightarrow> u8 list \<Rightarrow> u8 list" where
  "splice off new bs = take off bs @ new @ drop (off + length new) bs"

lemma length_wr [simp]: "length (wr16 off w bs) = length bs" "length (wr32 off v bs) = length bs"
  by (simp_all add: wr16_def wr32_def)

lemma rd16_wr16 [simp]: "off + 2 \<le> length bs \<Longrightarrow> rd16 off (wr16 off w bs) = w"
  by (intro bit_word_eqI) (auto simp: rd16_def wr16_def bit_simps nth_list_update)

lemma rd16_wr16_other [simp]: "off + 2 \<le> k \<or> k + 2 \<le> off \<Longrightarrow> rd16 off (wr16 k w bs) = rd16 off bs"
  by (auto simp: rd16_def wr16_def nth_list_update)

lemma rd16_wr32_other [simp]: "off + 2 \<le> k \<or> k + 4 \<le> off \<Longrightarrow> rd16 off (wr32 k w bs) = rd16 off bs"
  by (auto simp: wr32_def)

lemma rd32_wr32 [simp]: "off + 4 \<le> length bs \<Longrightarrow> rd32 off (wr32 off w bs) = w"
  by (intro bit_word_eqI) (auto simp: rd32_def wr32_def bit_simps)

lemma rd32_wr32_other [simp]: "off + 4 \<le> k \<or> k + 4 \<le> off \<Longrightarrow> rd32 off (wr32 k w bs) = rd32 off bs"
  by (auto simp: rd32_def wr32_def)

lemma rd32_wr16_other [simp]: "off + 4 \<le> k \<or> k + 2 \<le> off \<Longrightarrow> rd32 off (wr16 k w bs) = rd32 off bs"
  by (auto simp: rd32_def)

lemma length_splice [simp]: "off + length new \<le> length bs \<Longrightarrow> length (splice off new bs) = length bs"
  by (simp add: splice_def)

lemma nth_splice:
  "off + length new \<le> length bs \<Longrightarrow> i < length bs \<Longrightarrow>
   splice off new bs ! i = (if off \<le> i \<and> i < off + length new then new ! (i - off) else bs ! i)"
  by (auto simp: splice_def nth_append)

end
