(* ===== verification/Xv6_Log.thy ===== *)
theory Xv6_Log
  imports Xv6_Bio Xv6_Bytes
begin

text \<open>
  The write-ahead log (log.c): transactions, commit and recovery over the buffer cache. The header
  block is read and written through its bytes: the count at offset 0, then the home block numbers.
\<close>

section \<open>log.c\<close>

record klog = kdisk +
  log_start :: u32
  outstanding :: int
  committing :: bool
  log_dev :: u32
  ncommit :: int
  lh_n :: int
  lh_block :: "nat \<Rightarrow> u32"

record superblock =
  sb_magic :: u32
  sb_size :: u32
  sb_nblocks :: u32
  sb_ninodes :: u32
  sb_nlog :: u32
  sb_logstart :: u32
  sb_inodestart :: u32
  sb_bmapstart :: u32

text \<open>\<open>memmove(dbuf->data, lbuf->data, BSIZE)\<close>.\<close>

definition copy_buf :: "nat \<Rightarrow> nat \<Rightarrow> ('x kdisk_scheme, unit) kop" where
  "copy_buf dst src = kbind (get_buf src) (\<lambda>x. upd_buf dst (\<lambda>y. y\<lparr>bdata := bdata x\<rparr>))"

definition install_one :: "bool \<Rightarrow> nat \<Rightarrow> ('x klog_scheme, unit) kop" where
  "install_one recovering tail =
     kbind (gets (\<lambda>s. (log_dev s, log_start s, lh_block s tail))) (\<lambda>(dev, start, dst).
     kbind (bread dev (start + of_nat tail + 1)) (\<lambda>lbuf.
     kbind (bread dev dst) (\<lambda>dbuf.
     kthen (copy_buf dbuf lbuf) (
     kthen (bwrite dbuf) (
     kthen (kwhen (\<not> recovering) (bunpin dbuf)) (
     kthen (brelse lbuf) (
     brelse dbuf)))))))"

definition install_trans :: "bool \<Rightarrow> ('x klog_scheme, unit) kop" where
  "install_trans recovering = kbind (gets lh_n) (\<lambda>n. for_each (install_one recovering) [0..<nat n])"

definition read_head :: "('x klog_scheme, unit) kop" where
  "read_head =
     kbind (gets (\<lambda>s. (log_dev s, log_start s))) (\<lambda>(dev, start).
     kbind (bread dev start) (\<lambda>b.
     kbind (get_buf b) (\<lambda>x.
     kthen (modify (\<lambda>s. s\<lparr>lh_n := sint (rd32 0 (bdata x))\<rparr>)) (
     kbind (gets lh_n) (\<lambda>n.
     kthen (for_each (\<lambda>i. modify (\<lambda>s. s\<lparr>lh_block := (lh_block s)(i := rd32 (4 + 4 * i) (bdata x))\<rparr>)) [0..<nat n]) (
     brelse b))))))"

definition write_head :: "('x klog_scheme, unit) kop" where
  "write_head =
     kbind (gets (\<lambda>s. (log_dev s, log_start s))) (\<lambda>(dev, start).
     kbind (bread dev start) (\<lambda>b.
     kbind (gets lh_n) (\<lambda>n.
     kthen (upd_buf b (\<lambda>x. x\<lparr>bdata := wr32 0 (word_of_int n) (bdata x)\<rparr>)) (
     kthen (for_each (\<lambda>i.
         kbind (gets (\<lambda>s. lh_block s i)) (\<lambda>w.
         upd_buf b (\<lambda>x. x\<lparr>bdata := wr32 (4 + 4 * i) w (bdata x)\<rparr>))) [0..<nat n]) (
     kthen (bwrite b) (
     brelse b))))))"

definition recover_from_log :: "('x klog_scheme, unit) kop" where
  "recover_from_log =
     kthen read_head (
     kthen (install_trans True) (
     kthen (modify (\<lambda>s. s\<lparr>lh_n := 0\<rparr>)) (
     write_head)))"

text \<open>\<open>sizeof(struct logheader)\<close> is 4 + 4 * LOGBLOCKS.\<close>

definition initlog :: "u32 \<Rightarrow> superblock \<Rightarrow> ('x klog_scheme, unit) kop" where
  "initlog dev sb =
     (if 4 + 4 * LOGBLOCKS \<ge> BSIZE then panic ''initlog: too big logheader'' else
      kthen (initlock L_log ''log'') (
      kthen (modify (\<lambda>s. s\<lparr>log_start := sb_logstart sb\<rparr>)) (
      kthen (modify (\<lambda>s. s\<lparr>log_dev := dev\<rparr>)) (
      recover_from_log))))"

text \<open>
  One pass of the loop of \<open>begin_op\<close>: the process either sleeps on the log, and makes another pass
  when it is woken, or joins the transaction.
\<close>

definition begin_op_round :: "('x klog_scheme, unit) kop" where
  "begin_op_round =
     kbind (gets (\<lambda>s. (committing s, lh_n s, outstanding s))) (\<lambda>(c, n, out).
     if c then sleep Chan_log L_log
     else if n + (out + 1) * int MAXOPBLOCKS > int LOGBLOCKS then sleep Chan_log L_log
     else
       kthen (modify (\<lambda>s. s\<lparr>outstanding := outstanding s + 1\<rparr>)) (
       release L_log))"

definition begin_op :: "('x klog_scheme, unit) kop" where
  "begin_op = kthen (acquire L_log) begin_op_round"

definition write_log_one :: "nat \<Rightarrow> ('x klog_scheme, unit) kop" where
  "write_log_one tail =
     kbind (gets (\<lambda>s. (log_dev s, log_start s, lh_block s tail))) (\<lambda>(dev, start, src).
     kbind (bread dev (start + of_nat tail + 1)) (\<lambda>to.
     kbind (bread dev src) (\<lambda>from.
     kthen (copy_buf to from) (
     kthen (bwrite to) (
     kthen (brelse from) (
     brelse to))))))"

definition write_log :: "('x klog_scheme, unit) kop" where
  "write_log = kbind (gets lh_n) (\<lambda>n. for_each write_log_one [0..<nat n])"

definition commit :: "('x klog_scheme, unit) kop" where
  "commit =
     kbind (gets lh_n) (\<lambda>n.
     kwhen (n > 0) (
       kthen write_log (
       kthen write_head (
       kthen (install_trans False) (
       kthen (modify (\<lambda>s. s\<lparr>lh_n := 0\<rparr>)) (
       write_head))))))"

definition end_op :: "('x klog_scheme, unit) kop" where
  "end_op =
     kthen (acquire L_log) (
     kthen (modify (\<lambda>s. s\<lparr>outstanding := outstanding s - 1\<rparr>)) (
     kbind (gets committing) (\<lambda>c.
     if c then panic ''log.committing'' else
     kbind (gets (\<lambda>s. outstanding s = 0)) (\<lambda>do_commit.
     kthen (if do_commit then modify (\<lambda>s. s\<lparr>committing := True\<rparr>) else wakeup Chan_log) (
     kthen (release L_log) (
     kwhen do_commit (
       kthen commit (
       kthen (acquire L_log) (
       kthen (modify (\<lambda>s. s\<lparr>committing := False\<rparr>)) (
       kthen (modify (\<lambda>s. s\<lparr>ncommit := ncommit s + 1\<rparr>)) (
       kthen (wakeup Chan_log) (
       release L_log))))))))))))"

text \<open>The search for the block in the log: the first index holding it, or the count.\<close>

fun log_find :: "(nat \<Rightarrow> u32) \<Rightarrow> u32 \<Rightarrow> nat \<Rightarrow> nat \<Rightarrow> nat" where
  "log_find bl bno i 0 = i"
| "log_find bl bno i (Suc k) = (if bl i = bno then i else log_find bl bno (Suc i) k)"

definition log_write :: "nat \<Rightarrow> ('x klog_scheme, unit) kop" where
  "log_write b =
     kthen (acquire L_log) (
     kbind (gets lh_n) (\<lambda>n.
     if n \<ge> int LOGBLOCKS then panic ''too big a transaction'' else
     kbind (gets outstanding) (\<lambda>out.
     if out < 1 then panic ''log_write outside of trans'' else
     kbind (get_buf b) (\<lambda>x.
     kbind (gets (\<lambda>s. log_find (lh_block s) (blockno x) 0 (nat n))) (\<lambda>i.
     kthen (modify (\<lambda>s. s\<lparr>lh_block := (lh_block s)(i := blockno x)\<rparr>)) (
     kthen (kwhen (int i = n) (
       kthen (bpin b) (
       modify (\<lambda>s. s\<lparr>lh_n := lh_n s + 1\<rparr>)))) (
     release L_log)))))))"

text \<open>
  \<open>sys_sync\<close> waits until the commit counter has reached \<open>n\<close>: after each \<open>sleep\<close> it tests the counter again.
\<close>

definition sys_sync_round :: "int \<Rightarrow> ('x klog_scheme, u64) kop" where
  "sys_sync_round n =
     kbind (gets ncommit) (\<lambda>k.
     if k < n then kthen (sleep Chan_log L_log) (ret 0)
     else kthen (release L_log) (ret 0))"

definition sys_sync :: "('x klog_scheme, u64) kop" where
  "sys_sync =
     kthen (acquire L_log) (
     kbind (gets (\<lambda>s. committing s \<or> outstanding s > 0)) (\<lambda>busy.
     if busy then kbind (gets (\<lambda>s. ncommit s + 1)) sys_sync_round
     else kthen (release L_log) (ret 0)))"

section \<open>Buffers held and pinned\<close>

text \<open>
  The state of the cache during an operation of process \<open>p\<close>: \<open>H\<close> maps the blocks it holds to their
  buffers, \<open>D\<close> is the set of blocks pinned by the log. Every reference is accounted for.
\<close>

definition uses :: "u32 set \<Rightarrow> (u32 \<rightharpoonup> nat) \<Rightarrow> u32 \<Rightarrow> u32" where
  "uses D H n = (if n \<in> D then 1 else 0) + (if n \<in> dom H then 1 else 0)"

definition cache_at :: "nat \<Rightarrow> u32 set \<Rightarrow> (u32 \<rightharpoonup> nat) \<Rightarrow> 'x kdisk_scheme \<Rightarrow> bool" where
  "cache_at p D H s \<longleftrightarrow> fs_ready p s \<and> disk_ok s \<and> cache_ok s \<and> small_blocks s \<and>
     (\<forall>n b. H n = Some b \<longrightarrow> held_buf p s b \<and> stands_for (bufs s) b n \<and> bvalid (bufs s b) \<noteq> 0) \<and>
     (\<forall>n \<in> D. \<exists>b. stands_for (bufs s) b n \<and> bvalid (bufs s b) \<noteq> 0) \<and>
     (\<forall>b n. stands_for (bufs s) b n \<longrightarrow> refcnt (bufs s b) = uses D H n \<and> (n \<notin> dom H \<longrightarrow> sl_locked (slocks s (SL_buf b)) = 0)) \<and>
     (\<forall>b < NBUF. bdev (bufs s b) \<noteq> ROOTDEV \<longrightarrow> refcnt (bufs s b) = 0)"

lemma uses_simps [simp]:
  "uses D H n = 0 \<longleftrightarrow> n \<notin> D \<and> n \<notin> dom H" "uses D (H(n \<mapsto> b)) n = (if n \<in> D then 2 else 1)"
  "m \<noteq> n \<Longrightarrow> uses D (H(n := x)) m = uses D H m"
  by (simp_all add: uses_def dom_def)

lemma uses_bound: "uses D H n + 1 \<noteq> 0"
  by (simp add: uses_def)

lemma cache_atD:
  assumes "cache_at p D H s"
  shows "fs_ready p s" "disk_ok s" "cache_ok s" "small_blocks s"
    "\<And>b n. stands_for (bufs s) b n \<Longrightarrow> refcnt (bufs s b) = uses D H n"
    "\<And>b n. stands_for (bufs s) b n \<Longrightarrow> n \<notin> dom H \<Longrightarrow> sl_locked (slocks s (SL_buf b)) = 0"
    "\<And>b n. H n = Some b \<Longrightarrow> held_buf p s b" "\<And>b n. H n = Some b \<Longrightarrow> stands_for (bufs s) b n"
    "\<And>b n. H n = Some b \<Longrightarrow> bvalid (bufs s b) \<noteq> 0"
    "\<And>b. b < NBUF \<Longrightarrow> bdev (bufs s b) \<noteq> ROOTDEV \<Longrightarrow> refcnt (bufs s b) = 0"
    "\<And>n. n \<in> D \<Longrightarrow> \<exists>b. stands_for (bufs s) b n \<and> bvalid (bufs s b) \<noteq> 0"
  using assms unfolding cache_at_def by blast+

lemma stands_for_unique:
  "cache_ok s \<Longrightarrow> stands_for (bufs s) i n \<Longrightarrow> stands_for (bufs s) j n \<Longrightarrow> i = j"
  unfolding cache_ok_def by blast

lemma stands_for_same: "stands_for bs i n \<Longrightarrow> stands_for bs i m \<Longrightarrow> n = m"
  by (simp add: stands_for_def)

text \<open>Fewer users than buffers: some buffer is unused.\<close>

lemma cache_at_avail:
  assumes c: "cache_at p D H s" and fin: "finite D" "finite (dom H)" and lt: "card (D \<union> dom H) < NBUF"
  shows "\<exists>i < NBUF. refcnt (bufs s i) = 0"
proof (rule ccontr)
  assume "\<not> (\<exists>i < NBUF. refcnt (bufs s i) = 0)"
  then have use: "stands_for (bufs s) i (blockno (bufs s i)) \<and> blockno (bufs s i) \<in> D \<union> dom H" if "i < NBUF" for i
    using that cache_atD(5,10) [OF c] by (cases "bdev (bufs s i) = ROOTDEV") (fastforce simp: stands_for_def)+
  have "inj_on (\<lambda>i. blockno (bufs s i)) {0..<NBUF}"
    using use stands_for_unique [OF cache_atD(3) [OF c]] by (auto simp: inj_on_def) metis
  moreover have "(\<lambda>i. blockno (bufs s i)) ` {0..<NBUF} \<subseteq> D \<union> dom H" using use by (intro image_subsetI) simp
  ultimately have "NBUF \<le> card (D \<union> dom H)"
    using fin card_inj_on_le [of "\<lambda>i. blockno (bufs s i)" "{0..<NBUF}" "D \<union> dom H"] by simp
  then show False using lt by simp
qed

lemma held_buf_base:
  "bio_base t = bio_base s \<Longrightarrow> slocks t (SL_buf b) = slocks s (SL_buf b) \<Longrightarrow> held_buf p t b = held_buf p s b"
  using bio_base_pid [of t s p] by (simp add: held_buf_def)

theorem bread_at:
  assumes c: "cache_at p D H s" and n: "n \<notin> dom H" "n < 0x80000000"
    and av: "n \<in> D \<or> (\<exists>i < NBUF. refcnt (bufs s i) = 0)"
  shows "\<exists>b t. bread ROOTDEV n s = Ok b t \<and> cache_at p D (H(n \<mapsto> b)) t \<and> bdata (bufs t b) = blk s n \<and>
    blk t = blk s \<and> sectors t = sectors s \<and> written t = written s \<and> bio_base t = bio_base s \<and>
    (\<forall>m a. H m = Some a \<longrightarrow> bufs t a = bufs s a)"
proof -
  note C = cache_atD [OF c]
  have rc: "refcnt (bufs s i) + 1 \<noteq> 0" if "i < NBUF" for i
    using C(5,10) that uses_bound by (cases "bdev (bufs s i) = ROOTDEV") (auto simp: stands_for_def)
  have un: "\<And>i. stands_for (bufs s) i n \<Longrightarrow> sl_locked (slocks s (SL_buf i)) = 0" using C(6) n(1) by blast
  have av': "(\<exists>i. stands_for (bufs s) i n) \<or> (\<exists>i < NBUF. refcnt (bufs s i) = 0)" using av C(11) by blast
  obtain b t where t: "bread ROOTDEV n s = Ok b t" "fs_ready p t" "disk_ok t" "cache_ok t" "bio_base t = bio_base s"
    "b < NBUF" "stands_for (bufs t) b n" "bvalid (bufs t b) \<noteq> 0" "bdata (bufs t b) = blk s n"
    "refcnt (bufs t b) = (if stands_for (bufs s) b n then refcnt (bufs s b) + 1 else 1)"
    "stands_for (bufs s) b n \<or> refcnt (bufs s b) = 0" "\<And>i. i \<noteq> b \<Longrightarrow> bufs t i = bufs s i"
    "slocks t = (slocks s)(SL_buf b := sl_take (pid (procs s p)) (slocks s (SL_buf b)))"
    "blk t = blk s" "sectors t = sectors s" "written t = written s"
    using bread_effect [OF C(1-3) un av' rc] by blast
  have st: "stands_for (bufs t) i m \<longleftrightarrow> (if i = b then m = n else stands_for (bufs s) i m)" for i m
  proof (cases "i = b")
    case True
    then show ?thesis using t(7) by (auto simp: stands_for_def)
  next
    case False
    then show ?thesis using t(12) [OF False] by (simp add: stands_for_def)
  qed
  have dn: "stands_for (bufs s) b n" if "n \<in> D"
  proof -
    obtain a where a: "stands_for (bufs s) a n" using C(11) \<open>n \<in> D\<close> by blast
    then have "a = b" using st [of a n] t(7) stands_for_unique [OF t(4)] by (cases "a = b") auto
    then show ?thesis using a by simp
  qed
  have hb: "a \<noteq> b \<and> m \<noteq> n" if "H m = Some a" for m a
  proof
    have m: "m \<in> dom H" using that by blast
    then show "m \<noteq> n" using n(1) by blast
    have "refcnt (bufs s a) \<noteq> 0" using C(5) [OF C(8) [OF that]] m by simp
    then show "a \<noteq> b" using t(11) C(8) [OF that] \<open>m \<noteq> n\<close> stands_for_same by blast
  qed
  have "\<forall>m a. (H(n \<mapsto> b)) m = Some a \<longrightarrow> held_buf p t a \<and> stands_for (bufs t) a m \<and> bvalid (bufs t a) \<noteq> 0"
  proof (intro allI impI)
    fix m a assume a: "(H(n \<mapsto> b)) m = Some a"
    show "held_buf p t a \<and> stands_for (bufs t) a m \<and> bvalid (bufs t a) \<noteq> 0"
    proof (cases "m = n")
      case True
      then show ?thesis using a t(6-8,13) bio_base_pid [OF t(5), of p] by (simp add: held_buf_def)
    next
      case False
      then have "H m = Some a" using a by simp
      then show ?thesis using hb C(7-9) st t(12,13) held_buf_base [OF t(5), of a p] by auto
    qed
  qed
  moreover have "\<exists>a. stands_for (bufs t) a m \<and> bvalid (bufs t a) \<noteq> 0" if "m \<in> D" for m
  proof (cases "m = n")
    case True
    then show ?thesis using t(7,8) by blast
  next
    case False
    obtain a where a: "stands_for (bufs s) a m" "bvalid (bufs s a) \<noteq> 0" using C(11) \<open>m \<in> D\<close> by blast
    have "refcnt (bufs s a) \<noteq> 0" using C(5) [OF a(1)] \<open>m \<in> D\<close> by simp
    then have "a \<noteq> b" using a(1) False t(11) stands_for_same by blast
    then show ?thesis using a st t(12) by metis
  qed
  moreover have "refcnt (bufs t a) = uses D (H(n \<mapsto> b)) m" "m \<notin> dom (H(n \<mapsto> b)) \<Longrightarrow> sl_locked (slocks t (SL_buf a)) = 0"
    if sa: "stands_for (bufs t) a m" for a m
  proof -
    show "refcnt (bufs t a) = uses D (H(n \<mapsto> b)) m"
    proof (cases "a = b")
      case True
      then show ?thesis using sa st t(10) dn C(5) [of b n] n(1) by (auto simp: uses_def)
    next
      case False
      then have "m \<noteq> n" using sa t(7) stands_for_unique [OF t(4)] by blast
      then show ?thesis using sa False st C(5) t(12) by simp
    qed
    show "sl_locked (slocks t (SL_buf a)) = 0" if "m \<notin> dom (H(n \<mapsto> b))"
      using that sa st C(6) t(13) by (cases "a = b") auto
  qed
  moreover have "refcnt (bufs t a) = 0" if "a < NBUF" "bdev (bufs t a) \<noteq> ROOTDEV" for a
    using that t(7,12) C(10) by (cases "a = b") (auto simp: stands_for_def)
  moreover have "small_blocks t" using C(4) st n(2) by (auto simp: small_blocks_def)
  ultimately have "cache_at p D (H(n \<mapsto> b)) t" using t(2-4) unfolding cache_at_def by blast
  then show ?thesis using t hb by (intro exI [of _ b] exI [of _ t]) auto
qed

text \<open>A change that keeps the identity of every buffer and adjusts the counts to new pins.\<close>

lemma cache_at_transfer:
  fixes s t :: "'x kdisk_scheme"
  assumes c: "cache_at p D H s" and t: "fs_ready p t" "disk_ok t" "cache_ok t" "bio_base t = bio_base s"
    and id: "\<And>i. bdev (bufs t i) = bdev (bufs s i)" "\<And>i. blockno (bufs t i) = blockno (bufs s i)"
      "\<And>i. bvalid (bufs t i) = bvalid (bufs s i)" "\<And>i. slocks t (SL_buf i) = slocks s (SL_buf i)"
    and rc: "\<And>i m. stands_for (bufs s) i m \<Longrightarrow> refcnt (bufs t i) = uses D' H m"
      "\<And>i. i < NBUF \<Longrightarrow> bdev (bufs s i) \<noteq> ROOTDEV \<Longrightarrow> refcnt (bufs t i) = refcnt (bufs s i)"
    and D': "\<And>n. n \<in> D' \<Longrightarrow> n \<in> D \<or> n \<in> dom H"
  shows "cache_at p D' H t"
proof -
  note C = cache_atD [OF c]
  have st: "stands_for (bufs t) i m = stands_for (bufs s) i m" for i m using id by (simp add: stands_for_def)
  have h: "held_buf p t b = held_buf p s b" for b using held_buf_base [OF t(4)] id(4) by blast
  have "\<exists>b. stands_for (bufs t) b n \<and> bvalid (bufs t b) \<noteq> 0" if "n \<in> D'" for n
    using D' [OF that] C(8,9,11) st id(3) by (metis domD)
  then show ?thesis
    using t C st h id rc unfolding cache_at_def small_blocks_def by simp
qed

theorem modify_at:
  fixes s :: "'x kdisk_scheme" and d :: "u8 list"
  assumes c: "cache_at p D H s" and b: "H n = Some b"
  defines "t \<equiv> s\<lparr>bufs := (bufs s)(b := (bufs s b)\<lparr>bdata := d\<rparr>)\<rparr>"
  shows "cache_at p D H t" "blk t m = (if m = n then d else blk s m)"
proof -
  note C = cache_atD [OF c]
  let ?y = "(bufs s b)\<lparr>bdata := d\<rparr>"
  have rc: "refcnt (bufs s b) \<noteq> 0" using C(5) [OF C(8) [OF b]] b by auto
  have f: "bufs t = (bufs s)(b := ?y)" "sectors t = sectors s" "slocks t = slocks s" by (simp_all add: t_def)
  have ok: "cache_ok t" by (rule in_use_upd(1) [OF C(3) f]) (use rc in simp_all)
  show "blk t m = (if m = n then d else blk s m)"
    using in_use_upd(2) [OF C(3) f _ _ _ _ _ _ C(8) [OF b], of m] rc C(9) [OF b] by simp
  show "cache_at p D H t"
    by (rule cache_at_transfer [OF c _ _ ok]) (use C in \<open>auto simp: t_def\<close>)
qed

theorem bwrite_at:
  fixes s :: "'x kdisk_scheme"
  assumes c: "cache_at p D H s" and b: "H n = Some b"
  shows "\<exists>t. bwrite b s = Ok () t \<and> cache_at p D H t \<and> sectors t = disk_store n (bdata (bufs s b)) (sectors s) \<and>
    written t = written s @ [(sector_of n, bdata (bufs s b))] \<and> (\<forall>m < 0x80000000. blk t m = blk s m) \<and>
    bio_base t = bio_base s \<and> (\<forall>a. bdata (bufs t a) = bdata (bufs s a))"
proof -
  note C = cache_atD [OF c]
  have rc: "refcnt (bufs s b) \<noteq> 0" using C(5) [OF C(8) [OF b]] b by auto
  obtain t where t: "bwrite b s = Ok () t" "fs_ready p t" "disk_ok t" "cache_ok t" "bio_base t = bio_base s" "slocks t = slocks s"
    "bufs t = (bufs s)(b := (bufs s b)\<lparr>bdisk := 0\<rparr>)" "sectors t = disk_store n (bdata (bufs s b)) (sectors s)"
    "written t = written s @ [(sector_of n, bdata (bufs s b))]" "\<forall>m < 0x80000000. blk t m = blk s m"
    using bwrite_effect [OF C(1-3) C(7) [OF b] C(8) [OF b] C(9) [OF b] rc C(4)] by blast
  have "cache_at p D H t" by (rule cache_at_transfer [OF c t(2-5)]) (use C t(6,7) in auto)
  then show ?thesis using t by (intro exI [of _ t]) simp
qed

theorem bunpin_at:
  fixes s :: "'x kdisk_scheme"
  assumes c: "cache_at p D H s" and b: "H n = Some b" "n \<in> D"
  shows "\<exists>t. bunpin b s = Ok () t \<and> cache_at p (D - {n}) H t \<and> sectors t = sectors s \<and> written t = written s \<and> blk t = blk s \<and>
    bio_base t = bio_base s \<and> (\<forall>a. bdata (bufs t a) = bdata (bufs s a))"
proof -
  note C = cache_atD [OF c]
  let ?y = "(bufs s b)\<lparr>refcnt := refcnt (bufs s b) - 1\<rparr>"
  let ?t = "(settle s)\<lparr>bufs := (bufs s)(b := ?y)\<rparr>"
  have rc: "refcnt (bufs s b) = 2" using C(5) [OF C(8) [OF b(1)]] b by (auto simp: uses_def)
  have f: "bufs ?t = (bufs s)(b := ?y)" "sectors ?t = sectors s" "slocks ?t = slocks s" by simp_all
  have ok: "cache_ok ?t" by (rule in_use_upd(1) [OF C(3) f]) (use rc in simp_all)
  have "blk ?t m = blk s m" for m
    using in_use_upd(2) [OF C(3) f _ _ _ _ _ _ C(8) [OF b(1)], of m] rc C(9) [OF b(1)] blk_cached [OF C(3) C(8,9) [OF b(1)]]
    by simp
  then have bl: "blk ?t = blk s" by (rule ext)
  have u: "refcnt (bufs ?t i) = uses (D - {n}) H m" if "stands_for (bufs s) i m" for i m
  proof (cases "m = n")
    case True
    then have "i = b" using that C(8) [OF b(1)] stands_for_unique [OF C(3)] by blast
    then show ?thesis using True rc b(1) by (auto simp: uses_def)
  next
    case False
    then have "i \<noteq> b" using that C(8) [OF b(1)] stands_for_same by blast
    then show ?thesis using False C(5) [OF that] by (simp add: uses_def)
  qed
  have sb: "bdev (bufs s b) = ROOTDEV" using C(8) [OF b(1)] by (simp add: stands_for_def)
  have "cache_at p (D - {n}) H ?t"
    by (rule cache_at_transfer [OF c _ _ ok _ _ _ _ _ u]) (use C(1,2) sb in \<open>auto simp: fun_upd_def\<close>)
  then show ?thesis using bpin_effect(2) [OF C(1), of b] bl by (intro exI [of _ ?t]) simp
qed

theorem bpin_at:
  fixes s :: "'x kdisk_scheme"
  assumes c: "cache_at p D H s" and b: "H n = Some b" "n \<notin> D"
  shows "\<exists>t. bpin b s = Ok () t \<and> cache_at p (insert n D) H t \<and> sectors t = sectors s \<and> written t = written s \<and> blk t = blk s \<and>
    bio_base t = bio_base s \<and> (\<forall>a. bdata (bufs t a) = bdata (bufs s a))"
proof -
  note C = cache_atD [OF c]
  let ?y = "(bufs s b)\<lparr>refcnt := refcnt (bufs s b) + 1\<rparr>"
  let ?t = "(settle s)\<lparr>bufs := (bufs s)(b := ?y)\<rparr>"
  have rc: "refcnt (bufs s b) = 1" using C(5) [OF C(8) [OF b(1)]] b by (auto simp: uses_def)
  have f: "bufs ?t = (bufs s)(b := ?y)" "sectors ?t = sectors s" "slocks ?t = slocks s" by simp_all
  have ok: "cache_ok ?t" by (rule in_use_upd(1) [OF C(3) f]) (use rc in simp_all)
  have "blk ?t m = blk s m" for m
    using in_use_upd(2) [OF C(3) f _ _ _ _ _ _ C(8) [OF b(1)], of m] rc C(9) [OF b(1)] blk_cached [OF C(3) C(8,9) [OF b(1)]]
    by simp
  then have bl: "blk ?t = blk s" by (rule ext)
  have u: "refcnt (bufs ?t i) = uses (insert n D) H m" if "stands_for (bufs s) i m" for i m
  proof (cases "m = n")
    case True
    then have "i = b" using that C(8) [OF b(1)] stands_for_unique [OF C(3)] by blast
    then show ?thesis using True rc b(1) by (auto simp: uses_def)
  next
    case False
    then have "i \<noteq> b" using that C(8) [OF b(1)] stands_for_same by blast
    then show ?thesis using False C(5) [OF that] by (simp add: uses_def)
  qed
  have sb: "bdev (bufs s b) = ROOTDEV" using C(8) [OF b(1)] by (simp add: stands_for_def)
  have "cache_at p (insert n D) H ?t"
    by (rule cache_at_transfer [OF c _ _ ok _ _ _ _ _ u]) (use C(1,2) sb b(1) in \<open>auto simp: fun_upd_def\<close>)
  then show ?thesis using bpin_effect(1) [OF C(1), of b] bl by (intro exI [of _ ?t]) simp
qed

theorem brelse_at:
  fixes s :: "'x kdisk_scheme"
  assumes c: "cache_at p D H s" and b: "H n = Some b"
    and cl: "n \<in> D \<or> bdata (bufs s b) = disk_block (sectors s) n"
  shows "\<exists>t. brelse b s = Ok () t \<and> cache_at p D (H(n := None)) t \<and> sectors t = sectors s \<and> written t = written s \<and>
    blk t = blk s \<and> bio_base t = bio_base s \<and> (\<forall>a. bdata (bufs t a) = bdata (bufs s a))"
proof -
  note C = cache_atD [OF c]
  have sb: "stands_for (bufs s) b n" by (rule C(8) [OF b])
  have rc: "refcnt (bufs s b) = (if n \<in> D then 2 else 1)" using C(5) [OF sb] b by (auto simp: uses_def)
  have clean: "bdata (bufs s b) = disk_block (sectors s) m"
    if "refcnt (bufs s b) = 1" "stands_for (bufs s) b m" for m
    using that cl rc stands_for_same [OF sb that(2)] by (auto split: if_splits)
  have rc0: "refcnt (bufs s b) \<noteq> 0" using rc by simp
  have "\<exists>t. brelse b s = Ok () t \<and> fs_ready p t \<and> disk_ok t \<and> cache_ok t \<and> bio_base t = bio_base s \<and>
    slocks t = (slocks s)(SL_buf b := sl_drop (slocks s (SL_buf b))) \<and>
    buf_core (bufs t b) = buf_core ((bufs s b)\<lparr>refcnt := refcnt (bufs s b) - 1\<rparr>) \<and>
    (\<forall>i. i \<noteq> b \<longrightarrow> buf_core (bufs t i) = buf_core (bufs s i)) \<and> sectors t = sectors s \<and> written t = written s \<and> blk t = blk s"
    using brelse_effect [OF C(1-3) C(7) [OF b] rc0] clean by blast
  then obtain t where t: "brelse b s = Ok () t" "fs_ready p t" "disk_ok t" "cache_ok t" "bio_base t = bio_base s"
    "slocks t = (slocks s)(SL_buf b := sl_drop (slocks s (SL_buf b)))"
    "buf_core (bufs t b) = buf_core ((bufs s b)\<lparr>refcnt := refcnt (bufs s b) - 1\<rparr>)"
    "\<And>i. i \<noteq> b \<Longrightarrow> buf_core (bufs t i) = buf_core (bufs s i)" "sectors t = sectors s" "written t = written s" "blk t = blk s"
    by blast
  have fld: "bdev (bufs t i) = bdev (bufs s i)" "blockno (bufs t i) = blockno (bufs s i)" "bvalid (bufs t i) = bvalid (bufs s i)"
    "bdata (bufs t i) = bdata (bufs s i)" "refcnt (bufs t i) = (if i = b then refcnt (bufs s b) - 1 else refcnt (bufs s i))" for i
    using buf_core_fields [OF t(7)] buf_core_fields [OF t(8) [of i]] by (cases "i = b"; simp)+
  have st: "stands_for (bufs t) i m = stands_for (bufs s) i m" for i m using fld by (simp add: stands_for_def)
  have hb: "held_buf p t a" "stands_for (bufs t) a m" "bvalid (bufs t a) \<noteq> 0" if "(H(n := None)) m = Some a" for m a
  proof -
    have m: "m \<noteq> n" "H m = Some a" using that by (auto split: if_splits)
    then have "a \<noteq> b" using C(8) [OF m(2)] sb stands_for_same by blast
    then show "held_buf p t a" using C(7) [OF m(2)] held_buf_base [OF t(5), of a p] t(6) by simp
    show "stands_for (bufs t) a m" "bvalid (bufs t a) \<noteq> 0" using C(8,9) [OF m(2)] st fld(3) by simp_all
  qed
  have u: "refcnt (bufs t i) = uses D (H(n := None)) m" "m \<notin> dom (H(n := None)) \<Longrightarrow> sl_locked (slocks t (SL_buf i)) = 0"
    if "stands_for (bufs s) i m" for i m
  proof -
    show "refcnt (bufs t i) = uses D (H(n := None)) m"
    proof (cases "m = n")
      case True
      then have "i = b" using that sb stands_for_unique [OF C(3)] by blast
      then show ?thesis using True rc fld(5) by (simp add: uses_def)
    next
      case False
      then have "i \<noteq> b" using that sb stands_for_same by blast
      then show ?thesis using False C(5) [OF that] fld(5) by (simp add: uses_def)
    qed
    show "sl_locked (slocks t (SL_buf i)) = 0" if "m \<notin> dom (H(n := None))"
    proof (cases "i = b")
      case True
      then show ?thesis using t(6) by (simp add: sl_drop_def)
    next
      case False
      then have "m \<noteq> n" using \<open>stands_for (bufs s) i m\<close> sb stands_for_unique [OF C(3)] by blast
      then have "m \<notin> dom H" using that by simp
      then show ?thesis using C(6) [OF \<open>stands_for (bufs s) i m\<close>] t(6) False by simp
    qed
  qed
  have "cache_at p D (H(n := None)) t" unfolding cache_at_def
  proof (intro conjI t(2-4))
    show "small_blocks t" using C(4) st by (simp add: small_blocks_def)
    show "\<forall>m a. (H(n := None)) m = Some a \<longrightarrow> held_buf p t a \<and> stands_for (bufs t) a m \<and> bvalid (bufs t a) \<noteq> 0"
      using hb by blast
    show "\<forall>m\<in>D. \<exists>a. stands_for (bufs t) a m \<and> bvalid (bufs t a) \<noteq> 0" using C(11) st fld(3) by simp
    show "\<forall>a m. stands_for (bufs t) a m \<longrightarrow> refcnt (bufs t a) = uses D (H(n := None)) m \<and> (m \<notin> dom (H(n := None)) \<longrightarrow> sl_locked (slocks t (SL_buf a)) = 0)"
      using u st by blast
    show "\<forall>a<NBUF. bdev (bufs t a) \<noteq> ROOTDEV \<longrightarrow> refcnt (bufs t a) = 0"
      using C(10) fld(1,5) sb by (simp add: stands_for_def)
  qed
  then show ?thesis using t fld(4) by (intro exI [of _ t]) simp
qed

end
