(* ===== verification/Xv6_Recovery.thy ===== *)
theory Xv6_Recovery
  imports Xv6_Log
begin

text \<open>
  Crash safety of the write-ahead log. An abstract redo log is a list of block writes and a recovery
  function on the contents of the disk; its atomicity is proved once, for every header encoding
  that can be read back. The rest of the theory shows that \<open>commit\<close> and \<open>recover_from_log\<close> of log.c
  perform exactly these writes and this recovery.
\<close>

section \<open>The abstract redo log\<close>

text \<open>The disk as a function from block addresses to contents; writes are applied in order.\<close>

definition redo_apply :: "('b \<times> 'd) list \<Rightarrow> ('b \<Rightarrow> 'd) \<Rightarrow> 'b \<Rightarrow> 'd" where
  "redo_apply ws f = fold (\<lambda>(a, d) g. g(a := d)) ws f"

text \<open>Committing the blocks \<open>bs\<close> with contents \<open>v\<close>: log, header, home locations, empty header.\<close>

definition redo_commit :: "'b \<Rightarrow> (nat \<Rightarrow> 'b) \<Rightarrow> ('b list \<Rightarrow> 'd \<Rightarrow> 'd) \<Rightarrow> 'b list \<Rightarrow> ('b \<Rightarrow> 'd) \<Rightarrow> 'd \<Rightarrow> ('b \<times> 'd) list" where
  "redo_commit hdr slot enc bs v d =
     map (\<lambda>i. (slot i, v (bs ! i))) [0..<length bs] @ [(hdr, enc bs d)] @ map (\<lambda>b. (b, v b)) bs @ [(hdr, enc [] (enc bs d))]"

definition redo_install :: "(nat \<Rightarrow> 'b) \<Rightarrow> 'b list \<Rightarrow> ('b \<Rightarrow> 'd) \<Rightarrow> ('b \<times> 'd) list" where
  "redo_install slot bs f = map (\<lambda>i. (bs ! i, f (slot i))) [0..<length bs]"

definition redo_recover :: "'b \<Rightarrow> (nat \<Rightarrow> 'b) \<Rightarrow> ('b list \<Rightarrow> 'd \<Rightarrow> 'd) \<Rightarrow> ('d \<Rightarrow> 'b list) \<Rightarrow> ('b \<Rightarrow> 'd) \<Rightarrow> 'b \<Rightarrow> 'd" where
  "redo_recover hdr slot enc dec f =
     redo_apply (redo_install slot (dec (f hdr)) f @ [(hdr, enc [] (f hdr))]) f"

lemma redo_apply_simps [simp]:
  "redo_apply [] f = f" "redo_apply ((a, d) # ws) f = redo_apply ws (f(a := d))"
  "redo_apply (xs @ ys) f = redo_apply ys (redo_apply xs f)"
  by (simp_all add: redo_apply_def)

lemma redo_apply_other: "m \<notin> fst ` set ws \<Longrightarrow> redo_apply ws f m = f m"
proof (induction ws arbitrary: f)
  case (Cons w ws)
  then show ?case by (cases w) simp
qed simp

lemma redo_apply_map:
  assumes "\<And>x y. x \<in> set xs \<Longrightarrow> y \<in> set xs \<Longrightarrow> a x = a y \<Longrightarrow> d x = d y" and "x \<in> set xs"
  shows "redo_apply (map (\<lambda>x. (a x, d x)) xs) f (a x) = d x"
  using assms
proof (induction xs arbitrary: f x)
  case (Cons y xs)
  show ?case
  proof (cases "a x \<in> a ` set xs")
    case True
    then obtain z where z: "z \<in> set xs" "a x = a z" by blast
    have "redo_apply (map (\<lambda>x. (a x, d x)) xs) (f(a y := d y)) (a z) = d z"
      using Cons.prems(1) z(1) by (intro Cons.IH) auto
    moreover have "d x = d z" using Cons.prems(1) [of x z] Cons.prems(2) z by simp
    ultimately show ?thesis using z by simp
  next
    case False
    then have xy: "x = y" using Cons.prems(2) by auto
    have "redo_apply (map (\<lambda>x. (a x, d x)) xs) (f(a y := d y)) (a x) = (f(a y := d y)) (a x)"
      using False by (intro redo_apply_other) (auto simp: image_image)
    then show ?thesis using xy by simp
  qed
qed simp

locale redo_log =
  fixes enc :: "'b list \<Rightarrow> 'd \<Rightarrow> 'd" and dec :: "'d \<Rightarrow> 'b list" and cap :: nat and wf :: "'d \<Rightarrow> bool"
  assumes dec_enc: "wf d \<Longrightarrow> length bs \<le> cap \<Longrightarrow> dec (enc bs d) = bs"
    and wf_enc: "wf d \<Longrightarrow> wf (enc bs d)"
begin

text \<open>
  A crash after any number of the writes of a commit, followed by recovery: every block outside the
  log has its old contents if the header had not been written yet, and its new contents otherwise.
\<close>

lemma crash_atomic:
  assumes len: "length bs \<le> cap" and dist: "distinct bs" and wf: "wf (f hdr)" and clear: "dec (f hdr) = []"
    and slots: "inj_on slot {0..<length bs}" "hdr \<notin> slot ` {0..<length bs}" "hdr \<notin> set bs" "set bs \<inter> slot ` {0..<length bs} = {}"
    and m: "m \<noteq> hdr" "m \<notin> slot ` {0..<length bs}"
  shows "redo_recover hdr slot enc dec (redo_apply (take k (redo_commit hdr slot enc bs v (f hdr))) f) m =
    (if k \<le> length bs \<or> m \<notin> set bs then f m else v m)"
proof -
  let ?n = "length bs" and ?L = "map (\<lambda>i. (slot i, v (bs ! i))) [0..<length bs]" and ?B = "map (\<lambda>b. (b, v b)) bs"
  let ?g = "redo_apply (take k (redo_commit hdr slot enc bs v (f hdr))) f"
  consider "k \<le> ?n" | "?n < k" "k \<le> 2 * ?n + 1" | "2 * ?n + 2 \<le> k" by linarith
  then show ?thesis
  proof cases
    case 1
    then have "take k (redo_commit hdr slot enc bs v (f hdr)) = take k ?L" by (simp add: redo_commit_def)
    moreover have "fst ` set (take k ?L) \<subseteq> slot ` {0..<?n}" using image_mono [OF set_take_subset [of k ?L], of fst] by auto
    ultimately have keep: "?g x = f x" if "x \<notin> slot ` {0..<?n}" for x using that by (auto intro!: redo_apply_other)
    have "dec (?g hdr) = []" using keep slots(2) clear by simp
    then show ?thesis using 1 keep m by (simp add: redo_recover_def redo_install_def)
  next
    case 2
    then have tk: "take k (redo_commit hdr slot enc bs v (f hdr)) = ?L @ (hdr, enc bs (f hdr)) # take (k - ?n - 1) ?B"
      by (simp add: redo_commit_def take_Cons')
    let ?ws = "take (k - ?n - 1) ?B" and ?h = "(redo_apply ?L f)(hdr := enc bs (f hdr))"
    have sub: "fst ` set ?ws \<subseteq> set bs" using image_mono [OF set_take_subset [of "k - ?n - 1" ?B], of fst] by (auto simp: image_image)
    have g: "?g = redo_apply ?ws ?h" by (simp add: tk)
    have keep: "?g x = ?h x" if "x \<notin> set bs" for x using that sub unfolding g by (intro redo_apply_other) blast
    have hd: "?g hdr = enc bs (f hdr)" using keep slots(3) by simp
    then have dc: "dec (?g hdr) = bs" using dec_enc wf len by simp
    have sl: "?g (slot i) = v (bs ! i)" if i: "i < ?n" for i
    proof -
      have "redo_apply ?L f (slot i) = v (bs ! i)"
        by (rule redo_apply_map) (use i slots(1) in \<open>auto dest: inj_onD\<close>)
      moreover have "slot i \<notin> set bs" "slot i \<noteq> hdr" using i slots(2,4) by auto
      ultimately show ?thesis using keep by simp
    qed
    have ins: "redo_install slot bs ?g = map (\<lambda>i. (bs ! i, v (bs ! i))) [0..<?n]" by (simp add: redo_install_def sl)
    have rec: "redo_recover hdr slot enc dec ?g m = redo_apply (map (\<lambda>i. (bs ! i, v (bs ! i))) [0..<?n]) ?g m"
      using dc ins m by (simp add: redo_recover_def)
    show ?thesis
    proof (cases "m \<in> set bs")
      case True
      then obtain i where i: "i < ?n" "m = bs ! i" by (metis in_set_conv_nth)
      then have "redo_apply (map (\<lambda>i. (bs ! i, v (bs ! i))) [0..<?n]) ?g (bs ! i) = v (bs ! i)"
        by (intro redo_apply_map) (use dist in simp_all)
      then show ?thesis using rec i 2 by simp
    next
      case False
      then have "redo_apply (map (\<lambda>i. (bs ! i, v (bs ! i))) [0..<?n]) ?g m = ?g m"
        by (intro redo_apply_other) auto
      moreover have "redo_apply ?L f m = f m" using m(2) by (intro redo_apply_other) auto
      ultimately show ?thesis using rec keep False m(1) by simp
    qed
  next
    case 3
    then have tk: "take k (redo_commit hdr slot enc bs v (f hdr)) = redo_commit hdr slot enc bs v (f hdr)"
      by (simp add: redo_commit_def)
    let ?h = "(redo_apply ?L f)(hdr := enc bs (f hdr))"
    have g: "?g = (redo_apply ?B ?h)(hdr := enc [] (enc bs (f hdr)))" unfolding tk by (simp add: redo_commit_def)
    then have "dec (?g hdr) = []" using dec_enc wf wf_enc by simp
    then have rec: "redo_recover hdr slot enc dec ?g m = redo_apply ?B ?h m" using m g by (simp add: redo_recover_def redo_install_def)
    show ?thesis
    proof (cases "m \<in> set bs")
      case True
      then have "redo_apply ?B ?h m = v m" by (intro redo_apply_map [of bs "\<lambda>b. b" v, simplified])
      then show ?thesis using rec True 3 by simp
    next
      case False
      then have "redo_apply ?B ?h m = ?h m" by (intro redo_apply_other) (auto simp: image_image)
      moreover have "redo_apply ?L f m = f m" using m(2) by (intro redo_apply_other) auto
      ultimately show ?thesis using rec False m(1) by simp
    qed
  qed
qed

text \<open>The header a crash leaves is empty or complete.\<close>

lemma crash_header:
  assumes len: "length bs \<le> cap" and wf: "wf (f hdr)" and clear: "dec (f hdr) = []"
    and slots: "hdr \<notin> slot ` {0..<length bs}" "hdr \<notin> set bs"
  shows "dec (redo_apply (take k (redo_commit hdr slot enc bs v (f hdr))) f hdr) \<in> {[], bs}"
proof -
  let ?n = "length bs" and ?L = "map (\<lambda>i. (slot i, v (bs ! i))) [0..<length bs]" and ?B = "map (\<lambda>b. (b, v b)) bs"
  have keepL: "redo_apply (take j ?L) g hdr = g hdr" for j g
    using slots(1) by (intro redo_apply_other) (auto dest!: in_set_takeD)
  have keepB: "redo_apply (take j ?B) g hdr = g hdr" for j g
    using slots(2) by (intro redo_apply_other) (auto dest!: in_set_takeD)
  have L: "redo_apply ?L g hdr = g hdr" and B: "redo_apply ?B g hdr = g hdr" for g using keepL [of ?n g] keepB [of ?n g] by simp_all
  consider "k \<le> ?n" | "?n < k" "k \<le> 2 * ?n + 1" | "2 * ?n + 2 \<le> k" by linarith
  then show ?thesis
  proof cases
    case 1
    then have "take k (redo_commit hdr slot enc bs v (f hdr)) = take k ?L" by (simp add: redo_commit_def)
    then show ?thesis using keepL clear by simp
  next
    case 2
    then have "take k (redo_commit hdr slot enc bs v (f hdr)) = ?L @ (hdr, enc bs (f hdr)) # take (k - ?n - 1) ?B"
      by (simp add: redo_commit_def take_Cons')
    then show ?thesis using keepB dec_enc wf len by simp
  next
    case 3
    then have "take k (redo_commit hdr slot enc bs v (f hdr)) = redo_commit hdr slot enc bs v (f hdr)" by (simp add: redo_commit_def)
    then show ?thesis using dec_enc [of "enc bs (f hdr)" "[]"] wf wf_enc by (simp add: redo_commit_def)
  qed
qed

text \<open>Recovery leaves the log empty, so that it can be repeated.\<close>

lemma recover_clears:
  "wf (f hdr) \<Longrightarrow> dec (redo_recover hdr slot enc dec f hdr) = [] \<and> wf (redo_recover hdr slot enc dec f hdr)"
  using dec_enc [of "f hdr" "[]"] wf_enc by (simp add: redo_recover_def)

lemma recover_idem:
  assumes "wf (f hdr)" "m \<noteq> hdr"
  shows "redo_recover hdr slot enc dec (redo_recover hdr slot enc dec f) m = redo_recover hdr slot enc dec f m"
  using recover_clears [of f hdr slot] assms
  by (simp add: redo_recover_def [of hdr slot enc dec "redo_recover hdr slot enc dec f"] redo_install_def)

end

section \<open>The header block\<close>

definition log_enc :: "u32 list \<Rightarrow> u8 list \<Rightarrow> u8 list" where
  "log_enc bs d = fold (\<lambda>i. wr32 (4 + 4 * i) (bs ! i)) [0..<length bs] (wr32 0 (word_of_int (int (length bs))) d)"

definition log_dec :: "u8 list \<Rightarrow> u32 list" where
  "log_dec d = map (\<lambda>i. rd32 (4 + 4 * i) d) [0..<nat (sint (rd32 0 d))]"

lemma length_fold_wr32 [simp]: "length (fold (\<lambda>i. wr32 (off i) (w i)) is d) = length d"
  by (induction "is" arbitrary: d) simp_all

lemma length_log_enc [simp]: "length (log_enc bs d) = length d"
  by (simp add: log_enc_def)

lemma rd32_fold_other:
  "(\<And>i. i \<in> set is \<Longrightarrow> k + 4 \<le> off i \<or> off i + 4 \<le> k) \<Longrightarrow> rd32 k (fold (\<lambda>i. wr32 (off i) (w i)) is d) = rd32 k d"
  by (induction "is" arbitrary: d) simp_all

lemma rd32_fold_array:
  "i < n \<Longrightarrow> 4 + 4 * n \<le> length d \<Longrightarrow> rd32 (4 + 4 * i) (fold (\<lambda>i. wr32 (4 + 4 * i) (w i)) [0..<n] d) = w i"
proof (induction n)
  case (Suc n)
  then show ?case by (cases "i = n") simp_all
qed simp

lemma sint_small_u32: "0 \<le> k \<Longrightarrow> k < 2 ^ 31 \<Longrightarrow> sint (word_of_int k :: u32) = k"
  unfolding signed_of_int by (simp add: signed_take_bit_int_eq_self)

lemma log_dec_enc:
  assumes "length d = BSIZE" "length bs \<le> LOGBLOCKS"
  shows "log_dec (log_enc bs d) = bs"
proof -
  have n: "length bs \<le> 30" "length d = 1024" using assms by (simp_all add: LOGBLOCKS_def MAXOPBLOCKS_def BSIZE_def)
  have "rd32 0 (log_enc bs d) = word_of_int (int (length bs))" using n by (simp add: log_enc_def rd32_fold_other)
  moreover have "sint (word_of_int (int (length bs)) :: u32) = int (length bs)"
    using n by (intro sint_small_u32) simp_all
  ultimately have "nat (sint (rd32 0 (log_enc bs d))) = length bs" by simp
  then have "log_dec (log_enc bs d) = map (\<lambda>i. rd32 (4 + 4 * i) (log_enc bs d)) [0..<length bs]" by (simp add: log_dec_def)
  also have "\<dots> = map (\<lambda>i. bs ! i) [0..<length bs]" using n by (simp add: log_enc_def rd32_fold_array)
  finally show ?thesis by (simp add: map_nth)
qed

interpretation log_header: redo_log log_enc log_dec LOGBLOCKS "\<lambda>d. length d = BSIZE"
  by unfold_locales (simp_all add: log_dec_enc)

section \<open>The disk and the cache as functions of the block number\<close>

text \<open>
  Blocks below \<open>2 ^ 31\<close>, whose sector number does not overflow in \<open>virtio_disk_rw\<close>: what is on the disk,
  and what a reader sees.
\<close>

definition disk_map :: "(u64 \<Rightarrow> u8 list) \<Rightarrow> u32 \<Rightarrow> u8 list" where
  "disk_map sec n = (if n < 0x80000000 then disk_block sec n else [])"

definition blk_map :: "'x kdisk_scheme \<Rightarrow> u32 \<Rightarrow> u8 list" where
  "blk_map s n = (if n < 0x80000000 then blk s n else [])"

definition write_blocks :: "(u32 \<times> u8 list) list \<Rightarrow> (u64 \<Rightarrow> u8 list) \<Rightarrow> u64 \<Rightarrow> u8 list" where
  "write_blocks ws sec = fold (\<lambda>(n, d). disk_store n d) ws sec"

text \<open>The block writes that reached the disk between two states, in order.\<close>

definition wrote :: "(u32 \<times> u8 list) list \<Rightarrow> 'x kdisk_scheme \<Rightarrow> 'x kdisk_scheme \<Rightarrow> bool" where
  "wrote ws s t \<longleftrightarrow> written t = written s @ map (\<lambda>(n, d). (sector_of n, d)) ws \<and> sectors t = write_blocks ws (sectors s)"

lemma write_blocks_simps [simp]:
  "write_blocks [] sec = sec" "write_blocks (xs @ ys) sec = write_blocks ys (write_blocks xs sec)"
  "write_blocks ((n, d) # xs) sec = write_blocks xs (disk_store n d sec)"
  by (simp_all add: write_blocks_def)

lemma wrote_refl [simp]: "wrote [] s t \<longleftrightarrow> written t = written s \<and> sectors t = sectors s"
  by (simp add: wrote_def)

lemma wrote_trans: "wrote xs s t \<Longrightarrow> wrote ys t u \<Longrightarrow> wrote (xs @ ys) s u"
  by (simp add: wrote_def)

lemma disk_map_store: "n < 0x80000000 \<Longrightarrow> disk_map (disk_store n d sec) = (disk_map sec)(n := d)"
  by (rule ext) (auto simp: disk_map_def disk_block_store)

lemma disk_map_write_blocks:
  "\<forall>n \<in> fst ` set ws. n < 0x80000000 \<Longrightarrow> disk_map (write_blocks ws sec) = redo_apply ws (disk_map sec)"
proof (induction ws arbitrary: sec)
  case (Cons w ws)
  then show ?case by (cases w) (simp add: disk_map_store)
qed simp

lemma blk_map_eq: "(\<forall>m < 0x80000000. blk t m = blk s m) \<Longrightarrow> blk_map t = blk_map s"
  by (rule ext) (simp add: blk_map_def)

text \<open>A held buffer holds its block; a block that is neither held nor pinned is clean.\<close>

lemma held_data: "cache_at p D H s \<Longrightarrow> H n = Some b \<Longrightarrow> bdata (bufs s b) = blk s n"
  using blk_cached cache_atD(3,8,9) by metis

lemma clean_at:
  assumes "cache_at p D H s" "n \<notin> D" "n \<notin> dom H"
  shows "blk s n = disk_block (sectors s) n"
proof (cases "\<exists>i. stands_for (bufs s) i n \<and> bvalid (bufs s i) \<noteq> 0")
  case True
  then obtain i where i: "stands_for (bufs s) i n" "bvalid (bufs s i) \<noteq> 0" by blast
  have "refcnt (bufs s i) = 0" using cache_atD(5) [OF assms(1) i(1)] assms(2,3) by (simp add: uses_def)
  then show ?thesis using blk_cached [OF cache_atD(3) [OF assms(1)] i] i cache_atD(3) [OF assms(1)]
    unfolding cache_ok_def by metis
next
  case False
  then show ?thesis by (intro blk_uncached) blast
qed

text \<open>
  One step of an operation on the cache: the blocks pinned and held afterwards, the block writes it
  made and the contents readers see; everything but the cache and the disk is as before.
\<close>

definition cache_step ::
  "nat \<Rightarrow> u32 set \<Rightarrow> (u32 \<rightharpoonup> nat) \<Rightarrow> (u32 \<times> u8 list) list \<Rightarrow> (u32 \<Rightarrow> u8 list) \<Rightarrow> 'x kdisk_scheme \<Rightarrow> 'x kdisk_scheme \<Rightarrow> bool" where
  "cache_step p D H ws f s t \<longleftrightarrow> cache_at p D H t \<and> wrote ws s t \<and> blk_map t = f \<and> bio_base t = bio_base s"

lemma cache_stepD:
  assumes "cache_step p D H ws f s t"
  shows "cache_at p D H t" "wrote ws s t" "blk_map t = f" "bio_base t = bio_base s"
  using assms by (simp_all add: cache_step_def)

lemma cache_step_trans:
  "cache_step p D H xs f s t \<Longrightarrow> cache_step p D' H' ys g t u \<Longrightarrow> cache_step p D' H' (xs @ ys) g s u"
  using wrote_trans [of xs s t ys u] by (simp add: cache_step_def)

lemma held_small: "cache_at p D H s \<Longrightarrow> H n = Some b \<Longrightarrow> n < 0x80000000"
  using cache_atD(4,8) unfolding small_blocks_def by blast

lemma bread_step:
  assumes c: "cache_at p D H s" and n: "n \<notin> dom H" "n < 0x80000000" and fin: "finite D" "finite (dom H)"
    and av: "n \<in> D \<or> card (D \<union> dom H) < NBUF"
  shows "\<exists>b t. bread ROOTDEV n s = Ok b t \<and> cache_step p D (H(n \<mapsto> b)) [] (blk_map s) s t"
proof -
  have "n \<in> D \<or> (\<exists>i < NBUF. refcnt (bufs s i) = 0)" using av cache_at_avail [OF c fin] by blast
  from bread_at [OF c n this] obtain b t where "bread ROOTDEV n s = Ok b t" "cache_at p D (H(n \<mapsto> b)) t" "blk t = blk s"
    "sectors t = sectors s" "written t = written s" "bio_base t = bio_base s" by blast
  then show ?thesis by (intro exI [of _ b] exI [of _ t]) (simp add: cache_step_def blk_map_eq)
qed

lemma modify_step:
  assumes c: "cache_at p D H s" and b: "H n = Some b"
  shows "cache_step p D H [] ((blk_map s)(n := d)) s (s\<lparr>bufs := (bufs s)(b := (bufs s b)\<lparr>bdata := d\<rparr>)\<rparr>)"
  using modify_at [OF c b] held_small [OF c b] by (auto simp: cache_step_def blk_map_def fun_eq_iff)

lemma bwrite_step:
  assumes c: "cache_at p D H s" and b: "H n = Some b"
  shows "\<exists>t. bwrite b s = Ok () t \<and> cache_step p D H [(n, blk_map s n)] (blk_map s) s t"
  using bwrite_at [OF c b] held_small [OF c b] held_data [OF c b] blk_map_eq
  by (fastforce simp: cache_step_def wrote_def blk_map_def)

lemma bunpin_step:
  assumes c: "cache_at p D H s" and b: "H n = Some b" "n \<in> D"
  shows "\<exists>t. bunpin b s = Ok () t \<and> cache_step p (D - {n}) H [] (blk_map s) s t"
  using bunpin_at [OF c b] by (auto simp: cache_step_def blk_map_eq)

lemma bpin_step:
  assumes c: "cache_at p D H s" and b: "H n = Some b" "n \<notin> D"
  shows "\<exists>t. bpin b s = Ok () t \<and> cache_step p (insert n D) H [] (blk_map s) s t"
  using bpin_at [OF c b] by (auto simp: cache_step_def blk_map_eq)

lemma brelse_step:
  assumes c: "cache_at p D H s" and b: "H n = Some b" and cl: "n \<in> D \<or> disk_map (sectors s) n = blk_map s n"
  shows "\<exists>t. brelse b s = Ok () t \<and> cache_step p D (H(n := None)) [] (blk_map s) s t"
proof -
  have "n \<in> D \<or> bdata (bufs s b) = disk_block (sectors s) n"
    using cl held_small [OF c b] held_data [OF c b] by (auto simp: disk_map_def blk_map_def)
  from brelse_at [OF c b this] show ?thesis by (auto simp: cache_step_def blk_map_eq)
qed

lemma clean_step: "cache_at p D H s \<Longrightarrow> n \<notin> D \<Longrightarrow> n \<notin> dom H \<Longrightarrow> disk_map (sectors s) n = blk_map s n"
  using clean_at [of p D H s n] by (simp add: disk_map_def blk_map_def)

section \<open>Copying blocks between the log and their homes\<close>

lemma bio_base_log:
  fixes s t :: "'x klog_scheme"
  assumes "bio_base t = bio_base s"
  shows "log_dev t = log_dev s" "log_start t = log_start s" "lh_n t = lh_n s" "lh_block t = lh_block s"
    "outstanding t = outstanding s" "committing t = committing s" "ncommit t = ncommit s"
  using arg_cong [OF assms, of log_dev] arg_cong [OF assms, of log_start] arg_cong [OF assms, of lh_n]
    arg_cong [OF assms, of lh_block] arg_cong [OF assms, of outstanding] arg_cong [OF assms, of committing] arg_cong [OF assms, of ncommit]
  by (simp_all add: bio_base_def disk_base_def settle_def)

text \<open>Both loops read a pair of blocks, copy one over the other and write it.\<close>

lemma copy_step:
  assumes c: "cache_at p D H s" and x: "H a = Some x" and y: "H d = Some y"
  shows "\<exists>u t. copy_buf y x s = Ok () u \<and> bwrite y u = Ok () t \<and>
    cache_step p D H [(d, blk_map s a)] ((blk_map s)(d := blk_map s a)) s t"
proof -
  let ?u = "s\<lparr>bufs := (bufs s)(y := (bufs s y)\<lparr>bdata := bdata (bufs s x)\<rparr>)\<rparr>"
  have bx: "bdata (bufs s x) = blk_map s a" using held_data [OF c x] held_small [OF c x] by (simp add: blk_map_def)
  then have u: "cache_step p D H [] ((blk_map s)(d := blk_map s a)) s ?u" using modify_step [OF c y, of "bdata (bufs s x)"] by simp
  obtain t where t: "bwrite y ?u = Ok () t" "cache_step p D H [(d, blk_map ?u d)] (blk_map ?u) ?u t"
    using bwrite_step [OF cache_stepD(1) [OF u] y] by blast
  have "copy_buf y x s = Ok () ?u" by (simp add: copy_buf_def get_buf_def upd_buf_def)
  then show ?thesis using t cache_step_trans [OF u t(2)] cache_stepD(3) [OF u] by auto
qed

lemma wrote_disk_map:
  "wrote ws s t \<Longrightarrow> \<forall>n \<in> fst ` set ws. n < 0x80000000 \<Longrightarrow> disk_map (sectors t) = redo_apply ws (disk_map (sectors s))"
  by (simp add: wrote_def disk_map_write_blocks)

lemma write_log_one_step:
  assumes c: "cache_at p D Map.empty s" and D: "finite D" "card D < NBUF" and dev: "log_dev s = ROOTDEV"
    and a: "log_start s + of_nat i + 1 = a" "a < 0x80000000" "a \<notin> D" and d: "lh_block s i = d" "d \<in> D"
  shows "\<exists>t. write_log_one i s = Ok () t \<and> cache_step p D Map.empty [(a, blk_map s d)] ((blk_map s)(a := blk_map s d)) s t"
proof -
  have dsm: "d < 0x80000000" using cache_atD(4,11) [OF c] d(2) unfolding small_blocks_def by blast
  have ne: "a \<noteq> d" using a d by blast
  obtain x u where x: "bread ROOTDEV a s = Ok x u" "cache_step p D [a \<mapsto> x] [] (blk_map s) s u"
    using bread_step [OF c _ a(2) D(1)] D(2) by auto
  obtain y v where y: "bread ROOTDEV d u = Ok y v" "cache_step p D [a \<mapsto> x, d \<mapsto> y] [] (blk_map u) u v"
    using bread_step [OF cache_stepD(1) [OF x(2)] _ dsm D(1)] d(2) ne by auto
  have hv: "[a \<mapsto> x, d \<mapsto> y] d = Some y" "[a \<mapsto> x, d \<mapsto> y] a = Some x" using ne by simp_all
  obtain w1 w where w: "copy_buf x y v = Ok () w1" "bwrite x w1 = Ok () w"
    "cache_step p D [a \<mapsto> x, d \<mapsto> y] [(a, blk_map v d)] ((blk_map v)(a := blk_map v d)) v w"
    using copy_step [OF cache_stepD(1) [OF y(2)] hv] by blast
  obtain z where z: "brelse y w = Ok () z" "cache_step p D ([a \<mapsto> x, d \<mapsto> y](d := None)) [] (blk_map w) w z"
    using brelse_step [OF cache_stepD(1) [OF w(3)] hv(1)] d(2) by blast
  have za: "([a \<mapsto> x, d \<mapsto> y](d := None)) a = Some x" using ne by simp
  have tot: "cache_step p D ([a \<mapsto> x, d \<mapsto> y](d := None)) [(a, blk_map s d)] ((blk_map s)(a := blk_map s d)) s z"
    using cache_step_trans [OF cache_step_trans [OF cache_step_trans [OF x(2) y(2)] w(3)] z(2)] cache_stepD(3) [OF x(2)]
      cache_stepD(3) [OF y(2)] cache_stepD(3) [OF w(3)] by simp
  have "disk_map (sectors z) a = blk_map z a"
    using wrote_disk_map [OF cache_stepD(2) [OF tot]] a(2) cache_stepD(3) [OF tot] by simp
  then have "a \<in> D \<or> disk_map (sectors z) a = blk_map z a" by simp
  from brelse_step [OF cache_stepD(1) [OF tot] za this] obtain t where t: "brelse x z = Ok () t"
    "cache_step p D ([a \<mapsto> x, d \<mapsto> y](d := None, a := None)) [] (blk_map z) z t" by blast
  have "[a \<mapsto> x, d \<mapsto> y](d := None, a := None) = Map.empty" by (rule ext) simp
  then have "cache_step p D Map.empty [(a, blk_map s d)] ((blk_map s)(a := blk_map s d)) s t"
    using cache_step_trans [OF tot t(2)] cache_stepD(3) [OF tot] by simp
  moreover have "write_log_one i s = Ok () t" using a(1) d(1) dev x(1) y(1) w(1,2) z(1) t(1) by (simp add: write_log_one_def)
  ultimately show ?thesis by blast
qed

text \<open>Installing one block: at commit the destination is pinned and gets unpinned, at recovery nothing is.\<close>

lemma install_one_step:
  assumes c: "cache_at p D Map.empty s" and D: "finite D" "card D + 1 < NBUF \<or> card D < NBUF \<and> d \<in> D" and dev: "log_dev s = ROOTDEV"
    and a: "log_start s + of_nat i + 1 = a" "a < 0x80000000" "a \<notin> D" "a \<noteq> d"
    and d: "lh_block s i = d" "d < 0x80000000" "r \<or> d \<in> D" "r \<Longrightarrow> d \<notin> D"
  shows "\<exists>t. install_one r i s = Ok () t \<and> cache_step p (D - {d}) Map.empty [(d, blk_map s a)] ((blk_map s)(d := blk_map s a)) s t"
proof -
  obtain x u where x: "bread ROOTDEV a s = Ok x u" "cache_step p D [a \<mapsto> x] [] (blk_map s) s u"
    using bread_step [OF c _ a(2) D(1)] D(2) by auto
  have "card (D \<union> dom [a \<mapsto> x]) \<le> card D + 1" using card_insert_if [OF D(1), of a] by simp
  then obtain y v where y: "bread ROOTDEV d u = Ok y v" "cache_step p D [a \<mapsto> x, d \<mapsto> y] [] (blk_map u) u v"
    using bread_step [OF cache_stepD(1) [OF x(2)] _ d(2) D(1)] D(2) a(4) by fastforce
  have hv: "[a \<mapsto> x, d \<mapsto> y] a = Some x" "[a \<mapsto> x, d \<mapsto> y] d = Some y" using a(4) by simp_all
  obtain w1 w where w: "copy_buf y x v = Ok () w1" "bwrite y w1 = Ok () w"
    "cache_step p D [a \<mapsto> x, d \<mapsto> y] [(d, blk_map v a)] ((blk_map v)(d := blk_map v a)) v w"
    using copy_step [OF cache_stepD(1) [OF y(2)] hv] by blast
  obtain z where z: "kwhen (\<not> r) (bunpin y) w = Ok () z" "cache_step p (D - {d}) [a \<mapsto> x, d \<mapsto> y] [] (blk_map w) w z"
  proof (cases r)
    case True
    then have "cache_step p (D - {d}) [a \<mapsto> x, d \<mapsto> y] [] (blk_map w) w w"
      using cache_stepD(1) [OF w(3)] d(4) by (simp add: cache_step_def)
    then show ?thesis using True that by simp
  next
    case False
    then have "d \<in> D" using d(3) by simp
    from bunpin_step [OF cache_stepD(1) [OF w(3)] hv(2) this] False that show ?thesis by (metis kwhen_apply)
  qed
  have tot: "cache_step p (D - {d}) [a \<mapsto> x, d \<mapsto> y] [(d, blk_map s a)] ((blk_map s)(d := blk_map s a)) s z"
    using cache_step_trans [OF cache_step_trans [OF cache_step_trans [OF x(2) y(2)] w(3)] z(2)] cache_stepD(3) [OF x(2)]
      cache_stepD(3) [OF y(2)] cache_stepD(3) [OF w(3)] by simp
  have dz: "disk_map (sectors z) = (disk_map (sectors s))(d := blk_map s a)" "blk_map z = (blk_map s)(d := blk_map s a)"
    using wrote_disk_map [OF cache_stepD(2) [OF tot]] d(2) cache_stepD(3) [OF tot] by simp_all
  have "a \<in> D - {d} \<or> disk_map (sectors z) a = blk_map z a" using dz a(4) clean_step [OF c a(3)] by simp
  from brelse_step [OF cache_stepD(1) [OF tot] hv(1) this] obtain z' where z': "brelse x z = Ok () z'"
    "cache_step p (D - {d}) ([a \<mapsto> x, d \<mapsto> y](a := None)) [] (blk_map z) z z'" by blast
  have hz: "([a \<mapsto> x, d \<mapsto> y](a := None)) d = Some y" using a(4) by simp
  have "d \<in> D - {d} \<or> disk_map (sectors z') d = blk_map z' d" using cache_stepD(2,3) [OF z'(2)] dz by simp
  from brelse_step [OF cache_stepD(1) [OF z'(2)] hz this] obtain t where t: "brelse y z' = Ok () t"
    "cache_step p (D - {d}) ([a \<mapsto> x, d \<mapsto> y](a := None, d := None)) [] (blk_map z') z' t" by blast
  have "[a \<mapsto> x, d \<mapsto> y](a := None, d := None) = Map.empty" by (rule ext) simp
  then have "cache_step p (D - {d}) Map.empty [(d, blk_map s a)] ((blk_map s)(d := blk_map s a)) s t"
    using cache_step_trans [OF cache_step_trans [OF tot z'(2)] t(2)] cache_stepD(3) [OF z'(2)] dz by simp
  moreover have "install_one r i s = Ok () t" using a(1) d(1) dev x(1) y(1) w(1,2) z(1) z'(1) t(1) by (simp add: install_one_def)
  ultimately show ?thesis by blast
qed

text \<open>The state of the log: the blocks logged, and the log's place on the disk.\<close>

definition logged :: "'x klog_scheme \<Rightarrow> u32 list" where
  "logged s = map (lh_block s) [0..<nat (lh_n s)]"

definition log_slot :: "u32 \<Rightarrow> nat \<Rightarrow> u32" where
  "log_slot start i = start + of_nat i + 1"

definition log_blocks :: "u32 \<Rightarrow> u32 set" where
  "log_blocks start = insert start (log_slot start ` {0..<LOGBLOCKS})"

definition log_placed :: "'x klog_scheme \<Rightarrow> bool" where
  "log_placed s \<longleftrightarrow> log_dev s = ROOTDEV \<and> log_start s < 0x70000000"

lemma LOGBLOCKS_30: "LOGBLOCKS = 30" "NBUF = 30"
  by (simp_all add: LOGBLOCKS_def NBUF_def MAXOPBLOCKS_def)

lemma unat_log_slot: "start < 0x70000000 \<Longrightarrow> i < LOGBLOCKS \<Longrightarrow> unat (log_slot start i) = unat start + i + 1"
proof -
  assume a: "start < 0x70000000" "i < LOGBLOCKS"
  then have s: "unat start < 0x70000000" "i < 30" by (simp_all add: word_less_nat_alt LOGBLOCKS_30)
  have "log_slot start i = word_of_nat (unat start + i + 1)" by (simp add: log_slot_def)
  then have "unat (log_slot start i) = take_bit 32 (unat start + i + 1)" by (simp only: unsigned_of_nat) simp
  then show ?thesis using s by (simp add: take_bit_nat_eq_self)
qed

lemma log_slot_facts:
  assumes "start < 0x70000000"
  shows "i < LOGBLOCKS \<Longrightarrow> log_slot start i < 0x80000000" "i < LOGBLOCKS \<Longrightarrow> log_slot start i \<noteq> start"
    "i < LOGBLOCKS \<Longrightarrow> j < LOGBLOCKS \<Longrightarrow> log_slot start i = log_slot start j \<Longrightarrow> i = j" "start < 0x80000000"
proof -
  have st: "unat start < 0x70000000" using assms by (simp add: word_less_nat_alt)
  show "log_slot start i < 0x80000000" if "i < LOGBLOCKS"
    using unat_log_slot [OF assms that] st that by (simp add: word_less_nat_alt LOGBLOCKS_30)
  show "log_slot start i \<noteq> start" if "i < LOGBLOCKS" using unat_log_slot [OF assms that] by auto
  show "i = j" if "i < LOGBLOCKS" "j < LOGBLOCKS" "log_slot start i = log_slot start j"
  proof -
    have "unat start + i + 1 = unat start + j + 1"
      using unat_log_slot [OF assms that(1)] unat_log_slot [OF assms that(2)] that(3) by metis
    then show ?thesis by simp
  qed
  show "start < 0x80000000" using st by (simp add: word_less_nat_alt)
qed

text \<open>The loops, by induction on the number of passes made.\<close>

lemma write_log_step:
  assumes c: "cache_at p D Map.empty s" and D: "finite D" "card D < NBUF" and pl: "log_placed s"
    and k: "k \<le> LOGBLOCKS" "\<And>i. i < k \<Longrightarrow> lh_block s i \<in> D" and dis: "D \<inter> log_blocks (log_start s) = {}"
  shows "\<exists>t. for_each write_log_one [0..<k] s = Ok () t \<and>
    cache_step p D Map.empty (map (\<lambda>i. (log_slot (log_start s) i, blk_map s (lh_block s i))) [0..<k])
      (redo_apply (map (\<lambda>i. (log_slot (log_start s) i, blk_map s (lh_block s i))) [0..<k]) (blk_map s)) s t"
  using k
proof (induction k)
  case 0
  then show ?case using c by (simp add: cache_step_def)
next
  case (Suc k)
  let ?ws = "map (\<lambda>i. (log_slot (log_start s) i, blk_map s (lh_block s i))) [0..<k]" and ?a = "log_slot (log_start s) k" and ?d = "lh_block s k"
  obtain u where u: "for_each write_log_one [0..<k] s = Ok () u" "cache_step p D Map.empty ?ws (redo_apply ?ws (blk_map s)) s u"
    using Suc by auto
  note B = bio_base_log [OF cache_stepD(4) [OF u(2)]]
  have st: "log_start s < 0x70000000" using pl by (simp add: log_placed_def)
  have a: "?a < 0x80000000" "?a \<in> log_blocks (log_start s)" using log_slot_facts [OF st] Suc.prems(1) by (auto simp: log_blocks_def)
  have d: "?d \<in> D" using Suc.prems by simp
  have dev: "log_dev u = ROOTDEV" "log_start u + of_nat k + 1 = ?a" "lh_block u k = ?d"
    using B(1,2,4) pl by (simp_all add: log_placed_def log_slot_def)
  have ad: "?a < 0x80000000" "?a \<notin> D" "?d \<in> D" using a d dis by blast+
  obtain t where t: "write_log_one k u = Ok () t" "cache_step p D Map.empty [(?a, blk_map u ?d)] ((blk_map u)(?a := blk_map u ?d)) u t"
    using write_log_one_step [OF cache_stepD(1) [OF u(2)] D, of k ?a ?d] dev ad by blast
  have "?d \<notin> fst ` set ?ws" using d dis Suc.prems(1) by (auto simp: log_blocks_def)
  from redo_apply_other [OF this, of "blk_map s"] have "blk_map u ?d = blk_map s ?d" using cache_stepD(3) [OF u(2)] by (simp only:)
  then have cs: "cache_step p D Map.empty (?ws @ [(?a, blk_map s ?d)]) (redo_apply (?ws @ [(?a, blk_map s ?d)]) (blk_map s)) s t"
    using cache_step_trans [OF u(2) t(2)] cache_stepD(3) [OF u(2)] by simp
  have run: "for_each write_log_one [0..<Suc k] s = Ok () t" using u(1) t(1) by (simp add: for_each_append)
  have eq: "map (\<lambda>i. (log_slot (log_start s) i, blk_map s (lh_block s i))) [0..<Suc k] = ?ws @ [(?a, blk_map s ?d)]" by simp
  show ?case unfolding eq using run cs by blast
qed

lemma install_step:
  assumes c: "cache_at p D Map.empty s" and D: "finite D" "card D < NBUF" "r \<Longrightarrow> D = {}" and pl: "log_placed s"
    and k: "k \<le> LOGBLOCKS" "\<And>i. i < k \<Longrightarrow> lh_block s i < 0x80000000 \<and> lh_block s i \<notin> log_blocks (log_start s) \<and> (r \<or> lh_block s i \<in> D)"
    and dist: "\<not> r \<Longrightarrow> inj_on (lh_block s) {0..<k}" and dis: "D \<inter> log_blocks (log_start s) = {}"
  shows "\<exists>t. for_each (install_one r) [0..<k] s = Ok () t \<and>
    cache_step p (D - lh_block s ` {0..<k}) Map.empty (map (\<lambda>i. (lh_block s i, blk_map s (log_slot (log_start s) i))) [0..<k])
      (redo_apply (map (\<lambda>i. (lh_block s i, blk_map s (log_slot (log_start s) i))) [0..<k]) (blk_map s)) s t"
  using k dist
proof (induction k)
  case 0
  then show ?case using c by (simp add: cache_step_def)
next
  case (Suc k)
  let ?ws = "map (\<lambda>i. (lh_block s i, blk_map s (log_slot (log_start s) i))) [0..<k]" and ?a = "log_slot (log_start s) k" and ?d = "lh_block s k"
  let ?D = "D - lh_block s ` {0..<k}"
  have "inj_on (lh_block s) {0..<k}" if "\<not> r" using Suc.prems(3) [OF that] by (rule inj_on_subset) simp
  then obtain u where u: "for_each (install_one r) [0..<k] s = Ok () u" "cache_step p ?D Map.empty ?ws (redo_apply ?ws (blk_map s)) s u"
    using Suc by auto
  note B = bio_base_log [OF cache_stepD(4) [OF u(2)]]
  have st: "log_start s < 0x70000000" using pl by (simp add: log_placed_def)
  have a: "?a < 0x80000000" "?a \<in> log_blocks (log_start s)" using log_slot_facts [OF st] Suc.prems(1) by (auto simp: log_blocks_def)
  have d: "?d < 0x80000000" "?d \<notin> log_blocks (log_start s)" "r \<or> ?d \<in> D" using Suc.prems(2) [of k] by simp_all
  have dk: "?d \<in> ?D" if "\<not> r"
  proof -
    have "?d \<noteq> lh_block s i" if "i < k" for i using inj_onD [OF Suc.prems(3) [OF \<open>\<not> r\<close>], of k i] that by auto
    then show ?thesis using d(3) that by (metis DiffI atLeastLessThan_iff imageE)
  qed
  have cd: "card ?D \<le> card D" by (rule card_mono [OF D(1)]) blast
  have dev: "log_dev u = ROOTDEV" "log_start u + of_nat k + 1 = ?a" "lh_block u k = ?d"
    using B(1,2,4) pl by (simp_all add: log_placed_def log_slot_def)
  have av: "card ?D + 1 < NBUF \<or> card ?D < NBUF \<and> ?d \<in> ?D"
    using cd D(2,3) dk by (cases r) (simp_all add: LOGBLOCKS_30)
  have ad: "?a \<notin> ?D" "?a \<noteq> ?d" using a(2) d(2) dis by (metis DiffD1 disjoint_iff, metis)
  have rd: "r \<or> ?d \<in> ?D" "r \<Longrightarrow> ?d \<notin> ?D" using dk D(3) by auto
  have "finite ?D" using D(1) by simp
  from install_one_step [OF cache_stepD(1) [OF u(2)] this av dev(1,2) a(1) ad dev(3) d(1) rd]
  obtain t where t: "install_one r k u = Ok () t" "cache_step p (?D - {?d}) Map.empty [(?d, blk_map u ?a)] ((blk_map u)(?d := blk_map u ?a)) u t" by blast
  have "?a \<notin> fst ` set ?ws" using a(2) Suc.prems(2) by fastforce
  from redo_apply_other [OF this, of "blk_map s"] have ua: "blk_map u ?a = blk_map s ?a" using cache_stepD(3) [OF u(2)] by (simp only:)
  have "?D - {?d} = D - lh_block s ` {0..<Suc k}" by (auto simp: less_Suc_eq)
  then have cs: "cache_step p (D - lh_block s ` {0..<Suc k}) Map.empty (?ws @ [(?d, blk_map s ?a)]) (redo_apply (?ws @ [(?d, blk_map s ?a)]) (blk_map s)) s t"
    using cache_step_trans [OF u(2) t(2)] cache_stepD(3) [OF u(2)] ua by simp
  have run: "for_each (install_one r) [0..<Suc k] s = Ok () t" using u(1) t(1) by (simp add: for_each_append)
  have eq: "map (\<lambda>i. (lh_block s i, blk_map s (log_slot (log_start s) i))) [0..<Suc k] = ?ws @ [(?d, blk_map s ?a)]" by simp
  show ?case unfolding eq using run cs by blast
qed

text \<open>The header: its buffer is filled in memory and written in one block write.\<close>

lemma write_head_fill:
  "for_each (\<lambda>i. kbind (gets (\<lambda>s. lh_block s i)) (\<lambda>w. upd_buf b (\<lambda>x. x\<lparr>bdata := wr32 (4 + 4 * i) w (bdata x)\<rparr>))) is s =
   Ok () (s\<lparr>bufs := (bufs s)(b := (bufs s b)\<lparr>bdata := fold (\<lambda>i. wr32 (4 + 4 * i) (lh_block s i)) is (bdata (bufs s b))\<rparr>)\<rparr>)"
  by (induction "is" arbitrary: s) (simp_all add: upd_buf_def)

lemma log_enc_logged:
  "fold (\<lambda>i. wr32 (4 + 4 * i) (lh_block s i)) [0..<nat (lh_n s)] (wr32 0 (word_of_int (lh_n s)) d) = log_enc (logged s) d"
  if "0 \<le> lh_n s"
  using that by (auto simp: log_enc_def logged_def intro!: fold_cong)

lemma write_head_step:
  assumes c: "cache_at p D Map.empty s" and D: "finite D" "card D < NBUF" and pl: "log_placed s" and n: "0 \<le> lh_n s"
    and dis: "log_start s \<notin> D"
  shows "\<exists>t. write_head s = Ok () t \<and> cache_step p D Map.empty [(log_start s, log_enc (logged s) (blk_map s (log_start s)))]
      ((blk_map s)(log_start s := log_enc (logged s) (blk_map s (log_start s)))) s t"
proof -
  let ?h = "log_start s" and ?e = "log_enc (logged s) (blk_map s (log_start s))"
  have h: "?h < 0x80000000" using pl log_slot_facts(4) by (auto simp: log_placed_def)
  obtain b u where u: "bread ROOTDEV ?h s = Ok b u" "cache_step p D [?h \<mapsto> b] [] (blk_map s) s u"
    using bread_step [OF c _ h D(1)] D(2) by auto
  note B = bio_base_log [OF cache_stepD(4) [OF u(2)]]
  have hb: "[?h \<mapsto> b] ?h = Some b" by simp
  have data: "bdata (bufs u b) = blk_map s ?h"
    using held_data [OF cache_stepD(1) [OF u(2)] hb] fun_cong [OF cache_stepD(3) [OF u(2)], of ?h] h by (simp add: blk_map_def)
  let ?v = "u\<lparr>bufs := (bufs u)(b := (bufs u b)\<lparr>bdata := ?e\<rparr>)\<rparr>"
  have lg: "fold (\<lambda>i. wr32 (4 + 4 * i) (lh_block u i)) [0..<nat (lh_n u)] (wr32 0 (word_of_int (lh_n u)) (blk_map s ?h)) = ?e"
    using log_enc_logged [of u] n B(3,4) by (simp add: logged_def)
  have v: "cache_step p D [?h \<mapsto> b] [] ((blk_map u)(?h := ?e)) u ?v" by (rule modify_step [OF cache_stepD(1) [OF u(2)] hb])
  obtain w where w: "bwrite b ?v = Ok () w" "cache_step p D [?h \<mapsto> b] [(?h, blk_map ?v ?h)] (blk_map ?v) ?v w"
    using bwrite_step [OF cache_stepD(1) [OF v] hb] by blast
  have tot: "cache_step p D [?h \<mapsto> b] [(?h, ?e)] ((blk_map s)(?h := ?e)) s w"
    using cache_step_trans [OF cache_step_trans [OF u(2) v] w(2)] cache_stepD(3) [OF u(2)] cache_stepD(3) [OF v] by simp
  have "?h \<in> D \<or> disk_map (sectors w) ?h = blk_map w ?h"
    using wrote_disk_map [OF cache_stepD(2) [OF tot]] h cache_stepD(3) [OF tot] by simp
  from brelse_step [OF cache_stepD(1) [OF tot] hb this] obtain t where t: "brelse b w = Ok () t"
    "cache_step p D ([?h \<mapsto> b](?h := None)) [] (blk_map w) w t" by blast
  have "[?h \<mapsto> b](?h := None) = Map.empty" by simp
  then have fin: "cache_step p D Map.empty [(?h, ?e)] ((blk_map s)(?h := ?e)) s t"
    using cache_step_trans [OF tot t(2)] cache_stepD(3) [OF tot] by simp
  have "write_head s = Ok () t"
    using pl u(1) w(1) t(1) lg data by (simp add: write_head_def log_placed_def upd_buf_def [of b "\<lambda>x. x\<lparr>bdata := wr32 0 (word_of_int (lh_n u)) (bdata x)\<rparr>"] write_head_fill)
  then show ?thesis using fin by blast
qed

section \<open>Commit and recovery\<close>

lemma klog_upd [simp]:
  fixes s :: "'x klog_scheme"
  shows "cache_at p D H (s\<lparr>lh_n := k\<rparr>) = cache_at p D H s" "cache_at p D H (s\<lparr>lh_block := g\<rparr>) = cache_at p D H s"
    "cache_at p D H (s\<lparr>log_start := w\<rparr>) = cache_at p D H s" "cache_at p D H (s\<lparr>log_dev := w\<rparr>) = cache_at p D H s"
    "blk_map (s\<lparr>lh_n := k\<rparr>) = blk_map s" "blk_map (s\<lparr>lh_block := g\<rparr>) = blk_map s"
    "blk_map (s\<lparr>log_start := w\<rparr>) = blk_map s" "blk_map (s\<lparr>log_dev := w\<rparr>) = blk_map s"
  by (simp_all add: cache_at_def fs_ready_def irq_state_ok_def disk_ok_def cache_ok_def small_blocks_def held_buf_def blk_map_def blk_def fun_eq_iff cong: option.case_cong)

lemma wrote_log_upd [simp]:
  fixes s t :: "'x klog_scheme"
  shows "wrote ws (s\<lparr>lh_n := k\<rparr>) t = wrote ws s t" "wrote ws s (t\<lparr>lh_n := k\<rparr>) = wrote ws s t"
    "wrote ws (s\<lparr>lh_block := g\<rparr>) t = wrote ws s t" "wrote ws s (t\<lparr>lh_block := g\<rparr>) = wrote ws s t"
  by (simp_all add: wrote_def)

text \<open>
  The invariant of a process inside a file system operation that holds the buffers \<open>H\<close>: the blocks
  pinned are those in the log, each of them once and none of them in the log's own area.
\<close>

definition log_ready :: "nat \<Rightarrow> (u32 \<rightharpoonup> nat) \<Rightarrow> 'x klog_scheme \<Rightarrow> bool" where
  "log_ready p H s \<longleftrightarrow> cache_at p (set (logged s)) H s \<and> log_placed s \<and> 0 \<le> lh_n s \<and> lh_n s \<le> int LOGBLOCKS \<and>
     distinct (logged s) \<and> set (logged s) \<inter> log_blocks (log_start s) = {}"

lemma log_readyD:
  assumes "log_ready p H s"
  shows "cache_at p (set (logged s)) H s" "log_placed s" "0 \<le> lh_n s" "lh_n s \<le> int LOGBLOCKS"
    "distinct (logged s)" "set (logged s) \<inter> log_blocks (log_start s) = {}" "length (logged s) = nat (lh_n s)"
    "lh_n s < int LOGBLOCKS \<Longrightarrow> card (set (logged s)) < NBUF" "log_start s \<notin> set (logged s)" "log_start s < 0x70000000"
    "card (set (logged s)) = nat (lh_n s)"
proof -
  note A = assms [unfolded log_ready_def]
  show "cache_at p (set (logged s)) H s" "log_placed s" "0 \<le> lh_n s" "lh_n s \<le> int LOGBLOCKS"
    "distinct (logged s)" "set (logged s) \<inter> log_blocks (log_start s) = {}" using A by blast+
  show l: "length (logged s) = nat (lh_n s)" by (simp add: logged_def)
  show c: "card (set (logged s)) = nat (lh_n s)" using A l distinct_card [of "logged s"] by auto
  show "card (set (logged s)) < NBUF" if "lh_n s < int LOGBLOCKS" using that A c by (auto simp: LOGBLOCKS_30)
  show "log_start s \<notin> set (logged s)" using A by (auto simp: log_blocks_def)
  show "log_start s < 0x70000000" using A by (simp add: log_placed_def)
qed

lemma logged_nth: "i < nat (lh_n s) \<Longrightarrow> logged s ! i = lh_block s i"
  by (simp add: logged_def)

lemma logged_base: "bio_base t = bio_base s \<Longrightarrow> logged t = logged s"
  using bio_base_log(3,4) [of t s] by (simp add: logged_def)

lemma small_pinned: "cache_at p D H s \<Longrightarrow> n \<in> D \<Longrightarrow> n < 0x80000000"
  using cache_atD(4,11) unfolding small_blocks_def by blast

theorem commit_effect:
  assumes r: "log_ready p Map.empty s" and n: "0 < lh_n s" "lh_n s < int LOGBLOCKS"
  shows "\<exists>t. commit s = Ok () t \<and> cache_at p {} Map.empty t \<and>
    wrote (redo_commit (log_start s) (log_slot (log_start s)) log_enc (logged s) (blk_map s) (disk_map (sectors s) (log_start s))) s t \<and>
    lh_n t = 0 \<and> bio_base (t\<lparr>lh_n := lh_n s\<rparr>) = bio_base s"
proof -
  note R = log_readyD [OF r]
  let ?h = "log_start s" and ?n = "nat (lh_n s)" and ?D = "set (logged s)" and ?sl = "log_slot (log_start s)" and ?v = "blk_map s"
  have fin: "finite ?D" by simp
  have R8: "card ?D < NBUF" by (rule R(8) [OF n(2)])
  have nl: "?n \<le> LOGBLOCKS" "\<And>i. i < ?n \<Longrightarrow> lh_block s i \<in> ?D" using R(4) by (auto simp: logged_def)
  define w1 where "w1 = map (\<lambda>i. (?sl i, ?v (lh_block s i))) [0..<?n]"
  obtain a where a: "write_log s = Ok () a" "cache_step p ?D Map.empty w1 (redo_apply w1 ?v) s a"
    using write_log_step [OF R(1) fin R8 R(2) nl R(6)] by (auto simp: write_log_def w1_def)
  note A = bio_base_log [OF cache_stepD(4) [OF a(2)]]
  have la: "logged a = logged s" by (rule logged_base [OF cache_stepD(4) [OF a(2)]])
  have ws1: "fst ` set w1 \<subseteq> log_blocks ?h" "?h \<notin> fst ` set w1" "blk_map a ?h = disk_map (sectors s) ?h"
  proof -
    show s1: "fst ` set w1 \<subseteq> log_blocks ?h" using nl(1) by (auto simp: w1_def log_blocks_def)
    show h1: "?h \<notin> fst ` set w1" using log_slot_facts(2) [OF R(10)] nl(1) by (auto simp: w1_def) (metis order_less_le_trans)
    show "blk_map a ?h = disk_map (sectors s) ?h"
      using redo_apply_other [OF h1, of ?v] cache_stepD(3) [OF a(2)] clean_step [OF R(1,9)] by simp
  qed
  let ?e = "log_enc (logged s) (disk_map (sectors s) ?h)"
  have pa: "log_placed a" "0 \<le> lh_n a" "log_start a \<notin> ?D" using R(2,3,9) A by (simp_all add: log_placed_def)
  obtain b where b: "write_head a = Ok () b" "cache_step p ?D Map.empty [(?h, ?e)] ((blk_map a)(?h := ?e)) a b"
    using write_head_step [OF cache_stepD(1) [OF a(2)] fin R8 pa] ws1(3) A(2) la by auto
  have ab: "bio_base b = bio_base s" using cache_stepD(4) [OF a(2)] cache_stepD(4) [OF b(2)] by simp
  note B = bio_base_log [OF ab]
  have bsl: "blk_map b (?sl i) = ?v (lh_block s i)" if "i < ?n" for i
  proof -
    have "redo_apply w1 ?v (?sl i) = ?v (lh_block s i)" unfolding w1_def
      by (rule redo_apply_map) (use that nl(1) log_slot_facts(3) [OF R(10)] in \<open>auto, metis order_less_le_trans\<close>)
    moreover have "?sl i \<noteq> ?h" using log_slot_facts(2) [OF R(10)] that nl(1) by simp
    ultimately show ?thesis using cache_stepD(3) [OF b(2)] cache_stepD(3) [OF a(2)] by simp
  qed
  define w3 where "w3 = map (\<lambda>i. (lh_block s i, ?v (lh_block s i))) [0..<?n]"
  have k3: "lh_block b i < 0x80000000 \<and> lh_block b i \<notin> log_blocks (log_start b) \<and> (False \<or> lh_block b i \<in> ?D)" if "i < ?n" for i
    using nl(2) [OF that] small_pinned [OF R(1)] R(6) B(2,4) by auto
  have inj: "inj_on (lh_block b) {0..<?n}" using R(5) B(4) by (simp add: logged_def distinct_map)
  have pb: "log_placed b" "?D \<inter> log_blocks (log_start b) = {}" using R(2,6) B by (simp_all add: log_placed_def)
  have w3b: "map (\<lambda>i. (lh_block b i, blk_map b (log_slot (log_start b) i))) [0..<?n] = w3"
    using bsl B(2,4) by (simp add: w3_def)
  have empty: "?D - lh_block b ` {0..<?n} = {}" using B(4) by (auto simp: logged_def)
  obtain c where c: "install_trans False b = Ok () c" "cache_step p {} Map.empty w3 (redo_apply w3 (blk_map b)) b c"
    using install_step [OF cache_stepD(1) [OF b(2)] fin R8 _ pb(1) nl(1), of False] k3 inj pb(2) w3b empty B(3)
    by (auto simp: install_trans_def)
  have bc: "bio_base c = bio_base s" using cache_stepD(4) [OF c(2)] ab by simp
  note C = bio_base_log [OF bc]
  have h3: "?h \<notin> fst ` set w3" using R(9) by (auto simp: w3_def logged_def)
  have ch: "blk_map c ?h = ?e" using redo_apply_other [OF h3, of "blk_map b"] cache_stepD(3) [OF c(2)] cache_stepD(3) [OF b(2)] by simp
  let ?c = "c\<lparr>lh_n := 0\<rparr>"
  have pc: "cache_at p {} Map.empty ?c" "log_placed ?c" "0 \<le> lh_n ?c" "card {} < NBUF"
    using cache_stepD(1) [OF c(2)] R(2) C by (simp_all add: log_placed_def LOGBLOCKS_30)
  obtain t where t: "write_head ?c = Ok () t" "cache_step p {} Map.empty [(?h, log_enc [] ?e)] ((blk_map c)(?h := log_enc [] ?e)) ?c t"
    using write_head_step [OF pc(1) _ pc(4,2,3)] C(2) ch by (auto simp: logged_def)
  have "redo_commit ?h ?sl log_enc (logged s) ?v (disk_map (sectors s) ?h) = w1 @ [(?h, ?e)] @ w3 @ [(?h, log_enc [] ?e)]"
    by (simp add: redo_commit_def w1_def w3_def R(7) logged_nth) (simp add: logged_def)
  moreover have "wrote (w1 @ [(?h, ?e)] @ w3 @ [(?h, log_enc [] ?e)]) s t"
    using wrote_trans [OF cache_stepD(2) [OF a(2)] wrote_trans [OF cache_stepD(2) [OF b(2)] wrote_trans [OF cache_stepD(2) [OF c(2)]]]]
      cache_stepD(2) [OF t(2)] by simp
  moreover have "lh_n t = 0" using bio_base_log(3) [OF cache_stepD(4) [OF t(2)]] by simp
  moreover have "bio_base (t\<lparr>lh_n := lh_n s\<rparr>) = bio_base s"
  proof -
    have up: "bio_base (x\<lparr>lh_n := k\<rparr>) = (bio_base x)\<lparr>lh_n := k\<rparr>" for x :: "'a klog_scheme" and k
      by (simp add: bio_base_def disk_base_def settle_def)
    have "bio_base (t\<lparr>lh_n := lh_n s\<rparr>) = bio_base (c\<lparr>lh_n := lh_n s\<rparr>)" using cache_stepD(4) [OF t(2)] by (simp add: up)
    also have "\<dots> = bio_base (s\<lparr>lh_n := lh_n s\<rparr>)" by (simp only: up bc)
    finally show ?thesis by simp
  qed
  moreover have "commit s = Ok () t" using n(1) a(1) b(1) c(1) t(1) by (simp add: commit_def)
  ultimately show ?thesis using cache_stepD(1) [OF t(2)] by (intro exI [of _ t]) simp
qed

lemma for_each_lh_block:
  assumes "\<And>i s. F i s = Ok () (s\<lparr>lh_block := (lh_block s)(i := g i)\<rparr>)"
  shows "for_each F is s = Ok () (s\<lparr>lh_block := (\<lambda>i. if i \<in> set is then g i else lh_block s i)\<rparr>)"
proof (induction "is" arbitrary: s)
  case (Cons i "is")
  have "(\<lambda>j. if j \<in> set is then g j else ((lh_block s)(i := g i)) j) = (\<lambda>j. if j \<in> set (i # is) then g j else lh_block s j)"
    by (rule ext) auto
  then show ?case using assms [of i s] by (simp add: Cons.IH del: fun_upd_apply cong: if_cong)
qed simp

lemma read_head_fill:
  "for_each (\<lambda>i. modify (\<lambda>s. s\<lparr>lh_block := (lh_block s)(i := g i)\<rparr>)) is s =
   Ok () (s\<lparr>lh_block := (\<lambda>i. if i \<in> set is then g i else lh_block s i)\<rparr>)"
  by (rule for_each_lh_block) simp

lemma clean_cache: "cache_at p {} Map.empty s \<Longrightarrow> blk_map s = disk_map (sectors s)"
  using clean_step [of p "{}" Map.empty s] by (intro ext) simp

lemma read_head_step:
  assumes c: "cache_at p {} Map.empty s" and pl: "log_placed s"
  shows "\<exists>t. read_head s = Ok () t \<and> cache_at p {} Map.empty t \<and> wrote [] s t \<and> log_placed t \<and> log_start t = log_start s \<and>
    logged t = log_dec (disk_map (sectors s) (log_start s))"
proof -
  let ?h = "log_start s"
  have h: "?h < 0x80000000" using pl log_slot_facts(4) by (auto simp: log_placed_def)
  obtain b u where u: "bread ROOTDEV ?h s = Ok b u" "cache_step p {} [?h \<mapsto> b] [] (blk_map s) s u"
    using bread_step [OF c _ h] by (auto simp: LOGBLOCKS_30)
  note B = bio_base_log [OF cache_stepD(4) [OF u(2)]]
  have hb: "[?h \<mapsto> b] ?h = Some b" by simp
  have data: "bdata (bufs u b) = disk_map (sectors s) ?h"
    using held_data [OF cache_stepD(1) [OF u(2)] hb] fun_cong [OF cache_stepD(3) [OF u(2)], of ?h] h clean_cache [OF c] by (simp add: blk_map_def)
  define x where "x = bdata (bufs u b)"
  define v where "v = u\<lparr>lh_n := sint (rd32 0 x), lh_block := (\<lambda>i. if i < nat (sint (rd32 0 x)) then rd32 (4 + 4 * i) x else lh_block u i)\<rparr>"
  have cv: "cache_at p {} [?h \<mapsto> b] v" "sectors v = sectors s" "blk_map v = blk_map s" "wrote [] s v"
    using cache_stepD [OF u(2)] by (simp_all add: v_def wrote_def)
  have "?h \<in> {} \<or> disk_map (sectors v) ?h = blk_map v ?h" using cv clean_cache [OF c] by simp
  from brelse_step [OF cv(1) hb this] obtain t where t: "brelse b v = Ok () t" "cache_step p {} ([?h \<mapsto> b](?h := None)) [] (blk_map v) v t" by blast
  note T = bio_base_log [OF cache_stepD(4) [OF t(2)]]
  have "read_head s = Ok () t"
    using pl u(1) t(1) by (simp add: read_head_def log_placed_def get_buf_def read_head_fill x_def [symmetric]) (simp add: v_def cong: if_cong)
  moreover have "cache_at p {} Map.empty t" using cache_stepD(1) [OF t(2)] by simp
  moreover have "wrote [] s t" using wrote_trans [OF cv(4) cache_stepD(2) [OF t(2)]] by simp
  moreover have "log_placed t" "log_start t = ?h" using T(1,2) B pl by (simp_all add: log_placed_def v_def)
  moreover have "logged t = log_dec (disk_map (sectors s) ?h)" using T(3,4) data by (auto simp: logged_def log_dec_def v_def x_def)
  ultimately show ?thesis by (intro exI [of _ t] conjI)
qed

theorem recover_effect:
  assumes c: "cache_at p {} Map.empty s" and pl: "log_placed s"
    and hd: "length (log_dec (disk_map (sectors s) (log_start s))) \<le> LOGBLOCKS"
      "\<And>b. b \<in> set (log_dec (disk_map (sectors s) (log_start s))) \<Longrightarrow> b < 0x80000000 \<and> b \<notin> log_blocks (log_start s)"
  shows "\<exists>t. recover_from_log s = Ok () t \<and> cache_at p {} Map.empty t \<and> log_placed t \<and> log_start t = log_start s \<and> lh_n t = 0 \<and>
    disk_map (sectors t) = redo_recover (log_start s) (log_slot (log_start s)) log_enc log_dec (disk_map (sectors s))"
proof -
  let ?h = "log_start s" and ?f = "disk_map (sectors s)"
  obtain a where a: "read_head s = Ok () a" "cache_at p {} Map.empty a" "wrote [] s a" "log_placed a" "log_start a = ?h" "logged a = log_dec (?f ?h)"
    using read_head_step [OF c pl] by blast
  have fa: "blk_map a = ?f" using clean_cache [OF a(2)] a(3) by simp
  let ?n = "nat (lh_n a)"
  have n: "?n \<le> LOGBLOCKS" using hd(1) a(6) by (simp add: logged_def flip: a(6))
  have bs: "lh_block a i < 0x80000000 \<and> lh_block a i \<notin> log_blocks (log_start a) \<and> (True \<or> lh_block a i \<in> {})" if "i < ?n" for i
  proof -
    have "lh_block a i \<in> set (logged a)" using that by (simp add: logged_def)
    then show ?thesis using hd(2) a(5,6) by simp
  qed
  define ws where "ws = redo_install (log_slot ?h) (log_dec (?f ?h)) ?f"
  have wa: "map (\<lambda>i. (lh_block a i, blk_map a (log_slot (log_start a) i))) [0..<?n] = ws"
    unfolding ws_def redo_install_def a(6) [symmetric] fa a(5) by (simp add: logged_def)
  obtain b where b: "install_trans True a = Ok () b" "cache_step p {} Map.empty ws (redo_apply ws ?f) a b"
    using install_step [OF a(2) _ _ _ a(4) n, of True] bs wa fa by (auto simp: install_trans_def LOGBLOCKS_30)
  note B = bio_base_log [OF cache_stepD(4) [OF b(2)]]
  let ?b = "b\<lparr>lh_n := 0\<rparr>"
  have pb: "cache_at p {} Map.empty ?b" "log_placed ?b" "0 \<le> lh_n ?b" "card {} < NBUF"
    using cache_stepD(1) [OF b(2)] a(4) B by (simp_all add: log_placed_def LOGBLOCKS_30)
  have wsm: "\<forall>m \<in> fst ` set ws. m < 0x80000000 \<and> m \<notin> log_blocks ?h" unfolding wa [symmetric] using bs a(5) by auto
  have "?h \<notin> fst ` set ws" using wsm by (auto simp: log_blocks_def)
  from redo_apply_other [OF this, of ?f] have bh: "blk_map b ?h = ?f ?h" using cache_stepD(3) [OF b(2)] by simp
  obtain t where t: "write_head ?b = Ok () t" "cache_step p {} Map.empty [(?h, log_enc [] (?f ?h))] ((blk_map b)(?h := log_enc [] (?f ?h))) ?b t"
    using write_head_step [OF pb(1) _ pb(4,2,3)] B(2) a(5) bh by (auto simp: logged_def)
  note T = bio_base_log [OF cache_stepD(4) [OF t(2)]]
  have "disk_map (sectors t) = redo_recover ?h (log_slot ?h) log_enc log_dec ?f"
    using clean_cache [OF cache_stepD(1) [OF t(2)]] cache_stepD(3) [OF t(2)] cache_stepD(3) [OF b(2)]
    by (simp add: redo_recover_def ws_def)
  moreover have "recover_from_log s = Ok () t" using a(1) b(1) t(1) by (simp add: recover_from_log_def)
  moreover have "log_placed t" "log_start t = ?h" "lh_n t = 0" using T(1-3) B(1,2) a(4,5) by (simp_all add: log_placed_def)
  ultimately show ?thesis using cache_stepD(1) [OF t(2)] by (intro exI [of _ t] conjI)
qed

section \<open>log_write\<close>

lemma log_find_spec:
  "log_find bl b i k \<le> i + k \<and> (\<forall>j. i \<le> j \<and> j < log_find bl b i k \<longrightarrow> bl j \<noteq> b) \<and>
   (log_find bl b i k < i + k \<longrightarrow> bl (log_find bl b i k) = b) \<and> i \<le> log_find bl b i k"
proof (induction k arbitrary: i)
  case (Suc k)
  show ?case
  proof (cases "bl i = b")
    case False
    have "bl j \<noteq> b" if "i \<le> j" "j < log_find bl b (Suc i) k" for j
      using that False Suc.IH [of "Suc i"] by (cases "j = i") auto
    then show ?thesis using False Suc.IH [of "Suc i"] by auto
  qed auto
qed auto

lemma log_find_logged:
  assumes "0 \<le> lh_n s"
  shows "int (log_find (lh_block s) b 0 (nat (lh_n s))) = lh_n s \<longleftrightarrow> b \<notin> set (logged s)"
    "b \<in> set (logged s) \<Longrightarrow> (lh_block s)(log_find (lh_block s) b 0 (nat (lh_n s)) := b) = lh_block s"
    "b \<notin> set (logged s) \<Longrightarrow> log_find (lh_block s) b 0 (nat (lh_n s)) = nat (lh_n s)"
proof -
  let ?i = "log_find (lh_block s) b 0 (nat (lh_n s))"
  note S = log_find_spec [of "lh_block s" b 0 "nat (lh_n s)"]
  have eq: "?i = nat (lh_n s) \<longleftrightarrow> b \<notin> set (logged s)"
  proof
    assume "?i = nat (lh_n s)"
    then show "b \<notin> set (logged s)" using S by (auto simp: logged_def)
  next
    assume "b \<notin> set (logged s)"
    then have "\<not> ?i < nat (lh_n s)" using S imageI [of ?i "{0..<nat (lh_n s)}" "lh_block s"] by (auto simp: logged_def)
    then show "?i = nat (lh_n s)" using S by simp
  qed
  then show "int ?i = lh_n s \<longleftrightarrow> b \<notin> set (logged s)" using assms by auto
  show "?i = nat (lh_n s)" if "b \<notin> set (logged s)" using eq that by simp
  show "(lh_block s)(?i := b) = lh_block s" if "b \<in> set (logged s)"
  proof -
    have "?i < nat (lh_n s)" using eq that S by auto
    then show ?thesis using S by (intro fun_upd_idem) simp
  qed
qed

lemma acquired_klog:
  "lh_n (acquired l s) = lh_n s" "outstanding (acquired l s) = outstanding s" "lh_block (acquired l s) = lh_block s"
  "committing (acquired l s) = committing s" "ncommit (acquired l s) = ncommit s"
  "(acquired l s)\<lparr>lh_block := x\<rparr> = acquired l (s\<lparr>lh_block := x\<rparr>)" "(acquired l s)\<lparr>lh_n := y\<rparr> = acquired l (s\<lparr>lh_n := y\<rparr>)"
  "(acquired l s)\<lparr>outstanding := y\<rparr> = acquired l (s\<lparr>outstanding := y\<rparr>)"
  "(acquired l s)\<lparr>committing := z\<rparr> = acquired l (s\<lparr>committing := z\<rparr>)" "(acquired l s)\<lparr>ncommit := y\<rparr> = acquired l (s\<lparr>ncommit := y\<rparr>)"
  by (cases s; simp add: acquired_def)+

lemma bpin_inside:
  fixes s :: "'x klog_scheme"
  assumes "fs_ready p s"
  shows "bpin b (acquired L_log s) = Ok () (acquired L_log (s\<lparr>bufs := (bufs s)(b := (bufs s b)\<lparr>refcnt := refcnt (bufs s b) + 1\<rparr>)\<rparr>))"
proof -
  have free: "lock_free l (locks s)" for l using fs_readyD(2) [OF assms] .
  let ?s = "s\<lparr>bufs := (bufs s)(b := (bufs s b)\<lparr>refcnt := refcnt (bufs s b) + 1\<rparr>)\<rparr>"
  have "lock_free L_bcache (locks (acquired L_log s))" using free by simp
  then have "acquire L_bcache (acquired L_log s) = Ok () (acquired L_bcache (acquired L_log s))" by (rule acquire_acquired)
  moreover have "release L_bcache (acquired L_bcache (acquired L_log ?s)) = Ok () (acquired L_log ?s)"
    using release_second(1) [of ?s L_bcache L_log] fs_readyD(1) [OF assms] free by (simp add: irq_state_ok_def)
  ultimately show ?thesis by (simp add: bpin_def upd_buf_def acquired_bufs)
qed

text \<open>The state apart from the cache, the disk and the blocks logged.\<close>

definition log_base :: "'x klog_scheme \<Rightarrow> 'x klog_scheme" where
  "log_base s = bio_base (s\<lparr>lh_n := 0, lh_block := (\<lambda>_. 0)\<rparr>)"

lemma settle_log_upd [simp]:
  "settle (s\<lparr>lh_n := k\<rparr>) = (settle s)\<lparr>lh_n := k\<rparr>" "settle (s\<lparr>lh_block := g\<rparr>) = (settle s)\<lparr>lh_block := g\<rparr>"
  by (cases s; simp add: settle_def)+

lemma log_base_settle [simp]: "log_base (settle s) = log_base s"
  by (simp add: log_base_def flip: settle_log_upd)

lemma log_base_bufs [simp]:
  "log_base (s\<lparr>bufs := x\<rparr>) = log_base s" "log_base (s\<lparr>lh_n := k\<rparr>) = log_base s" "log_base (s\<lparr>lh_block := g\<rparr>) = log_base s"
proof -
  have e: "s\<lparr>bufs := x, lh_n := 0, lh_block := h\<rparr> = s\<lparr>lh_n := 0, lh_block := h, bufs := x\<rparr>" for h by simp
  show "log_base (s\<lparr>bufs := x\<rparr>) = log_base s" unfolding log_base_def e by simp
qed (simp_all add: log_base_def)

theorem log_write_effect:
  assumes r: "log_ready p H s" and b: "H n = Some b" and n: "n \<notin> log_blocks (log_start s)" "lh_n s < int LOGBLOCKS"
    and out: "1 \<le> outstanding s"
  shows "\<exists>t. log_write b s = Ok () t \<and> log_ready p H t \<and> logged t = (if n \<in> set (logged s) then logged s else logged s @ [n]) \<and>
    blk_map t = blk_map s \<and> wrote [] s t \<and> log_base t = log_base s"
proof -
  note R = log_readyD [OF r]
  note c = R(1)
  note fr = cache_atD(1) [OF c]
  have bn: "blockno (bufs s b) = n" using cache_atD(8) [OF c b] by (simp add: stands_for_def)
  have acq: "acquire L_log s = Ok () (acquired L_log s)" by (rule acquire_acquired [OF fs_readyD(2) [OF fr]])
  have rel: "release L_log (acquired L_log x) = Ok () (settle x)" if "fs_ready p x" for x :: "'a klog_scheme"
    by (rule release_acquired [OF fs_readyD(1,2) [OF that]])
  note F = log_find_logged [OF R(3), of n]
  have st: "cache_at p D H (settle x) = cache_at p D H x" "blk_map (settle x) = blk_map x" for D and x :: "'a klog_scheme"
    by (simp_all add: cache_at_def cache_ok_def small_blocks_def held_buf_def blk_map_def blk_def fun_eq_iff cong: option.case_cong)
  show ?thesis
  proof (cases "n \<in> set (logged s)")
    case True
    then have "log_write b s = Ok () (settle s)"
      using acq rel [OF fr] n(2) out F(1,2) by (simp add: log_write_def get_buf_def acquired_klog acquired_bufs bn)
    moreover have "log_ready p H (settle s)" using r st by (simp add: log_ready_def logged_def log_placed_def) (simp add: settle_def)
    ultimately show ?thesis using True st log_base_settle by (intro exI [of _ "settle s"]) (simp add: logged_def settle_def)
  next
    case False
    let ?bs = "(bufs s)(b := (bufs s b)\<lparr>refcnt := refcnt (bufs s b) + 1\<rparr>)"
    let ?u = "s\<lparr>lh_block := (lh_block s)(nat (lh_n s) := n), bufs := ?bs, lh_n := lh_n s + 1\<rparr>"
    have fu: "fs_ready p (s\<lparr>lh_block := x\<rparr>)" "fs_ready p ?u" for x using fr by (simp_all add: fs_ready_def irq_state_ok_def)
    have run: "log_write b s = Ok () (settle ?u)"
      using acq rel [OF fu(2)] n(2) out F(1,3) False R(3) bpin_inside [OF fu(1), of b]
      by (simp add: log_write_def get_buf_def acquired_klog acquired_bufs bn)
    have lg: "logged ?u = logged s @ [n]" using R(3) by (auto simp: logged_def nat_add_distrib)
    obtain t where t: "bpin b s = Ok () t" "cache_at p (insert n (set (logged s))) H t" "blk t = blk s"
      using bpin_at [OF c b False] by blast
    have te: "t = (settle s)\<lparr>bufs := ?bs\<rparr>" using t(1) bpin_effect(1) [OF fr] by simp
    have "settle ?u = t\<lparr>lh_block := (lh_block s)(nat (lh_n s) := n), lh_n := lh_n s + 1\<rparr>" by (cases s) (simp add: te settle_def)
    then have cu: "cache_at p (set (logged ?u)) H (settle ?u)" "blk_map (settle ?u) = blk_map s"
      using t(2,3) lg by (simp_all add: blk_map_eq)
    have fld: "lh_n (settle ?u) = lh_n s + 1" "logged (settle ?u) = logged ?u" "log_start (settle ?u) = log_start s" "log_placed (settle ?u) = log_placed s"
      "wrote [] s (settle ?u)"
      by (simp_all add: settle_def logged_def log_placed_def wrote_def)
    have bs: "log_base (settle ?u) = log_base s" unfolding log_base_settle log_base_bufs by (simp add: log_base_def)
    have "distinct (logged s @ [n])" "set (logged s @ [n]) \<inter> log_blocks (log_start s) = {}" using R(5,6) False n(1) by auto
    then have "log_ready p H (settle ?u)" using cu fld R(2,3) n(2) lg unfolding log_ready_def by simp
    then show ?thesis using run cu fld bs lg False by (intro exI [of _ "settle ?u"]) simp
  qed
qed

section \<open>A full log\<close>

text \<open>With every buffer in use and the block not cached, \<open>bget\<close> finds no buffer.\<close>

lemma bget_full:
  assumes r: "fs_ready p s" and ok: "cache_ok s" and full: "\<forall>i < NBUF. refcnt (bufs s i) \<noteq> 0 \<and> \<not> stands_for (bufs s) i n"
  shows "bget ROOTDEV n s = Panic ''bget: no buffers''"
proof -
  obtain xs where xs: "lru_list (bufs s) xs" using ok by (auto simp: cache_ok_def)
  then have h: "bhead \<notin> set xs" "set xs = {0..<NBUF}" "length xs < Suc NBUF"
    using distinct_card [of xs] by (auto simp: lru_list_def)
  let ?a = "acquired L_bcache s"
  have "find (\<lambda>i. bdev (bufs s i) = ROOTDEV \<and> blockno (bufs s i) = n) xs = None"
    using full h(2) by (auto simp: find_None_iff stands_for_def)
  then have c: "bget_cached (Suc NBUF) ROOTDEV n (bnext (bufs ?a bhead)) ?a = Ok None ?a"
    using bget_cached_effect [of ?a bhead xs "Suc NBUF" ROOTDEV n] xs h by (simp add: acquired_bufs lru_list_def)
  have "find (\<lambda>i. refcnt (bufs s i) = 0) (rev xs) = None" using full h(2) by (auto simp: find_None_iff)
  then have u: "bget_unused (Suc NBUF) (bprev (bufs ?a bhead)) ?a = Ok None ?a"
    using bget_unused_effect [of ?a bhead "rev xs" "Suc NBUF"] xs h by (simp add: acquired_bufs lru_list_def)
  show ?thesis unfolding bget_def acquire_then [OF fs_readyD(2) [OF r]] kbind_apply [of "get_buf bhead"]
    by (simp add: get_buf_def c u del: kthen_apply)
qed

lemma pinned_full:
  assumes c: "cache_at p D H s" and card: "card D = NBUF" and n: "n \<notin> D" and i: "i < NBUF"
  shows "refcnt (bufs s i) \<noteq> 0 \<and> \<not> stands_for (bufs s) i n"
proof -
  have fin: "finite D" using card by (metis card.infinite LOGBLOCKS_30(2) zero_neq_numeral)
  define g where "g m = (SOME b. stands_for (bufs s) b m)" for m
  have g: "stands_for (bufs s) (g m) m" if "m \<in> D" for m
    using cache_atD(11) [OF c that] unfolding g_def by (metis someI_ex)
  have "inj_on g D" using g stands_for_same by (metis inj_onI)
  moreover have "g ` D \<subseteq> {0..<NBUF}" using g by (auto simp: stands_for_def)
  ultimately have "g ` D = {0..<NBUF}" using card by (intro card_seteq) (simp_all add: card_image)
  then obtain m where m: "m \<in> D" "stands_for (bufs s) i m" using i g by (metis atLeastLessThan_iff imageE zero_le)
  then have "refcnt (bufs s i) \<noteq> 0" using cache_atD(5) [OF c m(2)] by (simp add: uses_def)
  then show ?thesis using m n stands_for_same by blast
qed

section \<open>Sample state\<close>

text \<open>
  A transaction that has changed block 50 is about to commit: its first byte is 9 in the cache and
  0 on the disk; the log starts at block 2.
\<close>

definition sample_log :: klog where
  "sample_log = kdisk.extend (sample_disk\<lparr>bufs := sample_bufs(0 := (sample_bufs 0)\<lparr>bdev := ROOTDEV, blockno := 50, bvalid := 1, refcnt := 1,
       bdata := 9 # replicate (BSIZE - 1) 0\<rparr>)\<rparr>)
     \<lparr>log_start = 2, outstanding = 1, committing = False, log_dev = ROOTDEV, ncommit = 0, lh_n = 1, lh_block = (\<lambda>_. 50)\<rparr>"

text \<open>The machine after a crash: the same disk, nothing cached.\<close>

definition sample_boot :: "(u64 \<Rightarrow> u8 list) \<Rightarrow> klog" where
  "sample_boot sec = kdisk.extend (sample_disk\<lparr>sectors := sec\<rparr>)
     \<lparr>log_start = 0, outstanding = 0, committing = False, log_dev = 0, ncommit = 0, lh_n = 0, lh_block = (\<lambda>_. 0)\<rparr>"

lemma extend_base:
  fixes s :: kdisk
  shows "fs_ready p (kdisk.extend s x) = fs_ready p s" "disk_ok (kdisk.extend s x) = disk_ok s"
    "bufs (kdisk.extend s x) = bufs s" "slocks (kdisk.extend s x) = slocks s" "sectors (kdisk.extend s x) = sectors s"
    "procs (kdisk.extend s x) = procs s" "written (kdisk.extend s x) = written s"
  by (simp_all add: kdisk.defs fs_ready_def irq_state_ok_def disk_ok_def)

lemma sample_boot_cold: "cache_at 0 {} Map.empty (sample_boot sec)"
proof -
  have ns: "\<not> stands_for sample_bufs i n" "refcnt (sample_bufs i) = 0" for i n
    by (simp_all add: stands_for_def sample_bufs_def null_buf_def ROOTDEV_def)
  have "cache_ok (sample_boot sec)" using sample_cache ns unfolding cache_ok_def by (simp add: sample_boot_def extend_base)
  moreover have "fs_ready 0 (sample_disk\<lparr>sectors := sec\<rparr>)" "disk_ok (sample_disk\<lparr>sectors := sec\<rparr>)"
    using sample_disk_ready sample_disk_simps(6) by (simp_all add: fs_ready_def irq_state_ok_def disk_ok_def)
  ultimately show ?thesis using ns by (simp add: cache_at_def sample_boot_def extend_base small_blocks_def)
qed

lemma sample_log_ready: "log_ready 0 Map.empty sample_log"
proof -
  let ?x = "(sample_bufs 0)\<lparr>bdev := ROOTDEV, blockno := 50, bvalid := 1, refcnt := 1, bdata := 9 # replicate (BSIZE - 1) 0\<rparr>"
  let ?bs = "sample_bufs(0 := ?x)"
  have ns: "\<not> stands_for sample_bufs i n" "refcnt (sample_bufs i) = 0" for i n
    by (simp_all add: stands_for_def sample_bufs_def null_buf_def ROOTDEV_def)
  have st: "stands_for ?bs i n \<longleftrightarrow> i = 0 \<and> n = 50" for i n
    using ns(1) [of i n] by (auto simp: stands_for_def LOGBLOCKS_30)
  obtain xs where "lru_list sample_bufs xs" using sample_cache by (auto simp: cache_ok_def)
  then have "lru_list ?bs xs" using lru_list_upd [of ?x sample_bufs 0] by simp
  then have ok: "cache_ok sample_log" using st ns(2) by (auto simp: cache_ok_def sample_log_def extend_base)
  have lg: "logged sample_log = [50]" by (simp add: logged_def sample_log_def kdisk.defs)
  have r: "fs_ready 0 (sample_disk\<lparr>bufs := ?bs\<rparr>)" "disk_ok (sample_disk\<lparr>bufs := ?bs\<rparr>)"
    using sample_disk_ready sample_disk_simps(6) by simp_all
  have "cache_at 0 {50} Map.empty sample_log"
    using st ns(2) ok r by (auto simp: cache_at_def sample_log_def extend_base small_blocks_def uses_def)
  moreover have "(50 :: u32) \<notin> log_blocks 2"
  proof
    assume "(50 :: u32) \<in> log_blocks 2"
    then obtain i where i: "i < LOGBLOCKS" "log_slot 2 i = 50" by (auto simp: log_blocks_def)
    then show False using unat_log_slot [of 2 i] by (simp add: LOGBLOCKS_30)
  qed
  ultimately show ?thesis using lg by (simp add: log_ready_def) (simp add: sample_log_def kdisk.defs log_placed_def LOGBLOCKS_30)
qed

section \<open>Properties\<close>

lemma initlog_step:
  assumes c: "cache_at q {} Map.empty s" and st: "sb_logstart sb < 0x70000000"
    and hd: "length (log_dec (disk_map (sectors s) (sb_logstart sb))) \<le> LOGBLOCKS"
      "\<And>b. b \<in> set (log_dec (disk_map (sectors s) (sb_logstart sb))) \<Longrightarrow> b < 0x80000000 \<and> b \<notin> log_blocks (sb_logstart sb)"
  shows "\<exists>t. initlog ROOTDEV sb s = Ok () t \<and> cache_at q {} Map.empty t \<and> log_start t = sb_logstart sb \<and> lh_n t = 0 \<and>
    disk_map (sectors t) = redo_recover (sb_logstart sb) (log_slot (sb_logstart sb)) log_enc log_dec (disk_map (sectors s))"
proof -
  let ?l = "(locks s)(L_log := (locks s L_log)\<lparr>lname := ''log'', locked := 0, lcpu := None\<rparr>)"
  let ?u = "s\<lparr>locks := ?l, log_start := sb_logstart sb, log_dev := ROOTDEV\<rparr>"
  have "cache_at q {} Map.empty (s\<lparr>locks := ?l\<rparr>)"
    using c by (simp add: cache_at_def fs_ready_def irq_state_ok_def disk_ok_def cache_ok_def small_blocks_def held_buf_def lock_free_def)
  then have cu: "cache_at q {} Map.empty ?u" by simp
  have "log_placed ?u" using st by (simp add: log_placed_def)
  from recover_effect [OF cu this] hd
  obtain t where t: "recover_from_log ?u = Ok () t" "cache_at q {} Map.empty t" "log_start t = sb_logstart sb" "lh_n t = 0"
    "disk_map (sectors t) = redo_recover (sb_logstart sb) (log_slot (sb_logstart sb)) log_enc log_dec (disk_map (sectors s))" by auto
  have "initlog ROOTDEV sb s = recover_from_log ?u"
    by (simp add: initlog_def initlock_def upd_lock_def LOGBLOCKS_30 BSIZE_def)
  then show ?thesis using t by (intro exI [of _ t]) simp
qed

text \<open>
  C1: a transaction is atomic with respect to crashes. \<open>commit\<close> succeeds and makes a sequence of block
  writes; if the machine stops after any number of them and is booted again from the disk it left, with
  nothing in the cache, \<open>initlog\<close> succeeds and every block outside the log has its old contents when the
  header had not reached the disk yet, and what readers saw before the commit otherwise: all of the
  transaction or none of it. (A block write reaches the disk whole.)
\<close>
theorem commit_crash_safe:
  assumes r: "log_ready p Map.empty s" and n: "0 < lh_n s" "lh_n s < int LOGBLOCKS"
    and hd: "log_dec (disk_block (sectors s) (log_start s)) = []" "length (disk_block (sectors s) (log_start s)) = BSIZE"
  shows "\<exists>t ws. commit s = Ok () t \<and> lh_n t = 0 \<and>
    written t = written s @ map (\<lambda>(n, d). (sector_of n, d)) ws \<and> sectors t = write_blocks ws (sectors s) \<and>
    (\<forall>k q sb boot. cache_at q {} Map.empty boot \<and> sectors boot = write_blocks (take k ws) (sectors s) \<and> sb_logstart sb = log_start s \<longrightarrow>
      (\<exists>u. initlog ROOTDEV sb boot = Ok () u \<and> lh_n u = 0 \<and>
        (\<forall>m < 0x80000000. m \<notin> log_blocks (log_start s) \<longrightarrow>
           disk_block (sectors u) m = (if k \<le> nat (lh_n s) then disk_block (sectors s) m else blk s m))))"
proof -
  note R = log_readyD [OF r]
  let ?h = "log_start s" and ?sl = "log_slot (log_start s)" and ?f = "disk_map (sectors s)" and ?bs = "logged s"
  define ws where "ws = redo_commit ?h ?sl log_enc ?bs (blk_map s) (?f ?h)"
  obtain t where t: "commit s = Ok () t" "lh_n t = 0" "wrote ws s t" using commit_effect [OF r n] unfolding ws_def by blast
  have h: "?f ?h = disk_block (sectors s) ?h" using log_slot_facts(4) [OF R(10)] by (simp add: disk_map_def)
  have len: "length ?bs \<le> LOGBLOCKS" using R(7) n(2) by simp
  have nl: "i < LOGBLOCKS" if "i < length ?bs" for i using that len by simp
  have "?sl i \<noteq> ?h" if "i < length ?bs" for i by (rule log_slot_facts(2) [OF R(10) nl [OF that]])
  then have slots: "inj_on ?sl {0..<length ?bs}" "?h \<notin> ?sl ` {0..<length ?bs}" "set ?bs \<inter> ?sl ` {0..<length ?bs} = {}"
    using log_slot_facts(3) [OF R(10)] R(6) nl by (auto simp: inj_on_def log_blocks_def) metis
  have small: "\<forall>m \<in> fst ` set ws. m < 0x80000000"
    using log_slot_facts(1,4) [OF R(10)] small_pinned [OF R(1)] nl by (auto simp: ws_def redo_commit_def)
  have "\<exists>u. initlog ROOTDEV sb boot = Ok () u \<and> lh_n u = 0 \<and>
        (\<forall>m < 0x80000000. m \<notin> log_blocks ?h \<longrightarrow> disk_block (sectors u) m = (if k \<le> nat (lh_n s) then disk_block (sectors s) m else blk s m))"
    if b: "cache_at q {} Map.empty boot" "sectors boot = write_blocks (take k ws) (sectors s)" "sb_logstart sb = ?h" for k q sb and boot :: "'b klog_scheme"
  proof -
    have "\<forall>m \<in> fst ` set (take k ws). m < 0x80000000" using small by (auto dest: in_set_takeD)
    then have fb: "disk_map (sectors boot) = redo_apply (take k ws) ?f" using b(2) by (simp add: disk_map_write_blocks)
    have "log_dec (redo_apply (take k ws) ?f ?h) \<in> {[], ?bs}" unfolding ws_def
      by (rule log_header.crash_header) (use len hd h slots R(9) in simp_all)
    then have dec: "length (log_dec (disk_map (sectors boot) ?h)) \<le> LOGBLOCKS"
      "\<And>b. b \<in> set (log_dec (disk_map (sectors boot) ?h)) \<Longrightarrow> b < 0x80000000 \<and> b \<notin> log_blocks ?h"
      using len small_pinned [OF R(1)] R(6) unfolding fb by auto
    obtain u where u: "initlog ROOTDEV sb boot = Ok () u" "lh_n u = 0"
      "disk_map (sectors u) = redo_recover ?h ?sl log_enc log_dec (redo_apply (take k ws) ?f)"
      using initlog_step [OF b(1), of sb] b(3) R(10) dec fb by auto
    have "disk_block (sectors u) m = (if k \<le> nat (lh_n s) then disk_block (sectors s) m else blk s m)"
      if m: "m < 0x80000000" "m \<notin> log_blocks ?h" for m
    proof -
      have ms: "m \<noteq> ?h" "m \<notin> ?sl ` {0..<length ?bs}" using m(2) nl by (auto simp: log_blocks_def)
      have "disk_map (sectors u) m = (if k \<le> length ?bs \<or> m \<notin> set ?bs then ?f m else blk_map s m)" unfolding u(3) ws_def
        by (rule log_header.crash_atomic) (use len R(5,9) hd h slots ms in simp_all)
      moreover have "m \<notin> set ?bs \<Longrightarrow> blk s m = disk_block (sectors s) m" using clean_at [OF R(1)] by simp
      ultimately show ?thesis using m(1) R(7) by (auto simp: disk_map_def blk_map_def split: if_splits)
    qed
    then show ?thesis using u by blast
  qed
  then show ?thesis using t unfolding wrote_def by blast
qed

theorem commit_crash_safe_witness:
  "\<exists>sb t ws u v. commit sample_log = Ok () t \<and>
    initlog ROOTDEV sb (sample_boot (write_blocks (take 1 ws) (sectors sample_log))) = Ok () u \<and> hd (disk_block (sectors u) 50) = 0 \<and>
    initlog ROOTDEV sb (sample_boot (write_blocks (take 2 ws) (sectors sample_log))) = Ok () v \<and> hd (disk_block (sectors v) 50) = 9"
proof -
  let ?sb = "\<lparr>sb_magic = 0, sb_size = 0, sb_nblocks = 0, sb_ninodes = 0, sb_nlog = 0, sb_logstart = 2, sb_inodestart = 0, sb_bmapstart = 0\<rparr> :: superblock"
  have sl: "sectors sample_log = (\<lambda>_. replicate 512 0)(10 := 7 # replicate 511 0)" by (simp add: sample_log_def extend_base)
  have f: "log_start sample_log = 2" "lh_n sample_log = 1" by (simp_all add: sample_log_def kdisk.defs)
  have n: "0 < lh_n sample_log" "lh_n sample_log < int LOGBLOCKS" by (simp_all add: f LOGBLOCKS_30)
  have hd: "log_dec (disk_block (sectors sample_log) (log_start sample_log)) = []" "length (disk_block (sectors sample_log) (log_start sample_log)) = BSIZE"
    by (simp_all add: f sl disk_block_def sector_of_def log_dec_def rd32_def rd16_def nth_append BSIZE_def)
  have st: "stands_for (bufs sample_log) 0 50" "bvalid (bufs sample_log 0) \<noteq> 0" by (simp_all add: sample_log_def extend_base stands_for_def LOGBLOCKS_30)
  have old: "hd (disk_block (sectors sample_log) 50) = 0" by (simp add: sl disk_block_def sector_of_def)
  have new: "hd (blk sample_log 50) = 9"
    using blk_cached [OF cache_atD(3) [OF log_readyD(1) [OF sample_log_ready]] st] by (simp add: sample_log_def extend_base)
  have m: "(50 :: u32) \<notin> log_blocks (log_start sample_log)" using log_readyD(6) [OF sample_log_ready] by (simp add: logged_def sample_log_def kdisk.defs)
  obtain t ws where t: "commit sample_log = Ok () t" "\<forall>k q sb boot. cache_at q {} Map.empty (boot :: klog) \<and>
      sectors boot = write_blocks (take k ws) (sectors sample_log) \<and> sb_logstart sb = log_start sample_log \<longrightarrow>
      (\<exists>u. initlog ROOTDEV sb boot = Ok () u \<and> lh_n u = 0 \<and> (\<forall>m < 0x80000000. m \<notin> log_blocks (log_start sample_log) \<longrightarrow>
        disk_block (sectors u) m = (if k \<le> nat (lh_n sample_log) then disk_block (sectors sample_log) m else blk sample_log m)))"
    using commit_crash_safe [OF sample_log_ready n hd] by blast
  have rec: "\<exists>u. initlog ROOTDEV ?sb (sample_boot (write_blocks (take k ws) (sectors sample_log))) = Ok () u \<and>
      disk_block (sectors u) 50 = (if k \<le> 1 then disk_block (sectors sample_log) 50 else blk sample_log 50)" for k
    using t(2) [rule_format, of 0 "sample_boot (write_blocks (take k ws) (sectors sample_log))" k ?sb] sample_boot_cold m f
    by (auto simp: sample_boot_def extend_base)
  obtain u v where "initlog ROOTDEV ?sb (sample_boot (write_blocks (take 1 ws) (sectors sample_log))) = Ok () u"
    "hd (disk_block (sectors u) 50) = 0"
    "initlog ROOTDEV ?sb (sample_boot (write_blocks (take 2 ws) (sectors sample_log))) = Ok () v" "hd (disk_block (sectors v) 50) = 9"
    using rec [of 1] rec [of 2] old new by auto
  then show ?thesis using t(1) by blast
qed

text \<open>
  C26: \<open>log_write\<close> records a modified block in the current transaction: the block is pinned in the cache
  and appended to the log header, unless the transaction already has it (absorption), so that no block
  is logged twice; nothing is written to the disk and no contents change.
\<close>
theorem log_write_absorbs:
  assumes "log_ready p H s" "H n = Some b" "n \<notin> log_blocks (log_start s)" "lh_n s < int LOGBLOCKS" "1 \<le> outstanding s"
  shows "\<exists>t. log_write b s = Ok () t \<and> log_ready p H t \<and> sectors t = sectors s \<and> (\<forall>m < 0x80000000. blk t m = blk s m) \<and>
    logged t = (if n \<in> set (logged s) then logged s else logged s @ [n])"
proof -
  obtain t where t: "log_write b s = Ok () t" "log_ready p H t" "logged t = (if n \<in> set (logged s) then logged s else logged s @ [n])"
    "blk_map t = blk_map s" "sectors t = sectors s"
    using log_write_effect [OF assms] by auto
  have "blk t m = blk s m" if "m < 0x80000000" for m using fun_cong [OF t(4), of m] that by (simp add: blk_map_def)
  then show ?thesis using t by blast
qed

theorem log_write_absorbs_witness:
  "\<exists>b s t. bread ROOTDEV 60 sample_log = Ok b s \<and> log_write b s = Ok () t \<and> logged t = [50, 60]"
proof -
  note R = log_readyD [OF sample_log_ready]
  have f: "logged sample_log = [50]" "log_start sample_log = 2" "lh_n sample_log = 1" "outstanding sample_log = 1"
    by (simp_all add: logged_def sample_log_def kdisk.defs)
  obtain b s where s: "bread ROOTDEV 60 sample_log = Ok b s" "cache_step 0 (set (logged sample_log)) [60 \<mapsto> b] [] (blk_map sample_log) sample_log s"
    using bread_step [OF R(1), of 60] f by (auto simp: LOGBLOCKS_30)
  note B = bio_base_log [OF cache_stepD(4) [OF s(2)]] logged_base [OF cache_stepD(4) [OF s(2)]]
  have ready: "log_ready 0 [60 \<mapsto> b] s"
    using cache_stepD(1) [OF s(2)] R(2-6) B by (simp add: log_ready_def log_placed_def)
  have "(60 :: u32) \<notin> log_blocks 2"
  proof
    assume "(60 :: u32) \<in> log_blocks 2"
    then obtain i where i: "i < LOGBLOCKS" "log_slot 2 i = 60" by (auto simp: log_blocks_def)
    then show False using unat_log_slot [of 2 i] by (simp add: LOGBLOCKS_30)
  qed
  then obtain t where "log_write b s = Ok () t" "logged t = [50, 60]"
    using log_write_absorbs [OF ready, of 60 b] B f by (auto simp: LOGBLOCKS_30)
  then show ?thesis using s(1) by blast
qed

text \<open>
  C28: the log may hold as many blocks as the cache has buffers (LOGBLOCKS = NBUF), but committing needs
  one more: with a full transaction every buffer is pinned and \<open>commit\<close> panics when it reads the first
  log block.
\<close>
theorem commit_full_log_panics:
  assumes r: "log_ready p Map.empty s" and n: "lh_n s = int LOGBLOCKS"
  shows "commit s = Panic ''bget: no buffers''"
proof -
  note R = log_readyD [OF r]
  let ?a = "log_start s + of_nat 0 + 1"
  have "log_slot (log_start s) 0 \<in> log_blocks (log_start s)" by (auto simp: log_blocks_def LOGBLOCKS_30)
  then have "?a \<notin> set (logged s)" using R(6) by (auto simp: log_slot_def)
  then have "bget ROOTDEV ?a s = Panic ''bget: no buffers''"
    using pinned_full [OF R(1)] R(11) n by (intro bget_full [OF cache_atD(1,3) [OF R(1)]]) (simp add: LOGBLOCKS_30)
  then have "write_log_one 0 s = Panic ''bget: no buffers''" using R(2) by (simp add: write_log_one_def bread_def log_placed_def)
  moreover have "[0..<nat (lh_n s)] = 0 # [1..<30]" using n by (simp add: LOGBLOCKS_30 upt_conv_Cons)
  ultimately have "write_log s = Panic ''bget: no buffers''" by (simp add: write_log_def)
  then show ?thesis using n by (simp add: commit_def LOGBLOCKS_30)
qed

text \<open>Thirty blocks in the log, all of them pinned.\<close>

definition sample_full_log :: klog where
  "sample_full_log = kdisk.extend (sample_disk\<lparr>bufs := (\<lambda>i. (sample_bufs i)\<lparr>bdev := ROOTDEV, blockno := 100 + of_nat i, bvalid := 1, refcnt := 1\<rparr>)\<rparr>)
     \<lparr>log_start = 2, outstanding = 0, committing = True, log_dev = ROOTDEV, ncommit = 0, lh_n = 30, lh_block = (\<lambda>i. 100 + of_nat i)\<rparr>"

lemma sample_full_blocks:
  "i < 30 \<Longrightarrow> unat (100 + of_nat i :: u32) = 100 + i" "(100 + of_nat i :: u32) = 100 + of_nat j \<Longrightarrow> i < 30 \<Longrightarrow> j < 30 \<Longrightarrow> i = j"
proof -
  show u: "unat (100 + of_nat i :: u32) = 100 + i" if "i < 30" for i
    using that by (simp add: unat_word_ariths unsigned_of_nat take_bit_nat_eq_self)
  show "i = j" if "(100 + of_nat i :: u32) = 100 + of_nat j" "i < 30" "j < 30"
  proof -
    have "100 + i = 100 + j" using u [OF that(2)] u [OF that(3)] that(1) by metis
    then show ?thesis by simp
  qed
qed

lemma sample_full_log_ready: "log_ready 0 Map.empty sample_full_log"
proof -
  let ?bs = "\<lambda>i. (sample_bufs i)\<lparr>bdev := ROOTDEV, blockno := 100 + of_nat i, bvalid := 1, refcnt := 1\<rparr>"
  have st: "stands_for ?bs i n \<longleftrightarrow> i < 30 \<and> n = 100 + of_nat i" for i n by (auto simp: stands_for_def LOGBLOCKS_30)
  have lg: "logged sample_full_log = map (\<lambda>i. 100 + of_nat i) [0..<30]" by (simp add: logged_def sample_full_log_def kdisk.defs)
  obtain xs where "lru_list sample_bufs xs" using sample_cache by (auto simp: cache_ok_def)
  then have "lru_list ?bs xs" by (simp add: lru_list_def)
  then have ok: "cache_ok sample_full_log" using st sample_full_blocks(2) by (auto simp: cache_ok_def sample_full_log_def extend_base)
  have r: "fs_ready 0 (sample_disk\<lparr>bufs := ?bs\<rparr>)" "disk_ok (sample_disk\<lparr>bufs := ?bs\<rparr>)"
    using sample_disk_ready sample_disk_simps(6) by simp_all
  have small: "(100 + of_nat i :: u32) < 0x80000000" if "i < 30" for i using sample_full_blocks(1) [OF that] that by (simp add: word_less_nat_alt)
  have "cache_at 0 ((\<lambda>i. 100 + of_nat i) ` {0..<30}) Map.empty sample_full_log"
    using st ok r small by (auto simp: cache_at_def sample_full_log_def extend_base small_blocks_def uses_def)
  moreover have "(100 + of_nat i :: u32) \<notin> log_blocks 2" if i: "i < 30" for i
  proof
    assume "(100 + of_nat i :: u32) \<in> log_blocks 2"
    then consider "(100 + of_nat i :: u32) = 2" | j where "j < LOGBLOCKS" "(100 + of_nat i :: u32) = log_slot 2 j" by (auto simp: log_blocks_def)
    then show False
    proof cases
      case 1
      have "100 + i = unat (2 :: u32)" using sample_full_blocks(1) [OF i] 1 by metis
      then show False by simp
    next
      case (2 j)
      have "100 + i = 2 + j + 1" using unat_log_slot [of 2 j] sample_full_blocks(1) [OF i] 2 by simp
      then show False using 2(1) by (simp add: LOGBLOCKS_30)
    qed
  qed
  moreover have "inj_on (\<lambda>i. 100 + of_nat i :: u32) {0..<30}" by (rule inj_onI) (use sample_full_blocks(2) in auto)
  ultimately show ?thesis using lg
    by (simp add: log_ready_def distinct_map) (auto simp: sample_full_log_def kdisk.defs log_placed_def LOGBLOCKS_30)
qed

theorem commit_full_log_panics_witness: "commit sample_full_log = Panic ''bget: no buffers''"
  by (rule commit_full_log_panics [OF sample_full_log_ready]) (simp add: sample_full_log_def kdisk.defs LOGBLOCKS_30)

text \<open>
  C27: \<open>begin_op\<close> admits an operation only when the log can hold what is already in it plus MAXOPBLOCKS
  blocks for every admitted operation; otherwise, and during a commit, the process goes to sleep on the
  log with the log's lock free, and a later pass of the loop decides again.
\<close>
theorem begin_op_reserves:
  assumes r: "fs_ready p s"
  shows "begin_op s =
    (if \<not> committing s \<and> lh_n s + (outstanding s + 1) * 10 \<le> 30 then Ok () ((settle s)\<lparr>outstanding := outstanding s + 1\<rparr>)
     else Sleep ((acquired (L_proc p) s)\<lparr>procs := (procs s)(p := going_to_sleep p Chan_log (procs s p))\<rparr>))"
proof -
  have acq: "acquire L_log s = Ok () (acquired L_log s)" by (rule acquire_acquired [OF fs_readyD(2) [OF r]])
  have sl: "sleep Chan_log L_log (acquired L_log s) =
      Sleep ((acquired (L_proc p) s)\<lparr>procs := (procs s)(p := going_to_sleep p Chan_log (procs s p))\<rparr>)"
    using fs_readyD [OF r] by (intro sleep_effect) simp_all
  have "fs_ready p (s\<lparr>outstanding := outstanding s + 1\<rparr>)" using r by (simp add: fs_ready_def irq_state_ok_def)
  then have "release L_log (acquired L_log (s\<lparr>outstanding := outstanding s + 1\<rparr>)) = Ok () (settle (s\<lparr>outstanding := outstanding s + 1\<rparr>))"
    by (intro release_acquired fs_readyD)
  moreover have "settle (s\<lparr>outstanding := outstanding s + 1\<rparr>) = (settle s)\<lparr>outstanding := outstanding s + 1\<rparr>"
    by (cases s) (simp add: settle_def)
  ultimately show ?thesis using acq sl
    by (auto simp: begin_op_def begin_op_round_def acquired_klog LOGBLOCKS_def MAXOPBLOCKS_def)
qed

theorem begin_op_reserves_witness:
  "begin_op sample_log = Ok () ((settle sample_log)\<lparr>outstanding := 2\<rparr>)"
  using begin_op_reserves [OF cache_atD(1) [OF log_readyD(1) [OF sample_log_ready]]]
  by (simp add: sample_log_def kdisk.defs)

end
