(* ===== verification/Xv6_Fs.thy ===== *)
theory Xv6_Fs
  imports Xv6_Recovery
begin

text \<open>
  The file system (fs.c): block allocation, inodes, file contents, directories and path names, over
  the log and the buffer cache. Structures on disk are read and written at their byte offsets.
\<close>

section \<open>fs.h, stat.h and file.h\<close>

definition ROOTINO :: u32 where "ROOTINO = 1"
definition FSMAGIC :: u32 where "FSMAGIC = 0x10203040"
definition NDIRECT :: nat where "NDIRECT = 12"
definition NINDIRECT :: nat where "NINDIRECT = BSIZE div 4"
definition MAXFILE :: nat where "MAXFILE = NDIRECT + NINDIRECT"
definition DINODE_SIZE :: nat where "DINODE_SIZE = 64"
definition IPB :: nat where "IPB = BSIZE div DINODE_SIZE"
definition BPB :: nat where "BPB = BSIZE * 8"
definition DIRSIZ :: nat where "DIRSIZ = 14"
definition DIRENT_SIZE :: nat where "DIRENT_SIZE = 16"
definition T_DIR :: u16 where "T_DIR = 1"
definition T_FILE :: u16 where "T_FILE = 2"
definition T_DEVICE :: u16 where "T_DEVICE = 3"

definition IBLOCK :: "u32 \<Rightarrow> superblock \<Rightarrow> u32" where
  "IBLOCK i sb = i div of_nat IPB + sb_inodestart sb"

definition BBLOCK :: "u32 \<Rightarrow> superblock \<Rightarrow> u32" where
  "BBLOCK b sb = b div of_nat BPB + sb_bmapstart sb"

text \<open>The on-disk inode and the in-memory copy. A C \<open>short\<close> is kept as its 16 bits.\<close>

record dinode =
  d_type :: u16
  d_major :: u16
  d_minor :: u16
  d_nlink :: u16
  d_size :: u32
  d_addrs :: "nat \<Rightarrow> u32"

record inode =
  idev :: u32
  inum :: u32
  iref :: int
  ivalid :: int
  itype :: u16
  imajor :: u16
  iminor :: u16
  nlink :: u16
  isize :: u32
  addrs :: "nat \<Rightarrow> u32"

record stat =
  st_dev :: u32
  st_ino :: u32
  st_type :: u16
  st_nlink :: u16
  st_size :: u64

record kfs = klog +
  fsb :: superblock
  inodes :: "nat \<Rightarrow> inode"

definition upd_inode :: "nat \<Rightarrow> (inode \<Rightarrow> inode) \<Rightarrow> ('x kfs_scheme, unit) kop" where
  "upd_inode i f = modify (\<lambda>s. s\<lparr>inodes := (inodes s)(i := f (inodes s i))\<rparr>)"

definition get_inode :: "nat \<Rightarrow> ('x kfs_scheme, inode) kop" where
  "get_inode i = gets (\<lambda>s. inodes s i)"

definition upd_data :: "nat \<Rightarrow> (u8 list \<Rightarrow> u8 list) \<Rightarrow> ('x kdisk_scheme, unit) kop" where
  "upd_data b f = upd_buf b (\<lambda>x. x\<lparr>bdata := f (bdata x)\<rparr>)"

definition get_data :: "nat \<Rightarrow> ('x kdisk_scheme, u8 list) kop" where
  "get_data b = gets (\<lambda>s. bdata (bufs s b))"

text \<open>\<open>(struct dinode *)bp->data + inum % IPB\<close>, read and written field by field.\<close>

definition dinode_off :: "u32 \<Rightarrow> nat" where
  "dinode_off n = DINODE_SIZE * (unat n mod IPB)"

definition read_dinode :: "u32 \<Rightarrow> u8 list \<Rightarrow> dinode" where
  "read_dinode n bs = (let off = dinode_off n in
     \<lparr>d_type = rd16 off bs, d_major = rd16 (off + 2) bs, d_minor = rd16 (off + 4) bs, d_nlink = rd16 (off + 6) bs,
      d_size = rd32 (off + 8) bs, d_addrs = (\<lambda>i. rd32 (off + 12 + 4 * i) bs)\<rparr>)"

definition write_dinode :: "u32 \<Rightarrow> dinode \<Rightarrow> u8 list \<Rightarrow> u8 list" where
  "write_dinode n d bs = (let off = dinode_off n in
     fold (\<lambda>i. wr32 (off + 12 + 4 * i) (d_addrs d i)) [0..<Suc NDIRECT]
       (wr32 (off + 8) (d_size d) (wr16 (off + 6) (d_nlink d) (wr16 (off + 4) (d_minor d) (wr16 (off + 2) (d_major d)
         (wr16 off (d_type d) bs))))))"

section \<open>Superblock and blocks\<close>

definition decode_sb :: "u8 list \<Rightarrow> superblock" where
  "decode_sb bs = \<lparr>sb_magic = rd32 0 bs, sb_size = rd32 4 bs, sb_nblocks = rd32 8 bs, sb_ninodes = rd32 12 bs,
     sb_nlog = rd32 16 bs, sb_logstart = rd32 20 bs, sb_inodestart = rd32 24 bs, sb_bmapstart = rd32 28 bs\<rparr>"

definition readsb :: "u32 \<Rightarrow> ('x kfs_scheme, unit) kop" where
  "readsb dev =
     kbind (bread dev 1) (\<lambda>bp.
     kbind (get_data bp) (\<lambda>bs.
     kthen (modify (\<lambda>s. s\<lparr>fsb := decode_sb bs\<rparr>)) (
     brelse bp)))"

definition bzero :: "u32 \<Rightarrow> u32 \<Rightarrow> ('x klog_scheme, unit) kop" where
  "bzero dev bno =
     kbind (bread dev bno) (\<lambda>bp.
     kthen (upd_data bp (\<lambda>_. replicate BSIZE 0)) (
     kthen (log_write bp) (
     brelse bp)))"

text \<open>\<open>bp->data[bi / 8] & (1 << (bi % 8))\<close>, and the bit set or cleared.\<close>

definition bit_used :: "nat \<Rightarrow> u8 list \<Rightarrow> bool" where
  "bit_used bi bs \<longleftrightarrow> bs ! (bi div 8) AND push_bit (bi mod 8) 1 \<noteq> 0"

definition set_used :: "nat \<Rightarrow> u8 list \<Rightarrow> u8 list" where
  "set_used bi bs = bs[bi div 8 := bs ! (bi div 8) OR push_bit (bi mod 8) 1]"

definition clear_used :: "nat \<Rightarrow> u8 list \<Rightarrow> u8 list" where
  "clear_used bi bs = bs[bi div 8 := bs ! (bi div 8) AND NOT (push_bit (bi mod 8) 1)]"

text \<open>The inner loop of \<open>balloc\<close>: the first free bit from \<open>bi\<close> on, at most \<open>k\<close> bits further.\<close>

fun balloc_scan :: "nat \<Rightarrow> nat \<Rightarrow> u8 list \<Rightarrow> nat option" where
  "balloc_scan bi 0 bs = None"
| "balloc_scan bi (Suc k) bs = (if \<not> bit_used bi bs then Some bi else balloc_scan (Suc bi) k bs)"

definition balloc_block :: "u32 \<Rightarrow> nat \<Rightarrow> ('x kfs_scheme, u32 option) kop" where
  "balloc_block dev b =
     kbind (gets fsb) (\<lambda>sb.
     kbind (bread dev (BBLOCK (of_nat b) sb)) (\<lambda>bp.
     kbind (get_data bp) (\<lambda>bs.
     case balloc_scan 0 (min BPB (unat (sb_size sb) - b)) bs of
       Some bi \<Rightarrow>
         kthen (upd_data bp (set_used bi)) (
         kthen (log_write bp) (
         kthen (brelse bp) (
         kthen (bzero dev (of_nat (b + bi))) (
         ret (Some (of_nat (b + bi)))))))
     | None \<Rightarrow> kthen (brelse bp) (ret None))))"

definition balloc :: "u32 \<Rightarrow> ('x kfs_scheme, u32) kop" where
  "balloc dev =
     kbind (gets (\<lambda>s. unat (sb_size (fsb s)))) (\<lambda>n.
     kbind (scan (balloc_block dev) (map (\<lambda>k. k * BPB) [0..<(n + BPB - 1) div BPB])) (\<lambda>r.
     case r of Some b \<Rightarrow> ret b | None \<Rightarrow> ret 0))"

definition bfree :: "u32 \<Rightarrow> u32 \<Rightarrow> ('x kfs_scheme, unit) kop" where
  "bfree dev b =
     kbind (gets fsb) (\<lambda>sb.
     kbind (bread dev (BBLOCK b sb)) (\<lambda>bp.
     let bi = unat b mod BPB in
     kbind (get_data bp) (\<lambda>bs.
     if \<not> bit_used bi bs then panic ''freeing free block'' else
     kthen (upd_data bp (clear_used bi)) (
     kthen (log_write bp) (
     brelse bp)))))"

section \<open>Inodes\<close>

definition iinit :: "('x kfs_scheme, unit) kop" where
  "iinit =
     kthen (initlock L_itable ''itable'') (
     for_each (\<lambda>i. initsleeplock (SL_inode i) ''inode'') [0..<NINODE])"

definition iupdate :: "nat \<Rightarrow> ('x kfs_scheme, unit) kop" where
  "iupdate ip =
     kbind (gets fsb) (\<lambda>sb.
     kbind (get_inode ip) (\<lambda>x.
     kbind (bread (idev x) (IBLOCK (inum x) sb)) (\<lambda>bp.
     kbind (get_inode ip) (\<lambda>x.
     kthen (upd_data bp (write_dinode (inum x) \<lparr>d_type = itype x, d_major = imajor x, d_minor = iminor x,
       d_nlink = nlink x, d_size = isize x, d_addrs = addrs x\<rparr>)) (
     kthen (log_write bp) (
     brelse bp))))))"

text \<open>The scan of \<open>iget\<close>: the entry found, or the first empty one.\<close>

fun iget_scan :: "(nat \<Rightarrow> inode) \<Rightarrow> u32 \<Rightarrow> u32 \<Rightarrow> nat list \<Rightarrow> nat option \<Rightarrow> nat + nat option" where
  "iget_scan tab dev n [] e = Inr e"
| "iget_scan tab dev n (i # is) e =
     (if iref (tab i) > 0 \<and> idev (tab i) = dev \<and> inum (tab i) = n then Inl i
      else iget_scan tab dev n is (if e = None \<and> iref (tab i) = 0 then Some i else e))"

definition iget :: "u32 \<Rightarrow> u32 \<Rightarrow> ('x kfs_scheme, nat) kop" where
  "iget dev n =
     kthen (acquire L_itable) (
     kbind (gets (\<lambda>s. iget_scan (inodes s) dev n [0..<NINODE] None)) (\<lambda>r.
     case r of
       Inl ip \<Rightarrow>
         kthen (upd_inode ip (\<lambda>x. x\<lparr>iref := iref x + 1\<rparr>)) (
         kthen (release L_itable) (
         ret ip))
     | Inr None \<Rightarrow> panic ''iget: no inodes''
     | Inr (Some ip) \<Rightarrow>
         kthen (upd_inode ip (\<lambda>x. x\<lparr>idev := dev, inum := n, iref := 1, ivalid := 0\<rparr>)) (
         kthen (release L_itable) (
         ret ip))))"

definition idup :: "nat \<Rightarrow> ('x kfs_scheme, nat) kop" where
  "idup ip =
     kthen (acquire L_itable) (
     kthen (upd_inode ip (\<lambda>x. x\<lparr>iref := iref x + 1\<rparr>)) (
     kthen (release L_itable) (
     ret ip)))"

definition ialloc_one :: "u32 \<Rightarrow> u16 \<Rightarrow> nat \<Rightarrow> ('x kfs_scheme, nat option) kop" where
  "ialloc_one dev type n =
     kbind (gets fsb) (\<lambda>sb.
     kbind (bread dev (IBLOCK (of_nat n) sb)) (\<lambda>bp.
     kbind (get_data bp) (\<lambda>bs.
     if d_type (read_dinode (of_nat n) bs) = 0 then
       kthen (upd_data bp (splice (dinode_off (of_nat n)) (replicate DINODE_SIZE 0))) (
       kthen (upd_data bp (wr16 (dinode_off (of_nat n)) type)) (
       kthen (log_write bp) (
       kthen (brelse bp) (
       kbind (iget dev (of_nat n)) (\<lambda>ip.
       ret (Some ip))))))
     else kthen (brelse bp) (ret None))))"

definition ialloc :: "u32 \<Rightarrow> u16 \<Rightarrow> ('x kfs_scheme, nat option) kop" where
  "ialloc dev type =
     kbind (gets (\<lambda>s. unat (sb_ninodes (fsb s)))) (\<lambda>n.
     scan (ialloc_one dev type) [1..<n])"

text \<open>An inode reference is an index of the table, so the tests for a null pointer have no counterpart.\<close>

definition ilock :: "nat \<Rightarrow> ('x kfs_scheme, unit) kop" where
  "ilock ip =
     kbind (get_inode ip) (\<lambda>x.
     if iref x < 1 then panic ''ilock'' else
     kthen (acquiresleep (SL_inode ip)) (
     kbind (get_inode ip) (\<lambda>x.
     kwhen (ivalid x = 0) (
       kbind (gets fsb) (\<lambda>sb.
       kbind (bread (idev x) (IBLOCK (inum x) sb)) (\<lambda>bp.
       kbind (get_data bp) (\<lambda>bs.
       let d = read_dinode (inum x) bs in
       kthen (upd_inode ip (\<lambda>x. x\<lparr>itype := d_type d, imajor := d_major d, iminor := d_minor d, nlink := d_nlink d,
         isize := d_size d, addrs := (\<lambda>i. if i \<le> NDIRECT then d_addrs d i else addrs x i)\<rparr>)) (
       kthen (brelse bp) (
       kthen (upd_inode ip (\<lambda>x. x\<lparr>ivalid := 1\<rparr>)) (
       kwhen (d_type d = 0) (panic ''ilock: no type'')))))))))))"

definition iunlock :: "nat \<Rightarrow> ('x kfs_scheme, unit) kop" where
  "iunlock ip =
     kbind (holdingsleep (SL_inode ip)) (\<lambda>h.
     kbind (get_inode ip) (\<lambda>x.
     if \<not> h \<or> iref x < 1 then panic ''iunlock'' else
     releasesleep (SL_inode ip)))"

section \<open>Inode contents\<close>

definition bmap :: "nat \<Rightarrow> u32 \<Rightarrow> ('x kfs_scheme, u32) kop" where
  "bmap ip bn =
     kbind (get_inode ip) (\<lambda>x.
     if unat bn < NDIRECT then
       (if addrs x (unat bn) = 0 then
          kbind (balloc (idev x)) (\<lambda>addr.
          if addr = 0 then ret 0 else
          kthen (upd_inode ip (\<lambda>x. x\<lparr>addrs := (addrs x)(unat bn := addr)\<rparr>)) (
          ret addr))
        else ret (addrs x (unat bn)))
     else if unat (bn - of_nat NDIRECT) < NINDIRECT then
       kbind (if addrs x NDIRECT = 0 then
                kbind (balloc (idev x)) (\<lambda>addr.
                kthen (kwhen (addr \<noteq> 0) (upd_inode ip (\<lambda>x. x\<lparr>addrs := (addrs x)(NDIRECT := addr)\<rparr>))) (
                ret addr))
              else ret (addrs x NDIRECT)) (\<lambda>ind.
       if ind = 0 then ret 0 else
       let k = 4 * unat (bn - of_nat NDIRECT) in
       kbind (bread (idev x) ind) (\<lambda>bp.
       kbind (get_data bp) (\<lambda>bs.
       kbind (if rd32 k bs = 0 then
                kbind (balloc (idev x)) (\<lambda>addr.
                kthen (kwhen (addr \<noteq> 0) (
                  kthen (upd_data bp (wr32 k addr)) (
                  log_write bp))) (
                ret addr))
              else ret (rd32 k bs)) (\<lambda>addr.
       kthen (brelse bp) (
       ret addr)))))
     else panic ''bmap: out of range'')"

definition itrunc_direct :: "nat \<Rightarrow> nat \<Rightarrow> ('x kfs_scheme, unit) kop" where
  "itrunc_direct ip i =
     kbind (get_inode ip) (\<lambda>x.
     kwhen (addrs x i \<noteq> 0) (
       kthen (bfree (idev x) (addrs x i)) (
       upd_inode ip (\<lambda>x. x\<lparr>addrs := (addrs x)(i := 0)\<rparr>))))"

definition itrunc_indirect :: "nat \<Rightarrow> nat \<Rightarrow> nat \<Rightarrow> ('x kfs_scheme, unit) kop" where
  "itrunc_indirect ip bp j =
     kbind (get_inode ip) (\<lambda>x.
     kbind (get_data bp) (\<lambda>bs.
     kwhen (rd32 (4 * j) bs \<noteq> 0) (bfree (idev x) (rd32 (4 * j) bs))))"

definition itrunc :: "nat \<Rightarrow> ('x kfs_scheme, unit) kop" where
  "itrunc ip =
     kthen (for_each (itrunc_direct ip) [0..<NDIRECT]) (
     kbind (get_inode ip) (\<lambda>x.
     kthen (kwhen (addrs x NDIRECT \<noteq> 0) (
       kbind (bread (idev x) (addrs x NDIRECT)) (\<lambda>bp.
       kthen (for_each (itrunc_indirect ip bp) [0..<NINDIRECT]) (
       kthen (brelse bp) (
       kthen (bfree (idev x) (addrs x NDIRECT)) (
       upd_inode ip (\<lambda>x. x\<lparr>addrs := (addrs x)(NDIRECT := 0)\<rparr>))))))) (
     kthen (upd_inode ip (\<lambda>x. x\<lparr>isize := 0\<rparr>)) (
     iupdate ip))))"

definition iput :: "nat \<Rightarrow> ('x kfs_scheme, unit) kop" where
  "iput ip =
     kthen (acquire L_itable) (
     kbind (get_inode ip) (\<lambda>x.
     kthen (kwhen (iref x = 1 \<and> ivalid x \<noteq> 0 \<and> nlink x = 0) (
       kthen (acquiresleep (SL_inode ip)) (
       kthen (release L_itable) (
       kthen (itrunc ip) (
       kthen (upd_inode ip (\<lambda>x. x\<lparr>itype := 0\<rparr>)) (
       kthen (iupdate ip) (
       kthen (upd_inode ip (\<lambda>x. x\<lparr>ivalid := 0\<rparr>)) (
       kthen (releasesleep (SL_inode ip)) (
       acquire L_itable))))))))) (
     kthen (upd_inode ip (\<lambda>x. x\<lparr>iref := iref x - 1\<rparr>)) (
     release L_itable))))"

definition iunlockput :: "nat \<Rightarrow> ('x kfs_scheme, unit) kop" where
  "iunlockput ip = kthen (iunlock ip) (iput ip)"

definition ireclaim_one :: "u32 \<Rightarrow> nat \<Rightarrow> ('x kfs_scheme, unit) kop" where
  "ireclaim_one dev n =
     kbind (gets fsb) (\<lambda>sb.
     kbind (bread dev (IBLOCK (of_nat n) sb)) (\<lambda>bp.
     kbind (get_data bp) (\<lambda>bs.
     let d = read_dinode (of_nat n) bs in
     kbind (if d_type d \<noteq> 0 \<and> d_nlink d = 0 then kbind (iget dev (of_nat n)) (\<lambda>ip. ret (Some ip)) else ret None) (\<lambda>r.
     kthen (brelse bp) (
     case r of
       None \<Rightarrow> ret ()
     | Some ip \<Rightarrow>
         kthen begin_op (
         kthen (ilock ip) (
         kthen (iunlock ip) (
         kthen (iput ip) (
         end_op)))))))))"

definition ireclaim :: "u32 \<Rightarrow> ('x kfs_scheme, unit) kop" where
  "ireclaim dev =
     kbind (gets (\<lambda>s. unat (sb_ninodes (fsb s)))) (\<lambda>n.
     for_each (ireclaim_one dev) [1..<n])"

definition fsinit :: "u32 \<Rightarrow> ('x kfs_scheme, unit) kop" where
  "fsinit dev =
     kthen (readsb dev) (
     kbind (gets fsb) (\<lambda>sb.
     if sb_magic sb \<noteq> FSMAGIC then panic ''invalid file system'' else
     kthen (initlog dev sb) (
     ireclaim dev)))"

definition stati :: "nat \<Rightarrow> ('x kfs_scheme, stat) kop" where
  "stati ip =
     kbind (get_inode ip) (\<lambda>x.
     ret \<lparr>st_dev = idev x, st_ino = inum x, st_type = itype x, st_nlink = nlink x, st_size = ucast (isize x)\<rparr>)"

text \<open>
  Where \<open>readi\<close> puts the bytes and where \<open>writei\<close> takes them from: a user address, a kernel address, or
  a local variable of the caller (the directory entries of \<open>dirlookup\<close> and \<open>dirlink\<close>). For a local
  destination the bytes are part of the result.
\<close>

datatype iodst = To_user u64 | To_kernel u64 | To_local

datatype iosrc = From_user u64 | From_kernel u64 | From_local "u8 list"

definition copy_to :: "iodst \<Rightarrow> nat \<Rightarrow> u8 list \<Rightarrow> ('x kproc_scheme, int) kop" where
  "copy_to dst tot bs =
     kbind myproc (\<lambda>mp.
     case dst of
       To_user a \<Rightarrow> kbind (deref mp) (\<lambda>p. kbind (get_proc p) (\<lambda>q. copyout_local (pagetable q) (a + of_nat tot) bs))
     | To_kernel a \<Rightarrow> kthen (upd_mem (store_bytes (a + of_nat tot) bs)) (ret 0)
     | To_local \<Rightarrow> ret 0)"

definition copy_from :: "iosrc \<Rightarrow> nat \<Rightarrow> nat \<Rightarrow> ('x kproc_scheme, int \<times> u8 list) kop" where
  "copy_from src tot m =
     kbind myproc (\<lambda>mp.
     case src of
       From_user a \<Rightarrow> kbind (deref mp) (\<lambda>p. kbind (get_proc p) (\<lambda>q. copyin_local (pagetable q) (a + of_nat tot) (of_nat m) []))
     | From_kernel a \<Rightarrow> kbind (gets (\<lambda>s. load_bytes (mem s) (a + of_nat tot) m)) (\<lambda>bs. ret (0, bs))
     | From_local xs \<Rightarrow> ret (0, take m (drop tot xs)))"

definition chunk :: "nat \<Rightarrow> nat \<Rightarrow> nat \<Rightarrow> nat" where
  "chunk off tot n = min (n - tot) (BSIZE - off mod BSIZE)"

lemma chunk_pos: "tot < n \<Longrightarrow> 0 < chunk off tot n"
  by (simp add: chunk_def BSIZE_def)

text \<open>The loop of \<open>readi\<close>: offsets cannot overflow after the tests at its start.\<close>

function readi_loop :: "nat \<Rightarrow> iodst \<Rightarrow> nat \<Rightarrow> nat \<Rightarrow> nat \<Rightarrow> u8 list \<Rightarrow> ('x kfs_scheme, int \<times> u8 list) kop" where
  "readi_loop ip dst off tot n acc =
     (if tot < n then
        kbind (bmap ip (of_nat (off div BSIZE))) (\<lambda>addr.
        if addr = 0 then ret (int tot, acc) else
        kbind (get_inode ip) (\<lambda>x.
        kbind (bread (idev x) addr) (\<lambda>bp.
        kbind (get_data bp) (\<lambda>bs.
        kbind (copy_to dst tot (take (chunk off tot n) (drop (off mod BSIZE) bs))) (\<lambda>r.
        if r = - 1 then kthen (brelse bp) (ret (- 1, acc))
        else kthen (brelse bp) (
          readi_loop ip dst (off + chunk off tot n) (tot + chunk off tot n) n
            (acc @ take (chunk off tot n) (drop (off mod BSIZE) bs)))))))
        )
      else ret (int tot, acc))"
  by pat_completeness auto
termination
proof (relation "measure (\<lambda>(ip, dst, off, tot, n, acc). n - tot)")
  fix ip dst off tot n acc bs
  assume "(tot :: nat) < n"
  then show "((ip, dst, off + chunk off tot n, tot + chunk off tot n, n, acc @ bs), ip, dst, off, tot, n, acc)
      \<in> measure (\<lambda>(ip, dst, off, tot, n, acc). n - tot)"
    using chunk_pos [of tot n off] by simp
qed simp

declare readi_loop.simps [simp del]

definition readi :: "nat \<Rightarrow> iodst \<Rightarrow> u32 \<Rightarrow> u32 \<Rightarrow> ('x kfs_scheme, int \<times> u8 list) kop" where
  "readi ip dst off n =
     kbind (get_inode ip) (\<lambda>x.
     if off > isize x \<or> off + n < off then ret (0, []) else
     readi_loop ip dst (unat off) 0 (unat (if off + n > isize x then isize x - off else n)) [])"

text \<open>
  The loop of \<open>writei\<close>. When the copy fails the bytes copied before the failure are already in the
  buffer. The result is the count and the offset reached.
\<close>

function writei_loop :: "nat \<Rightarrow> iosrc \<Rightarrow> nat \<Rightarrow> nat \<Rightarrow> nat \<Rightarrow> ('x kfs_scheme, nat \<times> nat) kop" where
  "writei_loop ip src off tot n =
     (if tot < n then
        kbind (bmap ip (of_nat (off div BSIZE))) (\<lambda>addr.
        if addr = 0 then ret (tot, off) else
        kbind (get_inode ip) (\<lambda>x.
        kbind (bread (idev x) addr) (\<lambda>bp.
        kbind (copy_from src tot (chunk off tot n)) (\<lambda>(r, bs).
        kthen (upd_data bp (splice (off mod BSIZE) bs)) (
        if r = - 1 then kthen (brelse bp) (ret (tot, off))
        else kthen (log_write bp) (
          kthen (brelse bp) (
          writei_loop ip src (off + chunk off tot n) (tot + chunk off tot n) n)))))))
      else ret (tot, off))"
  by pat_completeness auto
termination
proof (relation "measure (\<lambda>(ip, src, off, tot, n). n - tot)")
  fix ip src off tot n
  assume "(tot :: nat) < n"
  then show "((ip, src, off + chunk off tot n, tot + chunk off tot n, n), ip, src, off, tot, n)
      \<in> measure (\<lambda>(ip, src, off, tot, n). n - tot)"
    using chunk_pos [of tot n off] by simp
qed simp

declare writei_loop.simps [simp del]

definition writei :: "nat \<Rightarrow> iosrc \<Rightarrow> u32 \<Rightarrow> u32 \<Rightarrow> ('x kfs_scheme, int) kop" where
  "writei ip src off n =
     kbind (get_inode ip) (\<lambda>x.
     if off > isize x \<or> off + n < off then ret (- 1) else
     if unat (off + n) > MAXFILE * BSIZE then ret (- 1) else
     kbind (writei_loop ip src (unat off) 0 (unat n)) (\<lambda>(tot, off').
     kbind (get_inode ip) (\<lambda>x.
     kthen (kwhen (off' > unat (isize x)) (upd_inode ip (\<lambda>x. x\<lparr>isize := of_nat off'\<rparr>))) (
     kthen (iupdate ip) (
     ret (int tot))))))"

section \<open>Directories\<close>

text \<open>
  Strings that live in local variables are byte lists without the terminating NUL; \<open>with_strings\<close> lays
  two of them out in memory, so that the routines of string.c apply to them.
\<close>

definition with_strings :: "u8 list \<Rightarrow> u8 list \<Rightarrow> memory" where
  "with_strings xs ys = store_bytes 0 (xs @ [0]) (store_bytes 0x10000 (ys @ [0]) (\<lambda>_. 0))"

definition namecmp :: "u8 list \<Rightarrow> u8 list \<Rightarrow> int" where
  "namecmp xs ys = strncmp 0 0x10000 (of_nat DIRSIZ) (with_strings xs ys)"

text \<open>\<open>strncpy(de.name, name, DIRSIZ)\<close>.\<close>

definition dirent_name :: "u8 list \<Rightarrow> u8 list" where
  "dirent_name nm = load_bytes (strncpy 0x10000 0 (int DIRSIZ) (with_strings nm [])) 0x10000 DIRSIZ"

definition dirent_offsets :: "u32 \<Rightarrow> nat list" where
  "dirent_offsets n = map (\<lambda>k. DIRENT_SIZE * k) [0..<(unat n + DIRENT_SIZE - 1) div DIRENT_SIZE]"

definition dirlookup_one :: "nat \<Rightarrow> u8 list \<Rightarrow> nat \<Rightarrow> ('x kfs_scheme, (nat \<times> u32) option) kop" where
  "dirlookup_one dp nm off =
     kbind (readi dp To_local (of_nat off) (of_nat DIRENT_SIZE)) (\<lambda>(r, de).
     if r \<noteq> int DIRENT_SIZE then panic ''dirlookup read'' else
     if rd16 0 de = 0 then ret None else
     if namecmp nm (drop 2 de) = 0 then
       kbind (get_inode dp) (\<lambda>x.
       kbind (iget (idev x) (ucast (rd16 0 de))) (\<lambda>ip.
       ret (Some (ip, of_nat off))))
     else ret None)"

text \<open>The result is the inode and the offset of its entry (\<open>*poff\<close>). \<open>dp->size\<close> does not change in the loop.\<close>

definition dirlookup :: "nat \<Rightarrow> u8 list \<Rightarrow> ('x kfs_scheme, (nat \<times> u32) option) kop" where
  "dirlookup dp nm =
     kbind (get_inode dp) (\<lambda>x.
     if itype x \<noteq> T_DIR then panic ''dirlookup not DIR'' else
     scan (dirlookup_one dp nm) (dirent_offsets (isize x)))"

definition dirlink_one :: "nat \<Rightarrow> nat \<Rightarrow> ('x kfs_scheme, nat option) kop" where
  "dirlink_one dp off =
     kbind (readi dp To_local (of_nat off) (of_nat DIRENT_SIZE)) (\<lambda>(r, de).
     if r \<noteq> int DIRENT_SIZE then panic ''dirlink read'' else
     if rd16 0 de = 0 then ret (Some off) else ret None)"

definition dirlink :: "nat \<Rightarrow> u8 list \<Rightarrow> u32 \<Rightarrow> ('x kfs_scheme, int) kop" where
  "dirlink dp nm n =
     kbind (dirlookup dp nm) (\<lambda>found.
     case found of
       Some (ip, _) \<Rightarrow> kthen (iput ip) (ret (- 1))
     | None \<Rightarrow>
         kbind (get_inode dp) (\<lambda>x.
         kbind (scan (dirlink_one dp) (dirent_offsets (isize x))) (\<lambda>r.
         let off = (case r of Some off \<Rightarrow> off | None \<Rightarrow> DIRENT_SIZE * ((unat (isize x) + DIRENT_SIZE - 1) div DIRENT_SIZE));
             de = wr16 0 (ucast n) (replicate 2 0 @ dirent_name nm) in
         kbind (writei dp (From_local de) (of_nat off) (of_nat DIRENT_SIZE)) (\<lambda>w.
         if w \<noteq> int DIRENT_SIZE then ret (- 1) else ret 0))))"

section \<open>Paths\<close>

definition SLASH :: u8 where "SLASH = 47"

fun skip_slashes :: "u8 list \<Rightarrow> u8 list" where
  "skip_slashes [] = []"
| "skip_slashes (c # cs) = (if c = SLASH then skip_slashes cs else c # cs)"

text \<open>The loop over one element: the bytes up to a slash or the end, and the rest.\<close>

fun take_elem :: "u8 list \<Rightarrow> u8 list \<times> u8 list" where
  "take_elem [] = ([], [])"
| "take_elem (c # cs) = (if c = SLASH then ([], c # cs) else (let (e, rest) = take_elem cs in (c # e, rest)))"

definition skipelem :: "u8 list \<Rightarrow> (u8 list \<times> u8 list) option" where
  "skipelem path =
     (let s = skip_slashes path in
      if s = [] then None else
      (let (e, rest) = take_elem s in
       Some (if length e \<ge> DIRSIZ then take DIRSIZ e else e, skip_slashes rest)))"

lemma length_skip_slashes: "length (skip_slashes xs) \<le> length xs"
  by (induction xs) auto

lemma length_take_elem: "take_elem xs = (e, r) \<Longrightarrow> length xs = length e + length r"
  by (induction xs arbitrary: e r) (auto split: if_splits prod.splits)

lemma skip_slashes_head: "skip_slashes xs = c # cs \<Longrightarrow> c \<noteq> SLASH"
  by (induction xs) (auto split: if_splits)

lemma skipelem_shorter: "skipelem path = Some (e, rest) \<Longrightarrow> length rest < length path"
proof -
  assume a: "skipelem path = Some (e, rest)"
  then obtain c cs where s: "skip_slashes path = c # cs" by (cases "skip_slashes path") (auto simp: skipelem_def)
  obtain e' r where t: "take_elem cs = (e', r)" by fastforce
  have "rest = skip_slashes r" using a s t skip_slashes_head [OF s] by (simp add: skipelem_def)
  then have "length rest \<le> length cs" using length_skip_slashes [of r] length_take_elem [OF t] by simp
  then show ?thesis using s length_skip_slashes [of path] by simp
qed

text \<open>The loop of \<open>namex\<close>; the result carries the last path element (\<open>name\<close>).\<close>

function namex_loop :: "bool \<Rightarrow> nat \<Rightarrow> u8 list \<Rightarrow> u8 list \<Rightarrow> ('x kfs_scheme, (nat \<times> u8 list) option) kop" where
  "namex_loop nameiparent ip path nm =
     (case skipelem path of
        None \<Rightarrow>
          if nameiparent then kthen (iput ip) (ret None) else ret (Some (ip, nm))
      | Some (e, rest) \<Rightarrow>
          kthen (ilock ip) (
          kbind (get_inode ip) (\<lambda>x.
          if itype x \<noteq> T_DIR then kthen (iunlockput ip) (ret None) else
          if nameiparent \<and> rest = [] then kthen (iunlock ip) (ret (Some (ip, e))) else
          kbind (dirlookup ip e) (\<lambda>r.
          case r of
            None \<Rightarrow> kthen (iunlockput ip) (ret None)
          | Some (next, _) \<Rightarrow> kthen (iunlockput ip) (namex_loop nameiparent next rest e)))))"
  by pat_completeness auto
termination
  by (relation "measure (\<lambda>(np, ip, path, nm). length path)") (auto simp: skipelem_shorter)

declare namex_loop.simps [simp del]

definition namex :: "u8 list \<Rightarrow> bool \<Rightarrow> ('x kfs_scheme, (nat \<times> u8 list) option) kop" where
  "namex path nameiparent =
     kbind (case path of
         c # _ \<Rightarrow> if c = SLASH then iget ROOTDEV ROOTINO
                  else kbind myproc (\<lambda>mp. kbind (deref mp) (\<lambda>p. kbind (get_proc p) (\<lambda>q. kbind (deref (cwd q)) idup)))
       | [] \<Rightarrow> kbind myproc (\<lambda>mp. kbind (deref mp) (\<lambda>p. kbind (get_proc p) (\<lambda>q. kbind (deref (cwd q)) idup)))) (\<lambda>ip.
     namex_loop nameiparent ip path [])"

definition namei :: "u8 list \<Rightarrow> ('x kfs_scheme, nat option) kop" where
  "namei path = kbind (namex path False) (\<lambda>r. ret (map_option fst r))"

definition nameiparent :: "u8 list \<Rightarrow> ('x kfs_scheme, (nat \<times> u8 list) option) kop" where
  "nameiparent path = namex path True"

end
