(* ===== verification/Xv6_Inode.thy ===== *)
theory Xv6_Inode
  imports Xv6_Fs
begin

text \<open>
  Properties of the file system operations of fs.c. A process inside an operation visits blocks: it
  reads a block, may change and log it, and releases it. The effect of a visit on what readers of the
  blocks see is stated once (\<open>visit\<close>); allocation, inodes, file contents and directories build on it.
\<close>

section \<open>Visiting blocks\<close>

lemma myproc_ready: "fs_ready p s \<Longrightarrow> myproc s = Ok (Some p) (settle s)"
  using myproc_effect [of s] irq_okD [of s] by (simp add: settle_def fs_ready_def)

definition log_add :: "u32 \<Rightarrow> u32 list \<Rightarrow> u32 list" where
  "log_add n L = (if n \<in> set L then L else L @ [n])"

lemma set_log_add [simp]: "set (log_add n L) = insert n (set L)"
  by (auto simp: log_add_def)

lemma length_log_add: "length (log_add n L) \<le> Suc (length L)"
  by (simp add: log_add_def)

text \<open>
  A step inside an operation: the buffers held afterwards, the blocks logged, and the contents readers
  see. Nothing is written to the disk, and everything but the cache and the log header is as before.
\<close>

definition fs_step ::
  "nat \<Rightarrow> (u32 \<rightharpoonup> nat) \<Rightarrow> u32 list \<Rightarrow> (u32 \<Rightarrow> u8 list) \<Rightarrow> 'x klog_scheme \<Rightarrow> 'x klog_scheme \<Rightarrow> bool" where
  "fs_step p H L f s t \<longleftrightarrow> log_ready p H t \<and> logged t = L \<and> blk_map t = f \<and> wrote [] s t \<and> log_base t = log_base s"

lemma fs_stepD:
  assumes "fs_step p H L f s t"
  shows "log_ready p H t" "logged t = L" "blk_map t = f" "wrote [] s t" "log_base t = log_base s"
  using assms by (simp_all add: fs_step_def)

lemma fs_step_trans: "fs_step p H L f s t \<Longrightarrow> fs_step p H' L' f' t u \<Longrightarrow> fs_step p H' L' f' s u"
  by (simp add: fs_step_def)

lemma fs_step_refl: "log_ready p H s \<Longrightarrow> fs_step p H (logged s) (blk_map s) s s"
  by (simp add: fs_step_def)

lemma log_base_bio: "bio_base t = bio_base s \<Longrightarrow> log_base t = log_base s"
proof -
  assume e: "bio_base t = bio_base s"
  have c: "bio_base (x\<lparr>lh_n := k, lh_block := g\<rparr>) = (bio_base x)\<lparr>lh_n := k, lh_block := g\<rparr>" for x :: "'a klog_scheme" and k g
    by (simp add: bio_base_def disk_base_def settle_def)
  show ?thesis using e by (simp add: log_base_def c)
qed

lemma log_base_fields:
  fixes s t :: "'x klog_scheme"
  assumes "log_base t = log_base s"
  shows "log_dev t = log_dev s" "log_start t = log_start s" "outstanding t = outstanding s"
proof -
  have "bio_base (t\<lparr>lh_n := 0, lh_block := (\<lambda>_. 0)\<rparr>) = bio_base (s\<lparr>lh_n := 0, lh_block := (\<lambda>_. 0)\<rparr>)"
    using assms by (simp add: log_base_def)
  from bio_base_log [OF this] show "log_dev t = log_dev s" "log_start t = log_start s" "outstanding t = outstanding s" by simp_all
qed

lemma log_base_kfs:
  fixes s t :: "'x kfs_scheme"
  assumes "log_base t = log_base s"
  shows "fsb t = fsb s" "inodes t = inodes s"
proof -
  have c: "fsb (log_base x) = fsb x" "inodes (log_base x) = inodes x" for x :: "'x kfs_scheme"
    by (simp_all add: log_base_def bio_base_def disk_base_def settle_def)
  from arg_cong [OF assms, of fsb] arg_cong [OF assms, of inodes]
  show "fsb t = fsb s" "inodes t = inodes s" by (simp_all add: c)
qed

lemma cache_fs_step:
  assumes r: "log_ready p H s" and c: "cache_step p (set (logged s)) H' [] f s t"
  shows "fs_step p H' (logged s) f s t"
proof -
  note C = cache_stepD [OF c] and R = log_readyD [OF r]
  have l: "logged t = logged s" by (rule logged_base [OF C(4)])
  have f: "log_dev t = log_dev s" "log_start t = log_start s" "lh_n t = lh_n s" using bio_base_log [OF C(4)] by simp_all
  have "log_ready p H' t" using C(1) R l f by (simp add: log_ready_def log_placed_def)
  then show ?thesis using C l log_base_bio [OF C(4)] by (simp add: fs_step_def)
qed

text \<open>
  Inside an operation of process \<open>p\<close> that holds the buffers \<open>H\<close>, with room for \<open>k\<close> more blocks in the
  cache and in the log.
\<close>

definition fs_op :: "nat \<Rightarrow> (u32 \<rightharpoonup> nat) \<Rightarrow> nat \<Rightarrow> 'x klog_scheme \<Rightarrow> bool" where
  "fs_op p H k s \<longleftrightarrow> log_ready p H s \<and> 1 \<le> outstanding s \<and> finite (dom H) \<and> length (logged s) + card (dom H) + k \<le> NBUF"

lemma fs_opD:
  assumes "fs_op p H k s"
  shows "log_ready p H s" "1 \<le> outstanding s" "finite (dom H)" "length (logged s) + card (dom H) + k \<le> NBUF"
  using assms by (simp_all add: fs_op_def)

lemma fs_op_mono: "fs_op p H k s \<Longrightarrow> j \<le> k \<Longrightarrow> fs_op p H j s"
  by (simp add: fs_op_def)

lemma fs_op_step:
  assumes "fs_op p H k s" "fs_step p H L f s t" "length L + j \<le> length (logged s) + k"
  shows "fs_op p H j t"
  using assms log_base_fields(3) [OF fs_stepD(5) [OF assms(2)]] by (simp add: fs_op_def fs_step_def)

lemma fs_op_hold:
  assumes "fs_op p H (Suc k) s" "fs_step p (H(n \<mapsto> b)) (logged s) f s t"
  shows "fs_op p (H(n \<mapsto> b)) k t"
proof -
  have "card (insert n (dom H)) \<le> Suc (card (dom H))" by (rule card_insert_le_m1) auto
  then show ?thesis using assms log_base_fields(3) [OF fs_stepD(5) [OF assms(2)]] by (simp add: fs_op_def fs_step_def)
qed

lemma fs_log_write:
  assumes o: "fs_op p H (Suc k) s" and b: "H n = Some b" and n: "n \<notin> log_blocks (log_start s)"
  shows "\<exists>t. log_write b s = Ok () t \<and> fs_step p H (log_add n (logged s)) (blk_map s) s t"
proof -
  note O = fs_opD [OF o] and R = log_readyD [OF O(1)]
  have "lh_n s < int LOGBLOCKS" using O(4) R(3,7) by (simp add: LOGBLOCKS_30)
  from log_write_effect [OF O(1) b n this O(2)] show ?thesis by (simp add: fs_step_def log_add_def)
qed

lemma fs_upd_data:
  assumes r: "log_ready p H s" and b: "H n = Some b"
  shows "\<exists>t. upd_data b g s = Ok () t \<and> fs_step p H (logged s) ((blk_map s)(n := g (blk_map s n))) s t"
proof -
  have c: "cache_at p (set (logged s)) H s" by (rule log_readyD(1) [OF r])
  have d: "bdata (bufs s b) = blk_map s n" using held_data [OF c b] held_small [OF c b] by (simp add: blk_map_def)
  show ?thesis using cache_fs_step [OF r modify_step [OF c b]] by (simp add: upd_data_def upd_buf_def d)
qed

lemma fs_brelse:
  assumes r: "log_ready p H s" and b: "H n = Some b" and cl: "n \<in> set (logged s) \<or> disk_map (sectors s) n = blk_map s n"
  shows "\<exists>t. brelse b s = Ok () t \<and> fs_step p (H(n := None)) (logged s) (blk_map s) s t"
  using brelse_step [OF log_readyD(1) [OF r] b cl] cache_fs_step [OF r] by blast

lemma fs_bread:
  assumes o: "fs_op p H (Suc k) s" and n: "n \<notin> dom H" "n < 0x80000000"
  shows "\<exists>b t. bread ROOTDEV n s = Ok b t \<and> fs_step p (H(n \<mapsto> b)) (logged s) (blk_map s) s t \<and> bdata (bufs t b) = blk_map s n"
proof -
  note O = fs_opD [OF o] and R = log_readyD [OF O(1)]
  have "card (set (logged s) \<union> dom H) \<le> card (set (logged s)) + card (dom H)" by (rule card_Un_le)
  then have "card (set (logged s) \<union> dom H) < NBUF" using O(4) card_length [of "logged s"] by linarith
  then obtain b t where t: "bread ROOTDEV n s = Ok b t" "cache_step p (set (logged s)) (H(n \<mapsto> b)) [] (blk_map s) s t"
    using bread_step [OF R(1) n _ O(3)] by blast
  have c: "cache_at p (set (logged s)) (H(n \<mapsto> b)) t" by (rule cache_stepD(1) [OF t(2)])
  have "bdata (bufs t b) = blk_map t n" using held_data [OF c, of n b] n(2) by (simp add: blk_map_def)
  then show ?thesis using t cache_stepD(3) [OF t(2)] cache_fs_step [OF O(1) t(2)] by metis
qed

text \<open>A visit of block \<open>n\<close>: read and released, or read, changed, logged and released.\<close>

lemma visit:
  assumes o: "fs_op p H (Suc k) s" and n: "n \<notin> dom H" "n < 0x80000000"
  shows "\<exists>b t. bread ROOTDEV n s = Ok b t \<and> fs_step p (H(n \<mapsto> b)) (logged s) (blk_map s) s t \<and> bdata (bufs t b) = blk_map s n \<and>
    (\<exists>u. brelse b t = Ok () u \<and> fs_step p H (logged s) (blk_map s) s u) \<and>
    (\<forall>g. n \<notin> log_blocks (log_start s) \<longrightarrow> (\<exists>u v w. upd_data b g t = Ok () u \<and> log_write b u = Ok () v \<and> brelse b v = Ok () w \<and>
       fs_step p H (log_add n (logged s)) ((blk_map s)(n := g (blk_map s n))) s w))"
proof -
  note O = fs_opD [OF o] and R = log_readyD [OF O(1)]
  obtain b t where t: "bread ROOTDEV n s = Ok b t" "fs_step p (H(n \<mapsto> b)) (logged s) (blk_map s) s t" "bdata (bufs t b) = blk_map s n"
    using fs_bread [OF o n] by blast
  note T = fs_stepD [OF t(2)]
  have H: "(H(n \<mapsto> b)) n = Some b" "(H(n \<mapsto> b))(n := None) = H" using n(1) by auto
  have "n \<in> set (logged s) \<or> disk_map (sectors t) n = blk_map t n"
    using clean_step [OF R(1), of n] n(1) T(3,4) by auto
  then obtain u where u: "brelse b t = Ok () u" "fs_step p H (logged t) (blk_map t) t u"
    using fs_brelse [OF T(1) H(1)] T(2) H(2) by metis
  have ro: "\<exists>u. brelse b t = Ok () u \<and> fs_step p H (logged s) (blk_map s) s u"
    using u fs_step_trans [OF t(2) u(2)] T(2,3) by metis
  have "\<exists>u v w. upd_data b g t = Ok () u \<and> log_write b u = Ok () v \<and> brelse b v = Ok () w \<and>
       fs_step p H (log_add n (logged s)) ((blk_map s)(n := g (blk_map s n))) s w" if nl: "n \<notin> log_blocks (log_start s)" for g
  proof -
    obtain u where u: "upd_data b g t = Ok () u" "fs_step p (H(n \<mapsto> b)) (logged t) ((blk_map t)(n := g (blk_map t n))) t u"
      using fs_upd_data [OF T(1) H(1)] by blast
    note su = fs_step_trans [OF t(2) u(2)] and U = fs_stepD [OF u(2)]
    have ob: "log_start u = log_start s" "1 \<le> outstanding u" using log_base_fields [OF fs_stepD(5) [OF su]] O(2) by simp_all
    have "lh_n u < int LOGBLOCKS" using O(4) R(7) log_readyD(3,7) [OF U(1)] U(2) T(2) by (simp add: LOGBLOCKS_30)
    then obtain v where v: "log_write b u = Ok () v" "fs_step p (H(n \<mapsto> b)) (log_add n (logged u)) (blk_map u) u v"
      using log_write_effect [OF U(1) H(1)] nl ob unfolding fs_step_def log_add_def by metis
    note V = fs_stepD [OF v(2)]
    obtain w where w: "brelse b v = Ok () w" "fs_step p H (logged v) (blk_map v) v w"
      using fs_brelse [OF V(1) H(1)] V(2) H(2) by (metis insertI1 set_log_add)
    have "fs_step p H (logged v) (blk_map v) s w" using fs_step_trans [OF su fs_step_trans [OF v(2) w(2)]] .
    then show ?thesis using u v w V(2,3) U(2,3) T(2,3) by metis
  qed
  then show ?thesis using t ro by blast
qed

section \<open>Inodes on disk\<close>

definition dinode_eq :: "dinode \<Rightarrow> dinode \<Rightarrow> bool" where
  "dinode_eq d e \<longleftrightarrow> d_type d = d_type e \<and> d_major d = d_major e \<and> d_minor d = d_minor e \<and> d_nlink d = d_nlink e \<and>
     d_size d = d_size e \<and> (\<forall>i \<le> NDIRECT. d_addrs d i = d_addrs e i)"

definition dinode_of :: "inode \<Rightarrow> dinode" where
  "dinode_of x = \<lparr>d_type = itype x, d_major = imajor x, d_minor = iminor x, d_nlink = nlink x, d_size = isize x, d_addrs = addrs x\<rparr>"

lemma BSIZE_1024: "BSIZE = 1024" "IPB = 16" "DINODE_SIZE = 64" "NDIRECT = 12" "NINDIRECT = 256" "BPB = 8192"
  by (simp_all add: BSIZE_def IPB_def DINODE_SIZE_def NDIRECT_def NINDIRECT_def BPB_def)

lemma dinode_off_bound: "dinode_off n + 64 \<le> BSIZE"
  using mod_less_divisor [of 16 "unat n"] by (simp add: dinode_off_def BSIZE_1024)

lemma dinode_off_other: "unat m mod IPB \<noteq> unat n mod IPB \<Longrightarrow> dinode_off m + 64 \<le> dinode_off n \<or> dinode_off n + 64 \<le> dinode_off m"
  by (auto simp: dinode_off_def BSIZE_1024)

lemma length_write_dinode [simp]: "length (write_dinode n d bs) = length bs"
  by (simp add: write_dinode_def Let_def)

lemma rd16_fold_other:
  "(\<And>i. i \<in> set is \<Longrightarrow> k + 2 \<le> off i \<or> off i + 4 \<le> k) \<Longrightarrow> rd16 k (fold (\<lambda>i. wr32 (off i) (w i)) is d) = rd16 k d"
  by (induction "is" arbitrary: d) auto

lemma rd32_fold_addrs:
  "i < n \<Longrightarrow> off + 4 * n \<le> length d \<Longrightarrow> rd32 (off + 4 * i) (fold (\<lambda>i. wr32 (off + 4 * i) (w i)) [0..<n] d) = w i"
proof (induction n)
  case (Suc n)
  have len: "off + 4 * n + 4 \<le> length (fold (\<lambda>i. wr32 (off + 4 * i) (w i)) [0..<n] d)" using Suc.prems by simp
  show ?case
  proof (cases "i = n")
    case True
    then show ?thesis using len by simp
  next
    case False
    then show ?thesis using Suc by (simp add: rd32_wr32_other)
  qed
qed simp

lemma read_write_dinode:
  assumes "length bs = BSIZE"
  shows "dinode_eq (read_dinode n (write_dinode n d bs)) d"
proof -
  have off: "dinode_off n + 64 \<le> length bs" using dinode_off_bound assms by simp
  have "rd32 (dinode_off n + 12 + 4 * i) (fold (\<lambda>i. wr32 (dinode_off n + 12 + 4 * i) (d_addrs d i)) [0..<Suc NDIRECT] e) = d_addrs d i"
    if "i \<le> NDIRECT" "length e = length bs" for i e
    using that off rd32_fold_addrs [of i "Suc NDIRECT" "dinode_off n + 12" e "d_addrs d"] by (simp add: BSIZE_1024 del: upt_Suc)
  moreover have "rd16 k (fold (\<lambda>i. wr32 (dinode_off n + 12 + 4 * i) (d_addrs d i)) [0..<Suc NDIRECT] e) = rd16 k e"
    if "k + 2 \<le> dinode_off n + 12" for k e using that by (intro rd16_fold_other) auto
  moreover have "rd32 k (fold (\<lambda>i. wr32 (dinode_off n + 12 + 4 * i) (d_addrs d i)) [0..<Suc NDIRECT] e) = rd32 k e"
    if "k + 4 \<le> dinode_off n + 12" for k e using that by (intro rd32_fold_other) auto
  ultimately show ?thesis
    using off unfolding dinode_eq_def read_dinode_def write_dinode_def Let_def by (simp del: upt_Suc)
qed

lemma read_write_dinode_other:
  assumes "unat m mod IPB \<noteq> unat n mod IPB"
  shows "dinode_eq (read_dinode m (write_dinode n d bs)) (read_dinode m bs)"
proof -
  note o = dinode_off_other [OF assms]
  have "rd16 k (fold (\<lambda>i. wr32 (dinode_off n + 12 + 4 * i) (d_addrs d i)) [0..<Suc NDIRECT] e) = rd16 k e"
    if "dinode_off m \<le> k" "k + 2 \<le> dinode_off m + 64" for k e
    using that o by (intro rd16_fold_other) (auto simp: BSIZE_1024)
  moreover have "rd32 k (fold (\<lambda>i. wr32 (dinode_off n + 12 + 4 * i) (d_addrs d i)) [0..<Suc NDIRECT] e) = rd32 k e"
    if "dinode_off m \<le> k" "k + 4 \<le> dinode_off m + 64" for k e
    using that o by (intro rd32_fold_other) (auto simp: BSIZE_1024)
  ultimately show ?thesis
    using o unfolding dinode_eq_def read_dinode_def write_dinode_def Let_def by (simp del: upt_Suc add: BSIZE_1024, elim disjE) auto
qed

lemma unat_div_IPB: "unat (m div of_nat IPB :: u32) = unat m div IPB"
  by (simp add: unat_div BSIZE_1024)

lemma IBLOCK_same: "IBLOCK m sb = IBLOCK n sb \<Longrightarrow> unat m mod IPB = unat n mod IPB \<Longrightarrow> m = n"
proof -
  assume "IBLOCK m sb = IBLOCK n sb" and md: "unat m mod IPB = unat n mod IPB"
  then have "m div of_nat IPB = n div of_nat IPB" by (simp add: IBLOCK_def)
  then have "unat m div IPB = unat n div IPB" using unat_div_IPB by metis
  then have "unat m = unat n" using md by (metis div_mult_mod_eq)
  then show ?thesis by (simp add: word_unat_eq_iff)
qed

lemma kfs_run [simp]:
  "get_inode i s = Ok (inodes s i) s" "get_data b u = Ok (bdata (bufs u b)) u"
  by (simp_all add: get_inode_def get_data_def)

lemma iupdate_effect:
  fixes s :: "'x kfs_scheme"
  assumes o: "fs_op p H (Suc k) s" and dev: "idev (inodes s ip) = ROOTDEV"
    and n: "n = IBLOCK (inum (inodes s ip)) (fsb s)" "n \<notin> dom H" "n < 0x80000000" "n \<notin> log_blocks (log_start s)"
  shows "\<exists>t. iupdate ip s = Ok () t \<and> fs_step p H (log_add n (logged s))
      ((blk_map s)(n := write_dinode (inum (inodes s ip)) (dinode_of (inodes s ip)) (blk_map s n))) s t"
proof -
  let ?g = "write_dinode (inum (inodes s ip)) (dinode_of (inodes s ip))"
  obtain b t u v w where r: "bread ROOTDEV n s = Ok b t" "fs_step p (H(n \<mapsto> b)) (logged s) (blk_map s) s t"
    "upd_data b ?g t = Ok () u" "log_write b u = Ok () v" "brelse b v = Ok () w"
    "fs_step p H (log_add n (logged s)) ((blk_map s)(n := ?g (blk_map s n))) s w"
    using visit [OF o n(2,3)] n(4) by metis
  have "inodes t = inodes s" by (rule log_base_kfs(2) [OF fs_stepD(5) [OF r(2)]])
  then have "iupdate ip s = Ok () w" using r by (simp add: iupdate_def dev n(1) dinode_of_def)
  then show ?thesis using r(6) by blast
qed

text \<open>The inode numbered \<open>m\<close>, as a reader of its block decodes it.\<close>

definition disk_inode :: "'x kfs_scheme \<Rightarrow> u32 \<Rightarrow> dinode" where
  "disk_inode s m = read_dinode m (blk_map s (IBLOCK m (fsb s)))"

section \<open>Block allocation\<close>

text \<open>Block \<open>b\<close> is free: its bit in the bitmap is clear.\<close>

definition free_block :: "'x kfs_scheme \<Rightarrow> nat \<Rightarrow> bool" where
  "free_block s b \<longleftrightarrow> \<not> bit_used (b mod BPB) (blk_map s (BBLOCK (of_nat b) (fsb s)))"

text \<open>A block that can be visited and logged by an operation that holds the buffers \<open>H\<close>.\<close>

definition usable :: "(u32 \<rightharpoonup> nat) \<Rightarrow> 'x klog_scheme \<Rightarrow> u32 \<Rightarrow> bool" where
  "usable H s n \<longleftrightarrow> n \<notin> dom H \<and> n < 0x80000000 \<and> n \<notin> log_blocks (log_start s)"

text \<open>
  The bitmap lies in usable blocks of full length, and marks every block that is not usable, and its
  own blocks, as in use.
\<close>

definition bitmap_ok :: "(u32 \<rightharpoonup> nat) \<Rightarrow> 'x kfs_scheme \<Rightarrow> bool" where
  "bitmap_ok H s \<longleftrightarrow> (\<forall>b < unat (sb_size (fsb s)). usable H s (BBLOCK (of_nat b) (fsb s)) \<and>
     length (blk_map s (BBLOCK (of_nat b) (fsb s))) = BSIZE \<and>
     (free_block s b \<longrightarrow> usable H s (of_nat b) \<and> (\<forall>c < unat (sb_size (fsb s)). BBLOCK (of_nat c) (fsb s) \<noteq> of_nat b)))"

lemma balloc_scan_find: "balloc_scan bi k bs = find (\<lambda>i. \<not> bit_used i bs) [bi..<bi + k]"
proof (induction k arbitrary: bi)
  case (Suc k)
  have "[bi..<bi + Suc k] = bi # [Suc bi..<Suc bi + k]" by (simp add: upt_conv_Cons)
  then show ?case using Suc.IH [of "Suc bi"] by simp
qed simp

lemma usable_step:
  assumes "log_base t = log_base s" shows "usable H t n = usable H s n"
  using log_base_fields(2) [OF assms] by (simp add: usable_def)

lemma bzero_effect:
  assumes o: "fs_op p H (Suc k) s" and n: "usable H s n"
  shows "\<exists>t. bzero ROOTDEV n s = Ok () t \<and> fs_step p H (log_add n (logged s)) ((blk_map s)(n := replicate BSIZE 0)) s t"
proof -
  obtain b t u v w where r: "bread ROOTDEV n s = Ok b t"
    "upd_data b (\<lambda>_. replicate BSIZE 0) t = Ok () u" "log_write b u = Ok () v" "brelse b v = Ok () w"
    "fs_step p H (log_add n (logged s)) ((blk_map s)(n := replicate BSIZE 0)) s w"
    using visit [OF o, of n] n unfolding usable_def by meson
  then show ?thesis by (simp add: bzero_def)
qed

lemma balloc_block_effect:
  fixes s :: "'x kfs_scheme"
  assumes o: "fs_op p H (Suc (Suc k)) s" and B: "usable H s B" "B = BBLOCK (of_nat b) (fsb s)"
    and fr: "\<And>i. balloc_scan 0 (min BPB (unat (sb_size (fsb s)) - b)) (blk_map s B) = Some i \<Longrightarrow> usable H s (of_nat (b + i))"
  shows "\<exists>t. (case balloc_scan 0 (min BPB (unat (sb_size (fsb s)) - b)) (blk_map s B) of
      None \<Rightarrow> balloc_block ROOTDEV b s = Ok None t \<and> fs_step p H (logged s) (blk_map s) s t
    | Some i \<Rightarrow> balloc_block ROOTDEV b s = Ok (Some (of_nat (b + i))) t \<and>
        fs_step p H (log_add (of_nat (b + i)) (log_add B (logged s)))
          ((blk_map s)(B := set_used i (blk_map s B), of_nat (b + i) := replicate BSIZE 0)) s t)"
proof -
  have n: "B \<notin> dom H" "B < 0x80000000" "B \<notin> log_blocks (log_start s)" using B(1) by (simp_all add: usable_def)
  obtain bp t where t: "bread ROOTDEV B s = Ok bp t" "bdata (bufs t bp) = blk_map s B"
    and ro: "\<exists>u. brelse bp t = Ok () u \<and> fs_step p H (logged s) (blk_map s) s u"
    and rw: "\<And>g. \<exists>u v w. upd_data bp g t = Ok () u \<and> log_write bp u = Ok () v \<and> brelse bp v = Ok () w \<and>
       fs_step p H (log_add B (logged s)) ((blk_map s)(B := g (blk_map s B))) s w"
    using visit [OF o n(1,2)] n(3) by blast
  show ?thesis
  proof (cases "balloc_scan 0 (min BPB (unat (sb_size (fsb s)) - b)) (blk_map s B)")
    case None
    then show ?thesis using t ro B(2) by (auto simp: balloc_block_def)
  next
    case (Some i)
    obtain u v w where w: "upd_data bp (set_used i) t = Ok () u" "log_write bp u = Ok () v" "brelse bp v = Ok () w"
      "fs_step p H (log_add B (logged s)) ((blk_map s)(B := set_used i (blk_map s B))) s w" using rw by metis
    note W = fs_stepD [OF w(4)]
    have ow: "fs_op p H (Suc k) w" by (rule fs_op_step [OF o w(4)]) (use length_log_add [of B "logged s"] in simp)
    have "usable H w (of_nat (b + i))" using fr [OF Some] usable_step [OF W(5)] by metis
    then obtain x where x: "bzero ROOTDEV (of_nat (b + i)) w = Ok () x"
      "fs_step p H (log_add (of_nat (b + i)) (logged w)) ((blk_map w)(of_nat (b + i) := replicate BSIZE 0)) w x"
      using bzero_effect [OF ow] by metis
    have "balloc_block ROOTDEV b s = Ok (Some (of_nat (b + i))) x"
      using t w x(1) Some B(2) by (simp add: balloc_block_def)
    moreover have "fs_step p H (log_add (of_nat (b + i)) (log_add B (logged s)))
          ((blk_map s)(B := set_used i (blk_map s B), of_nat (b + i) := replicate BSIZE 0)) s x"
      using fs_step_trans [OF w(4) x(2)] unfolding W(2,3) .
    ultimately show ?thesis unfolding Some by (simp del: fun_upd_apply)
  qed
qed

lemma find_append: "find P (xs @ ys) = (case find P xs of None \<Rightarrow> find P ys | Some x \<Rightarrow> Some x)"
  by (induction xs) auto

lemma find_shift: "find P (map f xs) = map_option f (find (P \<circ> f) xs)"
  by (induction xs) auto

lemma find_cong_set: "(\<And>x. x \<in> set xs \<Longrightarrow> P x = Q x) \<Longrightarrow> find P xs = find Q xs"
  by (induction xs) auto

lemma unat_of_nat_u32: "x < 2 ^ 32 \<Longrightarrow> unat (of_nat x :: u32) = x"
  by (simp add: unsigned_of_nat take_bit_nat_eq_self)

lemma BBLOCK_same:
  assumes "i < BPB" "j * BPB + i < 2 ^ 32"
  shows "BBLOCK (of_nat (j * BPB + i)) sb = BBLOCK (of_nat (j * BPB)) sb" "(j * BPB + i) mod BPB = i"
proof -
  have u: "unat (of_nat (j * BPB + i) :: u32) = j * BPB + i" "unat (of_nat (j * BPB) :: u32) = j * BPB"
    using assms by (simp_all only: unat_of_nat_u32 BSIZE_1024)
  have d: "unat (of_nat x div of_nat BPB :: u32) = unat (of_nat x :: u32) div BPB" for x by (simp add: unat_div BSIZE_1024)
  have "of_nat (j * BPB + i) div of_nat BPB = (of_nat (j * BPB) div of_nat BPB :: u32)"
    unfolding word_unat_eq_iff d u using assms(1) by (simp add: BSIZE_1024)
  then show "BBLOCK (of_nat (j * BPB + i)) sb = BBLOCK (of_nat (j * BPB)) sb" by (simp only: BBLOCK_def)
  show "(j * BPB + i) mod BPB = i" using assms(1) by simp
qed

lemma find_free_block:
  fixes s :: "'x kfs_scheme"
  assumes n_def: "n = unat (sb_size (fsb s))"
  shows "find (free_block s) [j * BPB..<j * BPB + min BPB (n - j * BPB)] =
    map_option ((+) (j * BPB)) (balloc_scan 0 (min BPB (n - j * BPB)) (blk_map s (BBLOCK (of_nat (j * BPB)) (fsb s))))"
proof -
  let ?m = "min BPB (n - j * BPB)"
  have n: "n < 2 ^ 32" using unsigned_less [of "sb_size (fsb s)"] by (simp add: n_def)
  have e: "[j * BPB..<j * BPB + ?m] = map ((+) (j * BPB)) [0..<?m]" by (rule nth_equalityI) simp_all
  have "(free_block s \<circ> (+) (j * BPB)) i = (\<not> bit_used i (blk_map s (BBLOCK (of_nat (j * BPB)) (fsb s))))" if "i \<in> set [0..<?m]" for i
  proof -
    have "i < BPB" "j * BPB + i < 2 ^ 32" using that n by auto
    from BBLOCK_same [OF this] show ?thesis by (simp only: free_block_def comp_def)
  qed
  then have "find (free_block s \<circ> (+) (j * BPB)) [0..<?m] = find (\<lambda>i. \<not> bit_used i (blk_map s (BBLOCK (of_nat (j * BPB)) (fsb s)))) [0..<?m]"
    by (rule find_cong_set)
  then show ?thesis unfolding e find_shift balloc_scan_find by (simp only: add_0)
qed

lemma balloc_blocks_effect:
  fixes s :: "'x kfs_scheme"
  assumes nd: "n = unat (sb_size (fsb s))" and o: "fs_op p H (Suc (Suc k)) s" and ok: "bitmap_ok H s" and m: "m + j = (n + BPB - 1) div BPB"
  shows "\<exists>t. (case find (free_block s) [j * BPB..<n] of
      None \<Rightarrow> scan (balloc_block ROOTDEV) (map (\<lambda>k. k * BPB) [j..<j + m]) s = Ok None t \<and> fs_step p H (logged s) (blk_map s) s t
    | Some b \<Rightarrow> scan (balloc_block ROOTDEV) (map (\<lambda>k. k * BPB) [j..<j + m]) s = Ok (Some (of_nat b)) t \<and>
        fs_step p H (log_add (of_nat b) (log_add (BBLOCK (of_nat b) (fsb s)) (logged s)))
          ((blk_map s)(BBLOCK (of_nat b) (fsb s) := set_used (b mod BPB) (blk_map s (BBLOCK (of_nat b) (fsb s))),
             of_nat b := replicate BSIZE 0)) s t)"
  using assms
proof (induction m arbitrary: j s n)
  case 0
  then have "j = (n + 8191) div 8192" by (simp add: BSIZE_1024)
  then have "n \<le> j * BPB" unfolding BSIZE_1024 by linarith
  then show ?case using fs_step_refl [OF fs_opD(1) [OF "0.prems"(2)]] by auto
next
  case (Suc m)
  let ?B = "BBLOCK (of_nat (j * BPB)) (fsb s)" and ?m = "min BPB (unat (sb_size (fsb s)) - j * BPB)"
  note nd = Suc.prems(1)
  have jn: "j * BPB < n" using Suc.prems(4) by (simp add: BSIZE_1024)
  have n32: "n < 2 ^ 32" using unsigned_less [of "sb_size (fsb s)"] by (simp add: nd)
  have B: "usable H s ?B" using Suc.prems(3) jn nd by (auto simp: bitmap_ok_def)
  let ?r = "balloc_scan 0 ?m (blk_map s ?B)"
  have ff: "find (free_block s) [j * BPB..<j * BPB + ?m] = map_option ((+) (j * BPB)) ?r" by (rule find_free_block [OF refl])
  have split: "[j * BPB..<n] = [j * BPB..<j * BPB + ?m] @ [Suc j * BPB..<n]"
  proof (cases "Suc j * BPB \<le> n")
    case True
    then have "j * BPB + ?m = Suc j * BPB" using nd by simp
    then show ?thesis using upt_add_eq_append [of "j * BPB" "Suc j * BPB" "n - Suc j * BPB"] True by (simp add: add.commute)
  next
    case False
    then have "j * BPB + ?m = n" using nd jn by simp
    then show ?thesis unfolding \<open>j * BPB + ?m = n\<close> using False by simp
  qed
  have us: "usable H s (of_nat (j * BPB + i)) \<and> i < BPB \<and> j * BPB + i < n" if "?r = Some i" for i
  proof -
    have "find (free_block s) [j * BPB..<j * BPB + ?m] = Some (j * BPB + i)" using ff that by simp
    from find_SomeD [OF this] have "free_block s (j * BPB + i)" "j * BPB + i < j * BPB + ?m" by simp_all
    moreover from this have "i < BPB" "j * BPB + i < n" using nd by auto
    ultimately show ?thesis using Suc.prems(3) nd unfolding bitmap_ok_def by blast
  qed
  obtain t where t: "case ?r of None \<Rightarrow> balloc_block ROOTDEV (j * BPB) s = Ok None t \<and> fs_step p H (logged s) (blk_map s) s t
    | Some i \<Rightarrow> balloc_block ROOTDEV (j * BPB) s = Ok (Some (of_nat (j * BPB + i))) t \<and>
        fs_step p H (log_add (of_nat (j * BPB + i)) (log_add ?B (logged s)))
          ((blk_map s)(?B := set_used i (blk_map s ?B), of_nat (j * BPB + i) := replicate BSIZE 0)) s t"
    using balloc_block_effect [OF Suc.prems(2) B refl] us by blast
  have js: "[j..<j + Suc m] = j # [Suc j..<Suc j + m]" by (simp add: upt_conv_Cons)
  show ?case
  proof (cases ?r)
    case (Some i)
    note i = us [OF Some]
    have q: "(j * BPB + i) mod BPB = i" "BBLOCK (of_nat (j * BPB + i)) (fsb s) = ?B" using BBLOCK_same [of i j] i n32 by simp_all
    have "find (free_block s) [j * BPB..<n] = Some (j * BPB + i)" unfolding split find_append ff Some by simp
    then show ?thesis unfolding js using t q Some by (auto simp del: fun_upd_apply of_nat_add of_nat_mult)
  next
    case None
    then have t: "balloc_block ROOTDEV (j * BPB) s = Ok None t" "fs_step p H (logged s) (blk_map s) s t" using t by simp_all
    note T = fs_stepD [OF t(2)]
    have f: "fsb t = fsb s" by (rule log_base_kfs(1) [OF T(5)])
    have fb: "free_block t = free_block s" by (rule ext) (simp add: free_block_def f T(3))
    have bk: "bitmap_ok H t" using Suc.prems(3) usable_step [OF T(5)] T(3) by (simp add: bitmap_ok_def f fb)
    have ot: "fs_op p H (Suc (Suc k)) t" by (rule fs_op_step [OF Suc.prems(2) t(2)]) simp
    have "find (free_block s) [j * BPB..<n] = find (free_block t) [Suc j * BPB..<n]"
      unfolding split find_append ff None fb by simp
    moreover have "scan (balloc_block ROOTDEV) (map (\<lambda>k. k * BPB) [j..<j + Suc m]) s =
        scan (balloc_block ROOTDEV) (map (\<lambda>k. k * BPB) [Suc j..<Suc j + m]) t"
      unfolding js using t(1) by simp
    moreover have "fs_step p H L g s u" if "fs_step p H L g t u" for L g u using fs_step_trans [OF t(2) that] .
    ultimately show ?thesis
      using Suc.IH [OF refl ot bk, of "Suc j"] Suc.prems(4) nd f T(2,3) by (auto simp del: fun_upd_apply upt_Suc of_nat_add of_nat_mult split: option.splits)
  qed
qed

lemma bit_used_bit: "bit_used i bs \<longleftrightarrow> bit (bs ! (i div 8)) (i mod 8)"
  by (simp add: bit_used_def bit_iff_and_push_bit_not_eq_0)

lemma bit_div_mod_same: "(j :: nat) div 8 = i div 8 \<Longrightarrow> j mod 8 = i mod 8 \<Longrightarrow> j = i"
  by (metis div_mult_mod_eq)

lemma bit_set_clear:
  assumes "length bs = BSIZE" "i < BPB"
  shows "bit_used j (set_used i bs) \<longleftrightarrow> j = i \<or> bit_used j bs" "bit_used j (clear_used i bs) \<longleftrightarrow> j \<noteq> i \<and> bit_used j bs"
proof -
  have l: "i div 8 < length bs" using assms by (simp add: BSIZE_1024)
  have m: "j mod 8 < 8" by simp
  show "bit_used j (set_used i bs) \<longleftrightarrow> j = i \<or> bit_used j bs"
    using l m bit_div_mod_same [of j i] unfolding bit_used_bit set_used_def
    by (cases "j div 8 = i div 8") (auto simp: bit_simps nth_list_update)
  show "bit_used j (clear_used i bs) \<longleftrightarrow> j \<noteq> i \<and> bit_used j bs"
    using l m bit_div_mod_same [of j i] unfolding bit_used_bit clear_used_def
    by (cases "j div 8 = i div 8") (auto simp: bit_simps nth_list_update)
qed

lemma length_set_used [simp]: "length (set_used i bs) = length bs" "length (clear_used i bs) = length bs"
  by (simp_all add: set_used_def clear_used_def)

lemma BBLOCK_pair:
  assumes "b < 2 ^ 32" "c < 2 ^ 32" "BBLOCK (of_nat b) sb = BBLOCK (of_nat c) sb" "b mod BPB = c mod BPB"
  shows "b = c"
proof -
  have d: "unat (of_nat x div of_nat BPB :: u32) = x div BPB" if "x < 2 ^ 32" for x
    using unat_of_nat_u32 [OF that] by (simp add: unat_div BSIZE_1024)
  have "of_nat b div of_nat BPB = (of_nat c div of_nat BPB :: u32)" using assms(3) by (simp add: BBLOCK_def)
  then have "b div BPB = c div BPB" using d assms(1,2) by metis
  then show ?thesis using assms(4) by (metis div_mult_mod_eq)
qed

text \<open>Setting or clearing the bit of one block changes the state of that block only.\<close>

lemma free_block_change:
  fixes s t :: "'x kfs_scheme"
  assumes f: "fsb t = fsb s" and b: "b < 2 ^ 32" "c < 2 ^ 32"
    and len: "length (blk_map s (BBLOCK (of_nat b) (fsb s))) = BSIZE"
    and other: "\<And>m. m = BBLOCK (of_nat c) (fsb s) \<Longrightarrow> m \<noteq> BBLOCK (of_nat b) (fsb s) \<Longrightarrow> blk_map t m = blk_map s m"
  shows "blk_map t (BBLOCK (of_nat b) (fsb s)) = set_used (b mod BPB) (blk_map s (BBLOCK (of_nat b) (fsb s))) \<Longrightarrow>
      free_block t c \<longleftrightarrow> c \<noteq> b \<and> free_block s c"
    and "blk_map t (BBLOCK (of_nat b) (fsb s)) = clear_used (b mod BPB) (blk_map s (BBLOCK (of_nat b) (fsb s))) \<Longrightarrow>
      free_block t c \<longleftrightarrow> c = b \<or> free_block s c"
proof -
  have m: "b mod BPB < BPB" by (simp add: BSIZE_1024)
  have p: "c = b" if "BBLOCK (of_nat c) (fsb s) = BBLOCK (of_nat b) (fsb s)" "c mod BPB = b mod BPB"
    using BBLOCK_pair [OF b(2,1) that] .
  show "free_block t c \<longleftrightarrow> c \<noteq> b \<and> free_block s c"
    if "blk_map t (BBLOCK (of_nat b) (fsb s)) = set_used (b mod BPB) (blk_map s (BBLOCK (of_nat b) (fsb s)))"
    using that p other [OF refl] f bit_set_clear(1) [OF len m] unfolding free_block_def
    by (cases "BBLOCK (of_nat c) (fsb s) = BBLOCK (of_nat b) (fsb s)") auto
  show "free_block t c \<longleftrightarrow> c = b \<or> free_block s c"
    if "blk_map t (BBLOCK (of_nat b) (fsb s)) = clear_used (b mod BPB) (blk_map s (BBLOCK (of_nat b) (fsb s)))"
    using that p other [OF refl] f bit_set_clear(2) [OF len m] unfolding free_block_def
    by (cases "BBLOCK (of_nat c) (fsb s) = BBLOCK (of_nat b) (fsb s)") auto
qed

lemma balloc_effect:
  fixes s :: "'x kfs_scheme"
  assumes o: "fs_op p H (Suc (Suc k)) s" and ok: "bitmap_ok H s"
  shows "find (free_block s) [0..<unat (sb_size (fsb s))] = None \<Longrightarrow>
      \<exists>t. balloc ROOTDEV s = Ok 0 t \<and> fs_step p H (logged s) (blk_map s) s t"
    and "find (free_block s) [0..<unat (sb_size (fsb s))] = Some b \<Longrightarrow>
      \<exists>t. balloc ROOTDEV s = Ok (of_nat b) t \<and> fs_step p H (log_add (of_nat b) (log_add (BBLOCK (of_nat b) (fsb s)) (logged s)))
          ((blk_map s)(BBLOCK (of_nat b) (fsb s) := set_used (b mod BPB) (blk_map s (BBLOCK (of_nat b) (fsb s))),
             of_nat b := replicate BSIZE 0)) s t"
  using balloc_blocks_effect [OF refl o ok, of "(unat (sb_size (fsb s)) + BPB - 1) div BPB" 0]
  by (auto simp: balloc_def simp del: fun_upd_apply)

theorem bfree_effect:
  fixes s :: "'x kfs_scheme"
  assumes o: "fs_op p H (Suc k) s" and B: "usable H s (BBLOCK b (fsb s))"
  shows "free_block s (unat b) \<Longrightarrow> bfree ROOTDEV b s = Panic ''freeing free block''"
    and "\<not> free_block s (unat b) \<Longrightarrow> \<exists>t. bfree ROOTDEV b s = Ok () t \<and> fs_step p H (log_add (BBLOCK b (fsb s)) (logged s))
      ((blk_map s)(BBLOCK b (fsb s) := clear_used (unat b mod BPB) (blk_map s (BBLOCK b (fsb s))))) s t"
proof -
  let ?B = "BBLOCK b (fsb s)"
  have n: "?B \<notin> dom H" "?B < 0x80000000" "?B \<notin> log_blocks (log_start s)" using B by (simp_all add: usable_def)
  obtain bp t where t: "bread ROOTDEV ?B s = Ok bp t" "bdata (bufs t bp) = blk_map s ?B"
    and rw: "\<And>g. \<exists>u v w. upd_data bp g t = Ok () u \<and> log_write bp u = Ok () v \<and> brelse bp v = Ok () w \<and>
       fs_step p H (log_add ?B (logged s)) ((blk_map s)(?B := g (blk_map s ?B))) s w"
    using visit [OF o n(1,2)] n(3) by blast
  show "bfree ROOTDEV b s = Panic ''freeing free block''" if "free_block s (unat b)"
    using that t by (simp add: bfree_def free_block_def Let_def)
  obtain u v w where w: "upd_data bp (clear_used (unat b mod BPB)) t = Ok () u" "log_write bp u = Ok () v" "brelse bp v = Ok () w"
    "fs_step p H (log_add ?B (logged s)) ((blk_map s)(?B := clear_used (unat b mod BPB) (blk_map s ?B))) s w" using rw by metis
  show "\<exists>t. bfree ROOTDEV b s = Ok () t \<and> fs_step p H (log_add ?B (logged s))
      ((blk_map s)(?B := clear_used (unat b mod BPB) (blk_map s ?B))) s t" if "\<not> free_block s (unat b)"
    using that t w by (auto simp: bfree_def free_block_def Let_def simp del: fun_upd_apply)
qed

text \<open>
  C9: \<open>balloc\<close> allocates the first free block. With no free block it returns 0 and changes nothing.
  Otherwise the block it returns was free, is now in use and zeroed; no other block changes its state in
  the bitmap and no other block outside the bitmap changes its contents; both changed blocks are in the
  transaction, nothing is on the disk yet, and the bitmap is well formed again.
\<close>
theorem balloc_allocates:
  fixes s :: "'x kfs_scheme"
  assumes o: "fs_op p H 2 s" and ok: "bitmap_ok H s"
  shows "\<exists>t. sectors t = sectors s \<and> bitmap_ok H t \<and>
    (case find (free_block s) [0..<unat (sb_size (fsb s))] of
       None \<Rightarrow> balloc ROOTDEV s = Ok 0 t \<and> blk_map t = blk_map s \<and> logged t = logged s
     | Some b \<Rightarrow> balloc ROOTDEV s = Ok (of_nat b) t \<and> blk_map t (of_nat b) = replicate BSIZE 0 \<and>
         (\<forall>c < unat (sb_size (fsb s)). free_block t c \<longleftrightarrow> c \<noteq> b \<and> free_block s c) \<and>
         (\<forall>m. m \<noteq> of_nat b \<and> (\<forall>c < unat (sb_size (fsb s)). m \<noteq> BBLOCK (of_nat c) (fsb s)) \<longrightarrow> blk_map t m = blk_map s m) \<and>
         set (logged t) = set (logged s) \<union> {of_nat b, BBLOCK (of_nat b) (fsb s)})"
proof (cases "find (free_block s) [0..<unat (sb_size (fsb s))]")
  case None
  have "fs_op p H (Suc (Suc 0)) s" using o by (simp add: numeral_2_eq_2)
  from balloc_effect(1) [OF this ok None] obtain t where t: "balloc ROOTDEV s = Ok 0 t" "fs_step p H (logged s) (blk_map s) s t" by blast
  note T = fs_stepD [OF t(2)]
  have f: "fsb t = fsb s" by (rule log_base_kfs(1) [OF T(5)])
  have fb: "free_block t = free_block s" by (rule ext) (simp add: free_block_def f T(3))
  have "bitmap_ok H t" using ok usable_step [OF T(5)] T(3) by (simp add: bitmap_ok_def f fb)
  then show ?thesis using t T None by auto
next
  case (Some b)
  let ?n = "unat (sb_size (fsb s))" and ?B = "BBLOCK (of_nat b) (fsb s)"
  have n32: "?n < 2 ^ 32" using unsigned_less [of "sb_size (fsb s)"] by simp
  have b: "b < ?n" "free_block s b" using find_SomeD [OF Some] by simp_all
  have o2: "fs_op p H (Suc (Suc 0)) s" using o by (simp add: numeral_2_eq_2)
  from balloc_effect(2) [OF o2 ok Some] obtain t where t: "balloc ROOTDEV s = Ok (of_nat b) t"
    "fs_step p H (log_add (of_nat b) (log_add ?B (logged s)))
      ((blk_map s)(?B := set_used (b mod BPB) (blk_map s ?B), of_nat b := replicate BSIZE 0)) s t" by blast
  note T = fs_stepD [OF t(2)]
  have f: "fsb t = fsb s" by (rule log_base_kfs(1) [OF T(5)])
  have K: "length (blk_map s (BBLOCK (of_nat c) (fsb s))) = BSIZE" "BBLOCK (of_nat c) (fsb s) \<noteq> of_nat b" if "c < ?n" for c
    using ok b that unfolding bitmap_ok_def by blast+
  have B: "blk_map t ?B = set_used (b mod BPB) (blk_map s ?B)" using T(3) K(2) [OF b(1)] by simp
  have bm: "blk_map t (BBLOCK (of_nat c) (fsb s)) = blk_map s (BBLOCK (of_nat c) (fsb s))"
    if "c < ?n" "BBLOCK (of_nat c) (fsb s) \<noteq> ?B" for c
    using that T(3) K(2) [OF that(1)] by simp
  have fr: "free_block t c \<longleftrightarrow> c \<noteq> b \<and> free_block s c" if "c < ?n" for c
    using free_block_change(1) [of t s b c] f b(1) that n32 K(1) [OF b(1)] bm [OF that] B by simp
  have len: "length (blk_map t (BBLOCK (of_nat c) (fsb s))) = BSIZE" if "c < ?n" for c
    using K(1) [OF that] bm [OF that] B by (cases "BBLOCK (of_nat c) (fsb s) = ?B") simp_all
  have "bitmap_ok H t" using ok fr len usable_step [OF T(5)] unfolding bitmap_ok_def f by auto
  then show ?thesis using t(1) T(2,3,4) fr b(1) Some by (intro exI [of _ t]) auto
qed

text \<open>
  C10: \<open>iupdate\<close> writes the in-memory inode to its place on disk: reading the inode back gives the same
  fields, every other inode (of the same block too) and every other block is unchanged, and the inode's
  block is in the transaction.
\<close>
theorem iupdate_persists:
  fixes s :: "'x kfs_scheme"
  assumes o: "fs_op p H 1 s" and dev: "idev (inodes s ip) = ROOTDEV"
    and n: "usable H s (IBLOCK (inum (inodes s ip)) (fsb s))" "length (blk_map s (IBLOCK (inum (inodes s ip)) (fsb s))) = BSIZE"
  shows "\<exists>t. iupdate ip s = Ok () t \<and> dinode_eq (disk_inode t (inum (inodes s ip))) (dinode_of (inodes s ip)) \<and>
    (\<forall>m. m \<noteq> inum (inodes s ip) \<longrightarrow> dinode_eq (disk_inode t m) (disk_inode s m)) \<and>
    (\<forall>m. m \<noteq> IBLOCK (inum (inodes s ip)) (fsb s) \<longrightarrow> blk_map t m = blk_map s m) \<and>
    IBLOCK (inum (inodes s ip)) (fsb s) \<in> set (logged t) \<and> sectors t = sectors s \<and> inodes t = inodes s"
proof -
  let ?i = "inum (inodes s ip)" and ?n = "IBLOCK (inum (inodes s ip)) (fsb s)" and ?d = "dinode_of (inodes s ip)"
  have "fs_op p H (Suc 0) s" using o by simp
  then obtain t where t: "iupdate ip s = Ok () t"
    "fs_step p H (log_add ?n (logged s)) ((blk_map s)(?n := write_dinode ?i ?d (blk_map s ?n))) s t"
    using iupdate_effect [OF _ dev refl] n(1) unfolding usable_def by metis
  note T = fs_stepD [OF t(2)] and f = log_base_kfs [OF fs_stepD(5) [OF t(2)]]
  have "dinode_eq (disk_inode t ?i) ?d" using read_write_dinode [OF n(2)] by (simp add: disk_inode_def f(1) T(3))
  moreover have "dinode_eq (disk_inode t m) (disk_inode s m)" if "m \<noteq> ?i" for m
  proof (cases "IBLOCK m (fsb s) = ?n")
    case True
    then have "unat m mod IPB \<noteq> unat ?i mod IPB" using IBLOCK_same that by metis
    then show ?thesis using read_write_dinode_other [of m ?i ?d "blk_map s ?n"] True by (simp add: disk_inode_def f(1) T(3))
  next
    case False
    then show ?thesis by (simp add: disk_inode_def f(1) T(3) dinode_eq_def)
  qed
  ultimately show ?thesis using t(1) T f(2) by auto
qed

section \<open>A sample file system\<close>

text \<open>
  Superblock fields as mkfs lays them out: the log at block 2, inodes at block 33, the bitmap in block
  46. A process is inside an operation, nothing is cached or logged; the disk and the inode table are
  parameters.
\<close>

definition sample_sb :: superblock where
  "sample_sb = \<lparr>sb_magic = FSMAGIC, sb_size = 2000, sb_nblocks = 1953, sb_ninodes = 200, sb_nlog = 31, sb_logstart = 2,
     sb_inodestart = 33, sb_bmapstart = 46\<rparr>"

definition sample_fs :: "(u64 \<Rightarrow> u8 list) \<Rightarrow> (nat \<Rightarrow> inode) \<Rightarrow> kfs" where
  "sample_fs sec tab = klog.extend ((sample_boot sec)\<lparr>log_start := 2, outstanding := 1, log_dev := ROOTDEV\<rparr>)
     \<lparr>fsb = sample_sb, inodes = tab\<rparr>"

lemma sample_fs_simps [simp]:
  "fsb (sample_fs sec tab) = sample_sb" "inodes (sample_fs sec tab) = tab" "logged (sample_fs sec tab) = []"
  "log_start (sample_fs sec tab) = 2" "sectors (sample_fs sec tab) = sec" "outstanding (sample_fs sec tab) = 1"
  by (simp_all add: sample_fs_def sample_boot_def klog.defs kdisk.defs logged_def)

lemma sample_fs_cache: "cache_at 0 {} Map.empty (sample_fs sec tab)"
proof -
  have e: "fs_ready p (sample_fs sec tab) = fs_ready p (sample_boot sec)" "disk_ok (sample_fs sec tab) = disk_ok (sample_boot sec)"
    "bufs (sample_fs sec tab) = bufs (sample_boot sec)" "slocks (sample_fs sec tab) = slocks (sample_boot sec)"
    "sectors (sample_boot sec) = sec" "procs (sample_fs sec tab) = procs (sample_boot sec)" for p
    by (simp_all add: sample_fs_def sample_boot_def klog.defs kdisk.defs fs_ready_def irq_state_ok_def disk_ok_def)
  show ?thesis using sample_boot_cold [of sec]
    unfolding cache_at_def cache_ok_def small_blocks_def held_buf_def by (simp add: e)
qed

lemma sample_fs_op: "k \<le> 30 \<Longrightarrow> fs_op 0 Map.empty k (sample_fs sec tab)"
proof -
  have "lh_n (sample_fs sec tab) = 0" "log_dev (sample_fs sec tab) = ROOTDEV"
    by (simp_all add: sample_fs_def sample_boot_def klog.defs kdisk.defs)
  then show "k \<le> 30 \<Longrightarrow> fs_op 0 Map.empty k (sample_fs sec tab)"
    using sample_fs_cache by (simp add: fs_op_def log_ready_def log_placed_def LOGBLOCKS_30)
qed

lemma sample_fs_blk: "n < 0x80000000 \<Longrightarrow> blk_map (sample_fs sec tab) n = sec (sector_of n) @ sec (sector_of n + 1)"
  using clean_cache [OF sample_fs_cache] by (simp add: disk_map_def disk_block_def)

lemma sample_log_area: "n \<in> log_blocks 2 \<longleftrightarrow> 2 \<le> unat n \<and> unat n \<le> 32"
proof
  assume "n \<in> log_blocks 2"
  then show "2 \<le> unat n \<and> unat n \<le> 32" using unat_log_slot [of 2] by (auto simp: log_blocks_def LOGBLOCKS_30)
next
  assume a: "2 \<le> unat n \<and> unat n \<le> 32"
  have "unat (log_slot 2 (unat n - 3)) = unat n" if "unat n \<noteq> 2" proof -
    have "unat (log_slot 2 (unat n - 3)) = unat (2 :: u32) + (unat n - 3) + 1"
      by (rule unat_log_slot) (use a in \<open>auto simp: LOGBLOCKS_30\<close>)
    moreover have "unat n - 3 + 3 = unat n" using a that by arith
    ultimately show ?thesis by simp
  qed
  then have "n = 2 \<or> n = log_slot 2 (unat n - 3)" by (cases "unat n = 2") (simp_all add: word_unat_eq_iff)
  then show "n \<in> log_blocks 2" using a by (auto simp: log_blocks_def LOGBLOCKS_30)
qed

lemma sample_usable: "usable Map.empty (sample_fs sec tab) n \<longleftrightarrow> n < 0x80000000 \<and> \<not> (2 \<le> unat n \<and> unat n \<le> 32)"
  by (simp add: usable_def sample_log_area)

text \<open>
  The bitmap of the sample: the blocks up to 48 are in use. Block 47 is the root directory, of three
  entries; inode 1 is its inode.
\<close>

definition sample_sectors :: "u64 \<Rightarrow> u8 list" where
  "sample_sectors = (\<lambda>_. replicate 512 0)(92 := replicate 6 (- 1) @ 1 # replicate 505 0)"

definition sample_inode :: inode where
  "sample_inode = \<lparr>idev = ROOTDEV, inum = 5, iref = 1, ivalid = 1, itype = T_FILE, imajor = 0, iminor = 0, nlink = 1, isize = 3,
     addrs = (\<lambda>_. 0)(0 := 48)\<rparr>"

lemma sector_of_numeral: "sector_of 46 = 92" "sector_of 33 = 66" "sector_of 47 = 94"
  by (simp_all add: sector_of_def)

lemma sample_BBLOCK: "b < 2000 \<Longrightarrow> BBLOCK (of_nat b) sample_sb = 46"
proof -
  assume "b < 2000"
  then have "unat (of_nat b div of_nat BPB :: u32) = 0" by (simp add: unat_div unat_of_nat_u32 BSIZE_1024)
  then have "of_nat b div of_nat BPB = (0 :: u32)" by (simp add: word_unat_eq_iff)
  then show ?thesis by (simp add: BBLOCK_def sample_sb_def)
qed

lemma sample_free: "b < 2000 \<Longrightarrow> free_block (sample_fs sample_sectors tab) b \<longleftrightarrow> 49 \<le> b"
proof -
  assume b: "b < 2000"
  let ?bs = "replicate 6 (- 1) @ 1 # replicate 505 0 @ replicate 512 0 :: u8 list"
  have m: "b mod BPB = b" using b by (simp add: BSIZE_1024)
  have "blk_map (sample_fs sample_sectors tab) 46 = ?bs" by (simp add: sample_fs_blk sector_of_numeral sample_sectors_def)
  then have "free_block (sample_fs sample_sectors tab) b \<longleftrightarrow> \<not> bit (?bs ! (b div 8)) (b mod 8)"
    using b by (simp add: free_block_def sample_BBLOCK m bit_used_bit)
  moreover have "bit (?bs ! (b div 8)) (b mod 8) \<longleftrightarrow> b < 49"
  proof -
    have ff: "bit (- 1 :: u8) k" if "k < 8" for k using that by (simp add: bit_simps)
    consider "b div 8 < 6" | "b div 8 = 6" | "6 < b div 8" by linarith
    then show ?thesis
    proof cases
      case 1
      then have "?bs ! (b div 8) = - 1" "b < 49" by (simp_all add: nth_append)
      then show ?thesis using ff by simp
    next
      case 2
      moreover from this have "b mod 8 = 0 \<longleftrightarrow> b < 49" by arith
      ultimately show ?thesis by (auto simp: nth_append bit_1_iff)
    next
      case 3
      have "b div 8 < 1024" using b by simp
      then have "?bs ! (b div 8) = 0" using 3 by (auto simp: nth_append nth_Cons')
      then show ?thesis using 3 by simp
    qed
  qed
  ultimately show ?thesis by auto
qed

lemma sample_bitmap: "bitmap_ok Map.empty (sample_fs sample_sectors tab)"
proof -
  have u: "unat (of_nat b :: u32) = b" if "b < 2000" for b using that by (simp add: unat_of_nat_u32)
  have "usable Map.empty (sample_fs sample_sectors tab) 46" by (simp add: sample_usable)
  moreover have "length (blk_map (sample_fs sample_sectors tab) 46) = BSIZE"
    by (simp add: sample_fs_blk sector_of_numeral sample_sectors_def BSIZE_1024)
  moreover have "usable Map.empty (sample_fs sample_sectors tab) (of_nat b) \<and> (46 :: u32) \<noteq> of_nat b" if "b < 2000" "49 \<le> b" for b
    using that u [OF that(1)] by (auto simp: sample_usable word_less_nat_alt word_unat_eq_iff)
  ultimately show ?thesis
    unfolding bitmap_ok_def using sample_free [of _ tab] sample_BBLOCK by (simp add: sample_sb_def [THEN arg_cong, of sb_size])
qed

theorem balloc_allocates_witness:
  "\<exists>t. balloc ROOTDEV (sample_fs sample_sectors (\<lambda>_. sample_inode)) = Ok 49 t \<and> \<not> free_block t 49 \<and> free_block t 50 \<and> set (logged t) = {49, 46}"
proof -
  let ?s = "sample_fs sample_sectors (\<lambda>_. sample_inode)"
  have n: "unat (sb_size sample_sb) = 2000" by (simp add: sample_sb_def)
  have "find (free_block ?s) [0..<2000] = Some 49"
  proof -
    have e: "[0..<2000] = [0..<49] @ 49 # [50..<2000::nat]"
      using upt_add_eq_append [of 0 49 1951] upt_conv_Cons [of 49 2000] by simp
    have "find (free_block ?s) [0..<49] = None" using sample_free by (auto simp: find_None_iff)
    then show ?thesis unfolding e find_append using sample_free [of 49] by simp
  qed
  then show ?thesis
    using balloc_allocates [OF sample_fs_op sample_bitmap, of "\<lambda>_. sample_inode"] sample_free [of 50] sample_BBLOCK [of 49] n
    by auto
qed

theorem iupdate_persists_witness:
  "\<exists>t. iupdate 0 (sample_fs sample_sectors (\<lambda>_. sample_inode)) = Ok () t \<and> d_size (disk_inode t 5) = 3 \<and> d_addrs (disk_inode t 5) 0 = 48 \<and>
     d_type (disk_inode t 6) = 0"
proof -
  let ?s = "sample_fs sample_sectors (\<lambda>_. sample_inode)"
  have f: "idev sample_inode = ROOTDEV" "inum sample_inode = 5" "IBLOCK 5 sample_sb = 33" "IBLOCK 6 sample_sb = 33"
    by (simp_all add: sample_inode_def IBLOCK_def sample_sb_def BSIZE_1024)
  have b: "blk_map ?s 33 = replicate 512 0 @ replicate 512 0" by (simp add: sample_fs_blk sector_of_numeral sample_sectors_def)
  have t6: "d_type (disk_inode ?s 6) = 0"
    by (simp add: disk_inode_def f(4) b read_dinode_def rd16_def dinode_off_def BSIZE_1024 nth_append)
  obtain t where t: "iupdate 0 ?s = Ok () t" "dinode_eq (disk_inode t 5) (dinode_of sample_inode)" "dinode_eq (disk_inode t 6) (disk_inode ?s 6)"
    using iupdate_persists [OF sample_fs_op, of sample_sectors "\<lambda>_. sample_inode" 0] f b
    by (auto simp: sample_usable BSIZE_1024)
  then show ?thesis using t6 by (auto simp: dinode_eq_def dinode_of_def sample_inode_def)
qed

end
