(* ===== verification/Xv6_Dir.thy ===== *)
theory Xv6_Dir
  imports Xv6_Inode
begin

text \<open>
  File contents, directories and path names of fs.c: \<open>readi\<close> returns the bytes of the file, \<open>dirlookup\<close>
  finds the entry with a name, \<open>skipelem\<close> splits a path at its slashes.
\<close>

section \<open>Holding a block\<close>

lemma fs_step_settle:
  assumes r: "log_ready p H s"
  shows "fs_step p H (logged s) (blk_map s) s (settle s)"
proof -
  have st: "cache_at p D H (settle s) = cache_at p D H s" "blk_map (settle s) = blk_map s" for D
    by (simp_all add: cache_at_def cache_ok_def small_blocks_def held_buf_def blk_map_def blk_def fun_eq_iff cong: option.case_cong)
  have "log_ready p H (settle s)" using r st by (simp add: log_ready_def logged_def log_placed_def) (simp add: settle_def)
  then show ?thesis using st by (simp add: fs_step_def logged_def wrote_def) (simp add: settle_def)
qed

text \<open>A block read, held through steps that change nothing, and released.\<close>

lemma hold:
  assumes o: "fs_op p H (Suc k) s" and n: "n \<notin> dom H" "n < 0x80000000"
  shows "\<exists>b t. bread ROOTDEV n s = Ok b t \<and> fs_step p (H(n \<mapsto> b)) (logged s) (blk_map s) s t \<and> bdata (bufs t b) = blk_map s n \<and>
    (\<forall>u. fs_step p (H(n \<mapsto> b)) (logged s) (blk_map s) t u \<longrightarrow> (\<exists>v. brelse b u = Ok () v \<and> fs_step p H (logged s) (blk_map s) s v))"
proof -
  obtain b t where t: "bread ROOTDEV n s = Ok b t" "fs_step p (H(n \<mapsto> b)) (logged s) (blk_map s) s t" "bdata (bufs t b) = blk_map s n"
    using fs_bread [OF o n] by blast
  have H: "(H(n \<mapsto> b)) n = Some b" "(H(n \<mapsto> b))(n := None) = H" using n(1) by auto
  have "\<exists>v. brelse b u = Ok () v \<and> fs_step p H (logged s) (blk_map s) s v"
    if u: "fs_step p (H(n \<mapsto> b)) (logged s) (blk_map s) t u" for u
  proof -
    note U = fs_stepD [OF fs_step_trans [OF t(2) u]]
    have "n \<in> set (logged u) \<or> disk_map (sectors u) n = blk_map u n"
      using clean_step [OF log_readyD(1) [OF fs_opD(1) [OF o]], of n] n(1) U(2,3,4) by auto
    then obtain v where v: "brelse b u = Ok () v" "fs_step p H (logged u) (blk_map u) u v"
      using fs_brelse [OF U(1) H(1)] H(2) by metis
    then show ?thesis using fs_step_trans [OF fs_step_trans [OF t(2) u] v(2)] U(2,3) by metis
  qed
  then show ?thesis using t by blast
qed

section \<open>The contents of a file\<close>

text \<open>The block that holds part \<open>bn\<close> of a file, 0 where there is none.\<close>

definition file_block :: "'x kfs_scheme \<Rightarrow> inode \<Rightarrow> nat \<Rightarrow> u32" where
  "file_block s x bn = (if bn < NDIRECT then addrs x bn
     else if bn < MAXFILE \<and> addrs x NDIRECT \<noteq> 0 then rd32 (4 * (bn - NDIRECT)) (blk_map s (addrs x NDIRECT)) else 0)"

text \<open>A block number that an operation holding the buffers \<open>H\<close> can read.\<close>

definition readable_block :: "(u32 \<rightharpoonup> nat) \<Rightarrow> u32 \<Rightarrow> bool" where
  "readable_block H n \<longleftrightarrow> n \<noteq> 0 \<and> n \<notin> dom H \<and> n < 0x80000000"

text \<open>The file has its first \<open>sz\<close> bytes in readable blocks.\<close>

definition file_ok :: "(u32 \<rightharpoonup> nat) \<Rightarrow> 'x kfs_scheme \<Rightarrow> inode \<Rightarrow> nat \<Rightarrow> bool" where
  "file_ok H s x n \<longleftrightarrow> idev x = ROOTDEV \<and> n \<le> MAXFILE * BSIZE \<and> (addrs x NDIRECT \<noteq> 0 \<longrightarrow> readable_block H (addrs x NDIRECT)) \<and>
     (\<forall>bn. bn * BSIZE < n \<longrightarrow> readable_block H (file_block s x bn) \<and> length (blk_map s (file_block s x bn)) = BSIZE)"

definition file_byte :: "'x kfs_scheme \<Rightarrow> inode \<Rightarrow> nat \<Rightarrow> u8" where
  "file_byte s x i = blk_map s (file_block s x (i div BSIZE)) ! (i mod BSIZE)"

lemma bmap_mapped:
  fixes s :: "'x kfs_scheme"
  assumes o: "fs_op p H (Suc k) s" and x: "file_ok H s (inodes s ip) n" and bn: "bn * BSIZE < n"
  shows "\<exists>t. bmap ip (of_nat bn) s = Ok (file_block s (inodes s ip) bn) t \<and> fs_step p H (logged s) (blk_map s) s t"
proof -
  let ?x = "inodes s ip"
  have dev: "idev ?x = ROOTDEV" and fb: "file_block s ?x bn \<noteq> 0" using x bn by (auto simp: file_ok_def readable_block_def)
  have "bn * BSIZE < MAXFILE * BSIZE" using x bn unfolding file_ok_def by linarith
  then have bnm: "bn < MAXFILE" by simp
  then have u: "unat (of_nat bn :: u32) = bn" by (intro unat_of_nat_u32) (simp add: MAXFILE_def BSIZE_1024)
  show ?thesis
  proof (cases "bn < NDIRECT")
    case True
    then show ?thesis using fb fs_step_refl [OF fs_opD(1) [OF o]] by (simp add: bmap_def u file_block_def)
  next
    case False
    let ?i = "addrs ?x NDIRECT"
    have ind: "readable_block H ?i" and rd: "file_block s ?x bn = rd32 (4 * (bn - NDIRECT)) (blk_map s ?i)"
      using fb x False by (auto simp: file_block_def file_ok_def split: if_splits)
    have "of_nat bn - of_nat NDIRECT = (of_nat (bn - NDIRECT) :: u32)" using False by (simp add: of_nat_diff)
    then have un: "unat (of_nat bn - of_nat NDIRECT :: u32) = bn - NDIRECT"
      using unat_of_nat_u32 [of "bn - NDIRECT"] bnm by (simp add: MAXFILE_def BSIZE_1024)
    have lt: "bn - NDIRECT < NINDIRECT" using bnm False by (simp add: MAXFILE_def)
    obtain b t v where t: "bread ROOTDEV ?i s = Ok b t" "bdata (bufs t b) = blk_map s ?i" "brelse b t = Ok () v"
      "fs_step p H (logged s) (blk_map s) s v"
      using visit [OF o, of ?i] ind by (auto simp: readable_block_def)
    have "bmap ip (of_nat bn) s = Ok (file_block s ?x bn) v"
      using t False lt ind fb rd by (simp add: bmap_def u un dev readable_block_def Let_def)
    then show ?thesis using t(4) by blast
  qed
qed

lemma chunk_bounds: "off mod BSIZE + chunk off tot n \<le> BSIZE" "chunk off tot n \<le> n - tot"
  by (simp_all add: chunk_def BSIZE_def)

lemma file_chunk:
  assumes "length (blk_map s (file_block s x (off div BSIZE))) = BSIZE" "off mod BSIZE + c \<le> BSIZE"
  shows "take c (drop (off mod BSIZE) (blk_map s (file_block s x (off div BSIZE)))) = map (file_byte s x) [off..<off + c]"
proof (rule nth_equalityI)
  fix i assume "i < length (take c (drop (off mod BSIZE) (blk_map s (file_block s x (off div BSIZE)))))"
  then have i: "i < c" "off mod BSIZE + i < BSIZE" using assms by auto
  have "off + i = (off div BSIZE) * BSIZE + (off mod BSIZE + i)" by (simp add: div_mult_mod_eq add.assoc [symmetric])
  then have "(off + i) div BSIZE = off div BSIZE" "(off + i) mod BSIZE = off mod BSIZE + i"
    using i(2) by (metis add.commute div_less div_mult_self3 gr_implies_not0 add_0_right, metis mod_less mod_mult_self3)
  then show "take c (drop (off mod BSIZE) (blk_map s (file_block s x (off div BSIZE)))) ! i = map (file_byte s x) [off..<off + c] ! i"
    using i assms(1) by (simp add: file_byte_def)
qed (use assms in simp)

lemma file_same:
  assumes "blk_map t = blk_map s"
  shows "file_block t x bn = file_block s x bn" "file_byte t x = file_byte s x" "file_ok H t x n = file_ok H s x n"
proof -
  show b: "file_block t x bn = file_block s x bn" for bn by (simp add: file_block_def assms)
  show "file_byte t x = file_byte s x" "file_ok H t x n = file_ok H s x n" by (simp_all add: file_byte_def file_ok_def b assms fun_eq_iff)
qed

lemma file_ok_mono: "file_ok H s x n \<Longrightarrow> m \<le> n \<Longrightarrow> file_ok H s x m"
  by (auto simp: file_ok_def)

lemma copy_to_local: "log_ready p H s \<Longrightarrow> copy_to To_local tot bs s = Ok 0 (settle s)"
proof -
  assume "log_ready p H s"
  then have "fs_ready p s" by (rule cache_atD(1) [OF log_readyD(1)])
  then show ?thesis by (simp add: copy_to_def myproc_ready)
qed

lemma readi_loop_local:
  fixes s :: "'x kfs_scheme"
  assumes "fs_op p H (Suc k) s" "file_ok H s (inodes s ip) (off + (n - tot))" "tot \<le> n"
  shows "\<exists>t. readi_loop ip To_local off tot n acc s = Ok (int n, acc @ map (file_byte s (inodes s ip)) [off..<off + (n - tot)]) t \<and>
    fs_step p H (logged s) (blk_map s) s t"
  using assms
proof (induction "n - tot" arbitrary: off tot acc s rule: less_induct)
  case less
  let ?x = "inodes s ip" and ?c = "chunk off tot n"
  show ?case
  proof (cases "tot < n")
    case False
    then show ?thesis using less.prems(3) fs_step_refl [OF fs_opD(1) [OF less.prems(1)]] by (simp add: readi_loop.simps)
  next
    case True
    let ?a = "file_block s ?x (off div BSIZE)"
    have lt: "off div BSIZE * BSIZE < off + (n - tot)" using True by (metis add_strict_increasing div_times_less_eq_dividend less_add_same_cancel1 order_le_less_trans zero_less_diff)
    obtain t where t: "bmap ip (of_nat (off div BSIZE)) s = Ok ?a t" "fs_step p H (logged s) (blk_map s) s t"
      using bmap_mapped [OF less.prems(1,2) lt] by blast
    note T = fs_stepD [OF t(2)] and It = log_base_kfs(2) [OF fs_stepD(5) [OF t(2)]]
    have ot: "fs_op p H (Suc k) t" by (rule fs_op_step [OF less.prems(1) t(2)]) simp
    have a: "?a \<noteq> 0" "?a \<notin> dom H" "?a < 0x80000000" "length (blk_map s ?a) = BSIZE" and dev: "idev ?x = ROOTDEV"
      using less.prems(2) lt unfolding file_ok_def readable_block_def by auto
    obtain b u where u: "bread ROOTDEV ?a t = Ok b u" "fs_step p (H(?a \<mapsto> b)) (logged t) (blk_map t) t u" "bdata (bufs u b) = blk_map t ?a"
      and rel: "\<And>w. fs_step p (H(?a \<mapsto> b)) (logged t) (blk_map t) u w \<Longrightarrow> \<exists>v. brelse b w = Ok () v \<and> fs_step p H (logged t) (blk_map t) t v"
      using hold [OF ot a(2,3)] by blast
    note U = fs_stepD [OF u(2)]
    have "fs_step p (H(?a \<mapsto> b)) (logged t) (blk_map t) u (settle u)" using fs_step_settle [OF U(1)] unfolding U(2,3) .
    then obtain v where v: "brelse b (settle u) = Ok () v" "fs_step p H (logged t) (blk_map t) t v" using rel by blast
    have sv: "fs_step p H (logged s) (blk_map s) s v" using fs_step_trans [OF t(2) v(2)] T(2,3) by simp
    note V = fs_stepD [OF sv] and Iv = log_base_kfs(2) [OF fs_stepD(5) [OF sv]]
    let ?acc = "acc @ take ?c (drop (off mod BSIZE) (blk_map s ?a))"
    have run: "readi_loop ip To_local off tot n acc s = readi_loop ip To_local (off + ?c) (tot + ?c) n ?acc v"
      using True t(1) a(1) u(1,3) copy_to_local [OF U(1)] v(1) It dev T(3) by (subst readi_loop.simps) simp
    have c: "0 < ?c" "?c \<le> n - tot" "off mod BSIZE + ?c \<le> BSIZE" using chunk_pos [OF True] chunk_bounds by simp_all
    have ov: "fs_op p H (Suc k) v" by (rule fs_op_step [OF less.prems(1) sv]) simp
    have fv: "file_ok H v (inodes v ip) (off + ?c + (n - (tot + ?c)))"
      using less.prems(2) c file_same(3) [OF V(3)] Iv by (simp add: file_ok_mono)
    have "n - (tot + ?c) < n - tot" "tot + ?c \<le> n" using c True by simp_all
    from less.hyps [OF this(1) ov fv this(2), of ?acc] obtain w where w:
      "readi_loop ip To_local (off + ?c) (tot + ?c) n ?acc v = Ok (int n, ?acc @ map (file_byte v (inodes v ip)) [off + ?c..<off + ?c + (n - (tot + ?c))]) w"
      "fs_step p H (logged v) (blk_map v) v w" by blast
    have e: "[off..<off + (n - tot)] = [off..<off + ?c] @ [off + ?c..<off + ?c + (n - (tot + ?c))]"
      (is "_ = ?l @ [_..<?e]")
    proof -
      have "off + (n - tot) = ?e" using c(2) by simp
      then show ?thesis using upt_add_eq_append [of off "off + ?c" "n - (tot + ?c)"] by (simp only: le_add1)
    qed
    have "readi_loop ip To_local off tot n acc s = Ok (int n, acc @ map (file_byte s ?x) [off..<off + (n - tot)]) w"
      using run w(1) unfolding e map_append file_chunk [OF a(4) c(3)] file_same(2) [OF V(3)] Iv by simp
    then show ?thesis using fs_step_trans [OF sv w(2)] V(2,3) by auto
  qed
qed

text \<open>What \<open>readi\<close> returns: how many bytes, clipped to the size of the file.\<close>

definition read_count :: "inode \<Rightarrow> u32 \<Rightarrow> u32 \<Rightarrow> nat" where
  "read_count x off n = (if unat (isize x) < unat off \<or> 2 ^ 32 \<le> unat off + unat n then 0 else min (unat n) (unat (isize x) - unat off))"

lemma u32_overflow: "(off :: u32) + n < off \<longleftrightarrow> 2 ^ 32 \<le> unat off + unat n"
proof -
  have n: "unat off < 2 ^ 32" "unat n < 2 ^ 32" using unsigned_less [of off] unsigned_less [of n] by simp_all
  have "unat (off + n) = (unat off + unat n) mod 2 ^ 32" by (simp add: unat_word_ariths)
  moreover have "(unat off + unat n) mod 2 ^ 32 = unat off + unat n - 2 ^ 32" if "2 ^ 32 \<le> unat off + unat n"
    using that n by (simp add: mod_if)
  ultimately have "unat (off + n) = (if 2 ^ 32 \<le> unat off + unat n then unat off + unat n - 2 ^ 32 else unat off + unat n)" by auto
  then show ?thesis unfolding word_less_nat_alt using n by (cases "2 ^ 32 \<le> unat off + unat n") auto
qed

lemma readi_local:
  fixes s :: "'x kfs_scheme"
  assumes o: "fs_op p H (Suc k) s" and x: "file_ok H s (inodes s ip) (unat (isize (inodes s ip)))"
  shows "\<exists>t. readi ip To_local off n s = Ok (int (read_count (inodes s ip) off n),
      map (file_byte s (inodes s ip)) [unat off..<unat off + read_count (inodes s ip) off n]) t \<and> fs_step p H (logged s) (blk_map s) s t"
proof -
  let ?x = "inodes s ip" and ?z = "isize (inodes s ip)"
  show ?thesis
  proof (cases "unat ?z < unat off \<or> 2 ^ 32 \<le> unat off + unat n")
    case True
    then have "off > ?z \<or> off + n < off" unfolding u32_overflow word_less_nat_alt [of ?z off] .
    then show ?thesis using True fs_step_refl [OF fs_opD(1) [OF o]] by (auto simp: readi_def read_count_def)
  next
    case False
    then have nt: "\<not> (off > ?z \<or> off + n < off)" unfolding u32_overflow word_less_nat_alt [of ?z off] .
    have un: "unat (off + n) = unat off + unat n" using False by (simp add: unat_word_ariths)
    have "unat (?z - off) = unat ?z - unat off" using False by (intro unat_sub) (simp add: word_le_nat_alt)
    then have c: "unat (if off + n > ?z then ?z - off else n) = read_count ?x off n"
      using False un by (auto simp: read_count_def word_less_nat_alt min_def)
    have "file_ok H s ?x (unat off + (read_count ?x off n - 0))"
      by (rule file_ok_mono [OF x]) (use False in \<open>auto simp: read_count_def min_def\<close>)
    from readi_loop_local [OF o this, of "[]"] show ?thesis using nt c by (simp add: readi_def)
  qed
qed

text \<open>
  C16: \<open>readi\<close> returns the bytes of the file. For a file whose blocks are in place (direct or through
  the indirect block) it returns exactly the bytes from \<open>off\<close> on, at most \<open>n\<close> of them and none past
  the end of the file, across block boundaries; a start past the end or a range that overflows reads
  nothing. No block, inode or log entry changes.
\<close>
theorem readi_contents:
  fixes s :: "'x kfs_scheme"
  assumes "fs_op p H 1 s" "file_ok H s (inodes s ip) (unat (isize (inodes s ip)))"
  shows "\<exists>t. readi ip To_local off n s = Ok (int (read_count (inodes s ip) off n),
      map (file_byte s (inodes s ip)) [unat off..<unat off + read_count (inodes s ip) off n]) t \<and>
    blk_map t = blk_map s \<and> logged t = logged s \<and> inodes t = inodes s \<and> sectors t = sectors s"
proof -
  have "fs_op p H (Suc 0) s" using assms(1) by simp
  from readi_local [OF this assms(2), of off n] obtain t where t: "readi ip To_local off n s = Ok (int (read_count (inodes s ip) off n),
      map (file_byte s (inodes s ip)) [unat off..<unat off + read_count (inodes s ip) off n]) t" "fs_step p H (logged s) (blk_map s) s t" by blast
  note T = fs_stepD [OF t(2)]
  show ?thesis using t(1) T log_base_kfs(2) [OF T(5)] by auto
qed

section \<open>Names\<close>

text \<open>The name in a field of DIRSIZ bytes: up to the first NUL, if there is one.\<close>

definition cname :: "u8 list \<Rightarrow> u8 list" where
  "cname xs = takeWhile (\<lambda>b. b \<noteq> 0) (take DIRSIZ xs)"

lemma takeWhile_terminated: "takeWhile (\<lambda>b. b \<noteq> 0) (take n (xs @ 0 # zs)) = takeWhile (\<lambda>b. b \<noteq> (0 :: u8)) (take n xs)"
proof (induction xs arbitrary: n)
  case Nil
  then show ?case by (cases n) simp_all
next
  case (Cons x xs)
  then show ?case by (cases n) simp_all
qed

lemma field_name_stored:
  assumes "\<And>i. i < n \<Longrightarrow> m (a + of_nat i) = (if i < length xs then xs ! i else 0)"
  shows "field_name m a n = takeWhile (\<lambda>b. b \<noteq> 0) (take n xs)"
proof -
  have "bytes_at m a n = take n (xs @ 0 # replicate n 0)"
    using assms by (intro nth_equalityI) (auto simp: bytes_at_def nth_append nth_Cons')
  then show ?thesis by (simp only: field_name_def takeWhile_terminated)
qed

lemma in_range_small:
  assumes "a + i < 2 ^ 64" "b + n \<le> 2 ^ 64"
  shows "in_range (of_nat b) n (of_nat a + of_nat i) \<longleftrightarrow> b \<le> a + i \<and> a + i < b + n"
proof -
  have inj: "(of_nat x :: u64) = of_nat y \<longleftrightarrow> x = y" if "x < 2 ^ 64" "y < 2 ^ 64" for x y
    using that by (simp add: word_of_nat_eq_iff take_bit_nat_eq_self)
  have "in_range (of_nat b) n (of_nat a + of_nat i :: u64) \<longleftrightarrow> (\<exists>j < n. of_nat (a + i) = (of_nat (b + j) :: u64))"
    using assms(2) by (subst in_range_iff) simp_all
  also have "\<dots> \<longleftrightarrow> (\<exists>j < n. a + i = b + j)" 
  proof -
    have "b + j < 2 ^ 64" if "j < n" for j using assms(2) that by linarith
    then show ?thesis using inj [OF assms(1)] by blast
  qed
  also have "\<dots> \<longleftrightarrow> b \<le> a + i \<and> a + i < b + n" by (metis add_less_cancel_left le_add1 le_Suc_ex)
  finally show ?thesis .
qed

lemma namecmp_eq:
  assumes "length xs < 0x8000" "length ys < 0x8000"
  shows "namecmp xs ys = 0 \<longleftrightarrow> cname xs = cname ys"
proof -
  let ?m = "with_strings xs ys"
  have sb: "store_bytes a bs m x = (if in_range a (length bs) x then bs ! unat (x - a) else m x)" for a bs m x by (simp add: store_bytes_def)
  have r0: "in_range 0 (Suc (length xs)) (0 + of_nat i) \<longleftrightarrow> i \<le> length xs" "in_range 0x10000 (Suc (length ys)) (0 + of_nat i) \<longleftrightarrow> False" if "i < 14" for i
    using in_range_small [of 0 i 0 "Suc (length xs)"] in_range_small [of 0 i "0x10000" "Suc (length ys)"] that assms by auto
  have r1: "in_range 0 (Suc (length xs)) (0x10000 + of_nat i) \<longleftrightarrow> False" "in_range 0x10000 (Suc (length ys)) (0x10000 + of_nat i) \<longleftrightarrow> i \<le> length ys" if "i < 14" for i
    using in_range_small [of "0x10000" i 0 "Suc (length xs)"] in_range_small [of "0x10000" i "0x10000" "Suc (length ys)"] that assms by auto
  have u: "unat (of_nat i :: u64) = i" if "i < 14" for i using that by (simp add: unsigned_of_nat take_bit_nat_eq_self)
  have "?m (0 + of_nat i) = (if i < length xs then xs ! i else 0)" if "i < 14" for i
    using r0 [OF that] u [OF that] by (auto simp: with_strings_def sb nth_append)
  moreover have "?m (0x10000 + of_nat i) = (if i < length ys then ys ! i else 0)" if "i < 14" for i
    using r1 [OF that] u [OF that] by (auto simp: with_strings_def sb nth_append)
  ultimately have "field_name ?m 0 14 = cname xs" "field_name ?m 0x10000 14 = cname ys"
    using field_name_stored [of 14 ?m 0 xs] field_name_stored [of 14 ?m "0x10000" ys] by (simp_all add: cname_def DIRSIZ_def)
  then show ?thesis by (simp add: namecmp_def strncmp_def DIRSIZ_def strncmp_loop_eq_0)
qed

section \<open>Directories\<close>

text \<open>Entry number \<open>k\<close> of a directory; an entry with inode number 0 is free.\<close>

definition dirent :: "'x kfs_scheme \<Rightarrow> inode \<Rightarrow> nat \<Rightarrow> u8 list" where
  "dirent s x k = map (file_byte s x) [DIRENT_SIZE * k..<DIRENT_SIZE * k + DIRENT_SIZE]"

definition entry_inum :: "'x kfs_scheme \<Rightarrow> inode \<Rightarrow> nat \<Rightarrow> u16" where
  "entry_inum s x k = rd16 0 (dirent s x k)"

definition names_entry :: "'x kfs_scheme \<Rightarrow> inode \<Rightarrow> u8 list \<Rightarrow> nat \<Rightarrow> bool" where
  "names_entry s x nm k \<longleftrightarrow> entry_inum s x k \<noteq> 0 \<and> cname (drop 2 (dirent s x k)) = cname nm"

definition dir_ok :: "(u32 \<rightharpoonup> nat) \<Rightarrow> 'x kfs_scheme \<Rightarrow> inode \<Rightarrow> bool" where
  "dir_ok H s x \<longleftrightarrow> itype x = T_DIR \<and> DIRENT_SIZE dvd unat (isize x) \<and> file_ok H s x (unat (isize x))"

lemma dirent_same:
  assumes "blk_map t = blk_map s"
  shows "dirent t x = dirent s x" "entry_inum t x = entry_inum s x" "names_entry t x nm = names_entry s x nm"
proof -
  show d: "dirent t x = dirent s x" by (rule ext) (simp only: dirent_def file_same(2) [OF assms])
  show e: "entry_inum t x = entry_inum s x" by (rule ext) (simp only: entry_inum_def d)
  show "names_entry t x nm = names_entry s x nm" by (rule ext) (simp only: names_entry_def d e)
qed

lemma dirent_read:
  fixes s :: "'x kfs_scheme"
  assumes o: "fs_op p H (Suc j) s" and d: "dir_ok H s (inodes s dp)" and k: "k < unat (isize (inodes s dp)) div DIRENT_SIZE"
  shows "\<exists>t. readi dp To_local (of_nat (DIRENT_SIZE * k)) (of_nat DIRENT_SIZE) s = Ok (int DIRENT_SIZE, dirent s (inodes s dp) k) t \<and>
    fs_step p H (logged s) (blk_map s) s t"
proof -
  let ?x = "inodes s dp"
  have z: "unat (isize ?x) < 2 ^ 32" using unsigned_less [of "isize ?x"] by simp
  have le: "DIRENT_SIZE * k + DIRENT_SIZE \<le> unat (isize ?x)" using k by (simp add: DIRENT_SIZE_def)
  have u: "unat (of_nat (DIRENT_SIZE * k) :: u32) = DIRENT_SIZE * k" "unat (of_nat DIRENT_SIZE :: u32) = DIRENT_SIZE"
    using le z by (simp_all only: unat_of_nat_u32)
  have c: "read_count ?x (of_nat (DIRENT_SIZE * k)) (of_nat DIRENT_SIZE) = DIRENT_SIZE"
    unfolding read_count_def u using le z by auto
  from readi_local [OF o, of dp "of_nat (DIRENT_SIZE * k)" "of_nat DIRENT_SIZE"] d show ?thesis
    unfolding u c dir_ok_def dirent_def by blast
qed

lemma length_dirent [simp]: "length (dirent s x k) = DIRENT_SIZE"
  by (simp add: dirent_def)

lemma dirlookup_one_effect:
  fixes s :: "'x kfs_scheme"
  assumes o: "fs_op p H (Suc j) s" and d: "dir_ok H s (inodes s dp)" and k: "k < unat (isize (inodes s dp)) div DIRENT_SIZE"
    and nm: "length nm < 0x8000"
  shows "\<exists>t. fs_step p H (logged s) (blk_map s) s t \<and> dirlookup_one dp nm (DIRENT_SIZE * k) s =
    (if names_entry s (inodes s dp) nm k
     then kbind (iget ROOTDEV (ucast (entry_inum s (inodes s dp) k))) (\<lambda>ip. ret (Some (ip, of_nat (DIRENT_SIZE * k)))) t
     else Ok None t)"
proof -
  let ?x = "inodes s dp"
  obtain t where t: "readi dp To_local (of_nat (DIRENT_SIZE * k)) (of_nat DIRENT_SIZE) s = Ok (int DIRENT_SIZE, dirent s ?x k) t"
    "fs_step p H (logged s) (blk_map s) s t" using dirent_read [OF o d k] by blast
  have i: "inodes t = inodes s" by (rule log_base_kfs(2) [OF fs_stepD(5) [OF t(2)]])
  have dev: "idev ?x = ROOTDEV" using d by (simp add: dir_ok_def file_ok_def)
  have "namecmp nm (drop 2 (dirent s ?x k)) = 0 \<longleftrightarrow> cname (drop 2 (dirent s ?x k)) = cname nm"
    using namecmp_eq [OF nm, of "drop 2 (dirent s ?x k)"] by (auto simp: DIRENT_SIZE_def)
  then have "dirlookup_one dp nm (DIRENT_SIZE * k) s =
    (if names_entry s ?x nm k then kbind (iget ROOTDEV (ucast (entry_inum s ?x k))) (\<lambda>ip. ret (Some (ip, of_nat (DIRENT_SIZE * k)))) t else Ok None t)"
    using t(1) by (simp add: dirlookup_one_def names_entry_def entry_inum_def i dev del: of_nat_mult)
  then show ?thesis using t(2) by blast
qed

lemma dirlookup_scan:
  fixes s :: "'x kfs_scheme"
  assumes "fs_op p H (Suc j) s" "dir_ok H s (inodes s dp)" "length nm < 0x8000" "set ks \<subseteq> {0..<unat (isize (inodes s dp)) div DIRENT_SIZE}"
  shows "\<exists>t. fs_step p H (logged s) (blk_map s) s t \<and> scan (dirlookup_one dp nm) (map ((*) DIRENT_SIZE) ks) s =
    (case find (names_entry s (inodes s dp) nm) ks of
       Some k \<Rightarrow> kbind (iget ROOTDEV (ucast (entry_inum s (inodes s dp) k))) (\<lambda>ip. ret (Some (ip, of_nat (DIRENT_SIZE * k)))) t
     | None \<Rightarrow> Ok None t)"
  using assms
proof (induction ks arbitrary: s)
  case Nil
  then show ?case using fs_step_refl [OF fs_opD(1) [OF Nil.prems(1)]] by auto
next
  case (Cons k ks)
  let ?x = "inodes s dp"
  obtain t where t: "fs_step p H (logged s) (blk_map s) s t" "dirlookup_one dp nm (DIRENT_SIZE * k) s =
    (if names_entry s ?x nm k then kbind (iget ROOTDEV (ucast (entry_inum s ?x k))) (\<lambda>ip. ret (Some (ip, of_nat (DIRENT_SIZE * k)))) t else Ok None t)"
    using dirlookup_one_effect [OF Cons.prems(1,2) _ Cons.prems(3), of k] Cons.prems(4) by auto
  show ?case
  proof (cases "names_entry s ?x nm k")
    case True
    then show ?thesis using t by (intro exI [of _ t]) (auto split: outcome.split simp del: of_nat_mult)
  next
    case False
    note T = fs_stepD [OF t(1)]
    have i: "inodes t = inodes s" by (rule log_base_kfs(2) [OF T(5)])
    have ot: "fs_op p H (Suc j) t" by (rule fs_op_step [OF Cons.prems(1) t(1)]) simp
    have dt: "dir_ok H t (inodes t dp)" using Cons.prems(2) file_same(3) [OF T(3)] by (simp add: dir_ok_def i)
    note n = dirent_same(2,3) [OF T(3), of ?x]
    obtain u where u: "fs_step p H (logged t) (blk_map t) t u" "scan (dirlookup_one dp nm) (map ((*) DIRENT_SIZE) ks) t =
      (case find (names_entry s ?x nm) ks of
         Some k \<Rightarrow> kbind (iget ROOTDEV (ucast (entry_inum s ?x k))) (\<lambda>ip. ret (Some (ip, of_nat (DIRENT_SIZE * k)))) u | None \<Rightarrow> Ok None u)"
      using Cons.IH [OF ot dt Cons.prems(3)] Cons.prems(4) unfolding n i by auto
    have "fs_step p H (logged s) (blk_map s) s u" using fs_step_trans [OF t(1) u(1)] T(2,3) by simp
    then show ?thesis using t(2) u(2) False by (intro exI [of _ u]) (simp del: kbind_apply add: kbind_Ok)
  qed
qed

text \<open>The inode table: \<open>iget\<close> shares the entry of an inode, or takes a free one.\<close>

lemma iget_scan_find:
  "iget_scan tab dev n is e =
     (case find (\<lambda>i. 0 < iref (tab i) \<and> idev (tab i) = dev \<and> inum (tab i) = n) is of
        Some i \<Rightarrow> Inl i
      | None \<Rightarrow> Inr (case e of Some i \<Rightarrow> Some i | None \<Rightarrow> find (\<lambda>i. iref (tab i) = 0) is))"
  by (induction "is" arbitrary: e) (auto split: option.split)

lemma acquired_kfs:
  "inodes (acquired l s) = inodes s" "(acquired l s)\<lparr>inodes := x\<rparr> = acquired l (s\<lparr>inodes := x\<rparr>)"
  by (cases s; simp add: acquired_def)+

definition iget_entry :: "u32 \<Rightarrow> u32 \<Rightarrow> bool \<Rightarrow> inode \<Rightarrow> inode" where
  "iget_entry dev n hit x = (if hit then x\<lparr>iref := iref x + 1\<rparr> else x\<lparr>idev := dev, inum := n, iref := 1, ivalid := 0\<rparr>)"

lemma iget_effect:
  fixes s :: "'x kfs_scheme"
  assumes r: "fs_ready p s" and free: "\<exists>i < NINODE. iref (inodes s i) = 0"
  shows "\<exists>ip hit. iget dev n s = Ok ip ((settle s)\<lparr>inodes := (inodes s)(ip := iget_entry dev n hit (inodes s ip))\<rparr>) \<and> ip < NINODE \<and>
    (if hit then 0 < iref (inodes s ip) \<and> idev (inodes s ip) = dev \<and> inum (inodes s ip) = n
     else iref (inodes s ip) = 0 \<and> (\<forall>i < NINODE. \<not> (0 < iref (inodes s i) \<and> idev (inodes s i) = dev \<and> inum (inodes s i) = n)))"
proof -
  have acq: "acquire L_itable s = Ok () (acquired L_itable s)" by (rule acquire_acquired [OF fs_readyD(2) [OF r]])
  have "fs_ready p (s\<lparr>inodes := x\<rparr>)" for x using r by (simp add: fs_ready_def irq_state_ok_def)
  then have rel: "release L_itable (acquired L_itable (s\<lparr>inodes := x\<rparr>)) = Ok () (settle (s\<lparr>inodes := x\<rparr>))" for x
    by (intro release_acquired fs_readyD)
  have st: "settle (s\<lparr>inodes := x\<rparr>) = (settle s)\<lparr>inodes := x\<rparr>" for x by (cases s) (simp add: settle_def)
  let ?P = "\<lambda>i. 0 < iref (inodes s i) \<and> idev (inodes s i) = dev \<and> inum (inodes s i) = n"
  show ?thesis
  proof (cases "find ?P [0..<NINODE]")
    case (Some ip)
    then have "iget dev n s = Ok ip ((settle s)\<lparr>inodes := (inodes s)(ip := iget_entry dev n True (inodes s ip))\<rparr>)"
      using acq rel by (simp add: iget_def iget_scan_find acquired_kfs upd_inode_def iget_entry_def st)
    then show ?thesis using find_SomeD [OF Some] by (intro exI [of _ ip] exI [of _ True]) simp
  next
    case None
    then have no: "\<forall>i < NINODE. \<not> ?P i" by (auto simp: find_None_iff)
    have "find (\<lambda>i. iref (inodes s i) = 0) [0..<NINODE] \<noteq> None" using free by (auto simp: find_None_iff)
    then obtain ip where ip: "find (\<lambda>i. iref (inodes s i) = 0) [0..<NINODE] = Some ip" by auto
    then have "iget dev n s = Ok ip ((settle s)\<lparr>inodes := (inodes s)(ip := iget_entry dev n False (inodes s ip))\<rparr>)"
      using acq rel None by (simp add: iget_def iget_scan_find acquired_kfs upd_inode_def iget_entry_def st)
    then show ?thesis using find_SomeD [OF ip] no by (intro exI [of _ ip] exI [of _ False]) simp
  qed
qed

text \<open>
  C15: \<open>dirlookup\<close> finds a name in a directory. If an entry in use has the name (compared on its first
  DIRSIZ bytes, up to a NUL), the result is a reference to the inode with the number of the first such
  entry, held in the inode table with one reference more than before, and the offset of that entry;
  otherwise nothing is found. No block changes, and no other entry of the inode table.
\<close>
theorem dirlookup_finds:
  fixes s :: "'x kfs_scheme"
  assumes o: "fs_op p H 1 s" and d: "dir_ok H s (inodes s dp)" and nm: "length nm < 0x8000" and free: "\<exists>i < NINODE. iref (inodes s i) = 0"
  shows "case find (names_entry s (inodes s dp) nm) [0..<unat (isize (inodes s dp)) div DIRENT_SIZE] of
      None \<Rightarrow> \<exists>t. dirlookup dp nm s = Ok None t \<and> inodes t = inodes s \<and> blk_map t = blk_map s
    | Some k \<Rightarrow> \<exists>ip t. dirlookup dp nm s = Ok (Some (ip, of_nat (DIRENT_SIZE * k))) t \<and> ip < NINODE \<and>
        idev (inodes t ip) = ROOTDEV \<and> inum (inodes t ip) = ucast (entry_inum s (inodes s dp) k) \<and>
        iref (inodes t ip) = iref (inodes s ip) + 1 \<and> (\<forall>j. j \<noteq> ip \<longrightarrow> inodes t j = inodes s j) \<and> blk_map t = blk_map s"
proof -
  let ?x = "inodes s dp" and ?n = "unat (isize (inodes s dp)) div DIRENT_SIZE"
  have dv: "DIRENT_SIZE dvd unat (isize ?x)" and ty: "itype ?x = T_DIR" using d by (simp_all add: dir_ok_def)
  have "(unat (isize ?x) + DIRENT_SIZE - 1) div DIRENT_SIZE = ?n" using dv by (auto simp: DIRENT_SIZE_def dvd_def)
  then have off: "dirent_offsets (isize ?x) = map ((*) DIRENT_SIZE) [0..<?n]" by (simp add: dirent_offsets_def)
  have "fs_op p H (Suc 0) s" using o by simp
  from dirlookup_scan [OF this d nm, of "[0..<?n]"] obtain t where t: "fs_step p H (logged s) (blk_map s) s t"
    "scan (dirlookup_one dp nm) (map ((*) DIRENT_SIZE) [0..<?n]) s = (case find (names_entry s ?x nm) [0..<?n] of
       Some k \<Rightarrow> kbind (iget ROOTDEV (ucast (entry_inum s ?x k))) (\<lambda>ip. ret (Some (ip, of_nat (DIRENT_SIZE * k)))) t | None \<Rightarrow> Ok None t)"
    by auto
  note T = fs_stepD [OF t(1)]
  have i: "inodes t = inodes s" by (rule log_base_kfs(2) [OF T(5)])
  have run: "dirlookup dp nm s = scan (dirlookup_one dp nm) (map ((*) DIRENT_SIZE) [0..<?n]) s" using ty by (simp add: dirlookup_def off)
  show ?thesis
  proof (cases "find (names_entry s ?x nm) [0..<?n]")
    case None
    then show ?thesis using run t i T(3) by auto
  next
    case (Some k)
    have fr: "fs_ready p t" by (rule cache_atD(1) [OF log_readyD(1) [OF T(1)]])
    obtain ip hit where ip: "iget ROOTDEV (ucast (entry_inum s ?x k)) t =
        Ok ip ((settle t)\<lparr>inodes := (inodes t)(ip := iget_entry ROOTDEV (ucast (entry_inum s ?x k)) hit (inodes t ip))\<rparr>)" "ip < NINODE"
      "if hit then 0 < iref (inodes t ip) \<and> idev (inodes t ip) = ROOTDEV \<and> inum (inodes t ip) = ucast (entry_inum s ?x k) else iref (inodes t ip) = 0"
      using iget_effect [OF fr, of ROOTDEV "ucast (entry_inum s ?x k)"] free i by (metis (full_types))
    let ?u = "(settle t)\<lparr>inodes := (inodes t)(ip := iget_entry ROOTDEV (ucast (entry_inum s ?x k)) hit (inodes t ip))\<rparr>"
    have "blk_map ?u = blk_map (settle t)" by (simp add: blk_map_def blk_def fun_eq_iff cong: option.case_cong)
    then have bm: "blk_map ?u = blk_map s" using fs_stepD(3) [OF fs_step_settle [OF T(1)]] T(3) by simp
    have "dirlookup dp nm s = Ok (Some (ip, of_nat (DIRENT_SIZE * k))) ?u" using run t(2) ip(1) by (simp add: Some del: of_nat_mult)
    moreover have "idev (inodes ?u ip) = ROOTDEV" "inum (inodes ?u ip) = ucast (entry_inum s ?x k)"
      "iref (inodes ?u ip) = iref (inodes s ip) + 1" "\<forall>j. j \<noteq> ip \<longrightarrow> inodes ?u j = inodes s j"
      using ip(3) i by (auto simp: iget_entry_def split: if_splits)
    ultimately show ?thesis unfolding Some option.case using ip(2) bm by blast
  qed
qed

text \<open>A directory with the entries \<open>.\<close>, \<open>..\<close> and \<open>sh\<close>, in block 47 of the sample disk.\<close>

definition sample_entries :: "u8 list" where
  "sample_entries = [1, 0, 46] @ replicate 13 0 @ [1, 0, 46, 46] @ replicate 12 0 @ [5, 0, 115, 104] @ replicate 12 0"

definition sample_dir :: kfs where
  "sample_dir = sample_fs (sample_sectors(94 := sample_entries @ replicate 464 0))
     (\<lambda>i. sample_inode\<lparr>inum := 1, iref := (if i = 0 then 1 else 0), itype := T_DIR, isize := 48, addrs := (\<lambda>_. 0)(0 := 47)\<rparr>)"

lemma sample_dir_block: "blk_map sample_dir 47 = sample_entries @ replicate 464 0 @ replicate 512 0"
  by (simp add: sample_dir_def sample_fs_blk sector_of_numeral sample_sectors_def)

lemma sample_dir_file:
  "file_ok Map.empty sample_dir (inodes sample_dir 0) 48" "i < 1024 \<Longrightarrow> file_byte sample_dir (inodes sample_dir 0) i = blk_map sample_dir 47 ! i"
proof -
  have b: "file_block sample_dir (inodes sample_dir 0) 0 = 47" by (simp add: file_block_def sample_dir_def BSIZE_1024)
  have l: "length (blk_map sample_dir 47) = BSIZE" unfolding sample_dir_block by (simp add: sample_entries_def BSIZE_1024)
  have z: "bn = 0" if "bn * BSIZE < 48" for bn using that by (simp add: BSIZE_1024)
  have f: "idev (inodes sample_dir 0) = ROOTDEV" "addrs (inodes sample_dir 0) NDIRECT = 0"
    by (simp_all add: sample_dir_def sample_inode_def BSIZE_1024)
  show "file_ok Map.empty sample_dir (inodes sample_dir 0) 48"
  proof -
    have "readable_block Map.empty (file_block sample_dir (inodes sample_dir 0) bn) \<and>
        length (blk_map sample_dir (file_block sample_dir (inodes sample_dir 0) bn)) = BSIZE" if "bn * BSIZE < 48" for bn
      unfolding z [OF that] b using l by (simp add: readable_block_def)
    then show ?thesis using f by (simp add: file_ok_def MAXFILE_def BSIZE_1024)
  qed
  show "file_byte sample_dir (inodes sample_dir 0) i = blk_map sample_dir 47 ! i" if "i < 1024"
    using that b by (simp add: file_byte_def BSIZE_1024)
qed

lemma sample_dir_simps:
  "isize (inodes sample_dir 0) = 48" "itype (inodes sample_dir 0) = T_DIR" "iref (inodes sample_dir 1) = 0" "iref (inodes sample_dir 0) = 1"
  "fs_op 0 Map.empty 1 sample_dir"
  using sample_fs_op [of 1] by (simp_all add: sample_dir_def)

lemma sample_dir_ok: "dir_ok Map.empty sample_dir (inodes sample_dir 0)"
  using sample_dir_file(1) by (simp add: dir_ok_def sample_dir_simps DIRENT_SIZE_def)

lemma sample_dirents:
  "dirent sample_dir (inodes sample_dir 0) 0 = [1, 0, 46] @ replicate 13 0"
  "dirent sample_dir (inodes sample_dir 0) 1 = [1, 0, 46, 46] @ replicate 12 0"
  "dirent sample_dir (inodes sample_dir 0) 2 = [5, 0, 115, 104] @ replicate 12 0"
proof -
  have d: "dirent sample_dir (inodes sample_dir 0) k = map ((!) (sample_entries @ replicate 464 0 @ replicate 512 0)) [16 * k..<16 * k + 16]"
    if "k < 3" for k using that sample_dir_file(2) by (auto simp: dirent_def DIRENT_SIZE_def sample_dir_block)
  have e: "map ((!) (sample_entries @ ys)) [i..<j] = map ((!) sample_entries) [i..<j]" if "j \<le> 48" for i j and ys :: "u8 list"
  proof -
    have "length sample_entries = 48" by (simp add: sample_entries_def)
    then show ?thesis using that by (simp add: nth_append)
  qed
  have s: "sample_entries = [1, 0, 46, 0, 0, 0, 0, 0, 0, 0, 0, 0, 0, 0, 0, 0, 1, 0, 46, 46, 0, 0, 0, 0, 0, 0, 0, 0, 0, 0, 0, 0,
      5, 0, 115, 104, 0, 0, 0, 0, 0, 0, 0, 0, 0, 0, 0, 0]" by (simp add: sample_entries_def numeral_eq_Suc)
  show "dirent sample_dir (inodes sample_dir 0) 0 = [1, 0, 46] @ replicate 13 0"
    "dirent sample_dir (inodes sample_dir 0) 1 = [1, 0, 46, 46] @ replicate 12 0"
    "dirent sample_dir (inodes sample_dir 0) 2 = [5, 0, 115, 104] @ replicate 12 0"
    by (simp_all add: d e, simp_all add: s upt_rec numeral_eq_Suc)
qed

theorem readi_contents_witness:
  "\<exists>t. readi 0 To_local 34 100 sample_dir = Ok (14, [115, 104] @ replicate 12 0) t"
proof -
  have c: "read_count (inodes sample_dir 0) 34 100 = 14" by (simp add: read_count_def sample_dir_simps)
  have "map (file_byte sample_dir (inodes sample_dir 0)) [34..<48] = drop 2 (dirent sample_dir (inodes sample_dir 0) 2)"
    by (simp add: dirent_def DIRENT_SIZE_def drop_map)
  also have "\<dots> = [115, 104] @ replicate 12 0" by (simp add: sample_dirents)
  finally show ?thesis
    using readi_contents [OF sample_dir_simps(5), of 0 34 100] sample_dir_file(1) c by (auto simp: sample_dir_simps)
qed

theorem dirlookup_finds_witness:
  "\<exists>ip t. dirlookup 0 [115, 104] sample_dir = Ok (Some (ip, 32)) t \<and> inum (inodes t ip) = 5"
proof -
  let ?x = "inodes sample_dir 0"
  have n: "\<not> names_entry sample_dir ?x [115, 104] 0" "\<not> names_entry sample_dir ?x [115, 104] 1" "names_entry sample_dir ?x [115, 104] 2"
    "entry_inum sample_dir ?x 2 = 5"
    by (simp_all only: names_entry_def entry_inum_def sample_dirents) (simp_all add: cname_def DIRSIZ_def rd16_def)
  have "find (names_entry sample_dir ?x [115, 104]) [0..<unat (isize ?x) div DIRENT_SIZE] = Some 2"
  proof -
    have "unat (isize ?x) div DIRENT_SIZE = 3" by (simp add: sample_dir_simps DIRENT_SIZE_def)
    moreover have "[0..<3] = [0, 1, 2 :: nat]" by (simp add: upt_rec)
    ultimately show ?thesis using n by simp
  qed
  moreover have "\<exists>i < NINODE. iref (inodes sample_dir i) = 0" using sample_dir_simps(3) by (intro exI [of _ 1]) (simp add: NINODE_def)
  ultimately show ?thesis
    using dirlookup_finds [OF sample_dir_simps(5) sample_dir_ok, of "[115, 104]"] n(4) by (auto simp: DIRENT_SIZE_def)
qed

section \<open>Paths\<close>

text \<open>The reference: a path split at its slashes, without the empty pieces, each cut to DIRSIZ bytes.\<close>

fun split_path :: "u8 list \<Rightarrow> u8 list list" where
  "split_path [] = [[]]"
| "split_path (c # cs) = (if c = SLASH then [] # split_path cs else (case split_path cs of p # ps \<Rightarrow> (c # p) # ps | [] \<Rightarrow> [[c]]))"

definition path_elements :: "u8 list \<Rightarrow> u8 list list" where
  "path_elements path = map (take DIRSIZ) (filter (\<lambda>e. e \<noteq> []) (split_path path))"

lemma split_path_ne: "split_path cs \<noteq> []"
  by (cases cs) (auto split: list.splits)

lemma path_elements_skip: "path_elements (skip_slashes path) = path_elements path"
  by (induction path) (auto simp: path_elements_def)

lemma split_take_elem: "take_elem cs = (e, rest) \<Longrightarrow> split_path cs = (if rest = [] then [e] else e # split_path (tl rest)) \<and>
  (rest = [] \<or> hd rest = SLASH) \<and> SLASH \<notin> set e"
proof (induction cs arbitrary: e rest)
  case (Cons c cs)
  show ?case
  proof (cases "c = SLASH")
    case True
    then show ?thesis using Cons.prems by auto
  next
    case False
    obtain e' where e: "take_elem cs = (e', rest)" "e = c # e'" using Cons.prems False by (auto split: prod.splits)
    then show ?thesis using Cons.IH [OF e(1)] False by auto
  qed
qed simp

lemma path_elements_elem:
  assumes "take_elem cs = (e, rest)" "e \<noteq> []"
  shows "path_elements cs = take DIRSIZ e # path_elements rest"
proof (cases "rest = []")
  case True
  then show ?thesis using split_take_elem [OF assms(1)] assms(2) by (simp add: path_elements_def)
next
  case False
  then have "path_elements (tl rest) = path_elements rest"
    using split_take_elem [OF assms(1)] by (cases rest) (auto simp: path_elements_def)
  then show ?thesis using split_take_elem [OF assms(1)] assms(2) False by (simp add: path_elements_def)
qed

lemma path_elements_empty: "path_elements path = [] \<longleftrightarrow> skip_slashes path = []"
proof (induction path)
  case (Cons c cs)
  then show ?case using split_path_ne [of cs] by (auto simp: path_elements_def split: list.splits)
qed (simp add: path_elements_def)

lemma skip_slashes_idem: "skip_slashes (skip_slashes xs) = skip_slashes xs"
  by (induction xs) auto

text \<open>
  C17: \<open>skipelem\<close> takes a path apart at its slashes. It returns nothing exactly when the path has no
  element; otherwise it returns the first element, cut to DIRSIZ bytes, and a rest that has exactly
  the other elements, with no leading slash, empty when there are none (so that \<open>nameiparent\<close> knows
  the last element). Repeated and trailing slashes do not matter.
\<close>
theorem skipelem_splits:
  "(skipelem path = None \<longleftrightarrow> path_elements path = []) \<and>
   (\<forall>e rest. skipelem path = Some (e, rest) \<longrightarrow> path_elements path = e # path_elements rest \<and> length e \<le> DIRSIZ \<and>
      (rest = [] \<longleftrightarrow> path_elements rest = []) \<and> (rest \<noteq> [] \<longrightarrow> hd rest \<noteq> SLASH))"
proof (intro conjI allI impI)
  let ?s = "skip_slashes path"
  show "skipelem path = None \<longleftrightarrow> path_elements path = []"
    by (auto simp: skipelem_def path_elements_empty Let_def split: prod.splits)
  fix e rest assume a: "skipelem path = Some (e, rest)"
  then have ne: "?s \<noteq> []" by (auto simp: skipelem_def)
  obtain e' r where t: "take_elem ?s = (e', r)" by fastforce
  have er: "e = take DIRSIZ e'" "rest = skip_slashes r" using a ne t by (auto simp: skipelem_def)
  have "e' \<noteq> []"
  proof -
    obtain c cs where c: "?s = c # cs" using ne by (cases ?s) auto
    then show ?thesis using t skip_slashes_head [OF c] by (auto split: prod.splits)
  qed
  then show "path_elements path = e # path_elements rest"
    using path_elements_elem [OF t] path_elements_skip [of path] path_elements_skip [of r] er by simp
  show "length e \<le> DIRSIZ" by (simp add: er)
  show "rest = [] \<longleftrightarrow> path_elements rest = []" by (simp add: path_elements_empty er skip_slashes_idem)
  show "hd rest \<noteq> SLASH" if "rest \<noteq> []"
    using that skip_slashes_head [of r] unfolding er by (cases "skip_slashes r") auto
qed

theorem skipelem_splits_witness:
  "skipelem [47, 47, 97, 47, 47, 98, 98] = Some ([97], [98, 98]) \<and> path_elements [98, 98] = [[98, 98]] \<and> hd [98, 98 :: u8] \<noteq> SLASH"
proof -
  have s: "skipelem [47, 47, 97, 47, 47, 98, 98] = Some ([97], [98, 98])" by (simp add: skipelem_def SLASH_def DIRSIZ_def)
  have "path_elements [98, 98] = [[98, 98]]" by (simp add: path_elements_def SLASH_def DIRSIZ_def)
  then show ?thesis using s skipelem_splits [of "[47, 47, 97, 47, 47, 98, 98]"] by simp
qed

end
