(* ===== verification/Xv6_Console.thy ===== *)
theory Xv6_Console
  imports Xv6_Fs
begin

text \<open>
  Console input and output: the UART driver (uart.c), the console (console.c) and formatted kernel
  output (printk.c). The bytes sent to the transmit register are the history \<open>uart_out\<close>, the bytes
  waiting in the receiver are \<open>uart_in\<close>. The printing calls inside other kernel functions change no
  state but this history and are left out of those functions.
\<close>

record kcons = kfs +
  uart_out :: "u8 list"
  uart_in :: "u8 list"
  tx_busy :: int
  cons_buf :: "nat \<Rightarrow> u8"
  cons_r :: u32
  cons_w :: u32
  cons_e :: u32

section \<open>uart.c\<close>

text \<open>\<open>WriteReg(THR, c)\<close>.\<close>

definition write_thr :: "u8 \<Rightarrow> ('x kcons_scheme, unit) kop" where
  "write_thr c = modify (\<lambda>s. s\<lparr>uart_out := uart_out s @ [c]\<rparr>)"

text \<open>
  A panic stops the model, so \<open>panicking\<close> and \<open>panicked\<close> are 0 here. The transmitter becomes idle again
  without help from the software, so the polling loop ends.
\<close>

definition uartputc_sync :: "u8 \<Rightarrow> ('x kcons_scheme, unit) kop" where
  "uartputc_sync c = kthen push_off (kthen (write_thr c) pop_off)"

definition uartgetc :: "('x kcons_scheme, u8 option) kop" where
  "uartgetc =
     kbind (gets uart_in) (\<lambda>q.
     case q of
       [] \<Rightarrow> ret None
     | c # cs \<Rightarrow> kthen (modify (\<lambda>s. s\<lparr>uart_in := cs\<rparr>)) (ret (Some c)))"

text \<open>The transmit part of \<open>uartintr\<close>, raised when the byte has been sent.\<close>

definition uartintr_tx :: "('x kcons_scheme, unit) kop" where
  "uartintr_tx =
     kthen (acquire L_uart) (
     kthen (modify (\<lambda>s. s\<lparr>tx_busy := 0\<rparr>)) (
     kthen (wakeup Chan_tx) (
     release L_uart)))"

definition uartwrite_one :: "u8 \<Rightarrow> ('x kcons_scheme, unit) kop" where
  "uartwrite_one c =
     kbind (gets tx_busy) (\<lambda>b.
     kthen (kwhen (b \<noteq> 0) (sleep_through uartintr_tx Chan_tx L_uart)) (
     kbind (gets tx_busy) (\<lambda>b.
     if b \<noteq> 0 then sleep Chan_tx L_uart else
     kthen (write_thr c) (
     modify (\<lambda>s. s\<lparr>tx_busy := 1\<rparr>)))))"

definition uartwrite :: "u8 list \<Rightarrow> ('x kcons_scheme, unit) kop" where
  "uartwrite bs =
     kthen (acquire L_uart) (
     kthen (for_each uartwrite_one bs) (
     release L_uart))"

section \<open>console.c and printk.c: output\<close>

definition BACKSPACE :: nat where "BACKSPACE = 0x100"

definition consputc :: "nat \<Rightarrow> ('x kcons_scheme, unit) kop" where
  "consputc c =
     (if c = BACKSPACE then
        kthen (uartputc_sync 8) (
        kthen (uartputc_sync 32) (
        uartputc_sync 8))
      else uartputc_sync (of_nat c))"

definition asc :: "string \<Rightarrow> nat list" where
  "asc s = map of_char s"

definition digits :: "nat list" where
  "digits = asc ''0123456789abcdef''"

text \<open>The digit loop fills \<open>buf\<close>, least significant digit first; the buffer has 20 places.\<close>

fun printint_loop :: "nat \<Rightarrow> u64 \<Rightarrow> u64 \<Rightarrow> nat list" where
  "printint_loop 0 x base = []"
| "printint_loop (Suc k) x base =
     digits ! unat (x mod base) # (if x div base \<noteq> 0 then printint_loop k (x div base) base else [])"

text \<open>The characters \<open>printint\<close> sends to \<open>consputc\<close>, in order.\<close>

definition printint :: "u64 \<Rightarrow> u64 \<Rightarrow> bool \<Rightarrow> nat list" where
  "printint xx base sign =
     (let neg = (sign \<and> sint xx < 0);
          x = (if neg then - xx else xx) in
      rev (printint_loop 20 x base @ (if neg then asc ''-'' else [])))"

definition printptr :: "u64 \<Rightarrow> nat list" where
  "printptr x = asc ''0x'' @ map (\<lambda>i. digits ! unat (drop_bit 60 (push_bit (4 * i) x))) [0..<16]"

text \<open>Variadic arguments: numbers (as the 64 bits passed) and strings, \<open>None\<close> for a null pointer.\<close>

datatype parg = Num u64 | Str "nat list option"

fun va_num :: "parg list \<Rightarrow> (u64 \<times> parg list) option" where
  "va_num (Num n # as) = Some (n, as)"
| "va_num _ = None"

fun va_str :: "parg list \<Rightarrow> (nat list \<times> parg list) option" where
  "va_str (Str (Some xs) # as) = Some (xs, as)"
| "va_str (Str None # as) = Some (asc ''(null)'', as)"
| "va_str _ = None"

definition sext32 :: "u64 \<Rightarrow> u64" where
  "sext32 n = scast (ucast n :: u32)"

definition zext32 :: "u64 \<Rightarrow> u64" where
  "zext32 n = ucast (ucast n :: u32)"

text \<open>
  The directive that starts at the head of the format (after the percent sign): how many characters
  it takes, and what it prints. \<open>None\<close> is a call whose arguments do not match the format.
\<close>

definition pr_num :: "nat \<Rightarrow> (u64 \<Rightarrow> u64) \<Rightarrow> u64 \<Rightarrow> bool \<Rightarrow> parg list \<Rightarrow> (nat \<times> nat list \<times> parg list) option" where
  "pr_num k conv base sign as = map_option (\<lambda>(n, as'). (k, printint (conv n) base sign, as')) (va_num as)"

definition at0 :: "nat \<Rightarrow> nat list \<Rightarrow> nat" where
  "at0 i f = (if i < length f then f ! i else 0)"

definition directive :: "nat list \<Rightarrow> parg list \<Rightarrow> (nat \<times> nat list \<times> parg list) option" where
  "directive f as =
     (let c0 = at0 0 f; c1 = (if c0 \<noteq> 0 then at0 1 f else 0); c2 = (if c1 \<noteq> 0 then at0 2 f else 0);
          d = of_char (CHR ''d''); l = of_char (CHR ''l''); u = of_char (CHR ''u''); x = of_char (CHR ''x'') in
      if c0 = d then pr_num 1 sext32 10 True as
      else if c0 = l \<and> c1 = d then pr_num 2 id 10 True as
      else if c0 = l \<and> c1 = l \<and> c2 = d then pr_num 3 id 10 True as
      else if c0 = u then pr_num 1 zext32 10 False as
      else if c0 = l \<and> c1 = u then pr_num 2 id 10 False as
      else if c0 = l \<and> c1 = l \<and> c2 = u then pr_num 3 id 10 False as
      else if c0 = x then pr_num 1 zext32 16 False as
      else if c0 = l \<and> c1 = x then pr_num 2 id 16 False as
      else if c0 = l \<and> c1 = l \<and> c2 = x then pr_num 3 id 16 False as
      else if c0 = of_char (CHR ''p'') then map_option (\<lambda>(n, as'). (1, printptr n, as')) (va_num as)
      else if c0 = of_char (CHR ''c'') then map_option (\<lambda>(n, as'). (1, [unat (ucast n :: u32)], as')) (va_num as)
      else if c0 = of_char (CHR ''s'') then map_option (\<lambda>(xs, as'). (1, xs, as')) (va_str as)
      else if c0 = of_char (CHR ''%'') then Some (1, asc ''%'', as)
      else if c0 = 0 then Some (0, [], as)
      else Some (1, asc ''%'' @ [c0], as))"

lemma directive_pos: "directive (c # cs) as = Some (k, out, as') \<Longrightarrow> c \<noteq> 0 \<Longrightarrow> 0 < k"
  by (auto simp: directive_def pr_num_def at0_def Let_def split: if_splits)

text \<open>The loop over the format string.\<close>

function format :: "nat list \<Rightarrow> parg list \<Rightarrow> nat list option" where
  "format [] as = Some []"
| "format (c # cs) as =
     (if c \<noteq> of_char (CHR ''%'') then map_option ((#) c) (format cs as)
      else (case directive cs as of
              None \<Rightarrow> None
            | Some (k, out, as') \<Rightarrow> if at0 0 cs = 0 then Some out else map_option ((@) out) (format (drop k cs) as')))"
  by pat_completeness auto
termination
  by (relation "measure (\<lambda>(f, as). length f)") auto

definition printk :: "string \<Rightarrow> parg list \<Rightarrow> ('x kcons_scheme, unit) kop" where
  "printk fmt as =
     (case format (asc fmt) as of
        None \<Rightarrow> Spin
      | Some out \<Rightarrow>
          kthen (acquire L_pr) (
          kthen (for_each consputc out) (
          release L_pr)))"

definition printkinit :: "('x kcons_scheme, unit) kop" where
  "printkinit = initlock L_pr ''pr''"

text \<open>\<open>procdump\<close> of proc.c.\<close>

fun state_name :: "procstate \<Rightarrow> string" where
  "state_name UNUSED = ''unused''"
| "state_name USED = ''used''"
| "state_name SLEEPING = ''sleep ''"
| "state_name RUNNABLE = ''runble''"
| "state_name RUNNING = ''run   ''"
| "state_name ZOMBIE = ''zombie''"

definition procdump_one :: "nat \<Rightarrow> ('x kcons_scheme, unit) kop" where
  "procdump_one p =
     kbind (get_proc p) (\<lambda>q.
     if state q = UNUSED then ret () else
     kthen (printk ''%d %s %s'' [Num (word_of_int (pid q)), Str (Some (asc (state_name (state q)))),
       Str (Some (map unat (takeWhile (\<lambda>c. c \<noteq> 0) (pname q))))]) (
     printk [CHR 0x0A] []))"

definition procdump :: "('x kcons_scheme, unit) kop" where
  "procdump =
     kthen (printk [CHR 0x0A] []) (
     for_each procdump_one [0..<NPROC])"

section \<open>console.c: input\<close>

definition INPUT_BUF_SIZE :: nat where "INPUT_BUF_SIZE = 128"

text \<open>\<open>C('D')\<close> and the other control characters.\<close>

definition Ctrl :: "char \<Rightarrow> nat" where
  "Ctrl c = of_char c - of_char (CHR ''@'')"

definition NL :: nat where "NL = 10"

function consolewrite_loop :: "iosrc \<Rightarrow> nat \<Rightarrow> nat \<Rightarrow> ('x kcons_scheme, nat) kop" where
  "consolewrite_loop src i n =
     (if i < n then
        kbind (copy_from src i (min 32 (n - i))) (\<lambda>(r, bs).
        if r = - 1 then ret i
        else kthen (uartwrite bs) (consolewrite_loop src (i + min 32 (n - i)) n))
      else ret i)"
  by pat_completeness auto
termination
  by (relation "measure (\<lambda>(src, i, n). n - i)") auto

declare consolewrite_loop.simps [simp del]

definition consolewrite :: "iosrc \<Rightarrow> int \<Rightarrow> ('x kcons_scheme, int) kop" where
  "consolewrite src n = kbind (consolewrite_loop src 0 (nat n)) (\<lambda>i. ret (int i))"

text \<open>
  The loop of \<open>consoleread\<close> with \<open>n\<close> bytes still wanted: \<open>None\<close> after the early return, which has
  released the lock, otherwise what is left of \<open>n\<close>.
\<close>

fun consoleread_loop :: "iodst \<Rightarrow> nat \<Rightarrow> nat \<Rightarrow> ('x kcons_scheme, nat option) kop" where
  "consoleread_loop dst target 0 = ret (Some 0)"
| "consoleread_loop dst target (Suc n) =
     kbind (gets (\<lambda>s. cons_r s = cons_w s)) (\<lambda>nothing.
     if nothing then
       kbind myproc (\<lambda>mp.
       kbind (deref mp) (\<lambda>p.
       kbind (killed p) (\<lambda>k.
       if k \<noteq> 0 then kthen (release L_cons) (ret None)
       else kthen (sleep Chan_cons L_cons) (ret None))))
     else
       kbind (gets (\<lambda>s. cons_buf s (unat (cons_r s) mod INPUT_BUF_SIZE))) (\<lambda>c.
       kthen (modify (\<lambda>s. s\<lparr>cons_r := cons_r s + 1\<rparr>)) (
       if unat c = Ctrl (CHR ''D'') then
         kthen (kwhen (Suc n < target) (modify (\<lambda>s. s\<lparr>cons_r := cons_r s - 1\<rparr>))) (
         ret (Some (Suc n)))
       else
         kbind (copy_to dst (target - Suc n) [c]) (\<lambda>r.
         if r = - 1 then ret (Some (Suc n))
         else if unat c = NL then ret (Some n)
         else consoleread_loop dst target n))))"

definition consoleread :: "iodst \<Rightarrow> int \<Rightarrow> ('x kcons_scheme, int) kop" where
  "consoleread dst n =
     kthen (acquire L_cons) (
     kbind (consoleread_loop dst (nat n) (nat n)) (\<lambda>r.
     case r of
       None \<Rightarrow> ret (- 1)
     | Some left \<Rightarrow> kthen (release L_cons) (ret (int (nat n - left)))))"

text \<open>The loop that erases the current line; at most the whole buffer is edited.\<close>

fun kill_line :: "nat \<Rightarrow> ('x kcons_scheme, unit) kop" where
  "kill_line 0 = ret ()"
| "kill_line (Suc k) =
     kbind (gets (\<lambda>s. cons_e s \<noteq> cons_w s \<and> unat (cons_buf s (unat (cons_e s - 1) mod INPUT_BUF_SIZE)) \<noteq> NL)) (\<lambda>go.
     if go then
       kthen (modify (\<lambda>s. s\<lparr>cons_e := cons_e s - 1\<rparr>)) (
       kthen (consputc BACKSPACE) (
       kill_line k))
     else ret ())"

definition consoleintr :: "u8 \<Rightarrow> ('x kcons_scheme, unit) kop" where
  "consoleintr c =
     kthen (acquire L_cons) (
     kthen (
       if unat c = Ctrl (CHR ''P'') then procdump
       else if unat c = Ctrl (CHR ''U'') then
         kbind (gets (\<lambda>s. unat (cons_e s - cons_w s))) kill_line
       else if unat c = Ctrl (CHR ''H'') \<or> c = 0x7f then
         kbind (gets (\<lambda>s. cons_e s \<noteq> cons_w s)) (\<lambda>some.
         kwhen some (
           kthen (modify (\<lambda>s. s\<lparr>cons_e := cons_e s - 1\<rparr>)) (
           consputc BACKSPACE)))
       else
         kbind (gets (\<lambda>s. unat (cons_e s - cons_r s))) (\<lambda>len.
         kwhen (c \<noteq> 0 \<and> len < INPUT_BUF_SIZE) (
           let ch = (if c = 13 then 10 else c) in
           kthen (consputc (unat ch)) (
           kthen (modify (\<lambda>s. s\<lparr>cons_buf := (cons_buf s)(unat (cons_e s) mod INPUT_BUF_SIZE := ch), cons_e := cons_e s + 1\<rparr>)) (
           kbind (gets (\<lambda>s. unat (cons_e s - cons_r s))) (\<lambda>len.
           kwhen (unat ch = NL \<or> unat ch = Ctrl (CHR ''D'') \<or> len = INPUT_BUF_SIZE) (
             kthen (modify (\<lambda>s. s\<lparr>cons_w := cons_e s\<rparr>)) (
             wakeup Chan_cons)))))))) (
     release L_cons))"

text \<open>\<open>uartintr\<close>: the transmitter is idle or not (\<open>idle\<close>), then every byte received is passed on.\<close>

fun uartintr_rx :: "nat \<Rightarrow> ('x kcons_scheme, unit) kop" where
  "uartintr_rx 0 = ret ()"
| "uartintr_rx (Suc k) =
     kbind uartgetc (\<lambda>r.
     case r of
       None \<Rightarrow> ret ()
     | Some c \<Rightarrow> kthen (consoleintr c) (uartintr_rx k))"

definition uartintr :: "bool \<Rightarrow> ('x kcons_scheme, unit) kop" where
  "uartintr idle =
     kthen (acquire L_uart) (
     kthen (kwhen idle (
       kthen (modify (\<lambda>s. s\<lparr>tx_busy := 0\<rparr>)) (
       wakeup Chan_tx))) (
     kthen (release L_uart) (
     kbind (gets (\<lambda>s. Suc (length (uart_in s)))) uartintr_rx)))"

end
