(* ===== verification/Xv6_File.thy ===== *)
theory Xv6_File
  imports Xv6_Console
begin

text \<open>
  Open files and pipes (file.c, pipe.c). A pipe is named by the address of the page \<open>kalloc\<close> gave for
  it; its fields are kept beside the memory, in \<open>pipes\<close>.
\<close>

datatype fdtype = FD_NONE | FD_PIPE | FD_INODE | FD_DEVICE

record file_t =
  ftype :: fdtype
  fref :: int
  freadable :: bool
  fwritable :: bool
  fpipe :: u64
  fip :: nat
  foff :: u32
  fmajor :: u16

record pipe =
  pdata :: "nat \<Rightarrow> u8"
  nread :: u32
  nwrite :: u32
  readopen :: int
  writeopen :: int

text \<open>The device switch: only the console's functions are ever installed.\<close>

datatype device = Dev_console

record kfile = kcons +
  files :: "nat \<Rightarrow> file_t"
  pipes :: "u64 \<Rightarrow> pipe"
  devsw :: "nat \<Rightarrow> device option"
  stat_pad :: "nat \<Rightarrow> u8"

definition NDEV :: nat where "NDEV = 10"
definition CONSOLE :: nat where "CONSOLE = 1"
definition PIPESIZE :: nat where "PIPESIZE = 512"

definition upd_file :: "nat \<Rightarrow> (file_t \<Rightarrow> file_t) \<Rightarrow> ('x kfile_scheme, unit) kop" where
  "upd_file f g = modify (\<lambda>s. s\<lparr>files := (files s)(f := g (files s f))\<rparr>)"

definition get_file :: "nat \<Rightarrow> ('x kfile_scheme, file_t) kop" where
  "get_file f = gets (\<lambda>s. files s f)"

definition upd_pipe :: "u64 \<Rightarrow> (pipe \<Rightarrow> pipe) \<Rightarrow> ('x kfile_scheme, unit) kop" where
  "upd_pipe pi g = modify (\<lambda>s. s\<lparr>pipes := (pipes s)(pi := g (pipes s pi))\<rparr>)"

definition get_pipe :: "u64 \<Rightarrow> ('x kfile_scheme, pipe) kop" where
  "get_pipe pi = gets (\<lambda>s. pipes s pi)"

section \<open>file.c: the table\<close>

definition fileinit :: "('x kfile_scheme, unit) kop" where
  "fileinit = initlock L_ftable ''ftable''"

definition filealloc :: "('x kfile_scheme, nat option) kop" where
  "filealloc =
     kthen (acquire L_ftable) (
     kbind (gets (\<lambda>s. find (\<lambda>f. fref (files s f) = 0) [0..<NFILE])) (\<lambda>r.
     case r of
       Some f \<Rightarrow>
         kthen (upd_file f (\<lambda>x. x\<lparr>fref := 1\<rparr>)) (
         kthen (release L_ftable) (
         ret (Some f)))
     | None \<Rightarrow> kthen (release L_ftable) (ret None)))"

definition filedup :: "nat \<Rightarrow> ('x kfile_scheme, nat) kop" where
  "filedup f =
     kthen (acquire L_ftable) (
     kbind (get_file f) (\<lambda>x.
     if fref x < 1 then panic ''filedup'' else
     kthen (upd_file f (\<lambda>x. x\<lparr>fref := fref x + 1\<rparr>)) (
     kthen (release L_ftable) (
     ret f))))"

section \<open>pipe.c\<close>

definition pipeclose :: "u64 \<Rightarrow> bool \<Rightarrow> ('x kfile_scheme, unit) kop" where
  "pipeclose pi writable =
     kthen (acquire (L_pipe pi)) (
     kthen (if writable then
              kthen (upd_pipe pi (\<lambda>x. x\<lparr>writeopen := 0\<rparr>)) (wakeup (Chan_nread pi))
            else
              kthen (upd_pipe pi (\<lambda>x. x\<lparr>readopen := 0\<rparr>)) (wakeup (Chan_nwrite pi))) (
     kbind (get_pipe pi) (\<lambda>x.
     if readopen x = 0 \<and> writeopen x = 0 then
       kthen (release (L_pipe pi)) (
       kfree pi)
     else release (L_pipe pi))))"

text \<open>The loop of \<open>pipewrite\<close> with \<open>k\<close> bytes left; \<open>None\<close> after the early return.\<close>

fun pipewrite_loop :: "u64 \<Rightarrow> nat \<Rightarrow> u64 \<Rightarrow> nat \<Rightarrow> nat \<Rightarrow> ('x kfile_scheme, nat option) kop" where
  "pipewrite_loop pi pr addr i 0 = ret (Some i)"
| "pipewrite_loop pi pr addr i (Suc k) =
     kbind (get_pipe pi) (\<lambda>x.
     kbind (if readopen x = 0 then ret True else kbind (killed pr) (\<lambda>d. ret (d \<noteq> 0))) (\<lambda>stop.
     if stop then kthen (release (L_pipe pi)) (ret None) else
     kbind (get_pipe pi) (\<lambda>x.
     if nwrite x = nread x + of_nat PIPESIZE then
       kthen (wakeup (Chan_nread pi)) (
       kthen (sleep (Chan_nwrite pi) (L_pipe pi)) (
       ret None))
     else
       kbind (get_proc pr) (\<lambda>q.
       kbind (copyin_local (pagetable q) (addr + of_nat i) 1 []) (\<lambda>(r, bs).
       if r = - 1 then ret (Some i) else
       kthen (upd_pipe pi (\<lambda>x. x\<lparr>pdata := (pdata x)(unat (nwrite x) mod PIPESIZE := hd bs), nwrite := nwrite x + 1\<rparr>)) (
       pipewrite_loop pi pr addr (Suc i) k))))))"

definition pipewrite :: "u64 \<Rightarrow> u64 \<Rightarrow> int \<Rightarrow> ('x kfile_scheme, int) kop" where
  "pipewrite pi addr n =
     kbind myproc (\<lambda>mp.
     kbind (deref mp) (\<lambda>pr.
     kthen (acquire (L_pipe pi)) (
     kbind (pipewrite_loop pi pr addr 0 (nat n)) (\<lambda>r.
     case r of
       None \<Rightarrow> ret (- 1)
     | Some i \<Rightarrow>
         kthen (wakeup (Chan_nread pi)) (
         kthen (release (L_pipe pi)) (
         ret (int i)))))))"

fun piperead_loop :: "u64 \<Rightarrow> nat \<Rightarrow> u64 \<Rightarrow> nat \<Rightarrow> nat \<Rightarrow> ('x kfile_scheme, int) kop" where
  "piperead_loop pi pr addr i 0 = ret (int i)"
| "piperead_loop pi pr addr i (Suc k) =
     kbind (get_pipe pi) (\<lambda>x.
     if nread x = nwrite x then ret (int i) else
     kbind (get_proc pr) (\<lambda>q.
     kbind (copyout_local (pagetable q) (addr + of_nat i) [pdata x (unat (nread x) mod PIPESIZE)]) (\<lambda>r.
     if r = - 1 then ret (if i = 0 then - 1 else int i) else
     kthen (upd_pipe pi (\<lambda>x. x\<lparr>nread := nread x + 1\<rparr>)) (
     piperead_loop pi pr addr (Suc i) k))))"

definition piperead :: "u64 \<Rightarrow> u64 \<Rightarrow> int \<Rightarrow> ('x kfile_scheme, int) kop" where
  "piperead pi addr n =
     kbind myproc (\<lambda>mp.
     kbind (deref mp) (\<lambda>pr.
     kthen (acquire (L_pipe pi)) (
     kbind (get_pipe pi) (\<lambda>x.
     if nread x = nwrite x \<and> writeopen x \<noteq> 0 then
       kbind (killed pr) (\<lambda>d.
       if d \<noteq> 0 then kthen (release (L_pipe pi)) (ret (- 1))
       else kthen (sleep (Chan_nread pi) (L_pipe pi)) (ret (- 1)))
     else
       kbind (piperead_loop pi pr addr 0 (nat n)) (\<lambda>i.
       kthen (wakeup (Chan_nwrite pi)) (
       kthen (release (L_pipe pi)) (
       ret i)))))))"

section \<open>file.c: operations\<close>

definition fileclose :: "nat \<Rightarrow> ('x kfile_scheme, unit) kop" where
  "fileclose f =
     kthen (acquire L_ftable) (
     kbind (get_file f) (\<lambda>x.
     if fref x < 1 then panic ''fileclose'' else
     kthen (upd_file f (\<lambda>x. x\<lparr>fref := fref x - 1\<rparr>)) (
     kbind (get_file f) (\<lambda>ff.
     if fref ff > 0 then release L_ftable else
     kthen (upd_file f (\<lambda>x. x\<lparr>fref := 0, ftype := FD_NONE\<rparr>)) (
     kthen (release L_ftable) (
     case ftype ff of
       FD_PIPE \<Rightarrow> pipeclose (fpipe ff) (fwritable ff)
     | FD_INODE \<Rightarrow> kthen begin_op (kthen (iput (fip ff)) end_op)
     | FD_DEVICE \<Rightarrow> kthen begin_op (kthen (iput (fip ff)) end_op)
     | FD_NONE \<Rightarrow> ret ()))))))"

definition pipealloc :: "('x kfile_scheme, (nat \<times> nat) option) kop" where
  "pipealloc =
     kbind filealloc (\<lambda>f0.
     kbind (if f0 = None then ret None else filealloc) (\<lambda>f1.
     kbind (if f0 = None \<or> f1 = None then ret 0 else kalloc) (\<lambda>pi.
     case (f0, f1) of
       (Some a, Some b) \<Rightarrow>
         if pi \<noteq> 0 then
           kthen (upd_pipe pi (\<lambda>x. x\<lparr>readopen := 1, writeopen := 1, nwrite := 0, nread := 0\<rparr>)) (
           kthen (initlock (L_pipe pi) ''pipe'') (
           kthen (upd_file a (\<lambda>x. x\<lparr>ftype := FD_PIPE, freadable := True, fwritable := False, fpipe := pi\<rparr>)) (
           kthen (upd_file b (\<lambda>x. x\<lparr>ftype := FD_PIPE, freadable := False, fwritable := True, fpipe := pi\<rparr>)) (
           ret (Some (a, b))))))
         else kthen (fileclose a) (kthen (fileclose b) (ret None))
     | (Some a, None) \<Rightarrow> kthen (fileclose a) (ret None)
     | (None, _) \<Rightarrow> ret None)))"

text \<open>
  \<open>struct stat\<close> as copied to user space: 4 + 4 + 2 + 2 bytes, padding to 16, then the size. \<open>stati\<close> does not
  set the padding: \<open>stat_pad\<close> are the bytes the kernel stack holds there.
\<close>

definition stat_bytes :: "(nat \<Rightarrow> u8) \<Rightarrow> stat \<Rightarrow> u8 list" where
  "stat_bytes pad st = wr32 20 (ucast (drop_bit 32 (st_size st))) (wr32 16 (ucast (st_size st))
     (wr16 10 (st_nlink st) (wr16 8 (st_type st) (wr32 4 (st_ino st) (wr32 0 (st_dev st) (replicate 12 0 @ map pad [0..<4] @ replicate 8 0))))))"

definition filestat :: "nat \<Rightarrow> u64 \<Rightarrow> ('x kfile_scheme, int) kop" where
  "filestat f addr =
     kbind myproc (\<lambda>mp.
     kbind (get_file f) (\<lambda>x.
     if ftype x = FD_INODE \<or> ftype x = FD_DEVICE then
       kthen (ilock (fip x)) (
       kbind (stati (fip x)) (\<lambda>st.
       kthen (iunlock (fip x)) (
       kbind (deref mp) (\<lambda>p.
       kbind (get_proc p) (\<lambda>q.
       kbind (gets stat_pad) (\<lambda>pad.
       kbind (copyout_local (pagetable q) addr (stat_bytes pad st)) (\<lambda>r.
       if r < 0 then ret (- 1) else ret 0)))))))
     else ret (- 1)))"

definition fileread :: "nat \<Rightarrow> u64 \<Rightarrow> int \<Rightarrow> ('x kfile_scheme, int) kop" where
  "fileread f addr n =
     kbind (get_file f) (\<lambda>x.
     if \<not> freadable x then ret (- 1) else
     case ftype x of
       FD_PIPE \<Rightarrow> piperead (fpipe x) addr n
     | FD_DEVICE \<Rightarrow>
         kbind (gets (\<lambda>s. devsw s (unat (fmajor x)))) (\<lambda>d.
         if sint (fmajor x) < 0 \<or> sint (fmajor x) \<ge> int NDEV \<or> d = None then ret (- 1)
         else consoleread (To_user addr) n)
     | FD_INODE \<Rightarrow>
         kthen (ilock (fip x)) (
         kbind (readi (fip x) (To_user addr) (foff x) (word_of_int n)) (\<lambda>(r, _).
         kthen (kwhen (r > 0) (upd_file f (\<lambda>x. x\<lparr>foff := foff x + word_of_int r\<rparr>))) (
         kthen (iunlock (fip x)) (
         ret r))))
     | FD_NONE \<Rightarrow> panic ''fileread'')"

definition MAXWRITE :: nat where
  "MAXWRITE = ((MAXOPBLOCKS - 1 - 1 - 2) div 2) * BSIZE"

lemma MAXWRITE_pos: "0 < MAXWRITE"
  by (simp add: MAXWRITE_def MAXOPBLOCKS_def BSIZE_def)

function filewrite_loop :: "nat \<Rightarrow> u64 \<Rightarrow> nat \<Rightarrow> nat \<Rightarrow> ('x kfile_scheme, nat) kop" where
  "filewrite_loop f addr i n =
     (if i < n then
        let n1 = min (n - i) MAXWRITE in
        kthen begin_op (
        kbind (get_file f) (\<lambda>x.
        kthen (ilock (fip x)) (
        kbind (writei (fip x) (From_user (addr + of_nat i)) (foff x) (of_nat n1)) (\<lambda>r.
        kthen (kwhen (r > 0) (upd_file f (\<lambda>x. x\<lparr>foff := foff x + word_of_int r\<rparr>))) (
        kthen (iunlock (fip x)) (
        kthen end_op (
        if r \<noteq> int n1 then ret i
        else filewrite_loop f addr (i + n1) n)))))))
      else ret i)"
  by pat_completeness auto
termination
  by (relation "measure (\<lambda>(f, addr, i, n). n - i)") (use MAXWRITE_pos in auto)

declare filewrite_loop.simps [simp del]

definition filewrite :: "nat \<Rightarrow> u64 \<Rightarrow> int \<Rightarrow> ('x kfile_scheme, int) kop" where
  "filewrite f addr n =
     kbind (get_file f) (\<lambda>x.
     if \<not> fwritable x then ret (- 1) else
     case ftype x of
       FD_PIPE \<Rightarrow> pipewrite (fpipe x) addr n
     | FD_DEVICE \<Rightarrow>
         kbind (gets (\<lambda>s. devsw s (unat (fmajor x)))) (\<lambda>d.
         if sint (fmajor x) < 0 \<or> sint (fmajor x) \<ge> int NDEV \<or> d = None then ret (- 1)
         else consolewrite (From_user addr) n)
     | FD_INODE \<Rightarrow>
         kbind (filewrite_loop f addr 0 (nat n)) (\<lambda>i.
         ret (if int i = n then n else - 1))
     | FD_NONE \<Rightarrow> panic ''filewrite'')"

end
