(* ===== verification/Xv6_Ring.thy ===== *)
theory Xv6_Ring
  imports Xv6_Prelude
begin

text \<open>
  Ring buffers. Pipes and the console keep bytes in an array of \<open>N\<close> places with two free-running 32-bit
  counters: the byte number \<open>k\<close> is in place \<open>k mod N\<close>. The counters wrap around; because \<open>N\<close> divides
  \<open>2 ^ 32\<close> the places follow each other across the wrap. The contents are a queue: the locale states
  what holds for every such \<open>N\<close>, and the two buffers of the kernel are its interpretations.
\<close>

definition ring_list :: "nat \<Rightarrow> (nat \<Rightarrow> 'a) \<Rightarrow> u32 \<Rightarrow> u32 \<Rightarrow> 'a list" where
  "ring_list N d r w = map (\<lambda>k. d (unat (r + of_nat k) mod N)) [0..<unat (w - r)]"

lemma length_ring_list [simp]: "length (ring_list N d r w) = unat (w - r)"
  by (simp add: ring_list_def)

lemma ring_list_empty [simp]: "ring_list N d r r = []"
  by (simp add: ring_list_def)

lemma u32_diff_Suc: "unat (w - r :: u32) < 2 ^ 32 - 1 \<Longrightarrow> unat (w + 1 - r) = Suc (unat (w - r))"
proof -
  assume a: "unat (w - r :: u32) < 2 ^ 32 - 1"
  have "unat (w - r + 1 :: u32) = unat (w - r) + unat (1 :: u32)"
    by (rule unat_add_lem [THEN iffD1]) (use a in simp)
  then show ?thesis by (simp add: algebra_simps)
qed

lemma u32_diff_pred: "(w :: u32) \<noteq> r \<Longrightarrow> unat (w - (r + 1)) = unat (w - r) - 1 \<and> 0 < unat (w - r)"
proof -
  assume a: "w \<noteq> r"
  then have "w - r \<noteq> 0" by simp
  then have "unat (w - r - 1) = unat (w - r) - 1" by (simp add: unat_minus_one)
  then show ?thesis using \<open>w - r \<noteq> 0\<close> by (simp add: algebra_simps unat_gt_0)
qed

lemma ring_front: "w \<noteq> r \<Longrightarrow> ring_list N d r w = d (unat r mod N) # ring_list N d (r + 1) w"
proof -
  assume "w \<noteq> r"
  then obtain n where n: "unat (w - r) = Suc n" "unat (w - (r + 1)) = n" using u32_diff_pred [of w r] by (cases "unat (w - r)") auto
  have "[0..<Suc n] = 0 # map Suc [0..<n]" by (simp add: map_Suc_upt upt_conv_Cons del: upt_Suc)
  then show ?thesis unfolding ring_list_def n by (simp add: add.assoc comp_def del: upt_Suc)
qed

locale ring =
  fixes N :: nat
  assumes places: "N dvd 2 ^ 32" "0 < N" "N < 2 ^ 32"
begin

text \<open>The place of a byte depends only on its distance, also across the wrap-around of the counter.\<close>

lemma place: "unat (r + of_nat k :: u32) mod N = (unat r + k) mod N"
proof -
  have "unat (r + of_nat k :: u32) = (unat r + k) mod 2 ^ 32"
    by (simp add: unat_word_ariths unsigned_of_nat take_bit_eq_mod mod_simps)
  then show ?thesis using places(1) by (simp add: mod_mod_cancel)
qed

lemma place_distinct:
  assumes "j < k" "k < N"
  shows "unat (r + of_nat j :: u32) mod N \<noteq> unat (r + of_nat k :: u32) mod N"
proof
  assume "unat (r + of_nat j :: u32) mod N = unat (r + of_nat k :: u32) mod N"
  then have "(unat r + k) mod N = (unat r + j) mod N" by (simp add: place)
  then have "N dvd (unat r + k) - (unat r + j)" using assms by (subst mod_eq_dvd_iff_nat [symmetric]) auto
  then show False using assms by (auto dest: dvd_imp_le)
qed

lemma put:
  assumes room: "unat (w - r) < N"
  shows "ring_list N (d(unat w mod N := c)) r (w + 1) = ring_list N d r w @ [c]" "unat (w + 1 - r) = Suc (unat (w - r))"
proof -
  let ?n = "unat (w - r)"
  show s: "unat (w + 1 - r) = Suc ?n" using room places(3) by (intro u32_diff_Suc) linarith
  have w: "r + of_nat ?n = w" by simp
  have "unat (r + of_nat k) mod N \<noteq> unat w mod N" if "k < ?n" for k
    using place_distinct [OF that room, of r] unfolding w .
  then show "ring_list N (d(unat w mod N := c)) r (w + 1) = ring_list N d r w @ [c]"
    unfolding ring_list_def s by simp
qed

lemma get:
  assumes "w \<noteq> r"
  shows "hd (ring_list N d r w) = d (unat r mod N)" "ring_list N d (r + 1) w = tl (ring_list N d r w)"
  using ring_front [OF assms, of N d] by simp_all

end

end
