(* ===== verification/Xv6_Pipe.thy ===== *)
theory Xv6_Pipe
  imports Xv6_File Xv6_Inode Xv6_Ring
begin

text \<open>
  Pipes are bounded queues of bytes. The abstraction of a pipe is the list of bytes between its two
  counters; \<open>pipewrite\<close> refines appending to this list and \<open>piperead\<close> refines taking from its front,
  with the counters of pipe.c free to wrap around.
\<close>

interpretation pipe_ring: ring PIPESIZE
  by unfold_locales (simp_all add: PIPESIZE_def)

section \<open>The abstraction\<close>

definition pipe_queue :: "pipe \<Rightarrow> u8 list" where
  "pipe_queue x = ring_list PIPESIZE (pdata x) (nread x) (nwrite x)"

definition pipe_ok :: "pipe \<Rightarrow> bool" where
  "pipe_ok x \<longleftrightarrow> unat (nwrite x - nread x) \<le> PIPESIZE"

definition pipe_put :: "u8 \<Rightarrow> pipe \<Rightarrow> pipe" where
  "pipe_put c x = x\<lparr>pdata := (pdata x)(unat (nwrite x) mod PIPESIZE := c), nwrite := nwrite x + 1\<rparr>"

definition pipe_get :: "pipe \<Rightarrow> pipe" where
  "pipe_get x = x\<lparr>nread := nread x + 1\<rparr>"

lemma length_pipe_queue: "length (pipe_queue x) = unat (nwrite x - nread x)"
  by (simp add: pipe_queue_def)

lemma pipe_put_queue:
  assumes "length (pipe_queue x) < PIPESIZE"
  shows "pipe_queue (pipe_put c x) = pipe_queue x @ [c]" "pipe_ok (pipe_put c x)"
  using pipe_ring.put [of "nwrite x" "nread x"] assms by (simp_all add: pipe_queue_def pipe_put_def pipe_ok_def)

lemma pipe_get_queue:
  assumes "nread x \<noteq> nwrite x" "pipe_ok x"
  shows "pipe_queue x = pdata x (unat (nread x) mod PIPESIZE) # pipe_queue (pipe_get x)" "pipe_ok (pipe_get x)"
  using ring_front [of "nwrite x" "nread x" PIPESIZE "pdata x"] u32_diff_pred [of "nwrite x" "nread x"] assms
  by (auto simp: pipe_queue_def pipe_get_def pipe_ok_def)

lemma pipe_full_iff: "pipe_ok x \<Longrightarrow> nwrite x = nread x + of_nat PIPESIZE \<longleftrightarrow> length (pipe_queue x) = PIPESIZE"
proof -
  have "nwrite x = nread x + of_nat PIPESIZE \<longleftrightarrow> nwrite x - nread x = of_nat PIPESIZE" by (auto simp: algebra_simps)
  also have "\<dots> \<longleftrightarrow> unat (nwrite x - nread x) = PIPESIZE" by (simp add: word_unat_eq_iff PIPESIZE_def)
  finally show ?thesis by (simp add: length_pipe_queue)
qed

lemma pipe_empty_iff: "nread x = nwrite x \<longleftrightarrow> pipe_queue x = []"
  by (metis length_0_conv length_pipe_queue unat_eq_zero right_minus_eq)

lemma pipe_fields [simp]:
  "readopen (pipe_put c x) = readopen x" "writeopen (pipe_put c x) = writeopen x"
  "readopen (pipe_get x) = readopen x" "writeopen (pipe_get x) = writeopen x"
  by (simp_all add: pipe_put_def pipe_get_def)

lemma pipe_puts_queue:
  "pipe_ok x \<Longrightarrow> length (pipe_queue x) + length bs \<le> PIPESIZE \<Longrightarrow>
   pipe_queue (fold pipe_put bs x) = pipe_queue x @ bs \<and> pipe_ok (fold pipe_put bs x) \<and> readopen (fold pipe_put bs x) = readopen x"
proof (induction bs arbitrary: x)
  case (Cons c bs)
  then have "length (pipe_queue x) < PIPESIZE" by simp
  note q = pipe_put_queue [OF this, of c]
  then show ?case using Cons.IH [OF q(2)] Cons.prems by (simp add: q(1))
qed simp

section \<open>Writing\<close>

lemma acquired_kfile:
  "pipes (acquired l s) = pipes s" "files (acquired l s) = files s"
  "(acquired l s)\<lparr>pipes := x\<rparr> = acquired l (s\<lparr>pipes := x\<rparr>)"
  by (cases s; simp add: acquired_def)+

text \<open>A process that may use its page table, between system calls of the file layer.\<close>

definition pipe_user :: "nat \<Rightarrow> 'x kfile_scheme \<Rightarrow> bool" where
  "pipe_user p s \<longleftrightarrow> fs_ready p s \<and> pt_ok s (pagetable (procs s p)) \<and> pkilled (procs s p) = 0"

lemma pipe_userD:
  assumes "pipe_user p s"
  shows "fs_ready p s" "pt_ok s (pagetable (procs s p))" "pkilled (procs s p) = 0"
  using assms by (simp_all add: pipe_user_def)

lemma pipe_user_acquired: "pipe_user p s \<Longrightarrow> pt_ok (acquired (L_pipe pi) s) (pagetable (procs s p))"
  using kmem_ready_acquired [of s "L_pipe pi"] by (simp add: pipe_user_def pt_ok_def)

lemma pt_ok_pipes [simp]: "pt_ok (s\<lparr>pipes := x\<rparr>) pt = pt_ok s pt"
  by (simp add: pt_ok_def kmem_ready_def kmem_inv_def irq_state_ok_def free_pages_def)

lemma fs_ready_pipes [simp]: "fs_ready p (s\<lparr>pipes := x\<rparr>) = fs_ready p s"
  by (simp add: fs_ready_def irq_state_ok_def)

text \<open>The bytes the process has at \<open>addr\<close>.\<close>

definition user_bytes :: "nat \<Rightarrow> 'x kfile_scheme \<Rightarrow> u64 \<Rightarrow> nat \<Rightarrow> u8 list" where
  "user_bytes p s addr n = map (\<lambda>i. mem s (upa (mem s) (pagetable (procs s p)) (addr + of_nat i))) [0..<n]"

definition user_readable :: "nat \<Rightarrow> 'x kfile_scheme \<Rightarrow> u64 \<Rightarrow> nat \<Rightarrow> bool" where
  "user_readable p s addr n \<longleftrightarrow> (\<forall>i < n. user_mapped (mem s) (pagetable (procs s p)) (addr + of_nat i))"

lemma copyin_one:
  assumes "pt_ok s pt" "user_mapped (mem s) pt va"
  shows "copyin_local pt va 1 [] s = Ok (0, [mem s (upa (mem s) pt va)]) s"
  using copyin_local_bytes [of s pt 1 va "[]"] assms by simp

lemma killed_inside:
  assumes "fs_ready p s"
  shows "killed p (acquired (L_pipe pi) s) = Ok (pkilled (procs s p)) (acquired (L_pipe pi) s)"
proof -
  have "lock_free (L_proc p) (locks (acquired (L_pipe pi) s))" using fs_readyD(2) [OF assms, of "L_proc p"] by simp
  then show ?thesis
    using killed_effect [of "acquired (L_pipe pi) s" p] acquired_inside(1) [OF assms] fs_readyD(1) [OF assms] by simp
qed

text \<open>The first \<open>length bs\<close> passes of the writing loop, when there is room for them.\<close>

lemma pipewrite_loop_puts:
  assumes "pipe_user p s" "readopen (pipes s pi) \<noteq> 0" "pipe_ok (pipes s pi)" "length (pipe_queue (pipes s pi)) + m \<le> PIPESIZE"
    and "\<forall>j < m. user_mapped (mem s) (pagetable (procs s p)) (addr + of_nat (i + j))"
  shows "pipewrite_loop pi p addr i (m + k) (acquired (L_pipe pi) s) =
    pipewrite_loop pi p addr (i + m) k (acquired (L_pipe pi) (s\<lparr>pipes := (pipes s)(pi :=
      fold pipe_put (map (\<lambda>j. mem s (upa (mem s) (pagetable (procs s p)) (addr + of_nat (i + j)))) [0..<m]) (pipes s pi))\<rparr>))"
  using assms
proof (induction m arbitrary: i s)
  case 0
  then show ?case by simp
next
  case (Suc m)
  note u = pipe_userD [OF Suc.prems(1)]
  let ?pt = "pagetable (procs s p)" and ?x = "pipes s pi"
  let ?c = "mem s (upa (mem s) ?pt (addr + of_nat i))"
  let ?t = "s\<lparr>pipes := (pipes s)(pi := pipe_put ?c ?x)\<rparr>"
  have room: "length (pipe_queue ?x) < PIPESIZE" using Suc.prems(4) by simp
  then have nf: "nwrite ?x \<noteq> nread ?x + of_nat PIPESIZE" using pipe_full_iff [OF Suc.prems(3)] by simp
  have um: "user_mapped (mem s) ?pt (addr + of_nat i)" using Suc.prems(5) by (metis add.right_neutral zero_less_Suc)
  have cp: "copyin_local ?pt (addr + of_nat i) 1 [] (acquired (L_pipe pi) s) = Ok (0, [?c]) (acquired (L_pipe pi) s)"
    using copyin_one [OF pipe_user_acquired [OF Suc.prems(1), of pi]] um by simp
  have "pipewrite_loop pi p addr i (Suc m + k) (acquired (L_pipe pi) s) = pipewrite_loop pi p addr (Suc i) (m + k) (acquired (L_pipe pi) ?t)"
    using killed_inside [OF u(1), of pi] u(3) nf cp Suc.prems(2)
    by (simp add: get_pipe_def upd_pipe_def get_proc_def acquired_kfile pipe_put_def)
  also have "\<dots> = pipewrite_loop pi p addr (Suc i + m) k (acquired (L_pipe pi) (?t\<lparr>pipes := (pipes ?t)(pi :=
      fold pipe_put (map (\<lambda>j. mem s (upa (mem s) ?pt (addr + of_nat (Suc i + j)))) [0..<m]) (pipe_put ?c ?x))\<rparr>))"
  proof -
    have "\<forall>j < m. user_mapped (mem s) ?pt (addr + of_nat (Suc i + j))" using Suc.prems(5) by (metis Suc_less_eq add_Suc add_Suc_right)
    moreover have "pipe_user p ?t" using Suc.prems(1) by (simp add: pipe_user_def)
    ultimately show ?thesis
      using Suc.IH [of ?t "Suc i"] pipe_put_queue [OF room, of ?c] Suc.prems(2,4)
      by (simp add: fun_upd_same del: pipewrite_loop.simps fun_upd_apply upt_Suc of_nat_add of_nat_Suc)
  qed
  also have "map (\<lambda>j. mem s (upa (mem s) ?pt (addr + of_nat (Suc i + j)))) [0..<m] = map (\<lambda>j. mem s (upa (mem s) ?pt (addr + of_nat (i + j)))) [1..<Suc m]"
    by (simp add: map_Suc_upt [symmetric] comp_def ac_simps del: upt_Suc)
  finally show ?case
    by (simp add: upt_conv_Cons [of 0 "Suc m"] del: pipewrite_loop.simps fun_upd_apply upt_Suc of_nat_add of_nat_Suc)
qed

declare pipewrite_loop.simps [simp del]

lemma lock_free_pipes [simp]: "locks (s\<lparr>pipes := x\<rparr>) = locks s"
  by simp

text \<open>Waking the sleepers of a channel while the lock of the pipe is held.\<close>

lemma wakeup_inside:
  fixes s :: "'x kfile_scheme"
  assumes "fs_ready p s"
  shows "wakeup ch (acquired (L_pipe pi) s) = Ok () (acquired (L_pipe pi) (s\<lparr>procs := wakeup_table (Some p) ch (procs s)\<rparr>))"
  using wakeup_nested [of "acquired (L_pipe pi) s" "Some p" ch] acquired_inside [OF assms, of "L_pipe pi"]
    proc_locks_free_hold [OF assms, of "L_pipe pi"] by (simp add: acquired_upd_procs)

lemma fs_ready_wakeup: "fs_ready p s \<Longrightarrow> fs_ready p (s\<lparr>procs := wakeup_table (Some p) ch (procs s)\<rparr>)"
  using wakeup_table_self [of "procs s" p] by (simp add: fs_ready_def irq_state_ok_def)

definition woken :: "nat \<Rightarrow> wchan \<Rightarrow> (nat \<Rightarrow> proc) \<Rightarrow> (nat \<Rightarrow> proc) \<Rightarrow> bool" where
  "woken p ch tab tab' \<longleftrightarrow> (\<forall>q < NPROC. q \<noteq> p \<and> state (tab q) = SLEEPING \<and> chan (tab q) = ch \<longrightarrow> state (tab' q) = RUNNABLE)"

lemma woken_table: "woken p ch tab (wakeup_table (Some p) ch tab)"
  by (simp add: woken_def wakeup_table_def map_table_def awaken_def)

text \<open>
  C11: \<open>pipewrite\<close> refines appending to a bounded queue of PIPESIZE bytes. If the bytes fit, the call
  returns their number and they are at the end of the queue; otherwise the queue is filled up with the
  first of them and the writer sleeps on \<open>nwrite\<close> with the pipe's lock free. In both cases the sleeping
  readers are woken, user memory and the other pipes are as before, and the counters may wrap around.
\<close>
theorem pipewrite_appends:
  fixes s :: "'x kfile_scheme"
  assumes u: "pipe_user p s" and x: "readopen (pipes s pi) \<noteq> 0" "pipe_ok (pipes s pi)" and r: "user_readable p s addr (nat n)"
  shows "\<exists>t. pipewrite pi addr n s =
      (if length (pipe_queue (pipes s pi)) + nat n \<le> PIPESIZE then Ok (int (nat n)) t else Sleep t) \<and>
    pipe_queue (pipes t pi) = take PIPESIZE (pipe_queue (pipes s pi) @ user_bytes p s addr (nat n)) \<and> pipe_ok (pipes t pi) \<and>
    (length (pipe_queue (pipes s pi)) + nat n > PIPESIZE \<longrightarrow> state (procs t p) = SLEEPING \<and> chan (procs t p) = Chan_nwrite pi) \<and>
    lock_free (L_pipe pi) (locks t) \<and> woken p (Chan_nread pi) (procs s) (procs t) \<and>
    mem t = mem s \<and> (\<forall>pj. pj \<noteq> pi \<longrightarrow> pipes t pj = pipes s pj)"
proof -
  note U = pipe_userD [OF u]
  let ?q = "pipe_queue (pipes s pi)" and ?L = "L_pipe pi"
  define m where "m = min (nat n) (PIPESIZE - length ?q)"
  define y where "y = fold pipe_put (user_bytes p s addr m) (pipes s pi)"
  define s' where "s' = s\<lparr>pipes := (pipes s)(pi := y)\<rparr>"
  define z where "z = s'\<lparr>procs := wakeup_table (Some p) (Chan_nread pi) (procs s)\<rparr>"
  have q: "length ?q \<le> PIPESIZE" using x(2) by (simp add: pipe_ok_def length_pipe_queue)
  have Y: "pipe_queue y = ?q @ user_bytes p s addr m" "pipe_ok y" "readopen y = readopen (pipes s pi)"
    using pipe_puts_queue [OF x(2), of "user_bytes p s addr m"] q by (simp_all add: y_def m_def user_bytes_def)
  have ub: "user_bytes p s addr m = take m (user_bytes p s addr (nat n))" by (simp add: user_bytes_def m_def take_map)
  then have tk: "pipe_queue y = take PIPESIZE (?q @ user_bytes p s addr (nat n))"
    unfolding Y(1) using q by (cases "nat n \<le> PIPESIZE - length ?q") (auto simp: m_def user_bytes_def min_def)
  have fs: "fs_ready p s'" "fs_ready p z" using U(1) fs_ready_wakeup [of p s'] by (simp_all add: s'_def z_def)
  have start: "pipewrite pi addr n s = kbind (pipewrite_loop pi p addr 0 (nat n)) (\<lambda>r. case r of None \<Rightarrow> ret (- 1)
      | Some i \<Rightarrow> kthen (wakeup (Chan_nread pi)) (kthen (release ?L) (ret (int i)))) (acquired ?L s)"
    using myproc_ready [OF U(1)] acquire_acquired [of ?L "settle s"] fs_readyD(2) [OF U(1)] by (simp add: pipewrite_def)
  have loop: "pipewrite_loop pi p addr 0 (m + k) (acquired ?L s) = pipewrite_loop pi p addr m k (acquired ?L s')" for k
    using pipewrite_loop_puts [OF u x, of m addr 0 k] q r
    by (simp add: m_def y_def s'_def user_bytes_def user_readable_def del: fun_upd_apply)
  have wk: "wakeup (Chan_nread pi) (acquired ?L s') = Ok () (acquired ?L z)" using wakeup_inside [OF fs(1)] by (simp add: z_def s'_def)
  have Z: "pipes z = (pipes s)(pi := y)" "mem z = mem s" "procs z = wakeup_table (Some p) (Chan_nread pi) (procs s)" "locks z = locks s"
    by (simp_all add: z_def s'_def)
  have lf: "lock_free l (locks s)" for l using fs_readyD(2) [OF U(1)] .
  show ?thesis
  proof (cases "length ?q + nat n \<le> PIPESIZE")
    case True
    then have m: "m = nat n" by (simp add: m_def)
    have "release ?L (acquired ?L z) = Ok () (settle z)" by (rule release_acquired [OF fs_readyD(1,2) [OF fs(2)]])
    then have "pipewrite pi addr n s = Ok (int (nat n)) (settle z)"
      using loop [of 0] wk unfolding start by (simp add: m pipewrite_loop.simps)
    then show ?thesis using True tk Y(2) Z lf woken_table
      by (intro exI [of _ "settle z"]) (simp add: settle_def)
  next
    case False
    then have m: "m = PIPESIZE - length ?q" "m < nat n" using q by (simp_all add: m_def)
    then obtain k where k: "nat n = m + Suc k" using less_imp_Suc_add by auto
    have "length (pipe_queue y) = PIPESIZE" using q m(1) Y(1) by (simp add: user_bytes_def)
    then have full: "nwrite y = nread y + of_nat PIPESIZE" using pipe_full_iff [OF Y(2)] by simp
    define t where "t = (acquired (L_proc p) z)\<lparr>procs := (procs z)(p := going_to_sleep p (Chan_nwrite pi) (procs z p))\<rparr>"
    have sl: "sleep (Chan_nwrite pi) ?L (acquired ?L z) = Sleep t"
      unfolding t_def using fs_readyD [OF fs(2)] by (intro sleep_effect) simp_all
    have kl: "killed p (acquired ?L s') = Ok 0 (acquired ?L s')" using killed_inside [OF fs(1), of pi] U(3) by (simp add: s'_def)
    have "pipes s' pi = y" by (simp add: s'_def)
    then have "pipewrite_loop pi p addr m (Suc k) (acquired ?L s') = Sleep t"
      using kl wk sl full x(1) Y(3) by (simp add: pipewrite_loop.simps get_pipe_def acquired_kfile)
    then have "pipewrite pi addr n s = Sleep t" unfolding start k(1) using loop [of "Suc k"] by simp
    moreover have "woken p (Chan_nread pi) (procs s) (procs t)"
      using woken_table [of p "Chan_nread pi" "procs s"] Z(3) by (simp add: t_def woken_def)
    ultimately show ?thesis using False tk Y(2) Z lf
      by (intro exI [of _ t]) (simp add: t_def going_to_sleep_def acquired_kfile)
  qed
qed

section \<open>Reading\<close>

text \<open>The process may write \<open>n\<close> bytes at \<open>addr\<close>: each address translates to a byte of its own.\<close>

definition user_target :: "nat \<Rightarrow> 'x kfile_scheme \<Rightarrow> u64 \<Rightarrow> nat \<Rightarrow> bool" where
  "user_target p s addr n \<longleftrightarrow> (let pt = pagetable (procs s p); u = (\<lambda>i. upa (mem s) pt (addr + of_nat i)) in
     (\<forall>i < n. user_writable (mem s) pt (addr + of_nat i) \<and> PGROUNDDOWN (u i) \<notin> free_pages s \<union> tables (mem s) pt) \<and>
     (\<forall>i < n. \<forall>j < n. u i = u j \<longrightarrow> i = j))"

lemma user_targetD:
  assumes "user_target p s addr n" "i < n"
  shows "user_writable (mem s) (pagetable (procs s p)) (addr + of_nat i)"
    "PGROUNDDOWN (upa (mem s) (pagetable (procs s p)) (addr + of_nat i)) \<notin> free_pages s \<union> tables (mem s) (pagetable (procs s p))"
    "j < n \<Longrightarrow> upa (mem s) (pagetable (procs s p)) (addr + of_nat i) = upa (mem s) (pagetable (procs s p)) (addr + of_nat j) \<Longrightarrow> i = j"
  using assms unfolding user_target_def Let_def by blast+

lemma copyout_one:
  assumes "pt_ok s pt" "user_writable (mem s) pt va"
  shows "copyout_local pt va [c] s = Ok 0 (s\<lparr>mem := (mem s)(upa (mem s) pt va := c)\<rparr>)"
proof -
  obtain n where n: "4096 - unat va mod 4096 = Suc n" by (metis gr0_conv_Suc mod_less_divisor zero_less_diff zero_less_numeral)
  have st: "store_bytes a [c] m = m(a := c)" for a m
    by (rule ext) (auto simp: store_bytes_def in_range_def unat_eq_zero)
  show ?thesis
    using copyout_page_mapped [OF assms(1), of va] assms(2)
    by (simp add: copyout_local.simps [of pt va] copyout_local.simps [of pt _ "[]"] user_writable_def Let_def n st upa_def)
qed

lemma write_frame:
  assumes ok: "pt_ok s pt" and tg: "PGROUNDDOWN b \<notin> free_pages s \<union> tables (mem s) pt"
  shows "pt_ok (s\<lparr>mem := (mem s)(b := c)\<rparr>) pt" "leaf ((mem s)(b := c)) pt va = leaf (mem s) pt va"
    "tables ((mem s)(b := c)) pt = tables (mem s) pt" "free_pages (s\<lparr>mem := (mem s)(b := c)\<rparr>) = free_pages s"
    "upa ((mem s)(b := c)) pt va = upa (mem s) pt va" "user_writable ((mem s)(b := c)) pt va = user_writable (mem s) pt va"
proof -
  have e: "((mem s)(b := c)) a = mem s a" if "PGROUNDDOWN a \<in> free_pages s \<union> tables (mem s) pt" for a using that tg by auto
  note w = pt_ok_write [OF ok e]
  show "pt_ok (s\<lparr>mem := (mem s)(b := c)\<rparr>) pt" "tables ((mem s)(b := c)) pt = tables (mem s) pt"
    "free_pages (s\<lparr>mem := (mem s)(b := c)\<rparr>) = free_pages s" by (rule w; assumption)+
  show l: "leaf ((mem s)(b := c)) pt va = leaf (mem s) pt va" for va by (rule w(2))
  show "upa ((mem s)(b := c)) pt va = upa (mem s) pt va" by (simp only: upa_def l)
  show "user_writable ((mem s)(b := c)) pt va = user_writable (mem s) pt va" by (simp only: user_writable_def user_mapped_def l)
qed

lemma acquired_mem: "(acquired l s)\<lparr>mem := m\<rparr> = acquired l (s\<lparr>mem := m\<rparr>)"
  by (cases s) (simp add: acquired_def)

declare piperead_loop.simps [simp del]

lemma piperead_loop_one:
  assumes u: "pipe_user p s" and ne: "nread (pipes s pi) \<noteq> nwrite (pipes s pi)"
    and tg: "user_writable (mem s) (pagetable (procs s p)) (addr + of_nat i)"
  shows "piperead_loop pi p addr i (Suc k) (acquired (L_pipe pi) s) = piperead_loop pi p addr (Suc i) k (acquired (L_pipe pi)
    (s\<lparr>mem := (mem s)(upa (mem s) (pagetable (procs s p)) (addr + of_nat i) := pdata (pipes s pi) (unat (nread (pipes s pi)) mod PIPESIZE)),
       pipes := (pipes s)(pi := pipe_get (pipes s pi))\<rparr>))"
proof -
  have "copyout_local (pagetable (procs s p)) (addr + of_nat i) [c] (acquired (L_pipe pi) s) =
      Ok 0 (acquired (L_pipe pi) (s\<lparr>mem := (mem s)(upa (mem s) (pagetable (procs s p)) (addr + of_nat i) := c)\<rparr>))" for c
    using copyout_one [OF pipe_user_acquired [OF u, of pi], of "addr + of_nat i" c] tg by (simp add: acquired_mem del: fun_upd_apply)
  then show ?thesis using ne
    by (simp add: piperead_loop.simps(2) get_pipe_def get_proc_def upd_pipe_def acquired_kfile pipe_get_def del: fun_upd_apply)
qed

text \<open>\<open>m\<close> passes of the reading loop, when the pipe has as many bytes.\<close>

lemma piperead_loop_gets:
  assumes "pipe_user p s" "pipe_ok (pipes s pi)" "m \<le> length (pipe_queue (pipes s pi))" "user_target p s (addr + of_nat i) m"
  shows "\<exists>y m'. piperead_loop pi p addr i (m + k) (acquired (L_pipe pi) s) =
      piperead_loop pi p addr (i + m) k (acquired (L_pipe pi) (s\<lparr>mem := m', pipes := (pipes s)(pi := y)\<rparr>)) \<and>
    pipe_queue y = drop m (pipe_queue (pipes s pi)) \<and> pipe_ok y \<and> writeopen y = writeopen (pipes s pi) \<and>
    (\<forall>j < m. m' (upa (mem s) (pagetable (procs s p)) (addr + of_nat i + of_nat j)) = pipe_queue (pipes s pi) ! j) \<and>
    (\<forall>a. (\<forall>j < m. a \<noteq> upa (mem s) (pagetable (procs s p)) (addr + of_nat i + of_nat j)) \<longrightarrow> m' a = mem s a)"
  using assms
proof (induction m arbitrary: i s)
  case 0
  then show ?case by (intro exI [of _ "pipes s pi"] exI [of _ "mem s"]) simp
next
  case (Suc m)
  let ?pt = "pagetable (procs s p)" and ?x = "pipes s pi"
  let ?b = "upa (mem s) ?pt (addr + of_nat i)" and ?c = "pdata ?x (unat (nread ?x) mod PIPESIZE)"
  let ?t = "s\<lparr>mem := (mem s)(?b := ?c), pipes := (pipes s)(pi := pipe_get ?x)\<rparr>"
  have ok: "pt_ok s ?pt" using Suc.prems(1) by (simp add: pipe_user_def)
  have "pipe_queue ?x \<noteq> []" using Suc.prems(3) by auto
  then have ne: "nread ?x \<noteq> nwrite ?x" by (simp add: pipe_empty_iff)
  note q = pipe_get_queue [OF ne Suc.prems(2)]
  have t0: "user_writable (mem s) ?pt (addr + of_nat i)" "PGROUNDDOWN ?b \<notin> free_pages s \<union> tables (mem s) ?pt"
    using user_targetD(1,2) [OF Suc.prems(4), of 0] by simp_all
  note W = write_frame [OF ok t0(2), of ?c]
  have sh: "addr + of_nat i + of_nat (Suc j) = addr + of_nat (Suc i) + of_nat j" for j by simp
  have fp: "free_pages ?t = free_pages (s\<lparr>mem := (mem s)(?b := ?c)\<rparr>)" by (simp add: free_pages_def kmem_inv_def)
  have ut: "pipe_user p ?t" using Suc.prems(1) W(1) by (simp add: pipe_user_def fs_ready_def irq_state_ok_def del: fun_upd_apply)
  have tt: "user_target p ?t (addr + of_nat (Suc i)) m"
    unfolding user_target_def Let_def fp W(4)
    using user_targetD [OF Suc.prems(4), of "Suc _"] by (simp add: W(3,5,6) flip: sh del: fun_upd_apply of_nat_Suc) blast
  have "m \<le> length (pipe_queue (pipe_get ?x))" using Suc.prems(3) q(1) by simp
  then obtain y m' where y: "piperead_loop pi p addr (Suc i) (m + k) (acquired (L_pipe pi) ?t) =
      piperead_loop pi p addr (Suc i + m) k (acquired (L_pipe pi) (?t\<lparr>mem := m', pipes := (pipes ?t)(pi := y)\<rparr>))"
    "pipe_queue y = drop m (pipe_queue (pipe_get ?x))" "pipe_ok y" "writeopen y = writeopen ?x"
    "\<forall>j < m. m' (upa (mem s) ?pt (addr + of_nat (Suc i) + of_nat j)) = pipe_queue (pipe_get ?x) ! j"
    "\<forall>a. (\<forall>j < m. a \<noteq> upa (mem s) ?pt (addr + of_nat (Suc i) + of_nat j)) \<longrightarrow> m' a = ((mem s)(?b := ?c)) a"
    using Suc.IH [OF ut _ _ tt] q(2) W(5) by (simp del: fun_upd_apply add: fun_upd_same) blast
  have "m' (upa (mem s) ?pt (addr + of_nat i + of_nat j)) = pipe_queue ?x ! j" if "j < Suc m" for j
  proof (cases j)
    case 0
    have "?b \<noteq> upa (mem s) ?pt (addr + of_nat (Suc i) + of_nat j')" if "j' < m" for j'
      using user_targetD(3) [OF Suc.prems(4), of 0 "Suc j'"] that unfolding sh by auto
    then show ?thesis using y(6) q(1) 0 by simp
  next
    case (Suc j')
    then show ?thesis using y(5) that q(1) unfolding Suc sh by simp
  qed
  moreover have "m' a = mem s a" if "\<forall>j < Suc m. a \<noteq> upa (mem s) ?pt (addr + of_nat i + of_nat j)" for a
  proof -
    have "a \<noteq> ?b" "\<forall>j < m. a \<noteq> upa (mem s) ?pt (addr + of_nat (Suc i) + of_nat j)"
      using that [rule_format, of 0] that [rule_format, of "Suc _"] unfolding sh by auto
    then show ?thesis using y(6) by simp
  qed
  moreover have "piperead_loop pi p addr i (Suc m + k) (acquired (L_pipe pi) s) =
      piperead_loop pi p addr (i + Suc m) k (acquired (L_pipe pi) (s\<lparr>mem := m', pipes := (pipes s)(pi := y)\<rparr>))"
    using piperead_loop_one [OF Suc.prems(1) ne t0(1), of "m + k"] y(1) by (simp del: fun_upd_apply of_nat_Suc)
  moreover have "pipe_queue y = drop (Suc m) (pipe_queue ?x)" using y(2) q(1) by simp
  ultimately show ?case using y(3,4) by blast
qed

text \<open>
  C12: \<open>piperead\<close> refines taking bytes from the front of the queue. On an empty pipe that a writer still
  has open the reader sleeps on \<open>nread\<close>, with the pipe's lock free and the pipe unchanged. Otherwise it
  returns the number of bytes taken (0 at the end of the stream), the queue has lost exactly these, the
  user has them at \<open>addr\<close> in order and no other byte of memory changes; sleeping writers are woken.
\<close>
theorem piperead_takes:
  fixes s :: "'x kfile_scheme"
  assumes u: "pipe_user p s" and x: "pipe_ok (pipes s pi)" and tg: "user_target p s addr (nat n)"
  shows "\<exists>t. lock_free (L_pipe pi) (locks t) \<and> (\<forall>pj. pj \<noteq> pi \<longrightarrow> pipes t pj = pipes s pj) \<and> pipe_ok (pipes t pi) \<and>
    (if pipe_queue (pipes s pi) = [] \<and> writeopen (pipes s pi) \<noteq> 0
     then piperead pi addr n s = Sleep t \<and> state (procs t p) = SLEEPING \<and> chan (procs t p) = Chan_nread pi \<and>
       pipes t pi = pipes s pi \<and> mem t = mem s
     else (let m = min (nat n) (length (pipe_queue (pipes s pi))) in
       piperead pi addr n s = Ok (int m) t \<and> pipe_queue (pipes t pi) = drop m (pipe_queue (pipes s pi)) \<and>
       user_bytes p t addr m = take m (pipe_queue (pipes s pi)) \<and>
       (\<forall>a. (\<forall>j < m. a \<noteq> upa (mem s) (pagetable (procs s p)) (addr + of_nat j)) \<longrightarrow> mem t a = mem s a) \<and>
       woken p (Chan_nwrite pi) (procs s) (procs t)))"
proof -
  note U = pipe_userD [OF u]
  let ?q = "pipe_queue (pipes s pi)" and ?L = "L_pipe pi" and ?pt = "pagetable (procs s p)"
  have lf: "lock_free l (locks s)" for l using fs_readyD(2) [OF U(1)] .
  have start: "piperead pi addr n s = kbind (get_pipe pi) (\<lambda>x.
     if nread x = nwrite x \<and> writeopen x \<noteq> 0 then
       kbind (killed p) (\<lambda>d.
       if d \<noteq> 0 then kthen (release ?L) (ret (- 1))
       else kthen (sleep (Chan_nread pi) ?L) (ret (- 1)))
     else
       kbind (piperead_loop pi p addr 0 (nat n)) (\<lambda>i.
       kthen (wakeup (Chan_nwrite pi)) (
       kthen (release ?L) (
       ret i)))) (acquired ?L s)"
    using myproc_ready [OF U(1)] acquire_acquired [of ?L "settle s"] lf by (simp add: piperead_def)
  show ?thesis
  proof (cases "?q = [] \<and> writeopen (pipes s pi) \<noteq> 0")
    case True
    define t where "t = (acquired (L_proc p) s)\<lparr>procs := (procs s)(p := going_to_sleep p (Chan_nread pi) (procs s p))\<rparr>"
    have sl: "sleep (Chan_nread pi) ?L (acquired ?L s) = Sleep t"
      unfolding t_def using fs_readyD [OF U(1)] by (intro sleep_effect) simp_all
    have "piperead pi addr n s = Sleep t"
      unfolding start using True killed_inside [OF U(1), of pi] U(3) sl by (simp add: get_pipe_def acquired_kfile pipe_empty_iff)
    then show ?thesis using True lf x by (intro exI [of _ t]) (simp add: t_def going_to_sleep_def acquired_kfile)
  next
    case False
    define m where "m = min (nat n) (length ?q)"
    have tm: "user_target p s addr m"
      using tg by (auto simp: user_target_def Let_def m_def)
    have m: "m + (nat n - m) = nat n" "m \<le> length ?q" by (simp_all add: m_def)
    obtain y m' where y: "piperead_loop pi p addr 0 (nat n) (acquired ?L s) =
        piperead_loop pi p addr m (nat n - m) (acquired ?L (s\<lparr>mem := m', pipes := (pipes s)(pi := y)\<rparr>))"
      "pipe_queue y = drop m ?q" "pipe_ok y"
      "\<forall>j < m. m' (upa (mem s) ?pt (addr + of_nat j)) = ?q ! j"
      "\<forall>a. (\<forall>j < m. a \<noteq> upa (mem s) ?pt (addr + of_nat j)) \<longrightarrow> m' a = mem s a"
      using piperead_loop_gets [OF u x m(2), of addr 0 "nat n - m"] tm m(1) by (simp del: fun_upd_apply) blast
    define s' where "s' = s\<lparr>mem := m', pipes := (pipes s)(pi := y)\<rparr>"
    define z where "z = s'\<lparr>procs := wakeup_table (Some p) (Chan_nwrite pi) (procs s)\<rparr>"
    have fs: "fs_ready p s'" "fs_ready p z"
      using U(1) fs_ready_wakeup [of p s'] by (simp_all add: s'_def z_def fs_ready_def irq_state_ok_def)
    have l1: "piperead_loop pi p addr 0 (nat n) (acquired ?L s) = piperead_loop pi p addr m (nat n - m) (acquired ?L s')"
      using y(1) by (simp add: s'_def)
    have "piperead_loop pi p addr m (nat n - m) (acquired ?L s') = Ok (int m) (acquired ?L s')"
    proof (cases "nat n - m")
      case 0
      then show ?thesis by (simp add: piperead_loop.simps)
    next
      case (Suc k)
      then have "pipe_queue y = []" using y(2) by (simp add: m_def)
      then show ?thesis using pipe_empty_iff [of y] unfolding Suc by (simp add: piperead_loop.simps get_pipe_def acquired_kfile s'_def)
    qed
    moreover have "wakeup (Chan_nwrite pi) (acquired ?L s') = Ok () (acquired ?L z)" using wakeup_inside [OF fs(1)] by (simp add: z_def s'_def)
    moreover have "release ?L (acquired ?L z) = Ok () (settle z)" by (rule release_acquired [OF fs_readyD(1,2) [OF fs(2)]])
    ultimately have run: "piperead pi addr n s = Ok (int m) (settle z)"
      unfolding start using False l1 by (auto simp: get_pipe_def acquired_kfile pipe_empty_iff)
    have Z: "pipes (settle z) = (pipes s)(pi := y)" "mem (settle z) = m'" "locks (settle z) = locks s"
      "procs (settle z) = wakeup_table (Some p) (Chan_nwrite pi) (procs s)" by (simp_all add: z_def s'_def settle_def)
    have leaf: "leaf m' ?pt va = leaf (mem s) ?pt va" for va
    proof (rule pt_ok_write(2) [OF U(2)])
      fix a assume "PGROUNDDOWN a \<in> free_pages s \<union> tables (mem s) ?pt"
      then have "a \<noteq> upa (mem s) ?pt (addr + of_nat j)" if "j < m" for j using user_targetD(2) [OF tm that] by auto
      then show "m' a = mem s a" using y(5) by simp
    qed
    have "state (procs s p) = RUNNING" using U(1) by (simp add: fs_ready_def)
    then have pt: "pagetable (procs (settle z) p) = ?pt" by (simp add: z_def s'_def wakeup_table_self)
    have "user_bytes p (settle z) addr m = map (\<lambda>i. m' (upa (mem s) ?pt (addr + of_nat i))) [0..<m]"
      unfolding user_bytes_def pt Z(2) upa_def leaf ..
    also have "\<dots> = take m ?q" using y(4) by (intro nth_equalityI) (simp_all add: m_def)
    finally have "user_bytes p (settle z) addr m = take m ?q" .
    then show ?thesis using run False Z y(2,3,5) lf woken_table by (intro exI [of _ "settle z"]) (auto simp: Let_def m_def)
  qed
qed

section \<open>Witnesses\<close>

text \<open>
  Process 0 with the sample page table (its page \<open>0x1000\<close> is writable); the pipe at \<open>0x80030000\<close> holds
  two bytes and its counters are about to wrap around.
\<close>

definition sample_pipe :: pipe where
  "sample_pipe = \<lparr>pdata = (\<lambda>i. if i = 511 then 8 else 9), nread = 0xffffffff, nwrite = 1, readopen = 1, writeopen = 1\<rparr>"

definition sample_fd :: file_t where
  "sample_fd = \<lparr>ftype = FD_NONE, fref = 0, freadable = False, fwritable = False, fpipe = 0, fip = 0, foff = 0, fmajor = 0\<rparr>"

definition sample_file :: kfile where
  "sample_file = kcons.extend (kfs.extend ((sample_fs sample_sectors (\<lambda>_. sample_inode))\<lparr>mem := sample_vm_mem, freelist := 0,
       procs := sample_table(0 := (sample_table 0)\<lparr>state := RUNNING, pagetable := sample_pt\<rparr>)\<rparr>)
     \<lparr>uart_out = [], uart_in = [], tx_busy = 0, cons_buf = (\<lambda>_. 0), cons_r = 0, cons_w = 0, cons_e = 0\<rparr>)
     \<lparr>files = (\<lambda>_. sample_fd), pipes = (\<lambda>_. sample_pipe), devsw = (\<lambda>_. None), stat_pad = (\<lambda>_. 0)\<rparr>"

lemma sample_pipe_queue: "pipe_queue sample_pipe = [8, 9]" "pipe_ok sample_pipe"
proof -
  have "[0..<2] = [0, 1 :: nat]" by (simp add: upt_rec)
  then show "pipe_queue sample_pipe = [8, 9]" by (simp add: pipe_queue_def ring_list_def sample_pipe_def PIPESIZE_def)
  show "pipe_ok sample_pipe" by (simp add: pipe_ok_def sample_pipe_def PIPESIZE_def)
qed

lemma sample_file_simps:
  "mem sample_file = sample_vm_mem" "procs sample_file = sample_table(0 := (sample_table 0)\<lparr>state := RUNNING, pagetable := sample_pt\<rparr>)"
  "pipes sample_file = (\<lambda>_. sample_pipe)" "freelist sample_file = 0" "kend sample_file = kend sample_vm"
  by (simp_all add: sample_file_def kcons.defs kfs.defs sample_fs_def klog.defs sample_boot_def kdisk.defs sample_disk_def
      kproc.defs sample_running_def sample_vm_def)

lemma sample_file_ready: "fs_ready 0 sample_file"
proof -
  have "fs_ready 0 (sample_fs sample_sectors (\<lambda>_. sample_inode))" by (rule cache_atD(1) [OF sample_fs_cache])
  then show ?thesis by (simp add: fs_ready_def irq_state_ok_def sample_file_def kcons.defs kfs.defs)
qed

lemma sample_file_free: "free_pages sample_file = free_pages sample_vm" "free_pages sample_vm = {}"
proof -
  show "free_pages sample_file = free_pages sample_vm" by (simp add: free_pages_def sample_file_simps sample_vm_def)
  have "kmem_inv sample_vm []" by (simp add: kmem_inv_def sample_vm_def)
       (simp add: sample_kproc_def kmachine.defs boot_machine_def kernel.defs)
  then show "free_pages sample_vm = {}" using free_pages_eq by fastforce
qed

lemma sample_file_user: "pipe_user 0 sample_file"
proof -
  obtain ps where "kmem_inv sample_vm ps" using sample_pt_ok by (auto simp: pt_ok_def kmem_ready_def)
  then have "kmem_inv sample_file ps" by (simp add: kmem_inv_def sample_file_simps) (simp add: sample_vm_def)
  then have "kmem_ready sample_file"
    using fs_readyD(1,2) [OF sample_file_ready] by (auto simp: kmem_ready_def)
  moreover have "tree_wf sample_vm_mem sample_pt \<and> (\<forall>t \<in> tables sample_vm_mem sample_pt. kpage (kend sample_vm) t \<and> t \<notin> free_pages sample_vm)"
    using sample_pt_ok unfolding pt_ok_def by (simp add: sample_vm_def)
  ultimately have "pt_ok sample_file sample_pt" by (simp add: pt_ok_def sample_file_simps sample_file_free(1))
  then show ?thesis using sample_file_ready by (simp add: pipe_user_def sample_file_simps sample_table_def blank_proc_def)
qed

theorem pipewrite_appends_witness:
  "\<exists>t u. pipewrite 0x80030000 0x1000 3 sample_file = Ok 3 t \<and> pipe_queue (pipes t 0x80030000) = [8, 9] @ user_bytes 0 sample_file 0x1000 3 \<and>
       pipewrite 0x80030000 0x1000 600 sample_file = Sleep u \<and> length (pipe_queue (pipes u 0x80030000)) = 512"
proof -
  have m: "user_mapped sample_vm_mem sample_pt (0x1000 + of_nat i)" if "i < 4096" for i using sample_mapped(1) [OF that] by (simp add: user_writable_def)
  have r: "user_readable 0 sample_file 0x1000 (nat n)" if "n < 4096" for n using m that by (simp add: user_readable_def sample_file_simps)
  have o: "readopen (pipes sample_file 0x80030000) \<noteq> 0" "pipe_ok (pipes sample_file 0x80030000)"
    "pipe_queue (pipes sample_file 0x80030000) = [8, 9]"
    by (simp_all add: sample_file_simps sample_pipe_queue) (simp add: sample_pipe_def)
  have l: "length (user_bytes 0 sample_file 0x1000 n) = n" for n by (simp add: user_bytes_def)
  have W: "\<exists>t. pipewrite 0x80030000 0x1000 n sample_file = (if length [8, 9 :: u8] + nat n \<le> PIPESIZE then Ok (int (nat n)) t else Sleep t) \<and>
      pipe_queue (pipes t 0x80030000) = take PIPESIZE ([8, 9] @ user_bytes 0 sample_file 0x1000 (nat n))" if "n < 4096" for n
    using pipewrite_appends [OF sample_file_user o(1,2) r [OF that]] unfolding o(3) by blast
  have P: "length [8, 9 :: u8] + nat 3 \<le> PIPESIZE" "\<not> length [8, 9 :: u8] + nat 600 \<le> PIPESIZE" by (simp_all add: PIPESIZE_def)
  obtain t where t: "pipewrite 0x80030000 0x1000 3 sample_file = Ok (int (nat 3)) t"
    "pipe_queue (pipes t 0x80030000) = take PIPESIZE ([8, 9] @ user_bytes 0 sample_file 0x1000 (nat 3))" using W [of 3] P(1) by auto
  obtain u where u: "pipewrite 0x80030000 0x1000 600 sample_file = Sleep u"
    "pipe_queue (pipes u 0x80030000) = take PIPESIZE ([8, 9] @ user_bytes 0 sample_file 0x1000 (nat 600))" using W [of 600] P(2) by auto
  have "length (pipe_queue (pipes u 0x80030000)) = 512" unfolding u(2) by (simp add: l PIPESIZE_def)
  moreover have "pipe_queue (pipes t 0x80030000) = [8, 9] @ user_bytes 0 sample_file 0x1000 3"
    unfolding t(2) using P(1) by (subst take_all) (simp_all add: l)
  ultimately show ?thesis using t(1) u(1) by auto
qed

theorem piperead_takes_witness:
  "\<exists>t. piperead 0x80030000 0x1000 5 sample_file = Ok 2 t \<and> user_bytes 0 t 0x1000 2 = [8, 9] \<and> pipe_queue (pipes t 0x80030000) = []"
proof -
  have "PGROUNDDOWN (0x80029000 + of_nat i) = 0x80029000" if "i < 8" for i
    using round_add(2) [of i "0x80029000"] that by (simp add: PGROUNDDOWN_def PGSIZE_def)
  then have "user_target 0 sample_file 0x1000 (nat 5)"
    unfolding user_target_def Let_def
    using sample_mapped sample_frame
    by (auto simp: sample_file_simps sample_file_free sample_vm_def unat_of_nat word_of_nat_eq_iff take_bit_nat_eq_self)
  from piperead_takes [OF sample_file_user _ this, of "0x80030000"] show ?thesis
    by (auto simp: sample_file_simps sample_pipe_queue numeral_2_eq_2)
qed

end
