(* ===== verification/Xv6_Sysfile.thy ===== *)
theory Xv6_Sysfile
  imports Xv6_File
begin

text \<open>
  The file system calls (sysfile.c). Path names are local variables of the system calls: byte lists
  without the terminating NUL.
\<close>

definition MAXPATH :: int where "MAXPATH = 128"
definition O_RDONLY :: int where "O_RDONLY = 0"
definition O_WRONLY :: int where "O_WRONLY = 1"
definition O_RDWR :: int where "O_RDWR = 2"
definition O_CREATE :: int where "O_CREATE = 0x200"
definition O_TRUNC :: int where "O_TRUNC = 0x400"

definition has_flag :: "int \<Rightarrow> int \<Rightarrow> bool" where
  "has_flag omode f \<longleftrightarrow> omode AND f \<noteq> 0"

section \<open>Arguments\<close>

text \<open>\<open>copyinstr\<close> into a local buffer: the bytes before the NUL.\<close>

function copyinstr_local :: "u64 \<Rightarrow> u64 \<Rightarrow> u64 \<Rightarrow> u8 list \<Rightarrow> ('x kmachine_scheme, int \<times> u8 list) kop" where
  "copyinstr_local pt srcva mx acc s =
     (if mx > 0
      then (case walkaddr pt (PGROUNDDOWN srcva) s of
              Ok pa0 t \<Rightarrow>
                if pa0 = 0 then Ok (- 1, acc) t
                else let n = chunk_len srcva mx;
                         bs = load_bytes (mem t) (pa0 + (srcva - PGROUNDDOWN srcva)) (unat n) in
                  if 0 \<in> set bs then Ok (0, acc @ takeWhile (\<lambda>c. c \<noteq> 0) bs) t
                  else copyinstr_local pt (PGROUNDDOWN srcva + PGSIZE) (mx - n) (acc @ bs) t
            | Panic msg \<Rightarrow> Panic msg | Spin t \<Rightarrow> Spin t | Sleep t \<Rightarrow> Sleep t)
      else Ok (- 1, acc) s)"
  by pat_completeness auto
termination
  by (relation "measure (\<lambda>(pt, srcva, mx, acc, s). unat mx)") (auto simp: chunk_len_decreases)

declare copyinstr_local.simps [simp del]

definition fetchstr_local :: "u64 \<Rightarrow> int \<Rightarrow> ('x kproc_scheme, int \<times> u8 list) kop" where
  "fetchstr_local addr mx =
     kbind myproc (\<lambda>mp.
     kbind (deref mp) (\<lambda>p.
     kbind (get_proc p) (\<lambda>q.
     kbind (copyinstr_local (pagetable q) addr (word_of_int mx) []) (\<lambda>(r, bs).
     if r < 0 then ret (- 1, bs) else ret (int (length bs), bs)))))"

definition argstr_local :: "nat \<Rightarrow> int \<Rightarrow> ('x kproc_scheme, int \<times> u8 list) kop" where
  "argstr_local n mx = kbind (argaddr n) (\<lambda>addr. fetchstr_local addr mx)"

definition get_ofile :: "nat \<Rightarrow> ('x kproc_scheme, nat option) kop" where
  "get_ofile fd = kbind myproc (\<lambda>mp. kbind (deref mp) (\<lambda>p. kbind (get_proc p) (\<lambda>q. ret (ofile q fd))))"

definition set_ofile :: "nat \<Rightarrow> nat option \<Rightarrow> ('x kproc_scheme, unit) kop" where
  "set_ofile fd f = kbind myproc (\<lambda>mp. kbind (deref mp) (\<lambda>p. upd_proc p (\<lambda>q. q\<lparr>ofile := (ofile q)(fd := f)\<rparr>)))"

definition argfd :: "nat \<Rightarrow> ('x kproc_scheme, (nat \<times> nat) option) kop" where
  "argfd n =
     kbind (argint n) (\<lambda>fd.
     if fd < 0 \<or> fd \<ge> int NOFILE then ret None else
     kbind (get_ofile (nat fd)) (\<lambda>f.
     case f of None \<Rightarrow> ret None | Some f \<Rightarrow> ret (Some (nat fd, f))))"

definition fdalloc :: "nat \<Rightarrow> ('x kproc_scheme, int) kop" where
  "fdalloc f =
     kbind myproc (\<lambda>mp.
     kbind (deref mp) (\<lambda>p.
     kbind (get_proc p) (\<lambda>q.
     case find (\<lambda>fd. ofile q fd = None) [0..<NOFILE] of
       Some fd \<Rightarrow>
         kthen (upd_proc p (\<lambda>q. q\<lparr>ofile := (ofile q)(fd := Some f)\<rparr>)) (
         ret (int fd))
     | None \<Rightarrow> ret (- 1))))"

section \<open>System calls on descriptors\<close>

definition sys_dup :: "('x kfile_scheme, int) kop" where
  "sys_dup =
     kbind (argfd 0) (\<lambda>a.
     case a of None \<Rightarrow> ret (- 1) | Some (_, f) \<Rightarrow>
     kbind (fdalloc f) (\<lambda>fd.
     if fd < 0 then ret (- 1) else
     kthen (filedup f) (
     ret fd)))"

definition sys_read :: "('x kfile_scheme, int) kop" where
  "sys_read =
     kbind (argaddr 1) (\<lambda>p.
     kbind (argint 2) (\<lambda>n.
     kbind (argfd 0) (\<lambda>a.
     case a of None \<Rightarrow> ret (- 1) | Some (_, f) \<Rightarrow> fileread f p n)))"

definition sys_write :: "('x kfile_scheme, int) kop" where
  "sys_write =
     kbind (argaddr 1) (\<lambda>p.
     kbind (argint 2) (\<lambda>n.
     kbind (argfd 0) (\<lambda>a.
     case a of None \<Rightarrow> ret (- 1) | Some (_, f) \<Rightarrow> filewrite f p n)))"

definition sys_close :: "('x kfile_scheme, int) kop" where
  "sys_close =
     kbind (argfd 0) (\<lambda>a.
     case a of None \<Rightarrow> ret (- 1) | Some (fd, f) \<Rightarrow>
     kthen (set_ofile fd None) (
     kthen (fileclose f) (
     ret 0)))"

definition sys_fstat :: "('x kfile_scheme, int) kop" where
  "sys_fstat =
     kbind (argaddr 1) (\<lambda>st.
     kbind (argfd 0) (\<lambda>a.
     case a of None \<Rightarrow> ret (- 1) | Some (_, f) \<Rightarrow> filestat f st))"

section \<open>System calls on paths\<close>

definition sys_link_bad :: "nat \<Rightarrow> ('x kfs_scheme, int) kop" where
  "sys_link_bad ip =
     kthen (ilock ip) (
     kthen (upd_inode ip (\<lambda>x. x\<lparr>nlink := nlink x - 1\<rparr>)) (
     kthen (iupdate ip) (
     kthen (iunlockput ip) (
     kthen end_op (
     ret (- 1))))))"

definition sys_link :: "('x kfs_scheme, int) kop" where
  "sys_link =
     kbind (argstr_local 0 MAXPATH) (\<lambda>(n0, old).
     if n0 < 0 then ret (- 1) else
     kbind (argstr_local 1 MAXPATH) (\<lambda>(n1, new).
     if n1 < 0 then ret (- 1) else
     kthen begin_op (
     kbind (namei old) (\<lambda>r.
     case r of None \<Rightarrow> kthen end_op (ret (- 1)) | Some ip \<Rightarrow>
     kthen (ilock ip) (
     kbind (get_inode ip) (\<lambda>x.
     if itype x = T_DIR then kthen (iunlockput ip) (kthen end_op (ret (- 1))) else
     kthen (upd_inode ip (\<lambda>x. x\<lparr>nlink := nlink x + 1\<rparr>)) (
     kthen (iupdate ip) (
     kthen (iunlock ip) (
     kbind (nameiparent new) (\<lambda>r.
     case r of None \<Rightarrow> sys_link_bad ip | Some (dp, nm) \<Rightarrow>
     kthen (ilock dp) (
     kbind (get_inode dp) (\<lambda>y.
     kbind (get_inode ip) (\<lambda>x.
     kbind (if idev y \<noteq> idev x then ret (- 1) else dirlink dp nm (inum x)) (\<lambda>l.
     if l < 0 then kthen (iunlockput dp) (sys_link_bad ip) else
     kthen (iunlockput dp) (
     kthen (iput ip) (
     kthen end_op (
     ret 0)))))))))))))))))"

definition isdirempty_one :: "nat \<Rightarrow> nat \<Rightarrow> ('x kfs_scheme, unit option) kop" where
  "isdirempty_one dp off =
     kbind (readi dp To_local (of_nat off) (of_nat DIRENT_SIZE)) (\<lambda>(r, de).
     if r \<noteq> int DIRENT_SIZE then panic ''isdirempty: readi'' else
     if rd16 0 de \<noteq> 0 then ret (Some ()) else ret None)"

definition isdirempty :: "nat \<Rightarrow> ('x kfs_scheme, bool) kop" where
  "isdirempty dp =
     kbind (get_inode dp) (\<lambda>x.
     kbind (scan (isdirempty_one dp) (drop 2 (dirent_offsets (isize x)))) (\<lambda>r.
     ret (r = None)))"

definition dot :: "u8 list" where "dot = [46]"
definition dotdot :: "u8 list" where "dotdot = [46, 46]"

definition sys_unlink :: "('x kfs_scheme, int) kop" where
  "sys_unlink =
     kbind (argstr_local 0 MAXPATH) (\<lambda>(n0, path).
     if n0 < 0 then ret (- 1) else
     kthen begin_op (
     kbind (nameiparent path) (\<lambda>r.
     case r of None \<Rightarrow> kthen end_op (ret (- 1)) | Some (dp, nm) \<Rightarrow>
     kthen (ilock dp) (
     if namecmp nm dot = 0 \<or> namecmp nm dotdot = 0 then
       kthen (iunlockput dp) (kthen end_op (ret (- 1)))
     else
     kbind (dirlookup dp nm) (\<lambda>r.
     case r of None \<Rightarrow> kthen (iunlockput dp) (kthen end_op (ret (- 1))) | Some (ip, off) \<Rightarrow>
     kthen (ilock ip) (
     kbind (get_inode ip) (\<lambda>x.
     if sint (nlink x) < 1 then panic ''unlink: nlink < 1'' else
     kbind (if itype x = T_DIR then isdirempty ip else ret True) (\<lambda>ok.
     if \<not> ok then kthen (iunlockput ip) (kthen (iunlockput dp) (kthen end_op (ret (- 1)))) else
     kbind (writei dp (From_local (replicate DIRENT_SIZE 0)) off (of_nat DIRENT_SIZE)) (\<lambda>w.
     if w \<noteq> int DIRENT_SIZE then panic ''unlink: writei'' else
     kthen (kwhen (itype x = T_DIR) (
       kthen (upd_inode dp (\<lambda>y. y\<lparr>nlink := nlink y - 1\<rparr>)) (
       iupdate dp))) (
     kthen (iunlockput dp) (
     kthen (upd_inode ip (\<lambda>x. x\<lparr>nlink := nlink x - 1\<rparr>)) (
     kthen (iupdate ip) (
     kthen (iunlockput ip) (
     kthen end_op (
     ret 0)))))))))))))))"

text \<open>The tail of \<open>create\<close> after a failed \<open>dirlink\<close>.\<close>

definition create_fail :: "nat \<Rightarrow> nat \<Rightarrow> ('x kfs_scheme, nat option) kop" where
  "create_fail ip dp =
     kthen (upd_inode ip (\<lambda>x. x\<lparr>nlink := 0\<rparr>)) (
     kthen (iupdate ip) (
     kthen (iunlockput ip) (
     kthen (iunlockput dp) (
     ret None))))"

definition create :: "u8 list \<Rightarrow> u16 \<Rightarrow> u16 \<Rightarrow> u16 \<Rightarrow> ('x kfs_scheme, nat option) kop" where
  "create path type major minor =
     kbind (nameiparent path) (\<lambda>r.
     case r of None \<Rightarrow> ret None | Some (dp, nm) \<Rightarrow>
     kthen (ilock dp) (
     kbind (dirlookup dp nm) (\<lambda>r.
     case r of
       Some (ip, _) \<Rightarrow>
         kthen (iunlockput dp) (
         kthen (ilock ip) (
         kbind (get_inode ip) (\<lambda>x.
         if type = T_FILE \<and> (itype x = T_FILE \<or> itype x = T_DEVICE) then ret (Some ip) else
         kthen (iunlockput ip) (
         ret None))))
     | None \<Rightarrow>
         kbind (get_inode dp) (\<lambda>y.
         kbind (ialloc (idev y) type) (\<lambda>a.
         case a of None \<Rightarrow> kthen (iunlockput dp) (ret None) | Some ip \<Rightarrow>
         kthen (ilock ip) (
         kthen (upd_inode ip (\<lambda>x. x\<lparr>imajor := major, iminor := minor, nlink := 1\<rparr>)) (
         kthen (iupdate ip) (
         kbind (get_inode ip) (\<lambda>x.
         kbind (get_inode dp) (\<lambda>y.
         kbind (if type = T_DIR then
                  kbind (dirlink ip dot (inum x)) (\<lambda>l.
                  if l < 0 then ret (- 1) else dirlink ip dotdot (inum y))
                else ret 0) (\<lambda>l.
         if l < 0 then create_fail ip dp else
         kbind (dirlink dp nm (inum x)) (\<lambda>l.
         if l < 0 then create_fail ip dp else
         kthen (kwhen (type = T_DIR) (
           kthen (upd_inode dp (\<lambda>y. y\<lparr>nlink := nlink y + 1\<rparr>)) (
           iupdate dp))) (
         kthen (iunlockput dp) (
         ret (Some ip)))))))))))))))"

definition sys_open_inode :: "u8 list \<Rightarrow> int \<Rightarrow> ('x kfs_scheme, nat option) kop" where
  "sys_open_inode path omode =
     (if has_flag omode O_CREATE then create path T_FILE 0 0
      else
        kbind (namei path) (\<lambda>r.
        case r of None \<Rightarrow> ret None | Some ip \<Rightarrow>
        kthen (ilock ip) (
        kbind (get_inode ip) (\<lambda>x.
        if itype x = T_DIR \<and> omode \<noteq> O_RDONLY then kthen (iunlockput ip) (ret None)
        else ret (Some ip)))))"

definition sys_open :: "('x kfile_scheme, int) kop" where
  "sys_open =
     kbind (argint 1) (\<lambda>omode.
     kbind (argstr_local 0 MAXPATH) (\<lambda>(n, path).
     if n < 0 then ret (- 1) else
     kthen begin_op (
     kbind (sys_open_inode path omode) (\<lambda>r.
     case r of None \<Rightarrow> kthen end_op (ret (- 1)) | Some ip \<Rightarrow>
     kbind (get_inode ip) (\<lambda>x.
     if itype x = T_DEVICE \<and> (sint (imajor x) < 0 \<or> sint (imajor x) \<ge> int NDEV) then
       kthen (iunlockput ip) (kthen end_op (ret (- 1)))
     else
     kbind filealloc (\<lambda>f.
     kbind (case f of None \<Rightarrow> ret (- 1) | Some f \<Rightarrow> fdalloc f) (\<lambda>fd.
     case f of
       None \<Rightarrow> kthen (iunlockput ip) (kthen end_op (ret (- 1)))
     | Some f \<Rightarrow>
         if fd < 0 then kthen (fileclose f) (kthen (iunlockput ip) (kthen end_op (ret (- 1)))) else
         kthen (if itype x = T_DEVICE then upd_file f (\<lambda>y. y\<lparr>ftype := FD_DEVICE, fmajor := imajor x\<rparr>)
                else upd_file f (\<lambda>y. y\<lparr>ftype := FD_INODE, foff := 0\<rparr>)) (
         kthen (upd_file f (\<lambda>y. y\<lparr>fip := ip, freadable := \<not> has_flag omode O_WRONLY,
           fwritable := (has_flag omode O_WRONLY \<or> has_flag omode O_RDWR)\<rparr>)) (
         kthen (kwhen (has_flag omode O_TRUNC \<and> itype x = T_FILE) (itrunc ip)) (
         kthen (iunlock ip) (
         kthen end_op (
         ret fd))))))))))))"

definition sys_mkdir :: "('x kfs_scheme, int) kop" where
  "sys_mkdir =
     kthen begin_op (
     kbind (argstr_local 0 MAXPATH) (\<lambda>(n, path).
     kbind (if n < 0 then ret None else create path T_DIR 0 0) (\<lambda>r.
     case r of
       None \<Rightarrow> kthen end_op (ret (- 1))
     | Some ip \<Rightarrow> kthen (iunlockput ip) (kthen end_op (ret 0)))))"

definition sys_mknod :: "('x kfs_scheme, int) kop" where
  "sys_mknod =
     kthen begin_op (
     kbind (argint 1) (\<lambda>major.
     kbind (argint 2) (\<lambda>minor.
     kbind (argstr_local 0 MAXPATH) (\<lambda>(n, path).
     kbind (if n < 0 then ret None else create path T_DEVICE (word_of_int major) (word_of_int minor)) (\<lambda>r.
     case r of
       None \<Rightarrow> kthen end_op (ret (- 1))
     | Some ip \<Rightarrow> kthen (iunlockput ip) (kthen end_op (ret 0)))))))"

definition sys_chdir :: "('x kfs_scheme, int) kop" where
  "sys_chdir =
     kbind myproc (\<lambda>mp.
     kthen begin_op (
     kbind (argstr_local 0 MAXPATH) (\<lambda>(n, path).
     kbind (if n < 0 then ret None else namei path) (\<lambda>r.
     case r of
       None \<Rightarrow> kthen end_op (ret (- 1))
     | Some ip \<Rightarrow>
         kthen (ilock ip) (
         kbind (get_inode ip) (\<lambda>x.
         if itype x \<noteq> T_DIR then kthen (iunlockput ip) (kthen end_op (ret (- 1))) else
         kthen (iunlock ip) (
         kbind (deref mp) (\<lambda>p.
         kbind (get_proc p) (\<lambda>q.
         kbind (deref (cwd q)) (\<lambda>old.
         kthen (iput old) (
         kthen end_op (
         kthen (upd_proc p (\<lambda>q. q\<lparr>cwd := Some ip\<rparr>)) (
         ret 0)))))))))))))"

definition sys_pipe :: "('x kfile_scheme, int) kop" where
  "sys_pipe =
     kbind myproc (\<lambda>mp.
     kbind (argaddr 0) (\<lambda>fdarray.
     kbind pipealloc (\<lambda>r.
     case r of None \<Rightarrow> ret (- 1) | Some (rfile, wfile) \<Rightarrow>
     kbind (fdalloc rfile) (\<lambda>fd0.
     kbind (if fd0 < 0 then ret (- 1) else fdalloc wfile) (\<lambda>fd1.
     if fd0 < 0 \<or> fd1 < 0 then
       kthen (kwhen (fd0 \<ge> 0) (set_ofile (nat fd0) None)) (
       kthen (fileclose rfile) (
       kthen (fileclose wfile) (
       ret (- 1))))
     else
     kbind (deref mp) (\<lambda>p.
     kbind (get_proc p) (\<lambda>q.
     kbind (copyout_local (pagetable q) fdarray (int_bytes fd0)) (\<lambda>c0.
     kbind (if c0 < 0 then ret (- 1) else copyout_local (pagetable q) (fdarray + 4) (int_bytes fd1)) (\<lambda>c1.
     if c1 < 0 then
       kthen (set_ofile (nat fd0) None) (
       kthen (set_ofile (nat fd1) None) (
       kthen (fileclose rfile) (
       kthen (fileclose wfile) (
       ret (- 1)))))
     else ret 0)))))))))"

end
