(* ===== verification/Xv6_Exec.thy ===== *)
theory Xv6_Exec
  imports Xv6_Sysfile
begin

text \<open>
  Process images: program loading (exec.c), fork and exit (proc.c) and their system calls. The
  argument vector of \<open>kexec\<close> is the list of the addresses of its strings in kernel memory.
\<close>

definition rd64 :: "nat \<Rightarrow> u8 list \<Rightarrow> u64" where
  "rd64 off bs = ucast (rd32 off bs) OR push_bit 32 (ucast (rd32 (off + 4) bs))"

definition word_bytes :: "u64 \<Rightarrow> u8 list" where
  "word_bytes w = map (\<lambda>i. ucast (drop_bit (8 * i) w)) [0..<8]"

section \<open>elf.h\<close>

definition ELF_MAGIC :: u32 where "ELF_MAGIC = 0x464C457F"
definition ELFHDR_SIZE :: nat where "ELFHDR_SIZE = 64"
definition PROGHDR_SIZE :: nat where "PROGHDR_SIZE = 56"
definition ELF_PROG_LOAD :: u32 where "ELF_PROG_LOAD = 1"
definition USERSTACK :: u64 where "USERSTACK = 1"

record elfhdr =
  elf_magic :: u32
  elf_entry :: u64
  elf_phoff :: u64
  elf_phnum :: u16

record proghdr =
  ph_type :: u32
  ph_flags :: u32
  ph_off :: u64
  ph_vaddr :: u64
  ph_filesz :: u64
  ph_memsz :: u64

definition decode_elfhdr :: "u8 list \<Rightarrow> elfhdr" where
  "decode_elfhdr bs = \<lparr>elf_magic = rd32 0 bs, elf_entry = rd64 24 bs, elf_phoff = rd64 32 bs, elf_phnum = rd16 56 bs\<rparr>"

definition decode_proghdr :: "u8 list \<Rightarrow> proghdr" where
  "decode_proghdr bs = \<lparr>ph_type = rd32 0 bs, ph_flags = rd32 4 bs, ph_off = rd64 8 bs, ph_vaddr = rd64 16 bs,
     ph_filesz = rd64 32 bs, ph_memsz = rd64 40 bs\<rparr>"

section \<open>exec.c\<close>

definition flags2perm :: "u32 \<Rightarrow> u64" where
  "flags2perm flags =
     (let perm = (if flags AND 1 \<noteq> 0 then PTE_X else 0) in
      if flags AND 2 \<noteq> 0 then perm OR PTE_W else perm)"

definition loadseg_page :: "u64 \<Rightarrow> u64 \<Rightarrow> nat \<Rightarrow> u32 \<Rightarrow> nat \<Rightarrow> nat \<Rightarrow> ('x kfs_scheme, unit option) kop" where
  "loadseg_page pt va ip offset nsz i =
     kbind (walkaddr pt (va + of_nat i)) (\<lambda>pa.
     if pa = 0 then panic ''loadseg: address should exist'' else
     let n = (if nsz - i < 4096 then nsz - i else 4096) in
     kbind (readi ip (To_kernel pa) (offset + of_nat i) (of_nat n)) (\<lambda>(r, _).
     if r \<noteq> int n then ret (Some ()) else ret None))"

definition loadseg :: "u64 \<Rightarrow> u64 \<Rightarrow> nat \<Rightarrow> u32 \<Rightarrow> u32 \<Rightarrow> ('x kfs_scheme, int) kop" where
  "loadseg pt va ip offset nsz =
     kbind (scan (loadseg_page pt va ip offset (unat nsz)) (map (\<lambda>k. 4096 * k) [0..<(unat nsz + 4095) div 4096])) (\<lambda>r.
     ret (if r = None then 0 else - 1))"

text \<open>
  The loop over the program headers, \<open>k\<close> of them left: whether it succeeded, and the size reached.
\<close>

fun kexec_segments :: "nat \<Rightarrow> u64 \<Rightarrow> u32 \<Rightarrow> nat \<Rightarrow> u64 \<Rightarrow> ('x kfs_scheme, bool \<times> u64) kop" where
  "kexec_segments ip pt off 0 nsz = ret (True, nsz)"
| "kexec_segments ip pt off (Suc k) nsz =
     kbind (readi ip To_local off (of_nat PROGHDR_SIZE)) (\<lambda>(r, bs).
     if r \<noteq> int PROGHDR_SIZE then ret (False, nsz) else
     let ph = decode_proghdr bs in
     if ph_type ph \<noteq> ELF_PROG_LOAD then kexec_segments ip pt (off + of_nat PROGHDR_SIZE) k nsz else
     if ph_memsz ph < ph_filesz ph then ret (False, nsz) else
     if ph_vaddr ph + ph_memsz ph < ph_vaddr ph then ret (False, nsz) else
     if ph_vaddr ph mod PGSIZE \<noteq> 0 then ret (False, nsz) else
     kbind (uvmalloc pt nsz (ph_vaddr ph + ph_memsz ph) (flags2perm (ph_flags ph))) (\<lambda>sz1.
     if sz1 = 0 then ret (False, nsz) else
     kbind (loadseg pt (ph_vaddr ph) ip (ucast (ph_off ph)) (ucast (ph_filesz ph))) (\<lambda>l.
     if l < 0 then ret (False, sz1) else
     kexec_segments ip pt (off + of_nat PROGHDR_SIZE) k sz1)))"

text \<open>The loop over the arguments: the stack pointer and \<open>ustack\<close>, or \<open>None\<close> for \<open>goto bad\<close>.\<close>

fun kexec_args :: "u64 \<Rightarrow> u64 \<Rightarrow> u64 list \<Rightarrow> u64 \<Rightarrow> u64 list \<Rightarrow> ('x kproc_scheme, (u64 \<times> u64 list) option) kop" where
  "kexec_args pt stackbase [] sp ustack = ret (Some (sp, ustack))"
| "kexec_args pt stackbase (a # as) sp ustack =
     (if length ustack \<ge> MAXARG then ret None else
      kbind (gets (\<lambda>s. strlen a (mem s))) (\<lambda>n.
      case n of None \<Rightarrow> Spin | Some n \<Rightarrow>
      let sp1 = sp - (of_nat n + 1); sp2 = sp1 - sp1 mod 16 in
      if sp2 < stackbase then ret None else
      kbind (copyout pt sp2 a (of_nat n + 1)) (\<lambda>r.
      if r < 0 then ret None else
      kexec_args pt stackbase as sp2 (ustack @ [sp2]))))"

fun last_elem :: "u8 list \<Rightarrow> u8 list \<Rightarrow> u8 list" where
  "last_elem [] lst = lst"
| "last_elem (c # cs) lst = last_elem cs (if c = SLASH then cs else lst)"

text \<open>\<open>safestrcpy(p->name, src, sizeof(p->name))\<close> on the 16 bytes of a process name.\<close>

definition set_name :: "u8 list \<Rightarrow> u8 list \<Rightarrow> u8 list" where
  "set_name src old = load_bytes (safestrcpy 0x10000 0 16 (with_strings src old)) 0x10000 16"

text \<open>After the program is loaded: stack, arguments and the commit to the new image.\<close>

definition kexec_image :: "u8 list \<Rightarrow> u64 list \<Rightarrow> nat \<Rightarrow> u64 \<Rightarrow> u64 \<Rightarrow> u64 \<Rightarrow> ('x kproc_scheme, int) kop" where
  "kexec_image path argv p pt nsz entry =
     (let sz0 = PGROUNDUP nsz in
      kbind (get_proc p) (\<lambda>q.
      kbind (uvmalloc pt sz0 (sz0 + (USERSTACK + 1) * PGSIZE) PTE_W) (\<lambda>sz1.
      if sz1 = 0 then kthen (proc_freepagetable pt sz0) (ret (- 1)) else
      kthen (uvmclear pt (sz1 - (USERSTACK + 1) * PGSIZE)) (
      let stackbase = sz1 - USERSTACK * PGSIZE in
      kbind (kexec_args pt stackbase argv sz1 []) (\<lambda>a.
      case a of None \<Rightarrow> kthen (proc_freepagetable pt sz1) (ret (- 1)) | Some (sp0, ustack) \<Rightarrow>
      let argc = length ustack; sp1 = sp0 - (of_nat argc + 1) * 8; sp2 = sp1 - sp1 mod 16 in
      if sp2 < stackbase then kthen (proc_freepagetable pt sz1) (ret (- 1)) else
      kbind (copyout_local pt sp2 (concat (map word_bytes (ustack @ [0])))) (\<lambda>r.
      if r < 0 then kthen (proc_freepagetable pt sz1) (ret (- 1)) else
      kthen (store_tf p (TF_a 1) sp2) (
      kthen (upd_proc p (\<lambda>q. q\<lparr>pname := set_name (last_elem path path) (pname q)\<rparr>)) (
      kbind (get_proc p) (\<lambda>q'.
      kthen (upd_proc p (\<lambda>q. q\<lparr>pagetable := pt, sz := sz1\<rparr>)) (
      kthen (store_tf p TF_epc entry) (
      kthen (store_tf p TF_sp sp2) (
      kthen (proc_freepagetable (pagetable q') (sz q)) (
      ret (int argc))))))))))))))"

definition kexec_bad :: "u64 \<Rightarrow> u64 \<Rightarrow> nat \<Rightarrow> ('x kfs_scheme, int) kop" where
  "kexec_bad pt nsz ip =
     kthen (kwhen (pt \<noteq> 0) (proc_freepagetable pt nsz)) (
     kthen (iunlockput ip) (
     kthen end_op (
     ret (- 1))))"

definition kexec :: "u8 list \<Rightarrow> u64 list \<Rightarrow> ('x kfs_scheme, int) kop" where
  "kexec path argv =
     kbind myproc (\<lambda>mp.
     kthen begin_op (
     kbind (namei path) (\<lambda>r.
     case r of None \<Rightarrow> kthen end_op (ret (- 1)) | Some ip \<Rightarrow>
     kthen (ilock ip) (
     kbind (readi ip To_local 0 (of_nat ELFHDR_SIZE)) (\<lambda>(r, bs).
     if r \<noteq> int ELFHDR_SIZE then kexec_bad 0 0 ip else
     let elf = decode_elfhdr bs in
     if elf_magic elf \<noteq> ELF_MAGIC then kexec_bad 0 0 ip else
     kbind (deref mp) (\<lambda>p.
     kbind (proc_pagetable p) (\<lambda>pt.
     if pt = 0 then kexec_bad 0 0 ip else
     kbind (kexec_segments ip pt (ucast (elf_phoff elf)) (unat (elf_phnum elf)) 0) (\<lambda>(ok, nsz).
     if \<not> ok then kexec_bad pt nsz ip else
     kthen (iunlockput ip) (
     kthen end_op (
     kbind myproc (\<lambda>mp.
     kbind (deref mp) (\<lambda>p.
     kexec_image path argv p pt nsz (elf_entry elf)))))))))))))"

section \<open>sys_exec\<close>

text \<open>The loop fetching the arguments, \<open>k\<close> places of \<open>argv\<close> left: success, and the pages allocated.\<close>

fun sys_exec_args :: "u64 \<Rightarrow> nat \<Rightarrow> u64 list \<Rightarrow> ('x kproc_scheme, bool \<times> u64 list) kop" where
  "sys_exec_args uargv 0 argv = ret (False, argv)"
| "sys_exec_args uargv (Suc k) argv =
     kbind (fetchaddr (uargv + 8 * of_nat (length argv))) (\<lambda>(r, uarg).
     if r < 0 then ret (False, argv) else
     if uarg = 0 then ret (True, argv) else
     kbind kalloc (\<lambda>pg.
     if pg = 0 then ret (False, argv) else
     kbind (fetchstr uarg pg 4096) (\<lambda>n.
     if n < 0 then ret (False, argv @ [pg]) else
     sys_exec_args uargv k (argv @ [pg]))))"

definition sys_exec :: "('x kfs_scheme, int) kop" where
  "sys_exec =
     kbind (argaddr 1) (\<lambda>uargv.
     kbind (argstr_local 0 MAXPATH) (\<lambda>(n, path).
     if n < 0 then ret (- 1) else
     kbind (sys_exec_args uargv MAXARG []) (\<lambda>(ok, argv).
     kbind (if ok then kexec path argv else ret (- 1)) (\<lambda>r.
     kthen (for_each kfree argv) (
     ret r)))))"

section \<open>proc.c: fork and exit\<close>

text \<open>\<open>*(np->trapframe) = *(p->trapframe)\<close>: 36 registers of 8 bytes.\<close>

definition copy_trapframe :: "nat \<Rightarrow> nat \<Rightarrow> ('x kproc_scheme, unit) kop" where
  "copy_trapframe np p =
     kbind (get_proc np) (\<lambda>d.
     kbind (get_proc p) (\<lambda>q.
     upd_mem (memmove (trapframe d) (trapframe q) 288)))"

definition kfork_fd :: "nat \<Rightarrow> nat \<Rightarrow> nat \<Rightarrow> ('x kfile_scheme, unit) kop" where
  "kfork_fd p np i =
     kbind (get_proc p) (\<lambda>q.
     case ofile q i of
       None \<Rightarrow> ret ()
     | Some f \<Rightarrow>
         kbind (filedup f) (\<lambda>f'.
         upd_proc np (\<lambda>d. d\<lparr>ofile := (ofile d)(i := Some f')\<rparr>)))"

definition kfork :: "('x kfile_scheme, int) kop" where
  "kfork =
     kbind myproc (\<lambda>mp.
     kbind allocproc (\<lambda>r.
     case r of None \<Rightarrow> ret (- 1) | Some np \<Rightarrow>
     kbind (deref mp) (\<lambda>p.
     kbind (get_proc p) (\<lambda>q.
     kbind (get_proc np) (\<lambda>d.
     kbind (uvmcopy (pagetable q) (pagetable d) (sz q)) (\<lambda>c.
     if c < 0 then kthen (freeproc np) (kthen (release (L_proc np)) (ret (- 1))) else
     kthen (upd_proc np (\<lambda>d. d\<lparr>sz := sz q\<rparr>)) (
     kthen (copy_trapframe np p) (
     kthen (store_tf np (TF_a 0) 0) (
     kthen (for_each (kfork_fd p np) [0..<NOFILE]) (
     kbind (deref (cwd q)) (\<lambda>w.
     kbind (idup w) (\<lambda>w'.
     kthen (upd_proc np (\<lambda>d. d\<lparr>cwd := Some w', pname := set_name (takeWhile (\<lambda>c. c \<noteq> 0) (pname q)) (pname d)\<rparr>)) (
     kbind (get_proc np) (\<lambda>d.
     kthen (release (L_proc np)) (
     kthen (acquire L_wait) (
     kthen (upd_proc np (\<lambda>d. d\<lparr>parent := Some p\<rparr>)) (
     kthen (release L_wait) (
     kthen (acquire (L_proc np)) (
     kthen (upd_proc np (\<lambda>d. d\<lparr>state := RUNNABLE\<rparr>)) (
     kthen (release (L_proc np)) (
     ret (pid d))))))))))))))))))))))"

definition kexit_fd :: "nat \<Rightarrow> nat \<Rightarrow> ('x kfile_scheme, unit) kop" where
  "kexit_fd p fd =
     kbind (get_proc p) (\<lambda>q.
     case ofile q fd of
       None \<Rightarrow> ret ()
     | Some f \<Rightarrow>
         kthen (fileclose f) (
         upd_proc p (\<lambda>q. q\<lparr>ofile := (ofile q)(fd := None)\<rparr>)))"

text \<open>The first half of \<open>kexit\<close>: the process gives up its files and its directory.\<close>

definition kexit_close :: "nat \<Rightarrow> ('x kfile_scheme, unit) kop" where
  "kexit_close p =
     kthen (for_each (kexit_fd p) [0..<NOFILE]) (
     kthen begin_op (
     kbind (get_proc p) (\<lambda>q.
     kbind (deref (cwd q)) (\<lambda>w.
     kthen (iput w) (
     kthen end_op (
     upd_proc p (\<lambda>q. q\<lparr>cwd := None\<rparr>)))))))"

definition parent_chan :: "nat option \<Rightarrow> wchan" where
  "parent_chan pp = (case pp of None \<Rightarrow> Chan_none | Some q \<Rightarrow> Chan_proc q)"

text \<open>After its files are closed: the process becomes a zombie and switches to the scheduler for good.\<close>

definition kexit_final :: "nat \<Rightarrow> int \<Rightarrow> ('x kproc_scheme, unit) kop" where
  "kexit_final p status =
     kthen (acquire L_wait) (
     kthen (reparent p) (
     kbind (get_proc p) (\<lambda>q.
     kthen (wakeup (parent_chan (parent q))) (
     kthen (acquire (L_proc p)) (
     kthen (upd_proc p (\<lambda>q. q\<lparr>xstate := status, state := ZOMBIE\<rparr>)) (
     kthen (release L_wait) (
     kthen sched (
     panic ''zombie exit''))))))))"

definition kexit :: "int \<Rightarrow> ('x kfile_scheme, unit) kop" where
  "kexit status =
     kbind myproc (\<lambda>mp.
     kbind (gets initproc) (\<lambda>ip.
     if mp = ip then panic ''init exiting'' else
     kbind (deref mp) (\<lambda>p.
     kthen (kexit_close p) (
     kexit_final p status))))"

definition userinit :: "('x kfs_scheme, unit) kop" where
  "userinit =
     kbind allocproc (\<lambda>r.
     kthen (modify (\<lambda>s. s\<lparr>initproc := r\<rparr>)) (
     kbind (namei [SLASH]) (\<lambda>w.
     kbind (deref r) (\<lambda>p.
     kthen (upd_proc p (\<lambda>q. q\<lparr>cwd := w\<rparr>)) (
     kthen (upd_proc p (\<lambda>q. q\<lparr>state := RUNNABLE\<rparr>)) (
     release (L_proc p)))))))"

definition sys_exit :: "('x kfile_scheme, u64) kop" where
  "sys_exit = kbind (argint 0) (\<lambda>n. kthen (kexit n) (ret 0))"

definition sys_fork :: "('x kfile_scheme, u64) kop" where
  "sys_fork = kbind kfork (\<lambda>r. ret (word_of_int r))"

end
