(* ===== verification/Xv6_Trap.thy ===== *)
theory Xv6_Trap
  imports Xv6_Exec
begin

text \<open>
  Traps and system call dispatch (trap.c, syscall.c), the first return to user space (\<open>forkret\<close>) and the
  interrupt controller (plic.c). The control registers of a hart are fields indexed by the hart number.
\<close>

record ktrap = kfile +
  scause :: "nat \<Rightarrow> u64"
  sepc :: "nat \<Rightarrow> u64"
  stval :: "nat \<Rightarrow> u64"
  stvec :: "nat \<Rightarrow> u64"
  stimecmp :: "nat \<Rightarrow> u64"
  rtime :: u64
  plic_pending :: "nat \<Rightarrow> int"
  plic_priority :: "int \<Rightarrow> u32"
  plic_enable :: "nat \<Rightarrow> u32"
  plic_threshold :: "nat \<Rightarrow> u32"
  tx_idle :: bool
  uservec_off :: u64
  usertrap_pc :: u64
  kernelvec_pc :: u64
  forkret_first :: bool
  init_str :: u64

definition UART0_IRQ :: int where "UART0_IRQ = 10"
definition VIRTIO0_IRQ :: int where "VIRTIO0_IRQ = 1"

definition get_csr :: "('x ktrap_scheme \<Rightarrow> nat \<Rightarrow> u64) \<Rightarrow> ('x ktrap_scheme, u64) kop" where
  "get_csr f = gets (\<lambda>s. f s (tp s))"

definition w_stvec :: "u64 \<Rightarrow> ('x ktrap_scheme, unit) kop" where
  "w_stvec v = modify (\<lambda>s. s\<lparr>stvec := (stvec s)(tp s := v)\<rparr>)"

definition w_sepc :: "u64 \<Rightarrow> ('x ktrap_scheme, unit) kop" where
  "w_sepc v = modify (\<lambda>s. s\<lparr>sepc := (sepc s)(tp s := v)\<rparr>)"

definition r_sstatus :: "('x kernel_scheme, u64) kop" where
  "r_sstatus = gets (\<lambda>s. sstatus s (tp s))"

definition w_sstatus :: "u64 \<Rightarrow> ('x kernel_scheme, unit) kop" where
  "w_sstatus v = modify (\<lambda>s. s\<lparr>sstatus := (sstatus s)(tp s := v)\<rparr>)"

section \<open>syscall.c: dispatch\<close>

definition as_u64 :: "('s, int) kop \<Rightarrow> ('s, u64) kop" where
  "as_u64 m = kbind m (\<lambda>r. ret (word_of_int r))"

definition NSYSCALLS :: int where "NSYSCALLS = 25"

text \<open>The table \<open>syscalls\<close>: every number from 1 to 24 has an entry.\<close>

definition syscalls :: "int \<Rightarrow> ('x kfile_scheme, u64) kop option" where
  "syscalls num =
     (if num = 1 then Some sys_fork
      else if num = 2 then Some sys_exit
      else if num = 3 then Some sys_wait
      else if num = 4 then Some (as_u64 sys_pipe)
      else if num = 5 then Some (as_u64 sys_read)
      else if num = 6 then Some sys_kill
      else if num = 7 then Some (as_u64 sys_exec)
      else if num = 8 then Some (as_u64 sys_fstat)
      else if num = 9 then Some (as_u64 sys_chdir)
      else if num = 10 then Some (as_u64 sys_dup)
      else if num = 11 then Some sys_getpid
      else if num = 12 then Some sys_sbrk
      else if num = 13 then Some sys_pause
      else if num = 14 then Some sys_uptime
      else if num = 15 then Some (as_u64 sys_open)
      else if num = 16 then Some (as_u64 sys_write)
      else if num = 17 then Some (as_u64 sys_mknod)
      else if num = 18 then Some (as_u64 sys_unlink)
      else if num = 19 then Some (as_u64 sys_link)
      else if num = 20 then Some (as_u64 sys_mkdir)
      else if num = 21 then Some (as_u64 sys_close)
      else if num = 22 then Some sys_sync
      else if num = 23 then Some sys_getidade
      else if num = 24 then Some sys_getppid
      else None)"

definition syscall :: "('x kfile_scheme, unit) kop" where
  "syscall =
     kbind myproc (\<lambda>mp.
     kbind (deref mp) (\<lambda>p.
     kbind (load_tf p (TF_a 7)) (\<lambda>a7.
     let num = i32 (uint a7) in
     case (if num > 0 \<and> num < NSYSCALLS then syscalls num else None) of
       Some f \<Rightarrow> kbind f (\<lambda>r. store_tf p (TF_a 0) r)
     | None \<Rightarrow>
         kbind (get_proc p) (\<lambda>q.
         kthen (printk (''%d %s: unknown sys call %d'' @ [CHR 0x0A]) [Num (word_of_int (pid q)),
           Str (Some (map unat (takeWhile (\<lambda>c. c \<noteq> 0) (pname q)))), Num (word_of_int num)]) (
         store_tf p (TF_a 0) (- 1))))))"

section \<open>plic.c\<close>

definition plicinit :: "('x ktrap_scheme, unit) kop" where
  "plicinit = modify (\<lambda>s. s\<lparr>plic_priority := (plic_priority s)(UART0_IRQ := 1, VIRTIO0_IRQ := 1)\<rparr>)"

definition plicinithart :: "('x ktrap_scheme, unit) kop" where
  "plicinithart =
     kbind cpuid (\<lambda>hart.
     kthen (modify (\<lambda>s. s\<lparr>plic_enable := (plic_enable s)(hart := push_bit (nat UART0_IRQ) 1 OR push_bit (nat VIRTIO0_IRQ) 1)\<rparr>)) (
     modify (\<lambda>s. s\<lparr>plic_threshold := (plic_threshold s)(hart := 0)\<rparr>)))"

definition plic_claim :: "('x ktrap_scheme, int) kop" where
  "plic_claim = kbind cpuid (\<lambda>hart. gets (\<lambda>s. plic_pending s hart))"

definition plic_complete :: "int \<Rightarrow> ('x ktrap_scheme, unit) kop" where
  "plic_complete irq =
     kbind cpuid (\<lambda>hart.
     modify (\<lambda>s. if plic_pending s hart = irq then s\<lparr>plic_pending := (plic_pending s)(hart := 0)\<rparr> else s))"

section \<open>trap.c\<close>

definition trapinit :: "('x ktrap_scheme, unit) kop" where
  "trapinit = initlock L_ticks ''time''"

definition trapinithart :: "('x ktrap_scheme, unit) kop" where
  "trapinithart = kbind (gets kernelvec_pc) w_stvec"

definition clockintr :: "('x ktrap_scheme, unit) kop" where
  "clockintr =
     kbind cpuid (\<lambda>c.
     kthen (kwhen (c = 0) (
       kthen (acquire L_ticks) (
       kthen (modify (\<lambda>s. s\<lparr>ticks := ticks s + 1\<rparr>)) (
       kthen (wakeup Chan_ticks) (
       release L_ticks))))) (
     modify (\<lambda>s. s\<lparr>stimecmp := (stimecmp s)(tp s := rtime s + 1000000)\<rparr>)))"

definition devintr :: "('x ktrap_scheme, int) kop" where
  "devintr =
     kbind (get_csr scause) (\<lambda>c.
     if c = 0x8000000000000009 then
       kbind plic_claim (\<lambda>irq.
       kthen (if irq = UART0_IRQ then kbind (gets tx_idle) uartintr
              else if irq = VIRTIO0_IRQ then virtio_disk_intr
              else kwhen (irq \<noteq> 0) (printk (''unexpected interrupt irq=%d'' @ [CHR 0x0A]) [Num (word_of_int irq)])) (
       kthen (kwhen (irq \<noteq> 0) (plic_complete irq)) (
       ret 1)))
     else if c = 0x8000000000000005 then
       kthen clockintr (ret 2)
     else ret 0)"

definition prepare_return :: "('x ktrap_scheme, unit) kop" where
  "prepare_return =
     kbind myproc (\<lambda>mp.
     kthen intr_off (
     kbind (gets (\<lambda>s. TRAMPOLINE + uservec_off s)) (\<lambda>tv.
     kthen (w_stvec tv) (
     kbind (deref mp) (\<lambda>p.
     kbind (get_proc p) (\<lambda>q.
     kbind (gets (\<lambda>s. satp s (tp s))) (\<lambda>sa.
     kthen (store_tf p TF_kernel_satp sa) (
     kthen (store_tf p TF_kernel_sp (kstack q + PGSIZE)) (
     kbind (gets usertrap_pc) (\<lambda>ut.
     kthen (store_tf p TF_kernel_trap ut) (
     kbind (gets tp) (\<lambda>h.
     kthen (store_tf p TF_kernel_hartid (of_nat h)) (
     kbind r_sstatus (\<lambda>x.
     kthen (w_sstatus ((x AND NOT SSTATUS_SPP) OR SSTATUS_SPIE)) (
     kbind (load_tf p TF_epc) w_sepc)))))))))))))))"

definition usertrap :: "('x ktrap_scheme, u64) kop" where
  "usertrap =
     kbind r_sstatus (\<lambda>x.
     if x AND SSTATUS_SPP \<noteq> 0 then panic ''usertrap: not from user mode'' else
     kbind (gets kernelvec_pc) (\<lambda>kv.
     kthen (w_stvec kv) (
     kbind myproc (\<lambda>mp.
     kbind (deref mp) (\<lambda>p.
     kbind (get_csr sepc) (\<lambda>pc.
     kthen (store_tf p TF_epc pc) (
     kbind (get_csr scause) (\<lambda>c.
     kbind (
       if c = 8 then
         kbind (killed p) (\<lambda>k.
         kthen (kwhen (k \<noteq> 0) (kexit (- 1))) (
         kbind (load_tf p TF_epc) (\<lambda>e.
         kthen (store_tf p TF_epc (e + 4)) (
         kthen intr_on (
         kthen syscall (
         ret 0))))))
       else
         kbind devintr (\<lambda>d.
         if d \<noteq> 0 then ret d else
         kbind (get_csr scause) (\<lambda>c.
         kbind (get_csr stval) (\<lambda>va.
         kbind (get_proc p) (\<lambda>q.
         kbind (if c = 15 \<or> c = 13 then vmfault (pagetable q) va (c = 13) else ret 0) (\<lambda>pa.
         if pa \<noteq> 0 then ret 0 else
         kbind (get_csr sepc) (\<lambda>pc.
         kthen (printk (''usertrap(): unexpected scause 0x%lx pid=%d'' @ [CHR 0x0A]) [Num c, Num (word_of_int (pid q))]) (
         kthen (printk (''            sepc=0x%lx stval=0x%lx'' @ [CHR 0x0A]) [Num pc, Num va]) (
         kthen (setkilled p) (
         ret 0)))))))))) (\<lambda>which_dev.
     kbind (killed p) (\<lambda>k.
     kthen (kwhen (k \<noteq> 0) (kexit (- 1))) (
     kthen (kwhen (which_dev = 2) yield) (
     kthen prepare_return (
     kbind (get_proc p) (\<lambda>q.
     ret (MAKE_SATP (pagetable q))))))))))))))))"

definition kerneltrap :: "('x ktrap_scheme, unit) kop" where
  "kerneltrap =
     kbind (get_csr sepc) (\<lambda>pc.
     kbind r_sstatus (\<lambda>x.
     kbind (get_csr scause) (\<lambda>c.
     if x AND SSTATUS_SPP = 0 then panic ''kerneltrap: not from supervisor mode'' else
     kbind intr_get (\<lambda>on.
     if on then panic ''kerneltrap: interrupts enabled'' else
     kbind devintr (\<lambda>which_dev.
     if which_dev = 0 then
       kbind (get_csr sepc) (\<lambda>pc'.
       kbind (get_csr stval) (\<lambda>va.
       kthen (printk (''scause=0x%lx sepc=0x%lx stval=0x%lx'' @ [CHR 0x0A]) [Num c, Num pc', Num va]) (
       panic ''kerneltrap'')))
     else
     kbind (if which_dev = 2 then myproc else ret None) (\<lambda>mp.
     kthen (kwhen (which_dev = 2 \<and> mp \<noteq> None) yield) (
     kthen (w_sepc pc) (
     w_sstatus x))))))))"

text \<open>\<open>forkret\<close> of proc.c, up to the jump into the trampoline; the result is the page table to switch to.\<close>

definition forkret :: "('x ktrap_scheme, u64) kop" where
  "forkret =
     kbind myproc (\<lambda>mp.
     kbind (deref mp) (\<lambda>p.
     kthen (release (L_proc p)) (
     kbind (gets forkret_first) (\<lambda>first.
     kthen (kwhen first (
       kthen (fsinit ROOTDEV) (
       kthen (modify (\<lambda>s. s\<lparr>forkret_first := False\<rparr>)) (
       kbind (gets init_str) (\<lambda>a.
       kbind (kexec [47, 105, 110, 105, 116] [a]) (\<lambda>r.
       kthen (store_tf p (TF_a 0) (word_of_int r)) (
       kbind (load_tf p (TF_a 0)) (\<lambda>v.
       kwhen (v = - 1) (panic ''exec''))))))))) (
     kthen prepare_return (
     kbind (get_proc p) (\<lambda>q.
     ret (MAKE_SATP (pagetable q)))))))))"

end
