(* ===== verification/Xv6_Boot.thy ===== *)
theory Xv6_Boot
  imports Xv6_Trap Xv6_Pipe
begin

text \<open>
  Boot: machine-mode setup (start.c), the initialisation of the UART (uart.c) and of the disk device
  (\<open>virtio_disk_init\<close>), and \<open>main\<close>. Device registers are kept as the history of the writes to them; what a
  read of a device register returns is the device's answer to that history, a field of the state.
\<close>

record mregs =
  mstatus :: u64
  mepc :: u64
  medeleg :: u64
  mideleg :: u64
  sie :: u64
  pmpaddr0 :: u64
  pmpcfg0 :: u64
  menvcfg :: u64
  mcounteren :: u64
  mhartid :: nat
  priv_s :: bool

record kboot = ktrap +
  mach :: "nat \<Rightarrow> mregs"
  main_pc :: u64
  uart_regs :: "(nat \<times> u8) list"
  vio_writes :: "(nat \<times> u32) list"
  vio_read :: "(nat \<times> u32) list \<Rightarrow> nat \<Rightarrow> u32"
  started :: bool

section \<open>start.c\<close>

definition MSTATUS_MPP_MASK :: u64 where "MSTATUS_MPP_MASK = push_bit 11 3"
definition MSTATUS_MPP_S :: u64 where "MSTATUS_MPP_S = push_bit 11 1"
definition SIE_SEIE :: u64 where "SIE_SEIE = push_bit 9 1"
definition SIE_STIE :: u64 where "SIE_STIE = push_bit 5 1"

text \<open>The register accessors of riscv.h that \<open>start\<close> uses, on the hart \<open>h\<close> that runs.\<close>

definition upd_m :: "nat \<Rightarrow> (mregs \<Rightarrow> mregs) \<Rightarrow> ('x kboot_scheme, unit) kop" where
  "upd_m h f = modify (\<lambda>s. s\<lparr>mach := (mach s)(h := f (mach s h))\<rparr>)"

definition r_mhartid :: "nat \<Rightarrow> ('x kboot_scheme, nat) kop" where
  "r_mhartid h = gets (\<lambda>s. mhartid (mach s h))"

definition r_mstatus :: "nat \<Rightarrow> ('x kboot_scheme, u64) kop" where
  "r_mstatus h = gets (\<lambda>s. mstatus (mach s h))"

definition w_mstatus :: "nat \<Rightarrow> u64 \<Rightarrow> ('x kboot_scheme, unit) kop" where
  "w_mstatus h x = upd_m h (\<lambda>m. m\<lparr>mstatus := x\<rparr>)"

definition w_mepc :: "nat \<Rightarrow> u64 \<Rightarrow> ('x kboot_scheme, unit) kop" where
  "w_mepc h x = upd_m h (\<lambda>m. m\<lparr>mepc := x\<rparr>)"

definition w_medeleg :: "nat \<Rightarrow> u64 \<Rightarrow> ('x kboot_scheme, unit) kop" where
  "w_medeleg h x = upd_m h (\<lambda>m. m\<lparr>medeleg := x\<rparr>)"

definition w_mideleg :: "nat \<Rightarrow> u64 \<Rightarrow> ('x kboot_scheme, unit) kop" where
  "w_mideleg h x = upd_m h (\<lambda>m. m\<lparr>mideleg := x\<rparr>)"

definition r_sie :: "nat \<Rightarrow> ('x kboot_scheme, u64) kop" where
  "r_sie h = gets (\<lambda>s. sie (mach s h))"

definition w_sie :: "nat \<Rightarrow> u64 \<Rightarrow> ('x kboot_scheme, unit) kop" where
  "w_sie h x = upd_m h (\<lambda>m. m\<lparr>sie := x\<rparr>)"

definition w_pmpaddr0 :: "nat \<Rightarrow> u64 \<Rightarrow> ('x kboot_scheme, unit) kop" where
  "w_pmpaddr0 h x = upd_m h (\<lambda>m. m\<lparr>pmpaddr0 := x\<rparr>)"

definition w_pmpcfg0 :: "nat \<Rightarrow> u64 \<Rightarrow> ('x kboot_scheme, unit) kop" where
  "w_pmpcfg0 h x = upd_m h (\<lambda>m. m\<lparr>pmpcfg0 := x\<rparr>)"

definition r_menvcfg :: "nat \<Rightarrow> ('x kboot_scheme, u64) kop" where
  "r_menvcfg h = gets (\<lambda>s. menvcfg (mach s h))"

definition w_menvcfg :: "nat \<Rightarrow> u64 \<Rightarrow> ('x kboot_scheme, unit) kop" where
  "w_menvcfg h x = upd_m h (\<lambda>m. m\<lparr>menvcfg := x\<rparr>)"

definition r_mcounteren :: "nat \<Rightarrow> ('x kboot_scheme, u64) kop" where
  "r_mcounteren h = gets (\<lambda>s. mcounteren (mach s h))"

definition w_mcounteren :: "nat \<Rightarrow> u64 \<Rightarrow> ('x kboot_scheme, unit) kop" where
  "w_mcounteren h x = upd_m h (\<lambda>m. m\<lparr>mcounteren := x\<rparr>)"

definition w_satp :: "nat \<Rightarrow> u64 \<Rightarrow> ('x kboot_scheme, unit) kop" where
  "w_satp h x = modify (\<lambda>s. s\<lparr>satp := (satp s)(h := x)\<rparr>)"

definition w_stimecmp :: "nat \<Rightarrow> u64 \<Rightarrow> ('x kboot_scheme, unit) kop" where
  "w_stimecmp h x = modify (\<lambda>s. s\<lparr>stimecmp := (stimecmp s)(h := x)\<rparr>)"

definition r_time :: "('x kboot_scheme, u64) kop" where
  "r_time = gets rtime"

definition w_tp :: "nat \<Rightarrow> ('x kboot_scheme, unit) kop" where
  "w_tp x = modify (\<lambda>s. s\<lparr>tp := x\<rparr>)"

definition timerinit :: "nat \<Rightarrow> ('x kboot_scheme, unit) kop" where
  "timerinit h =
     kbind (r_menvcfg h) (\<lambda>e.
     kthen (w_menvcfg h (e OR push_bit 63 1)) (
     kbind (r_mcounteren h) (\<lambda>c.
     kthen (w_mcounteren h (c OR 2)) (
     kbind r_time (\<lambda>now.
     w_stimecmp h (now + 1000000))))))"

text \<open>\<open>mret\<close>: supervisor mode if the previous-privilege field says so; the hart goes on at \<open>mepc\<close>.\<close>

definition mret :: "nat \<Rightarrow> ('x kboot_scheme, u64) kop" where
  "mret h =
     kthen (upd_m h (\<lambda>m. m\<lparr>priv_s := (mstatus m AND MSTATUS_MPP_MASK = MSTATUS_MPP_S)\<rparr>)) (
     gets (\<lambda>s. mepc (mach s h)))"

text \<open>The result of \<open>start\<close> is the address at which the hart goes on.\<close>

definition start :: "nat \<Rightarrow> ('x kboot_scheme, u64) kop" where
  "start h =
     kbind (r_mstatus h) (\<lambda>x.
     kthen (w_mstatus h ((x AND NOT MSTATUS_MPP_MASK) OR MSTATUS_MPP_S)) (
     kbind (gets main_pc) (\<lambda>pc.
     kthen (w_mepc h pc) (
     kthen (w_satp h 0) (
     kthen (w_medeleg h 0xffff) (
     kthen (w_mideleg h 0xffff) (
     kbind (r_sie h) (\<lambda>e.
     kthen (w_sie h (e OR SIE_SEIE OR SIE_STIE)) (
     kthen (w_pmpaddr0 h 0x3fffffffffffff) (
     kthen (w_pmpcfg0 h 0xf) (
     kthen (timerinit h) (
     kbind (r_mhartid h) (\<lambda>i.
     kthen (w_tp i) (
     mret h))))))))))))))"

section \<open>uart.c: uartinit, console.c: consoleinit\<close>

definition WriteReg :: "nat \<Rightarrow> u8 \<Rightarrow> ('x kboot_scheme, unit) kop" where
  "WriteReg reg v = modify (\<lambda>s. s\<lparr>uart_regs := uart_regs s @ [(reg, v)]\<rparr>)"

definition UART_IER :: nat where "UART_IER = 1"
definition UART_FCR :: nat where "UART_FCR = 2"
definition UART_LCR :: nat where "UART_LCR = 3"

definition uartinit :: "('x kboot_scheme, unit) kop" where
  "uartinit =
     kthen (WriteReg UART_IER 0) (
     kthen (WriteReg UART_LCR 0x80) (
     kthen (WriteReg 0 3) (
     kthen (WriteReg 1 0) (
     kthen (WriteReg UART_LCR 3) (
     kthen (WriteReg UART_FCR 7) (
     kthen (WriteReg UART_IER 3) (
     initlock L_uart ''uart'')))))))"

definition consoleinit :: "('x kboot_scheme, unit) kop" where
  "consoleinit =
     kthen (initlock L_cons ''cons'') (
     kthen uartinit (
     modify (\<lambda>s. s\<lparr>devsw := (devsw s)(CONSOLE := Some Dev_console)\<rparr>)))"

section \<open>virtio_disk.c: virtio_disk_init\<close>

definition VIRTIO_MMIO_MAGIC_VALUE :: nat where "VIRTIO_MMIO_MAGIC_VALUE = 0x000"
definition VIRTIO_MMIO_VERSION :: nat where "VIRTIO_MMIO_VERSION = 0x004"
definition VIRTIO_MMIO_DEVICE_ID :: nat where "VIRTIO_MMIO_DEVICE_ID = 0x008"
definition VIRTIO_MMIO_VENDOR_ID :: nat where "VIRTIO_MMIO_VENDOR_ID = 0x00c"
definition VIRTIO_MMIO_DEVICE_FEATURES :: nat where "VIRTIO_MMIO_DEVICE_FEATURES = 0x010"
definition VIRTIO_MMIO_DRIVER_FEATURES :: nat where "VIRTIO_MMIO_DRIVER_FEATURES = 0x020"
definition VIRTIO_MMIO_QUEUE_SEL :: nat where "VIRTIO_MMIO_QUEUE_SEL = 0x030"
definition VIRTIO_MMIO_QUEUE_NUM_MAX :: nat where "VIRTIO_MMIO_QUEUE_NUM_MAX = 0x034"
definition VIRTIO_MMIO_QUEUE_NUM :: nat where "VIRTIO_MMIO_QUEUE_NUM = 0x038"
definition VIRTIO_MMIO_QUEUE_READY :: nat where "VIRTIO_MMIO_QUEUE_READY = 0x044"
definition VIRTIO_MMIO_STATUS :: nat where "VIRTIO_MMIO_STATUS = 0x070"
definition VIRTIO_MMIO_QUEUE_DESC_LOW :: nat where "VIRTIO_MMIO_QUEUE_DESC_LOW = 0x080"
definition VIRTIO_MMIO_QUEUE_DESC_HIGH :: nat where "VIRTIO_MMIO_QUEUE_DESC_HIGH = 0x084"
definition VIRTIO_MMIO_DRIVER_DESC_LOW :: nat where "VIRTIO_MMIO_DRIVER_DESC_LOW = 0x090"
definition VIRTIO_MMIO_DRIVER_DESC_HIGH :: nat where "VIRTIO_MMIO_DRIVER_DESC_HIGH = 0x094"
definition VIRTIO_MMIO_DEVICE_DESC_LOW :: nat where "VIRTIO_MMIO_DEVICE_DESC_LOW = 0x0a0"
definition VIRTIO_MMIO_DEVICE_DESC_HIGH :: nat where "VIRTIO_MMIO_DEVICE_DESC_HIGH = 0x0a4"

definition vread :: "nat \<Rightarrow> ('x kboot_scheme, u32) kop" where
  "vread reg = gets (\<lambda>s. vio_read s (vio_writes s) reg)"

definition vwrite :: "nat \<Rightarrow> u32 \<Rightarrow> ('x kboot_scheme, unit) kop" where
  "vwrite reg v = modify (\<lambda>s. s\<lparr>vio_writes := vio_writes s @ [(reg, v)]\<rparr>)"

definition VIRTIO_CONFIG_S_ACKNOWLEDGE :: u32 where "VIRTIO_CONFIG_S_ACKNOWLEDGE = 1"
definition VIRTIO_CONFIG_S_DRIVER :: u32 where "VIRTIO_CONFIG_S_DRIVER = 2"
definition VIRTIO_CONFIG_S_DRIVER_OK :: u32 where "VIRTIO_CONFIG_S_DRIVER_OK = 4"
definition VIRTIO_CONFIG_S_FEATURES_OK :: u32 where "VIRTIO_CONFIG_S_FEATURES_OK = 8"

text \<open>The features the driver does not accept: RO, SCSI, CONFIG_WCE, MQ, ANY_LAYOUT, EVENT_IDX, INDIRECT_DESC.\<close>

definition no_features :: "nat list" where
  "no_features = [5, 7, 11, 12, 27, 29, 28]"

definition negotiate :: "u32 \<Rightarrow> u32" where
  "negotiate features = fold (\<lambda>b f. f AND NOT (push_bit b 1)) no_features features"

definition vio_handshake :: "('x kboot_scheme, u32) kop" where
  "vio_handshake =
     kbind (vread VIRTIO_MMIO_MAGIC_VALUE) (\<lambda>magic.
     kbind (vread VIRTIO_MMIO_VERSION) (\<lambda>version.
     kbind (vread VIRTIO_MMIO_DEVICE_ID) (\<lambda>device.
     kbind (vread VIRTIO_MMIO_VENDOR_ID) (\<lambda>vendor.
     if magic \<noteq> 0x74726976 \<or> version \<noteq> 2 \<or> device \<noteq> 2 \<or> vendor \<noteq> 0x554d4551
     then panic ''could not find virtio disk''
     else
     kthen (vwrite VIRTIO_MMIO_STATUS 0) (
     kthen (vwrite VIRTIO_MMIO_STATUS VIRTIO_CONFIG_S_ACKNOWLEDGE) (
     kthen (vwrite VIRTIO_MMIO_STATUS (VIRTIO_CONFIG_S_ACKNOWLEDGE OR VIRTIO_CONFIG_S_DRIVER)) (
     kbind (vread VIRTIO_MMIO_DEVICE_FEATURES) (\<lambda>features.
     kthen (vwrite VIRTIO_MMIO_DRIVER_FEATURES (negotiate features)) (
     kthen (vwrite VIRTIO_MMIO_STATUS (VIRTIO_CONFIG_S_ACKNOWLEDGE OR VIRTIO_CONFIG_S_DRIVER OR VIRTIO_CONFIG_S_FEATURES_OK)) (
     kbind (vread VIRTIO_MMIO_STATUS) (\<lambda>status.
     if status AND VIRTIO_CONFIG_S_FEATURES_OK = 0 then panic ''virtio disk FEATURES_OK unset''
     else ret status)))))))))))"

definition vio_queue :: "('x kboot_scheme, unit) kop" where
  "vio_queue =
     kthen (vwrite VIRTIO_MMIO_QUEUE_SEL 0) (
     kbind (vread VIRTIO_MMIO_QUEUE_READY) (\<lambda>ready.
     if ready \<noteq> 0 then panic ''virtio disk should not be ready'' else
     kbind (vread VIRTIO_MMIO_QUEUE_NUM_MAX) (\<lambda>mx.
     if mx = 0 then panic ''virtio disk has no queue 0''
     else if mx < of_nat NUM then panic ''virtio disk max queue too short''
     else
     kbind kalloc (\<lambda>desc.
     kbind kalloc (\<lambda>avail.
     kbind kalloc (\<lambda>used.
     if desc = 0 \<or> avail = 0 \<or> used = 0 then panic ''virtio disk kalloc'' else
     kthen (upd_mem (memset desc 0 (ucast PGSIZE))) (
     kthen (upd_mem (memset avail 0 (ucast PGSIZE))) (
     kthen (upd_mem (memset used 0 (ucast PGSIZE))) (
     kthen (modify (\<lambda>s. s\<lparr>vdesc := (\<lambda>_. \<lparr>d_addr = Dma_null, d_len = 0, d_flags = 0, d_next = 0\<rparr>), avail_idx := 0, avail_ring := (\<lambda>_. 0),
        used_dev_idx := 0, used_ring := (\<lambda>_. 0)\<rparr>)) (
     kthen (vwrite VIRTIO_MMIO_QUEUE_NUM (of_nat NUM)) (
     kthen (vwrite VIRTIO_MMIO_QUEUE_DESC_LOW (ucast desc)) (
     kthen (vwrite VIRTIO_MMIO_QUEUE_DESC_HIGH (ucast (drop_bit 32 desc))) (
     kthen (vwrite VIRTIO_MMIO_DRIVER_DESC_LOW (ucast avail)) (
     kthen (vwrite VIRTIO_MMIO_DRIVER_DESC_HIGH (ucast (drop_bit 32 avail))) (
     kthen (vwrite VIRTIO_MMIO_DEVICE_DESC_LOW (ucast used)) (
     kthen (vwrite VIRTIO_MMIO_DEVICE_DESC_HIGH (ucast (drop_bit 32 used))) (
     vwrite VIRTIO_MMIO_QUEUE_READY 1)))))))))))))))))"

definition virtio_disk_init :: "('x kboot_scheme, unit) kop" where
  "virtio_disk_init =
     kthen (initlock L_vdisk ''virtio_disk'') (
     kbind vio_handshake (\<lambda>status.
     kthen vio_queue (
     kthen (for_each (\<lambda>i. modify (\<lambda>s. s\<lparr>dfree := (dfree s)(i := True)\<rparr>)) [0..<NUM]) (
     vwrite VIRTIO_MMIO_STATUS (status OR VIRTIO_CONFIG_S_DRIVER_OK)))))"

section \<open>main.c\<close>

text \<open>Hart 0 initialises everything; another hart spins until it has. Then each runs the scheduler, \<open>n\<close> rounds of it here.\<close>

definition kmain :: "nat \<Rightarrow> (nat \<Rightarrow> ('x kboot_scheme, unit) kop) \<Rightarrow> ('x kboot_scheme, unit) kop" where
  "kmain n run =
     kbind cpuid (\<lambda>c.
     kthen (
       if c = 0 then
         kthen consoleinit (
         kthen printkinit (
         kthen (printk [CHR 0x0A] []) (
         kthen (printk (''xv6 kernel is booting'' @ [CHR 0x0A]) []) (
         kthen (printk [CHR 0x0A] []) (
         kthen kinit (
         kthen kvminit (
         kthen kvminithart (
         kthen procinit (
         kthen trapinit (
         kthen trapinithart (
         kthen plicinit (
         kthen plicinithart (
         kthen binit (
         kthen iinit (
         kthen fileinit (
         kthen virtio_disk_init (
         kthen userinit (
         modify (\<lambda>s. s\<lparr>started := True\<rparr>)))))))))))))))))))
       else
         kbind (gets started) (\<lambda>go.
         if \<not> go then Spin else
         kthen (printk (''hart %d starting'' @ [CHR 0x0A]) [Num (of_nat c)]) (
         kthen kvminithart (
         kthen trapinithart (
         plicinithart))))) (
     scheduler n run))"

section \<open>Entering supervisor mode\<close>

lemma mpp_supervisor: "((x AND NOT MSTATUS_MPP_MASK) OR MSTATUS_MPP_S) AND MSTATUS_MPP_MASK = MSTATUS_MPP_S"
proof -
  have "MSTATUS_MPP_S AND MSTATUS_MPP_MASK = MSTATUS_MPP_S" by (simp add: MSTATUS_MPP_S_def MSTATUS_MPP_MASK_def)
  then have "bit MSTATUS_MPP_S n \<Longrightarrow> bit MSTATUS_MPP_MASK n" for n by (metis bit_and_iff)
  then show ?thesis by (intro bit_eqI) (auto simp: bit_simps)
qed

lemmas csr_defs = upd_m_def r_mhartid_def r_mstatus_def w_mstatus_def w_mepc_def w_medeleg_def w_mideleg_def r_sie_def w_sie_def w_pmpaddr0_def w_pmpcfg0_def r_menvcfg_def w_menvcfg_def r_mcounteren_def w_mcounteren_def w_satp_def w_stimecmp_def r_time_def w_tp_def

lemma or_absorb: "(a OR b) AND b = b" "(a OR b OR c) AND b = b" "(a OR b OR c) AND c = (c :: u64)"
  by (rule bit_eqI, auto simp: bit_simps)+

text \<open>
  \<open>start\<close> leaves machine mode as the kernel needs it: the hart goes on at \<open>main\<close> in supervisor mode with
  paging off, all traps delegated, device and timer interrupts enabled, the first clock interrupt
  requested, and its number in \<open>tp\<close>, where \<open>cpuid\<close> reads it; the registers of other harts are untouched.
\<close>
theorem start_enters_main:
  "\<exists>t. start h s = Ok (main_pc s) t \<and> priv_s (mach t h) \<and> satp t h = 0
    \<and> medeleg (mach t h) = 0xffff \<and> mideleg (mach t h) = 0xffff \<and> sie (mach t h) AND SIE_SEIE = SIE_SEIE \<and> sie (mach t h) AND SIE_STIE = SIE_STIE
    \<and> bit (menvcfg (mach t h)) 63 \<and> stimecmp t h = rtime s + 1000000 \<and> cpuid t = Ok (mhartid (mach s h)) t \<and> mach t = (mach s)(h := mach t h)"
  by (auto simp: start_def timerinit_def mret_def csr_defs cpuid_def mpp_supervisor or_absorb bit_simps simp del: fun_upd_apply)
    (simp_all add: mpp_supervisor or_absorb bit_simps)

section \<open>The disk device\<close>













lemma vread_apply [simp]: "vread r s = Ok (vio_read s (vio_writes s) r) s"
  by (simp add: vread_def)

lemma vwrite_apply [simp]: "vwrite r v s = Ok () (s\<lparr>vio_writes := vio_writes s @ [(r, v)]\<rparr>)"
  by (simp add: vwrite_def)





















end
