(* ===== verification/Xv6_Ulib.thy ===== *)
theory Xv6_Ulib
  imports Xv6_Console
begin

text \<open>
  The user library: ulib.c and printf.c. A user program runs against the system calls of the kernel,
  which the programs reach through the generated stubs of usys.S; they are the parameter \<open>os\<close> of the
  definitions, one field per call, over an environment \<open>'e\<close> the calls change. A string that a program
  walks with a pointer is the list of bytes from that pointer on, and the byte behind the end of the list
  is the NUL. The routines that store through their pointers work on byte memory, as in string.c.
\<close>

section \<open>System calls and outcomes of user code\<close>

record 'e os =
  os_read :: "int \<Rightarrow> int \<Rightarrow> 'e \<Rightarrow> int \<times> u8 list \<times> 'e"
  os_write :: "int \<Rightarrow> u8 list \<Rightarrow> 'e \<Rightarrow> int \<times> 'e"
  os_open :: "u8 list \<Rightarrow> int \<Rightarrow> 'e \<Rightarrow> int \<times> 'e"
  os_close :: "int \<Rightarrow> 'e \<Rightarrow> int \<times> 'e"
  os_fstat :: "int \<Rightarrow> 'e \<Rightarrow> int \<times> stat \<times> 'e"
  os_sbrk :: "int \<Rightarrow> int \<Rightarrow> 'e \<Rightarrow> u64 \<times> 'e"
  os_link :: "u8 list \<Rightarrow> u8 list \<Rightarrow> 'e \<Rightarrow> int \<times> 'e"
  os_unlink :: "u8 list \<Rightarrow> 'e \<Rightarrow> int \<times> 'e"
  os_mkdir :: "u8 list \<Rightarrow> 'e \<Rightarrow> int \<times> 'e"
  os_kill :: "int \<Rightarrow> 'e \<Rightarrow> int \<times> 'e"
  os_sync :: "'e \<Rightarrow> 'e"

text \<open>User code returns or calls \<open>exit\<close>.\<close>

datatype ('a, 'e) urun = Return 'a 'e | Exit int 'e

section \<open>ulib.c: strings read through a pointer\<close>

definition chr_at :: "u8 list \<Rightarrow> nat \<Rightarrow> u8" where
  "chr_at s i = (if i < length s then s ! i else 0)"

lemma chr_at_Nil [simp]: "chr_at [] i = 0"
  by (simp add: chr_at_def)

lemma chr_at_Cons [simp]: "chr_at (c # s) 0 = c" "chr_at (c # s) (Suc i) = chr_at s i" "chr_at (c # s) 1 = chr_at s 0"
  by (simp_all add: chr_at_def)

lemma chr_at_nonempty: "chr_at s i \<noteq> 0 \<Longrightarrow> s \<noteq> []"
  by auto

function u_strcmp :: "u8 list \<Rightarrow> u8 list \<Rightarrow> int" where
  "u_strcmp p q =
     (if chr_at p 0 \<noteq> 0 \<and> chr_at p 0 = chr_at q 0 then u_strcmp (tl p) (tl q)
      else uint (chr_at p 0) - uint (chr_at q 0))"
  by pat_completeness auto
termination
  by (relation "measure (\<lambda>(p, q). length p)") (auto dest: chr_at_nonempty)

declare u_strcmp.simps [simp del]

fun u_strlen :: "u8 list \<Rightarrow> nat" where
  "u_strlen [] = 0"
| "u_strlen (c # s) = (if c \<noteq> 0 then Suc (u_strlen s) else 0)"

text \<open>The offset of the byte found, \<open>None\<close> for the null pointer.\<close>

fun u_strchr :: "u8 list \<Rightarrow> u8 \<Rightarrow> nat option" where
  "u_strchr [] c = None"
| "u_strchr (x # s) c = (if x = 0 then None else if x = c then Some 0 else map_option Suc (u_strchr s c))"

fun atoi_loop :: "int \<Rightarrow> u8 list \<Rightarrow> int" where
  "atoi_loop n [] = n"
| "atoi_loop n (c # s) = (if 48 \<le> c \<and> c \<le> 57 then atoi_loop (i32 (n * 10 + uint c - 48)) s else n)"

definition atoi :: "u8 list \<Rightarrow> int" where
  "atoi s = atoi_loop 0 s"

section \<open>ulib.c: routines that store\<close>

partial_function (option) strcpy_loop :: "u64 \<Rightarrow> u64 \<Rightarrow> memory \<Rightarrow> memory option" where
  "strcpy_loop s t m = (if m t \<noteq> 0 then strcpy_loop (s + 1) (t + 1) (m(s := m t)) else Some (m(s := m t)))"

definition strcpy :: "u64 \<Rightarrow> u64 \<Rightarrow> memory \<Rightarrow> (u64 \<times> memory) option" where
  "strcpy s t m = map_option (Pair s) (strcpy_loop s t m)"

function u_memset_loop :: "nat \<Rightarrow> nat \<Rightarrow> u64 \<Rightarrow> u8 \<Rightarrow> memory \<Rightarrow> memory" where
  "u_memset_loop i n dst c m = (if i < n then u_memset_loop (Suc i) n dst c (m(dst + of_nat i := c)) else m)"
  by pat_completeness auto
termination
  by (relation "measure (\<lambda>(i, n, dst, c, m). n - i)") auto

definition u_memset :: "u64 \<Rightarrow> int \<Rightarrow> u32 \<Rightarrow> memory \<Rightarrow> memory" where
  "u_memset dst c n m = u_memset_loop 0 (unat n) dst (word_of_int c) m"

fun u_copy_up :: "nat \<Rightarrow> u64 \<Rightarrow> u64 \<Rightarrow> memory \<Rightarrow> memory" where
  "u_copy_up 0 dst src m = m"
| "u_copy_up (Suc n) dst src m = u_copy_up n (dst + 1) (src + 1) (m(dst := m src))"

fun u_copy_down :: "nat \<Rightarrow> u64 \<Rightarrow> u64 \<Rightarrow> memory \<Rightarrow> memory" where
  "u_copy_down 0 dst src m = m"
| "u_copy_down (Suc n) dst src m = u_copy_down n (dst - 1) (src - 1) (m(dst - 1 := m (src - 1)))"

definition u_memmove :: "u64 \<Rightarrow> u64 \<Rightarrow> int \<Rightarrow> memory \<Rightarrow> memory" where
  "u_memmove vdst vsrc n m =
     (if vsrc > vdst then u_copy_up (nat n) vdst vsrc m
      else u_copy_down (nat n) (vdst + word_of_int n) (vsrc + word_of_int n) m)"

fun u_memcmp_loop :: "nat \<Rightarrow> u64 \<Rightarrow> u64 \<Rightarrow> memory \<Rightarrow> int" where
  "u_memcmp_loop 0 p1 p2 m = 0"
| "u_memcmp_loop (Suc n) p1 p2 m =
     (if m p1 \<noteq> m p2 then uint (m p1) - uint (m p2) else u_memcmp_loop n (p1 + 1) (p2 + 1) m)"

definition u_memcmp :: "u64 \<Rightarrow> u64 \<Rightarrow> u32 \<Rightarrow> memory \<Rightarrow> int" where
  "u_memcmp s1 s2 n m = u_memcmp_loop (unat n) s1 s2 m"

text \<open>\<open>memcpy\<close> passes its \<open>uint\<close> length to an \<open>int\<close> parameter.\<close>

definition u_memcpy :: "u64 \<Rightarrow> u64 \<Rightarrow> u32 \<Rightarrow> memory \<Rightarrow> memory" where
  "u_memcpy dst src n m = u_memmove dst src (sint n) m"

section \<open>ulib.c: wrappers of system calls\<close>

text \<open>\<open>start\<close>: a program whose \<open>main\<close> returns exits with its value.\<close>

definition u_start :: "(int, 'e) urun \<Rightarrow> int \<times> 'e" where
  "u_start main = (case main of Return r e \<Rightarrow> (r, e) | Exit r e \<Rightarrow> (r, e))"

fun gets_loop :: "'e os \<Rightarrow> nat \<Rightarrow> 'e \<Rightarrow> u8 list \<times> 'e" where
  "gets_loop os 0 e = ([], e)"
| "gets_loop os (Suc k) e =
     (case os_read os 0 1 e of (cc, bs, e') \<Rightarrow>
        if cc < 1 then ([], e')
        else if hd bs = 10 \<or> hd bs = 13 then ([hd bs], e')
        else (case gets_loop os k e' of (s, e'') \<Rightarrow> (hd bs # s, e'')))"

definition gets_line :: "'e os \<Rightarrow> int \<Rightarrow> 'e \<Rightarrow> u8 list \<times> 'e" where
  "gets_line os mx e = gets_loop os (nat (mx - 1)) e"

definition stat_path :: "'e os \<Rightarrow> u8 list \<Rightarrow> stat \<Rightarrow> 'e \<Rightarrow> int \<times> stat \<times> 'e" where
  "stat_path os n st e =
     (case os_open os n 0 e of (fd, e1) \<Rightarrow>
        if fd < 0 then (- 1, st, e1)
        else case os_fstat os fd e1 of (r, st', e2) \<Rightarrow>
          case os_close os fd e2 of (_, e3) \<Rightarrow> (r, st', e3))"

definition SBRK_EAGER :: int where "SBRK_EAGER = 1"
definition SBRK_LAZY :: int where "SBRK_LAZY = 2"

definition sbrk :: "'e os \<Rightarrow> int \<Rightarrow> 'e \<Rightarrow> u64 \<times> 'e" where
  "sbrk os n e = os_sbrk os n SBRK_EAGER e"

definition sbrklazy :: "'e os \<Rightarrow> int \<Rightarrow> 'e \<Rightarrow> u64 \<times> 'e" where
  "sbrklazy os n e = os_sbrk os n SBRK_LAZY e"

section \<open>printf.c\<close>

definition u_digits :: "u8 list" where
  "u_digits = map of_nat (asc ''0123456789ABCDEF'')"

definition putc :: "'e os \<Rightarrow> int \<Rightarrow> u8 \<Rightarrow> 'e \<Rightarrow> 'e" where
  "putc os fd c e = snd (os_write os fd [c] e)"

text \<open>The digits put into \<open>buf\<close>, least significant first; the buffer has 20 places.\<close>

fun u_printint_loop :: "nat \<Rightarrow> u64 \<Rightarrow> u64 \<Rightarrow> u8 list" where
  "u_printint_loop 0 x base = []"
| "u_printint_loop (Suc k) x base =
     u_digits ! unat (x mod base) # (if x div base \<noteq> 0 then u_printint_loop k (x div base) base else [])"

text \<open>Negating the most negative number wraps, which is what the compiled code does (C leaves it undefined).\<close>

definition u_printint :: "u64 \<Rightarrow> u64 \<Rightarrow> bool \<Rightarrow> u8 list" where
  "u_printint xx base is_signed =
     (let neg = (is_signed \<and> sint xx < 0);
          x = (if neg then - xx else xx) in
      rev (u_printint_loop 20 x base @ (if neg then [45] else [])))"

definition u_printptr :: "u64 \<Rightarrow> u8 list" where
  "u_printptr x = [48, 120] @ map (\<lambda>i. u_digits ! unat (drop_bit 60 (push_bit (4 * i) x))) [0..<16]"

text \<open>Variadic arguments: numbers, as the 64 bits passed, and strings, \<open>None\<close> for a null pointer.\<close>

datatype uarg = UNum u64 | UStr "u8 list option"

fun uva_num :: "uarg list \<Rightarrow> (u64 \<times> uarg list) option" where
  "uva_num (UNum n # as) = Some (n, as)"
| "uva_num _ = None"

fun uva_str :: "uarg list \<Rightarrow> (u8 list \<times> uarg list) option" where
  "uva_str (UStr (Some s) # as) = Some (takeWhile (\<lambda>c. c \<noteq> 0) s, as)"
| "uva_str (UStr None # as) = Some (map of_char ''(null)'', as)"
| "uva_str _ = None"

definition u_num :: "nat \<Rightarrow> (u64 \<Rightarrow> u64) \<Rightarrow> u64 \<Rightarrow> bool \<Rightarrow> uarg list \<Rightarrow> (nat \<times> u8 list \<times> uarg list) option" where
  "u_num k conv base is_signed as = map_option (\<lambda>(n, as'). (k, u_printint (conv n) base is_signed, as')) (uva_num as)"

text \<open>
  The directive whose first character (after the percent sign) is the head of the format: how many
  characters it takes, what it prints and the arguments left. \<open>None\<close> is a call whose arguments do not
  match its format.
\<close>

definition u_directive :: "u8 list \<Rightarrow> uarg list \<Rightarrow> (nat \<times> u8 list \<times> uarg list) option" where
  "u_directive f as =
     (let c0 = chr_at f 0; c1 = (if c0 \<noteq> 0 then chr_at f 1 else 0); c2 = (if c1 \<noteq> 0 then chr_at f 2 else 0);
          d = 100; l = 108; u = 117; x = 120 in
      if c0 = d then u_num 1 sext32 10 True as
      else if c0 = l \<and> c1 = d then u_num 2 id 10 True as
      else if c0 = l \<and> c1 = l \<and> c2 = d then u_num 3 id 10 True as
      else if c0 = u then u_num 1 zext32 10 False as
      else if c0 = l \<and> c1 = u then u_num 2 id 10 False as
      else if c0 = l \<and> c1 = l \<and> c2 = u then u_num 3 id 10 False as
      else if c0 = x then u_num 1 zext32 16 False as
      else if c0 = l \<and> c1 = x then u_num 2 id 16 False as
      else if c0 = l \<and> c1 = l \<and> c2 = x then u_num 3 id 16 False as
      else if c0 = 112 then map_option (\<lambda>(n, as'). (1, u_printptr n, as')) (uva_num as)
      else if c0 = 99 then map_option (\<lambda>(n, as'). (1, [ucast n], as')) (uva_num as)
      else if c0 = 115 then map_option (\<lambda>(s, as'). (1, s, as')) (uva_str as)
      else if c0 = 37 then Some (1, [37], as)
      else Some (1, [37, c0], as))"

lemma u_directive_pos: "u_directive f as = Some (k, out, as') \<Longrightarrow> 0 < k"
  by (auto simp: u_directive_def u_num_def Let_def split: if_splits)

text \<open>The loop of \<open>vprintf\<close>; a percent sign at the very end of the format prints nothing.\<close>

function u_format :: "u8 list \<Rightarrow> uarg list \<Rightarrow> u8 list option" where
  "u_format [] as = Some []"
| "u_format (c # f) as =
     (if c = 0 then Some []
      else if c \<noteq> 37 then map_option ((#) c) (u_format f as)
      else if chr_at f 0 = 0 then Some []
      else (case u_directive f as of
              None \<Rightarrow> None
            | Some (k, out, as') \<Rightarrow> map_option ((@) out) (u_format (drop k f) as')))"
  by pat_completeness auto
termination
  by (relation "measure (\<lambda>(f, as). length f)") auto

definition cstr :: "string \<Rightarrow> u8 list" where
  "cstr s = map of_char s"

definition vprintf :: "'e os \<Rightarrow> int \<Rightarrow> u8 list \<Rightarrow> uarg list \<Rightarrow> 'e \<Rightarrow> 'e option" where
  "vprintf os fd fmt ap e = map_option (\<lambda>out. fold (putc os fd) out e) (u_format fmt ap)"

definition fprintf :: "'e os \<Rightarrow> int \<Rightarrow> u8 list \<Rightarrow> uarg list \<Rightarrow> 'e \<Rightarrow> 'e option" where
  "fprintf os fd fmt ap e = vprintf os fd fmt ap e"

definition printf :: "'e os \<Rightarrow> u8 list \<Rightarrow> uarg list \<Rightarrow> 'e \<Rightarrow> 'e option" where
  "printf os fmt ap e = vprintf os 1 fmt ap e"

section \<open>The user's and the kernel's memmove\<close>

lemma u_copy_up_eq: "u_copy_up n d s m = memmove_up n d s m"
  by (induction n arbitrary: d s m) simp_all

lemma u_copy_down_eq: "u_copy_down n d s m = memmove_down n d s m"
  by (induction n arbitrary: d s m) simp_all

lemma u_memmove_spec:
  assumes "0 \<le> n" "n < 2 ^ 31" and dst: "unat dst + nat n \<le> 2 ^ 64" and src: "unat src + nat n \<le> 2 ^ 64"
  shows "u_memmove dst src n m = (\<lambda>a. if in_range dst (nat n) a then m (src + (a - dst)) else m a)"
proof
  fix a
  have small: "nat n < 2 ^ 64" and n: "word_of_int n = (of_nat (nat n) :: u64)" using assms(1,2) by simp_all
  have pos: "unat (src + of_nat k) = unat src + k" "unat (dst + of_nat k) = unat dst + k" if "k < nat n" for k
    using dst src that by (simp_all add: unat_offset_bound)
  show "u_memmove dst src n m a = (if in_range dst (nat n) a then m (src + (a - dst)) else m a)"
  proof (cases "dst < src")
    case True
    have "dst + of_nat j \<noteq> src + of_nat k" if "j < k" "k < nat n" for j k
    proof
      assume "dst + of_nat j = src + of_nat k"
      then have "unat dst + j = unat src + k" using pos(2) [of j] pos(1) [of k] that by simp
      then show False using True that by (simp add: word_less_nat_alt)
    qed
    then show ?thesis using True by (simp add: u_memmove_def u_copy_up_eq memmove_up_spec [OF small])
  next
    case False
    have "dst + of_nat k \<noteq> src + of_nat j" if "j < k" "k < nat n" for j k
    proof
      assume "dst + of_nat k = src + of_nat j"
      then have "unat dst + k = unat src + j" using pos(2) [of k] pos(1) [of j] that by simp
      then show False using False that by (simp add: word_less_nat_alt)
    qed
    then show ?thesis using False memmove_down_spec [OF small] by (simp add: u_memmove_def u_copy_down_eq n del: of_nat_nat)
  qed
qed

section \<open>Decimal output and input\<close>

text \<open>The value of digits, least significant first.\<close>

fun dval :: "nat \<Rightarrow> nat list \<Rightarrow> nat" where
  "dval b [] = 0"
| "dval b (d # ds) = d + b * dval b ds"

fun digit_list :: "nat \<Rightarrow> nat \<Rightarrow> nat \<Rightarrow> nat list" where
  "digit_list 0 b x = []"
| "digit_list (Suc k) b x = x mod b # (if x div b \<noteq> 0 then digit_list k b (x div b) else [])"

lemma dval_digit_list: "x < b ^ k \<Longrightarrow> dval b (digit_list k b x) = x"
proof (induction k arbitrary: x)
  case (Suc k)
  then have "x div b < b ^ k" by (metis less_mult_imp_div_less mult.commute power_Suc)
  then show ?case using Suc.IH [of "x div b"] using mod_mult_div_eq [of x b] by (cases "x div b = 0") simp_all
qed simp

lemma length_digit_list: "length (digit_list k b x) \<le> k"
  by (induction k arbitrary: x) auto

lemma digit_list_less: "0 < b \<Longrightarrow> d \<in> set (digit_list k b x) \<Longrightarrow> d < b"
  by (induction k arbitrary: x) (auto split: if_splits)

lemma length_digit_list_le: "x < b ^ n \<Longrightarrow> 0 < n \<Longrightarrow> length (digit_list k b x) \<le> n"
proof (induction k arbitrary: x n)
  case (Suc k)
  obtain m where m: "n = Suc m" using Suc.prems(2) by (cases n) auto
  then have less: "x div b < b ^ m" using Suc.prems(1) by (metis less_mult_imp_div_less mult.commute power_Suc)
  show ?case
  proof (cases "x div b = 0")
    case False
    then have "0 < m" using less by (cases m) auto
    then show ?thesis using Suc.IH [OF less] m False by simp
  qed (use m in simp)
qed simp

lemma unat_div_mod: "unat (x div y :: u64) = unat x div unat y" "unat (x mod y :: u64) = unat x mod unat y"
  by (simp_all add: unat_div unat_mod)

lemma u_printint_loop_digits: "u_printint_loop k x b = map ((!) u_digits) (digit_list k (unat b) (unat x))"
  by (induction k arbitrary: x) (simp_all add: unat_div_mod unat_eq_zero [symmetric])

lemma printint_loop_digits: "printint_loop k x b = map ((!) digits) (digit_list k (unat b) (unat x))"
  by (induction k arbitrary: x) (simp_all add: unat_div_mod unat_eq_zero [symmetric])

lemma digit_chars: "d < 10 \<Longrightarrow> u_digits ! d = of_nat (48 + d)" "d < 10 \<Longrightarrow> digits ! d = 48 + d"
proof -
  assume "d < 10"
  then have "d \<in> {0, 1, 2, 3, 4, 5, 6, 7, 8, 9}" by auto
  then show "u_digits ! d = of_nat (48 + d)" "digits ! d = 48 + d"
    by (auto simp: u_digits_def digits_def asc_def of_char_def)
qed

text \<open>Reading a decimal number, most significant digit first.\<close>

definition dec :: "u8 list \<Rightarrow> int" where
  "dec s = foldl (\<lambda>v c. 10 * v + (uint c - 48)) 0 s"

definition read_dec :: "u8 list \<Rightarrow> int" where
  "read_dec s = (if chr_at s 0 = 45 then - dec (tl s) else dec s)"

lemma uint_digit: "d < 10 \<Longrightarrow> uint (of_nat (48 + d) :: u8) = 48 + int d"
  by (simp add: uint_nat unsigned_of_nat take_bit_eq_mod del: of_nat_add)

lemma dec_append [simp]: "dec [] = 0" "dec (s @ [c]) = 10 * dec s + (uint c - 48)"
  by (simp_all add: dec_def)

lemma dec_digits: "\<forall>d \<in> set ds. d < 10 \<Longrightarrow> dec (rev (map (\<lambda>d. of_nat (48 + d)) ds)) = int (dval 10 ds)"
proof (induction ds)
  case (Cons d ds)
  then have "dec (rev (map (\<lambda>d. of_nat (48 + d)) ds)) = int (dval 10 ds)" "uint (of_nat (48 + d) :: u8) = 48 + int d"
    using uint_digit [of d] by (simp_all del: of_nat_add)
  then show ?case by (simp del: of_nat_add)
qed simp

definition decimal :: "nat \<Rightarrow> u8 list" where
  "decimal x = rev (map (\<lambda>d. of_nat (48 + d)) (digit_list 20 10 x))"

lemma decimal_facts:
  assumes "x < 10 ^ 20"
  shows "dec (decimal x) = int x" "length (decimal x) \<le> 20" "\<forall>c \<in> set (decimal x). 48 \<le> c \<and> c \<le> 57" "chr_at (decimal x) 0 \<noteq> 45"
proof -
  let ?ds = "digit_list 20 10 x"
  have less: "\<forall>d \<in> set ?ds. d < 10" using digit_list_less [of 10] by auto
  show "dec (decimal x) = int x" unfolding decimal_def using dec_digits [OF less] dval_digit_list [OF assms] by simp
  show "length (decimal x) \<le> 20" using length_digit_list [of 20] by (simp add: decimal_def)
  have "48 \<le> (of_nat (48 + d) :: u8) \<and> of_nat (48 + d) \<le> (57 :: u8)" if "d < 10" for d
    using uint_digit [OF that] that by (simp add: word_le_def)
  then show chars: "\<forall>c \<in> set (decimal x). 48 \<le> c \<and> c \<le> 57" using less by (auto simp: decimal_def simp del: of_nat_add)
  show "chr_at (decimal x) 0 \<noteq> 45"
  proof (cases "decimal x")
    case (Cons c s)
    then have "48 \<le> c" using chars by simp
    then show ?thesis using Cons by (auto simp: word_le_def)
  qed simp
qed

lemma unat_small: "unat (x :: u64) < 10 ^ 20"
  using unat64_less [of x] by simp

lemma u_printint_dec:
  "u_printint x 10 is_signed =
     (if is_signed \<and> sint x < 0 then 45 # decimal (unat (- x)) else decimal (unat x))"
  "map unat (u_printint x 10 is_signed) = printint x 10 is_signed"
proof -
  have less: "d < 10" if "d \<in> set (digit_list 20 10 n)" for d n using digit_list_less [OF _ that] by simp
  have loop: "u_printint_loop 20 y 10 = map (\<lambda>d. of_nat (48 + d)) (digit_list 20 10 (unat y))" for y
    using less by (simp add: u_printint_loop_digits digit_chars cong: map_cong del: of_nat_add)
  have kloop: "printint_loop 20 y 10 = map (\<lambda>d. 48 + d) (digit_list 20 10 (unat y))" for y
    using less by (simp add: printint_loop_digits digit_chars cong: map_cong)
  have ch: "unat (of_nat (48 + d) :: u8) = 48 + d" if "d < 10" for d
    using that by (simp add: unsigned_of_nat take_bit_eq_mod del: of_nat_add)
  show "u_printint x 10 is_signed =
     (if is_signed \<and> sint x < 0 then 45 # decimal (unat (- x)) else decimal (unat x))"
    by (simp add: u_printint_def Let_def loop decimal_def del: of_nat_add)
  have dash: "asc ''-'' = [45]" by (simp add: asc_def of_char_def)
  have "map unat (u_printint_loop 20 y 10) = printint_loop 20 y 10" for y
    using less ch unfolding loop kloop map_map by (intro map_cong) (simp_all add: comp_def del: of_nat_add)
  then show "map unat (u_printint x 10 is_signed) = printint x 10 is_signed"
    by (simp add: u_printint_def printint_def Let_def dash flip: rev_map)
qed

lemma atoi_loop_dec:
  assumes "\<forall>c \<in> set s. 48 \<le> c \<and> c \<le> 57" "0 \<le> n" "foldl (\<lambda>v c. 10 * v + (uint c - 48)) n s < 2 ^ 31"
  shows "atoi_loop n s = foldl (\<lambda>v c. 10 * v + (uint c - 48)) n s"
  using assms
proof (induction s arbitrary: n)
  case (Cons c s)
  let ?f = "\<lambda>v (c :: u8). 10 * v + (uint c - 48)"
  have mono: "0 \<le> v \<Longrightarrow> v \<le> foldl ?f v s" if "\<forall>c \<in> set s. 48 \<le> c" for v s
    using that
  proof (induction s arbitrary: v)
    case (Cons c s)
    then have "0 \<le> uint c - 48" by (simp add: word_le_def)
    then show ?case using Cons.IH [of "?f v c"] Cons.prems by simp
  qed simp
  have d: "0 \<le> uint c - 48" using Cons.prems(1) by (simp add: word_le_def)
  have "?f n c \<le> foldl ?f (?f n c) s" using mono [of s "?f n c"] Cons.prems(1,2) d by simp
  then have "?f n c < 2 ^ 31" using Cons.prems(3) by simp
  then have "i32 (n * 10 + uint c - 48) = ?f n c"
    using d Cons.prems(2) by (simp add: i32_def signed_take_bit_int_eq_self algebra_simps)
  then show ?case using Cons.IH [of "?f n c"] Cons.prems d by simp
qed simp

lemma atoi_decimal: "x < 2 ^ 31 \<Longrightarrow> atoi (decimal x) = int x"
  using atoi_loop_dec [of "decimal x" 0] decimal_facts [of x] by (simp add: atoi_def dec_def)

section \<open>Properties of the user library\<close>

text \<open>
  The user library's \<open>memmove\<close>, which chooses its direction by comparing the pointers only, computes
  the same memory as the kernel's, which copies downwards only when the ranges overlap, for every
  non-negative length and every pair of ranges inside the address space.
\<close>
theorem u_memmove_agrees:
  assumes "0 \<le> n" "n < 2 ^ 31" "unat dst + nat n \<le> 2 ^ 64" "unat src + nat n \<le> 2 ^ 64"
  shows "u_memmove dst src n m = memmove dst src (word_of_int n) m"
proof -
  have "unat (word_of_int n :: u32) = nat n" using assms(1,2) by (simp add: unsigned_of_int take_bit_int_eq_self)
  then show ?thesis using u_memmove_spec [OF assms] memmove_spec [of dst "word_of_int n" src m] assms by simp
qed

theorem u_memmove_agrees_witness: "u_memmove 2 0 4 ucast = memmove 2 0 4 (ucast :: u64 \<Rightarrow> u8)"
  using u_memmove_agrees [of 4 2 0 "ucast :: u64 \<Rightarrow> u8"] by simp

text \<open>
  C39: printing a 64-bit integer in base 10 and reading it back gives the integer, for every value, the
  most negative one included; the 20 places of the buffer suffice; the kernel's \<open>printint\<close> prints the same
  characters, and \<open>atoi\<close> reads back every non-negative \<open>int\<close>.
\<close>
theorem printint_reads_back:
  assumes "- (2 ^ 63) \<le> z" "z < 2 ^ 63"
  shows "read_dec (u_printint (word_of_int z) 10 True) = z
    \<and> length (u_printint (word_of_int z) 10 True) \<le> 20
    \<and> map unat (u_printint (word_of_int z) 10 True) = printint (word_of_int z) 10 True
    \<and> (0 \<le> z \<and> z < 2 ^ 31 \<longrightarrow> atoi (u_printint (word_of_int z) 10 True) = z)"
proof -
  let ?x = "word_of_int z :: u64"
  have s: "sint ?x = z" using assms by (simp add: sint_sbintrunc' signed_take_bit_int_eq_self)
  show ?thesis
  proof (cases "z < 0")
    case True
    have u: "unat (- ?x) = nat (- z)" using assms True
      by (simp add: unsigned_of_int take_bit_int_eq_self flip: of_int_minus)
    have "length (digit_list 20 10 (nat (- z))) \<le> 19" using assms by (intro length_digit_list_le) auto
    moreover have "nat (- z) < 10 ^ 20" using assms by simp
    ultimately show ?thesis using True s u decimal_facts [of "nat (- z)"] u_printint_dec(2) [of ?x True]
      by (simp add: u_printint_dec(1) read_dec_def) (simp add: decimal_def)
  next
    case False
    have u: "unat ?x = nat z" using assms False by (simp add: unsigned_of_int take_bit_int_eq_self)
    moreover have "nat z < 10 ^ 20" using assms by simp
    ultimately show ?thesis using False s decimal_facts [of "nat z"] atoi_decimal [of "nat z"] u_printint_dec(2) [of ?x True]
      by (simp add: u_printint_dec(1) read_dec_def)
  qed
qed

theorem printint_reads_back_witness:
  "read_dec (u_printint (word_of_int (- (2 ^ 63))) 10 True) = - (2 ^ 63)"
  using printint_reads_back [of "- (2 ^ 63)"] by simp

end
