(* ===== verification/Xv6_Utils.thy ===== *)
theory Xv6_Utils
  imports Xv6_Ulib
begin

text \<open>
  The user programs that read and write files: cat.c, wc.c, echo.c, ls.c, kill.c, ln.c, mkdir.c, rm.c and
  sync.c, and grep.c with its regular-expression matcher. A loop that reads until the end of its input is a
  \<open>partial_function\<close>: \<open>None\<close> is a program that reads for ever (or calls \<open>printf\<close> with arguments that do
  not fit the format). The matcher is proved equal to the language of its pattern, and \<open>grep\<close>, \<open>cat\<close> and
  \<open>wc\<close> to functions of the whole input, however the system call splits it into pieces.
\<close>

section \<open>grep.c: the matcher\<close>

text \<open>
  \<open>matchstar c re text\<close> is the loop of \<open>matchstar\<close>, \<open>matchhere re text\<close> the body of \<open>matchhere\<close>; the
  recursion is on the pattern, then on the text.
\<close>

function matchhere :: "u8 list \<Rightarrow> u8 list \<Rightarrow> bool"
  and matchstar :: "u8 \<Rightarrow> u8 list \<Rightarrow> u8 list \<Rightarrow> bool" where
  "matchhere re text =
     (if chr_at re 0 = 0 then True
      else if chr_at re 1 = 42 then matchstar (chr_at re 0) (drop 2 re) text
      else if chr_at re 0 = 36 \<and> chr_at re 1 = 0 then chr_at text 0 = 0
      else if chr_at text 0 \<noteq> 0 \<and> (chr_at re 0 = 46 \<or> chr_at re 0 = chr_at text 0)
      then matchhere (drop 1 re) (drop 1 text)
      else False)"
| "matchstar c re text =
     (if matchhere re text then True
      else if chr_at text 0 \<noteq> 0 \<and> (chr_at text 0 = c \<or> c = 46) then matchstar c re (drop 1 text)
      else False)"
  by pat_completeness auto
termination
proof (relation "inv_image (less_than <*lex*> less_than <*lex*> less_than)
    (\<lambda>x. case x of Inl (re, text) \<Rightarrow> (length re, length text, 0 :: nat)
                 | Inr (c, re, text) \<Rightarrow> (length re, length text, 1))", goal_cases)
  case 1
  then show ?case by (intro wf_inv_image wf_lex_prod wf_less_than)
qed (auto dest!: chr_at_nonempty)

declare matchhere.simps [simp del] matchstar.simps [simp del]

text \<open>The \<open>do\<close> loop of \<open>match\<close> looks at every suffix of the text, the empty one included.\<close>

fun match_loop :: "u8 list \<Rightarrow> u8 list \<Rightarrow> bool" where
  "match_loop re [] = matchhere re []"
| "match_loop re (c # text) = (if matchhere re (c # text) then True else if c \<noteq> 0 then match_loop re text else False)"

definition match :: "u8 list \<Rightarrow> u8 list \<Rightarrow> bool" where
  "match re text = (if chr_at re 0 = 94 then matchhere (drop 1 re) text else match_loop re text)"

section \<open>grep.c: lines of a file\<close>

text \<open>
  The inner loop: \<open>s\<close> is the buffer from the pointer \<open>p\<close> on. The line found is cut at its newline for
  \<open>match\<close>; the result is what is left of the buffer when no newline is found.
\<close>

function grep_lines :: "'e os \<Rightarrow> u8 list \<Rightarrow> u8 list \<Rightarrow> 'e \<Rightarrow> u8 list \<times> 'e" where
  "grep_lines os pattern s e =
     (case u_strchr s 10 of
        None \<Rightarrow> (s, e)
      | Some q \<Rightarrow>
          grep_lines os pattern (drop (q + 1) s)
            (if match pattern (take q s) then snd (os_write os 1 (take (q + 1) s) e) else e))"
  by pat_completeness auto
termination
proof (relation "measure (\<lambda>(os, pattern, s, e). length s)", goal_cases)
  case (2 os pattern s e q)
  then have "s \<noteq> []" by auto
  then show ?case by simp
qed simp

declare grep_lines.simps [simp del]

text \<open>The outer loop; \<open>buf\<close> is the part of the buffer before \<open>m\<close>.\<close>

definition GREP_BUF :: nat where "GREP_BUF = 1024"

partial_function (option) grep_loop :: "'e os \<Rightarrow> u8 list \<Rightarrow> int \<Rightarrow> u8 list \<Rightarrow> 'e \<Rightarrow> 'e option" where
  "grep_loop os pattern fd buf e =
     (case os_read os fd (int GREP_BUF - int (length buf) - 1) e of (n, bs, e1) \<Rightarrow>
        if n > 0 then
          (case grep_lines os pattern (buf @ bs) e1 of (rest, e2) \<Rightarrow> grep_loop os pattern fd rest e2)
        else Some e1)"

definition grep :: "'e os \<Rightarrow> u8 list \<Rightarrow> int \<Rightarrow> 'e \<Rightarrow> 'e option" where
  "grep os pattern fd e = grep_loop os pattern fd [] e"

text \<open>The loop over the files named on the command line, shared in shape by \<open>grep\<close>, \<open>cat\<close> and \<open>wc\<close>.\<close>

fun grep_files :: "'e os \<Rightarrow> u8 list \<Rightarrow> u8 list list \<Rightarrow> 'e \<Rightarrow> (int, 'e) urun option" where
  "grep_files os pattern [] e = Some (Exit 0 e)"
| "grep_files os pattern (f # fs) e =
     (case os_open os f 0 e of (fd, e1) \<Rightarrow>
        if fd < 0 then
          map_option (Exit 1) (printf os (cstr ''grep: cannot open %s'' @ [10]) [UStr (Some f)] e1)
        else
          Option.bind (grep os pattern fd e1) (\<lambda>e2.
          grep_files os pattern fs (snd (os_close os fd e2))))"

definition grep_main :: "'e os \<Rightarrow> u8 list list \<Rightarrow> 'e \<Rightarrow> (int, 'e) urun option" where
  "grep_main os argv e =
     (if length argv \<le> 1 then
        map_option (Exit 1) (fprintf os 2 (cstr ''usage: grep pattern [file ...]'' @ [10]) [] e)
      else if length argv \<le> 2 then map_option (Exit 0) (grep os (argv ! 1) 0 e)
      else grep_files os (argv ! 1) (drop 2 argv) e)"

section \<open>cat.c\<close>

partial_function (option) cat :: "'e os \<Rightarrow> int \<Rightarrow> 'e \<Rightarrow> (unit, 'e) urun option" where
  "cat os fd e =
     (case os_read os fd 512 e of (n, bs, e1) \<Rightarrow>
        if n > 0 then
          (case os_write os 1 bs e1 of (r, e2) \<Rightarrow>
             if r \<noteq> n then map_option (Exit 1) (fprintf os 2 (cstr ''cat: write error'' @ [10]) [] e2)
             else cat os fd e2)
        else if n < 0 then map_option (Exit 1) (fprintf os 2 (cstr ''cat: read error'' @ [10]) [] e1)
        else Some (Return () e1))"

fun cat_files :: "'e os \<Rightarrow> u8 list list \<Rightarrow> 'e \<Rightarrow> (int, 'e) urun option" where
  "cat_files os [] e = Some (Exit 0 e)"
| "cat_files os (f # fs) e =
     (case os_open os f 0 e of (fd, e1) \<Rightarrow>
        if fd < 0 then
          map_option (Exit 1) (fprintf os 2 (cstr ''cat: cannot open %s'' @ [10]) [UStr (Some f)] e1)
        else
          Option.bind (cat os fd e1) (\<lambda>r.
          case r of Exit c e2 \<Rightarrow> Some (Exit c e2) | Return _ e2 \<Rightarrow> cat_files os fs (snd (os_close os fd e2))))"

definition cat_main :: "'e os \<Rightarrow> u8 list list \<Rightarrow> 'e \<Rightarrow> (int, 'e) urun option" where
  "cat_main os argv e =
     (if length argv \<le> 1 then
        Option.bind (cat os 0 e) (\<lambda>r. case r of Exit c e2 \<Rightarrow> Some (Exit c e2) | Return _ e2 \<Rightarrow> Some (Exit 0 e2))
      else cat_files os (drop 1 argv) e)"

section \<open>wc.c\<close>

text \<open>The counters \<open>l\<close>, \<open>w\<close>, \<open>c\<close> and the flag \<open>inword\<close>.\<close>

type_synonym wcount = "int \<times> int \<times> int \<times> bool"

definition wc_blanks :: "u8 list" where "wc_blanks = [32, 13, 9, 10, 11]"

fun wc_step :: "u8 \<Rightarrow> wcount \<Rightarrow> wcount" where
  "wc_step b (l, w, c, inword) =
     (let l' = (if b = 10 then l + 1 else l) in
      if u_strchr wc_blanks b \<noteq> None then (l', w, c + 1, False)
      else if \<not> inword then (l', w + 1, c + 1, True)
      else (l', w, c + 1, inword))"

partial_function (option) wc_loop :: "'e os \<Rightarrow> int \<Rightarrow> wcount \<Rightarrow> 'e \<Rightarrow> (int \<times> wcount \<times> 'e) option" where
  "wc_loop os fd k e =
     (case os_read os fd 512 e of (n, bs, e1) \<Rightarrow>
        if n > 0 then wc_loop os fd (fold wc_step bs k) e1 else Some (n, k, e1))"

definition wc :: "'e os \<Rightarrow> int \<Rightarrow> u8 list \<Rightarrow> 'e \<Rightarrow> (unit, 'e) urun option" where
  "wc os fd name e =
     Option.bind (wc_loop os fd (0, 0, 0, False) e) (\<lambda>(n, (l, w, c, _), e1).
     if n < 0 then map_option (Exit 1) (printf os (cstr ''wc: read error'' @ [10]) [] e1)
     else map_option (Return ())
       (printf os (cstr ''%d %d %d %s'' @ [10])
          [UNum (word_of_int l), UNum (word_of_int w), UNum (word_of_int c), UStr (Some name)] e1))"

fun wc_files :: "'e os \<Rightarrow> u8 list list \<Rightarrow> 'e \<Rightarrow> (int, 'e) urun option" where
  "wc_files os [] e = Some (Exit 0 e)"
| "wc_files os (f # fs) e =
     (case os_open os f 0 e of (fd, e1) \<Rightarrow>
        if fd < 0 then
          map_option (Exit 1) (printf os (cstr ''wc: cannot open %s'' @ [10]) [UStr (Some f)] e1)
        else
          Option.bind (wc os fd f e1) (\<lambda>r.
          case r of Exit c e2 \<Rightarrow> Some (Exit c e2) | Return _ e2 \<Rightarrow> wc_files os fs (snd (os_close os fd e2))))"

definition wc_main :: "'e os \<Rightarrow> u8 list list \<Rightarrow> 'e \<Rightarrow> (int, 'e) urun option" where
  "wc_main os argv e =
     (if length argv \<le> 1 then
        Option.bind (wc os 0 [] e) (\<lambda>r. case r of Exit c e2 \<Rightarrow> Some (Exit c e2) | Return _ e2 \<Rightarrow> Some (Exit 0 e2))
      else wc_files os (drop 1 argv) e)"

section \<open>echo.c, kill.c, ln.c, mkdir.c, rm.c, sync.c\<close>

fun echo_args :: "'e os \<Rightarrow> u8 list list \<Rightarrow> 'e \<Rightarrow> 'e" where
  "echo_args os [] e = e"
| "echo_args os (a # as) e =
     echo_args os as
       (snd (os_write os 1 (if as \<noteq> [] then [32] else [10])
          (snd (os_write os 1 (take (u_strlen a) a) e))))"

definition echo_main :: "'e os \<Rightarrow> u8 list list \<Rightarrow> 'e \<Rightarrow> (int, 'e) urun" where
  "echo_main os argv e = Exit 0 (echo_args os (drop 1 argv) e)"

definition kill_main :: "'e os \<Rightarrow> u8 list list \<Rightarrow> 'e \<Rightarrow> (int, 'e) urun option" where
  "kill_main os argv e =
     (if length argv < 2 then map_option (Exit 1) (fprintf os 2 (cstr ''usage: kill pid...'' @ [10]) [] e)
      else Some (Exit 0 (fold (\<lambda>a e. snd (os_kill os (atoi a) e)) (drop 1 argv) e)))"

definition ln_main :: "'e os \<Rightarrow> u8 list list \<Rightarrow> 'e \<Rightarrow> (int, 'e) urun option" where
  "ln_main os argv e =
     (if length argv \<noteq> 3 then map_option (Exit 1) (fprintf os 2 (cstr ''Usage: ln old new'' @ [10]) [] e)
      else case os_link os (argv ! 1) (argv ! 2) e of (r, e1) \<Rightarrow>
        map_option (Exit 0)
          (if r < 0 then
             fprintf os 2 (cstr ''link %s %s: failed'' @ [10]) [UStr (Some (argv ! 1)), UStr (Some (argv ! 2))] e1
           else Some e1))"

fun mkdir_files :: "'e os \<Rightarrow> u8 list list \<Rightarrow> 'e \<Rightarrow> 'e option" where
  "mkdir_files os [] e = Some e"
| "mkdir_files os (f # fs) e =
     (case os_mkdir os f e of (r, e1) \<Rightarrow>
        if r < 0 then fprintf os 2 (cstr ''mkdir: %s failed to create'' @ [10]) [UStr (Some f)] e1
        else mkdir_files os fs e1)"

definition mkdir_main :: "'e os \<Rightarrow> u8 list list \<Rightarrow> 'e \<Rightarrow> (int, 'e) urun option" where
  "mkdir_main os argv e =
     (if length argv < 2 then map_option (Exit 1) (fprintf os 2 (cstr ''Usage: mkdir files...'' @ [10]) [] e)
      else map_option (Exit 0) (mkdir_files os (drop 1 argv) e))"

fun rm_files :: "'e os \<Rightarrow> u8 list list \<Rightarrow> 'e \<Rightarrow> 'e option" where
  "rm_files os [] e = Some e"
| "rm_files os (f # fs) e =
     (case os_unlink os f e of (r, e1) \<Rightarrow>
        if r < 0 then fprintf os 2 (cstr ''rm: %s failed to delete'' @ [10]) [UStr (Some f)] e1
        else rm_files os fs e1)"

definition rm_main :: "'e os \<Rightarrow> u8 list list \<Rightarrow> 'e \<Rightarrow> (int, 'e) urun option" where
  "rm_main os argv e =
     (if length argv < 2 then map_option (Exit 1) (fprintf os 2 (cstr ''Usage: rm files...'' @ [10]) [] e)
      else map_option (Exit 0) (rm_files os (drop 1 argv) e))"

definition sync_main :: "'e os \<Rightarrow> 'e \<Rightarrow> (int, 'e) urun" where
  "sync_main os e = Exit 0 (os_sync os e)"

section \<open>ls.c\<close>

text \<open>The name after the last slash, padded with blanks to \<open>DIRSIZ\<close> characters.\<close>

definition fmtname :: "u8 list \<Rightarrow> u8 list" where
  "fmtname path =
     (let p = rev (takeWhile (\<lambda>c. c \<noteq> 47) (rev (take (u_strlen path) path))) in
      if length p \<ge> DIRSIZ then p else p @ replicate (DIRSIZ - length p) 32)"

definition ls_line :: "'e os \<Rightarrow> u8 list \<Rightarrow> stat \<Rightarrow> 'e \<Rightarrow> 'e option" where
  "ls_line os path st e =
     printf os (cstr ''%s %d %d %d'' @ [10])
       [UStr (Some (fmtname path)), UNum (scast (st_type st)), UNum (ucast (st_ino st)), UNum (st_size st)] e"

text \<open>The loop over the directory entries; \<open>prefix\<close> is the path with its slash.\<close>

partial_function (option) ls_entries :: "'e os \<Rightarrow> int \<Rightarrow> u8 list \<Rightarrow> stat \<Rightarrow> 'e \<Rightarrow> 'e option" where
  "ls_entries os fd prefix st e =
     (case os_read os fd (int DIRENT_SIZE) e of (n, de, e1) \<Rightarrow>
        if n = int DIRENT_SIZE then
          (if take 2 de = [0, 0] then ls_entries os fd prefix st e1
           else
             (let buf = prefix @ take DIRSIZ (drop 2 de) in
              case stat_path os (take (u_strlen buf) buf) st e1 of (r, st', e2) \<Rightarrow>
                if r < 0 then
                  Option.bind (printf os (cstr ''ls: cannot stat %s'' @ [10]) [UStr (Some buf)] e2)
                    (ls_entries os fd prefix st')
                else
                  Option.bind (ls_line os buf st' e2) (ls_entries os fd prefix st')))
        else Some e1)"

definition ls :: "'e os \<Rightarrow> u8 list \<Rightarrow> 'e \<Rightarrow> 'e option" where
  "ls os path e =
     (case os_open os path 0 e of (fd, e1) \<Rightarrow>
        if fd < 0 then fprintf os 2 (cstr ''ls: cannot open %s'' @ [10]) [UStr (Some path)] e1
        else case os_fstat os fd e1 of (r, st, e2) \<Rightarrow>
          if r < 0 then
            map_option (\<lambda>e3. snd (os_close os fd e3))
              (fprintf os 2 (cstr ''ls: cannot stat %s'' @ [10]) [UStr (Some path)] e2)
          else
            map_option (\<lambda>e3. snd (os_close os fd e3))
              (if st_type st = T_DEVICE \<or> st_type st = T_FILE then ls_line os path st e2
               else if st_type st = T_DIR then
                 (if u_strlen path + 1 + DIRSIZ + 1 > 512 then printf os (cstr ''ls: path too long'' @ [10]) [] e2
                  else ls_entries os fd (take (u_strlen path) path @ [47]) st e2)
               else Some e2))"

fun ls_args :: "'e os \<Rightarrow> u8 list list \<Rightarrow> 'e \<Rightarrow> 'e option" where
  "ls_args os [] e = Some e"
| "ls_args os (a # as) e = Option.bind (ls os a e) (ls_args os as)"

definition ls_main :: "'e os \<Rightarrow> u8 list list \<Rightarrow> 'e \<Rightarrow> (int, 'e) urun option" where
  "ls_main os argv e =
     map_option (Exit 0) (if length argv < 2 then ls os (cstr ''.'') e else ls_args os (drop 1 argv) e)"

section \<open>The language of a pattern\<close>

text \<open>A pattern is a sequence of characters and starred characters, anchored at either end or not.\<close>

datatype item = One u8 | Many u8

fun items :: "u8 list \<Rightarrow> item list \<times> bool" where
  "items [] = ([], False)"
| "items [c] = (if c = 36 then ([], True) else ([One c], False))"
| "items (c # d # re) = (if d = 42 then apfst ((#) (Many c)) (items re) else apfst ((#) (One c)) (items (d # re)))"

definition fits :: "u8 \<Rightarrow> u8 \<Rightarrow> bool" where
  "fits c x \<longleftrightarrow> c = 46 \<or> c = x"

fun lang :: "item list \<Rightarrow> u8 list set" where
  "lang [] = {[]}"
| "lang (One c # r) = {x # w | x w. fits c x \<and> w \<in> lang r}"
| "lang (Many c # r) = {u @ w | u w. (\<forall>x \<in> set u. fits c x) \<and> w \<in> lang r}"

definition at_start :: "u8 list \<Rightarrow> bool" where "at_start re \<longleftrightarrow> chr_at re 0 = 94"
definition body :: "u8 list \<Rightarrow> u8 list" where "body re = (if at_start re then tl re else re)"
definition at_end :: "u8 list \<Rightarrow> bool" where "at_end re \<longleftrightarrow> snd (items (body re))"

text \<open>A text matches at its beginning.\<close>

definition begins :: "item list \<times> bool \<Rightarrow> u8 list \<Rightarrow> bool" where
  "begins p text \<longleftrightarrow> (\<exists>w v. text = w @ v \<and> w \<in> lang (fst p) \<and> (snd p \<longrightarrow> v = []))"

lemma begins_Nil [simp]: "begins ([], b) ts \<longleftrightarrow> (b \<longrightarrow> ts = [])"
  by (auto simp: begins_def)

lemma begins_One [simp]:
  "begins (apfst ((#) (One c)) p) ts \<longleftrightarrow> (\<exists>x t. ts = x # t \<and> fits c x \<and> begins p t)"
proof
  assume "begins (apfst ((#) (One c)) p) ts"
  then obtain y v where "ts = y @ v" "y \<in> lang (One c # fst p)" "snd p \<longrightarrow> v = []" unfolding begins_def by auto
  moreover from this obtain x w where "y = x # w" "fits c x" "w \<in> lang (fst p)" by auto
  ultimately show "\<exists>x t. ts = x # t \<and> fits c x \<and> begins p t" unfolding begins_def by auto
next
  assume "\<exists>x t. ts = x # t \<and> fits c x \<and> begins p t"
  then obtain x w v where w: "ts = (x # w) @ v" "fits c x" "w \<in> lang (fst p)" "snd p \<longrightarrow> v = []" by (auto simp: begins_def)
  then have "x # w \<in> lang (One c # fst p)" by simp
  then show "begins (apfst ((#) (One c)) p) ts" unfolding begins_def using w(1,4) by (metis fst_apfst snd_apfst)
qed

lemma begins_Many:
  "begins (apfst ((#) (Many c)) p) ts \<longleftrightarrow> (\<exists>u t. ts = u @ t \<and> (\<forall>x \<in> set u. fits c x) \<and> begins p t)"
proof
  assume "begins (apfst ((#) (Many c)) p) ts"
  then obtain y v where y: "ts = y @ v" "y \<in> lang (Many c # fst p)" "snd p \<longrightarrow> v = []" unfolding begins_def by auto
  then obtain u w where "y = u @ w" "\<forall>x \<in> set u. fits c x" "w \<in> lang (fst p)" by auto
  with y have u: "ts = (u @ w) @ v" "\<forall>x \<in> set u. fits c x" "w \<in> lang (fst p)" "snd p \<longrightarrow> v = []" by simp_all
  then have "begins p (w @ v)" unfolding begins_def by blast
  then show "\<exists>u t. ts = u @ t \<and> (\<forall>x \<in> set u. fits c x) \<and> begins p t" using u(1,2) by (metis append_assoc)
next
  assume "\<exists>u t. ts = u @ t \<and> (\<forall>x \<in> set u. fits c x) \<and> begins p t"
  then obtain u w v where u: "ts = u @ w @ v" "\<forall>x \<in> set u. fits c x" "w \<in> lang (fst p)" "snd p \<longrightarrow> v = []"
    unfolding begins_def by blast
  then have "u @ w \<in> lang (Many c # fst p)" by auto
  then show "begins (apfst ((#) (Many c)) p) ts" unfolding begins_def using u(1,4) by (metis append_assoc fst_apfst snd_apfst)
qed

lemma begins_Many_step:
  "begins (apfst ((#) (Many c)) p) ts \<longleftrightarrow>
     begins p ts \<or> (\<exists>x t. ts = x # t \<and> fits c x \<and> begins (apfst ((#) (Many c)) p) t)"
proof
  assume "begins (apfst ((#) (Many c)) p) ts"
  then obtain u t where u: "ts = u @ t" "\<forall>x \<in> set u. fits c x" "begins p t" unfolding begins_Many by blast
  show "begins p ts \<or> (\<exists>x t. ts = x # t \<and> fits c x \<and> begins (apfst ((#) (Many c)) p) t)"
  proof (cases u)
    case (Cons x u')
    then show ?thesis using u unfolding begins_Many by fastforce
  qed (use u in simp)
next
  assume "begins p ts \<or> (\<exists>x t. ts = x # t \<and> fits c x \<and> begins (apfst ((#) (Many c)) p) t)"
  then show "begins (apfst ((#) (Many c)) p) ts"
  proof
    assume "begins p ts"
    then have "ts = [] @ ts \<and> (\<forall>x \<in> set []. fits c x) \<and> begins p ts" by simp
    then show ?thesis unfolding begins_Many by blast
  next
    assume "\<exists>x t. ts = x # t \<and> fits c x \<and> begins (apfst ((#) (Many c)) p) t"
    then obtain x u t where "ts = x # u @ t" "fits c x" "\<forall>x \<in> set u. fits c x" "begins p t" unfolding begins_Many by blast
    then show ?thesis unfolding begins_Many by (intro exI [of _ "x # u"] exI [of _ t]) auto
  qed
qed

lemma items_Cons: "re \<noteq> [] \<Longrightarrow> chr_at re 0 \<noteq> 42 \<Longrightarrow> items (c # re) = apfst ((#) (One c)) (items re)"
  by (cases re) auto

lemma matcher:
  "0 \<notin> set re \<Longrightarrow> 0 \<notin> set ts \<Longrightarrow> matchhere re ts = begins (items re) ts"
  "0 \<notin> set re \<Longrightarrow> 0 \<notin> set ts \<Longrightarrow> matchstar c re ts = begins (apfst ((#) (Many c)) (items re)) ts"
proof (induction re ts and c re ts rule: matchhere_matchstar.induct)
  case (1 re ts)
  consider "re = []" | c where "re = [c]" | c re' where "re = c # 42 # re'" | c d re' where "re = c # d # re'" "d \<noteq> 42"
    by (cases re rule: items.cases) auto
  then show ?case
  proof cases
    case 1
    then show ?thesis by (simp add: matchhere.simps)
  next
    case (2 c)
    show ?thesis
    proof (cases "c = 36")
      case True
      then show ?thesis using 2 "1.prems" by (cases ts) (simp_all add: matchhere.simps)
    next
      case False
      have one: "([One c], False) = apfst ((#) (One c)) ([], False)" by simp
      show ?thesis using False 2 "1.prems" begins_One [of c "([], False)" ts]
        by (cases ts) (auto simp: matchhere.simps fits_def)
    qed
  next
    case (3 c re')
    then show ?thesis using "1.IH"(1) "1.prems" by (simp add: matchhere.simps)
  next
    case (4 c d re')
    then have "d \<noteq> 0" "c \<noteq> 0" using "1.prems" by auto
    then show ?thesis using 4 "1.IH"(2) "1.prems" by (cases ts) (auto simp: matchhere.simps fits_def)
  qed
next
  case (2 c re ts)
  show ?case
  proof (cases ts)
    case Nil
    then show ?thesis using 2 begins_Many_step [of c "items re" ts] by (simp add: matchstar.simps)
  next
    case (Cons x t)
    then have "x \<noteq> 0" using 2(4) by auto
    then show ?thesis using Cons 2 begins_Many_step [of c "items re" ts]
      by (subst matchstar.simps) (auto simp: fits_def)
  qed
qed

lemma match_loop_suffix:
  "0 \<notin> set re \<Longrightarrow> 0 \<notin> set ts \<Longrightarrow> match_loop re ts \<longleftrightarrow> (\<exists>pre t. ts = pre @ t \<and> begins (items re) t)"
proof (induction ts)
  case Nil
  then show ?case using matcher(1) [of re "[]"] by simp
next
  case (Cons c ts)
  have "(\<exists>pre t. c # ts = pre @ t \<and> begins (items re) t) \<longleftrightarrow>
      begins (items re) (c # ts) \<or> (\<exists>pre t. ts = pre @ t \<and> begins (items re) t)"
    by (metis append_Cons append_Nil neq_Nil_conv list.inject)
  then show ?case using Cons matcher(1) [of re "c # ts"] by auto
qed

section \<open>Input and output of a program\<close>

text \<open>
  What the programs rely on of the system calls \<open>read\<close> and \<open>write\<close>: \<open>inp\<close> is what is still to be read
  from \<open>fd\<close>, \<open>outp\<close> what was written to the standard output. A read returns some of the bytes asked for,
  at least one if there are any, and 0 at the end of the input; a write takes all its bytes.
\<close>

definition stdio :: "'e os \<Rightarrow> int \<Rightarrow> ('e \<Rightarrow> u8 list) \<Rightarrow> ('e \<Rightarrow> u8 list) \<Rightarrow> bool" where
  "stdio os fd inp outp \<longleftrightarrow>
     (\<forall>n e. 0 \<le> n \<longrightarrow> (\<exists>k e'. os_read os fd n e = (int k, take k (inp e), e') \<and> k \<le> nat n \<and> k \<le> length (inp e)
        \<and> (0 < n \<and> inp e \<noteq> [] \<longrightarrow> 0 < k) \<and> inp e' = drop k (inp e) \<and> outp e' = outp e)) \<and>
     (\<forall>bs e. \<exists>e'. os_write os 1 bs e = (int (length bs), e') \<and> inp e' = inp e \<and> outp e' = outp e @ bs)"

lemma stdio_read:
  assumes "stdio os fd inp outp" "0 \<le> n"
  obtains k e' where "os_read os fd n e = (int k, take k (inp e), e')" "k \<le> nat n" "k \<le> length (inp e)"
    "0 < n \<and> inp e \<noteq> [] \<longrightarrow> 0 < k" "inp e' = drop k (inp e)" "outp e' = outp e"
  using assms unfolding stdio_def by blast

lemma stdio_write:
  assumes "stdio os fd inp outp"
  obtains e' where "os_write os 1 bs e = (int (length bs), e')" "inp e' = inp e" "outp e' = outp e @ bs"
  using assms unfolding stdio_def by blast

text \<open>The complete lines of a text, without their newlines, and what follows the last newline.\<close>

function lines :: "u8 list \<Rightarrow> u8 list list" where
  "lines s = (if 10 \<in> set s then takeWhile (\<lambda>c. c \<noteq> 10) s # lines (tl (dropWhile (\<lambda>c. c \<noteq> 10) s)) else [])"
  by pat_completeness auto
termination
proof (relation "measure length", goal_cases)
  case (2 s)
  then have "dropWhile (\<lambda>c. c \<noteq> 10) s \<noteq> []" by simp
  then have "length (tl (dropWhile (\<lambda>c. c \<noteq> 10) s)) < length (dropWhile (\<lambda>c. c \<noteq> 10) s)" by simp
  also have "\<dots> \<le> length s" by (rule length_dropWhile_le)
  finally show ?case by simp
qed simp

definition residue :: "u8 list \<Rightarrow> u8 list" where
  "residue s = rev (takeWhile (\<lambda>c. c \<noteq> 10) (rev s))"

declare lines.simps [simp del]

lemma split_line: "10 \<in> set s \<Longrightarrow> \<exists>l t. s = l @ 10 # t \<and> 10 \<notin> set (l :: u8 list)"
  by (meson split_list_first)

lemma lines_Cons: "10 \<notin> set l \<Longrightarrow> lines (l @ 10 # t) = l # lines t"
  by (subst lines.simps) (simp add: takeWhile_append dropWhile_append)

lemma lines_none: "10 \<notin> set s \<Longrightarrow> lines s = []"
  by (simp add: lines.simps)

lemma residue_Cons: "residue (l @ 10 # t) = residue t"
proof (cases "10 \<in> set t")
  case False
  then have "takeWhile (\<lambda>c. c \<noteq> 10) (rev t) = rev t" by (subst takeWhile_eq_all_conv) auto
  then show ?thesis using False by (simp add: residue_def takeWhile_append del: takeWhile_eq_all_conv)
qed (auto simp: residue_def takeWhile_append)

lemma residue_none: "10 \<notin> set s \<Longrightarrow> residue s = s"
proof -
  assume "10 \<notin> set s"
  then have "takeWhile (\<lambda>c. c \<noteq> 10) (rev s) = rev s" by (subst takeWhile_eq_all_conv) auto
  then show ?thesis by (simp only: residue_def rev_rev_ident)
qed

lemma line_induct [case_names none line]:
  assumes "\<And>s. 10 \<notin> set s \<Longrightarrow> P s" "\<And>l t. 10 \<notin> set l \<Longrightarrow> P t \<Longrightarrow> P (l @ 10 # t)"
  shows "P (s :: u8 list)"
proof (induction s rule: length_induct)
  case (1 s)
  show ?case
  proof (cases "10 \<in> set s")
    case True
    then obtain l t where "s = l @ 10 # t" "10 \<notin> set l" using split_line by blast
    then show ?thesis using 1 assms(2) [of l t] by simp
  qed (rule assms(1))
qed

lemma lines_append: "lines (s @ t) = lines s @ lines (residue s @ t)"
  by (induction s rule: line_induct) (simp_all add: lines_none residue_none lines_Cons residue_Cons)

lemma residue_no_newline: "10 \<notin> set (residue s)"
  by (induction s rule: line_induct) (simp_all add: residue_none residue_Cons)

lemma residue_subset: "set (residue s) \<subseteq> set s"
  by (induction s rule: line_induct) (auto simp: residue_none residue_Cons)

lemma lines_long: "10 \<notin> set s \<Longrightarrow> lines (s @ t) \<noteq> [] \<Longrightarrow> length s \<le> length (hd (lines (s @ t)))"
proof -
  assume s: "10 \<notin> set s" and "lines (s @ t) \<noteq> []"
  then have "10 \<in> set t" using lines_none [of "s @ t"] by auto
  then obtain l r where "t = l @ 10 # r" "10 \<notin> set l" using split_line by blast
  then show ?thesis using lines_Cons [of "s @ l" r] s by simp
qed

lemma strchr_newline: "0 \<notin> set s \<Longrightarrow> 10 \<notin> set l \<Longrightarrow> 0 \<notin> set l \<Longrightarrow> u_strchr (l @ 10 # t) 10 = Some (length l)"
  by (induction l) auto

lemma strchr_none: "c \<notin> set s \<Longrightarrow> u_strchr s c = None"
  by (induction s) auto

section \<open>grep, cat and wc on a whole input\<close>

definition grep_output :: "u8 list \<Rightarrow> u8 list \<Rightarrow> u8 list" where
  "grep_output pattern s = concat (map (\<lambda>l. l @ [10]) (filter (match pattern) (lines s)))"

lemma grep_lines_output:
  assumes "stdio os fd inp outp" "0 \<notin> set s"
  shows "fst (grep_lines os pattern s e) = residue s
    \<and> inp (snd (grep_lines os pattern s e)) = inp e
    \<and> outp (snd (grep_lines os pattern s e)) = outp e @ grep_output pattern s"
  using assms(2)
proof (induction s arbitrary: e rule: line_induct)
  case (none s)
  then show ?case by (simp add: grep_lines.simps strchr_none residue_none grep_output_def lines_none)
next
  case (line l t)
  let ?e = "if match pattern l then snd (os_write os 1 (l @ [10]) e) else e"
  have q: "u_strchr (l @ 10 # t) 10 = Some (length l)" using line by (intro strchr_newline) auto
  have step: "grep_lines os pattern (l @ 10 # t) e = grep_lines os pattern t ?e"
    by (subst grep_lines.simps) (simp add: q)
  obtain e1 where w: "os_write os 1 (l @ [10]) e = (int (length (l @ [10])), e1)" "inp e1 = inp e" "outp e1 = outp e @ l @ [10]"
    using stdio_write [OF assms(1)] by metis
  have "inp ?e = inp e" "outp ?e @ grep_output pattern t = outp e @ grep_output pattern (l @ 10 # t)"
    using w line.hyps by (simp_all add: lines_Cons grep_output_def)
  moreover have "0 \<notin> set t" using line.prems by simp
  ultimately show ?case using line.IH [of ?e] unfolding step residue_Cons by simp
qed

lemma grep_loop_output:
  assumes io: "stdio os fd inp outp" and "0 \<notin> set buf" "10 \<notin> set buf" "length buf < GREP_BUF" "0 \<notin> set (inp e)"
    and "\<forall>l \<in> set (lines (buf @ inp e)). length l < GREP_BUF - 1"
  shows "\<exists>e'. grep_loop os pattern fd buf e = Some e' \<and> outp e' = outp e @ grep_output pattern (buf @ inp e)"
  using assms(2-)
proof (induction "length (inp e)" arbitrary: buf e rule: less_induct)
  case less
  let ?n = "int GREP_BUF - int (length buf) - 1"
  have n: "0 \<le> ?n" using less.prems(3) by simp
  obtain k e1 where rd: "os_read os fd ?n e = (int k, take k (inp e), e1)" "k \<le> nat ?n" "k \<le> length (inp e)"
    "0 < ?n \<and> inp e \<noteq> [] \<longrightarrow> 0 < k" "inp e1 = drop k (inp e)" "outp e1 = outp e"
    using stdio_read [OF io n, of e] .
  show ?case
  proof (cases "k = 0")
    case True
    then have "inp e = [] \<or> length buf = GREP_BUF - 1" using rd(4) n by auto
    then have "lines (buf @ inp e) = []"
    proof
      assume full: "length buf = GREP_BUF - 1"
      show ?thesis
      proof (rule ccontr)
        assume ne: "lines (buf @ inp e) \<noteq> []"
        then have "length (hd (lines (buf @ inp e))) < GREP_BUF - 1" using less.prems(5) by simp
        then show False using lines_long [OF less.prems(2) ne] full by simp
      qed
    qed (use less.prems(2) in \<open>simp add: lines_none\<close>)
    then show ?thesis using True rd by (subst grep_loop.simps) (simp add: grep_output_def)
  next
    case False
    let ?s = "buf @ take k (inp e)"
    obtain r e2 where g: "grep_lines os pattern ?s e1 = (r, e2)" by fastforce
    have whole: "buf @ inp e = ?s @ inp e1" using rd(5) by simp
    have "0 \<notin> set ?s" using less.prems(1,4) by (auto dest: in_set_takeD)
    then have out: "r = residue ?s" "inp e2 = inp e1" "outp e2 = outp e @ grep_output pattern ?s"
      using grep_lines_output [OF io, of ?s pattern e1] g rd(6) by simp_all
    have split: "lines (buf @ inp e) = lines ?s @ lines (r @ inp e2)" using lines_append [of ?s "inp e1"] whole out by simp
    have "length r < GREP_BUF"
    proof -
      have "length r \<le> length ?s" unfolding out residue_def using length_takeWhile_le [of _ "rev ?s"] by (metis length_rev)
      then show ?thesis using rd(2,3) n False by simp
    qed
    moreover have "length (inp e2) < length (inp e)" using rd(3,5) out(2) False by simp
    moreover have "0 \<notin> set r" using residue_subset [of ?s] \<open>0 \<notin> set ?s\<close> out(1) by blast
    moreover have "10 \<notin> set r" using residue_no_newline out(1) by simp
    moreover have "0 \<notin> set (inp e2)" using less.prems(4) rd(5) out(2) by (auto dest: in_set_dropD)
    moreover have "\<forall>l \<in> set (lines (r @ inp e2)). length l < GREP_BUF - 1" using less.prems(5) split by simp
    ultimately obtain e' where e': "grep_loop os pattern fd r e2 = Some e'" "outp e' = outp e2 @ grep_output pattern (r @ inp e2)"
      using less.hyps [of e2 r] by blast
    have "grep_loop os pattern fd buf e = grep_loop os pattern fd r e2"
      using False rd(1) g by (subst grep_loop.simps) simp
    then show ?thesis using e' out(3) split by (simp add: grep_output_def)
  qed
qed

lemma cat_copies_all:
  assumes io: "stdio os fd inp outp"
  shows "\<exists>e'. cat os fd e = Some (Return () e') \<and> inp e' = [] \<and> outp e' = outp e @ inp e"
proof (induction "length (inp e)" arbitrary: e rule: less_induct)
  case less
  obtain k e1 where rd: "os_read os fd 512 e = (int k, take k (inp e), e1)" "k \<le> nat 512" "k \<le> length (inp e)"
    "(0 :: int) < 512 \<and> inp e \<noteq> [] \<longrightarrow> 0 < k" "inp e1 = drop k (inp e)" "outp e1 = outp e"
    using stdio_read [OF io, of 512 e] by auto
  show ?case
  proof (cases "k = 0")
    case True
    then show ?thesis using rd by (subst cat.simps) simp
  next
    case False
    obtain e2 where w: "os_write os 1 (take k (inp e)) e1 = (int (length (take k (inp e))), e2)" "inp e2 = inp e1"
      "outp e2 = outp e1 @ take k (inp e)" using stdio_write [OF io] .
    have "length (inp e2) < length (inp e)" using False rd w by simp
    then obtain e' where "cat os fd e2 = Some (Return () e')" "inp e' = []" "outp e' = outp e2 @ inp e2" using less by blast
    moreover have "cat os fd e = cat os fd e2" using False rd w by (subst cat.simps) simp
    ultimately show ?thesis using rd w by simp
  qed
qed

lemma wc_loop_all:
  assumes io: "stdio os fd inp outp"
  shows "\<exists>e'. wc_loop os fd c e = Some (0, fold wc_step (inp e) c, e') \<and> outp e' = outp e"
proof (induction "length (inp e)" arbitrary: c e rule: less_induct)
  case less
  obtain k e1 where rd: "os_read os fd 512 e = (int k, take k (inp e), e1)" "k \<le> nat 512" "k \<le> length (inp e)"
    "(0 :: int) < 512 \<and> inp e \<noteq> [] \<longrightarrow> 0 < k" "inp e1 = drop k (inp e)" "outp e1 = outp e"
    using stdio_read [OF io, of 512 e] by auto
  show ?case
  proof (cases "k = 0")
    case True
    then show ?thesis using rd by (subst wc_loop.simps) simp
  next
    case False
    let ?c = "fold wc_step (take k (inp e)) c"
    have "length (inp e1) < length (inp e)" using False rd by simp
    then obtain e' where "wc_loop os fd ?c e1 = Some (0, fold wc_step (inp e1) ?c, e')" "outp e' = outp e1" using less by blast
    moreover have "wc_loop os fd c e = wc_loop os fd ?c e1" using False rd by (subst wc_loop.simps) simp
    moreover have "fold wc_step (inp e1) ?c = fold wc_step (inp e) c"
      unfolding rd(5) by (metis append_take_drop_id fold_append comp_apply)
    ultimately show ?thesis using rd by simp
  qed
qed

text \<open>What \<open>wc\<close> counts: newlines, beginnings of words, bytes.\<close>

definition blank :: "u8 \<Rightarrow> bool" where
  "blank b \<longleftrightarrow> b \<in> set wc_blanks"

definition word_starts :: "u8 list \<Rightarrow> nat" where
  "word_starts s = length (filter (\<lambda>i. \<not> blank (s ! i) \<and> (i = 0 \<or> blank (s ! (i - 1)))) [0..<length s])"

lemma strchr_blanks: "u_strchr wc_blanks b = None \<longleftrightarrow> \<not> blank b" "(\<exists>y. u_strchr wc_blanks b = Some y) \<longleftrightarrow> blank b"
  by (auto simp: wc_blanks_def blank_def)

lemma word_starts_snoc:
  "word_starts (s @ [b]) = word_starts s + (if \<not> blank b \<and> (s = [] \<or> blank (last s)) then 1 else 0)"
proof -
  let ?P = "\<lambda>s i. \<not> blank (s ! i) \<and> (i = 0 \<or> blank (s ! (i - 1)))"
  have "filter (?P (s @ [b])) [0..<length s] = filter (?P s) [0..<length s]"
    by (intro filter_cong) (auto simp: nth_append)
  moreover have "?P (s @ [b]) (length s) \<longleftrightarrow> \<not> blank b \<and> (s = [] \<or> blank (last s))"
    by (cases "s = []") (auto simp: nth_append last_conv_nth)
  ultimately show ?thesis unfolding word_starts_def by simp
qed

lemma wc_step_all:
  "fold wc_step s (0, 0, 0, False) =
     (int (count_list s 10), int (word_starts s), int (length s), s \<noteq> [] \<and> \<not> blank (last s))"
proof (induction s rule: rev_induct)
  case Nil
  then show ?case by (simp add: word_starts_def)
next
  case (snoc b s)
  then show ?case by (auto simp: word_starts_snoc strchr_blanks Let_def)
qed

lemma sext32_small: "n < 2 ^ 31 \<Longrightarrow> sext32 (of_nat n) = of_nat n"
proof -
  assume n: "n < 2 ^ 31"
  have "sint (of_nat n :: u32) = int n" using n by (simp add: signed_of_nat signed_take_bit_int_eq_self)
  moreover have "(ucast (of_nat n :: u64) :: u32) = of_nat n" by (rule bit_word_eqI) (simp add: bit_simps)
  ultimately show ?thesis by (simp add: sext32_def scast_eq)
qed

lemma fold_putc:
  assumes "stdio os fd inp outp"
  shows "outp (fold (putc os 1) bs e) = outp e @ bs"
proof (induction bs arbitrary: e)
  case (Cons b bs)
  obtain e1 where "os_write os 1 [b] e = (int (length [b]), e1)" "outp e1 = outp e @ [b]" using stdio_write [OF assms] by metis
  then show ?case using Cons [of e1] by (simp add: putc_def)
qed simp

text \<open>
  For an input shorter than \<open>2 ^ 31\<close> bytes, \<open>wc\<close> reads all of it and prints its numbers of newlines, of words
  and of bytes, in decimal, and the name.
\<close>
theorem wc_counts:
  assumes io: "stdio os fd inp outp" and len: "length (inp e) < 2 ^ 31" and name: "0 \<notin> set name"
  shows "\<exists>e'. wc os fd name e = Some (Return () e') \<and>
    outp e' = outp e @ decimal (count_list (inp e) 10) @ [32] @ decimal (word_starts (inp e)) @ [32]
      @ decimal (length (inp e)) @ [32] @ name @ [10]"
proof -
  obtain e1 where loop: "wc_loop os fd (0, 0, 0, False) e = Some (0, fold wc_step (inp e) (0, 0, 0, False), e1)" "outp e1 = outp e"
    using wc_loop_all [OF io] by metis
  have "count_list (inp e) 10 \<le> length (inp e)" by (rule count_le_length)
  moreover have "word_starts (inp e) \<le> length (inp e)"
    unfolding word_starts_def by (rule order_trans [OF length_filter_le]) simp
  ultimately have small: "count_list (inp e) 10 < 2 ^ 31" "word_starts (inp e) < 2 ^ 31" using len by linarith+
  have num: "u_printint (sext32 (of_nat n)) 10 True = decimal n" if "n < 2 ^ 31" for n
  proof -
    have "sint (of_nat n :: u64) = int n" "unat (of_nat n :: u64) = n"
      using that by (simp_all add: signed_of_nat signed_take_bit_int_eq_self unsigned_of_nat take_bit_nat_eq_self)
    then show ?thesis using sext32_small [OF that] by (simp add: u_printint_dec)
  qed
  have name': "takeWhile (\<lambda>c. c \<noteq> 0) name = name" using name by (subst takeWhile_eq_all_conv) auto
  have fmt: "cstr ''%d %d %d %s'' @ [10] = [37, 100, 32, 37, 100, 32, 37, 100, 32, 37, 115, 10]"
    by (simp add: cstr_def of_char_def)
  have d: "u_directive (100 # f) (UNum (of_nat n) # as) = Some (1, decimal n, as)" if "n < 2 ^ 31" for f as n
    using num [OF that] by (simp add: u_directive_def Let_def u_num_def)
  have s: "u_directive (115 # f) (UStr (Some name) # as) = Some (1, name, as)" for f as
    unfolding u_directive_def Let_def by (simp add: name' del: takeWhile_eq_all_conv)
  have "u_format (cstr ''%d %d %d %s'' @ [10])
      [UNum (of_nat a), UNum (of_nat b), UNum (of_nat c), UStr (Some name)] =
    Some (decimal a @ [32] @ decimal b @ [32] @ decimal c @ [32] @ name @ [10])"
    if "a < 2 ^ 31" "b < 2 ^ 31" "c < 2 ^ 31" for a b c
    unfolding fmt by (simp add: d [OF that(1)] d [OF that(2)] d [OF that(3)] s)
  moreover have "outp (putc os 1 b e') = outp e' @ [b]" for b e' using fold_putc [OF io, of "[b]"] by simp
  ultimately show ?thesis using loop small len
    by (simp add: wc_def wc_step_all printf_def vprintf_def fold_putc [OF io])
qed

section \<open>Properties of the utilities\<close>

text \<open>
  C33: the recursive matcher of \<open>grep\<close> decides the language of its pattern: a text matches when some part of
  it, at the beginning for a leading caret and at the end for a final dollar sign, is a word of the pattern,
  where a dot stands for any character and a starred character for any number of them.
\<close>
theorem match_language:
  assumes "0 \<notin> set re" "0 \<notin> set ts"
  shows "match re ts \<longleftrightarrow>
    (\<exists>pre w post. ts = pre @ w @ post \<and> w \<in> lang (fst (items (body re)))
       \<and> (at_start re \<longrightarrow> pre = []) \<and> (at_end re \<longrightarrow> post = []))"
proof (cases "at_start re")
  case True
  then have "match re ts = begins (items (tl re)) ts" using assms matcher(1) [of "tl re" ts]
    by (cases re) (simp_all add: match_def at_start_def)
  then show ?thesis using True by (auto simp: begins_def body_def at_end_def)
next
  case False
  then have "match re ts \<longleftrightarrow> (\<exists>pre t. ts = pre @ t \<and> begins (items re) t)"
    using assms match_loop_suffix [of re ts] by (simp add: match_def at_start_def)
  then show ?thesis using False by (auto simp: begins_def body_def at_end_def)
qed

theorem match_language_witness:
  "match [94, 97, 42, 98, 36] [97, 97, 98] \<longleftrightarrow>
    (\<exists>pre w post. [97, 97, 98] = pre @ w @ post \<and> w \<in> lang (fst (items (body [94, 97, 42, 98, 36])))
       \<and> (at_start [94, 97, 42, 98, 36] \<longrightarrow> pre = []) \<and> (at_end [94, 97, 42, 98, 36] \<longrightarrow> post = []))"
  by (rule match_language) simp_all

text \<open>
  C34: \<open>grep\<close> ends and prints exactly the complete lines of its input that match, each with its newline and in
  order, however the reads split the input, as long as no line is longer than the buffer can hold.
\<close>
theorem grep_prints_matches:
  assumes "stdio os fd inp outp" "0 \<notin> set (inp e)" "\<forall>l \<in> set (lines (inp e)). length l < GREP_BUF - 1"
  shows "\<exists>e'. grep os pattern fd e = Some e' \<and>
    outp e' = outp e @ concat (map (\<lambda>l. l @ [10]) (filter (match pattern) (lines (inp e))))"
  using grep_loop_output [of os fd inp outp "[]" e pattern] assms by (simp add: grep_def grep_output_def GREP_BUF_def)

text \<open>An environment of two lists, whose reads return at most three bytes at a time.\<close>

definition short_reads :: "(u8 list \<times> u8 list) os" where
  "short_reads = \<lparr>os_read = \<lambda>fd n (i, w). (int (min (min (nat n) 3) (length i)), take (min (nat n) 3) i, drop (min (nat n) 3) i, w),
     os_write = \<lambda>fd bs (i, w). (int (length bs), i, w @ bs), os_open = \<lambda>p m e. (3, e), os_close = \<lambda>fd e. (0, e),
     os_fstat = \<lambda>fd e. (- 1, \<lparr>st_dev = 0, st_ino = 0, st_type = 0, st_nlink = 0, st_size = 0\<rparr>, e),
     os_sbrk = \<lambda>n k e. (- 1, e), os_link = \<lambda>p q e. (- 1, e), os_unlink = \<lambda>p e. (- 1, e), os_mkdir = \<lambda>p e. (- 1, e),
     os_kill = \<lambda>p e. (- 1, e), os_sync = \<lambda>e. e\<rparr>"

lemma short_reads_stdio: "stdio short_reads fd fst snd"
proof -
  have "\<exists>k e'. os_read short_reads fd n e = (int k, take k (fst e), e') \<and> k \<le> nat n \<and> k \<le> length (fst e)
      \<and> (0 < n \<and> fst e \<noteq> [] \<longrightarrow> 0 < k) \<and> fst e' = drop k (fst e) \<and> snd e' = snd e" for n e
    by (intro exI [of _ "min (min (nat n) 3) (length (fst e))"]) (auto simp: short_reads_def min_def split: prod.splits)
  moreover have "\<exists>e'. os_write short_reads 1 bs e = (int (length bs), e') \<and> fst e' = fst e \<and> snd e' = snd e @ bs" for bs e
    by (auto simp: short_reads_def split: prod.splits)
  ultimately show ?thesis unfolding stdio_def by blast
qed

theorem grep_prints_matches_witness:
  "\<exists>e'. grep short_reads [97] 0 ([98, 97, 99, 10, 98, 10, 97, 10, 97], []) = Some e' \<and> snd e' = [98, 97, 99, 10, 97, 10]"
proof -
  have l: "lines [98, 97, 99, 10, 98, 10, 97, 10, 97] = [[98, 97, 99], [98], [97]]" by (simp add: lines.simps)
  show ?thesis
    using grep_prints_matches [OF short_reads_stdio, of "([98, 97, 99, 10, 98, 10, 97, 10, 97], [])" "[97]" 0]
    by (simp add: l GREP_BUF_def match_def matchhere.simps)
qed

end
