(* ===== verification/Xv6_Umalloc.thy ===== *)
theory Xv6_Umalloc
  imports Xv6_Ulib
begin

text \<open>
  The user-level memory allocator, umalloc.c. The free blocks form a circular list through their headers,
  in the order of their addresses, that starts at the static header \<open>base\<close>. The model keeps the two fields
  of the header at each address; pointers are byte addresses (user addresses do not wrap around) and a
  \<open>Header *\<close> advances in units of 16 bytes. Sizes are \<open>uint\<close> and reduced modulo \<open>2 ^ 32\<close>. The list is
  walked with \<open>partial_function\<close>: that the walks end on every well-formed heap is proved.
\<close>

definition HEADER :: nat where "HEADER = 16"

record 'e uheap =
  hptr :: "nat \<Rightarrow> nat"
  hsize :: "nat \<Rightarrow> nat"
  freep :: nat
  uenv :: 'e

section \<open>free\<close>

partial_function (option) free_find :: "'e uheap \<Rightarrow> nat \<Rightarrow> nat \<Rightarrow> nat option" where
  "free_find h bp p =
     (if bp > p \<and> bp < hptr h p then Some p
      else if p \<ge> hptr h p \<and> (bp > p \<or> bp < hptr h p) then Some p
      else free_find h bp (hptr h p))"

definition join_upper :: "nat \<Rightarrow> nat \<Rightarrow> 'e uheap \<Rightarrow> 'e uheap" where
  "join_upper bp p h =
     (if bp + HEADER * hsize h bp = hptr h p then
        h\<lparr>hsize := (hsize h)(bp := (hsize h bp + hsize h (hptr h p)) mod 2 ^ 32),
          hptr := (hptr h)(bp := hptr h (hptr h p))\<rparr>
      else h\<lparr>hptr := (hptr h)(bp := hptr h p)\<rparr>)"

definition join_lower :: "nat \<Rightarrow> nat \<Rightarrow> 'e uheap \<Rightarrow> 'e uheap" where
  "join_lower bp p h =
     (if p + HEADER * hsize h p = bp then
        h\<lparr>hsize := (hsize h)(p := (hsize h p + hsize h bp) mod 2 ^ 32), hptr := (hptr h)(p := hptr h bp)\<rparr>
      else h\<lparr>hptr := (hptr h)(p := bp)\<rparr>)"

definition free :: "nat \<Rightarrow> 'e uheap \<Rightarrow> 'e uheap option" where
  "free ap h =
     (let bp = ap - HEADER in
      map_option (\<lambda>p. (join_lower bp p (join_upper bp p h))\<lparr>freep := p\<rparr>) (free_find h bp (freep h)))"

section \<open>malloc\<close>

text \<open>\<open>morecore\<close> returns \<open>freep\<close>, or 0 when the break cannot be moved. The argument of \<open>sbrk\<close> is an \<open>int\<close>.\<close>

definition morecore :: "'e os \<Rightarrow> nat \<Rightarrow> 'e uheap \<Rightarrow> (nat \<times> 'e uheap) option" where
  "morecore os nu h =
     (let nu = (if nu < 4096 then 4096 else nu) in
      case sbrk os (i32 (int (nu * HEADER))) (uenv h) of (p, e) \<Rightarrow>
        if p = - 1 then Some (0, h\<lparr>uenv := e\<rparr>)
        else
          Option.bind (free (unat p + HEADER) (h\<lparr>uenv := e, hsize := (hsize h)(unat p := nu)\<rparr>)) (\<lambda>h'.
          Some (freep h', h')))"

text \<open>The block \<open>p\<close> is large enough: it is taken off the list, or its upper end is cut off.\<close>

definition take_block :: "nat \<Rightarrow> nat \<Rightarrow> nat \<Rightarrow> 'e uheap \<Rightarrow> nat \<times> 'e uheap" where
  "take_block nunits prevp p h =
     (if hsize h p = nunits then (p + HEADER, h\<lparr>hptr := (hptr h)(prevp := hptr h p), freep := prevp\<rparr>)
      else
        (let q = p + HEADER * (hsize h p - nunits) in
         (q + HEADER, h\<lparr>hsize := (hsize h)(p := hsize h p - nunits, q := nunits), freep := prevp\<rparr>)))"

partial_function (option) malloc_loop :: "'e os \<Rightarrow> nat \<Rightarrow> nat \<Rightarrow> nat \<Rightarrow> 'e uheap \<Rightarrow> (nat \<times> 'e uheap) option" where
  "malloc_loop os nunits prevp p h =
     (if hsize h p \<ge> nunits then Some (take_block nunits prevp p h)
      else if p = freep h then
        Option.bind (morecore os nunits h) (\<lambda>(p', h').
        if p' = 0 then Some (0, h') else malloc_loop os nunits p' (hptr h' p') h')
      else malloc_loop os nunits p (hptr h p) h)"

text \<open>The size asked for, in units, with the header; \<open>sizeof\<close> makes the sum a 64-bit one.\<close>

definition units :: "nat \<Rightarrow> nat" where
  "units nbytes = (nbytes + HEADER - 1) div HEADER + 1"

definition malloc :: "'e os \<Rightarrow> nat \<Rightarrow> nat \<Rightarrow> 'e uheap \<Rightarrow> (nat \<times> 'e uheap) option" where
  "malloc os base nbytes h =
     (let nunits = units nbytes;
          h' = (if freep h = 0 then
                  h\<lparr>hptr := (hptr h)(base := base), freep := base, hsize := (hsize h)(base := 0)\<rparr>
                else h) in
      malloc_loop os nunits (freep h') (hptr h' (freep h')) h')"

section \<open>The list of free blocks\<close>

text \<open>
  \<open>fchain h z xs\<close>: the blocks \<open>xs\<close> follow each other, each ends below the next one with at least one unit
  between them, and the last one points to \<open>z\<close>. \<open>upto h xs y\<close> is the part of a fchain before \<open>y\<close>.
\<close>

fun fchain :: "'e uheap \<Rightarrow> nat \<Rightarrow> nat list \<Rightarrow> bool" where
  "fchain h z [] = False"
| "fchain h z [x] = (hptr h x = z)"
| "fchain h z (x # y # ys) = (hptr h x = y \<and> x + HEADER * hsize h x < y \<and> fchain h z (y # ys))"

fun upto_block :: "'e uheap \<Rightarrow> nat list \<Rightarrow> nat \<Rightarrow> bool" where
  "upto_block h [] y = True"
| "upto_block h (x # xs) y = (hptr h x = hd (xs @ [y]) \<and> x + HEADER * hsize h x < hd (xs @ [y]) \<and> upto_block h xs y)"

lemma chain_split: "fchain h z (xs @ y # ys) \<longleftrightarrow> upto_block h xs y \<and> fchain h z (y # ys)"
proof (induction xs)
  case (Cons x xs)
  then show ?case by (cases xs) auto
qed simp

lemma upto_split: "upto_block h (xs @ y # ys) z \<longleftrightarrow> upto_block h xs y \<and> upto_block h (y # ys) z"
proof (induction xs)
  case (Cons x xs)
  then show ?case by (cases xs) auto
qed simp

lemma upto_less: "upto_block h xs y \<Longrightarrow> \<forall>x \<in> set xs. x + HEADER * hsize h x < y"
proof (induction xs)
  case (Cons a xs)
  then show ?case by (cases xs) auto
qed simp

lemma chain_later: "fchain h z (x # xs) \<Longrightarrow> y \<in> set xs \<Longrightarrow> x + HEADER * hsize h x < y"
proof (induction xs arbitrary: x)
  case (Cons a xs)
  then have "x + HEADER * hsize h x < a" "fchain h z (a # xs)" by simp_all
  then show ?case using Cons by fastforce
qed simp

lemma chain_sorted: "fchain h z xs \<Longrightarrow> sorted_wrt (<) xs"
proof (induction xs)
  case (Cons x xs)
  have "fchain h z xs" if "xs \<noteq> []" using Cons.prems that by (cases xs) auto
  moreover have "\<forall>y \<in> set xs. x < y" using chain_later [OF Cons.prems] by fastforce
  ultimately show ?case using Cons.IH by (cases "xs = []") auto
qed simp

lemma fchain_cong:
  "(\<And>x. x \<in> set xs \<Longrightarrow> hptr h' x = hptr h x \<and> hsize h' x = hsize h x) \<Longrightarrow> fchain h' z xs = fchain h z xs"
  by (induction xs rule: fchain.induct [of _ h z]) auto

lemma upto_cong:
  "(\<And>x. x \<in> set xs \<Longrightarrow> hptr h' x = hptr h x \<and> hsize h' x = hsize h x) \<Longrightarrow> upto_block h' xs y = upto_block h xs y"
  by (induction xs) auto

text \<open>The pointers of a fchain that closes at its first block lead around it.\<close>

lemma chain_next:
  assumes "fchain h (hd xs) xs" "i < length xs"
  shows "hptr h (xs ! i) = xs ! (Suc i mod length xs)"
proof -
  have split: "xs = take i xs @ xs ! i # drop (Suc i) xs" using assms(2) by (rule id_take_nth_drop)
  then have c: "fchain h (hd xs) (xs ! i # drop (Suc i) xs)" using assms(1) chain_split by metis
  show ?thesis
  proof (cases "Suc i < length xs")
    case True
    then have "drop (Suc i) xs = xs ! Suc i # drop (Suc (Suc i)) xs" by (rule Cons_nth_drop_Suc [symmetric])
    then show ?thesis using c True by simp
  next
    case False
    then have "Suc i = length xs" using assms(2) by simp
    then show ?thesis using c by (simp add: hd_conv_nth [symmetric] flip: length_greater_0_conv)
  qed
qed

definition blocks :: "'e uheap \<Rightarrow> nat list \<Rightarrow> nat set" where
  "blocks h xs = (\<Union>x \<in> set xs. {x ..< x + HEADER * hsize h x})"

text \<open>
  A well-formed heap with the free bytes \<open>F\<close>: the fchain of free blocks closes at \<open>base\<close>, which has no
  space, \<open>freep\<close> is on it, no free block is empty, and all blocks lie between \<open>base\<close> and the break.
\<close>

definition heap_list :: "nat \<Rightarrow> nat \<Rightarrow> 'e uheap \<Rightarrow> nat list \<Rightarrow> bool" where
  "heap_list base brk h xs \<longleftrightarrow>
     fchain h base xs \<and> hd xs = base \<and> 0 < base \<and> freep h \<in> set xs \<and> hsize h base = 0 \<and> brk \<le> 2 ^ 36 \<and>
     (\<forall>x \<in> set (tl xs). 0 < hsize h x \<and> base + HEADER \<le> x \<and> x + HEADER * hsize h x \<le> brk)"

definition heap_ok :: "nat \<Rightarrow> nat \<Rightarrow> 'e uheap \<Rightarrow> nat set \<Rightarrow> bool" where
  "heap_ok base brk h F \<longleftrightarrow> (\<exists>xs. heap_list base brk h xs \<and> F = blocks h xs)"

lemma heap_listD:
  assumes "heap_list base brk h xs"
  shows "fchain h (hd xs) xs" "xs \<noteq> []" "xs = base # tl xs" "distinct xs" "sorted_wrt (<) xs"
proof -
  show ne: "xs \<noteq> []" and c: "fchain h (hd xs) xs" using assms by (auto simp: heap_list_def)
  then show "xs = base # tl xs" using assms by (metis heap_list_def list.collapse)
  show s: "sorted_wrt (<) xs" using chain_sorted [OF c] .
  then show "distinct xs" by (simp add: strict_sorted_iff)
qed

lemma chain_link: "fchain h z (pre @ p # q # post) \<Longrightarrow> hptr h p = q \<and> p + HEADER * hsize h p < q"
  by (simp add: chain_split)

lemma chain_last: "fchain h z (pre @ [p]) \<Longrightarrow> hptr h p = z"
  by (simp add: chain_split)

text \<open>The search of \<open>free\<close> stops at the last block below the one to insert, wherever it starts.\<close>

lemma free_find_stop:
  assumes c: "fchain h (hd xs) xs" and xs: "xs = pre @ p # post" and lo: "\<forall>x \<in> set (pre @ [p]). x < bp" and hi: "\<forall>x \<in> set post. bp < x"
  shows "free_find h bp p = Some p"
proof (cases post)
  case Nil
  then have "hptr h p = hd xs" using c xs chain_last by metis
  moreover have "hd xs \<le> p" using chain_sorted [OF c] xs by (cases pre) (auto simp: sorted_wrt_append)
  ultimately show ?thesis using lo by (subst free_find.simps) simp
next
  case (Cons q qs)
  then have "hptr h p = q" using chain_link c xs by metis
  then show ?thesis using lo hi Cons by (subst free_find.simps) simp
qed

lemma free_find_go:
  assumes c: "fchain h (hd xs) xs" and xs: "xs = pre @ p # post" and lo: "\<forall>x \<in> set (pre @ [p]). x < bp" and hi: "\<forall>x \<in> set post. bp < x"
    and i: "i < length xs" "i \<noteq> length pre"
  shows "free_find h bp (xs ! i) = free_find h bp (xs ! (Suc i mod length xs))"
proof -
  let ?j = "Suc i mod length xs"
  have nx: "hptr h (xs ! i) = xs ! ?j" using chain_next [OF c i(1)] .
  have low: "xs ! k < bp" if "k \<le> length pre" for k using that lo xs by (auto simp: nth_append less_Suc_eq_le intro: nth_mem)
  have high: "bp < xs ! k" if "length pre < k" "k < length xs" for k using that hi xs by (auto simp: nth_append nth_Cons')
  have sorted: "xs ! a < xs ! b" if "a < b" "b < length xs" for a b using chain_sorted [OF c] that by (simp add: sorted_wrt_iff_nth_less)
  show ?thesis
  proof (cases "i < length pre")
    case True
    then have "?j = Suc i" "xs ! ?j < bp" "xs ! i < xs ! Suc i" using xs low [of "Suc i"] sorted [of i "Suc i"] by simp_all
    then show ?thesis using low [of i] True nx by (subst free_find.simps) simp
  next
    case False
    then have up: "bp < xs ! i" using high [of i] i by simp
    show ?thesis
    proof (cases "Suc i < length xs")
      case True
      then have "xs ! i < xs ! ?j" using sorted [of i "Suc i"] by simp
      then show ?thesis using up nx by (subst free_find.simps) simp
    next
      case False
      then have "Suc i = length xs" using i(1) by simp
      then have "?j = 0" by simp
      then show ?thesis using up nx low [of 0] by (subst free_find.simps) simp
    qed
  qed
qed

lemma free_find_all:
  assumes c: "fchain h (hd xs) xs" and xs: "xs = pre @ p # post" and lo: "\<forall>x \<in> set (pre @ [p]). x < bp" and hi: "\<forall>x \<in> set post. bp < x"
    and f: "f \<in> set xs"
  shows "free_find h bp f = Some p"
proof -
  let ?n = "length xs"
  have n: "0 < ?n" using xs by simp
  have "free_find h bp (xs ! ((length pre + ?n - k) mod ?n)) = Some p" if "k \<le> ?n" for k
    using that
  proof (induction k)
    case 0
    have "(length pre + ?n) mod ?n = length pre" using xs by (simp only: mod_add_self2) simp
    moreover have "xs ! length pre = p" using xs by simp
    ultimately show ?case using free_find_stop [OF c xs lo hi] by simp
  next
    case (Suc k)
    let ?i = "(length pre + ?n - Suc k) mod ?n"
    have i: "?i < ?n" using n by simp
    have "Suc (length pre + ?n - Suc k) = length pre + ?n - k" using Suc.prems by simp
    then have "Suc ?i mod ?n = (length pre + ?n - k) mod ?n" by (metis mod_Suc_eq)
    then show ?case using free_find_go [OF c xs lo hi i] free_find_stop [OF c xs lo hi] Suc xs
      by (cases "?i = length pre") (simp_all add: nth_append)
  qed note all = this
  obtain j where j: "j < ?n" "f = xs ! j" using f by (auto simp: in_set_conv_nth)
  have pre: "length pre < ?n" using xs by simp
  define k where "k = (if j \<le> length pre then length pre - j else length pre + ?n - j)"
  have "k \<le> ?n" "(length pre + ?n - k) mod ?n = j" using j(1) pre by (auto simp: k_def)
  then show ?thesis using all [of k] j(2) by simp
qed

section \<open>Linking a block into the list\<close>

lemma chain_Cons: "fchain h z (x # ys) \<longleftrightarrow> hptr h x = hd (ys @ [z]) \<and> (ys \<noteq> [] \<longrightarrow> x + HEADER * hsize h x < hd ys \<and> fchain h z ys)"
  by (cases ys) auto

lemma blocks_Cons: "blocks h (x # xs) = {x ..< x + HEADER * hsize h x} \<union> blocks h xs"
  by (simp add: blocks_def)

lemma blocks_append: "blocks h (xs @ ys) = blocks h xs \<union> blocks h ys"
  by (simp add: blocks_def)

lemma blocks_cong: "(\<And>x. x \<in> set xs \<Longrightarrow> hsize h' x = hsize h x) \<Longrightarrow> blocks h' xs = blocks h xs"
  by (simp add: blocks_def)

lemma join_interval: "{a ..< a + HEADER * n} \<union> {a + HEADER * n ..< a + HEADER * n + HEADER * m} = {a ..< a + HEADER * (n + m)}"
  by (auto simp: algebra_simps)

lemma units_bound: "0 < x \<Longrightarrow> x + HEADER * n \<le> 2 ^ 36 \<Longrightarrow> n < 2 ^ 32"
  by (simp add: HEADER_def)

lemma join_upper_links:
  assumes c: "fchain h z (p # post)" and bp: "bp \<notin> set (p # post)" "0 < bp" "z < bp"
    and room: "post \<noteq> [] \<longrightarrow> bp + HEADER * hsize h bp \<le> hd post" and top: "\<forall>x \<in> set (bp # post). x + HEADER * hsize h x \<le> 2 ^ 36"
  defines "h1 \<equiv> join_upper bp p h"
  shows "\<exists>rest. fchain h1 z (bp # rest) \<and> set rest \<subseteq> set post
    \<and> blocks h1 (bp # rest) = blocks h post \<union> {bp ..< bp + HEADER * hsize h bp}
    \<and> (\<forall>x. x \<noteq> bp \<longrightarrow> hptr h1 x = hptr h x \<and> hsize h1 x = hsize h x) \<and> freep h1 = freep h \<and> uenv h1 = uenv h
    \<and> hsize h bp \<le> hsize h1 bp \<and> (bp + HEADER * hsize h1 bp = bp + HEADER * hsize h bp \<or> (\<exists>q \<in> set post. bp + HEADER * hsize h1 bp = q + HEADER * hsize h q))"
proof (cases "bp + HEADER * hsize h bp = hptr h p")
  case True
  have "hptr h p = hd (post @ [z])" using c by (simp add: chain_Cons)
  then obtain q qs where post: "post = q # qs" "hptr h p = q" using True bp(3) by (cases post) auto
  let ?n = "hsize h bp + hsize h q"
  have q: "q = bp + HEADER * hsize h bp" using True post by simp
  have "bp + HEADER * ?n \<le> 2 ^ 36" using top post q by (auto simp: algebra_simps)
  then have small: "?n mod 2 ^ 32 = ?n" using units_bound [OF bp(2)] by simp
  have h1: "h1 = h\<lparr>hsize := (hsize h)(bp := ?n), hptr := (hptr h)(bp := hptr h q)\<rparr>"
    using True post small by (simp add: h1_def join_upper_def)
  have cq: "fchain h z (q # qs)" using c post by simp
  have "fchain h1 z qs = fchain h z qs" "blocks h1 qs = blocks h qs" using bp(1) post by (auto simp: h1 intro!: fchain_cong blocks_cong)
  then have "fchain h1 z (bp # qs)" using cq q by (auto simp: chain_Cons h1 algebra_simps)
  moreover have "blocks h1 (bp # qs) = blocks h post \<union> {bp ..< bp + HEADER * hsize h bp}"
    using \<open>blocks h1 qs = blocks h qs\<close> q post join_interval [of bp "hsize h bp" "hsize h q"] by (auto simp: blocks_Cons h1)
  ultimately show ?thesis using post q by (intro exI [of _ qs]) (auto simp: h1 algebra_simps)
next
  case False
  have h1: "h1 = h\<lparr>hptr := (hptr h)(bp := hptr h p)\<rparr>" using False by (simp add: h1_def join_upper_def)
  have "fchain h1 z post = fchain h z post" "blocks h1 post = blocks h post" using bp(1) by (auto simp: h1 intro!: fchain_cong blocks_cong)
  then have "fchain h1 z (bp # post)" using c room False by (cases post) (auto simp: chain_Cons h1)
  then show ?thesis using \<open>blocks h1 post = blocks h post\<close> by (intro exI [of _ post]) (auto simp: h1 blocks_Cons)
qed

lemma join_lower_links:
  assumes c: "fchain h z (bp # rest)" and p: "p \<notin> set (bp # rest)" "0 < p" and room: "p + HEADER * hsize h p \<le> bp"
    and top: "bp + HEADER * hsize h bp \<le> 2 ^ 36"
  defines "h1 \<equiv> join_lower bp p h"
  shows "\<exists>ys. fchain h1 z (p # ys) \<and> set ys \<subseteq> set (bp # rest) \<and> blocks h1 (p # ys) = blocks h (p # bp # rest)
    \<and> (\<forall>x. x \<noteq> p \<longrightarrow> hptr h1 x = hptr h x \<and> hsize h1 x = hsize h x) \<and> freep h1 = freep h \<and> uenv h1 = uenv h
    \<and> hsize h p \<le> hsize h1 p \<and> (hsize h1 p = hsize h p \<or> p + HEADER * hsize h p = bp \<and> p + HEADER * hsize h1 p = bp + HEADER * hsize h bp)"
proof (cases "p + HEADER * hsize h p = bp")
  case True
  let ?n = "hsize h p + hsize h bp"
  have "p + HEADER * ?n \<le> 2 ^ 36" using top True by (simp add: algebra_simps)
  then have small: "?n mod 2 ^ 32 = ?n" using units_bound [OF p(2)] by simp
  have h1: "h1 = h\<lparr>hsize := (hsize h)(p := ?n), hptr := (hptr h)(p := hptr h bp)\<rparr>" using True small by (simp add: h1_def join_lower_def)
  have "fchain h1 z rest = fchain h z rest" "blocks h1 rest = blocks h rest" using p(1) by (auto simp: h1 intro!: fchain_cong blocks_cong)
  then have "fchain h1 z (p # rest)" using c True by (auto simp: chain_Cons h1 algebra_simps)
  moreover have "blocks h1 (p # rest) = blocks h (p # bp # rest)"
    using \<open>blocks h1 rest = blocks h rest\<close> True join_interval [of p "hsize h p" "hsize h bp"] by (auto simp: blocks_Cons h1)
  ultimately show ?thesis using True by (intro exI [of _ rest]) (auto simp: h1 algebra_simps)
next
  case False
  have h1: "h1 = h\<lparr>hptr := (hptr h)(p := bp)\<rparr>" using False by (simp add: h1_def join_lower_def)
  have "fchain h1 z (bp # rest) = fchain h z (bp # rest)" "blocks h1 (bp # rest) = blocks h (bp # rest)" using p(1) by (auto simp: h1 intro!: fchain_cong blocks_cong)
  then have "fchain h1 z (p # bp # rest)" using c room False by (simp add: h1)
  then show ?thesis using \<open>blocks h1 (bp # rest) = blocks h (bp # rest)\<close> by (intro exI [of _ "bp # rest"]) (auto simp: h1 blocks_Cons)
qed

lemma sorted_around:
  fixes b :: nat
  assumes "sorted_wrt (<) xs" "xs \<noteq> []" "hd xs < b" "b \<notin> set xs"
  obtains pre p post where "xs = pre @ p # post" "\<forall>x \<in> set (pre @ [p]). x < b" "\<forall>x \<in> set post. b < x"
proof -
  let ?lo = "takeWhile (\<lambda>x. x < b) xs" and ?hi = "dropWhile (\<lambda>x. x < b) xs"
  have "?lo \<noteq> []" using assms(2,3) by (cases xs) auto
  then have "(butlast ?lo @ [last ?lo]) @ ?hi = xs" by (metis append_butlast_last_id takeWhile_dropWhile_id)
  then have xs: "xs = butlast ?lo @ last ?lo # ?hi" by simp
  have lo: "\<forall>x \<in> set (butlast ?lo @ [last ?lo]). x < b" unfolding append_butlast_last_id [OF \<open>?lo \<noteq> []\<close>] using set_takeWhileD by fast
  have hi: "\<forall>x \<in> set ?hi. b < x"
  proof (cases ?hi)
    case (Cons q qs)
    then have "\<not> q < b" using hd_dropWhile [of "\<lambda>x. x < b" xs] by auto
    moreover have "b \<noteq> q" using Cons assms(4) by (metis list.set_intros(1) set_dropWhileD)
    moreover have "sorted_wrt (<) (q # qs)" using assms(1) Cons by (metis sorted_wrt_append takeWhile_dropWhile_id)
    ultimately show ?thesis using Cons by auto
  next
    case Nil
    then show ?thesis by (simp only: Nil) simp
  qed
  show ?thesis using that [OF xs lo hi] .
qed

lemma heap_list_block:
  assumes "heap_list base brk h xs" "x \<in> set xs"
  shows "x \<noteq> base \<Longrightarrow> 0 < hsize h x \<and> base + HEADER \<le> x \<and> x + HEADER * hsize h x \<le> brk" "0 < x"
    "{x ..< x + HEADER * hsize h x} \<subseteq> blocks h xs"
proof -
  show blk: "x \<noteq> base \<Longrightarrow> 0 < hsize h x \<and> base + HEADER \<le> x \<and> x + HEADER * hsize h x \<le> brk"
    using assms heap_listD(3) [OF assms(1)] unfolding heap_list_def by (metis set_ConsD)
  show "0 < x" using blk assms(1) by (cases "x = base") (auto simp: heap_list_def HEADER_def)
  show "{x ..< x + HEADER * hsize h x} \<subseteq> blocks h xs" using assms(2) by (auto simp: blocks_def)
qed

text \<open>Where a block disjoint from the free ones belongs, and that \<open>free\<close> finds the place.\<close>

lemma free_place:
  assumes ok: "heap_list base brk h xs" and b: "base + HEADER \<le> bp" "0 < n"
    and dis: "{bp ..< bp + HEADER * n} \<inter> blocks h xs = {}"
  obtains pre p post where "xs = pre @ p # post" "\<forall>x \<in> set (pre @ [p]). x < bp" "\<forall>x \<in> set post. bp < x"
    "free_find h bp (freep h) = Some p" "p + HEADER * hsize h p \<le> bp" "\<forall>q \<in> set post. bp + HEADER * n \<le> q" "bp \<notin> set xs"
proof -
  note d = heap_listD [OF ok] and blk = heap_list_block [OF ok]
  have hd: "hd xs = base" "freep h \<in> set xs" "hsize h base = 0" using ok by (auto simp: heap_list_def)
  have bpB: "bp \<in> {bp ..< bp + HEADER * n}" using b(2) by (simp add: HEADER_def)
  have "base < bp" using b(1) by (simp add: HEADER_def)
  have notin: "bp \<notin> set xs"
  proof
    assume x: "bp \<in> set xs"
    then have "bp \<in> {bp ..< bp + HEADER * hsize h bp}" using blk(1) [OF x] \<open>base < bp\<close> by (simp add: HEADER_def)
    then show False using dis bpB blk(3) [OF x] by blast
  qed
  obtain pre p post where xs: "xs = pre @ p # post" and lo: "\<forall>x \<in> set (pre @ [p]). x < bp" and hi: "\<forall>x \<in> set post. bp < x"
    using sorted_around [OF d(5) d(2) _ notin] \<open>base < bp\<close> hd(1) by metis
  have find: "free_find h bp (freep h) = Some p" using free_find_all [OF d(1) xs lo hi hd(2)] .
  have below: "p + HEADER * hsize h p \<le> bp"
  proof (rule ccontr)
    assume "\<not> ?thesis"
    then have "bp \<in> {p ..< p + HEADER * hsize h p}" using lo by simp
    then have "bp \<in> blocks h xs" using blk(3) [of p] xs by fastforce
    then show False using dis bpB by blast
  qed
  have above: "bp + HEADER * n \<le> q" if q: "q \<in> set post" for q
  proof (rule ccontr)
    assume "\<not> ?thesis"
    moreover have "bp < q" using hi q by blast
    ultimately have qB: "q \<in> {bp ..< bp + HEADER * n}" by simp
    have "q \<noteq> base" using q hi \<open>base < bp\<close> by fastforce
    then have "q \<in> {q ..< q + HEADER * hsize h q}" using blk(1) [of q] q xs by (simp add: HEADER_def)
    then have "q \<in> blocks h xs" using blk(3) [of q] q xs by fastforce
    then show False using dis qB by blast
  qed
  show ?thesis using that [OF xs lo hi find below _ notin] above by blast
qed

text \<open>\<open>free\<close> gives exactly the bytes of the block back, and keeps the list well formed and fully coalesced.\<close>

lemma free_effect:
  assumes ok: "heap_list base brk h xs" and b: "base + HEADER \<le> bp" "0 < hsize h bp" "bp + HEADER * hsize h bp \<le> brk"
    and dis: "{bp ..< bp + HEADER * hsize h bp} \<inter> blocks h xs = {}"
  shows "\<exists>h' ys. free (bp + HEADER) h = Some h' \<and> heap_list base brk h' ys
    \<and> blocks h' ys = blocks h xs \<union> {bp ..< bp + HEADER * hsize h bp} \<and> uenv h' = uenv h
    \<and> (\<forall>a. a \<notin> blocks h' ys \<longrightarrow> hsize h' a = hsize h a)"
proof -
  note d = heap_listD [OF ok] and blk = heap_list_block(1) [OF ok]
  let ?B = "{bp ..< bp + HEADER * hsize h bp}"
  have top: "brk \<le> 2 ^ 36" "0 < base" "hsize h base = 0" "hd xs = base" using ok by (auto simp: heap_list_def)
  have bpB: "bp \<in> ?B" and "base < bp" using b(1,2) by (simp_all add: HEADER_def)
  obtain pre p post where xs: "xs = pre @ p # post" and lo: "\<forall>x \<in> set (pre @ [p]). x < bp" and hi: "\<forall>x \<in> set post. bp < x"
    and find: "free_find h bp (freep h) = Some p" and below: "p + HEADER * hsize h p \<le> bp"
    and above: "\<forall>q \<in> set post. bp + HEADER * hsize h bp \<le> q" and notin: "bp \<notin> set xs"
    using free_place [OF ok b(1,2) dis] .
  have tops: "\<forall>x \<in> set (bp # post). x + HEADER * hsize h x \<le> 2 ^ 36"
  proof
    fix x assume "x \<in> set (bp # post)"
    moreover have "x \<noteq> base" using calculation hi \<open>base < bp\<close> by fastforce
    ultimately show "x + HEADER * hsize h x \<le> 2 ^ 36" using blk [of x] b(3) top(1) xs by auto
  qed
  have cs: "upto_block h pre p" "fchain h base (p # post)" using d(1) top(4) unfolding xs chain_split by (metis append_eq_Cons_conv)+
  have room: "post \<noteq> [] \<longrightarrow> bp + HEADER * hsize h bp \<le> hd post" using above by simp
  have bp_new: "bp \<notin> set (p # post)" "0 < bp" using notin xs \<open>base < bp\<close> by auto
  obtain rest where r: "fchain (join_upper bp p h) base (bp # rest)" "set rest \<subseteq> set post"
      "blocks (join_upper bp p h) (bp # rest) = blocks h post \<union> ?B"
      "\<forall>x. x \<noteq> bp \<longrightarrow> hptr (join_upper bp p h) x = hptr h x \<and> hsize (join_upper bp p h) x = hsize h x"
      "uenv (join_upper bp p h) = uenv h" "hsize h bp \<le> hsize (join_upper bp p h) bp"
      "bp + HEADER * hsize (join_upper bp p h) bp = bp + HEADER * hsize h bp \<or> (\<exists>q \<in> set post. bp + HEADER * hsize (join_upper bp p h) bp = q + HEADER * hsize h q)"
    using join_upper_links [OF cs(2) bp_new \<open>base < bp\<close> room tops] by blast
  let ?h1 = "join_upper bp p h"
  have end1: "bp + HEADER * hsize ?h1 bp \<le> brk" using r(7) b(3) blk xs hi \<open>base < bp\<close> by force
  have below1: "p + HEADER * hsize ?h1 p \<le> bp" using r(4) bp_new below by simp
  have p_new: "p \<notin> set (bp # rest)" "0 < p" using lo hi r(2) heap_list_block(2) [OF ok, of p] xs by force+
  obtain ys where y: "fchain (join_lower bp p ?h1) base (p # ys)" "set ys \<subseteq> set (bp # rest)"
      "blocks (join_lower bp p ?h1) (p # ys) = blocks ?h1 (p # bp # rest)"
      "\<forall>x. x \<noteq> p \<longrightarrow> hptr (join_lower bp p ?h1) x = hptr ?h1 x \<and> hsize (join_lower bp p ?h1) x = hsize ?h1 x"
      "uenv (join_lower bp p ?h1) = uenv ?h1" "hsize ?h1 p \<le> hsize (join_lower bp p ?h1) p"
      "hsize (join_lower bp p ?h1) p = hsize ?h1 p \<or> p + HEADER * hsize ?h1 p = bp \<and> p + HEADER * hsize (join_lower bp p ?h1) p = bp + HEADER * hsize ?h1 bp"
    using join_lower_links [OF r(1) p_new below1 order_trans [OF end1 top(1)]] by blast
  define h' where "h' = (join_lower bp p ?h1)\<lparr>freep := p\<rparr>"
  have run: "free (bp + HEADER) h = Some h'" using find by (simp add: free_def h'_def)
  have far: "hptr h' x = hptr h x \<and> hsize h' x = hsize h x" if "x \<noteq> p" "x \<noteq> bp" for x using that y(4) r(4) by (simp add: h'_def)
  have szp: "hsize h' p = hsize h p \<or> p \<noteq> base \<and> p + HEADER * hsize h' p \<le> brk" "hsize h p \<le> hsize h' p"
    using y(6,7) r(4) bp_new end1 top(3) b(1) by (auto simp: h'_def HEADER_def)
  have szb: "hsize h' bp = hsize ?h1 bp" using y(4) p_new by (simp add: h'_def)
  have base_p: "p = base \<Longrightarrow> hsize h' p = 0" using szp top(3) by auto
  have pre_p: "x \<noteq> p \<and> x \<noteq> bp" if "x \<in> set pre" for x using that lo d(4) xs by auto
  have fchain': "fchain h' base (pre @ p # ys)"
  proof -
    have "upto_block h' pre p" using upto_cong [of pre h' h p] far pre_p cs(1) by blast
    moreover have "fchain h' base (p # ys) = fchain (join_lower bp p ?h1) base (p # ys)" by (intro fchain_cong) (simp add: h'_def)
    ultimately show ?thesis using y(1) unfolding chain_split by blast
  qed
  have blocks': "blocks h' (pre @ p # ys) = blocks h xs \<union> ?B"
  proof -
    have "blocks h' pre = blocks h pre" using far pre_p by (intro blocks_cong) blast
    moreover have "blocks h' (p # ys) = blocks ?h1 (p # bp # rest)" using y(3) by (simp add: h'_def blocks_def)
    moreover have "hsize ?h1 p = hsize h p" using r(4) bp_new by simp
    ultimately show ?thesis using r(3) xs by (simp add: blocks_append blocks_Cons [of _ p] ac_simps)
  qed
  have in_list: "0 < hsize h' x \<and> base + HEADER \<le> x \<and> x + HEADER * hsize h' x \<le> brk" if x: "x \<in> set (pre @ p # ys)" "x \<noteq> base" for x
  proof -
    consider "x = p" | "x = bp" | "x \<noteq> p" "x \<noteq> bp" "x \<in> set xs" using x(1) y(2) r(2) xs by auto
    then show ?thesis
    proof cases
      case 1
      then show ?thesis using blk [of p] szp x(2) xs by auto
    next
      case 2
      then show ?thesis using szb end1 b r(6) by auto
    next
      case 3
      then show ?thesis using blk [of x] far [of x] x(2) by simp
    qed
  qed
  have hd': "hd (pre @ p # ys) = base" using top(4) xs by (cases pre) auto
  have "distinct (pre @ p # ys)" using chain_sorted [OF fchain'] by (simp add: strict_sorted_iff)
  then have tl': "x \<noteq> base \<and> x \<in> set (pre @ p # ys)" if "x \<in> set (tl (pre @ p # ys))" for x using hd' that by (cases pre) auto
  have "hsize h' base = 0" using base_p far [of base] top(3) \<open>base < bp\<close> by (cases "p = base") auto
  then have ok': "heap_list base brk h' (pre @ p # ys)"
    unfolding heap_list_def using fchain' hd' top in_list tl' by (auto simp: h'_def)
  have frame: "hsize h' a = hsize h a" if "a \<notin> blocks h' (pre @ p # ys)" for a
  proof -
    have "a \<noteq> bp" using that bpB unfolding blocks' by blast
    moreover have "hsize h' p = hsize h p" if "a = p"
    proof (cases "p = base")
      case False
      then have "p \<in> blocks h' (pre @ p # ys)" using in_list [of p] by (auto simp: blocks_def HEADER_def)
      then show ?thesis using that \<open>a \<notin> blocks h' (pre @ p # ys)\<close> by simp
    qed (use szp in auto)
    ultimately show ?thesis using far [of a] by blast
  qed
  have "uenv h' = uenv h" using y(5) r(5) by (simp add: h'_def)
  then show ?thesis using run ok' blocks' frame by blast
qed

section \<open>Taking a block\<close>

lemma block_end: "fchain h z xs \<Longrightarrow> x \<in> set xs \<Longrightarrow> x + HEADER * hsize h x \<notin> blocks h xs"
proof
  assume c: "fchain h z xs" and x: "x \<in> set xs" and "x + HEADER * hsize h x \<in> blocks h xs"
  then obtain y where y: "y \<in> set xs" "y \<le> x + HEADER * hsize h x" "x + HEADER * hsize h x < y + HEADER * hsize h y" by (auto simp: blocks_def)
  have sep: "a + HEADER * hsize h a < b" if ab: "a \<in> set xs" "b \<in> set xs" "a < b" for a b
  proof -
    obtain us vs where xs: "xs = us @ a # vs" using ab(1) by (meson split_list)
    then have "fchain h z (a # vs)" "upto_block h us a" using c chain_split by metis+
    then show ?thesis using chain_later ab upto_less [of h us a] xs by fastforce
  qed
  consider "x < y" | "x = y" | "y < x" by linarith
  then show False using sep [of x y] sep [of y x] x y by cases auto
qed

text \<open>A run of free bytes lies in one block: the list is fully coalesced.\<close>

lemma run_in_block:
  assumes c: "fchain h z xs" and run: "{a ..< b} \<subseteq> blocks h xs" "a < b"
  shows "\<exists>x \<in> set xs. x \<le> a \<and> b \<le> x + HEADER * hsize h x"
proof -
  have "a \<in> blocks h xs" using run by auto
  then obtain x where x: "x \<in> set xs" "x \<le> a" "a < x + HEADER * hsize h x" by (auto simp: blocks_def)
  have "b \<le> x + HEADER * hsize h x"
  proof (rule ccontr)
    assume "\<not> ?thesis"
    then have "x + HEADER * hsize h x \<in> blocks h xs" using run(1) x by auto
    then show False using block_end [OF c x(1)] by blast
  qed
  then show ?thesis using x by blast
qed

lemma blocks_middle: "blocks h (pre @ a # p # post) = blocks h (pre @ a # post) \<union> {p ..< p + HEADER * hsize h p}"
  by (simp add: blocks_append blocks_Cons Un_ac)

lemma taken_place:
  assumes ok: "heap_list base brk h xs" and xs: "xs = pre @ prevp # p # post" and fit: "0 < hsize h p"
  shows "p \<noteq> base" "p \<in> set xs" "0 < p" "upto_block h pre prevp" "hptr h prevp = p" "prevp + HEADER * hsize h prevp < p"
    "fchain h base (p # post)" "p \<notin> set pre \<and> p \<notin> set post \<and> prevp \<notin> set pre \<and> prevp \<notin> set post \<and> prevp \<noteq> p"
    "{p ..< p + HEADER * hsize h p} \<inter> blocks h (pre @ prevp # post) = {}"
    "blocks h xs = blocks h (pre @ prevp # post) \<union> {p ..< p + HEADER * hsize h p}"
proof -
  note d = heap_listD [OF ok]
  have top: "hd xs = base" "hsize h base = 0" "0 < base" using ok by (auto simp: heap_list_def)
  show "p \<noteq> base" using fit top(2) by auto
  show "p \<in> set xs" "0 < p" using xs heap_list_block(2) [OF ok, of p] by auto
  show "upto_block h pre prevp" "hptr h prevp = p" "prevp + HEADER * hsize h prevp < p" and c: "fchain h base (p # post)"
    using d(1) top(1) unfolding xs by (simp_all add: chain_split)
  show "p \<notin> set pre \<and> p \<notin> set post \<and> prevp \<notin> set pre \<and> prevp \<notin> set post \<and> prevp \<noteq> p" using d(4) xs by auto
  have lo: "\<forall>x \<in> set (pre @ [prevp]). x + HEADER * hsize h x < p"
    using d(1) top(1) upto_less [of h "pre @ [prevp]" p] chain_split [of h base "pre @ [prevp]" p post] xs by simp
  have hi: "\<forall>x \<in> set post. p + HEADER * hsize h p < x" using chain_later [OF c] by blast
  show "{p ..< p + HEADER * hsize h p} \<inter> blocks h (pre @ prevp # post) = {}" using lo hi by (fastforce simp: blocks_def)
  show "blocks h xs = blocks h (pre @ prevp # post) \<union> {p ..< p + HEADER * hsize h p}" unfolding xs by (rule blocks_middle)
qed

text \<open>What taking a block of \<open>n\<close> units means for the free bytes \<open>F\<close>.\<close>

definition takes :: "nat \<Rightarrow> nat \<Rightarrow> nat \<Rightarrow> 'e uheap \<Rightarrow> nat set \<Rightarrow> nat \<Rightarrow> 'e uheap \<Rightarrow> bool" where
  "takes base brk n h F r h' \<longleftrightarrow>
     HEADER < r \<and> {r - HEADER ..< r - HEADER + HEADER * n} \<subseteq> F
     \<and> heap_ok base brk h' (F - {r - HEADER ..< r - HEADER + HEADER * n}) \<and> hsize h' (r - HEADER) = n
     \<and> uenv h' = uenv h \<and> (\<forall>a. a \<notin> F \<longrightarrow> hsize h' a = hsize h a)"

lemma take_whole:
  assumes ok: "heap_list base brk h xs" and xs: "xs = pre @ prevp # p # post" and fit: "0 < hsize h p"
  shows "takes base brk (hsize h p) h (blocks h xs) (p + HEADER) (h\<lparr>hptr := (hptr h)(prevp := hptr h p), freep := prevp\<rparr>)"
proof -
  note c = taken_place [OF ok xs fit]
  let ?h' = "h\<lparr>hptr := (hptr h)(prevp := hptr h p), freep := prevp\<rparr>" and ?ys = "pre @ prevp # post"
  have top: "hd xs = base" using ok by (simp add: heap_list_def)
  have "upto_block ?h' pre prevp = upto_block h pre prevp" "fchain ?h' base post = fchain h base post" using c(8) by (auto intro!: upto_cong fchain_cong)
  then have "fchain ?h' base ?ys" using c(4-7) unfolding chain_split by (cases post) (auto simp: chain_Cons)
  moreover have "hd ?ys = base" using top xs by (cases pre) auto
  moreover have "set (tl ?ys) \<subseteq> set (tl xs)" using xs by (cases pre) auto
  ultimately have ok': "heap_list base brk ?h' ?ys" using ok unfolding heap_list_def by auto
  have "blocks ?h' ?ys = blocks h ?ys" by (simp add: blocks_def)
  then have "blocks ?h' ?ys = blocks h xs - {p ..< p + HEADER * hsize h p}" using c(9,10) by blast
  then show ?thesis unfolding takes_def heap_ok_def using ok' c(3,10) by auto
qed

lemma take_upper:
  assumes ok: "heap_list base brk h xs" and xs: "xs = pre @ prevp # p # post" and fit: "hsize h p = m + n" "0 < m" "0 < n"
  shows "takes base brk n h (blocks h xs) (p + HEADER * m + HEADER) (h\<lparr>hsize := (hsize h)(p := m, p + HEADER * m := n), freep := prevp\<rparr>)"
proof -
  have "0 < hsize h p" using fit by simp
  note c = taken_place [OF ok xs this]
  let ?q = "p + HEADER * m"
  let ?h' = "h\<lparr>hsize := (hsize h)(p := m, ?q := n), freep := prevp\<rparr>" and ?B = "{?q ..< ?q + HEADER * n}"
  have parts: "{p ..< p + HEADER * hsize h p} = {p ..< ?q} \<union> ?B" using join_interval [of p m n] fit(1) by simp
  have q: "?q \<noteq> p" "?q \<in> ?B" using fit by (auto simp: HEADER_def)
  have qn: "?q \<notin> set xs"
  proof
    assume qx: "?q \<in> set xs"
    then have "?q \<in> set (pre @ prevp # post)" "?q \<noteq> base" using q xs heap_list_block(1) [OF ok c(2) c(1)] by auto
    then have "?q \<in> blocks h (pre @ prevp # post)" using heap_list_block(1) [OF ok qx] by (auto simp: blocks_def HEADER_def)
    then show False using c(9) q(2) parts by blast
  qed
  have rest: "hsize ?h' x = hsize h x \<and> hptr ?h' x = hptr h x" if "x \<in> set xs" "x \<noteq> p" for x using that qn by auto
  have "upto_block ?h' pre prevp = upto_block h pre prevp" "fchain ?h' base post = fchain h base post"
    using c(8) qn xs by (auto intro!: upto_cong fchain_cong)
  moreover have "p + HEADER * m < x" if "p + HEADER * hsize h p < x" for x using that fit(1) by (simp add: algebra_simps)
  ultimately have fchain': "fchain ?h' base xs" using c(4-8) rest [of prevp] q(1) unfolding xs chain_split by (cases post) (auto simp: chain_Cons)
  have base: "base \<in> set xs" "base \<notin> set (tl xs)" using heap_listD(3,4) [OF ok] by (metis list.set_intros(1), metis distinct.simps(2))
  have "0 < hsize ?h' x \<and> base + HEADER \<le> x \<and> x + HEADER * hsize ?h' x \<le> brk" if "x \<in> set (tl xs)" for x
  proof (cases "x = p")
    case True
    then show ?thesis using heap_list_block(1) [OF ok c(2) c(1)] fit q(1) by (auto simp: algebra_simps)
  next
    case False
    have "x \<in> set xs" "x \<noteq> base" using that base by (metis list.set_sel(2) list.sel(2), blast)
    then show ?thesis using heap_list_block(1) [OF ok, of x] rest [OF _ False] by presburger
  qed
  moreover have "hsize ?h' base = 0" using rest [OF base(1)] c(1) ok unfolding heap_list_def by metis
  moreover have "freep ?h' \<in> set xs" using xs by simp
  ultimately have ok': "heap_list base brk ?h' xs" using ok fchain' unfolding heap_list_def by blast
  have "blocks ?h' (pre @ prevp # post) = blocks h (pre @ prevp # post)" using qn xs c(8) by (intro blocks_cong) auto
  then have "blocks ?h' xs = blocks h (pre @ prevp # post) \<union> {p ..< ?q}" using blocks_middle [of ?h' pre prevp p post] q(1) unfolding xs by simp
  then have "blocks ?h' xs = blocks h xs - ?B" using c(9,10) parts by auto
  moreover have "?B \<subseteq> blocks h xs" using c(10) parts by blast
  ultimately show ?thesis unfolding takes_def heap_ok_def using ok' c(2,3,10) parts q by auto
qed

lemma take_block_effect:
  assumes "heap_list base brk h xs" "xs = pre @ prevp # p # post" "n \<le> hsize h p" "0 < n"
  shows "takes base brk n h (blocks h xs) (fst (take_block n prevp p h)) (snd (take_block n prevp p h))"
proof (cases "hsize h p = n")
  case True
  then show ?thesis using take_whole [OF assms(1,2)] assms(4) by (simp add: take_block_def)
next
  case False
  then show ?thesis using take_upper [OF assms(1,2), of "hsize h p - n" n] assms(3,4) by (simp add: take_block_def Let_def)
qed

section \<open>The search of malloc\<close>

text \<open>The blocks in the order \<open>malloc\<close> looks at them: around the list, from the one after \<open>freep\<close>.\<close>

definition around :: "nat list \<Rightarrow> nat \<Rightarrow> nat \<Rightarrow> nat" where
  "around xs f j = xs ! ((f + j) mod length xs)"

lemma around_next: "fchain h (hd xs) xs \<Longrightarrow> hptr h (around xs f j) = around xs f (Suc j)"
proof -
  assume c: "fchain h (hd xs) xs"
  then have "xs \<noteq> []" by auto
  then show ?thesis using chain_next [OF c, of "(f + j) mod length xs"] by (simp add: around_def mod_Suc_eq)
qed

lemma malloc_search:
  assumes c: "fchain h (hd xs) xs" "distinct xs" and f: "f < length xs" "freep h = xs ! f" and j: "j < length xs"
  shows "(\<exists>i \<ge> j. i < length xs \<and> n \<le> hsize h (around xs f (Suc i))
        \<and> malloc_loop os n (around xs f j) (around xs f (Suc j)) h = Some (take_block n (around xs f i) (around xs f (Suc i)) h))
     \<or> (\<forall>i \<ge> j. i < length xs \<longrightarrow> hsize h (around xs f (Suc i)) < n)
        \<and> malloc_loop os n (around xs f j) (around xs f (Suc j)) h =
          Option.bind (morecore os n h) (\<lambda>(p', h'). if p' = 0 then Some (0, h') else malloc_loop os n p' (hptr h' p') h')"
  using j
proof (induction "length xs - j" arbitrary: j)
  case (Suc k)
  let ?p = "around xs f (Suc j)"
  show ?case
  proof (cases "n \<le> hsize h ?p")
    case True
    then have "malloc_loop os n (around xs f j) ?p h = Some (take_block n (around xs f j) ?p h)" by (subst malloc_loop.simps) simp
    then show ?thesis using True Suc.prems by blast
  next
    case False
    have at_freep: "?p = freep h \<longleftrightarrow> Suc j = length xs"
    proof
      assume "?p = freep h"
      then have "(f + Suc j) mod length xs = f" 
        using nth_eq_iff_index_eq [OF c(2) mod_less_divisor f(1), of "f + Suc j"] f unfolding around_def by fastforce
      then have "length xs dvd Suc j" using f(1) by (metis add_diff_cancel_left' le_add1 mod_eq_dvd_iff_nat mod_less)
      then show "Suc j = length xs" using Suc.prems by (simp add: dvd_imp_le le_antisym Suc_leI)
    next
      assume "Suc j = length xs"
      then show "?p = freep h" using f by (simp add: around_def del: add_Suc_right)
    qed
    show ?thesis
    proof (cases "Suc j = length xs")
      case True
      then have "\<forall>i \<ge> j. i < length xs \<longrightarrow> hsize h (around xs f (Suc i)) < n" using False by (metis less_Suc_eq_le le_antisym not_le)
      moreover have "malloc_loop os n (around xs f j) ?p h =
          Option.bind (morecore os n h) (\<lambda>(p', h'). if p' = 0 then Some (0, h') else malloc_loop os n p' (hptr h' p') h')"
        using False at_freep True by (subst malloc_loop.simps) simp
      ultimately show ?thesis by blast
    next
      case more: False
      then have step: "malloc_loop os n (around xs f j) ?p h = malloc_loop os n ?p (around xs f (Suc (Suc j))) h"
        using False at_freep around_next [OF c(1)] by (subst malloc_loop.simps) simp
      have j: "Suc j < length xs" using more Suc.prems by simp
      have "hsize h (around xs f (Suc i)) < n" if "\<forall>i \<ge> Suc j. i < length xs \<longrightarrow> hsize h (around xs f (Suc i)) < n" "i \<ge> j" "i < length xs" for i
        using that False by (cases "i = j") auto
      moreover have "k = length xs - Suc j" using Suc.hyps(2) j by simp
      ultimately show ?thesis using Suc.hyps(1) [OF _ j] unfolding step by (meson Suc_leD)
    qed
  qed
qed simp

section \<open>Growing the heap\<close>

text \<open>
  What the allocator relies on of \<open>sbrk\<close>: a positive increment either fails with -1 and leaves the break,
  or returns the old break and moves it up, within the memory the machine has (far below \<open>2 ^ 36\<close>).
\<close>

definition core_law :: "'e os \<Rightarrow> ('e \<Rightarrow> nat) \<Rightarrow> bool" where
  "core_law os brk \<longleftrightarrow>
     (\<forall>n e. 0 < n \<longrightarrow>
        (\<exists>e'. sbrk os n e = (- 1, e') \<and> brk e' = brk e) \<or>
        (\<exists>e'. sbrk os n e = (of_nat (brk e), e') \<and> brk e' = brk e + nat n \<and> brk e' \<le> 2 ^ 36))"

lemma heap_list_mono: "heap_list base brk h xs \<Longrightarrow> brk \<le> brk' \<Longrightarrow> brk' \<le> 2 ^ 36 \<Longrightarrow> heap_list base brk' h xs"
  unfolding heap_list_def by (meson order_trans)

lemma heap_list_below: "heap_list base brk h xs \<Longrightarrow> base + HEADER \<le> brk \<Longrightarrow> a \<in> blocks h xs \<or> a \<in> set xs \<Longrightarrow> a < brk"
proof -
  assume ok: "heap_list base brk h xs" and lo: "base + HEADER \<le> brk" and a: "a \<in> blocks h xs \<or> a \<in> set xs"
  have "x + HEADER * hsize h x \<le> brk \<and> x < brk" if "x \<in> set xs" for x
    using heap_list_block(1) [OF ok that] ok lo by (cases "x = base") (auto simp: heap_list_def HEADER_def)
  then show ?thesis using a by (force simp: blocks_def)
qed

lemma heap_list_new_size:
  assumes ok: "heap_list base brk h xs" and a: "a \<notin> set xs" and h': "hptr h' = hptr h" "freep h' = freep h" "hsize h' = (hsize h)(a := n)"
  shows "heap_list base brk h' xs" "blocks h' xs = blocks h xs"
proof -
  have sz: "hsize h' x = hsize h x" if "x \<in> set xs" for x using that a h'(3) by auto
  then show "blocks h' xs = blocks h xs" by (rule blocks_cong)
  have "base \<in> set xs" "set (tl xs) \<subseteq> set xs" using heap_listD(3) [OF ok] by (metis list.set_intros(1), metis set_subset_Cons)
  then show "heap_list base brk h' xs"
    using ok sz h' fchain_cong [of xs h' h base] unfolding heap_list_def by (metis subsetD)
qed

lemma i32_small: "0 \<le> n \<Longrightarrow> n < 2 ^ 31 \<Longrightarrow> i32 n = n"
  by (simp add: i32_def signed_take_bit_int_eq_self)

lemma morecore_effect:
  assumes law: "core_law os brk" and ok: "heap_list base (brk (uenv h)) h xs" and lo: "base + HEADER \<le> brk (uenv h)"
    and n: "0 < n" "n * HEADER < 2 ^ 31"
  defines "b \<equiv> brk (uenv h)" and "m \<equiv> max n 4096"
  shows "(\<exists>e. morecore os n h = Some (0, h\<lparr>uenv := e\<rparr>) \<and> brk e = b \<and> fst (sbrk os (int (m * HEADER)) (uenv h)) = - 1)
    \<or> (\<exists>h' ys. morecore os n h = Some (freep h', h') \<and> freep h' \<noteq> 0 \<and> brk (uenv h') = b + HEADER * m
        \<and> heap_list base (brk (uenv h')) h' ys \<and> blocks h' ys = blocks h xs \<union> {b ..< b + HEADER * m}
        \<and> (\<exists>x \<in> set ys. n \<le> hsize h' x) \<and> (\<forall>a. a \<notin> blocks h' ys \<longrightarrow> hsize h' a = hsize h a))"
proof -
  have m: "(if n < 4096 then 4096 else n) = m" by (auto simp: m_def)
  have "m * HEADER < 2 ^ 31" "0 < m" using n by (auto simp: m_def HEADER_def)
  then have arg: "i32 (int (m * HEADER)) = int (m * HEADER)" "0 < int (m * HEADER)" by (auto intro!: i32_small simp: HEADER_def)
  consider (no) e where "sbrk os (int (m * HEADER)) (uenv h) = (- 1, e)" "brk e = b"
    | (yes) e where "sbrk os (int (m * HEADER)) (uenv h) = (of_nat b, e)" "brk e = b + m * HEADER" "brk e \<le> 2 ^ 36"
    using law arg(2) unfolding core_law_def b_def by (metis nat_int)
  then show ?thesis
  proof cases
    case no
    then have "morecore os n h = Some (0, h\<lparr>uenv := e\<rparr>)" by (simp add: morecore_def m arg(1) Let_def del: of_nat_mult)
    then show ?thesis using no by auto
  next
    case yes
    let ?h = "h\<lparr>uenv := e, hsize := (hsize h)(b := m)\<rparr>"
    have below: "a < b" if "a \<in> blocks h xs \<or> a \<in> set xs" for a using heap_list_below [OF ok lo that] by (simp add: b_def)
    have "b \<notin> set xs" using below [of b] by blast
    then have ok': "heap_list base (brk e) ?h xs" "blocks ?h xs = blocks h xs"
      using heap_list_new_size [OF ok, of b ?h m] heap_list_mono [of base b ?h xs "brk e"] yes(2,3) by (simp_all add: b_def)
    have "a \<notin> {b ..< b + HEADER * hsize ?h b}" if "a \<in> blocks ?h xs" for a using below [of a] that ok'(2) by simp
    then have dis: "{b ..< b + HEADER * hsize ?h b} \<inter> blocks ?h xs = {}" by blast
    have pre: "base + HEADER \<le> b" "0 < hsize ?h b" "b + HEADER * hsize ?h b \<le> brk e" using lo \<open>0 < m\<close> yes(2) by (simp_all add: b_def mult.commute)
    have "uenv ?h = e" by simp
    obtain h' ys where f: "free (b + HEADER) ?h = Some h'" "heap_list base (brk e) h' ys"
      "blocks h' ys = blocks ?h xs \<union> {b ..< b + HEADER * hsize ?h b}" "uenv h' = e" "\<forall>a. a \<notin> blocks h' ys \<longrightarrow> hsize h' a = hsize ?h a"
      using free_effect [OF ok'(1) pre dis] unfolding \<open>uenv ?h = e\<close> by blast
    have "b < 2 ^ 64" using yes(2,3) by simp
    then have "unat (of_nat b :: u64) = b" "(of_nat b :: u64) \<noteq> - 1"
      using yes(2,3) by (simp_all add: unsigned_of_nat take_bit_nat_eq_self word_unat_eq_iff unsigned_minus_1_eq_mask mask_eq_exp_minus_1)
    then have run: "morecore os n h = Some (freep h', h')" using yes(1) f(1) by (simp add: morecore_def m arg(1) Let_def del: of_nat_mult)
    have "freep h' \<noteq> 0" using f(2) heap_list_block(2) [OF f(2)] by (auto simp: heap_list_def)
    have bl: "blocks h' ys = blocks h xs \<union> {b ..< b + HEADER * m}" using f(3) ok'(2) by simp
    have "\<exists>x \<in> set ys. n \<le> hsize h' x"
    proof -
      obtain x where x: "x \<in> set ys" "x \<le> b" "b + HEADER * m \<le> x + HEADER * hsize h' x"
        using run_in_block [OF heap_listD(1) [OF f(2)], of b "b + HEADER * m"] bl \<open>0 < m\<close> by (auto simp: HEADER_def)
      then have "m \<le> hsize h' x" by (simp add: HEADER_def)
      then show ?thesis using x(1) by (auto simp: m_def)
    qed
    moreover have "hsize h' a = hsize h a" if "a \<notin> blocks h' ys" for a
      using f(5) that bl \<open>0 < m\<close> by (auto simp: HEADER_def)
    ultimately show ?thesis using run \<open>freep h' \<noteq> 0\<close> yes(2) f(2,4) bl by (auto simp: mult.commute)
  qed
qed

section \<open>malloc\<close>

text \<open>Walking once around the list either takes a block or comes to the growing of the heap.\<close>

lemma malloc_round:
  assumes ok: "heap_list base brk h xs" and n: "0 < n"
  shows "(\<exists>r h'. malloc_loop os n (freep h) (hptr h (freep h)) h = Some (r, h') \<and> takes base brk n h (blocks h xs) r h')
    \<or> (\<forall>x \<in> set xs. hsize h x < n) \<and> malloc_loop os n (freep h) (hptr h (freep h)) h =
        Option.bind (morecore os n h) (\<lambda>(p', h'). if p' = 0 then Some (0, h') else malloc_loop os n p' (hptr h' p') h')"
proof -
  note d = heap_listD [OF ok]
  let ?l = "length xs"
  obtain f where f: "f < ?l" "freep h = xs ! f" using ok by (auto simp: heap_list_def in_set_conv_nth)
  then have at: "around xs f 0 = freep h" "around xs f (Suc 0) = hptr h (freep h)"
    using around_next [OF d(1), of f 0] by (simp_all add: around_def)
  have all: "\<exists>i < ?l. x = around xs f (Suc i)" if x: "x \<in> set xs" for x
  proof -
    obtain k where k: "k < ?l" "x = xs ! k" using x by (auto simp: in_set_conv_nth)
    let ?i = "if f < k then k - f - 1 else k + ?l - f - 1"
    have "?i < ?l" using f(1) k(1) by auto
    moreover have "f + Suc ?i = (if f < k then k else k + ?l)" using f(1) k(1) by auto
    then have "(f + Suc ?i) mod ?l = k" using k(1) by simp
    ultimately have "?i < ?l" "(f + Suc ?i) mod ?l = k" by blast+
    then show ?thesis using k(2) unfolding around_def by metis
  qed
  have "0 < ?l" using d(2) by simp
  from malloc_search [OF d(1,4) f this, of n os] show ?thesis
  proof (elim disjE)
    assume "\<exists>i \<ge> 0. i < ?l \<and> n \<le> hsize h (around xs f (Suc i))
        \<and> malloc_loop os n (around xs f 0) (around xs f (Suc 0)) h = Some (take_block n (around xs f i) (around xs f (Suc i)) h)"
    then obtain i where i: "i < ?l" "n \<le> hsize h (around xs f (Suc i))"
      "malloc_loop os n (freep h) (hptr h (freep h)) h = Some (take_block n (around xs f i) (around xs f (Suc i)) h)" using at by metis
    let ?k = "(f + i) mod ?l"
    have "around xs f (Suc i) \<noteq> base" using i(2) n ok by (auto simp: heap_list_def)
    moreover have "xs ! 0 = base" using d(2) ok by (simp add: heap_list_def flip: hd_conv_nth)
    ultimately have "Suc ?k mod ?l \<noteq> 0" unfolding around_def by (metis add_Suc_right mod_Suc_eq)
    then have k: "Suc ?k < ?l" using d(2) by (metis Suc_lessI length_greater_0_conv mod_less_divisor mod_self)
    then have "around xs f i = xs ! ?k" "around xs f (Suc i) = xs ! Suc ?k" by (simp_all add: around_def mod_Suc)
    moreover have "xs = take ?k xs @ xs ! ?k # xs ! Suc ?k # drop (Suc (Suc ?k)) xs"
      using k by (metis Cons_nth_drop_Suc Suc_lessD append_take_drop_id)
    ultimately show ?thesis using take_block_effect [OF ok _ i(2) n] i(3) by (metis prod.collapse)
  next
    assume "(\<forall>i \<ge> 0. i < ?l \<longrightarrow> hsize h (around xs f (Suc i)) < n)
        \<and> malloc_loop os n (around xs f 0) (around xs f (Suc 0)) h =
          Option.bind (morecore os n h) (\<lambda>(p', h'). if p' = 0 then Some (0, h') else malloc_loop os n p' (hptr h' p') h')"
    then show ?thesis using all at by auto
  qed
qed

lemma malloc_loop_effect:
  assumes law: "core_law os brk" and ok: "heap_list base (brk (uenv h)) h xs" and lo: "base + HEADER \<le> brk (uenv h)"
    and n: "0 < n" "n * HEADER < 2 ^ 31"
  shows "\<exists>r h'. malloc_loop os n (freep h) (hptr h (freep h)) h = Some (r, h') \<and>
     (r = 0 \<or> brk (uenv h') \<noteq> brk (uenv h) \<longrightarrow> (\<forall>x \<in> set xs. hsize h x < n)) \<and>
     (if r = 0 then heap_ok base (brk (uenv h')) h' (blocks h xs) \<and> brk (uenv h') = brk (uenv h) \<and> hsize h' = hsize h
        \<and> fst (sbrk os (int (max n 4096 * HEADER)) (uenv h)) = - 1
      else \<exists>h1 F. takes base (brk (uenv h')) n h1 F r h' \<and> F = blocks h xs \<union> {brk (uenv h) ..< brk (uenv h')} \<and> brk (uenv h) \<le> brk (uenv h')
        \<and> (\<forall>a. a \<notin> F \<longrightarrow> hsize h' a = hsize h a))"
  using malloc_round [OF ok n(1), of os]
proof (elim disjE)
  assume "\<exists>r h'. malloc_loop os n (freep h) (hptr h (freep h)) h = Some (r, h') \<and> takes base (brk (uenv h)) n h (blocks h xs) r h'"
  then obtain r h' where m: "malloc_loop os n (freep h) (hptr h (freep h)) h = Some (r, h')" "takes base (brk (uenv h)) n h (blocks h xs) r h'" by blast
  then have "r \<noteq> 0" "uenv h' = uenv h" "\<forall>a. a \<notin> blocks h xs \<longrightarrow> hsize h' a = hsize h a" by (auto simp: takes_def)
  then show ?thesis using m by (intro exI [of _ r] exI [of _ h']) auto
next
  assume "(\<forall>x \<in> set xs. hsize h x < n) \<and> malloc_loop os n (freep h) (hptr h (freep h)) h =
        Option.bind (morecore os n h) (\<lambda>(p', h'). if p' = 0 then Some (0, h') else malloc_loop os n p' (hptr h' p') h')"
  then have full: "\<forall>x \<in> set xs. hsize h x < n" and loop: "malloc_loop os n (freep h) (hptr h (freep h)) h =
        Option.bind (morecore os n h) (\<lambda>(p', h'). if p' = 0 then Some (0, h') else malloc_loop os n p' (hptr h' p') h')" by blast+
  let ?m = "max n 4096" and ?b = "brk (uenv h)"
  from morecore_effect [OF law ok lo n] show ?thesis
  proof (elim disjE)
    assume "\<exists>e. morecore os n h = Some (0, h\<lparr>uenv := e\<rparr>) \<and> brk e = ?b \<and> fst (sbrk os (int (?m * HEADER)) (uenv h)) = - 1"
    then obtain e where e: "morecore os n h = Some (0, h\<lparr>uenv := e\<rparr>)" "brk e = ?b" "fst (sbrk os (int (?m * HEADER)) (uenv h)) = - 1" by blast
    have "heap_list base ?b (h\<lparr>uenv := e\<rparr>) xs" "blocks (h\<lparr>uenv := e\<rparr>) xs = blocks h xs"
      using ok fchain_cong [of xs "h\<lparr>uenv := e\<rparr>" h base] by (simp_all add: heap_list_def blocks_def)
    then have "heap_ok base ?b (h\<lparr>uenv := e\<rparr>) (blocks h xs)" unfolding heap_ok_def by metis
    then show ?thesis using e loop full by (intro exI [of _ 0] exI [of _ "h\<lparr>uenv := e\<rparr>"]) simp
  next
    assume "\<exists>h' ys. morecore os n h = Some (freep h', h') \<and> freep h' \<noteq> 0 \<and> brk (uenv h') = ?b + HEADER * ?m
        \<and> heap_list base (brk (uenv h')) h' ys \<and> blocks h' ys = blocks h xs \<union> {?b ..< ?b + HEADER * ?m}
        \<and> (\<exists>x \<in> set ys. n \<le> hsize h' x) \<and> (\<forall>a. a \<notin> blocks h' ys \<longrightarrow> hsize h' a = hsize h a)"
    then obtain h1 ys where h1: "morecore os n h = Some (freep h1, h1)" "freep h1 \<noteq> 0" "brk (uenv h1) = ?b + HEADER * ?m"
        "heap_list base (brk (uenv h1)) h1 ys" "blocks h1 ys = blocks h xs \<union> {?b ..< ?b + HEADER * ?m}"
        "\<exists>x \<in> set ys. n \<le> hsize h1 x" "\<forall>a. a \<notin> blocks h1 ys \<longrightarrow> hsize h1 a = hsize h a" by blast
    then have "\<not> (\<forall>x \<in> set ys. hsize h1 x < n)" using not_le by blast
    then obtain r h' where m: "malloc_loop os n (freep h1) (hptr h1 (freep h1)) h1 = Some (r, h')" "takes base (brk (uenv h1)) n h1 (blocks h1 ys) r h'"
      using malloc_round [OF h1(4) n(1), of os] by blast
    then have "r \<noteq> 0" "uenv h' = uenv h1" "\<forall>a. a \<notin> blocks h1 ys \<longrightarrow> hsize h' a = hsize h a" using h1(7) by (auto simp: takes_def)
    then show ?thesis using m h1 loop full by (intro exI [of _ r] exI [of _ h']) auto
  qed
qed

section \<open>Properties of the allocator\<close>

text \<open>A heap that \<open>malloc\<close> has not been called on has no free bytes; \<open>F\<close> are the free bytes otherwise.\<close>

definition uheap_ok :: "nat \<Rightarrow> nat \<Rightarrow> 'e uheap \<Rightarrow> nat set \<Rightarrow> bool" where
  "uheap_ok base brk h F \<longleftrightarrow>
     (if freep h = 0 then F = {} \<and> 0 < base \<and> brk \<le> 2 ^ 36 else heap_ok base brk h F) \<and> base + HEADER \<le> brk"

lemma malloc_start:
  assumes "uheap_ok base brk h F"
  obtains h0 xs where "heap_list base brk h0 xs" "F = blocks h0 xs" "uenv h0 = uenv h" "\<forall>a. a \<noteq> base \<longrightarrow> hsize h0 a = hsize h a"
    "malloc os base nbytes h = malloc_loop os (units nbytes) (freep h0) (hptr h0 (freep h0)) h0"
proof (cases "freep h = 0")
  case True
  let ?h = "h\<lparr>hptr := (hptr h)(base := base), freep := base, hsize := (hsize h)(base := 0)\<rparr>"
  have "heap_list base brk ?h [base]" "blocks ?h [base] = {}" using assms True by (simp_all add: heap_list_def uheap_ok_def blocks_def)
  moreover have "malloc os base nbytes h = malloc_loop os (units nbytes) (freep ?h) (hptr ?h (freep ?h)) ?h" using True by (simp add: malloc_def)
  ultimately show ?thesis using that [of ?h "[base]"] assms True by (simp add: uheap_ok_def)
next
  case False
  then obtain xs where "heap_list base brk h xs" "F = blocks h xs" using assms by (auto simp: uheap_ok_def heap_ok_def)
  then show ?thesis using that [of h xs] False by (simp add: malloc_def)
qed

lemma units_enough: "nbytes + HEADER \<le> HEADER * units nbytes" "nbytes < 2 ^ 31 - 32 \<Longrightarrow> units nbytes * HEADER < 2 ^ 31"
  by (simp_all add: units_def HEADER_def)

lemma heap_ok_freep: "heap_ok base brk h F \<Longrightarrow> freep h \<noteq> 0"
  by (auto simp: heap_ok_def heap_list_block(2) dest: heap_list_block(2)) (metis heap_list_block(2) heap_list_def less_irrefl)

lemma uheap_okI: "heap_ok base brk h F \<Longrightarrow> base + HEADER \<le> brk \<Longrightarrow> uheap_ok base brk h F"
  using heap_ok_freep [of base brk h F] by (simp add: uheap_ok_def)

text \<open>There are \<open>n\<close> units of free bytes in a row; then one free block has them, as neighbours are joined.\<close>

definition has_room :: "nat \<Rightarrow> nat set \<Rightarrow> bool" where
  "has_room n F \<longleftrightarrow> (\<exists>a. {a ..< a + HEADER * n} \<subseteq> F)"

lemma has_room_block:
  assumes ok: "heap_list base brk h xs" and n: "0 < n" and full: "\<forall>x \<in> set xs. hsize h x < n"
  shows "\<not> has_room n (blocks h xs)"
proof
  assume "has_room n (blocks h xs)"
  then obtain a where a: "{a ..< a + HEADER * n} \<subseteq> blocks h xs" by (auto simp: has_room_def)
  have "a < a + HEADER * n" using n by (simp add: HEADER_def)
  then obtain x where x: "x \<in> set xs" "x \<le> a" "a + HEADER * n \<le> x + HEADER * hsize h x"
    using run_in_block [OF heap_listD(1) [OF ok], of a "a + HEADER * n"] a by auto
  then have "n \<le> hsize h x" by (simp add: HEADER_def)
  then show False using full x(1) by auto
qed

text \<open>
  C32: \<open>malloc\<close> always returns. It returns null only if no stretch of free bytes is large enough and \<open>sbrk\<close>
  refuses to move the break, and then the heap is as before. Otherwise the block it returns lies in what was free or has just been added at the break, holds
  the bytes asked for behind its header, is no longer free, and nothing else has changed hands; the break
  is moved only if no free stretch is large enough; the list
  of free blocks stays well formed and coalesced, and the headers of the blocks in use keep their sizes.
\<close>
theorem malloc_allocates:
  assumes "core_law os brk" "uheap_ok base (brk (uenv h)) h F" "nbytes < 2 ^ 31 - 32"
  shows "\<exists>r h'. malloc os base nbytes h = Some (r, h') \<and>
     (r = 0 \<or> brk (uenv h') \<noteq> brk (uenv h) \<longrightarrow> \<not> has_room (units nbytes) F) \<and>
     (if r = 0 then uheap_ok base (brk (uenv h')) h' F \<and> brk (uenv h') = brk (uenv h) \<and> (\<forall>a. a \<noteq> base \<longrightarrow> hsize h' a = hsize h a)
        \<and> fst (sbrk os (int (max (units nbytes) 4096 * HEADER)) (uenv h)) = - 1
      else let B = {r - HEADER ..< r - HEADER + HEADER * units nbytes};
               G = F \<union> {brk (uenv h) ..< brk (uenv h')} in
        r - HEADER + HEADER + nbytes \<le> r - HEADER + HEADER * units nbytes \<and> hsize h' (r - HEADER) = units nbytes
        \<and> B \<subseteq> G \<and> uheap_ok base (brk (uenv h')) h' (G - B) \<and> (\<forall>a. a \<notin> G \<and> a \<noteq> base \<longrightarrow> hsize h' a = hsize h a))"
proof -
  obtain h0 xs where h0: "heap_list base (brk (uenv h)) h0 xs" "F = blocks h0 xs" "uenv h0 = uenv h" "\<forall>a. a \<noteq> base \<longrightarrow> hsize h0 a = hsize h a"
    "malloc os base nbytes h = malloc_loop os (units nbytes) (freep h0) (hptr h0 (freep h0)) h0"
    using malloc_start [OF assms(2)] by metis
  have lo: "base + HEADER \<le> brk (uenv h)" using assms(2) by (simp add: uheap_ok_def)
  have n: "0 < units nbytes" "units nbytes * HEADER < 2 ^ 31" using units_enough(2) [OF assms(3)] by (simp_all add: units_def)
  obtain r h' where m: "malloc_loop os (units nbytes) (freep h0) (hptr h0 (freep h0)) h0 = Some (r, h')"
    and full: "r = 0 \<or> brk (uenv h') \<noteq> brk (uenv h) \<longrightarrow> (\<forall>x \<in> set xs. hsize h0 x < units nbytes)"
    and c: "if r = 0 then heap_ok base (brk (uenv h')) h' F \<and> brk (uenv h') = brk (uenv h) \<and> hsize h' = hsize h0
        \<and> fst (sbrk os (int (max (units nbytes) 4096 * HEADER)) (uenv h)) = - 1
      else \<exists>h1 G. takes base (brk (uenv h')) (units nbytes) h1 G r h' \<and> G = F \<union> {brk (uenv h) ..< brk (uenv h')}
        \<and> brk (uenv h) \<le> brk (uenv h') \<and> (\<forall>a. a \<notin> G \<longrightarrow> hsize h' a = hsize h0 a)"
    using malloc_loop_effect [OF assms(1), of base h0 xs "units nbytes"] h0(1,2,3) lo n by metis
  have room: "r = 0 \<or> brk (uenv h') \<noteq> brk (uenv h) \<longrightarrow> \<not> has_room (units nbytes) F"
    using has_room_block [OF h0(1) n(1)] full h0(2) by blast
  show ?thesis
  proof (cases "r = 0")
    case True
    then show ?thesis using m c h0(4,5) lo uheap_okI room by (intro exI [of _ r] exI [of _ h']) auto
  next
    case False
    then obtain h1 G where G: "takes base (brk (uenv h')) (units nbytes) h1 G r h'" "G = F \<union> {brk (uenv h) ..< brk (uenv h')}"
      "brk (uenv h) \<le> brk (uenv h')" "\<forall>a. a \<notin> G \<longrightarrow> hsize h' a = hsize h0 a" using c by auto
    then have "uheap_ok base (brk (uenv h')) h' (G - {r - HEADER ..< r - HEADER + HEADER * units nbytes})"
      using lo by (intro uheap_okI) (auto simp: takes_def)
    then show ?thesis using False m G h0(4,5) units_enough(1) [of nbytes] room
      by (intro exI [of _ r] exI [of _ h']) (auto simp: takes_def Let_def)
  qed
qed

text \<open>
  C37: \<open>free\<close> returns and gives back exactly the bytes of the block: the free bytes afterwards are the old ones
  and those of the block with its header, the list stays well formed and coalesced, and no other block is
  touched.
\<close>
theorem free_returns_block:
  assumes "uheap_ok base brk h F" "freep h \<noteq> 0" "base + 2 * HEADER \<le> r" "0 < hsize h (r - HEADER)"
    "r - HEADER + HEADER * hsize h (r - HEADER) \<le> brk" "{r - HEADER ..< r - HEADER + HEADER * hsize h (r - HEADER)} \<inter> F = {}"
  shows "\<exists>h'. free r h = Some h' \<and> uheap_ok base brk h' (F \<union> {r - HEADER ..< r - HEADER + HEADER * hsize h (r - HEADER)})
    \<and> uenv h' = uenv h \<and> (\<forall>a. a \<notin> F \<union> {r - HEADER ..< r - HEADER + HEADER * hsize h (r - HEADER)} \<longrightarrow> hsize h' a = hsize h a)"
proof -
  obtain xs where xs: "heap_list base brk h xs" "F = blocks h xs" using assms(1,2) by (auto simp: uheap_ok_def heap_ok_def)
  have "base + HEADER \<le> r - HEADER" "r - HEADER + HEADER = r" using assms(3) by (simp_all add: HEADER_def)
  then obtain h' ys where f: "free r h = Some h'" "heap_list base brk h' ys"
    "blocks h' ys = blocks h xs \<union> {r - HEADER ..< r - HEADER + HEADER * hsize h (r - HEADER)}" "uenv h' = uenv h"
    "\<forall>a. a \<notin> blocks h' ys \<longrightarrow> hsize h' a = hsize h a"
    using free_effect [OF xs(1) _ assms(4,5)] assms(6) xs(2) by metis
  then have "heap_ok base brk h' (blocks h' ys)" by (auto simp: heap_ok_def)
  then have "uheap_ok base brk h' (blocks h' ys)" using assms(1) by (intro uheap_okI) (simp_all add: uheap_ok_def)
  then show ?thesis using f xs(2) by (intro exI [of _ h']) simp
qed

text \<open>A break that moves up to \<open>2 ^ 36\<close>, as an instance of the law of \<open>sbrk\<close>.\<close>

definition brk_os :: "nat os" where
  "brk_os = \<lparr>os_read = \<lambda>fd n e. (0, [], e), os_write = \<lambda>fd bs e. (int (length bs), e), os_open = \<lambda>p m e. (- 1, e),
     os_close = \<lambda>fd e. (0, e), os_fstat = \<lambda>fd e. (- 1, \<lparr>st_dev = 0, st_ino = 0, st_type = 0, st_nlink = 0, st_size = 0\<rparr>, e),
     os_sbrk = \<lambda>n k e. (if e + nat n \<le> 2 ^ 36 then (of_nat e, e + nat n) else (- 1, e)),
     os_link = \<lambda>p q e. (- 1, e), os_unlink = \<lambda>p e. (- 1, e), os_mkdir = \<lambda>p e. (- 1, e), os_kill = \<lambda>p e. (- 1, e), os_sync = \<lambda>e. e\<rparr>"

lemma brk_os_law: "core_law brk_os id"
  by (simp add: core_law_def sbrk_def brk_os_def)

definition new_heap :: "nat \<Rightarrow> nat uheap" where
  "new_heap b = \<lparr>hptr = \<lambda>_. 0, hsize = \<lambda>_. 0, freep = 0, uenv = b\<rparr>"

lemma new_heap_ok: "uheap_ok 4096 8192 (new_heap 8192) {}"
  by (simp add: uheap_ok_def new_heap_def HEADER_def)

theorem malloc_allocates_witness:
  "\<exists>r h'. malloc brk_os 4096 100 (new_heap 8192) = Some (r, h') \<and> r \<noteq> 0 \<and> hsize h' (r - 16) = 8 \<and> {r - 16 ..< r + 112} \<subseteq> {8192 ..< uenv h'}"
proof -
  have u: "units 100 = 8" by (simp add: units_def HEADER_def)
  have sb: "fst (sbrk brk_os (int (max (units 100) 4096 * HEADER)) (uenv (new_heap 8192))) \<noteq> - 1"
    by (simp add: u HEADER_def sbrk_def brk_os_def new_heap_def)
  obtain r h' where "malloc brk_os 4096 100 (new_heap 8192) = Some (r, h')" "r \<noteq> 0" "hsize h' (r - HEADER) = units 100"
    "{r - HEADER ..< r - HEADER + HEADER * units 100} \<subseteq> {8192 ..< uenv h'}"
    using malloc_allocates [OF brk_os_law, of 4096 "new_heap 8192" "{}" 100] new_heap_ok sb
    by (auto simp: new_heap_def Let_def split: if_splits)
  then show ?thesis using u by (intro exI [of _ r] exI [of _ h']) (auto simp: HEADER_def)
qed

text \<open>A heap with one free block, for \<open>free\<close>.\<close>

definition one_block :: "nat uheap" where
  "one_block = \<lparr>hptr = (\<lambda>_. 0)(4096 := 8192, 8192 := 4096), hsize = (\<lambda>_. 0)(8192 := 8, 8320 := 8), freep = 4096, uenv = 12288\<rparr>"

theorem free_returns_block_witness:
  "\<exists>h'. free 8336 one_block = Some h' \<and> uheap_ok 4096 12288 h' {8192 ..< 8448}"
proof -
  have "heap_list 4096 12288 one_block [4096, 8192]" by (simp add: heap_list_def one_block_def HEADER_def)
  moreover have "blocks one_block [4096, 8192] = {8192 ..< 8320}" by (simp add: blocks_def one_block_def HEADER_def)
  ultimately have "uheap_ok 4096 12288 one_block {8192 ..< 8320}"
    unfolding uheap_ok_def heap_ok_def by (auto simp: HEADER_def one_block_def)
  moreover have "{8192 ..< 8320} \<union> {8320 ..< 8448 :: nat} = {8192 ..< 8448}" by auto
  ultimately show ?thesis using free_returns_block [of 4096 12288 one_block "{8192 ..< 8320}" 8336]
    by (auto simp: one_block_def HEADER_def)
qed

text \<open>
  C38: an allocation of nearly \<open>2 ^ 32\<close> bytes is not refused. The size in bytes is passed to \<open>sbrk\<close> as an
  \<open>int\<close> and wraps around: the break moves up by 16 bytes only, and \<open>malloc\<close> returns a block whose header
  says it has more than four thousand million bytes.
\<close>
theorem malloc_huge_overflows:
  assumes "core_law os brk" "freep h = 0" "0 < base" "base + HEADER \<le> brk (uenv h)" "brk (uenv h) + 16 \<le> 2 ^ 36"
    "fst (sbrk os 16 (uenv h)) \<noteq> - 1"
  shows "\<exists>r h'. malloc os base (2 ^ 32 - 1) h = Some (r, h') \<and> r = brk (uenv h) + 16 \<and> hsize h' (r - 16) = 2 ^ 28 + 1
    \<and> brk (uenv h') = brk (uenv h) + 16"
proof -
  let ?n = "2 ^ 28 + 1 :: nat" and ?b = "brk (uenv h)"
  have u: "units (2 ^ 32 - 1) = ?n" by (simp add: units_def HEADER_def)
  obtain e where e: "sbrk os 16 (uenv h) = (of_nat ?b, e)" "brk e = ?b + 16"
  proof -
    have "(0 :: int) < 16" by simp
    then consider e' where "sbrk os 16 (uenv h) = (- 1, e')" | e' where "sbrk os 16 (uenv h) = (of_nat ?b, e')" "brk e' = ?b + nat 16"
      using assms(1) unfolding core_law_def by metis
    then show ?thesis using assms(6) that by cases auto
  qed
  have b: "unat (of_nat ?b :: u64) = ?b" "(of_nat ?b :: u64) \<noteq> - 1" "base < ?b"
    using assms(4,5) by (simp_all add: unsigned_of_nat take_bit_nat_eq_self word_unat_eq_iff unsigned_minus_1_eq_mask mask_eq_exp_minus_1 HEADER_def)
  have arg: "i32 (int (?n * HEADER)) = 16" by (simp add: i32_def HEADER_def signed_take_bit_eq_if_positive bit_iff_odd take_bit_eq_mod)
  let ?h0 = "h\<lparr>hptr := (hptr h)(base := base), freep := base, hsize := (hsize h)(base := 0)\<rparr>"
  let ?h1 = "?h0\<lparr>uenv := e, hsize := (hsize ?h0)(?b := ?n)\<rparr>"
  let ?h2 = "?h1\<lparr>hptr := (hptr ?h0)(?b := base, base := ?b)\<rparr>"
  have find: "free_find ?h1 ?b base = Some base" using b(3) by (subst free_find.simps) simp
  have "free (?b + HEADER) ?h1 = Some ?h2" using find b(3) by (simp add: free_def join_upper_def join_lower_def Let_def HEADER_def)
  then have more: "morecore os ?n ?h0 = Some (base, ?h2)" using e b arg by (simp add: morecore_def Let_def del: of_nat_mult)
  have "malloc os base (2 ^ 32 - 1) h = malloc_loop os ?n base base ?h0" using assms(2) u by (simp add: malloc_def Let_def)
  also have "\<dots> = malloc_loop os ?n base ?b ?h2"
    using more assms(3) b(3) by (subst malloc_loop.simps) simp
  also have "\<dots> = Some (take_block ?n base ?b ?h2)" using b(3) by (subst malloc_loop.simps) simp
  also have "\<dots> = Some (?b + HEADER, ?h2\<lparr>hptr := (hptr ?h2)(base := hptr ?h2 ?b), freep := base\<rparr>)"
    using b(3) by (simp add: take_block_def)
  finally show ?thesis using e(2) by (simp add: HEADER_def)
qed

theorem malloc_huge_overflows_witness:
  "\<exists>r h'. malloc brk_os 4096 (2 ^ 32 - 1) (new_heap 8192) = Some (r, h') \<and> r = 8208 \<and> hsize h' 8192 = 2 ^ 28 + 1 \<and> uenv h' = 8208"
proof -
  have "fst (sbrk brk_os 16 (uenv (new_heap 8192))) \<noteq> - 1" by (simp add: sbrk_def brk_os_def new_heap_def)
  then show ?thesis using malloc_huge_overflows [OF brk_os_law, of "new_heap 8192" 4096] by (auto simp: new_heap_def HEADER_def)
qed

end
