(* ===== verification/Xv6_Sh.thy ===== *)
theory Xv6_Sh
  imports Xv6_Ulib "HOL-Library.Sublist"
begin

text \<open>
  The shell, sh.c: its tokens, its recursive-descent parser. A pointer
  into the command line is the list of bytes from it to the end of the line (\<open>es\<close>), so \<open>[]\<close> is \<open>es\<close> itself,
  where the byte is NUL. A token is the pair of pointers \<open>q\<close>, \<open>eq\<close> that \<open>gettoken\<close> hands out.
\<close>

section \<open>Commands\<close>

datatype 'a cmd =
    EXEC "'a list"
  | REDIR "'a cmd" 'a int int
  | PIPE "'a cmd" "'a cmd"
  | LIST "'a cmd" "'a cmd"
  | BACK "'a cmd"

definition MAXARGS :: nat where "MAXARGS = 10"

type_synonym ptr = "u8 list"
type_synonym token = "ptr \<times> ptr"

text \<open>The parser stops with a message (\<open>panic\<close> of sh.c prints it and exits) or with the text it could not read.
  \<open>None\<close>: the fuel is used up.\<close>

datatype perr = P_panic string | P_leftovers ptr

type_synonym 'r pres = "(perr + 'r) option"

definition pbind :: "'r pres \<Rightarrow> ('r \<Rightarrow> 'q pres) \<Rightarrow> 'q pres" where
  "pbind m f = (case m of None \<Rightarrow> None | Some (Inl e) \<Rightarrow> Some (Inl e) | Some (Inr r) \<Rightarrow> f r)"

definition pret :: "'r \<Rightarrow> 'r pres" where
  "pret r = Some (Inr r)"

definition pfail :: "string \<Rightarrow> 'r pres" where
  "pfail e = Some (Inl (P_panic e))"

section \<open>Tokens\<close>

definition whitespace :: ptr where "whitespace = [32, 9, 13, 10, 11]"
definition symbols :: ptr where "symbols = [60, 124, 62, 38, 59, 40, 41]"

definition is_ws :: "u8 \<Rightarrow> bool" where "is_ws c \<longleftrightarrow> u_strchr whitespace c \<noteq> None"
definition is_sym :: "u8 \<Rightarrow> bool" where "is_sym c \<longleftrightarrow> u_strchr symbols c \<noteq> None"

definition skip_ws :: "ptr \<Rightarrow> ptr" where
  "skip_ws s = dropWhile is_ws s"

definition skip_word :: "ptr \<Rightarrow> ptr" where
  "skip_word s = dropWhile (\<lambda>c. \<not> is_ws c \<and> \<not> is_sym c) s"

text \<open>The kind of the token, the pointer behind it.\<close>

definition token_end :: "ptr \<Rightarrow> u8 \<times> ptr" where
  "token_end s =
     (let c = chr_at s 0 in
      if c = 0 then (0, s)
      else if c \<in> {124, 40, 41, 59, 38, 60} then (c, drop 1 s)
      else if c = 62 then (if chr_at s 1 = 62 then (43, drop 2 s) else (c, drop 1 s))
      else (97, skip_word s))"

definition gettoken :: "ptr \<Rightarrow> u8 \<times> token \<times> ptr" where
  "gettoken s = (let q = skip_ws s in case token_end q of (tok, eq) \<Rightarrow> (tok, (q, eq), skip_ws eq))"

text \<open>\<open>peek\<close> also moves the pointer over blanks.\<close>

definition peek :: "ptr \<Rightarrow> ptr \<Rightarrow> bool \<times> ptr" where
  "peek s toks = (let s' = skip_ws s in (chr_at s' 0 \<noteq> 0 \<and> u_strchr toks (chr_at s' 0) \<noteq> None, s'))"

lemma length_skip_ws: "length (skip_ws s) \<le> length s"
  by (simp add: skip_ws_def length_dropWhile_le)

lemma length_token_end: "token_end s = (r, eq) \<Longrightarrow> r \<noteq> 0 \<Longrightarrow> \<not> is_ws (chr_at s 0) \<Longrightarrow> length eq < length s"
proof -
  assume t: "token_end s = (r, eq)" "r \<noteq> 0" "\<not> is_ws (chr_at s 0)"
  show ?thesis
  proof (cases s)
    case Nil
    then show ?thesis using t by (simp add: token_end_def)
  next
    case (Cons c s')
    have "\<not> is_sym c" if "c \<notin> {60, 124, 62, 38, 59, 40, 41}" using that by (auto simp: is_sym_def symbols_def)
    then show ?thesis using t Cons length_dropWhile_le [of "\<lambda>c. \<not> is_ws c \<and> \<not> is_sym c" s']
      by (auto simp: token_end_def skip_word_def Let_def chr_at_def split: if_splits)
  qed
qed

lemma skip_ws_head: "skip_ws s = [] \<or> \<not> is_ws (chr_at (skip_ws s) 0)"
proof (cases "skip_ws s")
  case (Cons c t)
  then show ?thesis using hd_dropWhile [of is_ws s] by (auto simp: skip_ws_def)
qed simp

lemma ws_NUL [simp]: "\<not> is_ws 0"
  by (simp add: is_ws_def whitespace_def)

lemma length_gettoken: "gettoken s = (r, tok, s') \<Longrightarrow> length s' \<le> length s \<and> (r \<noteq> 0 \<longrightarrow> length s' < length s)"
proof -
  assume g: "gettoken s = (r, tok, s')"
  obtain eq where e: "token_end (skip_ws s) = (r, eq)" "s' = skip_ws eq"
    using g by (auto simp: gettoken_def Let_def split: prod.splits)
  have nw: "\<not> is_ws (chr_at (skip_ws s) 0)" using skip_ws_head [of s] by auto
  have "length eq \<le> length (skip_ws s)"
  proof (cases "r = 0")
    case True
    then show ?thesis using e(1) by (auto simp: token_end_def Let_def split: if_splits)
  qed (use length_token_end [OF e(1) _ nw] in simp)
  then show ?thesis using length_token_end [OF e(1) _ nw] length_skip_ws [of s] length_skip_ws [of eq] e(2) by fastforce
qed

lemma skip_ws_idem [simp]: "skip_ws (skip_ws s) = skip_ws s"
  by (simp add: skip_ws_def dropWhile_idem)

lemma peek_token: "peek s toks = (True, s1) \<Longrightarrow> gettoken s1 = (tok, t, s2) \<Longrightarrow> tok \<noteq> 0"
  by (auto simp: peek_def gettoken_def token_end_def Let_def split: prod.splits if_splits)

lemma length_peek: "peek s toks = (b, s1) \<Longrightarrow> length s1 \<le> length s"
  using length_skip_ws [of s] by (auto simp: peek_def Let_def)

lemma two_tokens_shorter:
  "(True, s1) = peek s toks \<Longrightarrow> (tok, t, s2) = gettoken s1 \<Longrightarrow> (a, u, s3) = gettoken s2 \<Longrightarrow> length s3 < length s"
  using length_peek [of s toks True s1] peek_token [of s toks s1 tok t s2] length_gettoken [of s1 tok t s2] length_gettoken [of s2 a u s3]
  by fastforce

lemma token_shorter: "(True, s1) = peek s toks \<Longrightarrow> (tok, t, s2) = gettoken s1 \<Longrightarrow> length s2 < length s"
  using length_peek [of s toks True s1] peek_token [of s toks s1 tok t s2] length_gettoken [of s1 tok t s2] by fastforce

section \<open>The parser\<close>

text \<open>\<open>parseredirs\<close>: the redirections, innermost first, as what they do to a command.\<close>

type_synonym redir = "token \<times> int \<times> int"

definition wrap :: "token cmd \<Rightarrow> redir list \<Rightarrow> token cmd" where
  "wrap c rs = foldl (\<lambda>c (fl, mode, fd). REDIR c fl mode fd) c rs"

definition redir_of :: "u8 \<Rightarrow> token \<Rightarrow> redir list" where
  "redir_of tok f =
     (if tok = 60 then [(f, 0, 0)]
      else if tok = 62 then [(f, 0x601, 1)]
      else if tok = 43 then [(f, 0x201, 1)]
      else [])"

function parseredirs :: "redir list \<Rightarrow> ptr \<Rightarrow> (redir list \<times> ptr) pres" where
  "parseredirs rs s =
     (case peek s [60, 62] of (go, s1) \<Rightarrow>
        if go then
          (case gettoken s1 of (tok, _, s2) \<Rightarrow>
           case gettoken s2 of (a, fl, s3) \<Rightarrow>
             if a \<noteq> 97 then pfail ''missing file for redirection''
             else parseredirs (rs @ redir_of tok fl) s3)
        else pret (rs, s1))"
  by pat_completeness auto
termination
  by (relation "measure (\<lambda>(rs, s). length s)") (auto dest: two_tokens_shorter)

declare parseredirs.simps [simp del]

lemma length_parseredirs: "parseredirs rs s = Some (Inr (rs', s')) \<Longrightarrow> length s' \<le> length s"
proof (induction rs s rule: parseredirs.induct)
  case (1 rs s)
  obtain b s1 where p: "peek s [60, 62] = (b, s1)" by fastforce
  obtain tok t2 s2 where g: "gettoken s1 = (tok, t2, s2)" by (metis prod_cases3)
  obtain a fl s3 where h: "gettoken s2 = (a, fl, s3)" by (metis prod_cases3)
  have l: "length s1 \<le> length s" "length s2 \<le> length s1" "length s3 \<le> length s2"
    using length_peek [OF p] length_gettoken [OF g] length_gettoken [OF h] by auto
  show ?case
  proof (cases b)
    case True
    then have "length s' \<le> length s3"
      using "1.prems" 1(1) [OF p [symmetric] True g [symmetric] _ h [symmetric]] p g h
      by (subst (asm) parseredirs.simps) (auto simp: pfail_def split: if_splits)
    then show ?thesis using l by simp
  next
    case False
    then show ?thesis using "1.prems" p l by (subst (asm) parseredirs.simps) (simp add: pret_def)
  qed
qed

lemma args_shorter:
  "(b, s1) = peek s toks \<Longrightarrow> (97, t, s2) = gettoken s1 \<Longrightarrow> parseredirs rs s2 = Some (Inr (rs', s3)) \<Longrightarrow> length s3 < length s"
  using length_peek [of s toks b s1] length_gettoken [of s1 97 t s2] length_parseredirs [of rs s2 rs' s3] by fastforce

text \<open>
  The loop of \<open>parseexec\<close>: the \<open>execcmd\<close> it fills in stays inside the redirections put around it, so the
  arguments and the redirections are collected side by side.
\<close>

function exec_args :: "token list \<Rightarrow> redir list \<Rightarrow> ptr \<Rightarrow> (token list \<times> redir list \<times> ptr) pres" where
  "exec_args args rs s =
     (case peek s [124, 41, 38, 59] of (stop, s1) \<Rightarrow>
        if stop then pret (args, rs, s1)
        else
          (case gettoken s1 of (tok, t, s2) \<Rightarrow>
             if tok = 0 then pret (args, rs, s2)
             else if tok \<noteq> 97 then pfail ''syntax''
             else if Suc (length args) \<ge> MAXARGS then pfail ''too many args''
             else
               (case parseredirs rs s2 of
                  None \<Rightarrow> None
                | Some (Inl e) \<Rightarrow> Some (Inl e)
                | Some (Inr (rs', s3)) \<Rightarrow> exec_args (args @ [t]) rs' s3)))"
  by pat_completeness auto
termination
  by (relation "measure (\<lambda>(args, rs, s). length s)") (auto dest: args_shorter)

declare exec_args.simps [simp del]

text \<open>The loop of \<open>parseline\<close> over ampersands.\<close>

function back_loop :: "token cmd \<Rightarrow> ptr \<Rightarrow> token cmd \<times> ptr" where
  "back_loop c s =
     (case peek s [38] of (b, s1) \<Rightarrow>
        if b then (case gettoken s1 of (tok, _, s2) \<Rightarrow> back_loop (BACK c) s2) else (c, s1))"
  by pat_completeness auto
termination
  by (relation "measure (\<lambda>(c, s). length s)") (auto dest: token_shorter)

declare back_loop.simps [simp del]

fun parseline :: "nat \<Rightarrow> ptr \<Rightarrow> (token cmd \<times> ptr) pres"
  and parsepipe :: "nat \<Rightarrow> ptr \<Rightarrow> (token cmd \<times> ptr) pres"
  and parseexec :: "nat \<Rightarrow> ptr \<Rightarrow> (token cmd \<times> ptr) pres"
  and parseblock :: "nat \<Rightarrow> ptr \<Rightarrow> (token cmd \<times> ptr) pres" where
  "parseline 0 s = None"
| "parseline (Suc n) s =
     pbind (parsepipe n s) (\<lambda>(c, s1).
     case back_loop c s1 of (c', s2) \<Rightarrow>
     case peek s2 [59] of (b, s3) \<Rightarrow>
       if b then pbind (parseline n (snd (snd (gettoken s3)))) (\<lambda>(d, s4). pret (LIST c' d, s4))
       else pret (c', s3))"
| "parsepipe 0 s = None"
| "parsepipe (Suc n) s =
     pbind (parseexec n s) (\<lambda>(c, s1).
     case peek s1 [124] of (b, s2) \<Rightarrow>
       if b then pbind (parsepipe n (snd (snd (gettoken s2)))) (\<lambda>(d, s3). pret (PIPE c d, s3))
       else pret (c, s2))"
| "parseexec 0 s = None"
| "parseexec (Suc n) s =
     (case peek s [40] of (b, s1) \<Rightarrow>
        if b then parseblock n s1
        else
          pbind (parseredirs [] s1) (\<lambda>(rs, s2).
          pbind (exec_args [] rs s2) (\<lambda>(args, rs', s3). pret (wrap (EXEC args) rs', s3))))"
| "parseblock 0 s = None"
| "parseblock (Suc n) s =
     (case peek s [40] of (b, s1) \<Rightarrow>
        if \<not> b then pfail ''parseblock''
        else
          pbind (parseline n (snd (snd (gettoken s1)))) (\<lambda>(c, s2).
          case peek s2 [41] of (b', s3) \<Rightarrow>
            if \<not> b' then pfail ''syntax - missing )''
            else pbind (parseredirs [] (snd (snd (gettoken s3)))) (\<lambda>(rs, s4). pret (wrap c rs, s4))))"

text \<open>\<open>nulterminate\<close> stores a NUL at the end of every token; \<open>eq\<close> is \<open>length eq\<close> bytes before the end of the line.\<close>

definition put_nul :: "ptr \<Rightarrow> u8 list \<Rightarrow> u8 list" where
  "put_nul eq buf = buf[length buf - 1 - length eq := 0]"

primrec nulterminate :: "token cmd \<Rightarrow> u8 list \<Rightarrow> u8 list" where
  "nulterminate (EXEC args) buf = fold (\<lambda>(q, eq). put_nul eq) args buf"
| "nulterminate (REDIR c fl mode fd) buf = put_nul (snd fl) (nulterminate c buf)"
| "nulterminate (PIPE l r) buf = nulterminate r (nulterminate l buf)"
| "nulterminate (LIST l r) buf = nulterminate r (nulterminate l buf)"
| "nulterminate (BACK c) buf = nulterminate c buf"

text \<open>The string a token points to in the line \<open>buf\<close>, up to its NUL.\<close>

definition string_at :: "u8 list \<Rightarrow> token \<Rightarrow> u8 list" where
  "string_at buf t = takeWhile (\<lambda>c. c \<noteq> 0) (drop (length buf - 1 - length (fst t)) buf)"

definition parse_fuel :: "ptr \<Rightarrow> nat" where
  "parse_fuel s = 4 * length s + 4"

text \<open>\<open>parsecmd\<close> on the line \<open>s\<close>, with the strings of the command as \<open>runcmd\<close> reads them.\<close>

definition parsecmd :: "ptr \<Rightarrow> (u8 list cmd) pres" where
  "parsecmd s =
     pbind (parseline (parse_fuel s) s) (\<lambda>(c, s1).
     case peek s1 [] of (_, s2) \<Rightarrow>
       if s2 \<noteq> [] then Some (Inl (P_leftovers s2))
       else pret (map_cmd (string_at (nulterminate c (s @ [0]))) c))"

section \<open>Tokens are the words of the line\<close>

definition is_word :: "u8 \<Rightarrow> bool" where
  "is_word c \<longleftrightarrow> \<not> is_ws c \<and> \<not> is_sym c \<and> c \<noteq> 0"

text \<open>A token of the line \<open>s\<close>: a non-empty run of word characters that ends where the next character is none.\<close>

definition word_tok :: "ptr \<Rightarrow> token \<Rightarrow> bool" where
  "word_tok s t \<longleftrightarrow> suffix (fst t) s \<and>
     (\<exists>w. fst t = w @ snd t \<and> w \<noteq> [] \<and> (\<forall>c \<in> set w. is_word c)) \<and> \<not> is_word (chr_at (snd t) 0)"

lemma word_tok_suffix: "suffix s' s \<Longrightarrow> word_tok s' t \<Longrightarrow> word_tok s t"
  unfolding word_tok_def by (meson suffix_order.order_trans)

lemma suffix_skip [simp]: "suffix (skip_ws s) s" "suffix (skip_word s) s" "suffix (drop n s) s"
  by (simp_all add: skip_ws_def skip_word_def suffix_dropWhile suffix_drop)

lemma suffix_peek: "peek s toks = (b, s1) \<Longrightarrow> suffix s1 s"
  by (auto simp: peek_def Let_def)

lemma suffix_gettoken:
  assumes g: "gettoken s = (r, t, s')" and nz: "0 \<notin> set s"
  shows "suffix s' s" "r = 97 \<Longrightarrow> word_tok s t"
proof -
  obtain eq where e: "token_end (skip_ws s) = (r, eq)" "s' = skip_ws eq" "t = (skip_ws s, eq)"
    using g by (auto simp: gettoken_def Let_def split: prod.splits)
  have "suffix eq (skip_ws s)" using e(1) by (auto simp: token_end_def Let_def split: if_splits)
  then show "suffix s' s" using e(2) by (meson suffix_skip(1) suffix_order.order_trans)
  show "word_tok s t" if "r = 97"
  proof -
    let ?P = "\<lambda>c. \<not> is_ws c \<and> \<not> is_sym c"
    let ?q = "skip_ws s" and ?w = "takeWhile ?P (skip_ws s)"
    have nz': "0 \<notin> set ?q" using nz set_mono_suffix [OF suffix_skip(1) [of s]] by auto
    have c: "chr_at ?q 0 \<notin> {0, 124, 40, 41, 59, 38, 60, 62}" "eq = skip_word ?q"
      using e(1) that by (auto simp: token_end_def Let_def split: if_splits)
    then have "?q \<noteq> []" by auto
    moreover from this have "?P (hd ?q)" using c(1) skip_ws_head [of s] by (cases ?q) (auto simp: is_sym_def symbols_def)
    ultimately have "?w \<noteq> []" by (cases ?q) auto
    moreover have "\<forall>c \<in> set ?w. is_word c"
    proof
      fix c assume "c \<in> set ?w"
      then have "c \<in> set ?q \<and> ?P c" by (rule set_takeWhileD)
      then show "is_word c" using nz' by (metis is_word_def)
    qed
    moreover have "\<not> is_word (chr_at eq 0)"
    proof (cases eq)
      case (Cons d ds)
      then show ?thesis using hd_dropWhile [of ?P ?q] c(2) by (auto simp: is_word_def skip_word_def)
    qed (simp add: is_word_def)
    moreover have "?q = ?w @ eq" using c(2) by (simp add: skip_word_def)
    ultimately show ?thesis unfolding word_tok_def e(3) by auto
  qed
qed

lemma suffix_NUL: "suffix s' s \<Longrightarrow> 0 \<notin> set s \<Longrightarrow> 0 \<notin> set (s' :: ptr)"
  using set_mono_suffix by blast

definition redirs_ok :: "ptr \<Rightarrow> redir list \<Rightarrow> bool" where
  "redirs_ok s rs \<longleftrightarrow> (\<forall>r \<in> set rs. word_tok s (fst r) \<and> snd (snd r) \<in> {0, 1})"

lemma redirs_ok_suffix: "suffix s' s \<Longrightarrow> redirs_ok s' rs \<Longrightarrow> redirs_ok s rs"
  unfolding redirs_ok_def using word_tok_suffix by blast

lemma parseredirs_tokens:
  "parseredirs rs s = Some (Inr (rs', s')) \<Longrightarrow> 0 \<notin> set s \<Longrightarrow> suffix s s0 \<Longrightarrow> redirs_ok s0 rs \<Longrightarrow> suffix s' s \<and> redirs_ok s0 rs'"
proof (induction rs s rule: parseredirs.induct)
  case (1 rs s)
  obtain b s1 where p: "peek s [60, 62] = (b, s1)" by fastforce
  obtain tok t2 s2 where g: "gettoken s1 = (tok, t2, s2)" by (metis prod_cases3)
  obtain a fl s3 where h: "gettoken s2 = (a, fl, s3)" by (metis prod_cases3)
  have s1: "suffix s1 s" "0 \<notin> set s1" using suffix_peek [OF p] suffix_NUL 1(3) by blast+
  have s2: "suffix s2 s" "0 \<notin> set s2" using suffix_gettoken(1) [OF g s1(2)] s1 suffix_NUL 1(3) by (meson suffix_order.order_trans)+
  have s3: "suffix s3 s" "0 \<notin> set s3" using suffix_gettoken(1) [OF h s2(2)] s2 suffix_NUL 1(3) by (meson suffix_order.order_trans)+
  show ?case
  proof (cases b)
    case True
    then have a: "a = 97" "parseredirs (rs @ redir_of tok fl) s3 = Some (Inr (rs', s'))"
      using "1.prems"(1) p g h by (subst (asm) parseredirs.simps, auto simp: pfail_def split: if_splits)+
    have "word_tok s0 fl" using suffix_gettoken(2) [OF h s2(2) a(1)] word_tok_suffix s2(1) 1(4) by (meson suffix_order.order_trans)
    then have "redirs_ok s0 (rs @ redir_of tok fl)" using 1(5) by (auto simp: redirs_ok_def redir_of_def)
    then have "suffix s' s3 \<and> redirs_ok s0 rs'"
      using 1(1) [OF p [symmetric] True g [symmetric] _ h [symmetric] _ _ a(2) s3(2)] a(1) s3(1) 1(4) by (metis suffix_order.order_trans surj_pair)
    then show ?thesis using s3(1) by (meson suffix_order.order_trans)
  next
    case False
    then show ?thesis using "1.prems" p s1 by (subst (asm) parseredirs.simps) (auto simp: pret_def)
  qed
qed

lemma exec_args_tokens:
  "exec_args args rs s = Some (Inr (args', rs', s')) \<Longrightarrow> 0 \<notin> set s \<Longrightarrow> suffix s s0 \<Longrightarrow> redirs_ok s0 rs \<Longrightarrow>
   \<forall>t \<in> set args. word_tok s0 t \<Longrightarrow> length args < MAXARGS \<Longrightarrow>
   suffix s' s \<and> redirs_ok s0 rs' \<and> (\<forall>t \<in> set args'. word_tok s0 t) \<and> length args' < MAXARGS"
proof (induction args rs s rule: exec_args.induct)
  case (1 args rs s)
  obtain b s1 where p: "peek s [124, 41, 38, 59] = (b, s1)" by fastforce
  obtain tok t s2 where g: "gettoken s1 = (tok, t, s2)" by (metis prod_cases3)
  have s1: "suffix s1 s" "0 \<notin> set s1" using suffix_peek [OF p] suffix_NUL 1(3) by blast+
  have s2: "suffix s2 s" "0 \<notin> set s2" using suffix_gettoken(1) [OF g s1(2)] s1 suffix_NUL 1(3) by (meson suffix_order.order_trans)+
  show ?case
  proof (cases "b \<or> tok = 0")
    case True
    then show ?thesis using "1.prems" p g s1 s2 by (subst (asm) exec_args.simps) (auto simp: pret_def split: if_splits)
  next
    case False
    then have tok: "tok = 97" "Suc (length args) < MAXARGS" and
      "\<exists>rs1 s3. parseredirs rs s2 = Some (Inr (rs1, s3)) \<and> exec_args (args @ [t]) rs1 s3 = Some (Inr (args', rs', s'))"
      using "1.prems"(1) p g by (subst (asm) exec_args.simps, auto simp: pfail_def split: if_splits option.splits sum.splits)+
    then obtain rs1 s3 where r: "parseredirs rs s2 = Some (Inr (rs1, s3))" "exec_args (args @ [t]) rs1 s3 = Some (Inr (args', rs', s'))" by blast
    have r2: "suffix s3 s2" "redirs_ok s0 rs1" using parseredirs_tokens [OF r(1) s2(2) _ 1(5)] s2(1) 1(4) by (meson suffix_order.order_trans)+
    have s3: "suffix s3 s" "0 \<notin> set s3" using r2(1) s2 suffix_NUL by (meson suffix_order.order_trans)+
    have "word_tok s0 t" using suffix_gettoken(2) [OF g s1(2) tok(1)] word_tok_suffix s1(1) 1(4) by (meson suffix_order.order_trans)
    then have w: "\<forall>t \<in> set (args @ [t]). word_tok s0 t" using "1.prems"(5) by simp
    have l: "length (args @ [t]) < MAXARGS" using tok(2) by simp
    have s30: "suffix s3 s0" using s3(1) 1(4) by (meson suffix_order.order_trans)
    have go: "\<not> b" "tok \<noteq> 0" "\<not> tok \<noteq> 97" "\<not> MAXARGS \<le> Suc (length args)" using False tok by auto
    have "suffix s' s3 \<and> redirs_ok s0 rs' \<and> (\<forall>t \<in> set args'. word_tok s0 t) \<and> length args' < MAXARGS"
      by (rule 1(1) [OF p [symmetric] go(1) g [symmetric] refl go(2-4) r(1) refl refl r(2) s3(2) s30 r2(2) w l])
    then show ?thesis using s3(1) by (meson suffix_order.order_trans)
  qed
qed

text \<open>Every command of a tree has fewer than \<open>MAXARGS\<close> arguments: the last slot of \<open>argv\<close> is left for its null.\<close>

primrec well_built :: "'a cmd \<Rightarrow> bool" where
  "well_built (EXEC args) \<longleftrightarrow> length args < MAXARGS"
| "well_built (REDIR c f m fd) \<longleftrightarrow> well_built c \<and> fd \<in> {0, 1}"
| "well_built (PIPE l r) \<longleftrightarrow> well_built l \<and> well_built r"
| "well_built (LIST l r) \<longleftrightarrow> well_built l \<and> well_built r"
| "well_built (BACK c) \<longleftrightarrow> well_built c"

lemma well_built_wrap [simp]: "well_built (wrap c rs) \<longleftrightarrow> well_built c \<and> (\<forall>r \<in> set rs. snd (snd r) \<in> {0, 1})"
  unfolding wrap_def by (induction rs arbitrary: c) (simp_all add: split_beta)

lemma well_built_map [simp]: "well_built (map_cmd f c) = well_built c"
  by (induction c) auto

lemma back_loop_tokens:
  "back_loop c s = (c', s') \<Longrightarrow> 0 \<notin> set s \<Longrightarrow> suffix s' s \<and> set_cmd c' = set_cmd c \<and> well_built c' = well_built c"
proof (induction c s rule: back_loop.induct)
  case (1 c s)
  obtain b s1 where p: "peek s [38] = (b, s1)" by fastforce
  obtain tok t s2 where g: "gettoken s1 = (tok, t, s2)" by (metis prod_cases3)
  have s1: "suffix s1 s" "0 \<notin> set s1" using suffix_peek [OF p] suffix_NUL 1(3) by blast+
  have s2: "suffix s2 s" "0 \<notin> set s2" using suffix_gettoken(1) [OF g s1(2)] s1 suffix_NUL 1(3) by (meson suffix_order.order_trans)+
  show ?case
  proof (cases b)
    case True
    then have "back_loop (BACK c) s2 = (c', s')" using "1.prems"(1) p g by (subst (asm) back_loop.simps) simp
    then have "suffix s' s2 \<and> set_cmd c' = set_cmd (BACK c) \<and> well_built c' = well_built (BACK c)" using 1(1) [OF p [symmetric] True g [symmetric] refl _ s2(2)] by blast
    then show ?thesis using s2(1) by (auto intro: suffix_order.order_trans)
  next
    case False
    then show ?thesis using "1.prems" p s1 by (subst (asm) back_loop.simps) simp
  qed
qed

lemma set_cmd_wrap: "set_cmd (wrap c rs) = set_cmd c \<union> fst ` set rs"
  unfolding wrap_def by (induction rs arbitrary: c) auto

lemma pbind_Some:
  "pbind m f = Some (Inr r) \<longleftrightarrow> (\<exists>x. m = Some (Inr x) \<and> f x = Some (Inr r))"
  by (auto simp: pbind_def split: option.splits sum.splits)

definition parsed :: "ptr \<Rightarrow> token cmd \<times> ptr \<Rightarrow> bool" where
  "parsed s r \<longleftrightarrow> suffix (snd r) s \<and> (\<forall>t \<in> set_cmd (fst r). word_tok s t) \<and> well_built (fst r)"

lemma parsed_wrap:
  "suffix s' s \<Longrightarrow> redirs_ok s rs \<Longrightarrow> \<forall>t \<in> set_cmd c. word_tok s t \<Longrightarrow> well_built c \<Longrightarrow> parsed s (wrap c rs, s')"
  by (auto simp: parsed_def set_cmd_wrap redirs_ok_def)

lemma parsed_sub:
  assumes "parsed s1 (c, s2)" "suffix s1 s" "0 \<notin> set s"
  shows "suffix s2 s" "0 \<notin> set s2" "\<forall>t \<in> set_cmd c. word_tok s t" "well_built c"
proof -
  show s2: "suffix s2 s" using assms unfolding parsed_def by (auto intro: suffix_order.order_trans)
  then show "0 \<notin> set s2" using suffix_NUL assms(3) by blast
  show "\<forall>t \<in> set_cmd c. word_tok s t" "well_built c" using assms word_tok_suffix by (auto simp: parsed_def)
qed

lemma next_token: "0 \<notin> set s \<Longrightarrow> suffix (snd (snd (gettoken s))) s"
  using suffix_gettoken(1) [of s] by (metis prod.collapse)

lemma after_token:
  assumes "peek s toks = (b, s1)" "0 \<notin> set s"
  shows "suffix (snd (snd (gettoken s1))) s" "0 \<notin> set (snd (snd (gettoken s1)))"
    "b \<Longrightarrow> length (snd (snd (gettoken s1))) < length s"
proof -
  have s1: "suffix s1 s" "0 \<notin> set s1" using suffix_peek [OF assms(1)] suffix_NUL assms(2) by blast+
  then show s: "suffix (snd (snd (gettoken s1))) s" using next_token by (meson suffix_order.order_trans)
  then show "0 \<notin> set (snd (snd (gettoken s1)))" using suffix_NUL assms(2) by blast
  show "length (snd (snd (gettoken s1))) < length s" if b
    using token_shorter [of s1 s toks] assms(1) that by (metis prod.collapse)
qed

lemma parse_tokens:
  "0 \<notin> set s \<Longrightarrow> parseline n s = Some (Inr r) \<Longrightarrow> parsed s r"
  "0 \<notin> set s \<Longrightarrow> parsepipe n s = Some (Inr r) \<Longrightarrow> parsed s r"
  "0 \<notin> set s \<Longrightarrow> parseexec n s = Some (Inr r) \<Longrightarrow> parsed s r"
  "0 \<notin> set s \<Longrightarrow> parseblock n s = Some (Inr r) \<Longrightarrow> parsed s r"
proof (induction n arbitrary: s r)
  case (Suc n)
  {
    case 1
    then obtain c s1 where c: "parsepipe n s = Some (Inr (c, s1))" by (auto simp: pbind_Some)
    obtain c' s2 where b: "back_loop c s1 = (c', s2)" by fastforce
    obtain g s3 where p: "peek s2 [59] = (g, s3)" by fastforce
    note i = parsed_sub [OF Suc.IH(2) [OF 1(1) c] suffix_order.refl 1(1)]
    have s2: "suffix s2 s" "0 \<notin> set s2" "set_cmd c' = set_cmd c" "well_built c'"
      using back_loop_tokens [OF b i(2)] i suffix_NUL by (auto intro: suffix_order.order_trans)
    have s3: "suffix s3 s" using suffix_peek [OF p] s2(1) by (meson suffix_order.order_trans)
    show ?case
    proof (cases g)
      case True
      then obtain d s4 where d: "parseline n (snd (snd (gettoken s3))) = Some (Inr (d, s4))" "r = (LIST c' d, s4)"
        using 1 c b p by (auto simp: pbind_def pret_def split: option.splits sum.splits)
      have a: "suffix (snd (snd (gettoken s3))) s" using after_token(1) [OF p s2(2)] s2(1) by (meson suffix_order.order_trans)
      show ?thesis using parsed_sub [OF Suc.IH(1) [OF after_token(2) [OF p s2(2)] d(1)] a 1(1)] i s2 d(2) by (auto simp: parsed_def)
    next
      case False
      then show ?thesis using 1 c b p i s2 s3 by (auto simp: pbind_def pret_def parsed_def)
    qed
  next
    case 2
    then obtain c s1 where c: "parseexec n s = Some (Inr (c, s1))" by (auto simp: pbind_Some)
    obtain g s2 where p: "peek s1 [124] = (g, s2)" by fastforce
    note i = parsed_sub [OF Suc.IH(3) [OF 2(1) c] suffix_order.refl 2(1)]
    have s2: "suffix s2 s" using suffix_peek [OF p] i(1) by (meson suffix_order.order_trans)
    show ?case
    proof (cases g)
      case True
      then obtain d s3 where d: "parsepipe n (snd (snd (gettoken s2))) = Some (Inr (d, s3))" "r = (PIPE c d, s3)"
        using 2 c p by (auto simp: pbind_def pret_def split: option.splits sum.splits)
      have a: "suffix (snd (snd (gettoken s2))) s" using after_token(1) [OF p i(2)] i(1) by (meson suffix_order.order_trans)
      show ?thesis using parsed_sub [OF Suc.IH(2) [OF after_token(2) [OF p i(2)] d(1)] a 2(1)] i d(2) by (auto simp: parsed_def)
    next
      case False
      then show ?thesis using 2 c p i s2 by (auto simp: pbind_def pret_def parsed_def)
    qed
  next
    case 3
    obtain g s1 where p: "peek s [40] = (g, s1)" by fastforce
    have s1: "suffix s1 s" "0 \<notin> set s1" using suffix_peek [OF p] suffix_NUL 3(1) by blast+
    show ?case
    proof (cases g)
      case True
      then have "parseblock n s1 = Some (Inr r)" using 3(2) p by simp
      then show ?thesis using parsed_sub [OF _ s1(1) 3(1), of "fst r" "snd r"] Suc.IH(4) [OF s1(2)] by (simp add: parsed_def)
    next
      case False
      then obtain rs s2 args rs' s3 where x: "parseredirs [] s1 = Some (Inr (rs, s2))" "exec_args [] rs s2 = Some (Inr (args, rs', s3))"
        "r = (wrap (EXEC args) rs', s3)" using 3(2) p by (auto simp: pbind_Some pret_def)
      have a: "suffix s2 s1 \<and> redirs_ok s rs" using parseredirs_tokens [OF x(1) s1(2,1)] by (simp add: redirs_ok_def)
      then have s2: "suffix s2 s" "0 \<notin> set s2" using s1 suffix_NUL by (auto intro: suffix_order.order_trans)
      then have "suffix s3 s2" "redirs_ok s rs'" "\<forall>t \<in> set args. word_tok s t" "length args < MAXARGS"
        using exec_args_tokens [OF x(2) s2(2,1)] a by (simp_all add: MAXARGS_def)
      then show ?thesis unfolding x(3) using suffix_order.order_trans [OF _ s2(1)] by (intro parsed_wrap) auto
    qed
  next
    case 4
    obtain g s1 where p: "peek s [40] = (g, s1)" by fastforce
    note t = after_token [OF p 4(1)]
    obtain c s2 where x1: "parseline n (snd (snd (gettoken s1))) = Some (Inr (c, s2))"
      using 4(2) p by (auto simp: pbind_Some pfail_def split: if_splits)
    obtain g' s3 where x2: "peek s2 [41] = (g', s3)" by fastforce
    obtain rs s4 where "parseredirs [] (snd (snd (gettoken s3))) = Some (Inr (rs, s4))" "r = (wrap c rs, s4)"
      using 4(2) p x1 x2 by (auto simp: pbind_Some pret_def pfail_def split: if_splits)
    note x = x1 x2 this
    note i = parsed_sub [OF Suc.IH(1) [OF t(2) x(1)] t(1) 4(1)]
    have u: "suffix (snd (snd (gettoken s3))) s" "0 \<notin> set (snd (snd (gettoken s3)))"
      using after_token(1,2) [OF x(2) i(2)] i(1) by (auto intro: suffix_order.order_trans)
    then have "suffix s4 s \<and> redirs_ok s rs" using parseredirs_tokens [OF x(3) u(2,1)] by (auto simp: redirs_ok_def intro: suffix_order.order_trans)
    then show ?case unfolding x(4) using i by (intro parsed_wrap) auto
  }
qed simp_all

section \<open>The parser ends\<close>

lemma parseredirs_total: "parseredirs rs s \<noteq> None"
proof (induction rs s rule: parseredirs.induct)
  case (1 rs s)
  obtain b s1 where p: "peek s [60, 62] = (b, s1)" by fastforce
  obtain tok t2 s2 where g: "gettoken s1 = (tok, t2, s2)" by (metis prod_cases3)
  obtain a fl s3 where h: "gettoken s2 = (a, fl, s3)" by (metis prod_cases3)
  have "b \<Longrightarrow> \<not> a \<noteq> 97 \<Longrightarrow> parseredirs (rs @ redir_of tok fl) s3 \<noteq> None"
    by (rule 1 [OF p [symmetric] _ g [symmetric] refl h [symmetric] refl])
  then show ?case using p g h by (subst parseredirs.simps) (auto simp: pfail_def pret_def)
qed

lemma exec_args_total: "exec_args args rs s \<noteq> None"
proof (induction args rs s rule: exec_args.induct)
  case (1 args rs s)
  obtain b s1 where p: "peek s [124, 41, 38, 59] = (b, s1)" by fastforce
  obtain tok t s2 where g: "gettoken s1 = (tok, t, s2)" by (metis prod_cases3)
  have "\<not> b \<Longrightarrow> tok \<noteq> 0 \<Longrightarrow> \<not> tok \<noteq> 97 \<Longrightarrow> \<not> MAXARGS \<le> Suc (length args) \<Longrightarrow> parseredirs rs s2 = Some (Inr (rs', s3)) \<Longrightarrow>
      exec_args (args @ [t]) rs' s3 \<noteq> None" for rs' s3
    by (rule 1 [OF p [symmetric] _ g [symmetric] refl _ _ _ _ refl refl])
  then show ?case using p g parseredirs_total [of rs s2]
    by (subst exec_args.simps) (auto simp: pfail_def pret_def split: option.splits sum.splits)
qed

lemma pbind_total: "m \<noteq> None \<Longrightarrow> (\<And>x. m = Some (Inr x) \<Longrightarrow> f x \<noteq> None) \<Longrightarrow> pbind m f \<noteq> None"
  by (auto simp: pbind_def split: option.splits sum.splits)

lemma pbind_None: "pbind m f = None \<longleftrightarrow> m = None \<or> (\<exists>x. m = Some (Inr x) \<and> f x = None)"
  by (auto simp: pbind_def split: option.splits sum.splits)

lemma pbind_pret_total: "\<exists>z. pbind (Some y) (\<lambda>(d, s). Some (Inr (g d s))) = Some z"
  by (cases y) (auto simp: pbind_def split: prod.splits)

lemma parsed_length: "parsed s r \<Longrightarrow> length (snd r) \<le> length s"
  by (simp add: parsed_def suffix_length_le)

lemma parse_total:
  "0 \<notin> set s \<Longrightarrow> 4 * length s + 4 \<le> n \<Longrightarrow> parseline n s \<noteq> None"
  "0 \<notin> set s \<Longrightarrow> 4 * length s + 3 \<le> n \<Longrightarrow> parsepipe n s \<noteq> None"
  "0 \<notin> set s \<Longrightarrow> 4 * length s + 2 \<le> n \<Longrightarrow> parseexec n s \<noteq> None"
  "0 \<notin> set s \<Longrightarrow> 4 * length s + 1 \<le> n \<Longrightarrow> parseblock n s \<noteq> None"
proof (induction n arbitrary: s)
  case (Suc n)
  {
    case 1
    show ?case unfolding parseline.simps
    proof (rule pbind_total)
      show "parsepipe n s \<noteq> None" using Suc.IH(2) [OF 1(1)] 1(2) by simp
      fix x assume x: "parsepipe n s = Some (Inr x)"
      obtain c s1 where xs: "x = (c, s1)" by fastforce
      obtain c' s2 where b: "back_loop c s1 = (c', s2)" by fastforce
      obtain g s3 where p: "peek s2 [59] = (g, s3)" by fastforce
      have i: "suffix s1 s" "0 \<notin> set s1" using parsed_sub(1,2) [OF parse_tokens(2) [OF 1(1) x [unfolded xs]] suffix_order.refl 1(1)] .
      have s2: "length s2 \<le> length s" "0 \<notin> set s2"
        using back_loop_tokens [OF b i(2)] i suffix_NUL [of s2 s1] suffix_length_le [of s2 s1] suffix_length_le [of s1 s] by auto
      have "g \<Longrightarrow> parseline n (snd (snd (gettoken s3))) \<noteq> None"
        using Suc.IH(1) [OF after_token(2) [OF p s2(2)]] after_token(3) [OF p s2(2)] s2(1) 1(2) by simp
      then show "(case x of (c, s1) \<Rightarrow> case back_loop c s1 of (c', s2) \<Rightarrow> case peek s2 [59] of (b, s3) \<Rightarrow>
          if b then pbind (parseline n (snd (snd (gettoken s3)))) (\<lambda>(d, s4). pret (LIST c' d, s4)) else pret (c', s3)) \<noteq> None"
        using xs b p pbind_pret_total by (auto simp: pret_def)
    qed
  next
    case 2
    show ?case unfolding parsepipe.simps
    proof (rule pbind_total)
      show "parseexec n s \<noteq> None" using Suc.IH(3) [OF 2(1)] 2(2) by simp
      fix x assume x: "parseexec n s = Some (Inr x)"
      obtain c s1 where xs: "x = (c, s1)" by fastforce
      obtain g s2 where p: "peek s1 [124] = (g, s2)" by fastforce
      have i: "suffix s1 s" "0 \<notin> set s1" using parsed_sub(1,2) [OF parse_tokens(3) [OF 2(1) x [unfolded xs]] suffix_order.refl 2(1)] .
      have "g \<Longrightarrow> parsepipe n (snd (snd (gettoken s2))) \<noteq> None"
        using Suc.IH(2) [OF after_token(2) [OF p i(2)]] after_token(3) [OF p i(2)] suffix_length_le [OF i(1)] 2(2) by simp
      then show "(case x of (c, s1) \<Rightarrow> case peek s1 [124] of (b, s2) \<Rightarrow>
          if b then pbind (parsepipe n (snd (snd (gettoken s2)))) (\<lambda>(d, s3). pret (PIPE c d, s3)) else pret (c, s2)) \<noteq> None"
        using xs p pbind_pret_total by (auto simp: pret_def)
    qed
  next
    case 3
    obtain g s1 where p: "peek s [40] = (g, s1)" by fastforce
    have s1: "length s1 \<le> length s" "0 \<notin> set s1" using suffix_peek [OF p] suffix_NUL 3(1) suffix_length_le by blast+
    then have "parseblock n s1 \<noteq> None" using Suc.IH(4) [OF s1(2)] 3(2) by simp
    then show ?case using p parseredirs_total exec_args_total by (auto simp: pret_def pbind_None simp del: not_None_eq)
  next
    case 4
    obtain g s1 where p: "peek s [40] = (g, s1)" by fastforce
    have "g \<Longrightarrow> parseline n (snd (snd (gettoken s1))) \<noteq> None"
      using Suc.IH(1) [OF after_token(2) [OF p 4(1)]] after_token(3) [OF p 4(1)] 4(2) by simp
    then show ?case using p parseredirs_total by (auto simp: pret_def pfail_def pbind_None simp del: not_None_eq split: prod.splits if_splits)
  }
qed simp_all

lemma pbind_mono: "pbind m f = Some x \<Longrightarrow> (\<And>y. m = Some y \<Longrightarrow> m' = Some y) \<Longrightarrow> (\<And>r. f r = Some x \<Longrightarrow> f' r = Some x) \<Longrightarrow> pbind m' f' = Some x"
  by (auto simp: pbind_def split: option.splits sum.splits)

lemma parse_mono:
  "parseline n s = Some r \<Longrightarrow> parseline (Suc n) s = Some r"
  "parsepipe n s = Some r \<Longrightarrow> parsepipe (Suc n) s = Some r"
  "parseexec n s = Some r \<Longrightarrow> parseexec (Suc n) s = Some r"
  "parseblock n s = Some r \<Longrightarrow> parseblock (Suc n) s = Some r"
proof (induction n arbitrary: s r)
  case (Suc n)
  note steps [simp del] = parseline.simps(2) parsepipe.simps(2) parseexec.simps(2) parseblock.simps(2)
  {
    case 1
    then show ?case by (subst parseline.simps(2), subst (asm) parseline.simps(2))
        (erule pbind_mono, auto split: prod.splits if_splits elim!: pbind_mono intro: Suc.IH)
  next
    case 2
    then show ?case by (subst parsepipe.simps(2), subst (asm) parsepipe.simps(2))
        (erule pbind_mono, auto split: prod.splits if_splits elim!: pbind_mono intro: Suc.IH)
  next
    case 3
    then show ?case by (subst parseexec.simps(2), subst (asm) parseexec.simps(2))
        (auto split: prod.splits if_splits intro: Suc.IH)
  next
    case 4
    then show ?case by (subst parseblock.simps(2), subst (asm) parseblock.simps(2))
        (auto split: prod.splits if_splits elim!: pbind_mono intro: Suc.IH)
  }
qed simp_all

section \<open>The strings of a parsed command\<close>

definition token_text :: "token \<Rightarrow> u8 list" where
  "token_text t = take (length (fst t) - length (snd t)) (fst t)"

definition ends_at :: "nat \<Rightarrow> token set \<Rightarrow> nat \<Rightarrow> bool" where
  "ends_at n T i \<longleftrightarrow> (\<exists>t \<in> T. i = n - 1 - length (snd t))"

lemma length_put_nul [simp]: "length (put_nul eq buf) = length buf"
  by (simp add: put_nul_def)

lemma nth_put_nul: "i < length buf \<Longrightarrow> put_nul eq buf ! i = (if i = length buf - 1 - length eq then 0 else buf ! i)"
  by (simp add: put_nul_def nth_list_update)

lemma put_nuls:
  "length (fold (\<lambda>(q, eq). put_nul eq) ts buf) = length buf \<and>
   (\<forall>i < length buf. fold (\<lambda>(q, eq). put_nul eq) ts buf ! i = (if ends_at (length buf) (set ts) i then 0 else buf ! i))"
proof (induction ts arbitrary: buf)
  case (Cons t ts)
  obtain q eq where t: "t = (q, eq)" by fastforce
  show ?case using Cons [of "put_nul eq buf"] t by (auto simp: ends_at_def nth_put_nul)
qed (simp add: ends_at_def)

lemma nulterminate_nth:
  "length (nulterminate c buf) = length buf \<and>
   (\<forall>i < length buf. nulterminate c buf ! i = (if ends_at (length buf) (set_cmd c) i then 0 else buf ! i))"
proof (induction c arbitrary: buf)
  case (EXEC ts)
  then show ?case using put_nuls [of ts buf] by simp
next
  case (REDIR c fl m fd)
  then show ?case by (auto simp: ends_at_def nth_put_nul)
qed (auto simp: ends_at_def)

lemma string_of_token:
  assumes t: "t \<in> set_cmd c" and words: "\<forall>t \<in> set_cmd c. word_tok s t"
  shows "string_at (nulterminate c (s @ [0])) t = token_text t"
proof -
  obtain w where w: "fst t = w @ snd t" "w \<noteq> []" "\<forall>x \<in> set w. is_word x" "suffix (fst t) s" using t words by (auto simp: word_tok_def)
  then obtain u where s: "s = u @ w @ snd t" by (auto simp: suffix_def)
  let ?b = "nulterminate c (s @ [0])"
  have len: "length ?b = Suc (length s)" and nth: "\<And>i. i \<le> length s \<Longrightarrow> ?b ! i = (if ends_at (Suc (length s)) (set_cmd c) i then 0 else (s @ [0]) ! i)"
    using nulterminate_nth [of c "s @ [0]"] by (simp_all add: less_Suc_eq_le)
  have pos: "length ?b - 1 - length (fst t) = length u" using len s w(1) by simp
  have inside: "?b ! (length u + i) = w ! i" if i: "i < length w" for i
  proof -
    have si: "s ! (length u + i) = w ! i" using i s by (simp add: nth_append)
    have "\<not> ends_at (Suc (length s)) (set_cmd c) (length u + i)"
    proof
      assume "ends_at (Suc (length s)) (set_cmd c) (length u + i)"
      then obtain t' where t': "t' \<in> set_cmd c" "length u + i = length s - length (snd t')" by (auto simp: ends_at_def)
      have "suffix (fst t') s" "suffix (snd t') (fst t')" "\<not> is_word (chr_at (snd t') 0)" using words t'(1) by (auto simp: word_tok_def suffix_def)
      then obtain v where v: "s = v @ snd t'" by (meson suffix_def suffix_order.order_trans)
      have "length u + i < length s" using i s by simp
      then have "snd t' \<noteq> []" "length v = length u + i" using t'(2) v by auto
      then have "s ! (length u + i) = chr_at (snd t') 0" using v by (simp add: nth_append chr_at_def)
      then show False using \<open>\<not> is_word (chr_at (snd t') 0)\<close> si w(3) i by (metis nth_mem)
    qed
    then show ?thesis using nth [of "length u + i"] si i s by (simp add: nth_append)
  qed
  have "ends_at (Suc (length s)) (set_cmd c) (length u + length w)" using t s unfolding ends_at_def by (intro bexI [of _ t]) auto
  then have stop: "?b ! (length u + length w) = 0" using nth [of "length u + length w"] s by simp
  have "drop (length u) ?b = w @ 0 # drop (Suc (length u + length w)) ?b"
  proof (rule nth_equalityI)
    show "length (drop (length u) ?b) = length (w @ 0 # drop (Suc (length u + length w)) ?b)" using len s by simp
    fix i assume "i < length (drop (length u) ?b)"
    then show "drop (length u) ?b ! i = (w @ 0 # drop (Suc (length u + length w)) ?b) ! i"
      using inside [of i] stop len s by (cases "i < length w"; cases "i = length w") (auto simp: nth_append nth_Cons' add.commute)
  qed
  moreover have "0 \<notin> set w" using w(3) by (auto simp: is_word_def)
  ultimately have "string_at ?b t = w" unfolding string_at_def pos by (simp add: takeWhile_append)
  then show ?thesis using w(1) by (simp add: token_text_def)
qed

lemma parsecmd_tree:
  assumes "0 \<notin> set s" "parseline n s = Some (Inr (c, s1))" "skip_ws s1 = []"
  shows "parsecmd s = Some (Inr (map_cmd token_text c)) \<and> well_built c"
proof -
  have "n \<le> k \<Longrightarrow> parseline k s = Some (Inr (c, s1))" for k
  proof (induction rule: dec_induct)
    case (step m)
    then show ?case using parse_mono(1) by blast
  qed (rule assms(2))
  then have big: "parseline (max n (parse_fuel s)) s = Some (Inr (c, s1))" by simp
  have "parseline (parse_fuel s) s \<noteq> None" using parse_total(1) [OF assms(1)] by (simp add: parse_fuel_def)
  then obtain x where x: "parseline (parse_fuel s) s = Some x" by blast
  have "parse_fuel s \<le> k \<Longrightarrow> parseline k s = Some x" for k
  proof (induction rule: dec_induct)
    case (step m)
    then show ?case using parse_mono(1) by blast
  qed (rule x)
  then have line: "parseline (parse_fuel s) s = Some (Inr (c, s1))" using big x by (metis max.cobounded2 option.inject)
  have p: "\<forall>t \<in> set_cmd c. word_tok s t" "well_built c" using parse_tokens(1) [OF assms(1) line] by (simp_all add: parsed_def)
  have "map_cmd (string_at (nulterminate c (s @ [0]))) c = map_cmd token_text c"
    using string_of_token [OF _ p(1)] by (intro cmd.map_cong) auto
  then show ?thesis using line assms(3) p(2) by (simp add: parsecmd_def pbind_def pret_def peek_def Let_def)
qed

section \<open>Writing a command\<close>

text \<open>
  The text of a command: words followed by a blank, redirections after the words, parentheses where the
  grammar needs them. Level 0 is what \<open>parseexec\<close> reads, 1 \<open>parsepipe\<close>, 2 the part of \<open>parseline\<close> before a
  semicolon, 3 \<open>parseline\<close>.
\<close>

definition show_word :: "u8 list \<Rightarrow> u8 list" where
  "show_word w = w @ [32]"

definition redir_sign :: "int \<Rightarrow> u8 list" where
  "redir_sign mode = (if mode = 0 then [60] else if mode = 0x601 then [62] else [62, 62])"

definition paren :: "bool \<Rightarrow> u8 list \<Rightarrow> u8 list" where
  "paren b t = (if b then [40] @ t @ [41, 32] else t)"

primrec show_cmd :: "u8 list cmd \<Rightarrow> nat \<Rightarrow> u8 list" where
  "show_cmd (EXEC args) k = concat (map show_word args)"
| "show_cmd (REDIR c f m fd) k = show_cmd c 0 @ redir_sign m @ show_word f"
| "show_cmd (PIPE l r) k = paren (k < 1) (show_cmd l 0 @ [124] @ show_cmd r 1)"
| "show_cmd (LIST l r) k = paren (k < 3) (show_cmd l 2 @ [59] @ show_cmd r 3)"
| "show_cmd (BACK c) k = paren (k < 2) (show_cmd c 2 @ [38])"

definition good_word :: "u8 list \<Rightarrow> bool" where
  "good_word w \<longleftrightarrow> w \<noteq> [] \<and> (\<forall>c \<in> set w. is_word c)"

definition good_redir :: "u8 list \<times> int \<times> int \<Rightarrow> bool" where
  "good_redir x \<longleftrightarrow> good_word (fst x) \<and> snd x \<in> {(0, 0), (0x601, 1), (0x201, 1)}"

primrec good_cmd :: "u8 list cmd \<Rightarrow> bool" where
  "good_cmd (EXEC args) \<longleftrightarrow> length args < MAXARGS \<and> (\<forall>w \<in> set args. good_word w)"
| "good_cmd (REDIR c f m fd) \<longleftrightarrow> good_cmd c \<and> good_redir (f, m, fd)"
| "good_cmd (PIPE l r) \<longleftrightarrow> good_cmd l \<and> good_cmd r"
| "good_cmd (LIST l r) \<longleftrightarrow> good_cmd l \<and> good_cmd r"
| "good_cmd (BACK c) \<longleftrightarrow> good_cmd c"

text \<open>What may follow a command: blanks and one of the characters \<open>cs\<close>, or the end of the line.\<close>

definition follows :: "u8 set \<Rightarrow> ptr \<Rightarrow> bool" where
  "follows cs r \<longleftrightarrow> skip_ws r = [] \<or> chr_at (skip_ws r) 0 \<in> cs"

lemma sym_chars: "\<not> is_ws 124" "\<not> is_ws 41" "\<not> is_ws 38" "\<not> is_ws 59" "\<not> is_ws 40" "\<not> is_ws 60" "\<not> is_ws 62" "is_ws 32"
  by (simp_all add: is_ws_def whitespace_def)

lemma word_char: "is_word c \<Longrightarrow> \<not> is_ws c \<and> \<not> is_sym c \<and> c \<notin> {0, 124, 40, 41, 59, 38, 60, 62}"
  by (auto simp: is_word_def is_sym_def symbols_def)

lemma skip_ws_Cons: "skip_ws (c # r) = (if is_ws c then skip_ws r else c # r)"
  by (simp add: skip_ws_def)

lemma peek_skip [simp]: "peek (skip_ws s) toks = peek s toks"
  by (simp add: peek_def)

lemma gettoken_skip [simp]: "gettoken (skip_ws s) = gettoken s"
  by (simp add: gettoken_def)

lemma loops_skip [simp]: "parseredirs rs (skip_ws s) = parseredirs rs s" "exec_args as rs (skip_ws s) = exec_args as rs s"
    "back_loop c (skip_ws s) = back_loop c s"
  by (subst (1 2) parseredirs.simps, simp) (subst (1 2) exec_args.simps, simp, subst (1 2) back_loop.simps, simp)

lemma parse_skip [simp]: "parseexec n (skip_ws s) = parseexec n s" "parsepipe n (skip_ws s) = parsepipe n s" "parseline n (skip_ws s) = parseline n s"
proof -
  show e: "parseexec n (skip_ws s) = parseexec n s" for n by (cases n) simp_all
  show p: "parsepipe n (skip_ws s) = parsepipe n s" for n by (cases n) (simp_all add: e)
  show "parseline n (skip_ws s) = parseline n s" by (cases n) (simp_all add: p)
qed

lemma skip_word_at: "good_word w \<Longrightarrow> skip_ws (w @ r) = w @ r \<and> chr_at (w @ r) 0 = hd w \<and> is_word (hd w)"
proof -
  assume w: "good_word w"
  then obtain c w' where c: "w = c # w'" by (cases w) (auto simp: good_word_def)
  then have "is_word c" using w by (simp add: good_word_def)
  then show ?thesis using word_char [of c] c by (simp add: skip_ws_Cons)
qed

lemma gettoken_word:
  assumes w: "good_word w"
  shows "gettoken (show_word w @ r) = (97, (w @ 32 # r, 32 # r), skip_ws r)"
proof -
  have h: "skip_ws (w @ 32 # r) = w @ 32 # r" "chr_at (w @ 32 # r) 0 = hd w" "is_word (hd w)" using skip_word_at [OF w] by auto
  have "\<forall>c \<in> set w. \<not> is_ws c \<and> \<not> is_sym c" using w word_char by (auto simp: good_word_def)
  then have "skip_word (w @ 32 # r) = 32 # r" using sym_chars by (simp add: skip_word_def dropWhile_append3 dropWhile_append)
  then have "token_end (w @ 32 # r) = (97, 32 # r)" using h word_char [of "hd w"] by (auto simp: token_end_def Let_def)
  then show ?thesis using h(1) sym_chars by (simp add: gettoken_def show_word_def Let_def skip_ws_Cons)
qed

lemma gettoken_sym: "c \<in> {124, 40, 41, 59, 38} \<Longrightarrow> snd (snd (gettoken (c # r))) = skip_ws r"
  using sym_chars by (auto simp: gettoken_def Let_def skip_ws_Cons token_end_def)

lemma strchr_mem: "0 \<notin> set toks \<Longrightarrow> c \<noteq> 0 \<Longrightarrow> u_strchr toks c \<noteq> None \<longleftrightarrow> c \<in> set toks"
  by (induction toks) auto

lemma peek_eq: "0 \<notin> set toks \<Longrightarrow> peek s toks = (chr_at (skip_ws s) 0 \<in> set toks, skip_ws s)"
  using strchr_mem [of toks "chr_at (skip_ws s) 0"]
  by (cases "chr_at (skip_ws s) 0 = 0") (auto simp: peek_def Let_def simp del: not_None_eq)

definition show_redirs :: "(u8 list \<times> int \<times> int) list \<Rightarrow> u8 list" where
  "show_redirs rs = concat (map (\<lambda>(f, m, fd). redir_sign m @ show_word f) rs)"

definition redir_text :: "redir \<Rightarrow> u8 list \<times> int \<times> int" where
  "redir_text x = (token_text (fst x), snd x)"

definition wrap_text :: "u8 list cmd \<Rightarrow> (u8 list \<times> int \<times> int) list \<Rightarrow> u8 list cmd" where
  "wrap_text c rs = foldl (\<lambda>c (f, m, fd). REDIR c f m fd) c rs"

lemma map_wrap: "map_cmd token_text (wrap c rs) = wrap_text (map_cmd token_text c) (map redir_text rs)"
  unfolding wrap_def wrap_text_def by (induction rs arbitrary: c) (auto simp: redir_text_def)

lemma token_text_word [simp]: "token_text (w @ r, r) = w"
  by (simp add: token_text_def)

text \<open>A redirection: its sign, then its file.\<close>

lemma redir_tokens:
  assumes "good_redir (f, m, fd)"
  shows "chr_at (skip_ws (redir_sign m @ show_word f @ r)) 0 \<in> {60, 62}"
    "\<exists>tok t s2 fl. gettoken (redir_sign m @ show_word f @ r) = (tok, t, s2) \<and> gettoken s2 = (97, fl, skip_ws r)
      \<and> map redir_text (redir_of tok fl) = [(f, m, fd)]"
proof -
  have w: "good_word f" and m: "(m, fd) \<in> {(0, 0), (0x601, 1), (0x201, 1)}" using assms by (auto simp: good_redir_def)
  show "chr_at (skip_ws (redir_sign m @ show_word f @ r)) 0 \<in> {60, 62}"
    using m sym_chars by (auto simp: redir_sign_def skip_ws_Cons)
  have h: "skip_ws (show_word f @ r) = show_word f @ r" "chr_at (show_word f @ r) 0 = hd f" "hd f \<noteq> 62"
    using skip_word_at [OF w, of "32 # r"] word_char [of "hd f"] by (auto simp: show_word_def)
  let ?tok = "if m = 0 then 60 else if m = 0x601 then 62 else 43 :: u8"
  obtain t where "gettoken (redir_sign m @ show_word f @ r) = (?tok, t, show_word f @ r)"
    using m h sym_chars by (auto simp: redir_sign_def gettoken_def token_end_def skip_ws_Cons Let_def)
  moreover have "map redir_text (redir_of ?tok (f @ 32 # r, 32 # r)) = [(f, m, fd)]"
    using m by (auto simp: redir_of_def redir_text_def)
  ultimately show "\<exists>tok t s2 fl. gettoken (redir_sign m @ show_word f @ r) = (tok, t, s2) \<and> gettoken s2 = (97, fl, skip_ws r)
      \<and> map redir_text (redir_of tok fl) = [(f, m, fd)]"
    using gettoken_word [OF w, of r]
    by (intro exI [of _ ?tok] exI [of _ t] exI [of _ "show_word f @ r"] exI [of _ "(f @ 32 # r, 32 # r)"]) simp
qed

lemma parseredirs_show:
  assumes "\<forall>x \<in> set rs. good_redir x" "chr_at (skip_ws r) 0 \<notin> {60, 62}"
  shows "\<exists>rs'. parseredirs rs0 (show_redirs rs @ r) = pret (rs0 @ rs', skip_ws r) \<and> map redir_text rs' = rs"
  using assms(1)
proof (induction rs arbitrary: rs0)
  case Nil
  then show ?case using assms(2) by (subst parseredirs.simps) (simp add: show_redirs_def peek_eq)
next
  case (Cons x rs)
  obtain f m fd where x: "x = (f, m, fd)" by (metis prod_cases3)
  let ?s = "redir_sign m @ show_word f @ show_redirs rs @ r"
  have g: "good_redir (f, m, fd)" using Cons.prems x by simp
  obtain tok t s2 fl where t: "gettoken ?s = (tok, t, s2)" "gettoken s2 = (97, fl, skip_ws (show_redirs rs @ r))"
    "map redir_text (redir_of tok fl) = [(f, m, fd)]" using redir_tokens(2) [OF g, of "show_redirs rs @ r"] by auto
  have p: "peek ?s [60, 62] = (True, skip_ws ?s)" using redir_tokens(1) [OF g, of "show_redirs rs @ r"] by (simp add: peek_eq)
  obtain rs' where "parseredirs (rs0 @ redir_of tok fl) (show_redirs rs @ r) = pret ((rs0 @ redir_of tok fl) @ rs', skip_ws r)" "map redir_text rs' = rs"
    using Cons by fastforce
  moreover from this have "parseredirs rs0 ?s = pret (rs0 @ redir_of tok fl @ rs', skip_ws r)"
    using t p by (subst parseredirs.simps) simp
  ultimately show ?case using t(3) x by (intro exI [of _ "redir_of tok fl @ rs'"]) (simp add: show_redirs_def)
qed

lemma first_redir: "\<forall>x \<in> set rs. good_redir x \<Longrightarrow> rs \<noteq> [] \<Longrightarrow> chr_at (skip_ws (show_redirs rs @ r)) 0 \<in> {60, 62}"
proof (cases rs)
  case (Cons x rs')
  obtain f m fd where x: "x = (f, m, fd)" by (metis prod_cases3)
  assume "\<forall>x \<in> set rs. good_redir x"
  then show ?thesis using redir_tokens(1) [of f m fd "show_redirs rs' @ r"] Cons x by (simp add: show_redirs_def)
qed simp

lemma stop_here: "follows {124, 41, 38, 59} r \<Longrightarrow> exec_args args rs r = pret (args, rs, skip_ws r)"
proof (cases "skip_ws r = []")
  case True
  have "skip_ws [] = []" by (simp add: skip_ws_def)
  then have "gettoken [] = (0, ([], []), [])" by (simp add: gettoken_def token_end_def)
  then show ?thesis using True by (subst exec_args.simps) (simp add: peek_eq)
next
  case False
  assume "follows {124, 41, 38, 59} r"
  then show ?thesis using False by (subst exec_args.simps) (simp add: follows_def peek_eq)
qed

lemma exec_args_show:
  assumes "\<forall>w \<in> set (a # as). good_word w" "length args + length (a # as) < MAXARGS" "\<forall>x \<in> set rs. good_redir x" "follows {124, 41, 38, 59} r"
  shows "\<exists>ts rs'. exec_args args [] (concat (map show_word (a # as)) @ show_redirs rs @ r) = pret (args @ ts, rs', skip_ws r)
    \<and> map token_text ts = a # as \<and> map redir_text rs' = rs"
  using assms(1,2)
proof (induction as arbitrary: a args)
  case Nil
  have a: "good_word a" using Nil by simp
  let ?r = "show_redirs rs @ r"
  have "chr_at (skip_ws r) 0 \<notin> {60, 62}" using assms(4) by (auto simp: follows_def)
  then obtain rs' where rs': "parseredirs [] ?r = pret (rs', skip_ws r)" "map redir_text rs' = rs"
    using parseredirs_show [OF assms(3), of r "[]"] by auto
  have h: "skip_ws (show_word a @ ?r) = show_word a @ ?r" "chr_at (show_word a @ ?r) 0 \<notin> {124, 41, 38, 59}"
    using skip_word_at [OF a, of "32 # ?r"] word_char [of "hd a"] by (auto simp: show_word_def)
  have "exec_args args [] (show_word a @ ?r) = exec_args (args @ [(a @ 32 # ?r, 32 # ?r)]) rs' (skip_ws r)"
    using h gettoken_word [OF a, of ?r] rs'(1) Nil.prems(2) by (subst exec_args.simps) (simp add: peek_eq pret_def)
  also have "\<dots> = pret (args @ [(a @ 32 # ?r, 32 # ?r)], rs', skip_ws r)" using stop_here [OF assms(4)] by simp
  finally show ?case using rs'(2) by (intro exI [of _ "[(a @ 32 # ?r, 32 # ?r)]"] exI [of _ rs']) simp
next
  case (Cons b bs)
  have a: "good_word a" and b: "good_word b" using Cons.prems by simp_all
  let ?r = "concat (map show_word (b # bs)) @ show_redirs rs @ r"
  have h: "skip_ws (show_word a @ ?r) = show_word a @ ?r" "chr_at (show_word a @ ?r) 0 \<notin> {124, 41, 38, 59}"
    using skip_word_at [OF a, of "32 # ?r"] word_char [of "hd a"] by (auto simp: show_word_def)
  have hb: "skip_ws ?r = ?r" "chr_at ?r 0 \<notin> {60, 62}"
    using skip_word_at [OF b, of "32 # concat (map show_word bs) @ show_redirs rs @ r"] word_char [of "hd b"] by (auto simp: show_word_def)
  have "parseredirs [] ?r = pret ([], ?r)" using hb by (subst parseredirs.simps) (simp add: peek_eq)
  then have step: "exec_args args [] (show_word a @ ?r) = exec_args (args @ [(a @ 32 # ?r, 32 # ?r)]) [] ?r"
    using h hb(1) gettoken_word [OF a, of ?r] Cons.prems(2) by (subst exec_args.simps) (simp add: peek_eq pret_def)
  obtain ts rs' where "exec_args (args @ [(a @ 32 # ?r, 32 # ?r)]) [] ?r = pret ((args @ [(a @ 32 # ?r, 32 # ?r)]) @ ts, rs', skip_ws r)"
    "map token_text ts = b # bs" "map redir_text rs' = rs" using Cons.IH [of b "args @ [(a @ 32 # ?r, 32 # ?r)]"] Cons.prems by auto
  then show ?case using step by (intro exI [of _ "(a @ 32 # ?r, 32 # ?r) # ts"] exI [of _ rs']) simp
qed

lemma parse_more:
  "parseline n s = Some x \<Longrightarrow> n \<le> m \<Longrightarrow> parseline m s = Some x"
  "parsepipe n s = Some x \<Longrightarrow> n \<le> m \<Longrightarrow> parsepipe m s = Some x"
  "parseexec n s = Some x \<Longrightarrow> n \<le> m \<Longrightarrow> parseexec m s = Some x"
  using lift_Suc_mono_le [of "\<lambda>n. parseline n s = Some x" n m] lift_Suc_mono_le [of "\<lambda>n. parsepipe n s = Some x" n m]
    lift_Suc_mono_le [of "\<lambda>n. parseexec n s = Some x" n m] parse_mono by (auto simp: le_bool_def)

definition reads0 :: "u8 list cmd \<Rightarrow> bool" where
  "reads0 c \<longleftrightarrow> (\<forall>rs r. (\<forall>x \<in> set rs. good_redir x) \<longrightarrow> follows {124, 41, 38, 59} r \<longrightarrow>
     (\<exists>n c'. parseexec n (show_cmd c 0 @ show_redirs rs @ r) = pret (c', skip_ws r) \<and> map_cmd token_text c' = wrap_text c rs))"

definition reads1 :: "u8 list cmd \<Rightarrow> bool" where
  "reads1 c \<longleftrightarrow> (\<forall>r. follows {41, 38, 59} r \<longrightarrow>
     (\<exists>n c'. parsepipe n (show_cmd c 1 @ r) = pret (c', skip_ws r) \<and> map_cmd token_text c' = c))"

definition reads2 :: "u8 list cmd \<Rightarrow> bool" where
  "reads2 c \<longleftrightarrow> (\<forall>r. follows {41, 38, 59} r \<longrightarrow>
     (\<exists>n c0 s1 c'. parsepipe n (show_cmd c 2 @ r) = pret (c0, s1) \<and> back_loop c0 s1 = back_loop c' r \<and> map_cmd token_text c' = c))"

definition reads3 :: "u8 list cmd \<Rightarrow> bool" where
  "reads3 c \<longleftrightarrow> (\<forall>r. follows {41} r \<longrightarrow>
     (\<exists>n c'. parseline n (show_cmd c 3 @ r) = pret (c', skip_ws r) \<and> map_cmd token_text c' = c))"

lemma follows_sym: "c \<in> {124, 41, 38, 59} \<Longrightarrow> c \<in> cs \<Longrightarrow> follows cs (c # r)"
  using sym_chars by (auto simp: follows_def skip_ws_Cons)

lemma follows_mono: "follows cs r \<Longrightarrow> cs \<subseteq> ds \<Longrightarrow> follows ds r"
  by (auto simp: follows_def)

lemma follows_not: "follows cs r \<Longrightarrow> c \<noteq> 0 \<Longrightarrow> c \<notin> cs \<Longrightarrow> chr_at (skip_ws r) 0 \<noteq> c"
  by (auto simp: follows_def)

lemma peek_sym: "c \<in> {124, 41, 38, 59, 40} \<Longrightarrow> peek (c # r) [c] = (True, c # r)"
  using sym_chars by (auto simp: peek_eq skip_ws_Cons)

lemma reads0D:
  assumes "reads0 c" "follows {124, 41, 38, 59} r"
  obtains n c' where "parseexec n (show_cmd c 0 @ r) = pret (c', skip_ws r)" "map_cmd token_text c' = c"
proof -
  have "\<forall>x \<in> set []. good_redir x" by simp
  then obtain n c' where "parseexec n (show_cmd c 0 @ show_redirs [] @ r) = pret (c', skip_ws r)" "map_cmd token_text c' = wrap_text c []"
    using assms unfolding reads0_def by blast
  then show ?thesis using that by (simp add: show_redirs_def wrap_text_def)
qed

lemma reads1_single: "reads0 c \<Longrightarrow> show_cmd c 1 = show_cmd c 0 \<Longrightarrow> reads1 c"
  unfolding reads1_def
proof (intro allI impI)
  fix r assume a: "reads0 c" "show_cmd c 1 = show_cmd c 0" and f: "follows {41, 38, 59} r"
  have "follows {124, 41, 38, 59} r" using follows_mono [OF f] by simp
  then obtain n c' where n: "parseexec n (show_cmd c 0 @ r) = pret (c', skip_ws r)" "map_cmd token_text c' = c" by (rule reads0D [OF a(1)])
  then have "parsepipe (Suc n) (show_cmd c 1 @ r) = pret (c', skip_ws r)"
    using a(2) follows_not [OF f, of 124] by (simp add: show_redirs_def pbind_def pret_def peek_eq)
  then show "\<exists>n c'. parsepipe n (show_cmd c 1 @ r) = pret (c', skip_ws r) \<and> map_cmd token_text c' = c"
    using n(2) by blast
qed

lemma reads1_pipe: "reads0 c \<Longrightarrow> reads1 d \<Longrightarrow> reads1 (PIPE c d)"
  unfolding reads1_def [of "PIPE c d"]
proof (intro allI impI)
  fix r assume a: "reads0 c" "reads1 d" and f: "follows {41, 38, 59} r"
  let ?r = "124 # show_cmd d 1 @ r"
  have "follows {124, 41, 38, 59} ?r" by (rule follows_sym) simp_all
  then obtain n c' where n: "parseexec n (show_cmd c 0 @ ?r) = pret (c', skip_ws ?r)" "map_cmd token_text c' = c" by (rule reads0D [OF a(1)])
  obtain m d' where m: "parsepipe m (show_cmd d 1 @ r) = pret (d', skip_ws r)" "map_cmd token_text d' = d" using a(2) f unfolding reads1_def by blast
  let ?k = "max n m"
  have n': "parseexec ?k (show_cmd c 0 @ ?r) = pret (c', ?r)" and m': "parsepipe ?k (show_cmd d 1 @ r) = pret (d', skip_ws r)"
    using parse_more(3) [of n _ _ ?k] parse_more(2) [of m _ _ ?k] n(1) m(1) sym_chars by (simp_all add: pret_def skip_ws_Cons)
  have "parsepipe (Suc ?k) (show_cmd (PIPE c d) 1 @ r) = pret (PIPE c' d', skip_ws r)"
    using n' m' gettoken_sym [of 124 "show_cmd d 1 @ r"] peek_sym [of 124] by (simp add: paren_def pbind_def pret_def)
  then show "\<exists>n c'. parsepipe n (show_cmd (PIPE c d) 1 @ r) = pret (c', skip_ws r) \<and> map_cmd token_text c' = PIPE c d"
    using n(2) m(2) by (intro exI [of _ "Suc ?k"] exI [of _ "PIPE c' d'"]) simp
qed

lemma reads2_single: "reads1 c \<Longrightarrow> show_cmd c 2 = show_cmd c 1 \<Longrightarrow> reads2 c"
  unfolding reads1_def reads2_def by (metis loops_skip(3))

lemma reads2_back: "reads2 c \<Longrightarrow> reads2 (BACK c)"
  unfolding reads2_def [of "BACK c"]
proof (intro allI impI)
  fix r assume a: "reads2 c" and f: "follows {41, 38, 59} r"
  obtain n c0 s1 c' where n: "parsepipe n (show_cmd c 2 @ 38 # r) = pret (c0, s1)" "back_loop c0 s1 = back_loop c' (38 # r)" "map_cmd token_text c' = c"
    using a follows_sym [of 38 "{41, 38, 59}" r] unfolding reads2_def by blast
  have "back_loop c' (38 # r) = back_loop (BACK c') r"
  proof -
    obtain x y z where "gettoken (38 # r) = (x, y, z)" by (metis prod_cases3)
    moreover from this have "z = skip_ws r" using gettoken_sym [of 38 r] by simp
    ultimately show ?thesis using peek_sym [of 38 r] by (subst back_loop.simps) simp
  qed
  then show "\<exists>n c0 s1 c'. parsepipe n (show_cmd (BACK c) 2 @ r) = pret (c0, s1) \<and> back_loop c0 s1 = back_loop c' r \<and> map_cmd token_text c' = BACK c"
    using n by (intro exI [of _ n] exI [of _ c0] exI [of _ s1] exI [of _ "BACK c'"]) (simp add: paren_def)
qed

lemma back_loop_stop: "chr_at (skip_ws r) 0 \<noteq> 38 \<Longrightarrow> back_loop c r = (c, skip_ws r)"
  by (subst back_loop.simps) (simp add: peek_eq)

lemma reads3_single: "reads2 c \<Longrightarrow> show_cmd c 3 = show_cmd c 2 \<Longrightarrow> reads3 c"
  unfolding reads3_def
proof (intro allI impI)
  fix r assume a: "reads2 c" "show_cmd c 3 = show_cmd c 2" and f: "follows {41} r"
  obtain n c0 s1 c' where n: "parsepipe n (show_cmd c 2 @ r) = pret (c0, s1)" "back_loop c0 s1 = back_loop c' r" "map_cmd token_text c' = c"
    using a(1) follows_mono [OF f, of "{41, 38, 59}"] unfolding reads2_def by blast
  then have "parseline (Suc n) (show_cmd c 3 @ r) = pret (c', skip_ws r)"
    using a(2) back_loop_stop [of r c'] follows_not [OF f, of 38] follows_not [OF f, of 59] by (simp add: pbind_def pret_def peek_eq)
  then show "\<exists>n c'. parseline n (show_cmd c 3 @ r) = pret (c', skip_ws r) \<and> map_cmd token_text c' = c" using n(3) by blast
qed

lemma reads3_list: "reads2 c \<Longrightarrow> reads3 d \<Longrightarrow> reads3 (LIST c d)"
  unfolding reads3_def [of "LIST c d"]
proof (intro allI impI)
  fix r assume a: "reads2 c" "reads3 d" and f: "follows {41} r"
  let ?r = "59 # show_cmd d 3 @ r"
  obtain n c0 s1 c' where n: "parsepipe n (show_cmd c 2 @ ?r) = pret (c0, s1)" "back_loop c0 s1 = back_loop c' ?r" "map_cmd token_text c' = c"
    using a(1) follows_sym [of 59 "{41, 38, 59}" "show_cmd d 3 @ r"] unfolding reads2_def by blast
  obtain m d' where m: "parseline m (show_cmd d 3 @ r) = pret (d', skip_ws r)" "map_cmd token_text d' = d" using a(2) f unfolding reads3_def by blast
  let ?k = "max n m"
  have n': "parsepipe ?k (show_cmd c 2 @ ?r) = pret (c0, s1)" and m': "parseline ?k (show_cmd d 3 @ r) = pret (d', skip_ws r)"
    using parse_more(2) [of n _ _ ?k] parse_more(1) [of m _ _ ?k] n(1) m(1) by (simp_all add: pret_def)
  have "back_loop c' ?r = (c', ?r)" using back_loop_stop [of ?r c'] sym_chars by (simp add: skip_ws_Cons)
  then have "parseline (Suc ?k) (show_cmd (LIST c d) 3 @ r) = pret (LIST c' d', skip_ws r)"
    using n' m' n(2) gettoken_sym [of 59 "show_cmd d 3 @ r"] peek_sym [of 59] by (simp add: paren_def pbind_def pret_def)
  then show "\<exists>n c'. parseline n (show_cmd (LIST c d) 3 @ r) = pret (c', skip_ws r) \<and> map_cmd token_text c' = LIST c d"
    using n(3) m(2) by (intro exI [of _ "Suc ?k"] exI [of _ "LIST c' d'"]) simp
qed

lemma reads0_block: "reads3 c \<Longrightarrow> show_cmd c 0 = paren True (show_cmd c 3) \<Longrightarrow> reads0 c"
  unfolding reads0_def
proof (intro allI impI)
  fix rs r assume a: "reads3 c" "show_cmd c 0 = paren True (show_cmd c 3)" and rs: "\<forall>x \<in> set rs. good_redir x" and f: "follows {124, 41, 38, 59} r"
  let ?r = "41 # 32 # show_redirs rs @ r"
  have "follows {41} ?r" using sym_chars by (simp add: follows_def skip_ws_Cons)
  then obtain n c' where n: "parseline n (show_cmd c 3 @ ?r) = pret (c', ?r)" "map_cmd token_text c' = c"
    using a(1) sym_chars unfolding reads3_def by (metis skip_ws_Cons)
  have "chr_at (skip_ws r) 0 \<notin> {60, 62}" using f by (auto simp: follows_def)
  then obtain rs' where rs': "parseredirs [] (show_redirs rs @ r) = pret (rs', skip_ws r)" "map redir_text rs' = rs"
    using parseredirs_show [OF rs, of r "[]"] by auto
  have "parseexec (Suc (Suc n)) (show_cmd c 0 @ show_redirs rs @ r) = pret (wrap c' rs', skip_ws r)"
    using n(1) rs'(1) a(2) gettoken_sym [of 40 "show_cmd c 3 @ ?r"] gettoken_sym [of 41 "32 # show_redirs rs @ r"] peek_sym [of 40] peek_sym [of 41] sym_chars
    by (simp add: paren_def pbind_def pret_def skip_ws_Cons)
  then show "\<exists>n c'. parseexec n (show_cmd c 0 @ show_redirs rs @ r) = pret (c', skip_ws r) \<and> map_cmd token_text c' = wrap_text c rs"
    using n(2) rs'(2) by (intro exI [of _ "Suc (Suc n)"] exI [of _ "wrap c' rs'"]) (simp add: map_wrap)
qed

lemma reads0_exec: "length args < MAXARGS \<Longrightarrow> \<forall>w \<in> set args. good_word w \<Longrightarrow> reads0 (EXEC args)"
  unfolding reads0_def
proof (intro allI impI)
  fix rs r assume n: "length args < MAXARGS" and w: "\<forall>w \<in> set args. good_word w" and rs: "\<forall>x \<in> set rs. good_redir x" and f: "follows {124, 41, 38, 59} r"
  let ?s = "show_cmd (EXEC args) 0 @ show_redirs rs @ r"
  have r0: "chr_at (skip_ws r) 0 \<notin> {60, 62, 40}" using f by (auto simp: follows_def)
  have "\<exists>ts rs1 s1 rs'. chr_at (skip_ws ?s) 0 \<noteq> 40 \<and> parseredirs [] ?s = pret (rs1, s1) \<and> exec_args [] rs1 s1 = pret (ts, rs', skip_ws r)
      \<and> map token_text ts = args \<and> map redir_text rs' = rs"
  proof (cases args)
    case Nil
    have "chr_at (skip_ws ?s) 0 \<noteq> 40" using Nil first_redir [OF rs, of r] r0 by (cases "rs = []") (auto simp: show_redirs_def)
    moreover obtain rs' where "parseredirs [] (show_redirs rs @ r) = pret (rs', skip_ws r)" "map redir_text rs' = rs"
      using parseredirs_show [OF rs, of r "[]"] r0 by auto
    ultimately show ?thesis using Nil stop_here [OF f, of "[]" rs'] by (intro exI [of _ "[]"] exI [of _ rs'] exI [of _ "skip_ws r"]) simp
  next
    case (Cons a as)
    then have a: "good_word a" using w by simp
    have h: "skip_ws ?s = ?s" "chr_at ?s 0 \<notin> {40, 60, 62}"
      using Cons skip_word_at [OF a, of "32 # concat (map show_word as) @ show_redirs rs @ r"] word_char [of "hd a"] by (auto simp: show_word_def)
    have "parseredirs [] ?s = pret ([], ?s)" using h by (subst parseredirs.simps) (simp add: peek_eq)
    moreover obtain ts rs' where "exec_args [] [] ?s = pret (ts, rs', skip_ws r)" "map token_text ts = args" "map redir_text rs' = rs"
      using exec_args_show [of a as "[]" rs r] w n rs f Cons by auto
    ultimately show ?thesis using h by (intro exI [of _ ts] exI [of _ "[]"] exI [of _ ?s] exI [of _ rs']) simp
  qed
  then obtain ts rs1 s1 rs' where p: "chr_at (skip_ws ?s) 0 \<noteq> 40" "parseredirs [] ?s = pret (rs1, s1)" "exec_args [] rs1 s1 = pret (ts, rs', skip_ws r)"
      "map token_text ts = args" "map redir_text rs' = rs" by blast
  have "parseexec (Suc 0) ?s = pret (wrap (EXEC ts) rs', skip_ws r)" using p(1-3) by (simp add: peek_eq pbind_def pret_def)
  then show "\<exists>n c'. parseexec n ?s = pret (c', skip_ws r) \<and> map_cmd token_text c' = wrap_text (EXEC args) rs"
    using p(4,5) by (intro exI [of _ "Suc 0"] exI [of _ "wrap (EXEC ts) rs'"]) (simp add: map_wrap)
qed

lemma reads0_redir: "reads0 c \<Longrightarrow> good_redir (f, m, fd) \<Longrightarrow> reads0 (REDIR c f m fd)"
  unfolding reads0_def [of "REDIR c f m fd"]
proof (intro allI impI)
  fix rs r assume c: "reads0 c" and g: "good_redir (f, m, fd)" and rs: "\<forall>x \<in> set rs. good_redir x" and fl: "follows {124, 41, 38, 59} r"
  have "\<forall>x \<in> set ((f, m, fd) # rs). good_redir x" using g rs by simp
  then obtain n c' where "parseexec n (show_cmd c 0 @ show_redirs ((f, m, fd) # rs) @ r) = pret (c', skip_ws r)"
      "map_cmd token_text c' = wrap_text c ((f, m, fd) # rs)" using c fl unfolding reads0_def by blast
  then show "\<exists>n c'. parseexec n (show_cmd (REDIR c f m fd) 0 @ show_redirs rs @ r) = pret (c', skip_ws r)
      \<and> map_cmd token_text c' = wrap_text (REDIR c f m fd) rs"
    by (intro exI [of _ n] exI [of _ c']) (simp add: show_redirs_def wrap_text_def)
qed

lemma reads_all: "good_cmd c \<Longrightarrow> reads0 c \<and> reads1 c \<and> reads2 c \<and> reads3 c"
proof (induction c)
  case (EXEC args)
  then have "reads0 (EXEC args)" using reads0_exec by simp
  then show ?case using reads1_single reads2_single reads3_single by (metis show_cmd.simps(1))
next
  case (REDIR c f m fd)
  then have "reads0 (REDIR c f m fd)" using reads0_redir by simp
  then show ?case using reads1_single reads2_single reads3_single by (metis show_cmd.simps(2))
next
  case (PIPE l r)
  then have 1: "reads1 (PIPE l r)" using reads1_pipe by simp
  then have 2: "reads2 (PIPE l r)" by (rule reads2_single) (simp add: paren_def)
  then have 3: "reads3 (PIPE l r)" by (rule reads3_single) (simp add: paren_def)
  then have "reads0 (PIPE l r)" by (rule reads0_block) (simp add: paren_def)
  then show ?case using 1 2 3 by blast
next
  case (LIST l r)
  then have 3: "reads3 (LIST l r)" using reads3_list by simp
  then have 0: "reads0 (LIST l r)" by (rule reads0_block) (simp add: paren_def)
  then have 1: "reads1 (LIST l r)" by (rule reads1_single) (simp add: paren_def)
  then have "reads2 (LIST l r)" by (rule reads2_single) (simp add: paren_def)
  then show ?case using 0 1 3 by blast
next
  case (BACK c)
  then have 2: "reads2 (BACK c)" using reads2_back by simp
  then have 3: "reads3 (BACK c)" by (rule reads3_single) (simp add: paren_def)
  then have 0: "reads0 (BACK c)" by (rule reads0_block) (simp add: paren_def)
  then have "reads1 (BACK c)" by (rule reads1_single) (simp add: paren_def)
  then show ?case using 0 2 3 by blast
qed

lemma show_no_NUL: "good_cmd c \<Longrightarrow> 0 \<notin> set (show_cmd c k)"
  by (induction c arbitrary: k)
    (auto simp: paren_def redir_sign_def show_word_def good_redir_def good_word_def is_word_def)

section \<open>Properties of the shell\<close>

text \<open>
  C31: every command that can be written has a text, and the shell reads it back: parsing the text of a
  command (words, redirections, pipelines, lists, background commands and parentheses, nested in any way)
  and reading its strings from the line that \<open>nulterminate\<close> has cut up gives the command itself.
\<close>
theorem parse_show:
  assumes "good_cmd c"
  shows "parsecmd (show_cmd c 3) = pret c"
proof -
  have "follows {41} []" by (simp add: follows_def skip_ws_def)
  moreover have "reads3 c" using reads_all [OF assms] by blast
  ultimately obtain n c' where n: "parseline n (show_cmd c 3 @ []) = pret (c', skip_ws [])" "map_cmd token_text c' = c"
    unfolding reads3_def by blast
  then show ?thesis using parsecmd_tree [OF show_no_NUL [OF assms], of n 3 c' "[]"] by (simp add: pret_def skip_ws_def)
qed

theorem parse_show_witness:
  "parsecmd (show_cmd (BACK (PIPE (EXEC [[108, 115]]) (REDIR (LIST (EXEC [[97]]) (EXEC [[98]])) [111] 0x601 1))) 3) =
     pret (BACK (PIPE (EXEC [[108, 115]]) (REDIR (LIST (EXEC [[97]]) (EXEC [[98]])) [111] 0x601 1)))"
  by (rule parse_show)
    (simp add: good_word_def good_redir_def MAXARGS_def is_word_def is_ws_def is_sym_def whitespace_def symbols_def)

text \<open>
  The parser ends on every line, with a command or a message, and never overruns the argument arrays: no
  command it builds has more than \<open>MAXARGS - 1\<close> arguments, so that the closing null pointer has its place,
  and every redirection is of the standard input or output.
\<close>
lemma parsecmd_ends:
  assumes "0 \<notin> set s"
  shows "(\<exists>e. parsecmd s = Some (Inl e)) \<or> (\<exists>c. parsecmd s = Some (Inr c) \<and> well_built c)"
proof -
  have "parseline (parse_fuel s) s \<noteq> None" using parse_total(1) [OF assms] by (simp add: parse_fuel_def)
  then consider e where "parseline (parse_fuel s) s = Some (Inl e)" | c s1 where "parseline (parse_fuel s) s = Some (Inr (c, s1))"
    by (metis not_None_eq sum.exhaust surj_pair)
  then show ?thesis
  proof cases
    case (1 e)
    then show ?thesis by (simp add: parsecmd_def pbind_def)
  next
    case (2 c s1)
    then show ?thesis using parsecmd_tree [OF assms 2]
      by (cases "skip_ws s1 = []") (auto simp: parsecmd_def pbind_def pfail_def peek_def Let_def)
  qed
qed

end
