(* ===== verification/Xv6_Runcmd.thy ===== *)
theory Xv6_Runcmd
  imports Xv6_Sh Xv6_File
begin

text \<open>
  What the shell does with a parsed command (\<open>runcmd\<close> and \<open>main\<close> of sh.c), and init.c. A process is the tree of
  the system calls it makes; the programs it starts and the file descriptors they get are read off the tree and
  compared with the plumbing that a command denotes.
\<close>

section \<open>Processes as trees of system calls\<close>

text \<open>
  A call that returns a value goes on with the continuation for that value. \<open>fork\<close> returns 0 in the child and the
  child's pid in the parent, so both processes are branches of the same node. \<open>exec\<close> goes on only if it fails.
  \<open>A_cut\<close> ends a tree that was unrolled for a number of rounds.
\<close>

datatype act =
    A_exit int
  | A_exec "u8 list list" act
  | A_open "u8 list" int "int \<Rightarrow> act"
  | A_close int act
  | A_dup int act
  | A_pipe "int \<Rightarrow> int \<Rightarrow> int \<Rightarrow> act"
  | A_fork "int \<Rightarrow> act"
  | A_wait "int \<Rightarrow> act"
  | A_read int "int \<Rightarrow> u8 \<Rightarrow> act"
  | A_write int "u8 list" act
  | A_chdir "u8 list" "int \<Rightarrow> act"
  | A_mknod "u8 list" int int act
  | A_fprintf int "u8 list" "uarg list" act
  | A_cut

section \<open>sh.c\<close>

definition sh_panic :: "string \<Rightarrow> act" where
  "sh_panic s = A_fprintf 2 (cstr ''%s'' @ [10]) [UStr (Some (cstr s))] (A_exit 1)"

definition fork1 :: "(int \<Rightarrow> act) \<Rightarrow> act" where
  "fork1 k = A_fork (\<lambda>pid. if pid = - 1 then sh_panic ''fork'' else k pid)"

primrec runcmd :: "u8 list cmd \<Rightarrow> act" where
  "runcmd (EXEC argv) =
     (if argv = [] then A_exit 1
      else A_exec argv (A_fprintf 2 (cstr ''exec %s failed'' @ [10]) [UStr (Some (hd argv))] (A_exit 0)))"
| "runcmd (REDIR c fl mode fd) =
     A_close fd (A_open fl mode (\<lambda>r.
       if r < 0 then A_fprintf 2 (cstr ''open %s failed'' @ [10]) [UStr (Some fl)] (A_exit 1)
       else runcmd c))"
| "runcmd (LIST l r) =
     fork1 (\<lambda>pid. if pid = 0 then runcmd l else A_wait (\<lambda>_. runcmd r))"
| "runcmd (PIPE l r) =
     A_pipe (\<lambda>e p0 p1.
       if e < 0 then sh_panic ''pipe''
       else fork1 (\<lambda>pid.
         if pid = 0 then A_close 1 (A_dup p1 (A_close p0 (A_close p1 (runcmd l))))
         else fork1 (\<lambda>pid.
           if pid = 0 then A_close 0 (A_dup p0 (A_close p0 (A_close p1 (runcmd r))))
           else A_close p0 (A_close p1 (A_wait (\<lambda>_. A_wait (\<lambda>_. A_exit 0)))))))"
| "runcmd (BACK c) =
     fork1 (\<lambda>pid. if pid = 0 then runcmd c else A_exit 0)"

text \<open>\<open>getcmd\<close>: the prompt, then a line of at most 99 bytes read by \<open>gets\<close>; the result is -1 at the end of the input.\<close>

fun read_line :: "nat \<Rightarrow> u8 list \<Rightarrow> (u8 list \<Rightarrow> act) \<Rightarrow> act" where
  "read_line 0 buf k = k buf"
| "read_line (Suc n) buf k =
     A_read 0 (\<lambda>cc c. if cc < 1 then k buf else if c = 10 \<or> c = 13 then k (buf @ [c]) else read_line n (buf @ [c]) k)"

definition getcmd :: "(int \<Rightarrow> u8 list \<Rightarrow> act) \<Rightarrow> act" where
  "getcmd k = A_write 2 [36, 32] (read_line 99 [] (\<lambda>buf. k (if chr_at buf 0 = 0 then - 1 else 0) buf))"

text \<open>The child of \<open>main\<close>: \<open>runcmd(parsecmd(cmd))\<close>.\<close>

definition sh_child :: "ptr \<Rightarrow> act" where
  "sh_child cmd =
     (case parsecmd cmd of
        None \<Rightarrow> A_cut
      | Some (Inl (P_panic e)) \<Rightarrow> sh_panic e
      | Some (Inl (P_leftovers s)) \<Rightarrow> A_fprintf 2 (cstr ''leftovers: %s'' @ [10]) [UStr (Some s)] (sh_panic ''syntax'')
      | Some (Inr c) \<Rightarrow> runcmd c)"

text \<open>One line of input in \<open>buf\<close>; \<open>k\<close> is the next round.\<close>

definition sh_line :: "u8 list \<Rightarrow> act \<Rightarrow> act" where
  "sh_line buf k =
     (let cmd = dropWhile (\<lambda>c. c = 32 \<or> c = 9) (takeWhile (\<lambda>c. c \<noteq> 0) buf) in
      if chr_at cmd 0 = 10 then k
      else if chr_at cmd 0 = 99 \<and> chr_at cmd 1 = 100 \<and> chr_at cmd 2 = 32 then
        (let dir = drop 3 (butlast cmd) in
         A_chdir dir (\<lambda>r. if r < 0 then A_fprintf 2 (cstr ''cannot cd %s'' @ [10]) [UStr (Some dir)] k else k))
      else fork1 (\<lambda>pid. if pid = 0 then sh_child cmd else A_wait (\<lambda>_. k)))"

fun sh_loop :: "nat \<Rightarrow> act" where
  "sh_loop 0 = A_cut"
| "sh_loop (Suc n) = getcmd (\<lambda>r buf. if r \<ge> 0 then sh_line buf (sh_loop n) else A_exit 0)"

fun sh_open :: "nat \<Rightarrow> act \<Rightarrow> act" where
  "sh_open 0 k = A_cut"
| "sh_open (Suc n) k = A_open (cstr ''console'') 2 (\<lambda>fd. if fd \<ge> 0 then (if fd \<ge> 3 then A_close fd k else sh_open n k) else k)"

text \<open>\<open>main\<close>, unrolled for \<open>n\<close> lines.\<close>

definition sh_main :: "nat \<Rightarrow> act" where
  "sh_main n = sh_open n (sh_loop n)"

section \<open>init.c\<close>

fun init_wait :: "nat \<Rightarrow> int \<Rightarrow> act \<Rightarrow> act" where
  "init_wait 0 sh k = A_cut"
| "init_wait (Suc n) sh k =
     A_wait (\<lambda>wpid.
       if wpid = sh then k
       else if wpid < 0 then A_fprintf 1 (cstr ''init: wait returned an error'' @ [10]) [] (A_exit 1)
       else init_wait n sh k)"

fun init_loop :: "nat \<Rightarrow> act" where
  "init_loop 0 = A_cut"
| "init_loop (Suc n) =
     A_fprintf 1 (cstr ''init: starting sh'' @ [10]) [] (
     A_fork (\<lambda>pid.
       if pid < 0 then A_fprintf 1 (cstr ''init: fork failed'' @ [10]) [] (A_exit 1)
       else if pid = 0 then A_exec [cstr ''sh''] (A_fprintf 1 (cstr ''init: exec sh failed'' @ [10]) [] (A_exit 1))
       else init_wait (Suc n) pid (init_loop n)))"

definition init_main :: "nat \<Rightarrow> act" where
  "init_main n =
     (let dups = A_dup 0 (A_dup 0 (init_loop n)) in
      A_open (cstr ''console'') 2 (\<lambda>fd.
        if fd < 0 then A_mknod (cstr ''console'') (int CONSOLE) 0 (A_open (cstr ''console'') 2 (\<lambda>_. dups))
        else dups))"

section \<open>The programs a process starts\<close>

text \<open>
  Files behind descriptors: those the process began with, files it opened, and the two ends of a pipe. A pipe is
  named by the process that made it and when: the forks and pipes of its ancestry, latest first.
\<close>

datatype birth = Child | Parent | Piped

datatype obj = Inherited nat | Opened "u8 list" int | Pipe_read "birth list" | Pipe_write "birth list"

type_synonym fds = "int \<Rightarrow> obj option"

text \<open>The kernel hands out the lowest free descriptor (\<open>fdalloc\<close>).\<close>

definition lowest :: "fds \<Rightarrow> int" where
  "lowest f = int (LEAST n. f (int n) = None)"

text \<open>All programs that the process and its children may start, with the descriptors each has then. An open, a
  pipe, a fork and a chdir may also fail: they return -1 and change nothing.\<close>

primrec execs :: "act \<Rightarrow> birth list \<Rightarrow> fds \<Rightarrow> (u8 list list \<times> fds) set" where
  "execs (A_exit n) p f = {}"
| "execs (A_exec argv k) p f = insert (argv, f) (execs k p f)"
| "execs (A_open fl mode k) p f = execs (k (- 1)) p f \<union> execs (k (lowest f)) p (f(lowest f \<mapsto> Opened fl mode))"
| "execs (A_close fd k) p f = execs k p (f(fd := None))"
| "execs (A_dup fd k) p f = execs k p (if f fd = None then f else f(lowest f := f fd))"
| "execs (A_pipe k) p f = execs (k (- 1) 0 0) p f \<union>
     (let p0 = lowest f; f' = f(p0 \<mapsto> Pipe_read p); p1 = lowest f' in execs (k 0 p0 p1) (Piped # p) (f'(p1 \<mapsto> Pipe_write p)))"
| "execs (A_fork k) p f = execs (k (- 1)) p f \<union> execs (k 0) (Child # p) f \<union> (\<Union>pid \<in> {1..}. execs (k pid) (Parent # p) f)"
| "execs (A_wait k) p f = (\<Union>pid. execs (k pid) p f)"
| "execs (A_read fd k) p f = (\<Union>n. \<Union>c. execs (k n c) p f)"
| "execs (A_write fd bs k) p f = execs k p f"
| "execs (A_chdir d k) p f = execs (k (- 1)) p f \<union> execs (k 0) p f"
| "execs (A_mknod fl major minor k) p f = execs k p f"
| "execs (A_fprintf fd fmt args k) p f = execs k p f"
| "execs A_cut p f = {}"

text \<open>The plumbing a command denotes: each program with its standard input and output.\<close>

primrec plumbing :: "u8 list cmd \<Rightarrow> birth list \<Rightarrow> obj \<Rightarrow> obj \<Rightarrow> (u8 list list \<times> obj \<times> obj) set" where
  "plumbing (EXEC argv) p i out = (if argv = [] then {} else {(argv, i, out)})"
| "plumbing (REDIR c fl mode fd) p i out =
     (if fd = 0 then plumbing c p (Opened fl mode) out else plumbing c p i (Opened fl mode))"
| "plumbing (PIPE l r) p i out = plumbing l (Child # Piped # p) i (Pipe_write p) \<union> plumbing r (Child # Parent # Piped # p) (Pipe_read p) out"
| "plumbing (LIST l r) p i out = plumbing l (Child # p) i out \<union> plumbing r (Parent # p) i out"
| "plumbing (BACK c) p i out = plumbing c (Child # p) i out"

definition std :: "obj \<Rightarrow> obj \<Rightarrow> obj \<Rightarrow> fds" where
  "std i out err = [0 \<mapsto> i, 1 \<mapsto> out, 2 \<mapsto> err]"

lemma lowestI: "f (int n) = None \<Longrightarrow> \<forall>m \<in> set [0..<n]. f (int m) \<noteq> None \<Longrightarrow> lowest f = int n"
  unfolding lowest_def by (metis (mono_tags, lifting) Least_equality atLeastLessThan_upt atLeast0LessThan lessThan_iff not_le_imp_less)

lemma lowest_std:
  "lowest (std i out err) = 3" "lowest ((std i out err)(3 \<mapsto> x)) = 4"
  "lowest ((std i out err)(0 := None)) = 0" "lowest ((std i out err)(1 := None)) = 1"
  "lowest ((std i out err)(3 \<mapsto> x, 4 \<mapsto> y, 0 := None)) = 0" "lowest ((std i out err)(3 \<mapsto> x, 4 \<mapsto> y, 1 := None)) = 1"
  using lowestI [of "std i out err" 3] lowestI [of "(std i out err)(3 \<mapsto> x)" 4] lowestI [of "(std i out err)(0 := None)" 0]
    lowestI [of "(std i out err)(1 := None)" 1] lowestI [of "(std i out err)(3 \<mapsto> x, 4 \<mapsto> y, 0 := None)" 0] lowestI [of "(std i out err)(3 \<mapsto> x, 4 \<mapsto> y, 1 := None)" 1]
  by (simp_all add: std_def upt_rec)

lemma std_redirect:
  "(std i out err)(0 \<mapsto> x) = std x out err" "(std i out err)(1 \<mapsto> x) = std i x err"
  "(std i out err)(3 := None, 4 := None) = std i out err"
  "(std i out err)(3 \<mapsto> r, 4 \<mapsto> w, 1 \<mapsto> x, 3 := None, 4 := None) = std i x err"
  "(std i out err)(3 \<mapsto> r, 4 \<mapsto> w, 0 \<mapsto> x, 3 := None, 4 := None) = std x out err"
  by (auto simp: std_def fun_eq_iff)

lemma execs_panic [simp]: "execs (sh_panic s) p f = {}"
  by (simp add: sh_panic_def)

lemma execs_fork1: "execs (fork1 k) p f = execs (k 0) (Child # p) f \<union> (\<Union>pid \<in> {1..}. execs (k pid) (Parent # p) f)"
  by (auto simp: fork1_def)

lemma runcmd_execs:
  "well_built c \<Longrightarrow> execs (runcmd c) p (std i out err) = (\<lambda>(argv, i', out'). (argv, std i' out' err)) ` plumbing c p i out"
proof (induction c arbitrary: p i out)
  case (EXEC argv)
  then show ?case by simp
next
  case (REDIR c fl mode fd)
  then consider "fd = 0" | "fd = 1" by auto
  then show ?case
  proof cases
    case 1
    then show ?thesis using REDIR by (simp add: lowest_std std_redirect)
  next
    case 2
    then show ?thesis using REDIR by (simp add: lowest_std std_redirect)
  qed
next
  case (PIPE l r)
  have "execs (runcmd (PIPE l r)) p (std i out err) =
      execs (runcmd l) (Child # Piped # p) (std i (Pipe_write p) err) \<union> execs (runcmd r) (Child # Parent # Piped # p) (std (Pipe_read p) out err)"
    by (auto simp: execs_fork1 lowest_std std_redirect)
  then show ?case using PIPE by (simp add: image_Un)
next
  case (LIST l r)
  have "execs (runcmd (LIST l r)) p (std i out err) = execs (runcmd l) (Child # p) (std i out err) \<union> execs (runcmd r) (Parent # p) (std i out err)"
    by (auto simp: execs_fork1)
  then show ?case using LIST by (simp add: image_Un)
next
  case (BACK c)
  then show ?case by (simp add: execs_fork1)
qed

text \<open>
  C36: what a command line does. The child the shell forks for a line parses it, whatever the line is; if it is
  not a command no program is started. Otherwise the programs that can be started, with opens, pipes and forks
  failing on the way, are exactly those of the command's plumbing: a redirection replaces the standard input or
  output, a pipeline joins the output of its left side to the input of its right side by a pipe of its
  own, and every program has the descriptors 0, 1 and 2 and no others, so no end of a pipe leaks.
\<close>
theorem sh_child_plumbing:
  assumes "0 \<notin> set line"
  shows "(\<exists>e. parsecmd line = Some (Inl e)) \<and> execs (sh_child line) p (std i out err) = {} \<or>
    (\<exists>c. parsecmd line = Some (Inr c) \<and>
      execs (sh_child line) p (std i out err) = (\<lambda>(argv, i', out'). (argv, std i' out' err)) ` plumbing c p i out)"
proof -
  consider e where "parsecmd line = Some (Inl e)" | c where "parsecmd line = Some (Inr c)" "well_built c"
    using parsecmd_ends [OF assms] by blast
  then show ?thesis
  proof cases
    case (1 e)
    then show ?thesis by (cases e) (simp_all add: sh_child_def)
  next
    case (2 c)
    then show ?thesis by (simp add: sh_child_def runcmd_execs)
  qed
qed

lemma sample_line: "parsecmd [97, 124, 98] = Some (Inr (PIPE (EXEC [[97]]) (EXEC [[98]])))"
  by code_simp

theorem sh_child_plumbing_witness:
  "execs (sh_child [97, 124, 98]) [] (std (Inherited 0) (Inherited 1) (Inherited 2)) =
     {([[97]], std (Inherited 0) (Pipe_write []) (Inherited 2)), ([[98]], std (Pipe_read []) (Inherited 1) (Inherited 2))}"
  using sh_child_plumbing [of "[97, 124, 98]" "[]" "Inherited 0" "Inherited 1" "Inherited 2"] by (simp add: sample_line insert_commute)

section \<open>The first program\<close>

lemma init_wait_execs: "execs k p f \<subseteq> E \<Longrightarrow> execs (init_wait n sh k) p f \<subseteq> E"
  by (induction n) (auto split: if_splits)

lemma init_loop_execs: "execs (init_loop n) p f \<subseteq> {([cstr ''sh''], f)}"
proof (induction n arbitrary: p)
  case (Suc n)
  have "execs (init_wait (Suc n) sh (init_loop n)) q f \<subseteq> {([cstr ''sh''], f)}" for sh q by (rule init_wait_execs [OF Suc.IH])
  then have "(a, b) \<in> execs (init_wait (Suc n) sh (init_loop n)) q f \<Longrightarrow> (a, b) = ([cstr ''sh''], f)" for sh q a b by blast
  then show ?case by (auto simp del: init_wait.simps)
qed simp

text \<open>\<open>init\<close> starts only the shell, with the console as its standard input, output and error, or with nothing open if
  the console cannot be opened.\<close>

lemma init_starts_shell:
  "execs (init_main n) p Map.empty \<subseteq> {([cstr ''sh''], std con con con), ([cstr ''sh''], Map.empty)}" if con: "con = Opened (cstr ''console'') 2"
proof -
  have 0: "lowest Map.empty = 0" and 1: "lowest [0 \<mapsto> con] = 1" and 2: "lowest [0 \<mapsto> con, 1 \<mapsto> con] = 2"
    using lowestI [of Map.empty 0] lowestI [of "[0 \<mapsto> con]" 1] lowestI [of "[0 \<mapsto> con, 1 \<mapsto> con]" 2] by (simp_all add: upt_rec)
  have "execs (A_dup 0 (A_dup 0 (init_loop n))) p [0 \<mapsto> con] = execs (init_loop n) p (std con con con)"
    by (simp add: 1 2 std_def)
  moreover have "execs (A_dup 0 (A_dup 0 (init_loop n))) p Map.empty = execs (init_loop n) p Map.empty" by simp
  ultimately have "execs (init_main n) p Map.empty \<subseteq> execs (init_loop n) p (std con con con) \<union> execs (init_loop n) p Map.empty"
    unfolding init_main_def Let_def by (simp add: 0 con)
  then show ?thesis using init_loop_execs [of n p "std con con con"] init_loop_execs [of n p Map.empty] by blast
qed

end
