(* ===== verification/Xv6_Mkfs.thy ===== *)
theory Xv6_Mkfs
  imports Xv6_Dir
begin

text \<open>
  The builder of the initial file system, mkfs.c. The image file is a map from sectors to blocks of \<open>BSIZE\<close> bytes;
  a sector that was never written cannot be read. The structures on disk are those of the kernel (fs.h), with
  the same definitions. The counters \<open>freeinode\<close> and \<open>freeblock\<close> are natural numbers: a sector number beyond the
  image ends the program long before 32 bits are used up. The files of the host are a function from names to
  contents, and writing to the image file succeeds. \<open>main\<close> is modelled from where the image file is open. \<open>die\<close> and a failed \<open>assert\<close> are the outcome \<open>Panic\<close>.
\<close>

section \<open>Layout\<close>

definition FSSIZE :: nat where "FSSIZE = 2000"
definition NINODES :: nat where "NINODES = 200"
definition nbitmap :: nat where "nbitmap = FSSIZE div BPB + 1"
definition ninodeblocks :: nat where "ninodeblocks = NINODES div IPB + 1"
definition nlog :: nat where "nlog = LOGBLOCKS + 1"
definition nmeta :: nat where "nmeta = 2 + nlog + ninodeblocks + nbitmap"

record mkimg =
  img :: "nat \<Rightarrow> u8 list option"
  msb :: superblock
  freeinode :: nat
  freeblock :: nat

text \<open>\<open>xshort\<close> and \<open>xint\<close> store a number byte by byte in the order of RISC-V, on a little-endian host.\<close>

definition xshort :: "u16 \<Rightarrow> u16" where
  "xshort x = rd16 0 [ucast x, ucast (drop_bit 8 x)]"

definition xint :: "u32 \<Rightarrow> u32" where
  "xint x = rd32 0 [ucast x, ucast (drop_bit 8 x), ucast (drop_bit 16 x), ucast (drop_bit 24 x)]"

section \<open>Sectors and inodes\<close>

definition wsect :: "nat \<Rightarrow> u8 list \<Rightarrow> ('x mkimg_scheme, unit) kop" where
  "wsect sec buf = modify (\<lambda>s. s\<lparr>img := (img s)(sec \<mapsto> buf)\<rparr>)"

definition rsect :: "nat \<Rightarrow> ('x mkimg_scheme, u8 list) kop" where
  "rsect sec = kbind (gets (\<lambda>s. img s sec)) (\<lambda>r. case r of Some buf \<Rightarrow> ret buf | None \<Rightarrow> panic ''read'')"

definition winode :: "u32 \<Rightarrow> dinode \<Rightarrow> ('x mkimg_scheme, unit) kop" where
  "winode i d =
     kbind (gets (\<lambda>s. unat (IBLOCK i (msb s)))) (\<lambda>bn.
     kbind (rsect bn) (\<lambda>buf.
     wsect bn (write_dinode i d buf)))"

definition rinode :: "u32 \<Rightarrow> ('x mkimg_scheme, dinode) kop" where
  "rinode i =
     kbind (gets (\<lambda>s. unat (IBLOCK i (msb s)))) (\<lambda>bn.
     kbind (rsect bn) (\<lambda>buf.
     ret (read_dinode i buf)))"

definition mk_ialloc :: "u16 \<Rightarrow> ('x mkimg_scheme, u32) kop" where
  "mk_ialloc type =
     kbind (gets freeinode) (\<lambda>i.
     kthen (modify (\<lambda>s. s\<lparr>freeinode := i + 1\<rparr>)) (
     kthen (winode (of_nat i) \<lparr>d_type = xshort type, d_major = 0, d_minor = 0, d_nlink = xshort 1, d_size = xint 0, d_addrs = (\<lambda>_. 0)\<rparr>) (
     ret (of_nat i))))"

definition mk_balloc :: "nat \<Rightarrow> ('x mkimg_scheme, unit) kop" where
  "mk_balloc used =
     (if \<not> used < BPB then panic ''assert'' else
      kbind (gets (\<lambda>s. unat (sb_bmapstart (msb s)))) (\<lambda>bn.
      wsect bn (fold set_used [0..<used] (replicate BSIZE 0))))"

section \<open>Appending to a file\<close>

text \<open>\<open>freeblock++\<close>.\<close>

definition next_block :: "('x mkimg_scheme, u32) kop" where
  "next_block = kbind (gets freeblock) (\<lambda>b. kthen (modify (\<lambda>s. s\<lparr>freeblock := b + 1\<rparr>)) (ret (of_nat b)))"

text \<open>Entry \<open>k\<close> of the addresses of an inode, allocated if it is 0.\<close>

definition iappend_addr :: "dinode \<Rightarrow> nat \<Rightarrow> ('x mkimg_scheme, dinode) kop" where
  "iappend_addr din k =
     (if xint (d_addrs din k) = 0
      then kbind next_block (\<lambda>b. ret (din\<lparr>d_addrs := (d_addrs din)(k := xint b)\<rparr>))
      else ret din)"

text \<open>The block of part \<open>fbn\<close> of the file, allocated if there is none.\<close>

definition iappend_block :: "dinode \<Rightarrow> nat \<Rightarrow> ('x mkimg_scheme, dinode \<times> u32) kop" where
  "iappend_block din fbn =
     (if fbn < NDIRECT then
        kbind (iappend_addr din fbn) (\<lambda>din.
        ret (din, xint (d_addrs din fbn)))
      else
        kbind (iappend_addr din NDIRECT) (\<lambda>din.
        kbind (rsect (unat (xint (d_addrs din NDIRECT)))) (\<lambda>indirect.
        if rd32 (4 * (fbn - NDIRECT)) indirect = 0
        then
          kbind next_block (\<lambda>b.
          let indirect = wr32 (4 * (fbn - NDIRECT)) (xint b) indirect in
          kthen (wsect (unat (xint (d_addrs din NDIRECT))) indirect) (
          ret (din, xint (rd32 (4 * (fbn - NDIRECT)) indirect))))
        else ret (din, xint (rd32 (4 * (fbn - NDIRECT)) indirect)))))"

function iappend_loop :: "dinode \<Rightarrow> u8 list \<Rightarrow> u32 \<Rightarrow> ('x mkimg_scheme, dinode \<times> u32) kop" where
  "iappend_loop din p off =
     (if p = [] then ret (din, off)
      else
        let fbn = unat off div BSIZE; n1 = min (length p) ((fbn + 1) * BSIZE - unat off) in
        if \<not> fbn < MAXFILE then panic ''assert''
        else
          kbind (iappend_block din fbn) (\<lambda>(din, x).
          kbind (rsect (unat x)) (\<lambda>buf.
          kthen (wsect (unat x) (splice (unat off - fbn * BSIZE) (take n1 p) buf)) (
          iappend_loop din (drop n1 p) (off + of_nat n1)))))"
  by pat_completeness auto
termination
proof (relation "measure (\<lambda>(din, p, off). length p)", goal_cases)
  case (2 din p off fbn n1)
  have "unat off < (unat off div BSIZE + 1) * BSIZE" using dividend_less_div_times [of BSIZE "unat off"] by (simp add: BSIZE_def)
  then show ?case using 2 by simp
qed simp

declare iappend_loop.simps [simp del]

definition iappend :: "u32 \<Rightarrow> u8 list \<Rightarrow> ('x mkimg_scheme, unit) kop" where
  "iappend i p =
     kbind (rinode i) (\<lambda>din.
     kbind (iappend_loop din p (xint (d_size din))) (\<lambda>(din, off).
     winode i (din\<lparr>d_size := xint off\<rparr>)))"

section \<open>main\<close>

definition mk_superblock :: superblock where
  "mk_superblock = \<lparr>sb_magic = FSMAGIC, sb_size = xint (of_nat FSSIZE), sb_nblocks = xint (of_nat (FSSIZE - nmeta)), sb_ninodes = xint (of_nat NINODES),
     sb_nlog = xint (of_nat nlog), sb_logstart = xint 2, sb_inodestart = xint (of_nat (2 + nlog)), sb_bmapstart = xint (of_nat (2 + nlog + ninodeblocks))\<rparr>"

text \<open>The superblock as it lies in its sector, and a directory entry.\<close>

definition encode_sb :: "superblock \<Rightarrow> u8 list \<Rightarrow> u8 list" where
  "encode_sb sb bs = wr32 28 (sb_bmapstart sb) (wr32 24 (sb_inodestart sb) (wr32 20 (sb_logstart sb) (wr32 16 (sb_nlog sb)
     (wr32 12 (sb_ninodes sb) (wr32 8 (sb_nblocks sb) (wr32 4 (sb_size sb) (wr32 0 (sb_magic sb) bs)))))))"

definition mk_dirent :: "u32 \<Rightarrow> u8 list \<Rightarrow> u8 list" where
  "mk_dirent i name = wr16 0 (xshort (ucast i)) (replicate 2 0) @ take DIRSIZ (name @ replicate DIRSIZ 0)"

text \<open>The name of a file in the image: without \<open>user/\<close>.\<close>

definition shortname :: "u8 list \<Rightarrow> u8 list" where
  "shortname name = (if take 5 name = [117, 115, 101, 114, 47] then drop 5 name else name)"

text \<open>The loop that reads a file of the host in pieces of \<open>BSIZE\<close> bytes.\<close>

function mk_copy :: "u32 \<Rightarrow> u8 list \<Rightarrow> ('x mkimg_scheme, unit) kop" where
  "mk_copy i bytes =
     (if bytes = [] then ret ()
      else kthen (iappend i (take BSIZE bytes)) (mk_copy i (drop BSIZE bytes)))"
  by pat_completeness auto
termination
  by (relation "measure (\<lambda>(i, bytes). length bytes)") (simp_all add: BSIZE_def)

declare mk_copy.simps [simp del]

definition mk_file :: "u32 \<Rightarrow> (u8 list \<Rightarrow> u8 list option) \<Rightarrow> u8 list \<Rightarrow> ('x mkimg_scheme, unit) kop" where
  "mk_file rootino host arg =
     (let short = shortname arg in
      if 47 \<in> set short then panic ''assert''
      else case host arg of None \<Rightarrow> panic ''open''
      | Some bytes \<Rightarrow>
        let short = (if short \<noteq> [] \<and> hd short = 95 then tl short else short) in
        if \<not> length short \<le> DIRSIZ then panic ''assert''
        else
          kbind (mk_ialloc T_FILE) (\<lambda>i.
          kthen (iappend rootino (mk_dirent i short)) (
          mk_copy i bytes)))"

definition mkfs_main :: "u8 list list \<Rightarrow> (u8 list \<Rightarrow> u8 list option) \<Rightarrow> ('x mkimg_scheme, unit) kop" where
  "mkfs_main args host =
     kthen (modify (\<lambda>s. s\<lparr>msb := mk_superblock, freeblock := nmeta\<rparr>)) (
     kthen (for_each (\<lambda>i. wsect i (replicate BSIZE 0)) [0..<FSSIZE]) (
     kbind (gets msb) (\<lambda>sb.
     kthen (wsect 1 (encode_sb sb (replicate BSIZE 0))) (
     kbind (mk_ialloc T_DIR) (\<lambda>rootino.
     if rootino \<noteq> ROOTINO then panic ''assert'' else
     kthen (iappend rootino (mk_dirent rootino [46])) (
     kthen (iappend rootino (mk_dirent rootino [46, 46])) (
     kthen (for_each (mk_file rootino host) args) (
     kbind (rinode rootino) (\<lambda>din.
     let off = (xint (d_size din) div of_nat BSIZE + 1) * of_nat BSIZE in
     kthen (winode rootino (din\<lparr>d_size := xint off\<rparr>)) (
     kbind (gets freeblock) mk_balloc))))))))))"

section \<open>Byte order and single sectors\<close>

lemma xshort_id [simp]: "xshort x = x"
  by (intro bit_word_eqI) (auto simp: xshort_def rd16_def bit_simps)

lemma xint_id [simp]: "xint x = x"
proof (rule bit_word_eqI)
  fix n assume "n < LENGTH(32)"
  then consider "n < 8" | "8 \<le> n" "n < 16" | "16 \<le> n" "n < 24" | "24 \<le> n" "n < 32" by fastforce
  then show "bit (xint x) n = bit x n" by cases (auto simp: xint_def rd32_def rd16_def bit_simps)
qed

lemma layout: "nmeta = 47" "nlog = 31" "ninodeblocks = 13" "nbitmap = 1" "FSSIZE = 2000" "NINODES = 200" "MAXFILE = 268"
  by (simp_all add: nmeta_def nlog_def ninodeblocks_def nbitmap_def FSSIZE_def NINODES_def BSIZE_1024 LOGBLOCKS_def MAXOPBLOCKS_def MAXFILE_def)

lemma wsect_apply [simp]: "wsect b x s = Ok () (s\<lparr>img := (img s)(b \<mapsto> x)\<rparr>)"
  by (simp add: wsect_def)

lemma rsect_apply [simp]: "img s b = Some x \<Longrightarrow> rsect b s = Ok x s"
  by (simp add: rsect_def)

lemma next_block_apply [simp]: "next_block s = Ok (of_nat (freeblock s)) (s\<lparr>freeblock := freeblock s + 1\<rparr>)"
  by (simp add: next_block_def)

section \<open>The blocks of a file in the image\<close>

text \<open>The contents of sector \<open>b\<close>, and the sector of part \<open>bn\<close> of a file whose inode is \<open>d\<close> (compare \<open>bmap\<close> of fs.c).\<close>

definition sect :: "'x mkimg_scheme \<Rightarrow> nat \<Rightarrow> u8 list" where
  "sect s b = (case img s b of Some x \<Rightarrow> x | None \<Rightarrow> [])"

definition part :: "(nat \<Rightarrow> u8 list) \<Rightarrow> dinode \<Rightarrow> nat \<Rightarrow> nat" where
  "part B d bn = (if bn < NDIRECT then unat (d_addrs d bn) else unat (rd32 (4 * (bn - NDIRECT)) (B (unat (d_addrs d NDIRECT)))))"

text \<open>The file has exactly its first \<open>m\<close> parts, all in different sectors, and the indirect block if it needs one.\<close>

definition has_parts :: "(nat \<Rightarrow> u8 list) \<Rightarrow> dinode \<Rightarrow> nat \<Rightarrow> bool" where
  "has_parts B d m \<longleftrightarrow> m \<le> MAXFILE \<and> (\<forall>bn < NDIRECT. d_addrs d bn = 0 \<longleftrightarrow> m \<le> bn) \<and> (d_addrs d NDIRECT = 0 \<longleftrightarrow> m \<le> NDIRECT) \<and>
     (NDIRECT < m \<longrightarrow> (\<forall>bn. NDIRECT \<le> bn \<and> bn < MAXFILE \<longrightarrow> (part B d bn = 0 \<longleftrightarrow> m \<le> bn))) \<and>
     inj_on (part B d) {..<m} \<and> (NDIRECT < m \<longrightarrow> unat (d_addrs d NDIRECT) \<notin> part B d ` {..<m})"

definition sectors_of :: "(nat \<Rightarrow> u8 list) \<Rightarrow> dinode \<Rightarrow> nat \<Rightarrow> nat set" where
  "sectors_of B d m = part B d ` {..<m} \<union> (if NDIRECT < m then {unat (d_addrs d NDIRECT)} else {})"

definition holds :: "(nat \<Rightarrow> u8 list) \<Rightarrow> dinode \<Rightarrow> u8 list \<Rightarrow> bool" where
  "holds B d C \<longleftrightarrow> (\<forall>k < length C. B (part B d (k div BSIZE)) ! (k mod BSIZE) = C ! k)"

text \<open>How many parts \<open>n\<close> bytes take, and how many sectors with the indirect block.\<close>

definition nparts :: "nat \<Rightarrow> nat" where
  "nparts n = (n + (BSIZE - 1)) div BSIZE"

definition nsectors :: "nat \<Rightarrow> nat" where
  "nsectors m = m + (if NDIRECT < m then 1 else 0)"

text \<open>The image between operations: every sector below \<open>FSSIZE\<close> is a block, those not handed out are zero, and sector 1 is the superblock.\<close>

definition image_ok :: "'x mkimg_scheme \<Rightarrow> bool" where
  "image_ok s \<longleftrightarrow> (\<forall>b < FSSIZE. \<exists>x. img s b = Some x \<and> length x = BSIZE) \<and> nmeta \<le> freeblock s \<and> freeblock s \<le> FSSIZE \<and>
     (\<forall>b. freeblock s \<le> b \<and> b < FSSIZE \<longrightarrow> sect s b = replicate BSIZE 0) \<and> msb s = mk_superblock \<and> decode_sb (sect s 1) = mk_superblock"

lemma image_okD:
  assumes "image_ok s"
  shows "b < FSSIZE \<Longrightarrow> img s b = Some (sect s b)" "b < FSSIZE \<Longrightarrow> length (sect s b) = BSIZE" "nmeta \<le> freeblock s" "freeblock s \<le> FSSIZE"
    "freeblock s \<le> b \<Longrightarrow> b < FSSIZE \<Longrightarrow> sect s b = replicate BSIZE 0" "msb s = mk_superblock" "decode_sb (sect s 1) = mk_superblock"
proof -
  have "b < FSSIZE \<Longrightarrow> \<exists>x. img s b = Some x \<and> length x = BSIZE" using assms unfolding image_ok_def by blast
  then show "b < FSSIZE \<Longrightarrow> img s b = Some (sect s b)" "b < FSSIZE \<Longrightarrow> length (sect s b) = BSIZE" by (auto simp: sect_def)
qed (use assms in \<open>auto simp: image_ok_def\<close>)

lemma sect_write [simp]: "sect (s\<lparr>img := (img s)(b \<mapsto> x)\<rparr>) = (sect s)(b := x)"
  by (auto simp: sect_def fun_eq_iff)

lemma sect_counters [simp]: "sect (s\<lparr>freeblock := n\<rparr>) = sect s" "sect (s\<lparr>freeinode := k\<rparr>) = sect s" "sect (s\<lparr>freeblock := n, img := i\<rparr>) = sect (s\<lparr>img := i\<rparr>)"
  by (auto simp: sect_def fun_eq_iff)

text \<open>Writing a block, and handing out the next one.\<close>

lemma image_write:
  assumes "image_ok s" "b < freeblock s" "1 < b" "length x = BSIZE"
  shows "image_ok (s\<lparr>img := (img s)(b \<mapsto> x)\<rparr>)"
  using assms by (auto simp: image_ok_def)

lemma image_next:
  assumes "image_ok s" "freeblock s < FSSIZE"
  shows "image_ok (s\<lparr>freeblock := freeblock s + 1\<rparr>)"
  using assms by (auto simp: image_ok_def)

lemma unat_sector: "b < FSSIZE \<Longrightarrow> unat (of_nat b :: u32) = b"
  by (intro unat_of_nat_u32) (simp add: layout)

lemma part_cong: "(NDIRECT \<le> bn \<Longrightarrow> B (unat (d_addrs d NDIRECT)) = B' (unat (d_addrs d NDIRECT))) \<Longrightarrow> part B d bn = part B' d bn"
  by (auto simp: part_def)

lemma part_size [simp]: "part B (d\<lparr>d_size := n\<rparr>) = part B d"
  by (simp add: part_def fun_eq_iff)

lemma size_irrelevant [simp]:
  "has_parts B (d\<lparr>d_size := n\<rparr>) m = has_parts B d m" "sectors_of B (d\<lparr>d_size := n\<rparr>) m = sectors_of B d m" "holds B (d\<lparr>d_size := n\<rparr>) C = holds B d C"
  by (simp_all add: has_parts_def sectors_of_def holds_def)

lemma zero_block: "4 * j + 4 \<le> BSIZE \<Longrightarrow> rd32 (4 * j) (replicate BSIZE 0) = 0"
  by (intro bit_word_eqI) (simp add: rd32_def rd16_def bit_simps)

section \<open>Adding a part\<close>

lemma part_entry:
  assumes "length (B (unat (d_addrs d NDIRECT))) = BSIZE" "NDIRECT \<le> m" "m < MAXFILE" "bn < MAXFILE"
  shows "part (B(unat (d_addrs d NDIRECT) := wr32 (4 * (m - NDIRECT)) v (B (unat (d_addrs d NDIRECT))))) d bn = (if bn = m then unat v else part B d bn)"
proof -
  have "4 * (bn - NDIRECT) + 4 \<le> 4 * (m - NDIRECT) \<or> 4 * (m - NDIRECT) + 4 \<le> 4 * (bn - NDIRECT)" if "\<not> bn < NDIRECT" "bn \<noteq> m"
    using that assms(2) by linarith
  then show ?thesis using assms by (auto simp: part_def layout BSIZE_1024)
qed

lemma has_parts_entry:
  assumes m: "NDIRECT \<le> m" "m < MAXFILE" and d: "\<And>bn. bn < NDIRECT \<Longrightarrow> d_addrs d bn \<noteq> 0" "d_addrs d NDIRECT \<noteq> 0"
    and l: "length (B (unat (d_addrs d NDIRECT))) = BSIZE"
    and ind: "\<And>bn. NDIRECT \<le> bn \<Longrightarrow> bn < MAXFILE \<Longrightarrow> part B d bn = 0 \<longleftrightarrow> m \<le> bn"
    and inj: "inj_on (part B d) {..<m}" "unat (d_addrs d NDIRECT) \<notin> part B d ` {..<m}"
    and v: "v \<noteq> 0" "unat v \<notin> part B d ` {..<m}" "unat v \<noteq> unat (d_addrs d NDIRECT)"
    and B': "B' = B(unat (d_addrs d NDIRECT) := wr32 (4 * (m - NDIRECT)) v (B (unat (d_addrs d NDIRECT))))"
  shows "has_parts B' d (m + 1)" "bn < m \<Longrightarrow> part B' d bn = part B d bn" "part B' d m = unat v"
proof -
  have p: "part B' d bn = (if bn = m then unat v else part B d bn)" if "bn < MAXFILE" for bn unfolding B' by (rule part_entry) (fact l m that)+
  show eq: "bn < m \<Longrightarrow> part B' d bn = part B d bn" for bn using p m(2) by simp
  show pm: "part B' d m = unat v" using p [OF m(2)] by simp
  have img: "part B' d ` {..<m} = part B d ` {..<m}" using eq by (intro image_cong) auto
  have "inj_on (part B' d) {..<m}" using inj(1) eq by (simp add: inj_on_def)
  then have "inj_on (part B' d) {..<m + 1}" using v(2) img pm by (simp add: lessThan_Suc)
  moreover have "unat (d_addrs d NDIRECT) \<notin> part B' d ` {..<m + 1}" using inj(2) v(3) img pm by (auto simp: lessThan_Suc)
  moreover have "part B' d bn = 0 \<longleftrightarrow> m + 1 \<le> bn" if "NDIRECT \<le> bn" "bn < MAXFILE" for bn
    using p [OF that(2)] ind [OF that] v(1) by (auto simp: unat_eq_zero)
  ultimately show "has_parts B' d (m + 1)" using m d by (auto simp: has_parts_def)
qed

lemma has_parts_direct:
  assumes p: "has_parts B d m" and m: "m < NDIRECT" and v: "v \<noteq> 0" "unat v \<notin> part B d ` {..<m}"
    and d': "d' = d\<lparr>d_addrs := (d_addrs d)(m := v)\<rparr>"
  shows "has_parts B d' (m + 1)" "bn < m \<Longrightarrow> part B d' bn = part B d bn" "part B d' m = unat v"
proof -
  show eq: "bn < m \<Longrightarrow> part B d' bn = part B d bn" for bn using m by (simp add: d' part_def)
  show pm: "part B d' m = unat v" using m by (simp add: d' part_def)
  have img: "part B d' ` {..<m} = part B d ` {..<m}" using eq by (intro image_cong) auto
  have "inj_on (part B d') {..<m}" using p eq by (simp add: inj_on_def has_parts_def)
  then have "inj_on (part B d') {..<m + 1}" using v(2) img pm by (simp add: lessThan_Suc)
  then show "has_parts B d' (m + 1)" using p m v(1) by (auto simp: has_parts_def d' MAXFILE_def)
qed

text \<open>What \<open>iappend_block\<close> leaves: the file with part \<open>fbn\<close>, its old parts where they were.\<close>

definition grown :: "dinode \<Rightarrow> nat \<Rightarrow> 'x mkimg_scheme \<Rightarrow> dinode \<Rightarrow> nat \<Rightarrow> 'x mkimg_scheme \<Rightarrow> bool" where
  "grown d m s d' m' t \<longleftrightarrow> image_ok t \<and> has_parts (sect t) d' m' \<and> freeblock t = freeblock s + (nsectors m' - nsectors m) \<and> freeinode t = freeinode s \<and>
     sectors_of (sect t) d' m' \<subseteq> sectors_of (sect s) d m \<union> {freeblock s..<freeblock t} \<and> (\<forall>bn < m. part (sect t) d' bn = part (sect s) d bn) \<and>
     (\<forall>b. b \<noteq> unat (d_addrs d' NDIRECT) \<longrightarrow> sect t b = sect s b) \<and> (m' \<le> NDIRECT \<longrightarrow> sect t = sect s) \<and> (\<exists>a. d' = d\<lparr>d_addrs := a\<rparr>)"

lemma iappend_block_direct:
  assumes i: "image_ok s" and p: "has_parts (sect s) d m" and own: "sectors_of (sect s) d m \<subseteq> {nmeta..<freeblock s}"
    and m: "m < NDIRECT" and space: "freeblock s < FSSIZE"
  shows "\<exists>d' t. iappend_block d m s = Ok (d', of_nat (part (sect t) d' m)) t \<and> grown d m s d' (m + 1) t"
proof -
  let ?v = "of_nat (freeblock s) :: u32"
  let ?d = "d\<lparr>d_addrs := (d_addrs d)(m := ?v)\<rparr>" and ?t = "s\<lparr>freeblock := freeblock s + 1\<rparr>"
  have v: "unat ?v = freeblock s" "?v \<noteq> 0" "unat ?v \<notin> part (sect s) d ` {..<m}"
    using unat_sector [OF space] image_okD(3) [OF i] own by (auto simp: sectors_of_def layout)
  note h = has_parts_direct [OF p m v(2,3) refl]
  have "d_addrs d m = 0" using p m by (simp add: has_parts_def)
  then have "iappend_block d m s = Ok (?d, of_nat (part (sect ?t) ?d m)) ?t" using m h(3) by (simp add: iappend_block_def iappend_addr_def)
  moreover have "sectors_of (sect s) ?d (m + 1) \<subseteq> sectors_of (sect s) d m \<union> {freeblock s..<freeblock s + 1}"
    using h(2,3) v(1) m by (auto simp: sectors_of_def lessThan_Suc)
  ultimately show ?thesis using h image_next [OF i space] m
    by (intro exI [of _ ?d] exI [of _ ?t]) (auto simp: grown_def nsectors_def)
qed

lemma iappend_block_old:
  assumes i: "image_ok s" and p: "has_parts (sect s) d m" and own: "sectors_of (sect s) d m \<subseteq> {nmeta..<freeblock s}" and m: "fbn < m"
  shows "iappend_block d fbn s = Ok (d, of_nat (part (sect s) d fbn)) s \<and> grown d m s d m s"
proof -
  have "NDIRECT < m \<Longrightarrow> unat (d_addrs d NDIRECT) < FSSIZE" using own image_okD(4) [OF i] by (auto simp: sectors_of_def)
  then have r: "NDIRECT < m \<Longrightarrow> img s (unat (d_addrs d NDIRECT)) = Some (sect s (unat (d_addrs d NDIRECT)))" using image_okD(1) [OF i] by blast
  have "fbn < NDIRECT \<Longrightarrow> d_addrs d fbn \<noteq> 0" "\<not> fbn < NDIRECT \<Longrightarrow> d_addrs d NDIRECT \<noteq> 0" "\<not> fbn < NDIRECT \<Longrightarrow> part (sect s) d fbn \<noteq> 0"
    using p m by (auto simp: has_parts_def)
  then have "iappend_block d fbn s = Ok (d, of_nat (part (sect s) d fbn)) s"
    using r m by (cases "fbn < NDIRECT") (auto simp: iappend_block_def iappend_addr_def part_def unat_eq_zero)
  then show ?thesis using i p by (auto simp: grown_def intro: exI [of _ "d_addrs d"])
qed

text \<open>The indirect block is there, allocated if this is the first part that needs it.\<close>

definition indirect_ready :: "dinode \<Rightarrow> nat \<Rightarrow> 'x mkimg_scheme \<Rightarrow> dinode \<Rightarrow> 'x mkimg_scheme \<Rightarrow> bool" where
  "indirect_ready d m s d' t \<longleftrightarrow> image_ok t \<and> sect t = sect s \<and> freeinode t = freeinode s \<and> freeblock s \<le> freeblock t \<and>
     freeblock t + 1 = freeblock s + (nsectors (m + 1) - nsectors m) \<and> (\<exists>a. d' = d\<lparr>d_addrs := a\<rparr>) \<and>
     (\<forall>bn < NDIRECT. d_addrs d' bn \<noteq> 0) \<and> d_addrs d' NDIRECT \<noteq> 0 \<and> unat (d_addrs d' NDIRECT) < freeblock t \<and>
     unat (d_addrs d' NDIRECT) \<notin> part (sect s) d ` {..<m} \<and> unat (d_addrs d' NDIRECT) \<in> sectors_of (sect s) d m \<union> {freeblock s..<freeblock t} \<and>
     (\<forall>bn. NDIRECT \<le> bn \<and> bn < MAXFILE \<longrightarrow> (part (sect s) d' bn = 0 \<longleftrightarrow> m \<le> bn)) \<and> (\<forall>bn < m. part (sect s) d' bn = part (sect s) d bn)"

lemma indirect_block:
  assumes i: "image_ok s" and p: "has_parts (sect s) d m" and own: "sectors_of (sect s) d m \<subseteq> {nmeta..<freeblock s}"
    and m: "NDIRECT \<le> m" "m < MAXFILE" and space: "freeblock s + (nsectors (m + 1) - nsectors m) \<le> FSSIZE"
  shows "\<exists>d' t. iappend_addr d NDIRECT s = Ok d' t \<and>
    indirect_ready d m s d' t"
proof (cases "m = NDIRECT")
  case False
  then have "NDIRECT < m" using m(1) by simp
  then have "d_addrs d NDIRECT \<noteq> 0" "indirect_ready d m s d s"
    using i p own m by (auto simp: indirect_ready_def has_parts_def sectors_of_def nsectors_def intro: exI [of _ "d_addrs d"])
  then show ?thesis by (auto simp: iappend_addr_def)
next
  case True
  let ?v = "of_nat (freeblock s) :: u32"
  let ?d = "d\<lparr>d_addrs := (d_addrs d)(NDIRECT := ?v)\<rparr>" and ?t = "s\<lparr>freeblock := freeblock s + 1\<rparr>"
  have sp: "freeblock s < FSSIZE" using space True by (simp add: nsectors_def)
  have v: "unat ?v = freeblock s" "?v \<noteq> 0" using unat_sector [OF sp] image_okD(3) [OF i] by (auto simp: layout)
  have "part (sect s) ?d bn = 0" if "NDIRECT \<le> bn" "bn < MAXFILE" for bn
    using that v(1) image_okD(5) [OF i _ sp] zero_block [of "bn - NDIRECT"] by (simp add: part_def layout BSIZE_1024)
  moreover have "part (sect s) ?d bn = part (sect s) d bn" if "bn < m" for bn using that True by (simp add: part_def)
  moreover have "freeblock s \<notin> part (sect s) d ` {..<m}" using own by (auto simp: sectors_of_def)
  ultimately have "indirect_ready d m s ?d ?t"
    using v p True image_next [OF i sp] by (auto simp: indirect_ready_def has_parts_def nsectors_def)
  moreover have "d_addrs d NDIRECT = 0" using p True by (simp add: has_parts_def)
  ultimately show ?thesis by (auto simp: iappend_addr_def)
qed

lemma iappend_block_indirect:
  assumes i: "image_ok s" and p: "has_parts (sect s) d m" and own: "sectors_of (sect s) d m \<subseteq> {nmeta..<freeblock s}"
    and m: "NDIRECT \<le> m" "m < MAXFILE" and space: "freeblock s + (nsectors (m + 1) - nsectors m) \<le> FSSIZE"
  shows "\<exists>d' t. iappend_block d m s = Ok (d', of_nat (part (sect t) d' m)) t \<and> grown d m s d' (m + 1) t"
proof -
  obtain d1 s1 where f: "iappend_addr d NDIRECT s = Ok d1 s1"
    and r: "indirect_ready d m s d1 s1" using indirect_block [OF assms] by blast
  note R = r [unfolded indirect_ready_def]
  let ?I = "unat (d_addrs d1 NDIRECT)" and ?v = "of_nat (freeblock s1) :: u32"
  have i1: "image_ok s1" and sp: "freeblock s1 < FSSIZE" "?I < freeblock s1" "freeblock s \<le> freeblock s1" using R space by auto
  have v: "unat ?v = freeblock s1" "?v \<noteq> 0" using unat_sector [OF sp(1)] image_okD(3) [OF i1] by (auto simp: layout)
  have rd: "img s1 ?I = Some (sect s ?I)" "length (sect s ?I) = BSIZE" using image_okD(1,2) [OF i1, of ?I] sp R by auto
  let ?B = "(sect s)(?I := wr32 (4 * (m - NDIRECT)) ?v (sect s ?I))"
  let ?t = "s1\<lparr>freeblock := freeblock s1 + 1, img := (img s1)(?I \<mapsto> wr32 (4 * (m - NDIRECT)) ?v (sect s ?I))\<rparr>"
  have pe: "part (sect s) d1 ` {..<m} = part (sect s) d ` {..<m}" using R by (intro image_cong) auto
  have inj: "inj_on (part (sect s) d1) {..<m}" using p R by (simp add: has_parts_def inj_on_def)
  have vn: "unat ?v \<notin> part (sect s) d1 ` {..<m}" using own v(1) sp(3) unfolding pe sectors_of_def by fastforce
  have h: "has_parts ?B d1 (m + 1)" "\<And>bn. bn < m \<Longrightarrow> part ?B d1 bn = part (sect s) d1 bn" "part ?B d1 m = unat ?v"
    by (rule has_parts_entry [OF m _ _ rd(2) _ inj _ v(2) vn _ refl]; use R sp v(1) pe in \<open>simp\<close>)+
  have B: "sect ?t = ?B" using R by simp
  have "d_addrs d1 NDIRECT \<noteq> 0" "part (sect s) d1 m = 0" using R m by auto
  then have z: "rd32 (4 * (m - NDIRECT)) (sect s ?I) = 0" using m(1) by (simp add: part_def unat_eq_zero)
  have "iappend_block d m s = Ok (d1, of_nat (part (sect ?t) d1 m)) ?t"
    using f m rd z h(3) v(1) unfolding B by (simp add: iappend_block_def not_less Let_def m layout BSIZE_1024)
  moreover have "sectors_of ?B d1 (m + 1) \<subseteq> sectors_of (sect s) d m \<union> {freeblock s..<freeblock s1 + 1}"
  proof -
    have "part ?B d1 ` {..<m} = part (sect s) d ` {..<m}" using h(2) R by (intro image_cong) auto
    then have "part ?B d1 ` {..<m + 1} \<subseteq> insert (freeblock s1) (part (sect s) d ` {..<m})" using h(3) v(1) by (simp add: lessThan_Suc)
    then show ?thesis using R sp(3) m(1) unfolding sectors_of_def by auto
  qed
  moreover have "nmeta \<le> ?I" using R own image_okD(3) [OF i] by auto
  then have "image_ok ?t" using image_write [OF image_next [OF i1 sp(1)], of ?I] sp(2) rd(2) by (simp add: layout)
  ultimately show ?thesis using h R B m(1) by (intro exI [of _ d1] exI [of _ ?t]) (auto simp: grown_def fun_upd_other simp del: fun_upd_apply)
qed

lemma iappend_block_effect:
  assumes "image_ok s" "has_parts (sect s) d m" "sectors_of (sect s) d m \<subseteq> {nmeta..<freeblock s}"
    and "fbn \<le> m" "fbn < MAXFILE" "freeblock s + (nsectors (max m (fbn + 1)) - nsectors m) \<le> FSSIZE"
  shows "\<exists>d' t. iappend_block d fbn s = Ok (d', of_nat (part (sect t) d' fbn)) t \<and> grown d m s d' (max m (fbn + 1)) t"
proof -
  consider "fbn < m" | "fbn = m" "m < NDIRECT" | "fbn = m" "NDIRECT \<le> m" using assms(4) by linarith
  then show ?thesis
  proof cases
    case 1
    then have "max m (fbn + 1) = m" by simp
    then show ?thesis using iappend_block_old [OF assms(1-3) 1] by auto
  next
    case 2
    then show ?thesis using iappend_block_direct [OF assms(1-3) 2(2)] assms(6) by (simp add: nsectors_def)
  next
    case 3
    then show ?thesis using iappend_block_indirect [OF assms(1-3) 3(2)] assms(5,6) by simp
  qed
qed

section \<open>Appending bytes\<close>

lemma nparts_bounds: "k < n \<Longrightarrow> k div BSIZE < nparts n" "nparts n \<le> m \<longleftrightarrow> n \<le> m * BSIZE" "n div BSIZE \<le> nparts n"
proof -
  show le: "nparts n \<le> m \<longleftrightarrow> n \<le> m * BSIZE" for m by (auto simp: nparts_def BSIZE_def)
  show "k < n \<Longrightarrow> k div BSIZE < nparts n" by (auto simp: nparts_def BSIZE_def)
  show "n div BSIZE \<le> nparts n" by (simp add: nparts_def div_le_mono)
qed

lemma nparts_add: "0 < c \<Longrightarrow> n mod BSIZE + c \<le> BSIZE \<Longrightarrow> nparts (n + c) = max (nparts n) (n div BSIZE + 1)"
proof -
  assume c: "0 < c" "n mod BSIZE + c \<le> BSIZE"
  have n: "n = n div BSIZE * BSIZE + n mod BSIZE" by simp
  then have "n + c \<le> (n div BSIZE + 1) * BSIZE" "\<not> n + c \<le> n div BSIZE * BSIZE" using c by (simp, linarith)+
  then have "nparts (n + c) \<le> n div BSIZE + 1" "\<not> nparts (n + c) \<le> n div BSIZE" "nparts n \<le> n div BSIZE + 1"
    unfolding nparts_bounds(2) by linarith+
  then show ?thesis by linarith
qed

text \<open>One round of the loop: a piece of the data goes behind the contents.\<close>

lemma holds_append:
  assumes h: "holds B d C" and eq: "\<And>bn. bn < nparts (length C) \<Longrightarrow> part B' d' bn = part B d bn" "\<And>bn. bn < nparts (length C) \<Longrightarrow> B' (part B d bn) = B (part B d bn)"
    and inj: "inj_on (part B' d') {..<nparts (length C + length q)}" and q: "q \<noteq> []" "length C mod BSIZE + length q \<le> BSIZE"
    and x: "x = part B' d' (length C div BSIZE)" "length (B' x) = BSIZE"
    and B'': "B'' = B'(x := splice (length C mod BSIZE) q (B' x))" "\<And>bn. bn < nparts (length C + length q) \<Longrightarrow> part B'' d' bn = part B' d' bn"
  shows "holds B'' d' (C @ q)"
  unfolding holds_def
proof (intro allI impI)
  let ?n = "length C"
  fix k assume k: "k < length (C @ q)"
  have kp: "k div BSIZE < nparts (?n + length q)" "?n div BSIZE < nparts (?n + length q)" using nparts_bounds(1) k q(1) by simp_all
  then have pk: "part B'' d' (k div BSIZE) = part B' d' (k div BSIZE)" using B''(2) by simp
  have same: "part B' d' (k div BSIZE) = x \<longleftrightarrow> k div BSIZE = ?n div BSIZE" using inj kp x(1) by (auto simp: inj_on_def)
  have val: "B'' (part B'' d' (k div BSIZE)) = (if k div BSIZE = ?n div BSIZE then splice (?n mod BSIZE) q (B' x) else B' (part B' d' (k div BSIZE)))"
    unfolding pk unfolding B''(1) using same by simp
  have B: "0 < BSIZE" by (simp add: BSIZE_def)
  have km: "k mod BSIZE < BSIZE" using B by simp
  show "B'' (part B'' d' (k div BSIZE)) ! (k mod BSIZE) = (C @ q) ! k"
  proof (cases "k < ?n")
    case True
    have old: "B' (part B' d' (k div BSIZE)) ! (k mod BSIZE) = C ! k"
      using h True nparts_bounds(1) [OF True] eq by (simp add: holds_def)
    show ?thesis
    proof (cases "k div BSIZE = ?n div BSIZE")
      case True
      then have "k mod BSIZE < ?n mod BSIZE" using \<open>k < ?n\<close> by (metis div_mult_mod_eq nat_add_left_cancel_less)
      then have "splice (?n mod BSIZE) q (B' x) ! (k mod BSIZE) = B' x ! (k mod BSIZE)" using nth_splice [of "?n mod BSIZE" q "B' x"] q(2) x(2) km by simp
      then show ?thesis unfolding val using old True same \<open>k < ?n\<close> by (simp add: nth_append)
    qed (use old \<open>k < ?n\<close> in \<open>simp add: val nth_append\<close>)
  next
    case False
    then obtain j where j: "k = ?n + j" "j < length q" using k by (metis le_Suc_ex length_append nat_add_left_cancel_less not_less)
    have lt: "?n mod BSIZE + j < BSIZE" using j(2) q(2) by simp
    have "k = ?n div BSIZE * BSIZE + (?n mod BSIZE + j)" using j(1) by (simp add: div_mult_mod_eq add.assoc [symmetric])
    then have "k div BSIZE = ?n div BSIZE" "k mod BSIZE = ?n mod BSIZE + j"
      using lt by (metis add.commute div_less div_mult_self3 gr_implies_not0 add_0_right, metis mod_less mod_mult_self3)
    then show ?thesis unfolding val using same j nth_splice [of "?n mod BSIZE" q "B' x" "?n mod BSIZE + j"] q(2) x(2) lt by (simp add: nth_append)
  qed
qed

text \<open>A file with inode \<open>d\<close> and contents \<open>C\<close>, away from the sectors \<open>F\<close>; and what appending does to the rest of the image.\<close>

definition file_at :: "'x mkimg_scheme \<Rightarrow> nat set \<Rightarrow> dinode \<Rightarrow> u8 list \<Rightarrow> bool" where
  "file_at s F d C \<longleftrightarrow> image_ok s \<and> has_parts (sect s) d (nparts (length C)) \<and> holds (sect s) d C \<and>
     sectors_of (sect s) d (nparts (length C)) \<subseteq> {nmeta..<freeblock s} - F \<and> F \<subseteq> {nmeta..<freeblock s}"

definition appended :: "'x mkimg_scheme \<Rightarrow> nat set \<Rightarrow> dinode \<Rightarrow> nat \<Rightarrow> nat \<Rightarrow> dinode \<Rightarrow> 'x mkimg_scheme \<Rightarrow> bool" where
  "appended s F d n n' d' t \<longleftrightarrow> freeblock t = freeblock s + (nsectors (nparts n') - nsectors (nparts n)) \<and> freeinode t = freeinode s \<and>
     (\<forall>b. b < nmeta \<or> b \<in> F \<longrightarrow> sect t b = sect s b) \<and> (\<exists>a. d' = d\<lparr>d_addrs := a\<rparr>)"

lemma nsectors_mono: "m \<le> n \<Longrightarrow> nsectors m \<le> nsectors n"
  by (simp add: nsectors_def)

lemma nparts_mono: "m \<le> n \<Longrightarrow> nparts m \<le> nparts n"
  by (simp add: nparts_def div_le_mono)

lemma sectors_cong: "(\<And>bn. bn < m \<Longrightarrow> part B d bn = part B' d bn) \<Longrightarrow> sectors_of B d m = sectors_of B' d m"
  unfolding sectors_of_def by (auto intro!: image_cong)

lemma has_parts_cong: "(\<And>bn. bn < MAXFILE \<Longrightarrow> part B d bn = part B' d bn) \<Longrightarrow> has_parts B d m = has_parts B' d m"
proof -
  assume eq: "\<And>bn. bn < MAXFILE \<Longrightarrow> part B d bn = part B' d bn"
  show ?thesis
  proof (cases "m \<le> MAXFILE")
    case True
    then have "part B d ` {..<m} = part B' d ` {..<m}" "inj_on (part B d) {..<m} = inj_on (part B' d) {..<m}"
      using eq by (auto simp: inj_on_def intro!: image_cong)
    then show ?thesis using eq unfolding has_parts_def by simp
  qed (simp add: has_parts_def)
qed

lemma iappend_round:
  fixes s :: "'x mkimg_scheme"
  assumes f: "file_at s F d C" and q: "q \<noteq> []" "length C mod BSIZE + length q \<le> BSIZE"
    and max: "length C + length q \<le> MAXFILE * BSIZE" and space: "freeblock s + (nsectors (nparts (length C + length q)) - nsectors (nparts (length C))) \<le> FSSIZE"
  shows "\<exists>d' x u. iappend_block d (length C div BSIZE) s = Ok (d', x) u \<and> rsect (unat x) u = Ok (sect u (unat x)) u \<and>
    (let t = u\<lparr>img := (img u)(unat x \<mapsto> splice (length C mod BSIZE) q (sect u (unat x)))\<rparr> in
     file_at t F d' (C @ q) \<and> appended s F d (length C) (length C + length q) d' t)"
proof -
  let ?n = "length C" and ?m = "nparts (length C)" and ?m' = "nparts (length C + length q)"
  have i: "image_ok s" and p: "has_parts (sect s) d ?m" and h: "holds (sect s) d C" and own: "sectors_of (sect s) d ?m \<subseteq> {nmeta..<freeblock s}"
    and F: "sectors_of (sect s) d ?m \<inter> F = {}" "F \<subseteq> {nmeta..<freeblock s}" using f by (auto simp: file_at_def)
  have m': "?m' = max ?m (?n div BSIZE + 1)" by (rule nparts_add) (use q in auto)
  then have lt: "?n div BSIZE < ?m'" "?m \<le> ?m'" by simp_all
  have mx: "?m' \<le> MAXFILE" unfolding nparts_bounds(2) by (fact max)
  obtain d' u where b: "iappend_block d (?n div BSIZE) s = Ok (d', of_nat (part (sect u) d' (?n div BSIZE))) u" and g: "grown d ?m s d' ?m' u"
    using iappend_block_effect [OF i p own nparts_bounds(3), unfolded m' [symmetric]] lt(1) mx space by auto
  note G = g [unfolded grown_def]
  let ?x = "part (sect u) d' (?n div BSIZE)"
  have xs: "?x \<in> sectors_of (sect u) d' ?m'" using lt(1) by (auto simp: sectors_of_def)
  have so: "sectors_of (sect u) d' ?m' \<subseteq> sectors_of (sect s) d ?m \<union> {freeblock s..<freeblock u}" using G by blast
  moreover have fu: "freeblock s \<le> freeblock u" using G by simp
  then have "sectors_of (sect s) d ?m \<subseteq> {nmeta..<freeblock u}" "{freeblock s..<freeblock u} \<subseteq> {nmeta..<freeblock u}" "{freeblock s..<freeblock u} \<inter> F = {}"
    using own F(2) image_okD(3) [OF i] by auto
  ultimately have rng: "sectors_of (sect u) d' ?m' \<subseteq> {nmeta..<freeblock u}" "sectors_of (sect u) d' ?m' \<inter> F = {}"
    using F(1) by blast+
  have iu: "image_ok u" using G by blast
  have x: "?x < FSSIZE" "?x < freeblock u" using xs rng(1) image_okD(4) [OF iu] by auto
  have ux: "unat (of_nat ?x :: u32) = ?x" by (rule unat_sector [OF x(1)])
  let ?t = "u\<lparr>img := (img u)(?x \<mapsto> splice (?n mod BSIZE) q (sect u ?x))\<rparr>"
  have lx: "length (sect u ?x) = BSIZE" using image_okD(2) [OF iu x(1)] .
  have xi: "NDIRECT < ?m' \<Longrightarrow> unat (d_addrs d' NDIRECT) \<noteq> ?x" using G lt(1) by (auto simp: has_parts_def)
  have pe: "part (sect ?t) d' bn = part (sect u) d' bn" if "bn < MAXFILE" "bn < NDIRECT \<or> NDIRECT < ?m'" for bn
    by (rule part_cong) (use that xi in auto)
  have hp: "has_parts (sect ?t) d' ?m'"
  proof (cases "NDIRECT < ?m'")
    case True
    then show ?thesis using G has_parts_cong [of "sect ?t" d' "sect u"] pe by blast
  next
    case False
    then have "part (sect ?t) d' ` {..<?m'} = part (sect u) d' ` {..<?m'}" "inj_on (part (sect ?t) d') {..<?m'} = inj_on (part (sect u) d') {..<?m'}"
      using pe mx by (auto simp: inj_on_def intro!: image_cong)
    moreover have "has_parts (sect u) d' ?m'" using G by blast
    ultimately show ?thesis using False unfolding has_parts_def by simp
  qed
  have pe': "part (sect ?t) d' bn = part (sect u) d' bn" if "bn < ?m'" for bn using pe [of bn] that mx by linarith
  then have se: "sectors_of (sect ?t) d' ?m' = sectors_of (sect u) d' ?m'" by (rule sectors_cong)
  have keep: "sect u (part (sect s) d bn) = sect s (part (sect s) d bn)" if "bn < ?m" for bn
  proof -
    have "part (sect s) d bn = part (sect u) d' bn" using G that by simp
    then have "part (sect s) d bn \<in> part (sect u) d' ` {..<?m'}" using that lt(2) by simp
    moreover have "NDIRECT < ?m' \<Longrightarrow> unat (d_addrs d' NDIRECT) \<notin> part (sect u) d' ` {..<?m'}" using G unfolding has_parts_def by blast
    ultimately have "NDIRECT < ?m' \<Longrightarrow> unat (d_addrs d' NDIRECT) \<noteq> part (sect s) d bn" by metis
    then show ?thesis using G by (cases "NDIRECT < ?m'") auto
  qed
  have "holds (sect ?t) d' (C @ q)"
    by (rule holds_append [OF h _ keep _ q refl lx]) (use G pe' in \<open>auto simp: has_parts_def\<close>)
  moreover have "nmeta \<le> ?x" using xs rng(1) by auto
  then have "image_ok ?t" using image_write [OF iu x(2)] lx q(2) by (simp add: layout)
  moreover have "sectors_of (sect ?t) d' ?m' \<subseteq> {nmeta..<freeblock ?t} - F" unfolding se using rng by auto
  moreover have "F \<subseteq> {nmeta..<freeblock ?t}" using F(2) fu by auto
  ultimately have "file_at ?t F d' (C @ q)" using hp by (simp add: file_at_def)
  moreover have "sect ?t b = sect s b" if "b < nmeta \<or> b \<in> F" for b
  proof -
    have "b \<notin> sectors_of (sect u) d' ?m'" using that rng by auto
    then have "b \<noteq> ?x" "NDIRECT < ?m' \<Longrightarrow> b \<noteq> unat (d_addrs d' NDIRECT)" using xs by (auto simp: sectors_of_def)
    then show ?thesis using G by (cases "NDIRECT < ?m'") auto
  qed
  ultimately have "appended s F d ?n (?n + length q) d' ?t" "file_at ?t F d' (C @ q)" using G by (auto simp: appended_def)
  then show ?thesis using b image_okD(1) [OF iu x(1)] ux by (intro exI conjI) (auto simp: Let_def)
qed

lemma appended_trans:
  assumes "appended s F d n k d1 u" "appended u F d1 k n' d' t" "n \<le> k" "k \<le> n'"
  shows "appended s F d n n' d' t"
proof -
  have "nsectors (nparts n) \<le> nsectors (nparts k)" "nsectors (nparts k) \<le> nsectors (nparts n')"
    using assms(3,4) by (simp_all add: nsectors_mono nparts_mono)
  then show ?thesis using assms(1,2) by (auto simp: appended_def)
qed

lemma block_room: "(n div BSIZE + 1) * BSIZE - n = BSIZE - n mod BSIZE" "n mod BSIZE < BSIZE" "n - n div BSIZE * BSIZE = n mod BSIZE"
proof -
  have "(a + 1) * b - (a * b + r) = b - r" for a b r :: nat by simp
  from this [of "n div BSIZE" BSIZE "n mod BSIZE"] show "(n div BSIZE + 1) * BSIZE - n = BSIZE - n mod BSIZE" unfolding div_mult_mod_eq .
  show "n mod BSIZE < BSIZE" by (simp add: BSIZE_def)
  show "n - n div BSIZE * BSIZE = n mod BSIZE" by (rule minus_div_mult_eq_mod)
qed

lemma iappend_loop_step:
  assumes "p \<noteq> []" "unat off = n" "n div BSIZE < MAXFILE" "n1 = min (length p) ((n div BSIZE + 1) * BSIZE - n)"
    and "iappend_block d (n div BSIZE) s = Ok (d1, x) u" "rsect (unat x) u = Ok buf u"
  shows "iappend_loop d p off s = iappend_loop d1 (drop n1 p) (off + of_nat n1) (u\<lparr>img := (img u)(unat x \<mapsto> splice (n - n div BSIZE * BSIZE) (take n1 p) buf)\<rparr>)"
  using assms by (subst iappend_loop.simps) (simp add: Let_def)

lemma iappend_loop_effect:
  fixes s :: "'x mkimg_scheme"
  assumes "file_at s F d C" "length C + length p \<le> MAXFILE * BSIZE"
    and "freeblock s + (nsectors (nparts (length C + length p)) - nsectors (nparts (length C))) \<le> FSSIZE"
  shows "\<exists>d' t. iappend_loop d p (of_nat (length C)) s = Ok (d', of_nat (length C + length p)) t \<and>
    file_at t F d' (C @ p) \<and> appended s F d (length C) (length C + length p) d' t"
  using assms
proof (induction "length p" arbitrary: p s d C rule: less_induct)
  case less
  let ?n = "length C"
  show ?case
  proof (cases "p = []")
    case True
    then show ?thesis using less.prems(1) by (subst iappend_loop.simps) (auto simp: appended_def intro: exI [of _ "d_addrs d"])
  next
    case False
    define n1 where "n1 = min (length p) ((?n div BSIZE + 1) * BSIZE - ?n)"
    define q where "q = take n1 p"
    have u: "unat (of_nat ?n :: u32) = ?n" using less.prems(2) by (intro unat_of_nat_u32) (simp add: layout BSIZE_1024)
    note room = block_room [of ?n]
    have n1: "0 < n1" "n1 \<le> length p" "?n mod BSIZE + n1 \<le> BSIZE" using False room by (auto simp: n1_def)
    then have q: "q \<noteq> []" "length q = n1" "p = q @ drop n1 p" by (auto simp: q_def)
    have mono: "nsectors (nparts ?n) \<le> nsectors (nparts (?n + n1))" "nsectors (nparts (?n + n1)) \<le> nsectors (nparts (?n + length p))"
      using n1 by (simp_all add: nsectors_mono nparts_mono)
    have sp: "?n mod BSIZE + length q \<le> BSIZE" "?n + length q \<le> MAXFILE * BSIZE" "freeblock s + (nsectors (nparts (?n + length q)) - nsectors (nparts ?n)) \<le> FSSIZE"
      unfolding q(2) using n1 mono less.prems(2,3) by linarith+
    obtain d1 x s1 where b: "iappend_block d (?n div BSIZE) s = Ok (d1, x) s1" "rsect (unat x) s1 = Ok (sect s1 (unat x)) s1" and
      t: "file_at (s1\<lparr>img := (img s1)(unat x \<mapsto> splice (?n mod BSIZE) q (sect s1 (unat x)))\<rparr>) F d1 (C @ q)"
        "appended s F d ?n (?n + n1) d1 (s1\<lparr>img := (img s1)(unat x \<mapsto> splice (?n mod BSIZE) q (sect s1 (unat x)))\<rparr>)"
      using iappend_round [OF less.prems(1) q(1) sp] unfolding q(2) Let_def by blast
    define t where "t = s1\<lparr>img := (img s1)(unat x \<mapsto> splice (?n mod BSIZE) q (sect s1 (unat x)))\<rparr>"
    have fb: "freeblock t = freeblock s + (nsectors (nparts (?n + n1)) - nsectors (nparts ?n))" using t(2) by (simp add: appended_def t_def)
    have len: "length (C @ q) + length (drop n1 p) = ?n + length p" "length (C @ q) = ?n + n1" using n1 q(2) by auto
    have sz: "length (drop n1 p) < length p" using n1 by simp
    have mx: "length (C @ q) + length (drop n1 p) \<le> MAXFILE * BSIZE" unfolding len(1) by (fact less.prems(2))
    have sp': "freeblock t + (nsectors (nparts (length (C @ q) + length (drop n1 p))) - nsectors (nparts (length (C @ q)))) \<le> FSSIZE"
      unfolding len(1) unfolding len(2) fb using mono less.prems(3) by linarith
    from less.hyps [OF sz t(1) [folded t_def] mx sp']
    obtain d' v where v: "iappend_loop d1 (drop n1 p) (of_nat (?n + n1)) t = Ok (d', of_nat (?n + length p)) v" "file_at v F d' (C @ p)"
        "appended t F d1 (?n + n1) (?n + length p) d' v"
      unfolding len(1) unfolding len(2) append_assoc q(3) [symmetric] by blast
    have "?n < MAXFILE * BSIZE" using less.prems(2) False length_greater_0_conv [of p] by linarith
    then have "?n div BSIZE < MAXFILE" by (rule less_mult_imp_div_less)
    then have "iappend_loop d p (of_nat ?n) s = iappend_loop d1 (drop n1 p) (of_nat (?n + n1)) t"
      using iappend_loop_step [OF False u _ n1_def b] by (simp add: t_def room(3) q_def)
    moreover have "appended s F d ?n (?n + length p) d' v" using appended_trans [OF t(2) [folded t_def] v(3)] n1 by simp
    ultimately show ?thesis using v by auto
  qed
qed

section \<open>The image as a list of files\<close>

text \<open>Inode \<open>i\<close> of the image; the files are numbered from 1 in the order of their allocation, each with its type and contents.\<close>

definition inode_sector :: "nat \<Rightarrow> nat" where
  "inode_sector i = unat (IBLOCK (of_nat i) mk_superblock)"

definition ino :: "'x mkimg_scheme \<Rightarrow> nat \<Rightarrow> dinode" where
  "ino s i = read_dinode (of_nat i) (sect s (inode_sector i))"

definition parts :: "u16 \<times> u8 list \<Rightarrow> nat" where
  "parts f = nparts (length (snd f))"

definition file_in :: "'x mkimg_scheme \<Rightarrow> nat \<Rightarrow> u16 \<times> u8 list \<Rightarrow> bool" where
  "file_in s i f \<longleftrightarrow> d_type (ino s i) = fst f \<and> d_nlink (ino s i) = 1 \<and> d_size (ino s i) = of_nat (length (snd f)) \<and> length (snd f) \<le> MAXFILE * BSIZE \<and>
     has_parts (sect s) (ino s i) (parts f) \<and> holds (sect s) (ino s i) (snd f)"

definition file_sectors :: "'x mkimg_scheme \<Rightarrow> nat \<Rightarrow> u16 \<times> u8 list \<Rightarrow> nat set" where
  "file_sectors s i f = sectors_of (sect s) (ino s i) (parts f)"

definition used :: "(u16 \<times> u8 list) list \<Rightarrow> nat" where
  "used fs = sum_list (map (\<lambda>f. nsectors (parts f)) fs)"

definition store :: "'x mkimg_scheme \<Rightarrow> (u16 \<times> u8 list) list \<Rightarrow> bool" where
  "store s fs \<longleftrightarrow> image_ok s \<and> freeinode s = length fs + 1 \<and> length fs < NINODES \<and> freeblock s = nmeta + used fs \<and>
     (\<forall>i < length fs. file_in s (i + 1) (fs ! i) \<and> file_sectors s (i + 1) (fs ! i) \<subseteq> {nmeta..<freeblock s}) \<and>
     (\<forall>i < length fs. \<forall>j < length fs. i \<noteq> j \<longrightarrow> file_sectors s (i + 1) (fs ! i) \<inter> file_sectors s (j + 1) (fs ! j) = {})"

lemma superblock_fields: "sb_inodestart mk_superblock = 33" "sb_bmapstart mk_superblock = 46"
  by (simp_all add: mk_superblock_def layout)

lemma inode_sector: "i < 208 \<Longrightarrow> inode_sector i = i div 16 + 33"
proof -
  assume i: "i < 208"
  have "unat (of_nat i div of_nat IPB :: u32) = i div 16" using unat_div_IPB [of "of_nat i"] unat_of_nat_u32 [of i] i by (simp add: BSIZE_1024)
  then show ?thesis using i by (simp add: inode_sector_def IBLOCK_def superblock_fields unat_word_ariths)
qed

lemma inode_sector_meta: "i < 208 \<Longrightarrow> inode_sector i < 46" "i < 208 \<Longrightarrow> inode_sector i < nmeta"
  by (auto simp: inode_sector layout)

text \<open>A file is not affected by changes outside its sectors, nor by the entries of the inode that no code reads.\<close>

lemma file_frame:
  assumes p: "has_parts B d m" and B: "\<And>b. b \<in> sectors_of B d m \<Longrightarrow> B' b = B b" and e: "dinode_eq e d"
  shows "has_parts B' e m" "sectors_of B' e m = sectors_of B d m" "nparts (length C) = m \<Longrightarrow> holds B d C \<Longrightarrow> holds B' e C"
proof -
  have a: "d_addrs e i = d_addrs d i" if "i \<le> NDIRECT" for i using e that by (simp add: dinode_eq_def)
  have pt: "part B' e bn = part B d bn" if "bn < NDIRECT \<or> NDIRECT < m" for bn
    using that B [of "unat (d_addrs d NDIRECT)"] a by (auto simp: part_def sectors_of_def)
  then have pm: "part B' e bn = part B d bn" if "bn < m" for bn using that by (metis not_less_iff_gr_or_eq order.strict_trans)
  then have im: "part B' e ` {..<m} = part B d ` {..<m}" by (intro image_cong) auto
  have ij: "inj_on (part B' e) {..<m} = inj_on (part B d) {..<m}" using pm by (simp add: inj_on_def)
  have c1: "(\<forall>bn < NDIRECT. d_addrs e bn = 0 \<longleftrightarrow> m \<le> bn) \<longleftrightarrow> (\<forall>bn < NDIRECT. d_addrs d bn = 0 \<longleftrightarrow> m \<le> bn)" using a by simp
  have c2: "(NDIRECT < m \<longrightarrow> (\<forall>bn. NDIRECT \<le> bn \<and> bn < MAXFILE \<longrightarrow> (part B' e bn = 0 \<longleftrightarrow> m \<le> bn))) \<longleftrightarrow>
      (NDIRECT < m \<longrightarrow> (\<forall>bn. NDIRECT \<le> bn \<and> bn < MAXFILE \<longrightarrow> (part B d bn = 0 \<longleftrightarrow> m \<le> bn)))" using pt by simp
  show "has_parts B' e m" unfolding has_parts_def im ij a [OF order_refl] c1 c2 by (rule p [unfolded has_parts_def])
  show "sectors_of B' e m = sectors_of B d m" using a im by (simp add: sectors_of_def)
  show "holds B' e C" if m: "nparts (length C) = m" and h: "holds B d C"
    unfolding holds_def
  proof (intro allI impI)
    fix k assume k: "k < length C"
    then have "k div BSIZE < m" using nparts_bounds(1) [OF k] m by simp
    then show "B' (part B' e (k div BSIZE)) ! (k mod BSIZE) = C ! k" using h k pm B [of "part B d (k div BSIZE)"] by (simp add: holds_def sectors_of_def)
  qed
qed

lemma file_in_frame:
  assumes f: "file_in s i f" and B: "\<And>b. b \<in> file_sectors s i f \<Longrightarrow> sect t b = sect s b" and e: "dinode_eq (ino t i) (ino s i)"
  shows "file_in t i f" "file_sectors t i f = file_sectors s i f"
proof -
  have p: "has_parts (sect s) (ino s i) (parts f)" and h: "holds (sect s) (ino s i) (snd f)" using f by (simp_all add: file_in_def)
  have B': "sect t b = sect s b" if "b \<in> sectors_of (sect s) (ino s i) (parts f)" for b using B that by (simp add: file_sectors_def)
  have "sectors_of (sect t) (ino t i) (parts f) = sectors_of (sect s) (ino s i) (parts f)" by (rule file_frame(2) [OF p B' e])
  then show "file_sectors t i f = file_sectors s i f" by (simp add: file_sectors_def)
  have eqs: "d_type (ino t i) = d_type (ino s i)" "d_nlink (ino t i) = d_nlink (ino s i)" "d_size (ino t i) = d_size (ino s i)" using e unfolding dinode_eq_def by blast+
  have F: "has_parts (sect t) (ino t i) (parts f)" by (rule file_frame(1) [OF p B' e])
  have "holds (sect t) (ino t i) (snd f)" by (rule file_frame(3) [OF p B' e _ h]) (simp_all add: parts_def)
  then show "file_in t i f" using f F unfolding file_in_def eqs by blast
qed

text \<open>Writing an inode changes that inode only.\<close>

lemma dinode_eq_refl: "dinode_eq d d"
  by (simp add: dinode_eq_def)

lemma winode_effect:
  assumes i: "image_ok s" and n: "n < 208"
  shows "\<exists>t. winode (of_nat n) d s = Ok () t \<and> image_ok t \<and> dinode_eq (ino t n) d \<and> (\<forall>k < 208. k \<noteq> n \<longrightarrow> dinode_eq (ino t k) (ino s k)) \<and>
    (\<forall>b. b \<noteq> inode_sector n \<longrightarrow> sect t b = sect s b) \<and> freeblock t = freeblock s \<and> freeinode t = freeinode s"
proof -
  let ?b = "inode_sector n"
  let ?t = "s\<lparr>img := (img s)(?b \<mapsto> write_dinode (of_nat n) d (sect s ?b))\<rparr>"
  have b: "?b < FSSIZE" "?b < freeblock s" using inode_sector_meta [OF n] image_okD(3) [OF i] by (auto simp: layout)
  note len = image_okD(2) [OF i b(1)]
  have "winode (of_nat n) d s = Ok () ?t" using image_okD(1) [OF i b(1)] image_okD(6) [OF i] by (simp add: winode_def inode_sector_def)
  moreover have "image_ok ?t" using image_write [OF i b(2)] len inode_sector [OF n] by simp
  moreover have "dinode_eq (ino ?t n) d" using read_write_dinode [OF len] by (simp add: ino_def)
  moreover have "dinode_eq (ino ?t k) (ino s k)" if k: "k < 208" "k \<noteq> n" for k
  proof (cases "inode_sector k = ?b")
    case True
    have "unat (of_nat k :: u32) = k" "unat (of_nat n :: u32) = n" using k(1) n by (simp_all add: unat_of_nat_u32)
    then have "unat (of_nat k :: u32) mod IPB \<noteq> unat (of_nat n :: u32) mod IPB"
      using True k n by (metis BSIZE_1024(2) inode_sector add_right_cancel div_mult_mod_eq)
    then show ?thesis using read_write_dinode_other True by (simp add: ino_def)
  qed (simp add: ino_def dinode_eq_refl)
  ultimately show ?thesis by (intro exI [of _ ?t]) auto
qed

lemma rinode_apply: "image_ok s \<Longrightarrow> n < 208 \<Longrightarrow> rinode (of_nat n) s = Ok (ino s n) s"
  using image_okD(1) [of s "inode_sector n"] image_okD(6) [of s] inode_sector_meta [of n] by (simp add: rinode_def ino_def inode_sector_def layout)

lemma storeD:
  assumes "store s fs"
  shows "image_ok s" "freeinode s = length fs + 1" "length fs < NINODES" "freeblock s = nmeta + used fs"
    "i < length fs \<Longrightarrow> file_in s (i + 1) (fs ! i)" "i < length fs \<Longrightarrow> file_sectors s (i + 1) (fs ! i) \<subseteq> {nmeta..<freeblock s}"
    "i < length fs \<Longrightarrow> j < length fs \<Longrightarrow> i \<noteq> j \<Longrightarrow> file_sectors s (i + 1) (fs ! i) \<inter> file_sectors s (j + 1) (fs ! j) = {}"
  using assms unfolding store_def by blast+

lemma store_index: "store s fs \<Longrightarrow> i \<le> length fs \<Longrightarrow> i + 1 < 208"
  using storeD(3) by (fastforce simp: layout)

text \<open>A new, empty file.\<close>

lemma ialloc_store:
  fixes s :: "'x mkimg_scheme"
  assumes st: "store s fs" and n: "length fs + 1 < NINODES"
  shows "\<exists>t. mk_ialloc ty s = Ok (of_nat (length fs + 1)) t \<and> store t (fs @ [(ty, [])])"
proof -
  let ?n = "length fs + 1"
  let ?d = "\<lparr>d_type = ty, d_major = 0, d_minor = 0, d_nlink = 1, d_size = 0, d_addrs = (\<lambda>_. 0)\<rparr>" and ?s = "s\<lparr>freeinode := ?n + 1\<rparr>"
  have n208: "?n < 208" using n by (simp add: layout)
  have i: "image_ok ?s" using storeD(1) [OF st] by (simp add: image_ok_def)
  obtain t where t: "winode (of_nat ?n) ?d ?s = Ok () t" "image_ok t" "dinode_eq (ino t ?n) ?d" "\<And>k. k < 208 \<Longrightarrow> k \<noteq> ?n \<Longrightarrow> dinode_eq (ino t k) (ino ?s k)"
      "\<And>b. b \<noteq> inode_sector ?n \<Longrightarrow> sect t b = sect ?s b" "freeblock t = freeblock s" "freeinode t = ?n + 1"
    using winode_effect [OF i n208, of ?d] by auto
  have ino_s: "ino (s\<lparr>freeinode := x\<rparr>) k = ino s k" for x k by (simp add: ino_def)
  have old: "file_in t (k + 1) (fs ! k) \<and> file_sectors t (k + 1) (fs ! k) = file_sectors s (k + 1) (fs ! k)" if k: "k < length fs" for k
  proof -
    have "sect t b = sect s b" if "b \<in> file_sectors s (k + 1) (fs ! k)" for b
      using t(5) [of b] storeD(6) [OF st k] that inode_sector_meta(2) [OF n208] by fastforce
    moreover have "dinode_eq (ino t (k + 1)) (ino s (k + 1))" using t(4) [of "k + 1"] k n208 by (simp add: ino_s)
    ultimately show ?thesis using file_in_frame [OF storeD(5) [OF st k]] by blast
  qed
  have d0: "d_addrs (ino t ?n) bn = 0" if "bn \<le> NDIRECT" for bn using t(3) that by (simp add: dinode_eq_def)
  have p0: "parts (ty, []) = 0" by (simp add: parts_def nparts_def BSIZE_def)
  then have new: "file_in t ?n (ty, [])" "file_sectors t ?n (ty, []) = {}"
    using t(3) d0 by (auto simp: file_in_def file_sectors_def sectors_of_def has_parts_def holds_def dinode_eq_def)
  have "freeblock t = nmeta + used (fs @ [(ty, [])])" using storeD(4) [OF st] p0 t(6) by (simp add: used_def nsectors_def)
  then have "store t (fs @ [(ty, [])])"
    using t(2,7) n old new storeD(6,7) [OF st] t(6) unfolding store_def by (auto simp: nth_append less_Suc_eq)
  moreover have "mk_ialloc ty s = Ok (of_nat ?n) t" using t(1) storeD(2) [OF st] by (simp add: mk_ialloc_def)
  ultimately show ?thesis by blast
qed

text \<open>The abstract effect of appending.\<close>

definition add_bytes :: "nat \<Rightarrow> u8 list \<Rightarrow> (u16 \<times> u8 list) list \<Rightarrow> (u16 \<times> u8 list) list" where
  "add_bytes i p fs = fs[i := (fst (fs ! i), snd (fs ! i) @ p)]"

lemma used_add_bytes:
  assumes "i < length fs"
  shows "used (add_bytes i p fs) = used fs + (nsectors (nparts (length (snd (fs ! i)) + length p)) - nsectors (parts (fs ! i)))"
proof -
  have le: "nsectors (parts (fs ! i)) \<le> nsectors (nparts (length (snd (fs ! i)) + length p))" by (simp add: parts_def nsectors_mono nparts_mono)
  have "nsectors (parts (fs ! i)) \<le> used fs"
    using assms member_le_sum_list [of "nsectors (parts (fs ! i))" "map (\<lambda>f. nsectors (parts f)) fs"] by (simp add: used_def)
  then show ?thesis using assms le by (simp add: used_def add_bytes_def map_update sum_list_update) (simp add: parts_def)
qed

text \<open>\<open>iappend\<close> appends to one file and leaves the others alone.\<close>

lemma iappend_store:
  fixes s :: "'x mkimg_scheme"
  assumes st: "store s fs" and i: "i < length fs" and mx: "length (snd (fs ! i)) + length p \<le> MAXFILE * BSIZE"
    and space: "nmeta + used (add_bytes i p fs) \<le> FSSIZE"
  shows "\<exists>t. iappend (of_nat (i + 1)) p s = Ok () t \<and> store t (add_bytes i p fs)"
proof -
  let ?C = "snd (fs ! i)" and ?n = "i + 1"
  define F where "F = (\<Union>j \<in> {..<length fs} - {i}. file_sectors s (j + 1) (fs ! j))"
  have n208: "?n < 208" using store_index [OF st, of i] i by simp
  note fi = storeD(5) [OF st i]
  have size: "d_size (ino s ?n) = of_nat (length ?C)" using fi by (simp add: file_in_def)
  have F: "file_sectors s ?n (fs ! i) \<inter> F = {}" "F \<subseteq> {nmeta..<freeblock s}"
    using storeD(7) [OF st i] storeD(6) [OF st] unfolding F_def by fastforce+
  then have "file_at s F (ino s ?n) ?C"
    using storeD(1) [OF st] storeD(6) [OF st i] fi by (auto simp: file_at_def file_in_def file_sectors_def parts_def)
  moreover have sp: "freeblock s + (nsectors (nparts (length ?C + length p)) - nsectors (nparts (length ?C))) \<le> FSSIZE"
    using space storeD(4) [OF st] used_add_bytes [OF i, of p] by (simp add: parts_def)
  ultimately obtain d u where u: "iappend_loop (ino s ?n) p (of_nat (length ?C)) s = Ok (d, of_nat (length ?C + length p)) u"
      "file_at u F d (?C @ p)" "appended s F (ino s ?n) (length ?C) (length ?C + length p) d u"
    using iappend_loop_effect [OF _ mx] by blast
  let ?d = "d\<lparr>d_size := of_nat (length ?C + length p)\<rparr>"
  have iu: "image_ok u" using u(2) by (simp add: file_at_def)
  obtain t where t: "winode (of_nat ?n) ?d u = Ok () t" "image_ok t" "dinode_eq (ino t ?n) ?d" "\<And>k. k < 208 \<Longrightarrow> k \<noteq> ?n \<Longrightarrow> dinode_eq (ino t k) (ino u k)"
      "\<And>b. b \<noteq> inode_sector ?n \<Longrightarrow> sect t b = sect u b" "freeblock t = freeblock u" "freeinode t = freeinode u"
    using winode_effect [OF iu n208, of ?d] by auto
  have run: "iappend (of_nat ?n) p s = Ok () t"
    using u(1) t(1) rinode_apply [OF storeD(1) [OF st] n208] size by (simp add: iappend_def)
  have meta: "sect u b = sect s b" if "b < nmeta \<or> b \<in> F" for b using u(3) that unfolding appended_def by blast
  have sect_t: "sect t b = sect u b" if "nmeta \<le> b" for b using t(5) [of b] that inode_sector_meta(2) [OF n208] by fastforce
  have other: "file_in t (k + 1) (fs ! k) \<and> file_sectors t (k + 1) (fs ! k) = file_sectors s (k + 1) (fs ! k)" if k: "k < length fs" "k \<noteq> i" for k
  proof -
    have kF: "file_sectors s (k + 1) (fs ! k) \<subseteq> F" using k by (auto simp: F_def)
    have "sect t b = sect s b" if "b \<in> file_sectors s (k + 1) (fs ! k)" for b
    proof -
      have "b \<in> F" using that kF by blast
      moreover from this have "nmeta \<le> b" using F(2) by auto
      ultimately show ?thesis using sect_t meta by simp
    qed
    moreover have "ino u (k + 1) = ino s (k + 1)"
      using meta [of "inode_sector (k + 1)"] inode_sector_meta(2) [of "k + 1"] store_index [OF st, of k] k(1) by (simp add: ino_def)
    then have "dinode_eq (ino t (k + 1)) (ino s (k + 1))" using t(4) [of "k + 1"] store_index [OF st, of k] k by simp
    ultimately show ?thesis using file_in_frame [OF storeD(5) [OF st k(1)]] by blast
  qed
  let ?f = "(fst (fs ! i), ?C @ p)"
  have hp: "has_parts (sect u) d (parts ?f)" "holds (sect u) d (?C @ p)" "sectors_of (sect u) d (parts ?f) \<subseteq> {nmeta..<freeblock u} - F"
    using u(2) by (simp_all add: file_at_def parts_def)
  have de: "dinode_eq (ino t ?n) ?d" by (fact t(3))
  have hp': "has_parts (sect u) ?d (parts ?f)" "sectors_of (sect u) ?d (parts ?f) = sectors_of (sect u) d (parts ?f)" "holds (sect u) ?d (?C @ p)"
    using hp(1,2) by simp_all
  have B: "sect t b = sect u b" if "b \<in> sectors_of (sect u) ?d (parts ?f)" for b using that hp(3) sect_t [of b] unfolding hp'(2) by auto
  have new: "has_parts (sect t) (ino t ?n) (parts ?f)" "file_sectors t ?n ?f = sectors_of (sect u) d (parts ?f)" "holds (sect t) (ino t ?n) (?C @ p)"
    using file_frame(1) [OF hp'(1) B de] file_frame(2) [OF hp'(1) B de] file_frame(3) [OF hp'(1) B de _ hp'(3)] hp'(2) by (simp_all add: file_sectors_def parts_def)
  have d: "d_type d = fst (fs ! i)" "d_nlink d = 1" using fi u(3) by (auto simp: file_in_def appended_def)
  then have fin: "file_in t ?n ?f" using new mx de by (simp add: file_in_def dinode_eq_def)
  have fb: "freeblock t = nmeta + used (add_bytes i p fs)" "freeblock s \<le> freeblock t"
    using u(3) t(6) storeD(4) [OF st] used_add_bytes [OF i, of p] by (simp_all add: appended_def parts_def)
  have "file_in t (k + 1) (add_bytes i p fs ! k) \<and> file_sectors t (k + 1) (add_bytes i p fs ! k) \<subseteq> {nmeta..<freeblock t}" if k: "k < length fs" for k
    using other [of k] fin new(2) hp(3) k i t(6) storeD(6) [OF st k] fb(2) by (cases "k = i") (auto simp: add_bytes_def)
  moreover have "file_sectors t (j + 1) (add_bytes i p fs ! j) \<inter> file_sectors t (k + 1) (add_bytes i p fs ! k) = {}" if "j < length fs" "k < length fs" "j \<noteq> k" for j k
  proof -
    have dj: "file_sectors t ?n ?f \<inter> file_sectors t (k + 1) (fs ! k) = {}" if "k < length fs" "k \<noteq> i" for k
      using other [OF that] new(2) hp(3) that by (auto simp: F_def)
    then show ?thesis using other [of j] other [of k] storeD(7) [OF st that] dj [of j] dj [of k] that i
      by (cases "j = i"; cases "k = i") (auto simp: add_bytes_def)
  qed
  moreover have "length (add_bytes i p fs) = length fs" by (simp add: add_bytes_def)
  ultimately have "store t (add_bytes i p fs)"
    using t(2,7) fb(1) u(3) storeD(2,3) [OF st] by (simp add: store_def appended_def)
  then show ?thesis using run by blast
qed

section \<open>Copying files into the image\<close>

lemma add_bytes_simps [simp]:
  "length (add_bytes i p fs) = length fs" "i < length fs \<Longrightarrow> add_bytes i p fs ! i = (fst (fs ! i), snd (fs ! i) @ p)"
  "i < length fs \<Longrightarrow> add_bytes i q (add_bytes i p fs) = add_bytes i (p @ q) fs" "add_bytes i [] fs = fs"
  by (simp_all add: add_bytes_def)

lemma used_add_mono: "i < length fs \<Longrightarrow> used (add_bytes i p fs) \<le> used (add_bytes i (p @ q) fs)" "i < length fs \<Longrightarrow> used fs \<le> used (add_bytes i p fs)"
proof -
  assume i: "i < length fs"
  have "nsectors (nparts (length (snd (fs ! i)) + length p)) \<le> nsectors (nparts (length (snd (fs ! i)) + length (p @ q)))" by (simp add: nsectors_mono nparts_mono)
  then show "used (add_bytes i p fs) \<le> used (add_bytes i (p @ q) fs)" unfolding used_add_bytes [OF i] by linarith
  show "used fs \<le> used (add_bytes i p fs)" unfolding used_add_bytes [OF i] by simp
qed

lemma mk_copy_store:
  fixes s :: "'x mkimg_scheme"
  assumes "store s fs" "i < length fs" "length (snd (fs ! i)) + length bytes \<le> MAXFILE * BSIZE" "nmeta + used (add_bytes i bytes fs) \<le> FSSIZE"
  shows "\<exists>t. mk_copy (of_nat (i + 1)) bytes s = Ok () t \<and> store t (add_bytes i bytes fs)"
  using assms
proof (induction "length bytes" arbitrary: bytes s fs rule: less_induct)
  case less
  show ?case
  proof (cases "bytes = []")
    case True
    then show ?thesis using less.prems(1) by (subst mk_copy.simps) simp
  next
    case False
    let ?p = "take BSIZE bytes" and ?q = "drop BSIZE bytes"
    have pq: "?p @ ?q = bytes" by simp
    then have len: "length ?p + length ?q = length bytes" by (metis length_append)
    have "nmeta + used (add_bytes i ?p fs) \<le> FSSIZE" using used_add_mono(1) [OF less.prems(2), of ?p ?q] less.prems(4) unfolding pq by linarith
    then obtain u where u: "iappend (of_nat (i + 1)) ?p s = Ok () u" "store u (add_bytes i ?p fs)"
      using iappend_store [OF less.prems(1,2), of ?p] less.prems(3) len by fastforce
    have "length ?q < length bytes" using False by (simp add: BSIZE_def)
    moreover have "length (snd (add_bytes i ?p fs ! i)) + length ?q \<le> MAXFILE * BSIZE" using less.prems(2,3) len by simp
    moreover have "add_bytes i ?q (add_bytes i ?p fs) = add_bytes i bytes fs" using less.prems(2) by simp
    ultimately obtain t where "mk_copy (of_nat (i + 1)) ?q u = Ok () t" "store t (add_bytes i bytes fs)"
      using less.hyps [of ?q u "add_bytes i ?p fs"] u(2) less.prems(2,4) by auto
    then show ?thesis using u(1) False by (subst mk_copy.simps) auto
  qed
qed

text \<open>The entry for a file in the root directory, and what one argument adds to the image.\<close>

definition entry_name :: "u8 list \<Rightarrow> u8 list" where
  "entry_name arg = (let short = shortname arg in if short \<noteq> [] \<and> hd short = 95 then tl short else short)"

definition valid_arg :: "(u8 list \<Rightarrow> u8 list option) \<Rightarrow> u8 list \<Rightarrow> bool" where
  "valid_arg host arg \<longleftrightarrow> 47 \<notin> set (shortname arg) \<and> length (entry_name arg) \<le> DIRSIZ \<and>
     (case host arg of None \<Rightarrow> False | Some bytes \<Rightarrow> length bytes \<le> MAXFILE * BSIZE)"

definition put_file :: "(u8 list \<Rightarrow> u8 list option) \<Rightarrow> u8 list \<Rightarrow> (u16 \<times> u8 list) list \<Rightarrow> (u16 \<times> u8 list) list" where
  "put_file host arg fs = add_bytes 0 (mk_dirent (of_nat (length fs + 1)) (entry_name arg)) fs @ [(T_FILE, the (host arg))]"

lemma used_append: "used (fs @ gs) = used fs + used gs"
  by (simp add: used_def)

lemma length_mk_dirent [simp]: "length (mk_dirent i name) = 16"
  by (simp add: mk_dirent_def DIRSIZ_def)

lemma mk_file_store:
  fixes s :: "'x mkimg_scheme"
  assumes st: "store s fs" and fs: "fs \<noteq> []" "length fs + 1 < NINODES" "length (snd (fs ! 0)) + 16 \<le> MAXFILE * BSIZE"
    and arg: "valid_arg host arg" and space: "nmeta + used (put_file host arg fs) \<le> FSSIZE"
  shows "\<exists>t. mk_file 1 host arg s = Ok () t \<and> store t (put_file host arg fs)"
proof -
  let ?n = "length fs" and ?de = "mk_dirent (of_nat (length fs + 1)) (entry_name arg)"
  obtain bytes where b: "host arg = Some bytes" "length bytes \<le> MAXFILE * BSIZE" using arg by (auto simp: valid_arg_def split: option.splits)
  obtain t1 where t1: "mk_ialloc T_FILE s = Ok (of_nat (?n + 1)) t1" "store t1 (fs @ [(T_FILE, [])])" using ialloc_store [OF st fs(2)] by blast
  have f1: "add_bytes 0 ?de (fs @ [(T_FILE, [])]) = add_bytes 0 ?de fs @ [(T_FILE, [])]" using fs(1) by (simp add: add_bytes_def list_update_append1 nth_append)
  have f2: "add_bytes ?n bytes (add_bytes 0 ?de fs @ [(T_FILE, [])]) = put_file host arg fs"
    using b by (simp add: put_file_def add_bytes_def nth_append list_update_append)
  have lt: "?n < length (add_bytes 0 ?de fs @ [(T_FILE, [])])" by simp
  have sp: "nmeta + used (add_bytes 0 ?de fs @ [(T_FILE, [])]) \<le> FSSIZE"
    using space used_add_mono(2) [OF lt, of bytes] unfolding f2 by linarith
  obtain t2 where t2: "iappend (of_nat (0 + 1)) ?de t1 = Ok () t2" "store t2 (add_bytes 0 ?de fs @ [(T_FILE, [])])"
    using iappend_store [OF t1(2), of 0 ?de] fs sp unfolding f1 by (auto simp: nth_append)
  obtain t3 where t3: "mk_copy (of_nat (?n + 1)) bytes t2 = Ok () t3" "store t3 (put_file host arg fs)"
    using mk_copy_store [OF t2(2) lt, of bytes] b(2) space unfolding f2 by (auto simp: nth_append)
  have "mk_file 1 host arg s = Ok () t3"
    using t1(1) t2(1) t3(1) b(1) arg by (simp add: mk_file_def valid_arg_def entry_name_def Let_def)
  then show ?thesis using t3(2) by blast
qed

lemma fold_put_file:
  "length (fold (put_file host) args fs) = length fs + length args" "fs \<noteq> [] \<Longrightarrow> length (snd (fold (put_file host) args fs ! 0)) = length (snd (fs ! 0)) + 16 * length args"
proof (induction args arbitrary: fs)
  case (Cons a args)
  case 1
  show ?case using Cons(1) [of "put_file host a fs"] by (simp add: put_file_def)
  case 2
  then show ?case using Cons(2) [of "put_file host a fs"] by (simp add: put_file_def nth_append)
qed simp_all

lemma used_fold_put_file: "fs \<noteq> [] \<Longrightarrow> used fs \<le> used (fold (put_file host) args fs)"
proof (induction args arbitrary: fs)
  case (Cons a args)
  have "used fs \<le> used (put_file host a fs)" using used_add_mono(2) [of 0 fs] Cons.prems by (simp add: put_file_def used_append) (metis trans_le_add1)
  also have "\<dots> \<le> used (fold (put_file host) args (put_file host a fs))" by (rule Cons.IH) (simp add: put_file_def)
  finally show ?case by simp
qed simp

lemma mk_files_store:
  fixes s :: "'x mkimg_scheme"
  assumes "store s fs" "fs \<noteq> []" "length fs + length args < NINODES" "length (snd (fs ! 0)) + 16 * length args \<le> MAXFILE * BSIZE"
    and "\<forall>arg \<in> set args. valid_arg host arg" "nmeta + used (fold (put_file host) args fs) \<le> FSSIZE"
  shows "\<exists>t. for_each (mk_file 1 host) args s = Ok () t \<and> store t (fold (put_file host) args fs)"
  using assms
proof (induction args arbitrary: s fs)
  case (Cons a args)
  let ?f = "put_file host a fs"
  have ne: "?f \<noteq> []" "length ?f = length fs + 1" "length (snd (?f ! 0)) = length (snd (fs ! 0)) + 16"
    using Cons.prems(2) by (simp_all add: put_file_def nth_append)
  have "nmeta + used ?f \<le> FSSIZE" using Cons.prems(6) used_fold_put_file [OF ne(1), of host args] by simp
  then obtain u where u: "mk_file 1 host a s = Ok () u" "store u ?f"
    using mk_file_store [OF Cons.prems(1,2), of host a] Cons.prems(3,4,5) by auto
  obtain t where "for_each (mk_file 1 host) args u = Ok () t" "store t (fold (put_file host) args ?f)"
    using Cons.IH [OF u(2) ne(1)] Cons.prems(3-6) ne by auto
  then show ?case using u(1) by auto
qed auto

section \<open>The whole image\<close>

definition dots :: "u8 list" where
  "dots = mk_dirent 1 [46] @ mk_dirent 1 [46, 46]"

definition root_dir :: "u8 list list \<Rightarrow> u8 list" where
  "root_dir names = dots @ concat (map (\<lambda>k. mk_dirent (of_nat (k + 2)) (names ! k)) [0..<length names])"

definition image_files :: "(u8 list \<Rightarrow> u8 list option) \<Rightarrow> u8 list list \<Rightarrow> (u16 \<times> u8 list) list" where
  "image_files host args = (T_DIR, root_dir (map entry_name args)) # map (\<lambda>a. (T_FILE, the (host a))) args"

lemma root_dir_snoc: "root_dir (names @ [n]) = root_dir names @ mk_dirent (of_nat (length names + 2)) n"
proof -
  let ?g = "\<lambda>ns k. mk_dirent (of_nat (k + 2)) (ns ! k)"
  have "map (?g (names @ [n])) [0..<length names] = map (?g names) [0..<length names]" by (rule map_cong) (simp_all add: nth_append)
  moreover have "concat (map (?g (names @ [n])) [0..<length (names @ [n])]) = concat (map (?g (names @ [n])) [0..<length names]) @ ?g (names @ [n]) (length names)" by simp
  ultimately have "concat (map (?g (names @ [n])) [0..<length (names @ [n])]) = concat (map (?g names) [0..<length names]) @ ?g (names @ [n]) (length names)" by (simp only:)
  then show ?thesis unfolding root_dir_def by (simp only: append_assoc nth_append_length)
qed

lemma fold_put_file_image: "fold (put_file host) args [(T_DIR, dots)] = image_files host args"
proof (induction args rule: rev_induct)
  case (snoc a args)
  then show ?case by (simp add: put_file_def image_files_def add_bytes_def root_dir_snoc)
qed (simp add: image_files_def root_dir_def)

lemma length_root_dir: "length (root_dir names) = 16 * (length names + 2)"
  by (simp add: root_dir_def dots_def length_concat comp_def sum_list_triv)

definition fill :: "nat \<Rightarrow> u8 list \<Rightarrow> (nat \<Rightarrow> u8 list option) \<Rightarrow> nat \<Rightarrow> u8 list option" where
  "fill n z m = (\<lambda>b. if b < n then Some z else m b)"

lemma zero_sectors: "for_each (\<lambda>i. wsect i z) [0..<n] s = Ok () (s\<lparr>img := fill n z (img s)\<rparr>)"
proof (induction n)
  case (Suc n)
  have "fill (Suc n) z (img s) = (fill n z (img s))(n \<mapsto> z)" by (auto simp: fill_def fun_eq_iff)
  then show ?case using Suc by (simp add: for_each_append del: fun_upd_apply)
qed (simp add: fill_def)

lemma decode_encode_sb: "length bs = BSIZE \<Longrightarrow> decode_sb (encode_sb sb bs) = sb"
  by (cases sb) (simp add: decode_sb_def encode_sb_def BSIZE_1024)

lemma first_store:
  fixes s :: "'x mkimg_scheme"
  assumes "freeinode s = 1"
  shows "store (s\<lparr>msb := mk_superblock, freeblock := nmeta, img := (fill FSSIZE (replicate BSIZE 0) (img s))(1 \<mapsto> encode_sb mk_superblock (replicate BSIZE 0))\<rparr>) []"
proof -
  have "length (encode_sb mk_superblock (replicate BSIZE 0)) = BSIZE" by (simp add: encode_sb_def)
  then show ?thesis using assms decode_encode_sb [of "replicate BSIZE 0" mk_superblock]
    by (auto simp: store_def image_ok_def used_def sect_def fill_def layout)
qed

lemma bitmap_bits: "n \<le> BPB \<Longrightarrow> length (fold set_used [0..<n] (replicate BSIZE 0)) = BSIZE \<and> (b < BPB \<longrightarrow> bit_used b (fold set_used [0..<n] (replicate BSIZE 0)) = (b < n))"
proof (induction n)
  case 0
  have "b < BPB \<Longrightarrow> b div 8 < BSIZE" by (simp add: BSIZE_1024)
  then show ?case by (simp add: bit_used_def)
next
  case (Suc n)
  then show ?case using bit_set_clear(1) [of "fold set_used [0..<n] (replicate BSIZE 0)" n b] by auto
qed

text \<open>The end of \<open>main\<close>: the size of the root directory and the bitmap.\<close>

definition finish :: "('x mkimg_scheme, unit) kop" where
  "finish = kbind (rinode 1) (\<lambda>din. let off = (d_size din div of_nat BSIZE + 1) * of_nat BSIZE in
      kthen (winode 1 (din\<lparr>d_size := off\<rparr>)) (kbind (gets freeblock) mk_balloc))"

text \<open>The image after the files are in, before the size of the root directory is rounded up.\<close>

lemma mkfs_files:
  fixes s :: "'x mkimg_scheme"
  assumes "freeinode s = 1" "length args + 1 < NINODES" "\<forall>arg \<in> set args. valid_arg host arg" "nmeta + used (image_files host args) \<le> FSSIZE"
  shows "\<exists>u. store u (image_files host args) \<and> mkfs_main args host s = finish u"
proof -
  let ?e = "[(T_DIR, [])]" and ?f = "[(T_DIR, dots)]"
  define s0 where "s0 = s\<lparr>msb := mk_superblock, freeblock := nmeta, img := (fill FSSIZE (replicate BSIZE 0) (img s))(1 \<mapsto> encode_sb mk_superblock (replicate BSIZE 0))\<rparr>"
  have st0: "store s0 []" unfolding s0_def by (rule first_store [OF assms(1)])
  obtain s1 where s1: "mk_ialloc T_DIR s0 = Ok 1 s1" "store s1 ?e" using ialloc_store [OF st0, of T_DIR] by (auto simp: layout)
  have d: "length dots = 32" "length (mk_dirent 1 [46]) = 16" by (simp_all add: dots_def)
  have "used ?f \<le> used (image_files host args)" using used_fold_put_file [of ?f host args] by (simp add: fold_put_file_image)
  then have sp: "nmeta + used ?f \<le> FSSIZE" using assms(4) by linarith
  have a1: "add_bytes 0 (mk_dirent 1 [46]) ?e = [(T_DIR, mk_dirent 1 [46])]" "add_bytes 0 (mk_dirent 1 [46, 46]) [(T_DIR, mk_dirent 1 [46])] = ?f"
    by (simp_all add: add_bytes_def dots_def)
  have sp1: "nmeta + used [(T_DIR, mk_dirent 1 [46])] \<le> FSSIZE" using sp used_add_mono(2) [of 0 "[(T_DIR, mk_dirent 1 [46])]" "mk_dirent 1 [46, 46]"] unfolding a1(2) by simp
  obtain s2 where s2: "iappend 1 (mk_dirent 1 [46]) s1 = Ok () s2" "store s2 [(T_DIR, mk_dirent 1 [46])]"
    using iappend_store [OF s1(2), of 0 "mk_dirent 1 [46]"] sp1 unfolding a1(1) by (auto simp: layout BSIZE_1024)
  obtain s3 where s3: "iappend 1 (mk_dirent 1 [46, 46]) s2 = Ok () s3" "store s3 ?f"
    using iappend_store [OF s2(2), of 0 "mk_dirent 1 [46, 46]"] sp unfolding a1(2) by (auto simp: layout BSIZE_1024)
  obtain u where u: "for_each (mk_file 1 host) args s3 = Ok () u" "store u (image_files host args)"
    using mk_files_store [OF s3(2), of args host] assms(2-4) d(1) unfolding fold_put_file_image by (auto simp: layout BSIZE_1024)
  have "mkfs_main args host s = finish u"
    using s1(1) s2(1) s3(1) u(1) by (simp add: finish_def mkfs_main_def zero_sectors s0_def ROOTINO_def Let_def)
  then show ?thesis using u(2) by blast
qed

lemma finish_image:
  fixes u :: "'x mkimg_scheme"
  assumes st: "store u F" and ne: "F \<noteq> []"
  shows "\<exists>t. finish u = Ok () t \<and> decode_sb (sect t 1) = mk_superblock \<and> (\<forall>i < length F. i \<noteq> 0 \<longrightarrow> file_in t (i + 1) (F ! i)) \<and>
    d_type (ino t 1) = fst (F ! 0) \<and> holds (sect t) (ino t 1) (snd (F ! 0)) \<and> d_size (ino t 1) = (of_nat (length (snd (F ! 0))) div of_nat BSIZE + 1) * of_nat BSIZE \<and>
    (\<forall>b < BPB. bit_used b (sect t 46) \<longleftrightarrow> b < freeblock u) \<and> (\<forall>i < length F. file_sectors t (i + 1) (F ! i) = file_sectors u (i + 1) (F ! i))"
proof -
  note S = storeD [OF st]
  have f0: "file_in u 1 (F ! 0)" using S(5) [of 0] ne by simp
  define off where "off = (d_size (ino u 1) div of_nat BSIZE + 1) * of_nat BSIZE"
  let ?d = "(ino u 1)\<lparr>d_size := off\<rparr>"
  obtain v where v: "winode (of_nat 1) ?d u = Ok () v" "image_ok v" "dinode_eq (ino v 1) ?d" "\<And>k. k < 208 \<Longrightarrow> k \<noteq> 1 \<Longrightarrow> dinode_eq (ino v k) (ino u k)"
      "\<And>b. b \<noteq> inode_sector 1 \<Longrightarrow> sect v b = sect u b" "freeblock v = freeblock u"
    using winode_effect [OF S(1), of 1 ?d] by auto
  define t where "t = v\<lparr>img := (img v)(46 \<mapsto> fold set_used [0..<freeblock u] (replicate BSIZE 0))\<rparr>"
  have fbl: "freeblock u < BPB" "freeblock u \<le> BPB" using image_okD(4) [OF S(1)] by (simp_all add: layout BSIZE_1024)
  have "rinode 1 u = Ok (ino u 1) u" using rinode_apply [OF S(1), of 1] by simp
  then have run: "finish u = Ok () t"
    using v(1,6) fbl(1) image_okD(6) [OF v(2)] by (simp add: finish_def mk_balloc_def t_def superblock_fields off_def)
  have data: "sect t b = sect u b" if "nmeta \<le> b" for b using v(5) [of b] that inode_sector_meta [of 1] by (auto simp: t_def layout)
  have ino_t: "ino t k = ino v k" if "k < 208" for k using inode_sector_meta(1) [OF that] by (simp add: ino_def t_def)
  have keep: "sect t b = sect u b" if "i < length F" "b \<in> file_sectors u (i + 1) (F ! i)" for i b using S(6) [OF that(1)] that(2) data by auto
  have d1: "has_parts (sect u) ?d (parts (F ! 0))" "holds (sect u) ?d (snd (F ! 0))" unfolding size_irrelevant using f0 unfolding file_in_def by blast+
  have e1: "dinode_eq (ino t 1) ?d" using v(3) ino_t [of 1] by simp
  have k1: "sect t b = sect u b" if "b \<in> sectors_of (sect u) ?d (parts (F ! 0))" for b using keep [of 0] that ne by (simp add: file_sectors_def)
  have "file_sectors t 1 (F ! 0) = sectors_of (sect u) ?d (parts (F ! 0))" unfolding file_sectors_def by (rule file_frame(2) [OF d1(1) k1 e1])
  then have root: "file_sectors t 1 (F ! 0) = file_sectors u 1 (F ! 0)" by (simp add: file_sectors_def)
  have hold: "holds (sect t) (ino t 1) (snd (F ! 0))" by (rule file_frame(3) [OF d1(1) k1 e1 _ d1(2)]) (simp_all add: parts_def)
  have files: "file_in t (i + 1) (F ! i) \<and> file_sectors t (i + 1) (F ! i) = file_sectors u (i + 1) (F ! i)" if i: "i < length F" "i \<noteq> 0" for i
  proof -
    have i208: "i + 1 < 208" using store_index [OF st, of i] i by simp
    then have "dinode_eq (ino t (i + 1)) (ino u (i + 1))" using v(4) [of "i + 1"] ino_t [OF i208] i(2) by simp
    then show ?thesis using file_in_frame [OF S(5) [OF i(1)], of t] keep [OF i(1)] by blast
  qed
  have sz: "d_type (ino t 1) = fst (F ! 0)" "d_size (ino t 1) = (of_nat (length (snd (F ! 0))) div of_nat BSIZE + 1) * of_nat BSIZE"
    using e1 f0 by (simp_all add: dinode_eq_def file_in_def off_def)
  have bits: "bit_used b (sect t 46) \<longleftrightarrow> b < freeblock u" if "b < BPB" for b using bitmap_bits [OF fbl(2), of b] that by (simp add: t_def)
  have "file_sectors t (i + 1) (F ! i) = file_sectors u (i + 1) (F ! i)" if "i < length F" for i using root files [of i] that by (cases "i = 0") auto
  moreover have "decode_sb (sect t 1) = mk_superblock" using image_okD(7) [OF v(2)] by (simp add: t_def)
  ultimately show ?thesis using run files hold sz bits by blast
qed

text \<open>
  C35: mkfs builds the file system it is asked for. For file names that fit, files not longer than the
  format allows and enough room for them, it runs to its end, and the image has: the superblock, which
  \<open>readsb\<close> decodes; for each file an inode of its own with the file's bytes; a root directory whose entries name
  the files, dots first; and a bitmap in which exactly the boot, log, inode and bitmap blocks and the blocks
  of the files are used. No two files share a block.
\<close>
theorem mkfs_builds_image:
  fixes s :: "'x mkimg_scheme"
  assumes "freeinode s = 1" "length args + 1 < NINODES" "\<forall>arg \<in> set args. valid_arg host arg" "nmeta + used (image_files host args) \<le> FSSIZE"
  shows "\<exists>t. mkfs_main args host s = Ok () t \<and> decode_sb (sect t 1) = mk_superblock
    \<and> (\<forall>k < length args. file_in t (k + 2) (T_FILE, the (host (args ! k))))
    \<and> d_type (ino t 1) = T_DIR \<and> holds (sect t) (ino t 1) (root_dir (map entry_name args)) \<and> d_size (ino t 1) = of_nat ((length (root_dir (map entry_name args)) div BSIZE + 1) * BSIZE)
    \<and> (\<forall>b < BPB. bit_used b (sect t (unat (sb_bmapstart mk_superblock))) \<longleftrightarrow> b < nmeta + used (image_files host args))
    \<and> (\<forall>i \<le> length args. file_sectors t (i + 1) (image_files host args ! i) \<subseteq> {nmeta..<nmeta + used (image_files host args)})
    \<and> (\<forall>i \<le> length args. \<forall>j \<le> length args. i \<noteq> j \<longrightarrow> file_sectors t (i + 1) (image_files host args ! i) \<inter> file_sectors t (j + 1) (image_files host args ! j) = {})"
proof -
  let ?F = "image_files host args" and ?R = "root_dir (map entry_name args)"
  obtain u where st: "store u ?F" and run: "mkfs_main args host s = finish u" using mkfs_files [OF assms] by blast
  note S = storeD [OF st]
  have len: "length ?F = length args + 1" "?F ! 0 = (T_DIR, ?R)" by (simp_all add: image_files_def)
  have ne: "?F \<noteq> []" by (simp add: image_files_def)
  have lR: "length ?R = 16 * (length args + 2)" by (simp add: length_root_dir)
  have "unat (of_nat (length ?R) :: u32) = length ?R" "unat (of_nat BSIZE :: u32) = BSIZE"
    using assms(2) by (intro unat_of_nat_u32, simp add: lR layout, simp add: BSIZE_def)+
  then have dv: "of_nat (length ?R) div of_nat BSIZE = (of_nat (length ?R div BSIZE) :: u32)"
    using word_arith_nat_div [of "of_nat (length ?R) :: u32" "of_nat BSIZE"] by (simp only:)
  obtain t where t: "finish u = Ok () t" "decode_sb (sect t 1) = mk_superblock" "\<And>i. i < length ?F \<Longrightarrow> i \<noteq> 0 \<Longrightarrow> file_in t (i + 1) (?F ! i)"
      "d_type (ino t 1) = T_DIR" "holds (sect t) (ino t 1) ?R" "d_size (ino t 1) = (of_nat (length ?R) div of_nat BSIZE + 1) * of_nat BSIZE"
      "\<And>b. b < BPB \<Longrightarrow> bit_used b (sect t 46) \<longleftrightarrow> b < freeblock u" "\<And>i. i < length ?F \<Longrightarrow> file_sectors t (i + 1) (?F ! i) = file_sectors u (i + 1) (?F ! i)"
    using finish_image [OF st ne] unfolding len(2) fst_conv snd_conv by blast
  have r1: "file_in t (k + 2) (T_FILE, the (host (args ! k)))" if "k < length args" for k using t(3) [of "k + 1"] that by (simp add: image_files_def)
  have r2: "d_size (ino t 1) = of_nat ((length ?R div BSIZE + 1) * BSIZE)" using t(6) dv by (simp add: distrib_right)
  have r3: "bit_used b (sect t (unat (sb_bmapstart mk_superblock))) \<longleftrightarrow> b < nmeta + used ?F" if "b < BPB" for b
    using t(7) [OF that] S(4) by (simp add: superblock_fields)
  have r4: "file_sectors t (i + 1) (?F ! i) \<subseteq> {nmeta..<nmeta + used ?F}" if "i \<le> length args" for i using t(8) [of i] S(4) S(6) [of i] that len(1) by simp
  have r5: "file_sectors t (i + 1) (?F ! i) \<inter> file_sectors t (j + 1) (?F ! j) = {}" if "i \<le> length args" "j \<le> length args" "i \<noteq> j" for i j
    using t(8) [of i] t(8) [of j] S(7) [of i j] that len(1) by simp
  show ?thesis
  proof (intro exI conjI allI impI)
    show "mkfs_main args host s = Ok () t" using run t(1) by (simp only:)
  qed (fact t(2) t(4) t(5) r2 | erule (2) r5 | erule r1 r3 r4)+
qed


text \<open>An image with one file, \<open>user/_a\<close> of two bytes: it is named \<open>a\<close>, and two blocks are used for data.\<close>

theorem mkfs_builds_image_witness:
  "\<exists>t. mkfs_main [[117, 115, 101, 114, 47, 95, 97]] (\<lambda>_. Some [104, 105]) \<lparr>img = Map.empty, msb = mk_superblock, freeinode = 1, freeblock = 0\<rparr> = Ok () t
    \<and> file_in t 2 (T_FILE, [104, 105]) \<and> holds (sect t) (ino t 1) (root_dir [[97]]) \<and> d_size (ino t 1) = 1024 \<and> (\<forall>b < BPB. bit_used b (sect t 46) \<longleftrightarrow> b < 49)"
proof -
  let ?a = "[117, 115, 101, 114, 47, 95, 97] :: u8 list" and ?h = "\<lambda>_ :: u8 list. Some [104, 105 :: u8]"
  let ?s = "\<lparr>img = Map.empty, msb = mk_superblock, freeinode = 1, freeblock = 0\<rparr>"
  have name: "map entry_name [?a] = [[97]]" by (simp add: entry_name_def shortname_def)
  have used: "used (image_files ?h [?a]) = 2"
    unfolding image_files_def name by (simp add: used_def parts_def length_root_dir nparts_def nsectors_def BSIZE_1024 NDIRECT_def)
  have "valid_arg ?h ?a" by (simp add: valid_arg_def shortname_def entry_name_def layout BSIZE_1024 DIRSIZ_def)
  then obtain t where t: "mkfs_main [?a] ?h ?s = Ok () t" "\<forall>k < length [?a]. file_in t (k + 2) (T_FILE, the (?h ([?a] ! k)))" "holds (sect t) (ino t 1) (root_dir (map entry_name [?a]))"
      "d_size (ino t 1) = of_nat ((length (root_dir (map entry_name [?a])) div BSIZE + 1) * BSIZE)"
      "\<forall>b < BPB. bit_used b (sect t (unat (sb_bmapstart mk_superblock))) \<longleftrightarrow> b < nmeta + used (image_files ?h [?a])"
    using mkfs_builds_image [of ?s "[?a]" ?h] used by (simp add: layout) blast
  have "file_in t 2 (T_FILE, [104, 105])" using t(2) by (simp add: numeral_2_eq_2)
  moreover have "d_size (ino t 1) = 1024" using t(4) unfolding name by (simp add: length_root_dir BSIZE_1024)
  moreover have "\<forall>b < BPB. bit_used b (sect t 46) \<longleftrightarrow> b < 49" using t(5) used by (simp add: layout superblock_fields)
  ultimately show ?thesis using t(1,3) unfolding name by blast
qed

end
