(* ===== verification/Xv6_Tty.thy ===== *)
theory Xv6_Tty
  imports Xv6_Pipe
begin

text \<open>
  The line discipline of the console. The input buffer of console.c holds the lines that are complete
  and, behind them, the line being edited. The interrupt handler refines an editor on these two lists,
  and \<open>consoleread\<close> takes one line from the front.
\<close>

section \<open>Rings with an editable end\<close>

interpretation cons_ring: ring INPUT_BUF_SIZE
  by unfold_locales (simp_all add: INPUT_BUF_SIZE_def)

lemma ring_append:
  assumes "unat (w - r) + unat (e - w) < 2 ^ 32"
  shows "unat (e - r :: u32) = unat (w - r) + unat (e - w)" "ring_list N d r e = ring_list N d r w @ ring_list N d w e"
proof -
  have "unat ((w - r) + (e - w)) = unat (w - r) + unat (e - w)" by (rule unat_add_lem [THEN iffD1]) (use assms in simp)
  then show s: "unat (e - r) = unat (w - r) + unat (e - w)" by (simp add: algebra_simps)
  have "r + of_nat (unat (w - r) + k) = w + of_nat k" for k by simp
  then show "ring_list N d r e = ring_list N d r w @ ring_list N d w e"
    unfolding ring_list_def s by (intro nth_equalityI) (auto simp: nth_append ac_simps simp del: of_nat_add)
qed

lemma ring_last:
  assumes "e \<noteq> w"
  shows "ring_list N d w e = ring_list N d w (e - 1) @ [d (unat (e - 1) mod N)]" "unat (e - 1 - w) = unat (e - w) - 1"
proof -
  have "e - w \<noteq> 0" using assms by simp
  then have u: "unat (e - w - 1) = unat (e - w) - 1" by (rule Word.unat_minus_one)
  have pos: "0 < unat (e - w)" using \<open>e - w \<noteq> 0\<close> by (simp add: unat_gt_0)
  show p: "unat (e - 1 - w) = unat (e - w) - 1" using u by (simp add: algebra_simps)
  have "unat (e - (e - 1)) = 1" by simp
  moreover have "ring_list N d (e - 1) e = [d (unat (e - 1) mod N)]" using ring_front [of e "e - 1" N d] by simp
  moreover have "unat (e - w) < 2 ^ 32" using unsigned_less [where w = "e - w"] by simp
  ultimately show "ring_list N d w e = ring_list N d w (e - 1) @ [d (unat (e - 1) mod N)]"
    using ring_append(2) [of "e - 1" w e N d] p pos by simp
qed

section \<open>The abstract editor\<close>

text \<open>The bytes that can be read, and the line being edited.\<close>

type_synonym tty = "u8 list \<times> u8 list"

definition cons_view :: "'x kcons_scheme \<Rightarrow> tty" where
  "cons_view s = (ring_list INPUT_BUF_SIZE (cons_buf s) (cons_r s) (cons_w s), ring_list INPUT_BUF_SIZE (cons_buf s) (cons_w s) (cons_e s))"

definition cons_ok :: "'x kcons_scheme \<Rightarrow> bool" where
  "cons_ok s \<longleftrightarrow> length (fst (cons_view s)) + length (snd (cons_view s)) \<le> INPUT_BUF_SIZE \<and> 10 \<notin> set (snd (cons_view s))"

text \<open>Control-P prints the processes, control-U kills the line, backspace and delete take back a byte; a line is complete after a newline,
  after control-D and when the buffer is full.\<close>

definition line_edit :: "u8 \<Rightarrow> tty \<Rightarrow> tty" where
  "line_edit c v = (case v of (rdy, ed) \<Rightarrow>
     if c = 0x10 then (rdy, ed)
     else if c = 0x15 then (rdy, [])
     else if c = 0x08 \<or> c = 0x7f then (rdy, butlast ed)
     else if c = 0 \<or> INPUT_BUF_SIZE \<le> length rdy + length ed then (rdy, ed)
     else let ch = (if c = 13 then 10 else c); ed = ed @ [ch] in
       if ch = 10 \<or> ch = 4 \<or> length rdy + length ed = INPUT_BUF_SIZE then (rdy @ ed, []) else (rdy, ed))"

definition rubout :: "u8 list" where
  "rubout = [8, 32, 8]"

definition echo_of :: "u8 \<Rightarrow> tty \<Rightarrow> u8 list" where
  "echo_of c v = (case v of (rdy, ed) \<Rightarrow>
     if c = 0x15 then concat (replicate (length ed) rubout)
     else if c = 0x08 \<or> c = 0x7f then (if ed = [] then [] else rubout)
     else if c = 0 \<or> INPUT_BUF_SIZE \<le> length rdy + length ed then []
     else [if c = 13 then 10 else c])"

section \<open>The interrupt handler\<close>

text \<open>No lock is held.\<close>

definition quiet :: "'x kernel_scheme \<Rightarrow> bool" where
  "quiet s \<longleftrightarrow> irq_state_ok s \<and> (\<forall>l. lock_free l (locks s))"

lemma quietD:
  assumes "quiet s"
  shows "irq_state_ok s" "lock_free l (locks s)"
  using assms by (simp_all add: quiet_def)

lemma quiet_settle [simp]: "quiet (settle s) = quiet s"
  by (simp add: quiet_def)

lemma acquired_kcons [simp]:
  "cons_buf (acquired l s) = cons_buf s" "cons_r (acquired l s) = cons_r s" "cons_w (acquired l s) = cons_w s" "cons_e (acquired l s) = cons_e s"
  "uart_out (acquired l s) = uart_out s" "uart_in (acquired l s) = uart_in s"
  by (simp_all add: acquired_def)

lemma acquired_upd_kcons:
  "(acquired l s)\<lparr>cons_e := x\<rparr> = acquired l (s\<lparr>cons_e := x\<rparr>)" "(acquired l s)\<lparr>cons_w := x\<rparr> = acquired l (s\<lparr>cons_w := x\<rparr>)"
  "(acquired l s)\<lparr>cons_r := x\<rparr> = acquired l (s\<lparr>cons_r := x\<rparr>)" "(acquired l s)\<lparr>cons_buf := b, cons_e := x\<rparr> = acquired l (s\<lparr>cons_buf := b, cons_e := x\<rparr>)"
  "(acquired l s)\<lparr>uart_out := y\<rparr> = acquired l (s\<lparr>uart_out := y\<rparr>)"
  by (cases s; simp add: acquired_def)+

lemma quiet_upd [simp]:
  "quiet (s\<lparr>cons_e := x\<rparr>) = quiet s" "quiet (s\<lparr>cons_w := x\<rparr>) = quiet s" "quiet (s\<lparr>cons_r := x\<rparr>) = quiet s"
  "quiet (s\<lparr>cons_buf := b\<rparr>) = quiet s" "quiet (s\<lparr>uart_out := y\<rparr>) = quiet s" "quiet (s\<lparr>procs := ps\<rparr>) = quiet s"
  by (simp_all add: quiet_def irq_state_ok_def)

lemma putc_sync_effect:
  assumes "irq_state_ok s" "0 < noff (cpus s (tp s))"
  shows "uartputc_sync c s = Ok () (s\<lparr>uart_out := uart_out s @ [c]\<rparr>)"
proof -
  have "kthen push_off (kthen (write_thr c) pop_off) s = Ok () (settle (s\<lparr>uart_out := uart_out s @ [c]\<rparr>))"
    using assms(1) by (cases s) (simp add: state_simps irq_state_ok_def settle_def irq_ok_def write_thr_def)
  then show ?thesis using settle_nested [of "s\<lparr>uart_out := uart_out s @ [c]\<rparr>"] assms(2) by (simp add: uartputc_sync_def)
qed

text \<open>The bytes one call of \<open>consputc\<close> sends.\<close>

definition con_bytes :: "nat \<Rightarrow> u8 list" where
  "con_bytes c = (if c = BACKSPACE then rubout else [of_nat c])"

lemma consputc_effect:
  assumes "irq_state_ok s" "0 < noff (cpus s (tp s))"
  shows "consputc c s = Ok () (s\<lparr>uart_out := uart_out s @ con_bytes c\<rparr>)"
proof -
  have p: "uartputc_sync x (s\<lparr>uart_out := y\<rparr>) = Ok () (s\<lparr>uart_out := y @ [x]\<rparr>)" for x y
    using putc_sync_effect [of "s\<lparr>uart_out := y\<rparr>" x] assms by (simp add: irq_state_ok_def)
  then show ?thesis using putc_sync_effect [OF assms] by (simp add: consputc_def con_bytes_def rubout_def)
qed

lemma consputs_effect:
  assumes "irq_state_ok s" "0 < noff (cpus s (tp s))"
  shows "for_each consputc cs s = Ok () (s\<lparr>uart_out := uart_out s @ concat (map con_bytes cs)\<rparr>)"
  using assms
proof (induction cs arbitrary: s)
  case (Cons c cs)
  have "irq_state_ok (s\<lparr>uart_out := y\<rparr>)" for y using Cons.prems(1) by (simp add: irq_state_ok_def)
  then show ?case using Cons.IH [of "s\<lparr>uart_out := uart_out s @ con_bytes c\<rparr>"] Cons.prems consputc_effect [OF Cons.prems, of c] by simp
qed simp

lemma inside:
  assumes "quiet s"
  shows "irq_state_ok (acquired l s)" "0 < noff (cpus (acquired l s) (tp (acquired l s)))"
  using irq_state_ok_acquired [OF quietD(1) [OF assms]] irq_okD(2) [OF quietD(1) [OF assms]] by (simp_all add: acquired_def)

lemma consputc_inside:
  assumes "quiet s"
  shows "consputc c (acquired l s) = Ok () (acquired l (s\<lparr>uart_out := uart_out s @ con_bytes c\<rparr>))"
  using consputc_effect [OF inside [OF assms]] by (simp add: acquired_upd_kcons)

text \<open>Killing the line erases the whole line being edited: it has no newline.\<close>

definition erased :: "nat \<Rightarrow> 'x kcons_scheme \<Rightarrow> 'x kcons_scheme" where
  "erased n s = s\<lparr>uart_out := uart_out s @ concat (replicate n rubout), cons_e := cons_e s - of_nat n\<rparr>"

lemma erase_step:
  "erased n (s\<lparr>uart_out := uart_out s @ rubout, cons_e := cons_e s - 1\<rparr>) = erased (Suc n) s"
  by (cases s) (simp add: erased_def algebra_simps)

lemma erase_order: "s\<lparr>cons_e := x, uart_out := y\<rparr> = s\<lparr>uart_out := y, cons_e := x\<rparr>"
  by (cases s) simp

lemma kill_line_inside:
  assumes "quiet s" "10 \<notin> set (snd (cons_view s))" "n = unat (cons_e s - cons_w s)"
  shows "kill_line n (acquired l s) = Ok () (acquired l (erased n s)) \<and> cons_e (erased n s) = cons_w s"
  using assms
proof (induction n arbitrary: s)
  case 0
  then have "cons_e s = cons_w s" by (simp add: unat_eq_zero)
  moreover have "erased 0 s = s" by (cases s) (simp add: erased_def)
  ultimately show ?case by simp
next
  case (Suc n)
  let ?t = "s\<lparr>cons_e := cons_e s - 1\<rparr>"
  let ?u = "s\<lparr>uart_out := uart_out s @ rubout, cons_e := cons_e s - 1\<rparr>"
  have ne: "cons_e s \<noteq> cons_w s" using Suc.prems(3) by auto
  note L = ring_last [OF ne]
  have c: "cons_buf s (unat (cons_e s - 1) mod INPUT_BUF_SIZE) \<noteq> 10" using Suc.prems(2) L(1) [of INPUT_BUF_SIZE "cons_buf s"] by (auto simp: cons_view_def)
  then have nl: "unat (cons_buf s (unat (cons_e s - 1) mod INPUT_BUF_SIZE)) \<noteq> NL" using word_unat_eq_iff [of _ "10 :: u8"] by (simp add: NL_def)
  have "consputc BACKSPACE (acquired l ?t) = Ok () (acquired l ?u)"
    using consputc_inside [of ?t BACKSPACE l] Suc.prems(1) by (simp add: con_bytes_def erase_order)
  then have "kill_line (Suc n) (acquired l s) = kill_line n (acquired l ?u)" using ne nl by (simp add: acquired_upd_kcons)
  moreover have "10 \<notin> set (snd (cons_view ?u))" using Suc.prems(2) L(1) [of INPUT_BUF_SIZE "cons_buf s"] by (simp add: cons_view_def)
  moreover have "n = unat (cons_e ?u - cons_w ?u)" using L(2) Suc.prems(3) by simp
  ultimately show ?case using Suc.IH [of ?u] Suc.prems(1) by (simp add: erase_step)
qed

text \<open>Control-P.\<close>

lemma printk_inside:
  assumes r: "quiet s" and f: "format (asc fmt) as = Some out" and l: "l \<noteq> L_pr"
  shows "printk fmt as (acquired l s) = Ok () (acquired l (s\<lparr>uart_out := uart_out s @ concat (map con_bytes out)\<rparr>))"
proof -
  let ?t = "s\<lparr>uart_out := uart_out s @ concat (map con_bytes out)\<rparr>"
  have "lock_free L_pr (locks (acquired l s))" using quietD(2) [OF r] l by simp
  then have a: "acquire L_pr (acquired l s) = Ok () (acquired L_pr (acquired l s))" by (rule acquire_acquired)
  have i: "irq_state_ok (acquired L_pr (acquired l s))" "0 < noff (cpus (acquired L_pr (acquired l s)) (tp (acquired L_pr (acquired l s))))"
    using irq_state_ok_acquired [OF inside(1) [OF r]] inside(2) [OF r, of l] by (simp_all add: acquired_def)
  have "release L_pr (acquired L_pr (acquired l ?t)) = Ok () (acquired l ?t)"
    using release_second(1) [of ?t L_pr l] quietD [of ?t] r l by simp
  then show ?thesis using a consputs_effect [OF i] f by (simp add: printk_def acquired_upd_kcons)
qed

lemma procdump_one_inside:
  assumes r: "quiet s" and l: "l \<noteq> L_pr"
  shows "\<exists>out. procdump_one p (acquired l s) = Ok () (acquired l (s\<lparr>uart_out := uart_out s @ out\<rparr>))"
proof -
  let ?q = "procs s p"
  let ?as = "[Num (word_of_int (pid ?q)), Str (Some (asc (state_name (state ?q)))), Str (Some (map unat (takeWhile (\<lambda>c. c \<noteq> 0) (pname ?q))))]"
  have "\<exists>out. format (asc ''%d %s %s'') ?as = Some out"
    by (simp add: asc_def directive_def pr_num_def at0_def Let_def)
  then obtain out where out: "format (asc ''%d %s %s'') ?as = Some out" ..
  have nl: "format (asc [CHR 0x0A]) [] = Some [10]" by (simp add: asc_def)
  let ?t = "s\<lparr>uart_out := uart_out s @ concat (map con_bytes out)\<rparr>"
  have "quiet ?t" using r by simp
  then show ?thesis
    using printk_inside [OF r out l] printk_inside [of ?t, OF _ nl l]
    by (auto simp: procdump_one_def get_proc_def intro: exI [of _ "[]"])
qed

lemma procdump_inside:
  assumes "quiet s" "l \<noteq> L_pr"
  shows "\<exists>out. procdump (acquired l s) = Ok () (acquired l (s\<lparr>uart_out := uart_out s @ out\<rparr>))"
proof -
  have all: "\<exists>out. for_each procdump_one ps (acquired l s) = Ok () (acquired l (s\<lparr>uart_out := uart_out s @ out\<rparr>))" if "quiet s" for ps and s :: "'a kcons_scheme"
    using that
  proof (induction ps arbitrary: s)
    case Nil
    then show ?case by (auto intro: exI [of _ "[]"])
  next
    case (Cons p ps)
    obtain out where out: "procdump_one p (acquired l s) = Ok () (acquired l (s\<lparr>uart_out := uart_out s @ out\<rparr>))"
      using procdump_one_inside [OF Cons.prems assms(2), of p] ..
    have "quiet (s\<lparr>uart_out := uart_out s @ out\<rparr>)" using Cons.prems by simp
    from Cons.IH [OF this] show ?case using out by auto
  qed
  have nl: "format (asc [CHR 0x0A]) [] = Some [10]" by (simp add: asc_def)
  have "quiet (s\<lparr>uart_out := uart_out s @ concat (map con_bytes [10])\<rparr>)" using assms by simp
  from all [OF this, of "[0..<NPROC]"] show ?thesis using printk_inside [OF assms(1) nl assms(2)] by (auto simp: procdump_def simp del: upt_Suc)
qed

lemma view_length: "fst (cons_view s) = rdy \<Longrightarrow> snd (cons_view s) = ed \<Longrightarrow> length rdy + length ed \<le> INPUT_BUF_SIZE \<Longrightarrow>
   unat (cons_e s - cons_r s) = length rdy + length ed"
  using ring_append(1) [of "cons_w s" "cons_r s" "cons_e s"] by (auto simp: cons_view_def INPUT_BUF_SIZE_def)

lemma ctrl: "Ctrl (CHR ''P'') = 16" "Ctrl (CHR ''U'') = 21" "Ctrl (CHR ''H'') = 8" "Ctrl (CHR ''D'') = 4"
  by (simp_all add: Ctrl_def)

lemma u8_is: "unat (c :: u8) = 16 \<longleftrightarrow> c = 16" "unat c = 21 \<longleftrightarrow> c = 21" "unat c = 8 \<longleftrightarrow> c = 8" "unat c = 4 \<longleftrightarrow> c = 4" "unat c = NL \<longleftrightarrow> c = 10"
  by (simp_all add: word_unat_eq_iff NL_def)

text \<open>Storing a byte in a buffer that is not full, and completing the line.\<close>

definition typed :: "u8 \<Rightarrow> 'x kcons_scheme \<Rightarrow> 'x kcons_scheme" where
  "typed c s = s\<lparr>uart_out := uart_out s @ [c], cons_buf := (cons_buf s)(unat (cons_e s) mod INPUT_BUF_SIZE := c), cons_e := cons_e s + 1\<rparr>"

lemma typed_view:
  assumes "cons_view s = (rdy, ed)" "length rdy + length ed < INPUT_BUF_SIZE"
  shows "cons_view (typed c s) = (rdy, ed @ [c])"
proof -
  let ?N = INPUT_BUF_SIZE and ?b = "(cons_buf s)(unat (cons_e s) mod INPUT_BUF_SIZE := c)"
  have d: "ring_list ?N (cons_buf s) (cons_r s) (cons_w s) = rdy" "ring_list ?N (cons_buf s) (cons_w s) (cons_e s) = ed"
    using assms(1) by (simp_all add: cons_view_def)
  have er: "unat (cons_e s - cons_r s) = length rdy + length ed" using view_length [of s rdy ed] assms by simp
  have ll: "unat (cons_w s - cons_r s) = length rdy" "unat (cons_e s - cons_w s) = length ed" using d by auto
  have ed: "ring_list ?N ?b (cons_w s) (cons_e s + 1) = ed @ [c]"
    using cons_ring.put(1) [of "cons_e s" "cons_w s" "cons_buf s" c] ll d(2) assms(2) by simp
  have small: "unat (cons_w s - cons_r s) + unat (cons_e s - cons_w s) < 2 ^ 32" using ll assms(2) by (simp add: INPUT_BUF_SIZE_def)
  have "ring_list ?N (cons_buf s) (cons_r s) (cons_e s) = rdy @ ed" using ring_append(2) [OF small, of ?N "cons_buf s"] unfolding d .
  then have all: "ring_list ?N ?b (cons_r s) (cons_e s + 1) = (rdy @ ed) @ [c]"
    using cons_ring.put(1) [of "cons_e s" "cons_r s" "cons_buf s" c] er assms(2) by (simp del: fun_upd_apply)
  have "unat (cons_e s + 1 - cons_w s) = Suc (length ed)"
    using cons_ring.put(2) [of "cons_e s" "cons_w s"] ll assms(2) by simp
  then have "unat (cons_w s - cons_r s) + unat (cons_e s + 1 - cons_w s) < 2 ^ 32" using ll assms(2) by (simp add: INPUT_BUF_SIZE_def)
  from ring_append(2) [OF this, of ?N ?b] have "ring_list ?N ?b (cons_r s) (cons_w s) = rdy" unfolding all ed by simp
  then show ?thesis using ed by (simp add: cons_view_def typed_def del: fun_upd_apply)
qed

lemma commit_view:
  assumes "cons_view s = (rdy, ed)" "length rdy + length ed \<le> INPUT_BUF_SIZE"
  shows "cons_view (s\<lparr>cons_w := cons_e s\<rparr>) = (rdy @ ed, [])"
  using assms ring_append(2) [of "cons_w s" "cons_r s" "cons_e s" INPUT_BUF_SIZE "cons_buf s"]
  by (auto simp: cons_view_def INPUT_BUF_SIZE_def)

lemma wakeup_cons_inside:
  fixes s :: "'x kcons_scheme"
  assumes "quiet s"
  shows "wakeup Chan_cons (acquired L_cons s) = Ok () (acquired L_cons (s\<lparr>procs := wakeup_table (cproc (cpus s (tp s))) Chan_cons (procs s)\<rparr>))"
proof -
  have "proc_locks_free (acquired L_cons s)" using quietD(2) [OF assms] by (simp add: proc_locks_free_def)
  moreover have "cproc (cpus (acquired L_cons s) (tp (acquired L_cons s))) = cproc (cpus s (tp s))" by (simp add: acquired_def)
  ultimately show ?thesis using wakeup_nested [OF inside [OF assms]] by (simp add: acquired_upd_procs)
qed

lemma release_cons: "quiet u \<Longrightarrow> release L_cons (acquired L_cons u) = Ok () (settle u)"
  using release_acquired [of u L_cons] quietD [of u] by simp

lemma acquire_cons: "quiet s \<Longrightarrow> acquire L_cons s = Ok () (acquired L_cons s)"
  using acquire_acquired [of L_cons s] quietD [of s] by simp

lemma intr_print:
  assumes "quiet s"
  shows "\<exists>out. consoleintr 16 s = Ok () (settle (s\<lparr>uart_out := uart_out s @ out\<rparr>))"
proof -
  obtain out where "procdump (acquired L_cons s) = Ok () (acquired L_cons (s\<lparr>uart_out := uart_out s @ out\<rparr>))"
    using procdump_inside [OF assms, of L_cons] by auto
  then show ?thesis using acquire_cons [OF assms] release_cons [of "s\<lparr>uart_out := uart_out s @ out\<rparr>"] assms by (auto simp: consoleintr_def ctrl)
qed

lemma intr_kill:
  assumes "quiet s" "10 \<notin> set (snd (cons_view s))"
  shows "consoleintr 21 s = Ok () (settle (erased (length (snd (cons_view s))) s)) \<and> cons_e (erased (length (snd (cons_view s))) s) = cons_w s"
proof -
  have l: "length (snd (cons_view s)) = unat (cons_e s - cons_w s)" by (simp add: cons_view_def)
  have "quiet (erased n s)" for n using assms(1) by (simp add: erased_def)
  then show ?thesis using kill_line_inside [OF assms l, of L_cons] acquire_cons [OF assms(1)] by (simp add: consoleintr_def ctrl l release_cons)
qed

lemma intr_erase:
  assumes "quiet s" "c = 8 \<or> c = 0x7f"
  shows "consoleintr c s = Ok () (settle (if snd (cons_view s) = [] then s else erased 1 s))"
proof -
  have "length (snd (cons_view s)) = unat (cons_e s - cons_w s)" by (simp add: cons_view_def)
  then have e: "snd (cons_view s) = [] \<longleftrightarrow> cons_e s = cons_w s" by (metis length_0_conv unat_eq_zero right_minus_eq)
  have c: "unat c \<noteq> 16" "unat c \<noteq> 21" "unat c = 8 \<or> c = 0x7f" using assms(2) by auto
  let ?t = "s\<lparr>cons_e := cons_e s - 1\<rparr>"
  have "consputc BACKSPACE (acquired L_cons ?t) = Ok () (acquired L_cons (erased 1 s))"
    using consputc_inside [of ?t BACKSPACE L_cons] assms(1) by (simp add: con_bytes_def erase_order erased_def)
  moreover have "quiet (erased 1 s)" using assms(1) by (simp add: erased_def)
  ultimately show ?thesis using c acquire_cons [OF assms(1)] release_cons assms(1)
    by (auto simp: consoleintr_def ctrl e acquired_upd_kcons)
qed

definition plain :: "u8 \<Rightarrow> bool" where
  "plain c \<longleftrightarrow> c \<notin> {0x10, 0x15, 0x08, 0x7f}"

lemma intr_ignored:
  assumes "quiet s" "plain c" "c = 0 \<or> INPUT_BUF_SIZE \<le> unat (cons_e s - cons_r s)"
  shows "consoleintr c s = Ok () (settle s)"
  using assms acquire_cons [OF assms(1)] release_cons [OF assms(1)] by (auto simp: consoleintr_def ctrl plain_def u8_is)

lemma intr_typed:
  assumes "quiet s" "plain c" "c \<noteq> 0" "unat (cons_e s - cons_r s) < INPUT_BUF_SIZE" "ch = (if c = 13 then 10 else c)"
  shows "consoleintr c s = Ok () (settle (let u = typed ch s in
    if ch = 10 \<or> ch = 4 \<or> unat (cons_e u - cons_r s) = INPUT_BUF_SIZE
    then u\<lparr>cons_w := cons_e u, procs := wakeup_table (cproc (cpus s (tp s))) Chan_cons (procs s)\<rparr> else u))"
proof -
  define u where "u = typed ch s"
  define w where "w = u\<lparr>cons_w := cons_e u, procs := wakeup_table (cproc (cpus s (tp s))) Chan_cons (procs s)\<rparr>"
  have r: "quiet u" "quiet w" using assms(1) by (simp_all add: u_def w_def typed_def)
  have cc: "unat c \<noteq> 16" "unat c \<noteq> 21" "unat c \<noteq> 8" "c \<noteq> 0x7f" using assms(2) by (auto simp: plain_def u8_is)
  have "unat ch \<noteq> BACKSPACE" using unsigned_less [where ?'a = nat and w = ch] by (simp add: BACKSPACE_def)
  then have echo: "consputc (unat ch) (acquired L_cons s) = Ok () (acquired L_cons (s\<lparr>uart_out := uart_out s @ [ch]\<rparr>))"
    using consputc_inside [OF assms(1), of "unat ch" L_cons] by (simp add: con_bytes_def)
  have put: "acquired L_cons (s\<lparr>uart_out := uart_out s @ [ch], cons_buf := (cons_buf s)(unat (cons_e s) mod INPUT_BUF_SIZE := ch), cons_e := cons_e s + 1\<rparr>) = acquired L_cons u"
    by (simp add: typed_def u_def)
  have wake: "wakeup Chan_cons (acquired L_cons (u\<lparr>cons_w := cons_e u\<rparr>)) = Ok () (acquired L_cons w)"
    using wakeup_cons_inside [of "u\<lparr>cons_w := cons_e u\<rparr>"] r by (simp add: w_def) (simp add: u_def typed_def)
  have "cons_r u = cons_r s" by (simp add: u_def typed_def)
  then have "consoleintr c s = Ok () (settle (if ch = 10 \<or> ch = 4 \<or> unat (cons_e u - cons_r s) = INPUT_BUF_SIZE then w else u))"
    using cc assms(3,4) acquire_cons [OF assms(1)] echo put wake release_cons [OF r(1)] release_cons [OF r(2)]
    unfolding consoleintr_def assms(5) [symmetric] by (simp add: ctrl u8_is Let_def acquired_upd_kcons del: fun_upd_apply flip: assms(5))
  then show ?thesis by (simp only: w_def u_def Let_def)
qed

text \<open>What the handler may change: the input buffer, the echo, and the state of sleeping processes.\<close>

definition tty_step :: "'x kcons_scheme \<Rightarrow> 'x kcons_scheme \<Rightarrow> bool" where
  "tty_step s t \<longleftrightarrow> t\<lparr>procs := procs s, uart_out := uart_out s, cons_buf := cons_buf s, cons_w := cons_w s, cons_e := cons_e s\<rparr> = settle s"

lemma tty_stepI: "tty_step s (settle (s\<lparr>procs := ps, uart_out := out, cons_buf := b, cons_w := w, cons_e := e\<rparr>))"
  by (cases s) (simp add: tty_step_def settle_def)

lemma settle_kcons [simp]:
  "cons_buf (settle s) = cons_buf s" "cons_r (settle s) = cons_r s" "cons_w (settle s) = cons_w s" "cons_e (settle s) = cons_e s"
  "uart_out (settle s) = uart_out s" "uart_in (settle s) = uart_in s"
  by (simp_all add: settle_def)

lemma cons_view_settle [simp]: "cons_view (settle s) = cons_view s" "cons_ok (settle s) = cons_ok s"
  by (simp_all add: cons_view_def cons_ok_def)

lemma consoleintr_step:
  fixes s :: "'x kcons_scheme"
  assumes r: "quiet s" and ok: "cons_ok s"
  shows "\<exists>t. consoleintr c s = Ok () t \<and> tty_step s t \<and> quiet t \<and> cons_ok t \<and> cons_view t = line_edit c (cons_view s) \<and>
    (c \<noteq> 0x10 \<longrightarrow> uart_out t = uart_out s @ echo_of c (cons_view s)) \<and>
    procs t = (if fst (cons_view t) = fst (cons_view s) then procs s else wakeup_table (cproc (cpus s (tp s))) Chan_cons (procs s))"
proof -
  obtain rdy ed where v: "cons_view s = (rdy, ed)" by fastforce
  have len: "length rdy + length ed \<le> INPUT_BUF_SIZE" "10 \<notin> set ed" using ok v by (simp_all add: cons_ok_def)
  have er: "unat (cons_e s - cons_r s) = length rdy + length ed" using view_length [of s rdy ed] v len by simp
  consider "c = 16" | "c = 21" | "c = 8 \<or> c = 0x7f" | "plain c" "c = 0 \<or> INPUT_BUF_SIZE \<le> length rdy + length ed"
    | "plain c" "c \<noteq> 0" "length rdy + length ed < INPUT_BUF_SIZE"
    unfolding plain_def by (metis empty_iff insert_iff not_le)
  then show ?thesis
  proof cases
    case 1
    obtain out where "consoleintr 16 s = Ok () (settle (s\<lparr>uart_out := uart_out s @ out\<rparr>))" using intr_print [OF r] ..
    then show ?thesis using 1 r ok tty_stepI [where s = s and ps = "procs s" and out = "uart_out s @ out" and b = "cons_buf s" and w = "cons_w s" and e = "cons_e s"]
      by (intro exI [of _ "settle (s\<lparr>uart_out := uart_out s @ out\<rparr>)"]) (simp add: line_edit_def cons_ok_def cons_view_def)
  next
    case 2
    let ?u = "erased (length ed) s"
    have u: "consoleintr 21 s = Ok () (settle ?u)" "cons_e ?u = cons_w s" using intr_kill [OF r] v len(2) by simp_all
    have V: "cons_view ?u = (rdy, [])" using v u(2) by (simp add: cons_view_def erased_def)
    have "tty_step s (settle ?u)" using tty_stepI [where s = s and ps = "procs s" and b = "cons_buf s" and w = "cons_w s"] by (simp add: erased_def)
    then show ?thesis using 2 r u(1) V v len(1) by (intro exI [of _ "settle ?u"]) (simp add: line_edit_def echo_of_def cons_ok_def, simp add: erased_def)
  next
    case 3
    then show ?thesis
    proof (cases "ed = []")
      case True
      then show ?thesis using 3 r intr_erase [OF r 3] v ok tty_stepI [where s = s and ps = "procs s" and out = "uart_out s" and b = "cons_buf s" and w = "cons_w s" and e = "cons_e s"]
        by (intro exI [of _ "settle s"]) (auto simp: line_edit_def echo_of_def)
    next
      case False
      then have "cons_e s \<noteq> cons_w s" using v by (auto simp: cons_view_def)
      from ring_last(1) [OF this, of INPUT_BUF_SIZE "cons_buf s"]
      have "butlast ed = ring_list INPUT_BUF_SIZE (cons_buf s) (cons_w s) (cons_e s - 1)" using v unfolding cons_view_def by (metis butlast_snoc prod.inject)
      then have V: "cons_view (erased 1 s) = (rdy, butlast ed)" using v by (simp add: cons_view_def erased_def)
      have "tty_step s (settle (erased 1 s))" using tty_stepI [where s = s and ps = "procs s" and b = "cons_buf s" and w = "cons_w s"] by (simp add: erased_def)
      moreover have "10 \<notin> set (butlast ed)" using len(2) in_set_butlastD by metis
      ultimately show ?thesis using 3 r intr_erase [OF r 3] V v len(1) False
        by (intro exI [of _ "settle (erased 1 s)"]) (auto simp: line_edit_def echo_of_def cons_ok_def, auto simp: erased_def)
    qed
  next
    case 4
    then show ?thesis using r v ok intr_ignored [OF r 4(1)] er tty_stepI [where s = s and ps = "procs s" and out = "uart_out s" and b = "cons_buf s" and w = "cons_w s" and e = "cons_e s"]
      by (intro exI [of _ "settle s"]) (auto simp: line_edit_def echo_of_def plain_def)
  next
    case 5
    define ch where "ch = (if c = 13 then 10 else c)"
    let ?u = "typed ch s"
    have V: "cons_view ?u = (rdy, ed @ [ch])" by (rule typed_view [OF v 5(3)])
    have E: "unat (cons_e ?u - cons_r s) = Suc (length rdy + length ed)"
      using cons_ring.put(2) [of "cons_e s" "cons_r s"] er 5(3) by (simp add: typed_def)
    have sp: "line_edit c (rdy, ed) = (if ch = 10 \<or> ch = 4 \<or> length rdy + length ed + 1 = INPUT_BUF_SIZE then (rdy @ ed @ [ch], []) else (rdy, ed @ [ch]))"
      "echo_of c (rdy, ed) = [ch]" using 5 by (auto simp: line_edit_def echo_of_def ch_def plain_def Let_def)
    note intr = intr_typed [OF r 5(1,2) _ ch_def]
    show ?thesis
    proof (cases "ch = 10 \<or> ch = 4 \<or> Suc (length rdy + length ed) = INPUT_BUF_SIZE")
      case True
      define w where "w = ?u\<lparr>cons_w := cons_e ?u, procs := wakeup_table (cproc (cpus s (tp s))) Chan_cons (procs s)\<rparr>"
      have W: "cons_view w = (rdy @ ed @ [ch], [])" using commit_view [OF V] 5(3) by (simp add: cons_view_def w_def)
      have st: "tty_step s (settle w)" by (cases s) (simp add: tty_step_def w_def typed_def settle_def)
      have run: "consoleintr c s = Ok () (settle w)" using intr er 5(3) True E by (simp add: Let_def w_def)
      have "quiet w" "uart_out w = uart_out s @ [ch]" "procs w = wakeup_table (cproc (cpus s (tp s))) Chan_cons (procs s)"
        using r by (simp_all add: w_def typed_def)
      then show ?thesis using st run W sp v True 5(3) by (intro exI [of _ "settle w"]) (simp add: cons_ok_def)
    next
      case False
      define w where "w = ?u"
      have st: "tty_step s (settle w)" by (cases s) (simp add: tty_step_def w_def typed_def settle_def)
      have run: "consoleintr c s = Ok () (settle w)" using intr er 5(3) False E by (simp add: Let_def w_def)
      have "quiet w" "uart_out w = uart_out s @ [ch]" "procs w = procs s" using r by (simp_all add: w_def typed_def)
      then show ?thesis using st run V sp v False 5(3) len by (intro exI [of _ "settle w"]) (simp add: cons_ok_def flip: w_def)
    qed
  qed
qed

text \<open>\<open>uartintr\<close> passes every byte received to the editor.\<close>

lemma tty_step_uart_in: "tty_step s t \<Longrightarrow> uart_in t = uart_in s"
  unfolding tty_step_def by (drule arg_cong [where f = uart_in]) simp

lemma uartintr_rx_edits:
  fixes s :: "'x kcons_scheme"
  assumes "quiet s" "cons_ok s" "length (uart_in s) < k"
  shows "\<exists>t. uartintr_rx k s = Ok () t \<and> uart_in t = [] \<and> quiet t \<and> cons_ok t \<and> cons_view t = fold line_edit (uart_in s) (cons_view s)"
  using assms
proof (induction k arbitrary: s)
  case (Suc k)
  show ?case
  proof (cases "uart_in s")
    case Nil
    then show ?thesis using Suc.prems by (auto simp: uartgetc_def)
  next
    case (Cons c cs)
    let ?s = "s\<lparr>uart_in := cs\<rparr>"
    have pre: "quiet ?s" "cons_ok ?s" "cons_view ?s = cons_view s"
      using Suc.prems(1,2) by (simp_all add: quiet_def irq_state_ok_def cons_ok_def cons_view_def)
    obtain t where t: "consoleintr c ?s = Ok () t" "tty_step ?s t" "quiet t" "cons_ok t" "cons_view t = line_edit c (cons_view s)"
      using consoleintr_step [OF pre(1,2), of c] pre(3) by auto
    have "uart_in t = cs" using tty_step_uart_in [OF t(2)] by simp
    then show ?thesis using Suc.IH [OF t(3,4)] t(1,5) Suc.prems(3) Cons by (simp add: uartgetc_def)
  qed
qed simp

section \<open>Reading a line\<close>

text \<open>The bytes one read of up to \<open>n\<close> bytes returns: to the end of the line, or to an end-of-file mark. \<open>None\<close> if it has to wait for more.\<close>

fun line_of :: "nat \<Rightarrow> u8 list \<Rightarrow> u8 list option" where
  "line_of 0 q = Some []"
| "line_of (Suc n) [] = None"
| "line_of (Suc n) (c # q) = (if c = 4 then Some [] else if c = 10 then Some [c] else map_option ((#) c) (line_of n q))"

lemma line_of_length: "line_of n q = Some line \<Longrightarrow> length line \<le> n \<and> take (length line) q = line"
  by (induction n q arbitrary: line rule: line_of.induct) (auto split: if_splits)

text \<open>Bytes stored one after the other through a page table.\<close>

primrec user_put :: "u8 list \<Rightarrow> memory \<Rightarrow> u64 \<Rightarrow> u64 \<Rightarrow> memory" where
  "user_put [] m pt a = m"
| "user_put (b # bs) m pt a = user_put bs (m(upa m pt a := b)) pt (a + 1)"

lemma user_target_step:
  fixes s :: "'x kfile_scheme"
  assumes u: "pipe_user p s" and t: "user_target p s a (Suc n)"
    and m: "m = (mem s)(upa (mem s) (pagetable (procs s p)) a := c)"
  shows "pipe_user p (s\<lparr>mem := m\<rparr>)" "user_target p (s\<lparr>mem := m\<rparr>) (a + 1) n" "upa m (pagetable (procs s p)) va = upa (mem s) (pagetable (procs s p)) va"
proof -
  let ?pt = "pagetable (procs s p)"
  have ok: "pt_ok s ?pt" using u by (simp add: pipe_user_def)
  have t0: "PGROUNDDOWN (upa (mem s) ?pt a) \<notin> free_pages s \<union> tables (mem s) ?pt" using user_targetD(2) [OF t, of 0] by simp
  note W = write_frame [OF ok t0, of c, folded m]
  have sh: "a + of_nat (Suc j) = a + 1 + of_nat j" for j by simp
  show "pipe_user p (s\<lparr>mem := m\<rparr>)" using u W(1) by (simp add: pipe_user_def fs_ready_def irq_state_ok_def)
  show "user_target p (s\<lparr>mem := m\<rparr>) (a + 1) n"
    unfolding user_target_def Let_def W(4) using user_targetD [OF t, of "Suc _"] by (simp add: W(3,5,6) flip: sh del: of_nat_Suc) blast
  show "upa m ?pt va = upa (mem s) ?pt va" by (rule W(5))
qed

lemma user_put_effect:
  fixes s :: "'x kfile_scheme"
  assumes "pipe_user p s" "user_target p s a (length bs)"
  shows "pipe_user p (s\<lparr>mem := user_put bs (mem s) (pagetable (procs s p)) a\<rparr>) \<and>
    (\<forall>va. upa (user_put bs (mem s) (pagetable (procs s p)) a) (pagetable (procs s p)) va = upa (mem s) (pagetable (procs s p)) va) \<and>
    (\<forall>j < length bs. user_put bs (mem s) (pagetable (procs s p)) a (upa (mem s) (pagetable (procs s p)) (a + of_nat j)) = bs ! j) \<and>
    (\<forall>x. (\<forall>j < length bs. x \<noteq> upa (mem s) (pagetable (procs s p)) (a + of_nat j)) \<longrightarrow> user_put bs (mem s) (pagetable (procs s p)) a x = mem s x)"
  using assms
proof (induction bs arbitrary: s a)
  case Nil
  then show ?case by simp
next
  case (Cons b bs)
  let ?pt = "pagetable (procs s p)"
  let ?m = "(mem s)(upa (mem s) ?pt a := b)"
  have tg: "user_target p s a (Suc (length bs))" using Cons.prems(2) by simp
  note T = user_target_step [OF Cons.prems(1) tg refl, of b]
  have sh: "a + of_nat (Suc j) = a + 1 + of_nat j" for j by simp
  from Cons.IH [OF T(1,2)]
  have I: "pipe_user p (s\<lparr>mem := user_put bs ?m ?pt (a + 1)\<rparr>)" "\<And>va. upa (user_put bs ?m ?pt (a + 1)) ?pt va = upa (mem s) ?pt va"
    "\<And>j. j < length bs \<Longrightarrow> user_put bs ?m ?pt (a + 1) (upa (mem s) ?pt (a + 1 + of_nat j)) = bs ! j"
    "\<And>x. \<forall>j < length bs. x \<noteq> upa (mem s) ?pt (a + 1 + of_nat j) \<Longrightarrow> user_put bs ?m ?pt (a + 1) x = ?m x"
    by (simp_all add: T(3) del: fun_upd_apply)
  have "user_put bs ?m ?pt (a + 1) (upa (mem s) ?pt (a + of_nat j)) = (b # bs) ! j" if "j < length (b # bs)" for j
  proof (cases j)
    case 0
    have "upa (mem s) ?pt a \<noteq> upa (mem s) ?pt (a + 1 + of_nat j')" if "j' < length bs" for j'
      using user_targetD(3) [OF tg, of 0 "Suc j'"] that unfolding sh by auto
    then show ?thesis using I(4) 0 by simp
  next
    case (Suc j')
    then show ?thesis using I(3) [of j'] that unfolding Suc sh by simp
  qed
  moreover have "user_put bs ?m ?pt (a + 1) x = mem s x" if "\<forall>j < length (b # bs). x \<noteq> upa (mem s) ?pt (a + of_nat j)" for x
  proof -
    have "x \<noteq> upa (mem s) ?pt a" "\<forall>j < length bs. x \<noteq> upa (mem s) ?pt (a + 1 + of_nat j)"
      using that [rule_format, of 0] that [rule_format, of "Suc _"] unfolding sh by auto
    then show ?thesis using I(4) by simp
  qed
  ultimately show ?case using I(1,2) by (simp del: fun_upd_apply)
qed

lemma myproc_inside:
  assumes "fs_ready p s"
  shows "myproc (acquired L_cons s) = Ok (Some p) (acquired L_cons s)"
proof -
  note a = acquired_inside [OF assms, of L_cons]
  have "myproc (acquired L_cons s) = Ok (cproc (cpus (acquired L_cons s) (tp s))) (settle (acquired L_cons s))"
    using myproc_effect [of "acquired L_cons s"] a(1) by (simp add: irq_state_ok_def settle_def)
  then show ?thesis using a(3) settle_acquired [OF fs_readyD(1) [OF assms], of L_cons] by simp
qed

lemma copy_to_user_inside:
  fixes s :: "'x kfile_scheme"
  assumes "pipe_user p s" "user_writable (mem s) (pagetable (procs s p)) (addr + of_nat i)"
  shows "copy_to (To_user addr) i [c] (acquired L_cons s) =
    Ok 0 (acquired L_cons (s\<lparr>mem := (mem s)(upa (mem s) (pagetable (procs s p)) (addr + of_nat i) := c)\<rparr>))"
proof -
  have "pt_ok (acquired L_cons s) (pagetable (procs s p))" using kmem_ready_acquired [of s L_cons] assms(1) by (simp add: pipe_user_def pt_ok_def)
  then show ?thesis using copyout_one [of "acquired L_cons s" "pagetable (procs s p)" "addr + of_nat i" c] assms(2) myproc_inside [OF pipe_userD(1) [OF assms(1)]]
    by (simp add: copy_to_def get_proc_def acquired_mem del: fun_upd_apply)
qed

lemma pipe_user_cons_r [simp]: "pipe_user p (s\<lparr>cons_r := x\<rparr>) = pipe_user p s"
  by (simp add: pipe_user_def pt_ok_def fs_ready_def kmem_ready_def kmem_inv_def irq_state_ok_def free_pages_def)

lemma user_target_cons_r [simp]: "user_target p (s\<lparr>cons_r := x\<rparr>) a n = user_target p s a n"
  by (simp add: user_target_def free_pages_def kmem_inv_def)

lemma r_mem_order: "s\<lparr>cons_r := x, mem := m\<rparr> = s\<lparr>mem := m, cons_r := x\<rparr>"
  by (cases s) simp

definition ready_bytes :: "'x kcons_scheme \<Rightarrow> u8 list" where
  "ready_bytes s = ring_list INPUT_BUF_SIZE (cons_buf s) (cons_r s) (cons_w s)"

text \<open>The loop after \<open>i\<close> bytes: an end-of-file mark is consumed only if it is the first byte.\<close>

lemma consoleread_loop_line:
  fixes s :: "'x kfile_scheme"
  assumes "pipe_user p s" "line_of n (ready_bytes s) = Some line" "user_target p s (addr + of_nat i) n"
  shows "consoleread_loop (To_user addr) (i + n) n (acquired L_cons s) = Ok (Some (n - length line)) (acquired L_cons
    (s\<lparr>mem := user_put line (mem s) (pagetable (procs s p)) (addr + of_nat i),
       cons_r := cons_r s + of_nat (length line) + (if i = 0 \<and> line = [] \<and> 0 < n then 1 else 0)\<rparr>))"
  using assms
proof (induction n arbitrary: i s line)
  case 0
  then show ?case by (cases s) simp
next
  case (Suc n)
  let ?pt = "pagetable (procs s p)" and ?c = "cons_buf s (unat (cons_r s) mod INPUT_BUF_SIZE)"
  let ?u = "s\<lparr>cons_r := cons_r s + 1\<rparr>" and ?m = "(mem s)(upa (mem s) (pagetable (procs s p)) (addr + of_nat i) := cons_buf s (unat (cons_r s) mod INPUT_BUF_SIZE))"
  have "ready_bytes s \<noteq> []" using Suc.prems(2) by auto
  then have ne: "cons_w s \<noteq> cons_r s" by (auto simp: ready_bytes_def)
  have q: "ready_bytes s = ?c # ready_bytes ?u" using ring_front [OF ne] by (simp add: ready_bytes_def)
  have sub: "i + Suc n - Suc n = i" by simp
  have copy: "copy_to (To_user addr) i [?c] (acquired L_cons ?u) = Ok 0 (acquired L_cons (s\<lparr>mem := ?m, cons_r := cons_r s + 1\<rparr>))"
    using copy_to_user_inside [of p ?u addr i ?c] Suc.prems(1) user_targetD(1) [OF Suc.prems(3), of 0] by (simp add: r_mem_order del: fun_upd_apply)
  consider "?c = 4" "line = []" | "?c = 10" "line = [10]" | l where "?c \<noteq> 4" "?c \<noteq> 10" "line = ?c # l" "line_of n (ready_bytes ?u) = Some l"
    using Suc.prems(2) unfolding q by (auto split: if_splits)
  then show ?case
  proof cases
    case 1
    have b: "s\<lparr>mem := mem s, cons_r := cons_r s\<rparr> = s" "s\<lparr>mem := mem s, cons_r := cons_r s + 1\<rparr> = ?u" by (cases s; simp)+
    then show ?thesis using 1 ne by (cases "i = 0") (simp_all add: acquired_upd_kcons ctrl u8_is)
  next
    case 2
    then show ?thesis using ne copy sub by (simp add: acquired_upd_kcons ctrl u8_is NL_def del: fun_upd_apply)
  next
    case 3
    let ?t = "s\<lparr>mem := ?m, cons_r := cons_r s + 1\<rparr>"
    have t: "pipe_user p ?t" "user_target p ?t (addr + of_nat (Suc i)) n"
      using user_target_step(1,2) [OF Suc.prems(1,3) refl, of ?c] by (simp_all add: add.assoc add.commute [of 1] del: fun_upd_apply)
    have "line_of n (ready_bytes ?t) = Some l" using 3(4) by (simp add: ready_bytes_def)
    from Suc.IH [OF t(1) this t(2)] have "consoleread_loop (To_user addr) (i + Suc n) n (acquired L_cons ?t) = Ok (Some (n - length l)) (acquired L_cons
      (s\<lparr>mem := user_put line (mem s) ?pt (addr + of_nat i), cons_r := cons_r s + of_nat (length line)\<rparr>))"
      unfolding 3(3) by (simp add: ac_simps del: fun_upd_apply)
    then show ?thesis using 3 ne copy sub by (simp add: acquired_upd_kcons ctrl u8_is del: fun_upd_apply)
  qed
qed

lemma ring_drop: "k \<le> unat (w - r) \<Longrightarrow> ring_list N d (r + of_nat k) w = drop k (ring_list N d r w)"
proof (induction k arbitrary: r)
  case (Suc k)
  then have ne: "w \<noteq> r" by auto
  have "k \<le> unat (w - (r + 1))" using Suc.prems u32_diff_pred [OF ne] by simp
  from Suc.IH [OF this] show ?case using ring_front [OF ne, of N d] by (simp add: ac_simps)
qed simp

text \<open>
  C13: A byte typed at the console. The interrupt handler refines a line editor: on any input byte it returns
  (every lock is there, no panic), the complete lines and the line being edited change as
  \<open>line_edit\<close> says, the bytes echoed are \<open>echo_of\<close>, and a reader sleeping for input is made runnable
  exactly when a line was completed. The buffer never holds more than INPUT_BUF_SIZE bytes, whatever
  the counters, which may wrap around.
\<close>
theorem consoleintr_edits:
  fixes s :: "'x kcons_scheme"
  assumes "quiet s" "cons_ok s"
  shows "\<exists>t. consoleintr c s = Ok () t \<and> tty_step s t \<and> quiet t \<and> cons_ok t \<and> cons_view t = line_edit c (cons_view s) \<and>
    (c \<noteq> 0x10 \<longrightarrow> uart_out t = uart_out s @ echo_of c (cons_view s)) \<and>
    procs t = (if fst (cons_view t) = fst (cons_view s) then procs s else wakeup_table (cproc (cpus s (tp s))) Chan_cons (procs s))"
  by (rule consoleintr_step [OF assms])

lemma consoleread_waits:
  fixes s :: "'x kfile_scheme"
  assumes u: "pipe_user p s" and None: "line_of (nat n) (fst (cons_view s)) = None" and e: "fst (cons_view s) = []"
  shows "\<exists>t. consoleread (To_user addr) n s = Sleep t \<and> state (procs t p) = SLEEPING \<and> chan (procs t p) = Chan_cons \<and>
    cons_view t = cons_view s \<and> mem t = mem s \<and> lock_free L_cons (locks t)"
proof -
  note U = pipe_userD [OF u]
  have r: "quiet s" using fs_readyD(1,2) [OF U(1)] by (simp add: quiet_def)
  note acq = acquire_cons [OF r]
  obtain k where k: "nat n = Suc k" using None e by (cases "nat n") auto
  have eq: "cons_r s = cons_w s" using e length_ring_list [of INPUT_BUF_SIZE "cons_buf s" "cons_r s" "cons_w s"] by (simp add: cons_view_def unat_eq_zero)
  define t where "t = (acquired (L_proc p) s)\<lparr>procs := (procs s)(p := going_to_sleep p Chan_cons (procs s p))\<rparr>"
  have sl: "sleep Chan_cons L_cons (acquired L_cons s) = Sleep t" unfolding t_def using fs_readyD [OF U(1)] by (intro sleep_effect) simp_all
  have "lock_free (L_proc p) (locks (acquired L_cons s))" using quietD(2) [OF r, of "L_proc p"] by simp
  then have kl: "killed p (acquired L_cons s) = Ok 0 (acquired L_cons s)"
    using killed_effect [of "acquired L_cons s" p] inside(1) [OF r] U(3) settle_acquired [OF quietD(1) [OF r]] by simp
  have "consoleread (To_user addr) n s = Sleep t" using acq myproc_inside [OF U(1)] kl sl eq by (simp add: consoleread_def k)
  then show ?thesis using quietD(2) [OF r, of L_cons] by (intro exI [of _ t]) (simp add: t_def going_to_sleep_def cons_view_def)
qed

lemma consoleread_gets:
  fixes s :: "'x kfile_scheme"
  assumes u: "pipe_user p s" and tg: "user_target p s addr (nat n)" and Some: "line_of (nat n) (fst (cons_view s)) = Some line"
  shows "\<exists>t. consoleread (To_user addr) n s = Ok (int (length line)) t \<and> user_bytes p t addr (length line) = line \<and>
    cons_view t = (drop (if line = [] \<and> 0 < n then 1 else length line) (fst (cons_view s)), snd (cons_view s)) \<and>
    (\<forall>a. (\<forall>j < length line. a \<noteq> upa (mem s) (pagetable (procs s p)) (addr + of_nat j)) \<longrightarrow> mem t a = mem s a) \<and> lock_free L_cons (locks t)"
proof -
  note U = pipe_userD [OF u]
  let ?q = "fst (cons_view s)" and ?pt = "pagetable (procs s p)"
  have r: "quiet s" using fs_readyD(1,2) [OF U(1)] by (simp add: quiet_def)
  have q: "ready_bytes s = ?q" by (simp add: ready_bytes_def cons_view_def)
  note acq = acquire_cons [OF r]
  have len: "length line \<le> nat n" "take (length line) ?q = line" using line_of_length [OF Some] by simp_all
  have tl: "user_target p s addr (length line)" using tg len(1) by (auto simp: user_target_def Let_def)
  define k where "k = length line + (if line = [] \<and> 0 < nat n then 1 else 0)"
  define m where "m = user_put line (mem s) ?pt addr"
  define t where "t = s\<lparr>mem := m, cons_r := cons_r s + of_nat k\<rparr>"
  have "consoleread_loop (To_user addr) (nat n) (nat n) (acquired L_cons s) = Ok (Some (nat n - length line)) (acquired L_cons t)"
    using consoleread_loop_line [OF u, of "nat n" line addr 0] Some q tg by (simp add: t_def m_def k_def)
  moreover have "quiet t" using r by (simp add: t_def quiet_def irq_state_ok_def)
  ultimately have run: "consoleread (To_user addr) n s = Ok (int (length line)) (settle t)"
    using acq release_cons [of t] len(1) by (simp add: consoleread_def)
  have M: "\<And>va. upa m ?pt va = upa (mem s) ?pt va" "\<And>j. j < length line \<Longrightarrow> m (upa (mem s) ?pt (addr + of_nat j)) = line ! j"
    "\<And>x. \<forall>j < length line. x \<noteq> upa (mem s) ?pt (addr + of_nat j) \<Longrightarrow> m x = mem s x"
    using user_put_effect [OF u tl] by (simp_all add: m_def)
  have "k \<le> length ?q"
  proof (cases "line = [] \<and> 0 < nat n")
    case True
    then have "?q \<noteq> []" using Some by (cases "nat n") auto
    then show ?thesis using True by (simp add: k_def Suc_leI)
  next
    case False
    have "length line \<le> length ?q" using arg_cong [OF len(2), of length] by simp
    then show ?thesis using False by (auto simp: k_def)
  qed
  then have "k \<le> unat (cons_w s - cons_r s)" by (simp add: cons_view_def)
  then have "cons_view t = (drop k ?q, snd (cons_view s))" using ring_drop [of k "cons_w s" "cons_r s"] by (simp add: cons_view_def t_def)
  moreover have "k = (if line = [] \<and> 0 < n then 1 else length line)" by (simp add: k_def)
  ultimately have V: "cons_view (settle t) = (drop (if line = [] \<and> 0 < n then 1 else length line) ?q, snd (cons_view s))" by simp
  have B: "user_bytes p (settle t) addr (length line) = line" using M(1,2) by (intro nth_equalityI) (simp_all add: user_bytes_def t_def)
  have L: "lock_free L_cons (locks (settle t))" "mem (settle t) = m" using quietD(2) [OF r] by (simp_all add: t_def)
  have F: "\<forall>a. (\<forall>j < length line. a \<noteq> upa (mem s) ?pt (addr + of_nat j)) \<longrightarrow> mem (settle t) a = mem s a" unfolding L(2) using M(3) by blast
  show ?thesis by (intro exI [of _ "settle t"] conjI run B V F L(1))
qed

text \<open>
  C14: A read from the console. If a line is ready (or an end-of-file mark, or as many bytes as asked for)
  \<open>consoleread\<close> returns its length, the user has exactly its bytes at \<open>addr\<close>, no other byte of
  memory changes, and the bytes are gone from the front of the buffer; an end-of-file mark is taken only by
  a read that returns 0. With nothing ready the process sleeps on the console, the lock free.
\<close>
theorem consoleread_line:
  fixes s :: "'x kfile_scheme"
  assumes u: "pipe_user p s" and tg: "user_target p s addr (nat n)"
  shows "case line_of (nat n) (fst (cons_view s)) of
      Some line \<Rightarrow> \<exists>t. consoleread (To_user addr) n s = Ok (int (length line)) t \<and> user_bytes p t addr (length line) = line \<and>
        cons_view t = (drop (if line = [] \<and> 0 < n then 1 else length line) (fst (cons_view s)), snd (cons_view s)) \<and>
        (\<forall>a. (\<forall>j < length line. a \<noteq> upa (mem s) (pagetable (procs s p)) (addr + of_nat j)) \<longrightarrow> mem t a = mem s a) \<and> lock_free L_cons (locks t)
    | None \<Rightarrow> fst (cons_view s) = [] \<longrightarrow> (\<exists>t. consoleread (To_user addr) n s = Sleep t \<and> state (procs t p) = SLEEPING \<and> chan (procs t p) = Chan_cons \<and>
        cons_view t = cons_view s \<and> mem t = mem s \<and> lock_free L_cons (locks t))"
proof (cases "line_of (nat n) (fst (cons_view s))")
  case None
  then show ?thesis using consoleread_waits [OF u None] by simp
next
  case (Some line)
  then show ?thesis using consoleread_gets [OF u tg Some] by simp
qed

section \<open>Witnesses\<close>

text \<open>The sample process, with the line \<open>h\<close> ready and \<open>i\<close> being edited; the counters are about to wrap around.\<close>

definition sample_tty :: kfile where
  "sample_tty = sample_file\<lparr>cons_buf := (\<lambda>_. 0)(127 := 104, 0 := 10, 1 := 105), cons_r := 0xffffffff, cons_w := 1, cons_e := 2\<rparr>"

lemma sample_tty_view: "cons_view sample_tty = ([104, 10], [105])" "cons_ok sample_tty"
proof -
  have "[0..<2] = [0, 1 :: nat]" by (simp add: upt_rec)
  then show v: "cons_view sample_tty = ([104, 10], [105])" by (simp add: cons_view_def ring_list_def sample_tty_def INPUT_BUF_SIZE_def)
  then show "cons_ok sample_tty" by (simp add: cons_ok_def INPUT_BUF_SIZE_def)
qed

lemma sample_tty_user: "pipe_user 0 sample_tty" "quiet sample_tty"
proof -
  have "pipe_user 0 (sample_file\<lparr>cons_buf := b, cons_r := r, cons_w := w, cons_e := e\<rparr>) = pipe_user 0 sample_file" for b r w e
    by (simp add: pipe_user_def pt_ok_def fs_ready_def kmem_ready_def kmem_inv_def irq_state_ok_def free_pages_def)
  then show u: "pipe_user 0 sample_tty" using sample_file_user by (simp add: sample_tty_def)
  show "quiet sample_tty" using fs_readyD(1,2) [OF pipe_userD(1) [OF u]] by (simp add: quiet_def)
qed

theorem consoleintr_edits_witness:
  "\<exists>t u. consoleintr 13 sample_tty = Ok () t \<and> cons_view t = ([104, 10, 105, 10], []) \<and>
     consoleintr 21 sample_tty = Ok () u \<and> cons_view u = ([104, 10], []) \<and> uart_out u = uart_out sample_tty @ [8, 32, 8]"
  using consoleintr_edits [OF sample_tty_user(2) sample_tty_view(2), of 13] consoleintr_edits [OF sample_tty_user(2) sample_tty_view(2), of 21]
  by (auto simp: sample_tty_view line_edit_def echo_of_def rubout_def INPUT_BUF_SIZE_def)

theorem consoleread_line_witness:
  "\<exists>t. consoleread (To_user 0x1000) 5 sample_tty = Ok 2 t \<and> user_bytes 0 t 0x1000 2 = [104, 10] \<and> cons_view t = ([], [105])"
proof -
  have "PGROUNDDOWN (0x80029000 + of_nat i) = 0x80029000" if "i < 8" for i
    using round_add(2) [of i "0x80029000"] that by (simp add: PGROUNDDOWN_def PGSIZE_def)
  then have t: "user_target 0 sample_file 0x1000 (nat 5)"
    unfolding user_target_def Let_def
    using sample_mapped sample_frame
    by (auto simp: sample_file_simps sample_file_free sample_vm_def unat_of_nat word_of_nat_eq_iff take_bit_nat_eq_self)
  have "user_target 0 sample_tty 0x1000 (nat 5)" using t by (simp add: user_target_def sample_tty_def free_pages_def kmem_inv_def)
  moreover have "line_of (nat 5) [104, 10] = Some [104, 10]" by code_simp
  ultimately show ?thesis using consoleread_line [OF sample_tty_user(1), of "0x1000" 5] by (auto simp: sample_tty_view numeral_2_eq_2)
qed

end
