(* ===== verification/Xv6_Fork.thy ===== *)
theory Xv6_Fork
  imports Xv6_Exec Xv6_Tty
begin

text \<open>
  Fork: the copy of an address space (\<open>uvmcopy\<close>) and of a process (\<open>kfork\<close>). The child's pages are
  fresh, distinct and hold the parent's bytes; the parent's memory does not change.
\<close>

section \<open>Two page tables side by side\<close>

text \<open>A page table does not change when only other pages are written.\<close>

lemma same_tables:
  assumes wf: "tree_wf m pt" and same: "\<And>a. PGROUNDDOWN a \<in> tables m pt \<Longrightarrow> m' a = m a"
  shows "tree_wf m' pt" "tables m' pt = tables m pt" "leaf m' pt va = leaf m pt va"
proof -
  have entry: "load64 m' (pte_addr t i) = load64 m (pte_addr t i)" if "t \<in> tables m pt" "unat i < 512" for t i
  proof (rule load64_cong)
    fix a assume "in_range (pte_addr t i) 8 a"
    moreover have "page_aligned t" using that(1) wf by (auto simp: tables_def tree_wf_def)
    ultimately have "PGROUNDDOWN a = t" using pte_addr_page that(2) by (simp add: in_page_offset)
    then show "m' a = m a" using same that(1) by simp
  qed
  have n: "node m' pt q = node m pt q" if "tpath q" for q
    using that
  proof (induction q rule: rev_induct)
    case (snoc j q)
    then have q: "tpath q" "unat j < 512" using tpath_snocD by blast+
    then have "load64 m' (pte_addr u j) = load64 m (pte_addr u j)" if "node m pt q = Some u" for u
      using that by (intro entry) (auto simp: tables_def)
    then show ?case using snoc.IH [OF q(1)] by (simp add: node_snoc split: option.split)
  qed simp
  show "tree_wf m' pt" by (rule tree_wf_cong [OF wf n])
  show "tables m' pt = tables m pt" by (rule tables_cong) (rule n)
  show "leaf m' pt va = leaf m pt va" by (rule leaf_cong) (use n entry in auto)
qed

lemma pt_ok_other:
  assumes ok: "pt_ok s pt" and v: "kmem_ready v" "kend v = kend s" "free_pages v \<subseteq> free_pages s"
    and same: "\<And>a. PGROUNDDOWN a \<in> tables (mem s) pt \<Longrightarrow> mem v a = mem s a"
  shows "pt_ok v pt" "tables (mem v) pt = tables (mem s) pt" "leaf (mem v) pt va = leaf (mem s) pt va"
proof -
  have wf: "tree_wf (mem s) pt" using ok by (simp add: pt_ok_def)
  note T = same_tables [where m' = "mem v", OF wf same]
  show "tables (mem v) pt = tables (mem s) pt" "leaf (mem v) pt va = leaf (mem s) pt va" by (rule T; assumption)+
  show "pt_ok v pt" using ok v T(1,2) by (auto simp: pt_ok_def)
qed

text \<open>A page taken from the allocator and written: no page table notices.\<close>

lemma alloc_write:
  fixes s :: "'x kmachine_scheme"
  assumes ready: "kmem_ready s" and al: "kalloc s = Ok pg v" "pg \<in> free_pages s" "free_pages v = free_pages s - {pg}" "kmem_ready v"
    and m: "\<forall>a. \<not> in_page pg a \<longrightarrow> m a = mem s a" and mv: "\<forall>a. \<not> in_page pg a \<longrightarrow> mem v a = mem s a"
  shows "kmem_ready (v\<lparr>mem := m\<rparr>)" "free_pages (v\<lparr>mem := m\<rparr>) = free_pages s - {pg}" "only_mem s (v\<lparr>mem := m\<rparr>)" "kend (v\<lparr>mem := m\<rparr>) = kend s"
    "pt_ok s pt \<Longrightarrow> pt_ok (v\<lparr>mem := m\<rparr>) pt" "pt_ok s pt \<Longrightarrow> tables m pt = tables (mem s) pt" "pt_ok s pt \<Longrightarrow> leaf m pt va = leaf (mem s) pt va"
    "pt_ok s pt \<Longrightarrow> pg \<notin> tables (mem s) pt"
proof -
  have pgal: "page_aligned pg" using kmem.avail_page [OF ready al(2)] by (simp add: kpage_def)
  have w: "kmem_ready (v\<lparr>mem := m\<rparr>) \<and> free_pages (v\<lparr>mem := m\<rparr>) = free_pages v"
    by (rule kmem_ready_write [OF al(4)]) (use m mv al(3) pgal in \<open>auto simp: in_page_offset\<close>)
  then show r: "kmem_ready (v\<lparr>mem := m\<rparr>)" and f: "free_pages (v\<lparr>mem := m\<rparr>) = free_pages s - {pg}" using al(3) by simp_all
  show "only_mem s (v\<lparr>mem := m\<rparr>)" using kalloc_only_mem [OF ready al(1)] by simp
  show k: "kend (v\<lparr>mem := m\<rparr>) = kend s" using only_mem_fields(4) [OF kalloc_only_mem [OF ready al(1)]] by simp
  show nt: "pg \<notin> tables (mem s) pt" if "pt_ok s pt" using that al(2) by (auto simp: pt_ok_def)
  have same: "mem (v\<lparr>mem := m\<rparr>) a = mem s a" if "pt_ok s pt" "PGROUNDDOWN a \<in> tables (mem s) pt" for a
  proof -
    have "PGROUNDDOWN a \<noteq> pg" using that nt by auto
    then show ?thesis using m pgal by (simp add: in_page_offset)
  qed
  note O = pt_ok_other [where v = "v\<lparr>mem := m\<rparr>", OF _ r k _ same]
  show "pt_ok (v\<lparr>mem := m\<rparr>) pt" if "pt_ok s pt" using O(1) [OF that] f that by auto
  show "tables m pt = tables (mem s) pt" if "pt_ok s pt" using O(2) [OF that] f that by auto
  show "leaf m pt va = leaf (mem s) pt va" if "pt_ok s pt" using O(3) [OF that] f that by auto
qed

lemma PTE2PA_aligned: "page_aligned (PTE2PA v)"
proof -
  have "PGROUNDDOWN (PTE2PA v) = PTE2PA v" by (rule bit_word_eqI) (auto simp: bit_PGROUNDDOWN PTE2PA_def bit_simps)
  moreover have "page_aligned (PGROUNDDOWN (PTE2PA v))" by simp
  ultimately show ?thesis by simp
qed

text \<open>The copy of one page.\<close>

lemma memmove_page:
  assumes "page_aligned d" "page_aligned p" "d \<noteq> p"
  shows "\<not> in_page d a \<Longrightarrow> memmove d p (ucast PGSIZE) m a = m a" "k < 4096 \<Longrightarrow> memmove d p (ucast PGSIZE) m (d + of_nat k) = m (p + of_nat k)"
proof -
  have n: "unat (ucast PGSIZE :: u32) = 4096" by (simp add: PGSIZE_def)
  have s: "memmove d p (ucast PGSIZE) m = (\<lambda>a. if in_range d 4096 a then m (p + (a - d)) else m a)"
    using memmove_spec [of d "ucast PGSIZE" p m] page_room [OF assms(1)] page_room [OF assms(2)] unfolding n by blast
  show "\<not> in_page d a \<Longrightarrow> memmove d p (ucast PGSIZE) m a = m a" by (simp add: s in_page_def)
  show "k < 4096 \<Longrightarrow> memmove d p (ucast PGSIZE) m (d + of_nat k) = m (p + of_nat k)"
    by (simp add: s in_range_def unat_of_nat)
qed

text \<open>
  \<open>page_copied\<close>: page \<open>i\<close> of \<open>new\<close> is the fresh page \<open>pg\<close> with the bytes and flags of the page of \<open>old\<close>; everything
  but the free pages and the tables of \<open>new\<close> is as before.
\<close>

definition page_copied :: "u64 \<Rightarrow> u64 \<Rightarrow> u64 \<Rightarrow> u64 \<Rightarrow> 'x kmachine_scheme \<Rightarrow> 'x kmachine_scheme \<Rightarrow> bool" where
  "page_copied old new i pg t v \<longleftrightarrow> pg \<in> free_pages t \<and> pg \<notin> free_pages v \<and> pg \<notin> tables (mem v) new \<and>
     only_mem t v \<and> pt_ok v old \<and> pt_ok v new \<and> free_pages v \<subseteq> free_pages t \<and> card (free_pages t) \<le> card (free_pages v) + 3 \<and>
     tables (mem v) old = tables (mem t) old \<and> tables (mem v) new \<subseteq> tables (mem t) new \<union> free_pages t \<and>
     (\<forall>va. leaf (mem v) old va = leaf (mem t) old va) \<and>
     (\<forall>vb < MAXVA. leaf (mem v) new vb = (if PGROUNDDOWN vb = i then PA2PTE pg OR PTE_FLAGS (leaf (mem t) old i) OR PTE_V else leaf (mem t) new vb)) \<and>
     (\<forall>k < 4096. mem v (pg + of_nat k) = mem t (PTE2PA (leaf (mem t) old i) + of_nat k)) \<and>
     (\<forall>a. PGROUNDDOWN a \<notin> free_pages t \<union> tables (mem t) new \<longrightarrow> mem v a = mem t a)"

lemma finite_free_pages: "kmem_ready s \<Longrightarrow> finite (free_pages s)"
  by (elim kmem_ready_obtain) simp

lemma uvmcopy_page_skips:
  assumes "pt_ok t old" "i < MAXVA" "\<not> pte_valid (leaf (mem t) old i)"
  shows "uvmcopy_page old new i t = Ok True t"
proof -
  obtain pte where w: "walk old i False t = Ok pte t" using walk_lookup [OF assms(2)] by blast
  note l = walk_lookup_ok [OF assms(1,2) w]
  show ?thesis using w l assms(3) by (cases "pte = 0") (auto simp: uvmcopy_page_def load_pte_def pte_valid_def)
qed

lemma uvmcopy_page_copies:
  fixes t :: "'x kmachine_scheme"
  assumes ok: "pt_ok t old" "pt_ok t new" "tables (mem t) old \<inter> tables (mem t) new = {}" and i: "i < MAXVA" "page_aligned i"
    and new: "\<not> pte_valid (leaf (mem t) new i)" and old: "pte_valid (leaf (mem t) old i)"
    and fr: "PTE2PA (leaf (mem t) old i) \<notin> free_pages t \<union> tables (mem t) new" and card: "3 \<le> card (free_pages t)"
  shows "\<exists>pg v. uvmcopy_page old new i t = Ok True v \<and> page_copied old new i pg t v"
proof -
  let ?v = "leaf (mem t) old i"
  have ready: "kmem_ready t" using ok(1) by (simp add: pt_ok_def)
  have "free_pages t \<noteq> {}" using card by auto
  then obtain pg w where w: "kalloc t = Ok pg w" "pg \<in> free_pages t" "free_pages w = free_pages t - {pg}" "kmem_ready w"
    "\<forall>a. \<not> in_page pg a \<longrightarrow> mem w a = mem t a" using kmem.alloc_page [OF ready] by blast
  have k: "kpage (kend t) pg" "pg \<noteq> 0" using kmem.avail_page [OF ready w(2)] kmem.page_nonzero [OF ready] by blast+
  have al: "page_aligned pg" "page_aligned (PTE2PA ?v)" "pg \<noteq> PTE2PA ?v" using k(1) w(2) fr PTE2PA_aligned by (auto simp: kpage_def)
  define m where "m = memmove pg (PTE2PA ?v) (ucast PGSIZE) (mem w)"
  define u where "u = w\<lparr>mem := m\<rparr>"
  have m: "\<forall>a. \<not> in_page pg a \<longrightarrow> m a = mem t a" using memmove_page(1) [OF al] w(5) by (simp add: m_def)
  have byte: "m (pg + of_nat j) = mem t (PTE2PA ?v + of_nat j)" if "j < 4096" for j
  proof -
    have "PGROUNDDOWN (PTE2PA ?v + of_nat j) = PTE2PA ?v" using round_add(2) [of j "PTE2PA ?v"] al(2) that by (simp add: page_aligned_def PGROUNDDOWN_aligned)
    then have "\<not> in_page pg (PTE2PA ?v + of_nat j)" using al by (simp add: in_page_offset)
    then show ?thesis using memmove_page(2) [OF al that] w(5) by (simp add: m_def)
  qed
  note A = alloc_write [OF ready w(1-4) m w(5), folded u_def]
  have U: "pt_ok u old" "pt_ok u new" "free_pages u = free_pages t - {pg}" "tables m old = tables (mem t) old" "tables m new = tables (mem t) new"
    "leaf m new i = leaf (mem t) new i" "leaf m old va = leaf (mem t) old va" "pg \<notin> tables (mem t) new" for va
    using A(2) A(5) [OF ok(1)] A(5) [OF ok(2)] A(6) [OF ok(1)] A(6) [OF ok(2)] A(7) [OF ok(2)] A(7) [OF ok(1)] A(8) [OF ok(2)] by blast+
  have cu: "2 \<le> card (free_pages u)" "card (free_pages t) = card (free_pages u) + 1"
    using card w(2) finite_free_pages [OF ready] by (simp_all add: U(3) card_Diff_singleton)
  have "\<not> pte_valid (leaf (mem u) new i)" using new U(6) by (simp add: u_def)
  from mappages_room [OF U(2) i this cu(1), of pg "PTE_FLAGS ?v"] obtain v where
    v: "mappages new i PGSIZE pg (PTE_FLAGS ?v) u = Ok 0 v" "mapped_page new i (PA2PTE pg OR PTE_FLAGS ?v OR PTE_V) u v" "card (free_pages u) \<le> card (free_pages v) + 2"
    by blast
  note M = v(2) [unfolded mapped_page_def]
  have ft: "PGROUNDDOWN a \<notin> free_pages t \<union> tables (mem t) new \<Longrightarrow> mem v a = mem t a" for a
  proof -
    assume a: "PGROUNDDOWN a \<notin> free_pages t \<union> tables (mem t) new"
    then have "PGROUNDDOWN a \<notin> free_pages u \<union> tables (mem u) new" "\<not> in_page pg a" using U(3,5) w(2) al(1) by (auto simp: u_def in_page_offset)
    then show ?thesis using M m by (simp add: u_def)
  qed
  have tn: "tables (mem v) new \<subseteq> tables (mem t) new \<union> (free_pages t - {pg})" using M U(3,5) by (simp add: u_def)
  have fv: "free_pages v \<subseteq> free_pages t - {pg}" using M U(3) by simp
  have om: "only_mem t v" using only_mem_trans [OF A(3)] M by blast
  have kv: "kend v = kend t" "kmem_ready v" using only_mem_fields(4) [OF om] M by (simp_all add: pt_ok_def)
  have to: "PGROUNDDOWN a \<in> tables (mem t) old \<Longrightarrow> mem v a = mem t a" for a using ft [of a] ok by (auto simp: pt_ok_def)
  have bv: "mem v (pg + of_nat j) = mem t (PTE2PA ?v + of_nat j)" if "j < 4096" for j
  proof -
    have "PGROUNDDOWN (pg + of_nat j) = pg" using round_add(2) [of j pg] al(1) that by (simp add: page_aligned_def PGROUNDDOWN_aligned)
    then have "PGROUNDDOWN (pg + of_nat j) \<notin> free_pages u \<union> tables (mem u) new" using U(3,5,8) by (simp add: u_def)
    then show ?thesis using M byte [OF that] by (simp add: u_def)
  qed
  have lf: "leaf (mem v) new vb = (if PGROUNDDOWN vb = i then PA2PTE pg OR PTE_FLAGS ?v OR PTE_V else leaf (mem t) new vb)" if "vb < MAXVA" for vb
    using M that A(7) [OF ok(2), of vb] i(2) by (simp add: u_def PGROUNDDOWN_aligned)
  obtain pte where wk: "walk old i False t = Ok pte t" using walk_lookup [OF i(1)] by blast
  note l = walk_lookup_ok [OF ok(1) i(1) wk]
  have "uvmcopy_page old new i t = Ok True v"
    using wk l old w(1) k(2) v(1) by (cases "pte = 0") (auto simp: uvmcopy_page_def load_pte_def pte_valid_def upd_mem_def m_def u_def)
  moreover have "page_copied old new i pg t v"
    unfolding page_copied_def
  proof (intro conjI allI impI)
    show "pg \<notin> free_pages v" "free_pages v \<subseteq> free_pages t" using fv by blast+
    show "pg \<notin> tables (mem v) new" using tn U(8) by blast
    show "tables (mem v) new \<subseteq> tables (mem t) new \<union> free_pages t" using tn by blast
    show "card (free_pages t) \<le> card (free_pages v) + 3" using cu v(3) by linarith
    show "pt_ok v new" using M by blast
    have "free_pages v \<subseteq> free_pages t" using fv by blast
    note O = pt_ok_other [where v = v, OF ok(1) kv(2,1) this to]
    show "pt_ok v old" "tables (mem v) old = tables (mem t) old" "leaf (mem v) old va = leaf (mem t) old va" for va by (rule O; assumption)+
  qed (rule w(2), rule om, erule lf, erule bv, erule ft)
  ultimately show ?thesis by blast
qed

section \<open>The loop over the pages\<close>

text \<open>The pages below \<open>i\<close> have been copied, page \<open>p\<close> to \<open>G p\<close>.\<close>

definition copied_below :: "'x kmachine_scheme \<Rightarrow> u64 \<Rightarrow> u64 \<Rightarrow> u64 \<Rightarrow> (u64 \<Rightarrow> u64) \<Rightarrow> 'x kmachine_scheme \<Rightarrow> bool" where
  "copied_below s old new i G t \<longleftrightarrow> only_mem s t \<and> pt_ok t old \<and> pt_ok t new \<and> free_pages t \<subseteq> free_pages s \<and>
     tables (mem t) old = tables (mem s) old \<and> tables (mem t) new \<subseteq> tables (mem s) new \<union> free_pages s \<and>
     (\<forall>va. leaf (mem t) old va = leaf (mem s) old va) \<and>
     (\<forall>va < MAXVA. leaf (mem t) new va = (if va < i \<and> pte_valid (leaf (mem s) old va)
        then PA2PTE (G (PGROUNDDOWN va)) OR PTE_FLAGS (leaf (mem s) old va) OR PTE_V else leaf (mem s) new va)) \<and>
     (\<forall>a. PGROUNDDOWN a \<notin> free_pages s \<union> tables (mem s) new \<longrightarrow> mem t a = mem s a) \<and>
     (\<forall>va < i. pte_valid (leaf (mem s) old va) \<longrightarrow> G (PGROUNDDOWN va) \<in> free_pages s - free_pages t - tables (mem t) new \<and>
        (\<forall>k < 4096. mem t (G (PGROUNDDOWN va) + of_nat k) = mem s (PTE2PA (leaf (mem s) old va) + of_nat k))) \<and>
     (\<forall>va < i. \<forall>vb < i. pte_valid (leaf (mem s) old va) \<and> pte_valid (leaf (mem s) old vb) \<and> G (PGROUNDDOWN va) = G (PGROUNDDOWN vb) \<longrightarrow>
        PGROUNDDOWN va = PGROUNDDOWN vb)"

lemma copied_belowD:
  assumes "copied_below s old new i G t"
  shows "only_mem s t" "pt_ok t old" "pt_ok t new" "free_pages t \<subseteq> free_pages s" "tables (mem t) old = tables (mem s) old"
    "tables (mem t) new \<subseteq> tables (mem s) new \<union> free_pages s" "leaf (mem t) old va = leaf (mem s) old va"
    "va < MAXVA \<Longrightarrow> leaf (mem t) new va = (if va < i \<and> pte_valid (leaf (mem s) old va)
        then PA2PTE (G (PGROUNDDOWN va)) OR PTE_FLAGS (leaf (mem s) old va) OR PTE_V else leaf (mem s) new va)"
    "PGROUNDDOWN a \<notin> free_pages s \<union> tables (mem s) new \<Longrightarrow> mem t a = mem s a"
    "va < i \<Longrightarrow> pte_valid (leaf (mem s) old va) \<Longrightarrow> G (PGROUNDDOWN va) \<in> free_pages s - free_pages t - tables (mem t) new"
    "va < i \<Longrightarrow> pte_valid (leaf (mem s) old va) \<Longrightarrow> k < 4096 \<Longrightarrow> mem t (G (PGROUNDDOWN va) + of_nat k) = mem s (PTE2PA (leaf (mem s) old va) + of_nat k)"
    "va < i \<Longrightarrow> vb < i \<Longrightarrow> pte_valid (leaf (mem s) old va) \<Longrightarrow> pte_valid (leaf (mem s) old vb) \<Longrightarrow> G (PGROUNDDOWN va) = G (PGROUNDDOWN vb) \<Longrightarrow>
        PGROUNDDOWN va = PGROUNDDOWN vb"
  using assms unfolding copied_below_def by blast+

text \<open>What \<open>kfork\<close> brings along: two tables without a page in common, nothing mapped in the new one below \<open>n\<close>, and
  no page of the old space free or a table of the new one.\<close>

definition copy_pre :: "'x kmachine_scheme \<Rightarrow> u64 \<Rightarrow> u64 \<Rightarrow> u64 \<Rightarrow> bool" where
  "copy_pre s old new n \<longleftrightarrow> pt_ok s old \<and> pt_ok s new \<and> tables (mem s) old \<inter> tables (mem s) new = {} \<and> n \<le> MAXVA \<and>
     (\<forall>va. PGROUNDDOWN va < n \<longrightarrow> \<not> pte_valid (leaf (mem s) new va)) \<and>
     (\<forall>va. PGROUNDDOWN va < n \<and> pte_valid (leaf (mem s) old va) \<longrightarrow> PTE2PA (leaf (mem s) old va) \<notin> free_pages s \<union> tables (mem s) new)"

lemma next_user_page:
  assumes "page_aligned i" "i < MAXVA"
  shows "va < i + PGSIZE \<longleftrightarrow> va < i \<or> PGROUNDDOWN va = i" "page_aligned (i + PGSIZE)" "PGROUNDDOWN va = i \<Longrightarrow> \<not> va < i"
proof -
  have u: "unat (i + PGSIZE) = unat i + 4096" using below_MAXVA_step [OF assms(2)] by simp
  show "page_aligned (i + PGSIZE)" using assms(1) by (simp add: page_aligned_def u)
  have "in_page i va \<longleftrightarrow> PGROUNDDOWN va = i" by (rule in_page_offset [OF assms(1)])
  moreover have "in_page i va \<longleftrightarrow> unat i \<le> unat va \<and> unat va < unat i + 4096"
  proof (cases "i \<le> va")
    case True
    then have "unat (va - i) = unat va - unat i" by (rule unat_sub)
    then show ?thesis using True by (auto simp: in_page_def in_range_def word_le_nat_alt)
  next
    case False
    have "unat i < 2 ^ 38" using below_MAXVA_step [OF assms(2)] by simp
    have "\<not> in_page i va"
    proof
      assume "in_page i va"
      then have "unat (va - i) < 4096" by (simp add: in_page_def in_range_def)
      then have "unat (i + (va - i)) = unat i + unat (va - i)" using \<open>unat i < 2 ^ 38\<close> by (intro unat_add_lem [THEN iffD1]) simp
      then show False using False by (simp add: word_le_nat_alt)
    qed
    then show ?thesis using False by (simp add: word_le_nat_alt)
  qed
  ultimately show "va < i + PGSIZE \<longleftrightarrow> va < i \<or> PGROUNDDOWN va = i" "PGROUNDDOWN va = i \<Longrightarrow> \<not> va < i"
    by (auto simp: word_less_nat_alt u)
qed

lemma uvmcopy_step:
  fixes s t :: "'x kmachine_scheme"
  assumes pre: "copy_pre s old new n" and c: "copied_below s old new i G t" and i: "i < n" "page_aligned i" and card: "3 \<le> card (free_pages t)"
  shows "\<exists>G' v. uvmcopy_page old new i t = Ok True v \<and> copied_below s old new (i + PGSIZE) G' v \<and> card (free_pages t) \<le> card (free_pages v) + 3"
proof -
  note C = copied_belowD [OF c]
  have im: "i < MAXVA" using i(1) pre less_le_trans unfolding copy_pre_def by blast
  have ri: "PGROUNDDOWN i = i" using i(2) by (simp add: PGROUNDDOWN_aligned)
  note N = next_user_page [OF i(2) im]
  show ?thesis
  proof (cases "pte_valid (leaf (mem s) old i)")
    case False
    have "uvmcopy_page old new i t = Ok True t" using uvmcopy_page_skips [OF C(2) im] False C(7) by simp
    moreover have lt: "va < i + PGSIZE \<and> pte_valid (leaf (mem s) old va) \<longleftrightarrow> va < i \<and> pte_valid (leaf (mem s) old va)" for va
    proof (cases "PGROUNDDOWN va = i")
      case True
      then have "leaf (mem s) old va = leaf (mem s) old i" using leaf_same_page [of va i "mem s" old] ri by (simp only:)
      then show ?thesis using False by simp
    qed (simp add: N(1))
    have "copied_below s old new (i + PGSIZE) G t"
      unfolding copied_below_def
    proof (intro conjI allI impI)
      show "leaf (mem t) new va = (if va < i + PGSIZE \<and> pte_valid (leaf (mem s) old va)
        then PA2PTE (G (PGROUNDDOWN va)) OR PTE_FLAGS (leaf (mem s) old va) OR PTE_V else leaf (mem s) new va)" if "va < MAXVA" for va
        unfolding lt by (rule C(8) [OF that])
      show "G (PGROUNDDOWN va) \<in> free_pages s - free_pages t - tables (mem t) new" if "va < i + PGSIZE" "pte_valid (leaf (mem s) old va)" for va
        using C(10) [of va] lt [of va] that by blast
      show "mem t (G (PGROUNDDOWN va) + of_nat k) = mem s (PTE2PA (leaf (mem s) old va) + of_nat k)"
        if "va < i + PGSIZE" "pte_valid (leaf (mem s) old va)" "k < 4096" for va k using C(11) [of va k] lt [of va] that by blast
      show "PGROUNDDOWN va = PGROUNDDOWN vb" if "va < i + PGSIZE" "vb < i + PGSIZE"
        "pte_valid (leaf (mem s) old va) \<and> pte_valid (leaf (mem s) old vb) \<and> G (PGROUNDDOWN va) = G (PGROUNDDOWN vb)" for va vb
        using C(12) [of va vb] lt [of va] lt [of vb] that by blast
    qed ((rule C(1-7))+, erule C(9))
    ultimately show ?thesis by auto
  next
    case True
    have P: "tables (mem s) old \<inter> tables (mem s) new = {}" "\<not> pte_valid (leaf (mem s) new i)" "PTE2PA (leaf (mem s) old i) \<notin> free_pages s \<union> tables (mem s) new"
      using pre True i(1) ri unfolding copy_pre_def by metis+
    have os: "tables (mem s) old \<inter> free_pages s = {}" using pre by (auto simp: copy_pre_def pt_ok_def)
    have dj: "tables (mem t) old \<inter> tables (mem t) new = {}" using C(5,6) P(1) os by blast
    have nw: "\<not> pte_valid (leaf (mem t) new i)" using C(8) [OF im] P(2) by simp
    have vl: "pte_valid (leaf (mem t) old i)" using True C(7) by simp
    have fr: "PTE2PA (leaf (mem t) old i) \<notin> free_pages t \<union> tables (mem t) new" using P(3) C(4,6) unfolding C(7) by blast
    obtain pg v where v: "uvmcopy_page old new i t = Ok True v" "page_copied old new i pg t v"
      using uvmcopy_page_copies [OF C(2,3) dj im i(2) nw vl fr card] by blast
    note V = v(2) [unfolded page_copied_def C(7)]
    have Vpg: "pg \<in> free_pages t" "pg \<notin> free_pages v" "pg \<notin> tables (mem v) new" and Vom: "only_mem t v" and Vok: "pt_ok v old" "pt_ok v new"
      and Vf: "free_pages v \<subseteq> free_pages t" and Vc: "card (free_pages t) \<le> card (free_pages v) + 3" and Vt: "tables (mem v) old = tables (mem t) old" "tables (mem v) new \<subseteq> tables (mem t) new \<union> free_pages t"
      and Vo: "\<And>va. leaf (mem v) old va = leaf (mem s) old va"
      and Vn: "\<And>vb. vb < MAXVA \<Longrightarrow> leaf (mem v) new vb = (if PGROUNDDOWN vb = i then PA2PTE pg OR PTE_FLAGS (leaf (mem s) old i) OR PTE_V else leaf (mem t) new vb)"
      and Vb: "\<And>k. k < 4096 \<Longrightarrow> mem v (pg + of_nat k) = mem t (PTE2PA (leaf (mem s) old i) + of_nat k)"
      and Vm: "\<And>a. PGROUNDDOWN a \<notin> free_pages t \<union> tables (mem t) new \<Longrightarrow> mem v a = mem t a"
      using V by simp_all
    let ?G = "G(i := pg)"
    have page: "leaf (mem s) old va = leaf (mem s) old i" if "PGROUNDDOWN va = i" for va using leaf_same_page [of va i] that ri by simp
    have at: "PGROUNDDOWN va \<noteq> i" if "va < i" for va using N(3) [of va] that by auto
    have apart: "\<not> (PGROUNDDOWN a \<in> free_pages t \<union> tables (mem t) new)" if "PGROUNDDOWN a \<notin> free_pages s \<union> tables (mem s) new" for a
      using that C(4,6) by blast
    have "copied_below s old new (i + PGSIZE) ?G v"
      unfolding copied_below_def
    proof (intro conjI allI impI)
      show "only_mem s v" by (rule only_mem_trans [OF C(1) Vom])
      show "free_pages v \<subseteq> free_pages s" using Vf C(4) by blast
      show "tables (mem v) old = tables (mem s) old" using Vt(1) C(5) by simp
      show "tables (mem v) new \<subseteq> tables (mem s) new \<union> free_pages s" using Vt(2) C(4,6) by blast
      show "mem v a = mem s a" if "PGROUNDDOWN a \<notin> free_pages s \<union> tables (mem s) new" for a using Vm [of a] apart [OF that] C(9) [OF that] by simp
      show "leaf (mem v) new va = (if va < i + PGSIZE \<and> pte_valid (leaf (mem s) old va)
        then PA2PTE (?G (PGROUNDDOWN va)) OR PTE_FLAGS (leaf (mem s) old va) OR PTE_V else leaf (mem s) new va)" if "va < MAXVA" for va
        using Vn [OF that] C(8) [OF that] N(1) [of va] page [of va] at [of va] True by (cases "PGROUNDDOWN va = i") auto
      show "?G (PGROUNDDOWN va) \<in> free_pages s - free_pages v - tables (mem v) new" if "va < i + PGSIZE" "pte_valid (leaf (mem s) old va)" for va
      proof (cases "PGROUNDDOWN va = i")
        case True
        then show ?thesis using Vpg C(4) by auto
      next
        case False
        then have "va < i" using N(1) that(1) by simp
        then show ?thesis using C(10) [OF _ that(2)] Vf Vt(2) False by auto
      qed
      show "mem v (?G (PGROUNDDOWN va) + of_nat k) = mem s (PTE2PA (leaf (mem s) old va) + of_nat k)"
        if "va < i + PGSIZE" "pte_valid (leaf (mem s) old va)" "k < 4096" for va k
      proof (cases "PGROUNDDOWN va = i")
        case True
        have "PGROUNDDOWN (PTE2PA (leaf (mem s) old i) + of_nat k) = PTE2PA (leaf (mem s) old i)"
          using round_add(2) [of k "PTE2PA (leaf (mem s) old i)"] PTE2PA_aligned that(3) by (simp add: page_aligned_def PGROUNDDOWN_aligned)
        then show ?thesis using True Vb [OF that(3)] page [OF True] C(9) [of "PTE2PA (leaf (mem s) old i) + of_nat k"] P(3) by simp
      next
        case False
        then have va: "va < i" using N(1) that(1) by simp
        let ?g = "G (PGROUNDDOWN va)"
        have g: "?g \<in> free_pages s - free_pages t - tables (mem t) new" by (rule C(10) [OF va that(2)])
        have "kmem_ready s" using pre by (simp add: copy_pre_def pt_ok_def)
        then have "page_aligned ?g" using kmem.avail_page [of s ?g] g by (auto simp: kpage_def)
        then have "PGROUNDDOWN (?g + of_nat k) = ?g" using round_add(2) [of k ?g] that(3) by (simp add: page_aligned_def PGROUNDDOWN_aligned)
        then show ?thesis using Vm [of "?g + of_nat k"] g C(11) [OF va that(2,3)] False by simp
      qed
      show "PGROUNDDOWN va = PGROUNDDOWN vb" if "va < i + PGSIZE" "vb < i + PGSIZE"
        "pte_valid (leaf (mem s) old va) \<and> pte_valid (leaf (mem s) old vb) \<and> ?G (PGROUNDDOWN va) = ?G (PGROUNDDOWN vb)" for va vb
        using that N(1) [of va] N(1) [of vb] C(10) [of va] C(10) [of vb] C(12) [of va vb] Vpg(1) by (auto split: if_splits)
    qed (rule Vok Vo)+
    then show ?thesis using v(1) Vc by blast
  qed
qed

lemma uvmcopy_loop_copies:
  fixes s t :: "'x kmachine_scheme"
  assumes "copy_pre s old new n" "copied_below s old new i G t" "page_aligned i" "3 * k \<le> card (free_pages t)" "unat n \<le> unat i + 4096 * k" "\<forall>va < i. PGROUNDDOWN va < n"
  shows "\<exists>G' t' j. uvmcopy_loop old new i n t = Ok 0 t' \<and> page_aligned j \<and> n \<le> j \<and> copied_below s old new j G' t' \<and> (\<forall>va < j. PGROUNDDOWN va < n)"
  using assms
proof (induction k arbitrary: i G t)
  case 0
  then have "\<not> i < n" "n \<le> i" by (simp_all add: word_less_nat_alt word_le_nat_alt)
  then show ?case using 0 by (auto simp: uvmcopy_loop.simps [of old new i n t])
next
  case (Suc k)
  show ?case
  proof (cases "i < n")
    case True
    have im: "i < MAXVA" using True Suc.prems(1) less_le_trans unfolding copy_pre_def by blast
    have "3 \<le> card (free_pages t)" using Suc.prems(4) by simp
    from uvmcopy_step [OF Suc.prems(1,2) True Suc.prems(3) this] obtain G' v where
      v: "uvmcopy_page old new i t = Ok True v" "copied_below s old new (i + PGSIZE) G' v" "card (free_pages t) \<le> card (free_pages v) + 3" by blast
    have "3 * k \<le> card (free_pages v)" "unat n \<le> unat (i + PGSIZE) + 4096 * k" using Suc.prems(4,5) v(3) below_MAXVA_step [OF im] by simp_all
    moreover have "\<forall>va < i + PGSIZE. PGROUNDDOWN va < n" using next_user_page(1) [OF Suc.prems(3) im] Suc.prems(6) True by auto
    ultimately show ?thesis using Suc.IH [OF Suc.prems(1) v(2) next_user_page(2) [OF Suc.prems(3) im]]
      True v(1) by (simp add: uvmcopy_loop.simps [of old new i n t])
  next
    case False
    then have "n \<le> i" by simp
    then show ?thesis using False Suc.prems(2,3,6) by (auto simp: uvmcopy_loop.simps [of old new i n t])
  qed
qed

lemma round_less: "page_aligned j \<Longrightarrow> PGROUNDDOWN va < j \<longleftrightarrow> va < j"
proof -
  assume "page_aligned j"
  then obtain q where q: "unat j = 4096 * q" by (auto simp: page_aligned_def)
  have "4096 * (unat va div 4096) < 4096 * q \<longleftrightarrow> unat va < 4096 * q" by (simp add: div_less_iff_less_mult mult.commute)
  then show ?thesis by (simp add: word_less_nat_alt unat_PGROUNDDOWN q)
qed

lemma copied_entry:
  assumes "kpage e pg" "pte_valid v"
  shows "PTE2PA (PA2PTE pg OR PTE_FLAGS v OR PTE_V) = pg" "PTE_FLAGS (PA2PTE pg OR PTE_FLAGS v OR PTE_V) = PTE_FLAGS v" "pte_valid (PA2PTE pg OR PTE_FLAGS v OR PTE_V)"
proof -
  have b: "bit v 0" using assms(2) by (simp add: pte_valid_def PTE_V_def and_one_eq odd_iff_mod_2_eq_one) (metis bit_0 odd_iff_mod_2_eq_one)
  have m: "(0x3FF :: u64) = mask 10" by (simp add: mask_eq_exp_minus_1)
  have f: "PTE_FLAGS v OR PTE_V = PTE_FLAGS v" unfolding PTE_FLAGS_def m using b by (intro bit_word_eqI) (auto simp: PTE_V_def bit_simps)
  have s: "unat (PTE_FLAGS v) < 2 ^ 10" unfolding PTE_FLAGS_def m using take_bit_nat_less_exp [of 10 "unat v"] by (simp add: unsigned_take_bit_eq flip: take_bit_eq_mask)
  have o: "PA2PTE pg OR PTE_FLAGS v OR PTE_V = PA2PTE pg OR PTE_FLAGS v" using f by (simp add: or.assoc)
  show "PTE2PA (PA2PTE pg OR PTE_FLAGS v OR PTE_V) = pg" unfolding o by (rule PTE2PA_PA2PTE [OF kpage_pte_pa [OF assms(1)] s])
  show "PTE_FLAGS (PA2PTE pg OR PTE_FLAGS v OR PTE_V) = PTE_FLAGS v" unfolding o by (rule PTE_FLAGS_PA2PTE [OF s])
  have "bit ((PA2PTE pg OR PTE_FLAGS v OR PTE_V) AND PTE_V) 0" by (simp add: PTE_V_def bit_simps)
  then show "pte_valid (PA2PTE pg OR PTE_FLAGS v OR PTE_V)" by (auto simp: pte_valid_def)
qed

text \<open>The new space is a copy of the old one below \<open>n\<close>: the same pages are mapped with the same flags and bytes, on
  fresh pages of their own.\<close>

definition space_copied :: "'x kmachine_scheme \<Rightarrow> u64 \<Rightarrow> u64 \<Rightarrow> u64 \<Rightarrow> 'x kmachine_scheme \<Rightarrow> bool" where
  "space_copied s old new n t \<longleftrightarrow>
     (\<forall>va. PGROUNDDOWN va < n \<and> pte_valid (leaf (mem s) old va) \<longrightarrow>
        pte_valid (leaf (mem t) new va) \<and> PTE_FLAGS (leaf (mem t) new va) = PTE_FLAGS (leaf (mem s) old va) \<and>
        PTE2PA (leaf (mem t) new va) \<in> free_pages s - free_pages t - tables (mem t) new \<and>
        mem t (upa (mem t) new va) = mem s (upa (mem s) old va)) \<and>
     (\<forall>va. PGROUNDDOWN va < n \<and> \<not> pte_valid (leaf (mem s) old va) \<longrightarrow> \<not> pte_valid (leaf (mem t) new va)) \<and>
     (\<forall>va vb. PGROUNDDOWN va < n \<and> PGROUNDDOWN vb < n \<and> pte_valid (leaf (mem s) old va) \<and> pte_valid (leaf (mem s) old vb) \<and>
        PTE2PA (leaf (mem t) new va) = PTE2PA (leaf (mem t) new vb) \<longrightarrow> PGROUNDDOWN va = PGROUNDDOWN vb)"

lemma copied_below_space:
  assumes pre: "copy_pre s old new n" and c: "copied_below s old new j G t" and j: "page_aligned j" "n \<le> j"
  shows "space_copied s old new n t"
proof -
  note C = copied_belowD [OF c]
  have ready: "kmem_ready s" using pre by (simp add: copy_pre_def pt_ok_def)
  have lt: "va < j" "va < MAXVA" if "PGROUNDDOWN va < n" for va
  proof -
    have "page_aligned MAXVA" "n \<le> MAXVA" using pre by (simp_all add: copy_pre_def page_aligned_def MAXVA_def)
    then show "va < j" "va < MAXVA" using round_less [OF j(1), of va] round_less [of MAXVA va] that j(2) by (meson less_le_trans)+
  qed
  have e: "leaf (mem t) new va = PA2PTE (G (PGROUNDDOWN va)) OR PTE_FLAGS (leaf (mem s) old va) OR PTE_V" and kp: "kpage (kend s) (G (PGROUNDDOWN va))"
    if "PGROUNDDOWN va < n" "pte_valid (leaf (mem s) old va)" for va
    using C(8) [OF lt(2) [OF that(1)]] lt(1) [OF that(1)] that(2) C(10) [OF lt(1) [OF that(1)] that(2)] kmem.avail_page [OF ready] by auto
  have g: "PTE2PA (leaf (mem t) new va) = G (PGROUNDDOWN va)" "PTE_FLAGS (leaf (mem t) new va) = PTE_FLAGS (leaf (mem s) old va)" "pte_valid (leaf (mem t) new va)"
    if "PGROUNDDOWN va < n" "pte_valid (leaf (mem s) old va)" for va
    unfolding e [OF that] by (rule copied_entry [OF kp [OF that] that(2)])+
  have b: "mem t (upa (mem t) new va) = mem s (upa (mem s) old va)" if "PGROUNDDOWN va < n" "pte_valid (leaf (mem s) old va)" for va
  proof -
    have "unat (va - PGROUNDDOWN va) < 4096" using page_offset [of va] by simp
    from C(11) [OF lt(1) [OF that(1)] that(2) this] show ?thesis using g(1) [OF that] by (simp add: upa_def)
  qed
  show ?thesis
    unfolding space_copied_def
  proof (intro conjI allI impI)
    show "pte_valid (leaf (mem t) new va)" "PTE_FLAGS (leaf (mem t) new va) = PTE_FLAGS (leaf (mem s) old va)" "mem t (upa (mem t) new va) = mem s (upa (mem s) old va)"
      "PTE2PA (leaf (mem t) new va) \<in> free_pages s - free_pages t - tables (mem t) new"
      if a: "PGROUNDDOWN va < n \<and> pte_valid (leaf (mem s) old va)" for va
    proof -
      have v: "PGROUNDDOWN va < n" "pte_valid (leaf (mem s) old va)" using a by blast+
      show "pte_valid (leaf (mem t) new va)" "PTE_FLAGS (leaf (mem t) new va) = PTE_FLAGS (leaf (mem s) old va)" "mem t (upa (mem t) new va) = mem s (upa (mem s) old va)"
        by (rule g(3) [OF v] g(2) [OF v] b [OF v])+
      show "PTE2PA (leaf (mem t) new va) \<in> free_pages s - free_pages t - tables (mem t) new" unfolding g(1) [OF v] by (rule C(10) [OF lt(1) [OF v(1)] v(2)])
    qed
    show "\<not> pte_valid (leaf (mem t) new va)" if a: "PGROUNDDOWN va < n \<and> \<not> pte_valid (leaf (mem s) old va)" for va
      using C(8) [OF lt(2), of va] a pre by (simp add: copy_pre_def)
    show "PGROUNDDOWN va = PGROUNDDOWN vb" if a: "PGROUNDDOWN va < n \<and> PGROUNDDOWN vb < n \<and> pte_valid (leaf (mem s) old va) \<and> pte_valid (leaf (mem s) old vb) \<and>
        PTE2PA (leaf (mem t) new va) = PTE2PA (leaf (mem t) new vb)" for va vb
    proof -
      have v: "PGROUNDDOWN va < n" "pte_valid (leaf (mem s) old va)" "PGROUNDDOWN vb < n" "pte_valid (leaf (mem s) old vb)"
        and e: "PTE2PA (leaf (mem t) new va) = PTE2PA (leaf (mem t) new vb)" using a by blast+
      show ?thesis by (rule C(12) [OF lt(1) [OF v(1)] lt(1) [OF v(3)] v(2,4)]) (use e in \<open>simp only: g(1) [OF v(1,2)] g(1) [OF v(3,4)]\<close>)
    qed
  qed
qed

lemma uvmcopy_effect:
  fixes s :: "'x kmachine_scheme"
  assumes pre: "copy_pre s old new n" and card: "3 * ((unat n + 4095) div 4096) \<le> card (free_pages s)"
  shows "\<exists>t. uvmcopy old new n s = Ok 0 t \<and> only_mem s t \<and> pt_ok t old \<and> pt_ok t new \<and> space_copied s old new n t \<and>
    free_pages t \<subseteq> free_pages s \<and> tables (mem t) old = tables (mem s) old \<and> tables (mem t) new \<subseteq> tables (mem s) new \<union> free_pages s \<and> (\<forall>va. leaf (mem t) old va = leaf (mem s) old va) \<and>
    (\<forall>va < MAXVA. n \<le> PGROUNDDOWN va \<longrightarrow> leaf (mem t) new va = leaf (mem s) new va) \<and>
    (\<forall>a. PGROUNDDOWN a \<notin> free_pages s \<union> tables (mem s) new \<longrightarrow> mem t a = mem s a)"
proof -
  have ok: "pt_ok s old" "pt_ok s new" using pre by (simp_all add: copy_pre_def)
  have "copied_below s old new 0 (\<lambda>_. 0) s" using ok by (simp add: copied_below_def)
  moreover have "page_aligned 0" "\<forall>va < 0. PGROUNDDOWN va < n" by (simp_all add: page_aligned_def)
  moreover have "unat n \<le> unat (0 :: u64) + 4096 * ((unat n + 4095) div 4096)" by simp
  ultimately obtain G t j where t: "uvmcopy_loop old new 0 n s = Ok 0 t" "page_aligned j" "n \<le> j" "copied_below s old new j G t" "\<forall>va < j. PGROUNDDOWN va < n"
    using uvmcopy_loop_copies [OF pre _ _ card] by blast
  note C = copied_belowD [OF t(4)]
  have "leaf (mem t) new va = leaf (mem s) new va" if "va < MAXVA" "n \<le> PGROUNDDOWN va" for va
    using C(8) [OF that(1)] t(5) that(2) by (auto simp: not_less [symmetric])
  moreover have "space_copied s old new n t" by (rule copied_below_space [OF pre t(4,2,3)])
  moreover have "uvmcopy old new n s = Ok 0 t" using t(1) by (simp add: uvmcopy_def)
  ultimately show ?thesis using C(1-7,9) by blast
qed

section \<open>The steps of kfork under the child's lock\<close>

lemma acquired_fork:
  fixes s :: "'x kfile_scheme"
  shows "(acquired l s)\<lparr>mem := m\<rparr> = acquired l (s\<lparr>mem := m\<rparr>)" "(acquired l s)\<lparr>freelist := f\<rparr> = acquired l (s\<lparr>freelist := f\<rparr>)"
    "(acquired l s)\<lparr>procs := x\<rparr> = acquired l (s\<lparr>procs := x\<rparr>)" "(acquired l s)\<lparr>nextpid := n\<rparr> = acquired l (s\<lparr>nextpid := n\<rparr>)"
    "(acquired l s)\<lparr>files := y\<rparr> = acquired l (s\<lparr>files := y\<rparr>)" "(acquired l s)\<lparr>inodes := z\<rparr> = acquired l (s\<lparr>inodes := z\<rparr>)"
    "files (acquired l s) = files s" "inodes (acquired l s) = inodes s" "forkret_pc (acquired l s) = forkret_pc s"
  by (cases s; simp add: acquired_def)+

text \<open>A call inside which a second lock is taken and given back.\<close>

lemma second_lock:
  assumes "irq_state_ok s" "\<forall>l. lock_free l (locks s)" "k \<noteq> l"
  shows "acquire k (acquired l s) = Ok () (acquired k (acquired l s))" "release k (acquired k (acquired l s)) = Ok () (acquired l s)"
proof -
  show "acquire k (acquired l s) = Ok () (acquired k (acquired l s))" by (rule acquire_acquired) (use assms in simp)
  show "release k (acquired k (acquired l s)) = Ok () (acquired l s)" by (rule release_second(1) [OF assms(1)]) (use assms in simp_all)
qed

definition dup_fd :: "nat \<Rightarrow> nat \<Rightarrow> nat \<Rightarrow> 'x kfile_scheme \<Rightarrow> 'x kfile_scheme" where
  "dup_fd p np i s = (case ofile (procs s p) i of None \<Rightarrow> s | Some f \<Rightarrow>
     s\<lparr>procs := (procs s)(np := (procs s np)\<lparr>ofile := (ofile (procs s np))(i := Some f)\<rparr>),
       files := (files s)(f := (files s f)\<lparr>fref := fref (files s f) + 1\<rparr>)\<rparr>)"

lemma quiet_fork [simp]:
  fixes s :: "'x kfile_scheme"
  shows "quiet (s\<lparr>mem := m\<rparr>) = quiet s" "quiet (s\<lparr>freelist := f\<rparr>) = quiet s" "quiet (s\<lparr>nextpid := n\<rparr>) = quiet s"
    "quiet (s\<lparr>files := y\<rparr>) = quiet s" "quiet (s\<lparr>inodes := z\<rparr>) = quiet s"
  by (simp_all add: quiet_def irq_state_ok_def)

lemma filedup_inside:
  fixes s :: "'x kfile_scheme"
  assumes "quiet s" "1 \<le> fref (files s f)" "l \<noteq> L_ftable"
  shows "filedup f (acquired l s) = Ok f (acquired l (s\<lparr>files := (files s)(f := (files s f)\<lparr>fref := fref (files s f) + 1\<rparr>)\<rparr>))"
proof -
  let ?t = "s\<lparr>files := (files s)(f := (files s f)\<lparr>fref := fref (files s f) + 1\<rparr>)\<rparr>"
  note a = second_lock(1) [of s L_ftable l] second_lock(2) [of ?t L_ftable l]
  have "quiet ?t" using assms(1) by simp
  then have "acquire L_ftable (acquired l s) = Ok () (acquired L_ftable (acquired l s))" "release L_ftable (acquired L_ftable (acquired l ?t)) = Ok () (acquired l ?t)"
    using a assms(1,3) unfolding quiet_def by blast+
  then show ?thesis using assms(2) by (simp add: filedup_def get_file_def upd_file_def acquired_fork del: fun_upd_apply)
qed

lemma dup_fd_facts:
  fixes s :: "'x kfile_scheme"
  assumes "np \<noteq> p"
  shows "procs (dup_fd p np i s) p = procs s p" "quiet (dup_fd p np i s) = quiet s" "fref (files s f) \<le> fref (files (dup_fd p np i s) f)"
  using assms by (auto simp: dup_fd_def split: option.split)

lemma dup_all_inside:
  fixes s :: "'x kfile_scheme"
  assumes "quiet s" "np \<noteq> p" "\<forall>i \<in> set is. \<forall>f. ofile (procs s p) i = Some f \<longrightarrow> 1 \<le> fref (files s f)" "l \<noteq> L_ftable"
  shows "for_each (kfork_fd p np) is (acquired l s) = Ok () (acquired l (fold (dup_fd p np) is s))"
  using assms
proof (induction "is" arbitrary: s)
  case (Cons i "is")
  have step: "kfork_fd p np i (acquired l s) = Ok () (acquired l (dup_fd p np i s))"
  proof (cases "ofile (procs s p) i")
    case None
    then show ?thesis by (simp add: kfork_fd_def get_proc_def dup_fd_def)
  next
    case (Some f)
    then have "1 \<le> fref (files s f)" using Cons.prems(3) by simp
    from filedup_inside [OF Cons.prems(1) this Cons.prems(4)] show ?thesis
      using Some by (cases s) (simp add: kfork_fd_def get_proc_def dup_fd_def upd_proc_def acquired_def)
  qed
  note F = dup_fd_facts [OF Cons.prems(2), where i = i and s = s]
  have "\<forall>j \<in> set is. \<forall>f. ofile (procs (dup_fd p np i s) p) j = Some f \<longrightarrow> 1 \<le> fref (files (dup_fd p np i s) f)"
    unfolding F(1) using Cons.prems(3) F(3) order_trans by (metis list.set_intros(2))
  then show ?case using Cons.IH [of "dup_fd p np i s"] Cons.prems(1,2,4) F(2) step by simp
qed simp

definition refs_to :: "proc \<Rightarrow> nat list \<Rightarrow> nat \<Rightarrow> int" where
  "refs_to q is f = int (length (filter (\<lambda>i. ofile q i = Some f) is))"

lemma dup_fd_step:
  fixes s :: "'x kfile_scheme"
  assumes "ofile (A p) i = Some f"
  shows "dup_fd p np i (s\<lparr>procs := A, files := B\<rparr>) =
    s\<lparr>procs := A(np := (A np)\<lparr>ofile := (ofile (A np))(i := Some f)\<rparr>), files := B(f := (B f)\<lparr>fref := fref (B f) + 1\<rparr>)\<rparr>"
  using assms by (simp add: dup_fd_def del: fun_upd_apply)

lemma dup_all_fold:
  fixes s :: "'x kfile_scheme"
  assumes "np \<noteq> p"
  shows "fold (dup_fd p np) is s = s\<lparr>procs := (procs s)(np := (procs s np)\<lparr>ofile := (\<lambda>i. if i \<in> set is \<and> ofile (procs s p) i \<noteq> None then ofile (procs s p) i else ofile (procs s np) i)\<rparr>),
    files := (\<lambda>f. (files s f)\<lparr>fref := fref (files s f) + refs_to (procs s p) is f\<rparr>)\<rparr>"
proof (induction "is" rule: rev_induct)
  case Nil
  have "(procs s)(np := (procs s np)\<lparr>ofile := ofile (procs s np)\<rparr>) = procs s" by (simp add: fun_upd_idem)
  then show ?case by (cases s) (simp add: refs_to_def)
next
  case (snoc i "is")
  let ?q = "procs s p"
  show ?case
  proof (cases "ofile ?q i")
    case None
    have "refs_to ?q (is @ [i]) f = refs_to ?q is f" for f using None by (simp add: refs_to_def)
    moreover have "(j \<in> set (is @ [i]) \<and> ofile ?q j \<noteq> None) = (j \<in> set is \<and> ofile ?q j \<noteq> None)" for j using None by auto
    ultimately show ?thesis using snoc None assms by (simp add: dup_fd_def)
  next
    case (Some f)
    have r: "refs_to ?q (is @ [i]) g = refs_to ?q is g + (if g = f then 1 else 0)" for g using Some by (simp add: refs_to_def)
    have o: "(\<lambda>j. if j \<in> set (is @ [i]) \<and> ofile ?q j \<noteq> None then ofile ?q j else ofile (procs s np) j) =
        (\<lambda>j. if j \<in> set is \<and> ofile ?q j \<noteq> None then ofile ?q j else ofile (procs s np) j)(i := Some f)" using Some by (auto simp: fun_eq_iff)
    have fl: "(\<lambda>g. (files s g)\<lparr>fref := fref (files s g) + refs_to ?q (is @ [i]) g\<rparr>) =
        (\<lambda>g. (files s g)\<lparr>fref := fref (files s g) + refs_to ?q is g\<rparr>)(f := (files s f)\<lparr>fref := fref (files s f) + refs_to ?q is f + 1\<rparr>)"
      by (simp add: fun_eq_iff r)
    define A where "A = (procs s)(np := (procs s np)\<lparr>ofile := (\<lambda>i. if i \<in> set is \<and> ofile ?q i \<noteq> None then ofile ?q i else ofile (procs s np) i)\<rparr>)"
    define B where "B = (\<lambda>g. (files s g)\<lparr>fref := fref (files s g) + refs_to ?q is g\<rparr>)"
    have ih: "fold (dup_fd p np) is s = s\<lparr>procs := A, files := B\<rparr>" unfolding A_def B_def by (rule snoc)
    have "ofile (A p) i = Some f" using Some assms by (simp add: A_def)
    from dup_fd_step [where A = A and p = p and np = np and s = s and B = B, OF this] have "fold (dup_fd p np) (is @ [i]) s =
      s\<lparr>procs := A(np := (A np)\<lparr>ofile := (ofile (A np))(i := Some f)\<rparr>), files := B(f := (B f)\<lparr>fref := fref (B f) + 1\<rparr>)\<rparr>"
      by (simp add: ih del: fun_upd_apply)
    then show ?thesis unfolding o fl by (simp add: A_def B_def fun_upd_same del: fun_upd_apply)
  qed
qed

lemma idup_inside:
  fixes s :: "'x kfile_scheme"
  assumes "quiet s" "l \<noteq> L_itable"
  shows "idup w (acquired l s) = Ok w (acquired l (s\<lparr>inodes := (inodes s)(w := (inodes s w)\<lparr>iref := iref (inodes s w) + 1\<rparr>)\<rparr>))"
proof -
  let ?t = "s\<lparr>inodes := (inodes s)(w := (inodes s w)\<lparr>iref := iref (inodes s w) + 1\<rparr>)\<rparr>"
  have "quiet ?t" using assms(1) by simp
  then have "acquire L_itable (acquired l s) = Ok () (acquired L_itable (acquired l s))" "release L_itable (acquired L_itable (acquired l ?t)) = Ok () (acquired l ?t)"
    using second_lock(1) [of s L_itable l] second_lock(2) [of ?t L_itable l] assms unfolding quiet_def by blast+
  then show ?thesis by (simp add: idup_def upd_inode_def acquired_fork del: fun_upd_apply)
qed

text \<open>From the copied space to the end: the child is filled in, linked to its parent and made runnable.\<close>

definition child_of :: "nat \<Rightarrow> proc \<Rightarrow> proc \<Rightarrow> proc" where
  "child_of p q d = d\<lparr>state := RUNNABLE, parent := Some p, sz := sz q,
     ofile := (\<lambda>i. if i < NOFILE \<and> ofile q i \<noteq> None then ofile q i else ofile d i), cwd := cwd q,
     pname := set_name (takeWhile (\<lambda>c. c \<noteq> 0) (pname q)) (pname d)\<rparr>"

definition forked :: "nat \<Rightarrow> nat \<Rightarrow> nat \<Rightarrow> 'x kfile_scheme \<Rightarrow> 'x kfile_scheme" where
  "forked p np w s = s\<lparr>mem := store64 (trapframe (procs s np) + TF_a 0) 0 (memmove (trapframe (procs s np)) (trapframe (procs s p)) 288 (mem s)),
     procs := (procs s)(np := child_of p (procs s p) (procs s np)),
     inodes := (inodes s)(w := (inodes s w)\<lparr>iref := iref (inodes s w) + 1\<rparr>),
     files := (\<lambda>f. (files s f)\<lparr>fref := fref (files s f) + refs_to (procs s p) [0..<NOFILE] f\<rparr>)\<rparr>"

definition kfork_rest :: "nat \<Rightarrow> nat \<Rightarrow> proc \<Rightarrow> ('x kfile_scheme, int) kop" where
  "kfork_rest p np q =
     kthen (upd_proc np (\<lambda>d. d\<lparr>sz := sz q\<rparr>)) (
     kthen (copy_trapframe np p) (
     kthen (store_tf np (TF_a 0) 0) (
     kthen (for_each (kfork_fd p np) [0..<NOFILE]) (
     kbind (deref (cwd q)) (\<lambda>w.
     kbind (idup w) (\<lambda>w'.
     kthen (upd_proc np (\<lambda>d. d\<lparr>cwd := Some w', pname := set_name (takeWhile (\<lambda>c. c \<noteq> 0) (pname q)) (pname d)\<rparr>)) (
     kbind (get_proc np) (\<lambda>d.
     kthen (release (L_proc np)) (
     kthen (acquire L_wait) (
     kthen (upd_proc np (\<lambda>d. d\<lparr>parent := Some p\<rparr>)) (
     kthen (release L_wait) (
     kthen (acquire (L_proc np)) (
     kthen (upd_proc np (\<lambda>d. d\<lparr>state := RUNNABLE\<rparr>)) (
     kthen (release (L_proc np)) (
     ret (pid d))))))))))))))))"

lemma lock_calls:
  assumes "quiet s"
  shows "acquire l (settle s) = Ok () (acquired l s)" "release l (acquired l s) = Ok () (settle s)"
  using acquire_acquired [of l "settle s"] release_acquired [of s l] assms by (simp_all add: quiet_def)

lemma upd_proc_inside: "upd_proc np f (acquired l s) = Ok () (acquired l (s\<lparr>procs := (procs s)(np := f (procs s np))\<rparr>))"
  by (simp add: upd_proc_def acquired_upd_procs del: fun_upd_apply)

lemma fork_order:
  fixes s :: "'x kfile_scheme"
  shows "s\<lparr>mem := m, files := y, inodes := z, procs := x\<rparr> = s\<lparr>mem := m, procs := x, inodes := z, files := y\<rparr>"
    "d\<lparr>sz := n, ofile := a, cwd := c, pname := e, parent := f, state := g\<rparr> = d\<lparr>state := g, parent := f, sz := n, ofile := a, cwd := c, pname := e\<rparr>"
  by (cases s; simp) (cases d; simp)

lemma kfork_rest_run:
  fixes s :: "'x kfile_scheme"
  assumes q: "quiet s" "np \<noteq> p" and f: "\<forall>i < NOFILE. \<forall>f. ofile (procs s p) i = Some f \<longrightarrow> 1 \<le> fref (files s f)" and w: "cwd (procs s p) = Some w"
  shows "kfork_rest p np (procs s p) (acquired (L_proc np) s) = Ok (pid (procs s np)) (settle (forked p np w s))"
proof -
  let ?q = "procs s p" and ?d = "procs s np" and ?L = "L_proc np"
  define s1 where "s1 = s\<lparr>procs := (procs s)(np := ?d\<lparr>sz := sz ?q\<rparr>)\<rparr>"
  define s2 where "s2 = s1\<lparr>mem := store64 (trapframe ?d + TF_a 0) 0 (memmove (trapframe ?d) (trapframe ?q) 288 (mem s))\<rparr>"
  define s3 where "s3 = fold (dup_fd p np) [0..<NOFILE] s2"
  define s4 where "s4 = s3\<lparr>inodes := (inodes s)(w := (inodes s w)\<lparr>iref := iref (inodes s w) + 1\<rparr>)\<rparr>"
  define s5 where "s5 = s4\<lparr>procs := (procs s4)(np := (procs s4 np)\<lparr>cwd := Some w, pname := set_name (takeWhile (\<lambda>c. c \<noteq> 0) (pname ?q)) (pname (procs s4 np))\<rparr>)\<rparr>"
  define s6 where "s6 = s5\<lparr>procs := (procs s5)(np := (procs s5 np)\<lparr>parent := Some p\<rparr>)\<rparr>"
  define s7 where "s7 = s6\<lparr>procs := (procs s6)(np := (procs s6 np)\<lparr>state := RUNNABLE\<rparr>)\<rparr>"
  have p2: "procs s2 p = ?q" "files s2 = files s" "inodes s2 = inodes s" "quiet s2" "quiet s1" using q by (simp_all add: s2_def s1_def)
  have d2: "ofile (procs s2 np) = ofile ?d" by (simp add: s2_def s1_def)
  have e3: "s3 = s2\<lparr>procs := (procs s2)(np := (procs s2 np)\<lparr>ofile := (\<lambda>i. if i < NOFILE \<and> ofile ?q i \<noteq> None then ofile ?q i else ofile ?d i)\<rparr>),
    files := (\<lambda>f. (files s f)\<lparr>fref := fref (files s f) + refs_to ?q [0..<NOFILE] f\<rparr>)\<rparr>"
    using dup_all_fold [OF q(2), of "[0..<NOFILE]" s2] unfolding s3_def p2(1,2) d2 by (simp del: fun_upd_apply)
  have Q: "quiet s3" "quiet s4" "quiet s5" "quiet s6" "quiet s7" "inodes s3 = inodes s" using p2 by (simp_all add: s7_def s6_def s5_def s4_def e3 del: fun_upd_apply)
  have "copy_trapframe np p (acquired ?L s1) = Ok () (acquired ?L (s1\<lparr>mem := memmove (trapframe ?d) (trapframe ?q) 288 (mem s)\<rparr>))"
    using q(2) by (simp add: copy_trapframe_def get_proc_def upd_mem_def acquired_fork s1_def)
  moreover have "store_tf np (TF_a 0) 0 (acquired ?L (s1\<lparr>mem := m\<rparr>)) = Ok () (acquired ?L (s1\<lparr>mem := store64 (trapframe ?d + TF_a 0) 0 m\<rparr>))" for m
    by (simp add: store_tf_def acquired_fork s1_def)
  moreover have "upd_proc np (\<lambda>d. d\<lparr>sz := sz ?q\<rparr>) (acquired ?L s) = Ok () (acquired ?L s1)" by (simp add: upd_proc_inside s1_def)
  moreover have "for_each (kfork_fd p np) [0..<NOFILE] (acquired ?L s2) = Ok () (acquired ?L s3)"
    unfolding s3_def by (rule dup_all_inside [OF p2(4) q(2)]) (use f p2(1,2) in simp_all)
  moreover have "idup w (acquired ?L s3) = Ok w (acquired ?L s4)" using idup_inside [OF Q(1), of ?L w] Q(6) by (simp add: s4_def)
  moreover have "upd_proc np (\<lambda>d. d\<lparr>cwd := Some w, pname := set_name (takeWhile (\<lambda>c. c \<noteq> 0) (pname ?q)) (pname d)\<rparr>) (acquired ?L s4) = Ok () (acquired ?L s5)"
    by (simp add: upd_proc_inside s5_def)
  moreover have pd: "pid (procs s5 np) = pid ?d" by (simp add: s5_def s4_def e3 s2_def s1_def)
  moreover have "upd_proc np (\<lambda>d. d\<lparr>parent := Some p\<rparr>) (acquired L_wait s5) = Ok () (acquired L_wait s6)" by (simp add: upd_proc_inside s6_def)
  moreover have "upd_proc np (\<lambda>d. d\<lparr>state := RUNNABLE\<rparr>) (acquired ?L s6) = Ok () (acquired ?L s7)" by (simp add: upd_proc_inside s7_def)
  ultimately have "kfork_rest p np ?q (acquired ?L s) = Ok (pid ?d) (settle s7)"
    unfolding kfork_rest_def using Q w by (simp add: s2_def [symmetric] get_proc_def lock_calls)
  moreover have "s7 = forked p np w s"
    using w by (simp add: s7_def s6_def s5_def s4_def e3 s2_def s1_def forked_def child_of_def fork_order fun_upd_same del: fun_upd_apply)
  ultimately show ?thesis by simp
qed

section \<open>kfork\<close>

lemma only_mem_eq:
  assumes "only_mem x u" "0 < noff (cpus x (tp x))"
  shows "u = x\<lparr>mem := mem u, freelist := freelist u\<rparr>"
proof -
  have "0 < noff (cpus u (tp u))" using assms noff_only_mem [OF assms(1)] only_mem_fields(1) [OF assms(1)] by simp
  then have "settle u = u" "settle x = x" using settle_nested assms(2) by blast+
  then show ?thesis using assms(1) unfolding only_mem_def by metis
qed

text \<open>
  The caller \<open>p\<close> may fork into slot \<open>np\<close>: the slot is the first unused one, the caller's pages and its trapframe
  are allocated, its files are open, and there is memory for the copy.
\<close>

definition fork_ready :: "nat \<Rightarrow> nat \<Rightarrow> nat \<Rightarrow> 'x kfile_scheme \<Rightarrow> bool" where
  "fork_ready p np w s \<longleftrightarrow> fs_ready p s \<and> pt_ok s (pagetable (procs s p)) \<and> sz (procs s p) \<le> TRAPFRAME \<and>
     (\<forall>va. PGROUNDDOWN va < sz (procs s p) \<and> pte_valid (leaf (mem s) (pagetable (procs s p)) va) \<longrightarrow>
        PTE2PA (leaf (mem s) (pagetable (procs s p)) va) \<notin> free_pages s) \<and>
     page_aligned (trapframe (procs s p)) \<and> trapframe (procs s p) \<notin> free_pages s \<and>
     np < NPROC \<and> state (procs s np) = UNUSED \<and> (\<forall>q < np. state (procs s q) \<noteq> UNUSED) \<and>
     (\<forall>i < NOFILE. \<forall>f. ofile (procs s p) i = Some f \<longrightarrow> 1 \<le> fref (files s f)) \<and> cwd (procs s p) = Some w \<and>
     6 + 3 * ((unat (sz (procs s p)) + 4095) div 4096) \<le> card (free_pages s)"

lemma fork_readyD:
  assumes "fork_ready p np w s"
  shows "fs_ready p s" "pt_ok s (pagetable (procs s p))" "sz (procs s p) \<le> TRAPFRAME"
    "PGROUNDDOWN va < sz (procs s p) \<Longrightarrow> pte_valid (leaf (mem s) (pagetable (procs s p)) va) \<Longrightarrow> PTE2PA (leaf (mem s) (pagetable (procs s p)) va) \<notin> free_pages s"
    "page_aligned (trapframe (procs s p))" "trapframe (procs s p) \<notin> free_pages s" "np < NPROC" "state (procs s np) = UNUSED" "\<forall>q < np. state (procs s q) \<noteq> UNUSED"
    "\<forall>i < NOFILE. \<forall>f. ofile (procs s p) i = Some f \<longrightarrow> 1 \<le> fref (files s f)" "cwd (procs s p) = Some w"
    "6 + 3 * ((unat (sz (procs s p)) + 4095) div 4096) \<le> card (free_pages s)" "np \<noteq> p"
  using assms by (auto simp: fork_ready_def fs_ready_def)

text \<open>The state after the address space has been made and copied, the child's lock still held.\<close>

definition space_made :: "nat \<Rightarrow> nat \<Rightarrow> u64 \<Rightarrow> u64 \<Rightarrow> 'x kfile_scheme \<Rightarrow> 'x kfile_scheme \<Rightarrow> bool" where
  "space_made p np tf pt s v \<longleftrightarrow> v = (with_newborn np tf pt s)\<lparr>mem := mem v, freelist := freelist v\<rparr> \<and>
     tf \<in> free_pages s \<and> tf \<notin> tables (mem v) pt \<and> tree_wf (mem v) pt \<and>
     (\<forall>va. PGROUNDDOWN va < sz (procs s p) \<and> pte_valid (leaf (mem s) (pagetable (procs s p)) va) \<longrightarrow>
        pte_valid (leaf (mem v) pt va) \<and> PTE_FLAGS (leaf (mem v) pt va) = PTE_FLAGS (leaf (mem s) (pagetable (procs s p)) va) \<and>
        PTE2PA (leaf (mem v) pt va) \<in> free_pages s - {tf} \<and> mem v (upa (mem v) pt va) = mem s (upa (mem s) (pagetable (procs s p)) va)) \<and>
     (\<forall>va. PGROUNDDOWN va < sz (procs s p) \<and> \<not> pte_valid (leaf (mem s) (pagetable (procs s p)) va) \<longrightarrow> \<not> pte_valid (leaf (mem v) pt va)) \<and>
     (\<forall>a. PGROUNDDOWN a \<notin> free_pages s \<longrightarrow> mem v a = mem s a)"

lemma kfork_space:
  fixes s :: "'x kfile_scheme"
  assumes r: "fork_ready p np w s"
  shows "\<exists>tf pt v. kfork s = kfork_rest p np (procs s p) (acquired (L_proc np) v) \<and> space_made p np tf pt s v"
proof -
  note R = fork_readyD [OF r]
  let ?q = "procs s p" and ?L = "L_proc np"
  let ?old = "pagetable ?q" and ?n = "sz ?q"
  have ready: "kmem_ready s" using R(2) by (simp add: pt_ok_def)
  have c6: "6 \<le> card (free_pages s)" using R(12) by simp
  have free: "proc_locks_free (settle s)" "lock_free L_pid (locks (settle s))" using fs_readyD(2,3) [OF R(1)] by (simp_all add: proc_locks_free_def)
  have st: "trampoline (settle s) = trampoline s" "forkret_pc (settle s) = forkret_pc s" "nextpid (settle s) = nextpid s" by (simp_all add: settle_def)
  obtain tf pt u where u: "allocproc (settle s) = Ok (Some np) u" "tf \<in> free_pages s" "tf \<notin> free_pages u" "pt_ok u pt" "bare_space (mem u) pt (trampoline s) tf"
    "fresh_space tf pt s u" "only_mem (with_newborn np tf pt (acquired ?L s)) u" "procs u = (procs s)(np := newborn (nextpid s) tf pt (forkret_pc s) (procs s np))"
    using allocproc_new [of "settle s" np] ready free c6 R(7-9) st by (auto simp: fresh_space_def)
  have F: "free_pages u \<subseteq> free_pages s" "card (free_pages s) \<le> card (free_pages u) + 6" "tables (mem u) pt \<subseteq> free_pages s - {tf}" "\<And>a. PGROUNDDOWN a \<notin> free_pages s \<Longrightarrow> mem u a = mem s a"
    using u(6) by (simp_all add: fresh_space_def)
  define x where "x = with_newborn np tf pt s"
  have X: "with_newborn np tf pt (acquired ?L s) = acquired ?L x" by (simp add: x_def with_newborn_def acquired_fork)
  have xf: "kend x = kend s" "irq_state_ok x" "procs x p = ?q" "tp x = tp s" "pagetable (procs x np) = pt"
    using fs_readyD(1) [OF R(1)] R(13) by (simp_all add: x_def with_newborn_def newborn_def irq_state_ok_def)
  have nx: "0 < noff (cpus (acquired ?L x) (tp (acquired ?L x)))" using irq_okD(2) [OF xf(2)] by (simp add: acquired_def)
  have ku: "kmem_ready u" "kend u = kend s" using u(4,7) only_mem_fields(4) [OF u(7)] xf(1) by (simp_all add: pt_ok_def X)
  have told: "PGROUNDDOWN a \<in> tables (mem s) ?old \<Longrightarrow> mem u a = mem s a" for a using F(4) [of a] R(2) by (auto simp: pt_ok_def)
  have O: "pt_ok u ?old" "tables (mem u) ?old = tables (mem s) ?old" "leaf (mem u) ?old va = leaf (mem s) ?old va" for va
    by (rule pt_ok_other [where v = u, OF R(2) ku F(1) told]; assumption)+
  have tb: "tables (mem s) ?old \<inter> free_pages s = {}" using R(2) by (auto simp: pt_ok_def)
  have n: "?n \<le> MAXVA" using R(3) high_pages(3) by simp
  have bare: "\<not> pte_valid (leaf (mem u) pt va)" if "PGROUNDDOWN va < ?n" for va
  proof -
    have "PGROUNDDOWN va < MAXVA" using that n by simp
    then have va: "va < MAXVA" using round_less [of MAXVA va] by (simp add: page_aligned_def MAXVA_def)
    have "PGROUNDDOWN va < TRAPFRAME" using that R(3) by simp
    moreover have "TRAPFRAME < TRAMPOLINE" by (simp add: TRAPFRAME_def TRAMPOLINE_def MAXVA_def PGSIZE_def)
    ultimately have "PGROUNDDOWN va \<noteq> TRAMPOLINE" "PGROUNDDOWN va \<noteq> TRAPFRAME" by auto
    then have "leaf (mem u) pt va = 0" using u(5) va by (simp add: bare_space_def)
    then show ?thesis by (simp add: pte_valid_def)
  qed
  have frames: "PTE2PA (leaf (mem u) ?old va) \<notin> free_pages u \<union> tables (mem u) pt" if "PGROUNDDOWN va < ?n" "pte_valid (leaf (mem u) ?old va)" for va
  proof -
    have "PTE2PA (leaf (mem s) ?old va) \<notin> free_pages s" using R(4) that unfolding O(3) .
    then show ?thesis using F(1,3) unfolding O(3) by blast
  qed
  have pre: "copy_pre u ?old pt ?n" unfolding copy_pre_def
    using O(1,2) u(4) tb F(3) n bare frames by blast
  have "3 * ((unat ?n + 4095) div 4096) \<le> card (free_pages u)" using R(12) F(2) by linarith
  from uvmcopy_effect [OF pre this] obtain v where v: "uvmcopy ?old pt ?n u = Ok 0 v" "only_mem u v" "pt_ok v pt" "space_copied u ?old pt ?n v"
    "tables (mem v) pt \<subseteq> tables (mem u) pt \<union> free_pages u" "\<forall>a. PGROUNDDOWN a \<notin> free_pages u \<union> tables (mem u) pt \<longrightarrow> mem v a = mem u a" by blast
  define y where "y = x\<lparr>mem := mem v, freelist := freelist v\<rparr>"
  have "v = (acquired ?L x)\<lparr>mem := mem v, freelist := freelist v\<rparr>" using only_mem_eq [OF only_mem_trans [OF u(7) v(2)]] nx unfolding X by blast
  then have vy: "v = acquired ?L y" by (simp add: y_def acquired_fork)
  have "procs u p = ?q" "procs u np = procs x np" using u(8) R(13) by (simp_all add: x_def with_newborn_def)
  then have run: "kfork s = kfork_rest p np ?q (acquired ?L y)"
    unfolding kfork_def kfork_rest_def using myproc_ready [OF R(1)] u(1) v(1) xf(5) by (simp add: get_proc_def vy)
  have m: "mem y = mem v" "freelist y = freelist v" by (simp_all add: y_def)
  have sc: "pte_valid (leaf (mem v) pt va)" "PTE_FLAGS (leaf (mem v) pt va) = PTE_FLAGS (leaf (mem s) ?old va)"
    "PTE2PA (leaf (mem v) pt va) \<in> free_pages s - {tf}" "mem v (upa (mem v) pt va) = mem s (upa (mem s) ?old va)"
    if va: "PGROUNDDOWN va < ?n" "pte_valid (leaf (mem s) ?old va)" for va
  proof -
    have V: "pte_valid (leaf (mem v) pt va)" "PTE_FLAGS (leaf (mem v) pt va) = PTE_FLAGS (leaf (mem s) ?old va)" "PTE2PA (leaf (mem v) pt va) \<in> free_pages u"
      "mem v (upa (mem v) pt va) = mem u (upa (mem u) ?old va)" using v(4) va unfolding space_copied_def O(3) by blast+
    show "pte_valid (leaf (mem v) pt va)" "PTE_FLAGS (leaf (mem v) pt va) = PTE_FLAGS (leaf (mem s) ?old va)" by (rule V)+
    show "PTE2PA (leaf (mem v) pt va) \<in> free_pages s - {tf}" using V(3) F(1) u(3) by blast
    have "unat (va - PGROUNDDOWN va) < 4096" using page_offset [of va] by simp
    then have "PGROUNDDOWN (upa (mem s) ?old va) = PTE2PA (leaf (mem s) ?old va)"
      using round_add(2) [of "unat (va - PGROUNDDOWN va)" "PTE2PA (leaf (mem s) ?old va)"] PTE2PA_aligned by (simp add: upa_def page_aligned_def PGROUNDDOWN_aligned)
    then have "mem u (upa (mem s) ?old va) = mem s (upa (mem s) ?old va)" using F(4) R(4) [OF va] by simp
    then show "mem v (upa (mem v) pt va) = mem s (upa (mem s) ?old va)" using V(4) by (simp add: upa_def O(3))
  qed
  have "mem v a = mem s a" if "PGROUNDDOWN a \<notin> free_pages s" for a
  proof -
    have "PGROUNDDOWN a \<notin> free_pages u \<union> tables (mem u) pt" using that F(1,3) by blast
    then show ?thesis using v(6) F(4) [OF that] by simp
  qed
  moreover have "\<not> pte_valid (leaf (mem v) pt va)" if "PGROUNDDOWN va < ?n" "\<not> pte_valid (leaf (mem s) ?old va)" for va
    using v(4) that unfolding space_copied_def O(3) by blast
  moreover have "tf \<notin> tables (mem v) pt" using v(5) F(3) u(3) by blast
  moreover have "tree_wf (mem v) pt" using v(3) by (simp add: pt_ok_def)
  ultimately have sm: "space_made p np tf pt s y"
    unfolding space_made_def m using u(2) sc by (intro conjI allI impI) (simp_all add: y_def x_def)
  show ?thesis using run sm by blast
qed

text \<open>The child's registers: a copy of the parent's, with 0 in \<open>a0\<close>.\<close>

lemma trapframe_copy:
  assumes al: "page_aligned d" "page_aligned p" "d \<noteq> p"
    and m': "m' = store64 (d + TF_a 0) 0 (memmove d p 288 m)"
  shows "PGROUNDDOWN x \<noteq> d \<Longrightarrow> m' x = m x" "k < 36 \<Longrightarrow> load64 m' (d + 8 * of_nat k) = (if k = 14 then 0 else load64 m (p + 8 * of_nat k))"
proof -
  have room: "unat d + 4096 \<le> 2 ^ 64" "unat p + 4096 \<le> 2 ^ 64" using page_room al by blast+
  have s: "memmove d p 288 m = (\<lambda>a. if in_range d 288 a then m (p + (a - d)) else m a)"
    using memmove_spec [of d 288 p m] room by simp
  have off: "unat (d + of_nat j) = unat d + j" if "j < 4096" for j using that room(1) by (intro unat_offset_bound) linarith
  have inr: "in_range (d + of_nat j) 8 a \<longleftrightarrow> (\<exists>i < 8. a = d + of_nat (j + i))" for j a
  proof
    assume "in_range (d + of_nat j) 8 a"
    then have "unat (a - (d + of_nat j)) < 8" by (simp add: in_range_def)
    moreover have "a = d + of_nat (j + unat (a - (d + of_nat j)))" by simp
    ultimately show "\<exists>i < 8. a = d + of_nat (j + i)" by blast
  qed (auto simp: in_range_def unat_of_nat)
  have tf: "TF_a 0 = of_nat 112" by (simp add: TF_a_def)
  show "m' x = m x" if "PGROUNDDOWN x \<noteq> d"
  proof -
    have "\<not> in_page d x" using that al(1) by (simp add: in_page_offset)
    then have far: "\<not> unat (x - d) < 4096" by (simp add: in_page_def in_range_def)
    then have "\<not> in_range d 288 x" by (simp add: in_range_def)
    moreover have "\<not> in_range (d + of_nat 112) 8 x"
    proof
      assume "in_range (d + of_nat 112) 8 x"
      then obtain i where i: "i < 8" "x = d + of_nat (112 + i)" unfolding inr by blast
      then have "unat (x - d) = 112 + i" by (simp add: unat_of_nat take_bit_nat_eq_self del: of_nat_add)
      then show False using far i(1) by simp
    qed
    ultimately show ?thesis by (simp add: m' s tf store64_other)
  qed
  show "load64 m' (d + 8 * of_nat k) = (if k = 14 then 0 else load64 m (p + 8 * of_nat k))" if k: "k < 36"
  proof (cases "k = 14")
    case True
    then show ?thesis by (simp add: m' TF_a_def)
  next
    case False
    have a: "8 * of_nat k = (of_nat (8 * k) :: u64)" by simp
    have "load64 m' (d + of_nat (8 * k)) = load64 (memmove d p 288 m) (d + of_nat (8 * k))"
    proof (rule load64_cong)
      fix x assume "in_range (d + of_nat (8 * k)) 8 x"
      then obtain i where i: "i < 8" "x = d + of_nat (8 * k + i)" unfolding inr by blast
      have "\<not> in_range (d + of_nat 112) 8 x"
      proof
        assume "in_range (d + of_nat 112) 8 x"
        then obtain j where j: "j < 8" "x = d + of_nat (112 + j)" unfolding inr by blast
        then have "8 * k + i = 112 + j" using i off [of "8 * k + i"] off [of "112 + j"] k by simp
        then show False using False i(1) j(1) by presburger
      qed
      then show "m' x = memmove d p 288 m x" by (simp add: m' tf store64_other)
    qed
    also have "\<dots> = load64 m (p + of_nat (8 * k))"
    proof (intro bit_word_eqI)
      fix n assume "n < LENGTH(64)"
      then have b: "n div 8 < 8" by simp
      have "in_range d 288 (d + of_nat (8 * k + n div 8))" using k b by (simp add: in_range_def unat_of_nat take_bit_nat_eq_self del: of_nat_add of_nat_mult)
      then show "bit (load64 (memmove d p 288 m) (d + of_nat (8 * k))) n = bit (load64 m (p + of_nat (8 * k))) n" by (simp add: bit_load64 s ac_simps)
    qed
    finally show ?thesis using False unfolding a by simp
  qed
qed

text \<open>The child is a copy of the parent: registers but for \<open>a0\<close>, address space, files and directory.\<close>

definition copy_of_parent :: "nat \<Rightarrow> 'x kfile_scheme \<Rightarrow> nat \<Rightarrow> 'x kfile_scheme \<Rightarrow> bool" where
  "copy_of_parent p s np t \<longleftrightarrow> (let q = procs s p; c = procs t np in
     state c = RUNNABLE \<and> parent c = Some p \<and> sz c = sz q \<and> cwd c = cwd q \<and>
     (\<forall>i < NOFILE. ofile q i \<noteq> None \<longrightarrow> ofile c i = ofile q i) \<and>
     (\<forall>k < 36. load64 (mem t) (trapframe c + 8 * of_nat k) = (if k = 14 then 0 else load64 (mem s) (trapframe q + 8 * of_nat k))) \<and>
     (\<forall>va. PGROUNDDOWN va < sz q \<longrightarrow> pte_valid (leaf (mem t) (pagetable c) va) = pte_valid (leaf (mem s) (pagetable q) va)) \<and>
     (\<forall>va. PGROUNDDOWN va < sz q \<and> pte_valid (leaf (mem s) (pagetable q) va) \<longrightarrow>
        PTE_FLAGS (leaf (mem t) (pagetable c) va) = PTE_FLAGS (leaf (mem s) (pagetable q) va) \<and>
        PTE2PA (leaf (mem t) (pagetable c) va) \<in> free_pages s \<and>
        mem t (upa (mem t) (pagetable c) va) = mem s (upa (mem s) (pagetable q) va)))"

lemma load64_same_page:
  assumes "page_aligned b" "k < 36" "\<And>a. PGROUNDDOWN a = b \<Longrightarrow> m' a = m a"
  shows "load64 m' (b + 8 * of_nat k) = load64 m (b + 8 * of_nat k)"
proof (rule load64_cong)
  fix x assume "in_range (b + 8 * of_nat k) 8 x"
  then have i: "unat (x - (b + 8 * of_nat k)) < 8" by (simp add: in_range_def)
  let ?i = "unat (x - (b + 8 * of_nat k))"
  have x: "x = b + of_nat (8 * k + ?i)" by simp
  have "PGROUNDDOWN (b + of_nat (8 * k + ?i)) = PGROUNDDOWN b" by (rule round_add(2)) (use assms(1,2) i in \<open>simp add: page_aligned_def\<close>)
  then have "PGROUNDDOWN x = b" using x assms(1) by (metis PGROUNDDOWN_aligned)
  then show "m' x = m x" by (rule assms(3))
qed

lemma space_madeD:
  assumes "space_made p np tf pt s v"
  shows "procs v = (procs s)(np := newborn (nextpid s) tf pt (forkret_pc s) (procs s np))" "files v = files s" "inodes v = inodes s" "locks v = locks s"
    "tf \<in> free_pages s" "tf \<notin> tables (mem v) pt" "tree_wf (mem v) pt" "\<And>a. PGROUNDDOWN a \<notin> free_pages s \<Longrightarrow> mem v a = mem s a"
proof -
  have ve: "v = (with_newborn np tf pt s)\<lparr>mem := mem v, freelist := freelist v\<rparr>" using assms unfolding space_made_def by blast
  show "procs v = (procs s)(np := newborn (nextpid s) tf pt (forkret_pc s) (procs s np))" "files v = files s" "inodes v = inodes s" "locks v = locks s"
    using arg_cong [OF ve, of procs] arg_cong [OF ve, of files] arg_cong [OF ve, of inodes] arg_cong [OF ve, of locks] by (simp_all add: with_newborn_def)
  show "tf \<in> free_pages s" "tf \<notin> tables (mem v) pt" "tree_wf (mem v) pt" "\<And>a. PGROUNDDOWN a \<notin> free_pages s \<Longrightarrow> mem v a = mem s a"
    using assms unfolding space_made_def by blast+
qed

lemma space_made_quiet:
  fixes s :: "'x kfile_scheme"
  assumes "fs_ready p s" "space_made q np tf pt s v"
  shows "quiet v"
proof -
  have ve: "v = (with_newborn np tf pt s)\<lparr>mem := mem v, freelist := freelist v\<rparr>" using assms(2) unfolding space_made_def by blast
  show ?thesis using fs_readyD(1,2) [OF assms(1)] by (subst ve) (simp add: quiet_def with_newborn_def irq_state_ok_def)
qed

text \<open>Filling in the trapframe leaves the copied address space alone.\<close>

lemma forked_memory:
  fixes s :: "'x kfile_scheme"
  assumes r: "fork_ready p np w s" and S: "space_made p np tf pt s v" and t: "t = settle (forked p np w v)"
  shows "PGROUNDDOWN a \<noteq> tf \<Longrightarrow> mem t a = mem v a" "leaf (mem t) pt va = leaf (mem v) pt va"
    "k < 36 \<Longrightarrow> load64 (mem t) (tf + 8 * of_nat k) = (if k = 14 then 0 else load64 (mem s) (trapframe (procs s p) + 8 * of_nat k))"
proof -
  note R = fork_readyD [OF r] and D = space_madeD [OF S]
  have al: "page_aligned tf" using kmem.avail_page [of s tf] R(2) D(5) by (simp add: pt_ok_def kpage_def)
  have mt: "mem t = store64 (tf + TF_a 0) 0 (memmove tf (trapframe (procs s p)) 288 (mem v))" using R(13) by (simp add: t forked_def D(1) newborn_def)
  have ne: "tf \<noteq> trapframe (procs s p)" using D(5) R(6) by auto
  note T = trapframe_copy [OF al R(5) ne mt]
  show "mem t a = mem v a" if "PGROUNDDOWN a \<noteq> tf" by (rule T(1) [OF that])
  have "mem t b = mem v b" if "PGROUNDDOWN b \<in> tables (mem v) pt" for b by (rule T(1)) (use that D(6) in auto)
  then show "leaf (mem t) pt va = leaf (mem v) pt va" by (rule same_tables(3) [OF D(7)])
  assume k: "k < 36"
  have "load64 (mem v) (trapframe (procs s p) + 8 * of_nat k) = load64 (mem s) (trapframe (procs s p) + 8 * of_nat k)"
    by (rule load64_same_page [OF R(5) k]) (use D(8) R(6) in auto)
  then show "load64 (mem t) (tf + 8 * of_nat k) = (if k = 14 then 0 else load64 (mem s) (trapframe (procs s p) + 8 * of_nat k))" using T(2) [OF k] by simp
qed

lemma forked_copy:
  fixes s :: "'x kfile_scheme"
  assumes r: "fork_ready p np w s" and S: "space_made p np tf pt s v" and t: "t = settle (forked p np w v)"
  shows "copy_of_parent p s np t"
proof -
  let ?q = "procs s p"
  note R = fork_readyD [OF r] and D = space_madeD [OF S] and M = forked_memory [OF r S t]
  have V: "\<And>va. PGROUNDDOWN va < sz ?q \<Longrightarrow> pte_valid (leaf (mem s) (pagetable ?q) va) \<Longrightarrow> pte_valid (leaf (mem v) pt va)"
      "\<And>va. PGROUNDDOWN va < sz ?q \<Longrightarrow> pte_valid (leaf (mem s) (pagetable ?q) va) \<Longrightarrow> PTE_FLAGS (leaf (mem v) pt va) = PTE_FLAGS (leaf (mem s) (pagetable ?q) va)"
      "\<And>va. PGROUNDDOWN va < sz ?q \<Longrightarrow> pte_valid (leaf (mem s) (pagetable ?q) va) \<Longrightarrow> PTE2PA (leaf (mem v) pt va) \<in> free_pages s - {tf}"
      "\<And>va. PGROUNDDOWN va < sz ?q \<Longrightarrow> pte_valid (leaf (mem s) (pagetable ?q) va) \<Longrightarrow> mem v (upa (mem v) pt va) = mem s (upa (mem s) (pagetable ?q) va)"
      "\<And>va. PGROUNDDOWN va < sz ?q \<Longrightarrow> \<not> pte_valid (leaf (mem s) (pagetable ?q) va) \<Longrightarrow> \<not> pte_valid (leaf (mem v) pt va)"
    using S unfolding space_made_def by blast+
  have byte: "mem t (upa (mem t) pt va) = mem s (upa (mem s) (pagetable ?q) va)" if va: "PGROUNDDOWN va < sz ?q" "pte_valid (leaf (mem s) (pagetable ?q) va)" for va
  proof -
    have "unat (va - PGROUNDDOWN va) < 4096" using page_offset [of va] by simp
    then have "PGROUNDDOWN (upa (mem v) pt va) = PTE2PA (leaf (mem v) pt va)"
      using round_add(2) [of "unat (va - PGROUNDDOWN va)" "PTE2PA (leaf (mem v) pt va)"] PTE2PA_aligned by (simp add: upa_def page_aligned_def PGROUNDDOWN_aligned)
    then have "mem t (upa (mem v) pt va) = mem v (upa (mem v) pt va)" using M(1) V(3) [OF va] by simp
    then show ?thesis using V(4) [OF va] by (simp add: upa_def M(2))
  qed
  have vv: "pte_valid (leaf (mem v) pt va) = pte_valid (leaf (mem s) (pagetable ?q) va)" if "PGROUNDDOWN va < sz ?q" for va
    using V(1) [OF that] V(5) [OF that] by blast
  have c: "procs t np = child_of p ?q (newborn (nextpid s) tf pt (forkret_pc s) (procs s np))" using R(13) by (simp add: t forked_def D(1))
  show ?thesis unfolding copy_of_parent_def Let_def c using M(3) byte vv V(2,3) by (auto simp: child_of_def newborn_def M(2))
qed

text \<open>
  C5: Fork. With an unused slot and enough memory \<open>kfork\<close> returns the pid of a new process that is a copy of the
  caller: the same registers except 0 in \<open>a0\<close>, and at every user address the same byte with the same
  permissions, on pages of its own taken from the free ones. The open files and the directory are
  shared, with one more reference each. Nothing that was not free memory changes, no other process
  changes, every lock is free again, and the child is runnable with the caller as its parent.
\<close>
theorem kfork_copies:
  fixes s :: "'x kfile_scheme"
  assumes "fork_ready p np w s"
  shows "\<exists>t. kfork s = Ok (nextpid s) t \<and> pid (procs t np) = nextpid s \<and> copy_of_parent p s np t \<and>
    (\<forall>r. r \<noteq> np \<longrightarrow> procs t r = procs s r) \<and> (\<forall>a. PGROUNDDOWN a \<notin> free_pages s \<longrightarrow> mem t a = mem s a) \<and>
    (\<forall>f. fref (files t f) = fref (files s f) + refs_to (procs s p) [0..<NOFILE] f) \<and> iref (inodes t w) = iref (inodes s w) + 1 \<and> (\<forall>l. lock_free l (locks t))"
proof -
  note R = fork_readyD [OF assms]
  let ?q = "procs s p"
  obtain tf pt v where run: "kfork s = kfork_rest p np ?q (acquired (L_proc np) v)" and S: "space_made p np tf pt s v" using kfork_space [OF assms] by blast
  note D = space_madeD [OF S]
  have vp: "procs v p = ?q" using R(13) by (simp add: D(1))
  have "kfork_rest p np (procs v p) (acquired (L_proc np) v) = Ok (pid (procs v np)) (settle (forked p np w v))"
    by (rule kfork_rest_run [OF space_made_quiet [OF R(1) S] R(13)]) (use R(10,11) in \<open>simp_all add: vp D(2,3)\<close>)
  then have res: "kfork s = Ok (nextpid s) (settle (forked p np w v))" using run R(13) by (simp add: D(1) newborn_def)
  define t where t: "t = settle (forked p np w v)"
  have "mem t a = mem s a" if "PGROUNDDOWN a \<notin> free_pages s" for a using forked_memory(1) [OF assms S t, of a] D(8) [OF that] that D(5) by auto
  moreover have "procs t r = procs s r" if "r \<noteq> np" for r using that by (simp add: t forked_def D(1))
  moreover have "fref (files t f) = fref (files s f) + refs_to ?q [0..<NOFILE] f" for f using vp by (simp add: t forked_def D(2) settle_def)
  moreover have "iref (inodes t w) = iref (inodes s w) + 1" by (simp add: t forked_def D(3) settle_def)
  moreover have "lock_free l (locks t)" for l using fs_readyD(2) [OF R(1)] by (simp add: t forked_def D(4))
  moreover have "pid (procs t np) = nextpid s" by (simp add: t forked_def D(1) child_of_def newborn_def)
  ultimately show ?thesis using res forked_copy [OF assms S t] unfolding t [symmetric] by blast
qed

text \<open>A process with one page of memory and one open file, on a machine with twelve free pages.\<close>

fun link_pages :: "u64 list \<Rightarrow> memory \<Rightarrow> memory" where
  "link_pages [] m = m"
| "link_pages (p # ps) m = store64 p (case ps of [] \<Rightarrow> 0 | q # _ \<Rightarrow> q) (link_pages ps m)"

lemma link_pages_other: "\<forall>p \<in> set ps. page_aligned p \<Longrightarrow> PGROUNDDOWN a \<notin> set ps \<Longrightarrow> link_pages ps m a = m a"
proof (induction ps)
  case (Cons p ps)
  then have "\<not> in_page p a" by (simp add: in_page_offset)
  then have "\<not> in_range p 8 a" using in_range_8_page by blast
  then show ?case using Cons by (simp add: store64_other)
qed simp

lemma link_pages_chain: "distinct ps \<Longrightarrow> \<forall>p \<in> set ps. page_aligned p \<and> p \<noteq> 0 \<Longrightarrow> chain (link_pages ps m) (case ps of [] \<Rightarrow> 0 | q # _ \<Rightarrow> q) ps"
proof (induction ps)
  case (Cons p ps)
  let ?h = "case ps of [] \<Rightarrow> 0 | q # _ \<Rightarrow> q"
  have c: "chain (link_pages ps m) ?h ps" using Cons by simp
  have same: "link_pages (p # ps) m a = link_pages ps m a" if "\<not> in_page p a" for a
  proof -
    have "\<not> in_range p 8 a" using that in_range_8_page by blast
    then show ?thesis by (simp add: store64_other)
  qed
  have "page_aligned q" if "q \<in> set ps" for q using Cons.prems(2) that by simp
  then have "chain (link_pages (p # ps) m) ?h ps" using Cons.prems by (intro chain_other_page [OF c _ _ _ same]) simp_all
  then show ?case using Cons.prems by simp
qed simp

definition fork_pages :: "u64 list" where
  "fork_pages = [0x80030000, 0x80031000, 0x80032000, 0x80033000, 0x80034000, 0x80035000, 0x80036000, 0x80037000, 0x80038000, 0x80039000, 0x8003a000, 0x8003b000]"

definition sample_fork :: kfile where
  "sample_fork = sample_file\<lparr>mem := link_pages fork_pages sample_vm_mem, freelist := 0x80030000,
     procs := sample_table(0 := (sample_table 0)\<lparr>state := RUNNING, pagetable := sample_pt, sz := 0x2000, trapframe := 0x8002e000,
       ofile := (\<lambda>_. None)(1 := Some 7), cwd := Some 0\<rparr>), files := (\<lambda>_. sample_fd\<lparr>fref := 1\<rparr>)\<rparr>"

lemma fork_pages_ok: "distinct fork_pages" "\<forall>p \<in> set fork_pages. page_aligned p \<and> p \<noteq> 0 \<and> kpage 0x80024000 p"
  by (simp_all add: fork_pages_def page_aligned_def kpage_def PHYSTOP_def KERNBASE_def)

lemma sample_leaves: "leaf sample_vm_mem sample_pt va \<in> {RWU, ROU, 0}"
proof -
  have "upper va \<noteq> []" "upper va \<noteq> [0]" by (simp_all add: upper_def)
  then have "node sample_vm_mem sample_pt (upper va) \<in> {Some 0x80028000, None}" using sample_node [OF tpath_simps(3), of va] by simp
  moreover have "load64 sample_vm_mem (pte_addr 0x80028000 (PX 0 va)) \<in> {RWU, ROU, 0}" using PX_less by (simp add: sample_entry page_aligned_def)
  ultimately show ?thesis by (auto simp: leaf_def)
qed

lemma sample_fork_memory:
  "tree_wf (mem sample_fork) sample_pt" "tables (mem sample_fork) sample_pt = tables sample_vm_mem sample_pt"
  "leaf (mem sample_fork) sample_pt va = leaf sample_vm_mem sample_pt va"
proof -
  have wf: "tree_wf sample_vm_mem sample_pt" and sub: "tables sample_vm_mem sample_pt \<subseteq> {0x80026000, 0x80027000, 0x80028000}"
    using sample_pt_ok sample_frame by (auto simp: pt_ok_def sample_vm_def)
  have "mem sample_fork a = sample_vm_mem a" if "PGROUNDDOWN a \<in> tables sample_vm_mem sample_pt" for a
  proof -
    have "PGROUNDDOWN a \<in> {0x80026000, 0x80027000, 0x80028000}" using that sub by blast
    then have "PGROUNDDOWN a \<notin> set fork_pages" by (auto simp: fork_pages_def)
    then show ?thesis using fork_pages_ok(2) by (simp add: sample_fork_def link_pages_other)
  qed
  note T = same_tables [where m' = "mem sample_fork", OF wf this]
  show "tree_wf (mem sample_fork) sample_pt" "tables (mem sample_fork) sample_pt = tables sample_vm_mem sample_pt"
    "leaf (mem sample_fork) sample_pt va = leaf sample_vm_mem sample_pt va" by (rule T; assumption)+
qed

lemma sample_fork_free: "kmem_ready sample_fork" "free_pages sample_fork = set fork_pages" "kend sample_fork = 0x80024000"
proof -
  show k: "kend sample_fork = 0x80024000" using sample_file_simps(5) by (simp add: sample_fork_def sample_vm_def sample_kproc_def kmachine.defs boot_machine_def kernel.defs)
  have "chain (mem sample_fork) (freelist sample_fork) fork_pages"
  proof -
    have "(case fork_pages of [] \<Rightarrow> 0 | q # _ \<Rightarrow> q) = freelist sample_fork" "mem sample_fork = link_pages fork_pages sample_vm_mem"
      by (simp_all add: sample_fork_def) (simp add: fork_pages_def)
    then show ?thesis using link_pages_chain [OF fork_pages_ok(1), of sample_vm_mem] fork_pages_ok(2) by simp
  qed
  then have inv: "kmem_inv sample_fork fork_pages" using fork_pages_ok k by (simp add: kmem_inv_def)
  show "free_pages sample_fork = set fork_pages" using free_pages_eq [OF inv] .
  show "kmem_ready sample_fork" using fs_readyD(1,2) [OF sample_file_ready] inv by (auto simp: kmem_ready_def sample_fork_def irq_state_ok_def)
qed

lemma sample_fork_ready: "fork_ready 0 3 0 sample_fork"
proof -
  have p: "pagetable (procs sample_fork 0) = sample_pt" "sz (procs sample_fork 0) = 0x2000" "trapframe (procs sample_fork 0) = 0x8002e000" "cwd (procs sample_fork 0) = Some 0"
    "ofile (procs sample_fork 0) = (\<lambda>_. None)(1 := Some 7)" by (simp_all add: sample_fork_def)
  have "fs_ready 0 sample_fork" using sample_file_ready by (simp add: fs_ready_def sample_fork_def irq_state_ok_def)
  moreover have "pt_ok sample_fork sample_pt"
  proof -
    have sub: "tables sample_vm_mem sample_pt \<subseteq> {0x80026000, 0x80027000, 0x80028000}" using sample_frame by (simp add: sample_vm_def)
    have "kpage 0x80024000 t \<and> t \<notin> set fork_pages" if "t \<in> {0x80026000, 0x80027000, 0x80028000}" for t
      using that by (auto simp: kpage_def page_aligned_def PHYSTOP_def KERNBASE_def fork_pages_def)
    then show ?thesis using sub sample_fork_free sample_fork_memory(1) by (auto simp: pt_ok_def sample_fork_memory(2))
  qed
  moreover have "PTE2PA (leaf (mem sample_fork) sample_pt va) \<notin> free_pages sample_fork" if "pte_valid (leaf (mem sample_fork) sample_pt va)" for va
    using sample_leaves [of va] that by (auto simp: sample_fork_memory(3) sample_fork_free(2) PTE2PA_RWU fork_pages_def pte_valid_def)
  moreover have "card (free_pages sample_fork) = 12" using distinct_card [OF fork_pages_ok(1)] by (simp add: sample_fork_free(2)) (simp add: fork_pages_def)
  moreover have "(0x8002e000 :: u64) \<notin> free_pages sample_fork" by (simp add: sample_fork_free(2) fork_pages_def)
  moreover have "state (procs sample_fork 3) = UNUSED" by (simp add: sample_fork_def sample_table_def blank_proc_def)
  moreover have "state (procs sample_fork q) \<noteq> UNUSED" if "q < 3" for q
    using that by (auto simp: sample_fork_def sample_table_def blank_proc_def less_Suc_eq numeral_3_eq_3)
  moreover have "fref (files sample_fork f) = 1" for f by (simp add: sample_fork_def)
  ultimately show ?thesis
    by (auto simp: fork_ready_def p NPROC_def page_aligned_def TRAPFRAME_def TRAMPOLINE_def MAXVA_def PGSIZE_def split: if_splits)
qed

theorem kfork_copies_witness:
  "\<exists>t. kfork sample_fork = Ok 4 t \<and> state (procs t 3) = RUNNABLE \<and> parent (procs t 3) = Some 0 \<and> ofile (procs t 3) 1 = Some 7 \<and> fref (files t 7) = 2 \<and>
     (\<forall>i < 4096. mem t (upa (mem t) (pagetable (procs t 3)) (0x1000 + of_nat i)) = mem sample_fork (0x80029000 + of_nat i))"
proof -
  obtain t where t: "kfork sample_fork = Ok (nextpid sample_fork) t" "copy_of_parent 0 sample_fork 3 t"
    "\<forall>f. fref (files t f) = fref (files sample_fork f) + refs_to (procs sample_fork 0) [0..<NOFILE] f"
    using kfork_copies [OF sample_fork_ready] by blast
  have q: "procs sample_fork 0 = (sample_table 0)\<lparr>state := RUNNING, pagetable := sample_pt, sz := 0x2000, trapframe := 0x8002e000, ofile := (\<lambda>_. None)(1 := Some 7), cwd := Some 0\<rparr>"
    by (simp add: sample_fork_def)
  have "nextpid sample_fork = 4" by (simp add: sample_fork_def sample_file_def kcons.defs kfs.defs sample_fs_def klog.defs sample_boot_def kdisk.defs sample_disk_def kproc.defs sample_running_def sample_kproc_def kmachine.defs)
  moreover have "refs_to (procs sample_fork 0) [0..<NOFILE] 7 = 1" by (simp add: refs_to_def q NOFILE_def upt_rec)
  moreover have "mem t (upa (mem t) (pagetable (procs t 3)) (0x1000 + of_nat i)) = mem sample_fork (0x80029000 + of_nat i)" if i: "i < 4096" for i
  proof -
    have "PGROUNDDOWN (0x1000 + of_nat i) = PGROUNDDOWN 0x1000" by (rule round_add(2)) (use i in simp)
    then have r: "PGROUNDDOWN (0x1000 + of_nat i) = PGROUNDDOWN 0x1000" "PGROUNDDOWN (0x1000 + of_nat i) = 0x1000" by (simp_all add: PGROUNDDOWN_def PGSIZE_def)
    have l: "leaf (mem sample_fork) sample_pt (0x1000 + of_nat i) = RWU" "upa (mem sample_fork) sample_pt (0x1000 + of_nat i) = 0x80029000 + of_nat i"
      using leaf_same_page [OF r(1)] sample_leaf(1) sample_mapped(2) [OF i] by (simp_all add: sample_fork_memory(3) upa_def)
    moreover have "\<forall>va. PGROUNDDOWN va < 0x2000 \<and> pte_valid (leaf (mem sample_fork) sample_pt va) \<longrightarrow>
        mem t (upa (mem t) (pagetable (procs t 3)) va) = mem sample_fork (upa (mem sample_fork) sample_pt va)"
      using t(2) by (simp add: copy_of_parent_def Let_def q)
    moreover have "PGROUNDDOWN (0x1000 + of_nat i) < 0x2000" "pte_valid RWU" using r(2) by (simp_all add: RWU_bits pte_valid_def)
    ultimately show ?thesis by simp
  qed
  ultimately show ?thesis using t by (intro exI [of _ t]) (auto simp: copy_of_parent_def Let_def q sample_fork_def NOFILE_def)
qed

end
