(* ===== verification/Xv6_Fcfs.thy ===== *)
theory Xv6_Fcfs
  imports Xv6_Exec
begin

text \<open>
  The schedulers of proc.c and proc_RR_backup.c on processes that run until they block or exit: a dispatched process
  works and leaves the CPU in \<open>sleep\<close> or through the last part of \<open>kexit\<close>, which hands its children to init,
  wakes its parent and makes it a zombie; init itself goes back to waiting for its children. The order
  of dispatch, and that every waiting process gets its turn.
\<close>

section \<open>Leaving the CPU\<close>

text \<open>Between the tables \<open>a\<close> and \<open>b\<close> sleepers other than \<open>p\<close> may have been woken.\<close>

definition woken :: "nat \<Rightarrow> (nat \<Rightarrow> proc) \<Rightarrow> (nat \<Rightarrow> proc) \<Rightarrow> bool" where
  "woken p a b \<longleftrightarrow> (\<forall>q. pid (b q) = pid (a q) \<and>
     (state (b q) = state (a q) \<or> q \<noteq> p \<and> state (a q) = SLEEPING \<and> state (b q) = RUNNABLE))"

lemma woken_refl: "woken p a a"
  by (simp add: woken_def)

lemma woken_trans: "woken p a b \<Longrightarrow> woken p b c \<Longrightarrow> woken p a c"
  unfolding woken_def by (metis procstate.distinct)

lemma woken_by_wakeup: "woken p a (wakeup_table (Some p) ch a)"
  by (simp add: woken_def wakeup_table_def map_table_def awaken_def)

lemma woken_parent: "woken p a (a(q := (a q)\<lparr>parent := x\<rparr>))"
  by (simp add: woken_def)

lemma reparent_nested:
  assumes "irq_state_ok x" "0 < noff (cpus x (tp x))" "cproc (cpus x (tp x)) = Some p" "proc_locks_free x"
  shows "\<exists>tab. for_each (reparent_one c) ps x = Ok () (x\<lparr>procs := tab\<rparr>) \<and> woken p (procs x) tab"
  using assms
proof (induction ps arbitrary: x)
  case Nil
  then show ?case using woken_refl by (intro exI [of _ "procs x"]) simp
next
  case (Cons q ps)
  show ?case
  proof (cases "parent (procs x q) = Some c")
    case True
    let ?tab = "(procs x)(q := (procs x q)\<lparr>parent := initproc x\<rparr>)"
    let ?ch = "case initproc x of Some i \<Rightarrow> Chan_proc i | None \<Rightarrow> Chan_none"
    let ?y = "x\<lparr>procs := wakeup_table (Some p) ?ch ?tab\<rparr>"
    have "wakeup ?ch (x\<lparr>procs := ?tab\<rparr>) = Ok () ?y"
      using wakeup_nested [of "x\<lparr>procs := ?tab\<rparr>" "Some p" ?ch] Cons.prems by (simp add: irq_state_ok_def proc_locks_free_def)
    then have one: "reparent_one c q x = Ok () ?y" using True by (simp add: reparent_one_def get_proc_def upd_proc_def)
    have y: "irq_state_ok ?y" "0 < noff (cpus ?y (tp ?y))" "cproc (cpus ?y (tp ?y)) = Some p" "proc_locks_free ?y"
      using Cons.prems by (simp_all add: irq_state_ok_def)
    obtain tab where "for_each (reparent_one c) ps ?y = Ok () (?y\<lparr>procs := tab\<rparr>)" "woken p (procs ?y) tab"
      using Cons.IH [OF y] by blast
    moreover have "woken p (procs x) (procs ?y)" using woken_trans [OF woken_parent woken_by_wakeup] by simp
    ultimately show ?thesis using one woken_trans by (intro exI [of _ tab]) auto
  next
    case False
    then have "reparent_one c q x = Ok () x" by (simp add: reparent_one_def get_proc_def)
    then show ?thesis using Cons.IH [OF Cons.prems] by simp
  qed
qed

text \<open>The end of \<open>kexit\<close>: only the lock of the process is held when it switches to the scheduler.\<close>

lemma kexit_final_effect:
  assumes r: "fs_ready p s"
  shows "\<exists>tab. kexit_final p n s = Sleep ((acquired (L_proc p) s)\<lparr>procs := tab(p := (tab p)\<lparr>xstate := n, state := ZOMBIE\<rparr>)\<rparr>) \<and>
    woken p (procs s) tab"
proof -
  note free = fs_readyD(2) [OF r]
  have nl: "L_proc q \<noteq> L_wait" for q by simp
  note in1 = acquired_inside [OF r, of L_wait] and pl = proc_locks_free_hold [OF r nl]
  obtain tab1 where t1: "reparent p (acquired L_wait s) = Ok () ((acquired L_wait s)\<lparr>procs := tab1\<rparr>)" "woken p (procs s) tab1"
    using reparent_nested [of "acquired L_wait s" p p "[0..<NPROC]"] in1 pl by (auto simp: reparent_def)
  let ?ch = "parent_chan (parent (tab1 p))"
  define tab where "tab = wakeup_table (Some p) ?ch tab1"
  let ?x = "(acquired L_wait s)\<lparr>procs := tab1\<rparr>"
  have w: "wakeup ?ch ?x = Ok () ((acquired L_wait s)\<lparr>procs := tab\<rparr>)"
    using wakeup_nested [of ?x "Some p" ?ch] in1 pl by (simp add: irq_state_ok_def proc_locks_free_def tab_def)
  define s3 where "s3 = s\<lparr>procs := tab(p := (tab p)\<lparr>xstate := n, state := ZOMBIE\<rparr>)\<rparr>"
  have ok3: "irq_state_ok s3" "lock_free l (locks s3)" for l using fs_readyD(1) [OF r] free by (simp_all add: s3_def irq_state_ok_def)
  have a: "acquire (L_proc p) ((acquired L_wait s)\<lparr>procs := tab\<rparr>) = Ok () (acquired (L_proc p) ((acquired L_wait s)\<lparr>procs := tab\<rparr>))"
    using free by (intro acquire_acquired) simp
  have u: "upd_proc p (\<lambda>q. q\<lparr>xstate := n, state := ZOMBIE\<rparr>) (acquired (L_proc p) ((acquired L_wait s)\<lparr>procs := tab\<rparr>)) =
      Ok () (acquired (L_proc p) (acquired L_wait s3))"
    by (cases s) (simp add: upd_proc_def acquired_def s3_def)
  have rel: "release L_wait (acquired (L_proc p) (acquired L_wait s3)) = Ok () (acquired (L_proc p) s3)"
    using release_second(2) [OF ok3(1) ok3(2) ok3(2), of "L_proc p" L_wait] by simp
  let ?z = "acquired (L_proc p) s3"
  have "irq_ok (tp ?z) (sstatus ?z) (cpus ?z)" using irq_state_ok_acquired [OF ok3(1)] by (simp add: irq_state_ok_def)
  moreover have "cproc (cpus ?z (tp ?z)) = Some p" "lock_held (L_proc p) (tp ?z) (locks ?z)" "noff (cpus ?z (tp ?z)) = 1" "state (procs ?z p) \<noteq> RUNNING"
    using fs_readyD(4,7) [OF r] by (simp_all add: acquired_def s3_def)
  ultimately have sc: "sched ?z = Sleep ?z" by (rule sched_effect)
  have g: "get_proc p ?x = Ok (tab1 p) ?x" by (simp add: get_proc_def)
  have "kexit_final p n s = Sleep ?z"
    unfolding kexit_final_def using acquire_acquired [OF free, of L_wait] t1(1) g w a u rel sc by simp
  moreover have "?z = (acquired (L_proc p) s)\<lparr>procs := tab(p := (tab p)\<lparr>xstate := n, state := ZOMBIE\<rparr>)\<rparr>" by (simp add: s3_def acquired_upd_procs)
  moreover have "woken p (procs s) tab" using woken_trans [OF t1(2) woken_by_wakeup] by (simp add: tab_def)
  ultimately show ?thesis by auto
qed

text \<open>\<open>kexit\<close> ends in it.\<close>

lemma kexit_unfold:
  fixes s :: "'x kfile_scheme"
  assumes "fs_ready p s" "initproc s \<noteq> Some p"
  shows "kexit n s = kthen (kexit_close p) (kexit_final p n) (settle s)"
proof -
  have "initproc (settle s) = initproc s" by (simp add: settle_def)
  moreover have "myproc s = Ok (Some p) (settle s)"
    using myproc_effect [OF fs_readyD(6) [OF assms(1)]] fs_readyD(4) [OF assms(1)] by (simp add: settle_def)
  ultimately show ?thesis using assms(2) by (auto simp: kexit_def)
qed

section \<open>A turn on the CPU\<close>

record traced = kproc +
  dispatch_log :: "int list"

text \<open>At \<open>swtch\<close> the scheduler goes on where it had switched to the process.\<close>

definition to_scheduler :: "('s, unit) kop \<Rightarrow> ('s, unit) kop" where
  "to_scheduler m s = (case m s of Sleep t \<Rightarrow> Ok () t | r \<Rightarrow> r)"

text \<open>
  A dispatched process gives up its lock (the first thing \<open>forkret\<close> and the end of \<open>sleep\<close> do) and runs:
  \<open>work\<close> is what it does in user mode and in system calls, the first half of \<open>kexit\<close> included. It may end
  the turn in \<open>sleep\<close>; otherwise the process exits, and init sleeps until a child exits, as \<open>kwait\<close> does.
  \<open>dispatch_log\<close> records the turns.
\<close>

definition turn_end :: "nat \<Rightarrow> ('x kproc_scheme, unit) kop" where
  "turn_end p = kbind (gets initproc) (\<lambda>ip.
     if ip = Some p then kthen (acquire L_wait) (sleep (Chan_proc p) L_wait)
     else kexit_final p 0)"

definition turn :: "(nat \<Rightarrow> (traced, unit) kop) \<Rightarrow> nat \<Rightarrow> (traced, unit) kop" where
  "turn work p = to_scheduler (
     kthen (modify (\<lambda>s. s\<lparr>dispatch_log := dispatch_log s @ [pid (procs s p)]\<rparr>)) (
     kthen (release (L_proc p)) (
     kthen (work p) (turn_end p))))"

text \<open>What a process does may change others, but a process that waits for the CPU goes on waiting.\<close>

definition keeps_waiting :: "nat \<Rightarrow> (nat \<Rightarrow> proc) \<Rightarrow> (nat \<Rightarrow> proc) \<Rightarrow> bool" where
  "keeps_waiting p a b \<longleftrightarrow> pid (b p) = pid (a p) \<and>
     (\<forall>q. q \<noteq> p \<and> state (a q) = RUNNABLE \<longrightarrow> state (b q) = RUNNABLE \<and> pid (b q) = pid (a q))"

text \<open>The work of a process goes on to its exit, or ends in \<open>sleep\<close> with the lock of the process held.\<close>

definition serves :: "(nat \<Rightarrow> (traced, unit) kop) \<Rightarrow> bool" where
  "serves work \<longleftrightarrow> (\<forall>p s. fs_ready p s \<longrightarrow> (\<exists>t. fs_ready p t \<and> tp t = tp s \<and>
     initproc t = initproc s \<and> dispatch_log t = dispatch_log s \<and> keeps_waiting p (procs s) (procs t) \<and>
     (work p s = Ok () t \<or> (\<exists>ch. work p s = Sleep ((acquired (L_proc p) t)\<lparr>procs := (procs t)(p := going_to_sleep p ch (procs t p))\<rparr>)))))"

definition live :: "proc \<Rightarrow> bool" where
  "live q \<longleftrightarrow> state q = RUNNABLE \<or> state q = SLEEPING"

text \<open>It does not sleep and creates no process.\<close>

definition winds_down :: "(nat \<Rightarrow> (traced, unit) kop) \<Rightarrow> bool" where
  "winds_down work \<longleftrightarrow> (\<forall>p s. fs_ready p s \<longrightarrow> (\<exists>t. work p s = Ok () t \<and> (\<forall>q. q \<noteq> p \<and> live (procs t q) \<longrightarrow> live (procs s q))))"

definition sched_ready :: "'x kproc_scheme \<Rightarrow> bool" where
  "sched_ready s \<longleftrightarrow> sched_idle s \<and> (\<forall>l. lock_free l (locks s))"

lemma keeps_waiting_trans: "keeps_waiting p a b \<Longrightarrow> keeps_waiting p b c \<Longrightarrow> keeps_waiting p a c"
  by (simp add: keeps_waiting_def)

lemma woken_waits: "woken p a b \<Longrightarrow> keeps_waiting p a b" "woken p a b \<Longrightarrow> live (b q) \<Longrightarrow> q \<noteq> p \<Longrightarrow> live (a q)"
  unfolding woken_def keeps_waiting_def live_def by (metis procstate.distinct)+

lemma dispatched_release:
  assumes s: "sched_ready s" and p: "p < NPROC"
  shows "\<exists>r. release (L_proc p) (dispatched p s) = Ok () r \<and> fs_ready p r \<and>
    r = s\<lparr>cpus := set_cproc (tp s) (Some p) (cpus (settle s)), procs := (procs s)(p := (procs s p)\<lparr>state := RUNNING\<rparr>)\<rparr>"
proof -
  let ?r = "s\<lparr>cpus := set_cproc (tp s) (Some p) (cpus (settle s)), procs := (procs s)(p := (procs s p)\<lparr>state := RUNNING\<rparr>)\<rparr>"
  have h: "irq_ok (tp s) (sstatus s) (cpus s)" "noff (cpus s (tp s)) = 0" "lock_free l (locks s)" for l
    using s by (auto simp: sched_ready_def sched_idle_def irq_state_ok_def)
  have "release (L_proc p) (dispatched p s) = Ok () ?r"
    using h by (cases s) (simp add: dispatched_def acquired_def release_effect settle_cpus)
  moreover have "fs_ready p ?r" using h p by (simp add: fs_ready_def irq_state_ok_def settle_cpus)
  ultimately show ?thesis by blast
qed

lemma switch_back_from:
  assumes "fs_ready p t"
  shows "\<exists>u. switch_back (tp t) p ((acquired (L_proc p) t)\<lparr>procs := tab\<rparr>) = Ok () u \<and> sched_ready u \<and> procs u = tab \<and> tp u = tp t \<and>
    u = t\<lparr>cpus := set_cproc (tp t) None (cpus (settle t)), procs := tab\<rparr>"
proof -
  let ?u = "t\<lparr>cpus := set_cproc (tp t) None (cpus (settle t)), procs := tab\<rparr>"
  have h: "irq_ok (tp t) (sstatus t) (cpus t)" "noff (cpus t (tp t)) = 0" "lock_free l (locks t)" for l
    by (rule fs_readyD [OF assms])+
  have "switch_back (tp t) p ((acquired (L_proc p) t)\<lparr>procs := tab\<rparr>) = Ok () ?u"
    using h by (cases t) (simp add: switch_back_def upd_cpu_cproc acquired_def release_effect settle_cpus)
  moreover have "sched_ready ?u" using h by (simp add: sched_ready_def sched_idle_def irq_state_ok_def proc_locks_free_def settle_cpus)
  ultimately show ?thesis by (intro exI [of _ ?u]) simp
qed

lemma turn_end_effect:
  fixes t :: "'x kproc_scheme"
  assumes t: "fs_ready p t"
  shows "\<exists>tab. turn_end p t = Sleep ((acquired (L_proc p) t)\<lparr>procs := tab\<rparr>) \<and> woken p (procs t) (tab(p := procs t p)) \<and>
    pid (tab p) = pid (procs t p) \<and> state (tab p) = (if initproc t = Some p then SLEEPING else ZOMBIE)"
proof (cases "initproc t = Some p")
  case True
  let ?tab = "(procs t)(p := going_to_sleep p (Chan_proc p) (procs t p))"
  have "sleep (Chan_proc p) L_wait (acquired L_wait t) = Sleep ((acquired (L_proc p) t)\<lparr>procs := ?tab\<rparr>)"
    using fs_readyD [OF t] by (intro sleep_effect) simp_all
  then have "turn_end p t = Sleep ((acquired (L_proc p) t)\<lparr>procs := ?tab\<rparr>)"
    using True acquire_acquired [OF fs_readyD(2) [OF t], of L_wait] by (simp add: turn_end_def)
  then show ?thesis using True by (intro exI [of _ ?tab]) (simp add: woken_refl going_to_sleep_def)
next
  case False
  obtain tb where tb: "kexit_final p 0 t = Sleep ((acquired (L_proc p) t)\<lparr>procs := tb(p := (tb p)\<lparr>xstate := 0, state := ZOMBIE\<rparr>)\<rparr>)" "woken p (procs t) tb"
    using kexit_final_effect [OF t] by blast
  let ?tab = "tb(p := (tb p)\<lparr>xstate := 0, state := ZOMBIE\<rparr>)"
  have "turn_end p t = Sleep ((acquired (L_proc p) t)\<lparr>procs := ?tab\<rparr>)" using tb(1) False by (simp add: turn_end_def)
  moreover have "woken p (procs t) (?tab(p := procs t p))" "pid (?tab p) = pid (procs t p)" using tb(2) by (auto simp: woken_def)
  ultimately show ?thesis using False by (intro exI [of _ ?tab]) simp
qed

text \<open>The whole turn, from the dispatch to the scheduler's next round.\<close>

lemma turn_round:
  fixes s :: traced
  assumes w: "serves work" and s: "sched_ready s" and p: "p < NPROC"
  shows "\<exists>u. kthen (turn work p) (switch_back (tp s) p) (dispatched p s) = Ok () u \<and> sched_ready u \<and> tp u = tp s \<and>
    initproc u = initproc s \<and> dispatch_log u = dispatch_log s @ [pid (procs s p)] \<and> keeps_waiting p (procs s) (procs u) \<and>
    (winds_down work \<longrightarrow> state (procs u p) = (if initproc s = Some p then SLEEPING else ZOMBIE) \<and>
      (\<forall>q. q \<noteq> p \<and> live (procs u q) \<longrightarrow> live (procs s q)))"
proof -
  let ?s = "s\<lparr>dispatch_log := dispatch_log s @ [pid (procs s p)]\<rparr>"
  have s': "sched_ready ?s" using s by (simp add: sched_ready_def sched_idle_def irq_state_ok_def proc_locks_free_def)
  obtain r where r: "release (L_proc p) (dispatched p ?s) = Ok () r" "fs_ready p r"
    "r = ?s\<lparr>cpus := set_cproc (tp s) (Some p) (cpus (settle s)), procs := (procs s)(p := (procs s p)\<lparr>state := RUNNING\<rparr>)\<rparr>"
    using dispatched_release [OF s' p] by (auto simp: settle_cpus)
  have rf: "tp r = tp s" "initproc r = initproc s" "dispatch_log r = dispatch_log s @ [pid (procs s p)]" "keeps_waiting p (procs s) (procs r)"
    "\<And>q. q \<noteq> p \<Longrightarrow> procs r q = procs s q" by (simp_all add: r(3) keeps_waiting_def)
  obtain t where t: "fs_ready p t" "tp t = tp r" "initproc t = initproc r" "dispatch_log t = dispatch_log r" "keeps_waiting p (procs r) (procs t)"
    and ends: "work p r = Ok () t \<or> (\<exists>ch. work p r = Sleep ((acquired (L_proc p) t)\<lparr>procs := (procs t)(p := going_to_sleep p ch (procs t p))\<rparr>))"
    using w r(2) unfolding serves_def by blast
  have log: "modify (\<lambda>s. s\<lparr>dispatch_log := dispatch_log s @ [pid (procs s p)]\<rparr>) (dispatched p s) = Ok () (dispatched p ?s)"
    by (cases s) (simp add: dispatched_def acquired_def)
  obtain tab where tab: "kthen (work p) (turn_end p) r = Sleep ((acquired (L_proc p) t)\<lparr>procs := tab\<rparr>)" "woken p (procs t) (tab(p := procs t p))"
    "pid (tab p) = pid (procs t p)" "work p r = Ok () t \<Longrightarrow> state (tab p) = (if initproc t = Some p then SLEEPING else ZOMBIE)"
  proof (cases "work p r = Ok () t")
    case True
    obtain tab where "turn_end p t = Sleep ((acquired (L_proc p) t)\<lparr>procs := tab\<rparr>)" "woken p (procs t) (tab(p := procs t p))"
      "pid (tab p) = pid (procs t p)" "state (tab p) = (if initproc t = Some p then SLEEPING else ZOMBIE)" using turn_end_effect [OF t(1)] by blast
    then show thesis using that [of tab] True by simp
  next
    case False
    then obtain ch where "work p r = Sleep ((acquired (L_proc p) t)\<lparr>procs := (procs t)(p := going_to_sleep p ch (procs t p))\<rparr>)" using ends by blast
    then show thesis using that [of "(procs t)(p := going_to_sleep p ch (procs t p))"] False by (simp add: woken_refl going_to_sleep_def)
  qed
  obtain u where u: "switch_back (tp t) p ((acquired (L_proc p) t)\<lparr>procs := tab\<rparr>) = Ok () u" "sched_ready u" "procs u = tab" "tp u = tp t"
    "u = t\<lparr>cpus := set_cproc (tp t) None (cpus (settle t)), procs := tab\<rparr>" using switch_back_from [OF t(1)] by blast
  have nbD: "work p r = Ok () t" "\<forall>q. q \<noteq> p \<and> live (procs t q) \<longrightarrow> live (procs r q)" if nb: "winds_down work"
    using nb r(2) ends unfolding winds_down_def by fastforce+
  have "turn work p (dispatched p s) = Ok () ((acquired (L_proc p) t)\<lparr>procs := tab\<rparr>)"
    unfolding turn_def to_scheduler_def using log r(1) tab(1) by simp
  then have "kthen (turn work p) (switch_back (tp s) p) (dispatched p s) = Ok () u" using u(1) t(2) rf(1) by simp
  moreover have kw: "keeps_waiting p (procs t) tab" using woken_waits(1) [OF tab(2)] tab(3) by (auto simp: keeps_waiting_def)
  then have "keeps_waiting p (procs s) (procs u)" using keeps_waiting_trans [OF rf(4) keeps_waiting_trans [OF t(5) kw]] u(3) by simp
  moreover have "live (procs s q)" if nb: "winds_down work" and q: "q \<noteq> p" "live (procs u q)" for q
  proof -
    have "live ((tab(p := procs t p)) q)" using q u(3) by simp
    then have "live (procs t q)" using woken_waits(2) [OF tab(2)] q(1) by blast
    then have "live (procs r q)" using nbD [OF nb] q(1) by simp
    then show ?thesis using rf(5) [OF q(1)] by simp
  qed
  moreover have "initproc u = initproc s" "dispatch_log u = dispatch_log s @ [pid (procs s p)]" using t(3,4) rf(2,3) by (simp_all add: u(5))
  moreover have "state (procs u p) = (if initproc s = Some p then SLEEPING else ZOMBIE)" if "winds_down work"
    using tab(4) [OF nbD(1) [OF that]] u(3) t(3) rf(2) by simp
  ultimately show ?thesis using u(2,4) t(2) rf(1) by (intro exI [of _ u]) simp
qed

section \<open>First come, first served\<close>

lemma sched_ready_irqs [simp]: "sched_ready s \<Longrightarrow> sched_ready (irqs_off s)" "sched_ready s \<Longrightarrow> sched_ready (irqs_on s)"
  "sched_ready s \<Longrightarrow> sched_ready (settle s)"
  by (simp_all add: sched_ready_def) (simp add: sched_idle_def irq_state_ok_def proc_locks_free_def settle_cpus)

lemma fcfs_round:
  fixes s :: traced
  assumes w: "serves work" and s: "sched_ready s" and ne: "runnable_set (procs s) \<noteq> {}"
  shows "\<exists>p u. scheduler_iter (turn work) (tp s) s = Ok () u \<and> p \<in> runnable_set (procs s) \<and>
    (\<forall>q \<in> runnable_set (procs s). pid (procs s p) \<le> pid (procs s q)) \<and> sched_ready u \<and> tp u = tp s \<and>
    initproc u = initproc s \<and> dispatch_log u = dispatch_log s @ [pid (procs s p)] \<and> keeps_waiting p (procs s) (procs u) \<and>
    (winds_down work \<longrightarrow> state (procs u p) = (if initproc s = Some p then SLEEPING else ZOMBIE) \<and>
      (\<forall>q. q \<noteq> p \<and> live (procs u q) \<longrightarrow> live (procs s q)))"
proof -
  have idle: "sched_idle s" using s by (simp add: sched_ready_def)
  obtain p where p: "fcfs_choice (procs s) [0..<NPROC] None = Some p"
    using ne fcfs_choice_runnable(1) [of "procs s"] by auto
  note P = fcfs_choice_runnable(2) [OF p]
  then have "p < NPROC" by (simp add: runnable_set_def)
  moreover have "dispatch_log (irqs_off s) = dispatch_log s" "initproc (irqs_off s) = initproc s" by (simp_all add: irqs_off_def)
  moreover have "scheduler_iter (turn work) (tp s) s = kthen (turn work p) (switch_back (tp s) p) (dispatched p (irqs_off s))"
    using scheduler_iter_unfold [OF idle, of "turn work"] p by simp
  ultimately show ?thesis
    using turn_round [OF w sched_ready_irqs(1) [OF s], of p] P by (intro exI [of _ p]) simp
qed

lemma fcfs_round_idle:
  fixes s :: traced
  assumes "sched_ready s" "runnable_set (procs s) = {}"
  shows "scheduler_iter run (tp s) s = Ok () (settle (irqs_off s))" "sched_ready (settle (irqs_off s))"
    "procs (settle (irqs_off s)) = procs s" "tp (settle (irqs_off s)) = tp s" "dispatch_log (settle (irqs_off s)) = dispatch_log s"
    "initproc (settle (irqs_off s)) = initproc s"
  using fcfs_round_empty [of s run] assms by (simp_all add: sched_ready_def) (simp_all add: irqs_off_def settle_def)

lemma keeps_waiting_runnable: "keeps_waiting p a b \<Longrightarrow> q \<in> runnable_set a \<Longrightarrow> q \<noteq> p \<Longrightarrow> q \<in> runnable_set b \<and> pid (b q) = pid (a q)"
  by (simp add: keeps_waiting_def runnable_set_def)

text \<open>
  After any number of rounds: whoever was waiting and has not been dispatched still waits, and nobody
  with a larger pid was dispatched before it.
\<close>

lemma fcfs_rounds:
  fixes s :: traced
  assumes w: "serves work" and s: "sched_ready s"
  shows "\<exists>t log. repeat_op n (scheduler_iter (turn work) (tp s)) s = Ok () t \<and> dispatch_log t = dispatch_log s @ log \<and>
    (\<forall>p \<in> runnable_set (procs s). pid (procs s p) \<in> set log \<or> p \<in> runnable_set (procs t)) \<and>
    (\<forall>p \<in> runnable_set (procs s). \<forall>i < length log. pid (procs s p) < log ! i \<longrightarrow> (\<exists>j < i. log ! j = pid (procs s p)))"
  using s
proof (induction n arbitrary: s)
  case 0
  then show ?case by auto
next
  case (Suc n)
  show ?case
  proof (cases "runnable_set (procs s) = {}")
    case True
    note E = fcfs_round_idle [OF Suc.prems True]
    show ?thesis using Suc.IH [OF E(2)] E(1) [of "turn work"] E(3-5) True by auto
  next
    case False
    obtain r u where u: "scheduler_iter (turn work) (tp s) s = Ok () u" "r \<in> runnable_set (procs s)"
      "\<forall>q \<in> runnable_set (procs s). pid (procs s r) \<le> pid (procs s q)" "sched_ready u" "tp u = tp s"
      "dispatch_log u = dispatch_log s @ [pid (procs s r)]" "keeps_waiting r (procs s) (procs u)"
      using fcfs_round [OF w Suc.prems False] by blast
    obtain t log where t: "repeat_op n (scheduler_iter (turn work) (tp s)) u = Ok () t" "dispatch_log t = dispatch_log u @ log"
      "\<forall>p \<in> runnable_set (procs u). pid (procs u p) \<in> set log \<or> p \<in> runnable_set (procs t)"
      "\<forall>p \<in> runnable_set (procs u). \<forall>i < length log. pid (procs u p) < log ! i \<longrightarrow> (\<exists>j < i. log ! j = pid (procs u p))"
      using Suc.IH [OF u(4)] u(5) by auto
    let ?log = "pid (procs s r) # log"
    have later: "p \<in> runnable_set (procs u)" "pid (procs u p) = pid (procs s p)" if "p \<in> runnable_set (procs s)" "p \<noteq> r" for p
      using keeps_waiting_runnable [OF u(7) that] by simp_all
    have "pid (procs s p) \<in> set ?log \<or> p \<in> runnable_set (procs t)" if "p \<in> runnable_set (procs s)" for p
      using t(3) later [OF that] by (cases "p = r") auto
    moreover have "\<exists>j < i. ?log ! j = pid (procs s p)" if p: "p \<in> runnable_set (procs s)" and i: "i < length ?log" "pid (procs s p) < ?log ! i" for p i
    proof (cases i)
      case 0
      then show ?thesis using u(3) p i(2) by auto
    next
      case (Suc k)
      show ?thesis
      proof (cases "p = r")
        case True
        then show ?thesis using Suc by (intro exI [of _ 0]) simp
      next
        case False
        then obtain j where "j < k" "log ! j = pid (procs s p)" using t(4) [rule_format, OF later(1) [OF p False], of k] later(2) [OF p False] i Suc by auto
        then show ?thesis using Suc by (intro exI [of _ "Suc j"]) simp
      qed
    qed
    moreover have "repeat_op (Suc n) (scheduler_iter (turn work) (tp s)) s = Ok () t" using u(1) t(1) by simp
    moreover have "dispatch_log t = dispatch_log s @ ?log" using u(6) t(2) by simp
    ultimately show ?thesis by blast
  qed
qed

section \<open>Scheduling policies\<close>

text \<open>
  What a scheduler owes to the processes: each round makes progress, measured by \<open>rest\<close>, so that
  every waiting process is eventually run. \<open>round\<close> is one pass of the scheduler loop.
\<close>

locale scheduling_policy =
  fixes round :: "('s, unit) kop"
    and waiting :: "'s \<Rightarrow> nat set"
    and idle :: "'s \<Rightarrow> bool"
    and rest :: "'s \<Rightarrow> nat"
  assumes round_progress: "idle s \<Longrightarrow> waiting s \<noteq> {} \<Longrightarrow> \<exists>t. round s = Ok () t \<and> idle t \<and> rest t < rest s"
    and round_empty: "idle s \<Longrightarrow> waiting s = {} \<Longrightarrow> \<exists>t. round s = Ok () t \<and> idle t \<and> waiting t = {}"
begin

lemma stays_empty:
  assumes "idle s" "waiting s = {}"
  shows "\<exists>t. repeat_op n round s = Ok () t \<and> idle t \<and> waiting t = {}"
  using assms
proof (induction n arbitrary: s)
  case (Suc n)
  obtain t where "round s = Ok () t" "idle t" "waiting t = {}" using round_empty [OF Suc.prems] by blast
  then show ?case using Suc.IH [of t] by simp
qed simp

lemma drains:
  assumes "idle s" "rest s \<le> n"
  shows "\<exists>t. repeat_op n round s = Ok () t \<and> idle t \<and> waiting t = {}"
  using assms
proof (induction n arbitrary: s)
  case 0
  have "waiting s = {}" using round_progress [OF 0(1)] 0(2) by (cases "waiting s = {}") auto
  then show ?case using 0(1) by simp
next
  case (Suc n)
  show ?case
  proof (cases "waiting s = {}")
    case True
    then show ?thesis using stays_empty [OF Suc.prems(1)] by blast
  next
    case False
    then obtain t where t: "round s = Ok () t" "idle t" "rest t < rest s" using round_progress [OF Suc.prems(1)] by blast
    then show ?thesis using Suc.IH [OF t(2)] Suc.prems(2) by simp
  qed
qed

end

text \<open>
  The turns that are left: every process but init exits at its next turn, and each exit may wake init once.
\<close>

definition turns_left :: "traced \<Rightarrow> nat" where
  "turns_left s = 2 * card {q. q < NPROC \<and> initproc s \<noteq> Some q \<and> live (procs s q)} +
     card {q. q < NPROC \<and> initproc s = Some q \<and> state (procs s q) = RUNNABLE}"

lemma init_slots: "finite {q. q < NPROC \<and> x = Some q \<and> P q}" "card {q. q < NPROC \<and> x = Some q \<and> P q} \<le> 1"
proof -
  have sub: "{q. q < NPROC \<and> x = Some q \<and> P q} \<subseteq> {the x}" by auto
  show "finite {q. q < NPROC \<and> x = Some q \<and> P q}" using sub finite_subset by blast
  show "card {q. q < NPROC \<and> x = Some q \<and> P q} \<le> 1" using card_mono [OF _ sub] by simp
qed

lemma turns_left_bound: "turns_left s \<le> 2 * NPROC"
proof (cases "{q. q < NPROC \<and> initproc s = Some q \<and> state (procs s q) = RUNNABLE} = {}")
  case True
  have "card {q. q < NPROC \<and> initproc s \<noteq> Some q \<and> live (procs s q)} \<le> card {0..<NPROC}" by (rule card_mono) auto
  then show ?thesis unfolding turns_left_def True by simp
next
  case False
  then obtain i where i: "i < NPROC" "initproc s = Some i" by auto
  have "card {q. q < NPROC \<and> initproc s \<noteq> Some q \<and> live (procs s q)} \<le> card ({0..<NPROC} - {i})" by (rule card_mono) (use i(2) in auto)
  then have "card {q. q < NPROC \<and> initproc s \<noteq> Some q \<and> live (procs s q)} \<le> NPROC - 1" using i(1) by simp
  moreover have "card {q. q < NPROC \<and> initproc s = Some q \<and> state (procs s q) = RUNNABLE} \<le> 1" by (rule init_slots)
  moreover have "0 < NPROC" using i(1) by simp
  ultimately show ?thesis unfolding turns_left_def by linarith
qed

lemma turns_left_decreases:
  fixes s u :: traced
  assumes p: "p \<in> runnable_set (procs s)" and ip: "initproc u = initproc s"
    and st: "state (procs u p) = (if initproc s = Some p then SLEEPING else ZOMBIE)"
    and live: "\<forall>q. q \<noteq> p \<and> live (procs u q) \<longrightarrow> live (procs s q)"
  shows "turns_left u < turns_left s"
proof -
  let ?A = "\<lambda>s :: traced. {q. q < NPROC \<and> initproc s \<noteq> Some q \<and> live (procs s q)}"
  let ?B = "\<lambda>s :: traced. {q. q < NPROC \<and> initproc s = Some q \<and> state (procs s q) = RUNNABLE}"
  have lp: "p < NPROC" "live (procs s p)" "state (procs s p) = RUNNABLE" using p by (simp_all add: runnable_set_def live_def)
  show ?thesis
  proof (cases "initproc s = Some p")
    case True
    have "?A u \<subseteq> ?A s" using live True ip by auto
    then have "card (?A u) \<le> card (?A s)" by (rule card_mono [rotated]) simp
    moreover have "?B u = {}" "p \<in> ?B s" using True ip st lp by auto
    then have "card (?B u) = 0" "0 < card (?B s)" using init_slots(1) [of "initproc s" "\<lambda>q. state (procs s q) = RUNNABLE"] by (simp, auto simp: card_gt_0_iff)
    ultimately show ?thesis unfolding turns_left_def by linarith
  next
    case False
    have "\<not> live (procs u p)" using st False by (simp add: live_def)
    then have "?A u \<subseteq> ?A s - {p}" using live ip by auto
    then have "card (?A u) \<le> card (?A s - {p})" by (rule card_mono [rotated]) simp
    moreover have "p \<in> ?A s" using lp False by simp
    then have "card (?A s - {p}) < card (?A s)" by (intro psubset_card_mono) auto
    moreover have "card (?B u) \<le> 1" by (rule init_slots)
    ultimately show ?thesis unfolding turns_left_def by linarith
  qed
qed

interpretation fcfs: scheduling_policy "scheduler_iter (turn work) c" "\<lambda>s. runnable_set (procs s)"
  "\<lambda>s. serves work \<and> winds_down work \<and> sched_ready s \<and> tp s = c" turns_left for work c
proof unfold_locales
  fix s :: traced
  assume s: "serves work \<and> winds_down work \<and> sched_ready s \<and> tp s = c" and "runnable_set (procs s) \<noteq> {}"
  then obtain p u where u: "scheduler_iter (turn work) c s = Ok () u" "p \<in> runnable_set (procs s)" "sched_ready u" "tp u = c" "initproc u = initproc s"
    "state (procs u p) = (if initproc s = Some p then SLEEPING else ZOMBIE)" "\<forall>q. q \<noteq> p \<and> live (procs u q) \<longrightarrow> live (procs s q)"
    using fcfs_round [of work s] by blast
  then show "\<exists>t. scheduler_iter (turn work) c s = Ok () t \<and> (serves work \<and> winds_down work \<and> sched_ready t \<and> tp t = c) \<and> turns_left t < turns_left s"
    using turns_left_decreases [OF u(2,5,6,7)] s by blast
next
  fix s :: traced
  assume s: "serves work \<and> winds_down work \<and> sched_ready s \<and> tp s = c" "runnable_set (procs s) = {}"
  then show "\<exists>t. scheduler_iter (turn work) c s = Ok () t \<and> (serves work \<and> winds_down work \<and> sched_ready t \<and> tp t = c) \<and> runnable_set (procs t) = {}"
    using fcfs_round_idle(1) [of s "turn work"] fcfs_round_idle(2-4) [of s] by (intro exI [of _ "settle (irqs_off s)"]) simp
qed

section \<open>Round robin\<close>

text \<open>The saved scheduler runs every runnable process of the table once per pass.\<close>

lemma rr_one_unfold:
  fixes s :: traced
  assumes s: "sched_ready s"
  shows "state (procs s p) = RUNNABLE \<Longrightarrow> rr_one run (tp s) p s = kthen (run p) (switch_back (tp s) p) (dispatched p s)"
    "state (procs s p) \<noteq> RUNNABLE \<Longrightarrow> rr_one run (tp s) p s = Ok () (settle s)"
proof -
  have free: "lock_free (L_proc p) (locks s)" and ok: "irq_state_ok s" using s by (simp_all add: sched_ready_def sched_idle_def)
  show "rr_one run (tp s) p s = kthen (run p) (switch_back (tp s) p) (dispatched p s)" if "state (procs s p) = RUNNABLE"
    using that acquire_acquired [OF free]
    by (simp add: rr_one_def get_proc_def upd_proc_def upd_cpu_cproc dispatched_def switch_back_def acquired_def split: outcome.split)
  show "rr_one run (tp s) p s = Ok () (settle s)" if "state (procs s p) \<noteq> RUNNABLE"
    using that acquire_acquired [OF free] release_acquired [OF ok free] by (simp add: rr_one_def get_proc_def)
qed

lemma turns_left_settle [simp]: "turns_left (settle s) = turns_left s" "turns_left (irqs_on s) = turns_left s"
  by (simp_all add: turns_left_def) (simp_all add: settle_def irqs_on_def)

lemma rr_pass:
  fixes s :: traced
  assumes w: "serves work" "winds_down work" and s: "sched_ready s" and ps: "set ps \<subseteq> {..<NPROC}"
  shows "\<exists>u. for_each (rr_one (turn work) (tp s)) ps s = Ok () u \<and> sched_ready u \<and> tp u = tp s \<and> turns_left u \<le> turns_left s \<and>
    (set ps \<inter> runnable_set (procs s) \<noteq> {} \<longrightarrow> turns_left u < turns_left s) \<and>
    (runnable_set (procs s) = {} \<longrightarrow> runnable_set (procs u) = {})"
  using s ps
proof (induction ps arbitrary: s)
  case Nil
  then show ?case by simp
next
  case (Cons p ps)
  have p: "p < NPROC" and rest: "set ps \<subseteq> {..<NPROC}" using Cons.prems(2) by simp_all
  show ?case
  proof (cases "state (procs s p) = RUNNABLE")
    case True
    then have pr: "p \<in> runnable_set (procs s)" using p by (simp add: runnable_set_def)
    obtain t where t: "rr_one (turn work) (tp s) p s = Ok () t" "sched_ready t" "tp t = tp s" "initproc t = initproc s"
      "state (procs t p) = (if initproc s = Some p then SLEEPING else ZOMBIE)" "\<forall>q. q \<noteq> p \<and> live (procs t q) \<longrightarrow> live (procs s q)"
      using turn_round [OF w(1) Cons.prems(1) p] rr_one_unfold(1) [OF Cons.prems(1) True, of "turn work"] w(2) by auto
    have less: "turns_left t < turns_left s" by (rule turns_left_decreases [OF pr t(4,5,6)])
    obtain u where "for_each (rr_one (turn work) (tp s)) ps t = Ok () u" "sched_ready u" "tp u = tp s" "turns_left u \<le> turns_left t"
      using Cons.IH [OF t(2) rest] t(3) by auto
    then show ?thesis using t(1) less pr by (intro exI [of _ u]) auto
  next
    case False
    then have one: "rr_one (turn work) (tp s) p s = Ok () (settle s)" by (rule rr_one_unfold(2) [OF Cons.prems(1)])
    have "p \<notin> runnable_set (procs s)" using False by (simp add: runnable_set_def)
    then show ?thesis using Cons.IH [of "settle s"] Cons.prems(1) rest one by simp
  qed
qed

interpretation rr: scheduling_policy "rr_scheduler_iter (turn work) c" "\<lambda>s. runnable_set (procs s)"
  "\<lambda>s. serves work \<and> winds_down work \<and> sched_ready s \<and> tp s = c" turns_left for work c
proof unfold_locales
  fix s :: traced
  assume s: "serves work \<and> winds_down work \<and> sched_ready s \<and> tp s = c"
  have all: "{0..<NPROC} \<inter> runnable_set tab = runnable_set tab" "{0..<NPROC} \<subseteq> {..<NPROC}" for tab by (auto simp: runnable_set_def)
  have "intr_on s = Ok () (irqs_on s)" by (simp add: intr_on_def irqs_on_def)
  then obtain u where u: "rr_scheduler_iter (turn work) c s = Ok () u" "sched_ready u" "tp u = c"
    "runnable_set (procs s) \<noteq> {} \<longrightarrow> turns_left u < turns_left s" "runnable_set (procs s) = {} \<longrightarrow> runnable_set (procs u) = {}"
    using rr_pass [of work "irqs_on s" "[0..<NPROC]"] s by (auto simp: rr_scheduler_iter_def all)
  then show "\<exists>t. rr_scheduler_iter (turn work) c s = Ok () t \<and> (serves work \<and> winds_down work \<and> sched_ready t \<and> tp t = c) \<and> turns_left t < turns_left s"
    if "runnable_set (procs s) \<noteq> {}" using s that by blast
  show "\<exists>t. rr_scheduler_iter (turn work) c s = Ok () t \<and> (serves work \<and> winds_down work \<and> sched_ready t \<and> tp t = c) \<and> runnable_set (procs t) = {}"
    if "runnable_set (procs s) = {}" using s that u by blast
qed

text \<open>Under round robin too no process waits forever.\<close>

theorem rr_no_starvation:
  fixes s :: traced
  assumes "serves work" "winds_down work" "sched_ready s"
  shows "\<exists>t. repeat_op (2 * NPROC) (rr_scheduler_iter (turn work) (tp s)) s = Ok () t \<and> sched_ready t \<and> runnable_set (procs t) = {}"
  using rr.drains [of work s "tp s", OF _ turns_left_bound] assms by blast

section \<open>An example\<close>

text \<open>The table of the scheduler's examples; each process wakes the sleepers on \<open>ticks\<close> and exits.\<close>

definition sample_traced :: traced where
  "sample_traced = kproc.extend sample_kproc \<lparr>dispatch_log = []\<rparr>"

lemma sample_traced_simps [simp]: "procs sample_traced = sample_table" "tp sample_traced = 0" "dispatch_log sample_traced = []"
  "locks sample_traced = locks sample_kproc" "cpus sample_traced = cpus sample_kproc" "sstatus sample_traced = sstatus sample_kproc"
  using sample_kproc_simps(1,2) by (simp_all add: sample_traced_def kproc.defs)

lemma sample_traced_ready: "sched_ready sample_traced"
proof -
  have "lock_free l (locks sample_kproc)" for l
    by (simp add: lock_free_def sample_kproc_def kmachine.defs boot_machine_def kernel.defs idle_kernel_def)
  then show ?thesis using sample_idle by (simp add: sched_ready_def sched_idle_def irq_state_ok_def proc_locks_free_def)
qed

lemma wakeup_work:
  fixes s :: traced
  assumes s: "fs_ready p s"
  shows "\<exists>t. wakeup ch s = Ok () t \<and> fs_ready p t \<and> tp t = tp s \<and> initproc t = initproc s \<and> dispatch_log t = dispatch_log s \<and> woken p (procs s) (procs t)"
proof -
  let ?t = "(settle s)\<lparr>procs := wakeup_table (Some p) ch (procs s)\<rparr>"
  have "wakeup ch s = Ok () ?t" using wakeup_effect [of s ch] fs_readyD [OF s] by (simp add: proc_locks_free_def)
  moreover have "fs_ready p ?t" using s by (simp add: fs_ready_def settle_cpus wakeup_table_def map_table_def awaken_def)
  moreover have "initproc ?t = initproc s" "dispatch_log ?t = dispatch_log s" by (simp_all add: settle_def)
  moreover have "woken p (procs s) (procs ?t)" by (simp add: woken_by_wakeup)
  ultimately show ?thesis by (intro exI [of _ ?t]) simp
qed

lemma sample_work: "serves (\<lambda>p. wakeup Chan_ticks)" "winds_down (\<lambda>p. wakeup Chan_ticks)"
proof -
  show "serves (\<lambda>p. wakeup Chan_ticks)" unfolding serves_def using wakeup_work woken_waits(1) by meson
  show "winds_down (\<lambda>p. wakeup Chan_ticks)" unfolding winds_down_def using wakeup_work woken_waits(2) by meson
qed

section \<open>Properties\<close>

text \<open>
  C6: order of arrival. Let the FCFS scheduler run for any number of rounds, each dispatched process
  going on until it sleeps or exits through \<open>kexit\<close>, which wakes its parent and init. Whoever was
  waiting for the CPU at the start has been dispatched or still waits, and each time a process with a
  larger pid was dispatched, it had been dispatched before.
\<close>
theorem fcfs_order_of_arrival:
  fixes s :: traced
  assumes "serves work" "sched_ready s"
  shows "\<exists>t log. repeat_op n (scheduler_iter (turn work) (tp s)) s = Ok () t \<and> dispatch_log t = dispatch_log s @ log \<and>
    (\<forall>p \<in> runnable_set (procs s). pid (procs s p) \<in> set log \<or> p \<in> runnable_set (procs t)) \<and>
    (\<forall>p \<in> runnable_set (procs s). \<forall>i < length log. pid (procs s p) < log ! i \<longrightarrow> (\<exists>j < i. log ! j = pid (procs s p)))"
  by (rule fcfs_rounds [OF assms])

theorem fcfs_order_of_arrival_witness:
  "\<exists>t i j. repeat_op 128 (scheduler_iter (turn (\<lambda>p. wakeup Chan_ticks)) 0) sample_traced = Ok () t \<and>
     j < i \<and> i < length (dispatch_log t) \<and> dispatch_log t ! i = 3 \<and> dispatch_log t ! j = 2"
proof -
  obtain t log where t: "repeat_op 128 (scheduler_iter (turn (\<lambda>p. wakeup Chan_ticks)) 0) sample_traced = Ok () t" "dispatch_log t = log"
    "\<forall>p \<in> {0, 1}. pid (sample_table p) \<in> set log \<or> p \<in> runnable_set (procs t)"
    "\<forall>p \<in> {0, 1}. \<forall>i < length log. pid (sample_table p) < log ! i \<longrightarrow> (\<exists>j < i. log ! j = pid (sample_table p))"
    using fcfs_order_of_arrival [OF sample_work(1) sample_traced_ready, of 128] by (auto simp: sample_runnable)
  have "runnable_set (procs t) = {}"
    using fcfs.drains [of "\<lambda>p. wakeup Chan_ticks" sample_traced 0, OF _ turns_left_bound] sample_work sample_traced_ready t(1) by (simp add: NPROC_def)
  then have "3 \<in> set log" using t(3) by (simp add: sample_pids)
  then obtain i where i: "i < length log" "log ! i = 3" by (auto simp: in_set_conv_nth)
  moreover obtain j where "j < i" "log ! j = 2" using t(4) i by (auto simp: sample_pids)
  ultimately show ?thesis using t(1,2) by blast
qed

text \<open>
  C24: no starvation under FCFS. When every process works without sleeping, creates no other and then
  exits through \<open>kexit\<close> (init goes back to waiting for its children), 2 * NPROC rounds of the scheduler
  dispatch every process that was waiting, and nobody is left waiting, although every exit wakes
  the parent and init. The scheduler does not panic or stall and holds no lock at the end.
\<close>
theorem fcfs_no_starvation:
  fixes s :: traced
  assumes "serves work" "winds_down work" "sched_ready s"
  shows "\<exists>t log. repeat_op (2 * NPROC) (scheduler_iter (turn work) (tp s)) s = Ok () t \<and> sched_ready t \<and>
    runnable_set (procs t) = {} \<and> dispatch_log t = dispatch_log s @ log \<and> (\<forall>p \<in> runnable_set (procs s). pid (procs s p) \<in> set log)"
proof -
  obtain t where t: "repeat_op (2 * NPROC) (scheduler_iter (turn work) (tp s)) s = Ok () t" "sched_ready t" "runnable_set (procs t) = {}"
    using fcfs.drains [of work s "tp s", OF _ turns_left_bound] assms by blast
  then show ?thesis using fcfs_rounds [OF assms(1,3), of "2 * NPROC"] by auto
qed

theorem fcfs_no_starvation_witness:
  "\<exists>t. repeat_op 128 (scheduler_iter (turn (\<lambda>p. wakeup Chan_ticks)) 0) sample_traced = Ok () t \<and>
     runnable_set (procs t) = {} \<and> {2, 3} \<subseteq> set (dispatch_log t)"
proof -
  obtain t log where "repeat_op (2 * NPROC) (scheduler_iter (turn (\<lambda>p. wakeup Chan_ticks)) 0) sample_traced = Ok () t" "runnable_set (procs t) = {}"
    "dispatch_log t = log" "\<forall>p \<in> {0, 1}. pid (sample_table p) \<in> set log"
    using fcfs_no_starvation [OF sample_work sample_traced_ready] by (auto simp: sample_runnable)
  then show ?thesis by (intro exI [of _ t]) (simp add: sample_pids NPROC_def)
qed

end
