(* ===== verification/Spec2Isabelle.thy ===== *)
theory Spec2Isabelle
  imports Xv6_Prelude Xv6_Riscv Xv6_Spinlock Xv6_String Xv6_Kalloc Xv6_Sched Xv6_Vm Xv6_Proc Xv6_Sleeplock Xv6_Virtio Xv6_Bio Xv6_Bytes Xv6_Log Xv6_Recovery
    Xv6_Fs Xv6_Inode Xv6_Dir Xv6_Console Xv6_File Xv6_Ring Xv6_Pipe Xv6_Sysfile Xv6_Exec Xv6_Trap Xv6_Boot Xv6_Ulib Xv6_Utils Xv6_Umalloc Xv6_Sh
    Xv6_Runcmd Xv6_Mkfs Xv6_Tty Xv6_Fork Xv6_Fcfs
begin

text \<open>
  A verification library of the xv6 system of this repository: the kernel (src/code/kernel), a small
  Unix for multi-core RISC-V, here with a first-come-first-served scheduler in proc.c and the system calls
  getppid and getidade; the user library, shell and utilities (src/code/user); and the builder of
  the initial file system (src/code/mkfs).

  \<^bold>\<open>How the model is built.\<close> A C function is an operation of type \<open>('s, 'a) kop\<close> (theory Xv6_Prelude): it
  takes the kernel state and returns \<open>Ok\<close> with a value and the new state, \<open>Panic\<close> with the message of
  \<open>panic()\<close>, \<open>Spin\<close> when the thread waits for a lock another hart holds, or \<open>Sleep\<close> when its process has
  gone to sleep and switched to the scheduler. A wait loop (\<open>while(cond) sleep(...)\<close>) is one pass: it
  ends in \<open>Sleep\<close> if the condition holds, and the process runs the operation's loop again once woken.
  Waiting for the disk and for the UART is different: the device always answers, so these loops run
  through the interrupt handler of the device (\<open>sleep_through\<close>). Statements are sequenced by \<open>kbind\<close> and
  \<open>kthen\<close>, loops over tables are \<open>for_each\<close> and \<open>scan\<close>, other loops are recursive functions with a
  termination proof. The global variables of a C file are the fields of a record, and each component
  extends the record of the components below it: \<open>kernel\<close> (harts, locks), \<open>kmachine\<close> (memory, free
  list), \<open>kproc\<close> (processes), \<open>kvm\<close>, \<open>kdisk\<close> (buffers, descriptor rings, the disk), \<open>klog\<close>, \<open>kfs\<close>,
  \<open>kcons\<close>, \<open>kfile\<close>, \<open>ktrap\<close>, \<open>kboot\<close>. C integers are words of their width where overflow matters.

  \<^bold>\<open>Theories and sources.\<close>
  \<^item> Xv6_Prelude: outcomes, sequencing, loops, frame rules (\<open>keeps\<close>). Xv6_Riscv: constants and macros of
    param.h, memlayout.h, riscv.h.
  \<^item> Xv6_Spinlock: spinlock.c, interrupt control; several harts as an inductive step relation over the
    atomic accesses of \<open>acquire\<close> and \<open>release\<close> (mutual exclusion, no panic, interrupts off while holding).
  \<^item> Xv6_String: string.c on byte memory. Xv6_Bytes: little-endian fields of blocks.
  \<^item> Xv6_Kalloc: kalloc.c, the free list threaded through the free pages (no page twice, round trip).
  \<^item> Xv6_Sched: the process table, \<open>sleep\<close>, \<open>wakeup\<close>, \<open>sched\<close>, \<open>kkill\<close>, \<open>reparent\<close> and the schedulers of
    proc.c and proc_RR_backup.c (the choice of a round, sleeping and being woken). Xv6_Fcfs: many rounds of the
    schedulers on processes that run until they sleep or end in \<open>kexit\<close> (order of dispatch; with the
    locale \<open>scheduling_policy\<close>, interpreted on both schedulers, that every waiting process gets its turn).
  \<^item> Xv6_Vm: vm.c, Sv39 page tables in memory (mapping, unmapping, copying to and from user space).
  \<^item> Xv6_Proc: process creation, \<open>growproc\<close>, \<open>kwait\<close>, syscall.c arguments, sysproc.c.
  \<^item> Xv6_Sleeplock, Xv6_Virtio, Xv6_Bio: sleeplock.c, the request path of virtio_disk.c against a device
    that reads the rings once notified, refuses chains whose lengths or flags are not those of a block
    request, and raises an interrupt the driver has to acknowledge; and the buffer cache of bio.c with its linked list.
  \<^item> Xv6_Log: log.c. Xv6_Recovery: an abstract redo log (locale \<open>redo_log\<close>), its crash atomicity, and
    the proof that \<open>commit\<close> and \<open>recover_from_log\<close> implement it on the disk.
  \<^item> Xv6_Fs: fs.c. Xv6_Inode: the effect of visiting, changing and logging a block; block allocation,
    inodes on disk. Xv6_Dir: reading a file against its contents, the search of a directory, path
    elements.
  \<^item> Xv6_Ring: an abstract ring buffer of free-running counters (locale \<open>ring\<close>). Xv6_Pipe: its
    interpretation on the pipes of pipe.c (writes append to the queue, reads take from its front).
    Xv6_Tty: its interpretation on the input buffer of console.c (the interrupt handler edits a line,
    \<open>consoleread\<close> hands out committed lines).
  \<^item> Xv6_Console: uart.c, console.c, printk.c. Xv6_File: file.c and pipe.c. Xv6_Sysfile: sysfile.c.
    Xv6_Exec: exec.c, \<open>kfork\<close>, \<open>kexit\<close>, \<open>userinit\<close>. Xv6_Fork: what \<open>uvmcopy\<close> and \<open>kfork\<close> achieve (the
    child is a copy of its parent on pages of its own). Xv6_Trap: trap.c, plic.c, the system call table.
  \<^item> Xv6_Boot: start.c, main.c and the parts of the drivers that run once: the registers of a hart up to
    the entry of \<open>main\<close>, the register setup of the UART and the virtio handshake (the device's answers are
    a parameter, a function of what was written so far, that follows the registers of the virtio specification).
  \<^item> Xv6_Ulib: ulib.c and printf.c. Xv6_Umalloc: umalloc.c, its circular free list in user memory (blocks
    handed out are disjoint, freed memory is the list's again). Xv6_Utils: grep, cat, wc, ls,
    echo, kill, ln, mkdir, rm and sync, over the system calls of an environment that is their parameter;
    the matcher of grep against the language of a pattern.
  \<^item> Xv6_Sh: the tokens and the recursive-descent parser of sh.c (it ends on every line, and reads back
    printed commands). Xv6_Runcmd: \<open>runcmd\<close>, the command loop and init.c as trees of system calls, and
    the descriptors of the programs a command line starts.
  \<^item> Xv6_Mkfs: mkfs.c on the on-disk structures of Xv6_Fs.

  \<^bold>\<open>Bounds.\<close> \<open>freewalk\<close> recurses over three levels, as an Sv39 table has; the walks of the buffer list
  have fuel NBUF + 1, enough for the NBUF buffers of the list; the completion loop of the disk has fuel
  NUM + 1, as many requests as descriptors; \<open>printint\<close> has the 20 places of its buffer, enough for
  64 bits in base 10; \<open>kill_line\<close> and \<open>uartintr_rx\<close> run over what is in the input buffers. The shell's parser has fuel
  \<open>4 * length + 4\<close>: \<open>parsecmd_ends\<close> shows that it is enough for every line. The endless loops of the shell and
  of init are unrolled for a number of rounds that is a parameter; \<open>A_cut\<close> ends the tree there.

  \<^bold>\<open>Conventions.\<close> Strings and structures in C locals are byte lists; when \<open>readi\<close> fills a C local, the bytes
  read so far are its result. Signed negation wraps. The processes of Xv6_Runcmd run under an abstract
  semantics of their system calls (\<open>execs\<close>: a table of descriptors without a bound, in which \<open>open\<close>, \<open>pipe\<close>
  and \<open>fork\<close> may fail and \<open>dup\<close>, which follows a \<open>close\<close>, does not), not under the kernel's model. The theorems on the disk take the arrays of a buffer
  and of a sector to have their C lengths. A pipe's fields are kept beside the
  memory, under the address of its page. Calls of \<open>printk\<close> inside other kernel functions change only the
  console history and are left out. A panic stops the machine. The counters of mkfs are natural numbers, its
  host is little-endian and takes every write.

  \<^bold>\<open>Not modelled.\<close> The assembly (entry.S, swtch.S, trampoline.S, kernelvec.S and the stubs of usys.pl),
  whose effect is part of the operations that call it; the test programs under user/ (usertests, grind,
  forktest, stressfs, logstress, forphan, dorphan, zombie, teste), which only exercise the kernel.
\<close>

end
